(* ===== verification/Prelude.thy ===== *)
theory Prelude
  imports Main "HOL-Library.Word" "HOL-Library.List_Lexorder"
begin

text \<open>
  Shared vocabulary of the development: the machine types of the C and C++ sources, byte
  strings, and the generic facts on lists and words that the component theories use.

  A \<open>char\<close> buffer, a \<open>std::string\<close> and the bytes a \<open>Slice\<close> refers to are all a
  \<open>bytes\<close>, a list of 8-bit words. Integers that are stored, shifted or compared with a
  fixed width keep it (\<open>u32\<close>, \<open>u64\<close>); a \<open>size_t\<close> that only counts the bytes of a
  string in memory is a \<open>nat\<close>.
\<close>

unbundle bit_operations_syntax

type_synonym byte = "8 word"
type_synonym bytes = "8 word list"
type_synonym u16 = "16 word"
type_synonym u32 = "32 word"
type_synonym u64 = "64 word"

text \<open>A string literal of the sources, as bytes.\<close>

definition lit :: "string \<Rightarrow> bytes" where
  "lit s = map of_char s"

lemma lit_simps [simp]:
  "lit [] = []"
  "lit (c # cs) = of_char c # lit cs"
  by (simp_all add: lit_def)

lemma length_lit [simp]: "length (lit s) = length s"
  by (simp add: lit_def)

text \<open>Facts about decoding the result of an encoder, and about fixed-width layouts.\<close>

named_theorems roundtrip \<open>decoding what was encoded gives it back\<close>
named_theorems layout \<open>lengths of encodings\<close>

text \<open>What \<open>printf\<close> writes for \<open>%llu\<close>.\<close>

fun decimal :: "nat \<Rightarrow> bytes" where
  "decimal n = (if n < 10 then [word_of_nat (48 + n)]
     else decimal (n div 10) @ [word_of_nat (48 + n mod 10)])"

declare decimal.simps [simp del]

text \<open>\<open>memcmp\<close>: negative, zero or positive by the first byte that differs, bytes being
  unsigned. Only the sign of the C function's result is specified.\<close>

fun memcmp :: "bytes \<Rightarrow> bytes \<Rightarrow> int" where
  "memcmp (a # as) (b # bs) = (if a < b then -1 else if b < a then 1 else memcmp as bs)"
| "memcmp _ _ = 0"

subsection \<open>Lists\<close>

lemma take_append_length [simp]: "length xs = n \<Longrightarrow> take n (xs @ ys) = xs"
  by simp

lemma drop_append_length [simp]: "length xs = n \<Longrightarrow> drop n (xs @ ys) = ys"
  by simp

lemma list_all_nth_iff: "list_all P xs \<longleftrightarrow> (\<forall>i < length xs. P (xs ! i))"
  by (simp add: list_all_length)

lemma nth_append_length_add [simp]: "(xs @ ys) ! (length xs + i) = ys ! i"
  by (simp add: nth_append)

lemma fold_append: "fold (\<lambda>x dst. dst @ f x) xs dst = dst @ concat (map f xs)"
  by (induction xs arbitrary: dst) auto

subsection \<open>Words\<close>

lemma unat_of_nat_u32: "n < 2 ^ 32 \<Longrightarrow> unat (word_of_nat n :: u32) = n"
  by (simp add: unat_of_nat take_bit_nat_eq_self)

lemma unat_of_nat_u64: "n < 2 ^ 64 \<Longrightarrow> unat (word_of_nat n :: u64) = n"
  by (simp add: unat_of_nat take_bit_nat_eq_self)

lemma word_eq_nat_iff: "(a = b) \<longleftrightarrow> unat a = unat b" for a b :: "'a::len word"
  by (rule word_unat_eq_iff)

lemma word_of_nat_unat: "word_of_nat (unat w) = w"
  by simp

lemma unat_less_exp: "unat w < 2 ^ LENGTH('a)" for w :: "'a::len word"
  by (rule unsigned_less)

lemma unat_u8_less [simp]: "unat (b :: byte) < 256"
  using unsigned_less [of b] by simp

lemma unat_drop_bit: "unat (drop_bit n w) = unat w div 2 ^ n" for w :: "'a::len word"
  by (simp only: unsigned_drop_bit_eq) (simp add: drop_bit_eq_div take_bit_nat_eq_self)

lemma ucast_and_0xff: "ucast (v AND 0xff) = (ucast v :: byte)" for v :: "'a::len word"
proof -
  have "(0xff :: 'a word) = mask 8" by (simp add: mask_eq_exp_minus_1)
  then show ?thesis
    by (simp add: bit_eq_iff bit_ucast_iff bit_and_iff bit_mask_iff) (auto dest: bit_imp_le_length)
qed

lemma ucast_ucast_byte: "8 < LENGTH('a) \<Longrightarrow> ucast (ucast w :: byte) = (take_bit 8 w :: 'a word)"
  for w :: "'a::len word"
  by (rule bit_word_eqI) (auto simp: bit_simps)

lemma take_bit_or_push_drop: "take_bit n w OR push_bit n (drop_bit n w) = w"
  for w :: "'a::len word"
  by (rule bit_word_eqI) (auto simp: bit_simps, metis le_add_diff_inverse not_less)

lemma take_or_push_take:
  "take_bit n w OR push_bit n (take_bit m (drop_bit n w)) = take_bit (n + m) w"
  for w :: "'a::len word"
proof (rule bit_word_eqI)
  fix i assume "i < LENGTH('a)"
  then show "bit (take_bit n w OR push_bit n (take_bit m (drop_bit n w))) i
    = bit (take_bit (n + m) w) i"
    by (cases "i < n") (auto simp: bit_simps)
qed

end
