(* ===== verification/Coding.thy ===== *)
theory Coding
  imports Prelude
begin

text \<open>
  \<open>util/coding.h\<close> and \<open>util/coding.cc\<close>: fixed-width little-endian integers, base-128
  varints and length-prefixed strings. A \<open>Put\<close> routine appends to its string; a \<open>Get\<close>
  routine takes the bytes between \<open>p\<close> and \<open>limit\<close> and returns the value together with the
  bytes that follow it, or \<^term>\<open>None\<close> where the code returns \<open>nullptr\<close> or \<open>false\<close>. A
  \<open>Decode\<close> routine does no bounds check in the code; here a read past the end of the buffer
  is \<^term>\<open>None\<close>.
\<close>

subsection \<open>Fixed-width integers\<close>

text \<open>The object representation of an integer, as \<open>memcpy\<close> sees it on a machine whose
  \<open>port::kLittleEndian\<close> is the first argument.\<close>

definition native_bytes32 :: "bool \<Rightarrow> u32 \<Rightarrow> bytes" where
  "native_bytes32 le v =
     (let bs = map (\<lambda>i. ucast (drop_bit (8 * i) v)) [0, 1, 2, 3] in if le then bs else rev bs)"

definition native_bytes64 :: "bool \<Rightarrow> u64 \<Rightarrow> bytes" where
  "native_bytes64 le v =
     (let bs = map (\<lambda>i. ucast (drop_bit (8 * i) v)) [0, 1, 2, 3, 4, 5, 6, 7]
      in if le then bs else rev bs)"

definition EncodeFixed32_on :: "bool \<Rightarrow> u32 \<Rightarrow> bytes" where
  "EncodeFixed32_on kLittleEndian v =
     (if kLittleEndian then native_bytes32 kLittleEndian v
      else [ucast (v AND 0xff), ucast (drop_bit 8 v AND 0xff), ucast (drop_bit 16 v AND 0xff),
            ucast (drop_bit 24 v AND 0xff)])"

definition EncodeFixed64_on :: "bool \<Rightarrow> u64 \<Rightarrow> bytes" where
  "EncodeFixed64_on kLittleEndian v =
     (if kLittleEndian then native_bytes64 kLittleEndian v
      else [ucast (v AND 0xff), ucast (drop_bit 8 v AND 0xff), ucast (drop_bit 16 v AND 0xff),
            ucast (drop_bit 24 v AND 0xff), ucast (drop_bit 32 v AND 0xff),
            ucast (drop_bit 40 v AND 0xff), ucast (drop_bit 48 v AND 0xff),
            ucast (drop_bit 56 v AND 0xff)])"

abbreviation EncodeFixed32 :: "u32 \<Rightarrow> bytes" where
  "EncodeFixed32 \<equiv> EncodeFixed32_on True"

abbreviation EncodeFixed64 :: "u64 \<Rightarrow> bytes" where
  "EncodeFixed64 \<equiv> EncodeFixed64_on True"

text \<open>Reading an integer back: the bytes in memory order, and the machine's byte order.\<close>

fun native_read32 :: "bool \<Rightarrow> bytes \<Rightarrow> u32 option" where
  "native_read32 le (b0 # b1 # b2 # b3 # _) =
     (let w = (\<lambda>a b c d. ucast a OR push_bit 8 (ucast b) OR push_bit 16 (ucast c)
                 OR push_bit 24 (ucast d))
      in Some (if le then w b0 b1 b2 b3 else w b3 b2 b1 b0))"
| "native_read32 _ _ = None"

fun DecodeFixed32_on :: "bool \<Rightarrow> bytes \<Rightarrow> u32 option" where
  "DecodeFixed32_on kLittleEndian (p0 # p1 # p2 # p3 # p) =
     (if kLittleEndian then native_read32 kLittleEndian (p0 # p1 # p2 # p3 # p)
      else Some (ucast p0 OR push_bit 8 (ucast p1) OR push_bit 16 (ucast p2)
                 OR push_bit 24 (ucast p3)))"
| "DecodeFixed32_on _ _ = None"

fun native_read64 :: "bool \<Rightarrow> bytes \<Rightarrow> u64 option" where
  "native_read64 le (b0 # b1 # b2 # b3 # b4 # b5 # b6 # b7 # _) =
     (let bs = (if le then [b0, b1, b2, b3, b4, b5, b6, b7]
                else [b7, b6, b5, b4, b3, b2, b1, b0])
      in Some (foldr (\<lambda>b acc. ucast b OR push_bit 8 acc) bs 0))"
| "native_read64 _ _ = None"

definition DecodeFixed64_on :: "bool \<Rightarrow> bytes \<Rightarrow> u64 option" where
  "DecodeFixed64_on kLittleEndian p =
     (if kLittleEndian then native_read64 kLittleEndian p
      else case (DecodeFixed32_on kLittleEndian p, DecodeFixed32_on kLittleEndian (drop 4 p)) of
             (Some lo, Some hi) \<Rightarrow> Some (push_bit 32 (ucast hi) OR ucast lo)
           | _ \<Rightarrow> None)"

abbreviation DecodeFixed32 :: "bytes \<Rightarrow> u32 option" where
  "DecodeFixed32 \<equiv> DecodeFixed32_on True"

abbreviation DecodeFixed64 :: "bytes \<Rightarrow> u64 option" where
  "DecodeFixed64 \<equiv> DecodeFixed64_on True"

definition PutFixed32 :: "bytes \<Rightarrow> u32 \<Rightarrow> bytes" where
  "PutFixed32 dst v = dst @ EncodeFixed32 v"

definition PutFixed64 :: "bytes \<Rightarrow> u64 \<Rightarrow> bytes" where
  "PutFixed64 dst v = dst @ EncodeFixed64 v"

lemma EncodeFixed32_portable: "EncodeFixed32_on le v = EncodeFixed32_on True v"
  by (simp add: EncodeFixed32_on_def native_bytes32_def Let_def ucast_and_0xff)

lemma EncodeFixed64_portable: "EncodeFixed64_on le v = EncodeFixed64_on True v"
  by (simp add: EncodeFixed64_on_def native_bytes64_def Let_def ucast_and_0xff)

lemma DecodeFixed32_portable: "DecodeFixed32_on le p = DecodeFixed32_on True p"
  by (cases "(le, p)" rule: DecodeFixed32_on.cases) simp_all

lemma octets_of_halves:
  fixes b0 :: byte
  shows "push_bit 32 (ucast (ucast b4 OR push_bit 8 (ucast b5) OR push_bit 16 (ucast b6) OR push_bit 24 (ucast b7) :: u32))
      OR ucast (ucast b0 OR push_bit 8 (ucast b1) OR push_bit 16 (ucast b2) OR push_bit 24 (ucast b3) :: u32)
    = (foldr (\<lambda>b acc. ucast (b :: byte) OR push_bit 8 acc) [b0, b1, b2, b3, b4, b5, b6, b7] 0 :: u64)"
proof -
  have s: "ucast (push_bit k (ucast b :: u32)) = (push_bit k (ucast b) :: u64)" if "k \<le> 24" for k and b :: byte
    by (rule bit_word_eqI) (use that in \<open>auto simp: bit_simps dest: bit_imp_le_length\<close>)
  have o: "ucast (x OR y) = (ucast x OR ucast y :: u64)" for x y :: u32
    by (rule bit_word_eqI) (auto simp: bit_simps)
  have u: "ucast (ucast b :: u32) = (ucast b :: u64)" for b :: byte
    by (rule bit_word_eqI) (auto simp: bit_simps dest: bit_imp_le_length)
  show ?thesis by (simp add: s o u push_bit_or ac_simps)
qed

lemma DecodeFixed64_portable: "DecodeFixed64_on le p = DecodeFixed64_on True p"
proof (cases "8 \<le> length p")
  case True
  then obtain b0 b1 b2 b3 b4 b5 b6 b7 r where "p = b0 # b1 # b2 # b3 # b4 # b5 # b6 # b7 # r"
    by (cases "(le, p)" rule: native_read64.cases) auto
  then show ?thesis using octets_of_halves [of b4 b5 b6 b7 b0 b1 b2 b3] by (simp add: DecodeFixed64_on_def)
next
  case False
  then have short: "length (drop 4 p) < 4" by simp
  have none: "DecodeFixed32_on le' q = None" if "length q < 4" for le' q
    using that by (cases "(le', q)" rule: DecodeFixed32_on.cases) simp_all
  have "native_read64 True p = None" using False by (cases "(True, p)" rule: native_read64.cases) simp_all
  then show ?thesis using none [OF short] by (simp add: DecodeFixed64_on_def split: option.split)
qed

lemma length_EncodeFixed [layout, simp]:
  "length (EncodeFixed32_on le v) = 4" "length (EncodeFixed64_on le w) = 8"
  by (simp_all add: EncodeFixed32_on_def native_bytes32_def EncodeFixed64_on_def
      native_bytes64_def Let_def)

lemma word32_of_octets:
  "ucast (ucast v :: byte) OR push_bit 8 (ucast (ucast (drop_bit 8 v) :: byte))
   OR push_bit 16 (ucast (ucast (drop_bit 16 v) :: byte))
   OR push_bit 24 (ucast (ucast (drop_bit 24 v) :: byte)) = (v :: u32)"
  using take_or_push_take [of 8 v 8] take_or_push_take [of 16 v 8] take_or_push_take [of 24 v 8]
  by (simp add: ucast_ucast_byte take_bit_word_eq_self flip: or.assoc)

lemma word64_of_octets:
  "foldr (\<lambda>b acc. ucast (b :: byte) OR push_bit 8 acc)
     (map (\<lambda>i. ucast (drop_bit (8 * i) v)) [0, 1, 2, 3, 4, 5, 6, 7]) 0 = (v :: u64)"
proof -
  have 0: "drop_bit 64 v = 0" by (rule bit_word_eqI) (auto simp: bit_simps)
  have s: "take_bit 8 (drop_bit k v) OR push_bit 8 (drop_bit (k + 8) v) = drop_bit k v" for k
    using take_bit_or_push_drop [of 8 "drop_bit k v"] by (simp add: add.commute)
  show ?thesis
    using s [of 56] s [of 48] s [of 40] s [of 32] s [of 24] s [of 16] s [of 8] s [of 0] 0
    by (simp add: ucast_ucast_byte)
qed

lemma DecodeFixed32_EncodeFixed32 [roundtrip, simp]:
  "DecodeFixed32 (EncodeFixed32 v @ rest) = Some v"
  using word32_of_octets [of v]
  by (simp add: EncodeFixed32_on_def native_bytes32_def Let_def)

lemma DecodeFixed64_EncodeFixed64 [roundtrip, simp]:
  "DecodeFixed64 (EncodeFixed64 v @ rest) = Some v"
  using word64_of_octets [of v]
  by (simp add: EncodeFixed64_on_def native_bytes64_def DecodeFixed64_on_def Let_def)

lemma DecodeFixed_exact [roundtrip, simp]:
  "DecodeFixed32 (EncodeFixed32 v) = Some v" "DecodeFixed64 (EncodeFixed64 w) = Some w"
  using DecodeFixed32_EncodeFixed32 [of v "[]"] DecodeFixed64_EncodeFixed64 [of w "[]"]
  by simp_all

lemma DecodeFixed32_take [simp]: "4 \<le> n \<Longrightarrow> DecodeFixed32 (take n bs) = DecodeFixed32 bs"
proof -
  assume "4 \<le> n"
  then obtain m where "n = 4 + m"
    using le_Suc_ex by blast
  then have "n = Suc (Suc (Suc (Suc m)))"
    by simp
  then show ?thesis
    by (cases "(True, bs)" rule: native_read32.cases) simp_all
qed

lemma DecodeFixed32_None_iff: "DecodeFixed32 bs = None \<longleftrightarrow> length bs < 4"
  by (cases "(True, bs)" rule: native_read32.cases) (auto simp: Let_def)

subsection \<open>Varints\<close>

text \<open>Stores through an \<open>unsigned char*\<close> keep the low eight bits.\<close>

definition EncodeVarint32 :: "u32 \<Rightarrow> bytes" where
  "EncodeVarint32 v =
     (if v < push_bit 7 1 then [ucast v]
      else if v < push_bit 14 1 then [ucast (v OR 128), ucast (drop_bit 7 v)]
      else if v < push_bit 21 1 then
        [ucast (v OR 128), ucast (drop_bit 7 v OR 128), ucast (drop_bit 14 v)]
      else if v < push_bit 28 1 then
        [ucast (v OR 128), ucast (drop_bit 7 v OR 128), ucast (drop_bit 14 v OR 128),
         ucast (drop_bit 21 v)]
      else
        [ucast (v OR 128), ucast (drop_bit 7 v OR 128), ucast (drop_bit 14 v OR 128),
         ucast (drop_bit 21 v OR 128), ucast (drop_bit 28 v)])"

definition PutVarint32 :: "bytes \<Rightarrow> u32 \<Rightarrow> bytes" where
  "PutVarint32 dst v = dst @ EncodeVarint32 v"

lemma unat_drop_7_less: "128 \<le> v \<Longrightarrow> unat (drop_bit 7 v) < unat v" for v :: u64
  by (simp add: unat_drop_bit word_le_nat_alt)

function EncodeVarint64 :: "u64 \<Rightarrow> bytes" where
  "EncodeVarint64 v =
     (if v \<ge> 128 then ucast (v OR 128) # EncodeVarint64 (drop_bit 7 v) else [ucast v])"
  by auto
termination
  by (relation "measure unat") (simp_all add: unat_drop_7_less)

declare EncodeVarint64.simps [simp del]

definition PutVarint64 :: "bytes \<Rightarrow> u64 \<Rightarrow> bytes" where
  "PutVarint64 dst v = dst @ EncodeVarint64 v"

definition PutLengthPrefixedSlice :: "bytes \<Rightarrow> bytes \<Rightarrow> bytes" where
  "PutLengthPrefixedSlice dst value = PutVarint32 dst (word_of_nat (length value)) @ value"

function VarintLength_loop :: "u64 \<Rightarrow> nat \<Rightarrow> nat" where
  "VarintLength_loop v len =
     (if v \<ge> 128 then VarintLength_loop (drop_bit 7 v) (len + 1) else len)"
  by auto
termination
  by (relation "measure (unat o fst)") (simp_all add: unat_drop_7_less)

declare VarintLength_loop.simps [simp del]

definition VarintLength :: "u64 \<Rightarrow> nat" where
  "VarintLength v = VarintLength_loop v 1"

text \<open>The loop of \<open>GetVarint32PtrFallback\<close> (last shift 28) and of \<open>GetVarint64Ptr\<close> (last
  shift 63): the bytes are those from \<open>p\<close> to \<open>limit\<close>.\<close>

fun GetVarint_loop :: "nat \<Rightarrow> nat \<Rightarrow> 'a::len word \<Rightarrow> bytes \<Rightarrow> ('a word \<times> bytes) option" where
  "GetVarint_loop last_shift shift result [] = None"
| "GetVarint_loop last_shift shift result (b # p) =
     (if shift \<le> last_shift then
        let byte = (ucast b :: 'a word)
        in if byte AND 128 \<noteq> 0
           then GetVarint_loop last_shift (shift + 7) (result OR push_bit shift (byte AND 127)) p
           else Some (result OR push_bit shift byte, p)
      else None)"

definition GetVarint32PtrFallback :: "bytes \<Rightarrow> (u32 \<times> bytes) option" where
  "GetVarint32PtrFallback p = GetVarint_loop 28 0 0 p"

fun GetVarint32Ptr :: "bytes \<Rightarrow> (u32 \<times> bytes) option" where
  "GetVarint32Ptr [] = GetVarint32PtrFallback []"
| "GetVarint32Ptr (b # p) =
     (let result = (ucast b :: u32)
      in if result AND 128 = 0 then Some (result, p) else GetVarint32PtrFallback (b # p))"

definition GetVarint64Ptr :: "bytes \<Rightarrow> (u64 \<times> bytes) option" where
  "GetVarint64Ptr p = GetVarint_loop 63 0 0 p"

text \<open>The \<open>Slice\<close> variants return the new value of \<open>*input\<close> as well.\<close>

definition GetVarint32 :: "bytes \<Rightarrow> bytes \<times> u32 option" where
  "GetVarint32 input =
     (case GetVarint32Ptr input of None \<Rightarrow> (input, None) | Some (v, q) \<Rightarrow> (q, Some v))"

definition GetVarint64 :: "bytes \<Rightarrow> bytes \<times> u64 option" where
  "GetVarint64 input =
     (case GetVarint64Ptr input of None \<Rightarrow> (input, None) | Some (v, q) \<Rightarrow> (q, Some v))"

definition GetLengthPrefixedSlicePtr :: "bytes \<Rightarrow> (bytes \<times> bytes) option" where
  "GetLengthPrefixedSlicePtr p =
     (case GetVarint32Ptr p of
        None \<Rightarrow> None
      | Some (len, p) \<Rightarrow>
          if unat len > length p then None
          else Some (take (unat len) p, drop (unat len) p))"

definition GetLengthPrefixedSlice :: "bytes \<Rightarrow> bytes \<times> bytes option" where
  "GetLengthPrefixedSlice input =
     (case GetVarint32 input of
        (input, None) \<Rightarrow> (input, None)
      | (input, Some len) \<Rightarrow>
          if length input \<ge> unat len
          then (drop (unat len) input, Some (take (unat len) input))
          else (input, None))"

lemma drop_7_u64_bound:
  "unat v < 2 ^ (n + 7) \<Longrightarrow> unat (drop_bit 7 v) < 2 ^ n" for v :: u64
  by (simp add: unat_drop_bit power_add less_mult_imp_div_less)

lemma EncodeVarint64_less: "v < 128 \<Longrightarrow> EncodeVarint64 v = [ucast v]"
  by (subst EncodeVarint64.simps) (simp flip: not_le)

lemma EncodeVarint64_ge:
  "128 \<le> v \<Longrightarrow> EncodeVarint64 v = ucast (v OR 128) # EncodeVarint64 (drop_bit 7 v)"
  by (subst EncodeVarint64.simps) simp

lemma EncodeVarint64_not_Nil [simp]: "EncodeVarint64 v \<noteq> []"
  by (cases "128 \<le> v") (simp_all add: EncodeVarint64_ge EncodeVarint64_less)

lemma ucast_drop_bit_u32: "ucast (drop_bit n v) = drop_bit n (ucast v :: u64)" for v :: u32
  by (rule bit_word_eqI) (auto simp: bit_simps dest: bit_imp_le_length)

lemma ucast_or_128_u32: "ucast (ucast v OR 128 :: u64) = (ucast (v OR 128 :: u32) :: byte)"
  by (rule bit_word_eqI) (auto simp: bit_simps)

lemma ucast_byte_u32_u64: "ucast (ucast v :: u64) = (ucast (v :: u32) :: byte)"
  by (rule bit_word_eqI) (auto simp: bit_simps)

lemma unat_ucast_u32_u64 [simp]: "unat (ucast v :: u64) = unat (v :: u32)"
  using unat_less_exp [of v] by (simp add: unsigned_ucast_eq take_bit_nat_eq_self)

text \<open>The unrolled encoder is the loop at 32 bits.\<close>

lemma EncodeVarint32_is_loop: "EncodeVarint32 v = EncodeVarint64 (ucast v)"
proof -
  let ?w = "ucast v :: u64"
  have e: "EncodeVarint64 (drop_bit n ?w) =
      (if unat v < 128 * 2 ^ n then [ucast (drop_bit n v)]
       else ucast (drop_bit n v OR 128) # EncodeVarint64 (drop_bit (n + 7) ?w))" for n
  proof -
    have "drop_bit n ?w \<ge> 128 \<longleftrightarrow> unat v \<ge> 128 * 2 ^ n"
      by (simp add: word_le_nat_alt unat_drop_bit less_eq_div_iff_mult_less_eq)
    moreover have "ucast (drop_bit n ?w OR 128) = (ucast (drop_bit n v OR 128) :: byte)"
      by (simp flip: ucast_drop_bit_u32 add: ucast_or_128_u32)
    moreover have "ucast (drop_bit n ?w) = (ucast (drop_bit n v) :: byte)"
      by (simp flip: ucast_drop_bit_u32 add: ucast_byte_u32_u64)
    ultimately show ?thesis
      by (auto simp: EncodeVarint64.simps [of "drop_bit n ?w"] add.commute)
  qed
  have lim: "unat v < 128 * 2 ^ 28"
    using unat_less_exp [of v] by simp
  show ?thesis
    using e [of 0] e [of 7] e [of 14] e [of 21] e [of 28] lim
    by (simp add: EncodeVarint32_def word_less_nat_alt)
qed

lemma VarintLength_loop_add:
  "VarintLength_loop v len + 1 = length (EncodeVarint64 v) + len"
proof (induction v len rule: VarintLength_loop.induct)
  case (1 v len)
  then show ?case
    by (cases "128 \<le> v") (auto simp: VarintLength_loop.simps [of v] EncodeVarint64.simps [of v])
qed

lemma length_EncodeVarint64 [layout]: "length (EncodeVarint64 v) = VarintLength v"
  using VarintLength_loop_add [of v 1] by (simp add: VarintLength_def)

lemma length_EncodeVarint64_bound:
  "unat v < 2 ^ (7 * n) \<Longrightarrow> 0 < n \<Longrightarrow> length (EncodeVarint64 v) \<le> n"
proof (induction v arbitrary: n rule: EncodeVarint64.induct)
  case (1 v)
  show ?case
  proof (cases "128 \<le> v")
    case True
    obtain m where m: "n = Suc m" using 1 gr0_implies_Suc by blast
    have "unat (drop_bit 7 v) < 2 ^ (7 * m)"
      using 1 m by (intro drop_7_u64_bound) (simp add: add.commute)
    moreover have "0 < m"
      using True 1 m by (cases m) (auto simp: word_le_nat_alt)
    ultimately show ?thesis
      using 1 True m by (simp add: EncodeVarint64_ge)
  qed (use 1 in \<open>simp add: EncodeVarint64_less\<close>)
qed

lemma EncodeVarint64_max: "length (EncodeVarint64 v) \<le> 10"
  using unat_less_exp [of v] by (intro length_EncodeVarint64_bound) auto

lemma EncodeVarint32_max: "length (EncodeVarint32 v) \<le> 5"
  by (simp add: EncodeVarint32_def)

lemma length_EncodeVarint32_pos: "0 < length (EncodeVarint32 v)"
  by (simp add: EncodeVarint32_def)

subsection \<open>Decoding what was encoded\<close>

lemma bit_int_128 [simp]: "bit (128 :: int) n \<longleftrightarrow> n = 7"
  using bit_exp_iff [of 7 n, where ?'a = int] by auto

lemma bit_int_127 [simp]: "bit (127 :: int) n \<longleftrightarrow> n < 7"
proof -
  have "(127 :: int) = mask 7" by (simp add: mask_eq_exp_minus_1)
  then show ?thesis by (simp only: bit_mask_iff) auto
qed

lemma byte_hi_iff: "(ucast b AND 128 :: 'a::len word) = 0 \<longleftrightarrow> \<not> bit (b :: byte) 7"
  if "8 \<le> LENGTH('a)"
  using that by (auto simp: bit_eq_iff [where 'a = "'a word"] bit_simps dest!: spec [of _ 7])

lemma low_seven: "ucast (ucast (v OR 128) :: byte) AND 127 = take_bit 7 (ucast v :: 'a::len word)"
  for v :: u64
  by (rule bit_word_eqI) (auto simp: bit_simps )

lemma bit_bound: "unat v < 2 ^ k \<Longrightarrow> bit v n \<Longrightarrow> n < k" for v :: "'a::len word"
proof -
  assume "unat v < 2 ^ k" and b: "bit v n"
  then have "take_bit k v = v"
    by (simp add: word_eq_nat_iff unsigned_take_bit_eq take_bit_nat_eq_self)
  then show ?thesis using b by (metis bit_take_bit_iff)
qed

lemma small_bit: "v < 128 \<Longrightarrow> bit v n \<Longrightarrow> n < 7" for v :: u64
  by (rule bit_bound) (simp_all add: word_less_nat_alt)

lemma ucast_drop_bit_fits:
  fixes v :: u64
  assumes "\<And>n. bit v n \<Longrightarrow> n < LENGTH('a)"
  shows "ucast (drop_bit k v) = (drop_bit k (ucast v) :: 'a::len word)"
  by (rule bit_word_eqI) (auto simp: bit_simps dest: assms)

lemma ucast_small: "v < 128 \<Longrightarrow> ucast (ucast v :: byte) = (ucast v :: 'a::len word)" for v :: u64
  by (rule bit_word_eqI) (auto simp: bit_simps dest: small_bit)

lemma take_or_push_shift:
  "push_bit s (take_bit 7 w) OR push_bit (s + 7) (drop_bit 7 w) = push_bit s w"
  for w :: "'a::len word"
proof -
  have "push_bit s (take_bit 7 w) OR push_bit (s + 7) (drop_bit 7 w)
      = push_bit s (take_bit 7 w OR push_bit 7 (drop_bit 7 w))"
    by simp
  then show ?thesis by (simp only: take_bit_or_push_drop)
qed

lemma ucast_small_hi: "v < 128 \<Longrightarrow> (ucast v AND 128 :: 'a::len word) = 0" for v :: u64
  by (rule bit_word_eqI) (auto simp: bit_simps dest: small_bit)

text \<open>The decoding loop, entered at a shift that is a multiple of seven with room for the
  value, adds the encoded value to what it has read so far and stops right after it.\<close>

lemma GetVarint_loop_EncodeVarint64:
  fixes r :: "'a::len word"
  assumes "unat v < 2 ^ (LENGTH('a) - s)" "s \<le> last_shift" "7 dvd s" "8 < LENGTH('a)"
    and last: "\<And>s'. 7 dvd s' \<Longrightarrow> s' < LENGTH('a) \<Longrightarrow> s' \<le> last_shift"
  shows "GetVarint_loop last_shift s r (EncodeVarint64 v @ rest)
    = Some (r OR push_bit s (ucast v), rest)"
  using assms(1-3)
proof (induction v arbitrary: s r rule: EncodeVarint64.induct)
  case (1 v)
  have L: "8 \<le> LENGTH('a)" using assms(4) by simp
  show ?case
  proof (cases "128 \<le> v")
    case False
    then show ?thesis
      using 1 L ucast_small_hi [of v, where 'a = 'a] 
      by (simp add: EncodeVarint64_less ucast_small not_le Let_def)
  next
    case True
    have "2 ^ 7 < (2 :: nat) ^ (LENGTH('a) - s)"
      using True 1(2) by (simp add: word_le_nat_alt)
    then have len: "s + 7 < LENGTH('a)"
      by (simp only: power_strict_increasing_iff)
    have "unat v < 2 ^ LENGTH('a)"
      using 1(2) by (rule less_le_trans) simp
    then have fits: "bit v n \<Longrightarrow> n < LENGTH('a)" for n
      by (rule bit_bound)
    have "unat (drop_bit 7 v) < 2 ^ (LENGTH('a) - (s + 7))"
      using 1(2) len by (intro drop_7_u64_bound) (simp add: algebra_simps)
    moreover have "s + 7 \<le> last_shift"
      using last [of "s + 7"] 1(4) len by simp
    moreover have drop: "ucast (drop_bit 7 v) = (drop_bit 7 (ucast v) :: 'a word)"
      by (rule ucast_drop_bit_fits [OF fits])
    moreover have "r OR push_bit s (take_bit 7 (ucast v)) OR push_bit (s + 7) (ucast (drop_bit 7 v))
        = r OR push_bit s (ucast v)"
      using 1(2) drop by (simp only: take_or_push_shift or.assoc)
    ultimately show ?thesis
      using 1(1) [OF True, of "s + 7" "r OR push_bit s (take_bit 7 (ucast v))"] True L 1(3,4)
      by (simp add: EncodeVarint64_ge low_seven byte_hi_iff bit_simps or.assoc)
  qed
qed

lemma GetVarint32Ptr_fast_path: "GetVarint32Ptr p = GetVarint32PtrFallback p"
  by (cases p) (simp_all add: GetVarint32PtrFallback_def Let_def)

lemma GetVarint64Ptr_EncodeVarint64 [roundtrip, simp]:
  "GetVarint64Ptr (EncodeVarint64 v @ rest) = Some (v, rest)"
  unfolding GetVarint64Ptr_def
  using unat_less_exp [of v]
  by (subst GetVarint_loop_EncodeVarint64) (auto simp: )

lemma multiple_of_seven_below_32: "7 dvd n \<Longrightarrow> n < 32 \<Longrightarrow> n \<le> (28 :: nat)"
  by (elim dvdE) simp

lemma multiple_of_seven_below_64: "7 dvd n \<Longrightarrow> n < 64 \<Longrightarrow> n \<le> (63 :: nat)"
  by simp

lemma ucast_u32_u64_u32 [simp]: "ucast (ucast v :: u64) = (v :: u32)"
  by (rule bit_word_eqI) (auto simp: bit_simps)

lemma GetVarint32Ptr_EncodeVarint32 [roundtrip, simp]:
  "GetVarint32Ptr (EncodeVarint32 v @ rest) = Some (v, rest)"
  unfolding GetVarint32Ptr_fast_path GetVarint32PtrFallback_def EncodeVarint32_is_loop
  using unat_less_exp [of v]
  by (subst GetVarint_loop_EncodeVarint64) (auto intro: multiple_of_seven_below_32)

lemma GetVarint32_EncodeVarint32 [roundtrip, simp]:
  "GetVarint32 (EncodeVarint32 v @ rest) = (rest, Some v)"
  by (simp add: GetVarint32_def)

lemma GetVarint64_EncodeVarint64 [roundtrip, simp]:
  "GetVarint64 (EncodeVarint64 v @ rest) = (rest, Some v)"
  by (simp add: GetVarint64_def)

text \<open>A stored length that fits in 32 bits is the length.\<close>

lemma GetLengthPrefixedSlicePtr_Put [roundtrip, simp]:
  "length v < 2 ^ 32 \<Longrightarrow>
   GetLengthPrefixedSlicePtr (EncodeVarint32 (word_of_nat (length v)) @ v @ rest) = Some (v, rest)"
  by (simp add: GetLengthPrefixedSlicePtr_def unat_of_nat_u32)

lemma GetLengthPrefixedSlice_Put [roundtrip, simp]:
  "length v < 2 ^ 32 \<Longrightarrow>
   GetLengthPrefixedSlice (EncodeVarint32 (word_of_nat (length v)) @ v @ rest) = (rest, Some v)"
  by (simp add: GetLengthPrefixedSlice_def unat_of_nat_u32)

lemma PutLengthPrefixedSlice_app:
  "PutLengthPrefixedSlice dst v = dst @ EncodeVarint32 (word_of_nat (length v)) @ v"
  by (simp add: PutLengthPrefixedSlice_def PutVarint32_def)

subsection \<open>Decoding arbitrary bytes\<close>

text \<open>A decoder consumes between one byte and the longest encoding, and looks at no other.\<close>

lemma GetVarint_loop_consumes:
  "GetVarint_loop l s r p = Some (v, q) \<Longrightarrow>
   \<exists>pre. p = pre @ q \<and> pre \<noteq> [] \<and> s + 7 * (length pre - 1) \<le> l
     \<and> (\<forall>q'. GetVarint_loop l s r (pre @ q') = Some (v, q'))"
proof (induction l s r p rule: GetVarint_loop.induct)
  case (2 l s r b p)
  show ?case
  proof (cases "s \<le> l \<and> (ucast b AND 128 :: 'a word) \<noteq> 0")
    case True
    with 2 obtain pre where pre: "p = pre @ q" "pre \<noteq> []" "s + 7 + 7 * (length pre - 1) \<le> l"
      "\<And>q'. GetVarint_loop l (s + 7) (r OR push_bit s (ucast b AND 127)) (pre @ q') = Some (v, q')"
      by (auto simp: Let_def simp del: push_bit_and)
    then show ?thesis
      using True by (intro exI [of _ "b # pre"]) (cases pre; auto simp: Let_def)
  next
    case False
    with 2 show ?thesis
      by (intro exI [of _ "[b]"]) (auto simp: Let_def split: if_splits)
  qed
qed simp

lemma GetVarint64Ptr_consumes:
  "GetVarint64Ptr p = Some (v, q) \<Longrightarrow>
   \<exists>pre. p = pre @ q \<and> pre \<noteq> [] \<and> length pre \<le> 10 \<and> (\<forall>q'. GetVarint64Ptr (pre @ q') = Some (v, q'))"
  using GetVarint_loop_consumes [of 63 0 0 p v q] unfolding GetVarint64Ptr_def by fastforce

lemma GetVarint32Ptr_consumes:
  "GetVarint32Ptr p = Some (v, q) \<Longrightarrow>
   \<exists>pre. p = pre @ q \<and> pre \<noteq> [] \<and> length pre \<le> 5 \<and> (\<forall>q'. GetVarint32Ptr (pre @ q') = Some (v, q'))"
  using GetVarint_loop_consumes [of 28 0 0 p v q]
  unfolding GetVarint32Ptr_fast_path GetVarint32PtrFallback_def by fastforce

lemma GetVarint32Ptr_shorter: "GetVarint32Ptr p = Some (v, q) \<Longrightarrow> length q < length p"
  by (auto dest!: GetVarint32Ptr_consumes)

lemma GetVarint64Ptr_shorter: "GetVarint64Ptr p = Some (v, q) \<Longrightarrow> length q < length p"
  by (auto dest!: GetVarint64Ptr_consumes)

lemma GetVarint32_shorter: "GetVarint32 p = (q, Some v) \<Longrightarrow> length q < length p"
  by (auto simp: GetVarint32_def split: option.splits dest: GetVarint32Ptr_shorter)

lemma GetVarint64_shorter: "GetVarint64 p = (q, Some v) \<Longrightarrow> length q < length p"
  by (auto simp: GetVarint64_def split: option.splits dest: GetVarint64Ptr_shorter)

lemma GetLengthPrefixedSlice_shorter:
  "GetLengthPrefixedSlice p = (q, Some v) \<Longrightarrow> length v + length q < length p"
  by (auto simp: GetLengthPrefixedSlice_def split: prod.splits option.splits if_splits
      dest: GetVarint32_shorter)

text \<open>Indexing an array of fixed-width integers.\<close>

lemma length_concat_EncodeFixed32 [layout, simp]:
  "length (concat (map EncodeFixed32 xs)) = 4 * length xs"
  by (induction xs) auto

lemma DecodeFixed32_array [roundtrip]:
  "i < length xs \<Longrightarrow> DecodeFixed32 (drop (4 * i) (concat (map EncodeFixed32 xs) @ rest)) = Some (xs ! i)"
proof (induction xs arbitrary: i)
  case (Cons x xs)
  then show ?case
    by (cases i) (simp_all add: drop_append)
qed simp

text \<open>Eight bytes are determined by the integer they hold.\<close>

definition le_word :: "bytes \<Rightarrow> u64" where
  "le_word bs = foldr (\<lambda>b acc. ucast b OR push_bit 8 acc) bs 0"

lemma le_word_bound: "8 * length bs \<le> n \<Longrightarrow> \<not> bit (le_word bs) n"
proof (induction bs arbitrary: n)
  case (Cons b bs)
  have "\<not> bit (le_word bs) (n - 8)"
    using Cons.prems by (intro Cons.IH) simp
  moreover have "\<not> bit b n"
    using Cons.prems bit_imp_le_length [of b n] by auto
  ultimately show ?case
    by (simp add: le_word_def bit_simps)
qed (simp add: le_word_def)

lemma le_word_uncons:
  "ucast (le_word (b # bs)) = b"
  "length bs \<le> 7 \<Longrightarrow> drop_bit 8 (le_word (b # bs)) = le_word bs"
proof -
  show "ucast (le_word (b # bs)) = b"
    by (rule bit_word_eqI) (auto simp: le_word_def bit_simps)
  assume len: "length bs \<le> 7"
  show "drop_bit 8 (le_word (b # bs)) = le_word bs"
  proof (rule bit_word_eqI)
    fix n assume n: "n < LENGTH(64)"
    have "\<not> bit b (8 + n)"
      using bit_imp_le_length [of b "8 + n"] by auto
    moreover have "\<not> bit (le_word bs) n" if "56 \<le> n"
      using len that by (intro le_word_bound) simp
    ultimately show "bit (drop_bit 8 (le_word (b # bs))) n = bit (le_word bs) n"
      by (cases "n < 56") (auto simp: le_word_def bit_simps)
  qed
qed

lemma EncodeFixed64_le_word:
  assumes "length bs = 8"
  shows "EncodeFixed64 (le_word bs) = bs"
proof -
  obtain b0 b1 b2 b3 b4 b5 b6 b7 where bs: "bs = [b0, b1, b2, b3, b4, b5, b6, b7]"
    using assms by (auto simp: numeral_eq_Suc length_Suc_conv)
  have d: "drop_bit (k + 8) w = drop_bit k (drop_bit 8 w)" for k and w :: u64
    by simp
  have *: "drop_bit 16 w = drop_bit 8 (drop_bit 8 w)" "drop_bit 24 w = drop_bit 8 (drop_bit 16 w)"
    "drop_bit 32 w = drop_bit 8 (drop_bit 24 w)" "drop_bit 40 w = drop_bit 8 (drop_bit 32 w)"
    "drop_bit 48 w = drop_bit 8 (drop_bit 40 w)" "drop_bit 56 w = drop_bit 8 (drop_bit 48 w)"
    for w :: u64
    by simp_all
  show ?thesis
    unfolding EncodeFixed64_on_def native_bytes64_def bs
    by (simp add: Let_def * le_word_uncons del: drop_bit_drop_bit)
qed

lemma DecodeFixed64_le_word: "length bs = 8 \<Longrightarrow> DecodeFixed64 (bs @ rest) = Some (le_word bs)"
  by (auto simp: numeral_eq_Suc length_Suc_conv DecodeFixed64_on_def le_word_def Let_def)

lemma DecodeFixed64_inj:
  "length a = 8 \<Longrightarrow> length b = 8 \<Longrightarrow> DecodeFixed64 a = DecodeFixed64 b \<Longrightarrow> a = b"
  using DecodeFixed64_le_word [of a "[]"] DecodeFixed64_le_word [of b "[]"] EncodeFixed64_le_word
  by (metis append_Nil2 option.inject)

lemma DecodeFixed64_Some:
  "length a = 8 \<Longrightarrow> \<exists>v. DecodeFixed64 a = Some v \<and> EncodeFixed64 v = a"
  using DecodeFixed64_le_word [of a "[]"] EncodeFixed64_le_word [of a] by auto

subsection \<open>Properties\<close>

text \<open>C14. Every encoder writes what the decoder of its kind reads back, and the decoder leaves what follows
  alone: both widths of varints, both widths of fixed integers, whatever the byte orders of the machine that
  writes and of the machine that reads, and length-prefixed strings, shorter than 4 GB, the bound of their
  length field. A varint of either width takes as many bytes as \<open>VarintLength\<close> says, which is at most ten,
  and at most five for 32 bits.\<close>

theorem coding_roundtrip:
  assumes "length x < 2 ^ 32"
  shows "GetVarint64 (PutVarint64 [] w @ rest) = (rest, Some w)
   \<and> GetVarint32 (PutVarint32 [] v @ rest) = (rest, Some v)
   \<and> DecodeFixed32_on reader (EncodeFixed32_on writer v @ rest) = Some v
   \<and> DecodeFixed64_on reader (EncodeFixed64_on writer w @ rest) = Some w
   \<and> PutFixed32 dst v = dst @ EncodeFixed32_on writer v \<and> PutFixed64 dst w = dst @ EncodeFixed64_on writer w
   \<and> GetLengthPrefixedSlice (PutLengthPrefixedSlice [] x @ rest) = (rest, Some x)
   \<and> length (PutVarint64 [] w) = VarintLength w \<and> VarintLength w \<le> 10
   \<and> length (PutVarint32 [] v) = VarintLength (ucast v) \<and> VarintLength (ucast v) \<le> 5"
proof -
  have "length (EncodeVarint32 v) = VarintLength (ucast v)" by (simp add: EncodeVarint32_is_loop length_EncodeVarint64)
  then show ?thesis
    using EncodeVarint64_max [of w] EncodeVarint32_max [of v] assms
    by (simp add: PutVarint64_def PutVarint32_def PutFixed32_def PutFixed64_def EncodeFixed32_portable [of writer]
        EncodeFixed64_portable [of writer] DecodeFixed32_portable [of reader] DecodeFixed64_portable [of reader]
        PutLengthPrefixedSlice_app length_EncodeVarint64)
qed

theorem coding_roundtrip_witness:
  "GetLengthPrefixedSlice (PutLengthPrefixedSlice [] [1, 2, 3] @ [4]) = ([4], Some [1, 2, 3])
   \<and> DecodeFixed32_on False (EncodeFixed32_on True 0x01020304 @ [9]) = Some 0x01020304"
  using coding_roundtrip [where x = "[1, 2, 3]" and rest = "[4]"]
    coding_roundtrip [where x = "[1, 2, 3]" and rest = "[9]" and v = "0x01020304" and reader = False and writer = True]
  by simp

text \<open>C16. The encoder for 32 bits, unrolled by hand into five cases, writes exactly what the loop
  for 64 bits writes for the same number, and the decoder's fast path for one byte agrees with its
  loop.\<close>

theorem varint32_unrolled_equals_loop:
  "EncodeVarint32 v = EncodeVarint64 (ucast v) \<and> GetVarint32Ptr p = GetVarint32PtrFallback p"
  by (simp add: EncodeVarint32_is_loop GetVarint32Ptr_fast_path)

text \<open>C15. On arbitrary bytes a varint decoder that succeeds has read a non-empty prefix of at most
  five bytes (ten for 64 bits), and its result depends on nothing after that prefix: it never reads
  beyond the value.\<close>

theorem varint_decoder_reads_a_bounded_prefix:
  assumes "GetVarint32Ptr p = Some (v, q)" and "GetVarint64Ptr r = Some (w, t)"
  shows "(\<exists>pre. p = pre @ q \<and> pre \<noteq> [] \<and> length pre \<le> 5 \<and> (\<forall>q'. GetVarint32Ptr (pre @ q') = Some (v, q')))
    \<and> (\<exists>pre. r = pre @ t \<and> pre \<noteq> [] \<and> length pre \<le> 10 \<and> (\<forall>t'. GetVarint64Ptr (pre @ t') = Some (w, t')))"
  using GetVarint32Ptr_consumes [OF assms(1)] GetVarint64Ptr_consumes [OF assms(2)] by blast

theorem varint_decoder_reads_a_bounded_prefix_witness:
  "\<exists>pre. [0x96, 1, 7] = pre @ [7] \<and> pre \<noteq> [] \<and> length pre \<le> 5
     \<and> (\<forall>q'. GetVarint32Ptr (pre @ q') = Some (150, q'))"
proof -
  have "GetVarint32Ptr [0x96, 1, 7] = Some (150, [7])"
    by (simp add: GetVarint32Ptr_fast_path GetVarint32PtrFallback_def)
  moreover have "GetVarint64Ptr [5] = Some (5, [])"
    by (simp add: GetVarint64Ptr_def)
  ultimately show ?thesis
    using varint_decoder_reads_a_bounded_prefix [of "[0x96, 1, 7]" 150 "[7]" "[5]" 5 "[]"] by blast
qed

end
