(* ===== verification/Slices.thy ===== *)
theory Slices
  imports Coding
begin

text \<open>
  \<open>include/leveldb/slice.h\<close> and \<open>include/leveldb/status.h\<close> with \<open>util/status.cc\<close>. A
  \<open>Slice\<close> is the bytes it refers to; its \<open>compare\<close> is shown to be the lexicographic order on
  them. A \<open>Status\<close> is kept in the representation of the code: a null \<open>state_\<close>, or an array
  holding the length, the code and the message. The assertion of its constructor, that the code is
  not \<open>kOk\<close>, is a hypothesis of the lemmas on \<open>Status_make\<close>.
\<close>

subsection \<open>Slice\<close>

type_synonym Slice = bytes

text \<open>\<open>operator[]\<close> and \<open>remove_prefix\<close> assert that they stay inside the slice.\<close>

definition Slice_index :: "Slice \<Rightarrow> nat \<Rightarrow> byte option" where
  "Slice_index s n = (if n < length s then Some (s ! n) else None)"

definition Slice_remove_prefix :: "Slice \<Rightarrow> nat \<Rightarrow> Slice option" where
  "Slice_remove_prefix s n = (if n \<le> length s then Some (drop n s) else None)"

definition Slice_starts_with :: "Slice \<Rightarrow> Slice \<Rightarrow> bool" where
  "Slice_starts_with s x \<longleftrightarrow>
     length s \<ge> length x \<and> memcmp (take (length x) s) (take (length x) x) = 0"

definition Slice_eq :: "Slice \<Rightarrow> Slice \<Rightarrow> bool" where
  "Slice_eq x y \<longleftrightarrow>
     length x = length y \<and> memcmp (take (length x) x) (take (length x) y) = 0"

definition Slice_neq :: "Slice \<Rightarrow> Slice \<Rightarrow> bool" where
  "Slice_neq x y \<longleftrightarrow> \<not> Slice_eq x y"

definition Slice_compare :: "Slice \<Rightarrow> Slice \<Rightarrow> int" where
  "Slice_compare s b =
     (let min_len = (if length s < length b then length s else length b);
          r = memcmp (take min_len s) (take min_len b)
      in if r = 0 then (if length s < length b then -1 else if length s > length b then 1 else r)
         else r)"

lemma memcmp_refl [simp]: "memcmp s s = 0"
  by (induction s) auto

lemma memcmp_eq_0_iff: "length s = length t \<Longrightarrow> memcmp s t = 0 \<longleftrightarrow> s = t"
  by (induction s t rule: list_induct2) auto

lemma Slice_compare_Cons:
  "Slice_compare (a # s) (b # t) = (if a < b then -1 else if b < a then 1 else Slice_compare s t)"
  by (simp add: Slice_compare_def Let_def)

lemma Slice_compare_order:
  "Slice_compare s t = (if s < t then -1 else if t < s then 1 else 0)"
proof (induction s arbitrary: t)
  case Nil
  then show ?case by (cases t) (auto simp: Slice_compare_def)
next
  case (Cons a s)
  then show ?case
    by (cases t) (auto simp: Slice_compare_Cons, simp add: Slice_compare_def)
qed

lemma Slice_compare_iff [simp]:
  "Slice_compare s t < 0 \<longleftrightarrow> s < t" "Slice_compare s t = 0 \<longleftrightarrow> s = t"
  "0 < Slice_compare s t \<longleftrightarrow> t < s" "Slice_compare s t \<le> 0 \<longleftrightarrow> s \<le> t"
  "0 \<le> Slice_compare s t \<longleftrightarrow> t \<le> s"
  by (auto simp: Slice_compare_order)

lemma Slice_eq_iff [simp]: "Slice_eq x y \<longleftrightarrow> x = y"
  by (auto simp: Slice_eq_def memcmp_eq_0_iff)

lemma Slice_starts_with_iff: "Slice_starts_with s x \<longleftrightarrow> (\<exists>t. s = x @ t)"
proof
  assume "Slice_starts_with s x"
  then have "take (length x) s = x"
    using memcmp_eq_0_iff [of "take (length x) s" x] by (simp add: Slice_starts_with_def)
  then show "\<exists>t. s = x @ t"
    by (metis append_take_drop_id)
qed (auto simp: Slice_starts_with_def)

subsection \<open>Status\<close>

datatype Code = kOk | kNotFound | kCorruption | kNotSupported | kInvalidArgument | kIOError
  | other_code int

fun code_value :: "Code \<Rightarrow> int" where
  "code_value kOk = 0"
| "code_value kNotFound = 1"
| "code_value kCorruption = 2"
| "code_value kNotSupported = 3"
| "code_value kInvalidArgument = 4"
| "code_value kIOError = 5"
| "code_value (other_code i) = i"

definition Code_cast :: "byte \<Rightarrow> Code" where
  "Code_cast b =
     (let i = sint b
      in if i = 0 then kOk else if i = 1 then kNotFound else if i = 2 then kCorruption
         else if i = 3 then kNotSupported else if i = 4 then kInvalidArgument
         else if i = 5 then kIOError else other_code i)"

type_synonym Status = "bytes option"

definition Status_code :: "Status \<Rightarrow> Code" where
  "Status_code st = (case st of None \<Rightarrow> kOk | Some state \<Rightarrow> Code_cast (state ! 4))"

definition Status_make :: "Code \<Rightarrow> Slice \<Rightarrow> Slice \<Rightarrow> Status" where
  "Status_make c msg msg2 =
     (let len1 = (word_of_nat (length msg) :: u32);
          len2 = (word_of_nat (length msg2) :: u32);
          size = len1 + (if len2 \<noteq> 0 then 2 + len2 else 0)
      in Some (native_bytes32 True size @ [word_of_int (code_value c)] @ take (unat len1) msg
               @ (if len2 \<noteq> 0 then lit '': '' @ take (unat len2) msg2 else [])))"

definition Status_OK :: Status where "Status_OK = None"

definition Status_NotFound :: "Slice \<Rightarrow> Slice \<Rightarrow> Status" where
  "Status_NotFound msg msg2 = Status_make kNotFound msg msg2"

definition Status_Corruption :: "Slice \<Rightarrow> Slice \<Rightarrow> Status" where
  "Status_Corruption msg msg2 = Status_make kCorruption msg msg2"

definition Status_NotSupported :: "Slice \<Rightarrow> Slice \<Rightarrow> Status" where
  "Status_NotSupported msg msg2 = Status_make kNotSupported msg msg2"

definition Status_InvalidArgument :: "Slice \<Rightarrow> Slice \<Rightarrow> Status" where
  "Status_InvalidArgument msg msg2 = Status_make kInvalidArgument msg msg2"

definition Status_IOError :: "Slice \<Rightarrow> Slice \<Rightarrow> Status" where
  "Status_IOError msg msg2 = Status_make kIOError msg msg2"

definition Status_ok :: "Status \<Rightarrow> bool" where
  "Status_ok st \<longleftrightarrow> st = None"

definition Status_IsNotFound :: "Status \<Rightarrow> bool" where
  "Status_IsNotFound st \<longleftrightarrow> Status_code st = kNotFound"

definition Status_IsCorruption :: "Status \<Rightarrow> bool" where
  "Status_IsCorruption st \<longleftrightarrow> Status_code st = kCorruption"

definition Status_IsIOError :: "Status \<Rightarrow> bool" where
  "Status_IsIOError st \<longleftrightarrow> Status_code st = kIOError"

definition Status_IsNotSupportedError :: "Status \<Rightarrow> bool" where
  "Status_IsNotSupportedError st \<longleftrightarrow> Status_code st = kNotSupported"

definition Status_IsInvalidArgument :: "Status \<Rightarrow> bool" where
  "Status_IsInvalidArgument st \<longleftrightarrow> Status_code st = kInvalidArgument"

text \<open>\<open>CopyState\<close> duplicates the array, whose size it reads from its first four bytes.\<close>

definition CopyState :: "bytes \<Rightarrow> bytes option" where
  "CopyState state =
     (case native_read32 True state of
        None \<Rightarrow> None
      | Some n \<Rightarrow> Some (take (unat n + 5) state))"

fun code_prefix :: "Code \<Rightarrow> bytes" where
  "code_prefix kOk = lit ''OK''"
| "code_prefix kNotFound = lit ''NotFound: ''"
| "code_prefix kCorruption = lit ''Corruption: ''"
| "code_prefix kNotSupported = lit ''Not implemented: ''"
| "code_prefix kInvalidArgument = lit ''Invalid argument: ''"
| "code_prefix kIOError = lit ''IO error: ''"
| "code_prefix (other_code i) =
     lit ''Unknown code('' @ (if i < 0 then lit ''-'' else []) @ decimal (nat \<bar>i\<bar>) @ lit ''): ''"

definition Status_ToString :: "Status \<Rightarrow> bytes option" where
  "Status_ToString st =
     (case st of
        None \<Rightarrow> Some (lit ''OK'')
      | Some state \<Rightarrow>
          (case native_read32 True state of
             None \<Rightarrow> None
           | Some len \<Rightarrow>
               Some (code_prefix (Status_code st) @ take (unat len) (drop 5 state))))"

lemma native_read32_bytes [simp]: "native_read32 True (native_bytes32 True v @ rest) = Some v"
  using DecodeFixed32_EncodeFixed32 [of v rest]
  by (simp add: EncodeFixed32_on_def native_bytes32_def Let_def)

lemma length_native_bytes32 [simp]: "length (native_bytes32 le v) = 4"
  by (simp add: native_bytes32_def Let_def)

lemma Code_cast_value: "c \<in> {kNotFound, kCorruption, kNotSupported, kInvalidArgument, kIOError} \<Longrightarrow>
   Code_cast (word_of_int (code_value c)) = c"
  by (auto simp: Code_cast_def)

lemma Status_code_make [simp]:
  "c \<in> {kNotFound, kCorruption, kNotSupported, kInvalidArgument, kIOError} \<Longrightarrow>
   Status_code (Status_make c m1 m2) = c"
  using Code_cast_value [of c]
  by (simp add: Status_code_def Status_make_def Let_def nth_append)

lemma Status_make_not_OK [simp]: "Status_make c m1 m2 \<noteq> None"
  by (simp add: Status_make_def Let_def)

definition message :: "Slice \<Rightarrow> Slice \<Rightarrow> bytes" where
  "message msg msg2 = msg @ (if msg2 = [] then [] else lit '': '' @ msg2)"

text \<open>A status made from messages whose total fits the length field carries the code it was
  made with, prints it and the whole message, and is copied unchanged.\<close>

lemma Status_make_layout:
  assumes "length m1 + length m2 + 2 < 2 ^ 32"
  shows "Status_make c m1 m2 =
    Some (native_bytes32 True (word_of_nat (length (message m1 m2))) @ [word_of_int (code_value c)]
          @ message m1 m2)"
proof -
  have "unat (word_of_nat (length m1) :: u32) = length m1"
    "unat (word_of_nat (length m2) :: u32) = length m2"
    using assms by (simp_all add: unat_of_nat_u32)
  moreover have "(word_of_nat (length m2) :: u32) = 0 \<longleftrightarrow> m2 = []"
    using assms by (simp add: word_eq_nat_iff unat_of_nat_u32)
  ultimately show ?thesis
    by (simp add: Status_make_def message_def Let_def algebra_simps)
qed

lemma Status_roundtrip:
  assumes "length m1 + length m2 + 2 < 2 ^ 32"
    and "c \<in> {kNotFound, kCorruption, kNotSupported, kInvalidArgument, kIOError}"
  shows "Status_code (Status_make c m1 m2) = c"
    "Status_ToString (Status_make c m1 m2) = Some (code_prefix c @ message m1 m2)"
    "CopyState (the (Status_make c m1 m2)) = Status_make c m1 m2"
proof -
  have len: "unat (word_of_nat (length (message m1 m2)) :: u32) = length (message m1 m2)"
    using assms by (intro unat_of_nat_u32) (simp add: message_def)
  show "Status_code (Status_make c m1 m2) = c"
    using assms by simp
  then show "Status_ToString (Status_make c m1 m2) = Some (code_prefix c @ message m1 m2)"
    using assms len by (simp add: Status_ToString_def Status_make_layout)
  show "CopyState (the (Status_make c m1 m2)) = Status_make c m1 m2"
    using assms len by (simp add: CopyState_def Status_make_layout)
qed

text \<open>C27. A status made from a code and a message packs them into its byte array so that the
  accessors read both back: \<open>code\<close> gives the code, and \<open>ToString\<close> its name followed by the message,
  with the two parts separated by a colon.\<close>

theorem status_keeps_code_and_message:
  assumes "length m1 + length m2 + 2 < 2 ^ 32"
    and "c \<in> {kNotFound, kCorruption, kNotSupported, kInvalidArgument, kIOError}"
  shows "Status_code (Status_make c m1 m2) = c
    \<and> Status_ToString (Status_make c m1 m2)
      = Some (code_prefix c @ m1 @ (if m2 = [] then [] else lit '': '' @ m2))"
  using Status_roundtrip [OF assms] by (simp add: message_def)

theorem status_keeps_code_and_message_witness:
  "Status_code (Status_make kIOError [1] [2]) = kIOError"
  using status_keeps_code_and_message [of "[1]" "[2]" kIOError] by simp

end
