(* ===== verification/Comparators.thy ===== *)
theory Comparators
  imports Slices
begin

text \<open>
  \<open>include/leveldb/comparator.h\<close> and \<open>util/comparator.cc\<close>. The contract that the header
  documents is the locale \<open>comparator\<close>, with a predicate for the keys it orders; the clients
  (tables, blocks, the memtable) rely on nothing else. The bytewise comparator is shown to
  implement it.
\<close>

subsection \<open>The interface\<close>

text \<open>The abstract methods of the class, in the order of the header. A separator is only
  documented for \<open>start < limit\<close>; that it is left alone otherwise is what
  \<open>InternalKeyComparator\<close> relies on when the two user keys are equal.\<close>

record Comparator =
  Compare :: "Slice \<Rightarrow> Slice \<Rightarrow> int"
  Comparator_Name :: bytes
  FindShortestSeparator :: "bytes \<Rightarrow> Slice \<Rightarrow> bytes"
  FindShortSuccessor :: "bytes \<Rightarrow> bytes"

locale comparator =
  fixes key :: "Slice \<Rightarrow> bool" and cmp :: Comparator
  assumes refl: "key a \<Longrightarrow> Compare cmp a a = 0"
    and swap: "key a \<Longrightarrow> key b \<Longrightarrow> Compare cmp a b < 0 \<longleftrightarrow> 0 < Compare cmp b a"
    and trans: "key a \<Longrightarrow> key b \<Longrightarrow> key c \<Longrightarrow>
      Compare cmp a b \<le> 0 \<Longrightarrow> Compare cmp b c \<le> 0 \<Longrightarrow> Compare cmp a c \<le> 0"
    and equal: "key a \<Longrightarrow> key b \<Longrightarrow> Compare cmp a b = 0 \<Longrightarrow> a = b"
    and separator: "key start \<Longrightarrow> key limit \<Longrightarrow> Compare cmp start limit < 0 \<Longrightarrow>
      key (FindShortestSeparator cmp start limit)
      \<and> Compare cmp start (FindShortestSeparator cmp start limit) \<le> 0
      \<and> Compare cmp (FindShortestSeparator cmp start limit) limit < 0"
    and unchanged: "key start \<Longrightarrow> key limit \<Longrightarrow> \<not> Compare cmp start limit < 0 \<Longrightarrow>
      FindShortestSeparator cmp start limit = start"
    and successor: "key k \<Longrightarrow>
      key (FindShortSuccessor cmp k) \<and> Compare cmp k (FindShortSuccessor cmp k) \<le> 0"
begin

lemma le_iff: "key a \<Longrightarrow> key b \<Longrightarrow> Compare cmp a b \<le> 0 \<longleftrightarrow> \<not> Compare cmp b a < 0"
  using swap [of b a] by auto

lemma eq_iff: "key a \<Longrightarrow> key b \<Longrightarrow> Compare cmp a b = 0 \<longleftrightarrow> a = b"
  using equal refl by auto

lemma less_trans: "key a \<Longrightarrow> key b \<Longrightarrow> key c \<Longrightarrow>
   Compare cmp a b < 0 \<Longrightarrow> Compare cmp b c < 0 \<Longrightarrow> Compare cmp a c < 0"
  using trans [of a b c] swap [of b a] equal [of a c] by (cases "Compare cmp a c = 0") auto

lemma less_le_trans: "key a \<Longrightarrow> key b \<Longrightarrow> key c \<Longrightarrow>
   Compare cmp a b < 0 \<Longrightarrow> Compare cmp b c \<le> 0 \<Longrightarrow> Compare cmp a c < 0"
  by (metis eq_iff le_less less_trans)

lemma le_less_trans: "key a \<Longrightarrow> key b \<Longrightarrow> key c \<Longrightarrow>
   Compare cmp a b \<le> 0 \<Longrightarrow> Compare cmp b c < 0 \<Longrightarrow> Compare cmp a c < 0"
  by (metis eq_iff le_less less_trans)

lemma less_asym: "key a \<Longrightarrow> key b \<Longrightarrow> Compare cmp a b < 0 \<Longrightarrow> \<not> Compare cmp b a < 0"
  using swap by fastforce

lemma linear: "key a \<Longrightarrow> key b \<Longrightarrow> Compare cmp a b < 0 \<or> a = b \<or> Compare cmp b a < 0"
  using swap [of b a] eq_iff [of a b] by linarith

text \<open>What an index block needs of a separator: it divides every key up to \<open>start\<close> from every
  key from \<open>limit\<close> on.\<close>

lemma separator_divides:
  assumes "key start" "key limit" "key a" "key b" "Compare cmp start limit < 0"
    and "Compare cmp a start \<le> 0" "Compare cmp limit b \<le> 0"
  shows "Compare cmp a (FindShortestSeparator cmp start limit) \<le> 0"
    "Compare cmp (FindShortestSeparator cmp start limit) b < 0"
  using assms separator [of start limit] trans less_le_trans by blast+

end

subsection \<open>The bytewise comparator\<close>

function common_prefix_loop :: "bytes \<Rightarrow> bytes \<Rightarrow> nat \<Rightarrow> nat \<Rightarrow> nat" where
  "common_prefix_loop start limit min_length diff_index =
     (if diff_index < min_length \<and> start ! diff_index = limit ! diff_index
      then common_prefix_loop start limit min_length (diff_index + 1)
      else diff_index)"
  by auto
termination
  by (relation "measure (\<lambda>(_, _, m, i). m - i)") auto

declare common_prefix_loop.simps [simp del]

definition Bytewise_FindShortestSeparator :: "bytes \<Rightarrow> Slice \<Rightarrow> bytes" where
  "Bytewise_FindShortestSeparator start limit =
     (let min_length = min (length start) (length limit);
          diff_index = common_prefix_loop start limit min_length 0
      in if diff_index \<ge> min_length then start
         else let diff_byte = start ! diff_index
              in if diff_byte < 0xff \<and> unat diff_byte + 1 < unat (limit ! diff_index)
                 then take (diff_index + 1) (start[diff_index := start ! diff_index + 1])
                 else start)"

function Bytewise_FindShortSuccessor_loop :: "bytes \<Rightarrow> nat \<Rightarrow> bytes" where
  "Bytewise_FindShortSuccessor_loop key i =
     (if i < length key then
        let byte = key ! i
        in if byte \<noteq> 0xff then take (i + 1) (key[i := byte + 1])
           else Bytewise_FindShortSuccessor_loop key (i + 1)
      else key)"
  by auto
termination
  by (relation "measure (\<lambda>(key, i). length key - i)") auto

declare Bytewise_FindShortSuccessor_loop.simps [simp del]

definition Bytewise_FindShortSuccessor :: "bytes \<Rightarrow> bytes" where
  "Bytewise_FindShortSuccessor key = Bytewise_FindShortSuccessor_loop key 0"

definition BytewiseComparator :: Comparator where
  "BytewiseComparator =
     \<lparr>Compare = Slice_compare, Comparator_Name = lit ''leveldb.BytewiseComparator'',
      FindShortestSeparator = Bytewise_FindShortestSeparator,
      FindShortSuccessor = Bytewise_FindShortSuccessor\<rparr>"

text \<open>Replacing a byte by a larger one at the first difference, and cutting there, gives a string
  that is larger than the original whatever follows.\<close>

lemma list_less_at:
  fixes s t :: bytes
  assumes "i < length s" "i < length t" "take i s = take i t" "s ! i < t ! i"
  shows "s < t"
  using assms
proof (induction i arbitrary: s t)
  case 0
  then show ?case by (cases s; cases t) auto
next
  case (Suc i)
  then show ?case by (cases s; cases t) auto
qed

lemma common_prefix_loop_correct:
  assumes "i \<le> m" "m \<le> length s" "m \<le> length t" "take i s = take i t"
  shows "let d = common_prefix_loop s t m i in
    i \<le> d \<and> d \<le> m \<and> take d s = take d t \<and> (d < m \<longrightarrow> s ! d \<noteq> t ! d)"
  using assms
proof (induction s t m i rule: common_prefix_loop.induct)
  case (1 s t m i)
  show ?case
  proof (cases "i < m \<and> s ! i = t ! i")
    case True
    then have "take (i + 1) s = take (i + 1) t"
      using 1 by (simp add: take_Suc_conv_app_nth)
    then show ?thesis
      using 1 True by (subst common_prefix_loop.simps) (auto simp: Let_def)
  next
    case False
    then show ?thesis
      using 1 by (subst (1) common_prefix_loop.simps) (auto simp: Let_def)
  qed
qed

lemma byte_plus_1: "unat (b + 1) = unat b + 1" if "b < 0xff" for b :: byte
  using that by (simp add: unat_plus_if' word_less_nat_alt)

lemma take_update_Suc: "i < length s \<Longrightarrow> take (Suc i) (s[i := x]) = take i s @ [x]"
  by (simp add: take_Suc_conv_app_nth)

lemma Bytewise_separator:
  assumes "start < limit"
  shows "start \<le> Bytewise_FindShortestSeparator start limit
    \<and> Bytewise_FindShortestSeparator start limit < limit"
proof -
  let ?m = "min (length start) (length limit)"
  let ?d = "common_prefix_loop start limit ?m 0"
  have d: "?d \<le> ?m" "take ?d start = take ?d limit" "?d < ?m \<longrightarrow> start ! ?d \<noteq> limit ! ?d"
    using common_prefix_loop_correct [of 0 ?m start limit] by (auto simp: Let_def)
  show ?thesis
  proof (cases "?d < ?m \<and> start ! ?d < 0xff \<and> unat (start ! ?d) + 1 < unat (limit ! ?d)")
    case False
    then have "Bytewise_FindShortestSeparator start limit = start"
      by (auto simp: Bytewise_FindShortestSeparator_def Let_def)
    then show ?thesis using assms by simp
  next
    case True
    then have eq: "Bytewise_FindShortestSeparator start limit = take ?d start @ [start ! ?d + 1]"
      by (auto simp: Bytewise_FindShortestSeparator_def Let_def take_update_Suc)
    have "start < take ?d start @ [start ! ?d + 1]"
      by (rule list_less_at [of ?d])
        (use True in \<open>auto simp: nth_append word_less_nat_alt byte_plus_1\<close>)
    moreover have "take ?d start @ [start ! ?d + 1] < limit"
      by (rule list_less_at [of ?d])
        (use True d in \<open>auto simp: nth_append word_less_nat_alt byte_plus_1\<close>)
    ultimately show ?thesis by (simp add: eq)
  qed
qed

lemma Bytewise_separator_unchanged:
  assumes "\<not> start < limit"
  shows "Bytewise_FindShortestSeparator start limit = start"
proof -
  let ?m = "min (length start) (length limit)"
  let ?d = "common_prefix_loop start limit ?m 0"
  have "take ?d start = take ?d limit"
    using common_prefix_loop_correct [of 0 ?m start limit] by (simp add: Let_def)
  then have "\<not> (?d < ?m \<and> start ! ?d < limit ! ?d)"
    using assms list_less_at [of ?d start limit] by auto
  then show ?thesis
    by (auto simp: Bytewise_FindShortestSeparator_def Let_def word_less_nat_alt)
qed

lemma Bytewise_successor_loop: "key \<le> Bytewise_FindShortSuccessor_loop key i"
proof (induction key i rule: Bytewise_FindShortSuccessor_loop.induct)
  case (1 key i)
  show ?case
  proof (cases "i < length key \<and> key ! i \<noteq> 0xff")
    case True
    then have "unat (key ! i) \<noteq> 255"
      by (simp add: word_eq_nat_iff)
    moreover have "unat (key ! i) \<le> 255"
      by (rule less_Suc_eq_le [THEN iffD1]) simp
    ultimately have lt: "key ! i < 0xff"
      by (simp add: word_less_nat_alt)
    have "key < take i key @ [key ! i + 1]"
      by (rule list_less_at [of i])
        (use True lt in \<open>auto simp: nth_append word_less_nat_alt byte_plus_1\<close>)
    then show ?thesis
      using True by (subst Bytewise_FindShortSuccessor_loop.simps) (simp add: Let_def take_update_Suc)
  next
    case False
    then show ?thesis
      using 1 by (subst Bytewise_FindShortSuccessor_loop.simps) (auto simp: Let_def)
  qed
qed

interpretation bytewise: comparator "\<lambda>_. True" BytewiseComparator
  using Bytewise_separator Bytewise_successor_loop Bytewise_separator_unchanged
  by unfold_locales (auto simp: BytewiseComparator_def Bytewise_FindShortSuccessor_def)

lemma BytewiseComparator_simps [simp]:
  "Compare BytewiseComparator = Slice_compare"
  "FindShortestSeparator BytewiseComparator = Bytewise_FindShortestSeparator"
  "FindShortSuccessor BytewiseComparator = Bytewise_FindShortSuccessor"
  "Comparator_Name BytewiseComparator = lit ''leveldb.BytewiseComparator''"
  by (simp_all add: BytewiseComparator_def)

text \<open>C25. The key that the bytewise comparator puts between two data blocks in an index lies from
  the last key of the first block on and before the first key of the second, and is not longer than
  the last key; the short successor lies from the key on.\<close>

theorem bytewise_separator_correct:
  assumes "start < limit"
  shows "start \<le> Bytewise_FindShortestSeparator start limit
    \<and> Bytewise_FindShortestSeparator start limit < limit
    \<and> length (Bytewise_FindShortestSeparator start limit) \<le> length start
    \<and> key \<le> Bytewise_FindShortSuccessor key"
  using Bytewise_separator [OF assms] Bytewise_successor_loop [of key 0]
  by (auto simp: Bytewise_FindShortestSeparator_def Bytewise_FindShortSuccessor_def Let_def)

theorem bytewise_separator_correct_witness:
  "[97, 98] \<le> Bytewise_FindShortestSeparator [97, 98] [100]
   \<and> Bytewise_FindShortestSeparator [97, 98] [100] = [98]"
proof -
  have "[97, 98] < ([100] :: bytes)" by simp
  from bytewise_separator_correct [OF this, of "[]"]
  have "[97, 98] \<le> Bytewise_FindShortestSeparator [97, 98] [100]" by blast
  moreover have "Bytewise_FindShortestSeparator [97, 98] [100] = [98]" by code_simp
  ultimately show ?thesis by blast
qed

end
