(* ===== verification/Bloom.thy ===== *)
theory Bloom
  imports Slices
begin

text \<open>
  \<open>util/hash.cc\<close>, \<open>include/leveldb/filter_policy.h\<close> and \<open>util/bloom.cc\<close>. The contract of a
  filter policy is the locale \<open>filter_policy\<close>; the Bloom filter is shown to implement it for
  every number of bits per key, so that a key that was added is never reported as absent.
\<close>

subsection \<open>Hash\<close>

abbreviation (input) hash_m :: u32 where "hash_m \<equiv> 0xc6a4a793"

fun Hash_loop :: "u32 \<Rightarrow> bytes \<Rightarrow> u32 \<times> bytes" where
  "Hash_loop h (d0 # d1 # d2 # d3 # data) =
     (case DecodeFixed32 (d0 # d1 # d2 # d3 # data) of
        None \<Rightarrow> (h, d0 # d1 # d2 # d3 # data)
      | Some w \<Rightarrow>
          let h = h + w; h = h * hash_m; h = h XOR drop_bit 16 h in Hash_loop h data)"
| "Hash_loop h data = (h, data)"

fun Hash_tail :: "u32 \<Rightarrow> bytes \<Rightarrow> u32" where
  "Hash_tail h [d0] =
     (let h = h + ucast d0; h = h * hash_m in h XOR drop_bit 24 h)"
| "Hash_tail h [d0, d1] = Hash_tail (h + push_bit 8 (ucast d1)) [d0]"
| "Hash_tail h [d0, d1, d2] = Hash_tail (h + push_bit 16 (ucast d2)) [d0, d1]"
| "Hash_tail h _ = h"

definition Hash :: "bytes \<Rightarrow> u32 \<Rightarrow> u32" where
  "Hash data seed =
     (case Hash_loop (seed XOR (word_of_nat (length data) * hash_m)) data of
        (h, rest) \<Rightarrow> Hash_tail h rest)"

text \<open>The loop leaves fewer than four bytes, the three cases of the final switch.\<close>

lemma Hash_loop_leaves: "length (snd (Hash_loop h data)) < 4"
proof (induction h data rule: Hash_loop.induct)
  case (1 h d0 d1 d2 d3 data)
  then show ?case by (auto simp: Let_def)
qed auto

subsection \<open>The interface\<close>

record FilterPolicy =
  Policy_Name :: bytes
  CreateFilter :: "Slice list \<Rightarrow> bytes \<Rightarrow> bytes"
  KeyMayMatch :: "Slice \<Rightarrow> Slice \<Rightarrow> bool"

locale filter_policy =
  fixes policy :: FilterPolicy
  assumes appends: "CreateFilter policy keys dst = dst @ CreateFilter policy keys []"
    and may_match: "k \<in> set keys \<Longrightarrow> KeyMayMatch policy k (CreateFilter policy keys [])"
begin

lemma old_contents_kept: "take (length dst) (CreateFilter policy keys dst) = dst"
  by (subst appends) simp

lemma may_match_appended:
  "k \<in> set keys \<Longrightarrow> KeyMayMatch policy k (drop (length dst) (CreateFilter policy keys dst))"
  by (subst appends) (simp add: may_match)

end

subsection \<open>The Bloom filter\<close>

definition BloomHash :: "Slice \<Rightarrow> u32" where
  "BloomHash key = Hash key 0xbc9f1d34"

record BloomFilterPolicy =
  bloom_bits_per_key :: nat
  bloom_k :: nat

text \<open>\<open>bits_per_key * 0.69\<close> is rounded down. The floating-point product can differ from the
  rational one only where \<open>0.69 * bits_per_key\<close> is an integer, so from 100 on, where \<open>bloom_k\<close> is
  30 in either case.\<close>

definition new_BloomFilterPolicy :: "nat \<Rightarrow> BloomFilterPolicy" where
  "new_BloomFilterPolicy bits_per_key =
     (let k = bits_per_key * 69 div 100; k = (if k < 1 then 1 else k); k = (if k > 30 then 30 else k)
      in \<lparr>bloom_bits_per_key = bits_per_key, bloom_k = k\<rparr>)"

definition rotate17 :: "u32 \<Rightarrow> u32" where
  "rotate17 h = drop_bit 17 h OR push_bit 15 h"

fun set_bits_loop :: "nat \<Rightarrow> u32 \<Rightarrow> u32 \<Rightarrow> nat \<Rightarrow> bytes \<Rightarrow> bytes" where
  "set_bits_loop 0 h delta bits array = array"
| "set_bits_loop (Suc j) h delta bits array =
     (let bitpos = unat h mod bits
      in set_bits_loop j (h + delta) delta bits
           (array[bitpos div 8 := array ! (bitpos div 8) OR push_bit (bitpos mod 8) 1]))"

fun add_keys_loop :: "nat \<Rightarrow> nat \<Rightarrow> Slice list \<Rightarrow> bytes \<Rightarrow> bytes" where
  "add_keys_loop k bits [] array = array"
| "add_keys_loop k bits (key # keys) array =
     (let h = BloomHash key; delta = rotate17 h
      in add_keys_loop k bits keys (set_bits_loop k h delta bits array))"

definition Bloom_CreateFilter :: "BloomFilterPolicy \<Rightarrow> Slice list \<Rightarrow> bytes \<Rightarrow> bytes" where
  "Bloom_CreateFilter policy keys dst =
     (let bits = length keys * bloom_bits_per_key policy;
          bits = (if bits < 64 then 64 else bits);
          nbytes = (bits + 7) div 8;
          bits = nbytes * 8
      in dst @ add_keys_loop (bloom_k policy) bits keys (replicate nbytes 0)
         @ [word_of_nat (bloom_k policy)])"

fun test_bits_loop :: "nat \<Rightarrow> u32 \<Rightarrow> u32 \<Rightarrow> nat \<Rightarrow> bytes \<Rightarrow> bool" where
  "test_bits_loop 0 h delta bits array \<longleftrightarrow> True"
| "test_bits_loop (Suc j) h delta bits array \<longleftrightarrow>
     (let bitpos = unat h mod bits
      in if array ! (bitpos div 8) AND push_bit (bitpos mod 8) 1 = 0 then False
         else test_bits_loop j (h + delta) delta bits array)"

definition Bloom_KeyMayMatch :: "Slice \<Rightarrow> Slice \<Rightarrow> bool" where
  "Bloom_KeyMayMatch key bloom_filter \<longleftrightarrow>
     (let len = length bloom_filter
      in if len < 2 then False
         else let bits = (len - 1) * 8; k = unat (bloom_filter ! (len - 1))
              in if k > 30 then True
                 else let h = BloomHash key; delta = rotate17 h
                      in test_bits_loop k h delta bits bloom_filter)"

definition NewBloomFilterPolicy :: "nat \<Rightarrow> FilterPolicy" where
  "NewBloomFilterPolicy bits_per_key =
     \<lparr>Policy_Name = lit ''leveldb.BuiltinBloomFilter2'',
      CreateFilter = Bloom_CreateFilter (new_BloomFilterPolicy bits_per_key),
      KeyMayMatch = Bloom_KeyMayMatch\<rparr>"

definition bit_at :: "bytes \<Rightarrow> nat \<Rightarrow> bool" where
  "bit_at array p \<longleftrightarrow> bit (array ! (p div 8)) (p mod 8)"

lemma length_set_bits_loop [simp]: "length (set_bits_loop j h d bits a) = length a"
  by (induction j h d bits a rule: set_bits_loop.induct) (auto simp: Let_def)

lemma length_add_keys_loop [simp]: "length (add_keys_loop k bits keys a) = length a"
  by (induction k bits keys a rule: add_keys_loop.induct) (auto simp: Let_def)

lemma test_bit_iff: "b AND 2 ^ n = 0 \<longleftrightarrow> \<not> bit b n" if "n < 8" for b :: byte
  using that by (auto simp: bit_eq_iff [where 'a = "8 word"] bit_simps)

lemma bit_at_update:
  "p div 8 < length a \<Longrightarrow> bit_at (a[p div 8 := a ! (p div 8) OR 2 ^ (p mod 8)]) q
    \<longleftrightarrow> bit_at a q \<or> q = p"
proof -
  assume "p div 8 < length a"
  moreover have "q = p" if "q div 8 = p div 8" "q mod 8 = p mod 8"
    using that by (metis div_mult_mod_eq)
  ultimately show ?thesis
    by (auto simp: bit_at_def nth_list_update bit_simps)
qed

lemma set_bits_loop_keeps: "0 < bits \<Longrightarrow> bits \<le> 8 * length a \<Longrightarrow> bit_at a p \<Longrightarrow>
   bit_at (set_bits_loop j h d bits a) p"
proof (induction j arbitrary: h a)
  case (Suc j)
  have "unat h mod bits < 8 * length a"
    using Suc by (meson less_le_trans mod_less_divisor)
  then show ?case
    using Suc by (simp add: Let_def bit_at_update less_mult_imp_div_less mult.commute [of 8])
qed simp

lemma add_keys_loop_keeps: "0 < bits \<Longrightarrow> bits \<le> 8 * length a \<Longrightarrow> bit_at a p \<Longrightarrow>
   bit_at (add_keys_loop k bits keys a) p"
  by (induction k bits keys a rule: add_keys_loop.induct) (simp_all add: Let_def set_bits_loop_keeps)

text \<open>The probes of a key, and what the two loops do with them.\<close>

definition probes :: "nat \<Rightarrow> u32 \<Rightarrow> u32 \<Rightarrow> nat \<Rightarrow> nat set" where
  "probes j h d bits = {unat (h + word_of_nat i * d) mod bits | i. i < j}"

lemma probes_Suc: "probes (Suc j) h d bits = insert (unat h mod bits) (probes j (h + d) d bits)"
proof -
  have "probes (Suc j) h d bits = (\<lambda>i. unat (h + word_of_nat i * d) mod bits) ` {..<Suc j}"
    "probes j (h + d) d bits = (\<lambda>i. unat (h + word_of_nat (Suc i) * d) mod bits) ` {..<j}"
    by (auto simp: probes_def algebra_simps)
  then show ?thesis
    by (simp add: lessThan_Suc_eq_insert_0 image_image)
qed

lemma test_bits_loop_iff:
  "test_bits_loop j h d bits a \<longleftrightarrow> (\<forall>p \<in> probes j h d bits. bit_at a p)"
proof (induction j arbitrary: h)
  case 0
  then show ?case by (simp add: probes_def)
next
  case (Suc j)
  then show ?case
    by (simp add: Let_def probes_Suc bit_at_def test_bit_iff)
qed

lemma set_bits_loop_sets:
  "0 < bits \<Longrightarrow> bits \<le> 8 * length a \<Longrightarrow> p \<in> probes j h d bits \<Longrightarrow>
   bit_at (set_bits_loop j h d bits a) p"
proof (induction j arbitrary: h a)
  case 0
  then show ?case by (simp add: probes_def)
next
  case (Suc j)
  have lt: "unat h mod bits div 8 < length a"
    using Suc.prems by (metis less_le_trans less_mult_imp_div_less mod_less_divisor mult.commute)
  show ?case
  proof (cases "p = unat h mod bits")
    case True
    then show ?thesis
      using Suc.prems lt by (auto simp: Let_def bit_at_update intro!: set_bits_loop_keeps)
  next
    case False
    then show ?thesis
      using Suc lt by (auto simp: Let_def probes_Suc)
  qed
qed

lemma add_keys_loop_sets:
  "0 < bits \<Longrightarrow> bits \<le> 8 * length a \<Longrightarrow> key \<in> set keys \<Longrightarrow>
   p \<in> probes k (BloomHash key) (rotate17 (BloomHash key)) bits \<Longrightarrow>
   bit_at (add_keys_loop k bits keys a) p"
proof (induction k bits keys a rule: add_keys_loop.induct)
  case (2 k bits key' keys a)
  then show ?case
    by (cases "key = key'") (auto simp: Let_def intro!: add_keys_loop_keeps set_bits_loop_sets)
qed simp

lemma k_bounds: "1 \<le> bloom_k (new_BloomFilterPolicy n)" "bloom_k (new_BloomFilterPolicy n) \<le> 30"
  by (simp_all add: new_BloomFilterPolicy_def Let_def)

lemma Bloom_no_false_negative:
  assumes "key \<in> set keys"
  shows "Bloom_KeyMayMatch key (Bloom_CreateFilter (new_BloomFilterPolicy n) keys [])"
proof -
  let ?pol = "new_BloomFilterPolicy n"
  define bits0 where "bits0 = (if length keys * bloom_bits_per_key ?pol < 64 then 64
    else length keys * bloom_bits_per_key ?pol)"
  define nb where "nb = (bits0 + 7) div 8"
  define a where "a = add_keys_loop (bloom_k ?pol) (nb * 8) keys (replicate nb 0)"
  have "64 \<le> bits0" by (simp add: bits0_def)
  then have nb: "0 < nb" unfolding nb_def by linarith
  have f: "Bloom_CreateFilter ?pol keys [] = a @ [word_of_nat (bloom_k ?pol)]"
    by (simp add: Bloom_CreateFilter_def Let_def a_def nb_def bits0_def)
  have len: "length a = nb" by (simp add: a_def)
  have k: "unat (word_of_nat (bloom_k ?pol) :: byte) = bloom_k ?pol"
    using k_bounds [of n] by (simp add: unat_of_nat take_bit_nat_eq_self)
  have "bit_at (a @ [x]) p" if "p \<in> probes (bloom_k ?pol) (BloomHash key) (rotate17 (BloomHash key)) (nb * 8)"
    for p x
  proof -
    have "bit_at a p"
      unfolding a_def using that assms nb by (intro add_keys_loop_sets) auto
    moreover have "p div 8 < nb"
      using that nb by (auto simp: probes_def less_mult_imp_div_less)
    ultimately show ?thesis
      by (simp add: bit_at_def nth_append len)
  qed
  then show ?thesis
    using nb k_bounds [of n] by (simp add: f Bloom_KeyMayMatch_def len Let_def k test_bits_loop_iff nth_append)
qed

interpretation bloom: filter_policy "NewBloomFilterPolicy bits_per_key"
proof
  show "CreateFilter (NewBloomFilterPolicy bits_per_key) keys dst
    = dst @ CreateFilter (NewBloomFilterPolicy bits_per_key) keys []" for keys dst
    by (simp add: NewBloomFilterPolicy_def Bloom_CreateFilter_def Let_def)
  show "KeyMayMatch (NewBloomFilterPolicy bits_per_key) k
    (CreateFilter (NewBloomFilterPolicy bits_per_key) keys [])" if "k \<in> set keys" for k keys
    using Bloom_no_false_negative [OF that] by (simp add: NewBloomFilterPolicy_def)
qed

end
