(* ===== verification/Logging.thy ===== *)
theory Logging
  imports Slices
begin

text \<open>
  \<open>util/logging.cc\<close>: printing numbers and escaped strings, and \<open>ConsumeDecimalNumber\<close>, which
  is shown to parse exactly the decimal prefixes whose value fits 64 bits.
\<close>

definition AppendNumberTo :: "bytes \<Rightarrow> u64 \<Rightarrow> bytes" where
  "AppendNumberTo str num = str @ decimal (unat num)"

definition hex_digit :: "nat \<Rightarrow> byte" where
  "hex_digit n = word_of_nat (if n < 10 then 48 + n else 87 + n)"

fun AppendEscapedStringTo :: "bytes \<Rightarrow> Slice \<Rightarrow> bytes" where
  "AppendEscapedStringTo str [] = str"
| "AppendEscapedStringTo str (c # value) =
     AppendEscapedStringTo
       (if sint c \<ge> 32 \<and> sint c \<le> 126 then str @ [c]
        else str @ lit [CHR 0x5C, CHR ''x''] @ [hex_digit (unat c div 16), hex_digit (unat c mod 16)])
       value"

definition NumberToString :: "u64 \<Rightarrow> bytes" where
  "NumberToString num = AppendNumberTo [] num"

definition EscapeString :: "Slice \<Rightarrow> bytes" where
  "EscapeString value = AppendEscapedStringTo [] value"

definition kMaxUint64 :: u64 where "kMaxUint64 = - 1"

definition kLastDigitOfMaxUint64 :: byte where
  "kLastDigitOfMaxUint64 = 48 + ucast (kMaxUint64 mod 10)"

fun ConsumeDecimalNumber_loop :: "u64 \<Rightarrow> bytes \<Rightarrow> (u64 \<times> bytes) option" where
  "ConsumeDecimalNumber_loop value [] = Some (value, [])"
| "ConsumeDecimalNumber_loop value (ch # current) =
     (if ch < 48 \<or> ch > 57 then Some (value, ch # current)
      else if value > kMaxUint64 div 10
              \<or> value = kMaxUint64 div 10 \<and> ch > kLastDigitOfMaxUint64 then None
      else ConsumeDecimalNumber_loop (value * 10 + ucast (ch - 48)) current)"

text \<open>The rest of the slice and the value, \<^term>\<open>None\<close> for \<open>false\<close>.\<close>

definition ConsumeDecimalNumber :: "Slice \<Rightarrow> (Slice \<times> u64) option" where
  "ConsumeDecimalNumber inp =
     (case ConsumeDecimalNumber_loop 0 inp of
        None \<Rightarrow> None
      | Some (value, current) \<Rightarrow>
          (let digits_consumed = length inp - length current
           in if digits_consumed \<noteq> 0 then Some (current, value) else None))"

subsection \<open>What is parsed\<close>

definition isdigit :: "byte \<Rightarrow> bool" where
  "isdigit ch \<longleftrightarrow> 48 \<le> ch \<and> ch \<le> 57"

definition digits_from :: "nat \<Rightarrow> bytes \<Rightarrow> nat" where
  "digits_from v ds = foldl (\<lambda>v d. v * 10 + (unat d - 48)) v ds"

lemma digits_from_simps [simp]:
  "digits_from v [] = v"
  "digits_from v (d # ds) = digits_from (v * 10 + (unat d - 48)) ds"
  "digits_from v (ds @ es) = digits_from (digits_from v ds) es"
  by (simp_all add: digits_from_def)

lemma digits_from_ge: "v \<le> digits_from v ds"
proof (induction ds arbitrary: v)
  case (Cons d ds)
  have "v \<le> v * 10 + (unat d - 48)" by simp
  also have "\<dots> \<le> digits_from (v * 10 + (unat d - 48)) ds" by (rule Cons.IH)
  finally show ?case by simp
qed simp

lemma overflow_check:
  assumes "48 \<le> ch" "ch \<le> 57"
  shows "(value > kMaxUint64 div 10 \<or> value = kMaxUint64 div 10 \<and> ch > kLastDigitOfMaxUint64)
    \<longleftrightarrow> 2 ^ 64 \<le> unat value * 10 + (unat ch - 48)"
proof -
  have k: "unat (kMaxUint64 div 10) = 1844674407370955161"
    by (simp add: kMaxUint64_def unat_div)
  have l: "unat kLastDigitOfMaxUint64 = 53"
    by (simp add: kLastDigitOfMaxUint64_def kMaxUint64_def)
  show ?thesis
    using assms by (simp add: word_less_nat_alt word_le_nat_alt word_eq_nat_iff k l) arith
qed

lemma step_value:
  fixes ch :: byte
  assumes "48 \<le> ch" "ch \<le> 57" "unat value * 10 + (unat ch - 48) < 2 ^ 64"
  shows "unat (value * 10 + ucast (ch - 48) :: u64) = unat value * 10 + (unat ch - 48)"
proof -
  have "unat (ch - 48) = unat ch - 48"
    using assms(1) by (simp add: unat_sub_if' word_le_nat_alt)
  moreover have "unat ch - 48 < 2 ^ 64"
    by (rule order_le_less_trans [OF diff_le_self order_less_trans [OF unat_u8_less]]) simp
  ultimately have "unat (ucast (ch - 48) :: u64) = unat ch - 48"
    by (simp add: unsigned_ucast_eq take_bit_nat_eq_self)
  then show ?thesis
    using assms(3) by (simp add: unat_word_ariths)
qed

lemma ConsumeDecimalNumber_loop_spec:
  "ConsumeDecimalNumber_loop v s =
     (let n = digits_from (unat v) (takeWhile isdigit s)
      in if n < 2 ^ 64 then Some (word_of_nat n, dropWhile isdigit s) else None)"
proof (induction v s rule: ConsumeDecimalNumber_loop.induct)
  case (1 v)
  then show ?case using unat_less_exp [of v] by simp
next
  case (2 v ch s)
  show ?case
  proof (cases "isdigit ch")
    case False
    then show ?thesis
      using unat_less_exp [of v] by (auto simp: isdigit_def not_le)
  next
    case True
    let ?n = "unat v * 10 + (unat ch - 48)"
    have ch: "48 \<le> ch" "ch \<le> 57" using True by (auto simp: isdigit_def)
    then have nch: "\<not> ch < 48" "\<not> 57 < ch" by auto
    show ?thesis
    proof (cases "?n < 2 ^ 64")
      case big: False
      then show ?thesis
        using True nch overflow_check [OF ch, of v] digits_from_ge [of ?n "takeWhile isdigit s"]
        by (simp add: Let_def not_le)
    next
      case small: True
      then show ?thesis
        using True nch 2 overflow_check [OF ch, of v] step_value [OF ch small]
        by (auto simp: Let_def not_le)
    qed
  qed
qed

lemma ConsumeDecimalNumber_spec:
  "ConsumeDecimalNumber s =
     (let ds = takeWhile isdigit s
      in if ds \<noteq> [] \<and> digits_from 0 ds < 2 ^ 64
         then Some (dropWhile isdigit s, word_of_nat (digits_from 0 ds)) else None)"
proof -
  have "length s - length (dropWhile isdigit s) = length (takeWhile isdigit s)"
    by (metis add_diff_cancel_right' length_append takeWhile_dropWhile_id)
  then have "length s - length (dropWhile isdigit s) \<noteq> 0 \<longleftrightarrow> takeWhile isdigit s \<noteq> []"
    by (simp only: length_0_conv simp_thms)
  then show ?thesis
    unfolding ConsumeDecimalNumber_def ConsumeDecimalNumber_loop_spec Let_def
    by (cases "digits_from 0 (takeWhile isdigit s) < 2 ^ 64") (simp_all del: diff_is_0_eq)
qed

subsection \<open>Parsing what was printed\<close>

lemma digit_byte: "n < 10 \<Longrightarrow> isdigit (word_of_nat (48 + n)) \<and> unat (word_of_nat (48 + n) :: byte) = 48 + n"
proof -
  assume "n < 10"
  then have "unat (word_of_nat (48 + n) :: byte) = 48 + n"
    by (subst unat_of_nat) (simp add: take_bit_nat_eq_self)
  then show ?thesis
    using \<open>n < 10\<close> by (simp only: isdigit_def word_le_nat_alt) simp
qed

lemma decimal_digits: "list_all isdigit (decimal n) \<and> decimal n \<noteq> [] \<and> digits_from 0 (decimal n) = n"
proof (induction n rule: decimal.induct)
  case (1 n)
  show ?case
  proof (cases "n < 10")
    case True
    then show ?thesis using digit_byte [of n] by (simp add: decimal.simps [of n])
  next
    case False
    then show ?thesis
      using 1 digit_byte [of "n mod 10"] by (simp add: decimal.simps [of n])
  qed
qed

lemma takeWhile_isdigit: "list_all isdigit ds \<Longrightarrow> rest = [] \<or> \<not> isdigit (hd rest) \<Longrightarrow>
   takeWhile isdigit (ds @ rest) = ds \<and> dropWhile isdigit (ds @ rest) = rest"
  by (induction ds) (cases rest; auto)+

lemma ConsumeDecimalNumber_digits:
  assumes "list_all isdigit ds" "ds \<noteq> []" "digits_from 0 ds < 2 ^ 64"
    and "rest = [] \<or> \<not> isdigit (hd rest)"
  shows "ConsumeDecimalNumber (ds @ rest) = Some (rest, word_of_nat (digits_from 0 ds))"
  using assms takeWhile_isdigit [of ds rest] by (simp add: ConsumeDecimalNumber_spec Let_def)

lemma ConsumeDecimalNumber_NumberToString [roundtrip]:
  "rest = [] \<or> \<not> isdigit (hd rest) \<Longrightarrow>
   ConsumeDecimalNumber (NumberToString n @ rest) = Some (rest, n)"
  using decimal_digits [of "unat n"] unat_less_exp [of n]
  by (simp add: NumberToString_def AppendNumberTo_def ConsumeDecimalNumber_digits)

text \<open>Escaped strings are printable ASCII.\<close>

lemma hex_digit_printable: "n < 16 \<Longrightarrow> 32 \<le> sint (hex_digit n) \<and> sint (hex_digit n) \<le> 126"
proof -
  assume "n < 16"
  then have "n \<in> set [0..<16]" by simp
  moreover have "list_all (\<lambda>n. 32 \<le> sint (hex_digit n) \<and> sint (hex_digit n) \<le> 126) [0..<16]"
    by (simp add: upt_rec hex_digit_def)
  ultimately show ?thesis by (simp add: list_all_iff)
qed

lemma AppendEscapedStringTo_printable:
  "list_all (\<lambda>c. 32 \<le> sint c \<and> sint c \<le> 126) str \<Longrightarrow>
   list_all (\<lambda>c. 32 \<le> sint c \<and> sint c \<le> 126) (AppendEscapedStringTo str v)"
proof (induction str v rule: AppendEscapedStringTo.induct)
  case (2 str c v)
  have "unat c div 16 < 16" using unat_u8_less [of c] by (simp add: less_mult_imp_div_less)
  then show ?case
    using 2 hex_digit_printable [of "unat c div 16"] hex_digit_printable [of "unat c mod 16"] by simp
qed simp

text \<open>C26. \<open>ConsumeDecimalNumber\<close> reads the longest run of leading digits and succeeds exactly if
  there is a digit and the number fits in 64 bits: the overflow test on the last digit is exact.\<close>

theorem ConsumeDecimalNumber_exact:
  "ConsumeDecimalNumber s =
     (let ds = takeWhile isdigit s
      in if ds \<noteq> [] \<and> digits_from 0 ds < 2 ^ 64
         then Some (dropWhile isdigit s, word_of_nat (digits_from 0 ds)) else None)"
  by (rule ConsumeDecimalNumber_spec)

end
