(* ===== verification/Dbformat.thy ===== *)
theory Dbformat
  imports Comparators Bloom Logging
begin

text \<open>
  \<open>db/dbformat.h\<close> and \<open>db/dbformat.cc\<close>: internal keys, a user key followed by a tag that packs
  a sequence number and a value type. Packing and parsing are inverse; the internal comparator
  and filter policy implement the interfaces of their user counterparts; a \<open>LookupKey\<close> sorts
  between the versions of its key that a read must not see and those it may see.

  The assertions of these functions are not part of the definitions. They are hypotheses of the lemmas
  instead: sequence numbers are at most \<open>kMaxSequenceNumber\<close> (\<open>PackSequenceAndType\<close>), internal keys have
  at least eight bytes (\<open>ExtractUserKey\<close>, \<open>InternalKey::Encode\<close>), which \<open>ikey\<close> states. The assertions of
  the separator and the successor are shown to hold.
\<close>

subsection \<open>Constants\<close>

definition kNumLevels :: nat where "kNumLevels = 7"
definition kL0_CompactionTrigger :: nat where "kL0_CompactionTrigger = 4"
definition kL0_SlowdownWritesTrigger :: nat where "kL0_SlowdownWritesTrigger = 8"
definition kL0_StopWritesTrigger :: nat where "kL0_StopWritesTrigger = 12"
definition kMaxMemCompactLevel :: nat where "kMaxMemCompactLevel = 2"
definition kReadBytesPeriod :: nat where "kReadBytesPeriod = 1048576"

datatype ValueType = kTypeDeletion | kTypeValue

fun ValueType_value :: "ValueType \<Rightarrow> u64" where
  "ValueType_value kTypeDeletion = 0"
| "ValueType_value kTypeValue = 1"

definition kValueTypeForSeek :: ValueType where "kValueTypeForSeek = kTypeValue"

type_synonym SequenceNumber = u64

definition kMaxSequenceNumber :: SequenceNumber where
  "kMaxSequenceNumber = push_bit 56 1 - 1"

subsection \<open>Internal keys\<close>

record ParsedInternalKey =
  pik_user_key :: Slice
  pik_sequence :: SequenceNumber
  pik_type :: ValueType

definition InternalKeyEncodingLength :: "ParsedInternalKey \<Rightarrow> nat" where
  "InternalKeyEncodingLength k = length (pik_user_key k) + 8"

text \<open>The assertion on the sequence number is a hypothesis of the lemmas.\<close>

definition PackSequenceAndType :: "SequenceNumber \<Rightarrow> ValueType \<Rightarrow> u64" where
  "PackSequenceAndType seq t = push_bit 8 seq OR ValueType_value t"

definition AppendInternalKey :: "bytes \<Rightarrow> ParsedInternalKey \<Rightarrow> bytes" where
  "AppendInternalKey result k =
     PutFixed64 (result @ pik_user_key k) (PackSequenceAndType (pik_sequence k) (pik_type k))"

definition ExtractUserKey :: "Slice \<Rightarrow> Slice" where
  "ExtractUserKey internal_key = take (length internal_key - 8) internal_key"

definition ParseInternalKey :: "Slice \<Rightarrow> ParsedInternalKey option" where
  "ParseInternalKey internal_key =
     (let n = length internal_key
      in if n < 8 then None
         else case DecodeFixed64 (drop (n - 8) internal_key) of
                None \<Rightarrow> None
              | Some num \<Rightarrow>
                  let c = (ucast (num AND 0xff) :: byte)
                  in if c \<le> 1
                     then Some \<lparr>pik_user_key = take (n - 8) internal_key, pik_sequence = drop_bit 8 num,
                                pik_type = (if c = 0 then kTypeDeletion else kTypeValue)\<rparr>
                     else None)"

definition ParsedInternalKey_DebugString :: "ParsedInternalKey \<Rightarrow> bytes" where
  "ParsedInternalKey_DebugString k =
     [39] @ EscapeString (pik_user_key k)
     @ take 49 ([39] @ lit '' @ '' @ decimal (unat (pik_sequence k)) @ lit '' : ''
                @ decimal (unat (ValueType_value (pik_type k))))"

type_synonym InternalKey = bytes

definition InternalKey_make :: "Slice \<Rightarrow> SequenceNumber \<Rightarrow> ValueType \<Rightarrow> InternalKey" where
  "InternalKey_make user_key s t =
     AppendInternalKey [] \<lparr>pik_user_key = user_key, pik_sequence = s, pik_type = t\<rparr>"

definition InternalKey_DecodeFrom :: "Slice \<Rightarrow> InternalKey" where
  "InternalKey_DecodeFrom s = s"

definition InternalKey_Encode :: "InternalKey \<Rightarrow> Slice option" where
  "InternalKey_Encode rep = (if rep \<noteq> [] then Some rep else None)"

definition InternalKey_user_key :: "InternalKey \<Rightarrow> Slice" where
  "InternalKey_user_key rep = ExtractUserKey rep"

definition InternalKey_SetFrom :: "ParsedInternalKey \<Rightarrow> InternalKey" where
  "InternalKey_SetFrom p = AppendInternalKey [] p"

definition InternalKey_DebugString :: "InternalKey \<Rightarrow> bytes" where
  "InternalKey_DebugString rep =
     (case ParseInternalKey rep of
        Some parsed \<Rightarrow> ParsedInternalKey_DebugString parsed
      | None \<Rightarrow> lit ''(bad)'' @ EscapeString rep)"

subsection \<open>The comparator and the filter policy of internal keys\<close>

text \<open>The tag of a key, the last eight bytes; the code reads them without a check.\<close>

definition tag_of :: "Slice \<Rightarrow> u64" where
  "tag_of k = (case DecodeFixed64 (drop (length k - 8) k) of Some num \<Rightarrow> num | None \<Rightarrow> 0)"

definition InternalKey_Compare :: "Comparator \<Rightarrow> Slice \<Rightarrow> Slice \<Rightarrow> int" where
  "InternalKey_Compare user_comparator akey bkey =
     (let r = Compare user_comparator (ExtractUserKey akey) (ExtractUserKey bkey)
      in if r = 0 then
           let anum = tag_of akey; bnum = tag_of bkey
           in if anum > bnum then -1 else if anum < bnum then 1 else r
         else r)"

definition InternalKey_FindShortestSeparator :: "Comparator \<Rightarrow> bytes \<Rightarrow> Slice \<Rightarrow> bytes" where
  "InternalKey_FindShortestSeparator user_comparator start limit =
     (let user_start = ExtractUserKey start;
          user_limit = ExtractUserKey limit;
          tmp = FindShortestSeparator user_comparator user_start user_limit
      in if length tmp < length user_start \<and> Compare user_comparator user_start tmp < 0
         then PutFixed64 tmp (PackSequenceAndType kMaxSequenceNumber kValueTypeForSeek)
         else start)"

definition InternalKey_FindShortSuccessor :: "Comparator \<Rightarrow> bytes \<Rightarrow> bytes" where
  "InternalKey_FindShortSuccessor user_comparator k =
     (let user_key = ExtractUserKey k;
          tmp = FindShortSuccessor user_comparator user_key
      in if length tmp < length user_key \<and> Compare user_comparator user_key tmp < 0
         then PutFixed64 tmp (PackSequenceAndType kMaxSequenceNumber kValueTypeForSeek)
         else k)"

definition InternalKeyComparator :: "Comparator \<Rightarrow> Comparator" where
  "InternalKeyComparator c =
     \<lparr>Compare = InternalKey_Compare c, Comparator_Name = lit ''leveldb.InternalKeyComparator'',
      FindShortestSeparator = InternalKey_FindShortestSeparator c,
      FindShortSuccessor = InternalKey_FindShortSuccessor c\<rparr>"

definition InternalFilterPolicy :: "FilterPolicy \<Rightarrow> FilterPolicy" where
  "InternalFilterPolicy user_policy =
     \<lparr>Policy_Name = Policy_Name user_policy,
      CreateFilter = (\<lambda>keys dst. CreateFilter user_policy (map ExtractUserKey keys) dst),
      KeyMayMatch = (\<lambda>k f. KeyMayMatch user_policy (ExtractUserKey k) f)\<rparr>"

subsection \<open>Lookup keys\<close>

text \<open>\<open>start_\<close> is kept as the contents of the array up to \<open>end_\<close>, \<open>kstart_\<close> as an offset into
  it; \<open>on_heap\<close> says whether the array is an allocated one.\<close>

record LookupKey =
  lk_start :: bytes
  lk_kstart :: nat
  lk_on_heap :: bool

definition new_LookupKey :: "Slice \<Rightarrow> SequenceNumber \<Rightarrow> LookupKey" where
  "new_LookupKey user_key s =
     (let usize = length user_key;
          needed = usize + 13;
          dst = EncodeVarint32 (word_of_nat (usize + 8))
      in \<lparr>lk_start = dst @ user_key @ EncodeFixed64 (PackSequenceAndType s kValueTypeForSeek),
          lk_kstart = length dst, lk_on_heap = (\<not> needed \<le> 200)\<rparr>)"

definition memtable_key :: "LookupKey \<Rightarrow> Slice" where
  "memtable_key k = lk_start k"

definition internal_key :: "LookupKey \<Rightarrow> Slice" where
  "internal_key k = drop (lk_kstart k) (lk_start k)"

definition user_key :: "LookupKey \<Rightarrow> Slice" where
  "user_key k = take (length (lk_start k) - lk_kstart k - 8) (drop (lk_kstart k) (lk_start k))"

subsection \<open>Packing and parsing\<close>

lemma kMaxSequenceNumber_bit: "seq \<le> kMaxSequenceNumber \<Longrightarrow> bit seq n \<Longrightarrow> n < 56"
proof -
  assume "seq \<le> kMaxSequenceNumber" and b: "bit seq n"
  then have "unat seq < 2 ^ 56"
    by (simp add: kMaxSequenceNumber_def word_le_nat_alt)
  then show ?thesis using b by (rule bit_bound)
qed

lemma ValueType_bit: "bit (ValueType_value t) n \<longleftrightarrow> t = kTypeValue \<and> n = 0"
  by (cases t) (auto simp: bit_1_iff)

lemma Pack_unpack:
  assumes "seq \<le> kMaxSequenceNumber"
  shows "drop_bit 8 (PackSequenceAndType seq t) = seq"
    and "ucast (PackSequenceAndType seq t) = (ucast (ValueType_value t) :: byte)"
proof -
  show "drop_bit 8 (PackSequenceAndType seq t) = seq"
    by (rule bit_word_eqI)
      (auto simp: PackSequenceAndType_def bit_simps ValueType_bit
        dest: kMaxSequenceNumber_bit [OF assms])
  show "ucast (PackSequenceAndType seq t) = (ucast (ValueType_value t) :: byte)"
    by (rule bit_word_eqI) (auto simp: PackSequenceAndType_def bit_simps)
qed

lemma Pack_value:
  assumes "seq \<le> kMaxSequenceNumber"
  shows "unat (PackSequenceAndType seq t) = unat seq * 256 + unat (ValueType_value t)"
proof -
  have "unat seq < 2 ^ 56"
    using assms by (simp add: kMaxSequenceNumber_def word_le_nat_alt)
  then have "unat (push_bit 8 seq) = unat seq * 256"
    by (simp add: push_bit_eq_mult unat_word_ariths)
  moreover have "push_bit 8 seq OR ValueType_value t = push_bit 8 seq + ValueType_value t"
    by (rule disjunctive_add_eq_or [symmetric])
      (rule bit_word_eqI, auto simp: bit_simps ValueType_bit)
  moreover have "unat (ValueType_value t) \<le> 1" by (cases t) auto
  ultimately show ?thesis
    using \<open>unat seq < 2 ^ 56\<close> by (simp add: PackSequenceAndType_def unat_word_ariths)
qed

lemma AppendInternalKey_app:
  "AppendInternalKey r k =
   r @ pik_user_key k @ EncodeFixed64 (PackSequenceAndType (pik_sequence k) (pik_type k))"
  by (simp add: AppendInternalKey_def PutFixed64_def)

lemma ExtractUserKey_append [simp]: "length t = 8 \<Longrightarrow> ExtractUserKey (u @ t) = u"
  by (simp add: ExtractUserKey_def)

lemma tag_of_append [simp]: "tag_of (u @ EncodeFixed64 v) = v"
  by (simp add: tag_of_def)

lemma InternalKey_make_app [simp]:
  "InternalKey_make u s t = u @ EncodeFixed64 (PackSequenceAndType s t)"
  by (simp add: InternalKey_make_def AppendInternalKey_app)

lemma ParseInternalKey_Append:
  assumes "pik_sequence k \<le> kMaxSequenceNumber"
  shows "ParseInternalKey (AppendInternalKey [] k) = Some k"
  using Pack_unpack [OF assms, of "pik_type k"]
  by (cases "pik_type k") (simp_all add: ParseInternalKey_def AppendInternalKey_app Let_def ucast_and_0xff)

lemma repack: "ucast num = (ucast (ValueType_value t) :: byte) \<Longrightarrow>
   PackSequenceAndType (drop_bit 8 num) t = num" for num :: u64
proof -
  assume u: "ucast num = (ucast (ValueType_value t) :: byte)"
  have low: "bit (ValueType_value t) n = bit num n" if "n < 8" for n
    using arg_cong [OF u, of "\<lambda>w. bit w n"] that by (simp add: bit_simps)
  show ?thesis
  proof (rule bit_word_eqI)
    fix n assume "n < LENGTH(64)"
    then show "bit (PackSequenceAndType (drop_bit 8 num) t) n = bit num n"
      using low [of n] by (cases "n < 8") (auto simp: PackSequenceAndType_def bit_simps ValueType_bit)
  qed
qed

lemma drop_8_bound: "drop_bit 8 num \<le> kMaxSequenceNumber" for num :: u64
  using unat_less_exp [of num]
  by (simp add: kMaxSequenceNumber_def word_le_nat_alt unat_drop_bit)

lemma ParseInternalKey_Some:
  assumes "ParseInternalKey ik = Some k"
  shows "AppendInternalKey [] k = ik \<and> pik_sequence k \<le> kMaxSequenceNumber"
proof -
  have n: "8 \<le> length ik"
    using assms by (auto simp: ParseInternalKey_def Let_def split: if_splits)
  then obtain num where num: "DecodeFixed64 (drop (length ik - 8) ik) = Some num"
    "EncodeFixed64 num = drop (length ik - 8) ik"
    using DecodeFixed64_Some [of "drop (length ik - 8) ik"] by auto
  let ?c = "ucast num :: byte"
  have c: "?c \<le> 1" and k: "k = \<lparr>pik_user_key = take (length ik - 8) ik, pik_sequence = drop_bit 8 num,
      pik_type = (if ?c = 0 then kTypeDeletion else kTypeValue)\<rparr>"
    using assms n num by (auto simp: ParseInternalKey_def Let_def ucast_and_0xff split: if_splits)
  have "?c = 0 \<or> ?c = 1"
    using c by (auto simp: word_le_nat_alt word_eq_nat_iff)
  then have "PackSequenceAndType (drop_bit 8 num) (pik_type k) = num"
    by (intro repack) (auto simp: k)
  then show ?thesis
    using num drop_8_bound [of num] by (simp add: k AppendInternalKey_app)
qed

subsection \<open>The order of internal keys\<close>

definition ikey :: "(Slice \<Rightarrow> bool) \<Rightarrow> Slice \<Rightarrow> bool" where
  "ikey key k \<longleftrightarrow> 8 \<le> length k \<and> key (ExtractUserKey k)"

lemma ikey_split: "8 \<le> length k \<Longrightarrow> k = ExtractUserKey k @ EncodeFixed64 (tag_of k)"
proof -
  assume "8 \<le> length k"
  then obtain v where v: "DecodeFixed64 (drop (length k - 8) k) = Some v"
    "EncodeFixed64 v = drop (length k - 8) k"
    using DecodeFixed64_Some [of "drop (length k - 8) k"] by auto
  then show ?thesis by (simp add: tag_of_def ExtractUserKey_def)
qed

lemma ikey_eqI: "8 \<le> length a \<Longrightarrow> 8 \<le> length b \<Longrightarrow> ExtractUserKey a = ExtractUserKey b \<Longrightarrow>
   tag_of a = tag_of b \<Longrightarrow> a = b"
  by (metis ikey_split)

lemma InternalKeyComparator_simps [simp]:
  "Compare (InternalKeyComparator c) = InternalKey_Compare c"
  "FindShortestSeparator (InternalKeyComparator c) = InternalKey_FindShortestSeparator c"
  "FindShortSuccessor (InternalKeyComparator c) = InternalKey_FindShortSuccessor c"
  "Comparator_Name (InternalKeyComparator c) = lit ''leveldb.InternalKeyComparator''"
  by (simp_all add: InternalKeyComparator_def)

context comparator
begin

lemma ikc_same_user:
  "key (ExtractUserKey a) \<Longrightarrow> ExtractUserKey a = ExtractUserKey b \<Longrightarrow>
   InternalKey_Compare cmp a b = (if tag_of a > tag_of b then -1 else if tag_of a < tag_of b then 1 else 0)"
  by (simp add: InternalKey_Compare_def Let_def refl)

lemma ikc_other_user:
  "key (ExtractUserKey a) \<Longrightarrow> key (ExtractUserKey b) \<Longrightarrow> ExtractUserKey a \<noteq> ExtractUserKey b \<Longrightarrow>
   InternalKey_Compare cmp a b = Compare cmp (ExtractUserKey a) (ExtractUserKey b)
   \<and> InternalKey_Compare cmp a b \<noteq> 0"
  by (simp add: InternalKey_Compare_def Let_def eq_iff)

lemma ikc_less_iff:
  assumes "ikey key a" "ikey key b"
  shows "InternalKey_Compare cmp a b < 0 \<longleftrightarrow>
    Compare cmp (ExtractUserKey a) (ExtractUserKey b) < 0
    \<or> ExtractUserKey a = ExtractUserKey b \<and> tag_of b < tag_of a"
proof (cases "ExtractUserKey a = ExtractUserKey b")
  case True
  then have "Compare cmp (ExtractUserKey a) (ExtractUserKey b) = 0"
    using assms refl by (simp add: ikey_def)
  then show ?thesis
    using assms True ikc_same_user [of a b] by (simp add: ikey_def)
next
  case False
  then show ?thesis
    using assms ikc_other_user [of a b] by (simp add: ikey_def)
qed

lemma ikc_eq_iff:
  assumes "ikey key a" "ikey key b"
  shows "InternalKey_Compare cmp a b = 0 \<longleftrightarrow> a = b"
proof (cases "ExtractUserKey a = ExtractUserKey b")
  case True
  then have "tag_of a = tag_of b \<Longrightarrow> a = b"
    using assms ikey_eqI by (simp add: ikey_def)
  then show ?thesis
    using assms True ikc_same_user [of a b] by (auto simp: ikey_def)
next
  case False
  then show ?thesis
    using assms ikc_other_user [of a b] by (auto simp: ikey_def)
qed

lemma ikc_greater_iff:
  assumes "ikey key a" "ikey key b"
  shows "0 < InternalKey_Compare cmp a b \<longleftrightarrow> InternalKey_Compare cmp b a < 0"
proof (cases "ExtractUserKey a = ExtractUserKey b")
  case True
  then show ?thesis
    using assms ikc_same_user [OF _ True] ikc_same_user [OF _ True [symmetric]]
    by (cases rule: linorder_cases [of "tag_of a" "tag_of b"]) (simp_all add: ikey_def)
next
  case False
  then show ?thesis
    using assms ikc_other_user [OF _ _ False] ikc_other_user [OF _ _ False [symmetric]]
      swap [of "ExtractUserKey b" "ExtractUserKey a"] by (simp add: ikey_def)
qed

lemma ikc_less_trans:
  assumes "ikey key a" "ikey key b" "ikey key c"
    and "InternalKey_Compare cmp a b < 0" "InternalKey_Compare cmp b c < 0"
  shows "InternalKey_Compare cmp a c < 0"
proof -
  have "key (ExtractUserKey a)" "key (ExtractUserKey b)" "key (ExtractUserKey c)"
    using assms by (auto simp: ikey_def)
  then show ?thesis
    using assms(4,5) less_trans [of "ExtractUserKey a" "ExtractUserKey b" "ExtractUserKey c"]
    unfolding ikc_less_iff [OF assms(1,2)] ikc_less_iff [OF assms(2,3)] ikc_less_iff [OF assms(1,3)]
    by (elim disjE conjE) (auto intro: order.strict_trans)
qed

lemma ikc_shortened:
  assumes "ikey key start" "key tmp" "Compare cmp (ExtractUserKey start) tmp < 0"
  shows "ikey key (PutFixed64 tmp t) \<and> InternalKey_Compare cmp start (PutFixed64 tmp t) < 0"
  using assms by (auto simp: PutFixed64_def ikey_def InternalKey_Compare_def)

text \<open>The internal comparator implements the interface again, on the keys that have a tag.\<close>

lemma internal_comparator: "comparator (ikey key) (InternalKeyComparator cmp)"
proof
  fix a b c
  show "ikey key a \<Longrightarrow> Compare (InternalKeyComparator cmp) a a = 0"
    by (simp add: ikc_eq_iff)
  show "ikey key a \<Longrightarrow> ikey key b \<Longrightarrow> Compare (InternalKeyComparator cmp) a b < 0
      \<longleftrightarrow> 0 < Compare (InternalKeyComparator cmp) b a"
    by (simp add: ikc_greater_iff)
  show "ikey key a \<Longrightarrow> ikey key b \<Longrightarrow> Compare (InternalKeyComparator cmp) a b = 0 \<Longrightarrow> a = b"
    by (simp add: ikc_eq_iff)
  show "ikey key a \<Longrightarrow> ikey key b \<Longrightarrow> ikey key c \<Longrightarrow>
      Compare (InternalKeyComparator cmp) a b \<le> 0 \<Longrightarrow> Compare (InternalKeyComparator cmp) b c \<le> 0 \<Longrightarrow>
      Compare (InternalKeyComparator cmp) a c \<le> 0"
    using ikc_less_trans [of a b c] ikc_eq_iff [of a b] ikc_eq_iff [of b c]
    unfolding le_less InternalKeyComparator_simps by metis
next
  fix start limit
  let ?us = "ExtractUserKey start" and ?ul = "ExtractUserKey limit"
  assume k: "ikey key start" "ikey key limit"
  then have uk: "key ?us" "key ?ul" by (auto simp: ikey_def)
  {
    assume lt: "Compare (InternalKeyComparator cmp) start limit < 0"
    let ?tmp = "FindShortestSeparator cmp ?us ?ul"
    show "ikey key (FindShortestSeparator (InternalKeyComparator cmp) start limit)
      \<and> Compare (InternalKeyComparator cmp) start (FindShortestSeparator (InternalKeyComparator cmp) start limit) \<le> 0
      \<and> Compare (InternalKeyComparator cmp) (FindShortestSeparator (InternalKeyComparator cmp) start limit) limit < 0"
    proof (cases "length ?tmp < length ?us \<and> Compare cmp ?us ?tmp < 0")
      case True
      then have "Compare cmp ?us ?ul < 0"
        using unchanged [OF uk] by (metis less_irrefl)
      then have s: "key ?tmp" "Compare cmp ?tmp ?ul < 0"
        using separator [OF uk] by auto
      have "InternalKey_Compare cmp (PutFixed64 ?tmp t) limit < 0" for t
        using s by (simp add: PutFixed64_def InternalKey_Compare_def)
      then show ?thesis
        using True ikc_shortened [OF k(1) s(1)]
        by (simp add: InternalKey_FindShortestSeparator_def Let_def less_imp_le)
    next
      case False
      then have "InternalKey_FindShortestSeparator cmp start limit = start"
        by (auto simp: InternalKey_FindShortestSeparator_def Let_def)
      then show ?thesis
        using k lt ikc_eq_iff [of start start] by simp
    qed
  next
    assume "\<not> Compare (InternalKeyComparator cmp) start limit < 0"
    then have "\<not> Compare cmp ?us ?ul < 0"
      using ikc_less_iff [OF k] by simp
    then have "FindShortestSeparator cmp ?us ?ul = ?us"
      by (rule unchanged [OF uk])
    then show "FindShortestSeparator (InternalKeyComparator cmp) start limit = start"
      by (simp add: InternalKey_FindShortestSeparator_def)
  }
next
  fix k assume k: "ikey key k"
  let ?tmp = "FindShortSuccessor cmp (ExtractUserKey k)"
  have "key ?tmp" using k successor by (simp add: ikey_def)
  then show "ikey key (FindShortSuccessor (InternalKeyComparator cmp) k)
    \<and> Compare (InternalKeyComparator cmp) k (FindShortSuccessor (InternalKeyComparator cmp) k) \<le> 0"
    using k ikc_shortened [OF k, of ?tmp] ikc_eq_iff [of k k]
    by (auto simp: InternalKey_FindShortSuccessor_def Let_def less_imp_le)
qed

text \<open>The assertions of the separator and the successor.\<close>

lemma internal_strict:
  assumes "ikey key a"
  shows "ikey key b \<Longrightarrow> InternalKey_FindShortestSeparator cmp a b \<noteq> a \<Longrightarrow>
      InternalKey_Compare cmp a (InternalKey_FindShortestSeparator cmp a b) < 0
      \<and> InternalKey_Compare cmp (InternalKey_FindShortestSeparator cmp a b) b < 0"
    and "InternalKey_FindShortSuccessor cmp a \<noteq> a \<Longrightarrow> InternalKey_Compare cmp a (InternalKey_FindShortSuccessor cmp a) < 0"
proof -
  note C = internal_comparator
  {
    assume b: "ikey key b" and n: "InternalKey_FindShortestSeparator cmp a b \<noteq> a"
    then have lt: "InternalKey_Compare cmp a b < 0" using comparator.unchanged [OF C assms b] by auto
    note s = comparator.separator [OF C assms b, unfolded InternalKeyComparator_simps, OF lt]
    show "InternalKey_Compare cmp a (InternalKey_FindShortestSeparator cmp a b) < 0
        \<and> InternalKey_Compare cmp (InternalKey_FindShortestSeparator cmp a b) b < 0"
      using s n ikc_eq_iff [OF assms, of "InternalKey_FindShortestSeparator cmp a b"] by fastforce
  }
  {
    assume n: "InternalKey_FindShortSuccessor cmp a \<noteq> a"
    note s = comparator.successor [OF C assms, unfolded InternalKeyComparator_simps]
    show "InternalKey_Compare cmp a (InternalKey_FindShortSuccessor cmp a) < 0"
      using s n ikc_eq_iff [OF assms, of "InternalKey_FindShortSuccessor cmp a"] by fastforce
  }
qed

end

interpretation internal_bytewise: comparator "ikey (\<lambda>_. True)" "InternalKeyComparator BytewiseComparator"
  by (rule bytewise.internal_comparator)

lemma internal_filter_policy: "filter_policy p \<Longrightarrow> filter_policy (InternalFilterPolicy p)"
proof (unfold_locales)
  assume p: "filter_policy p"
  fix keys dst
  show "CreateFilter (InternalFilterPolicy p) keys dst
    = dst @ CreateFilter (InternalFilterPolicy p) keys []"
    using filter_policy.appends [OF p, of "map ExtractUserKey keys" dst]
    by (simp add: InternalFilterPolicy_def)
next
  assume p: "filter_policy p"
  fix k and keys :: "Slice list"
  assume "k \<in> set keys"
  then show "KeyMayMatch (InternalFilterPolicy p) k (CreateFilter (InternalFilterPolicy p) keys [])"
    using filter_policy.may_match [OF p] by (simp add: InternalFilterPolicy_def)
qed

interpretation internal_bloom: filter_policy "InternalFilterPolicy (NewBloomFilterPolicy n)"
  by (rule internal_filter_policy) (rule bloom.filter_policy_axioms)

subsection \<open>Lookup keys\<close>

lemma LookupKey_parts:
  "internal_key (new_LookupKey u s) = InternalKey_make u s kValueTypeForSeek"
  "user_key (new_LookupKey u s) = u"
  "memtable_key (new_LookupKey u s) = EncodeVarint32 (word_of_nat (length u + 8))
     @ InternalKey_make u s kValueTypeForSeek"
  by (simp_all add: internal_key_def user_key_def memtable_key_def new_LookupKey_def Let_def)

lemma LookupKey_fits:
  "length (lk_start (new_LookupKey u s)) \<le> length u + 13"
  "\<not> lk_on_heap (new_LookupKey u s) \<Longrightarrow> length (lk_start (new_LookupKey u s)) \<le> 200"
  using EncodeVarint32_max [of "word_of_nat (length u + 8)"]
  by (simp_all add: new_LookupKey_def Let_def)

lemma lexicographic_256: "x < 256 \<Longrightarrow> y < 256 \<Longrightarrow>
   (a * 256 + x < b * 256 + y) \<longleftrightarrow> a < b \<or> a = b \<and> x < y" for a b x y :: nat
  by (cases rule: linorder_cases [of a b]) auto

lemma ValueType_value_less: "unat (ValueType_value t) < 256"
  by (cases t) simp_all

lemma Pack_less_iff:
  assumes "s \<le> kMaxSequenceNumber" "s' \<le> kMaxSequenceNumber"
  shows "PackSequenceAndType s t < PackSequenceAndType s' t' \<longleftrightarrow>
    s < s' \<or> s = s' \<and> ValueType_value t < ValueType_value t'"
  unfolding word_less_nat_alt word_eq_nat_iff Pack_value [OF assms(1)] Pack_value [OF assms(2)]
  by (rule lexicographic_256) (rule ValueType_value_less)+

text \<open>Where the key of a lookup at sequence number \<open>s\<close> sorts among the entries for its user key:
  after those written later than \<open>s\<close>, before or at those the lookup may see.\<close>

lemma LookupKey_position:
  assumes "s \<le> kMaxSequenceNumber" "s' \<le> kMaxSequenceNumber"
  shows "InternalKey_Compare BytewiseComparator (internal_key (new_LookupKey u s)) (InternalKey_make u s' t) \<le> 0
    \<longleftrightarrow> s' \<le> s"
proof -
  have "ValueType_value t \<le> ValueType_value kTypeValue" by (cases t) simp_all
  then have "InternalKey_Compare BytewiseComparator (InternalKey_make u s kTypeValue) (InternalKey_make u s' t) \<le> 0
      \<longleftrightarrow> PackSequenceAndType s' t \<le> PackSequenceAndType s kTypeValue"
    by (cases rule: linorder_cases [of "PackSequenceAndType s kTypeValue" "PackSequenceAndType s' t"])
      (auto simp: InternalKey_Compare_def Let_def)
  also have "\<dots> \<longleftrightarrow> s' \<le> s"
    using Pack_less_iff [OF assms, of kTypeValue t] \<open>ValueType_value t \<le> _\<close>
    unfolding linorder_not_less [symmetric] by auto
  finally show ?thesis
    by (simp add: LookupKey_parts kValueTypeForSeek_def del: InternalKey_make_app)
qed

subsection \<open>Properties\<close>

text \<open>C11. \<open>ParseInternalKey\<close> accepts exactly the serializations of internal keys whose
  sequence number fits its 56 bits, and returns the key that was serialized.\<close>

theorem ParseInternalKey_iff:
  "ParseInternalKey ik = Some k \<longleftrightarrow>
   AppendInternalKey [] k = ik \<and> pik_sequence k \<le> kMaxSequenceNumber"
  using ParseInternalKey_Some [of ik k] ParseInternalKey_Append [of k] by auto

text \<open>C10. A lookup of a user key at sequence number \<open>s\<close> positions itself at or before an entry
  for that key exactly when the entry's sequence number is at most \<open>s\<close>, whatever its type, and
  the array built for the lookup never outgrows the buffer chosen for it.\<close>

theorem LookupKey_sees:
  assumes "s \<le> kMaxSequenceNumber" "s' \<le> kMaxSequenceNumber"
  shows "(InternalKey_Compare BytewiseComparator (internal_key (new_LookupKey u s))
           (AppendInternalKey [] \<lparr>pik_user_key = u, pik_sequence = s', pik_type = t\<rparr>) \<le> 0
          \<longleftrightarrow> s' \<le> s)
    \<and> length (memtable_key (new_LookupKey u s))
        \<le> (if lk_on_heap (new_LookupKey u s) then length u + 13 else 200)"
  using LookupKey_position [OF assms, of u t] LookupKey_fits [of u s]
  by (simp add: AppendInternalKey_app memtable_key_def)

lemma LookupKey_sees_witness:
  "(InternalKey_Compare BytewiseComparator (internal_key (new_LookupKey (lit ''k'') 7))
      (AppendInternalKey [] \<lparr>pik_user_key = lit ''k'', pik_sequence = 9, pik_type = kTypeValue\<rparr>) \<le> 0
    \<longleftrightarrow> (9 :: u64) \<le> 7)"
  using LookupKey_sees [of 7 9 "lit ''k''" kTypeValue] by (simp add: kMaxSequenceNumber_def)

text \<open>C9. For every user comparator that keeps the contract of \<open>comparator.h\<close>, the comparator of internal keys
  keeps the whole contract on internal keys: it is a total order, its separators divide, its successors do
  not fall behind. It orders by user key, then by decreasing tag: sequence number first, then type. The
  assertions in its separator and its successor hold: a shortened key lies strictly past the old one and
  before the limit.\<close>

theorem InternalKeyComparator_order:
  assumes "comparator key cmp"
  shows "comparator (ikey key) (InternalKeyComparator cmp)
    \<and> (\<forall>a b. ikey key a \<and> ikey key b \<longrightarrow>
         (InternalKey_Compare cmp a b < 0 \<longleftrightarrow> Compare cmp (ExtractUserKey a) (ExtractUserKey b) < 0
            \<or> ExtractUserKey a = ExtractUserKey b \<and> tag_of b < tag_of a)
         \<and> (InternalKey_FindShortestSeparator cmp a b \<noteq> a \<longrightarrow>
              InternalKey_Compare cmp a (InternalKey_FindShortestSeparator cmp a b) < 0
              \<and> InternalKey_Compare cmp (InternalKey_FindShortestSeparator cmp a b) b < 0)
         \<and> (InternalKey_FindShortSuccessor cmp a \<noteq> a \<longrightarrow> InternalKey_Compare cmp a (InternalKey_FindShortSuccessor cmp a) < 0))
    \<and> (\<forall>u q t q' t'. q \<le> kMaxSequenceNumber \<and> q' \<le> kMaxSequenceNumber \<longrightarrow>
         (tag_of (InternalKey_make u q t) < tag_of (InternalKey_make u q' t')
            \<longleftrightarrow> q < q' \<or> q = q' \<and> ValueType_value t < ValueType_value t'))"
  using comparator.internal_comparator [OF assms] comparator.ikc_less_iff [OF assms] comparator.internal_strict [OF assms]
    Pack_less_iff by simp

theorem InternalKeyComparator_order_witness:
  "InternalKey_Compare BytewiseComparator (InternalKey_make (lit ''azz'') 9 kTypeValue) (InternalKey_make (lit ''azz'') 5 kTypeValue) < 0"
proof -
  let ?k = "\<lambda>q. InternalKey_make (lit ''azz'') q kTypeValue"
  have "ikey (\<lambda>_. True) (?k q)" for q by (simp add: ikey_def)
  moreover have "tag_of (?k 5) < tag_of (?k 9)"
    using InternalKeyComparator_order [OF bytewise.comparator_axioms, THEN conjunct2, THEN conjunct2]
    by (simp add: kMaxSequenceNumber_def del: InternalKey_make_app)
  moreover have "ExtractUserKey (?k q) = lit ''azz''" for q by (simp del: lit_simps)
  ultimately show ?thesis
    using InternalKeyComparator_order [OF bytewise.comparator_axioms, THEN conjunct2, THEN conjunct1]
    by (simp del: InternalKey_make_app lit_simps)
qed

end
