(* ===== verification/Version_Edit.thy ===== *)
theory Version_Edit
  imports Dbformat "HOL-Library.Product_Lexorder"
begin

text \<open>
  \<open>db/version_edit.h\<close> and \<open>db/version_edit.cc\<close>: the changes from one version of the set of files to
  the next, their encoding in the descriptor log, and its decoder. Decoding what was encoded gives
  the edit back; \<open>Clear\<close> and so \<open>DecodeFrom\<close> keep the compaction pointers of an object that was
  used before. An optional value is \<open>None\<close> where an assertion of the code fails.
\<close>

subsection \<open>Data\<close>

definition kComparator :: u32 where "kComparator = 1"
definition kLogNumber :: u32 where "kLogNumber = 2"
definition kNextFileNumber :: u32 where "kNextFileNumber = 3"
definition kLastSequence :: u32 where "kLastSequence = 4"
definition kCompactPointer :: u32 where "kCompactPointer = 5"
definition kDeletedFile :: u32 where "kDeletedFile = 6"
definition kNewFile :: u32 where "kNewFile = 7"
definition kPrevLogNumber :: u32 where "kPrevLogNumber = 9"

lemmas tag_defs = kComparator_def kLogNumber_def kNextFileNumber_def kLastSequence_def
  kCompactPointer_def kDeletedFile_def kNewFile_def kPrevLogNumber_def

record FileMetaData =
  fm_refs :: int
  fm_allowed_seeks :: int
  fm_number :: u64
  fm_file_size :: u64
  fm_smallest :: InternalKey
  fm_largest :: InternalKey

definition new_FileMetaData :: "u64 \<Rightarrow> FileMetaData" where
  "new_FileMetaData number =
     \<lparr>fm_refs = 0, fm_allowed_seeks = 2 ^ 30, fm_number = number, fm_file_size = 0,
      fm_smallest = [], fm_largest = []\<rparr>"

record VersionEdit =
  ve_comparator :: bytes
  ve_log_number :: u64
  ve_prev_log_number :: u64
  ve_next_file_number :: u64
  ve_last_sequence :: SequenceNumber
  ve_has_comparator :: bool
  ve_has_log_number :: bool
  ve_has_prev_log_number :: bool
  ve_has_next_file_number :: bool
  ve_has_last_sequence :: bool
  ve_compact_pointers :: "(int \<times> InternalKey) list"
  ve_deleted_files :: "(int \<times> u64) set"
  ve_new_files :: "(int \<times> FileMetaData) list"

subsection \<open>Operations\<close>

definition VersionEdit_Clear :: "VersionEdit \<Rightarrow> VersionEdit" where
  "VersionEdit_Clear e = e
     \<lparr>ve_comparator := [], ve_log_number := 0, ve_prev_log_number := 0, ve_last_sequence := 0,
      ve_next_file_number := 0, ve_has_comparator := False, ve_has_log_number := False,
      ve_has_prev_log_number := False, ve_has_next_file_number := False,
      ve_has_last_sequence := False, ve_deleted_files := {}, ve_new_files := []\<rparr>"

text \<open>The containers of a new object are empty before the constructor clears it.\<close>

definition new_VersionEdit :: VersionEdit where
  "new_VersionEdit = VersionEdit_Clear
     \<lparr>ve_comparator = [], ve_log_number = 0, ve_prev_log_number = 0, ve_next_file_number = 0,
      ve_last_sequence = 0, ve_has_comparator = False, ve_has_log_number = False,
      ve_has_prev_log_number = False, ve_has_next_file_number = False, ve_has_last_sequence = False,
      ve_compact_pointers = [], ve_deleted_files = {}, ve_new_files = []\<rparr>"

definition SetComparatorName :: "Slice \<Rightarrow> VersionEdit \<Rightarrow> VersionEdit" where
  "SetComparatorName name e = e\<lparr>ve_has_comparator := True, ve_comparator := name\<rparr>"

definition SetLogNumber :: "u64 \<Rightarrow> VersionEdit \<Rightarrow> VersionEdit" where
  "SetLogNumber num e = e\<lparr>ve_has_log_number := True, ve_log_number := num\<rparr>"

definition SetPrevLogNumber :: "u64 \<Rightarrow> VersionEdit \<Rightarrow> VersionEdit" where
  "SetPrevLogNumber num e = e\<lparr>ve_has_prev_log_number := True, ve_prev_log_number := num\<rparr>"

definition SetNextFile :: "u64 \<Rightarrow> VersionEdit \<Rightarrow> VersionEdit" where
  "SetNextFile num e = e\<lparr>ve_has_next_file_number := True, ve_next_file_number := num\<rparr>"

definition SetLastSequence :: "SequenceNumber \<Rightarrow> VersionEdit \<Rightarrow> VersionEdit" where
  "SetLastSequence s e = e\<lparr>ve_has_last_sequence := True, ve_last_sequence := s\<rparr>"

definition SetCompactPointer :: "int \<Rightarrow> InternalKey \<Rightarrow> VersionEdit \<Rightarrow> VersionEdit" where
  "SetCompactPointer level k e = e\<lparr>ve_compact_pointers := ve_compact_pointers e @ [(level, k)]\<rparr>"

definition VersionEdit_AddFile ::
  "int \<Rightarrow> u64 \<Rightarrow> u64 \<Rightarrow> InternalKey \<Rightarrow> InternalKey \<Rightarrow> VersionEdit \<Rightarrow> VersionEdit" where
  "VersionEdit_AddFile level file file_size smallest largest e =
     (let f = (new_FileMetaData file)\<lparr>fm_file_size := file_size, fm_smallest := smallest, fm_largest := largest\<rparr>
      in e\<lparr>ve_new_files := ve_new_files e @ [(level, f)]\<rparr>)"

definition VersionEdit_DeleteFile :: "int \<Rightarrow> u64 \<Rightarrow> VersionEdit \<Rightarrow> VersionEdit" where
  "VersionEdit_DeleteFile level file e = e\<lparr>ve_deleted_files := insert (level, file) (ve_deleted_files e)\<rparr>"

subsection \<open>Encoding\<close>

fun put_all :: "('a \<Rightarrow> bytes \<Rightarrow> bytes option) \<Rightarrow> 'a list \<Rightarrow> bytes \<Rightarrow> bytes option" where
  "put_all put [] dst = Some dst"
| "put_all put (x # xs) dst = Option.bind (put x dst) (put_all put xs)"

definition put_compact_pointer :: "int \<times> InternalKey \<Rightarrow> bytes \<Rightarrow> bytes option" where
  "put_compact_pointer p dst =
     (let dst = PutVarint32 dst kCompactPointer;
          dst = PutVarint32 dst (word_of_int (fst p))
      in Option.bind (InternalKey_Encode (snd p)) (\<lambda>k. Some (PutLengthPrefixedSlice dst k)))"

definition put_deleted_file :: "int \<times> u64 \<Rightarrow> bytes \<Rightarrow> bytes option" where
  "put_deleted_file p dst =
     Some (PutVarint64 (PutVarint32 (PutVarint32 dst kDeletedFile) (word_of_int (fst p))) (snd p))"

definition put_new_file :: "int \<times> FileMetaData \<Rightarrow> bytes \<Rightarrow> bytes option" where
  "put_new_file p dst =
     (let f = snd p;
          dst = PutVarint32 dst kNewFile;
          dst = PutVarint32 dst (word_of_int (fst p));
          dst = PutVarint64 dst (fm_number f);
          dst = PutVarint64 dst (fm_file_size f)
      in Option.bind (InternalKey_Encode (fm_smallest f)) (\<lambda>k.
           let dst = PutLengthPrefixedSlice dst k
           in Option.bind (InternalKey_Encode (fm_largest f)) (\<lambda>k. Some (PutLengthPrefixedSlice dst k))))"

definition VersionEdit_EncodeTo :: "VersionEdit \<Rightarrow> bytes \<Rightarrow> bytes option" where
  "VersionEdit_EncodeTo e dst =
     (let dst = (if ve_has_comparator e
                 then PutLengthPrefixedSlice (PutVarint32 dst kComparator) (ve_comparator e) else dst);
          dst = (if ve_has_log_number e then PutVarint64 (PutVarint32 dst kLogNumber) (ve_log_number e) else dst);
          dst = (if ve_has_prev_log_number e
                 then PutVarint64 (PutVarint32 dst kPrevLogNumber) (ve_prev_log_number e) else dst);
          dst = (if ve_has_next_file_number e
                 then PutVarint64 (PutVarint32 dst kNextFileNumber) (ve_next_file_number e) else dst);
          dst = (if ve_has_last_sequence e
                 then PutVarint64 (PutVarint32 dst kLastSequence) (ve_last_sequence e) else dst)
      in Option.bind (put_all put_compact_pointer (ve_compact_pointers e) dst) (\<lambda>dst.
         Option.bind (put_all put_deleted_file (sorted_list_of_set (ve_deleted_files e)) dst) (\<lambda>dst.
         put_all put_new_file (ve_new_files e) dst)))"

subsection \<open>Decoding\<close>

definition GetInternalKey :: "Slice \<Rightarrow> Slice \<times> InternalKey option" where
  "GetInternalKey input =
     (case GetLengthPrefixedSlice input of
        (input, Some str) \<Rightarrow> (input, Some (InternalKey_DecodeFrom str))
      | (input, None) \<Rightarrow> (input, None))"

definition GetLevel :: "Slice \<Rightarrow> Slice \<times> int option" where
  "GetLevel input =
     (case GetVarint32 input of
        (input, Some v) \<Rightarrow> (input, if v < word_of_nat kNumLevels then Some (uint v) else None)
      | (input, None) \<Rightarrow> (input, None))"

text \<open>\<open>read g input f msg\<close>: read an item with \<open>g\<close> and go on with \<open>f\<close>, or leave the edit as it is and
  give the message.\<close>

definition read :: "(Slice \<Rightarrow> Slice \<times> 'a option) \<Rightarrow> string \<Rightarrow> VersionEdit \<Rightarrow> Slice
    \<Rightarrow> ('a \<Rightarrow> Slice \<Rightarrow> VersionEdit \<times> Slice \<times> string option) \<Rightarrow> VersionEdit \<times> Slice \<times> string option" where
  "read g msg e input f =
     (case g input of (input, Some x) \<Rightarrow> f x input | (input, None) \<Rightarrow> (e, input, Some msg))"

text \<open>The \<open>switch\<close> on the tag: the edit, the rest of the input and the error message, if any.\<close>

definition decode_field :: "u32 \<Rightarrow> VersionEdit \<Rightarrow> Slice \<Rightarrow> VersionEdit \<times> Slice \<times> string option" where
  "decode_field tag e input =
     (if tag = kComparator then
        read GetLengthPrefixedSlice ''comparator name'' e input
          (\<lambda>str input. (e\<lparr>ve_comparator := str, ve_has_comparator := True\<rparr>, input, None))
      else if tag = kLogNumber then
        read GetVarint64 ''log number'' e input
          (\<lambda>v input. (e\<lparr>ve_log_number := v, ve_has_log_number := True\<rparr>, input, None))
      else if tag = kPrevLogNumber then
        read GetVarint64 ''previous log number'' e input
          (\<lambda>v input. (e\<lparr>ve_prev_log_number := v, ve_has_prev_log_number := True\<rparr>, input, None))
      else if tag = kNextFileNumber then
        read GetVarint64 ''next file number'' e input
          (\<lambda>v input. (e\<lparr>ve_next_file_number := v, ve_has_next_file_number := True\<rparr>, input, None))
      else if tag = kLastSequence then
        read GetVarint64 ''last sequence number'' e input
          (\<lambda>v input. (e\<lparr>ve_last_sequence := v, ve_has_last_sequence := True\<rparr>, input, None))
      else if tag = kCompactPointer then
        read GetLevel ''compaction pointer'' e input (\<lambda>level input.
        read GetInternalKey ''compaction pointer'' e input (\<lambda>k input.
          (e\<lparr>ve_compact_pointers := ve_compact_pointers e @ [(level, k)]\<rparr>, input, None)))
      else if tag = kDeletedFile then
        read GetLevel ''deleted file'' e input (\<lambda>level input.
        read GetVarint64 ''deleted file'' e input (\<lambda>number input.
          (e\<lparr>ve_deleted_files := insert (level, number) (ve_deleted_files e)\<rparr>, input, None)))
      else if tag = kNewFile then
        read GetLevel ''new-file entry'' e input (\<lambda>level input.
        read GetVarint64 ''new-file entry'' e input (\<lambda>number input.
        read GetVarint64 ''new-file entry'' e input (\<lambda>file_size input.
        read GetInternalKey ''new-file entry'' e input (\<lambda>smallest input.
        read GetInternalKey ''new-file entry'' e input (\<lambda>largest input.
          (e\<lparr>ve_new_files := ve_new_files e
               @ [(level, (new_FileMetaData number)\<lparr>fm_file_size := file_size,
                     fm_smallest := smallest, fm_largest := largest\<rparr>)]\<rparr>, input, None))))))
      else (e, input, Some ''unknown tag''))"

text \<open>No reader gives back more input than it was given.\<close>

lemma readers_shrink:
  "length (fst (GetVarint32 p)) \<le> length p" "length (fst (GetVarint64 p)) \<le> length p"
  "length (fst (GetLengthPrefixedSlice p)) \<le> length p"
  "length (fst (GetLevel p)) \<le> length p" "length (fst (GetInternalKey p)) \<le> length p"
proof -
  show v32: "length (fst (GetVarint32 p)) \<le> length p" for p
    by (auto simp: GetVarint32_def split: option.splits dest: GetVarint32Ptr_shorter)
  show "length (fst (GetVarint64 p)) \<le> length p"
    by (auto simp: GetVarint64_def split: option.splits dest: GetVarint64Ptr_shorter)
  show lp: "length (fst (GetLengthPrefixedSlice p)) \<le> length p" for p
    using v32 [of p] by (auto simp: GetLengthPrefixedSlice_def split: prod.splits option.splits)
  show "length (fst (GetLevel p)) \<le> length p"
    using v32 [of p] by (auto simp: GetLevel_def split: prod.splits option.splits)
  show "length (fst (GetInternalKey p)) \<le> length p"
    using lp [of p] by (auto simp: GetInternalKey_def split: prod.splits option.splits)
qed

lemma read_shrinks:
  assumes "\<And>p. length (fst (g p)) \<le> length p" "\<And>x p. length (fst (snd (f x p))) \<le> length p"
  shows "length (fst (snd (read g msg e p f))) \<le> length p"
proof (cases "g p")
  case (Pair q y)
  then show ?thesis
    using assms(1) [of p] assms(2) [of _ q] by (auto simp: read_def split: option.splits intro: order_trans)
qed

lemma decode_field_shrinks: "length (fst (snd (decode_field tag e p))) \<le> length p"
  unfolding decode_field_def by (simp, intro conjI impI read_shrinks readers_shrink) simp_all

function VersionEdit_DecodeFrom_loop :: "VersionEdit \<Rightarrow> Slice \<Rightarrow> VersionEdit \<times> Slice \<times> string option" where
  "VersionEdit_DecodeFrom_loop e input =
     (case GetVarint32 input of
        (input, None) \<Rightarrow> (e, input, None)
      | (input, Some tag) \<Rightarrow>
          (case decode_field tag e input of
             (e, input, Some msg) \<Rightarrow> (e, input, Some msg)
           | (e, input, None) \<Rightarrow> VersionEdit_DecodeFrom_loop e input))"
  by auto
termination
proof (relation "measure (length o snd)", simp, goal_cases)
  case (1 e input input1 t tag e' t' input2 m)
  then have "length input1 < length input" by (metis GetVarint32_shorter)
  moreover have "length input2 \<le> length input1"
    using decode_field_shrinks [of tag e input1] 1 by (metis fst_conv snd_conv)
  ultimately show ?case by simp
qed

declare VersionEdit_DecodeFrom_loop.simps [simp del]

definition VersionEdit_DecodeFrom :: "Slice \<Rightarrow> VersionEdit \<Rightarrow> Status \<times> VersionEdit" where
  "VersionEdit_DecodeFrom src e =
     (case VersionEdit_DecodeFrom_loop (VersionEdit_Clear e) src of
        (e, input, msg) \<Rightarrow>
          let msg = (if msg = None \<and> input \<noteq> [] then Some ''invalid tag'' else msg)
          in (case msg of
                None \<Rightarrow> Status_OK
              | Some msg \<Rightarrow> Status_Corruption (lit ''VersionEdit'') (lit msg), e))"

subsection \<open>Printing\<close>

definition VersionEdit_DebugString :: "VersionEdit \<Rightarrow> bytes" where
  "VersionEdit_DebugString e =
     (let r = lit ''VersionEdit {'';
          r = (if ve_has_comparator e then r @ [10] @ lit ''  Comparator: '' @ ve_comparator e else r);
          r = (if ve_has_log_number e then AppendNumberTo (r @ [10] @ lit ''  LogNumber: '') (ve_log_number e) else r);
          r = (if ve_has_prev_log_number e
               then AppendNumberTo (r @ [10] @ lit ''  PrevLogNumber: '') (ve_prev_log_number e) else r);
          r = (if ve_has_next_file_number e
               then AppendNumberTo (r @ [10] @ lit ''  NextFile: '') (ve_next_file_number e) else r);
          r = (if ve_has_last_sequence e
               then AppendNumberTo (r @ [10] @ lit ''  LastSeq: '') (ve_last_sequence e) else r);
          r = fold (\<lambda>p r. AppendNumberTo (r @ [10] @ lit ''  CompactPointer: '') (word_of_int (fst p))
                 @ lit '' '' @ InternalKey_DebugString (snd p)) (ve_compact_pointers e) r;
          r = fold (\<lambda>p r. AppendNumberTo (AppendNumberTo (r @ [10] @ lit ''  DeleteFile: '') (word_of_int (fst p))
                 @ lit '' '') (snd p)) (sorted_list_of_set (ve_deleted_files e)) r;
          r = fold (\<lambda>p r. AppendNumberTo (AppendNumberTo (AppendNumberTo (r @ [10] @ lit ''  AddFile: '')
                   (word_of_int (fst p)) @ lit '' '') (fm_number (snd p)) @ lit '' '') (fm_file_size (snd p))
                 @ lit '' '' @ InternalKey_DebugString (fm_smallest (snd p)) @ lit '' .. ''
                 @ InternalKey_DebugString (fm_largest (snd p))) (ve_new_files e) r
      in r @ [10] @ lit ''}'' @ [10])"

subsection \<open>Decoding what was encoded\<close>

definition level_ok :: "int \<Rightarrow> bool" where
  "level_ok level \<longleftrightarrow> 0 \<le> level \<and> level < int kNumLevels"

definition ikey_ok :: "InternalKey \<Rightarrow> bool" where
  "ikey_ok k \<longleftrightarrow> k \<noteq> [] \<and> length k < 2 ^ 32"

definition file_ok :: "FileMetaData \<Rightarrow> bool" where
  "file_ok f \<longleftrightarrow> fm_refs f = 0 \<and> fm_allowed_seeks f = 2 ^ 30 \<and> ikey_ok (fm_smallest f) \<and> ikey_ok (fm_largest f)"

text \<open>What the setters keep: fields that are not set are empty, levels are in range, keys are not
  empty, and every string has a length that fits in its prefix.\<close>

definition edit_wf :: "VersionEdit \<Rightarrow> bool" where
  "edit_wf e \<longleftrightarrow>
     length (ve_comparator e) < 2 ^ 32
     \<and> (\<not> ve_has_comparator e \<longrightarrow> ve_comparator e = [])
     \<and> (\<not> ve_has_log_number e \<longrightarrow> ve_log_number e = 0)
     \<and> (\<not> ve_has_prev_log_number e \<longrightarrow> ve_prev_log_number e = 0)
     \<and> (\<not> ve_has_next_file_number e \<longrightarrow> ve_next_file_number e = 0)
     \<and> (\<not> ve_has_last_sequence e \<longrightarrow> ve_last_sequence e = 0)
     \<and> list_all (\<lambda>p. level_ok (fst p) \<and> ikey_ok (snd p)) (ve_compact_pointers e)
     \<and> finite (ve_deleted_files e) \<and> (\<forall>p \<in> ve_deleted_files e. level_ok (fst p))
     \<and> list_all (\<lambda>p. level_ok (fst p) \<and> file_ok (snd p)) (ve_new_files e)"

lemma edit_wf_new: "edit_wf new_VersionEdit"
  by (simp add: edit_wf_def new_VersionEdit_def VersionEdit_Clear_def)

lemma edit_wf_set:
  assumes "edit_wf e"
  shows "length name < 2 ^ 32 \<Longrightarrow> edit_wf (SetComparatorName name e)"
    "edit_wf (SetLogNumber n e)" "edit_wf (SetPrevLogNumber n e)" "edit_wf (SetNextFile n e)"
    "edit_wf (SetLastSequence n e)"
    "level_ok level \<Longrightarrow> ikey_ok k \<Longrightarrow> edit_wf (SetCompactPointer level k e)"
    "level_ok level \<Longrightarrow> ikey_ok k \<Longrightarrow> ikey_ok k' \<Longrightarrow> edit_wf (VersionEdit_AddFile level n sz k k' e)"
    "level_ok level \<Longrightarrow> edit_wf (VersionEdit_DeleteFile level n e)"
  using assms
  by (simp_all add: edit_wf_def SetComparatorName_def SetLogNumber_def SetPrevLogNumber_def SetNextFile_def
      SetLastSequence_def SetCompactPointer_def VersionEdit_AddFile_def VersionEdit_DeleteFile_def
      new_FileMetaData_def file_ok_def)

definition prefixed :: "bytes \<Rightarrow> bytes" where
  "prefixed v = EncodeVarint32 (word_of_nat (length v)) @ v"

definition level_bytes :: "int \<Rightarrow> bytes" where
  "level_bytes level = EncodeVarint32 (word_of_int level)"

lemma read_prefixed:
  "length v < 2 ^ 32 \<Longrightarrow> read GetLengthPrefixedSlice msg e (prefixed v @ rest) f = f v rest"
  "length v < 2 ^ 32 \<Longrightarrow> read GetInternalKey msg e (prefixed v @ rest) f = f v rest"
  by (simp_all add: read_def prefixed_def GetInternalKey_def InternalKey_DecodeFrom_def)

lemma read_varint: "read GetVarint64 msg e (EncodeVarint64 v @ rest) f = f v rest"
  by (simp add: read_def)

lemma read_level:
  assumes "level_ok level"
  shows "read GetLevel msg e (level_bytes level @ rest) f = f level rest"
proof -
  have "uint (word_of_int level :: u32) = level"
    using assms by (simp add: uint_word_of_int level_ok_def kNumLevels_def)
  then show ?thesis
    using assms by (simp add: read_def GetLevel_def level_bytes_def word_less_def level_ok_def kNumLevels_def)
qed

lemmas read_items = read_prefixed read_varint read_level

lemma decode_loop_step:
  "decode_field tag e (p @ rest) = (e', rest, None) \<Longrightarrow>
   VersionEdit_DecodeFrom_loop e (EncodeVarint32 tag @ p @ rest) = VersionEdit_DecodeFrom_loop e' rest"
  by (subst VersionEdit_DecodeFrom_loop.simps) simp

definition compact_bytes :: "int \<times> InternalKey \<Rightarrow> bytes" where
  "compact_bytes p = EncodeVarint32 kCompactPointer @ level_bytes (fst p) @ prefixed (snd p)"

definition deleted_bytes :: "int \<times> u64 \<Rightarrow> bytes" where
  "deleted_bytes p = EncodeVarint32 kDeletedFile @ level_bytes (fst p) @ EncodeVarint64 (snd p)"

definition new_file_bytes :: "int \<times> FileMetaData \<Rightarrow> bytes" where
  "new_file_bytes p = EncodeVarint32 kNewFile @ level_bytes (fst p) @ EncodeVarint64 (fm_number (snd p))
     @ EncodeVarint64 (fm_file_size (snd p)) @ prefixed (fm_smallest (snd p)) @ prefixed (fm_largest (snd p))"

lemma decode_compact:
  assumes "level_ok (fst p) \<and> ikey_ok (snd p)"
  shows "VersionEdit_DecodeFrom_loop e (compact_bytes p @ rest)
    = VersionEdit_DecodeFrom_loop (e\<lparr>ve_compact_pointers := ve_compact_pointers e @ [p]\<rparr>) rest"
  using assms decode_loop_step [of kCompactPointer e "level_bytes (fst p) @ prefixed (snd p)"]
  by (simp add: compact_bytes_def decode_field_def tag_defs read_items ikey_ok_def)

lemma decode_deleted:
  assumes "level_ok (fst p)"
  shows "VersionEdit_DecodeFrom_loop e (deleted_bytes p @ rest)
    = VersionEdit_DecodeFrom_loop (e\<lparr>ve_deleted_files := insert p (ve_deleted_files e)\<rparr>) rest"
  using assms decode_loop_step [of kDeletedFile e "level_bytes (fst p) @ EncodeVarint64 (snd p)"]
  by (simp add: deleted_bytes_def decode_field_def tag_defs read_items)

lemma decode_new_file:
  assumes "level_ok (fst p) \<and> file_ok (snd p)"
  shows "VersionEdit_DecodeFrom_loop e (new_file_bytes p @ rest)
    = VersionEdit_DecodeFrom_loop (e\<lparr>ve_new_files := ve_new_files e @ [p]\<rparr>) rest"
proof -
  have p: "(fst p, (new_FileMetaData (fm_number (snd p)))\<lparr>fm_file_size := fm_file_size (snd p),
      fm_smallest := fm_smallest (snd p), fm_largest := fm_largest (snd p)\<rparr>) = p"
    using assms by (cases p) (simp add: new_FileMetaData_def file_ok_def)
  show ?thesis
    using assms decode_loop_step [of kNewFile e "level_bytes (fst p) @ EncodeVarint64 (fm_number (snd p))
     @ EncodeVarint64 (fm_file_size (snd p)) @ prefixed (fm_smallest (snd p)) @ prefixed (fm_largest (snd p))"]
    by (simp add: new_file_bytes_def decode_field_def tag_defs read_items ikey_ok_def file_ok_def p)
qed

lemma put_all_concat:
  "(\<And>x dst. x \<in> set xs \<Longrightarrow> put x dst = Some (dst @ c x)) \<Longrightarrow>
   put_all put xs dst = Some (dst @ concat (map c xs))"
  by (induction xs arbitrary: dst) simp_all

lemma decode_all:
  "(\<And>x e rest. x \<in> set xs \<Longrightarrow> VersionEdit_DecodeFrom_loop e (c x @ rest)
      = VersionEdit_DecodeFrom_loop (upd x e) rest) \<Longrightarrow>
   VersionEdit_DecodeFrom_loop e (concat (map c xs) @ rest) = VersionEdit_DecodeFrom_loop (fold upd xs e) rest"
  by (induction xs arbitrary: e) simp_all

lemma fold_updates:
  "fold (\<lambda>p e. e\<lparr>ve_compact_pointers := ve_compact_pointers e @ [p]\<rparr>) cs e
    = e\<lparr>ve_compact_pointers := ve_compact_pointers e @ cs\<rparr>"
  "fold (\<lambda>p e. e\<lparr>ve_deleted_files := insert p (ve_deleted_files e)\<rparr>) ds e
    = e\<lparr>ve_deleted_files := ve_deleted_files e \<union> set ds\<rparr>"
  "fold (\<lambda>p e. e\<lparr>ve_new_files := ve_new_files e @ [p]\<rparr>) fs e = e\<lparr>ve_new_files := ve_new_files e @ fs\<rparr>"
proof -
  show "fold (\<lambda>p e. e\<lparr>ve_compact_pointers := ve_compact_pointers e @ [p]\<rparr>) cs e
    = e\<lparr>ve_compact_pointers := ve_compact_pointers e @ cs\<rparr>" by (induction cs arbitrary: e) simp_all
  show "fold (\<lambda>p e. e\<lparr>ve_deleted_files := insert p (ve_deleted_files e)\<rparr>) ds e
    = e\<lparr>ve_deleted_files := ve_deleted_files e \<union> set ds\<rparr>" by (induction ds arbitrary: e) simp_all
  show "fold (\<lambda>p e. e\<lparr>ve_new_files := ve_new_files e @ [p]\<rparr>) fs e = e\<lparr>ve_new_files := ve_new_files e @ fs\<rparr>"
    by (induction fs arbitrary: e) simp_all
qed

text \<open>The bytes of an edit.\<close>

definition scalar_bytes :: "VersionEdit \<Rightarrow> bytes" where
  "scalar_bytes e =
     (if ve_has_comparator e then EncodeVarint32 kComparator @ prefixed (ve_comparator e) else [])
     @ (if ve_has_log_number e then EncodeVarint32 kLogNumber @ EncodeVarint64 (ve_log_number e) else [])
     @ (if ve_has_prev_log_number e then EncodeVarint32 kPrevLogNumber @ EncodeVarint64 (ve_prev_log_number e) else [])
     @ (if ve_has_next_file_number e then EncodeVarint32 kNextFileNumber @ EncodeVarint64 (ve_next_file_number e) else [])
     @ (if ve_has_last_sequence e then EncodeVarint32 kLastSequence @ EncodeVarint64 (ve_last_sequence e) else [])"

definition edit_bytes :: "VersionEdit \<Rightarrow> bytes" where
  "edit_bytes e = scalar_bytes e @ concat (map compact_bytes (ve_compact_pointers e))
     @ concat (map deleted_bytes (sorted_list_of_set (ve_deleted_files e)))
     @ concat (map new_file_bytes (ve_new_files e))"

lemma EncodeTo_bytes:
  assumes "edit_wf e"
  shows "VersionEdit_EncodeTo e dst = Some (dst @ edit_bytes e)"
proof -
  have c: "put_all put_compact_pointer (ve_compact_pointers e) dst
      = Some (dst @ concat (map compact_bytes (ve_compact_pointers e)))" for dst
    using assms
    by (intro put_all_concat) (auto simp: put_compact_pointer_def PutLengthPrefixedSlice_app PutVarint32_def
        compact_bytes_def level_bytes_def prefixed_def InternalKey_Encode_def edit_wf_def list_all_iff ikey_ok_def)
  have d: "put_all put_deleted_file ds dst = Some (dst @ concat (map deleted_bytes ds))" for ds dst
    by (intro put_all_concat) (simp add: put_deleted_file_def PutVarint32_def PutVarint64_def
        deleted_bytes_def level_bytes_def)
  have f: "put_all put_new_file (ve_new_files e) dst
      = Some (dst @ concat (map new_file_bytes (ve_new_files e)))" for dst
    using assms
    by (intro put_all_concat) (auto simp: put_new_file_def PutLengthPrefixedSlice_app PutVarint32_def PutVarint64_def
        new_file_bytes_def level_bytes_def prefixed_def InternalKey_Encode_def edit_wf_def list_all_iff
        ikey_ok_def file_ok_def)
  show ?thesis
    by (simp add: VersionEdit_EncodeTo_def c d f edit_bytes_def scalar_bytes_def PutLengthPrefixedSlice_app
        PutVarint32_def PutVarint64_def prefixed_def)
qed

lemma decode_scalars:
  assumes "length (ve_comparator e) < 2 ^ 32"
  shows "VersionEdit_DecodeFrom_loop e0 (scalar_bytes e @ rest) = VersionEdit_DecodeFrom_loop (e0
     \<lparr>ve_comparator := if ve_has_comparator e then ve_comparator e else ve_comparator e0,
      ve_has_comparator := ve_has_comparator e \<or> ve_has_comparator e0,
      ve_log_number := if ve_has_log_number e then ve_log_number e else ve_log_number e0,
      ve_has_log_number := ve_has_log_number e \<or> ve_has_log_number e0,
      ve_prev_log_number := if ve_has_prev_log_number e then ve_prev_log_number e else ve_prev_log_number e0,
      ve_has_prev_log_number := ve_has_prev_log_number e \<or> ve_has_prev_log_number e0,
      ve_next_file_number := if ve_has_next_file_number e then ve_next_file_number e else ve_next_file_number e0,
      ve_has_next_file_number := ve_has_next_file_number e \<or> ve_has_next_file_number e0,
      ve_last_sequence := if ve_has_last_sequence e then ve_last_sequence e else ve_last_sequence e0,
      ve_has_last_sequence := ve_has_last_sequence e \<or> ve_has_last_sequence e0\<rparr>) rest"
proof -
  have n: "decode_field kLogNumber e0 (EncodeVarint64 v @ rest) = (e0\<lparr>ve_log_number := v, ve_has_log_number := True\<rparr>, rest, None)"
    "decode_field kPrevLogNumber e0 (EncodeVarint64 v @ rest) = (e0\<lparr>ve_prev_log_number := v, ve_has_prev_log_number := True\<rparr>, rest, None)"
    "decode_field kNextFileNumber e0 (EncodeVarint64 v @ rest) = (e0\<lparr>ve_next_file_number := v, ve_has_next_file_number := True\<rparr>, rest, None)"
    "decode_field kLastSequence e0 (EncodeVarint64 v @ rest) = (e0\<lparr>ve_last_sequence := v, ve_has_last_sequence := True\<rparr>, rest, None)"
    for e0 v rest
    by (simp_all add: decode_field_def tag_defs read_items)
  have c: "decode_field kComparator e0 (prefixed (ve_comparator e) @ rest)
      = (e0\<lparr>ve_comparator := ve_comparator e, ve_has_comparator := True\<rparr>, rest, None)" for e0 rest
    using assms by (simp add: decode_field_def tag_defs read_items)
  show ?thesis
    by (simp add: scalar_bytes_def n [THEN decode_loop_step] c [THEN decode_loop_step])
qed

lemma decode_edit_bytes:
  assumes "edit_wf e"
  shows "VersionEdit_DecodeFrom_loop (VersionEdit_Clear e0) (edit_bytes e)
    = (e\<lparr>ve_compact_pointers := ve_compact_pointers e0 @ ve_compact_pointers e\<rparr>, [], None)"
proof -
  have nil: "VersionEdit_DecodeFrom_loop e [] = (e, [], None)" for e
    by (subst VersionEdit_DecodeFrom_loop.simps) (simp add: GetVarint32_def GetVarint32PtrFallback_def)
  have c: "VersionEdit_DecodeFrom_loop e0 (concat (map compact_bytes (ve_compact_pointers e)) @ rest)
      = VersionEdit_DecodeFrom_loop (e0\<lparr>ve_compact_pointers := ve_compact_pointers e0 @ ve_compact_pointers e\<rparr>) rest"
    for e0 rest
    using decode_all [of "ve_compact_pointers e" compact_bytes
        "\<lambda>p e. e\<lparr>ve_compact_pointers := ve_compact_pointers e @ [p]\<rparr>" e0 rest] assms
    by (simp add: fold_updates(1) edit_wf_def list_all_iff decode_compact)
  have d: "VersionEdit_DecodeFrom_loop e0 (concat (map deleted_bytes (sorted_list_of_set (ve_deleted_files e))) @ rest)
      = VersionEdit_DecodeFrom_loop (e0\<lparr>ve_deleted_files := ve_deleted_files e0 \<union> ve_deleted_files e\<rparr>) rest"
    for e0 rest
  proof -
    have "set (sorted_list_of_set (ve_deleted_files e)) = ve_deleted_files e"
      using assms by (simp add: edit_wf_def)
    then show ?thesis
      using decode_all [of "sorted_list_of_set (ve_deleted_files e)" deleted_bytes
          "\<lambda>p e. e\<lparr>ve_deleted_files := insert p (ve_deleted_files e)\<rparr>" e0 rest] assms
      by (simp add: fold_updates(2) edit_wf_def decode_deleted)
  qed
  have f: "VersionEdit_DecodeFrom_loop e0 (concat (map new_file_bytes (ve_new_files e)))
      = VersionEdit_DecodeFrom_loop (e0\<lparr>ve_new_files := ve_new_files e0 @ ve_new_files e\<rparr>) []"
    for e0
    using decode_all [of "ve_new_files e" new_file_bytes
        "\<lambda>p e. e\<lparr>ve_new_files := ve_new_files e @ [p]\<rparr>" e0 "[]"] assms
    by (simp add: fold_updates(3) edit_wf_def list_all_iff decode_new_file)
  have l: "length (ve_comparator e) < 2 ^ 32" using assms by (simp add: edit_wf_def)
  show ?thesis
    unfolding edit_bytes_def decode_scalars [OF l] c d f nil prod.inject
    using assms by (intro conjI VersionEdit.equality) (simp_all add: VersionEdit_Clear_def edit_wf_def del: if_split)
qed

text \<open>The edits that the setters make from a new object, with levels in range, non-empty keys and
  strings whose lengths fit in 32 bits.\<close>

inductive edit_made :: "VersionEdit \<Rightarrow> bool" where
  made_new: "edit_made new_VersionEdit"
| made_comparator: "edit_made e \<Longrightarrow> length name < 2 ^ 32 \<Longrightarrow> edit_made (SetComparatorName name e)"
| made_log: "edit_made e \<Longrightarrow> edit_made (SetLogNumber n e)"
| made_prev_log: "edit_made e \<Longrightarrow> edit_made (SetPrevLogNumber n e)"
| made_next: "edit_made e \<Longrightarrow> edit_made (SetNextFile n e)"
| made_last: "edit_made e \<Longrightarrow> edit_made (SetLastSequence n e)"
| made_compact: "edit_made e \<Longrightarrow> level_ok level \<Longrightarrow> ikey_ok k \<Longrightarrow> edit_made (SetCompactPointer level k e)"
| made_file: "edit_made e \<Longrightarrow> level_ok level \<Longrightarrow> ikey_ok k \<Longrightarrow> ikey_ok k'
    \<Longrightarrow> edit_made (VersionEdit_AddFile level n sz k k' e)"
| made_delete: "edit_made e \<Longrightarrow> level_ok level \<Longrightarrow> edit_made (VersionEdit_DeleteFile level n e)"

lemma edit_made_wf: "edit_made e \<Longrightarrow> edit_wf e"
  by (induction rule: edit_made.induct) (simp_all add: edit_wf_new edit_wf_set)

subsection \<open>Properties\<close>

text \<open>C8. Decoding an encoded edit, made by any sequence of setters, into an object gives the edit back, with status OK, except that
  the compaction pointers of the object are kept in front of the decoded ones: into a new object it
  is the edit itself.\<close>

theorem version_edit_roundtrip:
  assumes "edit_made e"
  shows "\<exists>bytes. VersionEdit_EncodeTo e [] = Some bytes
    \<and> VersionEdit_DecodeFrom bytes new_VersionEdit = (Status_OK, e)
    \<and> VersionEdit_DecodeFrom bytes e0
      = (Status_OK, e\<lparr>ve_compact_pointers := ve_compact_pointers e0 @ ve_compact_pointers e\<rparr>)"
proof -
  have "ve_compact_pointers new_VersionEdit = []" by (simp add: new_VersionEdit_def VersionEdit_Clear_def)
  then show ?thesis
    using edit_made_wf [OF assms] by (simp add: EncodeTo_bytes VersionEdit_DecodeFrom_def decode_edit_bytes)
qed

theorem version_edit_roundtrip_witness:
  "\<exists>bytes. VersionEdit_EncodeTo (VersionEdit_DeleteFile 2 7 new_VersionEdit) [] = Some bytes
     \<and> VersionEdit_DecodeFrom bytes new_VersionEdit
       = (Status_OK, VersionEdit_DeleteFile 2 7 new_VersionEdit)"
proof -
  have "edit_made (VersionEdit_DeleteFile 2 7 new_VersionEdit)"
    by (intro made_delete made_new) (simp add: level_ok_def kNumLevels_def)
  from version_edit_roundtrip [OF this] show ?thesis by blast
qed

end
