(* ===== verification/Options.thy ===== *)
theory Options
  imports Comparators Bloom
begin

text \<open>
  \<open>include/leveldb/options.h\<close> and \<open>util/options.cc\<close>. The environment, logger, block cache and
  snapshot that an option points to are given by a number; a null pointer is \<open>None\<close>.
\<close>

datatype CompressionType = kNoCompression | kSnappyCompression

definition CompressionType_value :: "CompressionType \<Rightarrow> byte" where
  "CompressionType_value t = (case t of kNoCompression \<Rightarrow> 0 | kSnappyCompression \<Rightarrow> 1)"

record Options =
  opt_comparator :: Comparator
  opt_create_if_missing :: bool
  opt_error_if_exists :: bool
  opt_paranoid_checks :: bool
  opt_env :: nat
  opt_info_log :: "nat option"
  opt_write_buffer_size :: nat
  opt_max_open_files :: int
  opt_block_cache :: "nat option"
  opt_block_size :: nat
  opt_block_restart_interval :: int
  opt_max_file_size :: nat
  opt_compression :: CompressionType
  opt_reuse_logs :: bool
  opt_filter_policy :: "FilterPolicy option"

definition new_Options :: "nat \<Rightarrow> Options" where
  "new_Options env_Default =
     \<lparr>opt_comparator = BytewiseComparator, opt_create_if_missing = False, opt_error_if_exists = False,
      opt_paranoid_checks = False, opt_env = env_Default, opt_info_log = None,
      opt_write_buffer_size = 4 * 1024 * 1024, opt_max_open_files = 1000, opt_block_cache = None,
      opt_block_size = 4 * 1024, opt_block_restart_interval = 16, opt_max_file_size = 2 * 1024 * 1024,
      opt_compression = kSnappyCompression, opt_reuse_logs = False, opt_filter_policy = None\<rparr>"

record ReadOptions =
  ro_verify_checksums :: bool
  ro_fill_cache :: bool
  ro_snapshot :: "nat option"

definition new_ReadOptions :: ReadOptions where
  "new_ReadOptions = \<lparr>ro_verify_checksums = False, ro_fill_cache = True, ro_snapshot = None\<rparr>"

record WriteOptions =
  wo_sync :: bool

definition new_WriteOptions :: WriteOptions where
  "new_WriteOptions = \<lparr>wo_sync = False\<rparr>"

end
