(* ===== verification/Version_Files.thy ===== *)
theory Version_Files
  imports Version_Edit Options
begin

text \<open>
  The functions of \<open>db/version_set.cc\<close> on the lists of files of a level: the binary search, the overlap
  queries, the ranges and the boundary files of a compaction. A \<open>FileMetaData*\<close> is a number and the
  objects are in a store, because versions share them and their counters change. An internal key
  comparator is given by its user comparator. The assertions of \<open>InternalKey::Encode\<close> and
  \<open>ExtractUserKey\<close>, that the keys of a file have at least eight bytes, are part of \<open>meta_ok\<close>.
\<close>

type_synonym FilePtr = nat

type_synonym FileStore = "FilePtr \<Rightarrow> FileMetaData"

abbreviation file_start :: "FileStore \<Rightarrow> FilePtr \<Rightarrow> Slice" where
  "file_start h f \<equiv> InternalKey_user_key (fm_smallest (h f))"

abbreviation file_limit :: "FileStore \<Rightarrow> FilePtr \<Rightarrow> Slice" where
  "file_limit h f \<equiv> InternalKey_user_key (fm_largest (h f))"

subsection \<open>Sizes\<close>

text \<open>\<open>int64_t\<close> and \<open>size_t\<close> values are words of 64 bits; \<open>sint\<close> reads the signed ones.\<close>

definition TargetFileSize :: "Options \<Rightarrow> u64" where
  "TargetFileSize options = word_of_nat (opt_max_file_size options)"

definition MaxGrandParentOverlapBytes :: "Options \<Rightarrow> u64" where
  "MaxGrandParentOverlapBytes options = 10 * TargetFileSize options"

definition ExpandedCompactionByteSizeLimit :: "Options \<Rightarrow> u64" where
  "ExpandedCompactionByteSizeLimit options = 25 * TargetFileSize options"

definition MaxFileSizeForLevel :: "Options \<Rightarrow> nat \<Rightarrow> u64" where
  "MaxFileSizeForLevel options level = TargetFileSize options"

definition TotalFileSize :: "FileStore \<Rightarrow> FilePtr list \<Rightarrow> u64" where
  "TotalFileSize h files = fold (\<lambda>f sum. sum + fm_file_size (h f)) files 0"

subsection \<open>Search in a sorted level\<close>

text \<open>The indices are \<open>uint32_t\<close>: with \<open>2\<^sup>3\<^sup>1\<close> files \<open>left + right\<close> wraps and the loop need not end. The
  result, an \<open>int\<close> that every caller converts back, is kept as the \<open>uint32_t\<close> \<open>right\<close>.\<close>

partial_function (option) FindFile_loop ::
    "Comparator \<Rightarrow> FileStore \<Rightarrow> FilePtr list \<Rightarrow> Slice \<Rightarrow> u32 \<Rightarrow> u32 \<Rightarrow> u32 option" where
  "FindFile_loop ucmp h files k left right =
     (if left < right then
        let mid = (left + right) div 2; f = files ! unat mid
        in if InternalKey_Compare ucmp (fm_largest (h f)) k < 0
           then FindFile_loop ucmp h files k (mid + 1) right
           else FindFile_loop ucmp h files k left mid
      else Some right)"

definition FindFile :: "Comparator \<Rightarrow> FileStore \<Rightarrow> FilePtr list \<Rightarrow> Slice \<Rightarrow> u32 option" where
  "FindFile ucmp h files k = FindFile_loop ucmp h files k 0 (word_of_nat (length files))"

text \<open>A null pointer to a user key is \<open>None\<close>.\<close>

definition AfterFile :: "Comparator \<Rightarrow> FileStore \<Rightarrow> Slice option \<Rightarrow> FilePtr \<Rightarrow> bool" where
  "AfterFile ucmp h ukey f =
     (case ukey of None \<Rightarrow> False | Some k \<Rightarrow> Compare ucmp k (file_limit h f) > 0)"

definition BeforeFile :: "Comparator \<Rightarrow> FileStore \<Rightarrow> Slice option \<Rightarrow> FilePtr \<Rightarrow> bool" where
  "BeforeFile ucmp h ukey f =
     (case ukey of None \<Rightarrow> False | Some k \<Rightarrow> Compare ucmp k (file_start h f) < 0)"

fun SomeFileOverlapsRange_loop ::
    "Comparator \<Rightarrow> FileStore \<Rightarrow> FilePtr list \<Rightarrow> Slice option \<Rightarrow> Slice option \<Rightarrow> bool" where
  "SomeFileOverlapsRange_loop ucmp h [] smallest_user_key largest_user_key = False"
| "SomeFileOverlapsRange_loop ucmp h (f # files) smallest_user_key largest_user_key =
     (if AfterFile ucmp h smallest_user_key f \<or> BeforeFile ucmp h largest_user_key f
      then SomeFileOverlapsRange_loop ucmp h files smallest_user_key largest_user_key
      else True)"

definition SomeFileOverlapsRange ::
    "Comparator \<Rightarrow> FileStore \<Rightarrow> bool \<Rightarrow> FilePtr list \<Rightarrow> Slice option \<Rightarrow> Slice option \<Rightarrow> bool option" where
  "SomeFileOverlapsRange ucmp h disjoint_sorted_files files smallest_user_key largest_user_key =
     (if \<not> disjoint_sorted_files
      then Some (SomeFileOverlapsRange_loop ucmp h files smallest_user_key largest_user_key)
      else Option.bind
        (case smallest_user_key of
           None \<Rightarrow> Some 0
         | Some k \<Rightarrow> FindFile ucmp h files (InternalKey_make k kMaxSequenceNumber kValueTypeForSeek))
        (\<lambda>index. if length files \<le> unat index then Some False
                 else Some (\<not> BeforeFile ucmp h largest_user_key (files ! unat index))))"

subsection \<open>The files of a level that overlap a range\<close>

text \<open>\<open>user_begin\<close> is \<open>None\<close> when \<open>begin\<close> is null, \<open>user_end\<close> when \<open>end\<close> is.\<close>

partial_function (option) GetOverlappingInputs_loop ::
    "Comparator \<Rightarrow> FileStore \<Rightarrow> nat \<Rightarrow> FilePtr list \<Rightarrow> nat \<Rightarrow> Slice option \<Rightarrow> Slice option \<Rightarrow>
     FilePtr list \<Rightarrow> FilePtr list option" where
  "GetOverlappingInputs_loop ucmp h level files i user_begin user_end inputs =
     (if i < length files then
        let f = files ! i;
            i = i + 1;
            start = file_start h f;
            limit = file_limit h f
        in if (case user_begin of None \<Rightarrow> False | Some b \<Rightarrow> Compare ucmp limit b < 0)
           then GetOverlappingInputs_loop ucmp h level files i user_begin user_end inputs
           else if (case user_end of None \<Rightarrow> False | Some e \<Rightarrow> Compare ucmp start e > 0)
           then GetOverlappingInputs_loop ucmp h level files i user_begin user_end inputs
           else if level = 0 \<and> (case user_begin of None \<Rightarrow> False | Some b \<Rightarrow> Compare ucmp start b < 0)
           then GetOverlappingInputs_loop ucmp h level files 0 (Some start) user_end []
           else if level = 0 \<and> (case user_end of None \<Rightarrow> False | Some e \<Rightarrow> Compare ucmp limit e > 0)
           then GetOverlappingInputs_loop ucmp h level files 0 user_begin (Some limit) []
           else GetOverlappingInputs_loop ucmp h level files i user_begin user_end (inputs @ [f])
      else Some inputs)"

definition GetOverlappingInputs ::
    "Comparator \<Rightarrow> FileStore \<Rightarrow> (nat \<Rightarrow> FilePtr list) \<Rightarrow> nat \<Rightarrow> InternalKey option \<Rightarrow> InternalKey option \<Rightarrow>
     FilePtr list option" where
  "GetOverlappingInputs ucmp h files level begin_key end_key =
     (if level < kNumLevels
      then GetOverlappingInputs_loop ucmp h level (files level) 0
             (map_option InternalKey_user_key begin_key) (map_option InternalKey_user_key end_key) []
      else None)"

subsection \<open>Ranges and boundary files of a compaction\<close>

fun GetRange_loop :: "Comparator \<Rightarrow> FileStore \<Rightarrow> FilePtr list \<Rightarrow> InternalKey \<Rightarrow> InternalKey \<Rightarrow>
    InternalKey \<times> InternalKey" where
  "GetRange_loop ucmp h [] smallest largest = (smallest, largest)"
| "GetRange_loop ucmp h (f # fs) smallest largest =
     GetRange_loop ucmp h fs
       (if InternalKey_Compare ucmp (fm_smallest (h f)) smallest < 0 then fm_smallest (h f) else smallest)
       (if InternalKey_Compare ucmp (fm_largest (h f)) largest > 0 then fm_largest (h f) else largest)"

definition GetRange :: "Comparator \<Rightarrow> FileStore \<Rightarrow> FilePtr list \<Rightarrow> (InternalKey \<times> InternalKey) option" where
  "GetRange ucmp h inputs =
     (case inputs of
        [] \<Rightarrow> None
      | f # fs \<Rightarrow> Some (GetRange_loop ucmp h fs (fm_smallest (h f)) (fm_largest (h f))))"

definition GetRange2 :: "Comparator \<Rightarrow> FileStore \<Rightarrow> FilePtr list \<Rightarrow> FilePtr list \<Rightarrow>
    (InternalKey \<times> InternalKey) option" where
  "GetRange2 ucmp h inputs1 inputs2 = GetRange ucmp h (inputs1 @ inputs2)"

fun FindLargestKey_loop :: "Comparator \<Rightarrow> FileStore \<Rightarrow> FilePtr list \<Rightarrow> InternalKey \<Rightarrow> InternalKey" where
  "FindLargestKey_loop ucmp h [] largest_key = largest_key"
| "FindLargestKey_loop ucmp h (f # fs) largest_key =
     FindLargestKey_loop ucmp h fs
       (if InternalKey_Compare ucmp (fm_largest (h f)) largest_key > 0 then fm_largest (h f) else largest_key)"

definition FindLargestKey :: "Comparator \<Rightarrow> FileStore \<Rightarrow> FilePtr list \<Rightarrow> InternalKey option" where
  "FindLargestKey ucmp h files =
     (case files of
        [] \<Rightarrow> None
      | f # fs \<Rightarrow> Some (FindLargestKey_loop ucmp h fs (fm_largest (h f))))"

fun FindSmallestBoundaryFile_loop ::
    "Comparator \<Rightarrow> FileStore \<Rightarrow> FilePtr list \<Rightarrow> InternalKey \<Rightarrow> FilePtr option \<Rightarrow> FilePtr option" where
  "FindSmallestBoundaryFile_loop ucmp h [] largest_key smallest_boundary_file = smallest_boundary_file"
| "FindSmallestBoundaryFile_loop ucmp h (f # fs) largest_key smallest_boundary_file =
     FindSmallestBoundaryFile_loop ucmp h fs largest_key
       (if InternalKey_Compare ucmp (fm_smallest (h f)) largest_key > 0
           \<and> Compare ucmp (file_start h f) (InternalKey_user_key largest_key) = 0
           \<and> (case smallest_boundary_file of
                None \<Rightarrow> True
              | Some g \<Rightarrow> InternalKey_Compare ucmp (fm_smallest (h f)) (fm_smallest (h g)) < 0)
        then Some f else smallest_boundary_file)"

definition FindSmallestBoundaryFile ::
    "Comparator \<Rightarrow> FileStore \<Rightarrow> FilePtr list \<Rightarrow> InternalKey \<Rightarrow> FilePtr option" where
  "FindSmallestBoundaryFile ucmp h level_files largest_key =
     FindSmallestBoundaryFile_loop ucmp h level_files largest_key None"

partial_function (option) AddBoundaryInputs_loop ::
    "Comparator \<Rightarrow> FileStore \<Rightarrow> FilePtr list \<Rightarrow> InternalKey \<Rightarrow> FilePtr list \<Rightarrow> FilePtr list option" where
  "AddBoundaryInputs_loop ucmp h level_files largest_key compaction_files =
     (case FindSmallestBoundaryFile ucmp h level_files largest_key of
        Some f \<Rightarrow> AddBoundaryInputs_loop ucmp h level_files (fm_largest (h f)) (compaction_files @ [f])
      | None \<Rightarrow> Some compaction_files)"

definition AddBoundaryInputs ::
    "Comparator \<Rightarrow> FileStore \<Rightarrow> FilePtr list \<Rightarrow> FilePtr list \<Rightarrow> FilePtr list option" where
  "AddBoundaryInputs ucmp h level_files compaction_files =
     (case FindLargestKey ucmp h compaction_files of
        None \<Rightarrow> Some compaction_files
      | Some largest_key \<Rightarrow> AddBoundaryInputs_loop ucmp h level_files largest_key compaction_files)"

subsection \<open>The specification\<close>

text \<open>What the keys of a file and the files of a level above 0 satisfy.\<close>

definition meta_ok :: "(Slice \<Rightarrow> bool) \<Rightarrow> Comparator \<Rightarrow> FileMetaData \<Rightarrow> bool" where
  "meta_ok key cmp f \<longleftrightarrow> ikey key (fm_smallest f) \<and> ikey key (fm_largest f)
     \<and> InternalKey_Compare cmp (fm_smallest f) (fm_largest f) \<le> 0"

text \<open>No key has a tag past the first one of a user key.\<close>

definition tag_ok :: "FileMetaData \<Rightarrow> bool" where
  "tag_ok f \<longleftrightarrow> tag_of (fm_largest f) \<le> PackSequenceAndType kMaxSequenceNumber kValueTypeForSeek"

definition level_sorted :: "Comparator \<Rightarrow> FileStore \<Rightarrow> FilePtr list \<Rightarrow> bool" where
  "level_sorted cmp h files \<longleftrightarrow>
     sorted_wrt (\<lambda>a b. InternalKey_Compare cmp (fm_largest (h a)) (fm_smallest (h b)) < 0) files"

abbreviation bound_ok :: "(Slice \<Rightarrow> bool) \<Rightarrow> Slice option \<Rightarrow> bool" where
  "bound_ok key b \<equiv> \<forall>k. b = Some k \<longrightarrow> key k"

text \<open>Before the begin and after the end of a range of user keys; a missing bound excludes nothing.\<close>

definition below :: "Comparator \<Rightarrow> Slice option \<Rightarrow> Slice \<Rightarrow> bool" where
  "below cmp b x \<longleftrightarrow> (case b of None \<Rightarrow> False | Some k \<Rightarrow> Compare cmp x k < 0)"

definition above :: "Comparator \<Rightarrow> Slice option \<Rightarrow> Slice \<Rightarrow> bool" where
  "above cmp e x \<longleftrightarrow> (case e of None \<Rightarrow> False | Some k \<Rightarrow> Compare cmp x k > 0)"

definition overlaps :: "Comparator \<Rightarrow> FileStore \<Rightarrow> Slice option \<Rightarrow> Slice option \<Rightarrow> FilePtr \<Rightarrow> bool" where
  "overlaps cmp h b e f \<longleftrightarrow> \<not> below cmp b (file_limit h f) \<and> \<not> above cmp e (file_start h f)"

definition inside :: "Comparator \<Rightarrow> FileStore \<Rightarrow> Slice option \<Rightarrow> Slice option \<Rightarrow> FilePtr \<Rightarrow> bool" where
  "inside cmp h b e f \<longleftrightarrow> \<not> below cmp b (file_start h f) \<and> \<not> above cmp e (file_limit h f)"

definition covers :: "(Slice \<Rightarrow> bool) \<Rightarrow> Comparator \<Rightarrow> Slice option \<Rightarrow> Slice option \<Rightarrow>
    Slice option \<Rightarrow> Slice option \<Rightarrow> bool" where
  "covers key cmp b' e' b e \<longleftrightarrow>
     (\<forall>x. key x \<longrightarrow> (below cmp b' x \<longrightarrow> below cmp b x) \<and> (above cmp e' x \<longrightarrow> above cmp e x))"

definition closed_range :: "Comparator \<Rightarrow> FileStore \<Rightarrow> FilePtr list \<Rightarrow> Slice option \<Rightarrow> Slice option \<Rightarrow> bool" where
  "closed_range cmp h files b e \<longleftrightarrow> (\<forall>f \<in> set files. overlaps cmp h b e f \<longrightarrow> inside cmp h b e f)"

text \<open>The range that a search in level 0 ends with: the least one around the given range that has no
  file over its edge.\<close>

definition least_closed_range :: "(Slice \<Rightarrow> bool) \<Rightarrow> Comparator \<Rightarrow> FileStore \<Rightarrow> FilePtr list \<Rightarrow>
    Slice option \<Rightarrow> Slice option \<Rightarrow> Slice option \<Rightarrow> Slice option \<Rightarrow> bool" where
  "least_closed_range key cmp h files b e b' e' \<longleftrightarrow>
     covers key cmp b' e' b e \<and> closed_range cmp h files b' e'
     \<and> (\<forall>b'' e''. bound_ok key b'' \<longrightarrow> bound_ok key e'' \<longrightarrow> covers key cmp b'' e'' b e \<longrightarrow> closed_range cmp h files b'' e'' \<longrightarrow> covers key cmp b'' e'' b' e')"

text \<open>What a search returns: the files of the level that overlap the range, which in level 0 is widened.\<close>

definition found_inputs :: "(Slice \<Rightarrow> bool) \<Rightarrow> Comparator \<Rightarrow> FileStore \<Rightarrow> nat \<Rightarrow> FilePtr list \<Rightarrow>
    Slice option \<Rightarrow> Slice option \<Rightarrow> FilePtr list \<Rightarrow> bool" where
  "found_inputs key cmp h level files b e inputs \<longleftrightarrow>
     (\<exists>b' e'. bound_ok key b' \<and> bound_ok key e' \<and> inputs = filter (overlaps cmp h b' e') files
       \<and> (if level = 0 then least_closed_range key cmp h files b e b' e' else b' = b \<and> e' = e))"

text \<open>A boundary file starts after a key with the same user key.\<close>

definition boundary_file :: "Comparator \<Rightarrow> FileStore \<Rightarrow> InternalKey \<Rightarrow> FilePtr \<Rightarrow> bool" where
  "boundary_file cmp h k f \<longleftrightarrow> InternalKey_Compare cmp (fm_smallest (h f)) k > 0
     \<and> Compare cmp (file_start h f) (InternalKey_user_key k) = 0"

definition no_boundary_file :: "Comparator \<Rightarrow> FileStore \<Rightarrow> FilePtr list \<Rightarrow> FilePtr list \<Rightarrow> bool" where
  "no_boundary_file cmp h level_files inputs \<longleftrightarrow>
     (\<forall>k. FindLargestKey cmp h inputs = Some k \<longrightarrow> (\<forall>f \<in> set level_files. \<not> boundary_file cmp h k f))"

lemma coversI:
  "(\<And>x. key x \<Longrightarrow> below cmp b' x \<Longrightarrow> below cmp b x) \<Longrightarrow> (\<And>x. key x \<Longrightarrow> above cmp e' x \<Longrightarrow> above cmp e x) \<Longrightarrow>
   covers key cmp b' e' b e"
  by (simp add: covers_def)

lemma coversD:
  assumes "covers key cmp b' e' b e" "key x"
  shows "below cmp b' x \<Longrightarrow> below cmp b x" "above cmp e' x \<Longrightarrow> above cmp e x"
  using assms by (simp_all add: covers_def)

lemma covers_refl [simp]: "covers key cmp b e b e"
  by (simp add: covers_def)

lemma covers_trans: "covers key cmp b3 e3 b2 e2 \<Longrightarrow> covers key cmp b2 e2 b1 e1 \<Longrightarrow> covers key cmp b3 e3 b1 e1"
  by (simp add: covers_def)

lemma filter_shorter:
  assumes "\<And>x. x \<in> set xs \<Longrightarrow> P x \<Longrightarrow> Q x" and "y \<in> set xs" "Q y" "\<not> P y"
  shows "length (filter P xs) < length (filter Q xs)"
proof -
  have "filter P (filter Q xs) = filter P xs"
    unfolding filter_filter by (rule filter_cong [OF HOL.refl]) (use assms(1) in blast)
  moreover have "length (filter P (filter Q xs)) < length (filter Q xs)"
    by (rule length_filter_less [of y]) (use assms in auto)
  ultimately show ?thesis by simp
qed

lemma filter_no_longer:
  assumes "\<And>x. x \<in> set xs \<Longrightarrow> P x \<Longrightarrow> Q x"
  shows "length (filter P xs) \<le> length (filter Q xs)"
proof -
  have "filter P (filter Q xs) = filter P xs"
    unfolding filter_filter by (rule filter_cong [OF HOL.refl]) (use assms in blast)
  then show ?thesis using length_filter_le [of P "filter Q xs"] by simp
qed

lemma meta_okD:
  assumes "meta_ok key cmp f"
  shows "ikey key (fm_smallest f)" "ikey key (fm_largest f)"
    "key (InternalKey_user_key (fm_smallest f))" "key (InternalKey_user_key (fm_largest f))"
    "InternalKey_Compare cmp (fm_smallest f) (fm_largest f) \<le> 0"
  using assms by (auto simp: meta_ok_def ikey_def InternalKey_user_key_def)

subsection \<open>Binary search\<close>

text \<open>\<open>P\<close> is the test of the loop as a predicate on indices; it holds on a prefix of them.\<close>

lemma FindFile_loop_split:
  assumes "length files < 2 ^ 31"
    and P: "\<And>i. i < length files \<Longrightarrow> P i \<longleftrightarrow> InternalKey_Compare ucmp (fm_largest (h (files ! i))) k < 0"
    and down: "\<And>i j. i < j \<Longrightarrow> j < length files \<Longrightarrow> P j \<Longrightarrow> P i"
    and "unat left \<le> unat right" "unat right \<le> length files"
    and "\<And>i. i < unat left \<Longrightarrow> P i" "\<And>i. unat right \<le> i \<Longrightarrow> i < length files \<Longrightarrow> \<not> P i"
  shows "\<exists>r. FindFile_loop ucmp h files k left right = Some r \<and> unat r \<le> length files
    \<and> (\<forall>i < unat r. P i) \<and> (\<forall>i. unat r \<le> i \<longrightarrow> i < length files \<longrightarrow> \<not> P i)"
  using assms(4-)
proof (induction "unat right - unat left" arbitrary: left right rule: less_induct)
  case less
  let ?mid = "(left + right) div 2"
  show ?case
  proof (cases "left < right")
    case True
    then have lr: "unat left < unat right" by (simp add: word_less_nat_alt)
    have mid: "unat ?mid = (unat left + unat right) div 2"
      using less.prems(2) assms(1) lr by (simp add: unat_div unat_word_ariths)
    have in_range: "unat left \<le> unat ?mid" "unat ?mid < unat right" "unat ?mid < length files"
      using mid lr less.prems(2) by linarith+
    have suc: "unat (?mid + 1) = Suc (unat ?mid)"
      using in_range less.prems(2) assms(1) by (simp add: unat_word_ariths)
    show ?thesis
    proof (cases "P (unat ?mid)")
      case P_mid: True
      have "\<exists>r. FindFile_loop ucmp h files k (?mid + 1) right = Some r \<and> unat r \<le> length files
        \<and> (\<forall>i < unat r. P i) \<and> (\<forall>i. unat r \<le> i \<longrightarrow> i < length files \<longrightarrow> \<not> P i)"
      proof (rule less.hyps)
        show "unat right - unat (?mid + 1) < unat right - unat left" using suc in_range lr by linarith
        show "unat (?mid + 1) \<le> unat right" using suc in_range by linarith
        show "P i" if "i < unat (?mid + 1)" for i
          using that suc down [of i "unat ?mid"] P_mid in_range(3) by (cases "i = unat ?mid") auto
      qed (use less.prems in blast)+
      then show ?thesis
        using True P_mid P [OF in_range(3)] by (subst FindFile_loop.simps) (simp add: Let_def)
    next
      case not_mid: False
      have "\<exists>r. FindFile_loop ucmp h files k left ?mid = Some r \<and> unat r \<le> length files
        \<and> (\<forall>i < unat r. P i) \<and> (\<forall>i. unat r \<le> i \<longrightarrow> i < length files \<longrightarrow> \<not> P i)"
      proof (rule less.hyps)
        show "unat ?mid - unat left < unat right - unat left" using in_range by linarith
        show "unat left \<le> unat ?mid" "unat ?mid \<le> length files" using in_range by linarith+
        show "\<not> P i" if "unat ?mid \<le> i" "i < length files" for i
          using that down [of "unat ?mid" i] not_mid by (cases "i = unat ?mid") auto
      qed (use less.prems in blast)
      then show ?thesis
        using True not_mid P [OF in_range(3)] by (subst FindFile_loop.simps) (simp add: Let_def)
    qed
  next
    case False
    then have "unat right \<le> unat left" by (simp add: word_less_nat_alt)
    then show ?thesis
      using False less.prems by (subst FindFile_loop.simps) simp
  qed
qed

context comparator
begin

lemma ikc_trans:
  assumes "ikey key a" "ikey key b" "ikey key c"
    and "InternalKey_Compare cmp a b \<le> 0" "InternalKey_Compare cmp b c \<le> 0"
  shows "InternalKey_Compare cmp a c \<le> 0"
  by (rule comparator.trans [OF internal_comparator, unfolded InternalKeyComparator_simps, OF assms])

lemma ikc_less_le:
  assumes "ikey key a" "ikey key b" "ikey key c"
    and "InternalKey_Compare cmp a b < 0" "InternalKey_Compare cmp b c \<le> 0"
  shows "InternalKey_Compare cmp a c < 0"
  by (rule comparator.less_le_trans [OF internal_comparator, unfolded InternalKeyComparator_simps, OF assms])

lemma ikc_le_less:
  assumes "ikey key a" "ikey key b" "ikey key c"
    and "InternalKey_Compare cmp a b \<le> 0" "InternalKey_Compare cmp b c < 0"
  shows "InternalKey_Compare cmp a c < 0"
  by (rule comparator.le_less_trans [OF internal_comparator, unfolded InternalKeyComparator_simps, OF assms])

lemma ikc_not_less:
  assumes "ikey key a" "ikey key b"
  shows "\<not> InternalKey_Compare cmp a b < 0 \<longleftrightarrow> InternalKey_Compare cmp b a \<le> 0"
  using comparator.le_iff [OF internal_comparator, unfolded InternalKeyComparator_simps, OF assms(2,1)] by blast

text \<open>The largest keys of the files of a sorted level grow, and so do the smallest.\<close>

lemma level_largest_sorted:
  assumes "level_sorted cmp h files" "\<And>f. f \<in> set files \<Longrightarrow> meta_ok key cmp (h f)" "i < j" "j < length files"
  shows "InternalKey_Compare cmp (fm_largest (h (files ! i))) (fm_largest (h (files ! j))) < 0"
    and "InternalKey_Compare cmp (fm_largest (h (files ! i))) (fm_smallest (h (files ! j))) < 0"
proof -
  have ok: "meta_ok key cmp (h (files ! i))" "meta_ok key cmp (h (files ! j))"
    using assms by auto
  show lt: "InternalKey_Compare cmp (fm_largest (h (files ! i))) (fm_smallest (h (files ! j))) < 0"
    using assms by (auto simp: level_sorted_def sorted_wrt_iff_nth_less)
  show "InternalKey_Compare cmp (fm_largest (h (files ! i))) (fm_largest (h (files ! j))) < 0"
    using ikc_less_le [OF _ _ _ lt] meta_okD [OF ok(1)] meta_okD [OF ok(2)] by blast
qed

text \<open>The comment of the header: the smallest index whose file ends at or past the key.\<close>

lemma FindFile_correct:
  assumes "level_sorted cmp h files" "\<And>f. f \<in> set files \<Longrightarrow> meta_ok key cmp (h f)"
    and "length files < 2 ^ 31" "ikey key k"
  shows "\<exists>r. FindFile cmp h files k = Some r \<and> unat r \<le> length files
    \<and> (\<forall>i < unat r. InternalKey_Compare cmp (fm_largest (h (files ! i))) k < 0)
    \<and> (\<forall>i. unat r \<le> i \<longrightarrow> i < length files \<longrightarrow> InternalKey_Compare cmp k (fm_largest (h (files ! i))) \<le> 0)"
proof -
  have n: "unat (word_of_nat (length files) :: u32) = length files"
    using assms(3) by (simp add: unat_of_nat)
  have "\<exists>r. FindFile_loop cmp h files k 0 (word_of_nat (length files)) = Some r \<and> unat r \<le> length files
    \<and> (\<forall>i < unat r. InternalKey_Compare cmp (fm_largest (h (files ! i))) k < 0)
    \<and> (\<forall>i. unat r \<le> i \<longrightarrow> i < length files \<longrightarrow> \<not> InternalKey_Compare cmp (fm_largest (h (files ! i))) k < 0)"
  proof (rule FindFile_loop_split)
    fix i j assume ij: "i < j" "j < length files" "InternalKey_Compare cmp (fm_largest (h (files ! j))) k < 0"
    then have "meta_ok key cmp (h (files ! i))" "meta_ok key cmp (h (files ! j))" using assms(2) by auto
    then show "InternalKey_Compare cmp (fm_largest (h (files ! i))) k < 0"
      using ikc_less_trans [OF _ _ assms(4) level_largest_sorted(1) [OF assms(1,2) ij(1,2)] ij(3)] meta_okD by blast
  qed (use assms n in auto)
  moreover have "ikey key (fm_largest (h (files ! i)))" if "i < length files" for i
    using that assms(2) meta_okD(2) nth_mem by blast
  ultimately show ?thesis
    using assms(4) ikc_not_less unfolding FindFile_def by (elim exE conjE) (metis (mono_tags, lifting))
qed

subsection \<open>Overlap\<close>

lemma ikc_user_le:
  assumes "ikey key a" "ikey key b" "InternalKey_Compare cmp a b \<le> 0"
  shows "Compare cmp (InternalKey_user_key a) (InternalKey_user_key b) \<le> 0"
  using assms ikc_less_iff [OF assms(1,2)] ikc_eq_iff [OF assms(1,2)] refl
  unfolding le_less [of "InternalKey_Compare cmp a b"] InternalKey_user_key_def ikey_def by fastforce

lemma AfterFile_below: "bound_ok key b \<Longrightarrow> key (file_limit h f) \<Longrightarrow> AfterFile cmp h b f \<longleftrightarrow> below cmp b (file_limit h f)"
  by (auto simp: AfterFile_def below_def swap split: option.splits)

lemma BeforeFile_above: "bound_ok key e \<Longrightarrow> key (file_start h f) \<Longrightarrow> BeforeFile cmp h e f \<longleftrightarrow> above cmp e (file_start h f)"
  by (auto simp: BeforeFile_def above_def swap split: option.splits)

lemma SomeFileOverlapsRange_loop_iff:
  "bound_ok key b \<Longrightarrow> bound_ok key e \<Longrightarrow> (\<And>f. f \<in> set files \<Longrightarrow> meta_ok key cmp (h f)) \<Longrightarrow>
   SomeFileOverlapsRange_loop cmp h files b e \<longleftrightarrow> (\<exists>f \<in> set files. overlaps cmp h b e f)"
proof (induction files)
  case (Cons f files)
  have "AfterFile cmp h b f \<or> BeforeFile cmp h e f \<longleftrightarrow> \<not> overlaps cmp h b e f"
    using Cons.prems AfterFile_below [of b h f] BeforeFile_above [of e h f] meta_okD(3,4)
    unfolding overlaps_def by (metis list.set_intros(1))
  then show ?case using Cons by simp
qed simp

lemma below_mono:
  "bound_ok key b \<Longrightarrow> key x \<Longrightarrow> key y \<Longrightarrow> Compare cmp x y \<le> 0 \<Longrightarrow> below cmp b y \<Longrightarrow> below cmp b x"
  by (cases b) (auto simp: below_def intro: le_less_trans)

lemma above_mono:
  assumes "bound_ok key e" "key x" "key y" "Compare cmp x y \<le> 0" "above cmp e x"
  shows "above cmp e y"
proof (cases e)
  case (Some k)
  then have "Compare cmp k x < 0" "key k" using assms swap [of k x] by (auto simp: above_def)
  then have "Compare cmp k y < 0" using assms less_le_trans by blast
  then show ?thesis using Some \<open>key k\<close> assms(3) swap by (auto simp: above_def)
qed (use assms in \<open>simp add: above_def\<close>)

text \<open>The first internal key of a user key: every file that ends before it ends before the user key.\<close>

lemma seek_key_below:
  assumes "meta_ok key cmp f" "tag_ok f" "key k"
  shows "InternalKey_Compare cmp (fm_largest f) (InternalKey_make k kMaxSequenceNumber kValueTypeForSeek) < 0
    \<longleftrightarrow> Compare cmp (InternalKey_user_key (fm_largest f)) k < 0"
  using assms meta_okD(2) [OF assms(1)]
  by (subst ikc_less_iff) (auto simp: ikey_def tag_ok_def InternalKey_user_key_def)

lemma level_user_sorted:
  assumes "level_sorted cmp h files" "\<And>f. f \<in> set files \<Longrightarrow> meta_ok key cmp (h f)" "i < j" "j < length files"
  shows "Compare cmp (file_start h (files ! i)) (file_start h (files ! j)) \<le> 0"
    and "Compare cmp (file_limit h (files ! i)) (file_start h (files ! j)) \<le> 0"
proof -
  have ok: "meta_ok key cmp (h (files ! i))" "meta_ok key cmp (h (files ! j))"
    using assms by auto
  show lt: "Compare cmp (file_limit h (files ! i)) (file_start h (files ! j)) \<le> 0"
    using level_largest_sorted(2) [OF assms(1,2,3,4)] meta_okD [OF ok(1)] meta_okD [OF ok(2)]
    by (intro ikc_user_le) auto
  have "Compare cmp (file_start h (files ! i)) (file_limit h (files ! i)) \<le> 0"
    using meta_okD [OF ok(1)] by (intro ikc_user_le)
  then show "Compare cmp (file_start h (files ! i)) (file_start h (files ! j)) \<le> 0"
    using lt trans meta_okD(3,4) [OF ok(1)] meta_okD(3,4) [OF ok(2)] by blast
qed

lemma start_FindFile:
  assumes "level_sorted cmp h files" "\<And>f. f \<in> set files \<Longrightarrow> meta_ok key cmp (h f) \<and> tag_ok (h f)"
    and "length files < 2 ^ 31" "bound_ok key b"
  shows "\<exists>r. (case b of None \<Rightarrow> Some 0
      | Some k \<Rightarrow> FindFile cmp h files (InternalKey_make k kMaxSequenceNumber kValueTypeForSeek)) = Some r
    \<and> unat r \<le> length files \<and> (\<forall>i < unat r. below cmp b (file_limit h (files ! i)))
    \<and> (\<forall>i. unat r \<le> i \<longrightarrow> i < length files \<longrightarrow> \<not> below cmp b (file_limit h (files ! i)))"
proof (cases b)
  case None
  then show ?thesis by (simp add: below_def)
next
  case (Some k)
  let ?k = "InternalKey_make k kMaxSequenceNumber kValueTypeForSeek"
  have k: "ikey key ?k" using assms(4) Some by (simp add: ikey_def)
  obtain r where r: "FindFile cmp h files ?k = Some r" "unat r \<le> length files"
    "\<forall>i < unat r. InternalKey_Compare cmp (fm_largest (h (files ! i))) ?k < 0"
    "\<forall>i. unat r \<le> i \<longrightarrow> i < length files \<longrightarrow> InternalKey_Compare cmp ?k (fm_largest (h (files ! i))) \<le> 0"
    using FindFile_correct [OF assms(1) _ assms(3) k] assms(2) by blast
  have b: "InternalKey_Compare cmp (fm_largest (h (files ! i))) ?k < 0 \<longleftrightarrow> below cmp b (file_limit h (files ! i))"
    if "i < length files" for i
    using that seek_key_below [of "h (files ! i)" k] assms(2,4) Some by (simp add: below_def)
  have "ikey key (fm_largest (h (files ! i)))" if "i < length files" for i
    using that assms(2) meta_okD(2) nth_mem by blast
  then have "\<not> below cmp b (file_limit h (files ! i))" if "unat r \<le> i" "i < length files" for i
    using that r(4) b k ikc_not_less by blast
  then show ?thesis using r b Some by auto
qed

theorem SomeFileOverlapsRange_iff:
  assumes "level_sorted cmp h files \<and> length files < 2 ^ 31 \<or> \<not> disjoint_sorted_files"
    and ok: "\<And>f. f \<in> set files \<Longrightarrow> meta_ok key cmp (h f) \<and> tag_ok (h f)"
    and b: "bound_ok key b" and e: "bound_ok key e"
  shows "SomeFileOverlapsRange cmp h disjoint_sorted_files files b e
    = Some (\<exists>f \<in> set files. overlaps cmp h b e f)"
proof (cases disjoint_sorted_files)
  case True
  then have sorted: "level_sorted cmp h files" "length files < 2 ^ 31" using assms(1) by auto
  obtain r where r: "(case b of None \<Rightarrow> Some 0
      | Some k \<Rightarrow> FindFile cmp h files (InternalKey_make k kMaxSequenceNumber kValueTypeForSeek)) = Some r"
    "unat r \<le> length files" "\<forall>i < unat r. below cmp b (file_limit h (files ! i))"
    "\<forall>i. unat r \<le> i \<longrightarrow> i < length files \<longrightarrow> \<not> below cmp b (file_limit h (files ! i))"
    using start_FindFile [OF sorted(1) ok sorted(2) b] by blast
  have keys: "key (file_start h (files ! i))" "key (file_limit h (files ! i))" if "i < length files" for i
    using that ok meta_okD(3,4) nth_mem by blast+
  show ?thesis
  proof (cases "unat r < length files")
    case r_in: True
    have later: "overlaps cmp h b e (files ! unat r)" if o: "overlaps cmp h b e (files ! i)" "i < length files" for i
    proof -
      have i: "unat r \<le> i" using o r(3) by (auto simp: overlaps_def not_le [symmetric])
      have "Compare cmp (file_start h (files ! unat r)) (file_start h (files ! i)) \<le> 0"
        using level_user_sorted(1) [OF sorted(1) _ _ o(2), of "unat r"] ok i keys [OF o(2)] refl
        by (cases "unat r = i") auto
      then show ?thesis
        using o above_mono [OF e keys(1) [OF r_in] keys(1) [OF o(2)]] r(4) r_in by (auto simp: overlaps_def)
    qed
    have "BeforeFile cmp h e (files ! unat r) \<longleftrightarrow> \<not> overlaps cmp h b e (files ! unat r)"
      using BeforeFile_above [of e h "files ! unat r"] e keys(1) [OF r_in] r(4) r_in by (simp add: overlaps_def)
    moreover have "overlaps cmp h b e (files ! unat r) \<longleftrightarrow> (\<exists>f \<in> set files. overlaps cmp h b e f)"
      using later nth_mem [OF r_in] by (metis in_set_conv_nth)
    ultimately show ?thesis using True r(1) r_in by (simp add: SomeFileOverlapsRange_def)
  next
    case False
    then have "\<not> overlaps cmp h b e f" if "f \<in> set files" for f
      using that r(2,3) by (auto simp: overlaps_def in_set_conv_nth)
    then show ?thesis using False True r(1) by (simp add: SomeFileOverlapsRange_def)
  qed
next
  case False
  then show ?thesis
    using SomeFileOverlapsRange_loop_iff [OF b e] ok by (simp add: SomeFileOverlapsRange_def)
qed

subsection \<open>The overlapping files of a level\<close>

text \<open>How often the search in level 0 can start again: for every file over an edge of the range once.\<close>

abbreviation over_edge :: "FileStore \<Rightarrow> FilePtr list \<Rightarrow> Slice option \<Rightarrow> Slice option \<Rightarrow> nat" where
  "over_edge h files b e \<equiv> length (filter (\<lambda>f. below cmp b (file_start h f)) files)
     + length (filter (\<lambda>f. above cmp e (file_limit h f)) files)"

lemma widen_begin:
  assumes "bound_ok key b" "key x" "below cmp b x"
  shows "covers key cmp (Some x) e b e" "bound_ok key (Some x)" "\<not> below cmp (Some x) x"
proof -
  have "below cmp b y" if "key y" "Compare cmp y x < 0" for y
    using below_mono [OF assms(1) that(1) assms(2)] that assms(3) by simp
  then show "covers key cmp (Some x) e b e" by (simp add: covers_def below_def [of _ "Some x"])
qed (use assms refl in \<open>auto simp: below_def\<close>)

lemma widen_end:
  assumes "bound_ok key e" "key x" "above cmp e x"
  shows "covers key cmp b (Some x) b e" "bound_ok key (Some x)" "\<not> above cmp (Some x) x"
proof -
  have "above cmp e y" if "key y" "0 < Compare cmp y x" for y
    using above_mono [OF assms(1) assms(2) that(1)] that assms swap by (simp add: less_imp_le)
  then show "covers key cmp b (Some x) b e" by (simp add: covers_def above_def [of _ "Some x"])
qed (use assms refl in \<open>auto simp: above_def\<close>)

lemma over_edge_begin:
  assumes ok: "\<And>f. f \<in> set files \<Longrightarrow> meta_ok key cmp (h f)"
    and "bound_ok key b" "f \<in> set files" "below cmp b (file_start h f)"
  shows "over_edge h files (Some (file_start h f)) e < over_edge h files b e"
proof -
  note w = widen_begin [OF assms(2) meta_okD(3) [OF ok [OF assms(3)]] assms(4)]
  have "length (filter (\<lambda>g. below cmp (Some (file_start h f)) (file_start h g)) files)
    < length (filter (\<lambda>g. below cmp b (file_start h g)) files)"
    by (rule filter_shorter [of _ _ _ f])
      (use w assms(3,4) meta_okD(3) [OF ok] in \<open>auto simp: covers_def\<close>)
  then show ?thesis by simp
qed

lemma over_edge_end:
  assumes ok: "\<And>f. f \<in> set files \<Longrightarrow> meta_ok key cmp (h f)"
    and "bound_ok key e" "f \<in> set files" "above cmp e (file_limit h f)"
  shows "over_edge h files b (Some (file_limit h f)) < over_edge h files b e"
proof -
  note w = widen_end [OF assms(2) meta_okD(4) [OF ok [OF assms(3)]] assms(4)]
  have "length (filter (\<lambda>g. above cmp (Some (file_limit h f)) (file_limit h g)) files)
    < length (filter (\<lambda>g. above cmp e (file_limit h g)) files)"
    by (rule filter_shorter [of _ _ _ f])
      (use w assms(3,4) meta_okD(4) [OF ok] in \<open>auto simp: covers_def\<close>)
  then show ?thesis by simp
qed

text \<open>A closed range around the given one contains a file over the edge, so it contains the widened range.\<close>

lemma least_begin:
  assumes "covers key cmp b'' e'' b e" "closed_range cmp h files b'' e''" "f \<in> set files"
    and ok: "\<And>f. f \<in> set files \<Longrightarrow> meta_ok key cmp (h f)" and "bound_ok key b''" "bound_ok key e''"
    and "overlaps cmp h b e f"
  shows "covers key cmp b'' e'' (Some (file_start h f)) e" "covers key cmp b'' e'' b (Some (file_limit h f))"
proof -
  have k: "key (file_start h f)" "key (file_limit h f)" using ok assms(3) meta_okD(3,4) by blast+
  have "overlaps cmp h b'' e'' f"
    using coversD(1) [OF assms(1) k(2)] coversD(2) [OF assms(1) k(1)] assms(7) by (auto simp: overlaps_def)
  then have i: "\<not> below cmp b'' (file_start h f)" "\<not> above cmp e'' (file_limit h f)"
    using assms(2,3) by (auto simp: closed_range_def inside_def)
  have "Compare cmp x (file_start h f) < 0" if "key x" "below cmp b'' x" for x
    using below_mono [OF assms(5) k(1) that(1)] that i(1) le_iff [OF k(1) that(1)] by blast
  then show "covers key cmp b'' e'' (Some (file_start h f)) e"
    using coversD [OF assms(1)] by (auto intro!: coversI simp: below_def [of _ "Some _"])
  have "0 < Compare cmp x (file_limit h f)" if "key x" "above cmp e'' x" for x
    using above_mono [OF assms(6) that(1) k(2)] that(2) i(2) by (auto simp: not_le [symmetric])
  then show "covers key cmp b'' e'' b (Some (file_limit h f))"
    using coversD [OF assms(1)] by (auto intro!: coversI simp: above_def [of _ "Some _"])
qed

lemma two_branches: "(if A then x else if B then x else y) = (if A \<or> B then x else y)"
  by simp

lemma GetOverlappingInputs_loop_next:
  assumes "i < length files"
  shows "GetOverlappingInputs_loop ucmp h level files i b e inputs =
    (let f = files ! i
     in if \<not> overlaps ucmp h b e f then GetOverlappingInputs_loop ucmp h level files (i + 1) b e inputs
        else if level = 0 \<and> below ucmp b (file_start h f)
        then GetOverlappingInputs_loop ucmp h level files 0 (Some (file_start h f)) e []
        else if level = 0 \<and> above ucmp e (file_limit h f)
        then GetOverlappingInputs_loop ucmp h level files 0 b (Some (file_limit h f)) []
        else GetOverlappingInputs_loop ucmp h level files (i + 1) b e (inputs @ [f]))"
  using assms unfolding below_def above_def overlaps_def
  by (subst GetOverlappingInputs_loop.simps) (simp only: Let_def if_True de_Morgan_conj not_not two_branches)

lemma least_closed_step:
  assumes "covers key cmp b1 e1 b e"
    and "\<And>b'' e''. bound_ok key b'' \<Longrightarrow> bound_ok key e'' \<Longrightarrow> covers key cmp b'' e'' b e \<Longrightarrow>
      closed_range cmp h files b'' e'' \<Longrightarrow> covers key cmp b'' e'' b1 e1"
    and "least_closed_range key cmp h files b1 e1 b' e'"
  shows "least_closed_range key cmp h files b e b' e'"
  unfolding least_closed_range_def
proof (intro conjI allI impI)
  show "covers key cmp b' e' b e"
    using assms(1,3) covers_trans unfolding least_closed_range_def by blast
  show "closed_range cmp h files b' e'" using assms(3) by (simp add: least_closed_range_def)
  fix b'' e'' assume c: "bound_ok key b''" "bound_ok key e''" "covers key cmp b'' e'' b e" "closed_range cmp h files b'' e''"
  then have "covers key cmp b'' e'' b1 e1" by (rule assms(2))
  then show "covers key cmp b'' e'' b' e'" using assms(3) c unfolding least_closed_range_def by blast
qed

definition level_0_search :: "FileStore \<Rightarrow> FilePtr list \<Rightarrow> Slice option \<Rightarrow> Slice option \<Rightarrow> FilePtr list option \<Rightarrow> bool" where
  "level_0_search h files b e result \<longleftrightarrow> (\<exists>inputs. result = Some inputs \<and> found_inputs key cmp h 0 files b e inputs)"

lemma level_0_search_iff:
  "level_0_search h files b e result \<longleftrightarrow>
     (\<exists>b' e'. result = Some (filter (overlaps cmp h b' e') files) \<and> bound_ok key b' \<and> bound_ok key e'
       \<and> least_closed_range key cmp h files b e b' e')"
  unfolding level_0_search_def found_inputs_def if_P [OF HOL.refl] by blast

lemma level_0_searchI:
  assumes "covers key cmp b1 e1 b e"
    and "\<And>b'' e''. bound_ok key b'' \<Longrightarrow> bound_ok key e'' \<Longrightarrow> covers key cmp b'' e'' b e \<Longrightarrow>
      closed_range cmp h files b'' e'' \<Longrightarrow> covers key cmp b'' e'' b1 e1"
    and "level_0_search h files b1 e1 result"
  shows "level_0_search h files b e result"
  using assms(3) least_closed_step [OF assms(1,2)] unfolding level_0_search_iff by blast

lemma GetOverlappingInputs_level_0:
  assumes ok: "\<And>f. f \<in> set files \<Longrightarrow> meta_ok key cmp (h f)"
    and "bound_ok key b" "bound_ok key e" "i \<le> length files"
    and "inputs = filter (overlaps cmp h b e) (take i files)" "\<forall>f \<in> set inputs. inside cmp h b e f"
  shows "level_0_search h files b e (GetOverlappingInputs_loop cmp h 0 files i b e inputs)"
  using assms(2-)
proof (induction "over_edge h files b e * (length files + 1) + (length files - i)"
    arbitrary: b e i inputs rule: less_induct)
  case less
  show ?case
  proof (cases "i < length files")
    case True
    let ?f = "files ! i"
    have f: "?f \<in> set files" using True by simp
    note k = meta_okD(3,4) [OF ok [OF f]]
    have again: "level_0_search h files b1 e1 (GetOverlappingInputs_loop cmp h 0 files 0 b1 e1 [])"
      if "over_edge h files b1 e1 < over_edge h files b e" "bound_ok key b1" "bound_ok key e1" for b1 e1
    proof (rule less.hyps)
      have "(over_edge h files b1 e1 + 1) * (length files + 1) \<le> over_edge h files b e * (length files + 1)"
        using that(1) by (intro mult_le_mono1) simp
      then show "over_edge h files b1 e1 * (length files + 1) + (length files - 0)
        < over_edge h files b e * (length files + 1) + (length files - i)"
        by (simp add: algebra_simps)
    qed (use that in auto)
    have next_file: "level_0_search h files b e (GetOverlappingInputs_loop cmp h 0 files (i + 1) b e inputs')"
      if "inputs' = filter (overlaps cmp h b e) (take (i + 1) files)" "\<forall>f \<in> set inputs'. inside cmp h b e f" for inputs'
      by (rule less.hyps) (use less.prems that True in auto)
    show ?thesis
    proof (cases "overlaps cmp h b e ?f")
      case False
      then have "level_0_search h files b e (GetOverlappingInputs_loop cmp h 0 files (i + 1) b e inputs)"
        using less.prems(4,5) True by (intro next_file) (simp_all add: take_Suc_conv_app_nth)
      then show ?thesis
        using False True by (simp add: GetOverlappingInputs_loop_next)
    next
      case o: True
      show ?thesis
      proof (cases "below cmp b (file_start h ?f)")
        case edge: True
        have "level_0_search h files b e (GetOverlappingInputs_loop cmp h 0 files 0 (Some (file_start h ?f)) e [])"
        proof (rule level_0_searchI)
          show "level_0_search h files (Some (file_start h ?f)) e
              (GetOverlappingInputs_loop cmp h 0 files 0 (Some (file_start h ?f)) e [])"
            using over_edge_begin [of files h b ?f e] ok f edge widen_begin(2) [OF less.prems(1) k(1) edge] less.prems(1,2)
            by (intro again) auto
        qed (use least_begin(1) [of _ _ b e h files ?f] f ok o widen_begin(1) [OF less.prems(1) k(1) edge] in blast)+
        then show ?thesis
          using edge o True by (simp add: GetOverlappingInputs_loop_next)
      next
        case in_begin: False
        show ?thesis
        proof (cases "above cmp e (file_limit h ?f)")
          case edge: True
          have "level_0_search h files b e (GetOverlappingInputs_loop cmp h 0 files 0 b (Some (file_limit h ?f)) [])"
          proof (rule level_0_searchI)
            show "level_0_search h files b (Some (file_limit h ?f))
                (GetOverlappingInputs_loop cmp h 0 files 0 b (Some (file_limit h ?f)) [])"
              using over_edge_end [of files h e ?f b] ok f edge widen_end(2) [OF less.prems(2) k(2) edge] less.prems(1,2)
              by (intro again) auto
          qed (use least_begin(2) [of _ _ b e h files ?f] f ok o widen_end(1) [OF less.prems(2) k(2) edge] in blast)+
          then show ?thesis
            using edge in_begin o True
            by (simp add: GetOverlappingInputs_loop_next)
        next
          case False
          then have "level_0_search h files b e (GetOverlappingInputs_loop cmp h 0 files (i + 1) b e (inputs @ [?f]))"
            using less.prems(4,5) True o in_begin
            by (intro next_file) (simp_all add: take_Suc_conv_app_nth inside_def)
          then show ?thesis
            using False in_begin o True
            by (simp add: GetOverlappingInputs_loop_next)
        qed
      qed
    qed
  next
    case False
    then have i: "inputs = filter (overlaps cmp h b e) files" using less.prems(3,4) by simp
    have "closed_range cmp h files b e" using less.prems(5) i by (auto simp: closed_range_def)
    then have "least_closed_range key cmp h files b e b e" by (simp add: least_closed_range_def)
    then show ?thesis
      using False i less.prems(1,2) unfolding level_0_search_iff
      by (subst GetOverlappingInputs_loop.simps) auto
  qed
qed

lemma GetOverlappingInputs_higher:
  "level \<noteq> 0 \<Longrightarrow> i \<le> length files \<Longrightarrow>
   GetOverlappingInputs_loop ucmp h level files i b e inputs = Some (inputs @ filter (overlaps ucmp h b e) (drop i files))"
proof (induction "length files - i" arbitrary: i inputs)
  case 0
  then show ?case by (subst GetOverlappingInputs_loop.simps) simp
next
  case (Suc n)
  then have "i < length files" by simp
  then show ?case
    using Suc.hyps(1) [of "i + 1"] Suc.hyps(2) Suc.prems
    by (simp add: GetOverlappingInputs_loop_next Cons_nth_drop_Suc [symmetric])
qed

theorem GetOverlappingInputs_finds:
  assumes "level < kNumLevels" "\<And>f. f \<in> set (files level) \<Longrightarrow> meta_ok key cmp (h f)"
    and "bound_ok key (map_option InternalKey_user_key b)" "bound_ok key (map_option InternalKey_user_key e)"
  shows "\<exists>inputs. GetOverlappingInputs cmp h files level b e = Some inputs
    \<and> found_inputs key cmp h level (files level) (map_option InternalKey_user_key b) (map_option InternalKey_user_key e) inputs"
proof (cases "level = 0")
  case True
  then show ?thesis
    using assms GetOverlappingInputs_level_0 [where i = 0 and inputs = "[]", OF assms(2-4)]
    by (simp add: GetOverlappingInputs_def level_0_search_def)
next
  case False
  then show ?thesis
    using assms GetOverlappingInputs_higher [OF False, of 0 "files level"]
    by (simp add: GetOverlappingInputs_def found_inputs_def)
qed

subsection \<open>The range of a list of files\<close>

lemma GetRange_loop_bounds:
  assumes "GetRange_loop cmp h fs s l = (s', l')" "\<And>f. f \<in> set fs \<Longrightarrow> meta_ok key cmp (h f)" "ikey key s" "ikey key l"
  shows "InternalKey_Compare cmp s' s \<le> 0 \<and> InternalKey_Compare cmp l l' \<le> 0
    \<and> (\<forall>f \<in> set fs. InternalKey_Compare cmp s' (fm_smallest (h f)) \<le> 0 \<and> InternalKey_Compare cmp (fm_largest (h f)) l' \<le> 0)
    \<and> s' \<in> insert s (fm_smallest ` h ` set fs) \<and> l' \<in> insert l (fm_largest ` h ` set fs)"
  using assms
proof (induction fs arbitrary: s l)
  case Nil
  then show ?case using comparator.refl [OF internal_comparator] by auto
next
  case (Cons f fs)
  let ?s = "if InternalKey_Compare cmp (fm_smallest (h f)) s < 0 then fm_smallest (h f) else s"
  let ?l = "if InternalKey_Compare cmp (fm_largest (h f)) l > 0 then fm_largest (h f) else l"
  have ok: "ikey key (fm_smallest (h f))" "ikey key (fm_largest (h f))"
    using Cons.prems(2) [of f] meta_okD(1,2) by auto
  have new: "ikey key ?s" "ikey key ?l" using ok Cons.prems(3,4) by auto
  have IH: "InternalKey_Compare cmp s' ?s \<le> 0" "InternalKey_Compare cmp ?l l' \<le> 0"
    "\<forall>f \<in> set fs. InternalKey_Compare cmp s' (fm_smallest (h f)) \<le> 0 \<and> InternalKey_Compare cmp (fm_largest (h f)) l' \<le> 0"
    "s' \<in> insert ?s (fm_smallest ` h ` set fs)" "l' \<in> insert ?l (fm_largest ` h ` set fs)"
    using Cons.IH [of ?s ?l] Cons.prems new by auto
  have "ikey key s'" "ikey key l'"
    using IH(4,5) new Cons.prems(2) meta_okD(1,2) by fastforce+
  note t = ikc_trans [OF \<open>ikey key s'\<close> new(1) _ IH(1)] ikc_trans [OF _ new(2) \<open>ikey key l'\<close> _ IH(2)]
  have refl: "InternalKey_Compare cmp x x \<le> 0" if "ikey key x" for x
    using comparator.refl [OF internal_comparator that] by simp
  have "InternalKey_Compare cmp ?s s \<le> 0" "InternalKey_Compare cmp ?s (fm_smallest (h f)) \<le> 0"
    using refl ok Cons.prems(3) ikc_not_less [OF ok(1) Cons.prems(3)] by auto
  moreover have "InternalKey_Compare cmp l ?l \<le> 0" "InternalKey_Compare cmp (fm_largest (h f)) ?l \<le> 0"
    using refl ok Cons.prems(4) ikc_greater_iff [OF ok(2) Cons.prems(4)] by auto
  ultimately have "InternalKey_Compare cmp s' s \<le> 0" "InternalKey_Compare cmp s' (fm_smallest (h f)) \<le> 0"
    "InternalKey_Compare cmp l l' \<le> 0" "InternalKey_Compare cmp (fm_largest (h f)) l' \<le> 0"
    using t ok Cons.prems(3,4) by blast+
  then show ?case using IH(3-5) by (auto split: if_splits)
qed

lemma GetRange_bounds:
  assumes "inputs \<noteq> []" "\<And>f. f \<in> set inputs \<Longrightarrow> meta_ok key cmp (h f)"
  shows "\<exists>s l. GetRange cmp h inputs = Some (s, l) \<and> s \<in> fm_smallest ` h ` set inputs \<and> l \<in> fm_largest ` h ` set inputs
    \<and> (\<forall>f \<in> set inputs. InternalKey_Compare cmp s (fm_smallest (h f)) \<le> 0 \<and> InternalKey_Compare cmp (fm_largest (h f)) l \<le> 0)"
proof -
  obtain f fs where i: "inputs = f # fs" using assms(1) by (cases inputs) auto
  obtain s l where sl: "GetRange_loop cmp h fs (fm_smallest (h f)) (fm_largest (h f)) = (s, l)" by fastforce
  have f: "meta_ok key cmp (h f)" "\<And>g. g \<in> set fs \<Longrightarrow> meta_ok key cmp (h g)" using assms(2) i by auto
  show ?thesis
    using GetRange_loop_bounds [OF sl f(2) meta_okD(1,2) [OF f(1)]] unfolding i
    by (intro exI [of _ s] exI [of _ l]) (simp add: GetRange_def sl)
qed

subsection \<open>Boundary files\<close>

lemma FindLargestKey_loop_max:
  assumes "\<And>f. f \<in> set fs \<Longrightarrow> meta_ok key cmp (h f)" "ikey key k"
  shows "FindLargestKey_loop cmp h fs k \<in> insert k (fm_largest ` h ` set fs)
    \<and> (\<forall>x \<in> insert k (fm_largest ` h ` set fs). InternalKey_Compare cmp x (FindLargestKey_loop cmp h fs k) \<le> 0)"
  using assms
proof (induction fs arbitrary: k)
  case Nil
  then show ?case using comparator.refl [OF internal_comparator] by simp
next
  case (Cons f fs)
  let ?k = "if InternalKey_Compare cmp (fm_largest (h f)) k > 0 then fm_largest (h f) else k"
  let ?r = "FindLargestKey_loop cmp h fs ?k"
  have f: "ikey key (fm_largest (h f))" using Cons.prems(1) [of f] meta_okD(2) by auto
  have new: "ikey key ?k" using f Cons.prems(2) by simp
  have IH: "?r \<in> insert ?k (fm_largest ` h ` set fs)"
    "\<forall>x \<in> insert ?k (fm_largest ` h ` set fs). InternalKey_Compare cmp x ?r \<le> 0"
    using Cons.IH [OF _ new] Cons.prems(1) by auto
  have r: "ikey key ?r" using IH(1) new Cons.prems(1) meta_okD(2) by fastforce
  have "InternalKey_Compare cmp k ?k \<le> 0" "InternalKey_Compare cmp (fm_largest (h f)) ?k \<le> 0"
    using comparator.refl [OF internal_comparator] f Cons.prems(2) ikc_greater_iff [OF f Cons.prems(2)] by auto
  then have "InternalKey_Compare cmp k ?r \<le> 0" "InternalKey_Compare cmp (fm_largest (h f)) ?r \<le> 0"
    using ikc_trans [OF _ new r] Cons.prems(2) f IH(2) by blast+
  then show ?case using IH by (auto split: if_splits)
qed

lemma FindLargestKey_iff:
  assumes "\<And>f. f \<in> set fs \<Longrightarrow> meta_ok key cmp (h f)"
  shows "FindLargestKey cmp h fs = Some k \<longleftrightarrow> k \<in> fm_largest ` h ` set fs
    \<and> (\<forall>x \<in> fm_largest ` h ` set fs. InternalKey_Compare cmp x k \<le> 0)"
proof (cases fs)
  case Nil
  then show ?thesis by (simp add: FindLargestKey_def)
next
  case (Cons f rest)
  let ?k = "FindLargestKey_loop cmp h rest (fm_largest (h f))"
  have k: "?k \<in> fm_largest ` h ` set fs" "\<forall>x \<in> fm_largest ` h ` set fs. InternalKey_Compare cmp x ?k \<le> 0"
    using FindLargestKey_loop_max [of rest h "fm_largest (h f)"] assms Cons meta_okD(2) by auto
  have "k = ?k" if "k \<in> fm_largest ` h ` set fs" "\<forall>x \<in> fm_largest ` h ` set fs. InternalKey_Compare cmp x k \<le> 0"
  proof -
    have ik: "ikey key k" "ikey key ?k" using that(1) k(1) assms meta_okD(2) by fastforce+
    have "InternalKey_Compare cmp k ?k \<le> 0" "InternalKey_Compare cmp ?k k \<le> 0" using that k by blast+
    then have "InternalKey_Compare cmp k ?k = 0" using ikc_not_less [OF ik] by simp
    then show ?thesis using ikc_eq_iff [OF ik] by simp
  qed
  then show ?thesis using k Cons by (auto simp: FindLargestKey_def)
qed

lemma FindSmallestBoundaryFile_loop_spec:
  "FindSmallestBoundaryFile_loop cmp h fs k acc = (case acc of None \<Rightarrow> None | Some g \<Rightarrow> Some g)
     \<and> (acc = None \<longrightarrow> (\<forall>f \<in> set fs. \<not> boundary_file cmp h k f))
   \<or> (\<exists>g \<in> set fs. boundary_file cmp h k g \<and> FindSmallestBoundaryFile_loop cmp h fs k acc = Some g)"
proof (induction fs arbitrary: acc)
  case (Cons f fs)
  let ?c = "boundary_file cmp h k f \<and> (case acc of None \<Rightarrow> True
      | Some g \<Rightarrow> InternalKey_Compare cmp (fm_smallest (h f)) (fm_smallest (h g)) < 0)"
  have s: "FindSmallestBoundaryFile_loop cmp h (f # fs) k acc
      = FindSmallestBoundaryFile_loop cmp h fs k (if ?c then Some f else acc)"
    by (simp add: boundary_file_def)
  show ?case
  proof (cases ?c)
    case True
    then show ?thesis using Cons.IH [of "Some f"] unfolding s by auto
  next
    case False
    then show ?thesis using Cons.IH [of acc] unfolding s if_not_P [OF False] by (auto split: option.splits)
  qed
qed (simp split: option.splits)

lemma FindSmallestBoundaryFile_spec:
  "(case FindSmallestBoundaryFile cmp h fs k of
      None \<Rightarrow> \<forall>f \<in> set fs. \<not> boundary_file cmp h k f
    | Some g \<Rightarrow> g \<in> set fs \<and> boundary_file cmp h k g)"
  using FindSmallestBoundaryFile_loop_spec [where fs = fs and k = k and h = h and acc = None] unfolding FindSmallestBoundaryFile_def
  by (auto split: option.splits)

text \<open>Each boundary file starts past the keys before it, so the search ends.\<close>

lemma AddBoundaryInputs_loop_ends:
  assumes ok: "\<And>f. f \<in> set fs \<Longrightarrow> meta_ok key cmp (h f)" and "ikey key k"
  shows "\<exists>extra k'. AddBoundaryInputs_loop cmp h fs k cf = Some (cf @ extra) \<and> set extra \<subseteq> set fs
    \<and> k' \<in> insert k (fm_largest ` h ` set extra)
    \<and> (\<forall>x \<in> insert k (fm_largest ` h ` set extra). InternalKey_Compare cmp x k' \<le> 0)
    \<and> (\<forall>f \<in> set fs. \<not> boundary_file cmp h k' f)"
  using assms(2)
proof (induction "length (filter (\<lambda>f. InternalKey_Compare cmp (fm_smallest (h f)) k > 0) fs)"
    arbitrary: k cf rule: less_induct)
  case less
  show ?case
  proof (cases "FindSmallestBoundaryFile cmp h fs k")
    case None
    then have "\<forall>f \<in> set fs. \<not> boundary_file cmp h k f" using FindSmallestBoundaryFile_spec [where fs = fs and k = k and h = h] by simp
    then show ?thesis
      using None comparator.refl [OF internal_comparator less.prems]
      by (intro exI [of _ "[]"] exI [of _ k], subst AddBoundaryInputs_loop.simps) simp
  next
    case (Some g)
    then have g: "g \<in> set fs" "boundary_file cmp h k g" using FindSmallestBoundaryFile_spec [where fs = fs and k = k and h = h] by simp_all
    let ?k = "fm_largest (h g)"
    note gk = meta_okD(1,2,5) [OF ok [OF g(1)]]
    have kg: "InternalKey_Compare cmp k ?k < 0"
      using ikc_less_le [OF less.prems gk(1,2) _ gk(3)] ikc_greater_iff [OF gk(1) less.prems] g(2)
      by (simp add: boundary_file_def)
    have "length (filter (\<lambda>f. InternalKey_Compare cmp (fm_smallest (h f)) ?k > 0) fs)
      < length (filter (\<lambda>f. InternalKey_Compare cmp (fm_smallest (h f)) k > 0) fs)"
    proof (rule filter_shorter [of _ _ _ g])
      fix f assume f: "f \<in> set fs" "0 < InternalKey_Compare cmp (fm_smallest (h f)) ?k"
      note fk = meta_okD(1) [OF ok [OF f(1)]]
      show "0 < InternalKey_Compare cmp (fm_smallest (h f)) k"
        using ikc_less_trans [OF less.prems gk(2) fk kg] f(2) ikc_greater_iff [OF fk] gk(2) less.prems by blast
    qed (use g gk ikc_greater_iff [OF gk(1) gk(2)] ikc_not_less [OF gk(2,1)] in \<open>auto simp: boundary_file_def\<close>)
    then obtain extra k' where IH: "AddBoundaryInputs_loop cmp h fs ?k (cf @ [g]) = Some ((cf @ [g]) @ extra)"
      "set extra \<subseteq> set fs" "k' \<in> insert ?k (fm_largest ` h ` set extra)"
      "\<forall>x \<in> insert ?k (fm_largest ` h ` set extra). InternalKey_Compare cmp x k' \<le> 0"
      "\<forall>f \<in> set fs. \<not> boundary_file cmp h k' f"
      using less.hyps [OF _ gk(2)] by blast
    have "ikey key k'" using IH(2,3) gk(2) ok meta_okD(2) by fastforce
    then have "InternalKey_Compare cmp k k' \<le> 0"
      using ikc_trans [OF less.prems gk(2)] kg IH(4) by simp
    then show ?thesis
      using IH g(1) Some
      by (intro exI [of _ "g # extra"] exI [of _ k'], subst AddBoundaryInputs_loop.simps) simp
  qed
qed

theorem AddBoundaryInputs_closes:
  assumes ok: "\<And>f. f \<in> set level_files \<Longrightarrow> meta_ok key cmp (h f)" and "set inputs \<subseteq> set level_files"
  shows "\<exists>extra. AddBoundaryInputs cmp h level_files inputs = Some (inputs @ extra) \<and> set extra \<subseteq> set level_files
    \<and> no_boundary_file cmp h level_files (inputs @ extra)"
proof (cases "FindLargestKey cmp h inputs")
  case None
  then have "inputs = []" by (cases inputs) (auto simp: FindLargestKey_def)
  then show ?thesis using None by (auto simp: AddBoundaryInputs_def no_boundary_file_def)
next
  case (Some k)
  have ok': "\<And>f. f \<in> set inputs \<Longrightarrow> meta_ok key cmp (h f)" using assms by blast
  have k: "k \<in> fm_largest ` h ` set inputs" "\<forall>x \<in> fm_largest ` h ` set inputs. InternalKey_Compare cmp x k \<le> 0"
    using Some FindLargestKey_iff [where h = h, OF ok'] by blast+
  have keys: "ikey key x" if "x \<in> fm_largest ` h ` set inputs" for x
    using that meta_okD(2) [OF ok'] by auto
  then have ik: "ikey key k" using k by blast
  obtain extra k' where e: "AddBoundaryInputs_loop cmp h level_files k inputs = Some (inputs @ extra)"
    "set extra \<subseteq> set level_files" "k' \<in> insert k (fm_largest ` h ` set extra)"
    "\<forall>x \<in> insert k (fm_largest ` h ` set extra). InternalKey_Compare cmp x k' \<le> 0"
    "\<forall>f \<in> set level_files. \<not> boundary_file cmp h k' f"
    using AddBoundaryInputs_loop_ends [where h = h, OF ok ik] by blast
  have ok2: "\<And>f. f \<in> set (inputs @ extra) \<Longrightarrow> meta_ok key cmp (h f)" using assms e(2) by auto
  have ik': "ikey key k'" using e(2,3) ik ok meta_okD(2) by fastforce
  have "InternalKey_Compare cmp x k' \<le> 0" if "x \<in> fm_largest ` h ` set inputs" for x
    using ikc_trans [OF keys [OF that] ik ik'] k(2) e(4) that by blast
  then have "FindLargestKey cmp h (inputs @ extra) = Some k'"
    using e(3,4) k(1) by (subst FindLargestKey_iff [where h = h, OF ok2]) auto
  then show ?thesis
    using e Some by (intro exI [of _ extra]) (simp add: AddBoundaryInputs_def no_boundary_file_def)
qed

end

end
