(* ===== verification/Doubles.thy ===== *)
theory Doubles
  imports Prelude Complex_Main
begin

text \<open>
  The \<open>double\<close> arithmetic of the compaction scores and of the size limits of levels. A finite \<open>double\<close> is
  the rational number it stands for, and an operation rounds its exact result to 53 significant bits,
  ties to even. The numbers of the code are between 0 and \<open>2\<^sup>6\<^sup>4\<close>, quotients of them included, so
  neither overflow nor subnormal numbers occur.
\<close>

fun bit_length :: "nat \<Rightarrow> nat" where
  "bit_length n = (if n = 0 then 0 else Suc (bit_length (n div 2)))"

declare bit_length.simps [simp del]

text \<open>The exponent of the last of the 53 bits of a positive number.\<close>

definition last_exponent :: "rat \<Rightarrow> int" where
  "last_exponent x =
     (let (a, b) = quotient_of x;
          e = int (bit_length (nat a)) - int (bit_length (nat b))
      in (if x < power_int 2 e then e - 1 else e) - 52)"

definition round_even :: "rat \<Rightarrow> int" where
  "round_even q =
     (let f = \<lfloor>q\<rfloor>; d = q - of_int f
      in if d < 1 / 2 then f else if d > 1 / 2 then f + 1 else if even f then f else f + 1)"

definition round_double :: "rat \<Rightarrow> rat" where
  "round_double x =
     (if x \<le> 0 then 0
      else let e = last_exponent x in of_int (round_even (x / power_int 2 e)) * power_int 2 e)"

lemma bit_length_bounds: "0 < n \<Longrightarrow> 2 ^ bit_length n \<le> 2 * n \<and> n < 2 ^ bit_length n"
proof (induction n rule: bit_length.induct)
  case (1 n)
  show ?case
  proof (cases "n div 2 = 0")
    case True
    then have "n = 1" using 1 by simp
    then show ?thesis by (simp add: bit_length.simps)
  next
    case False
    then have "2 ^ bit_length (n div 2) \<le> 2 * (n div 2) \<and> n div 2 < 2 ^ bit_length (n div 2)"
      using 1 by simp
    then show ?thesis using 1 by (subst (1 2) bit_length.simps) auto
  qed
qed

lemma bit_length_int:
  assumes "0 < a"
  shows "2 ^ bit_length (nat a) \<le> 2 * a \<and> a < 2 ^ bit_length (nat a)"
proof -
  have "2 ^ bit_length (nat a) \<le> 2 * nat a" "nat a < 2 ^ bit_length (nat a)"
    using bit_length_bounds [of "nat a"] assms by simp_all
  then have "int (2 ^ bit_length (nat a)) \<le> int (2 * nat a)" "int (nat a) < int (2 ^ bit_length (nat a))"
    by (simp_all only: of_nat_le_iff of_nat_less_iff)
  then show ?thesis using assms by simp
qed

text \<open>The 53 bits: the scaled number is between \<open>2\<^sup>5\<^sup>2\<close> and \<open>2\<^sup>5\<^sup>3\<close>.\<close>

lemma last_exponent_bounds:
  assumes "0 < x"
  shows "power_int 2 (last_exponent x + 52) \<le> x" "x < power_int 2 (last_exponent x + 53)"
proof -
  obtain a b where ab: "quotient_of x = (a, b)" by fastforce
  then have b: "0 < b" and x: "x = of_int a / of_int b" using quotient_of_denom_pos quotient_of_div by blast+
  then have a: "0 < a" using assms by (simp add: zero_less_divide_iff)
  let ?i = "bit_length (nat a)" and ?j = "bit_length (nat b)"
  define e where "e = int ?i - int ?j"
  have ia: "2 ^ ?i \<le> 2 * a" "a < 2 ^ ?i" and jb: "2 ^ ?j \<le> 2 * b" "b < 2 ^ ?j"
    using bit_length_int [OF a] bit_length_int [OF b] by blast+
  have ra: "2 ^ ?i \<le> 2 * (of_int a :: rat)" "of_int a < (2 ^ ?i :: rat)"
    and rb: "2 ^ ?j \<le> 2 * (of_int b :: rat)" "of_int b < (2 ^ ?j :: rat)" "0 < (of_int b :: rat)"
    using iffD2 [OF of_int_le_iff [where 'a = rat] ia(1)] iffD2 [OF of_int_less_iff [where 'a = rat] ia(2)]
      iffD2 [OF of_int_le_iff [where 'a = rat] jb(1)] iffD2 [OF of_int_less_iff [where 'a = rat] jb(2)] b
    by simp_all
  have e: "power_int 2 e = (2 ^ ?i / 2 ^ ?j :: rat)" by (simp add: e_def power_int_diff)
  have "x < 2 ^ ?i / of_int b" using ra(2) rb(3) unfolding x by (rule divide_strict_right_mono)
  also have "\<dots> \<le> 2 ^ ?i / (2 ^ ?j / 2)" using rb by (intro divide_left_mono) auto
  finally have up: "x < 2 * power_int 2 e" by (simp add: e mult.commute)
  have "power_int 2 e / 2 = (2 ^ ?i / 2) / (2 ^ ?j :: rat)" by (simp add: e)
  also have "\<dots> \<le> (2 ^ ?i / 2) / of_int b" using rb by (intro divide_left_mono) auto
  also have "\<dots> \<le> x" using ra(1) rb(3) unfolding x by (intro divide_right_mono) auto
  finally have low: "power_int 2 e / 2 \<le> x" .
  have l: "last_exponent x = (if x < power_int 2 e then e - 1 else e) - 52"
    by (simp add: last_exponent_def ab e_def)
  have s: "power_int 2 (1 + n) = 2 * (power_int 2 n :: rat)" "power_int 2 (n - 1) = (power_int 2 n :: rat) / 2" for n
    by (simp_all add: power_int_add power_int_diff)
  show "power_int 2 (last_exponent x + 52) \<le> x" "x < power_int 2 (last_exponent x + 53)"
    using up low s(1) [of e] s(2) [of e] unfolding l by (auto simp: not_less)
qed

lemma round_even_bounds: "of_int k \<le> q \<Longrightarrow> k \<le> round_even q" "q \<le> of_int k \<Longrightarrow> round_even q \<le> k"
proof -
  show "k \<le> round_even q" if "of_int k \<le> q"
    using that le_floor_iff [of k q] by (auto simp: round_even_def Let_def)
  show "round_even q \<le> k" if "q \<le> of_int k"
  proof (cases "q = of_int \<lfloor>q\<rfloor>")
    case True
    then have "round_even q = \<lfloor>q\<rfloor>" by (simp add: round_even_def Let_def)
    then show ?thesis using that True by linarith
  next
    case False
    then have "of_int \<lfloor>q\<rfloor> < q" using of_int_floor_le [of q] by linarith
    then have "of_int \<lfloor>q\<rfloor> < (of_int k :: rat)" using that by linarith
    then show ?thesis by (auto simp: round_even_def Let_def)
  qed
qed

lemma two_powi_nonpos:
  assumes "e \<le> 0"
  shows "power_int 2 e = (1 / 2 ^ nat (- e) :: rat)"
proof -
  obtain n where "e = - int n" using assms by (metis nonpos_int_cases)
  then show ?thesis by (simp add: power_int_minus divide_inverse)
qed

text \<open>Rounding keeps the integers below \<open>2\<^sup>5\<^sup>3\<close>, and the order to them.\<close>

lemma round_double_ge:
  assumes "of_nat m \<le> x" "m \<le> 2 ^ 53"
  shows "of_nat m \<le> round_double x"
proof (cases "x \<le> 0")
  case False
  define e where "e = last_exponent x"
  have b: "power_int 2 (e + 52) \<le> x" "x < power_int 2 (e + 53)"
    using last_exponent_bounds [of x] False by (simp_all add: e_def)
  have r: "round_double x = of_int (round_even (x / power_int 2 e)) * power_int 2 e"
    using False by (simp add: round_double_def Let_def e_def)
  show ?thesis
  proof (cases "e \<le> 0")
    case True
    then have p: "power_int 2 e = (1 / 2 ^ nat (- e) :: rat)" by (rule two_powi_nonpos)
    have "of_int (int m * 2 ^ nat (- e)) \<le> x / power_int 2 e"
      using mult_right_mono [OF assms(1), of "2 ^ nat (- e)"] unfolding p by simp
    then have "int m * 2 ^ nat (- e) \<le> round_even (x / power_int 2 e)" by (rule round_even_bounds(1))
    then have "of_int (int m * 2 ^ nat (- e)) \<le> (of_int (round_even (x / power_int 2 e)) :: rat)" by (simp only: of_int_le_iff)
    then have "of_int (int m * 2 ^ nat (- e)) * power_int 2 e \<le> round_double x" unfolding r by (rule mult_right_mono) simp
    then show ?thesis unfolding p by simp
  next
    case False
    have "of_int (2 ^ 52) \<le> x / power_int 2 e" using b(1) by (simp add: power_int_add field_simps)
    then have "2 ^ 52 \<le> round_even (x / power_int 2 e)" by (rule round_even_bounds(1))
    then have "of_int (2 ^ 52) \<le> (of_int (round_even (x / power_int 2 e)) :: rat)" by (simp only: of_int_le_iff)
    moreover have "power_int 2 1 \<le> (power_int 2 e :: rat)" using False by (intro power_int_increasing) auto
    ultimately have "of_int (2 ^ 52) * power_int 2 1 \<le> round_double x" unfolding r by (intro mult_mono) auto
    moreover have "of_nat m \<le> (of_nat (2 ^ 53) :: rat)" using assms(2) by (simp only: of_nat_le_iff)
    moreover have "of_nat (2 ^ 53) = (of_int (2 ^ 52) * power_int 2 1 :: rat)" by simp
    ultimately show ?thesis by linarith
  qed
qed (use assms in \<open>simp add: round_double_def\<close>)

lemma round_double_le:
  assumes "x \<le> of_nat m" "m < 2 ^ 53"
  shows "round_double x \<le> of_nat m"
proof (cases "x \<le> 0")
  case False
  define e where "e = last_exponent x"
  have b: "power_int 2 (e + 52) \<le> x" using last_exponent_bounds [of x] False by (simp add: e_def)
  have e: "e \<le> 0"
  proof (rule ccontr)
    assume "\<not> e \<le> 0"
    then have "power_int 2 53 \<le> (power_int 2 (e + 52) :: rat)" by (intro power_int_increasing) auto
    moreover have "of_nat m < (of_nat (2 ^ 53) :: rat)" using assms(2) by (simp only: of_nat_less_iff)
    ultimately show False using b assms(1) by simp
  qed
  then have p: "power_int 2 e = (1 / 2 ^ nat (- e) :: rat)" by (rule two_powi_nonpos)
  have "x / power_int 2 e \<le> of_int (int m * 2 ^ nat (- e))"
    using mult_right_mono [OF assms(1), of "2 ^ nat (- e)"] unfolding p by simp
  then have "round_even (x / power_int 2 e) \<le> int m * 2 ^ nat (- e)" by (rule round_even_bounds(2))
  then have "of_int (round_even (x / power_int 2 e)) \<le> (of_int (int m * 2 ^ nat (- e)) :: rat)" by (simp only: of_int_le_iff)
  then have "of_int (round_even (x / power_int 2 e)) * power_int 2 e \<le> (of_int (int m * 2 ^ nat (- e)) * power_int 2 e :: rat)"
    by (rule mult_right_mono) simp
  then have "round_double x \<le> of_int (int m * 2 ^ nat (- e)) * power_int 2 e"
    using False by (simp only: round_double_def Let_def e_def [symmetric] if_False)
  then show ?thesis unfolding p by simp
qed (simp add: round_double_def)

lemma round_double_nat: "m < 2 ^ 53 \<Longrightarrow> round_double (of_nat m) = of_nat m"
  using round_double_ge [of m "of_nat m"] round_double_le [of "of_nat m" m] by simp

lemma round_double_one: "1 \<le> x \<Longrightarrow> 1 \<le> round_double x"
  using round_double_ge [of 1 x] by simp

text \<open>A number that is not too close to 1 stays below it.\<close>

lemma round_double_below_one: "0 \<le> x \<Longrightarrow> x \<le> 1 - 1 / 2 ^ 53 \<Longrightarrow> round_double x < 1"
proof -
  assume x: "0 \<le> x" "x \<le> 1 - 1 / 2 ^ 53"
  show ?thesis
  proof (cases "x = 0")
    case False
    define e where "e = last_exponent x"
    have pos: "0 < x" using False x by simp
    have b: "power_int 2 (e + 52) \<le> x" "x < power_int 2 (e + 53)"
      using last_exponent_bounds [OF pos] by (simp_all add: e_def)
    have e: "e \<le> - 53"
    proof (rule ccontr)
      assume "\<not> e \<le> - 53"
      then have "(power_int 2 0 :: rat) \<le> power_int 2 (e + 52)" by (intro power_int_increasing) auto
      then show False using b(1) x by simp
    qed
    show ?thesis
    proof (cases "e = - 53")
      case True
      have "x / power_int 2 e \<le> of_int (2 ^ 53 - 1)" using x(2) True by (simp add: power_int_minus field_simps)
      then have "round_even (x / power_int 2 e) \<le> 2 ^ 53 - 1" by (rule round_even_bounds(2))
      then have "of_int (round_even (x / power_int 2 e)) \<le> (of_int (2 ^ 53 - 1) :: rat)" by (subst of_int_le_iff)
      then have "of_int (round_even (x / power_int 2 e)) * power_int 2 e \<le> (of_int (2 ^ 53 - 1) :: rat) * power_int 2 e"
        by (rule mult_right_mono) simp
      also have "\<dots> < 1" unfolding True by (simp add: power_int_minus)
      finally show ?thesis using pos by (simp add: round_double_def Let_def e_def)
    next
      case False
      have "x / power_int 2 e \<le> of_int (2 ^ 53)" using b(2) by (simp add: power_int_add field_simps)
      then have "round_even (x / power_int 2 e) \<le> 2 ^ 53" by (rule round_even_bounds(2))
      then have "of_int (round_even (x / power_int 2 e)) \<le> (of_int (2 ^ 53) :: rat)" by (subst of_int_le_iff)
      moreover have "power_int 2 e \<le> (power_int 2 (- 54) :: rat)" using e False by (intro power_int_increasing) auto
      ultimately have "of_int (round_even (x / power_int 2 e)) * power_int 2 e \<le> (of_int (2 ^ 53) :: rat) * power_int 2 (- 54)"
        by (intro mult_mono) auto
      also have "\<dots> < 1" by (simp add: power_int_minus)
      finally show ?thesis using pos by (simp add: round_double_def Let_def e_def)
    qed
  qed (simp add: round_double_def)
qed

text \<open>A quotient of an integer by another one reaches 1 after rounding exactly when it does before.\<close>

lemma quotient_reaches_one:
  assumes "0 < m" "m < 2 ^ 53"
  shows "1 \<le> round_double (round_double (of_nat n) / of_nat m) \<longleftrightarrow> m \<le> n"
proof (cases "m \<le> n")
  case True
  then have "of_nat m \<le> round_double (of_nat n)" using assms(2) by (intro round_double_ge) auto
  then have "1 \<le> round_double (of_nat n) / of_nat m" using assms(1) by simp
  then show ?thesis using True round_double_one by blast
next
  case False
  then have n: "round_double (of_nat n) = of_nat n" using assms(2) by (intro round_double_nat) simp
  have "of_nat (n + 1) \<le> (of_nat m :: rat)" using False by (simp only: of_nat_le_iff)
  then have "of_nat n \<le> (of_nat m - 1 :: rat)" by simp
  then have "of_nat n / of_nat m \<le> (of_nat m - 1 :: rat) / of_nat m" by (rule divide_right_mono) simp
  also have "\<dots> = 1 - 1 / of_nat m" using assms(1) by (simp add: field_simps)
  also have "\<dots> \<le> 1 - 1 / 2 ^ 53"
  proof -
    have "of_nat m \<le> (of_nat (2 ^ 53) :: rat)" using assms(2) by (simp only: of_nat_le_iff)
    then have "1 / 2 ^ 53 \<le> (1 / of_nat m :: rat)" using assms(1) by (intro divide_left_mono) auto
    then show ?thesis by simp
  qed
  finally have "round_double (of_nat n / of_nat m) < 1" by (intro round_double_below_one) auto
  then show ?thesis using False n by simp
qed

end
