(* ===== verification/Env_Files.thy ===== *)
theory Env_Files
  imports Slices "HOL-Library.Sublist"
begin

text \<open>
  The file abstractions of \<open>include/leveldb/env.h\<close> and their POSIX implementations in
  \<open>util/env_posix.cc\<close>. The contracts that the log and table code rely on are the locales
  \<open>sequential_file\<close>, \<open>random_access_file\<close> and \<open>writable_file\<close>; the POSIX classes, with their
  retries and the write buffer, are shown to implement them.

  The system calls are parameters: an open file carries a script of the results the kernel will
  give, and \<open>strerror\<close>. A read of a regular file that succeeds returns all the bytes asked for
  that the file has; a write that succeeds may be short. A script that has run out stands for
  calls that succeed completely, so the retry loops end.
\<close>

subsection \<open>The interfaces\<close>

text \<open>The methods of each class, over the state \<open>'f\<close> of its objects. A \<open>Read\<close> returns the status,
  the bytes that \<open>*result\<close> refers to, and the new state.\<close>

record 'f SequentialFile =
  sf_Read :: "nat \<Rightarrow> 'f \<Rightarrow> Status \<times> Slice \<times> 'f"
  sf_Skip :: "u64 \<Rightarrow> 'f \<Rightarrow> Status \<times> 'f"

record 'f RandomAccessFile =
  rf_Read :: "u64 \<Rightarrow> nat \<Rightarrow> 'f \<Rightarrow> Status \<times> Slice \<times> 'f"

record 'f WritableFile =
  wf_Append :: "Slice \<Rightarrow> 'f \<Rightarrow> Status \<times> 'f"
  wf_Close :: "'f \<Rightarrow> Status \<times> 'f"
  wf_Flush :: "'f \<Rightarrow> Status \<times> 'f"
  wf_Sync :: "'f \<Rightarrow> Status \<times> 'f"

locale sequential_file =
  fixes ops :: "'f SequentialFile" and remaining :: "'f \<Rightarrow> bytes"
  assumes read_ok: "sf_Read ops n f = (s, data, f') \<Longrightarrow> Status_ok s \<Longrightarrow>
      data = take n (remaining f) \<and> remaining f' = drop n (remaining f)"
    and skip_ok: "sf_Skip ops k f = (s, f') \<Longrightarrow> Status_ok s \<Longrightarrow> unat k < 2 ^ 63 \<Longrightarrow>
      remaining f' = drop (unat k) (remaining f)"

locale random_access_file =
  fixes ops :: "'f RandomAccessFile" and contents :: "'f \<Rightarrow> bytes"
  assumes pread_ok: "rf_Read ops off n f = (s, data, f') \<Longrightarrow> Status_ok s \<Longrightarrow>
      unat off + n < 2 ^ 64 \<Longrightarrow> unat off + n \<le> length (contents f) \<Longrightarrow>
      data = take n (drop (unat off) (contents f)) \<and> contents f' = contents f"

text \<open>A reader whose reads succeed, now and later.\<close>

locale reliable_sequential_file = sequential_file +
  fixes reliable :: "'f \<Rightarrow> bool"
  assumes reliable_read: "reliable f \<Longrightarrow> sf_Read ops n f = (s, data, f') \<Longrightarrow> Status_ok s \<and> reliable f'"

text \<open>What was appended is what the file will hold; after an error it holds a prefix of it. The
  header asks for buffering: once everything is flushed, a small append cannot fail.\<close>

locale writable_file =
  fixes ops :: "'f WritableFile" and contents :: "'f \<Rightarrow> bytes" and durable :: "'f \<Rightarrow> bytes"
  assumes append_ok: "wf_Append ops data f = (s, f') \<Longrightarrow> Status_ok s \<Longrightarrow>
      contents f' = contents f @ data"
    and append_error: "wf_Append ops data f = (s, f') \<Longrightarrow> \<not> Status_ok s \<Longrightarrow>
      prefix (contents f') (contents f @ data)"
    and append_buffered: "contents f = durable f \<Longrightarrow> length data \<le> 4096 \<Longrightarrow>
      Status_ok (fst (wf_Append ops data f))"
    and flush_ok: "wf_Flush ops f = (s, f') \<Longrightarrow> Status_ok s \<Longrightarrow>
      contents f' = contents f \<and> durable f' = contents f"
    and flush_error: "wf_Flush ops f = (s, f') \<Longrightarrow> \<not> Status_ok s \<Longrightarrow>
      prefix (contents f') (contents f)"
    and sync_ok: "wf_Sync ops f = (s, f') \<Longrightarrow> Status_ok s \<Longrightarrow>
      contents f' = contents f \<and> durable f' = contents f"
    and close_ok: "wf_Close ops f = (s, f') \<Longrightarrow> Status_ok s \<Longrightarrow>
      contents f' = contents f \<and> durable f' = contents f"

subsection \<open>System calls\<close>

datatype sys_result = Sys_ok nat | Sys_err int

abbreviation (input) ENOENT :: int where "ENOENT \<equiv> 2"
abbreviation (input) EINTR :: int where "EINTR \<equiv> 4"
abbreviation (input) EINVAL :: int where "EINVAL \<equiv> 22"
abbreviation (input) EFBIG :: int where "EFBIG \<equiv> 27"

text \<open>The largest size of a file: sizes and positions are of the 64-bit signed type \<open>off_t\<close>.\<close>

definition off_max :: nat where "off_max = 2 ^ 63 - 1"

record OSFile =
  os_data :: bytes
  os_pos :: nat
  os_script :: "sys_result list"
  os_strerror :: "int \<Rightarrow> bytes"

definition PosixError :: "(int \<Rightarrow> bytes) \<Rightarrow> bytes \<Rightarrow> int \<Rightarrow> Status" where
  "PosixError strerror ctx error_number =
     (if error_number = ENOENT then Status_NotFound ctx (strerror error_number)
      else Status_IOError ctx (strerror error_number))"

lemma PosixError_not_ok [simp]: "\<not> Status_ok (PosixError se c e)"
  by (simp add: PosixError_def Status_ok_def Status_NotFound_def Status_IOError_def Status_make_def Let_def)

lemma Status_ok_OK [simp]: "Status_ok Status_OK"
  by (simp add: Status_ok_def Status_OK_def)

definition take_script :: "OSFile \<Rightarrow> sys_result option \<times> OSFile" where
  "take_script f = (case os_script f of [] \<Rightarrow> (None, f) | r # rs \<Rightarrow> (Some r, f\<lparr>os_script := rs\<rparr>))"

text \<open>Calls with a single result: success or an error number.\<close>

definition sys_call :: "OSFile \<Rightarrow> int option \<times> OSFile" where
  "sys_call f = (case take_script f of (Some (Sys_err e), f) \<Rightarrow> (Some e, f) | (_, f) \<Rightarrow> (None, f))"

lemma sys_call_frame:
  "sys_call f = (r, f') \<Longrightarrow> os_data f' = os_data f \<and> os_pos f' = os_pos f \<and> os_strerror f' = os_strerror f"
  by (auto simp: sys_call_def take_script_def split: list.splits option.splits sys_result.splits)

subsection \<open>Sequential files\<close>

record PosixSequentialFile =
  sq_os :: OSFile
  sq_filename :: bytes

text \<open>The retry loop of \<open>Read\<close>, over the rest of the script.\<close>

fun PosixSequentialFile_Read_loop :: "nat \<Rightarrow> bytes \<Rightarrow> OSFile \<Rightarrow> sys_result list \<Rightarrow> Status \<times> Slice \<times> OSFile" where
  "PosixSequentialFile_Read_loop n filename f (Sys_err e # rs) =
     (if e = EINTR then PosixSequentialFile_Read_loop n filename f rs
      else (PosixError (os_strerror f) filename e, [], f\<lparr>os_script := rs\<rparr>))"
| "PosixSequentialFile_Read_loop n filename f rs =
     (let data = take n (drop (os_pos f) (os_data f))
      in (Status_OK, data, f\<lparr>os_pos := os_pos f + length data, os_script := tl rs\<rparr>))"

definition PosixSequentialFile_Read :: "nat \<Rightarrow> PosixSequentialFile \<Rightarrow> Status \<times> Slice \<times> PosixSequentialFile" where
  "PosixSequentialFile_Read n f =
     (case PosixSequentialFile_Read_loop n (sq_filename f) (sq_os f) (os_script (sq_os f)) of
        (s, data, os) \<Rightarrow> (s, data, f\<lparr>sq_os := os\<rparr>))"

text \<open>\<open>lseek(fd_, n, SEEK_CUR)\<close>: the argument is converted to the signed type \<open>off_t\<close>, and a position before the
  start of the file is an error.\<close>

definition PosixSequentialFile_Skip :: "u64 \<Rightarrow> PosixSequentialFile \<Rightarrow> Status \<times> PosixSequentialFile" where
  "PosixSequentialFile_Skip n f =
     (case sys_call (sq_os f) of
        (Some e, os) \<Rightarrow> (PosixError (os_strerror os) (sq_filename f) e, f\<lparr>sq_os := os\<rparr>)
      | (None, os) \<Rightarrow>
          (let position = int (os_pos os) + sint n
           in if position < 0 then (PosixError (os_strerror os) (sq_filename f) EINVAL, f\<lparr>sq_os := os\<rparr>)
              else (Status_OK, f\<lparr>sq_os := os\<lparr>os_pos := nat position\<rparr>\<rparr>)))"

definition PosixSequentialFile_ops :: "PosixSequentialFile SequentialFile" where
  "PosixSequentialFile_ops =
     \<lparr>sf_Read = PosixSequentialFile_Read, sf_Skip = PosixSequentialFile_Skip\<rparr>"

lemma sint_of_small: "unat (k :: u64) < 2 ^ 63 \<Longrightarrow> sint k = int (unat k)"
proof -
  assume "unat k < 2 ^ 63"
  then have "int (unat k) < int (2 ^ 63)" by (rule of_nat_less_iff [THEN iffD2])
  then have u: "uint k < 2 ^ 63" by simp
  have "sint k = signed_take_bit 63 (uint k)" unfolding sint_uint by simp
  also have "\<dots> = uint k"
  proof (rule signed_take_bit_int_eq_self)
    show "- (2 ^ 63) \<le> uint k" by (rule order_trans [of _ "0 :: int"]) simp_all
  qed (rule u)
  finally show ?thesis by simp
qed

definition sq_remaining :: "PosixSequentialFile \<Rightarrow> bytes" where
  "sq_remaining f = drop (os_pos (sq_os f)) (os_data (sq_os f))"

lemma Read_loop_ok:
  "PosixSequentialFile_Read_loop n fname f rs = (s, data, f') \<Longrightarrow> Status_ok s \<Longrightarrow>
   data = take n (drop (os_pos f) (os_data f)) \<and> os_pos f' = os_pos f + length data
   \<and> os_data f' = os_data f"
  by (induction n fname f rs rule: PosixSequentialFile_Read_loop.induct)
    (auto simp: Let_def split: if_splits)

interpretation posix_seq: sequential_file PosixSequentialFile_ops sq_remaining
proof
  fix n f s data f'
  assume "sf_Read PosixSequentialFile_ops n f = (s, data, f')" "Status_ok s"
  then obtain os where os: "PosixSequentialFile_Read_loop n (sq_filename f) (sq_os f) (os_script (sq_os f))
      = (s, data, os)" "f' = f\<lparr>sq_os := os\<rparr>"
    by (auto simp: PosixSequentialFile_ops_def PosixSequentialFile_Read_def split: prod.splits)
  have "os_pos os = os_pos (sq_os f) + length data" "os_data os = os_data (sq_os f)"
    "data = take n (drop (os_pos (sq_os f)) (os_data (sq_os f)))"
    using Read_loop_ok [OF os(1) \<open>Status_ok s\<close>] by auto
  then show "data = take n (sq_remaining f) \<and> sq_remaining f' = drop n (sq_remaining f)"
    using os(2) by (cases "n \<le> length (os_data (sq_os f)) - os_pos (sq_os f)")
      (simp_all add: sq_remaining_def add.commute min_def)
next
  fix k :: u64 and f s f'
  assume s: "sf_Skip PosixSequentialFile_ops k f = (s, f')" "Status_ok s" and k: "unat k < 2 ^ 63"
  have "sint k = int (unat k)" using k by (intro sint_of_small) simp
  then show "sq_remaining f' = drop (unat k) (sq_remaining f)"
    using s by (auto simp: PosixSequentialFile_ops_def PosixSequentialFile_Skip_def sq_remaining_def Let_def
        add.commute nat_add_distrib split: prod.splits option.splits if_splits dest!: sys_call_frame)
qed

definition sq_reliable :: "PosixSequentialFile \<Rightarrow> bool" where
  "sq_reliable f = list_all (\<lambda>r. \<forall>e. r = Sys_err e \<longrightarrow> e = EINTR) (os_script (sq_os f))"

lemma Read_loop_reliable:
  "PosixSequentialFile_Read_loop n fname f rs = (s, data, f') \<Longrightarrow>
   list_all (\<lambda>r. \<forall>e. r = Sys_err e \<longrightarrow> e = EINTR) rs \<Longrightarrow>
   Status_ok s \<and> list_all (\<lambda>r. \<forall>e. r = Sys_err e \<longrightarrow> e = EINTR) (os_script f')"
  by (induction n fname f rs rule: PosixSequentialFile_Read_loop.induct)
    (auto simp: Let_def)

interpretation posix_reliable: reliable_sequential_file PosixSequentialFile_ops sq_remaining sq_reliable
proof
  fix f n s data f'
  assume "sq_reliable f" "sf_Read PosixSequentialFile_ops n f = (s, data, f')"
  then show "Status_ok s \<and> sq_reliable f'"
    by (auto simp: PosixSequentialFile_ops_def PosixSequentialFile_Read_def sq_reliable_def
        split: prod.splits dest!: Read_loop_reliable)
qed

subsection \<open>Random access files\<close>

text \<open>The number of resources that may still be acquired.\<close>

type_synonym Limiter = int

definition Limiter_Acquire :: "Limiter \<Rightarrow> bool \<times> Limiter" where
  "Limiter_Acquire acquires_allowed =
     (let old_acquires_allowed = acquires_allowed; acquires_allowed = acquires_allowed - 1
      in if old_acquires_allowed > 0 then (True, acquires_allowed)
         else (False, acquires_allowed + 1))"

definition Limiter_Release :: "Limiter \<Rightarrow> Limiter" where
  "Limiter_Release acquires_allowed = acquires_allowed + 1"

record PosixRandomAccessFile =
  ra_has_permanent_fd :: bool
  ra_os :: OSFile
  ra_filename :: bytes

definition new_PosixRandomAccessFile :: "bytes \<Rightarrow> OSFile \<Rightarrow> Limiter \<Rightarrow> PosixRandomAccessFile \<times> Limiter" where
  "new_PosixRandomAccessFile filename fd fd_limiter =
     (case Limiter_Acquire fd_limiter of
        (permanent, fd_limiter) \<Rightarrow>
          (\<lparr>ra_has_permanent_fd = permanent, ra_os = fd, ra_filename = filename\<rparr>, fd_limiter))"

definition delete_PosixRandomAccessFile :: "PosixRandomAccessFile \<Rightarrow> Limiter \<Rightarrow> Limiter" where
  "delete_PosixRandomAccessFile f fd_limiter =
     (if ra_has_permanent_fd f then Limiter_Release fd_limiter else fd_limiter)"

text \<open>Without a permanent descriptor the file is opened for the read, which may fail. The offset is converted
  to the signed type \<open>off_t\<close>.\<close>

definition PosixRandomAccessFile_Read :: "u64 \<Rightarrow> nat \<Rightarrow> PosixRandomAccessFile \<Rightarrow> Status \<times> Slice \<times> PosixRandomAccessFile" where
  "PosixRandomAccessFile_Read off n f =
     (case (if ra_has_permanent_fd f then (None, ra_os f) else sys_call (ra_os f)) of
        (Some e, os) \<Rightarrow> (PosixError (os_strerror os) (ra_filename f) e, [], f\<lparr>ra_os := os\<rparr>)
      | (None, os) \<Rightarrow>
          (case sys_call os of
             (Some e, os) \<Rightarrow> (PosixError (os_strerror os) (ra_filename f) e, [], f\<lparr>ra_os := os\<rparr>)
           | (None, os) \<Rightarrow>
               if sint off < 0 then (PosixError (os_strerror os) (ra_filename f) EINVAL, [], f\<lparr>ra_os := os\<rparr>)
               else (Status_OK, take n (drop (unat off) (os_data os)), f\<lparr>ra_os := os\<rparr>)))"

definition PosixRandomAccessFile_ops :: "PosixRandomAccessFile RandomAccessFile" where
  "PosixRandomAccessFile_ops = \<lparr>rf_Read = PosixRandomAccessFile_Read\<rparr>"

text \<open>\<open>mm_beyond\<close> is the memory after the mapped region, by the distance from \<open>mmap_base_\<close>.\<close>

record PosixMmapReadableFile =
  mm_region :: bytes
  mm_beyond :: "u64 \<Rightarrow> byte"
  mm_filename :: bytes
  mm_strerror :: "int \<Rightarrow> bytes"

definition mmap_byte :: "PosixMmapReadableFile \<Rightarrow> u64 \<Rightarrow> byte" where
  "mmap_byte f a = (if unat a < length (mm_region f) then mm_region f ! unat a else mm_beyond f a)"

text \<open>\<open>offset + n\<close> is computed at 64 bits; where it wraps around, the slice is not in the region.\<close>

definition PosixMmapReadableFile_Read :: "u64 \<Rightarrow> nat \<Rightarrow> PosixMmapReadableFile \<Rightarrow> Status \<times> Slice \<times> PosixMmapReadableFile" where
  "PosixMmapReadableFile_Read off n f =
     (if off + word_of_nat n > word_of_nat (length (mm_region f))
      then (PosixError (mm_strerror f) (mm_filename f) EINVAL, [], f)
      else (Status_OK, map (\<lambda>i. mmap_byte f (off + word_of_nat i)) [0..<n], f))"

definition PosixMmapReadableFile_ops :: "PosixMmapReadableFile RandomAccessFile" where
  "PosixMmapReadableFile_ops = \<lparr>rf_Read = PosixMmapReadableFile_Read\<rparr>"

interpretation posix_random: random_access_file PosixRandomAccessFile_ops "\<lambda>f. os_data (ra_os f)"
proof
  fix off n f s data f'
  assume "rf_Read PosixRandomAccessFile_ops off n f = (s, data, f')" "Status_ok s"
  then show "data = take n (drop (unat off) (os_data (ra_os f))) \<and> os_data (ra_os f') = os_data (ra_os f)"
    by (auto simp: PosixRandomAccessFile_ops_def PosixRandomAccessFile_Read_def
        split: prod.splits option.splits if_splits dest!: sys_call_frame)
qed

lemma mmap_bytes:
  assumes "unat off + n < 2 ^ 64" "unat off + n \<le> length (mm_region f)"
  shows "map (\<lambda>i. mmap_byte f (off + word_of_nat i)) [0..<n] = take n (drop (unat off) (mm_region f))"
proof (intro nth_equalityI)
  fix i assume "i < length (map (\<lambda>i. mmap_byte f (off + word_of_nat i)) [0..<n])"
  then have i: "i < n" by simp
  then have "unat (word_of_nat (unat off + i) :: u64) = unat off + i" using assms by (intro unat_of_nat_u64) simp
  then have "unat (off + word_of_nat i) = unat off + i" by simp
  then show "map (\<lambda>i. mmap_byte f (off + word_of_nat i)) [0..<n] ! i = take n (drop (unat off) (mm_region f)) ! i"
    using i assms(2) by (simp add: mmap_byte_def)
qed (use assms in simp)

interpretation posix_mmap: random_access_file PosixMmapReadableFile_ops mm_region
  by unfold_locales
    (auto simp: PosixMmapReadableFile_ops_def PosixMmapReadableFile_Read_def mmap_bytes split: if_splits)

subsection \<open>Writable files\<close>

definition kWritableFileBufferSize :: nat where "kWritableFileBufferSize = 65536"

text \<open>\<open>pw_buf\<close> is \<open>buf_[0, pos_ - 1]\<close>.\<close>

record PosixWritableFile =
  pw_buf :: bytes
  pw_fd :: int
  pw_is_manifest :: bool
  pw_filename :: bytes
  pw_dirname :: bytes
  pw_os :: OSFile

text \<open>\<open>rfind\<close>: the position of the last occurrence.\<close>

fun rfind :: "byte \<Rightarrow> bytes \<Rightarrow> nat option" where
  "rfind c [] = None"
| "rfind c (x # xs) =
     (case rfind c xs of Some i \<Rightarrow> Some (Suc i) | None \<Rightarrow> if x = c then Some 0 else None)"

definition Dirname :: "bytes \<Rightarrow> bytes" where
  "Dirname filename =
     (case rfind 47 filename of None \<Rightarrow> lit ''.'' | Some separator_pos \<Rightarrow> take separator_pos filename)"

definition Basename :: "bytes \<Rightarrow> Slice" where
  "Basename filename =
     (case rfind 47 filename of None \<Rightarrow> filename | Some separator_pos \<Rightarrow> drop (separator_pos + 1) filename)"

definition IsManifest :: "bytes \<Rightarrow> bool" where
  "IsManifest filename \<longleftrightarrow> Slice_starts_with (Basename filename) (lit ''MANIFEST'')"

definition new_PosixWritableFile :: "bytes \<Rightarrow> int \<Rightarrow> OSFile \<Rightarrow> PosixWritableFile" where
  "new_PosixWritableFile filename fd os =
     \<lparr>pw_buf = [], pw_fd = fd, pw_is_manifest = IsManifest filename, pw_filename = filename,
      pw_dirname = Dirname filename, pw_os = os\<rparr>"

text \<open>The loop of \<open>WriteUnbuffered\<close>, over the rest of the script.\<close>

text \<open>A write beyond the largest size is cut there, and one that starts there fails.\<close>

fun WriteUnbuffered_loop :: "bytes \<Rightarrow> bytes \<Rightarrow> OSFile \<Rightarrow> sys_result list \<Rightarrow> Status \<times> OSFile" where
  "WriteUnbuffered_loop filename [] os rs = (Status_OK, os\<lparr>os_script := rs\<rparr>)"
| "WriteUnbuffered_loop filename data os [] =
     (let room = off_max - length (os_data os); os = os\<lparr>os_data := os_data os @ take room data, os_script := []\<rparr>
      in (if length data \<le> room then Status_OK else PosixError (os_strerror os) filename EFBIG, os))"
| "WriteUnbuffered_loop filename data os (Sys_err e # rs) =
     (if e = EINTR then WriteUnbuffered_loop filename data os rs
      else (PosixError (os_strerror os) filename e, os\<lparr>os_script := rs\<rparr>))"
| "WriteUnbuffered_loop filename data os (Sys_ok write_result # rs) =
     (if length (os_data os) \<ge> off_max then (PosixError (os_strerror os) filename EFBIG, os\<lparr>os_script := rs\<rparr>)
      else
        let write_result = min write_result (off_max - length (os_data os))
        in WriteUnbuffered_loop filename (drop write_result data)
             (os\<lparr>os_data := os_data os @ take write_result data\<rparr>) rs)"

definition WriteUnbuffered :: "bytes \<Rightarrow> PosixWritableFile \<Rightarrow> Status \<times> PosixWritableFile" where
  "WriteUnbuffered data f =
     (case WriteUnbuffered_loop (pw_filename f) data (pw_os f) (os_script (pw_os f)) of
        (s, os) \<Rightarrow> (s, f\<lparr>pw_os := os\<rparr>))"

definition FlushBuffer :: "PosixWritableFile \<Rightarrow> Status \<times> PosixWritableFile" where
  "FlushBuffer f = (case WriteUnbuffered (pw_buf f) f of (status, f) \<Rightarrow> (status, f\<lparr>pw_buf := []\<rparr>))"

definition PosixWritableFile_Append :: "Slice \<Rightarrow> PosixWritableFile \<Rightarrow> Status \<times> PosixWritableFile" where
  "PosixWritableFile_Append data f =
     (let copy_size = min (length data) (kWritableFileBufferSize - length (pw_buf f));
          f = f\<lparr>pw_buf := pw_buf f @ take copy_size data\<rparr>;
          write_data = drop copy_size data
      in if write_data = [] then (Status_OK, f)
         else (case FlushBuffer f of
                 (status, f) \<Rightarrow>
                   if \<not> Status_ok status then (status, f)
                   else if length write_data < kWritableFileBufferSize
                   then (Status_OK, f\<lparr>pw_buf := write_data\<rparr>)
                   else WriteUnbuffered write_data f))"

definition PosixWritableFile_Close :: "PosixWritableFile \<Rightarrow> Status \<times> PosixWritableFile" where
  "PosixWritableFile_Close f =
     (case FlushBuffer f of
        (status, f) \<Rightarrow>
          (case sys_call (pw_os f) of
             (r, os) \<Rightarrow>
               (case r of
                  Some e \<Rightarrow> if Status_ok status then PosixError (os_strerror os) (pw_filename f) e else status
                | None \<Rightarrow> status,
                f\<lparr>pw_os := os, pw_fd := -1\<rparr>)))"

definition PosixWritableFile_Flush :: "PosixWritableFile \<Rightarrow> Status \<times> PosixWritableFile" where
  "PosixWritableFile_Flush f = FlushBuffer f"

text \<open>\<open>SyncFd\<close> of a build without \<open>HAVE_FULLFSYNC\<close>: one call.\<close>

definition SyncFd :: "bytes \<Rightarrow> OSFile \<Rightarrow> Status \<times> OSFile" where
  "SyncFd fd_path os =
     (case sys_call os of
        (Some e, os) \<Rightarrow> (PosixError (os_strerror os) fd_path e, os)
      | (None, os) \<Rightarrow> (Status_OK, os))"

definition SyncDirIfManifest :: "PosixWritableFile \<Rightarrow> Status \<times> PosixWritableFile" where
  "SyncDirIfManifest f =
     (if \<not> pw_is_manifest f then (Status_OK, f)
      else (case sys_call (pw_os f) of
              (Some e, os) \<Rightarrow> (PosixError (os_strerror os) (pw_dirname f) e, f\<lparr>pw_os := os\<rparr>)
            | (None, os) \<Rightarrow>
                (case SyncFd (pw_dirname f) os of
                   (status, os) \<Rightarrow> (status, f\<lparr>pw_os := snd (sys_call os)\<rparr>))))"

definition PosixWritableFile_Sync :: "PosixWritableFile \<Rightarrow> Status \<times> PosixWritableFile" where
  "PosixWritableFile_Sync f =
     (case SyncDirIfManifest f of
        (status, f) \<Rightarrow>
          if \<not> Status_ok status then (status, f)
          else (case FlushBuffer f of
                  (status, f) \<Rightarrow>
                    if \<not> Status_ok status then (status, f)
                    else (case SyncFd (pw_filename f) (pw_os f) of
                            (status, os) \<Rightarrow> (status, f\<lparr>pw_os := os\<rparr>))))"

definition PosixWritableFile_ops :: "PosixWritableFile WritableFile" where
  "PosixWritableFile_ops =
     \<lparr>wf_Append = PosixWritableFile_Append, wf_Close = PosixWritableFile_Close,
      wf_Flush = PosixWritableFile_Flush, wf_Sync = PosixWritableFile_Sync\<rparr>"

definition pw_contents :: "PosixWritableFile \<Rightarrow> bytes" where
  "pw_contents f = os_data (pw_os f) @ pw_buf f"

definition pw_durable :: "PosixWritableFile \<Rightarrow> bytes" where
  "pw_durable f = os_data (pw_os f)"

text \<open>However the kernel splits and interrupts the writes, a prefix of the data reaches the file,
  and all of it when the status is OK.\<close>

lemma WriteUnbuffered_loop_spec:
  "WriteUnbuffered_loop fname data os rs = (s, os') \<Longrightarrow>
   \<exists>w. prefix w data \<and> os_data os' = os_data os @ w \<and> (Status_ok s \<longrightarrow> w = data)"
proof (induction fname data os rs rule: WriteUnbuffered_loop.induct)
  case (2 fname v va os)
  then show ?case by (fastforce simp: Let_def take_is_prefix split: if_splits)
next
  case (4 fname v va os n rs)
  show ?case
  proof (cases "length (os_data os) \<ge> off_max")
    case True
    then show ?thesis using "4.prems" by auto
  next
    case False
    define m where "m = min n (off_max - length (os_data os))"
    have "WriteUnbuffered_loop fname (drop m (v # va)) (os\<lparr>os_data := os_data os @ take m (v # va)\<rparr>) rs = (s, os')"
      using "4.prems" False by (simp add: m_def Let_def)
    from "4.IH" [OF False m_def this] obtain w where w: "prefix w (drop m (v # va))"
      "os_data os' = (os_data os @ take m (v # va)) @ w" "Status_ok s \<longrightarrow> w = drop m (v # va)"
      by auto
    then have "prefix (take m (v # va) @ w) (take m (v # va) @ drop m (v # va))"
      by (simp only: same_prefix_prefix)
    then show ?thesis
      using w by (intro exI [of _ "take m (v # va) @ w"]) (metis append.assoc append_take_drop_id)
  qed
qed (auto split: if_splits)

lemma WriteUnbuffered_loop_end:
  assumes "length (os_data os) + length data \<le> off_max"
  shows "WriteUnbuffered_loop fname data os [] = (Status_OK, os\<lparr>os_data := os_data os @ data, os_script := []\<rparr>)"
proof (cases data)
  case (Cons v va)
  have "length data \<le> off_max - length (os_data os)" using assms by simp
  then show ?thesis unfolding Cons by (simp add: Let_def del: length_Cons)
qed simp

lemma WriteUnbuffered_loop_err:
  "data \<noteq> [] \<Longrightarrow> WriteUnbuffered_loop fname data os (Sys_err e # rs) =
     (if e = EINTR then WriteUnbuffered_loop fname data os rs
      else (PosixError (os_strerror os) fname e, os\<lparr>os_script := rs\<rparr>))"
  by (cases data) simp_all

lemma WriteUnbuffered_loop_ok:
  assumes "data \<noteq> []" "length (os_data os) + n \<le> off_max" "length (os_data os) < off_max"
  shows "WriteUnbuffered_loop fname data os (Sys_ok n # rs) =
     WriteUnbuffered_loop fname (drop n data) (os\<lparr>os_data := os_data os @ take n data\<rparr>) rs"
proof -
  have "min n (off_max - length (os_data os)) = n" "\<not> off_max \<le> length (os_data os)" using assms(2,3) by simp_all
  then show ?thesis using assms(1) by (cases data) (simp_all add: Let_def)
qed

lemmas WriteUnbuffered_loop_cases = WriteUnbuffered_loop_end WriteUnbuffered_loop_err WriteUnbuffered_loop_ok

lemma WriteUnbuffered_loop_size:
  "WriteUnbuffered_loop fname data os rs = (s, os') \<Longrightarrow> length (os_data os) \<le> off_max \<Longrightarrow> length (os_data os') \<le> off_max"
proof (induction fname data os rs rule: WriteUnbuffered_loop.induct)
  case (4 fname v va os n rs)
  show ?case
  proof (cases "length (os_data os) \<ge> off_max")
    case True
    then show ?thesis using "4.prems" by auto
  next
    case False
    define m where "m = min n (off_max - length (os_data os))"
    have "WriteUnbuffered_loop fname (drop m (v # va)) (os\<lparr>os_data := os_data os @ take m (v # va)\<rparr>) rs = (s, os')"
      using "4.prems"(1) False by (simp add: m_def Let_def)
    then show ?thesis using "4.prems"(2) by (intro "4.IH" [OF False m_def]) (auto simp: m_def)
  qed
qed (auto simp: Let_def split: if_splits)

lemma WriteUnbuffered_spec:
  "WriteUnbuffered data f = (s, f') \<Longrightarrow> pw_buf f' = pw_buf f \<and>
   (\<exists>w. prefix w data \<and> pw_durable f' = pw_durable f @ w \<and> (Status_ok s \<longrightarrow> w = data))"
  using WriteUnbuffered_loop_spec by (fastforce simp: WriteUnbuffered_def pw_durable_def split: prod.splits)

lemma FlushBuffer_spec:
  assumes "FlushBuffer f = (s, f')"
  shows "pw_buf f' = [] \<and> pw_contents f' = pw_durable f' \<and> prefix (pw_contents f') (pw_contents f)
    \<and> (Status_ok s \<longrightarrow> pw_contents f' = pw_contents f)"
proof -
  obtain g where g: "WriteUnbuffered (pw_buf f) f = (s, g)" "f' = g\<lparr>pw_buf := []\<rparr>"
    using assms by (auto simp: FlushBuffer_def split: prod.splits)
  then show ?thesis
    using WriteUnbuffered_spec [OF g(1)] by (auto simp: pw_contents_def pw_durable_def)
qed

lemma SyncFd_frame: "SyncFd p os = (s, os') \<Longrightarrow> os_data os' = os_data os"
  by (auto simp: SyncFd_def split: prod.splits option.splits dest!: sys_call_frame)

lemma sys_call_data: "os_data (snd (sys_call os)) = os_data os"
  using sys_call_frame [of os] by (cases "sys_call os") auto

lemma SyncDirIfManifest_frame:
  "SyncDirIfManifest f = (s, f') \<Longrightarrow> pw_contents f' = pw_contents f \<and> pw_durable f' = pw_durable f"
  by (auto simp: SyncDirIfManifest_def pw_contents_def pw_durable_def sys_call_data
      split: prod.splits option.splits if_splits dest!: sys_call_frame SyncFd_frame)

lemma Append_spec:
  assumes "PosixWritableFile_Append data f = (s, f')"
  shows "prefix (pw_contents f') (pw_contents f @ data)
    \<and> (Status_ok s \<longrightarrow> pw_contents f' = pw_contents f @ data)"
proof -
  define c where "c = min (length data) (kWritableFileBufferSize - length (pw_buf f))"
  define f1 where "f1 = f\<lparr>pw_buf := pw_buf f @ take c data\<rparr>"
  obtain s2 f2 where fl: "FlushBuffer f1 = (s2, f2)" by fastforce
  have all: "pw_contents f @ data = pw_contents f1 @ drop c data"
    by (simp add: f1_def pw_contents_def)
  have f2: "pw_buf f2 = []" "pw_contents f2 = pw_durable f2" "prefix (pw_contents f2) (pw_contents f1)"
    "Status_ok s2 \<longrightarrow> pw_contents f2 = pw_contents f1"
    using FlushBuffer_spec [OF fl] by auto
  have "PosixWritableFile_Append data f =
    (if drop c data = [] then (Status_OK, f1)
     else if \<not> Status_ok s2 then (s2, f2)
     else if length (drop c data) < kWritableFileBufferSize then (Status_OK, f2\<lparr>pw_buf := drop c data\<rparr>)
     else WriteUnbuffered (drop c data) f2)"
    unfolding PosixWritableFile_Append_def Let_def c_def [symmetric] f1_def [symmetric] fl by simp
  then consider "drop c data = []" "f' = f1"
    | "\<not> Status_ok s2" "s = s2" "f' = f2"
    | "Status_ok s2" "f' = f2\<lparr>pw_buf := drop c data\<rparr>"
    | "Status_ok s2" "WriteUnbuffered (drop c data) f2 = (s, f')"
    using assms by (auto split: if_splits)
  then show ?thesis
  proof cases
    case 1
    then show ?thesis by (simp add: all)
  next
    case 2
    then show ?thesis using f2(3) by (simp add: all prefix_prefix)
  next
    case 3
    then have "pw_contents f' = pw_contents f2 @ drop c data"
      using f2 by (simp add: pw_contents_def pw_durable_def)
    then show ?thesis using 3 f2 all by simp
  next
    case 4
    then obtain w where "prefix w (drop c data)" "pw_contents f' = pw_contents f2 @ w"
      "Status_ok s \<longrightarrow> w = drop c data"
      using f2 WriteUnbuffered_spec [OF 4(2)] by (auto simp: pw_contents_def pw_durable_def)
    then show ?thesis using 4 f2 all by simp
  qed
qed

interpretation posix_writable: writable_file PosixWritableFile_ops pw_contents pw_durable
proof
  fix data :: Slice and f
  assume "pw_contents f = pw_durable f" "length data \<le> 4096"
  then show "Status_ok (fst (wf_Append PosixWritableFile_ops data f))"
    by (simp add: PosixWritableFile_ops_def PosixWritableFile_Append_def Let_def
        pw_contents_def pw_durable_def kWritableFileBufferSize_def)
next
  fix data f s f'
  assume "wf_Append PosixWritableFile_ops data f = (s, f')"
  then have a: "PosixWritableFile_Append data f = (s, f')" by (simp add: PosixWritableFile_ops_def)
  show "Status_ok s \<Longrightarrow> pw_contents f' = pw_contents f @ data"
    "\<not> Status_ok s \<Longrightarrow> prefix (pw_contents f') (pw_contents f @ data)"
    using Append_spec [OF a] by auto
next
  fix f s f'
  assume "wf_Flush PosixWritableFile_ops f = (s, f')"
  then have a: "FlushBuffer f = (s, f')"
    by (simp add: PosixWritableFile_ops_def PosixWritableFile_Flush_def)
  show "Status_ok s \<Longrightarrow> pw_contents f' = pw_contents f \<and> pw_durable f' = pw_contents f"
    "\<not> Status_ok s \<Longrightarrow> prefix (pw_contents f') (pw_contents f)"
    using FlushBuffer_spec [OF a] by auto
next
  fix f s f'
  assume "wf_Sync PosixWritableFile_ops f = (s, f')" "Status_ok s"
  then show "pw_contents f' = pw_contents f \<and> pw_durable f' = pw_contents f"
    by (auto simp: PosixWritableFile_ops_def PosixWritableFile_Sync_def pw_contents_def pw_durable_def
        split: prod.splits if_splits dest!: SyncFd_frame FlushBuffer_spec SyncDirIfManifest_frame)
next
  fix f s f'
  assume c: "wf_Close PosixWritableFile_ops f = (s, f')" "Status_ok s"
  obtain s1 f1 where fl: "FlushBuffer f = (s1, f1)" by fastforce
  have "Status_ok s1"
    using c fl by (auto simp: PosixWritableFile_ops_def PosixWritableFile_Close_def
        split: prod.splits option.splits if_splits)
  moreover have "pw_buf f' = pw_buf f1" "os_data (pw_os f') = os_data (pw_os f1)"
    using c fl by (auto simp: PosixWritableFile_ops_def PosixWritableFile_Close_def
        split: prod.splits option.splits if_splits dest!: sys_call_frame)
  ultimately show "pw_contents f' = pw_contents f \<and> pw_durable f' = pw_contents f"
    using FlushBuffer_spec [OF fl] by (auto simp: pw_contents_def pw_durable_def)
qed

text \<open>The file never exceeds its largest size and the buffer never its own, so what a program sees stays below the
  range of 64-bit offsets.\<close>

definition pw_bounded :: "PosixWritableFile \<Rightarrow> bool" where
  "pw_bounded f \<longleftrightarrow> length (os_data (pw_os f)) \<le> off_max \<and> length (pw_buf f) \<le> kWritableFileBufferSize"

lemma WriteUnbuffered_bounded: "WriteUnbuffered data f = (s, f') \<Longrightarrow> pw_bounded f \<Longrightarrow> pw_bounded f'"
  using WriteUnbuffered_loop_size by (fastforce simp: WriteUnbuffered_def pw_bounded_def split: prod.splits)

lemma FlushBuffer_bounded: "FlushBuffer f = (s, f') \<Longrightarrow> pw_bounded f \<Longrightarrow> pw_bounded f'"
proof -
  assume f: "FlushBuffer f = (s, f')" "pw_bounded f"
  obtain g where g: "WriteUnbuffered (pw_buf f) f = (s, g)" "f' = g\<lparr>pw_buf := []\<rparr>"
    using f(1) by (auto simp: FlushBuffer_def split: prod.splits)
  then show "pw_bounded f'" using WriteUnbuffered_bounded [OF g(1) f(2)] by (simp add: pw_bounded_def)
qed

lemma Append_bounded: "PosixWritableFile_Append data f = (s, f') \<Longrightarrow> pw_bounded f \<Longrightarrow> pw_bounded f'"
proof -
  assume f: "PosixWritableFile_Append data f = (s, f')" "pw_bounded f"
  define c where "c = min (length data) (kWritableFileBufferSize - length (pw_buf f))"
  define f1 where "f1 = f\<lparr>pw_buf := pw_buf f @ take c data\<rparr>"
  obtain s2 f2 where fl: "FlushBuffer f1 = (s2, f2)" by fastforce
  have f1: "pw_bounded f1" using f(2) by (auto simp: f1_def pw_bounded_def c_def)
  have f2: "pw_bounded f2" by (rule FlushBuffer_bounded [OF fl f1])
  have "PosixWritableFile_Append data f =
    (if drop c data = [] then (Status_OK, f1)
     else if \<not> Status_ok s2 then (s2, f2)
     else if length (drop c data) < kWritableFileBufferSize then (Status_OK, f2\<lparr>pw_buf := drop c data\<rparr>)
     else WriteUnbuffered (drop c data) f2)"
    unfolding PosixWritableFile_Append_def Let_def c_def [symmetric] f1_def [symmetric] fl by simp
  then consider "f' = f1" | "f' = f2" | "f' = f2\<lparr>pw_buf := drop c data\<rparr>" "length (drop c data) < kWritableFileBufferSize"
    | "WriteUnbuffered (drop c data) f2 = (s, f')"
    using f(1) by (auto split: if_splits)
  then show "pw_bounded f'"
  proof cases
    case 3
    then show ?thesis using f2 by (simp add: pw_bounded_def)
  next
    case 4
    then show ?thesis using WriteUnbuffered_bounded f2 by blast
  qed (use f1 f2 in simp_all)
qed

text \<open>C13. A buffered append to a file, however the kernel splits and interrupts the writes: what the
  file and its buffer hold afterwards is a prefix of the old contents with the data added, all of it
  if the status is OK, and what is already in the file is never changed.\<close>

theorem posix_append_writes_a_prefix:
  assumes "PosixWritableFile_Append data f = (s, f')"
  shows "prefix (os_data (pw_os f') @ pw_buf f') (os_data (pw_os f) @ pw_buf f @ data)
    \<and> (Status_ok s \<longrightarrow> os_data (pw_os f') @ pw_buf f' = os_data (pw_os f) @ pw_buf f @ data)"
  using Append_spec [OF assms] by (simp add: pw_contents_def)

theorem posix_append_writes_a_prefix_witness:
  "let f = new_PosixWritableFile (lit ''f'') 3 \<lparr>os_data = [1], os_pos = 0, os_script = [], os_strerror = \<lambda>_. []\<rparr>;
       f' = snd (PosixWritableFile_Append [2, 3] f)
   in os_data (pw_os f') @ pw_buf f' = [1, 2, 3]"
proof -
  define f where "f = new_PosixWritableFile (lit ''f'') 3
    \<lparr>os_data = [1], os_pos = 0, os_script = [], os_strerror = \<lambda>_. []\<rparr>"
  have f: "pw_buf f = []" "os_data (pw_os f) = [1]" by (simp_all add: f_def new_PosixWritableFile_def)
  have a: "PosixWritableFile_Append [2, 3] f = (Status_OK, f\<lparr>pw_buf := [2, 3]\<rparr>)"
    by (simp add: PosixWritableFile_Append_def kWritableFileBufferSize_def f)
  show ?thesis
    using posix_append_writes_a_prefix [OF a] unfolding Let_def f_def [symmetric] a by (simp add: f)
qed

end
