(* ===== verification/Log.thy ===== *)
theory Log
  imports Crc32c Env_Files
begin

text \<open>
  \<open>db/log_format.h\<close>, \<open>db/log_writer.{h,cc}\<close> and \<open>db/log_reader.{h,cc}\<close>: the write-ahead log and
  the manifest. Records are cut into fragments that do not cross 32KB blocks. The writer is
  modelled over any writable file and the reader over any sequential file; what the reader
  returns from a log that the writer has written is proved in \<open>Log_Roundtrip\<close>.
\<close>

subsection \<open>The format\<close>

datatype RecordType = kZeroType | kFullType | kFirstType | kMiddleType | kLastType

fun RecordType_value :: "RecordType \<Rightarrow> nat" where
  "RecordType_value kZeroType = 0"
| "RecordType_value kFullType = 1"
| "RecordType_value kFirstType = 2"
| "RecordType_value kMiddleType = 3"
| "RecordType_value kLastType = 4"

definition kMaxRecordType :: nat where "kMaxRecordType = 4"
definition kBlockSize :: nat where "kBlockSize = 32768"
definition kHeaderSize :: nat where "kHeaderSize = 4 + 2 + 1"

subsection \<open>The writer\<close>

record 'f LogWriter =
  lw_dest :: 'f
  lw_block_offset :: nat
  lw_type_crc :: "u32 list"

definition InitTypeCrc :: "u32 list" where
  "InitTypeCrc = map (\<lambda>i. crc_Value 0 [word_of_nat i]) [0..<kMaxRecordType + 1]"

definition new_LogWriter :: "'f \<Rightarrow> 'f LogWriter" where
  "new_LogWriter dest = \<lparr>lw_dest = dest, lw_block_offset = 0, lw_type_crc = InitTypeCrc\<rparr>"

definition new_LogWriter_at :: "'f \<Rightarrow> u64 \<Rightarrow> 'f LogWriter" where
  "new_LogWriter_at dest dest_length =
     \<lparr>lw_dest = dest, lw_block_offset = unat dest_length mod kBlockSize, lw_type_crc = InitTypeCrc\<rparr>"

definition EmitPhysicalRecord ::
  "'f WritableFile \<Rightarrow> RecordType \<Rightarrow> bytes \<Rightarrow> 'f LogWriter \<Rightarrow> Status \<times> 'f LogWriter" where
  "EmitPhysicalRecord ops t ptr w =
     (let len = (word_of_nat (length ptr) :: u64);
          crc = crc_Extend 0 (lw_type_crc w ! RecordType_value t) ptr;
          crc = crc_Mask crc;
          buf = EncodeFixed32 crc
                @ [ucast (len AND 0xff), ucast (drop_bit 8 len), word_of_nat (RecordType_value t)];
          (s, dest) = wf_Append ops buf (lw_dest w);
          (s, dest) =
            (if Status_ok s then
               (case wf_Append ops ptr dest of
                  (s, dest) \<Rightarrow> if Status_ok s then wf_Flush ops dest else (s, dest))
             else (s, dest))
      in (s, w\<lparr>lw_dest := dest, lw_block_offset := lw_block_offset w + kHeaderSize + length ptr\<rparr>))"

text \<open>One pass through the body of the \<open>do\<close> loop of \<open>AddRecord\<close>: switch to a new block when the
  header does not fit (the status of that append is dropped), then emit a fragment.\<close>

definition SwitchBlock :: "'f WritableFile \<Rightarrow> 'f LogWriter \<Rightarrow> 'f LogWriter" where
  "SwitchBlock ops w =
     (let leftover = kBlockSize - lw_block_offset w
      in if leftover < kHeaderSize then
           let w = (if leftover > 0
                    then w\<lparr>lw_dest := snd (wf_Append ops (replicate leftover 0) (lw_dest w))\<rparr> else w)
           in w\<lparr>lw_block_offset := 0\<rparr>
         else w)"

definition fragment_type :: "bool \<Rightarrow> bool \<Rightarrow> RecordType" where
  "fragment_type begin end' =
     (if begin \<and> end' then kFullType else if begin then kFirstType
      else if end' then kLastType else kMiddleType)"

lemma EmitPhysicalRecord_offset:
  "EmitPhysicalRecord ops t d w = (s, w') \<Longrightarrow>
   lw_block_offset w' = lw_block_offset w + kHeaderSize + length d \<and> lw_type_crc w' = lw_type_crc w"
  by (auto simp: EmitPhysicalRecord_def Let_def split: prod.splits if_splits)

lemma SwitchBlock_offset:
  "lw_block_offset (SwitchBlock ops w) + kHeaderSize \<le> kBlockSize"
  "lw_block_offset (SwitchBlock ops w) =
    (if kBlockSize - lw_block_offset w < kHeaderSize then 0 else lw_block_offset w)"
  by (auto simp: SwitchBlock_def Let_def kBlockSize_def kHeaderSize_def)

text \<open>A pass that takes nothing fills its block exactly, and the next one starts a new block.\<close>

function AddRecord_loop ::
  "'f WritableFile \<Rightarrow> bool \<Rightarrow> bytes \<Rightarrow> 'f LogWriter \<Rightarrow> Status \<times> 'f LogWriter" where
  "AddRecord_loop ops begin ptr w =
     (let w = SwitchBlock ops w;
          avail = kBlockSize - lw_block_offset w - kHeaderSize;
          fragment_length = (if length ptr < avail then length ptr else avail);
          t = fragment_type begin (length ptr = fragment_length);
          (s, w) = EmitPhysicalRecord ops t (take fragment_length ptr) w;
          ptr = drop fragment_length ptr
      in if Status_ok s \<and> length ptr > 0 then AddRecord_loop ops False ptr w else (s, w))"
  by auto

termination
proof (relation "measures [\<lambda>(ops, b, ptr, w). length ptr,
    \<lambda>(ops, b, ptr, w). if kBlockSize - lw_block_offset w = kHeaderSize then 1 else 0]", goal_cases)
  case 1
  then show ?case by simp
next
  case (2 ops b ptr w w1 avail n t p s w2 ptr')
  then have e: "lw_block_offset w2 = lw_block_offset w1 + kHeaderSize + length (take n ptr)"
    using EmitPhysicalRecord_offset [of ops t "take n ptr" w1 s w2] by simp
  show ?case
  proof (cases "n = 0")
    case True
    then have "avail = 0" using 2 by (auto split: if_splits)
    then have o: "lw_block_offset w1 + kHeaderSize = kBlockSize"
      using 2(1,2) SwitchBlock_offset(1) [of ops w] by auto
    then have "kBlockSize - lw_block_offset w = kHeaderSize"
      using 2(1) SwitchBlock_offset(2) [of ops w]
      by (auto simp: kBlockSize_def kHeaderSize_def split: if_splits)
    moreover have "kBlockSize - lw_block_offset w2 \<noteq> kHeaderSize"
      using o e True by (simp add: kHeaderSize_def kBlockSize_def)
    ultimately show ?thesis using 2 True by simp
  next
    case False
    then show ?thesis using 2 by (auto split: if_splits)
  qed
qed

declare AddRecord_loop.simps [simp del]

definition AddRecord :: "'f WritableFile \<Rightarrow> Slice \<Rightarrow> 'f LogWriter \<Rightarrow> Status \<times> 'f LogWriter" where
  "AddRecord ops data w = AddRecord_loop ops True data w"

subsection \<open>The reader\<close>

text \<open>\<open>lr_drops\<close> are the calls of the reporter, when there is one.\<close>

record 'g LogReader =
  lr_file :: 'g
  lr_has_reporter :: bool
  lr_checksum :: bool
  lr_buffer :: Slice
  lr_eof :: bool
  lr_last_record_offset :: u64
  lr_end_of_buffer_offset :: u64
  lr_initial_offset :: u64
  lr_resyncing :: bool
  lr_drops :: "(u64 \<times> Status) list"

definition kEof :: u32 where "kEof = word_of_nat (kMaxRecordType + 1)"
definition kBadRecord :: u32 where "kBadRecord = word_of_nat (kMaxRecordType + 2)"

definition new_LogReader :: "'g \<Rightarrow> bool \<Rightarrow> bool \<Rightarrow> u64 \<Rightarrow> 'g LogReader" where
  "new_LogReader file has_reporter checksum initial_offset =
     \<lparr>lr_file = file, lr_has_reporter = has_reporter, lr_checksum = checksum, lr_buffer = [],
      lr_eof = False, lr_last_record_offset = 0, lr_end_of_buffer_offset = 0,
      lr_initial_offset = initial_offset, lr_resyncing = (initial_offset > 0), lr_drops = []\<rparr>"

definition ReportDrop :: "u64 \<Rightarrow> Status \<Rightarrow> 'g LogReader \<Rightarrow> 'g LogReader" where
  "ReportDrop n reason r =
     (if lr_has_reporter r
         \<and> lr_end_of_buffer_offset r - word_of_nat (length (lr_buffer r)) - n \<ge> lr_initial_offset r
      then r\<lparr>lr_drops := lr_drops r @ [(n, reason)]\<rparr> else r)"

definition ReportCorruption :: "u64 \<Rightarrow> bytes \<Rightarrow> 'g LogReader \<Rightarrow> 'g LogReader" where
  "ReportCorruption n reason r = ReportDrop n (Status_Corruption reason []) r"

definition SkipToInitialBlock :: "'g SequentialFile \<Rightarrow> 'g LogReader \<Rightarrow> bool \<times> 'g LogReader" where
  "SkipToInitialBlock ops r =
     (let offset_in_block = lr_initial_offset r mod word_of_nat kBlockSize;
          block_start_location = lr_initial_offset r - offset_in_block;
          block_start_location =
            (if offset_in_block > word_of_nat kBlockSize - 6
             then block_start_location + word_of_nat kBlockSize else block_start_location);
          r = r\<lparr>lr_end_of_buffer_offset := block_start_location\<rparr>
      in if block_start_location > 0 then
           (case sf_Skip ops block_start_location (lr_file r) of
              (skip_status, file) \<Rightarrow>
                let r = r\<lparr>lr_file := file\<rparr>
                in if \<not> Status_ok skip_status
                   then (False, ReportDrop block_start_location skip_status r)
                   else (True, r))
         else (True, r))"

text \<open>The part of \<open>ReadPhysicalRecord\<close> that parses the record at the head of the buffer. The
  result slice is passed in, because it keeps its value when a record is dropped.\<close>

definition ParsePhysicalRecord :: "Slice \<Rightarrow> 'g LogReader \<Rightarrow> u32 \<times> Slice \<times> 'g LogReader" where
  "ParsePhysicalRecord result r =
     (let header = lr_buffer r;
          a = (ucast (header ! 4) :: u32) AND 0xff;
          b = (ucast (header ! 5) :: u32) AND 0xff;
          type' = (scast (header ! 6) :: u32);
          len = unat (a OR push_bit 8 b)
      in if kHeaderSize + len > length (lr_buffer r) then
           let drop_size = length (lr_buffer r); r = r\<lparr>lr_buffer := []\<rparr>
           in if \<not> lr_eof r
              then (kBadRecord, result, ReportCorruption (word_of_nat drop_size) (lit ''bad record length'') r)
              else (kEof, result, r)
         else if type' = 0 \<and> len = 0 then (kBadRecord, result, r\<lparr>lr_buffer := []\<rparr>)
         else if lr_checksum r
              \<and> crc_Value 0 (take (1 + len) (drop 6 header))
                  \<noteq> crc_Unmask (case DecodeFixed32 header of Some v \<Rightarrow> v | None \<Rightarrow> 0) then
           let drop_size = length (lr_buffer r); r = r\<lparr>lr_buffer := []\<rparr>
           in (kBadRecord, result, ReportCorruption (word_of_nat drop_size) (lit ''checksum mismatch'') r)
         else
           let r = r\<lparr>lr_buffer := drop (kHeaderSize + len) (lr_buffer r)\<rparr>
           in if lr_end_of_buffer_offset r - word_of_nat (length (lr_buffer r)) - word_of_nat kHeaderSize
                   - word_of_nat len < lr_initial_offset r
              then (kBadRecord, [], r)
              else (type', take len (drop kHeaderSize header), r))"

function ReadPhysicalRecord ::
  "'g SequentialFile \<Rightarrow> Slice \<Rightarrow> 'g LogReader \<Rightarrow> u32 \<times> Slice \<times> 'g LogReader" where
  "ReadPhysicalRecord ops result r =
     (if length (lr_buffer r) < kHeaderSize then
        if \<not> lr_eof r then
          (case sf_Read ops kBlockSize (lr_file r) of
             (status, data, file) \<Rightarrow>
               let r = r\<lparr>lr_buffer := data, lr_file := file,
                         lr_end_of_buffer_offset := lr_end_of_buffer_offset r + word_of_nat (length data)\<rparr>
               in if \<not> Status_ok status then
                    let r = ReportDrop (word_of_nat kBlockSize) status (r\<lparr>lr_buffer := []\<rparr>)
                    in (kEof, result, r\<lparr>lr_eof := True\<rparr>)
                  else if length (lr_buffer r) < kBlockSize
                  then ReadPhysicalRecord ops result (r\<lparr>lr_eof := True\<rparr>)
                  else ReadPhysicalRecord ops result r)
        else (kEof, result, r\<lparr>lr_buffer := []\<rparr>)
      else ParsePhysicalRecord result r)"
  by auto
termination
  by (relation "measure (\<lambda>(ops, result, r). if length (lr_buffer r) < kHeaderSize \<and> \<not> lr_eof r then 1 else 0)")
    (auto simp: kHeaderSize_def kBlockSize_def split: if_splits)

declare ReadPhysicalRecord.simps [simp del]

text \<open>The \<open>while (true)\<close> of \<open>ReadRecord\<close>, as a partial function: \<^term>\<open>None\<close> if it never returns.
  The result is the record, or \<^term>\<open>None\<close> for \<open>false\<close>, with \<open>*scratch\<close>.\<close>

partial_function (option) ReadRecord_loop ::
  "'g SequentialFile \<Rightarrow> bool \<Rightarrow> u64 \<Rightarrow> Slice \<Rightarrow> bytes \<Rightarrow> 'g LogReader
   \<Rightarrow> (Slice option \<times> bytes \<times> 'g LogReader) option" where
  "ReadRecord_loop ops in_fragmented_record prospective_record_offset fragment scratch r =
     (case ReadPhysicalRecord ops fragment r of
        (record_type, fragment, r) \<Rightarrow>
          let physical_record_offset =
                lr_end_of_buffer_offset r - word_of_nat (length (lr_buffer r))
                - word_of_nat kHeaderSize - word_of_nat (length fragment);
              resync = lr_resyncing r \<and> (record_type = 3 \<or> record_type = 4);
              r = (if lr_resyncing r \<and> record_type \<noteq> 3 then r\<lparr>lr_resyncing := False\<rparr> else r)
          in if resync then
               ReadRecord_loop ops in_fragmented_record prospective_record_offset fragment scratch r
             else if record_type = 1 then
               let r = (if in_fragmented_record \<and> scratch \<noteq> []
                        then ReportCorruption (word_of_nat (length scratch))
                               (lit ''partial record without end(1)'') r
                        else r)
               in Some (Some fragment, [], r\<lparr>lr_last_record_offset := physical_record_offset\<rparr>)
             else if record_type = 2 then
               let r = (if in_fragmented_record \<and> scratch \<noteq> []
                        then ReportCorruption (word_of_nat (length scratch))
                               (lit ''partial record without end(2)'') r
                        else r)
               in ReadRecord_loop ops True physical_record_offset fragment fragment r
             else if record_type = 3 then
               (if \<not> in_fragmented_record
                then ReadRecord_loop ops in_fragmented_record prospective_record_offset fragment scratch
                       (ReportCorruption (word_of_nat (length fragment))
                          (lit ''missing start of fragmented record(1)'') r)
                else ReadRecord_loop ops in_fragmented_record prospective_record_offset fragment
                       (scratch @ fragment) r)
             else if record_type = 4 then
               (if \<not> in_fragmented_record
                then ReadRecord_loop ops in_fragmented_record prospective_record_offset fragment scratch
                       (ReportCorruption (word_of_nat (length fragment))
                          (lit ''missing start of fragmented record(2)'') r)
                else Some (Some (scratch @ fragment), scratch @ fragment,
                           r\<lparr>lr_last_record_offset := prospective_record_offset\<rparr>))
             else if record_type = kEof then
               Some (None, if in_fragmented_record then [] else scratch, r)
             else if record_type = kBadRecord then
               (if in_fragmented_record
                then ReadRecord_loop ops False prospective_record_offset fragment []
                       (ReportCorruption (word_of_nat (length scratch)) (lit ''error in middle of record'') r)
                else ReadRecord_loop ops in_fragmented_record prospective_record_offset fragment scratch r)
             else
               ReadRecord_loop ops False prospective_record_offset fragment []
                 (ReportCorruption
                    (word_of_nat (length fragment + (if in_fragmented_record then length scratch else 0)))
                    (take 39 (lit ''unknown record type '' @ decimal (unat record_type))) r))"

definition ReadRecord ::
  "'g SequentialFile \<Rightarrow> 'g LogReader \<Rightarrow> (Slice option \<times> bytes \<times> 'g LogReader) option" where
  "ReadRecord ops r =
     (case (if lr_last_record_offset r < lr_initial_offset r then SkipToInitialBlock ops r else (True, r)) of
        (False, r) \<Rightarrow> Some (None, [], r)
      | (True, r) \<Rightarrow> ReadRecord_loop ops False 0 [] [] r)"

definition LastRecordOffset :: "'g LogReader \<Rightarrow> u64" where
  "LastRecordOffset r = lr_last_record_offset r"

end
