(* ===== verification/Version_State.thy ===== *)
theory Version_State
  imports Version_Files Doubles Log
begin

text \<open>
  The state of \<open>db/version_set.h\<close>: versions, the files they share, and the version set with its counters.
  Versions and files are objects in stores, with their reference counts; an object whose count falls
  to zero is deleted. The circular list of the live versions is the list of their addresses in order,
  and addresses are numbered in the order of allocation. A double is the rational number it stands for
  (\<open>Doubles\<close>). The descriptor file is the destination of the descriptor log. \<open>None\<close> is a failed
  assertion.
\<close>

type_synonym VersionPtr = nat

record Version =
  v_refs :: int
  v_files :: "nat \<Rightarrow> FilePtr list"
  v_file_to_compact :: "FilePtr option"
  v_file_to_compact_level :: int
  v_compaction_score :: rat
  v_compaction_level :: int

record 'w VersionSet =
  vs_dbname :: bytes
  vs_options :: Options
  vs_user_comparator :: Comparator
  vs_next_file_number :: u64
  vs_manifest_file_number :: u64
  vs_last_sequence :: u64
  vs_log_number :: u64
  vs_prev_log_number :: u64
  vs_descriptor_log :: "'w LogWriter option"
  vs_compact_pointer :: "nat \<Rightarrow> bytes"
  vs_current :: "VersionPtr option"
  vs_list :: "VersionPtr list"
  vs_version :: "VersionPtr \<Rightarrow> Version"
  vs_next_version :: VersionPtr
  vs_file :: FileStore
  vs_live_files :: "FilePtr set"
  vs_next_file_ptr :: FilePtr

subsection \<open>Versions\<close>

definition new_Version :: Version where
  "new_Version =
     \<lparr>v_refs = 0, v_files = (\<lambda>_. []), v_file_to_compact = None, v_file_to_compact_level = -1,
      v_compaction_score = -1, v_compaction_level = -1\<rparr>"

definition allocate_version :: "Version \<Rightarrow> 'w VersionSet \<Rightarrow> VersionPtr \<times> 'w VersionSet" where
  "allocate_version v vs =
     (let p = vs_next_version vs
      in (p, vs\<lparr>vs_version := (vs_version vs)(p := v), vs_next_version := p + 1\<rparr>))"

definition update_version :: "(Version \<Rightarrow> Version) \<Rightarrow> VersionPtr \<Rightarrow> 'w VersionSet \<Rightarrow> 'w VersionSet" where
  "update_version g p vs = vs\<lparr>vs_version := (vs_version vs)(p := g (vs_version vs p))\<rparr>"

definition Version_NumFiles :: "nat \<Rightarrow> Version \<Rightarrow> nat" where
  "Version_NumFiles level v = length (v_files v level)"

definition all_files :: "Version \<Rightarrow> FilePtr list" where
  "all_files v = concat (map (v_files v) [0..<kNumLevels])"

text \<open>Drop one reference to a file.\<close>

definition file_unref :: "FilePtr \<Rightarrow> 'w VersionSet \<Rightarrow> 'w VersionSet" where
  "file_unref f vs =
     (let m = vs_file vs f;
          m = m\<lparr>fm_refs := fm_refs m - 1\<rparr>
      in vs\<lparr>vs_file := (vs_file vs)(f := m),
            vs_live_files := (if fm_refs m \<le> 0 then vs_live_files vs - {f} else vs_live_files vs)\<rparr>)"

fun drop_files :: "FilePtr list \<Rightarrow> 'w VersionSet \<Rightarrow> 'w VersionSet option" where
  "drop_files [] vs = Some vs"
| "drop_files (f # fs) vs =
     (if fm_refs (vs_file vs f) > 0 then drop_files fs (file_unref f vs) else None)"

definition delete_Version :: "VersionPtr \<Rightarrow> 'w VersionSet \<Rightarrow> 'w VersionSet option" where
  "delete_Version p vs =
     (if v_refs (vs_version vs p) = 0
      then drop_files (all_files (vs_version vs p)) (vs\<lparr>vs_list := remove1 p (vs_list vs)\<rparr>)
      else None)"

definition Version_Ref :: "VersionPtr \<Rightarrow> 'w VersionSet \<Rightarrow> 'w VersionSet" where
  "Version_Ref p vs = update_version (\<lambda>v. v\<lparr>v_refs := v_refs v + 1\<rparr>) p vs"

definition Version_Unref :: "VersionPtr \<Rightarrow> 'w VersionSet \<Rightarrow> 'w VersionSet option" where
  "Version_Unref p vs =
     (if v_refs (vs_version vs p) \<ge> 1
      then let vs = update_version (\<lambda>v. v\<lparr>v_refs := v_refs v - 1\<rparr>) p vs
           in if v_refs (vs_version vs p) = 0 then delete_Version p vs else Some vs
      else None)"

definition Version_DebugString :: "FileStore \<Rightarrow> Version \<Rightarrow> bytes" where
  "Version_DebugString h v =
     concat (map (\<lambda>level.
       AppendNumberTo (lit ''--- level '') (word_of_nat level) @ lit '' ---'' @ [10]
       @ concat (map (\<lambda>f.
           AppendNumberTo (AppendNumberTo [32] (fm_number (h f)) @ [58]) (fm_file_size (h f))
           @ lit ''['' @ InternalKey_DebugString (fm_smallest (h f)) @ lit '' .. ''
           @ InternalKey_DebugString (fm_largest (h f)) @ lit '']'' @ [10]) (v_files v level)))
     [0..<kNumLevels])"

subsection \<open>The version set\<close>

definition AppendVersion :: "VersionPtr \<Rightarrow> 'w VersionSet \<Rightarrow> 'w VersionSet option" where
  "AppendVersion p vs =
     (if v_refs (vs_version vs p) = 0 \<and> vs_current vs \<noteq> Some p
      then Option.bind (case vs_current vs of None \<Rightarrow> Some vs | Some c \<Rightarrow> Version_Unref c vs) (\<lambda>vs.
           let vs = Version_Ref p (vs\<lparr>vs_current := Some p\<rparr>)
           in Some (vs\<lparr>vs_list := vs_list vs @ [p]\<rparr>))
      else None)"

definition new_VersionSet :: "bytes \<Rightarrow> Options \<Rightarrow> Comparator \<Rightarrow> 'w VersionSet option" where
  "new_VersionSet dbname options ucmp =
     (let vs = \<lparr>vs_dbname = dbname, vs_options = options, vs_user_comparator = ucmp, vs_next_file_number = 2,
                vs_manifest_file_number = 0, vs_last_sequence = 0, vs_log_number = 0, vs_prev_log_number = 0,
                vs_descriptor_log = None, vs_compact_pointer = (\<lambda>_. []), vs_current = None, vs_list = [],
                vs_version = (\<lambda>_. new_Version), vs_next_version = 0, vs_file = (\<lambda>_. new_FileMetaData 0),
                vs_live_files = {}, vs_next_file_ptr = 0\<rparr>;
          (p, vs) = allocate_version new_Version vs
      in AppendVersion p vs)"

definition delete_VersionSet :: "'w VersionSet \<Rightarrow> 'w VersionSet option" where
  "delete_VersionSet vs =
     Option.bind (vs_current vs) (\<lambda>c. Option.bind (Version_Unref c vs) (\<lambda>vs.
       if vs_list vs = [] then Some (vs\<lparr>vs_descriptor_log := None\<rparr>) else None))"

definition current_version :: "'w VersionSet \<Rightarrow> Version" where
  "current_version vs = vs_version vs (the (vs_current vs))"

definition NewFileNumber :: "'w VersionSet \<Rightarrow> u64 \<times> 'w VersionSet" where
  "NewFileNumber vs = (vs_next_file_number vs, vs\<lparr>vs_next_file_number := vs_next_file_number vs + 1\<rparr>)"

definition ReuseFileNumber :: "u64 \<Rightarrow> 'w VersionSet \<Rightarrow> 'w VersionSet" where
  "ReuseFileNumber file_number vs =
     (if vs_next_file_number vs = file_number + 1 then vs\<lparr>vs_next_file_number := file_number\<rparr> else vs)"

definition VersionSet_SetLastSequence :: "u64 \<Rightarrow> 'w VersionSet \<Rightarrow> 'w VersionSet option" where
  "VersionSet_SetLastSequence s vs = (if s \<ge> vs_last_sequence vs then Some (vs\<lparr>vs_last_sequence := s\<rparr>) else None)"

definition MarkFileNumberUsed :: "u64 \<Rightarrow> 'w VersionSet \<Rightarrow> 'w VersionSet" where
  "MarkFileNumberUsed number vs =
     (if vs_next_file_number vs \<le> number then vs\<lparr>vs_next_file_number := number + 1\<rparr> else vs)"

definition NumLevelFiles :: "nat \<Rightarrow> 'w VersionSet \<Rightarrow> nat option" where
  "NumLevelFiles level vs =
     (if level < kNumLevels then Some (length (v_files (current_version vs) level)) else None)"

definition NumLevelBytes :: "nat \<Rightarrow> 'w VersionSet \<Rightarrow> u64 option" where
  "NumLevelBytes level vs =
     (if level < kNumLevels then Some (TotalFileSize (vs_file vs) (v_files (current_version vs) level)) else None)"

definition AddLiveFiles :: "'w VersionSet \<Rightarrow> u64 set \<Rightarrow> u64 set" where
  "AddLiveFiles vs live =
     fold (\<lambda>p live. fold (\<lambda>f. insert (fm_number (vs_file vs f))) (all_files (vs_version vs p)) live) (vs_list vs) live"

definition LevelSummary :: "'w VersionSet \<Rightarrow> bytes" where
  "LevelSummary vs =
     take 99 (lit ''files[ ''
       @ concat (map (\<lambda>level. decimal (length (v_files (current_version vs) level)) @ [32]) [0..<7])
       @ lit '']'')"

subsection \<open>Compaction scores\<close>

fun MaxBytesForLevel_loop :: "nat \<Rightarrow> rat \<Rightarrow> rat" where
  "MaxBytesForLevel_loop level result =
     (if level > 1 then MaxBytesForLevel_loop (level - 1) (round_double (result * 10)) else result)"

declare MaxBytesForLevel_loop.simps [simp del]

definition MaxBytesForLevel :: "Options \<Rightarrow> nat \<Rightarrow> rat" where
  "MaxBytesForLevel options level = MaxBytesForLevel_loop level (round_double (10 * 1048576))"

definition level_score :: "Options \<Rightarrow> FileStore \<Rightarrow> Version \<Rightarrow> nat \<Rightarrow> rat" where
  "level_score options h v level =
     (if level = 0
      then round_double (round_double (of_nat (length (v_files v 0))) / of_nat kL0_CompactionTrigger)
      else round_double (round_double (of_nat (unat (TotalFileSize h (v_files v level)))) / MaxBytesForLevel options level))"

fun best_score :: "(nat \<Rightarrow> rat) \<Rightarrow> nat list \<Rightarrow> int \<times> rat \<Rightarrow> int \<times> rat" where
  "best_score score [] best = best"
| "best_score score (level # levels) (best_level, best) =
     best_score score levels (if score level > best then (int level, score level) else (best_level, best))"

definition Finalize :: "VersionPtr \<Rightarrow> 'w VersionSet \<Rightarrow> 'w VersionSet" where
  "Finalize p vs =
     (let v = vs_version vs p;
          (best_level, best) = best_score (level_score (vs_options vs) (vs_file vs) v) [0..<kNumLevels - 1] (-1, -1)
      in update_version (\<lambda>v. v\<lparr>v_compaction_level := best_level, v_compaction_score := best\<rparr>) p vs)"

definition NeedsCompaction :: "'w VersionSet \<Rightarrow> bool" where
  "NeedsCompaction vs \<longleftrightarrow>
     v_compaction_score (current_version vs) \<ge> 1 \<or> v_file_to_compact (current_version vs) \<noteq> None"

text \<open>The limits of the levels are exact, and a score reaches 1 exactly when a level is at its limit.\<close>

definition over_limit :: "FileStore \<Rightarrow> Version \<Rightarrow> nat \<Rightarrow> bool" where
  "over_limit h v level \<longleftrightarrow>
     (if level = 0 then kL0_CompactionTrigger \<le> length (v_files v 0)
      else 10 ^ level * 2 ^ 20 \<le> unat (TotalFileSize h (v_files v level)))"

lemma MaxBytesForLevel_exact:
  "1 \<le> level \<Longrightarrow> level < 7 \<Longrightarrow> MaxBytesForLevel options level = of_nat (10 ^ level * 2 ^ 20)"
proof -
  have "MaxBytesForLevel_loop level (of_nat m) = of_nat (10 ^ (level - 1) * m)"
    if "10 ^ (level - 1) * m < 2 ^ 53" for m
    using that
  proof (induction level arbitrary: m rule: less_induct)
    case (less level)
    show ?case
    proof (cases "level > 1")
      case True
      then obtain k where "level = Suc (Suc k)" by (metis One_nat_def less_imp_Suc_add add_Suc)
      then have p: "10 ^ (level - 1) * m = 10 ^ (level - 1 - 1) * (10 * m)" by simp
      have "10 * m \<le> 10 ^ (level - 1 - 1) * (10 * m)" by simp
      then have lt: "10 * m < 2 ^ 53" using less.prems unfolding p by (rule le_less_trans)
      have "round_double (of_nat m * 10) = of_nat (10 * m)"
        using round_double_nat [OF lt] by (simp add: mult.commute)
      then show ?thesis
        using True less.IH [of "level - 1" "10 * m"] less.prems unfolding p by (subst MaxBytesForLevel_loop.simps) simp
    next
      case False
      then show ?thesis by (subst MaxBytesForLevel_loop.simps) simp
    qed
  qed
  note loop = this
  assume "1 \<le> level" "level < 7"
  then obtain k where k: "level = Suc k" "k \<le> 5" by (cases level) auto
  have "10 ^ k * (10 * 1048576) \<le> (10 ^ 5 * (10 * 1048576) :: nat)"
    using k(2) by (intro mult_le_mono1 power_increasing) auto
  then have lt: "10 ^ (level - 1) * (10 * 1048576) < (2 ^ 53 :: nat)" unfolding k by simp
  have eq: "10 ^ (level - 1) * (10 * 1048576) = 10 ^ level * (2 ^ 20 :: nat)" unfolding k by simp
  have "round_double (10 * 1048576) = of_nat (10 * 1048576)" using round_double_nat [of "10 * 1048576"] by simp
  then show ?thesis using loop [OF lt] unfolding MaxBytesForLevel_def eq by simp
qed

lemma level_score_reaches:
  assumes "level < kNumLevels - 1"
  shows "1 \<le> level_score options h v level \<longleftrightarrow> over_limit h v level"
proof (cases "level = 0")
  case True
  then show ?thesis
    using quotient_reaches_one [of kL0_CompactionTrigger "length (v_files v 0)"]
    by (simp add: level_score_def over_limit_def kL0_CompactionTrigger_def)
next
  case False
  then have l: "1 \<le> level" "level < 7" using assms by (auto simp: kNumLevels_def)
  have "10 ^ level * 2 ^ 20 \<le> (10 ^ 6 * 2 ^ 20 :: nat)"
    using l(2) by (intro mult_le_mono1 power_increasing) auto
  then have "10 ^ level * 2 ^ 20 < (2 ^ 53 :: nat)" by simp
  then show ?thesis
    using False quotient_reaches_one [of "10 ^ level * 2 ^ 20" "unat (TotalFileSize h (v_files v level))"]
    unfolding level_score_def over_limit_def MaxBytesForLevel_exact [OF l] by simp
qed

lemma best_score_reaches:
  "r \<le> snd (best_score score levels (bl, b)) \<longleftrightarrow> r \<le> b \<or> (\<exists>level \<in> set levels. r \<le> score level)"
  by (induction levels arbitrary: bl b) auto

lemma best_score_level:
  "fst (best_score score levels (bl, b)) = bl \<and> snd (best_score score levels (bl, b)) = b
   \<or> (\<exists>level \<in> set levels. fst (best_score score levels (bl, b)) = int level
        \<and> snd (best_score score levels (bl, b)) = score level)"
proof (induction levels arbitrary: bl b)
  case (Cons l levels)
  show ?case
    using Cons.IH [of "int l" "score l"] Cons.IH [of bl b] by (cases "score l > b") auto
qed simp

theorem Finalize_reaches:
  defines "v vs p \<equiv> vs_version (Finalize p vs) p"
  shows "1 \<le> v_compaction_score (v vs p) \<longleftrightarrow> (\<exists>level < kNumLevels - 1. over_limit (vs_file vs) (vs_version vs p) level)"
    and "1 \<le> v_compaction_score (v vs p) \<Longrightarrow>
      \<exists>level < kNumLevels - 1. v_compaction_level (v vs p) = int level \<and> over_limit (vs_file vs) (vs_version vs p) level"
proof -
  let ?score = "level_score (vs_options vs) (vs_file vs) (vs_version vs p)"
  let ?best = "best_score ?score [0..<kNumLevels - 1] (-1, -1)"
  have best: "v_compaction_score (v vs p) = snd ?best" "v_compaction_level (v vs p) = fst ?best"
    by (simp_all add: v_def Finalize_def update_version_def split: prod.split)
  then show "1 \<le> v_compaction_score (v vs p) \<longleftrightarrow> (\<exists>level < kNumLevels - 1. over_limit (vs_file vs) (vs_version vs p) level)"
    using level_score_reaches by (auto simp: best_score_reaches)
  assume "1 \<le> v_compaction_score (v vs p)"
  then show "\<exists>level < kNumLevels - 1. v_compaction_level (v vs p) = int level \<and> over_limit (vs_file vs) (vs_version vs p) level"
    using best_score_level [of ?score "[0..<kNumLevels - 1]" "-1" "-1"] level_score_reaches best by fastforce
qed

end
