(* ===== verification/Compaction.thy ===== *)
theory Compaction
  imports Version_State
begin

text \<open>
  The choice of compactions in \<open>db/version_set.cc\<close>: the class \<open>Compaction\<close>, the inputs that a compaction
  gets, and the level that the output of a memtable goes to. A compaction is a value; what it shares
  with the version set, the versions and the files, is threaded through. \<open>None\<close> is a failed assertion
  or an index out of range.
\<close>

subsection \<open>Overlaps with a version\<close>

definition OverlapInLevel :: "'w VersionSet \<Rightarrow> Version \<Rightarrow> nat \<Rightarrow> Slice option \<Rightarrow> Slice option \<Rightarrow> bool option" where
  "OverlapInLevel vs v level smallest_user_key largest_user_key =
     SomeFileOverlapsRange (vs_user_comparator vs) (vs_file vs) (level > 0) (v_files v level)
       smallest_user_key largest_user_key"

definition overlapping_inputs :: "'w VersionSet \<Rightarrow> Version \<Rightarrow> nat \<Rightarrow> InternalKey option \<Rightarrow> InternalKey option \<Rightarrow>
    FilePtr list option" where
  "overlapping_inputs vs v = GetOverlappingInputs (vs_user_comparator vs) (vs_file vs) (v_files v)"

text \<open>The loop counts \<open>level\<close> up to \<open>kMaxMemCompactLevel\<close>.\<close>

function PickLevel_loop :: "'w VersionSet \<Rightarrow> Version \<Rightarrow> Slice \<Rightarrow> Slice \<Rightarrow> nat \<Rightarrow> nat option" where
  "PickLevel_loop vs v smallest_user_key largest_user_key level =
     (if level < kMaxMemCompactLevel then
        Option.bind (OverlapInLevel vs v (level + 1) (Some smallest_user_key) (Some largest_user_key)) (\<lambda>overlap.
          if overlap then Some level
          else
            Option.bind
              (if level + 2 < kNumLevels then
                 map_option (\<lambda>overlaps. sint (TotalFileSize (vs_file vs) overlaps)
                     > sint (MaxGrandParentOverlapBytes (vs_options vs)))
                   (overlapping_inputs vs v (level + 2)
                     (Some (InternalKey_make smallest_user_key kMaxSequenceNumber kValueTypeForSeek))
                     (Some (InternalKey_make largest_user_key 0 kTypeDeletion)))
               else Some False)
              (\<lambda>stop. if stop then Some level
                 else PickLevel_loop vs v smallest_user_key largest_user_key (level + 1)))
      else Some level)"
  by auto
termination by (relation "measure (\<lambda>(vs, v, s, l, level). kMaxMemCompactLevel - level)") auto

definition PickLevelForMemTableOutput :: "'w VersionSet \<Rightarrow> Version \<Rightarrow> Slice \<Rightarrow> Slice \<Rightarrow> nat option" where
  "PickLevelForMemTableOutput vs v smallest_user_key largest_user_key =
     Option.bind (OverlapInLevel vs v 0 (Some smallest_user_key) (Some largest_user_key)) (\<lambda>overlap.
       if overlap then Some 0 else PickLevel_loop vs v smallest_user_key largest_user_key 0)"

fun max_overlap :: "'w VersionSet \<Rightarrow> Version \<Rightarrow> (nat \<times> FilePtr) list \<Rightarrow> u64 \<Rightarrow> u64 option" where
  "max_overlap vs v [] result = Some result"
| "max_overlap vs v ((level, f) # fs) result =
     Option.bind (overlapping_inputs vs v (level + 1) (Some (fm_smallest (vs_file vs f))) (Some (fm_largest (vs_file vs f))))
       (\<lambda>overlaps.
         let sum = TotalFileSize (vs_file vs) overlaps
         in max_overlap vs v fs (if sint sum > sint result then sum else result))"

definition MaxNextLevelOverlappingBytes :: "'w VersionSet \<Rightarrow> u64 option" where
  "MaxNextLevelOverlappingBytes vs =
     (let v = current_version vs
      in max_overlap vs v (concat (map (\<lambda>level. map (Pair level) (v_files v level)) [1..<kNumLevels - 1])) 0)"

subsection \<open>The class \<open>Compaction\<close>\<close>

record Compaction =
  cp_level :: nat
  cp_max_output_file_size :: u64
  cp_input_version :: "VersionPtr option"
  cp_edit :: VersionEdit
  cp_inputs0 :: "FilePtr list"
  cp_inputs1 :: "FilePtr list"
  cp_grandparents :: "FilePtr list"
  cp_grandparent_index :: nat
  cp_seen_key :: bool
  cp_overlapped_bytes :: u64
  cp_level_ptrs :: "nat \<Rightarrow> nat"

definition new_Compaction :: "Options \<Rightarrow> nat \<Rightarrow> Compaction" where
  "new_Compaction options level =
     \<lparr>cp_level = level, cp_max_output_file_size = MaxFileSizeForLevel options level, cp_input_version = None,
      cp_edit = new_VersionEdit, cp_inputs0 = [], cp_inputs1 = [], cp_grandparents = [], cp_grandparent_index = 0,
      cp_seen_key = False, cp_overlapped_bytes = 0, cp_level_ptrs = (\<lambda>_. 0)\<rparr>"

definition delete_Compaction :: "Compaction \<Rightarrow> 'w VersionSet \<Rightarrow> 'w VersionSet option" where
  "delete_Compaction c vs = (case cp_input_version c of None \<Rightarrow> Some vs | Some p \<Rightarrow> Version_Unref p vs)"

definition IsTrivialMove :: "'w VersionSet \<Rightarrow> Compaction \<Rightarrow> bool" where
  "IsTrivialMove vs c \<longleftrightarrow>
     length (cp_inputs0 c) = 1 \<and> length (cp_inputs1 c) = 0
     \<and> sint (TotalFileSize (vs_file vs) (cp_grandparents c)) \<le> sint (MaxGrandParentOverlapBytes (vs_options vs))"

definition AddInputDeletions :: "'w VersionSet \<Rightarrow> Compaction \<Rightarrow> VersionEdit \<Rightarrow> VersionEdit" where
  "AddInputDeletions vs c edit =
     fold (\<lambda>f. VersionEdit_DeleteFile (int (cp_level c) + 1) (fm_number (vs_file vs f))) (cp_inputs1 c)
       (fold (\<lambda>f. VersionEdit_DeleteFile (int (cp_level c)) (fm_number (vs_file vs f))) (cp_inputs0 c) edit)"

text \<open>The scan of one level from the file its pointer is at: the new pointer and whether the key falls
  into the range of the file there.\<close>

function advance_level_ptr :: "Comparator \<Rightarrow> FileStore \<Rightarrow> FilePtr list \<Rightarrow> Slice \<Rightarrow> nat \<Rightarrow> nat \<times> bool" where
  "advance_level_ptr ucmp h files ukey i =
     (if i < length files then
        let f = files ! i
        in if Compare ucmp ukey (file_limit h f) \<le> 0
           then (i, Compare ucmp ukey (file_start h f) \<ge> 0)
           else advance_level_ptr ucmp h files ukey (i + 1)
      else (i, False))"
  by auto
termination by (relation "measure (\<lambda>(ucmp, h, files, k, i). length files - i)") auto

declare advance_level_ptr.simps [simp del] PickLevel_loop.simps [simp del]

fun IsBaseLevel_loop :: "'w VersionSet \<Rightarrow> Version \<Rightarrow> Slice \<Rightarrow> nat list \<Rightarrow> Compaction \<Rightarrow> bool \<times> Compaction" where
  "IsBaseLevel_loop vs v ukey [] c = (True, c)"
| "IsBaseLevel_loop vs v ukey (lvl # lvls) c =
     (case advance_level_ptr (vs_user_comparator vs) (vs_file vs) (v_files v lvl) ukey (cp_level_ptrs c lvl) of
        (i, found) \<Rightarrow>
          let c = c\<lparr>cp_level_ptrs := (cp_level_ptrs c)(lvl := i)\<rparr>
          in if found then (False, c) else IsBaseLevel_loop vs v ukey lvls c)"

definition IsBaseLevelForKey :: "'w VersionSet \<Rightarrow> Slice \<Rightarrow> Compaction \<Rightarrow> (bool \<times> Compaction) option" where
  "IsBaseLevelForKey vs ukey c =
     map_option (\<lambda>p. IsBaseLevel_loop vs (vs_version vs p) ukey [cp_level c + 2..<kNumLevels] c) (cp_input_version c)"

function skip_grandparents :: "'w VersionSet \<Rightarrow> Slice \<Rightarrow> Compaction \<Rightarrow> Compaction" where
  "skip_grandparents vs k c =
     (if cp_grandparent_index c < length (cp_grandparents c)
         \<and> InternalKey_Compare (vs_user_comparator vs) k
             (fm_largest (vs_file vs (cp_grandparents c ! cp_grandparent_index c))) > 0
      then skip_grandparents vs k
             (c\<lparr>cp_overlapped_bytes := (if cp_seen_key c
                  then cp_overlapped_bytes c + fm_file_size (vs_file vs (cp_grandparents c ! cp_grandparent_index c))
                  else cp_overlapped_bytes c),
                cp_grandparent_index := cp_grandparent_index c + 1\<rparr>)
      else c)"
  by auto
termination by (relation "measure (\<lambda>(vs, k, c). length (cp_grandparents c) - cp_grandparent_index c)") auto

declare skip_grandparents.simps [simp del]

definition ShouldStopBefore :: "'w VersionSet \<Rightarrow> Slice \<Rightarrow> Compaction \<Rightarrow> bool \<times> Compaction" where
  "ShouldStopBefore vs k c =
     (let c = (skip_grandparents vs k c)\<lparr>cp_seen_key := True\<rparr>
      in if sint (cp_overlapped_bytes c) > sint (MaxGrandParentOverlapBytes (vs_options vs))
         then (True, c\<lparr>cp_overlapped_bytes := 0\<rparr>)
         else (False, c))"

definition ReleaseInputs :: "Compaction \<Rightarrow> 'w VersionSet \<Rightarrow> (Compaction \<times> 'w VersionSet) option" where
  "ReleaseInputs c vs =
     (case cp_input_version c of
        None \<Rightarrow> Some (c, vs)
      | Some p \<Rightarrow> map_option (Pair (c\<lparr>cp_input_version := None\<rparr>)) (Version_Unref p vs))"

subsection \<open>The inputs of a compaction\<close>

text \<open>The inputs of both levels, grown in \<open>level\<close> when that adds nothing in \<open>level + 1\<close>, with the largest key
  of the inputs of \<open>level\<close>.\<close>

definition grow_inputs :: "'w VersionSet \<Rightarrow> Version \<Rightarrow> nat \<Rightarrow> InternalKey \<Rightarrow> FilePtr list \<Rightarrow> FilePtr list \<Rightarrow>
    (InternalKey \<times> FilePtr list \<times> FilePtr list) option" where
  "grow_inputs vs v level largest inputs0 inputs1 =
     (let ucmp = vs_user_comparator vs; h = vs_file vs
      in if inputs1 = [] then Some (largest, inputs0, inputs1)
         else
           Option.bind (GetRange2 ucmp h inputs0 inputs1) (\<lambda>(all_start, all_limit).
           Option.bind (overlapping_inputs vs v level (Some all_start) (Some all_limit)) (\<lambda>expanded0.
           Option.bind (AddBoundaryInputs ucmp h (v_files v level) expanded0) (\<lambda>expanded0.
             if length expanded0 > length inputs0
                \<and> sint (TotalFileSize h inputs1 + TotalFileSize h expanded0) < sint (ExpandedCompactionByteSizeLimit (vs_options vs))
             then
               Option.bind (GetRange ucmp h expanded0) (\<lambda>(new_start, new_limit).
               Option.bind (overlapping_inputs vs v (level + 1) (Some new_start) (Some new_limit)) (\<lambda>expanded1.
                 if length expanded1 = length inputs1
                 then Some (new_limit, expanded0, expanded1)
                 else Some (largest, inputs0, inputs1)))
             else Some (largest, inputs0, inputs1)))))"

definition SetupOtherInputs :: "Compaction \<Rightarrow> 'w VersionSet \<Rightarrow> (Compaction \<times> 'w VersionSet) option" where
  "SetupOtherInputs c vs =
     (let ucmp = vs_user_comparator vs; h = vs_file vs; v = current_version vs; level = cp_level c
      in Option.bind (AddBoundaryInputs ucmp h (v_files v level) (cp_inputs0 c)) (\<lambda>inputs0.
         Option.bind (GetRange ucmp h inputs0) (\<lambda>(smallest, largest).
         Option.bind (overlapping_inputs vs v (level + 1) (Some smallest) (Some largest)) (\<lambda>inputs1.
         Option.bind (grow_inputs vs v level largest inputs0 inputs1) (\<lambda>(largest, inputs0, inputs1).
         Option.bind (GetRange2 ucmp h inputs0 inputs1) (\<lambda>(all_start, all_limit).
         Option.bind
           (if level + 2 < kNumLevels
            then overlapping_inputs vs v (level + 2) (Some all_start) (Some all_limit)
            else Some (cp_grandparents c))
           (\<lambda>grandparents.
         Option.bind (InternalKey_Encode largest) (\<lambda>key.
           Some (c\<lparr>cp_inputs0 := inputs0, cp_inputs1 := inputs1, cp_grandparents := grandparents,
                   cp_edit := SetCompactPointer (int level) largest (cp_edit c)\<rparr>,
                 vs\<lparr>vs_compact_pointer := (vs_compact_pointer vs)(level := key)\<rparr>)))))))))"

text \<open>The first file after the compaction pointer of the level, or the first one.\<close>

definition next_to_compact :: "'w VersionSet \<Rightarrow> Version \<Rightarrow> nat \<Rightarrow> FilePtr option" where
  "next_to_compact vs v level =
     (case find (\<lambda>f. vs_compact_pointer vs level = []
              \<or> InternalKey_Compare (vs_user_comparator vs) (fm_largest (vs_file vs f)) (vs_compact_pointer vs level) > 0)
            (v_files v level) of
        Some f \<Rightarrow> Some f
      | None \<Rightarrow> (case v_files v level of [] \<Rightarrow> None | f # _ \<Rightarrow> Some f))"

text \<open>The level and the first input, if there is something to do.\<close>

definition compaction_start :: "'w VersionSet \<Rightarrow> (nat \<times> FilePtr) option option" where
  "compaction_start vs =
     (let v = current_version vs
      in if v_compaction_score v \<ge> 1 then
           if 0 \<le> v_compaction_level v \<and> v_compaction_level v + 1 < int kNumLevels
           then let level = nat (v_compaction_level v)
                in map_option (\<lambda>f. Some (level, f)) (next_to_compact vs v level)
           else None
         else case v_file_to_compact v of
           Some f \<Rightarrow> if 0 \<le> v_file_to_compact_level v then Some (Some (nat (v_file_to_compact_level v), f)) else None
         | None \<Rightarrow> Some None)"

definition PickCompaction :: "'w VersionSet \<Rightarrow> (Compaction option \<times> 'w VersionSet) option" where
  "PickCompaction vs =
     Option.bind (compaction_start vs) (\<lambda>start.
       case start of
         None \<Rightarrow> Some (None, vs)
       | Some (level, f) \<Rightarrow>
           Option.bind (vs_current vs) (\<lambda>p.
             let c = (new_Compaction (vs_options vs) level)\<lparr>cp_inputs0 := [f], cp_input_version := Some p\<rparr>;
                 vs = Version_Ref p vs
             in Option.bind
                  (if level = 0 then
                     Option.bind (GetRange (vs_user_comparator vs) (vs_file vs) (cp_inputs0 c)) (\<lambda>(smallest, largest).
                     Option.bind (overlapping_inputs vs (current_version vs) 0 (Some smallest) (Some largest)) (\<lambda>inputs.
                       if inputs \<noteq> [] then Some inputs else None))
                   else Some (cp_inputs0 c))
                  (\<lambda>inputs. map_option (\<lambda>(c, vs). (Some c, vs)) (SetupOtherInputs (c\<lparr>cp_inputs0 := inputs\<rparr>) vs))))"

text \<open>The shortest prefix whose files reach the limit.\<close>

fun limit_inputs :: "FileStore \<Rightarrow> u64 \<Rightarrow> u64 \<Rightarrow> FilePtr list \<Rightarrow> FilePtr list" where
  "limit_inputs h limit so_far [] = []"
| "limit_inputs h limit so_far (f # fs) =
     (let so_far = so_far + fm_file_size (h f)
      in if so_far \<ge> limit then [f] else f # limit_inputs h limit so_far fs)"

definition CompactRange :: "nat \<Rightarrow> InternalKey option \<Rightarrow> InternalKey option \<Rightarrow> 'w VersionSet \<Rightarrow>
    (Compaction option \<times> 'w VersionSet) option" where
  "CompactRange level begin_key end_key vs =
     Option.bind (overlapping_inputs vs (current_version vs) level begin_key end_key) (\<lambda>inputs.
       if inputs = [] then Some (None, vs)
       else
         let inputs = (if level > 0
               then limit_inputs (vs_file vs) (MaxFileSizeForLevel (vs_options vs) level) 0 inputs else inputs)
         in Option.bind (vs_current vs) (\<lambda>p.
              let c = (new_Compaction (vs_options vs) level)\<lparr>cp_inputs0 := inputs, cp_input_version := Some p\<rparr>
              in map_option (\<lambda>(c, vs). (Some c, vs)) (SetupOtherInputs c (Version_Ref p vs))))"

end
