(* ===== verification/Version_Builder.thy ===== *)
theory Version_Builder
  imports Version_State
begin

text \<open>
  \<open>VersionSet::Builder\<close> of \<open>db/version_set.cc\<close>: it collects the files that a sequence of version edits
  deletes and adds at each level, and merges them with the files of a base version into a new one. A
  \<open>std::set\<close> of files is the list of its elements in their order; \<open>std::upper_bound\<close> is the linear
  search for the element that its binary search finds in a sorted list. \<open>None\<close> is a failed assertion,
  the \<open>abort\<close> of \<open>SaveTo\<close>, or a level outside of the array.
\<close>

subsection \<open>The builder\<close>

definition BySmallestKey :: "Comparator \<Rightarrow> FileStore \<Rightarrow> FilePtr \<Rightarrow> FilePtr \<Rightarrow> bool" where
  "BySmallestKey ucmp h f1 f2 =
     (let r = InternalKey_Compare ucmp (fm_smallest (h f1)) (fm_smallest (h f2))
      in if r \<noteq> 0 then r < 0 else fm_number (h f1) < fm_number (h f2))"

record LevelState =
  ls_deleted_files :: "u64 set"
  ls_added_files :: "FilePtr list"

record Builder =
  vb_base :: VersionPtr
  vb_levels :: "nat \<Rightarrow> LevelState"

text \<open>Insertion into a \<open>FileSet\<close>: an element that is equivalent to one in the set is not inserted.\<close>

fun FileSet_insert :: "('f \<Rightarrow> 'f \<Rightarrow> bool) \<Rightarrow> 'f \<Rightarrow> 'f list \<Rightarrow> 'f list" where
  "FileSet_insert lt f [] = [f]"
| "FileSet_insert lt f (g # gs) =
     (if lt f g then f # g # gs
      else if lt g f then g # FileSet_insert lt f gs
      else g # gs)"

fun fold_option :: "('a \<Rightarrow> 's \<Rightarrow> 's option) \<Rightarrow> 'a list \<Rightarrow> 's \<Rightarrow> 's option" where
  "fold_option step [] s = Some s"
| "fold_option step (x # xs) s = Option.bind (step x s) (fold_option step xs)"

definition new_Builder :: "VersionPtr \<Rightarrow> 'w VersionSet \<Rightarrow> Builder \<times> 'w VersionSet" where
  "new_Builder base vs =
     (\<lparr>vb_base = base, vb_levels = (\<lambda>_. \<lparr>ls_deleted_files = {}, ls_added_files = []\<rparr>)\<rparr>, Version_Ref base vs)"

definition delete_Builder :: "Builder \<Rightarrow> 'w VersionSet \<Rightarrow> 'w VersionSet option" where
  "delete_Builder b vs =
     Version_Unref (vb_base b)
       (fold (\<lambda>level. fold file_unref (ls_added_files (vb_levels b level))) [0..<kNumLevels] vs)"

definition update_level :: "(LevelState \<Rightarrow> LevelState) \<Rightarrow> nat \<Rightarrow> Builder \<Rightarrow> Builder" where
  "update_level g level b = b\<lparr>vb_levels := (vb_levels b)(level := g (vb_levels b level))\<rparr>"

text \<open>A conversion to \<open>int\<close> keeps the low 32 bits.\<close>

definition allowed_seeks_of :: "u64 \<Rightarrow> int" where
  "allowed_seeks_of file_size =
     (let allowed_seeks = sint (ucast (file_size div 16384) :: u32)
      in if allowed_seeks < 100 then 100 else allowed_seeks)"

definition allocate_file :: "FileMetaData \<Rightarrow> 'w VersionSet \<Rightarrow> FilePtr \<times> 'w VersionSet" where
  "allocate_file m vs =
     (let p = vs_next_file_ptr vs
      in (p, vs\<lparr>vs_file := (vs_file vs)(p := m), vs_live_files := insert p (vs_live_files vs),
               vs_next_file_ptr := p + 1\<rparr>))"

definition Apply_compact_pointer :: "int \<times> InternalKey \<Rightarrow> 'w VersionSet \<Rightarrow> 'w VersionSet option" where
  "Apply_compact_pointer cp vs =
     (if level_ok (fst cp)
      then Option.bind (InternalKey_Encode (snd cp)) (\<lambda>k.
           Some (vs\<lparr>vs_compact_pointer := (vs_compact_pointer vs)(nat (fst cp) := k)\<rparr>))
      else None)"

definition Apply_new_file :: "int \<times> FileMetaData \<Rightarrow> Builder \<times> 'w VersionSet \<Rightarrow> (Builder \<times> 'w VersionSet) option" where
  "Apply_new_file nf s =
     (if level_ok (fst nf)
      then let (b, vs) = s;
               level = nat (fst nf);
               (f, vs) = allocate_file ((snd nf)\<lparr>fm_refs := 1, fm_allowed_seeks := allowed_seeks_of (fm_file_size (snd nf))\<rparr>) vs;
               b = update_level (\<lambda>ls. ls\<lparr>ls_deleted_files := ls_deleted_files ls - {fm_number (vs_file vs f)},
                     ls_added_files := FileSet_insert (BySmallestKey (vs_user_comparator vs) (vs_file vs)) f (ls_added_files ls)\<rparr>) level b
           in Some (b, vs)
      else None)"

definition Apply_deleted :: "(int \<times> u64) set \<Rightarrow> Builder \<Rightarrow> Builder option" where
  "Apply_deleted del b =
     (if \<forall>p \<in> del. level_ok (fst p)
      then Some (b\<lparr>vb_levels := (\<lambda>level. let ls = vb_levels b level
             in ls\<lparr>ls_deleted_files := ls_deleted_files ls \<union> snd ` {p \<in> del. nat (fst p) = level}\<rparr>)\<rparr>)
      else None)"

definition Builder_Apply :: "VersionEdit \<Rightarrow> Builder \<times> 'w VersionSet \<Rightarrow> (Builder \<times> 'w VersionSet) option" where
  "Builder_Apply edit s =
     (let (b, vs) = s
      in Option.bind (fold_option Apply_compact_pointer (ve_compact_pointers edit) vs) (\<lambda>vs.
         Option.bind (Apply_deleted (ve_deleted_files edit) b) (\<lambda>b.
         fold_option Apply_new_file (ve_new_files edit) (b, vs))))"

definition MaybeAddFile :: "Builder \<Rightarrow> VersionPtr \<Rightarrow> nat \<Rightarrow> FilePtr \<Rightarrow> 'w VersionSet \<Rightarrow> 'w VersionSet option" where
  "MaybeAddFile b v level f vs =
     (if fm_number (vs_file vs f) \<in> ls_deleted_files (vb_levels b level) then Some vs
      else let files = v_files (vs_version vs v) level
           in if level > 0 \<and> files \<noteq> []
                 \<and> \<not> InternalKey_Compare (vs_user_comparator vs) (fm_largest (vs_file vs (last files))) (fm_smallest (vs_file vs f)) < 0
              then None
              else let m = vs_file vs f;
                       vs = vs\<lparr>vs_file := (vs_file vs)(f := m\<lparr>fm_refs := fm_refs m + 1\<rparr>)\<rparr>
                   in Some (update_version (\<lambda>ver. ver\<lparr>v_files := (v_files ver)(level := files @ [f])\<rparr>) v vs))"

text \<open>The order in which \<open>SaveTo\<close> takes the base files and the added files.\<close>

fun merge_added :: "('f \<Rightarrow> 'f \<Rightarrow> bool) \<Rightarrow> 'f list \<Rightarrow> 'f list \<Rightarrow> 'f list" where
  "merge_added lt base [] = base"
| "merge_added lt base (a # added) =
     takeWhile (\<lambda>x. \<not> lt a x) base @ a # merge_added lt (dropWhile (\<lambda>x. \<not> lt a x) base) added"

fun no_overlap_in_level :: "Comparator \<Rightarrow> FileStore \<Rightarrow> FilePtr list \<Rightarrow> bool" where
  "no_overlap_in_level ucmp h (f # g # fs) \<longleftrightarrow>
     InternalKey_Compare ucmp (fm_largest (h f)) (fm_smallest (h g)) < 0 \<and> no_overlap_in_level ucmp h (g # fs)"
| "no_overlap_in_level ucmp h fs \<longleftrightarrow> True"

definition SaveTo_level :: "Builder \<Rightarrow> VersionPtr \<Rightarrow> nat \<Rightarrow> 'w VersionSet \<Rightarrow> 'w VersionSet option" where
  "SaveTo_level b v level vs =
     (let cmp = BySmallestKey (vs_user_comparator vs) (vs_file vs);
          base_files = v_files (vs_version vs (vb_base b)) level;
          added = ls_added_files (vb_levels b level)
      in Option.bind (fold_option (MaybeAddFile b v level) (merge_added cmp base_files added) vs) (\<lambda>vs.
         if level > 0 \<and> \<not> no_overlap_in_level (vs_user_comparator vs) (vs_file vs) (v_files (vs_version vs v) level)
         then None else Some vs))"

definition SaveTo :: "Builder \<Rightarrow> VersionPtr \<Rightarrow> 'w VersionSet \<Rightarrow> 'w VersionSet option" where
  "SaveTo b v vs = fold_option (SaveTo_level b v) [0..<kNumLevels] vs"

subsection \<open>Merging and inserting\<close>

lemma FileSet_insert_set:
  "(\<And>g. g \<in> set gs \<Longrightarrow> lt f g \<or> lt g f) \<Longrightarrow> set (FileSet_insert lt f gs) = insert f (set gs)"
  by (induction gs) auto

lemma FileSet_insert_sorted:
  assumes "sorted_wrt lt gs" "\<And>x y z. lt x y \<Longrightarrow> lt y z \<Longrightarrow> x \<in> insert f (set gs) \<Longrightarrow> y \<in> insert f (set gs) \<Longrightarrow>
      z \<in> insert f (set gs) \<Longrightarrow> lt x z"
    and "\<And>g. g \<in> set gs \<Longrightarrow> lt f g \<or> lt g f"
  shows "sorted_wrt lt (FileSet_insert lt f gs)"
  using assms
proof (induction gs)
  case (Cons g gs)
  have set_eq: "set (FileSet_insert lt f gs) = insert f (set gs)"
    by (rule FileSet_insert_set) (use Cons.prems(3) in auto)
  show ?case
  proof (cases "lt f g")
    case True
    then have "lt f x" if "x \<in> set gs" for x
      using that Cons.prems(1) Cons.prems(2) [of f g x] by auto
    then show ?thesis using True Cons.prems(1) by auto
  next
    case False
    have "sorted_wrt lt (FileSet_insert lt f gs)"
    proof (rule Cons.IH)
      show "sorted_wrt lt gs" using Cons.prems(1) by simp
      show "lt x z" if "lt x y" "lt y z" "x \<in> insert f (set gs)" "y \<in> insert f (set gs)" "z \<in> insert f (set gs)" for x y z
        by (rule Cons.prems(2) [OF that(1,2)]) (use that in auto)
    qed (use Cons.prems(3) in simp)
    then show ?thesis using False Cons.prems(1,3) set_eq by auto
  qed
qed simp

text \<open>An order on the elements of both lists, in which elements of different lists differ.\<close>

definition merge_order :: "('f \<Rightarrow> 'f \<Rightarrow> bool) \<Rightarrow> 'f list \<Rightarrow> 'f list \<Rightarrow> bool" where
  "merge_order lt base added \<longleftrightarrow>
     (\<forall>x \<in> set base \<union> set added. \<forall>y \<in> set base \<union> set added. \<forall>z \<in> set base \<union> set added.
        lt x y \<longrightarrow> lt y z \<longrightarrow> lt x z)
     \<and> (\<forall>a \<in> set added. \<forall>x \<in> set base. lt a x \<or> lt x a)"

lemma merge_added_set: "set (merge_added lt base added) = set base \<union> set added"
proof (induction added arbitrary: base)
  case (Cons a added)
  have "set base = set (takeWhile (\<lambda>x. \<not> lt a x) base) \<union> set (dropWhile (\<lambda>x. \<not> lt a x) base)"
    by (metis set_append takeWhile_dropWhile_id)
  then show ?case using Cons.IH [of "dropWhile (\<lambda>x. \<not> lt a x) base"] by auto
qed simp

lemma merge_added_sorted:
  assumes "sorted_wrt lt base" "sorted_wrt lt added" "merge_order lt base added"
  shows "sorted_wrt lt (merge_added lt base added)"
  using assms
proof (induction added arbitrary: base)
  case (Cons a added)
  let ?t = "takeWhile (\<lambda>x. \<not> lt a x) base" and ?d = "dropWhile (\<lambda>x. \<not> lt a x) base"
  have sub: "set ?t \<subseteq> set base" "set ?d \<subseteq> set base" by (auto dest: set_takeWhileD set_dropWhileD)
  have st: "sorted_wrt lt ?t" "sorted_wrt lt ?d" "\<forall>x \<in> set ?t. \<forall>y \<in> set ?d. lt x y"
    using Cons.prems(1) sorted_wrt_append [of lt ?t ?d] unfolding takeWhile_dropWhile_id by blast+
  note order = Cons.prems(3) [unfolded merge_order_def]
  have tr: "lt x z" if "lt x y" "lt y z" "x \<in> set base \<union> set (a # added)" "y \<in> set base \<union> set (a # added)"
    "z \<in> set base \<union> set (a # added)" for x y z
    using order that by blast
  have up: "x \<in> set base \<union> set (a # added)" if "x \<in> set ?d \<union> set added" for x
    using that sub(2) by auto
  have "merge_order lt ?d added"
    unfolding merge_order_def
  proof (intro conjI ballI impI)
    show "lt x z" if "x \<in> set ?d \<union> set added" "y \<in> set ?d \<union> set added" "z \<in> set ?d \<union> set added"
      "lt x y" "lt y z" for x y z
      using tr [OF that(4,5) up [OF that(1)] up [OF that(2)] up [OF that(3)]] .
    show "lt b x \<or> lt x b" if "b \<in> set added" "x \<in> set ?d" for b x
      using order that sub(2) by (meson list.set_intros(2) subsetD)
  qed
  then have rest: "sorted_wrt lt (merge_added lt ?d added)" using Cons.IH st(2) Cons.prems(2) by simp
  have t_a: "lt x a" if "x \<in> set ?t" for x
  proof -
    have "\<not> lt a x" using that by (auto dest: set_takeWhileD)
    then show ?thesis using order that sub(1) by (meson list.set_intros(1) subsetD)
  qed
  have a_d: "lt a x" if "x \<in> set ?d" for x
  proof (cases ?d)
    case (Cons y ys)
    then have y: "lt a y" by (metis dropWhile_eq_Cons_conv)
    then show ?thesis
    proof (cases "x = y")
      case False
      then have "lt y x" using that Cons st(2) by auto
      then show ?thesis using y tr [of a y x] that sub(2) Cons by auto
    qed simp
  next
    case Nil
    then show ?thesis using that unfolding Nil by simp
  qed
  have a_added: "lt a x" if "x \<in> set added" for x using that Cons.prems(2) by simp
  have "lt x y" if "x \<in> set ?t" "y \<in> set (a # merge_added lt ?d added)" for x y
  proof -
    have "y = a \<or> y \<in> set ?d \<or> y \<in> set added" using that(2) by (simp add: merge_added_set)
    then consider "y = a" | "y \<in> set ?d" | "y \<in> set added" by blast
    then show ?thesis
    proof cases
      case 1
      then show ?thesis using t_a that(1) by simp
    next
      case 2
      then show ?thesis using st(3) that(1) by blast
    next
      case 3
      then show ?thesis using tr [OF t_a [OF that(1)] a_added [OF 3]] that(1) sub(1) by auto
    qed
  qed
  moreover have "lt a y" if "y \<in> set (merge_added lt ?d added)" for y
    using that a_d a_added unfolding merge_added_set by blast
  ultimately show ?case
    using st(1) rest unfolding merge_added.simps sorted_wrt_append sorted_wrt.simps by blast
qed simp

subsection \<open>What \<open>SaveTo\<close> saves\<close>

text \<open>The part of a file that the edits describe; the counters of a file are not part of it.\<close>

type_synonym file_info = "u64 \<times> u64 \<times> InternalKey \<times> InternalKey"

definition file_info :: "FileMetaData \<Rightarrow> file_info" where
  "file_info m = (fm_number m, fm_file_size m, fm_smallest m, fm_largest m)"

definition same_info :: "FileStore \<Rightarrow> FileStore \<Rightarrow> bool" where
  "same_info h h' \<longleftrightarrow> (\<forall>f. file_info (h f) = file_info (h' f))"

lemma same_infoD:
  assumes "same_info h h'"
  shows "fm_number (h f) = fm_number (h' f)" "fm_file_size (h f) = fm_file_size (h' f)"
    "fm_smallest (h f) = fm_smallest (h' f)" "fm_largest (h f) = fm_largest (h' f)"
  using assms by (simp_all add: same_info_def file_info_def)

lemma same_info_refl [simp]: "same_info h h"
  by (simp add: same_info_def)

lemma same_info_trans: "same_info h1 h2 \<Longrightarrow> same_info h2 h3 \<Longrightarrow> same_info h1 h3"
  by (simp add: same_info_def)

lemma same_info_BySmallestKey: "same_info h h' \<Longrightarrow> BySmallestKey ucmp h = BySmallestKey ucmp h'"
  by (intro ext) (simp add: BySmallestKey_def same_infoD)

lemma same_info_no_overlap: "same_info h h' \<Longrightarrow> no_overlap_in_level ucmp h fs = no_overlap_in_level ucmp h' fs"
  by (induction ucmp h fs rule: no_overlap_in_level.induct) (simp_all add: same_infoD)

definition add_refs :: "FilePtr list \<Rightarrow> FileStore \<Rightarrow> FileStore" where
  "add_refs fs h = fold (\<lambda>f h. h(f := (h f)\<lparr>fm_refs := fm_refs (h f) + 1\<rparr>)) fs h"

lemma add_refs_simps [simp]:
  "add_refs [] h = h"
  "add_refs (f # fs) h = add_refs fs (h(f := (h f)\<lparr>fm_refs := fm_refs (h f) + 1\<rparr>))"
  "add_refs (fs @ gs) h = add_refs gs (add_refs fs h)"
  by (simp_all add: add_refs_def)

lemma same_info_add_ref: "same_info (h(f := (h f)\<lparr>fm_refs := n\<rparr>)) h"
  by (simp add: same_info_def file_info_def)

lemma same_info_add_refs: "same_info (add_refs fs h) h"
  by (induction fs arbitrary: h) (auto intro: same_info_trans [OF _ same_info_add_ref])

lemma fm_refs_add_refs: "fm_refs (add_refs fs h f) = fm_refs (h f) + int (count_list fs f)"
  by (induction fs arbitrary: h) auto

lemma no_overlap_append:
  "no_overlap_in_level ucmp h (xs @ f # ys) \<Longrightarrow> xs \<noteq> [] \<Longrightarrow>
   InternalKey_Compare ucmp (fm_largest (h (last xs))) (fm_smallest (h f)) < 0"
proof (induction xs)
  case (Cons x xs)
  then show ?case by (cases xs) auto
qed simp

definition kept_files :: "Builder \<Rightarrow> nat \<Rightarrow> FileStore \<Rightarrow> FilePtr list \<Rightarrow> FilePtr list" where
  "kept_files b level h fs = filter (\<lambda>f. fm_number (h f) \<notin> ls_deleted_files (vb_levels b level)) fs"

lemma same_info_kept: "same_info h h' \<Longrightarrow> kept_files b level h fs = kept_files b level h' fs"
  by (simp add: kept_files_def same_infoD)

definition add_to_version :: "VersionPtr \<Rightarrow> nat \<Rightarrow> FilePtr list \<Rightarrow> 'w VersionSet \<Rightarrow> 'w VersionSet" where
  "add_to_version v level fs vs =
     update_version (\<lambda>ver. ver\<lparr>v_files := (v_files ver)(level := v_files ver level @ fs)\<rparr>) v
       (vs\<lparr>vs_file := add_refs fs (vs_file vs)\<rparr>)"

lemma add_to_version_simps [simp]:
  "v_files (vs_version (add_to_version v level fs vs) v) = (v_files (vs_version vs v))(level := v_files (vs_version vs v) level @ fs)"
  "p \<noteq> v \<Longrightarrow> vs_version (add_to_version v level fs vs) p = vs_version vs p"
  "vs_file (add_to_version v level fs vs) = add_refs fs (vs_file vs)"
  "vs_user_comparator (add_to_version v level fs vs) = vs_user_comparator vs"
  by (simp_all add: add_to_version_def update_version_def)

lemma add_to_version_Nil [simp]: "add_to_version v level [] vs = vs"
  by (simp add: add_to_version_def update_version_def)

lemma add_to_version_append:
  "add_to_version v level gs (add_to_version v level fs vs) = add_to_version v level (fs @ gs) vs"
  by (simp add: add_to_version_def update_version_def)

lemma MaybeAddFile_all:
  "level = 0 \<or> no_overlap_in_level (vs_user_comparator vs) (vs_file vs)
     (v_files (vs_version vs v) level @ kept_files b level (vs_file vs) fs) \<Longrightarrow>
   fold_option (MaybeAddFile b v level) fs vs = Some (add_to_version v level (kept_files b level (vs_file vs) fs) vs)"
proof (induction fs arbitrary: vs)
  case (Cons f fs)
  show ?case
  proof (cases "fm_number (vs_file vs f) \<in> ls_deleted_files (vb_levels b level)")
    case True
    then show ?thesis using Cons by (simp add: MaybeAddFile_def kept_files_def)
  next
    case False
    let ?vs = "add_to_version v level [f] vs"
    have same: "same_info (vs_file ?vs) (vs_file vs)" by (simp only: add_to_version_simps same_info_add_refs)
    have k: "kept_files b level (vs_file vs) (f # fs) = f # kept_files b level (vs_file vs) fs"
      using False by (simp add: kept_files_def)
    have "MaybeAddFile b v level f vs = Some ?vs"
      using Cons.prems False no_overlap_append [of "vs_user_comparator vs" "vs_file vs" "v_files (vs_version vs v) level" f]
      unfolding k by (auto simp: MaybeAddFile_def add_to_version_def update_version_def Let_def)
    moreover have "fold_option (MaybeAddFile b v level) fs ?vs = Some (add_to_version v level (kept_files b level (vs_file ?vs) fs) ?vs)"
      by (rule Cons.IH) (use Cons.prems in \<open>simp only: k same_info_kept [OF same] same_info_no_overlap [OF same]
            add_to_version_simps(1,4) fun_upd_same append_assoc append.simps\<close>)
    ultimately show ?thesis
      unfolding k same_info_kept [OF same] add_to_version_append by simp
  qed
qed (simp add: kept_files_def)

definition saved_files :: "Builder \<Rightarrow> 'w VersionSet \<Rightarrow> nat \<Rightarrow> FilePtr list" where
  "saved_files b vs level =
     kept_files b level (vs_file vs)
       (merge_added (BySmallestKey (vs_user_comparator vs) (vs_file vs)) (v_files (vs_version vs (vb_base b)) level)
          (ls_added_files (vb_levels b level)))"

definition saveable :: "Builder \<Rightarrow> 'w VersionSet \<Rightarrow> nat \<Rightarrow> bool" where
  "saveable b vs level \<longleftrightarrow> level = 0 \<or> no_overlap_in_level (vs_user_comparator vs) (vs_file vs) (saved_files b vs level)"

lemma saved_files_add:
  "v \<noteq> vb_base b \<Longrightarrow> saved_files b (add_to_version v level fs vs) = saved_files b vs"
  by (intro ext) (simp add: saved_files_def same_info_kept [OF same_info_add_refs]
      same_info_BySmallestKey [OF same_info_add_refs])

lemma saveable_add:
  "v \<noteq> vb_base b \<Longrightarrow> saveable b (add_to_version v level fs vs) l = saveable b vs l"
  by (simp add: saveable_def saved_files_add same_info_no_overlap [OF same_info_add_refs])

lemma SaveTo_level_saves:
  assumes "v \<noteq> vb_base b" "v_files (vs_version vs v) level = []" "saveable b vs level"
  shows "SaveTo_level b v level vs = Some (add_to_version v level (saved_files b vs level) vs)"
proof -
  let ?fs = "merge_added (BySmallestKey (vs_user_comparator vs) (vs_file vs)) (v_files (vs_version vs (vb_base b)) level)
    (ls_added_files (vb_levels b level))"
  have "fold_option (MaybeAddFile b v level) ?fs vs = Some (add_to_version v level (saved_files b vs level) vs)"
    using assms MaybeAddFile_all [of level vs v b ?fs] by (simp add: saved_files_def saveable_def)
  then show ?thesis
    using assms same_info_no_overlap [OF same_info_add_refs]
    by (auto simp: SaveTo_level_def Let_def saveable_def)
qed

text \<open>Conversely, what is saved at a level is the same whenever the assertions hold, and they hold only when
  the files that are saved end one before the other.\<close>

lemma MaybeAddFile_some:
  "fold_option (MaybeAddFile b v level) fs vs = Some vs' \<Longrightarrow>
   vs' = add_to_version v level (kept_files b level (vs_file vs) fs) vs"
proof (induction fs arbitrary: vs)
  case (Cons f fs)
  show ?case
  proof (cases "fm_number (vs_file vs f) \<in> ls_deleted_files (vb_levels b level)")
    case True
    then show ?thesis using Cons by (simp add: MaybeAddFile_def kept_files_def)
  next
    case False
    let ?vs = "add_to_version v level [f] vs"
    have same: "same_info (vs_file ?vs) (vs_file vs)" by (simp only: add_to_version_simps same_info_add_refs)
    have k: "kept_files b level (vs_file vs) (f # fs) = f # kept_files b level (vs_file vs) fs"
      using False by (simp add: kept_files_def)
    obtain vs1 where 1: "MaybeAddFile b v level f vs = Some vs1" "fold_option (MaybeAddFile b v level) fs vs1 = Some vs'"
      using Cons.prems by (auto simp: bind_eq_Some_conv)
    have "vs1 = ?vs"
      using 1(1) False by (auto simp: MaybeAddFile_def add_to_version_def update_version_def Let_def split: if_splits)
    then have "vs' = add_to_version v level (kept_files b level (vs_file ?vs) fs) ?vs"
      using Cons.IH 1(2) by blast
    then show ?thesis unfolding k same_info_kept [OF same] add_to_version_append by simp
  qed
qed (simp add: kept_files_def)

lemma SaveTo_level_some:
  assumes "v \<noteq> vb_base b" "v_files (vs_version vs v) level = []" "SaveTo_level b v level vs = Some vs'"
  shows "saveable b vs level" "vs' = add_to_version v level (saved_files b vs level) vs"
proof -
  let ?fs = "merge_added (BySmallestKey (vs_user_comparator vs) (vs_file vs)) (v_files (vs_version vs (vb_base b)) level)
    (ls_added_files (vb_levels b level))"
  have 1: "fold_option (MaybeAddFile b v level) ?fs vs = Some vs'"
    and 2: "level = 0 \<or> no_overlap_in_level (vs_user_comparator vs') (vs_file vs') (v_files (vs_version vs' v) level)"
    using assms(3) by (auto simp: SaveTo_level_def Let_def bind_eq_Some_conv split: if_splits)
  show 3: "vs' = add_to_version v level (saved_files b vs level) vs"
    using MaybeAddFile_some [OF 1] by (simp add: saved_files_def)
  show "saveable b vs level"
    using 2 assms(2) unfolding saveable_def 3 by (simp add: same_info_no_overlap [OF same_info_add_refs])
qed

lemma SaveTo_levels_some:
  assumes "v \<noteq> vb_base b" "distinct levels" "\<And>level. level \<in> set levels \<Longrightarrow> v_files (vs_version vs v) level = []"
    and "fold_option (SaveTo_level b v) levels vs = Some vs'" "level \<in> set levels"
  shows "saveable b vs level"
  using assms(2-)
proof (induction levels arbitrary: vs)
  case (Cons l levels)
  obtain vs1 where 1: "SaveTo_level b v l vs = Some vs1" "fold_option (SaveTo_level b v) levels vs1 = Some vs'"
    using Cons.prems(3) by (auto simp: bind_eq_Some_conv)
  have empty: "v_files (vs_version vs v) l = []" using Cons.prems(2) by simp
  note s = SaveTo_level_some [OF assms(1) empty 1(1)]
  show ?case
  proof (cases "level = l")
    case True
    then show ?thesis using s(1) by simp
  next
    case False
    have "saveable b vs1 level"
      by (rule Cons.IH) (use Cons.prems 1(2) False in \<open>auto simp: s(2)\<close>)
    then show ?thesis unfolding s(2) by (simp add: saveable_add [OF assms(1)])
  qed
qed simp

lemma SaveTo_levels:
  assumes "v \<noteq> vb_base b" "distinct levels" "\<And>level. level \<in> set levels \<Longrightarrow> v_files (vs_version vs v) level = []"
    and "\<And>level. level \<in> set levels \<Longrightarrow> saveable b vs level"
  shows "fold_option (SaveTo_level b v) levels vs
    = Some (fold (\<lambda>level. add_to_version v level (saved_files b vs level)) levels vs)"
  using assms(2-)
proof (induction levels arbitrary: vs)
  case (Cons level levels)
  let ?vs = "add_to_version v level (saved_files b vs level) vs"
  have "SaveTo_level b v level vs = Some ?vs"
    using Cons.prems assms(1) by (intro SaveTo_level_saves) auto
  moreover have "fold_option (SaveTo_level b v) levels ?vs
      = Some (fold (\<lambda>l. add_to_version v l (saved_files b ?vs l)) levels ?vs)"
    by (rule Cons.IH) (use Cons.prems in \<open>auto simp: saveable_add [OF assms(1)]\<close>)
  ultimately show ?case by (simp add: saved_files_add [OF assms(1)])
qed simp

lemma fold_add_to_version:
  "distinct levels \<Longrightarrow>
   v_files (vs_version (fold (\<lambda>level. add_to_version v level (g level)) levels vs) v)
     = (\<lambda>l. if l \<in> set levels then v_files (vs_version vs v) l @ g l else v_files (vs_version vs v) l)
   \<and> vs_file (fold (\<lambda>level. add_to_version v level (g level)) levels vs) = add_refs (concat (map g levels)) (vs_file vs)
   \<and> (\<forall>p. p \<noteq> v \<longrightarrow> vs_version (fold (\<lambda>level. add_to_version v level (g level)) levels vs) p = vs_version vs p)"
  by (induction levels arbitrary: vs) auto

text \<open>The rest of the state stays as it is.\<close>

definition version_frame :: "'w VersionSet \<Rightarrow> 'w VersionSet \<Rightarrow> bool" where
  "version_frame vs vs' \<longleftrightarrow> (\<exists>ver h. vs' = vs\<lparr>vs_version := ver, vs_file := h\<rparr>)"

lemma version_frame_trans: "version_frame a b \<Longrightarrow> version_frame b c \<Longrightarrow> version_frame a c"
  unfolding version_frame_def by (elim exE) auto

lemma add_to_version_frame: "version_frame vs (add_to_version v l fs vs)"
  unfolding version_frame_def
  by (intro exI [of _ "vs_version (add_to_version v l fs vs)"] exI [of _ "vs_file (add_to_version v l fs vs)"])
    (simp add: add_to_version_def update_version_def)

lemma version_frame_refl: "version_frame vs vs"
  unfolding version_frame_def by (intro exI [of _ "vs_version vs"] exI [of _ "vs_file vs"]) simp

lemma fold_add_frame: "version_frame vs (fold (\<lambda>level. add_to_version v level (g level)) levels vs)"
proof (induction levels arbitrary: vs)
  case (Cons l levels)
  show ?case unfolding fold_simps by (rule version_frame_trans [OF add_to_version_frame Cons.IH])
qed (simp add: version_frame_refl)

theorem SaveTo_saves:
  assumes "v \<noteq> vb_base b" "v_files (vs_version vs v) = (\<lambda>_. [])" "\<And>level. level < kNumLevels \<Longrightarrow> saveable b vs level"
  shows "\<exists>vs'. SaveTo b v vs = Some vs' \<and> version_frame vs vs'
    \<and> v_files (vs_version vs' v) = (\<lambda>l. if l < kNumLevels then saved_files b vs l else [])
    \<and> vs_file vs' = add_refs (all_files (vs_version vs' v)) (vs_file vs)
    \<and> (\<forall>p. p \<noteq> v \<longrightarrow> vs_version vs' p = vs_version vs p)"
proof -
  let ?vs = "fold (\<lambda>level. add_to_version v level (saved_files b vs level)) [0..<kNumLevels] vs"
  have "SaveTo b v vs = Some ?vs"
    unfolding SaveTo_def by (rule SaveTo_levels) (use assms in auto)
  moreover have f: "v_files (vs_version ?vs v) = (\<lambda>l. if l < kNumLevels then saved_files b vs l else [])"
    "vs_file ?vs = add_refs (concat (map (saved_files b vs) [0..<kNumLevels])) (vs_file vs)"
    "\<forall>p. p \<noteq> v \<longrightarrow> vs_version ?vs p = vs_version vs p"
    using fold_add_to_version [of "[0..<kNumLevels]" v "saved_files b vs" vs] assms(2) by auto
  moreover have "map (v_files (vs_version ?vs v)) [0..<kNumLevels] = map (saved_files b vs) [0..<kNumLevels]"
    unfolding f(1) by simp
  ultimately show ?thesis
    using fold_add_frame unfolding all_files_def by (intro exI [of _ ?vs] conjI) (assumption | simp only:)+
qed

end
