(* ===== verification/Version_Apply.thy ===== *)
theory Version_Apply
  imports Version_Builder
begin

text \<open>
  What \<open>Apply\<close> and \<open>SaveTo\<close> of the version builder do to the files of a version: the files that the
  edits describe, as a set, and the invariant of a version. A version that edits lead to, the files of
  its levels and the references to them are shown at the end.
\<close>

subsection \<open>What the edits of a builder do\<close>

definition builder_files :: "Builder \<Rightarrow> 'w VersionSet \<Rightarrow> nat \<Rightarrow> FilePtr set" where
  "builder_files b vs level =
     set (v_files (vs_version vs (vb_base b)) level) \<union> set (ls_added_files (vb_levels b level))"

definition seen_numbers :: "Builder \<Rightarrow> 'w VersionSet \<Rightarrow> nat \<Rightarrow> u64 set" where
  "seen_numbers b vs level = (\<lambda>f. fm_number (vs_file vs f)) ` builder_files b vs level"

text \<open>The files of a level as the edits so far leave them.\<close>

definition contents :: "Builder \<Rightarrow> 'w VersionSet \<Rightarrow> nat \<Rightarrow> file_info set" where
  "contents b vs level =
     (\<lambda>f. file_info (vs_file vs f)) `
       {f \<in> builder_files b vs level. fm_number (vs_file vs f) \<notin> ls_deleted_files (vb_levels b level)}"

definition new_infos :: "nat \<Rightarrow> (int \<times> FileMetaData) list \<Rightarrow> file_info set" where
  "new_infos level fs = (\<lambda>p. file_info (snd p)) ` set (filter (\<lambda>p. nat (fst p) = level) fs)"

definition new_numbers :: "nat \<Rightarrow> (int \<times> FileMetaData) list \<Rightarrow> u64 list" where
  "new_numbers level fs = map (\<lambda>p. fm_number (snd p)) (filter (\<lambda>p. nat (fst p) = level) fs)"

text \<open>An edit, on the files of a level: deletions first, then additions.\<close>

definition edit_level :: "nat \<Rightarrow> VersionEdit \<Rightarrow> file_info set \<Rightarrow> file_info set" where
  "edit_level level e S =
     {i \<in> S. (int level, fst i) \<notin> ve_deleted_files e} \<union> new_infos level (ve_new_files e)"

text \<open>What an edit must satisfy: levels in range, well-formed files, and no number is given to a level twice.\<close>

definition edit_ok :: "(Slice \<Rightarrow> bool) \<Rightarrow> Comparator \<Rightarrow> VersionEdit \<Rightarrow> bool" where
  "edit_ok key cmp e \<longleftrightarrow>
     (\<forall>p \<in> set (ve_compact_pointers e). level_ok (fst p) \<and> snd p \<noteq> [])
     \<and> (\<forall>p \<in> ve_deleted_files e. level_ok (fst p))
     \<and> (\<forall>p \<in> set (ve_new_files e). level_ok (fst p) \<and> meta_ok key cmp (snd p))"

primrec fresh_numbers :: "nat \<Rightarrow> VersionEdit list \<Rightarrow> u64 set \<Rightarrow> bool" where
  "fresh_numbers level [] N \<longleftrightarrow> True"
| "fresh_numbers level (e # es) N \<longleftrightarrow>
     distinct (new_numbers level (ve_new_files e)) \<and> set (new_numbers level (ve_new_files e)) \<inter> N = {}
     \<and> fresh_numbers level es (N \<union> set (new_numbers level (ve_new_files e)))"

text \<open>Applying edits changes nothing of the versions and of the files there are.\<close>

definition apply_frame :: "'w VersionSet \<Rightarrow> 'w VersionSet \<Rightarrow> bool" where
  "apply_frame vs vs' \<longleftrightarrow>
     (\<exists>cp h live n. vs' = vs\<lparr>vs_compact_pointer := cp, vs_file := h, vs_live_files := live, vs_next_file_ptr := n\<rparr>)
     \<and> vs_next_file_ptr vs \<le> vs_next_file_ptr vs'
     \<and> (\<forall>f < vs_next_file_ptr vs. vs_file vs' f = vs_file vs f)"

lemma apply_frame_refl: "apply_frame vs vs"
  unfolding apply_frame_def
  by (intro conjI exI [of _ "vs_compact_pointer vs"] exI [of _ "vs_file vs"] exI [of _ "vs_live_files vs"]
      exI [of _ "vs_next_file_ptr vs"]) simp_all

lemma apply_frame_trans: "apply_frame a b \<Longrightarrow> apply_frame b c \<Longrightarrow> apply_frame a c"
  unfolding apply_frame_def by (elim conjE exE) auto

lemma apply_frame_simps:
  assumes "apply_frame vs vs'"
  shows "vs_version vs' = vs_version vs" "vs_user_comparator vs' = vs_user_comparator vs"
    "vs_list vs' = vs_list vs" "vs_current vs' = vs_current vs" "vs_next_version vs' = vs_next_version vs"
  using assms by (auto simp: apply_frame_def)

lemma Apply_compact_pointers:
  "\<forall>p \<in> set cps. level_ok (fst p) \<and> snd p \<noteq> [] \<Longrightarrow>
   \<exists>vs'. fold_option Apply_compact_pointer cps vs = Some vs' \<and> apply_frame vs vs' \<and> vs_file vs' = vs_file vs
     \<and> vs_next_file_ptr vs' = vs_next_file_ptr vs
     \<and> vs_compact_pointer vs' = fold (\<lambda>p cp. cp(nat (fst p) := snd p)) cps (vs_compact_pointer vs)"
proof (induction cps arbitrary: vs)
  case Nil
  then show ?case using apply_frame_refl by auto
next
  case (Cons p cps)
  let ?vs = "vs\<lparr>vs_compact_pointer := (vs_compact_pointer vs)(nat (fst p) := snd p)\<rparr>"
  have p: "Apply_compact_pointer p vs = Some ?vs"
    using Cons.prems by (simp add: Apply_compact_pointer_def InternalKey_Encode_def)
  obtain vs' where vs': "fold_option Apply_compact_pointer cps ?vs = Some vs'" "apply_frame ?vs vs'" "vs_file vs' = vs_file ?vs"
    "vs_next_file_ptr vs' = vs_next_file_ptr ?vs"
    "vs_compact_pointer vs' = fold (\<lambda>p cp. cp(nat (fst p) := snd p)) cps (vs_compact_pointer ?vs)"
    using Cons.IH [of ?vs] Cons.prems by (auto simp del: fun_upd_apply)
  have f: "apply_frame vs ?vs"
    unfolding apply_frame_def
    by (intro conjI exI [of _ "vs_compact_pointer ?vs"] exI [of _ "vs_file vs"] exI [of _ "vs_live_files vs"]
      exI [of _ "vs_next_file_ptr vs"]) simp_all
  show ?case using p vs'(1,3-5) apply_frame_trans [OF f vs'(2)] by (intro exI [of _ vs']) (simp del: fun_upd_apply)
qed

text \<open>The invariant of a version: the files of a level are in the order of their smallest keys, and above
  level 0 each one ends before the next one starts.\<close>

definition version_ok :: "(Slice \<Rightarrow> bool) \<Rightarrow> Comparator \<Rightarrow> 'w VersionSet \<Rightarrow> Version \<Rightarrow> bool" where
  "version_ok key cmp vs v \<longleftrightarrow>
     (\<forall>level < kNumLevels.
        (\<forall>f \<in> set (v_files v level). f < vs_next_file_ptr vs \<and> meta_ok key cmp (vs_file vs f))
        \<and> sorted_wrt (BySmallestKey cmp (vs_file vs)) (v_files v level)
        \<and> (level > 0 \<longrightarrow> level_sorted cmp (vs_file vs) (v_files v level)))"

definition level_infos :: "'w VersionSet \<Rightarrow> Version \<Rightarrow> nat \<Rightarrow> file_info set" where
  "level_infos vs v level = (\<lambda>f. file_info (vs_file vs f)) ` set (v_files v level)"

definition disjoint_infos :: "Comparator \<Rightarrow> file_info set \<Rightarrow> bool" where
  "disjoint_infos cmp S \<longleftrightarrow>
     (\<forall>(n, s, a, b) \<in> S. \<forall>(n', s', a', b') \<in> S. (n, s, a, b) \<noteq> (n', s', a', b') \<longrightarrow>
        InternalKey_Compare cmp b a' < 0 \<or> InternalKey_Compare cmp b' a < 0)"

text \<open>The composition of the code: a new version from a base version and edits.\<close>

definition build_version :: "VersionEdit list \<Rightarrow> VersionPtr \<Rightarrow> 'w VersionSet \<Rightarrow> (VersionPtr \<times> 'w VersionSet) option" where
  "build_version edits base vs =
     (let (v, vs) = allocate_version new_Version vs;
          (b, vs) = new_Builder base vs
      in Option.bind (fold_option Builder_Apply edits (b, vs)) (\<lambda>(b, vs).
         Option.bind (SaveTo b v vs) (\<lambda>vs.
         Option.bind (delete_Builder b vs) (\<lambda>vs. Some (v, vs)))))"

lemma level_sorted_no_overlap: "level_sorted cmp h fs \<Longrightarrow> no_overlap_in_level cmp h fs"
  by (induction cmp h fs rule: no_overlap_in_level.induct) (auto simp: level_sorted_def)

lemma file_unref_frame:
  "\<exists>h live. fold file_unref fs vs = vs\<lparr>vs_file := h, vs_live_files := live\<rparr> \<and> same_info h (vs_file vs)"
proof (induction fs arbitrary: vs)
  case Nil
  then show ?case by (intro exI [of _ "vs_file vs"] exI [of _ "vs_live_files vs"]) simp
next
  case (Cons f fs)
  obtain h live where h: "fold file_unref fs (file_unref f vs) = (file_unref f vs)\<lparr>vs_file := h, vs_live_files := live\<rparr>"
    "same_info h (vs_file (file_unref f vs))"
    using Cons by blast
  have "(file_unref f vs)\<lparr>vs_file := h, vs_live_files := live\<rparr> = vs\<lparr>vs_file := h, vs_live_files := live\<rparr>"
    by (simp add: file_unref_def Let_def)
  moreover have "same_info (vs_file (file_unref f vs)) (vs_file vs)"
    by (simp add: file_unref_def Let_def same_info_add_ref)
  ultimately show ?case using h same_info_trans by auto
qed

lemma file_unref_frame_levels:
  "\<exists>h live. fold (\<lambda>level. fold file_unref (g level)) levels vs = vs\<lparr>vs_file := h, vs_live_files := live\<rparr>
    \<and> same_info h (vs_file vs)"
proof -
  have "fold (\<lambda>level. fold file_unref (g level)) levels vs = fold file_unref (concat (map g levels)) vs"
    by (induction levels arbitrary: vs) simp_all
  then show ?thesis using file_unref_frame [of "concat (map g levels)" vs] by simp
qed

lemma same_info_meta_ok:
  assumes "same_info h h'"
  shows "meta_ok key cmp (h f) = meta_ok key cmp (h' f)" "file_info (h f) = file_info (h' f)"
    "level_sorted cmp h fs = level_sorted cmp h' fs"
  using assms same_infoD [OF assms] by (simp_all add: meta_ok_def level_sorted_def same_info_def)

lemma same_info_version_ok:
  assumes "same_info (vs_file vs) (vs_file vs')" "vs_next_file_ptr vs' = vs_next_file_ptr vs"
  shows "version_ok key cmp vs v = version_ok key cmp vs' v" "level_infos vs v level = level_infos vs' v level"
  using assms same_info_meta_ok [OF assms(1)] same_info_BySmallestKey [OF assms(1)]
  by (simp_all add: version_ok_def level_infos_def)

context comparator
begin

lemma BySmallestKey_iff:
  assumes "meta_ok key cmp (h a)" "meta_ok key cmp (h b)"
  shows "BySmallestKey cmp h a b \<longleftrightarrow> InternalKey_Compare cmp (fm_smallest (h a)) (fm_smallest (h b)) < 0
    \<or> fm_smallest (h a) = fm_smallest (h b) \<and> fm_number (h a) < fm_number (h b)"
  using ikc_eq_iff [OF meta_okD(1) [OF assms(1)] meta_okD(1) [OF assms(2)]]
  by (auto simp: BySmallestKey_def Let_def)

lemma BySmallestKey_trans:
  assumes "BySmallestKey cmp h a b" "BySmallestKey cmp h b c"
    and ok: "meta_ok key cmp (h a)" "meta_ok key cmp (h b)" "meta_ok key cmp (h c)"
  shows "BySmallestKey cmp h a c"
  using assms(1,2) ikc_less_trans [OF meta_okD(1) [OF ok(1)] meta_okD(1) [OF ok(2)] meta_okD(1) [OF ok(3)]]
  unfolding BySmallestKey_iff [OF ok(1,2)] BySmallestKey_iff [OF ok(2,3)] BySmallestKey_iff [OF ok(1,3)]
  by (elim disjE conjE) (simp_all add: order.strict_trans)

lemma BySmallestKey_total:
  assumes ok: "meta_ok key cmp (h a)" "meta_ok key cmp (h b)" and "fm_number (h a) \<noteq> fm_number (h b)"
  shows "BySmallestKey cmp h a b \<or> BySmallestKey cmp h b a"
  using assms(3) comparator.linear [OF internal_comparator meta_okD(1) [OF ok(1)] meta_okD(1) [OF ok(2)]]
  unfolding BySmallestKey_iff [OF ok] BySmallestKey_iff [OF ok(2,1)] by auto

definition builder_inv :: "Builder \<Rightarrow> 'w VersionSet \<Rightarrow> bool" where
  "builder_inv b vs \<longleftrightarrow> vs_user_comparator vs = cmp
     \<and> (\<forall>level < kNumLevels.
          (\<forall>f \<in> builder_files b vs level. f < vs_next_file_ptr vs \<and> meta_ok key cmp (vs_file vs f))
          \<and> sorted_wrt (BySmallestKey cmp (vs_file vs)) (v_files (vs_version vs (vb_base b)) level)
          \<and> sorted_wrt (BySmallestKey cmp (vs_file vs)) (ls_added_files (vb_levels b level))
          \<and> (\<forall>f \<in> set (ls_added_files (vb_levels b level)). \<forall>g \<in> set (v_files (vs_version vs (vb_base b)) level).
               fm_number (vs_file vs f) \<noteq> fm_number (vs_file vs g)))"

text \<open>A change that keeps the files there are keeps what a builder has collected.\<close>

lemma frame_builder_files: "apply_frame vs vs' \<Longrightarrow> builder_files b vs' = builder_files b vs"
  by (intro ext) (simp add: builder_files_def apply_frame_simps)

lemma frame_file:
  assumes "builder_inv b vs" "apply_frame vs vs'" "level < kNumLevels" "f \<in> builder_files b vs level"
  shows "vs_file vs' f = vs_file vs f"
  using assms by (auto simp: builder_inv_def apply_frame_def)

lemma frame_contents:
  assumes "builder_inv b vs" "apply_frame vs vs'" "level < kNumLevels"
  shows "contents b vs' level = contents b vs level" "seen_numbers b vs' level = seen_numbers b vs level"
  using frame_file [OF assms] frame_builder_files [OF assms(2)]
  by (force simp: contents_def seen_numbers_def)+

lemma sorted_by_key_same:
  "(\<And>f. f \<in> set fs \<Longrightarrow> h f = h' f) \<Longrightarrow>
   sorted_wrt (BySmallestKey cmp h) fs \<longleftrightarrow> sorted_wrt (BySmallestKey cmp h') fs"
  by (induction fs) (auto simp: BySmallestKey_def)

lemma frame_builder_inv:
  assumes "builder_inv b vs" "apply_frame vs vs'"
  shows "builder_inv b vs'"
  unfolding builder_inv_def
proof (intro conjI allI impI)
  show "vs_user_comparator vs' = cmp" using assms by (simp add: apply_frame_simps builder_inv_def)
  fix level assume l: "level < kNumLevels"
  note same = frame_file [OF assms l]
  have B: "vs_version vs' = vs_version vs" "builder_files b vs' level = builder_files b vs level"
    "vs_next_file_ptr vs \<le> vs_next_file_ptr vs'"
    using assms(2) frame_builder_files [OF assms(2)] apply_frame_simps(1) [OF assms(2)] by (simp_all add: apply_frame_def)
  have old: "\<forall>f \<in> builder_files b vs level. f < vs_next_file_ptr vs \<and> meta_ok key cmp (vs_file vs f)"
    "sorted_wrt (BySmallestKey cmp (vs_file vs)) (v_files (vs_version vs (vb_base b)) level)"
    "sorted_wrt (BySmallestKey cmp (vs_file vs)) (ls_added_files (vb_levels b level))"
    "\<forall>f \<in> set (ls_added_files (vb_levels b level)). \<forall>g \<in> set (v_files (vs_version vs (vb_base b)) level).
       fm_number (vs_file vs f) \<noteq> fm_number (vs_file vs g)"
    using assms(1) l by (simp_all add: builder_inv_def)
  show "\<forall>f \<in> builder_files b vs' level. f < vs_next_file_ptr vs' \<and> meta_ok key cmp (vs_file vs' f)"
    using old(1) same B by (auto intro: order.strict_trans2)
  show "sorted_wrt (BySmallestKey cmp (vs_file vs')) (v_files (vs_version vs' (vb_base b)) level)"
    "sorted_wrt (BySmallestKey cmp (vs_file vs')) (ls_added_files (vb_levels b level))"
    using old(2,3) same B(1) sorted_by_key_same [of _ "vs_file vs'" "vs_file vs"] by (auto simp: builder_files_def)
  show "\<forall>f \<in> set (ls_added_files (vb_levels b level)). \<forall>g \<in> set (v_files (vs_version vs' (vb_base b)) level).
       fm_number (vs_file vs' f) \<noteq> fm_number (vs_file vs' g)"
    using old(4) same B(1) by (auto simp: builder_files_def)
qed

lemma allocate_frame: "apply_frame vs (snd (allocate_file m vs))"
  unfolding apply_frame_def allocate_file_def Let_def
  by (intro conjI exI [of _ "vs_compact_pointer vs"] exI [of _ "(vs_file vs)(vs_next_file_ptr vs := m)"]
      exI [of _ "insert (vs_next_file_ptr vs) (vs_live_files vs)"] exI [of _ "vs_next_file_ptr vs + 1"]) simp_all

lemma Apply_new_file_inv:
  assumes inv: "builder_inv b vs" and ok: "level_ok l" "meta_ok key cmp m"
    and fresh: "fm_number m \<notin> seen_numbers b vs (nat l)"
  shows "\<exists>b' vs'. Apply_new_file (l, m) (b, vs) = Some (b', vs') \<and> builder_inv b' vs' \<and> apply_frame vs vs'
    \<and> vb_base b' = vb_base b
    \<and> (\<forall>level < kNumLevels. contents b' vs' level = contents b vs level \<union> (if level = nat l then {file_info m} else {})
         \<and> seen_numbers b' vs' level = seen_numbers b vs level \<union> (if level = nat l then {fm_number m} else {}))"
proof -
  define m' where "m' = m\<lparr>fm_refs := 1, fm_allowed_seeks := allowed_seeks_of (fm_file_size m)\<rparr>"
  define p vs' where "p = vs_next_file_ptr vs" and "vs' = snd (allocate_file m' vs)"
  have alloc: "allocate_file m' vs = (p, vs')" by (simp add: p_def vs'_def allocate_file_def Let_def)
  have fr: "apply_frame vs vs'" unfolding vs'_def by (rule allocate_frame)
  have inv': "builder_inv b vs'" by (rule frame_builder_inv [OF inv fr])
  have p: "vs_file vs' p = m'" "p < vs_next_file_ptr vs'"
    by (simp_all add: p_def vs'_def allocate_file_def Let_def)
  have info: "file_info m' = file_info m" "fm_number m' = fm_number m" "meta_ok key cmp m'"
    using ok(2) by (simp_all add: m'_def file_info_def meta_ok_def)
  let ?L = "nat l" and ?lt = "BySmallestKey cmp (vs_file vs')"
  have L: "?L < kNumLevels" using ok(1) by (auto simp: level_ok_def nat_less_iff)
  have c: "vs_user_comparator vs' = cmp" using inv' by (simp add: builder_inv_def)
  define b' where "b' = update_level (\<lambda>ls. ls\<lparr>ls_deleted_files := ls_deleted_files ls - {fm_number m},
      ls_added_files := FileSet_insert ?lt p (ls_added_files ls)\<rparr>) ?L b"
  have step: "Apply_new_file (l, m) (b, vs) = Some (b', vs')"
    using ok(1) alloc p(1) info(2) c unfolding Apply_new_file_def m'_def [symmetric] fst_conv snd_conv b'_def
    by (simp add: Let_def)
  have files: "g < vs_next_file_ptr vs'" "meta_ok key cmp (vs_file vs' g)"
    if "level < kNumLevels" "g \<in> builder_files b vs' level" for g level
    using inv' that by (auto simp: builder_inv_def)
  have new: "fm_number (vs_file vs' p) \<noteq> fm_number (vs_file vs' g)" if "g \<in> builder_files b vs' ?L" for g
  proof -
    have "fm_number m \<notin> seen_numbers b vs' ?L" using fresh frame_contents(2) [OF inv fr L] by simp
    then show ?thesis using that p(1) info(2) by (auto simp: seen_numbers_def)
  qed
  have neq: "fm_number (vs_file vs' g) = fm_number m \<longleftrightarrow> False" if "g \<in> builder_files b vs' ?L" for g
    using new [OF that] p(1) info(2) by simp
  let ?added = "ls_added_files (vb_levels b ?L)"
  have added: "set ?added \<subseteq> builder_files b vs' ?L" by (simp add: builder_files_def)
  have total: "?lt p g \<or> ?lt g p" if "g \<in> set ?added" for g
    using that added files(2) [OF L] new p(1) info(3) by (intro BySmallestKey_total) auto
  have ins: "set (FileSet_insert ?lt p ?added) = insert p (set ?added)"
    by (rule FileSet_insert_set) (rule total)
  have ok_ins: "meta_ok key cmp (vs_file vs' x)" if "x \<in> insert p (set ?added)" for x
    using that added files(2) [OF L] p(1) info(3) by auto
  have sorted: "sorted_wrt ?lt (FileSet_insert ?lt p ?added)"
  proof (rule FileSet_insert_sorted)
    show "sorted_wrt ?lt ?added" using inv' L by (simp add: builder_inv_def)
    show "?lt x z" if "?lt x y" "?lt y z" "x \<in> insert p (set ?added)" "y \<in> insert p (set ?added)"
      "z \<in> insert p (set ?added)" for x y z
      by (rule BySmallestKey_trans [OF that(1,2) ok_ins [OF that(3)] ok_ins [OF that(4)] ok_ins [OF that(5)]])
  qed (rule total)
  have base: "vb_base b' = vb_base b" by (simp add: b'_def update_level_def)
  have bf: "builder_files b' vs' level = builder_files b vs' level \<union> (if level = ?L then {p} else {})" for level
    using ins by (auto simp: builder_files_def b'_def update_level_def)
  have added': "ls_added_files (vb_levels b' level) = (if level = ?L then FileSet_insert ?lt p ?added else ls_added_files (vb_levels b level))"
    "ls_deleted_files (vb_levels b' level) = ls_deleted_files (vb_levels b level) - (if level = ?L then {fm_number m} else {})" for level
    by (simp_all add: b'_def update_level_def)
  have "builder_inv b' vs'"
    unfolding builder_inv_def
  proof (intro conjI allI impI)
    show "vs_user_comparator vs' = cmp" by (rule c)
    fix level assume l: "level < kNumLevels"
    show "\<forall>f \<in> builder_files b' vs' level. f < vs_next_file_ptr vs' \<and> meta_ok key cmp (vs_file vs' f)"
      using files [OF l] p info(3) unfolding bf by auto
    show "sorted_wrt ?lt (v_files (vs_version vs' (vb_base b')) level)"
      using inv' l by (simp add: base builder_inv_def)
    show "sorted_wrt ?lt (ls_added_files (vb_levels b' level))"
      using inv' l sorted by (simp add: added' builder_inv_def)
    show "\<forall>f \<in> set (ls_added_files (vb_levels b' level)). \<forall>g \<in> set (v_files (vs_version vs' (vb_base b')) level).
        fm_number (vs_file vs' f) \<noteq> fm_number (vs_file vs' g)"
      using inv' l new ins unfolding base added'(1) by (auto simp: builder_inv_def builder_files_def)
  qed
  moreover have "contents b' vs' level = contents b vs level \<union> (if level = ?L then {file_info m} else {})"
    if l: "level < kNumLevels" for level
  proof (cases "level = ?L")
    case True
    have "{f \<in> builder_files b' vs' ?L. fm_number (vs_file vs' f) \<notin> ls_deleted_files (vb_levels b' ?L)}
      = insert p {f \<in> builder_files b vs' ?L. fm_number (vs_file vs' f) \<notin> ls_deleted_files (vb_levels b ?L)}"
      using neq p(1) info(2) unfolding bf added'(2) by auto
    then have "contents b' vs' ?L = insert (file_info m) (contents b vs' ?L)"
      using p(1) info(1) by (simp add: contents_def)
    then show ?thesis using True frame_contents(1) [OF inv fr l] by simp
  next
    case False
    then have "contents b' vs' level = contents b vs' level" by (simp add: contents_def bf added'(2))
    then show ?thesis using False frame_contents(1) [OF inv fr l] by simp
  qed
  moreover have "seen_numbers b' vs' level = seen_numbers b vs level \<union> (if level = ?L then {fm_number m} else {})"
    if l: "level < kNumLevels" for level
  proof -
    have "seen_numbers b' vs' level = seen_numbers b vs' level \<union> (if level = ?L then {fm_number m} else {})"
      using p(1) info(2) by (simp add: seen_numbers_def bf)
    then show ?thesis using frame_contents(2) [OF inv fr l] by simp
  qed
  ultimately show ?thesis using step fr base by blast
qed

lemma Apply_new_files_inv:
  assumes "builder_inv b vs" "\<forall>p \<in> set nfs. level_ok (fst p) \<and> meta_ok key cmp (snd p)"
    and "\<forall>level < kNumLevels. distinct (new_numbers level nfs) \<and> set (new_numbers level nfs) \<inter> seen_numbers b vs level = {}"
  shows "\<exists>b' vs'. fold_option Apply_new_file nfs (b, vs) = Some (b', vs') \<and> builder_inv b' vs' \<and> apply_frame vs vs'
    \<and> vb_base b' = vb_base b
    \<and> (\<forall>level < kNumLevels. contents b' vs' level = contents b vs level \<union> new_infos level nfs
         \<and> seen_numbers b' vs' level = seen_numbers b vs level \<union> set (new_numbers level nfs))"
  using assms
proof (induction nfs arbitrary: b vs)
  case Nil
  then show ?case using apply_frame_refl by (simp add: new_infos_def new_numbers_def)
next
  case (Cons p nfs)
  obtain l m where p: "p = (l, m)" by fastforce
  have lm: "level_ok l" "meta_ok key cmp m" using Cons.prems(2) p by auto
  then have L: "nat l < kNumLevels" by (auto simp: level_ok_def nat_less_iff)
  have nums: "new_numbers level (p # nfs) = (if nat l = level then [fm_number m] else []) @ new_numbers level nfs"
    "new_infos level (p # nfs) = (if nat l = level then {file_info m} else {}) \<union> new_infos level nfs" for level
    by (simp_all add: new_numbers_def new_infos_def p)
  have "fm_number m \<notin> seen_numbers b vs (nat l)"
    using Cons.prems(3) L unfolding nums(1) by auto
  then obtain b1 vs1 where 1: "Apply_new_file (l, m) (b, vs) = Some (b1, vs1)" "builder_inv b1 vs1" "apply_frame vs vs1"
    "vb_base b1 = vb_base b"
    "\<forall>level < kNumLevels. contents b1 vs1 level = contents b vs level \<union> (if level = nat l then {file_info m} else {})
       \<and> seen_numbers b1 vs1 level = seen_numbers b vs level \<union> (if level = nat l then {fm_number m} else {})"
    using Apply_new_file_inv [OF Cons.prems(1) lm] by blast
  have "distinct (new_numbers level nfs) \<and> set (new_numbers level nfs) \<inter> seen_numbers b1 vs1 level = {}"
    if "level < kNumLevels" for level
  proof -
    have "distinct (new_numbers level (p # nfs))" "set (new_numbers level (p # nfs)) \<inter> seen_numbers b vs level = {}"
      using Cons.prems(3) that by blast+
    then show ?thesis using 1(5) that unfolding nums(1) by (cases "level = nat l") auto
  qed
  then obtain b' vs' where 2: "fold_option Apply_new_file nfs (b1, vs1) = Some (b', vs')" "builder_inv b' vs'"
    "apply_frame vs1 vs'" "vb_base b' = vb_base b1"
    "\<forall>level < kNumLevels. contents b' vs' level = contents b1 vs1 level \<union> new_infos level nfs
       \<and> seen_numbers b' vs' level = seen_numbers b1 vs1 level \<union> set (new_numbers level nfs)"
    using Cons.IH [OF 1(2)] Cons.prems(2) by (meson list.set_intros(2))
  have "contents b' vs' level = contents b vs level \<union> new_infos level (p # nfs)
      \<and> seen_numbers b' vs' level = seen_numbers b vs level \<union> set (new_numbers level (p # nfs))"
    if "level < kNumLevels" for level
    using 1(5) 2(5) that unfolding nums by (cases "level = nat l") auto
  moreover have "fold_option Apply_new_file (p # nfs) (b, vs) = Some (b', vs')" using 1(1) 2(1) p by simp
  ultimately show ?case
    using 2(2) apply_frame_trans [OF 1(3) 2(3)] 1(4) 2(4) by (intro exI [of _ b'] exI [of _ vs']) simp
qed

lemma Apply_deleted_inv:
  assumes inv: "builder_inv b vs" and ok: "\<forall>p \<in> del. level_ok (fst p)"
  shows "\<exists>b'. Apply_deleted del b = Some b' \<and> builder_inv b' vs \<and> vb_base b' = vb_base b
    \<and> (\<forall>level. contents b' vs level = {i \<in> contents b vs level. (int level, fst i) \<notin> del}
         \<and> seen_numbers b' vs level = seen_numbers b vs level)"
proof -
  define b' where "b' = b\<lparr>vb_levels := (\<lambda>level. let ls = vb_levels b level
      in ls\<lparr>ls_deleted_files := ls_deleted_files ls \<union> snd ` {p \<in> del. nat (fst p) = level}\<rparr>)\<rparr>"
  have a: "Apply_deleted del b = Some b'" using ok by (simp add: Apply_deleted_def b'_def)
  have base: "vb_base b' = vb_base b" "ls_added_files (vb_levels b' level) = ls_added_files (vb_levels b level)"
    "ls_deleted_files (vb_levels b' level) = ls_deleted_files (vb_levels b level) \<union> snd ` {p \<in> del. nat (fst p) = level}" for level
    by (simp_all add: b'_def Let_def)
  then have bf: "builder_files b' vs level = builder_files b vs level" for level by (simp add: builder_files_def)
  have del: "n \<in> snd ` {p \<in> del. nat (fst p) = level} \<longleftrightarrow> (int level, n) \<in> del" for n level
    using ok by (force simp: level_ok_def)
  have "contents b' vs level = {i \<in> contents b vs level. (int level, fst i) \<notin> del}" for level
    unfolding contents_def bf base(3) Un_iff del by (auto simp: file_info_def)
  moreover have "builder_inv b' vs" using inv unfolding builder_inv_def base bf .
  ultimately show ?thesis using a base(1) bf by (auto simp: seen_numbers_def)
qed

lemma Builder_Apply_inv:
  assumes inv: "builder_inv b vs" and ok: "edit_ok key cmp e"
    and fresh: "\<forall>level < kNumLevels. distinct (new_numbers level (ve_new_files e))
      \<and> set (new_numbers level (ve_new_files e)) \<inter> seen_numbers b vs level = {}"
  shows "\<exists>b' vs'. Builder_Apply e (b, vs) = Some (b', vs') \<and> builder_inv b' vs' \<and> apply_frame vs vs'
    \<and> vb_base b' = vb_base b
    \<and> (\<forall>level < kNumLevels. contents b' vs' level = edit_level level e (contents b vs level)
         \<and> seen_numbers b' vs' level = seen_numbers b vs level \<union> set (new_numbers level (ve_new_files e)))"
proof -
  have e: "\<forall>p \<in> set (ve_compact_pointers e). level_ok (fst p) \<and> snd p \<noteq> []" "\<forall>p \<in> ve_deleted_files e. level_ok (fst p)"
    "\<forall>p \<in> set (ve_new_files e). level_ok (fst p) \<and> meta_ok key cmp (snd p)"
    using ok by (simp_all add: edit_ok_def)
  obtain vs1 where 1: "fold_option Apply_compact_pointer (ve_compact_pointers e) vs = Some vs1" "apply_frame vs vs1"
    using Apply_compact_pointers [OF e(1)] by blast
  note inv1 = frame_builder_inv [OF inv 1(2)]
  obtain b1 where 2: "Apply_deleted (ve_deleted_files e) b = Some b1" "builder_inv b1 vs1" "vb_base b1 = vb_base b"
    "\<forall>level. contents b1 vs1 level = {i \<in> contents b vs1 level. (int level, fst i) \<notin> ve_deleted_files e}
       \<and> seen_numbers b1 vs1 level = seen_numbers b vs1 level"
    using Apply_deleted_inv [OF inv1 e(2)] by blast
  have same: "contents b vs1 level = contents b vs level" "seen_numbers b vs1 level = seen_numbers b vs level"
    if "level < kNumLevels" for level
    using frame_contents [OF inv 1(2) that] by auto
  obtain b' vs' where 3: "fold_option Apply_new_file (ve_new_files e) (b1, vs1) = Some (b', vs')" "builder_inv b' vs'"
    "apply_frame vs1 vs'" "vb_base b' = vb_base b1"
    "\<forall>level < kNumLevels. contents b' vs' level = contents b1 vs1 level \<union> new_infos level (ve_new_files e)
       \<and> seen_numbers b' vs' level = seen_numbers b1 vs1 level \<union> set (new_numbers level (ve_new_files e))"
    using Apply_new_files_inv [OF 2(2) e(3)] fresh 2(4) same by auto
  have "Builder_Apply e (b, vs) = Some (b', vs')" using 1(1) 2(1) 3(1) by (simp add: Builder_Apply_def)
  then show ?thesis
    using 3(2,4,5) 2(3,4) same apply_frame_trans [OF 1(2) 3(3)]
    by (intro exI [of _ b'] exI [of _ vs']) (simp add: edit_level_def)
qed

lemma Builder_Apply_all:
  assumes "builder_inv b vs" "\<forall>e \<in> set es. edit_ok key cmp e"
    and "\<forall>level < kNumLevels. fresh_numbers level es (seen_numbers b vs level)"
  shows "\<exists>b' vs'. fold_option Builder_Apply es (b, vs) = Some (b', vs') \<and> builder_inv b' vs' \<and> apply_frame vs vs'
    \<and> vb_base b' = vb_base b
    \<and> (\<forall>level < kNumLevels. contents b' vs' level = fold (edit_level level) es (contents b vs level))"
  using assms
proof (induction es arbitrary: b vs)
  case Nil
  then show ?case using apply_frame_refl by simp
next
  case (Cons e es)
  obtain b1 vs1 where 1: "Builder_Apply e (b, vs) = Some (b1, vs1)" "builder_inv b1 vs1" "apply_frame vs vs1"
    "vb_base b1 = vb_base b"
    "\<forall>level < kNumLevels. contents b1 vs1 level = edit_level level e (contents b vs level)
       \<and> seen_numbers b1 vs1 level = seen_numbers b vs level \<union> set (new_numbers level (ve_new_files e))"
    using Builder_Apply_inv [OF Cons.prems(1), of e] Cons.prems(2,3) by auto
  have "\<forall>level < kNumLevels. fresh_numbers level es (seen_numbers b1 vs1 level)"
    using Cons.prems(3) 1(5) by simp
  then obtain b' vs' where 2: "fold_option Builder_Apply es (b1, vs1) = Some (b', vs')" "builder_inv b' vs'"
    "apply_frame vs1 vs'" "vb_base b' = vb_base b1"
    "\<forall>level < kNumLevels. contents b' vs' level = fold (edit_level level) es (contents b1 vs1 level)"
    using Cons.IH [OF 1(2)] Cons.prems(2) by auto
  show ?case
    using 1(1,4,5) 2(1,2,4,5) apply_frame_trans [OF 1(3) 2(3)]
    by (intro exI [of _ b'] exI [of _ vs']) simp
qed

text \<open>Files in the order of their smallest keys that do not overlap each other end before the next starts.\<close>

lemma disjoint_level_sorted:
  assumes "sorted_wrt (BySmallestKey cmp h) fs" "\<forall>f \<in> set fs. meta_ok key cmp (h f)"
    and "disjoint_infos cmp ((\<lambda>f. file_info (h f)) ` set fs)"
  shows "level_sorted cmp h fs"
  unfolding level_sorted_def
proof (rule sorted_wrt_mono_rel [OF _ assms(1)])
  fix f g assume fg: "f \<in> set fs" "g \<in> set fs" "BySmallestKey cmp h f g"
  note ok = assms(2) [rule_format, OF fg(1)] assms(2) [rule_format, OF fg(2)]
  note k = meta_okD [OF ok(1)] meta_okD [OF ok(2)]
  have le: "InternalKey_Compare cmp (fm_smallest (h f)) (fm_smallest (h g)) \<le> 0"
    using fg(3) ikc_eq_iff [OF k(6,6)] unfolding BySmallestKey_iff [OF ok] by auto
  have "file_info (h f) \<noteq> file_info (h g)"
    using fg(3) ikc_eq_iff [OF k(6,6)] unfolding BySmallestKey_iff [OF ok] by (auto simp: file_info_def)
  then consider "InternalKey_Compare cmp (fm_largest (h f)) (fm_smallest (h g)) < 0"
    | "InternalKey_Compare cmp (fm_largest (h g)) (fm_smallest (h f)) < 0"
    using assms(3) fg(1,2) by (fastforce simp: disjoint_infos_def file_info_def)
  then show "InternalKey_Compare cmp (fm_largest (h f)) (fm_smallest (h g)) < 0"
  proof cases
    case 2
    then have "InternalKey_Compare cmp (fm_largest (h g)) (fm_smallest (h g)) < 0"
      using ikc_less_le [OF k(7,1,6) _ le] by blast
    then show ?thesis using k(10) ikc_not_less [OF k(7,6)] by simp
  qed
qed

text \<open>And conversely.\<close>

lemma no_overlap_level_sorted:
  "no_overlap_in_level cmp h fs \<Longrightarrow> \<forall>f \<in> set fs. meta_ok key cmp (h f) \<Longrightarrow> level_sorted cmp h fs"
proof (induction fs)
  case (Cons f fs)
  show ?case
  proof (cases fs)
    case g: (Cons g gs)
    have lt: "InternalKey_Compare cmp (fm_largest (h f)) (fm_smallest (h g)) < 0" and rest: "level_sorted cmp h fs"
      using Cons by (auto simp: g)
    have ok: "meta_ok key cmp (h f)" "meta_ok key cmp (h g)" using Cons.prems(2) g by auto
    note k = meta_okD [OF ok(1)] meta_okD [OF ok(2)]
    have "InternalKey_Compare cmp (fm_largest (h f)) (fm_smallest (h x)) < 0" if x: "x \<in> set gs" for x
    proof -
      have okx: "meta_ok key cmp (h x)" using Cons.prems(2) g x by simp
      have "InternalKey_Compare cmp (fm_largest (h g)) (fm_smallest (h x)) < 0"
        using rest x unfolding g level_sorted_def by simp
      then show ?thesis
        using ikc_less_trans [OF k(2,7) meta_okD(1) [OF okx] ikc_less_le [OF k(2,6,7) lt k(10)]] by blast
    qed
    then show ?thesis using lt rest unfolding g level_sorted_def by simp
  qed (simp add: level_sorted_def)
qed (simp add: level_sorted_def)

lemma level_sorted_disjoint:
  assumes "level_sorted cmp h fs"
  shows "disjoint_infos cmp ((\<lambda>f. file_info (h f)) ` set fs)"
proof -
  have "InternalKey_Compare cmp (fm_largest (h f)) (fm_smallest (h g)) < 0
      \<or> InternalKey_Compare cmp (fm_largest (h g)) (fm_smallest (h f)) < 0"
    if "f \<in> set fs" "g \<in> set fs" "f \<noteq> g" for f g
    using assms that unfolding level_sorted_def by (induction fs) auto
  then show ?thesis unfolding disjoint_infos_def file_info_def by fastforce
qed

lemma saved_files_infos:
  assumes inv: "builder_inv b vs" and l: "level < kNumLevels"
  shows "sorted_wrt (BySmallestKey cmp (vs_file vs)) (saved_files b vs level)"
    and "\<forall>f \<in> set (saved_files b vs level). f < vs_next_file_ptr vs \<and> meta_ok key cmp (vs_file vs f)"
    and "(\<lambda>f. file_info (vs_file vs f)) ` set (saved_files b vs level) = contents b vs level"
proof -
  let ?lt = "BySmallestKey cmp (vs_file vs)"
  let ?base = "v_files (vs_version vs (vb_base b)) level" and ?added = "ls_added_files (vb_levels b level)"
  have c: "vs_user_comparator vs = cmp" and sorted: "sorted_wrt ?lt ?base" "sorted_wrt ?lt ?added"
    and files: "\<forall>f \<in> set ?base \<union> set ?added. f < vs_next_file_ptr vs \<and> meta_ok key cmp (vs_file vs f)"
    and nums: "\<forall>f \<in> set ?added. \<forall>g \<in> set ?base. fm_number (vs_file vs f) \<noteq> fm_number (vs_file vs g)"
    using inv l by (auto simp: builder_inv_def builder_files_def)
  have "merge_order ?lt ?base ?added"
    unfolding merge_order_def
    using BySmallestKey_trans BySmallestKey_total files nums by blast
  then have m: "sorted_wrt ?lt (merge_added ?lt ?base ?added)" by (rule merge_added_sorted [OF sorted])
  have s: "saved_files b vs level = kept_files b level (vs_file vs) (merge_added ?lt ?base ?added)"
    by (simp add: saved_files_def c)
  show 1: "sorted_wrt ?lt (saved_files b vs level)"
    unfolding s kept_files_def by (rule sorted_wrt_filter [OF m])
  have set: "set (saved_files b vs level)
      = {f \<in> builder_files b vs level. fm_number (vs_file vs f) \<notin> ls_deleted_files (vb_levels b level)}"
    by (auto simp: s kept_files_def merge_added_set builder_files_def)
  show 2: "\<forall>f \<in> set (saved_files b vs level). f < vs_next_file_ptr vs \<and> meta_ok key cmp (vs_file vs f)"
    using files unfolding set builder_files_def by blast
  show 3: "(\<lambda>f. file_info (vs_file vs f)) ` set (saved_files b vs level) = contents b vs level"
    unfolding set contents_def ..
qed

lemma saved_files_ok:
  assumes inv: "builder_inv b vs" and l: "level < kNumLevels"
    and disjoint: "level > 0 \<Longrightarrow> disjoint_infos cmp (contents b vs level)"
  shows "level > 0 \<Longrightarrow> level_sorted cmp (vs_file vs) (saved_files b vs level)"
    and "saveable b vs level"
proof -
  note saved = saved_files_infos [OF inv l]
  show 1: "level_sorted cmp (vs_file vs) (saved_files b vs level)" if "level > 0"
    using disjoint_level_sorted [OF saved(1)] saved(2,3) disjoint [OF that] by simp
  show "saveable b vs level"
    using 1 level_sorted_no_overlap inv by (auto simp: saveable_def builder_inv_def)
qed

lemma saveable_disjoint:
  assumes inv: "builder_inv b vs" and l: "level < kNumLevels" and "level > 0" "saveable b vs level"
  shows "disjoint_infos cmp (contents b vs level)"
proof -
  note saved = saved_files_infos [OF inv l]
  have "no_overlap_in_level cmp (vs_file vs) (saved_files b vs level)"
    using assms(3,4) inv by (simp add: saveable_def builder_inv_def)
  then have "level_sorted cmp (vs_file vs) (saved_files b vs level)"
    using no_overlap_level_sorted saved(2) by blast
  then show ?thesis using level_sorted_disjoint saved(3) by fastforce
qed

lemma saved_files_subset: "set (saved_files b vs level) \<subseteq> builder_files b vs level"
  by (auto simp: saved_files_def kept_files_def merge_added_set builder_files_def)

text \<open>\<open>SaveTo\<close> makes a version that has the invariant and exactly the files that the edits leave.\<close>

theorem SaveTo_correct:
  assumes inv: "builder_inv b vs" and v: "v \<noteq> vb_base b" "v_files (vs_version vs v) = (\<lambda>_. [])"
    and disjoint: "\<And>level. level < kNumLevels \<Longrightarrow> level > 0 \<Longrightarrow> disjoint_infos cmp (contents b vs level)"
  shows "\<exists>vs'. SaveTo b v vs = Some vs' \<and> version_frame vs vs' \<and> same_info (vs_file vs') (vs_file vs)
    \<and> vs_file vs' = add_refs (all_files (vs_version vs' v)) (vs_file vs)
    \<and> set (all_files (vs_version vs' v)) \<subseteq> (\<Union>level < kNumLevels. builder_files b vs level)
    \<and> (\<forall>p. p \<noteq> v \<longrightarrow> vs_version vs' p = vs_version vs p)
    \<and> version_ok key cmp vs' (vs_version vs' v)
    \<and> (\<forall>level < kNumLevels. level_infos vs' (vs_version vs' v) level = contents b vs level)"
proof -
  note saved = saved_files_infos [OF inv] saved_files_ok [OF inv _ disjoint]
  obtain vs' where vs': "SaveTo b v vs = Some vs'" "version_frame vs vs'"
    "v_files (vs_version vs' v) = (\<lambda>l. if l < kNumLevels then saved_files b vs l else [])"
    "vs_file vs' = add_refs (all_files (vs_version vs' v)) (vs_file vs)"
    "\<forall>p. p \<noteq> v \<longrightarrow> vs_version vs' p = vs_version vs p"
    using SaveTo_saves [OF v] saved(5) by blast
  have same: "same_info (vs_file vs') (vs_file vs)" unfolding vs'(4) by (rule same_info_add_refs)
  have n: "vs_next_file_ptr vs' = vs_next_file_ptr vs" using vs'(2) by (auto simp: version_frame_def)
  have "version_ok key cmp vs (vs_version vs' v)" "\<forall>level < kNumLevels. level_infos vs (vs_version vs' v) level = contents b vs level"
    using saved(1-4) vs'(3) by (simp_all add: version_ok_def level_infos_def)
  moreover have "set (all_files (vs_version vs' v)) \<subseteq> (\<Union>level < kNumLevels. builder_files b vs level)"
    using vs'(3) saved_files_subset by (fastforce simp: all_files_def)
  ultimately show ?thesis
    using vs'(1,2,4,5) same same_info_version_ok [OF same n [symmetric]] by (intro exI [of _ vs']) simp
qed

text \<open>Files that overlap above level 0 fail an assertion of \<open>SaveTo\<close>.\<close>

lemma SaveTo_disjoint:
  assumes inv: "builder_inv b vs" and v: "v \<noteq> vb_base b" "v_files (vs_version vs v) = (\<lambda>_. [])"
    and some: "SaveTo b v vs = Some vs'" and l: "level < kNumLevels" "level > 0"
  shows "disjoint_infos cmp (contents b vs level)"
proof (rule saveable_disjoint [OF inv l])
  show "saveable b vs level"
    by (rule SaveTo_levels_some [OF v(1) distinct_upt _ some [unfolded SaveTo_def]]) (use v(2) l in auto)
qed

end

subsection \<open>The reference counts of a builder\<close>

text \<open>The builder holds one reference to each file that it added, and no file twice. \<open>n0\<close> is the first
  address that was free when the builder was made.\<close>

definition builder_refs :: "FilePtr \<Rightarrow> Builder \<Rightarrow> 'w VersionSet \<Rightarrow> bool" where
  "builder_refs n0 b vs \<longleftrightarrow> n0 \<le> vs_next_file_ptr vs
     \<and> (\<forall>level. distinct (ls_added_files (vb_levels b level))
          \<and> (\<forall>f \<in> set (ls_added_files (vb_levels b level)). n0 \<le> f \<and> f < vs_next_file_ptr vs
               \<and> fm_refs (vs_file vs f) = 1 \<and> f \<in> vs_live_files vs))
     \<and> (\<forall>l l'. l \<noteq> l' \<longrightarrow> set (ls_added_files (vb_levels b l)) \<inter> set (ls_added_files (vb_levels b l')) = {})"

lemma FileSet_insert_subset: "set (FileSet_insert lt f gs) \<subseteq> insert f (set gs)"
  by (induction gs) auto

lemma FileSet_insert_distinct: "distinct gs \<Longrightarrow> f \<notin> set gs \<Longrightarrow> distinct (FileSet_insert lt f gs)"
  using FileSet_insert_subset by (induction gs) (auto, fastforce)

lemma Apply_new_file_refs:
  assumes refs: "builder_refs n0 b vs" and step: "Apply_new_file nf (b, vs) = Some (b', vs')"
  shows "builder_refs n0 b' vs' \<and> vs_live_files vs \<subseteq> vs_live_files vs'"
proof -
  let ?p = "vs_next_file_ptr vs"
  define m where "m = (snd nf)\<lparr>fm_refs := 1, fm_allowed_seeks := allowed_seeks_of (fm_file_size (snd nf))\<rparr>"
  have vs': "vs' = snd (allocate_file m vs)" and L: "\<exists>lt d. b' = update_level (\<lambda>ls. ls\<lparr>ls_deleted_files := ls_deleted_files ls - {d},
      ls_added_files := FileSet_insert lt ?p (ls_added_files ls)\<rparr>) (nat (fst nf)) b"
    using step by (auto simp: Apply_new_file_def allocate_file_def Let_def m_def split: if_splits)
  then obtain lt d where b': "b' = update_level (\<lambda>ls. ls\<lparr>ls_deleted_files := ls_deleted_files ls - {d},
      ls_added_files := FileSet_insert lt ?p (ls_added_files ls)\<rparr>) (nat (fst nf)) b" by blast
  have new: "vs_next_file_ptr vs' = ?p + 1" "vs_live_files vs' = insert ?p (vs_live_files vs)" "fm_refs (vs_file vs' ?p) = 1"
    "\<And>f. f \<noteq> ?p \<Longrightarrow> vs_file vs' f = vs_file vs f"
    by (simp_all add: vs' allocate_file_def Let_def m_def)
  have fresh: "?p \<notin> set (ls_added_files (vb_levels b level))" for level
    using refs by (auto simp: builder_refs_def)
  have added: "ls_added_files (vb_levels b' level) = (if level = nat (fst nf) then FileSet_insert lt ?p (ls_added_files (vb_levels b level))
      else ls_added_files (vb_levels b level))" for level
    by (simp add: b' update_level_def)
  then have sub: "set (ls_added_files (vb_levels b' level)) \<subseteq> (if level = nat (fst nf) then {?p} else {}) \<union> set (ls_added_files (vb_levels b level))" for level
    using FileSet_insert_subset [of lt ?p "ls_added_files (vb_levels b level)"] by auto
  have old: "n0 \<le> f \<and> f < ?p \<and> fm_refs (vs_file vs f) = 1 \<and> f \<in> vs_live_files vs" "f \<noteq> ?p"
    if "f \<in> set (ls_added_files (vb_levels b level))" for f level
    using refs that by (auto simp: builder_refs_def)
  have "n0 \<le> f \<and> f < vs_next_file_ptr vs' \<and> fm_refs (vs_file vs' f) = 1 \<and> f \<in> vs_live_files vs'"
    if f: "f \<in> set (ls_added_files (vb_levels b' level))" for f level
  proof (cases "f = ?p")
    case True
    then show ?thesis using new refs by (simp add: builder_refs_def)
  next
    case False
    then have "f \<in> set (ls_added_files (vb_levels b level))" using f sub [of level] by (auto split: if_splits)
    then show ?thesis using old(1) new(1,2) new(4) [OF False] by fastforce
  qed
  moreover have "distinct (ls_added_files (vb_levels b' level))" for level
    using refs FileSet_insert_distinct [OF _ fresh] unfolding added by (simp add: builder_refs_def)
  moreover have "set (ls_added_files (vb_levels b' l)) \<inter> set (ls_added_files (vb_levels b' l')) = {}" if "l \<noteq> l'" for l l'
  proof -
    have "set (ls_added_files (vb_levels b l)) \<inter> set (ls_added_files (vb_levels b l')) = {}"
      using refs that by (simp add: builder_refs_def)
    then show ?thesis using sub [of l] sub [of l'] fresh that by (auto split: if_splits)
  qed
  ultimately show ?thesis using refs new(1,2) by (auto simp: builder_refs_def)
qed

lemma fold_option_refs:
  assumes "\<And>x s s'. Q s \<Longrightarrow> step x s = Some s' \<Longrightarrow> Q s'" "Q s" "fold_option step xs s = Some s'"
  shows "Q s'"
  using assms(2,3)
proof (induction xs arbitrary: s)
  case (Cons x xs)
  then show ?case using assms(1) by (auto simp: bind_eq_Some_conv)
qed simp

lemma Apply_compact_pointer_files:
  "Apply_compact_pointer p s = Some s' \<Longrightarrow> vs_file s' = vs_file s \<and> vs_live_files s' = vs_live_files s
    \<and> vs_next_file_ptr s' = vs_next_file_ptr s"
  by (auto simp: Apply_compact_pointer_def bind_eq_Some_conv split: if_splits)

lemma Builder_Apply_refs:
  assumes "builder_refs n0 b vs" "Builder_Apply e (b, vs) = Some (b', vs')"
  shows "builder_refs n0 b' vs' \<and> vs_live_files vs \<subseteq> vs_live_files vs'"
proof -
  obtain vs1 b1 where 1: "fold_option Apply_compact_pointer (ve_compact_pointers e) vs = Some vs1"
    "Apply_deleted (ve_deleted_files e) b = Some b1" "fold_option Apply_new_file (ve_new_files e) (b1, vs1) = Some (b', vs')"
    using assms(2) by (auto simp: Builder_Apply_def bind_eq_Some_conv)
  have "vs_file vs1 = vs_file vs \<and> vs_live_files vs1 = vs_live_files vs \<and> vs_next_file_ptr vs1 = vs_next_file_ptr vs"
  proof (rule fold_option_refs [where Q = "\<lambda>s. vs_file s = vs_file vs \<and> vs_live_files s = vs_live_files vs
      \<and> vs_next_file_ptr s = vs_next_file_ptr vs", OF _ _ 1(1)])
    fix p s s' assume a: "vs_file s = vs_file vs \<and> vs_live_files s = vs_live_files vs \<and> vs_next_file_ptr s = vs_next_file_ptr vs"
      "Apply_compact_pointer p s = Some s'"
    then show "vs_file s' = vs_file vs \<and> vs_live_files s' = vs_live_files vs \<and> vs_next_file_ptr s' = vs_next_file_ptr vs"
      using Apply_compact_pointer_files [OF a(2)] by simp
  qed simp
  moreover have "ls_added_files (vb_levels b1 level) = ls_added_files (vb_levels b level)" for level
    using 1(2) by (auto simp: Apply_deleted_def Let_def split: if_splits)
  ultimately have start: "builder_refs n0 b1 vs1" "vs_live_files vs1 = vs_live_files vs"
    using assms(1) by (simp_all add: builder_refs_def)
  have "(\<lambda>(b, s). builder_refs n0 b s \<and> vs_live_files vs1 \<subseteq> vs_live_files s) (b', vs')"
  proof (rule fold_option_refs [where Q = "\<lambda>(b, s). builder_refs n0 b s \<and> vs_live_files vs1 \<subseteq> vs_live_files s", OF _ _ 1(3)])
    fix nf s s'
    assume s: "(\<lambda>(b, s). builder_refs n0 b s \<and> vs_live_files vs1 \<subseteq> vs_live_files s) s" "Apply_new_file nf s = Some s'"
    obtain b2 vs2 b3 vs3 where e: "s = (b2, vs2)" "s' = (b3, vs3)" by fastforce
    then show "(\<lambda>(b, s). builder_refs n0 b s \<and> vs_live_files vs1 \<subseteq> vs_live_files s) s'"
      using s Apply_new_file_refs [of n0 b2 vs2 nf b3 vs3] by auto
  qed (use start in simp)
  then show ?thesis using start(2) by simp
qed

lemma Builder_Apply_all_refs:
  assumes "builder_refs n0 b vs" "fold_option Builder_Apply es (b, vs) = Some (b', vs')"
  shows "builder_refs n0 b' vs' \<and> vs_live_files vs \<subseteq> vs_live_files vs'"
proof -
  have "(\<lambda>(b, s). builder_refs n0 b s \<and> vs_live_files vs \<subseteq> vs_live_files s) (b', vs')"
  proof (rule fold_option_refs [where Q = "\<lambda>(b, s). builder_refs n0 b s \<and> vs_live_files vs \<subseteq> vs_live_files s", OF _ _ assms(2)])
    fix e s s'
    assume s: "(\<lambda>(b, s). builder_refs n0 b s \<and> vs_live_files vs \<subseteq> vs_live_files s) s" "Builder_Apply e s = Some s'"
    obtain b2 vs2 b3 vs3 where e: "s = (b2, vs2)" "s' = (b3, vs3)" by fastforce
    then show "(\<lambda>(b, s). builder_refs n0 b s \<and> vs_live_files vs \<subseteq> vs_live_files s) s'"
      using s Builder_Apply_refs [of n0 b2 vs2 e b3 vs3] by auto
  qed (use assms in simp)
  then show ?thesis by simp
qed

text \<open>Dropping one reference to each of some files deletes those that had only one.\<close>

lemma file_unref_refs:
  "fm_refs (vs_file (file_unref g vs) f) = fm_refs (vs_file vs f) - (if f = g then 1 else 0)"
  "vs_live_files (file_unref g vs) = vs_live_files vs - (if fm_refs (vs_file vs g) \<le> 1 then {g} else {})"
  by (auto simp: file_unref_def Let_def)

lemma file_unref_all:
  "distinct fs \<Longrightarrow>
   fm_refs (vs_file (fold file_unref fs vs) f) = fm_refs (vs_file vs f) - (if f \<in> set fs then 1 else 0)
   \<and> vs_live_files (fold file_unref fs vs) = vs_live_files vs - {f \<in> set fs. fm_refs (vs_file vs f) \<le> 1}"
proof (induction fs arbitrary: vs)
  case (Cons g fs)
  have 1: "fm_refs (vs_file (fold file_unref fs (file_unref g vs)) f)
      = fm_refs (vs_file (file_unref g vs) f) - (if f \<in> set fs then 1 else 0)"
    and 2: "vs_live_files (fold file_unref fs (file_unref g vs))
      = vs_live_files (file_unref g vs) - {f \<in> set fs. fm_refs (vs_file (file_unref g vs) f) \<le> 1}"
    using Cons.IH [of "file_unref g vs"] Cons.prems by auto
  have "{f \<in> set fs. fm_refs (vs_file (file_unref g vs) f) \<le> 1} = {f \<in> set fs. fm_refs (vs_file vs f) \<le> 1}"
    using Cons.prems by (auto simp: file_unref_refs split: if_splits)
  then show ?case using 1 2 Cons.prems by (auto simp: file_unref_refs)
qed simp

text \<open>Deleting the builder after \<open>SaveTo\<close>: the files of the new version stay.\<close>

lemma fold_unref_levels: "fold (\<lambda>level. fold file_unref (g level)) levels vs = fold file_unref (concat (map g levels)) vs"
  by (induction levels arbitrary: vs) simp_all

lemma builder_refs_distinct:
  assumes "builder_refs n0 b vs" "distinct levels"
  shows "distinct (concat (map (\<lambda>level. ls_added_files (vb_levels b level)) levels))"
  using assms(2)
proof (induction levels)
  case (Cons l levels)
  have "set (ls_added_files (vb_levels b l)) \<inter> set (ls_added_files (vb_levels b l')) = {}" if "l' \<in> set levels" for l'
  proof -
    have "l \<noteq> l'" using Cons.prems that by auto
    then show ?thesis using assms(1) unfolding builder_refs_def by blast
  qed
  moreover have "distinct (ls_added_files (vb_levels b l))" using assms(1) by (simp add: builder_refs_def)
  ultimately show ?case using Cons by auto
qed simp

text \<open>What a version needs to be alive: it and its files are there, each with a reference.\<close>

definition version_alive :: "'w VersionSet \<Rightarrow> VersionPtr \<Rightarrow> bool" where
  "version_alive vs p \<longleftrightarrow> p < vs_next_version vs
     \<and> (\<forall>f \<in> set (all_files (vs_version vs p)). f \<in> vs_live_files vs \<and> 1 \<le> fm_refs (vs_file vs f))"

lemma all_files_iff: "f \<in> set (all_files v) \<longleftrightarrow> (\<exists>level < kNumLevels. f \<in> set (v_files v level))"
  by (auto simp: all_files_def)

lemma delete_Builder_keeps:
  assumes refs: "builder_refs n0 b vs" and saved: "vs_file vs' = add_refs fs (vs_file vs)" "vs_live_files vs' = vs_live_files vs"
    and base: "2 \<le> v_refs (vs_version vs' (vb_base b))"
    and fs: "\<And>f. f \<in> set fs \<Longrightarrow> f \<in> vs_live_files vs \<and> 1 \<le> fm_refs (vs_file vs f)"
  shows "\<exists>vs''. delete_Builder b vs' = Some vs''
    \<and> (\<exists>h live ver. vs'' = vs'\<lparr>vs_file := h, vs_live_files := live, vs_version := ver\<rparr>)
    \<and> same_info (vs_file vs'') (vs_file vs')
    \<and> vs_version vs'' = (vs_version vs')(vb_base b := (vs_version vs' (vb_base b))\<lparr>v_refs := v_refs (vs_version vs' (vb_base b)) - 1\<rparr>)
    \<and> (\<forall>f \<in> set fs. f \<in> vs_live_files vs'' \<and> 1 \<le> fm_refs (vs_file vs'' f))"
proof -
  let ?added = "concat (map (\<lambda>level. ls_added_files (vb_levels b level)) [0..<kNumLevels])"
  let ?vs = "fold file_unref ?added vs'"
  obtain h live where h: "?vs = vs'\<lparr>vs_file := h, vs_live_files := live\<rparr>" "same_info h (vs_file vs')"
    using file_unref_frame [of ?added vs'] by blast
  have d: "distinct ?added" by (rule builder_refs_distinct [OF refs]) simp
  let ?base = "vb_base b"
  let ?vs2 = "update_version (\<lambda>v. v\<lparr>v_refs := v_refs v - 1\<rparr>) ?base ?vs"
  have del: "delete_Builder b vs' = Some ?vs2"
    using base unfolding delete_Builder_def fold_unref_levels Version_Unref_def h(1)
    by (simp add: update_version_def Let_def)
  have keep: "f \<in> vs_live_files ?vs \<and> 1 \<le> fm_refs (vs_file ?vs f)" if f: "f \<in> set fs" for f
  proof -
    have "1 \<le> count_list fs f" using f by (meson count_list_0_iff less_one not_le)
    then have "2 \<le> fm_refs (vs_file vs' f)" using fs [OF f] unfolding saved(1) fm_refs_add_refs by linarith
    then show ?thesis using fs [OF f] saved(2) file_unref_all [OF d, of vs' f] by auto
  qed
  have "vs_file ?vs2 = vs_file ?vs" "vs_live_files ?vs2 = vs_live_files ?vs"
    "vs_version ?vs2 = (vs_version vs')(?base := (vs_version vs' ?base)\<lparr>v_refs := v_refs (vs_version vs' ?base) - 1\<rparr>)"
    by (simp_all add: update_version_def h(1))
  moreover have "?vs2 = vs'\<lparr>vs_file := h, vs_live_files := live, vs_version := vs_version ?vs2\<rparr>"
    by (simp add: update_version_def h(1))
  moreover have "same_info (vs_file ?vs) (vs_file vs')" using h by simp
  ultimately show ?thesis
    using del keep
    by (intro exI [of _ ?vs2] conjI exI [of _ h] exI [of _ live] exI [of _ "vs_version ?vs2"] ballI)
      (assumption | (simp only:; fail) | (simp; fail))+
qed

context comparator
begin

lemma new_Builder_start:
  assumes ucmp: "vs_user_comparator vs = cmp" and base: "version_ok key cmp vs (vs_version vs base)" "base < vs_next_version vs"
    and start: "allocate_version new_Version vs = (v, vs1)" "new_Builder base vs1 = (b, vs2)"
  shows "builder_inv b vs2" "builder_refs (vs_next_file_ptr vs) b vs2" "vb_base b = base" "v \<noteq> base"
    "v_files (vs_version vs2 v) = (\<lambda>_. [])" "vs_live_files vs2 = vs_live_files vs" "vs_file vs2 = vs_file vs"
    "contents b vs2 level = level_infos vs (vs_version vs base) level"
    "seen_numbers b vs2 level = fst ` level_infos vs (vs_version vs base) level"
    "vs_version vs2 = (vs_version vs)(v := new_Version, base := (vs_version vs base)\<lparr>v_refs := v_refs (vs_version vs base) + 1\<rparr>)"
    "v = vs_next_version vs" "vs_next_version vs2 = vs_next_version vs + 1" "vs_next_file_ptr vs2 = vs_next_file_ptr vs"
proof -
  show v: "v = vs_next_version vs" "v \<noteq> base" using start(1) base(2) by (auto simp: allocate_version_def Let_def)
  have vs1: "vs1 = vs\<lparr>vs_version := (vs_version vs)(v := new_Version), vs_next_version := v + 1\<rparr>"
    using start(1) by (auto simp: allocate_version_def Let_def)
  have b: "b = \<lparr>vb_base = base, vb_levels = (\<lambda>_. \<lparr>ls_deleted_files = {}, ls_added_files = []\<rparr>)\<rparr>"
    and vs2: "vs2 = Version_Ref base vs1"
    using start(2) by (auto simp: new_Builder_def)
  show ver: "vs_version vs2 = (vs_version vs)(v := new_Version, base := (vs_version vs base)\<lparr>v_refs := v_refs (vs_version vs base) + 1\<rparr>)"
    using v(2) by (simp add: vs2 Version_Ref_def update_version_def vs1)
  show same: "vs_file vs2 = vs_file vs" "vs_live_files vs2 = vs_live_files vs" "vb_base b = base"
    "vs_next_file_ptr vs2 = vs_next_file_ptr vs" "vs_next_version vs2 = vs_next_version vs + 1"
    by (simp_all add: vs2 Version_Ref_def update_version_def vs1 b v(1))
  have ucmp2: "vs_user_comparator vs2 = cmp" using ucmp by (simp add: vs2 Version_Ref_def update_version_def vs1)
  show "v_files (vs_version vs2 v) = (\<lambda>_. [])" using v(2) by (simp add: ver new_Version_def)
  have files: "v_files (vs_version vs2 base) = v_files (vs_version vs base)" by (simp add: ver)
  have bf: "builder_files b vs2 level = set (v_files (vs_version vs base) level)" for level
    by (simp add: builder_files_def same files) (simp add: b)
  show "builder_inv b vs2"
    using base(1) unfolding builder_inv_def bf same files version_ok_def by (simp add: ucmp2) (simp add: b)
  show "builder_refs (vs_next_file_ptr vs) b vs2" by (simp add: builder_refs_def same) (simp add: b)
  show "contents b vs2 level = level_infos vs (vs_version vs base) level"
    unfolding contents_def bf level_infos_def same by (simp add: b)
  show "seen_numbers b vs2 level = fst ` level_infos vs (vs_version vs base) level"
    unfolding seen_numbers_def bf level_infos_def same by (simp add: image_image file_info_def)
qed

lemma build_version_correct:
  assumes ucmp: "vs_user_comparator vs = cmp"
    and base: "version_ok key cmp vs (vs_version vs base)" "version_alive vs base" "1 \<le> v_refs (vs_version vs base)"
    and edits: "\<forall>e \<in> set es. edit_ok key cmp e"
    and fresh: "\<forall>level < kNumLevels. fresh_numbers level es (fst ` level_infos vs (vs_version vs base) level)"
  shows "if \<forall>level < kNumLevels. 0 < level \<longrightarrow>
        disjoint_infos cmp (fold (edit_level level) es (level_infos vs (vs_version vs base) level))
    then \<exists>v vs'. build_version es base vs = Some (v, vs') \<and> version_ok key cmp vs' (vs_version vs' v) \<and> version_alive vs' v
      \<and> (\<forall>level < kNumLevels. level_infos vs' (vs_version vs' v) level
           = fold (edit_level level) es (level_infos vs (vs_version vs base) level))
      \<and> (\<forall>p < vs_next_version vs. vs_version vs' p = vs_version vs p)
    else build_version es base vs = None" (is "if ?disjoint then ?built else _")
proof -
  obtain v vs1 where 1: "allocate_version new_Version vs = (v, vs1)" by fastforce
  obtain b0 vs2 where 2: "new_Builder base vs1 = (b0, vs2)" by fastforce
  have bn: "base < vs_next_version vs" using base(2) by (simp add: version_alive_def)
  note start = new_Builder_start [OF ucmp base(1) bn 1 2]
  obtain b vs3 where 3: "fold_option Builder_Apply es (b0, vs2) = Some (b, vs3)" "builder_inv b vs3" "apply_frame vs2 vs3"
    "vb_base b = base" "\<forall>level < kNumLevels. contents b vs3 level = fold (edit_level level) es (contents b0 vs2 level)"
    using Builder_Apply_all [OF start(1) edits] fresh start(3,9) by auto
  have r3: "builder_refs (vs_next_file_ptr vs) b vs3" "vs_live_files vs \<subseteq> vs_live_files vs3"
    using Builder_Apply_all_refs [OF start(2) 3(1)] start(6) by auto
  have ver3: "vs_version vs3 = vs_version vs2" "vs_next_version vs3 = vs_next_version vs + 1"
    using apply_frame_simps [OF 3(3)] start(12) by simp_all
  have v3: "v_files (vs_version vs3 v) = (\<lambda>_. [])" "v \<noteq> vb_base b" using start(4,5) 3(4) ver3 by simp_all
  have "build_version es base vs = None" if "\<not> ?disjoint"
  proof (rule ccontr)
    assume "build_version es base vs \<noteq> None"
    then obtain vs4 where "SaveTo b v vs3 = Some vs4"
      using 1 2 3(1) by (auto simp: build_version_def bind_eq_Some_conv)
    then show False using SaveTo_disjoint [OF 3(2) v3(2,1)] \<open>\<not> ?disjoint\<close> 3(5) start(8) by auto
  qed
  moreover have ?built if disjoint: ?disjoint
  proof -
    have d3: "disjoint_infos cmp (contents b vs3 level)" if "level < kNumLevels" "0 < level" for level
      using disjoint that 3(5) start(8) by simp
    obtain vs4 where 4: "SaveTo b v vs3 = Some vs4" "version_frame vs3 vs4" "same_info (vs_file vs4) (vs_file vs3)"
      "vs_file vs4 = add_refs (all_files (vs_version vs4 v)) (vs_file vs3)"
      "set (all_files (vs_version vs4 v)) \<subseteq> (\<Union>level < kNumLevels. builder_files b vs3 level)"
      "\<forall>p. p \<noteq> v \<longrightarrow> vs_version vs4 p = vs_version vs3 p" "version_ok key cmp vs4 (vs_version vs4 v)"
      "\<forall>level < kNumLevels. level_infos vs4 (vs_version vs4 v) level = contents b vs3 level"
      using SaveTo_correct [OF 3(2) v3(2,1) d3] by blast
    have live4: "vs_live_files vs4 = vs_live_files vs3" "vs_next_version vs4 = vs_next_version vs3"
      "vs_next_file_ptr vs4 = vs_next_file_ptr vs3"
      using 4(2) by (auto simp: version_frame_def)
    have alive: "f \<in> vs_live_files vs3 \<and> 1 \<le> fm_refs (vs_file vs3 f)" if f: "f \<in> set (all_files (vs_version vs4 v))" for f
    proof -
      obtain level where l: "level < kNumLevels" "f \<in> builder_files b vs3 level" using f 4(5) by blast
      show ?thesis
      proof (cases "f \<in> set (ls_added_files (vb_levels b level))")
        case True
        then show ?thesis using r3(1) by (simp add: builder_refs_def)
      next
        case False
        then have "f \<in> set (v_files (vs_version vs base) level)"
          using l(2) start(10) ver3(1) 3(4) by (auto simp: builder_files_def split: if_splits)
        then have "f \<in> vs_live_files vs" "1 \<le> fm_refs (vs_file vs f)" "f < vs_next_file_ptr vs"
          using base(1,2) l(1) by (auto simp: version_alive_def all_files_iff version_ok_def)
        then show ?thesis using r3(2) 3(3) start(7,13) by (auto simp: apply_frame_def)
      qed
    qed
    have "2 \<le> v_refs (vs_version vs4 (vb_base b))"
      using 4(6) v3(2) ver3(1) start(10) 3(4) base(3) by simp
    then obtain vs5 where 5: "delete_Builder b vs4 = Some vs5"
      "\<exists>h live ver. vs5 = vs4\<lparr>vs_file := h, vs_live_files := live, vs_version := ver\<rparr>"
      "same_info (vs_file vs5) (vs_file vs4)"
      "vs_version vs5 = (vs_version vs4)(vb_base b := (vs_version vs4 (vb_base b))\<lparr>v_refs := v_refs (vs_version vs4 (vb_base b)) - 1\<rparr>)"
      "\<forall>f \<in> set (all_files (vs_version vs4 v)). f \<in> vs_live_files vs5 \<and> 1 \<le> fm_refs (vs_file vs5 f)"
      using delete_Builder_keeps [OF r3(1) 4(4) live4(1)] alive by blast
    have n5: "vs_next_file_ptr vs5 = vs_next_file_ptr vs4" "vs_next_version vs5 = vs_next_version vs4" using 5(2) by auto
    have v5: "vs_version vs5 v = vs_version vs4 v" using 5(4) v3(2) by simp
    have "build_version es base vs = Some (v, vs5)"
      using 1 2 3(1) 4(1) 5(1) by (simp add: build_version_def)
    moreover have "version_ok key cmp vs5 (vs_version vs5 v)"
      "\<forall>level < kNumLevels. level_infos vs5 (vs_version vs5 v) level = fold (edit_level level) es (level_infos vs (vs_version vs base) level)"
      using 4(7,8) 3(5) start(8) same_info_version_ok [OF 5(3) n5(1) [symmetric]] v5 by simp_all
    moreover have "version_alive vs5 v" using 5(5) v5 n5(2) live4(2) ver3(2) start(11) by (simp add: version_alive_def)
    moreover have "vs_version vs5 p = vs_version vs p" if "p < vs_next_version vs" for p
      using that 5(4) 4(6) ver3(1) start(10,11) 3(4) by simp
    ultimately show ?built by blast
  qed
  ultimately show ?thesis by simp
qed

end

subsection \<open>Properties\<close>

text \<open>C4. Building a new version from the current one and a sequence of version edits, as \<open>LogAndApply\<close> and
  \<open>Recover\<close> do. The edits are well formed, and none gives a level the number of a file that the level has
  or had. If the files that the edits leave, each edit deleting before it adds, do not overlap at any level
  above 0, no assertion fails and nothing aborts: each level of the new version has exactly the files that
  the edits leave, in the order of their smallest keys and, above level 0, each one ending before the next
  one starts; all of its files are still there after the builder has dropped its references, and no other
  version has changed. If two of them do overlap above level 0, the assertion of \<open>MaybeAddFile\<close> or the
  check at the end of \<open>SaveTo\<close> fails, and no version is made: overlapping files are never installed.\<close>

theorem version_edits_applied:
  assumes "comparator key cmp" "vs_user_comparator vs = cmp"
    and "version_ok key cmp vs (vs_version vs base)" "version_alive vs base" "1 \<le> v_refs (vs_version vs base)"
    and "\<forall>e \<in> set es. edit_ok key cmp e"
    and "\<forall>level < kNumLevels. fresh_numbers level es (fst ` level_infos vs (vs_version vs base) level)"
  shows "if \<forall>level < kNumLevels. 0 < level \<longrightarrow>
        disjoint_infos cmp (fold (edit_level level) es (level_infos vs (vs_version vs base) level))
    then \<exists>v vs'. build_version es base vs = Some (v, vs') \<and> version_ok key cmp vs' (vs_version vs' v) \<and> version_alive vs' v
      \<and> (\<forall>level < kNumLevels. level_infos vs' (vs_version vs' v) level
           = fold (edit_level level) es (level_infos vs (vs_version vs base) level))
      \<and> (\<forall>p < vs_next_version vs. vs_version vs' p = vs_version vs p)
    else build_version es base vs = None"
  by (rule comparator.build_version_correct [OF assms])

definition example_set :: "unit VersionSet" where
  "example_set = the (new_VersionSet (lit ''db'') (new_Options 0) BytewiseComparator)"

definition example_key :: "byte \<Rightarrow> InternalKey" where
  "example_key c = InternalKey_make [c] 9 kTypeValue"

definition example_edits :: "VersionEdit list" where
  "example_edits =
     [VersionEdit_AddFile 1 5 70 (example_key 1) (example_key 2) (VersionEdit_AddFile 0 3 50 (example_key 1) (example_key 9) new_VersionEdit),
      VersionEdit_AddFile 1 6 80 (example_key 3) (example_key 4) (VersionEdit_DeleteFile 0 3 new_VersionEdit)]"

lemma example_set_simps:
  "vs_user_comparator example_set = BytewiseComparator" "v_files (vs_version example_set 0) = (\<lambda>_. [])"
  "v_refs (vs_version example_set 0) = 1" "vs_next_version example_set = 1"
  by (simp_all add: example_set_def new_VersionSet_def allocate_version_def AppendVersion_def Version_Ref_def
      update_version_def new_Version_def Let_def)

lemma example_key_ok: "ikey (\<lambda>_. True) (example_key c)"
  by (simp add: example_key_def ikey_def)

lemma example_user_key: "ExtractUserKey (example_key c) = [c]"
  using ExtractUserKey_append [of "EncodeFixed64 (PackSequenceAndType 9 kTypeValue)" "[c]"] by (simp add: example_key_def)

lemma example_keys_less: "c < d \<Longrightarrow> InternalKey_Compare BytewiseComparator (example_key c) (example_key d) < 0"
  by (simp add: InternalKey_Compare_def Let_def example_user_key)

lemma example_edits_simps:
  "map ve_new_files example_edits =
     [[(0, (new_FileMetaData 3)\<lparr>fm_file_size := 50, fm_smallest := example_key 1, fm_largest := example_key 9\<rparr>),
       (1, (new_FileMetaData 5)\<lparr>fm_file_size := 70, fm_smallest := example_key 1, fm_largest := example_key 2\<rparr>)],
      [(1, (new_FileMetaData 6)\<lparr>fm_file_size := 80, fm_smallest := example_key 3, fm_largest := example_key 4\<rparr>)]]"
  "map ve_deleted_files example_edits = [{}, {(0, 3)}]"
  "map ve_compact_pointers example_edits = [[], []]"
  by (simp_all add: example_edits_def VersionEdit_AddFile_def VersionEdit_DeleteFile_def new_VersionEdit_def VersionEdit_Clear_def)

lemma example_levels:
  "fold (edit_level level) example_edits {} =
     (if level = 1 then {(5, 70, example_key 1, example_key 2), (6, 80, example_key 3, example_key 4)} else {})"
  using example_edits_simps
  by (auto simp: example_edits_def edit_level_def new_infos_def file_info_def new_FileMetaData_def)

theorem version_edits_applied_witness:
  "\<exists>v vs'. build_version example_edits 0 example_set = Some (v, vs')
     \<and> level_infos vs' (vs_version vs' v) 0 = {}
     \<and> level_infos vs' (vs_version vs' v) 1
         = {(5, 70, example_key 1, example_key 2), (6, 80, example_key 3, example_key 4)}"
proof -
  have none: "level_infos example_set (vs_version example_set 0) level = {}" for level
    by (simp add: level_infos_def example_set_simps)
  have ok: "meta_ok (\<lambda>_. True) BytewiseComparator (m\<lparr>fm_file_size := n, fm_smallest := example_key c, fm_largest := example_key d\<rparr>)"
    if "c < d" for m n c d
    using example_keys_less [OF that] example_key_ok by (simp add: meta_ok_def)
  have disjoint: "\<forall>level < kNumLevels. 0 < level \<longrightarrow> disjoint_infos BytewiseComparator
      (fold (edit_level level) example_edits (level_infos example_set (vs_version example_set 0) level))"
    using example_keys_less [of 2 3] by (simp add: none example_levels disjoint_infos_def)
  have "if \<forall>level < kNumLevels. 0 < level \<longrightarrow> disjoint_infos BytewiseComparator
        (fold (edit_level level) example_edits (level_infos example_set (vs_version example_set 0) level))
    then \<exists>v vs'. build_version example_edits 0 example_set = Some (v, vs')
      \<and> version_ok (\<lambda>_. True) BytewiseComparator vs' (vs_version vs' v) \<and> version_alive vs' v
      \<and> (\<forall>level < kNumLevels. level_infos vs' (vs_version vs' v) level
           = fold (edit_level level) example_edits (level_infos example_set (vs_version example_set 0) level))
      \<and> (\<forall>p < vs_next_version example_set. vs_version vs' p = vs_version example_set p)
    else build_version example_edits 0 example_set = None"
  proof (rule version_edits_applied [OF bytewise.comparator_axioms example_set_simps(1)])
    show "version_ok (\<lambda>_. True) BytewiseComparator example_set (vs_version example_set 0)"
      by (simp add: version_ok_def example_set_simps level_sorted_def)
    show "version_alive example_set 0" by (simp add: version_alive_def example_set_simps all_files_def)
    show "\<forall>e \<in> set example_edits. edit_ok (\<lambda>_. True) BytewiseComparator e"
      using example_edits_simps ok by (auto simp: example_edits_def edit_ok_def level_ok_def kNumLevels_def)
    show "\<forall>level < kNumLevels. fresh_numbers level example_edits (fst ` level_infos example_set (vs_version example_set 0) level)"
      using example_edits_simps by (auto simp: none example_edits_def new_numbers_def new_FileMetaData_def)
  qed (simp add: example_set_simps)
  then show ?thesis using disjoint by (auto simp: none example_levels kNumLevels_def)
qed

end
