(* ===== verification/Compaction_Correct.thy ===== *)
theory Compaction_Correct
  imports Compaction Version_Apply
begin

text \<open>
  The inputs of a compaction are complete: no older entry of a user key stays behind in the level that is
  compacted or in the next one. Above level 0 the inputs are a run of neighbouring files (\<open>convex\<close>) that
  is closed at its end by the boundary files; in level 0 they overlap no other file (\<open>alone\<close>).
\<close>

subsection \<open>What a compaction promises\<close>

abbreviation file_before :: "Comparator \<Rightarrow> FileStore \<Rightarrow> FilePtr \<Rightarrow> FilePtr \<Rightarrow> bool" where
  "file_before cmp h f g \<equiv> InternalKey_Compare cmp (fm_largest (h f)) (fm_smallest (h g)) < 0"

definition disjoint_users :: "Comparator \<Rightarrow> FileStore \<Rightarrow> FilePtr \<Rightarrow> FilePtr \<Rightarrow> bool" where
  "disjoint_users cmp h f g \<longleftrightarrow>
     Compare cmp (file_limit h f) (file_start h g) < 0 \<or> Compare cmp (file_limit h g) (file_start h f) < 0"

definition convex :: "Comparator \<Rightarrow> FileStore \<Rightarrow> FilePtr set \<Rightarrow> FilePtr set \<Rightarrow> bool" where
  "convex cmp h files inputs \<longleftrightarrow>
     (\<forall>f \<in> inputs. \<forall>f' \<in> inputs. \<forall>g \<in> files. file_before cmp h f g \<longrightarrow> file_before cmp h g f' \<longrightarrow> g \<in> inputs)"

definition alone :: "Comparator \<Rightarrow> FileStore \<Rightarrow> FilePtr set \<Rightarrow> FilePtr set \<Rightarrow> bool" where
  "alone cmp h files inputs \<longleftrightarrow> (\<forall>f \<in> inputs. \<forall>g \<in> files - inputs. disjoint_users cmp h f g)"

definition input_set :: "Comparator \<Rightarrow> FileStore \<Rightarrow> nat \<Rightarrow> FilePtr list \<Rightarrow> FilePtr list \<Rightarrow> bool" where
  "input_set cmp h level files inputs \<longleftrightarrow> distinct inputs \<and> set inputs \<subseteq> set files
     \<and> (if level = 0 then alone cmp h (set files) (set inputs) else convex cmp h (set files) (set inputs))"

text \<open>A file that stays behind shares no user key with an input, or has only newer entries for it.\<close>

definition nothing_older :: "Comparator \<Rightarrow> FileStore \<Rightarrow> nat \<Rightarrow> FilePtr list \<Rightarrow> FilePtr list \<Rightarrow> bool" where
  "nothing_older cmp h level files inputs \<longleftrightarrow>
     (\<forall>f \<in> set inputs. \<forall>g \<in> set files - set inputs.
        disjoint_users cmp h f g \<or> 0 < level \<and> file_before cmp h g f)"

definition all_overlapping :: "Comparator \<Rightarrow> FileStore \<Rightarrow> FilePtr set \<Rightarrow> FilePtr list \<Rightarrow> FilePtr list \<Rightarrow> bool" where
  "all_overlapping cmp h inputs files found \<longleftrightarrow> set found \<subseteq> set files
     \<and> (\<forall>f \<in> inputs. \<forall>g \<in> set files. disjoint_users cmp h f g \<or> g \<in> set found)"

definition compaction_ok :: "Comparator \<Rightarrow> 'w VersionSet \<Rightarrow> Version \<Rightarrow> Compaction \<Rightarrow> bool" where
  "compaction_ok cmp vs v c \<longleftrightarrow>
     (let h = vs_file vs; level = cp_level c
      in cp_inputs0 c \<noteq> [] \<and> input_set cmp h level (v_files v level) (cp_inputs0 c)
         \<and> nothing_older cmp h level (v_files v level) (cp_inputs0 c)
         \<and> distinct (cp_inputs1 c) \<and> all_overlapping cmp h (set (cp_inputs0 c)) (v_files v (level + 1)) (cp_inputs1 c)
         \<and> (level + 2 < kNumLevels \<longrightarrow>
              all_overlapping cmp h (set (cp_inputs0 c) \<union> set (cp_inputs1 c)) (v_files v (level + 2)) (cp_grandparents c)))"

definition seek_ok :: "Version \<Rightarrow> bool" where
  "seek_ok v \<longleftrightarrow> (\<forall>f. v_file_to_compact v = Some f \<longrightarrow> 0 \<le> v_file_to_compact_level v
     \<and> v_file_to_compact_level v + 1 < int kNumLevels \<and> f \<in> set (v_files v (nat (v_file_to_compact_level v))))"

text \<open>Where a compaction starts: at the next file of a level that is over its limit, else at the file that
  had too many seeks.\<close>

definition start_ok :: "'w VersionSet \<Rightarrow> Version \<Rightarrow> nat \<Rightarrow> FilePtr \<Rightarrow> bool" where
  "start_ok vs v level f \<longleftrightarrow> level + 1 < kNumLevels \<and> f \<in> set (v_files v level)
     \<and> (if 1 \<le> v_compaction_score v then over_limit (vs_file vs) v level \<and> next_to_compact vs v level = Some f
        else v_file_to_compact v = Some f \<and> v_file_to_compact_level v = int level)"

text \<open>The inputs of both levels, with the largest key of the first ones.\<close>

definition chosen_inputs :: "Comparator \<Rightarrow> 'w VersionSet \<Rightarrow> Version \<Rightarrow> nat \<Rightarrow> InternalKey \<Rightarrow> FilePtr list \<Rightarrow> FilePtr list \<Rightarrow> bool" where
  "chosen_inputs cmp vs v level largest inputs0 inputs1 \<longleftrightarrow>
     inputs0 \<noteq> [] \<and> input_set cmp (vs_file vs) level (v_files v level) inputs0
     \<and> nothing_older cmp (vs_file vs) level (v_files v level) inputs0 \<and> distinct inputs1
     \<and> all_overlapping cmp (vs_file vs) (set inputs0) (v_files v (level + 1)) inputs1
     \<and> largest \<in> fm_largest ` vs_file vs ` set inputs0
     \<and> (\<forall>f \<in> set inputs0. InternalKey_Compare cmp (fm_largest (vs_file vs f)) largest \<le> 0)"

lemma version_okD:
  assumes "version_ok key cmp vs v" "level < kNumLevels"
  shows "\<And>f. f \<in> set (v_files v level) \<Longrightarrow> meta_ok key cmp (vs_file vs f)"
    "sorted_wrt (BySmallestKey cmp (vs_file vs)) (v_files v level)"
    "0 < level \<Longrightarrow> level_sorted cmp (vs_file vs) (v_files v level)"
  using assms by (auto simp: version_ok_def)

context comparator
begin

lemma sorted_level_distinct:
  "sorted_wrt (BySmallestKey cmp h) fs \<Longrightarrow> (\<And>f. f \<in> set fs \<Longrightarrow> meta_ok key cmp (h f)) \<Longrightarrow> distinct fs"
proof (induction fs)
  case (Cons f fs)
  then have "InternalKey_Compare cmp (fm_smallest (h f)) (fm_smallest (h f)) = 0"
    using comparator.refl [OF internal_comparator meta_okD(1) [OF Cons.prems(2) [of f]]] by simp
  then show ?case using Cons by (auto simp: BySmallestKey_def Let_def)
qed simp

subsection \<open>Neighbours\<close>

lemma file_before_trans:
  assumes "meta_ok key cmp (h f)" "meta_ok key cmp (h g)" "meta_ok key cmp (h e)"
    and "file_before cmp h f g" "file_before cmp h g e"
  shows "file_before cmp h f e"
  using ikc_less_trans [OF _ _ _ ikc_less_le] meta_okD assms by metis

lemma file_before_irrefl: "meta_ok key cmp (h f) \<Longrightarrow> \<not> file_before cmp h f f"
  using meta_okD ikc_not_less by metis

lemma level_cases:
  assumes "level_sorted cmp h files" "f \<in> set files" "g \<in> set files"
  obtains "f = g" | "file_before cmp h f g" | "file_before cmp h g f"
proof -
  obtain i j where ij: "i < length files" "files ! i = f" "j < length files" "files ! j = g"
    using assms(2,3) by (auto simp: in_set_conv_nth)
  then show thesis
    using assms(1) that unfolding level_sorted_def sorted_wrt_iff_nth_less
    by (cases rule: linorder_cases [of i j]) auto
qed

lemma smallest_boundary_loop_min:
  assumes "\<And>f. f \<in> set fs \<Longrightarrow> meta_ok key cmp (h f)" "\<And>f. acc = Some f \<Longrightarrow> meta_ok key cmp (h f)"
    and "FindSmallestBoundaryFile_loop cmp h fs k acc = Some g"
  shows "meta_ok key cmp (h g) \<and> (\<forall>f. f \<in> set fs \<and> boundary_file cmp h k f \<or> acc = Some f \<longrightarrow>
    InternalKey_Compare cmp (fm_smallest (h g)) (fm_smallest (h f)) \<le> 0)"
  using assms
proof (induction fs arbitrary: acc)
  case Nil
  then show ?case using comparator.refl [OF internal_comparator] meta_okD(1) by auto
next
  case (Cons e fs)
  let ?c = "boundary_file cmp h k e \<and> (case acc of None \<Rightarrow> True
      | Some g \<Rightarrow> InternalKey_Compare cmp (fm_smallest (h e)) (fm_smallest (h g)) < 0)"
  let ?acc = "if ?c then Some e else acc"
  have s: "FindSmallestBoundaryFile_loop cmp h (e # fs) k acc = FindSmallestBoundaryFile_loop cmp h fs k ?acc"
    by (simp add: boundary_file_def)
  have ok: "meta_ok key cmp (h e)" "\<And>f. acc = Some f \<Longrightarrow> meta_ok key cmp (h f)" using Cons.prems by auto
  have IH: "meta_ok key cmp (h g)" "\<And>f. f \<in> set fs \<Longrightarrow> boundary_file cmp h k f \<Longrightarrow>
      InternalKey_Compare cmp (fm_smallest (h g)) (fm_smallest (h f)) \<le> 0"
    "\<And>f. ?acc = Some f \<Longrightarrow> InternalKey_Compare cmp (fm_smallest (h g)) (fm_smallest (h f)) \<le> 0"
    using Cons.IH [of ?acc] Cons.prems s by (auto split: if_splits)
  have acc: "InternalKey_Compare cmp (fm_smallest (h g)) (fm_smallest (h f)) \<le> 0" if f: "acc = Some f" for f
  proof (cases ?c)
    case True
    then have "InternalKey_Compare cmp (fm_smallest (h e)) (fm_smallest (h f)) < 0" using f by simp
    then show ?thesis
      using ikc_trans [of "fm_smallest (h g)" "fm_smallest (h e)" "fm_smallest (h f)"] IH(1,3) True ok meta_okD(1) f by auto
  next
    case False
    then show ?thesis using IH(3) f by auto
  qed
  have e: "InternalKey_Compare cmp (fm_smallest (h g)) (fm_smallest (h e)) \<le> 0" if b: "boundary_file cmp h k e"
  proof (cases ?c)
    case True
    then show ?thesis using IH(3) by simp
  next
    case False
    then obtain f where f: "acc = Some f" "\<not> InternalKey_Compare cmp (fm_smallest (h e)) (fm_smallest (h f)) < 0"
      using b by (auto split: option.splits)
    then have "InternalKey_Compare cmp (fm_smallest (h f)) (fm_smallest (h e)) \<le> 0"
      using ikc_not_less ok meta_okD(1) by blast
    then show ?thesis
      using ikc_trans [of "fm_smallest (h g)" "fm_smallest (h f)" "fm_smallest (h e)"] acc [OF f(1)] IH(1) ok f(1) meta_okD(1) by blast
  qed
  show ?case using IH(1,2) acc e by auto
qed

lemma smallest_boundary:
  assumes "\<And>f. f \<in> set fs \<Longrightarrow> meta_ok key cmp (h f)" "FindSmallestBoundaryFile cmp h fs k = Some g"
  shows "g \<in> set fs" "boundary_file cmp h k g"
    "\<And>f. f \<in> set fs \<Longrightarrow> boundary_file cmp h k f \<Longrightarrow> InternalKey_Compare cmp (fm_smallest (h g)) (fm_smallest (h f)) \<le> 0"
proof -
  show "g \<in> set fs" "boundary_file cmp h k g"
    using FindSmallestBoundaryFile_spec [where fs = fs and k = k and h = h] assms(2) by simp_all
  show "InternalKey_Compare cmp (fm_smallest (h g)) (fm_smallest (h f)) \<le> 0"
    if "f \<in> set fs" "boundary_file cmp h k f" for f
    using smallest_boundary_loop_min [where acc = None and h = h, OF assms(1) _ assms(2) [unfolded FindSmallestBoundaryFile_def]] that by blast
qed

text \<open>The last step of a run: the next file after the inputs, when it shares a user key with the last one.\<close>

lemma convex_boundary:
  assumes sorted: "level_sorted cmp h files" and ok: "\<And>f. f \<in> set files \<Longrightarrow> meta_ok key cmp (h f)"
    and I: "I \<subseteq> set files" "convex cmp h (set files) I" "m \<in> I"
    and max: "\<And>f. f \<in> I \<Longrightarrow> InternalKey_Compare cmp (fm_largest (h f)) (fm_largest (h m)) \<le> 0"
    and g: "FindSmallestBoundaryFile cmp h files (fm_largest (h m)) = Some g"
  shows "g \<in> set files" "\<And>f. f \<in> I \<Longrightarrow> file_before cmp h f g" "convex cmp h (set files) (insert g I)"
proof -
  note sb = smallest_boundary [where h = h, OF ok g]
  show g_in: "g \<in> set files" by (rule sb(1))
  have ikg: "ikey key (fm_smallest (h g))" "ikey key (fm_largest (h g))" using ok g_in meta_okD by blast+
  have mg: "file_before cmp h m g"
    using sb(2) ikc_greater_iff ikg I ok meta_okD(2) unfolding boundary_file_def by blast
  show before: "file_before cmp h f g" if "f \<in> I" for f
    using ikc_le_less [OF _ _ _ max [OF that] mg] that I ikg ok meta_okD(2) by blast
  have between: "e \<in> I" if e: "e \<in> set files" "f \<in> I" "file_before cmp h f e" "file_before cmp h e g" for e f
  proof -
    have "m \<in> set files" using I by blast
    from sorted e(1) this show ?thesis
    proof (cases rule: level_cases)
      case 1
      then show ?thesis using I(3) by simp
    next
      case 2
      then show ?thesis using I(2,3) e(1-3) unfolding convex_def by blast
    next
      case 3
      note keys = meta_okD [OF ok [OF e(1)]] meta_okD [OF ok [OF g_in]] meta_okD [OF ok [OF \<open>m \<in> set files\<close>]]
      have "Compare cmp (file_limit h m) (file_start h e) \<le> 0" using 3 keys by (intro ikc_user_le) auto
      moreover have "Compare cmp (file_start h e) (file_limit h e) \<le> 0" using keys by (intro ikc_user_le)
      moreover have "Compare cmp (file_limit h e) (file_start h g) \<le> 0" using e(4) keys by (intro ikc_user_le) auto
      moreover have eq: "file_start h g = file_limit h m" using sb(2) keys eq_iff unfolding boundary_file_def by blast
      ultimately have "Compare cmp (file_start h e) (file_limit h m) \<le> 0"
        using trans [OF keys(3,4,8)] unfolding eq by blast
      then have "Compare cmp (file_start h e) (file_limit h m) = 0"
        using \<open>Compare cmp (file_limit h m) (file_start h e) \<le> 0\<close> le_iff [OF keys(3,14)]
        eq_iff [OF keys(3,14)] eq_iff [OF keys(14,3)] by auto
      then have "boundary_file cmp h (fm_largest (h m)) e"
        using 3 ikc_greater_iff keys by (simp add: boundary_file_def)
      then have "InternalKey_Compare cmp (fm_smallest (h g)) (fm_smallest (h e)) \<le> 0" using sb(3) e(1) by blast
      then have "InternalKey_Compare cmp (fm_smallest (h g)) (fm_largest (h e)) \<le> 0"
        using ikc_trans keys by blast
      then show ?thesis using e(4) ikc_not_less keys by blast
    qed
  qed
  show "convex cmp h (set files) (insert g I)"
    unfolding convex_def
  proof (intro ballI impI)
    fix f f' e assume f: "f \<in> insert g I" "f' \<in> insert g I" and e: "e \<in> set files" "file_before cmp h f e" "file_before cmp h e f'"
    have oks: "meta_ok key cmp (h f)" "meta_ok key cmp (h f')" "meta_ok key cmp (h e)" "meta_ok key cmp (h g)"
      using f e g_in I ok by auto
    have ff': "file_before cmp h f f'" using file_before_trans e oks by blast
    have "f \<noteq> g"
    proof
      assume "f = g"
      then have "file_before cmp h g f'" using ff' by simp
      moreover have "f' = g \<or> file_before cmp h f' g" using before f(2) by blast
      ultimately have "file_before cmp h g g" using file_before_trans oks by blast
      then show False using file_before_irrefl oks by blast
    qed
    then have "f \<in> I" using f by simp
    then show "e \<in> insert g I"
      using f(2) between [OF e(1) _ e(2)] e I(2) unfolding convex_def by blast
  qed
qed

definition run_to :: "FileStore \<Rightarrow> FilePtr list \<Rightarrow> InternalKey \<Rightarrow> FilePtr list \<Rightarrow> bool" where
  "run_to h files k cf \<longleftrightarrow> distinct cf \<and> set cf \<subseteq> set files \<and> convex cmp h (set files) (set cf)
     \<and> (\<exists>m \<in> set cf. fm_largest (h m) = k \<and> (\<forall>f \<in> set cf. InternalKey_Compare cmp (fm_largest (h f)) (fm_largest (h m)) \<le> 0))"

lemma run_to_boundary:
  assumes sorted: "level_sorted cmp h files" and ok: "\<And>f. f \<in> set files \<Longrightarrow> meta_ok key cmp (h f)"
    and r: "run_to h files k cf" and g: "FindSmallestBoundaryFile cmp h files k = Some g"
  shows "run_to h files (fm_largest (h g)) (cf @ [g])"
proof -
  obtain m where m: "m \<in> set cf" "fm_largest (h m) = k"
    "\<And>f. f \<in> set cf \<Longrightarrow> InternalKey_Compare cmp (fm_largest (h f)) (fm_largest (h m)) \<le> 0"
    using r unfolding run_to_def by blast
  have I: "distinct cf" "set cf \<subseteq> set files" "convex cmp h (set files) (set cf)" using r by (simp_all add: run_to_def)
  have g: "g \<in> set files" "\<And>f. f \<in> set cf \<Longrightarrow> file_before cmp h f g" "convex cmp h (set files) (insert g (set cf))"
    using convex_boundary [where h = h and g = g, OF sorted ok I(2,3) m(1,3)] g m(2) by blast+
  have le: "InternalKey_Compare cmp (fm_largest (h f)) (fm_largest (h g)) \<le> 0" if f: "f \<in> set cf" for f
  proof -
    have "meta_ok key cmp (h f)" using f I(2) ok by blast
    then show ?thesis
      using ikc_less_le [OF _ _ _ g(2) [OF f]] meta_okD ok [OF g(1)] by (meson less_imp_le)
  qed
  have "g \<notin> set cf" using g(1,2) file_before_irrefl ok by blast
  moreover have "InternalKey_Compare cmp (fm_largest (h g)) (fm_largest (h g)) \<le> 0"
    using comparator.refl [OF internal_comparator meta_okD(2) [OF ok [OF g(1)]]] by simp
  ultimately show ?thesis using I(1,2) g(1,3) le by (simp add: run_to_def)
qed

lemma AddBoundaryInputs_loop_run:
  assumes "level_sorted cmp h files" "\<And>f. f \<in> set files \<Longrightarrow> meta_ok key cmp (h f)"
    and "AddBoundaryInputs_loop cmp h files k cf = Some r" "run_to h files k cf"
  shows "distinct r \<and> convex cmp h (set files) (set r)"
proof -
  define P where "P cmp' h' files' k cf r \<longleftrightarrow> (cmp' = cmp \<longrightarrow> h' = h \<longrightarrow> files' = files \<longrightarrow> run_to h files k cf \<longrightarrow>
    distinct r \<and> convex cmp h (set files) (set r))" for cmp' h' files' k cf r
  have "P cmp h files k cf r"
  proof (rule AddBoundaryInputs_loop.raw_induct [where P = P, OF _ assms(3)])
    fix loop cmp' h' files' k cf r
    assume IH: "\<And>cmp' h' files' k cf r. loop cmp' h' files' k cf = Some r \<Longrightarrow> P cmp' h' files' k cf r"
      and step: "(case FindSmallestBoundaryFile cmp' h' files' k of None \<Rightarrow> Some cf
        | Some f \<Rightarrow> loop cmp' h' files' (fm_largest (h' f)) (cf @ [f])) = Some r"
    show "P cmp' h' files' k cf r"
      unfolding P_def
    proof (intro impI)
      assume eq: "cmp' = cmp" "h' = h" "files' = files" and r: "run_to h files k cf"
      show "distinct r \<and> convex cmp h (set files) (set r)"
      proof (cases "FindSmallestBoundaryFile cmp h files k")
        case None
        then show ?thesis using step r unfolding eq by (simp add: run_to_def)
      next
        case (Some g)
        then have "P cmp h files (fm_largest (h g)) (cf @ [g]) r" using step IH unfolding eq by simp
        then show ?thesis using run_to_boundary [OF assms(1,2) r Some] unfolding P_def by blast
      qed
    qed
  qed
  then show ?thesis using assms(4) by (simp add: P_def)
qed

subsection \<open>Sets of inputs\<close>

lemma sharing_overlaps:
  assumes "meta_ok key cmp (h f)" "meta_ok key cmp (h g)" "bound_ok key b" "bound_ok key e"
    and "\<not> below cmp b (file_start h f)" "\<not> above cmp e (file_limit h f)" "\<not> disjoint_users cmp h f g"
  shows "overlaps cmp h b e g"
proof -
  note k = meta_okD(3,4) [OF assms(1)] meta_okD(3,4) [OF assms(2)]
  have "\<not> below cmp b (file_limit h g)"
  proof
    assume b: "below cmp b (file_limit h g)"
    then obtain x where x: "b = Some x" "Compare cmp (file_limit h g) x < 0" by (auto simp: below_def split: option.splits)
    then have "Compare cmp x (file_start h f) \<le> 0" using assms(3,5) k le_iff by (simp add: below_def)
    then have "Compare cmp (file_limit h g) (file_start h f) < 0" using less_le_trans [OF _ _ _ x(2)] assms(3) x(1) k by blast
    then show False using assms(7) by (simp add: disjoint_users_def)
  qed
  moreover have "\<not> above cmp e (file_start h g)"
  proof
    assume "above cmp e (file_start h g)"
    then obtain x where x: "e = Some x" "Compare cmp (file_start h g) x > 0" by (auto simp: above_def split: option.splits)
    then have "Compare cmp x (file_start h g) < 0" using assms(4) k swap by simp
    moreover have "Compare cmp (file_limit h f) x \<le> 0" using x(1) assms(6) by (simp add: above_def)
    ultimately have "Compare cmp (file_limit h f) (file_start h g) < 0" using le_less_trans assms(4) x(1) k by blast
    then show False using assms(7) by (simp add: disjoint_users_def)
  qed
  ultimately show ?thesis by (simp add: overlaps_def)
qed

lemma file_overlaps_itself: "meta_ok key cmp (h f) \<Longrightarrow> \<not> disjoint_users cmp h f f"
  using ikc_user_le le_iff meta_okD unfolding disjoint_users_def by metis

lemma alone_closed:
  assumes "\<And>f. f \<in> set files \<Longrightarrow> meta_ok key cmp (h f)" "bound_ok key b" "bound_ok key e" "closed_range cmp h files b e"
  shows "alone cmp h (set files) (set (filter (overlaps cmp h b e) files))"
  unfolding alone_def
proof (intro ballI)
  fix f g assume f: "f \<in> set (filter (overlaps cmp h b e) files)" and g: "g \<in> set files - set (filter (overlaps cmp h b e) files)"
  then have "inside cmp h b e f" using assms(4) by (simp add: closed_range_def)
  then show "disjoint_users cmp h f g"
    using sharing_overlaps [of h f g b e] assms(1-3) f g unfolding inside_def by auto
qed

lemma user_range_of_next:
  assumes "meta_ok key cmp (h f)" "meta_ok key cmp (h g)" "file_before cmp h f g"
  shows "Compare cmp (file_limit h f) (file_limit h g) \<le> 0" "Compare cmp (file_start h f) (file_start h g) \<le> 0"
proof -
  note k = meta_okD [OF assms(1)] meta_okD [OF assms(2)]
  have l: "Compare cmp (file_limit h f) (file_start h g) \<le> 0" using assms(3) k by (intro ikc_user_le) auto
  have "Compare cmp (file_start h f) (file_limit h f) \<le> 0" "Compare cmp (file_start h g) (file_limit h g) \<le> 0"
    using k by (intro ikc_user_le; blast)+
  then show "Compare cmp (file_limit h f) (file_limit h g) \<le> 0" "Compare cmp (file_start h f) (file_start h g) \<le> 0"
    using trans l k by blast+
qed

lemma convex_overlaps:
  assumes "\<And>f. f \<in> set files \<Longrightarrow> meta_ok key cmp (h f)" "bound_ok key b" "bound_ok key e"
  shows "convex cmp h (set files) (set (filter (overlaps cmp h b e) files))"
  unfolding convex_def
proof (intro ballI impI)
  fix f f' g assume f: "f \<in> set (filter (overlaps cmp h b e) files)" "f' \<in> set (filter (overlaps cmp h b e) files)"
    and g: "g \<in> set files" "file_before cmp h f g" "file_before cmp h g f'"
  have ok: "meta_ok key cmp (h f)" "meta_ok key cmp (h f')" "meta_ok key cmp (h g)" using f g assms(1) by auto
  note k = meta_okD(3,4) [OF ok(1)] meta_okD(3,4) [OF ok(2)] meta_okD(3,4) [OF ok(3)]
  have "\<not> below cmp b (file_limit h g)"
    using f(1) user_range_of_next(1) [OF ok(1,3) g(2)] le_less_trans [OF k(2,6)] assms(2)
    by (auto simp: overlaps_def below_def split: option.splits)
  moreover have "\<not> above cmp e (file_start h g)"
  proof
    assume "above cmp e (file_start h g)"
    then obtain x where x: "e = Some x" "Compare cmp x (file_start h g) < 0"
      using assms(3) k swap by (auto simp: above_def split: option.splits)
    then have "Compare cmp x (file_start h f') < 0"
      using less_le_trans [OF _ k(5,3)] user_range_of_next(2) [OF ok(3,2) g(3)] assms(3) by blast
    then show False using f(2) x(1) assms(3) k swap by (auto simp: overlaps_def above_def)
  qed
  ultimately show "g \<in> set (filter (overlaps cmp h b e) files)" using g(1) by (simp add: overlaps_def)
qed

lemma found_input_set:
  assumes "\<And>f. f \<in> set files \<Longrightarrow> meta_ok key cmp (h f)" "distinct files" "found_inputs key cmp h level files b e inputs"
  shows "input_set cmp h level files inputs"
    "\<And>f. f \<in> set files \<Longrightarrow> overlaps cmp h b e f \<Longrightarrow> f \<in> set inputs"
proof -
  obtain b' e' where r: "bound_ok key b'" "bound_ok key e'" "inputs = filter (overlaps cmp h b' e') files"
    "if level = 0 then least_closed_range key cmp h files b e b' e' else b' = b \<and> e' = e"
    using assms(3) unfolding found_inputs_def by blast
  show "input_set cmp h level files inputs"
    using alone_closed [OF assms(1) r(1,2)] convex_overlaps [OF assms(1) r(1,2)] r(3,4) assms(2)
    by (auto simp: input_set_def least_closed_range_def split: if_splits)
  show "f \<in> set inputs" if f: "f \<in> set files" "overlaps cmp h b e f" for f
  proof (cases "level = 0")
    case True
    then have "covers key cmp b' e' b e" using r(4) by (simp add: least_closed_range_def)
    then show ?thesis
      using f coversD [of key cmp b' e' b e] meta_okD(3,4) [OF assms(1) [OF f(1)]] r(3) by (auto simp: overlaps_def)
  qed (use f r(3,4) in simp)
qed

lemma convex_single: "meta_ok key cmp (h f) \<Longrightarrow> (\<And>g. g \<in> files \<Longrightarrow> meta_ok key cmp (h g)) \<Longrightarrow> convex cmp h files {f}"
  unfolding convex_def
proof (intro ballI impI)
  fix f1 f2 g
  assume ok: "meta_ok key cmp (h f)" "\<And>g. g \<in> files \<Longrightarrow> meta_ok key cmp (h g)" and f: "f1 \<in> {f}" "f2 \<in> {f}" and g: "g \<in> files"
    and "file_before cmp h f1 g" "file_before cmp h g f2"
  then have "file_before cmp h f g" "file_before cmp h g f" by simp_all
  then have "file_before cmp h f f" by (rule file_before_trans [OF ok(1) ok(2) [OF g] ok(1)])
  then show "g \<in> {f}" using file_before_irrefl [of h f] ok(1) by blast
qed

lemma limit_inputs_take: "inputs \<noteq> [] \<Longrightarrow> \<exists>n > 0. limit_inputs h limit m inputs = take n inputs"
proof (induction inputs arbitrary: m)
  case (Cons f fs)
  show ?case
  proof (cases "m + fm_file_size (h f) \<ge> limit \<or> fs = []")
    case True
    then show ?thesis by (intro exI [of _ 1]) (auto simp: Let_def)
  next
    case False
    then obtain n where "limit_inputs h limit (m + fm_file_size (h f)) fs = take n fs"
      using Cons.IH [of "m + fm_file_size (h f)"] by auto
    then have "limit_inputs h limit m (f # fs) = take (Suc n) (f # fs)" using False by (simp add: Let_def)
    then show ?thesis by blast
  qed
qed simp

lemma convex_prefix:
  assumes sorted: "level_sorted cmp h inputs" and ok: "\<And>f. f \<in> files \<Longrightarrow> meta_ok key cmp (h f)" and sub: "set inputs \<subseteq> files"
    and c: "convex cmp h files (set inputs)"
  shows "convex cmp h files (set (take n inputs))"
  unfolding convex_def
proof (intro ballI impI)
  fix f f' g assume f: "f \<in> set (take n inputs)" "f' \<in> set (take n inputs)"
    and g: "g \<in> files" "file_before cmp h f g" "file_before cmp h g f'"
  moreover have "f \<in> set inputs" "f' \<in> set inputs" using f by (auto dest: in_set_takeD)
  ultimately have "g \<in> set inputs" using c unfolding convex_def by blast
  moreover have "g \<notin> set (drop n inputs)"
  proof
    assume d: "g \<in> set (drop n inputs)"
    have "level_sorted cmp h (take n inputs @ drop n inputs)" using sorted by simp
    then have "file_before cmp h f' g" using f(2) d unfolding level_sorted_def sorted_wrt_append by blast
    moreover have "f' \<in> files" using f(2) sub by (auto dest: in_set_takeD)
    ultimately show False using file_before_trans [of h g f' g] file_before_irrefl [of h g] ok g(1,3) by blast
  qed
  moreover have "set inputs = set (take n inputs) \<union> set (drop n inputs)"
    unfolding set_append [symmetric] append_take_drop_id by (rule HOL.refl)
  ultimately show "g \<in> set (take n inputs)" by blast
qed

subsection \<open>Closing the inputs\<close>

text \<open>The largest file of the inputs.\<close>

lemma largest_input:
  assumes "\<And>f. f \<in> set inputs \<Longrightarrow> meta_ok key cmp (h f)" "inputs \<noteq> []"
  obtains m where "m \<in> set inputs" "FindLargestKey cmp h inputs = Some (fm_largest (h m))"
    "\<And>f. f \<in> set inputs \<Longrightarrow> InternalKey_Compare cmp (fm_largest (h f)) (fm_largest (h m)) \<le> 0"
proof -
  obtain k where k: "FindLargestKey cmp h inputs = Some k" using assms(2) by (cases inputs) (auto simp: FindLargestKey_def)
  then have "k \<in> fm_largest ` h ` set inputs \<and> (\<forall>x \<in> fm_largest ` h ` set inputs. InternalKey_Compare cmp x k \<le> 0)"
    using FindLargestKey_iff [where h = h and fs = inputs, OF assms(1)] by blast
  then show thesis using that k by auto
qed

lemma alone_no_boundary:
  assumes "\<And>f. f \<in> set files \<Longrightarrow> meta_ok key cmp (h f)" "set inputs \<subseteq> set files" "alone cmp h (set files) (set inputs)"
    and m: "m \<in> set inputs" "\<And>f. f \<in> set inputs \<Longrightarrow> InternalKey_Compare cmp (fm_largest (h f)) (fm_largest (h m)) \<le> 0"
    and g: "g \<in> set files" "boundary_file cmp h (fm_largest (h m)) g"
  shows False
proof -
  have "m \<in> set files" using assms(2) m(1) by blast
  note k = meta_okD [OF assms(1) [OF \<open>m \<in> set files\<close>]] meta_okD [OF assms(1) [OF g(1)]]
  have mg: "file_before cmp h m g" "file_start h g = file_limit h m"
    using g(2) ikc_greater_iff eq_iff k unfolding boundary_file_def by blast+
  show False
  proof (cases "g \<in> set inputs")
    case True
    have "file_before cmp h g g" using ikc_le_less [OF _ _ _ m(2) [OF True] mg(1)] k by blast
    then show False using file_before_irrefl assms(1) g(1) by blast
  next
    case False
    have "Compare cmp (file_start h g) (file_limit h g) \<le> 0" "Compare cmp (file_start h m) (file_limit h m) \<le> 0"
      using k by (intro ikc_user_le; blast)+
    moreover have "disjoint_users cmp h m g" using assms(3) m(1) g(1) False unfolding alone_def by blast
    ultimately show False
      using refl [OF k(4)] trans [of "file_start h m" "file_limit h m" "file_limit h g"] le_iff k mg(2)
      unfolding disjoint_users_def by (metis less_irrefl)
  qed
qed

lemma AddBoundaryInputs_closed:
  assumes ok: "\<And>f. f \<in> set files \<Longrightarrow> meta_ok key cmp (h f)" and sorted: "0 < level \<Longrightarrow> level_sorted cmp h files"
    and i: "input_set cmp h level files inputs" "inputs \<noteq> []"
  shows "\<exists>r. AddBoundaryInputs cmp h files inputs = Some r \<and> set inputs \<subseteq> set r \<and> r \<noteq> []
    \<and> input_set cmp h level files r \<and> no_boundary_file cmp h files r"
proof -
  have sub: "set inputs \<subseteq> set files" using i(1) by (simp add: input_set_def)
  obtain extra where e: "AddBoundaryInputs cmp h files inputs = Some (inputs @ extra)" "set extra \<subseteq> set files"
    "no_boundary_file cmp h files (inputs @ extra)"
    using AddBoundaryInputs_closes [where h = h, OF ok sub] by blast
  obtain m where m: "m \<in> set inputs" "FindLargestKey cmp h inputs = Some (fm_largest (h m))"
    "\<And>f. f \<in> set inputs \<Longrightarrow> InternalKey_Compare cmp (fm_largest (h f)) (fm_largest (h m)) \<le> 0"
    using largest_input [where h = h and inputs = inputs] ok sub i(2) by blast
  have loop: "AddBoundaryInputs_loop cmp h files (fm_largest (h m)) inputs = Some (inputs @ extra)"
    using e(1) m(2) by (simp add: AddBoundaryInputs_def)
  have "input_set cmp h level files (inputs @ extra)"
  proof (cases "level = 0")
    case True
    then have "alone cmp h (set files) (set inputs)" using i(1) by (simp add: input_set_def)
    then have "\<not> boundary_file cmp h (fm_largest (h m)) g" if "g \<in> set files" for g
      using alone_no_boundary [where h = h, OF ok sub _ m(1,3)] that by blast
    then have "FindSmallestBoundaryFile cmp h files (fm_largest (h m)) = None"
      using FindSmallestBoundaryFile_spec [where fs = files and k = "fm_largest (h m)" and h = h]
      by (auto split: option.splits)
    then have "extra = []" using loop by (subst (asm) AddBoundaryInputs_loop.simps) simp
    then show ?thesis using i(1) by simp
  next
    case False
    have "run_to h files (fm_largest (h m)) inputs" using i(1) False m(1,3) unfolding run_to_def input_set_def by auto
    then have "distinct (inputs @ extra) \<and> convex cmp h (set files) (set (inputs @ extra))"
      using AddBoundaryInputs_loop_run [where h = h, OF _ ok loop] sorted False by blast
    then show ?thesis using False sub e(2) by (simp add: input_set_def)
  qed
  then show ?thesis using e i(2) by (intro exI [of _ "inputs @ extra"]) simp
qed

lemma input_set_nothing_older:
  assumes ok: "\<And>f. f \<in> set files \<Longrightarrow> meta_ok key cmp (h f)" and sorted: "0 < level \<Longrightarrow> level_sorted cmp h files"
    and i: "input_set cmp h level files inputs" and n: "no_boundary_file cmp h files inputs"
  shows "nothing_older cmp h level files inputs"
proof (cases "level = 0")
  case True
  then show ?thesis using i by (auto simp: input_set_def alone_def nothing_older_def)
next
  case False
  have sub: "set inputs \<subseteq> set files" and c: "convex cmp h (set files) (set inputs)" using i False by (simp_all add: input_set_def)
  have "disjoint_users cmp h f g \<or> file_before cmp h g f" if f: "f \<in> set inputs" and g: "g \<in> set files" "g \<notin> set inputs" for f g
  proof -
    have "inputs \<noteq> []" using f by auto
    then obtain m where m: "m \<in> set inputs" "FindLargestKey cmp h inputs = Some (fm_largest (h m))"
      "\<And>f. f \<in> set inputs \<Longrightarrow> InternalKey_Compare cmp (fm_largest (h f)) (fm_largest (h m)) \<le> 0"
      using largest_input [where h = h and inputs = inputs] ok sub by blast
    have fm: "f \<in> set files" "m \<in> set files" using sub f m(1) by blast+
    note k = meta_okD [OF ok [OF fm(1)]] meta_okD [OF ok [OF fm(2)]] meta_okD [OF ok [OF g(1)]]
    have s: "level_sorted cmp h files" using sorted False by simp
    from s fm(1) g(1) show ?thesis
    proof (cases rule: level_cases)
      case 2
      from s fm(2) g(1) show ?thesis
      proof (cases rule: level_cases)
        case 2
        have "\<not> boundary_file cmp h (fm_largest (h m)) g" using n m(2) g(1) unfolding no_boundary_file_def by blast
        moreover have "InternalKey_Compare cmp (fm_smallest (h g)) (fm_largest (h m)) > 0"
          using ikc_greater_iff k 2 by blast
        ultimately have ne: "Compare cmp (file_start h g) (file_limit h m) \<noteq> 0" by (simp add: boundary_file_def)
        have "Compare cmp (file_limit h m) (file_start h g) \<le> 0" using 2 k by (intro ikc_user_le) auto
        then have "Compare cmp (file_limit h m) (file_start h g) < 0"
          using ne eq_iff [OF k(9,13)] eq_iff [OF k(13,9)] by auto
        moreover have "Compare cmp (file_limit h f) (file_limit h m) \<le> 0" using m(3) [OF f] k by (intro ikc_user_le) auto
        ultimately show ?thesis using le_less_trans k unfolding disjoint_users_def by blast
      next
        case 3
        then show ?thesis using c f m(1) g \<open>file_before cmp h f g\<close> unfolding convex_def by blast
      qed (use g m(1) in blast)
    qed (use f g in auto)
  qed
  then show ?thesis using False by (auto simp: nothing_older_def)
qed

subsection \<open>Choosing the inputs\<close>

lemma range_overlapping:
  assumes v: "version_ok key cmp vs v" "vs_user_comparator vs = cmp" "level < kNumLevels"
    and i: "\<And>f. f \<in> set inputs \<Longrightarrow> meta_ok key cmp (vs_file vs f)" "inputs \<noteq> []"
  shows "\<exists>s l found. GetRange cmp (vs_file vs) inputs = Some (s, l)
    \<and> s \<in> fm_smallest ` vs_file vs ` set inputs \<and> l \<in> fm_largest ` vs_file vs ` set inputs
    \<and> (\<forall>f \<in> set inputs. InternalKey_Compare cmp (fm_largest (vs_file vs f)) l \<le> 0)
    \<and> overlapping_inputs vs v level (Some s) (Some l) = Some found
    \<and> input_set cmp (vs_file vs) level (v_files v level) found
    \<and> all_overlapping cmp (vs_file vs) (set inputs) (v_files v level) found"
proof -
  let ?h = "vs_file vs" and ?fs = "v_files v level"
  note files = version_okD [OF v(1,3)]
  have dist: "distinct ?fs" using sorted_level_distinct [OF files(2)] files(1) by blast
  obtain s l where sl: "GetRange cmp ?h inputs = Some (s, l)" "s \<in> fm_smallest ` ?h ` set inputs" "l \<in> fm_largest ` ?h ` set inputs"
    "\<And>f. f \<in> set inputs \<Longrightarrow> InternalKey_Compare cmp s (fm_smallest (?h f)) \<le> 0"
    "\<And>f. f \<in> set inputs \<Longrightarrow> InternalKey_Compare cmp (fm_largest (?h f)) l \<le> 0"
    using GetRange_bounds [where h = ?h, OF i(2,1)] by blast
  have ik: "ikey key s" "ikey key l" using sl(2,3) i(1) meta_okD(1,2) by blast+
  then have k: "key (InternalKey_user_key s)" "key (InternalKey_user_key l)" by (simp_all add: ikey_def InternalKey_user_key_def)
  then have b: "bound_ok key (map_option InternalKey_user_key (Some s))" "bound_ok key (map_option InternalKey_user_key (Some l))" by simp_all
  obtain found where found: "GetOverlappingInputs cmp ?h (v_files v) level (Some s) (Some l) = Some found"
    "found_inputs key cmp ?h level ?fs (map_option InternalKey_user_key (Some s)) (map_option InternalKey_user_key (Some l)) found"
    using GetOverlappingInputs_finds [where h = ?h, OF v(3) files(1) b] by blast
  have inset: "input_set cmp ?h level ?fs found"
    and all: "\<And>f. f \<in> set ?fs \<Longrightarrow> overlaps cmp ?h (map_option InternalKey_user_key (Some s)) (map_option InternalKey_user_key (Some l)) f \<Longrightarrow> f \<in> set found"
    using found_input_set [where h = ?h, OF files(1) dist found(2)] by blast+
  have "disjoint_users cmp ?h f g \<or> g \<in> set found" if f: "f \<in> set inputs" and g: "g \<in> set ?fs" for f g
  proof -
    note fk = meta_okD [OF i(1) [OF f]]
    have "Compare cmp (InternalKey_user_key s) (file_start ?h f) \<le> 0"
      by (rule ikc_user_le [OF ik(1) fk(1) sl(4) [OF f]])
    then have 1: "\<not> below cmp (map_option InternalKey_user_key (Some s)) (file_start ?h f)"
      using le_iff [OF k(1) fk(3)] by (simp add: below_def)
    have "Compare cmp (file_limit ?h f) (InternalKey_user_key l) \<le> 0"
      by (rule ikc_user_le [OF fk(2) ik(2) sl(5) [OF f]])
    then have 2: "\<not> above cmp (map_option InternalKey_user_key (Some l)) (file_limit ?h f)"
      by (simp add: above_def)
    show ?thesis
      using sharing_overlaps [OF i(1) [OF f] files(1) [OF g] b 1 2] all [OF g] by blast
  qed
  then have "all_overlapping cmp ?h (set inputs) ?fs found"
    using inset unfolding all_overlapping_def input_set_def by blast
  then show ?thesis
    using sl found(1) inset v(2) unfolding overlapping_inputs_def by blast
qed

lemma all_overlapping_mem:
  assumes "all_overlapping cmp h I files found" "f \<in> I" "f \<in> set files" "meta_ok key cmp (h f)"
  shows "f \<in> set found"
  using assms file_overlaps_itself unfolding all_overlapping_def by blast

lemma chosenI:
  assumes v: "version_ok key cmp vs v" "vs_user_comparator vs = cmp" "level + 1 < kNumLevels"
    and i: "inputs0 \<noteq> []" "input_set cmp (vs_file vs) level (v_files v level) inputs0"
      "no_boundary_file cmp (vs_file vs) (v_files v level) inputs0"
  shows "\<exists>s l inputs1. GetRange cmp (vs_file vs) inputs0 = Some (s, l)
    \<and> overlapping_inputs vs v (level + 1) (Some s) (Some l) = Some inputs1 \<and> chosen_inputs cmp vs v level l inputs0 inputs1"
proof -
  have level: "level < kNumLevels" using v(3) by simp
  note files = version_okD [OF v(1) level]
  have ok: "meta_ok key cmp (vs_file vs f)" if "f \<in> set inputs0" for f
    using that i(2) files(1) unfolding input_set_def by blast
  have "nothing_older cmp (vs_file vs) level (v_files v level) inputs0"
    by (rule input_set_nothing_older [where h = "vs_file vs", OF files(1,3) i(2,3)])
  then show ?thesis
    using range_overlapping [where inputs = inputs0, OF v ok i(1)] i(1,2)
    unfolding chosen_inputs_def input_set_def [of _ _ "level + 1"] by blast
qed

lemma chosen_meta:
  assumes v: "version_ok key cmp vs v" "level + 1 < kNumLevels" and c: "chosen_inputs cmp vs v level largest inputs0 inputs1"
    and f: "f \<in> set (inputs0 @ inputs1)"
  shows "meta_ok key cmp (vs_file vs f)"
proof -
  have "level < kNumLevels" using v(2) by simp
  then show ?thesis
    using f c version_okD(1) [OF v] version_okD(1) [OF v(1)]
    unfolding chosen_inputs_def input_set_def all_overlapping_def by auto
qed

lemma grow_inputs_ok:
  assumes v: "version_ok key cmp vs v" "vs_user_comparator vs = cmp" "level + 1 < kNumLevels"
    and c: "chosen_inputs cmp vs v level largest inputs0 inputs1"
  shows "\<exists>largest' inputs0' inputs1'. grow_inputs vs v level largest inputs0 inputs1 = Some (largest', inputs0', inputs1')
    \<and> chosen_inputs cmp vs v level largest' inputs0' inputs1' \<and> set inputs0 \<subseteq> set inputs0'"
proof (cases "inputs1 = []")
  case True
  then show ?thesis using c by (simp add: grow_inputs_def Let_def)
next
  case False
  let ?h = "vs_file vs"
  have level: "level < kNumLevels" using v(3) by simp
  note files = version_okD [OF v(1) level]
  have sub: "set inputs0 \<subseteq> set (v_files v level)" "inputs0 \<noteq> []" using c by (simp_all add: chosen_inputs_def input_set_def)
  obtain s l expanded0 where e: "GetRange cmp ?h (inputs0 @ inputs1) = Some (s, l)"
    "overlapping_inputs vs v level (Some s) (Some l) = Some expanded0" "input_set cmp ?h level (v_files v level) expanded0"
    "all_overlapping cmp ?h (set (inputs0 @ inputs1)) (v_files v level) expanded0"
    using range_overlapping [where inputs = "inputs0 @ inputs1", OF v(1,2) level chosen_meta [OF v(1,3) c]] sub(2) by blast
  have in_e: "f \<in> set expanded0" if "f \<in> set inputs0" for f
    using all_overlapping_mem [OF e(4), of f] that sub(1) files(1) by auto
  then have "expanded0 \<noteq> []" using in_e [OF hd_in_set [OF sub(2)]] by auto
  then obtain r where r: "AddBoundaryInputs cmp ?h (v_files v level) expanded0 = Some r" "set expanded0 \<subseteq> set r" "r \<noteq> []"
    "input_set cmp ?h level (v_files v level) r" "no_boundary_file cmp ?h (v_files v level) r"
    using AddBoundaryInputs_closed [where h = ?h, OF files(1,3) e(3)] by blast
  obtain s' l' expanded1 where n: "GetRange cmp ?h r = Some (s', l')"
    "overlapping_inputs vs v (level + 1) (Some s') (Some l') = Some expanded1" "chosen_inputs cmp vs v level l' r expanded1"
    using chosenI [OF v r(3-5)] by blast
  have "grow_inputs vs v level largest inputs0 inputs1 \<in> {Some (largest, inputs0, inputs1), Some (l', r, expanded1)}"
    using False e(1,2) r(1) n(1,2) v(2) by (simp add: grow_inputs_def Let_def GetRange2_def)
  then show ?thesis using c n(3) in_e r(2) by blast
qed

subsection \<open>Setting up and picking\<close>

text \<open>A compaction with its inputs, and the version set with the new compaction pointer.\<close>

definition set_up :: "Compaction \<Rightarrow> 'w VersionSet \<Rightarrow> Compaction \<Rightarrow> 'w VersionSet \<Rightarrow> bool" where
  "set_up c vs c' vs' \<longleftrightarrow> compaction_ok cmp vs (current_version vs) c' \<and> set (cp_inputs0 c) \<subseteq> set (cp_inputs0 c')
     \<and> cp_level c' = cp_level c \<and> cp_input_version c' = cp_input_version c
     \<and> (\<exists>k \<in> fm_largest ` vs_file vs ` set (cp_inputs0 c').
          (\<forall>f \<in> set (cp_inputs0 c'). InternalKey_Compare cmp (fm_largest (vs_file vs f)) k \<le> 0)
          \<and> vs' = vs\<lparr>vs_compact_pointer := (vs_compact_pointer vs)(cp_level c := k)\<rparr>
          \<and> cp_edit c' = SetCompactPointer (int (cp_level c)) k (cp_edit c))"

theorem SetupOtherInputs_ok:
  assumes v: "version_ok key cmp vs (current_version vs)" "vs_user_comparator vs = cmp" "cp_level c + 1 < kNumLevels"
    and i: "cp_inputs0 c \<noteq> []" "input_set cmp (vs_file vs) (cp_level c) (v_files (current_version vs) (cp_level c)) (cp_inputs0 c)"
  shows "\<exists>c' vs'. SetupOtherInputs c vs = Some (c', vs') \<and> set_up c vs c' vs'"
proof -
  let ?h = "vs_file vs" and ?v = "current_version vs" and ?level = "cp_level c"
  have level: "?level < kNumLevels" using v(3) by simp
  note files = version_okD [OF v(1) level]
  obtain r where r: "AddBoundaryInputs cmp ?h (v_files ?v ?level) (cp_inputs0 c) = Some r" "set (cp_inputs0 c) \<subseteq> set r" "r \<noteq> []"
    "input_set cmp ?h ?level (v_files ?v ?level) r" "no_boundary_file cmp ?h (v_files ?v ?level) r"
    using AddBoundaryInputs_closed [where h = ?h, OF files(1,3) i(2,1)] by blast
  obtain s l inputs1 where n: "GetRange cmp ?h r = Some (s, l)"
    "overlapping_inputs vs ?v (?level + 1) (Some s) (Some l) = Some inputs1" "chosen_inputs cmp vs ?v ?level l r inputs1"
    using chosenI [OF v r(3-5)] by blast
  obtain k i0 i1 where g: "grow_inputs vs ?v ?level l r inputs1 = Some (k, i0, i1)"
    "chosen_inputs cmp vs ?v ?level k i0 i1" "set r \<subseteq> set i0"
    using grow_inputs_ok [OF v n(3)] by blast
  note meta = chosen_meta [OF v(1,3) g(2)]
  have i0: "i0 \<noteq> []" using g(2) by (simp add: chosen_inputs_def)
  have k: "ikey key k" using g(2) meta meta_okD(2) unfolding chosen_inputs_def by auto
  then have enc: "InternalKey_Encode k = Some k" by (auto simp: InternalKey_Encode_def ikey_def)
  obtain s' l' where sl: "GetRange cmp ?h (i0 @ i1) = Some (s', l')"
    using range_overlapping [where inputs = "i0 @ i1", OF v(1,2) level meta] i0 by blast
  have "\<exists>gp. (if ?level + 2 < kNumLevels then overlapping_inputs vs ?v (?level + 2) (Some s') (Some l') else Some (cp_grandparents c)) = Some gp
    \<and> (?level + 2 < kNumLevels \<longrightarrow> all_overlapping cmp ?h (set i0 \<union> set i1) (v_files ?v (?level + 2)) gp)"
    using range_overlapping [where inputs = "i0 @ i1" and level = "?level + 2", OF v(1,2) _ meta] i0 sl by auto
  then obtain gp where gp: "(if ?level + 2 < kNumLevels then overlapping_inputs vs ?v (?level + 2) (Some s') (Some l')
      else Some (cp_grandparents c)) = Some gp"
    "?level + 2 < kNumLevels \<longrightarrow> all_overlapping cmp ?h (set i0 \<union> set i1) (v_files ?v (?level + 2)) gp" by blast
  let ?c = "c\<lparr>cp_inputs0 := i0, cp_inputs1 := i1, cp_grandparents := gp, cp_edit := SetCompactPointer (int ?level) k (cp_edit c)\<rparr>"
  have "SetupOtherInputs c vs = Some (?c, vs\<lparr>vs_compact_pointer := (vs_compact_pointer vs)(?level := k)\<rparr>)"
    using r(1) n(1,2) g(1) sl gp(1) enc v(2) unfolding SetupOtherInputs_def GetRange2_def Let_def by simp
  moreover have "compaction_ok cmp vs ?v ?c" using g(2) gp(2) by (simp add: compaction_ok_def chosen_inputs_def Let_def)
  ultimately show ?thesis
    using g(2,3) r(2) unfolding set_up_def chosen_inputs_def by auto
qed

lemma single_input:
  assumes v: "version_ok key cmp vs v" "level < kNumLevels" "0 < level" "f \<in> set (v_files v level)"
  shows "input_set cmp (vs_file vs) level (v_files v level) [f]"
  using convex_single [of "vs_file vs" f "set (v_files v level)"] version_okD(1) [OF v(1,2)] v(3,4) by (simp add: input_set_def)

lemma level_0_input:
  assumes v: "version_ok key cmp vs v" "vs_user_comparator vs = cmp" and f: "f \<in> set (v_files v 0)"
  shows "\<exists>s l inputs. GetRange cmp (vs_file vs) [f] = Some (s, l) \<and> overlapping_inputs vs v 0 (Some s) (Some l) = Some inputs
    \<and> f \<in> set inputs \<and> input_set cmp (vs_file vs) 0 (v_files v 0) inputs"
proof -
  have level: "0 < kNumLevels" by (simp add: kNumLevels_def)
  have ok: "meta_ok key cmp (vs_file vs f)" by (rule version_okD(1) [OF v(1) level f])
  obtain s l inputs where i: "GetRange cmp (vs_file vs) [f] = Some (s, l)" "overlapping_inputs vs v 0 (Some s) (Some l) = Some inputs"
    "input_set cmp (vs_file vs) 0 (v_files v 0) inputs" "all_overlapping cmp (vs_file vs) (set [f]) (v_files v 0) inputs"
    using range_overlapping [where inputs = "[f]", OF v level] ok by auto
  then show ?thesis using all_overlapping_mem [OF i(4) _ f ok] by auto
qed

lemma next_to_compact_in:
  assumes "v_files v level \<noteq> []"
  shows "\<exists>f \<in> set (v_files v level). next_to_compact vs v level = Some f"
proof -
  have "find P xs = Some x \<Longrightarrow> x \<in> set xs" for P and xs :: "FilePtr list" and x
    by (auto simp: find_Some_iff)
  then show ?thesis using assms by (auto simp: next_to_compact_def split: option.splits list.splits)
qed

text \<open>A reference to the current version changes nothing that the inputs depend on.\<close>

lemma ref_current:
  assumes "vs_current vs = Some p"
  shows "vs_file (Version_Ref p vs) = vs_file vs" "vs_user_comparator (Version_Ref p vs) = vs_user_comparator vs"
    "v_files (current_version (Version_Ref p vs)) = v_files (vs_version vs p)"
    "overlapping_inputs (Version_Ref p vs) = (overlapping_inputs vs :: Version \<Rightarrow> _)"
    "version_ok key cmp (Version_Ref p vs) (current_version (Version_Ref p vs)) \<longleftrightarrow> version_ok key cmp vs (vs_version vs p)"
    "compaction_ok cmp (Version_Ref p vs) (current_version (Version_Ref p vs)) c \<longleftrightarrow> compaction_ok cmp vs (vs_version vs p) c"
  using assms by (auto simp: Version_Ref_def update_version_def current_version_def version_ok_def compaction_ok_def
      overlapping_inputs_def Let_def fun_eq_iff)

lemma over_limit_files: "over_limit h v level \<Longrightarrow> v_files v level \<noteq> []"
  by (auto simp: over_limit_def kL0_CompactionTrigger_def TotalFileSize_def split: if_splits)

lemma compaction_start_ok:
  assumes "vs_current vs = Some p" "Finalize p vs = vs" "seek_ok (vs_version vs p)"
  shows "if NeedsCompaction vs then \<exists>level f. compaction_start vs = Some (Some (level, f)) \<and> start_ok vs (vs_version vs p) level f
    else compaction_start vs = Some None"
proof -
  let ?v = "vs_version vs p"
  have v: "current_version vs = ?v" using assms(1) by (simp add: current_version_def)
  consider "1 \<le> v_compaction_score ?v" | f where "\<not> 1 \<le> v_compaction_score ?v" "v_file_to_compact ?v = Some f"
    | "\<not> 1 \<le> v_compaction_score ?v" "v_file_to_compact ?v = None"
    by (cases "v_file_to_compact ?v") blast+
  then show ?thesis
  proof cases
    case 1
    obtain level where level: "level < kNumLevels - 1" "v_compaction_level ?v = int level" "over_limit (vs_file vs) ?v level"
      using Finalize_reaches(2) [of p vs] 1 assms(2) by auto
    obtain f where f: "f \<in> set (v_files ?v level)" "next_to_compact vs ?v level = Some f"
      using next_to_compact_in [OF over_limit_files [OF level(3)]] by blast
    have "level + 1 < kNumLevels" using level(1) by simp
    then show ?thesis
      using 1 level f v by (simp add: NeedsCompaction_def compaction_start_def Let_def start_ok_def)
  next
    case 2
    then show ?thesis
      using assms(3) v by (auto simp: NeedsCompaction_def compaction_start_def Let_def start_ok_def seek_ok_def nat_less_iff)
  next
    case 3
    then show ?thesis using v by (simp add: NeedsCompaction_def compaction_start_def Let_def)
  qed
qed

theorem PickCompaction_ok:
  assumes cur: "vs_current vs = Some p" and v: "version_ok key cmp vs (vs_version vs p)" "vs_user_comparator vs = cmp"
    and start: "compaction_start vs = Some (Some (level, f))" "start_ok vs (vs_version vs p) level f"
  shows "\<exists>c vs'. PickCompaction vs = Some (Some c, vs') \<and> compaction_ok cmp vs (vs_version vs p) c \<and> cp_level c = level
    \<and> cp_input_version c = Some p \<and> f \<in> set (cp_inputs0 c)
    \<and> (\<exists>k \<in> fm_largest ` vs_file vs ` set (cp_inputs0 c).
         vs' = (Version_Ref p vs)\<lparr>vs_compact_pointer := (vs_compact_pointer vs)(level := k)\<rparr>
         \<and> (\<forall>g \<in> set (cp_inputs0 c). InternalKey_Compare cmp (fm_largest (vs_file vs g)) k \<le> 0)
         \<and> ve_compact_pointers (cp_edit c) = [(int level, k)])"
proof -
  let ?v = "vs_version vs p" and ?vs = "Version_Ref p vs"
  note ref = ref_current [OF cur]
  have f: "level + 1 < kNumLevels" "f \<in> set (v_files ?v level)" using start(2) by (simp_all add: start_ok_def)
  have curv: "current_version vs = ?v" using cur by (simp add: current_version_def)
  let ?c = "(new_Compaction (vs_options vs) level)\<lparr>cp_inputs0 := [f], cp_input_version := Some p\<rparr>"
  have "\<exists>inputs. (if level = 0 then Option.bind (GetRange cmp (vs_file vs) [f]) (\<lambda>(smallest, largest).
      Option.bind (overlapping_inputs vs (current_version ?vs) 0 (Some smallest) (Some largest)) (\<lambda>inputs.
        if inputs \<noteq> [] then Some inputs else None)) else Some [f]) = Some inputs
    \<and> f \<in> set inputs \<and> input_set cmp (vs_file vs) level (v_files ?v level) inputs"
  proof (cases "level = 0")
    case True
    have same: "overlapping_inputs vs (current_version ?vs) = overlapping_inputs vs ?v"
      unfolding overlapping_inputs_def ref(3) by (rule HOL.refl)
    from True level_0_input [OF v, of f] f(2) show ?thesis unfolding same by fastforce
  next
    case False
    then show ?thesis using single_input [OF v(1) _ _ f(2)] f(1) by simp
  qed
  then obtain inputs where i: "(if level = 0 then Option.bind (GetRange cmp (vs_file vs) [f]) (\<lambda>(smallest, largest).
      Option.bind (overlapping_inputs vs (current_version ?vs) 0 (Some smallest) (Some largest)) (\<lambda>inputs.
        if inputs \<noteq> [] then Some inputs else None)) else Some [f]) = Some inputs"
    "f \<in> set inputs" "input_set cmp (vs_file vs) level (v_files ?v level) inputs" by blast
  have "\<exists>c' vs'. SetupOtherInputs (?c\<lparr>cp_inputs0 := inputs\<rparr>) ?vs = Some (c', vs') \<and> set_up (?c\<lparr>cp_inputs0 := inputs\<rparr>) ?vs c' vs'"
    using i(2,3) v f(1) by (intro SetupOtherInputs_ok) (auto simp: ref new_Compaction_def)
  then obtain c' vs' where s: "SetupOtherInputs (?c\<lparr>cp_inputs0 := inputs\<rparr>) ?vs = Some (c', vs')"
    "set_up (?c\<lparr>cp_inputs0 := inputs\<rparr>) ?vs c' vs'" by blast
  have "PickCompaction vs = Some (Some c', vs')"
    using start(1) cur i(1) s(1) v(2)
    by (cases "level = 0") (auto simp: PickCompaction_def Let_def ref new_Compaction_def bind_eq_Some_conv split: if_splits)
  then show ?thesis
    using s(2) i(2) unfolding set_up_def ref(1,6)
    by (auto simp: new_Compaction_def SetCompactPointer_def new_VersionEdit_def VersionEdit_Clear_def Version_Ref_def update_version_def)
qed

theorem CompactRange_ok:
  assumes cur: "vs_current vs = Some p" and v: "version_ok key cmp vs (vs_version vs p)" "vs_user_comparator vs = cmp"
    and level: "level + 1 < kNumLevels"
    and b: "bound_ok key (map_option InternalKey_user_key b)" "bound_ok key (map_option InternalKey_user_key e)"
  defines "overlapping \<equiv> {f \<in> set (v_files (vs_version vs p) level).
      overlaps cmp (vs_file vs) (map_option InternalKey_user_key b) (map_option InternalKey_user_key e) f}"
  shows "\<exists>r vs'. CompactRange level b e vs = Some (r, vs')
    \<and> (case r of None \<Rightarrow> overlapping = {} \<and> vs' = vs
        | Some c \<Rightarrow> compaction_ok cmp vs (vs_version vs p) c \<and> cp_level c = level \<and> cp_input_version c = Some p
            \<and> (level = 0 \<longrightarrow> overlapping \<subseteq> set (cp_inputs0 c)))"
proof -
  let ?v = "vs_version vs p" and ?vs = "Version_Ref p vs" and ?h = "vs_file vs"
  note ref = ref_current [OF cur]
  have level': "level < kNumLevels" using level by simp
  note files = version_okD [OF v(1) level']
  have dist: "distinct (v_files ?v level)" using sorted_level_distinct [OF files(2)] files(1) by blast
  have curv: "current_version vs = ?v" using cur by (simp add: current_version_def)
  obtain inputs where i: "GetOverlappingInputs cmp ?h (v_files ?v) level b e = Some inputs"
    "found_inputs key cmp ?h level (v_files ?v level) (map_option InternalKey_user_key b) (map_option InternalKey_user_key e) inputs"
    using GetOverlappingInputs_finds [where h = ?h, OF level' files(1) b] by blast
  have all: "input_set cmp ?h level (v_files ?v level) inputs" "overlapping \<subseteq> set inputs"
    using found_input_set [where h = ?h, OF files(1) dist i(2)] unfolding overlapping_def by blast+
  have get: "overlapping_inputs vs (current_version vs) level b e = Some inputs"
    using i(1) v(2) by (simp add: overlapping_inputs_def curv)
  show ?thesis
  proof (cases "inputs = []")
    case True
    then show ?thesis using get all(2) by (simp add: CompactRange_def)
  next
    case False
    define chosen where "chosen = (if level > 0 then limit_inputs ?h (MaxFileSizeForLevel (vs_options vs) level) 0 inputs else inputs)"
    obtain n where n: "0 < n" "chosen = take n inputs"
      using limit_inputs_take [OF False] False unfolding chosen_def
      by (metis length_greater_0_conv order_refl take_all)
    have chosen: "chosen \<noteq> []" "set chosen \<subseteq> set (v_files ?v level)" "distinct chosen"
      using n False all(1) by (auto simp: input_set_def dest: in_set_takeD)
    have "convex cmp ?h (set (v_files ?v level)) (set chosen)" if l: "0 < level"
    proof -
      obtain b' e' where "inputs = filter (overlaps cmp ?h b' e') (v_files ?v level)"
        using i(2) unfolding found_inputs_def by blast
      then have "level_sorted cmp ?h inputs" using files(3) [OF l] by (simp add: level_sorted_def sorted_wrt_filter)
      then show ?thesis unfolding n(2) using convex_prefix [where h = ?h] all(1) l files(1) by (simp add: input_set_def)
    qed
    then have inset: "input_set cmp ?h level (v_files ?v level) chosen"
      using all(1) chosen by (auto simp: input_set_def chosen_def)
    let ?c = "(new_Compaction (vs_options vs) level)\<lparr>cp_inputs0 := chosen, cp_input_version := Some p\<rparr>"
    have "\<exists>c' vs'. SetupOtherInputs ?c ?vs = Some (c', vs') \<and> set_up ?c ?vs c' vs'"
      using chosen(1) inset v level by (intro SetupOtherInputs_ok) (auto simp: ref new_Compaction_def)
    then obtain c' vs' where s: "SetupOtherInputs ?c ?vs = Some (c', vs')" "set_up ?c ?vs c' vs'" by blast
    have r: "CompactRange level b e vs = Some (Some c', vs')"
      using get False s(1) cur unfolding CompactRange_def Let_def chosen_def by simp
    have "set chosen \<subseteq> set (cp_inputs0 c')" using s(2) by (simp add: set_up_def)
    moreover have "chosen = inputs" if "level = 0" using that by (simp add: chosen_def)
    ultimately have sub: "level = 0 \<longrightarrow> overlapping \<subseteq> set (cp_inputs0 c')" using all(2) by blast
    show ?thesis
      using r sub s(2) unfolding set_up_def ref(1,6) by (simp add: new_Compaction_def)
  qed
qed

subsection \<open>Keys of deeper levels\<close>

text \<open>The pointers of a compaction are past the files that end before a key.\<close>

definition ptrs_ok :: "'w VersionSet \<Rightarrow> Version \<Rightarrow> Slice \<Rightarrow> Compaction \<Rightarrow> bool" where
  "ptrs_ok vs v k c \<longleftrightarrow> (\<forall>lvl \<in> {cp_level c + 2..<kNumLevels}. \<forall>i < cp_level_ptrs c lvl. i < length (v_files v lvl) \<longrightarrow>
     Compare cmp (file_limit (vs_file vs) (v_files v lvl ! i)) k < 0)"

definition in_file :: "FileStore \<Rightarrow> Slice \<Rightarrow> FilePtr \<Rightarrow> bool" where
  "in_file h k f \<longleftrightarrow> Compare cmp (file_start h f) k \<le> 0 \<and> Compare cmp k (file_limit h f) \<le> 0"

lemma ptrs_ok_later:
  assumes "version_ok key cmp vs v" "ptrs_ok vs v k c" "key k" "key k'" "Compare cmp k k' \<le> 0"
  shows "ptrs_ok vs v k' c"
  unfolding ptrs_ok_def
proof (intro ballI allI impI)
  fix lvl i assume l: "lvl \<in> {cp_level c + 2..<kNumLevels}" "i < cp_level_ptrs c lvl" "i < length (v_files v lvl)"
  then have "meta_ok key cmp (vs_file vs (v_files v lvl ! i))" using version_okD(1) [OF assms(1), of lvl] by simp
  then show "Compare cmp (file_limit (vs_file vs) (v_files v lvl ! i)) k' < 0"
    using less_le_trans [OF _ assms(3,4) _ assms(5)] assms(2) l meta_okD(4) unfolding ptrs_ok_def by blast
qed

lemma advance_level_ptr_finds:
  assumes sorted: "level_sorted cmp h files" and ok: "\<And>f. f \<in> set files \<Longrightarrow> meta_ok key cmp (h f)" and k: "key k"
    and "\<And>j. j < i \<Longrightarrow> j < length files \<Longrightarrow> Compare cmp (file_limit h (files ! j)) k < 0"
  shows "\<exists>i'. advance_level_ptr cmp h files k i = (i', \<exists>f \<in> set files. in_file h k f)
    \<and> (\<forall>j < i'. j < length files \<longrightarrow> Compare cmp (file_limit h (files ! j)) k < 0)"
  using assms(4)
proof (induction "length files - i" arbitrary: i)
  case 0
  have "\<not> in_file h k f" if "f \<in> set files" for f
  proof -
    obtain j where j: "j < length files" "f = files ! j" using \<open>f \<in> set files\<close> by (metis in_set_conv_nth)
    then have "Compare cmp (file_limit h f) k < 0" using 0 by simp
    then show ?thesis using le_iff [OF k] meta_okD(4) [OF ok [OF that]] by (simp add: in_file_def)
  qed
  then show ?case using 0 by (subst advance_level_ptr.simps) auto
next
  case (Suc n)
  then have i: "i < length files" by simp
  let ?f = "files ! i"
  have fi: "?f \<in> set files" using i by simp
  note fk = meta_okD(3,4) [OF ok [OF fi]]
  show ?case
  proof (cases "Compare cmp k (file_limit h ?f) \<le> 0")
    case False
    then have "Compare cmp (file_limit h ?f) k < 0" using le_iff [OF k fk(2)] by simp
    then have "\<exists>i'. advance_level_ptr cmp h files k (i + 1) = (i', \<exists>f \<in> set files. in_file h k f)
      \<and> (\<forall>j < i'. j < length files \<longrightarrow> Compare cmp (file_limit h (files ! j)) k < 0)"
      using Suc.hyps(2) Suc.prems by (intro Suc.hyps(1)) (auto simp: less_Suc_eq)
    then show ?thesis using False i by (subst advance_level_ptr.simps) simp
  next
    case True
    have "(\<exists>f \<in> set files. in_file h k f) \<longleftrightarrow> 0 \<le> Compare cmp k (file_start h ?f)"
    proof
      assume "0 \<le> Compare cmp k (file_start h ?f)"
      then have "Compare cmp (file_start h ?f) k \<le> 0" using swap [OF k fk(1)] by (simp add: le_iff fk k)
      then show "\<exists>f \<in> set files. in_file h k f" using True fi unfolding in_file_def by blast
    next
      assume "\<exists>f \<in> set files. in_file h k f"
      then obtain j where j: "j < length files" "in_file h k (files ! j)" by (auto simp: in_set_conv_nth)
      note jk = meta_okD(3,4) [OF ok [OF nth_mem [OF j(1)]]]
      have "\<not> j < i" using Suc.prems [OF _ j(1)] j(2) le_iff [OF k jk(2)] unfolding in_file_def by blast
      then have "Compare cmp (file_start h ?f) (file_start h (files ! j)) \<le> 0"
        using level_user_sorted(1) [where h = h, OF sorted ok _ j(1), of i] refl [OF fk(1)] by (cases "i = j") auto
      then have "Compare cmp (file_start h ?f) k \<le> 0" using trans [OF fk(1) jk(1) k] j(2) unfolding in_file_def by blast
      then show "0 \<le> Compare cmp k (file_start h ?f)" using le_iff [OF fk(1) k] by simp
    qed
    then show ?thesis using True i Suc.prems by (subst advance_level_ptr.simps) (simp add: Let_def)
  qed
qed

lemma IsBaseLevel_loop_iff:
  assumes v: "version_ok key cmp vs v" "vs_user_comparator vs = cmp" "key k"
    and "set lvls \<subseteq> {cp_level c + 2..<kNumLevels}" "ptrs_ok vs v k c"
  shows "\<exists>c'. IsBaseLevel_loop vs v k lvls c = (\<forall>lvl \<in> set lvls. \<forall>f \<in> set (v_files v lvl). \<not> in_file (vs_file vs) k f, c')
    \<and> ptrs_ok vs v k c' \<and> cp_level c' = cp_level c \<and> cp_input_version c' = cp_input_version c"
  using assms(4,5)
proof (induction lvls arbitrary: c)
  case (Cons lvl lvls)
  have l: "lvl < kNumLevels" "0 < lvl" using Cons.prems(1) by auto
  note files = version_okD [OF v(1) l(1)]
  obtain i where i: "advance_level_ptr cmp (vs_file vs) (v_files v lvl) k (cp_level_ptrs c lvl)
      = (i, \<exists>f \<in> set (v_files v lvl). in_file (vs_file vs) k f)"
    "\<forall>j < i. j < length (v_files v lvl) \<longrightarrow> Compare cmp (file_limit (vs_file vs) (v_files v lvl ! j)) k < 0"
    using advance_level_ptr_finds [where h = "vs_file vs" and i = "cp_level_ptrs c lvl", OF files(3) [OF l(2)] files(1) v(3)]
      Cons.prems unfolding ptrs_ok_def by auto
  let ?c = "c\<lparr>cp_level_ptrs := (cp_level_ptrs c)(lvl := i)\<rparr>"
  have "ptrs_ok vs v k ?c" using Cons.prems(2) i(2) by (simp add: ptrs_ok_def)
  then show ?case
    using Cons.IH [of ?c] Cons.prems(1) i(1) v(2) by (cases "\<exists>f \<in> set (v_files v lvl). in_file (vs_file vs) k f") auto
qed simp

text \<open>For keys in ascending order the answer is exact: no deeper level has a file around the key.\<close>

theorem IsBaseLevelForKey_iff:
  assumes "version_ok key cmp vs (vs_version vs p)" "vs_user_comparator vs = cmp" "key k"
    and "cp_input_version c = Some p" "ptrs_ok vs (vs_version vs p) k c"
  shows "\<exists>c'. IsBaseLevelForKey vs k c = Some (\<forall>lvl \<in> {cp_level c + 2..<kNumLevels}. \<forall>f \<in> set (v_files (vs_version vs p) lvl).
      \<not> in_file (vs_file vs) k f, c')
    \<and> ptrs_ok vs (vs_version vs p) k c' \<and> cp_level c' = cp_level c \<and> cp_input_version c' = Some p"
  using IsBaseLevel_loop_iff [of vs "vs_version vs p" k "[cp_level c + 2..<kNumLevels]" c] assms
  by (auto simp: IsBaseLevelForKey_def)

end

subsection \<open>Properties\<close>


lemma Finalize_idem: "Finalize p (Finalize p vs) = Finalize p vs"
proof -
  have "level_score (vs_options (Finalize p vs)) (vs_file (Finalize p vs)) (vs_version (Finalize p vs) p)
    = level_score (vs_options vs) (vs_file vs) (vs_version vs p)"
    by (auto simp: Finalize_def update_version_def level_score_def fun_eq_iff split: prod.split)
  then show ?thesis
    by (subst Finalize_def) (auto simp: Finalize_def update_version_def split: prod.split)
qed






text \<open>A version whose level 2 has a deletion as the last entry of one file and the older value that it deletes
  as the first entry of the next one. A file of level 1 overlaps only the first of the two.\<close>

definition split_store :: FileStore where
  "split_store = (\<lambda>_. new_FileMetaData 0)
     (0 := (new_FileMetaData 5)\<lparr>fm_file_size := 70, fm_smallest := InternalKey_make [1] 9 kTypeValue,
             fm_largest := InternalKey_make [3] 8 kTypeValue\<rparr>,
      1 := (new_FileMetaData 6)\<lparr>fm_file_size := 80, fm_smallest := InternalKey_make [2] 6 kTypeValue,
             fm_largest := InternalKey_make [4] 5 kTypeDeletion\<rparr>,
      2 := (new_FileMetaData 7)\<lparr>fm_file_size := 90, fm_smallest := InternalKey_make [4] 4 kTypeValue,
             fm_largest := InternalKey_make [6] 3 kTypeValue\<rparr>)"

definition split_set :: "unit VersionSet" where
  "split_set = Finalize 0 (example_set
     \<lparr>vs_version := (vs_version example_set)(0 := new_Version\<lparr>v_files := (\<lambda>_. [])(1 := [0], 2 := [1, 2]),
        v_file_to_compact := Some 0, v_file_to_compact_level := 1\<rparr>),
      vs_file := split_store, vs_next_file_ptr := 3\<rparr>)"

lemma split_set_simps:
  "vs_user_comparator split_set = BytewiseComparator" "vs_current split_set = Some 0" "vs_file split_set = split_store"
  "vs_next_file_ptr split_set = 3" "v_files (vs_version split_set 0) = (\<lambda>_. [])(1 := [0], 2 := [1, 2])"
  "v_file_to_compact (vs_version split_set 0) = Some 0" "v_file_to_compact_level (vs_version split_set 0) = 1"
  by (simp_all add: split_set_def Finalize_def update_version_def example_set_simps example_set_def
      new_VersionSet_def allocate_version_def AppendVersion_def Version_Ref_def new_Version_def Let_def split: prod.split)

lemma made_user_key: "ExtractUserKey (InternalKey_make k s t) = k"
  using ExtractUserKey_append [of "EncodeFixed64 (PackSequenceAndType s t)" k] by simp

lemma made_tag: "tag_of (InternalKey_make k s t) = PackSequenceAndType s t"
  by simp

lemma made_key_ok: "ikey (\<lambda>_. True) (InternalKey_make [c] s t)"
  by (simp add: ikey_def)

text \<open>The keys of these files, by their first and last: 1 to 3; 2 to the deletion of 4; an older 4 to 6.\<close>

lemma split_store_simps:
  "fm_smallest (split_store 0) = InternalKey_make [1] 9 kTypeValue" "fm_largest (split_store 0) = InternalKey_make [3] 8 kTypeValue"
  "fm_smallest (split_store (Suc 0)) = InternalKey_make [2] 6 kTypeValue" "fm_largest (split_store (Suc 0)) = InternalKey_make [4] 5 kTypeDeletion"
  "fm_smallest (split_store 2) = InternalKey_make [4] 4 kTypeValue" "fm_largest (split_store 2) = InternalKey_make [6] 3 kTypeValue"
  "fm_file_size (split_store 0) = 70" "fm_file_size (split_store (Suc 0)) = 80" "fm_file_size (split_store 2) = 90"
  by (simp_all add: split_store_def del: InternalKey_make_app)

lemma compare_made_keys:
  "InternalKey_Compare BytewiseComparator (InternalKey_make [c] s t) (InternalKey_make [d] s' t') =
     (if c < d then -1 else if d < c then 1
      else if PackSequenceAndType s' t' < PackSequenceAndType s t then -1
      else if PackSequenceAndType s t < PackSequenceAndType s' t' then 1 else 0)"
  by (simp add: InternalKey_Compare_def Let_def made_user_key made_tag Slice_compare_order del: InternalKey_make_app)

lemma made_tags:
  "PackSequenceAndType 9 kTypeValue = 2305" "PackSequenceAndType 8 kTypeValue = 2049" "PackSequenceAndType 6 kTypeValue = 1537"
  "PackSequenceAndType 5 kTypeDeletion = 1280" "PackSequenceAndType 4 kTypeValue = 1025" "PackSequenceAndType 3 kTypeValue = 769"
  by (simp_all add: PackSequenceAndType_def)

lemmas split_eval = split_store_simps compare_made_keys made_user_key InternalKey_user_key_def made_tags

lemma split_version_ok: "version_ok (\<lambda>_. True) BytewiseComparator split_set (vs_version split_set 0)"
  using made_key_ok by (auto simp: version_ok_def split_set_simps level_sorted_def BySmallestKey_def Let_def meta_ok_def split_eval
    simp del: InternalKey_make_app)

lemma split_start: "compaction_start split_set = Some (Some (1, 0)) \<and> start_ok split_set (vs_version split_set 0) 1 0"
proof -
  have f: "Finalize 0 split_set = split_set" unfolding split_set_def by (rule Finalize_idem)
  have s: "seek_ok (vs_version split_set 0)" by (simp add: seek_ok_def split_set_simps kNumLevels_def)
  have need: "NeedsCompaction split_set" by (simp add: NeedsCompaction_def current_version_def split_set_simps)
  obtain level g where lg: "compaction_start split_set = Some (Some (level, g))" "start_ok split_set (vs_version split_set 0) level g"
    using comparator.compaction_start_ok [OF bytewise.comparator_axioms split_set_simps(2) f s] need by auto
  have "\<not> over_limit (vs_file split_set) (vs_version split_set 0) l" for l
    by (auto simp: over_limit_def split_set_simps TotalFileSize_def split_store_simps kL0_CompactionTrigger_def)
  then have "level = 1" "g = 0"
    using lg(2) by (auto simp: start_ok_def split_set_simps split: if_splits)
  then show ?thesis using lg by simp
qed

lemma split_ranges:
  "AddBoundaryInputs BytewiseComparator split_store [0] [0] = Some [0]"
  "GetRange BytewiseComparator split_store [0] = Some (InternalKey_make [1] 9 kTypeValue, InternalKey_make [3] 8 kTypeValue)"
  "GetRange2 BytewiseComparator split_store [0] [Suc 0] = Some (InternalKey_make [1] 9 kTypeValue, InternalKey_make [4] 5 kTypeDeletion)"
  by (simp_all add: AddBoundaryInputs_def FindLargestKey_def AddBoundaryInputs_loop.simps FindSmallestBoundaryFile_def
      GetRange2_def GetRange_def split_eval del: InternalKey_make_app)

lemma split_overlapping:
  assumes "vs_file vs = split_store" "vs_user_comparator vs = BytewiseComparator" "v_files v = (\<lambda>_. [])(1 := [0], 2 := [1, 2])"
  shows "overlapping_inputs vs v 2 (Some (InternalKey_make [1] 9 kTypeValue)) (Some (InternalKey_make [3] 8 kTypeValue)) = Some [Suc 0]"
    "overlapping_inputs vs v (Suc 0) (Some (InternalKey_make [1] 9 kTypeValue)) (Some (InternalKey_make [4] 5 kTypeDeletion)) = Some [0]"
    "overlapping_inputs vs v 3 (Some (InternalKey_make [1] 9 kTypeValue)) (Some (InternalKey_make [4] 5 kTypeDeletion)) = Some []"
  by (simp_all add: assms overlapping_inputs_def GetOverlappingInputs_def kNumLevels_def GetOverlappingInputs_loop.simps split_eval
      del: InternalKey_make_app)

lemma split_setup:
  assumes "vs_file vs = split_store" "vs_user_comparator vs = BytewiseComparator" "v_files (current_version vs) = (\<lambda>_. [])(1 := [0], 2 := [1, 2])"
    and "cp_level c = 1" "cp_inputs0 c = [0]"
  shows "\<exists>c' vs'. SetupOtherInputs c vs = Some (c', vs') \<and> cp_inputs0 c' = [0] \<and> cp_inputs1 c' = [1] \<and> cp_level c' = 1
    \<and> cp_input_version c' = cp_input_version c \<and> cp_level_ptrs c' = cp_level_ptrs c \<and> vs_version vs' = vs_version vs
    \<and> vs_file vs' = vs_file vs \<and> vs_user_comparator vs' = vs_user_comparator vs"
proof -
  have "InternalKey_Encode (InternalKey_make [3] 8 kTypeValue) = Some (InternalKey_make [3] 8 kTypeValue)"
    by (simp add: InternalKey_Encode_def)
  then show ?thesis
    by (simp add: assms SetupOtherInputs_def grow_inputs_def split_ranges split_overlapping [OF assms(1-3)] Let_def kNumLevels_def
        numeral_2_eq_2 [symmetric] numeral_3_eq_3 [symmetric] del: InternalKey_make_app)
qed

text \<open>C40. The inputs at the next level need not be complete for their own user keys: \<open>SetupOtherInputs\<close> adds
  boundary files to the inputs of the level only. For a version that keeps the invariant of versions, the
  compaction that is picked takes from level 2 the file that ends with a deletion, leaves behind the file of
  that level that starts with the older value of the same user key, and \<open>IsBaseLevelForKey\<close>, which looks at
  level 3 and deeper only, still answers that the deletion is not needed.\<close>

theorem boundary_of_next_level_left_behind:
  "version_ok (\<lambda>_. True) BytewiseComparator split_set (vs_version split_set 0)
   \<and> (\<exists>c vs' c'. PickCompaction split_set = Some (Some c, vs')
     \<and> cp_level c = 1 \<and> cp_inputs0 c = [0] \<and> cp_inputs1 c = [1] \<and> v_files (vs_version split_set 0) 2 = [1, 2]
     \<and> fm_largest (vs_file split_set 1) = InternalKey_make [4] 5 kTypeDeletion
     \<and> fm_smallest (vs_file split_set 2) = InternalKey_make [4] 4 kTypeValue
     \<and> IsBaseLevelForKey vs' [4] c = Some (True, c'))"
proof -
  let ?vs = "Version_Ref 0 split_set" and ?c = "(new_Compaction (vs_options split_set) 1)\<lparr>cp_input_version := Some 0, cp_inputs0 := [0]\<rparr>"
  have ref: "vs_file ?vs = split_store" "vs_user_comparator ?vs = BytewiseComparator"
    "v_files (current_version ?vs) = (\<lambda>_. [])(1 := [0], 2 := [1, 2])" "v_files (vs_version ?vs 0) = (\<lambda>_. [])(1 := [0], 2 := [1, 2])"
    by (simp_all add: Version_Ref_def update_version_def split_set_simps current_version_def)
  obtain c vs' where s: "SetupOtherInputs ?c ?vs = Some (c, vs')" "cp_inputs0 c = [0]" "cp_inputs1 c = [1]" "cp_level c = 1"
    "cp_input_version c = Some 0" "cp_level_ptrs c = (\<lambda>_. 0)" "vs_version vs' = vs_version ?vs" "vs_file vs' = split_store"
    "vs_user_comparator vs' = BytewiseComparator"
    using split_setup [OF ref(1-3), of ?c] ref by (auto simp: new_Compaction_def)
  have "PickCompaction split_set = Some (Some c, vs')"
    using s(1) split_start by (simp add: PickCompaction_def split_set_simps Let_def new_Compaction_def)
  moreover have "\<exists>c'. IsBaseLevelForKey vs' [4] c = Some (True, c')"
    using s by (simp add: IsBaseLevelForKey_def kNumLevels_def upt_rec advance_level_ptr.simps ref Let_def)
  ultimately show ?thesis using s split_version_ok by (auto simp: split_set_simps split_store_simps)
qed

end
