(* ===== verification/Iterators.thy ===== *)
theory Iterators
  imports Comparators
begin

text \<open>
  The iterator interface (\<open>include/leveldb/iterator.h\<close>), the parts of it that
  \<open>table/iterator.cc\<close> implements, and the caching wrapper of \<open>table/iterator_wrapper.h\<close>.

  The abstract class is a record of its methods over the state \<open>'i\<close> of an implementation. A method
  that the interface allows only in some states returns an option: \<open>None\<close> is a failed assertion or a
  read outside of the memory the iterator was given. The locale \<open>iterator\<close> states the documented
  contract against the sorted list of entries that the iterator shows.
\<close>

subsection \<open>The interface\<close>

record 'i Iterator =
  it_Valid :: "'i \<Rightarrow> bool"
  it_SeekToFirst :: "'i \<Rightarrow> 'i option"
  it_SeekToLast :: "'i \<Rightarrow> 'i option"
  it_Seek :: "Slice \<Rightarrow> 'i \<Rightarrow> 'i option"
  it_Next :: "'i \<Rightarrow> 'i option"
  it_Prev :: "'i \<Rightarrow> 'i option"
  it_key :: "'i \<Rightarrow> Slice option"
  it_value :: "'i \<Rightarrow> Slice option"
  it_status :: "'i \<Rightarrow> Status"

type_synonym entries = "(Slice \<times> Slice) list"

text \<open>The entries are sorted by the comparator, and the position of a target is that of the first
  entry at or past it.\<close>

definition sorted_entries :: "Comparator \<Rightarrow> entries \<Rightarrow> bool" where
  "sorted_entries cmp es \<longleftrightarrow> sorted_wrt (\<lambda>a b. Compare cmp (fst a) (fst b) < 0) es"

definition position :: "Comparator \<Rightarrow> Slice \<Rightarrow> entries \<Rightarrow> nat" where
  "position cmp target es = length (takeWhile (\<lambda>e. Compare cmp (fst e) target < 0) es)"

text \<open>\<open>at i es n\<close>: the iterator \<open>i\<close> over \<open>es\<close> is at entry \<open>n\<close>, or not valid if \<open>n\<close> is their number.\<close>

locale iterator =
  fixes ops :: "'i Iterator" and key :: "Slice \<Rightarrow> bool" and cmp :: Comparator
    and at :: "'i \<Rightarrow> entries \<Rightarrow> nat \<Rightarrow> bool"
  assumes in_range: "at i es n \<Longrightarrow> n \<le> length es"
    and valid: "at i es n \<Longrightarrow> it_Valid ops i \<longleftrightarrow> n < length es"
    and cur_key: "at i es n \<Longrightarrow> n < length es \<Longrightarrow> it_key ops i = Some (fst (es ! n))"
    and cur_value: "at i es n \<Longrightarrow> n < length es \<Longrightarrow> it_value ops i = Some (snd (es ! n))"
    and status: "at i es n \<Longrightarrow> Status_ok (it_status ops i)"
    and seek_to_first: "at i es n \<Longrightarrow> \<exists>i'. it_SeekToFirst ops i = Some i' \<and> at i' es 0"
    and seek_to_last: "at i es n \<Longrightarrow> \<exists>i'. it_SeekToLast ops i = Some i' \<and> at i' es (length es - 1)"
    and seek: "at i es n \<Longrightarrow> key target \<Longrightarrow>
      \<exists>i'. it_Seek ops target i = Some i' \<and> at i' es (position cmp target es)"
    and step_next: "at i es n \<Longrightarrow> n < length es \<Longrightarrow> \<exists>i'. it_Next ops i = Some i' \<and> at i' es (n + 1)"
    and step_prev: "at i es n \<Longrightarrow> n < length es \<Longrightarrow>
      \<exists>i'. it_Prev ops i = Some i' \<and> at i' es (if n = 0 then length es else n - 1)"

text \<open>What a client does with an iterator: read the entries from where it is, at most \<open>fuel\<close> of them.\<close>

fun read_forward :: "'i Iterator \<Rightarrow> nat \<Rightarrow> 'i \<Rightarrow> (entries \<times> 'i) option" where
  "read_forward ops 0 i = Some ([], i)"
| "read_forward ops (Suc fuel) i =
     (if \<not> it_Valid ops i then Some ([], i)
      else Option.bind (it_key ops i) (\<lambda>k. Option.bind (it_value ops i) (\<lambda>v.
           Option.bind (it_Next ops i) (\<lambda>i. Option.bind (read_forward ops fuel i) (\<lambda>(es, i).
           Some ((k, v) # es, i))))))"

fun read_backward :: "'i Iterator \<Rightarrow> nat \<Rightarrow> 'i \<Rightarrow> (entries \<times> 'i) option" where
  "read_backward ops 0 i = Some ([], i)"
| "read_backward ops (Suc fuel) i =
     (if \<not> it_Valid ops i then Some ([], i)
      else Option.bind (it_key ops i) (\<lambda>k. Option.bind (it_value ops i) (\<lambda>v.
           Option.bind (it_Prev ops i) (\<lambda>i. Option.bind (read_backward ops fuel i) (\<lambda>(es, i).
           Some ((k, v) # es, i))))))"

context iterator
begin

lemma read_forward_from:
  "at i es n \<Longrightarrow> \<exists>i'. read_forward ops fuel i = Some (take fuel (drop n es), i') \<and> at i' es (min (n + fuel) (length es))"
proof (induction fuel arbitrary: i n)
  case 0
  then show ?case using in_range by fastforce
next
  case (Suc fuel)
  show ?case
  proof (cases "n < length es")
    case True
    obtain i1 where i1: "it_Next ops i = Some i1" "at i1 es (n + 1)" using step_next [OF Suc.prems True] by blast
    obtain i2 where "read_forward ops fuel i1 = Some (take fuel (drop (n + 1) es), i2)"
      "at i2 es (min (n + 1 + fuel) (length es))" using Suc.IH [OF i1(2)] by blast
    then show ?thesis
      using True i1 cur_key [OF Suc.prems True] cur_value [OF Suc.prems True] valid [OF Suc.prems]
      by (simp add: Cons_nth_drop_Suc [symmetric])
  next
    case False
    then show ?thesis using valid [OF Suc.prems] in_range [OF Suc.prems] Suc.prems by simp
  qed
qed

lemma scan:
  assumes "at i es n"
  shows "\<exists>i0 i1. it_SeekToFirst ops i = Some i0 \<and> read_forward ops (length es) i0 = Some (es, i1)
    \<and> \<not> it_Valid ops i1 \<and> Status_ok (it_status ops i1)"
proof -
  obtain i0 where i0: "it_SeekToFirst ops i = Some i0" "at i0 es 0" using seek_to_first [OF assms] by blast
  obtain i1 where "read_forward ops (length es) i0 = Some (es, i1)" "at i1 es (length es)"
    using read_forward_from [OF i0(2), of "length es"] by auto
  then show ?thesis using i0 valid status by blast
qed

lemma seek_scan:
  assumes "at i es n" "key target"
  shows "\<exists>i0 i1. it_Seek ops target i = Some i0
    \<and> read_forward ops (length es) i0 = Some (dropWhile (\<lambda>e. Compare cmp (fst e) target < 0) es, i1)"
proof -
  obtain i0 where i0: "it_Seek ops target i = Some i0" "at i0 es (position cmp target es)"
    using seek [OF assms] by blast
  have "take (length es) (drop (position cmp target es) es) = dropWhile (\<lambda>e. Compare cmp (fst e) target < 0) es"
    by (simp add: position_def dropWhile_eq_drop)
  then show ?thesis using read_forward_from [OF i0(2), of "length es"] i0
    by (auto simp: length_dropWhile_le)
qed

lemma read_backward_from:
  "at i es n \<Longrightarrow> n < length es \<Longrightarrow>
   \<exists>i'. read_backward ops (Suc n) i = Some (rev (take (Suc n) es), i') \<and> at i' es (length es)"
proof (induction n arbitrary: i)
  case 0
  then obtain i1 where "it_Prev ops i = Some i1" "at i1 es (length es)" using step_prev [OF 0] by auto
  then show ?case
    using 0 cur_key [OF 0] cur_value [OF 0] valid [OF 0(1)] by (simp add: take_Suc_conv_app_nth)
next
  case (Suc n)
  obtain i1 where i1: "it_Prev ops i = Some i1" "at i1 es n" using step_prev [OF Suc.prems] by auto
  obtain i2 where "read_backward ops (Suc n) i1 = Some (rev (take (Suc n) es), i2)" "at i2 es (length es)"
    using Suc.IH [OF i1(2)] Suc.prems by auto
  then show ?case
    using i1 Suc.prems cur_key [OF Suc.prems] cur_value [OF Suc.prems] valid [OF Suc.prems(1)]
    by (simp add: take_Suc_conv_app_nth [of "Suc n"])
qed

lemma scan_backward:
  assumes "at i es n" "es \<noteq> []"
  shows "\<exists>i0 i1. it_SeekToLast ops i = Some i0 \<and> read_backward ops (length es) i0 = Some (rev es, i1)
    \<and> \<not> it_Valid ops i1"
proof -
  obtain i0 where i0: "it_SeekToLast ops i = Some i0" "at i0 es (length es - 1)"
    using seek_to_last [OF assms(1)] by blast
  have l: "Suc (length es - 1) = length es" using assms(2) by (cases es) auto
  obtain i1 where "read_backward ops (length es) i0 = Some (rev es, i1)" "at i1 es (length es)"
    using read_backward_from [OF i0(2), unfolded l] assms(2) by auto
  then show ?thesis using i0 valid by blast
qed

end

text \<open>Any sequence of calls of a client, and the position it leads to in the list.\<close>

datatype move = To_first | To_last | To_target Slice | Forward | Backward

primrec make_move :: "'i Iterator \<Rightarrow> move \<Rightarrow> 'i \<Rightarrow> 'i option" where
  "make_move ops To_first = it_SeekToFirst ops"
| "make_move ops To_last = it_SeekToLast ops"
| "make_move ops (To_target target) = it_Seek ops target"
| "make_move ops Forward = it_Next ops"
| "make_move ops Backward = it_Prev ops"

primrec make_moves :: "'i Iterator \<Rightarrow> move list \<Rightarrow> 'i \<Rightarrow> 'i option" where
  "make_moves ops [] i = Some i"
| "make_moves ops (mv # mvs) i = Option.bind (make_move ops mv i) (make_moves ops mvs)"

primrec move_position :: "Comparator \<Rightarrow> entries \<Rightarrow> move \<Rightarrow> nat \<Rightarrow> nat option" where
  "move_position cmp es To_first n = Some 0"
| "move_position cmp es To_last n = Some (length es - 1)"
| "move_position cmp es (To_target target) n = Some (position cmp target es)"
| "move_position cmp es Forward n = (if n < length es then Some (n + 1) else None)"
| "move_position cmp es Backward n =
     (if n < length es then Some (if n = 0 then length es else n - 1) else None)"

primrec moves_position :: "Comparator \<Rightarrow> entries \<Rightarrow> move list \<Rightarrow> nat \<Rightarrow> nat option" where
  "moves_position cmp es [] n = Some n"
| "moves_position cmp es (mv # mvs) n = Option.bind (move_position cmp es mv n) (moves_position cmp es mvs)"

text \<open>What the iterator shows, and what an entry of the list shows.\<close>

definition shows_entry :: "'i Iterator \<Rightarrow> entries \<Rightarrow> nat \<Rightarrow> 'i \<Rightarrow> bool" where
  "shows_entry ops es n i \<longleftrightarrow>
     (if n < length es
      then it_Valid ops i \<and> it_key ops i = Some (fst (es ! n)) \<and> it_value ops i = Some (snd (es ! n))
      else \<not> it_Valid ops i)
     \<and> Status_ok (it_status ops i)"

definition targets_ok :: "(Slice \<Rightarrow> bool) \<Rightarrow> move list \<Rightarrow> bool" where
  "targets_ok key mvs \<longleftrightarrow> (\<forall>target. To_target target \<in> set mvs \<longrightarrow> key target)"

context iterator
begin

lemma moves:
  "at i es n \<Longrightarrow> targets_ok key mvs \<Longrightarrow> moves_position cmp es mvs n = Some m \<Longrightarrow>
   \<exists>i'. make_moves ops mvs i = Some i' \<and> at i' es m"
proof (induction mvs arbitrary: i n)
  case (Cons mv mvs)
  obtain n1 where n1: "move_position cmp es mv n = Some n1" "moves_position cmp es mvs n1 = Some m"
    using Cons.prems(3) by (auto simp: bind_eq_Some_conv)
  have "\<exists>i1. make_move ops mv i = Some i1 \<and> at i1 es n1"
    using n1(1) Cons.prems(1,2) seek_to_first [OF Cons.prems(1)] seek_to_last [OF Cons.prems(1)]
      seek [OF Cons.prems(1)] step_next [OF Cons.prems(1)] step_prev [OF Cons.prems(1)]
    by (cases mv) (auto simp: targets_ok_def split: if_splits)
  then obtain i1 where i1: "make_move ops mv i = Some i1" "at i1 es n1" by blast
  have "targets_ok key mvs" using Cons.prems(2) by (simp add: targets_ok_def)
  from Cons.IH [OF i1(2) this n1(2)] show ?case using i1(1) by simp
qed simp

lemma shown: "at i es n \<Longrightarrow> shows_entry ops es n i"
  using valid cur_key cur_value status by (simp add: shows_entry_def)

lemma moves_show:
  assumes "at i es n" "targets_ok key mvs" "moves_position cmp es mvs n = Some m"
  shows "\<exists>i'. make_moves ops mvs i = Some i' \<and> shows_entry ops es m i'"
  using moves [OF assms] shown by blast

end

subsection \<open>Cleanup functions\<close>

text \<open>The registered calls: the inlined head node, empty if its function is null, and the nodes
  linked to it.\<close>

record 'c CleanupNode =
  cleanup_head :: "'c option"
  cleanup_next :: "'c list"

definition new_Iterator :: "'c CleanupNode" where
  "new_Iterator = \<lparr>cleanup_head = None, cleanup_next = []\<rparr>"

definition RegisterCleanup :: "'c \<Rightarrow> 'c CleanupNode \<Rightarrow> 'c CleanupNode" where
  "RegisterCleanup call h =
     (case cleanup_head h of
        None \<Rightarrow> h\<lparr>cleanup_head := Some call\<rparr>
      | Some _ \<Rightarrow> h\<lparr>cleanup_next := call # cleanup_next h\<rparr>)"

text \<open>The calls the destructor runs, in order.\<close>

definition delete_Iterator :: "'c CleanupNode \<Rightarrow> 'c list" where
  "delete_Iterator h = (case cleanup_head h of None \<Rightarrow> [] | Some call \<Rightarrow> call # cleanup_next h)"

lemma cleanup_order:
  "delete_Iterator (fold RegisterCleanup cs new_Iterator) = (case cs of [] \<Rightarrow> [] | c # cs \<Rightarrow> c # rev cs)"
proof (cases cs)
  case (Cons c cs')
  have "fold RegisterCleanup xs \<lparr>cleanup_head = Some c, cleanup_next = r\<rparr>
      = \<lparr>cleanup_head = Some c, cleanup_next = rev xs @ r\<rparr>" for xs r
    by (induction xs arbitrary: r) (simp_all add: RegisterCleanup_def)
  from this [of cs' "[]"] show ?thesis
    by (simp add: Cons delete_Iterator_def new_Iterator_def RegisterCleanup_def)
qed (simp add: delete_Iterator_def new_Iterator_def)

subsection \<open>The empty iterator\<close>

type_synonym EmptyIterator = Status

definition EmptyIterator_ops :: "EmptyIterator Iterator" where
  "EmptyIterator_ops =
     \<lparr>it_Valid = (\<lambda>_. False), it_SeekToFirst = Some, it_SeekToLast = Some, it_Seek = (\<lambda>target. Some),
      it_Next = (\<lambda>_. None), it_Prev = (\<lambda>_. None), it_key = (\<lambda>_. None), it_value = (\<lambda>_. None),
      it_status = (\<lambda>s. s)\<rparr>"

definition NewEmptyIterator :: EmptyIterator where "NewEmptyIterator = Status_OK"

definition NewErrorIterator :: "Status \<Rightarrow> EmptyIterator" where "NewErrorIterator status = status"

interpretation empty: iterator EmptyIterator_ops "\<lambda>_. True" BytewiseComparator
  "\<lambda>s es n. s = NewEmptyIterator \<and> es = [] \<and> n = 0"
  by unfold_locales
    (simp_all add: EmptyIterator_ops_def NewEmptyIterator_def Status_ok_def Status_OK_def position_def)

subsection \<open>The caching wrapper\<close>

record 'i IteratorWrapper =
  iw_iter :: "'i option"
  iw_valid :: bool
  iw_key :: Slice

definition new_IteratorWrapper :: "'i IteratorWrapper" where
  "new_IteratorWrapper = \<lparr>iw_iter = None, iw_valid = False, iw_key = []\<rparr>"

definition Wrapper_Update :: "'i Iterator \<Rightarrow> 'i IteratorWrapper \<Rightarrow> 'i IteratorWrapper option" where
  "Wrapper_Update ops w =
     Option.bind (iw_iter w) (\<lambda>i.
       let w = w\<lparr>iw_valid := it_Valid ops i\<rparr>
       in if iw_valid w then Option.bind (it_key ops i) (\<lambda>k. Some (w\<lparr>iw_key := k\<rparr>)) else Some w)"

definition Wrapper_Set :: "'i Iterator \<Rightarrow> 'i option \<Rightarrow> 'i IteratorWrapper \<Rightarrow> 'i IteratorWrapper option" where
  "Wrapper_Set ops iter w =
     (let w = w\<lparr>iw_iter := iter\<rparr>
      in if iter = None then Some (w\<lparr>iw_valid := False\<rparr>) else Wrapper_Update ops w)"

definition Wrapper_Valid :: "'i IteratorWrapper \<Rightarrow> bool" where
  "Wrapper_Valid w = iw_valid w"

definition Wrapper_key :: "'i IteratorWrapper \<Rightarrow> Slice option" where
  "Wrapper_key w = (if Wrapper_Valid w then Some (iw_key w) else None)"

definition Wrapper_value :: "'i Iterator \<Rightarrow> 'i IteratorWrapper \<Rightarrow> Slice option" where
  "Wrapper_value ops w = (if Wrapper_Valid w then Option.bind (iw_iter w) (it_value ops) else None)"

definition Wrapper_status :: "'i Iterator \<Rightarrow> 'i IteratorWrapper \<Rightarrow> Status option" where
  "Wrapper_status ops w = map_option (it_status ops) (iw_iter w)"

text \<open>\<open>Next\<close>, \<open>Prev\<close>, \<open>Seek\<close>, \<open>SeekToFirst\<close> and \<open>SeekToLast\<close> are the operation of the iterator
  followed by \<open>Update\<close>.\<close>

definition Wrapper_step :: "'i Iterator \<Rightarrow> ('i \<Rightarrow> 'i option) \<Rightarrow> 'i IteratorWrapper \<Rightarrow> 'i IteratorWrapper option" where
  "Wrapper_step ops f w =
     Option.bind (iw_iter w) (\<lambda>i. Option.bind (f i) (\<lambda>i. Wrapper_Update ops (w\<lparr>iw_iter := Some i\<rparr>)))"

definition Wrapper_ops :: "'i Iterator \<Rightarrow> 'i IteratorWrapper Iterator" where
  "Wrapper_ops ops =
     \<lparr>it_Valid = Wrapper_Valid,
      it_SeekToFirst = Wrapper_step ops (it_SeekToFirst ops),
      it_SeekToLast = Wrapper_step ops (it_SeekToLast ops),
      it_Seek = (\<lambda>target. Wrapper_step ops (it_Seek ops target)),
      it_Next = Wrapper_step ops (it_Next ops),
      it_Prev = Wrapper_step ops (it_Prev ops),
      it_key = Wrapper_key,
      it_value = Wrapper_value ops,
      it_status = (\<lambda>w. case Wrapper_status ops w of Some s \<Rightarrow> s | None \<Rightarrow> Status_OK)\<rparr>"

text \<open>The cache agrees with the iterator.\<close>

definition wrapper_at :: "'i Iterator \<Rightarrow> ('i \<Rightarrow> entries \<Rightarrow> nat \<Rightarrow> bool) \<Rightarrow> 'i IteratorWrapper \<Rightarrow> entries \<Rightarrow> nat \<Rightarrow> bool" where
  "wrapper_at ops at w es n \<longleftrightarrow>
     (\<exists>i. iw_iter w = Some i \<and> at i es n \<and> iw_valid w = it_Valid ops i
        \<and> (it_Valid ops i \<longrightarrow> it_key ops i = Some (iw_key w)))"

context iterator
begin

lemma wrapper_update:
  assumes "at i es n"
  shows "\<exists>w'. Wrapper_Update ops (w\<lparr>iw_iter := Some i\<rparr>) = Some w' \<and> wrapper_at ops at w' es n"
  using cur_key [OF assms] valid [OF assms] assms
  by (cases "n < length es") (simp_all add: Wrapper_Update_def wrapper_at_def)

lemma wrapper_step:
  assumes "wrapper_at ops at w es n" "\<And>i. at i es n \<Longrightarrow> \<exists>i'. f i = Some i' \<and> at i' es m"
  shows "\<exists>w'. Wrapper_step ops f w = Some w' \<and> wrapper_at ops at w' es m"
proof -
  obtain i where i: "iw_iter w = Some i" "at i es n" using assms(1) by (auto simp: wrapper_at_def)
  obtain i' where "f i = Some i'" "at i' es m" using assms(2) [OF i(2)] by blast
  then show ?thesis using wrapper_update [of i' es m w] i by (simp add: Wrapper_step_def)
qed

text \<open>The wrapper of an iterator that meets the contract meets it.\<close>

lemma wrapper: "iterator (Wrapper_ops ops) key cmp (wrapper_at ops at)"
proof
  fix w es n assume w: "wrapper_at ops at w es n"
  then obtain i where i: "iw_iter w = Some i" "at i es n" "iw_valid w = it_Valid ops i"
    "it_Valid ops i \<longrightarrow> it_key ops i = Some (iw_key w)" by (auto simp: wrapper_at_def)
  show "n \<le> length es" using in_range i by blast
  show "it_Valid (Wrapper_ops ops) w \<longleftrightarrow> n < length es"
    using valid i by (simp add: Wrapper_ops_def Wrapper_Valid_def)
  show "n < length es \<Longrightarrow> it_key (Wrapper_ops ops) w = Some (fst (es ! n))"
    using valid [OF i(2)] cur_key [OF i(2)] i by (simp add: Wrapper_ops_def Wrapper_Valid_def Wrapper_key_def)
  show "n < length es \<Longrightarrow> it_value (Wrapper_ops ops) w = Some (snd (es ! n))"
    using valid [OF i(2)] cur_value [OF i(2)] i by (simp add: Wrapper_ops_def Wrapper_Valid_def Wrapper_value_def)
  show "Status_ok (it_status (Wrapper_ops ops) w)"
    using status [OF i(2)] i by (simp add: Wrapper_ops_def Wrapper_status_def)
  show "\<exists>w'. it_SeekToFirst (Wrapper_ops ops) w = Some w' \<and> wrapper_at ops at w' es 0"
    using wrapper_step [OF w seek_to_first] by (simp add: Wrapper_ops_def)
  show "\<exists>w'. it_SeekToLast (Wrapper_ops ops) w = Some w' \<and> wrapper_at ops at w' es (length es - 1)"
    using wrapper_step [OF w seek_to_last] by (simp add: Wrapper_ops_def)
  show "key target \<Longrightarrow> \<exists>w'. it_Seek (Wrapper_ops ops) target w = Some w'
      \<and> wrapper_at ops at w' es (position cmp target es)" for target
    using wrapper_step [OF w seek] by (simp add: Wrapper_ops_def)
  show "n < length es \<Longrightarrow> \<exists>w'. it_Next (Wrapper_ops ops) w = Some w' \<and> wrapper_at ops at w' es (n + 1)"
    using wrapper_step [OF w step_next] by (simp add: Wrapper_ops_def)
  show "n < length es \<Longrightarrow> \<exists>w'. it_Prev (Wrapper_ops ops) w = Some w'
      \<and> wrapper_at ops at w' es (if n = 0 then length es else n - 1)"
    using wrapper_step [OF w step_prev] by (simp add: Wrapper_ops_def)
qed

end

end
