(* ===== verification/Random_Numbers.thy ===== *)
theory Random_Numbers
  imports Prelude
begin

text \<open>
  \<open>util/random.h\<close>: the generator of pseudo-random numbers that the skip list draws the heights of its
  nodes from. A generator is its seed; a method returns the result and the new seed.
\<close>

definition new_Random :: "u32 \<Rightarrow> u32" where
  "new_Random s = (let seed = s AND 0x7fffffff in if seed = 0 \<or> seed = 2147483647 then 1 else seed)"

definition Random_Next :: "u32 \<Rightarrow> u32" where
  "Random_Next seed =
     (let M = 2147483647; A = 16807;
          product = ucast seed * A :: u64;
          seed = ucast (drop_bit 31 product + (product AND ucast M)) :: u32
      in if seed > M then seed - M else seed)"

definition Random_Uniform :: "u32 \<Rightarrow> u32 \<Rightarrow> u32 \<times> u32" where
  "Random_Uniform n seed = (let seed = Random_Next seed in (seed mod n, seed))"

definition Random_OneIn :: "u32 \<Rightarrow> u32 \<Rightarrow> bool \<times> u32" where
  "Random_OneIn n seed = (let seed = Random_Next seed in (seed mod n = 0, seed))"

definition Random_Skewed :: "u32 \<Rightarrow> u32 \<Rightarrow> u32 \<times> u32" where
  "Random_Skewed max_log seed =
     (case Random_Uniform (max_log + 1) seed of (base, seed) \<Rightarrow> Random_Uniform (push_bit (unat base) 1) seed)"

definition good_seed :: "u32 \<Rightarrow> bool" where
  "good_seed seed \<longleftrightarrow> 0 < unat seed \<and> unat seed < 2147483647"

lemma reduction_step:
  fixes p :: nat
  assumes "p < 2 ^ 46" and "p mod 2147483647 \<noteq> 0"
  shows "p mod 2147483647 = (let x = p div 2 ^ 31 + p mod 2 ^ 31 in if x > 2147483647 then x - 2147483647 else x)"
proof -
  define q r where "q = p div 2 ^ 31" and "r = p mod 2 ^ 31"
  have p: "p = q * 2147483648 + r" by (simp add: q_def r_def div_mult_mod_eq [of p 2147483648])
  have "q < 2 ^ 15" using assms(1) by (simp add: q_def less_mult_imp_div_less)
  moreover have "r < 2147483648" by (simp add: r_def)
  moreover have m: "p mod 2147483647 = (q + r) mod 2147483647"
  proof -
    have "p = (q + r) + q * 2147483647" using p by simp
    then show ?thesis by (simp only: mod_mult_self1)
  qed
  moreover have "q + r \<noteq> 2147483647"
  proof
    assume "q + r = 2147483647"
    then show False using m assms(2) by simp
  qed
  ultimately show ?thesis
    unfolding q_def [symmetric] r_def [symmetric] Let_def by (simp add: mod_if [of "q + r"])
qed

lemma product_not_multiple:
  assumes "0 < s" "s < 2147483647"
  shows "s * 16807 mod 2147483647 \<noteq> (0 :: nat)"
proof
  assume "s * 16807 mod 2147483647 = 0"
  then have "2147483647 dvd s * 16807 * 1407677000" by (simp only: dvd_mult2 dvd_eq_mod_eq_0 [symmetric])
  moreover have "s * 16807 * 1407677000 = s + s * 11017 * 2147483647" by simp
  ultimately have "2147483647 dvd s" by (metis dvd_add_left_iff dvd_triv_right)
  then show False using assms by (simp add: nat_dvd_not_less)
qed

lemma new_Random_good: "good_seed (new_Random s)"
proof -
  have "unat (s AND 0x7fffffff) < 2147483648"
  proof -
    have "s AND 0x7fffffff = take_bit 31 s" by (simp add: take_bit_eq_mask mask_eq_exp_minus_1)
    then have "unat (s AND 0x7fffffff) = take_bit 31 (unat s)" by (simp only: unsigned_take_bit_eq)
    then have "unat (s AND 0x7fffffff) = unat s mod 2147483648" by (simp only: take_bit_eq_mod) simp
    then show ?thesis by simp
  qed
  then show ?thesis by (auto simp: new_Random_def Let_def good_seed_def word_eq_nat_iff)
qed

lemma Random_Next_exact:
  assumes g: "good_seed seed"
  shows "unat (Random_Next seed) = unat seed * 16807 mod 2147483647" "good_seed (Random_Next seed)"
proof -
  define p where "p = unat seed * 16807"
  have s: "0 < unat seed" "unat seed < 2147483647" using g by (simp_all add: good_seed_def)
  have p: "p < 2 ^ 46" using s by (simp add: p_def)
  have up: "unat (ucast seed * 16807 :: u64) = p"
    using p by (simp add: p_def unat_word_ariths unsigned_ucast_eq take_bit_nat_eq_self)
  have a: "(ucast seed * 16807 :: u64) AND ucast (2147483647 :: u32) = take_bit 31 (ucast seed * 16807)"
    by (simp add: take_bit_eq_mask mask_eq_exp_minus_1)
  have d: "unat (drop_bit 31 (ucast seed * 16807 :: u64)) = p div 2 ^ 31" by (simp add: unat_drop_bit up)
  have t: "unat (take_bit 31 (ucast seed * 16807 :: u64)) = p mod 2 ^ 31"
    by (simp only: unsigned_take_bit_eq up) (simp only: take_bit_eq_mod)
  have "p div 2 ^ 31 < 2 ^ 15" using p by (simp add: less_mult_imp_div_less)
  moreover have "p mod 2 ^ 31 < 2 ^ 31" by simp
  ultimately have small: "p div 2 ^ 31 + p mod 2 ^ 31 < 2 ^ 32" by simp
  have sum: "unat (ucast (drop_bit 31 (ucast seed * 16807 :: u64) + (ucast seed * 16807 AND ucast (2147483647 :: u32))) :: u32)
      = p div 2 ^ 31 + p mod 2 ^ 31"
    unfolding a using small by (simp add: unsigned_ucast_eq unat_word_ariths d t take_bit_nat_eq_self)
  have "p mod 2147483647 \<noteq> 0" unfolding p_def by (rule product_not_multiple [OF s])
  note r = reduction_step [OF p this] this
  have eq: "unat (Random_Next seed) = p mod 2147483647"
    unfolding r(1) Random_Next_def Let_def using sum by (auto simp: word_less_nat_alt unat_sub word_le_nat_alt)
  then show "unat (Random_Next seed) = unat seed * 16807 mod 2147483647" by (simp add: p_def)
  show "good_seed (Random_Next seed)" using eq r(2) by (simp add: good_seed_def)
qed

text \<open>C22. \<open>Next\<close> multiplies the seed by 16807 modulo \<open>2 ^ 31 - 1\<close>, with shifts and one conditional
  subtraction instead of a division. A generator starts with a seed that is neither zero nor the
  modulus, and no seed after it is one of them.\<close>

theorem random_next_exact:
  "good_seed (new_Random s)
   \<and> (good_seed seed \<longrightarrow> unat (Random_Next seed) = unat seed * 16807 mod 2147483647 \<and> good_seed (Random_Next seed))"
  using new_Random_good Random_Next_exact by blast

theorem random_next_exact_witness: "unat (Random_Next 1) = 16807"
  using random_next_exact [of 0 1] by (simp add: good_seed_def)

end
