(* ===== verification/Db_Iter.thy ===== *)
theory Db_Iter
  imports Dbformat Iterators Random_Numbers
begin

text \<open>
  \<open>db/db_iter.cc\<close>: the iterator that a user of the database sees. It turns an iterator over the internal
  entries, several per user key, into one over the user keys that a sequence number can see. The
  internal iterator and the database that it reports its reads to (\<open>DBImpl::RecordReadSample\<close>) are
  parameters. Every call passes \<open>&saved_key_\<close> as \<open>skip\<close>, which is therefore that member. The capacity
  of \<open>saved_value_\<close>, which only decides when memory is given back, is left out.
\<close>

datatype IterDirection = iter_kForward | iter_kReverse

record ('i, 'd) DBIter =
  di_db :: 'd
  di_user_comparator :: Comparator
  di_iter :: 'i
  di_sequence :: SequenceNumber
  di_status :: Status
  di_saved_key :: bytes
  di_saved_value :: bytes
  di_direction :: IterDirection
  di_valid :: bool
  di_rnd :: u32
  di_bytes_until_read_sampling :: nat

definition RandomCompactionPeriod :: "u32 \<Rightarrow> nat \<times> u32" where
  "RandomCompactionPeriod rnd =
     (case Random_Uniform (2 * word_of_nat kReadBytesPeriod) rnd of (n, rnd) \<Rightarrow> (unat n, rnd))"

definition new_DBIter :: "'d \<Rightarrow> Comparator \<Rightarrow> 'i \<Rightarrow> SequenceNumber \<Rightarrow> u32 \<Rightarrow> ('i, 'd) DBIter" where
  "new_DBIter db cmp iter s seed =
     (case RandomCompactionPeriod (new_Random seed) of
        (period, rnd) \<Rightarrow>
          \<lparr>di_db = db, di_user_comparator = cmp, di_iter = iter, di_sequence = s, di_status = Status_OK,
           di_saved_key = [], di_saved_value = [], di_direction = iter_kForward, di_valid = False,
           di_rnd = rnd, di_bytes_until_read_sampling = period\<rparr>)"

definition DBIter_Valid :: "('i, 'd) DBIter \<Rightarrow> bool" where
  "DBIter_Valid d = di_valid d"

definition DBIter_key :: "'i Iterator \<Rightarrow> ('i, 'd) DBIter \<Rightarrow> Slice option" where
  "DBIter_key ops d =
     (if di_valid d
      then (if di_direction d = iter_kForward then map_option ExtractUserKey (it_key ops (di_iter d)) else Some (di_saved_key d))
      else None)"

definition DBIter_value :: "'i Iterator \<Rightarrow> ('i, 'd) DBIter \<Rightarrow> Slice option" where
  "DBIter_value ops d =
     (if di_valid d
      then (if di_direction d = iter_kForward then it_value ops (di_iter d) else Some (di_saved_value d))
      else None)"

definition DBIter_status :: "'i Iterator \<Rightarrow> ('i, 'd) DBIter \<Rightarrow> Status" where
  "DBIter_status ops d = (if Status_ok (di_status d) then it_status ops (di_iter d) else di_status d)"

text \<open>A step of the internal iterator.\<close>

definition on_iter :: "('i \<Rightarrow> 'i option) \<Rightarrow> ('i, 'd) DBIter \<Rightarrow> ('i, 'd) DBIter option" where
  "on_iter f d = map_option (\<lambda>i. d\<lparr>di_iter := i\<rparr>) (f (di_iter d))"

definition ClearSavedValue :: "('i, 'd) DBIter \<Rightarrow> ('i, 'd) DBIter" where
  "ClearSavedValue d = d\<lparr>di_saved_value := []\<rparr>"

definition not_valid :: "('i, 'd) DBIter \<Rightarrow> ('i, 'd) DBIter" where
  "not_valid d = d\<lparr>di_valid := False\<rparr>"

subsection \<open>Parsing an entry\<close>

text \<open>Sampling: a period may be zero, and the loop draws until the periods add up.\<close>

partial_function (option) sample_reads ::
    "(Slice \<Rightarrow> 'd \<Rightarrow> 'd) \<Rightarrow> Slice \<Rightarrow> nat \<Rightarrow> 'd \<Rightarrow> nat \<Rightarrow> u32 \<Rightarrow> ('d \<times> nat \<times> u32) option" where
  "sample_reads record_sample k bytes_read db bytes_until rnd =
     (if bytes_until < bytes_read
      then (case RandomCompactionPeriod rnd of
              (period, rnd) \<Rightarrow> sample_reads record_sample k bytes_read (record_sample k db) (bytes_until + period) rnd)
      else Some (db, bytes_until, rnd))"

definition ParseKey :: "'i Iterator \<Rightarrow> (Slice \<Rightarrow> 'd \<Rightarrow> 'd) \<Rightarrow> ('i, 'd) DBIter \<Rightarrow>
    (ParsedInternalKey option \<times> ('i, 'd) DBIter) option" where
  "ParseKey ops record_sample d =
     Option.bind (it_key ops (di_iter d)) (\<lambda>k.
     Option.bind (it_value ops (di_iter d)) (\<lambda>v.
       let bytes_read = length k + length v
       in Option.bind (sample_reads record_sample k bytes_read (di_db d) (di_bytes_until_read_sampling d) (di_rnd d))
            (\<lambda>(db, bytes_until, rnd).
              let d = d\<lparr>di_db := db, di_rnd := rnd, di_bytes_until_read_sampling := bytes_until - bytes_read\<rparr>
              in case ParseInternalKey k of
                   None \<Rightarrow> Some (None, d\<lparr>di_status := Status_Corruption (lit ''corrupted internal key in DBIter'') []\<rparr>)
                 | Some pk \<Rightarrow> Some (Some pk, d))))"

subsection \<open>Forward\<close>

text \<open>One entry: whether it is the one to stop at, and whether hidden entries are to be skipped from now on.\<close>

definition next_entry :: "bool \<Rightarrow> ParsedInternalKey option \<Rightarrow> ('i, 'd) DBIter \<Rightarrow> bool \<times> bool \<times> ('i, 'd) DBIter" where
  "next_entry skipping parsed d =
     (case parsed of
        None \<Rightarrow> (False, skipping, d)
      | Some pk \<Rightarrow>
          if pik_sequence pk \<le> di_sequence d then
            (case pik_type pk of
               kTypeDeletion \<Rightarrow> (False, True, d\<lparr>di_saved_key := pik_user_key pk\<rparr>)
             | kTypeValue \<Rightarrow>
                 if skipping \<and> Compare (di_user_comparator d) (pik_user_key pk) (di_saved_key d) \<le> 0
                 then (False, skipping, d)
                 else (True, skipping, d\<lparr>di_valid := True, di_saved_key := []\<rparr>))
          else (False, skipping, d))"

partial_function (option) FindNext_loop ::
    "'i Iterator \<Rightarrow> (Slice \<Rightarrow> 'd \<Rightarrow> 'd) \<Rightarrow> bool \<Rightarrow> ('i, 'd) DBIter \<Rightarrow> ('i, 'd) DBIter option" where
  "FindNext_loop ops record_sample skipping d =
     Option.bind (ParseKey ops record_sample d) (\<lambda>(parsed, d).
       case next_entry skipping parsed d of
         (stop, skipping, d) \<Rightarrow>
           if stop then Some d
           else
             Option.bind (on_iter (it_Next ops) d) (\<lambda>d.
               if it_Valid ops (di_iter d) then FindNext_loop ops record_sample skipping d
               else Some (d\<lparr>di_saved_key := [], di_valid := False\<rparr>)))"

definition FindNextUserEntry :: "'i Iterator \<Rightarrow> (Slice \<Rightarrow> 'd \<Rightarrow> 'd) \<Rightarrow> bool \<Rightarrow> ('i, 'd) DBIter \<Rightarrow> ('i, 'd) DBIter option" where
  "FindNextUserEntry ops record_sample skipping d =
     (if it_Valid ops (di_iter d) \<and> di_direction d = iter_kForward
      then FindNext_loop ops record_sample skipping d else None)"

definition DBIter_Next :: "'i Iterator \<Rightarrow> (Slice \<Rightarrow> 'd \<Rightarrow> 'd) \<Rightarrow> ('i, 'd) DBIter \<Rightarrow> ('i, 'd) DBIter option" where
  "DBIter_Next ops record_sample d =
     (if \<not> di_valid d then None
      else if di_direction d = iter_kReverse then
        (let d = d\<lparr>di_direction := iter_kForward\<rparr>
         in Option.bind
              (if \<not> it_Valid ops (di_iter d) then on_iter (it_SeekToFirst ops) d else on_iter (it_Next ops) d)
              (\<lambda>d. if \<not> it_Valid ops (di_iter d) then Some (d\<lparr>di_valid := False, di_saved_key := []\<rparr>)
                   else FindNextUserEntry ops record_sample True d))
      else
        Option.bind (it_key ops (di_iter d)) (\<lambda>k.
          FindNextUserEntry ops record_sample True (d\<lparr>di_saved_key := ExtractUserKey k\<rparr>)))"

subsection \<open>Backward\<close>

text \<open>One entry: whether to stop before it, and the type of the last entry that counts.\<close>

definition prev_entry :: "'i Iterator \<Rightarrow> ValueType \<Rightarrow> ParsedInternalKey option \<Rightarrow> ('i, 'd) DBIter \<Rightarrow>
    (bool \<times> ValueType \<times> ('i, 'd) DBIter) option" where
  "prev_entry ops value_type parsed d =
     (case parsed of
        None \<Rightarrow> Some (False, value_type, d)
      | Some pk \<Rightarrow>
          if pik_sequence pk \<le> di_sequence d then
            (if value_type \<noteq> kTypeDeletion \<and> Compare (di_user_comparator d) (pik_user_key pk) (di_saved_key d) < 0
             then Some (True, value_type, d)
             else if pik_type pk = kTypeDeletion
             then Some (False, pik_type pk, ClearSavedValue (d\<lparr>di_saved_key := []\<rparr>))
             else
               Option.bind (it_value ops (di_iter d)) (\<lambda>raw_value.
               Option.bind (it_key ops (di_iter d)) (\<lambda>k.
                 Some (False, pik_type pk, d\<lparr>di_saved_key := ExtractUserKey k, di_saved_value := raw_value\<rparr>))))
          else Some (False, value_type, d))"

partial_function (option) FindPrev_loop ::
    "'i Iterator \<Rightarrow> (Slice \<Rightarrow> 'd \<Rightarrow> 'd) \<Rightarrow> ValueType \<Rightarrow> ('i, 'd) DBIter \<Rightarrow> (ValueType \<times> ('i, 'd) DBIter) option" where
  "FindPrev_loop ops record_sample value_type d =
     Option.bind (ParseKey ops record_sample d) (\<lambda>(parsed, d).
     Option.bind (prev_entry ops value_type parsed d) (\<lambda>(stop, value_type, d).
       if stop then Some (value_type, d)
       else
         Option.bind (on_iter (it_Prev ops) d) (\<lambda>d.
           if it_Valid ops (di_iter d) then FindPrev_loop ops record_sample value_type d
           else Some (value_type, d))))"

definition FindPrevUserEntry :: "'i Iterator \<Rightarrow> (Slice \<Rightarrow> 'd \<Rightarrow> 'd) \<Rightarrow> ('i, 'd) DBIter \<Rightarrow> ('i, 'd) DBIter option" where
  "FindPrevUserEntry ops record_sample d =
     (if di_direction d \<noteq> iter_kReverse then None
      else
        Option.bind
          (if it_Valid ops (di_iter d) then FindPrev_loop ops record_sample kTypeDeletion d else Some (kTypeDeletion, d))
          (\<lambda>(value_type, d).
            if value_type = kTypeDeletion
            then Some ((ClearSavedValue (d\<lparr>di_valid := False, di_saved_key := []\<rparr>))\<lparr>di_direction := iter_kForward\<rparr>)
            else Some (d\<lparr>di_valid := True\<rparr>)))"

text \<open>The scan back to the entries of a smaller user key, and whether there are any.\<close>

partial_function (option) leave_key :: "'i Iterator \<Rightarrow> ('i, 'd) DBIter \<Rightarrow> (bool \<times> ('i, 'd) DBIter) option" where
  "leave_key ops d =
     Option.bind (on_iter (it_Prev ops) d) (\<lambda>d.
       if \<not> it_Valid ops (di_iter d)
       then Some (False, ClearSavedValue (d\<lparr>di_valid := False, di_saved_key := []\<rparr>))
       else
         Option.bind (it_key ops (di_iter d)) (\<lambda>k.
           if Compare (di_user_comparator d) (ExtractUserKey k) (di_saved_key d) < 0
           then Some (True, d) else leave_key ops d))"

definition DBIter_Prev :: "'i Iterator \<Rightarrow> (Slice \<Rightarrow> 'd \<Rightarrow> 'd) \<Rightarrow> ('i, 'd) DBIter \<Rightarrow> ('i, 'd) DBIter option" where
  "DBIter_Prev ops record_sample d =
     (if \<not> di_valid d then None
      else if di_direction d = iter_kForward then
        (if \<not> it_Valid ops (di_iter d) then None
         else
           Option.bind (it_key ops (di_iter d)) (\<lambda>k.
           Option.bind (leave_key ops (d\<lparr>di_saved_key := ExtractUserKey k\<rparr>)) (\<lambda>(more, d).
             if more then FindPrevUserEntry ops record_sample (d\<lparr>di_direction := iter_kReverse\<rparr>) else Some d)))
      else FindPrevUserEntry ops record_sample d)"

subsection \<open>Seeks\<close>

definition DBIter_Seek :: "'i Iterator \<Rightarrow> (Slice \<Rightarrow> 'd \<Rightarrow> 'd) \<Rightarrow> Slice \<Rightarrow> ('i, 'd) DBIter \<Rightarrow> ('i, 'd) DBIter option" where
  "DBIter_Seek ops record_sample target d =
     (let d = ClearSavedValue (d\<lparr>di_direction := iter_kForward\<rparr>);
          d = d\<lparr>di_saved_key := AppendInternalKey []
                 \<lparr>pik_user_key = target, pik_sequence = di_sequence d, pik_type = kValueTypeForSeek\<rparr>\<rparr>
      in Option.bind (on_iter (it_Seek ops (di_saved_key d)) d) (\<lambda>d.
           if it_Valid ops (di_iter d) then FindNextUserEntry ops record_sample False d else Some (not_valid d)))"

definition DBIter_SeekToFirst :: "'i Iterator \<Rightarrow> (Slice \<Rightarrow> 'd \<Rightarrow> 'd) \<Rightarrow> ('i, 'd) DBIter \<Rightarrow> ('i, 'd) DBIter option" where
  "DBIter_SeekToFirst ops record_sample d =
     Option.bind (on_iter (it_SeekToFirst ops) (ClearSavedValue (d\<lparr>di_direction := iter_kForward\<rparr>))) (\<lambda>d.
       if it_Valid ops (di_iter d) then FindNextUserEntry ops record_sample False d else Some (not_valid d))"

definition DBIter_SeekToLast :: "'i Iterator \<Rightarrow> (Slice \<Rightarrow> 'd \<Rightarrow> 'd) \<Rightarrow> ('i, 'd) DBIter \<Rightarrow> ('i, 'd) DBIter option" where
  "DBIter_SeekToLast ops record_sample d =
     Option.bind (on_iter (it_SeekToLast ops) (ClearSavedValue (d\<lparr>di_direction := iter_kReverse\<rparr>)))
       (FindPrevUserEntry ops record_sample)"

definition DBIter_ops :: "'i Iterator \<Rightarrow> (Slice \<Rightarrow> 'd \<Rightarrow> 'd) \<Rightarrow> ('i, 'd) DBIter Iterator" where
  "DBIter_ops ops record_sample =
     \<lparr>it_Valid = DBIter_Valid, it_SeekToFirst = DBIter_SeekToFirst ops record_sample,
      it_SeekToLast = DBIter_SeekToLast ops record_sample, it_Seek = DBIter_Seek ops record_sample,
      it_Next = DBIter_Next ops record_sample, it_Prev = DBIter_Prev ops record_sample,
      it_key = DBIter_key ops, it_value = DBIter_value ops, it_status = DBIter_status ops\<rparr>"

end
