(* ===== verification/Arena.thy ===== *)
theory Arena
  imports Prelude
begin

text \<open>
  The arena of \<open>util/arena.h\<close> and \<open>util/arena.cc\<close>, which the memtable takes its memory from. Addresses
  are 64-bit numbers; \<open>ar_new k\<close> is what the \<open>k\<close>-th call of \<open>new\<close> returns. An option is \<open>None\<close> where an
  assertion fails.
\<close>

record Arena =
  ar_alloc_ptr :: u64
  ar_alloc_bytes_remaining :: u64
  ar_blocks :: "u64 list"
  ar_memory_usage :: u64
  ar_new :: "nat \<Rightarrow> u64"

definition kArenaBlockSize :: u64 where "kArenaBlockSize = 4096"

definition new_Arena :: "(nat \<Rightarrow> u64) \<Rightarrow> Arena" where
  "new_Arena new = \<lparr>ar_alloc_ptr = 0, ar_alloc_bytes_remaining = 0, ar_blocks = [], ar_memory_usage = 0, ar_new = new\<rparr>"

definition MemoryUsage :: "Arena \<Rightarrow> u64" where "MemoryUsage a = ar_memory_usage a"

definition AllocateNewBlock :: "u64 \<Rightarrow> Arena \<Rightarrow> u64 \<times> Arena" where
  "AllocateNewBlock block_bytes a =
     (let result = ar_new a (length (ar_blocks a))
      in (result, a\<lparr>ar_blocks := ar_blocks a @ [result], ar_memory_usage := ar_memory_usage a + (block_bytes + 8)\<rparr>))"

definition AllocateFallback :: "u64 \<Rightarrow> Arena \<Rightarrow> u64 \<times> Arena" where
  "AllocateFallback bytes a =
     (if bytes > kArenaBlockSize div 4 then AllocateNewBlock bytes a
      else
        (case AllocateNewBlock kArenaBlockSize a of
           (ptr, a) \<Rightarrow>
             let a = a\<lparr>ar_alloc_ptr := ptr, ar_alloc_bytes_remaining := kArenaBlockSize\<rparr>;
                 result = ar_alloc_ptr a
             in (result, a\<lparr>ar_alloc_ptr := ar_alloc_ptr a + bytes,
                          ar_alloc_bytes_remaining := ar_alloc_bytes_remaining a - bytes\<rparr>)))"

definition Allocate :: "u64 \<Rightarrow> Arena \<Rightarrow> (u64 \<times> Arena) option" where
  "Allocate bytes a =
     (if \<not> bytes > 0 then None
      else if bytes \<le> ar_alloc_bytes_remaining a then
        Some (ar_alloc_ptr a, a\<lparr>ar_alloc_ptr := ar_alloc_ptr a + bytes,
                               ar_alloc_bytes_remaining := ar_alloc_bytes_remaining a - bytes\<rparr>)
      else Some (AllocateFallback bytes a))"

definition AllocateAligned :: "u64 \<Rightarrow> Arena \<Rightarrow> (u64 \<times> Arena) option" where
  "AllocateAligned bytes a =
     (let align = 8;
          current_mod = ar_alloc_ptr a AND (align - 1);
          slop = (if current_mod = 0 then 0 else align - current_mod);
          needed = bytes + slop;
          (result, a) =
            (if needed \<le> ar_alloc_bytes_remaining a
             then (ar_alloc_ptr a + slop, a\<lparr>ar_alloc_ptr := ar_alloc_ptr a + needed,
                     ar_alloc_bytes_remaining := ar_alloc_bytes_remaining a - needed\<rparr>)
             else AllocateFallback bytes a)
      in if result AND (align - 1) = 0 then Some (result, a) else None)"

subsection \<open>The memory handed out\<close>

text \<open>A sequence of requests, each for an aligned block or not, and the regions they return.\<close>

type_synonym request = "bool \<times> u64"
type_synonym region = "u64 \<times> u64"

definition allocate :: "request \<Rightarrow> Arena \<Rightarrow> (u64 \<times> Arena) option" where
  "allocate r a = (if fst r then AllocateAligned (snd r) a else Allocate (snd r) a)"

fun allocate_all :: "request list \<Rightarrow> Arena \<Rightarrow> (region list \<times> Arena) option" where
  "allocate_all [] a = Some ([], a)"
| "allocate_all (r # rs) a =
     Option.bind (allocate r a) (\<lambda>(p, a). Option.bind (allocate_all rs a) (\<lambda>(ps, a). Some ((p, snd r) # ps, a)))"

definition aligned_slop :: "u64 \<Rightarrow> u64" where
  "aligned_slop p = (if p AND 7 = 0 then 0 else 8 - (p AND 7))"

text \<open>The sizes passed to \<open>new\<close>: by one request, if it does not fit, and by all of them.\<close>

definition needs_new :: "request \<Rightarrow> Arena \<Rightarrow> bool" where
  "needs_new r a \<longleftrightarrow>
     \<not> snd r + (if fst r then aligned_slop (ar_alloc_ptr a) else 0) \<le> ar_alloc_bytes_remaining a"

definition new_size :: "request \<Rightarrow> Arena \<Rightarrow> u64 list" where
  "new_size r a = (if needs_new r a then [if snd r > kArenaBlockSize div 4 then snd r else kArenaBlockSize] else [])"

fun new_sizes :: "request list \<Rightarrow> Arena \<Rightarrow> u64 list" where
  "new_sizes [] a = []"
| "new_sizes (r # rs) a =
     new_size r a @ (case allocate r a of None \<Rightarrow> [] | Some (p, a') \<Rightarrow> new_sizes rs a')"

definition region_set :: "region \<Rightarrow> nat set" where
  "region_set r = {unat (fst r) ..< unat (fst r) + unat (snd r)}"

text \<open>What \<open>new\<close> documents: the regions it returns are aligned, lie in the address space and do not
  overlap.\<close>

definition new_ok :: "(nat \<Rightarrow> u64) \<Rightarrow> u64 list \<Rightarrow> bool" where
  "new_ok new sizes \<longleftrightarrow>
     (\<forall>i < length sizes. 8 dvd unat (new i) \<and> unat (new i) + unat (sizes ! i) < 2 ^ 64
        \<and> (\<forall>j < i. region_set (new i, sizes ! i) \<inter> region_set (new j, sizes ! j) = {}))"


subsection \<open>The invariant\<close>

definition in_block :: "(nat \<Rightarrow> u64) \<Rightarrow> u64 list \<Rightarrow> region \<Rightarrow> bool" where
  "in_block new sizes r \<longleftrightarrow> (\<exists>k < length sizes. region_set r \<subseteq> region_set (new k, sizes ! k))"

definition free_region :: "Arena \<Rightarrow> region" where
  "free_region a = (ar_alloc_ptr a, ar_alloc_bytes_remaining a)"

text \<open>The blocks have the given sizes; the regions handed out lie in them and overlap neither each
  other nor the free part of the current block.\<close>

definition arena_inv :: "Arena \<Rightarrow> u64 list \<Rightarrow> region list \<Rightarrow> bool" where
  "arena_inv a sizes ps \<longleftrightarrow>
     ar_blocks a = map (ar_new a) [0..<length sizes]
     \<and> unat (ar_alloc_ptr a) + unat (ar_alloc_bytes_remaining a) < 2 ^ 64
     \<and> (ar_alloc_bytes_remaining a = 0 \<or> in_block (ar_new a) sizes (free_region a))
     \<and> (\<forall>r \<in> set ps. in_block (ar_new a) sizes r \<and> region_set r \<inter> region_set (free_region a) = {})
     \<and> sorted_wrt (\<lambda>r r'. region_set r \<inter> region_set r' = {}) ps"

lemma in_block_append: "in_block new sizes r \<Longrightarrow> in_block new (sizes @ sizes') r"
  unfolding in_block_def by (metis length_append nth_append trans_less_add1)

lemma new_block_disjoint:
  assumes "new_ok new (sizes @ [n])" "in_block new sizes r"
  shows "region_set r \<inter> region_set (new (length sizes), n) = {}"
proof -
  obtain k where k: "k < length sizes" "region_set r \<subseteq> region_set (new k, sizes ! k)"
    using assms(2) by (auto simp: in_block_def)
  have "region_set (new (length sizes), n) \<inter> region_set (new k, sizes ! k) = {}"
    using assms(1) k(1) unfolding new_ok_def
    by (metis length_append_singleton lessI nth_append nth_append_length)
  then show ?thesis using k(2) by blast
qed

lemma new_block_bound:
  "new_ok new (sizes @ [n]) \<Longrightarrow> unat (new (length sizes)) + unat n < 2 ^ 64 \<and> 8 dvd unat (new (length sizes))"
  unfolding new_ok_def by (metis length_append_singleton lessI nth_append_length)

lemma in_new_block: "region_set r \<subseteq> region_set (new (length sizes), n) \<Longrightarrow> in_block new (sizes @ [n]) r"
  unfolding in_block_def by (metis length_append_singleton lessI nth_append_length)

text \<open>Taking a region from the free part.\<close>

lemma take_free:
  assumes inv: "arena_inv a sizes ps"
    and n: "unat skip + unat n \<le> unat (ar_alloc_bytes_remaining a)" "0 < n"
  defines "r \<equiv> (ar_alloc_ptr a + skip, n)"
  shows "arena_inv (a\<lparr>ar_alloc_ptr := ar_alloc_ptr a + (n + skip),
      ar_alloc_bytes_remaining := ar_alloc_bytes_remaining a - (n + skip)\<rparr>) sizes (ps @ [r])"
proof -
  let ?p = "ar_alloc_ptr a" and ?m = "ar_alloc_bytes_remaining a"
  have b: "unat ?p + unat ?m < 2 ^ 64" using inv by (simp add: arena_inv_def)
  have ns: "unat (n + skip) = unat n + unat skip" using n b by (simp add: unat_word_ariths)
  have p1: "unat (?p + skip) = unat ?p + unat skip" using n b by (simp add: unat_word_ariths)
  have p2: "unat (?p + (n + skip)) = unat ?p + unat n + unat skip" using n b ns by (simp add: unat_word_ariths)
  have m: "unat (?m - (n + skip)) = unat ?m - unat n - unat skip"
    using n(1) ns by (subst unat_sub) (simp_all add: word_le_nat_alt)
  have rf: "region_set r \<subseteq> region_set (free_region a)"
    using n by (auto simp: region_set_def free_region_def r_def p1)
  have ff: "region_set (?p + (n + skip), ?m - (n + skip)) \<subseteq> region_set (free_region a)"
    "region_set r \<inter> region_set (?p + (n + skip), ?m - (n + skip)) = {}"
    using n by (auto simp: region_set_def free_region_def r_def p1 p2 m)
  have "0 < unat n" using n(2) by (simp add: word_less_nat_alt)
  then have "?m \<noteq> 0" using n(1) by auto
  then have fb: "in_block (ar_new a) sizes (free_region a)" using inv by (simp add: arena_inv_def)
  have bound: "unat (?p + (n + skip)) + unat (?m - (n + skip)) < 2 ^ 64" using p2 m n b by simp
  have sub: "in_block (ar_new a) sizes x" if "region_set x \<subseteq> region_set (free_region a)" for x
    using fb that unfolding in_block_def by blast
  have old: "region_set x \<inter> region_set r = {}" "region_set x \<inter> region_set (?p + (n + skip), ?m - (n + skip)) = {}"
    if "x \<in> set ps" for x using that inv rf ff(1) unfolding arena_inv_def by blast+
  show ?thesis
    using inv old ff(2) sub [OF rf] sub [OF ff(1)] bound unfolding arena_inv_def
    by (auto simp: free_region_def sorted_wrt_append)
qed

text \<open>Taking a region from the start of a new block, which becomes the current one or not.\<close>

lemma AllocateFallback_inv:
  assumes inv: "arena_inv a sizes ps" and n: "0 < n"
    and new: "new_ok (ar_new a) (sizes @ [if n > kArenaBlockSize div 4 then n else kArenaBlockSize])"
  shows "\<exists>a'. AllocateFallback n a = (ar_new a (length sizes), a') \<and> ar_new a' = ar_new a
    \<and> arena_inv a' (sizes @ [if n > kArenaBlockSize div 4 then n else kArenaBlockSize]) (ps @ [(ar_new a (length sizes), n)])"
proof -
  let ?new = "ar_new a (length sizes)"
  have len: "length (ar_blocks a) = length sizes" using inv by (simp add: arena_inv_def)
  have blocks: "ar_blocks a @ [?new] = map (ar_new a) [0..<length (sizes @ [x])]" for x :: u64
    using inv by (simp add: arena_inv_def)
  show ?thesis
  proof (cases "n > kArenaBlockSize div 4")
    case True
    have dj: "in_block (ar_new a) sizes r \<Longrightarrow> region_set r \<inter> region_set (?new, n) = {}" for r
      using new_block_disjoint [of "ar_new a" sizes n r] new True by simp
    have here: "in_block (ar_new a) (sizes @ [n]) (?new, n)" by (rule in_new_block) simp
    have free: "region_set (free_region a) \<inter> region_set (?new, n) = {}"
      using inv dj [of "free_region a"] by (auto simp: arena_inv_def free_region_def region_set_def)
    have "arena_inv (a\<lparr>ar_blocks := ar_blocks a @ [?new], ar_memory_usage := ar_memory_usage a + (n + 8)\<rparr>)
        (sizes @ [n]) (ps @ [(?new, n)])"
      using inv dj here free in_block_append [of "ar_new a" sizes _ "[n]"] blocks [of n]
      unfolding arena_inv_def by (auto simp: free_region_def sorted_wrt_append)
    then show ?thesis using True by (simp add: AllocateFallback_def AllocateNewBlock_def len Let_def)
  next
    case False
    let ?f = "(?new + n, kArenaBlockSize - n)"
    have nb: "unat n \<le> 1024" using False by (simp add: kArenaBlockSize_def word_less_nat_alt)
    have b: "unat ?new + 4096 < 2 ^ 64" using new_block_bound [of "ar_new a" sizes kArenaBlockSize] new False by (simp add: kArenaBlockSize_def)
    have u: "unat (?new + n) = unat ?new + unat n" using b nb by (simp add: unat_word_ariths)
    have v: "unat (kArenaBlockSize - n) = 4096 - unat n"
      using nb by (subst unat_sub) (simp_all add: word_le_nat_alt kArenaBlockSize_def)
    have dj: "in_block (ar_new a) sizes r \<Longrightarrow> region_set r \<inter> region_set (?new, kArenaBlockSize) = {}" for r
      using new_block_disjoint [of "ar_new a" sizes kArenaBlockSize r] new False by simp
    have sub: "region_set (?new, n) \<subseteq> region_set (?new, kArenaBlockSize)" "region_set ?f \<subseteq> region_set (?new, kArenaBlockSize)"
      "region_set (?new, n) \<inter> region_set ?f = {}"
      using nb v by (auto simp: region_set_def u kArenaBlockSize_def)
    have here: "in_block (ar_new a) (sizes @ [kArenaBlockSize]) (?new, n)" "in_block (ar_new a) (sizes @ [kArenaBlockSize]) ?f"
      by (rule in_new_block, rule sub)+
    have old: "region_set r \<inter> region_set (?new, n) = {}" "region_set r \<inter> region_set ?f = {}"
      if "in_block (ar_new a) sizes r" for r using dj [OF that] sub by blast+
    have bound: "unat (?new + n) + unat (kArenaBlockSize - n) < 2 ^ 64" unfolding u v using b nb by simp
    have "arena_inv (a\<lparr>ar_blocks := ar_blocks a @ [?new], ar_memory_usage := ar_memory_usage a + (kArenaBlockSize + 8),
        ar_alloc_ptr := ?new + n, ar_alloc_bytes_remaining := kArenaBlockSize - n\<rparr>)
        (sizes @ [kArenaBlockSize]) (ps @ [(?new, n)])"
      using inv old here bound sub(3) in_block_append [of "ar_new a" sizes _ "[kArenaBlockSize]"] blocks [of kArenaBlockSize]
      unfolding arena_inv_def by (auto simp: free_region_def sorted_wrt_append)
    then show ?thesis using False by (simp add: AllocateFallback_def AllocateNewBlock_def len Let_def)
  qed
qed

lemma and_7: "unat (w AND 7) = unat w mod 8" for w :: u64
proof -
  have "w AND 7 = take_bit 3 w" by (simp add: take_bit_eq_mask mask_eq_exp_minus_1)
  then show ?thesis by (simp only: unsigned_take_bit_eq) (simp add: take_bit_eq_mod)
qed

lemma and_7_zero: "w AND 7 = 0 \<longleftrightarrow> 8 dvd unat w" for w :: u64
  using and_7 [of w] by (auto simp: word_eq_nat_iff dvd_eq_mod_eq_0)

lemma aligned_slop:
  "unat (aligned_slop p) < 8" "unat p + unat (aligned_slop p) < 2 ^ 64 \<Longrightarrow> 8 dvd unat (p + aligned_slop p)"
proof -
  have m: "unat (p AND 7) = unat p mod 8" by (rule and_7)
  have s: "unat (aligned_slop p) = (if unat p mod 8 = 0 then 0 else 8 - unat p mod 8)"
  proof (cases "p AND 7 = 0")
    case True
    then show ?thesis using m by (simp add: aligned_slop_def)
  next
    case False
    then have "unat (p AND 7) \<noteq> 0" by (simp add: word_eq_nat_iff)
    moreover have "unat (8 - (p AND 7)) = 8 - unat (p AND 7)"
      using m by (subst unat_sub) (simp_all add: word_le_nat_alt)
    ultimately show ?thesis using m False by (simp add: aligned_slop_def)
  qed
  then show "unat (aligned_slop p) < 8" by simp
  assume "unat p + unat (aligned_slop p) < 2 ^ 64"
  then have "unat (p + aligned_slop p) = unat p + unat (aligned_slop p)" by (simp add: unat_word_ariths)
  moreover have "x + (8 - m) = 8 * (q + 1)" if "x = q * 8 + m" "m < 8" for x q m :: nat using that by simp
  then have "unat p + (8 - unat p mod 8) = 8 * (unat p div 8 + 1)"
    by (metis div_mult_mod_eq mod_less_divisor zero_less_numeral)
  ultimately show "8 dvd unat (p + aligned_slop p)" using s by (cases "unat p mod 8 = 0") (simp_all add: dvd_eq_mod_eq_0)
qed

lemma AllocateAligned_eq:
  "AllocateAligned n a =
     (case (if n + aligned_slop (ar_alloc_ptr a) \<le> ar_alloc_bytes_remaining a
            then (ar_alloc_ptr a + aligned_slop (ar_alloc_ptr a), a\<lparr>ar_alloc_ptr := ar_alloc_ptr a + (n + aligned_slop (ar_alloc_ptr a)),
                    ar_alloc_bytes_remaining := ar_alloc_bytes_remaining a - (n + aligned_slop (ar_alloc_ptr a))\<rparr>)
            else AllocateFallback n a) of
        (result, a) \<Rightarrow> if 8 dvd unat result then Some (result, a) else None)"
  by (simp add: AllocateAligned_def aligned_slop_def and_7_zero Let_def split: prod.split)

lemma allocate_inv:
  assumes inv: "arena_inv a sizes ps" and n: "0 < snd r" "unat (snd r) < 2 ^ 63"
    and new: "new_ok (ar_new a) (sizes @ new_size r a)"
  shows "\<exists>p a'. allocate r a = Some (p, a') \<and> ar_new a' = ar_new a \<and> (fst r \<longrightarrow> 8 dvd unat p)
    \<and> arena_inv a' (sizes @ new_size r a) (ps @ [(p, snd r)])"
proof (cases "needs_new r a")
  case True
  let ?x = "if snd r > kArenaBlockSize div 4 then snd r else kArenaBlockSize"
  have x: "new_ok (ar_new a) (sizes @ [?x])" using new True by (simp add: new_size_def)
  obtain a' where a': "AllocateFallback (snd r) a = (ar_new a (length sizes), a')" "ar_new a' = ar_new a"
    "arena_inv a' (sizes @ [?x]) (ps @ [(ar_new a (length sizes), snd r)])"
    using AllocateFallback_inv [OF inv n(1) x] by blast
  have al: "8 dvd unat (ar_new a (length sizes))" using new_block_bound [OF x] by blast
  have "allocate r a = Some (ar_new a (length sizes), a')"
    using True n(1) a'(1) al
    by (cases "fst r") (simp_all add: allocate_def Allocate_def AllocateAligned_eq needs_new_def)
  then show ?thesis using a' al True by (simp add: new_size_def)
next
  case False
  let ?s = "if fst r then aligned_slop (ar_alloc_ptr a) else 0"
  have b: "unat (ar_alloc_ptr a) + unat (ar_alloc_bytes_remaining a) < 2 ^ 64" using inv by (simp add: arena_inv_def)
  have s8: "unat ?s < 8" using aligned_slop(1) [of "ar_alloc_ptr a"] by simp
  have "unat (snd r + ?s) = unat (snd r) + unat ?s" using n(2) s8 by (simp add: unat_word_ariths)
  then have fit: "unat ?s + unat (snd r) \<le> unat (ar_alloc_bytes_remaining a)"
    using False by (simp add: needs_new_def word_le_nat_alt)
  have al: "fst r \<longrightarrow> 8 dvd unat (ar_alloc_ptr a + ?s)"
    using aligned_slop(2) [of "ar_alloc_ptr a"] b fit by (cases "fst r") simp_all
  have "allocate r a = Some (ar_alloc_ptr a + ?s, a\<lparr>ar_alloc_ptr := ar_alloc_ptr a + (snd r + ?s),
      ar_alloc_bytes_remaining := ar_alloc_bytes_remaining a - (snd r + ?s)\<rparr>)"
    using False n(1) al
    by (cases "fst r") (simp_all add: allocate_def Allocate_def AllocateAligned_eq needs_new_def)
  then show ?thesis using al take_free [OF inv fit n(1)] False by (simp add: new_size_def)
qed

lemma new_ok_prefix: "new_ok new (xs @ ys) \<Longrightarrow> new_ok new xs"
  unfolding new_ok_def
proof (intro allI impI, goal_cases)
  case (1 i)
  then have i: "i < length (xs @ ys)" "(xs @ ys) ! i = xs ! i" "\<forall>j < i. (xs @ ys) ! j = xs ! j" by (simp_all add: nth_append)
  from 1(1) [rule_format, OF i(1)] i(2,3) show ?case by auto
qed

lemma allocate_all_inv:
  assumes "arena_inv a sizes ps" "\<forall>r \<in> set rs. 0 < snd r \<and> unat (snd r) < 2 ^ 63" "new_ok (ar_new a) (sizes @ new_sizes rs a)"
  shows "\<exists>qs a'. allocate_all rs a = Some (qs, a') \<and> arena_inv a' (sizes @ new_sizes rs a) (ps @ qs) \<and> ar_new a' = ar_new a
    \<and> list_all2 (\<lambda>r q. snd q = snd r \<and> (fst r \<longrightarrow> 8 dvd unat (fst q))) rs qs"
  using assms
proof (induction rs arbitrary: a sizes ps)
  case (Cons r rs)
  have n: "0 < snd r" "unat (snd r) < 2 ^ 63" using Cons.prems(2) by simp_all
  have "new_ok (ar_new a) (sizes @ new_size r a)"
    using Cons.prems(3) new_ok_prefix [of "ar_new a" "sizes @ new_size r a"] by simp
  from allocate_inv [OF Cons.prems(1) n this]
  obtain p a1 where a1: "allocate r a = Some (p, a1)" "ar_new a1 = ar_new a" "fst r \<longrightarrow> 8 dvd unat p"
    "arena_inv a1 (sizes @ new_size r a) (ps @ [(p, snd r)])" by blast
  have "new_ok (ar_new a1) ((sizes @ new_size r a) @ new_sizes rs a1)" using Cons.prems(3) a1(1,2) by simp
  from Cons.IH [OF a1(4) _ this] Cons.prems(2)
  obtain qs a2 where "allocate_all rs a1 = Some (qs, a2)"
    "arena_inv a2 (sizes @ new_size r a @ new_sizes rs a1) (ps @ (p, snd r) # qs)" "ar_new a2 = ar_new a1"
    "list_all2 (\<lambda>r q. snd q = snd r \<and> (fst r \<longrightarrow> 8 dvd unat (fst q))) rs qs" by auto
  then show ?case using a1 by simp
qed (auto simp: arena_inv_def)

text \<open>C21. Whatever blocks are asked for, aligned or not, the arena returns regions that lie in the memory
  it got from \<open>new\<close>, are aligned where that was asked for and do not overlap, and its assertions
  hold; \<open>new\<close> is assumed to return aligned blocks that do not overlap, and no single request to
  reach 2^63 bytes.\<close>

theorem arena_regions:
  assumes "\<forall>r \<in> set rs. 0 < snd r \<and> unat (snd r) < 2 ^ 63" "new_ok new (new_sizes rs (new_Arena new))"
  shows "\<exists>ps a. allocate_all rs (new_Arena new) = Some (ps, a)
    \<and> list_all2 (\<lambda>r q. snd q = snd r \<and> (fst r \<longrightarrow> 8 dvd unat (fst q))) rs ps
    \<and> (\<forall>q \<in> set ps. in_block new (new_sizes rs (new_Arena new)) q)
    \<and> sorted_wrt (\<lambda>q q'. region_set q \<inter> region_set q' = {}) ps"
proof -
  have "arena_inv (new_Arena new) [] []" by (simp add: arena_inv_def new_Arena_def)
  from allocate_all_inv [OF this assms(1)] assms(2) show ?thesis
    by (auto simp: arena_inv_def new_Arena_def)
qed

theorem arena_regions_witness:
  "\<exists>ps a. allocate_all [(False, 10), (True, 16), (False, 5000)] (new_Arena (\<lambda>k. 4096 + word_of_nat (k * 4096))) = Some (ps, a)
    \<and> 8 dvd unat (fst (ps ! 1))"
proof -
  let ?new = "\<lambda>k. 4096 + word_of_nat (k * 4096) :: u64" and ?rs = "[(False, 10), (True, 16), (False, 5000)]"
  have sizes: "new_sizes ?rs (new_Arena ?new) = [4096, 5000]"
    by (simp add: new_size_def needs_new_def new_Arena_def allocate_def Allocate_def AllocateFallback_def AllocateNewBlock_def
        kArenaBlockSize_def AllocateAligned_def aligned_slop_def Let_def)
  have two: "(\<forall>i < length [4096, 5000 :: u64]. P i) \<longleftrightarrow> P 0 \<and> P 1" for P :: "nat \<Rightarrow> bool"
    by (auto simp: less_2_cases_iff numeral_2_eq_2 [symmetric])
  have "new_ok ?new [4096, 5000]"
    unfolding new_ok_def two by (simp add: region_set_def)
  then have "new_ok ?new (new_sizes ?rs (new_Arena ?new))" unfolding sizes .
  from arena_regions [OF _ this] obtain ps a where "allocate_all ?rs (new_Arena ?new) = Some (ps, a)"
    "list_all2 (\<lambda>r q. snd q = snd r \<and> (fst r \<longrightarrow> 8 dvd unat (fst q))) ?rs ps" by auto
  then show ?thesis by (auto simp: list_all2_Cons1)
qed

end
