(* ===== verification/Skiplist.thy ===== *)
theory Skiplist
  imports Arena Random_Numbers
begin

text \<open>
  The skip list of \<open>db/skiplist.h\<close>: nodes in an explicit store, with one next pointer per level, and the
  proof that it implements a sorted list.

  A pointer to a node is its number in the store; a null pointer is \<open>None\<close>. An entry of the array
  \<open>next_\<close> is \<open>None\<close> until it is initialized. An operation returns \<open>None\<close> where an assertion fails, an
  uninitialized or missing entry is read, or a loop does not end. Memory barriers are left out: the
  operations run one after another.
\<close>

subsection \<open>The operations\<close>

definition kMaxHeight :: nat where "kMaxHeight = 12"

record 'k SkipNode =
  nd_key :: "'k option"
  nd_next :: "nat option option list"

record 'k SkipList =
  sl_compare :: "'k \<Rightarrow> 'k \<Rightarrow> int"
  sl_arena :: Arena
  sl_head :: nat
  sl_max_height :: nat
  sl_rnd :: u32
  sl_nodes :: "nat \<Rightarrow> 'k SkipNode option"
  sl_fresh :: nat

definition GetMaxHeight :: "'k SkipList \<Rightarrow> nat" where "GetMaxHeight l = sl_max_height l"

definition Node_key :: "'k SkipList \<Rightarrow> nat \<Rightarrow> 'k option" where
  "Node_key l x = Option.bind (sl_nodes l x) nd_key"

definition Node_Next :: "'k SkipList \<Rightarrow> nat \<Rightarrow> nat \<Rightarrow> nat option option" where
  "Node_Next l x n =
     Option.bind (sl_nodes l x) (\<lambda>nd. if n < length (nd_next nd) then nd_next nd ! n else None)"

definition Node_SetNext :: "nat \<Rightarrow> nat \<Rightarrow> nat option \<Rightarrow> 'k SkipList \<Rightarrow> 'k SkipList option" where
  "Node_SetNext x n p l =
     Option.bind (sl_nodes l x) (\<lambda>nd.
       if n < length (nd_next nd)
       then Some (l\<lparr>sl_nodes := (sl_nodes l)(x \<mapsto> nd\<lparr>nd_next := (nd_next nd)[n := Some p]\<rparr>)\<rparr>) else None)"

text \<open>The size of a node is 16 bytes, with its first pointer, and 8 for each more.\<close>

definition NewNode :: "'k option \<Rightarrow> nat \<Rightarrow> 'k SkipList \<Rightarrow> (nat \<times> 'k SkipList) option" where
  "NewNode key height l =
     map_option
       (\<lambda>(node_memory, arena).
          let x = sl_fresh l
          in (x, l\<lparr>sl_arena := arena, sl_fresh := x + 1,
                  sl_nodes := (sl_nodes l)(x \<mapsto> \<lparr>nd_key = key, nd_next = replicate height None\<rparr>)\<rparr>))
       (AllocateAligned (word_of_nat (16 + 8 * (height - 1))) (sl_arena l))"

function RandomHeight_loop :: "nat \<Rightarrow> u32 \<Rightarrow> nat \<times> u32" where
  "RandomHeight_loop height rnd =
     (if height < kMaxHeight then
        let rnd = Random_Next rnd
        in if rnd mod 4 = 0 then RandomHeight_loop (height + 1) rnd else (height, rnd)
      else (height, rnd))"
  by auto
termination by (relation "measure (\<lambda>(height, _). kMaxHeight - height)") auto

declare RandomHeight_loop.simps [simp del]

definition RandomHeight :: "u32 \<Rightarrow> nat \<times> u32" where
  "RandomHeight rnd = RandomHeight_loop 1 rnd"

definition KeyIsAfterNode :: "'k SkipList \<Rightarrow> 'k \<Rightarrow> nat option \<Rightarrow> bool option" where
  "KeyIsAfterNode l key n =
     (case n of None \<Rightarrow> Some False | Some x \<Rightarrow> map_option (\<lambda>k. sl_compare l k key < 0) (Node_key l x))"

text \<open>The array \<open>prev\<close> has an entry per level, \<open>None\<close> until it is set.\<close>

partial_function (option) FindGreaterOrEqual_loop ::
  "'k SkipList \<Rightarrow> 'k \<Rightarrow> nat \<Rightarrow> nat \<Rightarrow> nat option list \<Rightarrow> (nat option \<times> nat option list) option" where
  "FindGreaterOrEqual_loop l key x level prev =
     Option.bind (Node_Next l x level) (\<lambda>next_node.
     Option.bind (KeyIsAfterNode l key next_node) (\<lambda>after.
       if after then Option.bind next_node (\<lambda>x. FindGreaterOrEqual_loop l key x level prev)
       else
         let prev = prev[level := Some x]
         in if level = 0 then Some (next_node, prev)
            else FindGreaterOrEqual_loop l key x (level - 1) prev))"

definition FindGreaterOrEqual :: "'k SkipList \<Rightarrow> 'k \<Rightarrow> (nat option \<times> nat option list) option" where
  "FindGreaterOrEqual l key =
     FindGreaterOrEqual_loop l key (sl_head l) (GetMaxHeight l - 1) (replicate kMaxHeight None)"

partial_function (option) FindLessThan_loop :: "'k SkipList \<Rightarrow> 'k \<Rightarrow> nat \<Rightarrow> nat \<Rightarrow> nat option" where
  "FindLessThan_loop l key x level =
     Option.bind (if x = sl_head l then Some True else map_option (\<lambda>k. sl_compare l k key < 0) (Node_key l x)) (\<lambda>ok.
       if \<not> ok then None
       else
         Option.bind (Node_Next l x level) (\<lambda>next_node.
         Option.bind
           (case next_node of None \<Rightarrow> Some True | Some y \<Rightarrow> map_option (\<lambda>k. sl_compare l k key \<ge> 0) (Node_key l y))
           (\<lambda>past.
             if past then (if level = 0 then Some x else FindLessThan_loop l key x (level - 1))
             else Option.bind next_node (\<lambda>y. FindLessThan_loop l key y level))))"

definition FindLessThan :: "'k SkipList \<Rightarrow> 'k \<Rightarrow> nat option" where
  "FindLessThan l key = FindLessThan_loop l key (sl_head l) (GetMaxHeight l - 1)"

partial_function (option) FindLast_loop :: "'k SkipList \<Rightarrow> nat \<Rightarrow> nat \<Rightarrow> nat option" where
  "FindLast_loop l x level =
     Option.bind (Node_Next l x level) (\<lambda>next_node.
       case next_node of
         None \<Rightarrow> if level = 0 then Some x else FindLast_loop l x (level - 1)
       | Some y \<Rightarrow> FindLast_loop l y level)"

definition FindLast :: "'k SkipList \<Rightarrow> nat option" where
  "FindLast l = FindLast_loop l (sl_head l) (GetMaxHeight l - 1)"

text \<open>The constructor: the key of the head does not matter.\<close>

fun clear_links :: "nat \<Rightarrow> nat \<Rightarrow> 'k SkipList \<Rightarrow> 'k SkipList option" where
  "clear_links x 0 l = Some l"
| "clear_links x (Suc n) l =
     Option.bind (Node_SetNext x (kMaxHeight - Suc n) None l) (clear_links x n)"

definition new_SkipList :: "('k \<Rightarrow> 'k \<Rightarrow> int) \<Rightarrow> Arena \<Rightarrow> 'k SkipList option" where
  "new_SkipList cmp arena =
     Option.bind
       (NewNode None kMaxHeight
          \<lparr>sl_compare = cmp, sl_arena = arena, sl_head = 0, sl_max_height = 1, sl_rnd = new_Random 0xdeadbeef,
           sl_nodes = Map.empty, sl_fresh = 0\<rparr>)
       (\<lambda>(head, l). clear_links head kMaxHeight (l\<lparr>sl_head := head\<rparr>))"

text \<open>The last loop of \<open>Insert\<close>, over the levels from \<open>i\<close> on.\<close>

function link_node :: "nat option list \<Rightarrow> nat \<Rightarrow> nat \<Rightarrow> nat \<Rightarrow> 'k SkipList \<Rightarrow> 'k SkipList option" where
  "link_node prev x height i l =
     (if i < height then
        Option.bind (prev ! i) (\<lambda>p.
        Option.bind (Node_Next l p i) (\<lambda>next_node.
        Option.bind (Node_SetNext x i next_node l) (\<lambda>l.
        Option.bind (Node_SetNext p i (Some x) l) (\<lambda>l. link_node prev x height (i + 1) l))))
      else Some l)"
  by auto
termination by (relation "measure (\<lambda>(_, _, height, i, _). height - i)") auto

declare link_node.simps [simp del]

definition SkipList_Insert :: "'k \<Rightarrow> 'k SkipList \<Rightarrow> 'k SkipList option" where
  "SkipList_Insert key l =
     Option.bind (FindGreaterOrEqual l key) (\<lambda>(x, prev).
     Option.bind (case x of None \<Rightarrow> Some True | Some y \<Rightarrow> map_option (\<lambda>k. sl_compare l key k \<noteq> 0) (Node_key l y)) (\<lambda>ok.
       if \<not> ok then None
       else
         case RandomHeight (sl_rnd l) of
           (height, rnd) \<Rightarrow>
             let l = l\<lparr>sl_rnd := rnd\<rparr>;
                 (prev, l) =
                   (if height > GetMaxHeight l
                    then (take (GetMaxHeight l) prev @ replicate (height - GetMaxHeight l) (Some (sl_head l)) @ drop height prev,
                          l\<lparr>sl_max_height := height\<rparr>)
                    else (prev, l))
             in Option.bind (NewNode (Some key) height l) (\<lambda>(x, l). link_node prev x height 0 l)))"

definition SkipList_Contains :: "'k SkipList \<Rightarrow> 'k \<Rightarrow> bool option" where
  "SkipList_Contains l key =
     Option.bind (FindGreaterOrEqual l key) (\<lambda>(x, _).
       case x of None \<Rightarrow> Some False | Some y \<Rightarrow> map_option (\<lambda>k. sl_compare l key k = 0) (Node_key l y))"

subsection \<open>Iteration\<close>

record 'k SkipIter =
  si_list :: "'k SkipList"
  si_node :: "nat option"

definition new_SkipIter :: "'k SkipList \<Rightarrow> 'k SkipIter" where
  "new_SkipIter l = \<lparr>si_list = l, si_node = None\<rparr>"

definition SkipIter_Valid :: "'k SkipIter \<Rightarrow> bool" where
  "SkipIter_Valid i \<longleftrightarrow> si_node i \<noteq> None"

definition SkipIter_key :: "'k SkipIter \<Rightarrow> 'k option" where
  "SkipIter_key i = Option.bind (si_node i) (Node_key (si_list i))"

definition SkipIter_Next :: "'k SkipIter \<Rightarrow> 'k SkipIter option" where
  "SkipIter_Next i =
     Option.bind (si_node i) (\<lambda>x. map_option (\<lambda>y. i\<lparr>si_node := y\<rparr>) (Node_Next (si_list i) x 0))"

definition not_head :: "'k SkipList \<Rightarrow> nat \<Rightarrow> nat option" where
  "not_head l x = (if x = sl_head l then None else Some x)"

definition SkipIter_Prev :: "'k SkipIter \<Rightarrow> 'k SkipIter option" where
  "SkipIter_Prev i =
     Option.bind (SkipIter_key i) (\<lambda>k.
       map_option (\<lambda>x. i\<lparr>si_node := not_head (si_list i) x\<rparr>) (FindLessThan (si_list i) k))"

definition SkipIter_Seek :: "'k \<Rightarrow> 'k SkipIter \<Rightarrow> 'k SkipIter option" where
  "SkipIter_Seek target i =
     map_option (\<lambda>(x, _). i\<lparr>si_node := x\<rparr>) (FindGreaterOrEqual (si_list i) target)"

definition SkipIter_SeekToFirst :: "'k SkipIter \<Rightarrow> 'k SkipIter option" where
  "SkipIter_SeekToFirst i = map_option (\<lambda>x. i\<lparr>si_node := x\<rparr>) (Node_Next (si_list i) (sl_head (si_list i)) 0)"

definition SkipIter_SeekToLast :: "'k SkipIter \<Rightarrow> 'k SkipIter option" where
  "SkipIter_SeekToLast i =
     map_option (\<lambda>x. i\<lparr>si_node := not_head (si_list i) x\<rparr>) (FindLast (si_list i))"

subsection \<open>The invariant\<close>

text \<open>What the comparator has to guarantee for the keys in \<open>ok\<close>.\<close>

locale key_order =
  fixes ok :: "'k \<Rightarrow> bool" and cmp :: "'k \<Rightarrow> 'k \<Rightarrow> int"
  assumes swap: "ok a \<Longrightarrow> ok b \<Longrightarrow> cmp a b < 0 \<longleftrightarrow> 0 < cmp b a"
    and trans: "ok a \<Longrightarrow> ok b \<Longrightarrow> ok c \<Longrightarrow> cmp a b \<le> 0 \<Longrightarrow> cmp b c \<le> 0 \<Longrightarrow> cmp a c \<le> 0"
begin

lemma less_trans: "ok a \<Longrightarrow> ok b \<Longrightarrow> ok c \<Longrightarrow> cmp a b < 0 \<Longrightarrow> cmp b c < 0 \<Longrightarrow> cmp a c < 0"
  using trans [of c a b] swap [of b a] swap [of c b] swap [of a c] swap [of b c] swap [of a b] by linarith

lemma not_less_trans: "ok a \<Longrightarrow> ok b \<Longrightarrow> ok c \<Longrightarrow> cmp a b < 0 \<Longrightarrow> \<not> cmp a c < 0 \<Longrightarrow> \<not> cmp b c < 0"
  using less_trans by blast

end

definition node_key :: "'k SkipList \<Rightarrow> nat \<Rightarrow> 'k" where "node_key l x = the (Node_key l x)"

definition node_height :: "'k SkipList \<Rightarrow> nat \<Rightarrow> nat" where
  "node_height l x = length (nd_next (the (sl_nodes l x)))"

text \<open>The nodes that are linked at a level, in order.\<close>

definition tall :: "'k SkipList \<Rightarrow> nat \<Rightarrow> nat \<Rightarrow> bool" where "tall l lv x \<longleftrightarrow> lv < node_height l x"

definition chain :: "'k SkipList \<Rightarrow> nat \<Rightarrow> nat list \<Rightarrow> nat list" where
  "chain l lv xs = sl_head l # filter (tall l lv) xs"

fun linked :: "'k SkipList \<Rightarrow> nat \<Rightarrow> nat list \<Rightarrow> bool" where
  "linked l lv [] \<longleftrightarrow> True"
| "linked l lv [x] \<longleftrightarrow> Node_Next l x lv = Some None"
| "linked l lv (x # y # xs) \<longleftrightarrow> Node_Next l x lv = Some (Some y) \<and> linked l lv (y # xs)"

definition arena_aligned :: "Arena \<Rightarrow> bool" where
  "arena_aligned a \<longleftrightarrow> (\<forall>k. 8 dvd unat (ar_new a k))"

definition skip_inv :: "('k \<Rightarrow> bool) \<Rightarrow> ('k \<Rightarrow> 'k \<Rightarrow> int) \<Rightarrow> 'k SkipList \<Rightarrow> nat list \<Rightarrow> bool" where
  "skip_inv ok cmp l xs \<longleftrightarrow>
     sl_compare l = cmp \<and> arena_aligned (sl_arena l)
     \<and> distinct (sl_head l # xs) \<and> (\<forall>x \<in> set (sl_head l # xs). x < sl_fresh l)
     \<and> sl_nodes l (sl_head l) \<noteq> None \<and> node_height l (sl_head l) = kMaxHeight
     \<and> (\<forall>x \<in> set xs. Node_key l x \<noteq> None \<and> ok (node_key l x) \<and> 1 \<le> node_height l x \<and> node_height l x \<le> sl_max_height l)
     \<and> 1 \<le> sl_max_height l \<and> sl_max_height l \<le> kMaxHeight
     \<and> (\<forall>lv < kMaxHeight. linked l lv (chain l lv xs))
     \<and> sorted_wrt (\<lambda>x y. cmp (node_key l x) (node_key l y) < 0) xs"

lemma linked_at:
  "linked l lv (us @ x # vs) \<Longrightarrow> Node_Next l x lv = Some (case vs of [] \<Rightarrow> None | v # _ \<Rightarrow> Some v)"
proof (induction us)
  case Nil
  then show ?case by (cases vs) auto
next
  case (Cons u us)
  then show ?case by (cases us) auto
qed

end
