(* ===== verification/Skiplist_Correct.thy ===== *)
theory Skiplist_Correct
  imports Skiplist "HOL-Library.Multiset"
begin

text \<open>
  The skip list implements a sorted list of keys: searches find the first key at or past a target,
  iteration goes through all keys, and an insertion adds a key at its place, whatever heights the random
  numbers give. All loops end.
\<close>

subsection \<open>Nodes\<close>

lemma AllocateAligned_ok:
  assumes "arena_aligned a"
  shows "\<exists>p a'. AllocateAligned n a = Some (p, a') \<and> arena_aligned a'"
proof -
  have "8 dvd unat (ar_alloc_ptr a + aligned_slop (ar_alloc_ptr a))"
  proof -
    let ?p = "ar_alloc_ptr a"
    have "(?p + aligned_slop ?p) AND 7 = 0"
    proof (cases "?p AND 7 = 0")
      case False
      have m: "w AND 7 = take_bit 3 w" for w :: u64 by (simp add: take_bit_eq_mask mask_eq_exp_minus_1)
      have "?p + aligned_slop ?p = push_bit 3 (drop_bit 3 ?p) + 8"
        using False take_bit_or_push_drop [of 3 ?p] bits_ident [of 3 ?p] by (simp add: aligned_slop_def m algebra_simps)
      also have "\<dots> = push_bit 3 (drop_bit 3 ?p + 1)" by (simp add: push_bit_eq_mult)
      finally show ?thesis unfolding m by (simp add: take_bit_push_bit)
    qed (simp add: aligned_slop_def)
    then show ?thesis by (simp add: and_7_zero)
  qed
  moreover obtain q b where q: "AllocateFallback n a = (q, b)" by (cases "AllocateFallback n a")
  then have "8 dvd unat q" "ar_new b = ar_new a"
    using assms by (auto simp: AllocateFallback_def AllocateNewBlock_def arena_aligned_def Let_def split: if_splits)
  ultimately show ?thesis
    using assms q by (simp add: AllocateAligned_eq arena_aligned_def)
qed

lemma NewNode_ok:
  assumes "arena_aligned (sl_arena l)"
  shows "\<exists>arena. NewNode key height l = Some (sl_fresh l, l\<lparr>sl_arena := arena, sl_fresh := sl_fresh l + 1,
      sl_nodes := (sl_nodes l)(sl_fresh l \<mapsto> \<lparr>nd_key = key, nd_next = replicate height None\<rparr>)\<rparr>) \<and> arena_aligned arena"
  using AllocateAligned_ok [OF assms, of "word_of_nat (16 + 8 * (height - 1))"]
  by (auto simp: NewNode_def Let_def)

text \<open>A store of a pointer changes nothing else.\<close>

definition same_nodes :: "'k SkipList \<Rightarrow> 'k SkipList \<Rightarrow> bool" where
  "same_nodes l l' \<longleftrightarrow>
     sl_compare l' = sl_compare l \<and> sl_arena l' = sl_arena l \<and> sl_head l' = sl_head l \<and> sl_max_height l' = sl_max_height l
     \<and> sl_fresh l' = sl_fresh l \<and> Node_key l' = Node_key l \<and> node_height l' = node_height l
     \<and> (\<forall>x. sl_nodes l' x = None \<longleftrightarrow> sl_nodes l x = None)"

lemma same_nodes_refl: "same_nodes l l"
  by (simp add: same_nodes_def)

lemma same_nodes_trans: "same_nodes a b \<Longrightarrow> same_nodes b c \<Longrightarrow> same_nodes a c"
  by (simp add: same_nodes_def)

lemma Node_SetNext_ok:
  assumes "sl_nodes l x \<noteq> None" "n < node_height l x"
  shows "\<exists>l'. Node_SetNext x n p l = Some l' \<and> same_nodes l l'
    \<and> Node_Next l' = (\<lambda>y m. if y = x \<and> m = n then Some p else Node_Next l y m)"
proof -
  obtain nd where nd: "sl_nodes l x = Some nd" using assms(1) by blast
  let ?l' = "l\<lparr>sl_nodes := (sl_nodes l)(x \<mapsto> nd\<lparr>nd_next := (nd_next nd)[n := Some p]\<rparr>)\<rparr>"
  have n: "n < length (nd_next nd)" using assms(2) nd by (simp add: node_height_def)
  have "Node_SetNext x n p l = Some ?l'" using nd n by (simp add: Node_SetNext_def)
  moreover have "same_nodes l ?l'" using nd by (auto simp: same_nodes_def Node_key_def node_height_def fun_eq_iff)
  moreover have "Node_Next ?l' = (\<lambda>y m. if y = x \<and> m = n then Some p else Node_Next l y m)"
    using nd n by (auto simp: Node_Next_def fun_eq_iff nth_list_update)
  ultimately show ?thesis by blast
qed

lemma Node_Next_node: "Node_Next l x n = Some p \<Longrightarrow> sl_nodes l x \<noteq> None \<and> n < node_height l x"
  by (auto simp: Node_Next_def node_height_def bind_eq_Some_conv split: if_splits)

lemma clear_links_ok:
  "sl_nodes l x \<noteq> None \<Longrightarrow> node_height l x = kMaxHeight \<Longrightarrow> n \<le> kMaxHeight \<Longrightarrow>
   (\<And>i. i < kMaxHeight - n \<Longrightarrow> Node_Next l x i = Some None) \<Longrightarrow>
   \<exists>l'. clear_links x n l = Some l' \<and> same_nodes l l' \<and> (\<forall>i < kMaxHeight. Node_Next l' x i = Some None)"
proof (induction n arbitrary: l)
  case 0
  then show ?case by (auto simp: same_nodes_refl)
next
  case (Suc n)
  have "kMaxHeight - Suc n < node_height l x" using Suc.prems(2,3) by simp
  from Node_SetNext_ok [OF Suc.prems(1) this, of None] obtain l1 where l1:
    "Node_SetNext x (kMaxHeight - Suc n) None l = Some l1" "same_nodes l l1"
    "Node_Next l1 = (\<lambda>y m. if y = x \<and> m = kMaxHeight - Suc n then Some None else Node_Next l y m)" by blast
  have "\<exists>l'. clear_links x n l1 = Some l' \<and> same_nodes l1 l' \<and> (\<forall>i < kMaxHeight. Node_Next l' x i = Some None)"
  proof (rule Suc.IH)
    show "sl_nodes l1 x \<noteq> None" "node_height l1 x = kMaxHeight" "n \<le> kMaxHeight"
      using Suc.prems l1(2) by (simp_all add: same_nodes_def)
    fix i assume "i < kMaxHeight - n"
    then have "i < kMaxHeight - Suc n \<or> i = kMaxHeight - Suc n" using Suc.prems(3) by linarith
    then show "Node_Next l1 x i = Some None" using Suc.prems(4) l1(3) by auto
  qed
  then show ?case using l1(1,2) same_nodes_trans by fastforce
qed

lemma RandomHeight_loop_bounds:
  "1 \<le> height \<Longrightarrow> height \<le> kMaxHeight \<Longrightarrow> 1 \<le> fst (RandomHeight_loop height rnd) \<and> fst (RandomHeight_loop height rnd) \<le> kMaxHeight"
proof (induction height rnd rule: RandomHeight_loop.induct)
  case (1 height rnd)
  then show ?case by (subst (1 2) RandomHeight_loop.simps) (auto simp: Let_def)
qed

lemma RandomHeight_bounds: "RandomHeight rnd = (height, rnd') \<Longrightarrow> 1 \<le> height \<and> height \<le> kMaxHeight"
  using RandomHeight_loop_bounds [of 1 rnd] by (simp add: RandomHeight_def kMaxHeight_def)

text \<open>The loop that links a node in: level by level it comes after its predecessor.\<close>

definition linking :: "'k SkipList \<Rightarrow> (nat \<Rightarrow> nat) \<Rightarrow> nat \<Rightarrow> nat \<Rightarrow> 'k SkipList \<Rightarrow> bool" where
  "linking l0 P x i l \<longleftrightarrow>
     same_nodes l0 l
     \<and> Node_Next l = (\<lambda>y lv. if lv < i \<and> y = P lv then Some (Some x)
                           else if lv < i \<and> y = x then Node_Next l0 (P lv) lv else Node_Next l0 y lv)"

lemma link_node_ok:
  assumes P: "\<And>lv. lv < height \<Longrightarrow> prev ! lv = Some (P lv) \<and> Node_Next l0 (P lv) lv \<noteq> None \<and> P lv \<noteq> x"
    and x: "sl_nodes l0 x \<noteq> None" "node_height l0 x = height"
  shows "linking l0 P x i l \<Longrightarrow> i \<le> height \<Longrightarrow> \<exists>l'. link_node prev x height i l = Some l' \<and> linking l0 P x height l'"
proof (induction "height - i" arbitrary: i l)
  case 0
  then show ?case by (subst link_node.simps) auto
next
  case (Suc n)
  then have i: "i < height" by simp
  obtain nx where nx: "Node_Next l0 (P i) i = Some nx" using P [OF i] by auto
  have same: "same_nodes l0 l" using Suc.prems(1) by (simp add: linking_def)
  have n: "Node_Next l (P i) i = Some nx" using Suc.prems(1) nx P [OF i] by (simp add: linking_def)
  have "sl_nodes l x \<noteq> None" "i < node_height l x" using x i same by (simp_all add: same_nodes_def)
  from Node_SetNext_ok [OF this, of nx] obtain l1 where l1: "Node_SetNext x i nx l = Some l1" "same_nodes l l1"
    "Node_Next l1 = (\<lambda>y m. if y = x \<and> m = i then Some nx else Node_Next l y m)" by blast
  have "sl_nodes l1 (P i) \<noteq> None" "i < node_height l1 (P i)"
    using Node_Next_node [OF nx] same l1(2) by (simp_all add: same_nodes_def)
  from Node_SetNext_ok [OF this, of "Some x"] obtain l2 where l2: "Node_SetNext (P i) i (Some x) l1 = Some l2" "same_nodes l1 l2"
    "Node_Next l2 = (\<lambda>y m. if y = P i \<and> m = i then Some (Some x) else Node_Next l1 y m)" by blast
  have "same_nodes l0 l2" using same l1(2) l2(2) same_nodes_trans by blast
  moreover have "Node_Next l2 = (\<lambda>y lv. if lv < i + 1 \<and> y = P lv then Some (Some x)
      else if lv < i + 1 \<and> y = x then Node_Next l0 (P lv) lv else Node_Next l0 y lv)"
    using Suc.prems(1) l1(3) l2(3) nx P [OF i] by (auto simp: linking_def fun_eq_iff less_Suc_eq)
  ultimately have "linking l0 P x (i + 1) l2" unfolding linking_def by blast
  then have "\<exists>l'. link_node prev x height (i + 1) l2 = Some l' \<and> linking l0 P x height l'"
    using Suc.hyps(1) [of "i + 1" l2] Suc.hyps(2) i by simp
  then show ?case using i P [OF i] n l1(1) l2(1) by (subst link_node.simps) simp
qed

lemma linked_insert:
  assumes "linked l lv (us @ p # vs)" "distinct (us @ p # vs)" "x \<notin> set (us @ p # vs)"
    and "Node_Next l' p lv = Some (Some x)" "Node_Next l' x lv = Node_Next l p lv"
    and "\<And>y. y \<noteq> p \<Longrightarrow> y \<noteq> x \<Longrightarrow> Node_Next l' y lv = Node_Next l y lv"
  shows "linked l' lv (us @ p # x # vs)"
  using assms
proof (induction us)
  case Nil
  have "linked l' lv ws" if "linked l lv ws" "p \<notin> set ws" "x \<notin> set ws" for ws
    using that Nil.prems(6) by (induction l lv ws rule: linked.induct) auto
  then show ?case using Nil.prems by (cases vs) auto
next
  case (Cons u us)
  then show ?case by (cases us) auto
qed

lemma linked_cong: "linked l lv xs \<Longrightarrow> (\<And>y. y \<in> set xs \<Longrightarrow> Node_Next l' y lv = Node_Next l y lv) \<Longrightarrow> linked l' lv xs"
  by (induction l lv xs rule: linked.induct) auto

subsection \<open>Searches\<close>

context key_order
begin

abbreviation below :: "'k SkipList \<Rightarrow> 'k \<Rightarrow> nat \<Rightarrow> bool" where
  "below l k x \<equiv> cmp (node_key l x) k < 0"

lemma skipD:
  assumes "skip_inv ok cmp l xs"
  shows "sl_compare l = cmp" "x \<in> set xs \<Longrightarrow> Node_key l x = Some (node_key l x)" "x \<in> set xs \<Longrightarrow> ok (node_key l x)"
    "lv < kMaxHeight \<Longrightarrow> linked l lv (chain l lv xs)" "distinct (sl_head l # xs)"
    "sorted_wrt (\<lambda>x y. cmp (node_key l x) (node_key l y) < 0) xs"
    "1 \<le> sl_max_height l" "sl_max_height l \<le> kMaxHeight" "node_height l (sl_head l) = kMaxHeight"
    "x \<in> set xs \<Longrightarrow> 1 \<le> node_height l x \<and> node_height l x \<le> sl_max_height l"
    "x \<in> set xs \<Longrightarrow> x \<noteq> sl_head l"
  using assms by (auto simp: skip_inv_def node_key_def)

text \<open>The nodes below a key come first.\<close>

lemma below_filter:
  assumes "sorted_wrt (\<lambda>x y. cmp (node_key l x) (node_key l y) < 0) xs" "\<forall>x \<in> set xs. ok (node_key l x)" "ok k"
  shows "takeWhile (below l k) xs = filter (below l k) xs \<and> (\<forall>x \<in> set (dropWhile (below l k) xs). \<not> below l k x)"
  using assms(1,2)
proof (induction xs)
  case (Cons x xs)
  have IH: "takeWhile (below l k) xs = filter (below l k) xs \<and> (\<forall>x \<in> set (dropWhile (below l k) xs). \<not> below l k x)"
    by (rule Cons.IH) (use Cons.prems in simp_all)
  show ?case
  proof (cases "below l k x")
    case False
    have "\<not> below l k y" if "y \<in> set xs" for y
      using not_less_trans [of "node_key l x" "node_key l y" k] Cons.prems that False assms(3) by simp
    then show ?thesis using False by (simp add: filter_empty_conv)
  next
    case True
    then have e: "takeWhile (below l k) (x # xs) = x # takeWhile (below l k) xs" "filter (below l k) (x # xs) = x # filter (below l k) xs"
      "dropWhile (below l k) (x # xs) = dropWhile (below l k) xs" by simp_all
    show ?thesis unfolding e using IH by blast
  qed
qed simp

lemma chain_below:
  assumes inv: "skip_inv ok cmp l xs" and k: "ok k" and c: "chain l lv xs = us @ x # vs"
    and us: "\<forall>y \<in> set (us @ [x]). y = sl_head l \<or> below l k y" and vs: "vs = [] \<or> \<not> below l k (hd vs)"
  shows "sl_head l # filter (tall l lv) (takeWhile (below l k) xs) = us @ [x]"
    "filter (tall l lv) (dropWhile (below l k) xs) = vs"
proof -
  have sub: "set vs \<subseteq> set xs" "set (tl (us @ [x])) \<subseteq> set xs"
  proof -
    have "tl (chain l lv xs) = filter (tall l lv) xs" by (simp add: chain_def)
    then have "tl (us @ [x]) @ vs = filter (tall l lv) xs" unfolding c by (cases us) auto
    then have "set (tl (us @ [x])) \<union> set vs \<subseteq> set xs" by (metis filter_is_subset set_append)
    then show "set vs \<subseteq> set xs" "set (tl (us @ [x])) \<subseteq> set xs" by auto
  qed
  have F: "filter (tall l lv) xs = tl (us @ [x]) @ vs" and h: "hd (us @ [x]) = sl_head l"
    using c by (cases us; simp add: chain_def)+
  have "sorted_wrt (\<lambda>x y. cmp (node_key l x) (node_key l y) < 0) (filter (tall l lv) xs)"
    using skipD(6) [OF inv] by (rule sorted_wrt_filter)
  then have sv: "sorted_wrt (\<lambda>x y. cmp (node_key l x) (node_key l y) < 0) vs" unfolding F by (simp add: sorted_wrt_append)
  have okx: "\<forall>x \<in> set xs. ok (node_key l x)" using skipD(3) [OF inv] by blast
  have nb: "\<forall>y \<in> set vs. \<not> below l k y"
  proof (cases vs)
    case (Cons v vs')
    then show ?thesis using vs sv not_less_trans [of "node_key l v"] okx sub k by auto
  qed simp
  have b: "\<forall>y \<in> set (tl (us @ [x])). below l k y"
    using us sub(2) skipD(11) [OF inv] by (meson list.set_sel(2) subsetD tl_append2 append_is_Nil_conv not_Cons_self2)
  have "filter (below l k) (filter (tall l lv) xs) = tl (us @ [x])"
    using b nb unfolding F by (simp add: filter_empty_conv filter_id_conv)
  moreover have "filter (tall l lv) (takeWhile (below l k) xs) = filter (below l k) (filter (tall l lv) xs)"
  proof -
    have e: "takeWhile (below l k) xs = filter (below l k) xs" using below_filter [OF skipD(6) [OF inv] okx k] by blast
    show ?thesis unfolding e filter_filter by (rule filter_cong) auto
  qed
  ultimately have t: "filter (tall l lv) (takeWhile (below l k) xs) = tl (us @ [x])" by simp
  then show "sl_head l # filter (tall l lv) (takeWhile (below l k) xs) = us @ [x]"
    using h by (cases us) auto
  have "filter (tall l lv) (takeWhile (below l k) xs) @ filter (tall l lv) (dropWhile (below l k) xs) = tl (us @ [x]) @ vs"
    using F by (metis filter_append takeWhile_dropWhile_id)
  then show "filter (tall l lv) (dropWhile (below l k) xs) = vs" using t by simp
qed

text \<open>Descending a level: the node is in the lower chain too.\<close>

lemma chain_descend:
  assumes inv: "skip_inv ok cmp l xs" and k: "ok k" and x: "x \<in> set (chain l (Suc lv) xs)" "x = sl_head l \<or> below l k x"
  shows "\<exists>us vs. chain l lv xs = us @ x # vs \<and> (\<forall>y \<in> set (us @ [x]). y = sl_head l \<or> below l k y)"
proof (cases "x = sl_head l")
  case True
  then show ?thesis by (intro exI [of _ "[]"] exI [of _ "filter (tall l lv) xs"]) (simp add: chain_def)
next
  case False
  then have "x \<in> set (filter (tall l lv) xs)" using x(1) by (auto simp: chain_def tall_def)
  then obtain us vs where s: "filter (tall l lv) xs = us @ x # vs" by (meson split_list)
  have sub: "set us \<subseteq> set xs" "x \<in> set xs"
    using s by (metis filter_is_subset set_append Un_subset_iff, metis filter_is_subset in_set_conv_decomp subsetD)
  have "sorted_wrt (\<lambda>x y. cmp (node_key l x) (node_key l y) < 0) (us @ x # vs)"
    using skipD(6) [OF inv] sorted_wrt_filter s by metis
  then have l: "\<forall>y \<in> set us. cmp (node_key l y) (node_key l x) < 0" by (simp add: sorted_wrt_append)
  have "\<forall>y \<in> set us. below l k y"
  proof
    fix y assume y: "y \<in> set us"
    then have "y \<in> set xs" using sub(1) by blast
    then show "below l k y" using less_trans [OF skipD(3) [OF inv] skipD(3) [OF inv sub(2)] k] l y x(2) False by blast
  qed
  then show ?thesis using x(2) s by (intro exI [of _ "sl_head l # us"] exI [of _ vs]) (auto simp: chain_def)
qed

text \<open>A place in the chain of a level, up to which all keys are below \<open>k\<close>, and the last such place.\<close>

definition before_key :: "'k SkipList \<Rightarrow> 'k \<Rightarrow> nat list \<Rightarrow> nat \<Rightarrow> nat \<Rightarrow> nat list \<Rightarrow> bool" where
  "before_key l k xs lv x vs \<longleftrightarrow>
     (\<exists>us. chain l lv xs = us @ x # vs \<and> (\<forall>y \<in> set (us @ [x]). y = sl_head l \<or> below l k y))"

definition last_before :: "'k SkipList \<Rightarrow> 'k \<Rightarrow> nat list \<Rightarrow> nat \<Rightarrow> nat" where
  "last_before l k xs lv = last (sl_head l # filter (tall l lv) (takeWhile (below l k) xs))"

definition pointer_to :: "nat list \<Rightarrow> nat option" where
  "pointer_to xs = (case xs of [] \<Rightarrow> None | x # _ \<Rightarrow> Some x)"

lemma before_key_next:
  assumes "skip_inv ok cmp l xs" "before_key l k xs lv x vs" "lv < kMaxHeight"
  shows "Node_Next l x lv = Some (pointer_to vs)" "set vs \<subseteq> set xs" "x = sl_head l \<or> x \<in> set xs \<and> below l k x"
proof -
  obtain us where us: "chain l lv xs = us @ x # vs" "x = sl_head l \<or> below l k x" using assms(2) by (auto simp: before_key_def)
  show "Node_Next l x lv = Some (pointer_to vs)"
    using linked_at [of l lv us x vs] skipD(4) [OF assms(1,3)] us(1) by (simp add: pointer_to_def)
  have "set (us @ x # vs) \<subseteq> insert (sl_head l) (set xs)" using us(1) by (metis chain_def filter_is_subset insert_mono list.set(2))
  then show "x = sl_head l \<or> x \<in> set xs \<and> below l k x" using us(2) by auto
  have "tl (us @ x # vs) = filter (tall l lv) xs" using us(1) by (metis chain_def list.sel(3))
  then have "set (tl (us @ x # vs)) \<subseteq> set xs" by (metis filter_is_subset)
  then show "set vs \<subseteq> set xs" by (cases us) auto
qed

lemma before_key_step:
  "before_key l k xs lv x (v # vs) \<Longrightarrow> below l k v \<Longrightarrow> before_key l k xs lv v vs"
  unfolding before_key_def by (elim exE, rule_tac x = "us @ [x]" in exI) auto

lemma before_key_last:
  assumes "skip_inv ok cmp l xs" "ok k" "before_key l k xs lv x vs" "vs = [] \<or> \<not> below l k (hd vs)"
  shows "last_before l k xs lv = x" "filter (tall l lv) (dropWhile (below l k) xs) = vs"
proof -
  obtain us where us: "chain l lv xs = us @ x # vs" "\<forall>y \<in> set (us @ [x]). y = sl_head l \<or> below l k y"
    using assms(3) by (auto simp: before_key_def)
  from chain_below [OF assms(1,2) us assms(4)]
  show "last_before l k xs lv = x" "filter (tall l lv) (dropWhile (below l k) xs) = vs"
    by (simp_all add: last_before_def)
qed

lemma before_key_down:
  assumes "skip_inv ok cmp l xs" "ok k" "before_key l k xs (Suc lv) x vs"
  shows "\<exists>vs. before_key l k xs lv x vs"
proof -
  have "x \<in> set (chain l (Suc lv) xs)" "x = sl_head l \<or> below l k x" using assms(3) by (auto simp: before_key_def)
  from chain_descend [OF assms(1,2) this] show ?thesis by (auto simp: before_key_def)
qed

lemma before_key_head: "before_key l k xs lv (sl_head l) (filter (tall l lv) xs)"
  by (auto simp: before_key_def chain_def intro!: exI [of _ "[]"])

lemma bottom_chain:
  assumes "skip_inv ok cmp l xs" "set ys \<subseteq> set xs"
  shows "filter (tall l 0) ys = ys"
  using skipD(10) [OF assms(1)] assms(2) by (fastforce simp: filter_id_conv tall_def)

lemma drop_sub: "set (dropWhile P xs) \<subseteq> set xs" for xs :: "nat list"
  by (auto dest: set_dropWhileD)

text \<open>The searches walk along a level and then continue below, where the key is not passed yet.\<close>

lemma FindGreaterOrEqual_loop_ok:
  assumes inv: "skip_inv ok cmp l xs" and k: "ok k"
  shows "lv < kMaxHeight \<Longrightarrow> before_key l k xs lv x vs \<Longrightarrow> lv < length prev \<Longrightarrow>
    \<exists>prev'. FindGreaterOrEqual_loop l k x lv prev = Some (pointer_to (dropWhile (below l k) xs), prev')
      \<and> length prev' = length prev \<and> (\<forall>j \<le> lv. prev' ! j = Some (last_before l k xs j)) \<and> (\<forall>j > lv. prev' ! j = prev ! j)"
proof (induction lv arbitrary: x vs prev)
  case 0
  from 0(2) show ?case
  proof (induction vs arbitrary: x)
    case Nil
    have nx: "Node_Next l x 0 = Some None" using before_key_next(1) [OF inv Nil 0(1)] by (simp add: pointer_to_def)
    have dr: "dropWhile (below l k) xs = []" "last_before l k xs 0 = x"
      using before_key_last [OF inv k Nil] bottom_chain [OF inv drop_sub] by simp_all
    have pt: "pointer_to (dropWhile (below l k) xs) = None" unfolding dr(1) by (simp add: pointer_to_def)
    show ?case unfolding pt using nx dr(2) 0(3)
      by (subst FindGreaterOrEqual_loop.simps) (auto simp: KeyIsAfterNode_def)
  next
    case (Cons v vs)
    have nx: "Node_Next l x 0 = Some (Some v)" and v: "v \<in> set xs"
      using before_key_next(1,2) [OF inv Cons.prems 0(1)] by (simp_all add: pointer_to_def)
    have af: "KeyIsAfterNode l k (Some v) = Some (below l k v)"
      using skipD(1,2) [OF inv] v by (simp add: KeyIsAfterNode_def)
    show ?case
    proof (cases "below l k v")
      case True
      then show ?thesis using Cons.IH [OF before_key_step [OF Cons.prems True]] nx af
        by (subst FindGreaterOrEqual_loop.simps) simp
    next
      case False
      have dr: "dropWhile (below l k) xs = v # vs" "last_before l k xs 0 = x"
        using before_key_last [OF inv k Cons.prems] False bottom_chain [OF inv drop_sub] by simp_all
      show ?thesis using nx af False dr 0(3) by (subst FindGreaterOrEqual_loop.simps) (auto simp: pointer_to_def)
    qed
  qed
next
  case (Suc lv)
  from Suc.prems(2) show ?case
  proof (induction vs arbitrary: x)
    case Nil
    have nx: "Node_Next l x (Suc lv) = Some None" using before_key_next(1) [OF inv Nil Suc.prems(1)] by (simp add: pointer_to_def)
    obtain ws where ws: "before_key l k xs lv x ws" using before_key_down [OF inv k Nil] by blast
    have "last_before l k xs (Suc lv) = x" using before_key_last [OF inv k Nil] by simp
    then show ?case using nx Suc.IH [OF _ ws, of "prev[Suc lv := Some x]"] Suc.prems(1,3)
      by (subst FindGreaterOrEqual_loop.simps) (auto simp: KeyIsAfterNode_def le_Suc_eq)
  next
    case (Cons v vs)
    have nx: "Node_Next l x (Suc lv) = Some (Some v)" and v: "v \<in> set xs"
      using before_key_next(1,2) [OF inv Cons.prems Suc.prems(1)] by (simp_all add: pointer_to_def)
    have af: "KeyIsAfterNode l k (Some v) = Some (below l k v)"
      using skipD(1,2) [OF inv] v by (simp add: KeyIsAfterNode_def)
    show ?case
    proof (cases "below l k v")
      case True
      then show ?thesis using Cons.IH [OF before_key_step [OF Cons.prems True]] nx af
        by (subst FindGreaterOrEqual_loop.simps) simp
    next
      case False
      obtain ws where ws: "before_key l k xs lv x ws" using before_key_down [OF inv k Cons.prems] by blast
      have "last_before l k xs (Suc lv) = x" using before_key_last [OF inv k Cons.prems] False by simp
      then show ?thesis using nx af False Suc.IH [OF _ ws, of "prev[Suc lv := Some x]"] Suc.prems(1,3)
        by (subst FindGreaterOrEqual_loop.simps) (auto simp: le_Suc_eq)
    qed
  qed
qed

lemma FindGreaterOrEqual_ok:
  assumes inv: "skip_inv ok cmp l xs" and k: "ok k"
  shows "\<exists>prev. FindGreaterOrEqual l k = Some (pointer_to (dropWhile (below l k) xs), prev) \<and> length prev = kMaxHeight
    \<and> (\<forall>j < sl_max_height l. prev ! j = Some (last_before l k xs j))"
proof -
  have h: "1 \<le> sl_max_height l" "sl_max_height l - 1 < kMaxHeight" using skipD(7,8) [OF inv] by simp_all
  then have "sl_max_height l - 1 < length (replicate kMaxHeight (None :: nat option))" by simp
  from FindGreaterOrEqual_loop_ok [OF inv k h(2) before_key_head this]
  obtain prev where "FindGreaterOrEqual l k = Some (pointer_to (dropWhile (below l k) xs), prev)" "length prev = kMaxHeight"
    "\<forall>j \<le> sl_max_height l - 1. prev ! j = Some (last_before l k xs j)"
    by (auto simp: FindGreaterOrEqual_def GetMaxHeight_def)
  moreover have "j \<le> sl_max_height l - 1" if "j < sl_max_height l" for j using that by simp
  ultimately show ?thesis by blast
qed

lemma FindLessThan_loop_ok:
  assumes inv: "skip_inv ok cmp l xs" and k: "ok k"
  shows "lv < kMaxHeight \<Longrightarrow> before_key l k xs lv x vs \<Longrightarrow> FindLessThan_loop l k x lv = Some (last_before l k xs 0)"
proof (induction lv arbitrary: x vs)
  case 0
  from 0(2) show ?case
  proof (induction vs arbitrary: x)
    case Nil
    have "last_before l k xs 0 = x" using before_key_last(1) [OF inv k Nil] by simp
    then show ?case using before_key_next [OF inv Nil 0(1)] skipD(1,2) [OF inv]
      by (subst FindLessThan_loop.simps) (auto simp: pointer_to_def)
  next
    case (Cons v vs)
    note nx = before_key_next [OF inv Cons.prems 0(1)]
    have v: "v \<in> set xs" "Node_key l v = Some (node_key l v)" using nx(2) skipD(2) [OF inv] by simp_all
    show ?case
    proof (cases "below l k v")
      case True
      then show ?thesis using Cons.IH [OF before_key_step [OF Cons.prems True]] nx(1,3) v skipD(1,2) [OF inv]
        by (subst FindLessThan_loop.simps) (auto simp: pointer_to_def)
    next
      case False
      then have "last_before l k xs 0 = x" using before_key_last(1) [OF inv k Cons.prems] by simp
      then show ?thesis using False nx(1,3) v skipD(1,2) [OF inv] by (subst FindLessThan_loop.simps) (auto simp: pointer_to_def)
    qed
  qed
next
  case (Suc lv)
  from Suc.prems(2) show ?case
  proof (induction vs arbitrary: x)
    case Nil
    obtain ws where ws: "before_key l k xs lv x ws" using before_key_down [OF inv k Nil] by blast
    then show ?case using before_key_next [OF inv Nil Suc.prems(1)] skipD(1,2) [OF inv] Suc.IH [OF _ ws] Suc.prems(1)
      by (subst FindLessThan_loop.simps) (auto simp: pointer_to_def)
  next
    case (Cons v vs)
    note nx = before_key_next [OF inv Cons.prems Suc.prems(1)]
    have v: "v \<in> set xs" "Node_key l v = Some (node_key l v)" using nx(2) skipD(2) [OF inv] by simp_all
    show ?case
    proof (cases "below l k v")
      case True
      then show ?thesis using Cons.IH [OF before_key_step [OF Cons.prems True]] nx(1,3) v skipD(1,2) [OF inv]
        by (subst FindLessThan_loop.simps) (auto simp: pointer_to_def)
    next
      case False
      obtain ws where ws: "before_key l k xs lv x ws" using before_key_down [OF inv k Cons.prems] by blast
      then show ?thesis using False nx(1,3) v skipD(1,2) [OF inv] Suc.IH [OF _ ws] Suc.prems(1)
        by (subst FindLessThan_loop.simps) (auto simp: pointer_to_def)
    qed
  qed
qed

lemma FindLessThan_ok:
  assumes inv: "skip_inv ok cmp l xs" and k: "ok k"
  shows "FindLessThan l k = Some (last (sl_head l # takeWhile (below l k) xs))"
proof -
  have "1 \<le> sl_max_height l" "sl_max_height l \<le> kMaxHeight" using skipD(7,8) [OF inv] by simp_all
  moreover have "set (takeWhile (below l k) xs) \<subseteq> set xs" by (auto dest: set_takeWhileD)
  ultimately show ?thesis
    using FindLessThan_loop_ok [OF inv k _ before_key_head, of "sl_max_height l - 1"] bottom_chain [OF inv]
    by (simp add: FindLessThan_def GetMaxHeight_def last_before_def)
qed

lemma FindLast_loop_ok:
  assumes inv: "skip_inv ok cmp l xs"
  shows "lv < kMaxHeight \<Longrightarrow> chain l lv xs = us @ x # vs \<Longrightarrow> FindLast_loop l x lv = Some (last (sl_head l # xs))"
proof (induction lv arbitrary: us x vs)
  case 0
  from 0(2) show ?case
  proof (induction vs arbitrary: us x)
    case Nil
    then have nx: "Node_Next l x 0 = Some None" using linked_at [of l 0 us x "[]"] skipD(4) [OF inv 0(1)] by simp
    have "last (chain l 0 xs) = x" using Nil by simp
    then have "last (sl_head l # xs) = x" using bottom_chain [OF inv order_refl] by (simp add: chain_def)
    then show ?case using nx by (subst FindLast_loop.simps) simp
  next
    case (Cons v vs)
    then have nx: "Node_Next l x 0 = Some (Some v)" using linked_at [of l 0 us x "v # vs"] skipD(4) [OF inv 0(1)] by simp
    then show ?case using Cons.IH [of "us @ [x]" v] Cons.prems by (subst FindLast_loop.simps) simp
  qed
next
  case (Suc lv)
  from Suc.prems(2) show ?case
  proof (induction vs arbitrary: us x)
    case Nil
    then have nx: "Node_Next l x (Suc lv) = Some None" using linked_at [of l "Suc lv" us x "[]"] skipD(4) [OF inv Suc.prems(1)] by simp
    have "x \<in> set (chain l (Suc lv) xs)" using Nil by simp
    then have "x \<in> set (chain l lv xs)" by (auto simp: chain_def tall_def)
    then obtain us' vs' where "chain l lv xs = us' @ x # vs'" by (meson split_list)
    then show ?case using nx Suc.IH Suc.prems(1) by (subst FindLast_loop.simps) simp
  next
    case (Cons v vs)
    then have nx: "Node_Next l x (Suc lv) = Some (Some v)"
      using linked_at [of l "Suc lv" us x "v # vs"] skipD(4) [OF inv Suc.prems(1)] by simp
    then show ?case using Cons.IH [of "us @ [x]" v] Cons.prems by (subst FindLast_loop.simps) simp
  qed
qed

lemma FindLast_ok:
  assumes inv: "skip_inv ok cmp l xs"
  shows "FindLast l = Some (last (sl_head l # xs))"
proof -
  have "sl_max_height l - 1 < kMaxHeight" using skipD(7,8) [OF inv] by simp
  then show ?thesis
    using FindLast_loop_ok [OF inv, of "sl_max_height l - 1" "[]" "sl_head l" "filter (tall l (sl_max_height l - 1)) xs"]
    by (simp add: FindLast_def GetMaxHeight_def chain_def)
qed

subsection \<open>Insertion\<close>

lemma new_SkipList_ok:
  assumes "arena_aligned arena"
  shows "\<exists>l. new_SkipList cmp arena = Some l \<and> skip_inv ok cmp l []"
proof -
  let ?l0 = "\<lparr>sl_compare = cmp, sl_arena = arena, sl_head = 0, sl_max_height = 1, sl_rnd = new_Random 0xdeadbeef,
    sl_nodes = Map.empty, sl_fresh = 0\<rparr>"
  obtain a where a: "NewNode None kMaxHeight ?l0 = Some (0, ?l0\<lparr>sl_arena := a, sl_fresh := 1,
      sl_nodes := [0 \<mapsto> \<lparr>nd_key = None, nd_next = replicate kMaxHeight None\<rparr>]\<rparr>)" "arena_aligned a"
    using NewNode_ok [of ?l0 None kMaxHeight] assms by auto
  let ?l = "?l0\<lparr>sl_arena := a, sl_fresh := 1, sl_nodes := [0 \<mapsto> \<lparr>nd_key = None, nd_next = replicate kMaxHeight None\<rparr>]\<rparr>"
  obtain l where l: "clear_links 0 kMaxHeight ?l = Some l" "same_nodes ?l l" "\<forall>i < kMaxHeight. Node_Next l 0 i = Some None"
    using clear_links_ok [of ?l 0 kMaxHeight] by (auto simp: node_height_def)
  have "new_SkipList cmp arena = Some l" using a(1) l(1) by (simp add: new_SkipList_def)
  moreover have "skip_inv ok cmp l []"
    using l(2,3) a(2) by (auto simp: skip_inv_def same_nodes_def node_height_def chain_def kMaxHeight_def)
  ultimately show ?thesis by blast
qed

lemma same_nodes_inv: "same_nodes l l' \<Longrightarrow> node_key l' = node_key l \<and> tall l' = tall l"
  by (auto simp: same_nodes_def node_key_def tall_def fun_eq_iff)

text \<open>The list before the last loop of an insertion: the new node is there, its links are not.\<close>

definition prepared :: "'k SkipList \<Rightarrow> 'k \<Rightarrow> nat \<Rightarrow> 'k SkipList \<Rightarrow> bool" where
  "prepared l k height l0 \<longleftrightarrow>
     sl_compare l0 = sl_compare l \<and> arena_aligned (sl_arena l0) \<and> sl_head l0 = sl_head l
     \<and> sl_max_height l0 = max height (sl_max_height l) \<and> sl_fresh l0 = sl_fresh l + 1
     \<and> sl_nodes l0 = (sl_nodes l)(sl_fresh l \<mapsto> \<lparr>nd_key = Some k, nd_next = replicate height None\<rparr>)"

lemma prepared_node:
  assumes "prepared l k height l0"
  shows "y \<noteq> sl_fresh l \<Longrightarrow> Node_key l0 y = Node_key l y \<and> node_height l0 y = node_height l y \<and> Node_Next l0 y lv = Node_Next l y lv"
    "Node_key l0 (sl_fresh l) = Some k" "node_height l0 (sl_fresh l) = height" "Node_Next l0 (sl_fresh l) lv = None"
  using assms by (auto simp: prepared_def Node_key_def node_height_def Node_Next_def)

lemma last_before_chain:
  assumes inv: "skip_inv ok cmp l xs" and k: "ok k" and lv: "lv < kMaxHeight"
  shows "\<exists>us. chain l lv xs = us @ last_before l k xs lv # filter (tall l lv) (dropWhile (below l k) xs)
    \<and> us @ [last_before l k xs lv] = sl_head l # filter (tall l lv) (takeWhile (below l k) xs)"
proof -
  let ?h = "sl_head l # filter (tall l lv) (takeWhile (below l k) xs)"
  have "chain l lv xs = ?h @ filter (tall l lv) (dropWhile (below l k) xs)"
    by (metis append_Cons chain_def filter_append takeWhile_dropWhile_id)
  moreover have "?h = butlast ?h @ [last_before l k xs lv]" unfolding last_before_def by (rule append_butlast_last_id [symmetric]) simp
  ultimately show ?thesis by (intro exI [of _ "butlast ?h"]) simp
qed

lemma linked_inv:
  assumes inv: "skip_inv ok cmp l xs" and k: "ok k" "\<forall>x \<in> set xs. cmp (node_key l x) k \<noteq> 0"
    and h: "1 \<le> height" "height \<le> kMaxHeight" and l0: "prepared l k height l0"
    and l': "linking l0 (last_before l k xs) (sl_fresh l) height l'"
  shows "skip_inv ok cmp l' (takeWhile (below l k) xs @ sl_fresh l # dropWhile (below l k) xs)"
proof -
  let ?n = "sl_fresh l" and ?t = "takeWhile (below l k) xs" and ?d = "dropWhile (below l k) xs"
  have same: "same_nodes l0 l'" using l' by (simp add: linking_def)
  have lt: "\<forall>x \<in> set (sl_head l # xs). x < ?n" using inv by (simp add: skip_inv_def)
  have key: "node_key l' y = node_key l y" "Node_key l' y = Node_key l y" "node_height l' y = node_height l y" "tall l' lv y = tall l lv y"
    if "y \<in> set (sl_head l # xs)" for y lv
    using that lt prepared_node(1) [OF l0, of y] same by (auto simp: same_nodes_def node_key_def tall_def)
  have n: "Node_key l' ?n = Some k" "node_key l' ?n = k" "node_height l' ?n = height" "tall l' lv ?n \<longleftrightarrow> lv < height" for lv
    using prepared_node(2,3) [OF l0] same by (simp_all add: same_nodes_def node_key_def tall_def)
  have sub: "set ?t \<subseteq> set xs" "set ?d \<subseteq> set xs" by (auto dest: set_takeWhileD set_dropWhileD)
  have td: "set xs = set ?t \<union> set ?d" by (metis set_append takeWhile_dropWhile_id)
  have head: "sl_head l' = sl_head l" using same l0 by (simp add: same_nodes_def prepared_def)
  have chain': "chain l' lv (?t @ ?n # ?d)
      = sl_head l # filter (tall l lv) ?t @ (if lv < height then [?n] else []) @ filter (tall l lv) ?d" for lv
  proof -
    have "filter (tall l' lv) ?t = filter (tall l lv) ?t" "filter (tall l' lv) ?d = filter (tall l lv) ?d"
      using key(4) sub by (auto intro!: filter_cong)
    then show ?thesis using n(4) by (simp add: chain_def head)
  qed
  have links: "linked l' lv (chain l' lv (?t @ ?n # ?d))" if lv: "lv < kMaxHeight" for lv
  proof -
    obtain us where us: "chain l lv xs = us @ last_before l k xs lv # filter (tall l lv) ?d"
      "us @ [last_before l k xs lv] = sl_head l # filter (tall l lv) ?t" using last_before_chain [OF inv k(1) lv] by blast
    have e: "us @ last_before l k xs lv # ws = sl_head l # filter (tall l lv) ?t @ ws" for ws
    proof -
      have "us @ last_before l k xs lv # ws = (us @ [last_before l k xs lv]) @ ws" by simp
      then show ?thesis unfolding us(2) by simp
    qed
    have lk: "linked l lv (us @ last_before l k xs lv # filter (tall l lv) ?d)" using skipD(4) [OF inv lv] us(1) by simp
    have cs: "set (chain l lv xs) \<subseteq> set (sl_head l # xs)" by (auto simp: chain_def)
    have fresh: "?n \<notin> set (chain l lv xs)" using cs lt by blast
    show ?thesis
    proof (cases "lv < height")
      case True
      have "linked l' lv (us @ last_before l k xs lv # ?n # filter (tall l lv) ?d)"
      proof (rule linked_insert [OF lk])
        show "distinct (us @ last_before l k xs lv # filter (tall l lv) ?d)"
          using skipD(5) [OF inv] unfolding us(1) [symmetric] chain_def by simp
        show "?n \<notin> set (us @ last_before l k xs lv # filter (tall l lv) ?d)" using fresh unfolding us(1) .
        have "last_before l k xs lv \<noteq> ?n" using fresh unfolding us(1) by auto
        then show "Node_Next l' (last_before l k xs lv) lv = Some (Some ?n)"
          "Node_Next l' ?n lv = Node_Next l (last_before l k xs lv) lv"
          using l' True prepared_node(1) [OF l0] by (auto simp: linking_def)
        fix y assume "y \<noteq> last_before l k xs lv" "y \<noteq> ?n"
        then show "Node_Next l' y lv = Node_Next l y lv" using l' prepared_node(1) [OF l0] by (simp add: linking_def)
      qed
      then show ?thesis unfolding chain' e using True by simp
    next
      case False
      have "linked l' lv (chain l lv xs)"
      proof (rule linked_cong [OF skipD(4) [OF inv lv]])
        fix y assume "y \<in> set (chain l lv xs)"
        then have "y \<noteq> ?n" using fresh by blast
        then show "Node_Next l' y lv = Node_Next l y lv" using False l' prepared_node(1) [OF l0] by (simp add: linking_def)
      qed
      then show ?thesis unfolding chain' us(1) e using False by simp
    qed
  qed
  have okx: "\<forall>x \<in> set xs. ok (node_key l x)" using skipD(3) [OF inv] by blast
  have above: "cmp k (node_key l y) < 0" if y: "y \<in> set ?d" for y
  proof -
    have "\<not> below l k y" using below_filter [OF skipD(6) [OF inv] okx k(1)] y by blast
    moreover have "cmp (node_key l y) k \<noteq> 0" "ok (node_key l y)" using k(2) okx y sub(2) by blast+
    ultimately show ?thesis using swap [of k "node_key l y"] k(1) by auto
  qed
  have "sorted_wrt (\<lambda>x y. cmp (node_key l' x) (node_key l' y) < 0) xs"
    by (rule sorted_wrt_mono_rel [OF _ skipD(6) [OF inv]]) (use key(1) in simp)
  then have "sorted_wrt (\<lambda>x y. cmp (node_key l' x) (node_key l' y) < 0) (?t @ ?d)" by simp
  then have so: "sorted_wrt (\<lambda>x y. cmp (node_key l' x) (node_key l' y) < 0) ?t"
    "sorted_wrt (\<lambda>x y. cmp (node_key l' x) (node_key l' y) < 0) ?d"
    "\<forall>x \<in> set ?t. \<forall>y \<in> set ?d. cmp (node_key l' x) (node_key l' y) < 0"
    unfolding sorted_wrt_append by blast+
  have bl: "\<forall>x \<in> set ?t. below l k x" by (auto dest: set_takeWhileD)
  have "sorted_wrt (\<lambda>x y. cmp (node_key l' x) (node_key l' y) < 0) (?t @ ?n # ?d)"
  proof -
    have kt: "\<forall>x \<in> set ?t. node_key l' x = node_key l x" "\<forall>y \<in> set ?d. node_key l' y = node_key l y" using key(1) sub by auto
    have "\<forall>x \<in> set ?t. cmp (node_key l' x) (node_key l' ?n) < 0" using bl kt(1) unfolding n(2) by metis
    moreover have "\<forall>y \<in> set ?d. cmp (node_key l' ?n) (node_key l' y) < 0" using above kt(2) unfolding n(2) by metis
    ultimately show ?thesis unfolding sorted_wrt_append sorted_wrt.simps list.set using so by blast
  qed
  moreover have "distinct (sl_head l # ?t @ ?n # ?d)"
  proof -
    have "distinct (?t @ ?d)" using skipD(5) [OF inv] by simp
    then have "distinct ?t \<and> distinct ?d \<and> set ?t \<inter> set ?d = {}" by (simp only: distinct_append)
    moreover have "sl_head l \<notin> set ?t \<union> set ?d" "?n \<notin> insert (sl_head l) (set ?t \<union> set ?d)"
      using skipD(5) [OF inv] lt unfolding td [symmetric] by auto
    ultimately show ?thesis by auto
  qed
  moreover have "\<forall>x \<in> set xs. Node_key l' x \<noteq> None \<and> ok (node_key l' x) \<and> 1 \<le> node_height l' x \<and> node_height l' x \<le> sl_max_height l'"
    using skipD(2,3,10) [OF inv] key same l0 by (fastforce simp: same_nodes_def prepared_def)
  ultimately show ?thesis
    using links same l0 n k(1) h key(3) [of "sl_head l"] td lt inv unfolding skip_inv_def head
    by (auto simp: same_nodes_def prepared_def less_Suc_eq)
qed

lemma linked_keys:
  assumes inv: "skip_inv ok cmp l xs" and l0: "prepared l k height l0"
    and l': "linking l0 (last_before l k xs) (sl_fresh l) height l'"
  shows "map (node_key l') (takeWhile (below l k) xs @ sl_fresh l # dropWhile (below l k) xs)
    = map (node_key l) (takeWhile (below l k) xs) @ k # map (node_key l) (dropWhile (below l k) xs)"
proof -
  have same: "same_nodes l0 l'" using l' by (simp add: linking_def)
  have lt: "\<forall>x \<in> set xs. x \<noteq> sl_fresh l" using inv by (auto simp: skip_inv_def)
  have "node_key l' y = node_key l y" if "y \<in> set xs" for y
    using lt that prepared_node(1) [OF l0, of y] same by (simp add: same_nodes_def node_key_def)
  moreover have "node_key l' (sl_fresh l) = k" using prepared_node(2) [OF l0] same by (simp add: same_nodes_def node_key_def)
  ultimately show ?thesis by (auto dest: set_takeWhileD set_dropWhileD)
qed

lemma SkipList_Insert_inv:
  assumes inv: "skip_inv ok cmp l xs" and k: "ok k" "\<forall>x \<in> set xs. cmp (node_key l x) k \<noteq> 0"
  shows "\<exists>l' ys. SkipList_Insert k l = Some l' \<and> skip_inv ok cmp l' ys
    \<and> map (node_key l') ys = map (node_key l) (takeWhile (below l k) xs) @ k # map (node_key l) (dropWhile (below l k) xs)"
proof -
  obtain prev where prev: "FindGreaterOrEqual l k = Some (pointer_to (dropWhile (below l k) xs), prev)" "length prev = kMaxHeight"
    "\<forall>j < sl_max_height l. prev ! j = Some (last_before l k xs j)" using FindGreaterOrEqual_ok [OF inv k(1)] by blast
  obtain height rnd where h: "RandomHeight (sl_rnd l) = (height, rnd)" by (cases "RandomHeight (sl_rnd l)")
  note hb = RandomHeight_bounds [OF h]
  let ?l1 = "l\<lparr>sl_rnd := rnd, sl_max_height := max height (sl_max_height l)\<rparr>"
  let ?prev = "if height > sl_max_height l
    then take (sl_max_height l) prev @ replicate (height - sl_max_height l) (Some (sl_head l)) @ drop height prev else prev"
  have pv: "?prev ! j = Some (last_before l k xs j)" if j: "j < height" for j
  proof (cases "j < sl_max_height l")
    case True
    then show ?thesis using prev(2,3) skipD(8) [OF inv] by (simp add: nth_append)
  next
    case False
    have "filter (tall l j) (takeWhile (below l k) xs) = []"
      using skipD(10) [OF inv] False by (fastforce simp: filter_empty_conv tall_def dest: set_takeWhileD)
    then have "last_before l k xs j = sl_head l" by (simp add: last_before_def)
    moreover have "j - sl_max_height l < height - sl_max_height l" using False j by (intro diff_less_mono) simp_all
    ultimately show ?thesis using False j prev(2) hb skipD(8) [OF inv] by (simp add: nth_append)
  qed
  have "arena_aligned (sl_arena ?l1)" using inv by (simp add: skip_inv_def)
  from NewNode_ok [OF this, of "Some k" height] obtain l0 where l0: "NewNode (Some k) height ?l1 = Some (sl_fresh l, l0)"
    "prepared l k height l0" by (auto simp: prepared_def)
  have x: "sl_nodes l0 (sl_fresh l) \<noteq> None" "node_height l0 (sl_fresh l) = height"
    using l0(2) prepared_node(3) [OF l0(2)] by (simp_all add: prepared_def)
  have P: "?prev ! lv = Some (last_before l k xs lv) \<and> Node_Next l0 (last_before l k xs lv) lv \<noteq> None
      \<and> last_before l k xs lv \<noteq> sl_fresh l" if lv: "lv < height" for lv
  proof -
    have lv': "lv < kMaxHeight" using lv hb by simp
    obtain us where us: "chain l lv xs = us @ last_before l k xs lv # filter (tall l lv) (dropWhile (below l k) xs)"
      using last_before_chain [OF inv k(1) lv'] by blast
    have "Node_Next l (last_before l k xs lv) lv \<noteq> None"
      using linked_at [of l lv us "last_before l k xs lv" "filter (tall l lv) (dropWhile (below l k) xs)"]
        skipD(4) [OF inv lv'] unfolding us by simp
    moreover have "last_before l k xs lv \<in> set (chain l lv xs)" unfolding us by simp
    then have "last_before l k xs lv \<in> set (sl_head l # xs)" by (auto simp: chain_def)
    then have "last_before l k xs lv \<noteq> sl_fresh l" using inv by (auto simp: skip_inv_def)
    ultimately show ?thesis using pv [OF lv] prepared_node(1) [OF l0(2)] by simp
  qed
  have "linking l0 (last_before l k xs) (sl_fresh l) 0 l0" by (simp add: linking_def same_nodes_refl)
  from link_node_ok [OF P x this] obtain l' where l': "link_node ?prev (sl_fresh l) height 0 l0 = Some l'"
    "linking l0 (last_before l k xs) (sl_fresh l) height l'" by auto
  have eq: "(case pointer_to (dropWhile (below l k) xs) of None \<Rightarrow> Some True
      | Some y \<Rightarrow> map_option (\<lambda>j. sl_compare l k j \<noteq> 0) (Node_key l y)) = Some True"
  proof (cases "dropWhile (below l k) xs")
    case (Cons y ys)
    then have y: "y \<in> set xs" by (metis list.set_intros(1) set_dropWhileD)
    then have "cmp k (node_key l y) \<noteq> 0"
      using k swap [of "node_key l y" k] swap [of k "node_key l y"] skipD(3) [OF inv y] by (metis less_irrefl linorder_cases)
    then show ?thesis unfolding Cons using skipD(1,2) [OF inv] y by (simp add: pointer_to_def)
  next
    case Nil
    show ?thesis unfolding Nil by (simp add: pointer_to_def)
  qed
  have "SkipList_Insert k l = Some l'"
    using prev(1) eq h l0(1) l'(1)
    by (simp add: SkipList_Insert_def GetMaxHeight_def Let_def max_def not_less split: if_splits)
  then show ?thesis using linked_inv [OF inv k _ _ l0(2) l'(2)] linked_keys [OF inv l0(2) l'(2)] hb by blast
qed

text \<open>What a skip list stands for: the sorted list of its keys.\<close>

definition represents :: "'k SkipList \<Rightarrow> 'k list \<Rightarrow> bool" where
  "represents l ks \<longleftrightarrow> (\<exists>xs. skip_inv ok cmp l xs \<and> ks = map (node_key l) xs)"

definition insert_sorted :: "'k \<Rightarrow> 'k list \<Rightarrow> 'k list" where
  "insert_sorted k ks = takeWhile (\<lambda>a. cmp a k < 0) ks @ k # dropWhile (\<lambda>a. cmp a k < 0) ks"

lemma list_represents_new: "arena_aligned arena \<Longrightarrow> \<exists>l. new_SkipList cmp arena = Some l \<and> represents l []"
  using new_SkipList_ok by (auto simp: represents_def)

lemma represents_sorted: "represents l ks \<Longrightarrow> sorted_wrt (\<lambda>a b. cmp a b < 0) ks \<and> (\<forall>k \<in> set ks. ok k)"
  using skipD(3,6) by (auto simp: represents_def sorted_wrt_map)

lemma represents_Insert:
  assumes "represents l ks" "ok k" "\<forall>a \<in> set ks. cmp a k \<noteq> 0"
  shows "\<exists>l'. SkipList_Insert k l = Some l' \<and> represents l' (insert_sorted k ks)"
proof -
  obtain xs where xs: "skip_inv ok cmp l xs" "ks = map (node_key l) xs" using assms(1) by (auto simp: represents_def)
  from SkipList_Insert_inv [OF xs(1) assms(2)] assms(3) xs(2)
  obtain l' ys where l': "SkipList_Insert k l = Some l'" "skip_inv ok cmp l' ys"
    "map (node_key l') ys = map (node_key l) (takeWhile (below l k) xs) @ k # map (node_key l) (dropWhile (below l k) xs)" by auto
  have "insert_sorted k ks = map (node_key l') ys"
    unfolding l'(3) insert_sorted_def xs(2) by (simp add: takeWhile_map dropWhile_map comp_def)
  then show ?thesis using l'(1,2) by (auto simp: represents_def)
qed

subsection \<open>Iteration\<close>

definition iter_pos :: "'k SkipIter \<Rightarrow> nat list \<Rightarrow> nat \<Rightarrow> bool" where
  "iter_pos i xs n \<longleftrightarrow> skip_inv ok cmp (si_list i) xs \<and> n \<le> length xs \<and> si_node i = pointer_to (drop n xs)"

definition skip_at :: "'k SkipIter \<Rightarrow> 'k list \<Rightarrow> nat \<Rightarrow> bool" where
  "skip_at i ks n \<longleftrightarrow> (\<exists>xs. iter_pos i xs n \<and> ks = map (node_key (si_list i)) xs)"

lemma skip_atI:
  assumes "skip_inv ok cmp (si_list i) xs" "n \<le> length xs" "p = pointer_to (drop n xs)"
  shows "skip_at (i\<lparr>si_node := p\<rparr>) (map (node_key (si_list i)) xs) n"
  using assms by (auto simp: skip_at_def iter_pos_def intro!: exI [of _ xs])

lemma pointer_to_drop: "n < length xs \<Longrightarrow> pointer_to (drop n xs) = Some (xs ! n)" "length xs \<le> n \<Longrightarrow> pointer_to (drop n xs) = None"
  by (simp_all add: pointer_to_def Cons_nth_drop_Suc [symmetric])

lemma skip_new: "represents l ks \<Longrightarrow> skip_at (new_SkipIter l) ks (length ks)"
  unfolding represents_def skip_at_def iter_pos_def new_SkipIter_def
  by (elim exE, rule_tac x = xs in exI) (simp add: pointer_to_def)

lemma skip_list: "skip_at i ks n \<Longrightarrow> represents (si_list i) ks \<and> n \<le> length ks"
  by (auto simp: skip_at_def iter_pos_def represents_def)

lemma skip_valid: "skip_at i ks n \<Longrightarrow> SkipIter_Valid i \<longleftrightarrow> n < length ks"
  by (cases "n < length ks") (auto simp: skip_at_def iter_pos_def SkipIter_Valid_def pointer_to_drop, simp add: pointer_to_def)

lemma skip_key: "skip_at i ks n \<Longrightarrow> n < length ks \<Longrightarrow> SkipIter_key i = Some (ks ! n)"
  using skipD(2) by (fastforce simp: skip_at_def iter_pos_def SkipIter_key_def pointer_to_drop)

lemma skip_next:
  assumes "skip_at i ks n" "n < length ks"
  shows "\<exists>i'. SkipIter_Next i = Some i' \<and> skip_at i' ks (n + 1)"
proof -
  obtain xs where xs: "skip_inv ok cmp (si_list i) xs" "si_node i = Some (xs ! n)" "ks = map (node_key (si_list i)) xs" "n < length xs"
    using assms by (auto simp: skip_at_def iter_pos_def pointer_to_drop)
  have "chain (si_list i) 0 xs = (sl_head (si_list i) # take n xs) @ xs ! n # drop (n + 1) xs"
    using bottom_chain [OF xs(1) order_refl] xs(4) by (simp add: chain_def id_take_nth_drop [symmetric])
  then have "Node_Next (si_list i) (xs ! n) 0 = Some (pointer_to (drop (n + 1) xs))"
    using linked_at skipD(4) [OF xs(1), of 0] by (metis kMaxHeight_def pointer_to_def zero_less_numeral)
  then have "SkipIter_Next i = Some (i\<lparr>si_node := pointer_to (drop (n + 1) xs)\<rparr>)" using xs(2) by (simp add: SkipIter_Next_def)
  then show ?thesis using skip_atI [OF xs(1), of "n + 1"] xs(3,4) by simp
qed

lemma skip_first:
  assumes "skip_at i ks n"
  shows "\<exists>i'. SkipIter_SeekToFirst i = Some i' \<and> skip_at i' ks 0"
proof -
  obtain xs where xs: "skip_inv ok cmp (si_list i) xs" "ks = map (node_key (si_list i)) xs"
    using assms by (auto simp: skip_at_def iter_pos_def)
  have "chain (si_list i) 0 xs = [] @ sl_head (si_list i) # xs" using bottom_chain [OF xs(1) order_refl] by (simp add: chain_def)
  then have "Node_Next (si_list i) (sl_head (si_list i)) 0 = Some (pointer_to xs)"
    using linked_at skipD(4) [OF xs(1), of 0] by (metis kMaxHeight_def pointer_to_def zero_less_numeral)
  then show ?thesis using skip_atI [OF xs(1), of 0] xs(2) by (simp add: SkipIter_SeekToFirst_def)
qed

lemma not_head_last:
  assumes "skip_inv ok cmp l xs" "n \<le> length xs"
  shows "not_head l (last (sl_head l # take n xs)) = (if n = 0 then None else Some (xs ! (n - 1)))"
proof (cases n)
  case (Suc m)
  then have "last (sl_head l # take n xs) = xs ! m" using assms(2) by (simp add: take_Suc_conv_app_nth)
  moreover have "xs ! m \<noteq> sl_head l" using skipD(11) [OF assms(1)] assms(2) Suc by simp
  ultimately show ?thesis using Suc by (simp add: not_head_def)
qed (simp add: not_head_def)

lemma skip_last:
  assumes "skip_at i ks n"
  shows "\<exists>i'. SkipIter_SeekToLast i = Some i' \<and> skip_at i' ks (length ks - 1)"
proof -
  obtain xs where xs: "skip_inv ok cmp (si_list i) xs" "ks = map (node_key (si_list i)) xs"
    using assms by (auto simp: skip_at_def iter_pos_def)
  have "not_head (si_list i) (last (sl_head (si_list i) # xs)) = pointer_to (drop (length xs - 1) xs)"
    using not_head_last [OF xs(1), of "length xs"] by (cases "xs = []") (simp_all add: pointer_to_drop, simp add: pointer_to_def)
  then show ?thesis using FindLast_ok [OF xs(1)] skip_atI [OF xs(1), of "length xs - 1"] xs(2)
    by (simp add: SkipIter_SeekToLast_def)
qed

lemma skip_prev:
  assumes "skip_at i ks n" "n < length ks"
  shows "\<exists>i'. SkipIter_Prev i = Some i' \<and> skip_at i' ks (if n = 0 then length ks else n - 1)"
proof -
  obtain xs where xs: "skip_inv ok cmp (si_list i) xs" "si_node i = Some (xs ! n)" "ks = map (node_key (si_list i)) xs" "n < length xs"
    using assms by (auto simp: skip_at_def iter_pos_def pointer_to_drop)
  let ?l = "si_list i" and ?k = "node_key (si_list i) (xs ! n)"
  have x: "xs ! n \<in> set xs" using xs(4) by simp
  have s: "sorted_wrt (\<lambda>x y. cmp (node_key ?l x) (node_key ?l y) < 0) xs" using skipD(6) [OF xs(1)] .
  have "takeWhile (below ?l ?k) xs = take n xs"
  proof (rule takeWhile_eq_take_P_nth)
    show "below ?l ?k (xs ! j)" if "j < n" "j < length xs" for j using sorted_wrt_nth_less [OF s that(1) xs(4)] .
    have "\<not> cmp ?k ?k < 0" using swap [of ?k ?k] skipD(3) [OF xs(1) x] by auto
    then show "\<not> below ?l ?k (xs ! n)" if "n < length xs" by simp
  qed
  then have "FindLessThan ?l ?k = Some (last (sl_head ?l # take n xs))"
    using FindLessThan_ok [OF xs(1) skipD(3) [OF xs(1) x]] by simp
  moreover have "SkipIter_key i = Some ?k" using xs(2) skipD(2) [OF xs(1) x] by (simp add: SkipIter_key_def)
  moreover have "not_head ?l (last (sl_head ?l # take n xs)) = pointer_to (drop (if n = 0 then length xs else n - 1) xs)"
    using not_head_last [OF xs(1), of n] xs(4) by (cases n) (simp_all add: pointer_to_drop, simp add: pointer_to_def)
  ultimately have "SkipIter_Prev i = Some (i\<lparr>si_node := pointer_to (drop (if n = 0 then length xs else n - 1) xs)\<rparr>)"
    by (simp only: SkipIter_Prev_def Option.bind.simps option.map)
  moreover have "skip_at (i\<lparr>si_node := pointer_to (drop (if n = 0 then length xs else n - 1) xs)\<rparr>) ks (if n = 0 then length xs else n - 1)"
    unfolding xs(3) by (rule skip_atI [OF xs(1) _ refl]) (use xs(4) in auto)
  ultimately show ?thesis using xs(3) by auto
qed

lemma skip_seek:
  assumes "skip_at i ks n" "ok k"
  shows "\<exists>i'. SkipIter_Seek k i = Some i' \<and> skip_at i' ks (length (takeWhile (\<lambda>a. cmp a k < 0) ks))"
proof -
  obtain xs where xs: "skip_inv ok cmp (si_list i) xs" "ks = map (node_key (si_list i)) xs"
    using assms by (auto simp: skip_at_def iter_pos_def)
  have l: "length (takeWhile (\<lambda>a. cmp a k < 0) ks) = length (takeWhile (below (si_list i) k) xs)"
    by (simp add: xs(2) takeWhile_map comp_def)
  have "dropWhile (below (si_list i) k) xs = drop (length (takeWhile (below (si_list i) k) xs)) xs" by (rule dropWhile_eq_drop)
  then show ?thesis
    using FindGreaterOrEqual_ok [OF xs(1) assms(2)] skip_atI [OF xs(1) length_takeWhile_le] xs(2) unfolding l
    by (fastforce simp: SkipIter_Seek_def)
qed

lemma Contains_ok:
  assumes "represents l ks" "ok k"
  shows "SkipList_Contains l k = Some (\<exists>a \<in> set ks. cmp a k = 0)"
proof -
  obtain xs where xs: "skip_inv ok cmp l xs" "ks = map (node_key l) xs" using assms(1) by (auto simp: represents_def)
  obtain prev where p: "FindGreaterOrEqual l k = Some (pointer_to (dropWhile (below l k) xs), prev)"
    using FindGreaterOrEqual_ok [OF xs(1) assms(2)] by blast
  have okx: "\<forall>x \<in> set xs. ok (node_key l x)" using skipD(3) [OF xs(1)] by blast
  have eq: "cmp k a = 0 \<longleftrightarrow> cmp a k = 0" if "ok a" for a
    using swap [of a k] swap [of k a] that assms(2) by linarith
  have before: "\<forall>x \<in> set (takeWhile (below l k) xs). cmp (node_key l x) k \<noteq> 0" by (auto dest: set_takeWhileD)
  have split: "set xs = set (takeWhile (below l k) xs) \<union> set (dropWhile (below l k) xs)"
    by (metis set_append takeWhile_dropWhile_id)
  show ?thesis
  proof (cases "dropWhile (below l k) xs")
    case Nil
    have "set xs = set (takeWhile (below l k) xs)" using split unfolding Nil by (simp only: list.set Un_empty_right)
    then have "\<forall>x \<in> set xs. cmp (node_key l x) k \<noteq> 0" using before by (simp only:)
    then have "\<not> (\<exists>a \<in> set ks. cmp a k = 0)" unfolding xs(2) by simp
    then show ?thesis using p unfolding Nil by (simp add: SkipList_Contains_def pointer_to_def)
  next
    case (Cons y ys)
    then have y: "y \<in> set xs" by (metis list.set_intros(1) set_dropWhileD)
    have "sorted_wrt (\<lambda>x y. cmp (node_key l x) (node_key l y) < 0) (takeWhile (below l k) xs @ y # ys)"
      using skipD(6) [OF xs(1)] unfolding Cons [symmetric] by simp
    then have later: "\<forall>z \<in> set ys. cmp (node_key l y) (node_key l z) < 0" by (simp add: sorted_wrt_append)
    have ny: "\<not> below l k y" using below_filter [OF skipD(6) [OF xs(1)] okx assms(2)] Cons by auto
    have "cmp (node_key l z) k \<noteq> 0" if z: "z \<in> set ys" for z
    proof
      assume zk: "cmp (node_key l z) k = 0"
      have zx: "z \<in> set xs" using z split unfolding Cons by auto
      have okz: "ok (node_key l z)" "ok (node_key l y)" using okx zx y by blast+
      have yz: "cmp (node_key l y) (node_key l z) < 0" using later z by blast
      have "cmp (node_key l y) k \<le> 0" using trans [OF okz(2,1) assms(2)] yz zk by linarith
      then have "cmp k (node_key l y) = 0" using ny eq [OF okz(2)] by linarith
      then have "cmp (node_key l z) (node_key l y) \<le> 0" using trans [OF okz(1) assms(2) okz(2)] zk by linarith
      then show False using yz swap [OF okz(2,1)] by linarith
    qed
    then have "\<forall>z \<in> set xs. cmp (node_key l z) k = 0 \<longrightarrow> z = y" using before split unfolding Cons by auto
    then have "(\<exists>a \<in> set ks. cmp a k = 0) \<longleftrightarrow> cmp (node_key l y) k = 0"
      using y unfolding xs(2) by auto
    then show ?thesis using p skipD(1,2) [OF xs(1)] y eq okx unfolding Cons
      by (simp add: SkipList_Contains_def pointer_to_def)
  qed
qed

end

subsection \<open>The skip list as a sorted list\<close>

fun SkipList_Inserts :: "'k list \<Rightarrow> 'k SkipList \<Rightarrow> 'k SkipList option" where
  "SkipList_Inserts [] l = Some l"
| "SkipList_Inserts (k # ks) l = Option.bind (SkipList_Insert k l) (SkipList_Inserts ks)"

text \<open>All keys in the order of iteration.\<close>

fun read_keys :: "nat \<Rightarrow> 'k SkipIter \<Rightarrow> 'k list option" where
  "read_keys 0 i = Some []"
| "read_keys (Suc fuel) i =
     (if \<not> SkipIter_Valid i then Some []
      else Option.bind (SkipIter_key i) (\<lambda>k. Option.bind (SkipIter_Next i) (\<lambda>i. map_option ((#) k) (read_keys fuel i))))"

context key_order
begin

lemma insert_sorted_set: "set (insert_sorted k ks) = insert k (set ks)" "mset (insert_sorted k ks) = add_mset k (mset ks)"
proof -
  show m: "mset (insert_sorted k ks) = add_mset k (mset ks)"
    unfolding insert_sorted_def by (metis mset.simps(2) mset_append takeWhile_dropWhile_id union_mset_add_mset_right)
  show "set (insert_sorted k ks) = insert k (set ks)" using arg_cong [OF m, of set_mset] by simp
qed

lemma represents_Inserts:
  "represents l ks \<Longrightarrow> \<forall>k \<in> set new. ok k \<Longrightarrow> \<forall>k \<in> set new. \<forall>a \<in> set ks. cmp a k \<noteq> 0 \<Longrightarrow>
   sorted_wrt (\<lambda>a b. cmp a b \<noteq> 0) new \<Longrightarrow>
   \<exists>l' ks'. SkipList_Inserts new l = Some l' \<and> represents l' ks' \<and> mset ks' = mset (ks @ new)"
proof (induction new arbitrary: l ks)
  case (Cons k new)
  obtain l1 where l1: "SkipList_Insert k l = Some l1" "represents l1 (insert_sorted k ks)"
    using represents_Insert [OF Cons.prems(1), of k] Cons.prems(2,3) by auto
  have "\<forall>k' \<in> set new. \<forall>a \<in> set (insert_sorted k ks). cmp a k' \<noteq> 0"
    using Cons.prems(3,4) by (auto simp: insert_sorted_set(1))
  then obtain l' ks' where "SkipList_Inserts new l1 = Some l'" "represents l' ks'" "mset ks' = mset (insert_sorted k ks @ new)"
    using Cons.IH [OF l1(2)] Cons.prems(2,4) by auto
  then show ?case using l1(1) by (auto simp: insert_sorted_set(2))
qed auto

lemma read_keys_at: "skip_at i ks n \<Longrightarrow> read_keys fuel i = Some (take fuel (drop n ks))"
proof (induction fuel arbitrary: i n)
  case (Suc fuel)
  show ?case
  proof (cases "n < length ks")
    case True
    obtain i' where "SkipIter_Next i = Some i'" "skip_at i' ks (n + 1)" using skip_next [OF Suc.prems True] by blast
    then show ?thesis using Suc.IH skip_key [OF Suc.prems True] skip_valid [OF Suc.prems] True
      by (simp add: Cons_nth_drop_Suc [symmetric])
  qed (use skip_valid [OF Suc.prems] skip_list [OF Suc.prems] in simp)
qed simp

lemma sorted_list_facts:
  assumes "arena_aligned arena" "\<forall>k \<in> set new. ok k" "sorted_wrt (\<lambda>a b. cmp a b \<noteq> 0) new"
  shows "\<exists>l ks. Option.bind (new_SkipList cmp arena) (SkipList_Inserts new) = Some l
    \<and> mset ks = mset new \<and> sorted_wrt (\<lambda>a b. cmp a b < 0) ks
    \<and> Option.bind (SkipIter_SeekToFirst (new_SkipIter l)) (read_keys (length ks)) = Some ks
    \<and> (\<forall>k. ok k \<longrightarrow>
         Option.bind (SkipIter_Seek k (new_SkipIter l)) (read_keys (length ks)) = Some (dropWhile (\<lambda>a. cmp a k < 0) ks)
         \<and> SkipList_Contains l k = Some (\<exists>a \<in> set new. cmp a k = 0))"
proof -
  obtain l0 where l0: "new_SkipList cmp arena = Some l0" "represents l0 []" using list_represents_new [OF assms(1)] by blast
  obtain l ks where l: "SkipList_Inserts new l0 = Some l" "represents l ks" "mset ks = mset ([] @ new)"
    using represents_Inserts [OF l0(2) assms(2) _ assms(3)] by auto
  have set: "set ks = set new" using arg_cong [OF l(3), of set_mset] by simp
  note at = skip_new [OF l(2)]
  obtain i where i: "SkipIter_SeekToFirst (new_SkipIter l) = Some i" "skip_at i ks 0" using skip_first [OF at] by blast
  have "Option.bind (SkipIter_Seek k (new_SkipIter l)) (read_keys (length ks)) = Some (dropWhile (\<lambda>a. cmp a k < 0) ks)"
    if k: "ok k" for k
  proof -
    obtain i where "SkipIter_Seek k (new_SkipIter l) = Some i" "skip_at i ks (length (takeWhile (\<lambda>a. cmp a k < 0) ks))"
      using skip_seek [OF at k] by blast
    then show ?thesis using read_keys_at [of i ks _ "length ks"] by (simp add: dropWhile_eq_drop)
  qed
  moreover have "SkipList_Contains l k = Some (\<exists>a \<in> set new. cmp a k = 0)" if "ok k" for k
    using Contains_ok [OF l(2) that] set by simp
  moreover have "Option.bind (SkipIter_SeekToFirst (new_SkipIter l)) (read_keys (length ks)) = Some ks"
    using i(1) read_keys_at [OF i(2), of "length ks"] by simp
  moreover have "Option.bind (new_SkipList cmp arena) (SkipList_Inserts new) = Some l" using l0(1) l(1) by simp
  ultimately show ?thesis using l(3) represents_sorted [OF l(2)] by (intro exI conjI) auto
qed

end

text \<open>C18. A skip list into which keys are inserted, in any order and with any heights drawn for the nodes,
  is a sorted list of them: iteration reads all keys once and in order, a search starts it at the
  first key that is not below the target, and \<open>Contains\<close> finds exactly the keys inserted. No
  assertion fails, no uninitialized link is read, and all loops end.\<close>

theorem skiplist_is_sorted_list:
  assumes "key_order ok cmp" "arena_aligned arena" "\<forall>k \<in> set new. ok k" "sorted_wrt (\<lambda>a b. cmp a b \<noteq> 0) new"
  shows "\<exists>l ks. Option.bind (new_SkipList cmp arena) (SkipList_Inserts new) = Some l
    \<and> mset ks = mset new \<and> sorted_wrt (\<lambda>a b. cmp a b < 0) ks
    \<and> Option.bind (SkipIter_SeekToFirst (new_SkipIter l)) (read_keys (length ks)) = Some ks
    \<and> (\<forall>k. ok k \<longrightarrow>
         Option.bind (SkipIter_Seek k (new_SkipIter l)) (read_keys (length ks)) = Some (dropWhile (\<lambda>a. cmp a k < 0) ks)
         \<and> SkipList_Contains l k = Some (\<exists>a \<in> set new. cmp a k = 0))"
  using key_order.sorted_list_facts [OF assms] .

lemma int_key_order: "key_order (\<lambda>_. True) (\<lambda>a b :: int. a - b)"
  by unfold_locales auto

theorem skiplist_is_sorted_list_witness:
  "\<exists>l ks. Option.bind (new_SkipList (\<lambda>a b :: int. a - b) (new_Arena (\<lambda>k. push_bit 12 (word_of_nat k))))
      (SkipList_Inserts [5, 3, 9]) = Some l \<and> mset ks = mset [5, 3, 9 :: int]
    \<and> SkipList_Contains l 3 = Some True \<and> SkipList_Contains l 4 = Some False"
proof -
  have "8 dvd unat (push_bit 12 (word_of_nat k) :: u64)" for k
  proof -
    have "w AND 7 = take_bit 3 w" for w :: u64 by (simp add: take_bit_eq_mask mask_eq_exp_minus_1)
    then show ?thesis by (simp add: and_7_zero [symmetric] take_bit_push_bit)
  qed
  then have "arena_aligned (new_Arena (\<lambda>k. push_bit 12 (word_of_nat k)))" by (simp add: arena_aligned_def new_Arena_def)
  from skiplist_is_sorted_list [OF int_key_order this, of "[5, 3, 9]"] show ?thesis by auto
qed

end
