(* ===== verification/Write_Batch.thy ===== *)
theory Write_Batch
  imports Dbformat
begin

text \<open>
  Write batches (\<open>include/leveldb/write_batch.h\<close>, \<open>db/write_batch.cc\<close>): a sequence number, a count and
  the records, in one string. An option is \<open>None\<close> where an assertion fails or the code would read or
  write outside of the string.
\<close>

subsection \<open>The batch\<close>

record 'h Handler =
  hd_Put :: "Slice \<Rightarrow> Slice \<Rightarrow> 'h \<Rightarrow> 'h option"
  hd_Delete :: "Slice \<Rightarrow> 'h \<Rightarrow> 'h option"

definition kHeader :: nat where "kHeader = 12"

record WriteBatch =
  wb_rep :: bytes

definition WriteBatch_Clear :: "WriteBatch \<Rightarrow> WriteBatch" where
  "WriteBatch_Clear b = b\<lparr>wb_rep := replicate kHeader 0\<rparr>"

definition new_WriteBatch :: WriteBatch where
  "new_WriteBatch = WriteBatch_Clear \<lparr>wb_rep = []\<rparr>"

definition ApproximateSize :: "WriteBatch \<Rightarrow> nat" where
  "ApproximateSize b = length (wb_rep b)"

definition WriteBatch_Count :: "WriteBatch \<Rightarrow> u32 option" where
  "WriteBatch_Count b = DecodeFixed32 (drop 8 (wb_rep b))"

definition WriteBatch_SetCount :: "u32 \<Rightarrow> WriteBatch \<Rightarrow> WriteBatch option" where
  "WriteBatch_SetCount n b =
     (if length (wb_rep b) \<ge> 12
      then Some (b\<lparr>wb_rep := take 8 (wb_rep b) @ EncodeFixed32 n @ drop 12 (wb_rep b)\<rparr>) else None)"

definition WriteBatch_Sequence :: "WriteBatch \<Rightarrow> SequenceNumber option" where
  "WriteBatch_Sequence b = DecodeFixed64 (wb_rep b)"

definition WriteBatch_SetSequence :: "SequenceNumber \<Rightarrow> WriteBatch \<Rightarrow> WriteBatch option" where
  "WriteBatch_SetSequence seq b =
     (if length (wb_rep b) \<ge> 8 then Some (b\<lparr>wb_rep := EncodeFixed64 seq @ drop 8 (wb_rep b)\<rparr>) else None)"

definition WriteBatch_Contents :: "WriteBatch \<Rightarrow> Slice" where "WriteBatch_Contents b = wb_rep b"

definition WriteBatch_ByteSize :: "WriteBatch \<Rightarrow> nat" where "WriteBatch_ByteSize b = length (wb_rep b)"

definition WriteBatch_SetContents :: "Slice \<Rightarrow> WriteBatch \<Rightarrow> WriteBatch option" where
  "WriteBatch_SetContents contents b =
     (if length contents \<ge> kHeader then Some (b\<lparr>wb_rep := contents\<rparr>) else None)"

definition type_byte :: "ValueType \<Rightarrow> byte" where "type_byte t = ucast (ValueType_value t)"

definition WriteBatch_Put :: "Slice \<Rightarrow> Slice \<Rightarrow> WriteBatch \<Rightarrow> WriteBatch option" where
  "WriteBatch_Put key value b =
     Option.bind (WriteBatch_Count b) (\<lambda>n.
     Option.bind (WriteBatch_SetCount (n + 1) b) (\<lambda>b.
       let rep = wb_rep b @ [type_byte kTypeValue];
           rep = PutLengthPrefixedSlice rep key;
           rep = PutLengthPrefixedSlice rep value
       in Some (b\<lparr>wb_rep := rep\<rparr>)))"

definition WriteBatch_Delete :: "Slice \<Rightarrow> WriteBatch \<Rightarrow> WriteBatch option" where
  "WriteBatch_Delete key b =
     Option.bind (WriteBatch_Count b) (\<lambda>n.
     Option.bind (WriteBatch_SetCount (n + 1) b) (\<lambda>b.
       let rep = wb_rep b @ [type_byte kTypeDeletion];
           rep = PutLengthPrefixedSlice rep key
       in Some (b\<lparr>wb_rep := rep\<rparr>)))"

text \<open>\<open>src\<close> is added to \<open>dst\<close>.\<close>

definition WriteBatch_Append :: "WriteBatch \<Rightarrow> WriteBatch \<Rightarrow> WriteBatch option" where
  "WriteBatch_Append dst src =
     Option.bind (WriteBatch_Count dst) (\<lambda>n.
     Option.bind (WriteBatch_Count src) (\<lambda>m.
     Option.bind (WriteBatch_SetCount (n + m) dst) (\<lambda>dst.
       if length (wb_rep src) \<ge> kHeader then Some (dst\<lparr>wb_rep := wb_rep dst @ drop kHeader (wb_rep src)\<rparr>) else None)))"

text \<open>The loop of \<open>Iterate\<close>: the status of an early return or the number of records, and the handler.\<close>

function Iterate_loop :: "'h Handler \<Rightarrow> bytes \<Rightarrow> nat \<Rightarrow> 'h \<Rightarrow> ((Status + nat) \<times> 'h) option" where
  "Iterate_loop handler [] found h = Some (Inr found, h)"
| "Iterate_loop handler (tag # input) found h =
     (let found = found + 1
      in if tag = type_byte kTypeValue then
           (case GetLengthPrefixedSlice input of
              (input1, Some key) \<Rightarrow>
                (case GetLengthPrefixedSlice input1 of
                   (input2, Some value) \<Rightarrow> Option.bind (hd_Put handler key value h) (Iterate_loop handler input2 found)
                 | (_, None) \<Rightarrow> Some (Inl (Status_Corruption (lit ''bad WriteBatch Put'') []), h))
            | (_, None) \<Rightarrow> Some (Inl (Status_Corruption (lit ''bad WriteBatch Put'') []), h))
         else if tag = type_byte kTypeDeletion then
           (case GetLengthPrefixedSlice input of
              (input1, Some key) \<Rightarrow> Option.bind (hd_Delete handler key h) (Iterate_loop handler input1 found)
            | (_, None) \<Rightarrow> Some (Inl (Status_Corruption (lit ''bad WriteBatch Delete'') []), h))
         else Some (Inl (Status_Corruption (lit ''unknown WriteBatch tag'') []), h))"
  by pat_completeness auto
termination
  by (relation "measure (\<lambda>(_, input, _, _). length input)") (auto dest!: GetLengthPrefixedSlice_shorter [OF sym])

definition WriteBatch_Iterate :: "'h Handler \<Rightarrow> WriteBatch \<Rightarrow> 'h \<Rightarrow> (Status \<times> 'h) option" where
  "WriteBatch_Iterate handler b h =
     (if length (wb_rep b) < kHeader then Some (Status_Corruption (lit ''malformed WriteBatch (too small)'') [], h)
      else
        Option.bind (Iterate_loop handler (drop kHeader (wb_rep b)) 0 h) (\<lambda>(r, h).
          case r of
            Inl s \<Rightarrow> Some (s, h)
          | Inr found \<Rightarrow>
              Option.bind (WriteBatch_Count b) (\<lambda>n.
                if word_of_nat found \<noteq> n then Some (Status_Corruption (lit ''WriteBatch has wrong count'') [], h)
                else Some (Status_OK, h))))"

subsection \<open>What a batch stands for\<close>

datatype batch_op = Put_op Slice Slice | Delete_op Slice

primrec op_bytes :: "batch_op \<Rightarrow> bytes" where
  "op_bytes (Put_op key value) = PutLengthPrefixedSlice (PutLengthPrefixedSlice [type_byte kTypeValue] key) value"
| "op_bytes (Delete_op key) = PutLengthPrefixedSlice [type_byte kTypeDeletion] key"

primrec op_small :: "batch_op \<Rightarrow> bool" where
  "op_small (Put_op key value) \<longleftrightarrow> length key < 2 ^ 32 \<and> length value < 2 ^ 32"
| "op_small (Delete_op key) \<longleftrightarrow> length key < 2 ^ 32"

primrec apply_op :: "'h Handler \<Rightarrow> batch_op \<Rightarrow> 'h \<Rightarrow> 'h option" where
  "apply_op handler (Put_op key value) = hd_Put handler key value"
| "apply_op handler (Delete_op key) = hd_Delete handler key"

fun apply_ops :: "'h Handler \<Rightarrow> batch_op list \<Rightarrow> 'h \<Rightarrow> 'h option" where
  "apply_ops handler [] h = Some h"
| "apply_ops handler (x # xs) h = Option.bind (apply_op handler x h) (apply_ops handler xs)"

text \<open>The batch that a client fills.\<close>

definition batch_builder :: "WriteBatch Handler" where
  "batch_builder = \<lparr>hd_Put = WriteBatch_Put, hd_Delete = WriteBatch_Delete\<rparr>"

definition batch_bytes :: "SequenceNumber \<Rightarrow> batch_op list \<Rightarrow> bytes" where
  "batch_bytes seq xs = EncodeFixed64 seq @ EncodeFixed32 (word_of_nat (length xs)) @ concat (map op_bytes xs)"

lemma batch_bytes_parts:
  "drop 12 (batch_bytes seq xs) = concat (map op_bytes xs)" "take 8 (batch_bytes seq xs) = EncodeFixed64 seq"
  "DecodeFixed32 (drop 8 (batch_bytes seq xs)) = Some (word_of_nat (length xs))"
  "DecodeFixed64 (batch_bytes seq xs) = Some seq" "12 \<le> length (batch_bytes seq xs)"
  by (simp_all add: batch_bytes_def)

lemma new_WriteBatch_bytes: "wb_rep new_WriteBatch = batch_bytes 0 []"
  by (simp add: new_WriteBatch_def WriteBatch_Clear_def batch_bytes_def kHeader_def EncodeFixed64_on_def EncodeFixed32_on_def
      native_bytes64_def native_bytes32_def eval_nat_numeral)

lemma Count_bytes: "wb_rep b = batch_bytes seq xs \<Longrightarrow> WriteBatch_Count b = Some (word_of_nat (length xs))"
  by (simp add: WriteBatch_Count_def batch_bytes_parts)

lemma Sequence_bytes: "wb_rep b = batch_bytes seq xs \<Longrightarrow> WriteBatch_Sequence b = Some seq"
  by (simp add: WriteBatch_Sequence_def batch_bytes_parts)

lemma SetSequence_bytes:
  "wb_rep b = batch_bytes seq xs \<Longrightarrow> WriteBatch_SetSequence seq' b = Some (b\<lparr>wb_rep := batch_bytes seq' xs\<rparr>)"
  by (simp add: WriteBatch_SetSequence_def batch_bytes_def)

lemma SetCount_bytes:
  "wb_rep b = batch_bytes seq xs \<Longrightarrow>
   WriteBatch_SetCount n b = Some (b\<lparr>wb_rep := EncodeFixed64 seq @ EncodeFixed32 n @ concat (map op_bytes xs)\<rparr>)"
  by (simp add: WriteBatch_SetCount_def batch_bytes_parts)

lemma apply_op_builder:
  "wb_rep b = batch_bytes seq xs \<Longrightarrow>
   \<exists>b'. apply_op batch_builder x b = Some b' \<and> wb_rep b' = batch_bytes seq (xs @ [x])"
  by (cases x) (simp_all add: batch_builder_def WriteBatch_Put_def WriteBatch_Delete_def Count_bytes SetCount_bytes
      Let_def PutLengthPrefixedSlice_app batch_bytes_def add.commute)

lemma apply_ops_builder:
  "wb_rep b = batch_bytes seq xs \<Longrightarrow>
   \<exists>b'. apply_ops batch_builder ys b = Some b' \<and> wb_rep b' = batch_bytes seq (xs @ ys)"
proof (induction ys arbitrary: b xs)
  case (Cons y ys)
  obtain b1 where "apply_op batch_builder y b = Some b1" "wb_rep b1 = batch_bytes seq (xs @ [y])"
    using apply_op_builder [OF Cons.prems] by blast
  then show ?case using Cons.IH [of b1 "xs @ [y]"] by simp
qed simp

lemma Append_bytes:
  assumes "wb_rep dst = batch_bytes seq xs" "wb_rep src = batch_bytes seq' ys"
  shows "\<exists>b. WriteBatch_Append dst src = Some b \<and> wb_rep b = batch_bytes seq (xs @ ys)"
  using assms by (simp add: WriteBatch_Append_def Count_bytes SetCount_bytes kHeader_def batch_bytes_parts batch_bytes_def)

subsection \<open>Replaying\<close>

lemma type_byte_simps [simp]: "type_byte kTypeValue = 1" "type_byte kTypeDeletion = 0"
  by (simp_all add: type_byte_def)

lemma Iterate_loop_op:
  assumes "op_small x"
  shows "Iterate_loop handler (op_bytes x @ rest) found h
    = Option.bind (apply_op handler x h) (Iterate_loop handler rest (found + 1))"
  using assms by (cases x) (simp_all add: PutLengthPrefixedSlice_app Let_def)

lemma Iterate_loop_ops:
  "\<forall>x \<in> set xs. op_small x \<Longrightarrow>
   Iterate_loop handler (concat (map op_bytes xs) @ rest) found h
   = Option.bind (apply_ops handler xs h) (Iterate_loop handler rest (found + length xs))"
proof (induction xs arbitrary: found h)
  case (Cons x xs)
  then show ?case by (cases "apply_op handler x h") (simp_all add: Iterate_loop_op)
qed simp

lemma Iterate_bytes:
  assumes "wb_rep b = batch_bytes seq xs" "\<forall>x \<in> set xs. op_small x" "length xs < 2 ^ 32"
  shows "WriteBatch_Iterate handler b h = map_option (Pair Status_OK) (apply_ops handler xs h)"
proof -
  have l: "\<not> length (wb_rep b) < kHeader" using assms(1) batch_bytes_parts(5) [of seq xs] by (simp add: kHeader_def)
  have "Iterate_loop handler (drop kHeader (wb_rep b)) 0 h
      = Option.bind (apply_ops handler xs h) (Iterate_loop handler [] (length xs))"
    using Iterate_loop_ops [OF assms(2), of handler "[]" 0 h] assms(1) by (simp add: kHeader_def batch_bytes_parts)
  then show ?thesis
    using l Count_bytes [OF assms(1)] by (cases "apply_ops handler xs h") (simp_all add: WriteBatch_Iterate_def)
qed

subsection \<open>Truncated batches\<close>

text \<open>More input after what was decoded does not change it.\<close>

lemma GetLengthPrefixedSlice_more:
  assumes "GetLengthPrefixedSlice p = (q, Some v)"
  shows "GetLengthPrefixedSlice (p @ r) = (q @ r, Some v)"
proof -
  obtain len q0 where g: "GetVarint32Ptr p = Some (len, q0)" "unat len \<le> length q0" "q = drop (unat len) q0" "v = take (unat len) q0"
    using assms by (auto simp: GetLengthPrefixedSlice_def GetVarint32_def split: option.splits if_splits)
  obtain pre where "p = pre @ q0" "\<forall>q'. GetVarint32Ptr (pre @ q') = Some (len, q')"
    using GetVarint32Ptr_consumes [OF g(1)] by blast
  then have "GetVarint32Ptr (p @ r) = Some (len, q0 @ r)" by simp
  then show ?thesis using g(2-4) by (simp add: GetLengthPrefixedSlice_def GetVarint32_def)
qed

lemma Iterate_loop_more:
  "Iterate_loop handler p found h = Some (Inr n, h') \<Longrightarrow>
   Iterate_loop handler (p @ r) found h = Iterate_loop handler r n h'"
proof (induction handler p found h rule: Iterate_loop.induct)
  case (2 handler tag input found h)
  show ?case
  proof (cases "tag = 1")
    case True
    then obtain input1 key input2 v h1 where g: "GetLengthPrefixedSlice input = (input1, Some key)"
      "GetLengthPrefixedSlice input1 = (input2, Some v)" "hd_Put handler key v h = Some h1"
      "Iterate_loop handler input2 (found + 1) h1 = Some (Inr n, h')"
      using 2(3) by (auto simp: Let_def bind_eq_Some_conv split: prod.splits option.splits)
    then show ?thesis
      using 2(1) [OF refl _ g(1)[symmetric] refl g(2)[symmetric] refl g(3,4)] True
        GetLengthPrefixedSlice_more [OF g(1), of r] GetLengthPrefixedSlice_more [OF g(2), of r] g(3)
      by (simp add: Let_def)
  next
    case False
    then obtain input1 key h1 where g: "tag = 0" "GetLengthPrefixedSlice input = (input1, Some key)"
      "hd_Delete handler key h = Some h1" "Iterate_loop handler input1 (found + 1) h1 = Some (Inr n, h')"
      using 2(3) by (auto simp: Let_def bind_eq_Some_conv split: prod.splits option.splits if_splits)
    then show ?thesis
      using 2(2) [OF refl _ _ g(2)[symmetric] refl g(3,4)] GetLengthPrefixedSlice_more [OF g(2), of r]
      by (simp add: Let_def)
  qed
qed simp

lemma Iterate_loop_count:
  "Iterate_loop handler p found h = Some (Inr n, h') \<Longrightarrow> found \<le> n \<and> (p \<noteq> [] \<longrightarrow> found < n)"
proof (induction handler p found h rule: Iterate_loop.induct)
  case (2 handler tag input found h)
  then show ?case
    by (force simp: Let_def bind_eq_Some_conv split: prod.splits option.splits if_splits)
qed simp


definition handler_total :: "'h Handler \<Rightarrow> bool" where
  "handler_total handler \<longleftrightarrow> (\<forall>k v h. hd_Put handler k v h \<noteq> None \<and> hd_Delete handler k h \<noteq> None)"

lemma apply_ops_total: "handler_total handler \<Longrightarrow> apply_ops handler xs h \<noteq> None"
proof (induction xs arbitrary: h)
  case (Cons x xs)
  then have "apply_op handler x h \<noteq> None" by (cases x) (simp_all add: handler_total_def)
  then show ?case using Cons by auto
qed simp

lemma Iterate_loop_total: "handler_total handler \<Longrightarrow> Iterate_loop handler p found h \<noteq> None"
proof (induction handler p found h rule: Iterate_loop.induct)
  case (2 handler tag input found h)
  have t: "\<exists>h'. hd_Put handler k v h = Some h'" "\<exists>h'. hd_Delete handler k h = Some h'" for k v
    using 2(3) by (auto simp: handler_total_def)
  show ?case
    using 2(1) [OF refl _ _ _ _ _ _ 2(3)] 2(2) [OF refl _ _ _ _ _ 2(3)] t
    by (auto simp: Let_def split: prod.split option.split) (metis bind.bind_lunit option.discI)+
qed simp

lemma Status_ok_Corruption: "\<not> Status_ok (Status_Corruption msg msg2)"
  by (simp add: Status_ok_def Status_Corruption_def Status_make_def Let_def)

lemma Iterate_loop_error: "Iterate_loop handler p found h = Some (Inl s, h') \<Longrightarrow> \<not> Status_ok s"
proof (induction handler p found h rule: Iterate_loop.induct)
  case (2 handler tag input found h)
  then show ?case
    by (force simp: Let_def bind_eq_Some_conv Status_ok_Corruption split: prod.splits option.splits if_splits)
qed simp

subsection \<open>Properties\<close>

text \<open>C19. Iterating over a batch calls the handler with the operations that were put into it and into the
  batches appended to it, in order, and returns OK.\<close>

theorem write_batch_replay:
  assumes "\<forall>x \<in> set (xs @ ys). op_small x" "length (xs @ ys) < 2 ^ 32"
  shows "\<exists>b1 b2 b. apply_ops batch_builder xs new_WriteBatch = Some b1 \<and> apply_ops batch_builder ys new_WriteBatch = Some b2
    \<and> WriteBatch_Append b1 b2 = Some b
    \<and> WriteBatch_Iterate handler b h = map_option (Pair Status_OK) (apply_ops handler (xs @ ys) h)"
proof -
  obtain b1 where b1: "apply_ops batch_builder xs new_WriteBatch = Some b1" "wb_rep b1 = batch_bytes 0 xs"
    using apply_ops_builder [OF new_WriteBatch_bytes, of xs] by auto
  obtain b2 where b2: "apply_ops batch_builder ys new_WriteBatch = Some b2" "wb_rep b2 = batch_bytes 0 ys"
    using apply_ops_builder [OF new_WriteBatch_bytes, of ys] by auto
  obtain b where b: "WriteBatch_Append b1 b2 = Some b" "wb_rep b = batch_bytes 0 (xs @ ys)"
    using Append_bytes [OF b1(2) b2(2)] by blast
  from b1(1) b2(1) b(1) Iterate_bytes [OF b(2) assms, of handler h] show ?thesis by (intro exI conjI)
qed

definition recorder :: "batch_op list Handler" where
  "recorder = \<lparr>hd_Put = (\<lambda>k v h. Some (h @ [Put_op k v])), hd_Delete = (\<lambda>k h. Some (h @ [Delete_op k]))\<rparr>"

theorem write_batch_replay_witness:
  "\<exists>b1 b2 b. apply_ops batch_builder [Put_op [1] [2]] new_WriteBatch = Some b1
    \<and> apply_ops batch_builder [Delete_op [1]] new_WriteBatch = Some b2 \<and> WriteBatch_Append b1 b2 = Some b
    \<and> WriteBatch_Iterate recorder b [] = Some (Status_OK, [Put_op [1] [2], Delete_op [1]])"
  using write_batch_replay [of "[Put_op [1] [2]]" "[Delete_op [1]]" recorder "[]"] by (simp add: recorder_def)

text \<open>C20. A batch of which the last bytes are missing is never accepted: iterating over any proper prefix
  of its string ends with an error, whatever calls were made before.\<close>

theorem truncated_batch_rejected:
  assumes "handler_total handler" "\<forall>x \<in> set xs. op_small x" "length xs < 2 ^ 32"
    and "apply_ops batch_builder xs new_WriteBatch = Some b" "n < length (wb_rep b)"
  shows "\<exists>s h'. WriteBatch_Iterate handler (b\<lparr>wb_rep := take n (wb_rep b)\<rparr>) h = Some (s, h') \<and> \<not> Status_ok s"
proof -
  have rep: "wb_rep b = batch_bytes 0 xs" using apply_ops_builder [OF new_WriteBatch_bytes, of xs] assms(4) by auto
  show ?thesis
  proof (cases "n < kHeader")
    case True
    then show ?thesis using assms(5) by (simp add: WriteBatch_Iterate_def Status_ok_Corruption)
  next
    case False
    let ?full = "concat (map op_bytes xs)" and ?p = "take (n - 12) (concat (map op_bytes xs))"
      and ?r = "drop (n - 12) (concat (map op_bytes xs))"
    have len: "length (batch_bytes 0 xs) = 12 + length ?full" by (simp add: batch_bytes_def)
    have p: "drop kHeader (take n (wb_rep b)) = ?p"
      using rep by (simp add: kHeader_def drop_take batch_bytes_parts)
    have "n - 12 < length ?full" using assms(5) rep len False by (simp add: kHeader_def)
    then have r: "?r \<noteq> []" by simp
    have count: "WriteBatch_Count (b\<lparr>wb_rep := take n (wb_rep b)\<rparr>) = Some (word_of_nat (length xs))"
      using False rep by (simp add: WriteBatch_Count_def kHeader_def batch_bytes_def drop_take)
    obtain res h' where it: "Iterate_loop handler ?p 0 h = Some (res, h')"
      using Iterate_loop_total [OF assms(1), of ?p 0 h] by auto
    show ?thesis
    proof (cases res)
      case (Inl s)
      have "\<not> Status_ok s" by (rule Iterate_loop_error [OF it [unfolded Inl]])
      then show ?thesis using it p Inl False assms(5) by (simp add: WriteBatch_Iterate_def)
    next
      case (Inr found)
      have "Iterate_loop handler ?r found h' = Iterate_loop handler (?p @ ?r) 0 h"
        using Iterate_loop_more [of handler ?p 0 h found h' ?r] it Inr by simp
      also have "\<dots> = Option.bind (apply_ops handler xs h) (Iterate_loop handler [] (length xs))"
        using Iterate_loop_ops [OF assms(2), of handler "[]" 0 h] by simp
      finally obtain h'' where h'': "Iterate_loop handler ?r found h' = Some (Inr (length xs), h'')"
        using apply_ops_total [OF assms(1), of xs h] by auto
      from Iterate_loop_count [OF h''] r have "found < length xs" by (simp only: simp_thms)
      then have "unat (word_of_nat found :: u32) \<noteq> unat (word_of_nat (length xs) :: u32)"
        using assms(3) by (simp add: unat_of_nat_u32)
      then have "(word_of_nat found :: u32) \<noteq> word_of_nat (length xs)" by metis
      then show ?thesis using it p Inr False assms(5) count by (simp add: WriteBatch_Iterate_def Status_ok_Corruption)
    qed
  qed
qed

theorem truncated_batch_rejected_witness:
  "\<exists>b s h'. apply_ops batch_builder [Put_op [1] [2]] new_WriteBatch = Some b
    \<and> WriteBatch_Iterate recorder (b\<lparr>wb_rep := take 16 (wb_rep b)\<rparr>) [] = Some (s, h') \<and> \<not> Status_ok s"
proof -
  obtain b where b: "apply_ops batch_builder [Put_op [1] [2]] new_WriteBatch = Some b" "wb_rep b = batch_bytes 0 [Put_op [1] [2]]"
    using apply_ops_builder [OF new_WriteBatch_bytes, of "[Put_op [1] [2]]"] by auto
  have "handler_total recorder" by (simp add: handler_total_def recorder_def)
  moreover have "16 < length (wb_rep b)"
    by (simp add: b(2) batch_bytes_def PutLengthPrefixedSlice_app EncodeVarint32_def)
  ultimately show ?thesis using truncated_batch_rejected [of recorder "[Put_op [1] [2]]" b 16 "[]"] b(1) by auto
qed

end
