(* ===== verification/Block.thy ===== *)
theory Block
  imports Coding Iterators Options
begin

text \<open>
  Blocks of a table (\<open>table/block_builder.h\<close>, \<open>table/block_builder.cc\<close>, \<open>table/block.h\<close>,
  \<open>table/block.cc\<close>): the builder that stores each key as the length of the prefix shared with the key
  before and the rest, with the whole key at restart points, and the iterator that decodes the
  entries, forwards and backwards, and searches the restart points.

  An option is \<open>None\<close> where an assertion fails or where the code would read outside of the block.
  Offsets, counts and lengths have the 32 bits they have in the code.
\<close>

subsection \<open>The builder\<close>

record BlockBuilder =
  bb_options :: Options
  bb_buffer :: bytes
  bb_restarts :: "u32 list"
  bb_counter :: int
  bb_finished :: bool
  bb_last_key :: bytes

definition new_BlockBuilder :: "Options \<Rightarrow> BlockBuilder option" where
  "new_BlockBuilder options =
     (if opt_block_restart_interval options \<ge> 1
      then Some \<lparr>bb_options = options, bb_buffer = [], bb_restarts = [0], bb_counter = 0,
                 bb_finished = False, bb_last_key = []\<rparr>
      else None)"

definition BlockBuilder_Reset :: "BlockBuilder \<Rightarrow> BlockBuilder" where
  "BlockBuilder_Reset b = b
     \<lparr>bb_buffer := [], bb_restarts := [0], bb_counter := 0, bb_finished := False, bb_last_key := []\<rparr>"

definition CurrentSizeEstimate :: "BlockBuilder \<Rightarrow> nat" where
  "CurrentSizeEstimate b = length (bb_buffer b) + length (bb_restarts b) * 4 + 4"

definition BlockBuilder_empty :: "BlockBuilder \<Rightarrow> bool" where
  "BlockBuilder_empty b \<longleftrightarrow> bb_buffer b = []"

definition BlockBuilder_Finish :: "BlockBuilder \<Rightarrow> Slice \<times> BlockBuilder" where
  "BlockBuilder_Finish b =
     (let buffer = fold (\<lambda>r buffer. PutFixed32 buffer r) (bb_restarts b) (bb_buffer b);
          buffer = PutFixed32 buffer (word_of_nat (length (bb_restarts b)))
      in (buffer, b\<lparr>bb_buffer := buffer, bb_finished := True\<rparr>))"

text \<open>The loop that counts the bytes two keys share.\<close>

fun shared_prefix :: "bytes \<Rightarrow> bytes \<Rightarrow> nat" where
  "shared_prefix (a # as) (b # bs) = (if a = b then Suc (shared_prefix as bs) else 0)"
| "shared_prefix _ _ = 0"

definition BlockBuilder_Add :: "Slice \<Rightarrow> Slice \<Rightarrow> BlockBuilder \<Rightarrow> BlockBuilder option" where
  "BlockBuilder_Add key value b =
     (let last_key_piece = bb_last_key b;
          interval = opt_block_restart_interval (bb_options b)
      in if bb_finished b \<or> bb_counter b > interval
            \<or> \<not> (bb_buffer b = [] \<or> Compare (opt_comparator (bb_options b)) key last_key_piece > 0)
         then None
         else
           let restart = \<not> bb_counter b < interval;
               shared = (if restart then 0 else shared_prefix last_key_piece key);
               b = (if restart
                    then b\<lparr>bb_restarts := bb_restarts b @ [word_of_nat (length (bb_buffer b))], bb_counter := 0\<rparr>
                    else b);
               non_shared = length key - shared;
               buffer = PutVarint32 (bb_buffer b) (word_of_nat shared);
               buffer = PutVarint32 buffer (word_of_nat non_shared);
               buffer = PutVarint32 buffer (word_of_nat (length value));
               buffer = buffer @ take non_shared (drop shared key);
               buffer = buffer @ value;
               last_key = take shared (bb_last_key b) @ take non_shared (drop shared key)
           in if last_key \<noteq> key then None
              else Some (b\<lparr>bb_buffer := buffer, bb_last_key := last_key, bb_counter := bb_counter b + 1\<rparr>))"

subsection \<open>The block\<close>

record Block =
  bl_data :: bytes
  bl_size :: nat
  bl_restart_offset :: u32
  bl_owned :: bool

text \<open>\<open>NumRestarts\<close> with its assertion, and the constructor from the contents. The offset is not
  set in the cases of an error.\<close>

definition NumRestarts :: "bytes \<Rightarrow> nat \<Rightarrow> u32 option" where
  "NumRestarts data sz = (if sz \<ge> 4 then DecodeFixed32 (drop (sz - 4) data) else None)"

definition new_Block :: "bytes \<Rightarrow> bool \<Rightarrow> Block option" where
  "new_Block data heap_allocated =
     (let sz = length data
      in if sz < 4 then Some \<lparr>bl_data = data, bl_size = 0, bl_restart_offset = 0, bl_owned = heap_allocated\<rparr>
         else Option.bind (NumRestarts data sz) (\<lambda>num_restarts.
           let max_restarts_allowed = (sz - 4) div 4
           in if unat num_restarts > max_restarts_allowed
              then Some \<lparr>bl_data = data, bl_size = 0, bl_restart_offset = 0, bl_owned = heap_allocated\<rparr>
              else Some \<lparr>bl_data = data, bl_size = sz,
                     bl_restart_offset = word_of_nat (sz - unat (1 + num_restarts) * 4),
                     bl_owned = heap_allocated\<rparr>))"

text \<open>\<open>DecodeEntry\<close>, on the bytes from \<open>p\<close> up to \<open>limit\<close>: the three lengths and the bytes from the
  key delta on. The sum of the last two lengths is one of 32 bits.\<close>

definition DecodeEntry :: "bytes \<Rightarrow> (u32 \<times> u32 \<times> u32 \<times> bytes) option" where
  "DecodeEntry p =
     (if length p < 3 then None
      else
        let shared = ucast (p ! 0) :: u32; non_shared = ucast (p ! 1) :: u32; value_length = ucast (p ! 2) :: u32
        in Option.bind
             (if (shared OR non_shared OR value_length) < 128 then Some (shared, non_shared, value_length, drop 3 p)
              else
                Option.bind (GetVarint32Ptr p) (\<lambda>(shared, p).
                Option.bind (GetVarint32Ptr p) (\<lambda>(non_shared, p).
                Option.bind (GetVarint32Ptr p) (\<lambda>(value_length, p).
                Some (shared, non_shared, value_length, p)))))
             (\<lambda>(shared, non_shared, value_length, p).
                if word_of_nat (length p) < non_shared + value_length then None
                else Some (shared, non_shared, value_length, p)))"

subsection \<open>The iterator\<close>

text \<open>\<open>bi_value\<close> is the offset and length of the slice \<open>value_\<close>, or \<open>None\<close> when it was cleared and does
  not refer to the block.\<close>

record BlockIter =
  bi_comparator :: Comparator
  bi_data :: bytes
  bi_restarts :: u32
  bi_num_restarts :: u32
  bi_current :: u32
  bi_restart_index :: u32
  bi_key :: bytes
  bi_value :: "(nat \<times> nat) option"
  bi_status :: Status

definition NextEntryOffset :: "BlockIter \<Rightarrow> u32 option" where
  "NextEntryOffset i = map_option (\<lambda>(off, len). word_of_nat (off + len)) (bi_value i)"

definition GetRestartPoint :: "BlockIter \<Rightarrow> u32 \<Rightarrow> u32 option" where
  "GetRestartPoint i index =
     (if index < bi_num_restarts i
      then DecodeFixed32 (drop (unat (bi_restarts i) + unat index * 4) (bi_data i)) else None)"

definition SeekToRestartPoint :: "u32 \<Rightarrow> BlockIter \<Rightarrow> BlockIter option" where
  "SeekToRestartPoint index i =
     Option.bind (GetRestartPoint i index) (\<lambda>off.
       Some (i\<lparr>bi_key := [], bi_restart_index := index, bi_value := Some (unat off, 0)\<rparr>))"

definition new_BlockIter :: "Comparator \<Rightarrow> bytes \<Rightarrow> u32 \<Rightarrow> u32 \<Rightarrow> BlockIter option" where
  "new_BlockIter cmp data restarts num_restarts =
     (if num_restarts > 0
      then Some \<lparr>bi_comparator = cmp, bi_data = data, bi_restarts = restarts,
                 bi_num_restarts = num_restarts, bi_current = restarts, bi_restart_index = num_restarts,
                 bi_key = [], bi_value = None, bi_status = Status_OK\<rparr>
      else None)"

definition BlockIter_Valid :: "BlockIter \<Rightarrow> bool" where
  "BlockIter_Valid i \<longleftrightarrow> bi_current i < bi_restarts i"

definition BlockIter_key :: "BlockIter \<Rightarrow> Slice option" where
  "BlockIter_key i = (if BlockIter_Valid i then Some (bi_key i) else None)"

text \<open>The bytes of a slice of the block, if they lie in it.\<close>

definition slice_of :: "bytes \<Rightarrow> nat \<Rightarrow> nat \<Rightarrow> bytes option" where
  "slice_of data off len = (if off + len \<le> length data then Some (take len (drop off data)) else None)"

definition BlockIter_value :: "BlockIter \<Rightarrow> Slice option" where
  "BlockIter_value i =
     (if BlockIter_Valid i then Option.bind (bi_value i) (\<lambda>(off, len). slice_of (bi_data i) off len) else None)"

definition BlockIter_CorruptionError :: "BlockIter \<Rightarrow> BlockIter" where
  "BlockIter_CorruptionError i = i
     \<lparr>bi_current := bi_restarts i, bi_restart_index := bi_num_restarts i,
      bi_status := Status_Corruption (lit ''bad entry in block'') [], bi_key := [], bi_value := None\<rparr>"

text \<open>The loop that advances the restart index, and the parsing of the next entry: the iterator and
  the result.\<close>

function advance_restart_index :: "BlockIter \<Rightarrow> BlockIter option" where
  "advance_restart_index i =
     (if unat (bi_restart_index i) + 1 < unat (bi_num_restarts i)
      then Option.bind (GetRestartPoint i (bi_restart_index i + 1)) (\<lambda>off.
             if off < bi_current i
             then advance_restart_index (i\<lparr>bi_restart_index := bi_restart_index i + 1\<rparr>) else Some i)
      else Some i)"
  by auto
termination
proof (relation "measure (\<lambda>i. unat (bi_num_restarts i) - unat (bi_restart_index i))", simp, goal_cases)
  case (1 i off)
  then have "unat (bi_restart_index i + 1) = unat (bi_restart_index i) + 1"
    using unat_less_exp [of "bi_num_restarts i"] by (simp add: unat_word_ariths)
  then show ?case using 1 by simp
qed

declare advance_restart_index.simps [simp del]

definition ParseNextKey :: "BlockIter \<Rightarrow> (bool \<times> BlockIter) option" where
  "ParseNextKey i =
     Option.bind (NextEntryOffset i) (\<lambda>current.
       let i = i\<lparr>bi_current := current\<rparr>
       in if current \<ge> bi_restarts i
          then Some (False, i\<lparr>bi_current := bi_restarts i, bi_restart_index := bi_num_restarts i\<rparr>)
          else
            (case DecodeEntry (drop (unat current) (take (unat (bi_restarts i)) (bi_data i))) of
               None \<Rightarrow> Some (False, BlockIter_CorruptionError i)
             | Some (shared, non_shared, value_length, p) \<Rightarrow>
                 if length (bi_key i) < unat shared then Some (False, BlockIter_CorruptionError i)
                 else
                   let off = unat (bi_restarts i) - length p
                   in Option.bind (slice_of (bi_data i) off (unat non_shared)) (\<lambda>delta.
                      map_option (Pair True) (advance_restart_index (i
                        \<lparr>bi_key := take (unat shared) (bi_key i) @ delta,
                         bi_value := Some (off + unat non_shared, unat value_length)\<rparr>)))))"

definition BlockIter_Next :: "BlockIter \<Rightarrow> BlockIter option" where
  "BlockIter_Next i = (if BlockIter_Valid i then map_option snd (ParseNextKey i) else None)"

text \<open>The loops of \<open>Prev\<close>: back to a restart point before the current entry, \<open>Some None\<close> if there is
  none, then forward to the entry that ends at or after \<open>original\<close>. The loops over entries have no
  bound in the code either.\<close>

fun restart_before :: "BlockIter \<Rightarrow> u32 \<Rightarrow> nat \<Rightarrow> nat option option" where
  "restart_before i original index =
     Option.bind (GetRestartPoint i (word_of_nat index)) (\<lambda>off.
       if off \<ge> original then (case index of 0 \<Rightarrow> Some None | Suc index \<Rightarrow> restart_before i original index)
       else Some (Some index))"

partial_function (option) parse_until :: "u32 \<Rightarrow> BlockIter \<Rightarrow> BlockIter option" where
  "parse_until original i =
     Option.bind (ParseNextKey i) (\<lambda>(ok, i).
       if \<not> ok then Some i
       else Option.bind (NextEntryOffset i) (\<lambda>off. if off < original then parse_until original i else Some i))"

definition BlockIter_Prev :: "BlockIter \<Rightarrow> BlockIter option" where
  "BlockIter_Prev i =
     (if \<not> BlockIter_Valid i then None
      else
        let original = bi_current i
        in Option.bind (restart_before i original (unat (bi_restart_index i))) (\<lambda>r.
           case r of
             None \<Rightarrow> Some (i\<lparr>bi_current := bi_restarts i, bi_restart_index := bi_num_restarts i\<rparr>)
           | Some index \<Rightarrow>
               Option.bind (SeekToRestartPoint (word_of_nat index) i) (parse_until original)))"

text \<open>The binary search: the restart point, or the corrupted iterator.\<close>

partial_function (option) search_restarts :: "Slice \<Rightarrow> BlockIter \<Rightarrow> u32 \<Rightarrow> u32 \<Rightarrow> (BlockIter + u32) option" where
  "search_restarts target i left right =
     (if left < right then
        let mid = (left + right + 1) div 2
        in Option.bind (GetRestartPoint i mid) (\<lambda>region_offset.
             (case DecodeEntry (drop (unat region_offset) (take (unat (bi_restarts i)) (bi_data i))) of
                None \<Rightarrow> Some (Inl (BlockIter_CorruptionError i))
              | Some (shared, non_shared, value_length, p) \<Rightarrow>
                  if shared \<noteq> 0 then Some (Inl (BlockIter_CorruptionError i))
                  else
                    Option.bind (slice_of (bi_data i) (unat (bi_restarts i) - length p) (unat non_shared)) (\<lambda>mid_key.
                      if Compare (bi_comparator i) mid_key target < 0
                      then search_restarts target i mid right
                      else search_restarts target i left (mid - 1))))
      else Some (Inr left))"

partial_function (option) parse_to_target :: "Slice \<Rightarrow> BlockIter \<Rightarrow> BlockIter option" where
  "parse_to_target target i =
     Option.bind (ParseNextKey i) (\<lambda>(ok, i).
       if \<not> ok then Some i
       else if Compare (bi_comparator i) (bi_key i) target \<ge> 0 then Some i
       else parse_to_target target i)"

definition BlockIter_Seek :: "Slice \<Rightarrow> BlockIter \<Rightarrow> BlockIter option" where
  "BlockIter_Seek target i =
     Option.bind (search_restarts target i 0 (bi_num_restarts i - 1)) (\<lambda>r.
       case r of
         Inl i \<Rightarrow> Some i
       | Inr left \<Rightarrow> Option.bind (SeekToRestartPoint left i) (parse_to_target target))"

definition BlockIter_SeekToFirst :: "BlockIter \<Rightarrow> BlockIter option" where
  "BlockIter_SeekToFirst i = Option.bind (SeekToRestartPoint 0 i) (\<lambda>i. map_option snd (ParseNextKey i))"

definition BlockIter_SeekToLast :: "BlockIter \<Rightarrow> BlockIter option" where
  "BlockIter_SeekToLast i =
     Option.bind (SeekToRestartPoint (bi_num_restarts i - 1) i) (parse_until (bi_restarts i))"

definition BlockIter_ops :: "BlockIter Iterator" where
  "BlockIter_ops =
     \<lparr>it_Valid = BlockIter_Valid, it_SeekToFirst = BlockIter_SeekToFirst,
      it_SeekToLast = BlockIter_SeekToLast, it_Seek = BlockIter_Seek, it_Next = BlockIter_Next,
      it_Prev = BlockIter_Prev, it_key = BlockIter_key, it_value = BlockIter_value,
      it_status = bi_status\<rparr>"

text \<open>The iterator of a block: an empty one with or without an error, or the one above.\<close>

definition Block_NewIterator :: "Comparator \<Rightarrow> Block \<Rightarrow> (EmptyIterator + BlockIter) option" where
  "Block_NewIterator cmp b =
     (if bl_size b < 4 then Some (Inl (NewErrorIterator (Status_Corruption (lit ''bad block contents'') [])))
      else Option.bind (NumRestarts (bl_data b) (bl_size b)) (\<lambda>num_restarts.
        if num_restarts = 0 then Some (Inl NewEmptyIterator)
        else map_option Inr (new_BlockIter cmp (bl_data b) (bl_restart_offset b) num_restarts)))"

end
