(* ===== verification/Block_Layout.thy ===== *)
theory Block_Layout
  imports Block
begin

text \<open>
  What a block looks like: the entries with the length of the prefix each shares with the one before,
  the positions of the restart points, and the bytes. The decoder of entries reads them back.
\<close>

subsection \<open>Entries\<close>

definition entry_bytes :: "nat \<times> Slice \<times> Slice \<Rightarrow> bytes" where
  "entry_bytes e = (case e of (s, k, v) \<Rightarrow>
     EncodeVarint32 (word_of_nat s) @ EncodeVarint32 (word_of_nat (length k - s))
     @ EncodeVarint32 (word_of_nat (length v)) @ drop s k @ v)"

lemma length_entry_bytes:
  "s \<le> length k \<Longrightarrow> length k - s + length v + 3 \<le> length (entry_bytes (s, k, v))"
proof -
  have "1 \<le> length (EncodeVarint32 w)" for w using length_EncodeVarint32_pos [of w] by linarith
  from this [of "word_of_nat s"] this [of "word_of_nat (length k - s)"] this [of "word_of_nat (length v)"]
  show ?thesis unfolding entry_bytes_def prod.case length_append length_drop by linarith
qed

lemma entry_bytes_not_Nil: "entry_bytes e \<noteq> []"
  using length_EncodeVarint32_pos [of "word_of_nat (fst e)"] by (cases e) (auto simp: entry_bytes_def)

lemma or_below_128:
  fixes a b :: u32
  assumes "a OR b < 128"
  shows "a < 128 \<and> b < 128"
proof -
  have o: "unat (a OR b) < 2 ^ 7" using assms by (simp add: word_less_nat_alt)
  have "n < 7" if "bit a n \<or> bit b n" for n using bit_bound [OF o, of n] that by (simp add: bit_or_iff)
  then have "take_bit 7 a = a" "take_bit 7 b = b"
    by (auto simp: bit_eq_iff [where 'a = "32 word"] bit_take_bit_iff)
  then have "unat a < 2 ^ 7" "unat b < 2 ^ 7"
    by (metis take_bit_nat_less_exp unsigned_take_bit_eq)+
  then show ?thesis by (simp add: word_less_nat_alt)
qed

lemma one_byte_varint:
  assumes "(ucast b :: u32) < 128"
  shows "GetVarint32Ptr (b # p) = Some (ucast b, p)"
proof -
  have "unat (ucast b :: u32) < 2 ^ 7" using assms by (simp add: word_less_nat_alt)
  from bit_bound [OF this] have "\<not> bit (ucast b :: u32) 7" by blast
  then have "\<not> bit b 7" by (simp add: bit_ucast_iff)
  then show ?thesis by (simp add: byte_hi_iff)
qed

text \<open>The fast path of \<open>DecodeEntry\<close> gives what the three varints give.\<close>

lemma DecodeEntry_slow:
  "3 \<le> length p \<Longrightarrow> DecodeEntry p =
     Option.bind (GetVarint32Ptr p) (\<lambda>(shared, p).
     Option.bind (GetVarint32Ptr p) (\<lambda>(non_shared, p).
     Option.bind (GetVarint32Ptr p) (\<lambda>(value_length, p).
       if word_of_nat (length p) < non_shared + value_length then None
       else Some (shared, non_shared, value_length, p))))"
proof -
  assume "3 \<le> length p"
  then obtain a b c q where p: "p = a # b # c # q"
    by (metis Suc_le_length_iff numeral_3_eq_3)
  show ?thesis
  proof (cases "(ucast a :: u32) OR (ucast b OR ucast c) < 128")
    case True
    then have "(ucast a :: u32) < 128" "(ucast b :: u32) < 128" "(ucast c :: u32) < 128"
      using or_below_128 by blast+
    then show ?thesis
      using True by (simp add: DecodeEntry_def p one_byte_varint or.assoc del: GetVarint32Ptr.simps)
  next
    case False
    then show ?thesis
      by (simp add: DecodeEntry_def p or.assoc case_prod_beta split: Option.bind_split del: GetVarint32Ptr.simps)
  qed
qed

lemma DecodeEntry_entry:
  assumes "s \<le> length k" "length k - s + length v + length rest < 2 ^ 32"
  shows "DecodeEntry (entry_bytes (s, k, v) @ rest)
    = Some (word_of_nat s, word_of_nat (length k - s), word_of_nat (length v), drop s k @ v @ rest)"
proof -
  have "(word_of_nat (length k - s) + word_of_nat (length v) :: u32) = word_of_nat (length k - s + length v)"
    by simp
  moreover have "\<not> (word_of_nat (length (drop s k @ v @ rest)) :: u32) < word_of_nat (length k - s + length v)"
  proof -
    have "length (drop s k @ v @ rest) = length k - s + length v + length rest" by simp
    then show ?thesis
      using assms(2) by (simp only: word_less_nat_alt unat_of_nat_u32 not_less add_lessD1)
  qed
  moreover have "3 \<le> length (entry_bytes (s, k, v) @ rest)"
    using length_entry_bytes [OF assms(1), of v] by simp
  ultimately show ?thesis
    by (simp add: DecodeEntry_slow) (simp add: entry_bytes_def)
qed

subsection \<open>Blocks\<close>

type_synonym block_layout = "(nat \<times> Slice \<times> Slice) list"

text \<open>Where an entry begins.\<close>

definition offset_of :: "block_layout \<Rightarrow> nat \<Rightarrow> nat" where
  "offset_of ls n = length (concat (map entry_bytes (take n ls)))"

definition block_buffer :: "block_layout \<Rightarrow> bytes" where
  "block_buffer ls = concat (map entry_bytes ls)"

definition restart_points :: "block_layout \<Rightarrow> nat list \<Rightarrow> u32 list" where
  "restart_points ls rs = map (\<lambda>r. word_of_nat (offset_of ls r)) rs"

definition block_bytes :: "block_layout \<Rightarrow> nat list \<Rightarrow> bytes" where
  "block_bytes ls rs = block_buffer ls @ concat (map EncodeFixed32 (restart_points ls rs))
     @ EncodeFixed32 (word_of_nat (length rs))"

definition shared_of :: "block_layout \<Rightarrow> nat \<Rightarrow> nat" where "shared_of ls n = fst (ls ! n)"
definition key_of :: "block_layout \<Rightarrow> nat \<Rightarrow> Slice" where "key_of ls n = fst (snd (ls ! n))"
definition value_of :: "block_layout \<Rightarrow> nat \<Rightarrow> Slice" where "value_of ls n = snd (snd (ls ! n))"

text \<open>Every entry shares a prefix with the one before; the restart points are increasing, start with
  the first entry and share nothing.\<close>

definition layout_wf :: "block_layout \<Rightarrow> nat list \<Rightarrow> bool" where
  "layout_wf ls rs \<longleftrightarrow>
     (\<forall>n < length ls. shared_of ls n \<le> length (key_of ls n)
        \<and> (shared_of ls n \<noteq> 0 \<longrightarrow> 0 < n \<and> shared_of ls n \<le> length (key_of ls (n - 1))
             \<and> take (shared_of ls n) (key_of ls (n - 1)) = take (shared_of ls n) (key_of ls n)))
     \<and> rs \<noteq> [] \<and> hd rs = 0 \<and> sorted_wrt (<) rs
     \<and> (\<forall>r \<in> set rs. r < length ls \<and> shared_of ls r = 0 \<or> ls = [] \<and> r = 0)"

lemma entry_at: "n < length ls \<Longrightarrow> ls ! n = (shared_of ls n, key_of ls n, value_of ls n)"
  by (simp add: shared_of_def key_of_def value_of_def)

lemma offset_of_simps:
  "offset_of ls 0 = 0" "n < length ls \<Longrightarrow> offset_of ls (Suc n) = offset_of ls n + length (entry_bytes (ls ! n))"
  "offset_of ls (length ls) = length (block_buffer ls)"
  by (simp_all add: offset_of_def block_buffer_def take_Suc_conv_app_nth)

lemma offset_of_mono: "m \<le> n \<Longrightarrow> offset_of ls m \<le> offset_of ls n"
proof -
  assume "m \<le> n"
  then have "take n ls = take m ls @ take (n - m) (drop m ls)" by (metis le_add_diff_inverse take_add)
  then show ?thesis by (simp add: offset_of_def)
qed

lemma offset_of_less:
  assumes "layout_wf ls rs" "m < n" "n \<le> length ls"
  shows "offset_of ls m < offset_of ls n"
proof -
  have m: "m < length ls" using assms by simp
  have "0 < length (entry_bytes (ls ! m))" using entry_bytes_not_Nil by blast
  then show ?thesis
    using offset_of_mono [of "Suc m" n ls] assms(2) offset_of_simps(2) [OF m] by linarith
qed

lemma offset_of_less_iff:
  assumes "layout_wf ls rs" "m \<le> length ls" "n \<le> length ls"
  shows "offset_of ls m < offset_of ls n \<longleftrightarrow> m < n"
  using offset_of_less [OF assms(1), of m n] offset_of_mono [of n m ls] assms(2,3) by (meson not_less)

lemma block_split:
  "n < length ls \<Longrightarrow> drop (offset_of ls n) (block_buffer ls)
    = entry_bytes (ls ! n) @ drop (offset_of ls (Suc n)) (block_buffer ls)"
proof -
  assume n: "n < length ls"
  have "block_buffer ls = concat (map entry_bytes (take n ls)) @ entry_bytes (ls ! n)
      @ concat (map entry_bytes (drop (Suc n) ls))"
    by (subst id_take_nth_drop [OF n]) (simp add: block_buffer_def)
  then show ?thesis
    unfolding offset_of_simps(2) [OF n] by (simp add: offset_of_def)
qed

lemma length_block_bytes:
  "length (block_bytes ls rs) = length (block_buffer ls) + 4 * length rs + 4"
  unfolding block_bytes_def by (simp add: restart_points_def del: map_map)

lemma take_block_buffer: "take (length (block_buffer ls)) (block_bytes ls rs) = block_buffer ls"
  by (simp add: block_bytes_def)

lemma offset_bound: "n \<le> length ls \<Longrightarrow> offset_of ls n \<le> length (block_buffer ls)"
  using offset_of_mono [of n "length ls" ls] by (simp add: offset_of_simps(3))

lemma restart_le: "layout_wf ls rs \<Longrightarrow> j < length rs \<Longrightarrow> rs ! j \<le> length ls"
  unfolding layout_wf_def using nth_mem [of j rs] by fastforce

lemma restart_hd: "layout_wf ls rs \<Longrightarrow> rs ! 0 = 0"
  unfolding layout_wf_def by (metis hd_conv_nth)

lemma restart_less: "layout_wf ls rs \<Longrightarrow> i < j \<Longrightarrow> j < length rs \<Longrightarrow> rs ! i < rs ! j"
  by (simp add: layout_wf_def sorted_wrt_nth_less)

text \<open>Reading an entry of the block at its offset.\<close>

lemma DecodeEntry_at:
  assumes "layout_wf ls rs" "n < length ls" "length (block_bytes ls rs) < 2 ^ 32"
  shows "DecodeEntry (drop (offset_of ls n) (block_buffer ls))
    = Some (word_of_nat (shared_of ls n), word_of_nat (length (key_of ls n) - shared_of ls n),
        word_of_nat (length (value_of ls n)),
        drop (shared_of ls n) (key_of ls n) @ value_of ls n @ drop (offset_of ls (Suc n)) (block_buffer ls))"
proof -
  let ?k = "key_of ls n" and ?s = "shared_of ls n" and ?v = "value_of ls n"
  let ?rest = "drop (offset_of ls (Suc n)) (block_buffer ls)"
  have s: "?s \<le> length ?k" using assms(1,2) by (simp add: layout_wf_def)
  have "length (drop (offset_of ls n) (block_buffer ls)) < 2 ^ 32"
    using assms(3) by (simp add: length_block_bytes)
  then have "length (entry_bytes (?s, ?k, ?v)) + length ?rest < 2 ^ 32"
    unfolding block_split [OF assms(2)] entry_at [OF assms(2)] length_append .
  then have "length ?k - ?s + length ?v + length ?rest < 2 ^ 32"
    using length_entry_bytes [OF s, of ?v] by linarith
  then show ?thesis
    unfolding block_split [OF assms(2)] entry_at [OF assms(2)] by (rule DecodeEntry_entry [OF s])
qed

text \<open>No key is longer than the entries up to its own.\<close>

lemma key_length_bound:
  "layout_wf ls rs \<Longrightarrow> n < length ls \<Longrightarrow> length (key_of ls n) + length (value_of ls n) \<le> offset_of ls (Suc n)"
proof (induction n)
  case 0
  then have "shared_of ls 0 = 0" by (auto simp: layout_wf_def)
  then show ?case
    using length_entry_bytes [of 0 "key_of ls 0" "value_of ls 0"] 0
    by (simp add: offset_of_simps entry_at)
next
  case (Suc n)
  have s: "shared_of ls (Suc n) \<le> length (key_of ls (Suc n))" "shared_of ls (Suc n) \<le> length (key_of ls n)"
    using Suc.prems by (auto simp: layout_wf_def)
  then show ?case
    using Suc length_entry_bytes [OF s(1), of "value_of ls (Suc n)"]
    by (simp add: offset_of_simps(2) entry_at)
qed

text \<open>The arrays of restart points.\<close>

lemma DecodeFixed32_restart:
  assumes "j < length rs"
  shows "DecodeFixed32 (drop (length (block_buffer ls) + j * 4) (block_bytes ls rs))
    = Some (word_of_nat (offset_of ls (rs ! j)))"
proof -
  have "drop (length (block_buffer ls) + j * 4) (block_bytes ls rs)
      = drop (4 * j) (concat (map EncodeFixed32 (restart_points ls rs)) @ EncodeFixed32 (word_of_nat (length rs)))"
    by (simp add: block_bytes_def mult.commute)
  moreover have "j < length (restart_points ls rs)" using assms by (simp add: restart_points_def)
  ultimately show ?thesis
    using DecodeFixed32_array [of j "restart_points ls rs"] assms by (simp add: restart_points_def)
qed

lemma NumRestarts_block: "NumRestarts (block_bytes ls rs) (length (block_bytes ls rs)) = Some (word_of_nat (length rs))"
proof -
  have "drop (length (block_bytes ls rs) - 4) (block_bytes ls rs) = EncodeFixed32 (word_of_nat (length rs))"
    unfolding length_block_bytes by (simp add: block_bytes_def restart_points_def del: map_map)
  then show ?thesis by (simp add: NumRestarts_def length_block_bytes)
qed

end
