(* ===== verification/Block_Correct.thy ===== *)
theory Block_Correct
  imports Block_Layout
begin

text \<open>
  The iterator of a block shows the entries of its layout: it meets the contract of the locale
  \<open>iterator\<close>, for every comparator that meets the contract of comparators; and the builder makes a
  block with such a layout from the entries it is given.
\<close>

lemma drop_suffix:
  assumes "drop n b = pre @ p"
  shows "drop (length b - length p) b = p"
proof -
  have "b = (take n b @ pre) @ p" using append_take_drop_id [of n b] assms by simp
  then show ?thesis by (metis append_eq_conv_conj diff_add_inverse2 length_append)
qed

subsection \<open>Where the iterator is\<close>

definition block_static :: "Comparator \<Rightarrow> block_layout \<Rightarrow> nat list \<Rightarrow> BlockIter \<Rightarrow> bool" where
  "block_static cmp ls rs i \<longleftrightarrow>
     layout_wf ls rs \<and> length (block_bytes ls rs) < 2 ^ 32
     \<and> bi_comparator i = cmp \<and> bi_data i = block_bytes ls rs
     \<and> bi_restarts i = word_of_nat (length (block_buffer ls))
     \<and> bi_num_restarts i = word_of_nat (length rs) \<and> bi_status i = Status_OK"

text \<open>Ready to parse entry \<open>n\<close>.\<close>

definition iter_before :: "Comparator \<Rightarrow> block_layout \<Rightarrow> nat list \<Rightarrow> nat \<Rightarrow> BlockIter \<Rightarrow> bool" where
  "iter_before cmp ls rs n i \<longleftrightarrow>
     block_static cmp ls rs i \<and> n \<le> length ls
     \<and> (\<exists>p l. bi_value i = Some (p, l) \<and> p + l = offset_of ls n)
     \<and> unat (bi_restart_index i) < length rs \<and> rs ! unat (bi_restart_index i) \<le> n
     \<and> (n < length ls \<longrightarrow> shared_of ls n \<le> length (bi_key i)
          \<and> take (shared_of ls n) (bi_key i) = take (shared_of ls n) (key_of ls n))"

text \<open>At entry \<open>n\<close>, or past the last one.\<close>

definition iter_at :: "Comparator \<Rightarrow> block_layout \<Rightarrow> nat list \<Rightarrow> nat \<Rightarrow> BlockIter \<Rightarrow> bool" where
  "iter_at cmp ls rs n i \<longleftrightarrow>
     block_static cmp ls rs i
     \<and> (if n < length ls
        then bi_current i = word_of_nat (offset_of ls n) \<and> bi_key i = key_of ls n
          \<and> (\<exists>p. bi_value i = Some (p, length (value_of ls n)) \<and> p + length (value_of ls n) = offset_of ls (Suc n))
          \<and> unat (bi_restart_index i) < length rs \<and> rs ! unat (bi_restart_index i) \<le> n
        else n = length ls \<and> bi_current i = bi_restarts i)"

lemma static_sizes:
  assumes "block_static cmp ls rs i"
  shows "unat (bi_restarts i) = length (block_buffer ls)" "unat (bi_num_restarts i) = length rs"
    "n \<le> length ls \<Longrightarrow> unat (word_of_nat (offset_of ls n) :: u32) = offset_of ls n"
    "take (unat (bi_restarts i)) (bi_data i) = block_buffer ls"
    "0 < length rs"
proof -
  have l: "length (block_buffer ls) + 4 * length rs + 4 < 2 ^ 32"
    using assms by (simp add: block_static_def length_block_bytes)
  show r: "unat (bi_restarts i) = length (block_buffer ls)" "unat (bi_num_restarts i) = length rs"
    using assms l by (simp_all add: block_static_def unat_of_nat_u32)
  show "n \<le> length ls \<Longrightarrow> unat (word_of_nat (offset_of ls n) :: u32) = offset_of ls n"
    using offset_bound [of n ls] l by (simp add: unat_of_nat_u32)
  show "take (unat (bi_restarts i)) (bi_data i) = block_buffer ls"
    unfolding r using assms take_block_buffer [of ls rs] by (simp add: block_static_def)
  show "0 < length rs" using assms by (simp add: block_static_def layout_wf_def)
qed

lemma static_update [simp]:
  "block_static cmp ls rs (i\<lparr>bi_current := c\<rparr>) = block_static cmp ls rs i"
  "block_static cmp ls rs (i\<lparr>bi_restart_index := c\<rparr>) = block_static cmp ls rs i"
  "block_static cmp ls rs (i\<lparr>bi_key := k\<rparr>) = block_static cmp ls rs i"
  "block_static cmp ls rs (i\<lparr>bi_value := v\<rparr>) = block_static cmp ls rs i"
  by (simp_all add: block_static_def)

lemma GetRestartPoint_static:
  assumes "block_static cmp ls rs i" "unat j < length rs"
  shows "GetRestartPoint i j = Some (word_of_nat (offset_of ls (rs ! unat j)))"
  using DecodeFixed32_restart [OF assms(2), of ls] assms static_sizes(1,2) [OF assms(1)]
  by (simp add: GetRestartPoint_def block_static_def word_less_nat_alt)

lemma SeekToRestartPoint_before:
  assumes "block_static cmp ls rs i" "unat j < length rs"
  shows "\<exists>i'. SeekToRestartPoint j i = Some i' \<and> iter_before cmp ls rs (rs ! unat j) i'"
proof -
  have wf: "layout_wf ls rs" using assms(1) by (simp add: block_static_def)
  have le: "rs ! unat j \<le> length ls" by (rule restart_le [OF wf assms(2)])
  have "rs ! unat j < length ls \<Longrightarrow> shared_of ls (rs ! unat j) = 0"
  proof -
    have "\<forall>r \<in> set rs. r < length ls \<and> shared_of ls r = 0 \<or> ls = [] \<and> r = 0" using wf by (simp add: layout_wf_def)
    with nth_mem [OF assms(2)] show "rs ! unat j < length ls \<Longrightarrow> shared_of ls (rs ! unat j) = 0" by fastforce
  qed
  moreover have "SeekToRestartPoint j i
      = Some (i\<lparr>bi_key := [], bi_restart_index := j, bi_value := Some (offset_of ls (rs ! unat j), 0)\<rparr>)"
    by (simp only: SeekToRestartPoint_def GetRestartPoint_static [OF assms] Option.bind.simps
        static_sizes(3) [OF assms(1) le])
  ultimately show ?thesis
    using assms le by (auto simp: iter_before_def)
qed

text \<open>The restart index moves on, but not beyond the entry.\<close>

lemma advance_restart_index_ok:
  "block_static cmp ls rs i \<Longrightarrow> unat (bi_restart_index i) < length rs \<Longrightarrow> n \<le> length ls \<Longrightarrow>
   bi_current i = word_of_nat (offset_of ls n) \<Longrightarrow> rs ! unat (bi_restart_index i) \<le> n \<Longrightarrow>
   \<exists>r. advance_restart_index i = Some (i\<lparr>bi_restart_index := r\<rparr>) \<and> unat r < length rs \<and> rs ! unat r \<le> n"
proof (induction i rule: advance_restart_index.induct)
  case (1 i)
  note st = static_sizes [OF 1(2)]
  have wf: "layout_wf ls rs" using 1(2) by (simp add: block_static_def)
  show ?case
  proof (cases "unat (bi_restart_index i) + 1 < length rs")
    case False
    then show ?thesis
      using 1(3,6) st(2) by (subst advance_restart_index.simps) (auto intro!: exI [of _ "bi_restart_index i"])
  next
    case True
    let ?j = "bi_restart_index i + 1"
    have j: "unat ?j = unat (bi_restart_index i) + 1"
      using True st(2) unat_less_exp [of "bi_num_restarts i"] by (simp add: unat_word_ariths)
    have g: "GetRestartPoint i ?j = Some (word_of_nat (offset_of ls (rs ! unat ?j)))"
      using True j by (intro GetRestartPoint_static [OF 1(2)]) simp
    have le: "rs ! unat ?j \<le> length ls" using True j restart_le [OF wf, of "unat ?j"] by simp
    show ?thesis
    proof (cases "word_of_nat (offset_of ls (rs ! unat ?j)) < bi_current i")
      case False
      then show ?thesis
        using 1(3,6) st(2) g True
        by (subst advance_restart_index.simps) (auto intro!: exI [of _ "bi_restart_index i"])
    next
      case less: True
      then have "offset_of ls (rs ! unat ?j) < offset_of ls n"
        using 1(4,5) st(3) le by (simp add: word_less_nat_alt)
      then have "rs ! unat ?j < n"
        using offset_of_less_iff [OF wf le 1(4)] by simp
      then have "\<exists>r. advance_restart_index (i\<lparr>bi_restart_index := ?j\<rparr>)
          = Some (i\<lparr>bi_restart_index := ?j\<rparr>\<lparr>bi_restart_index := r\<rparr>) \<and> unat r < length rs \<and> rs ! unat r \<le> n"
        using 1 g less True j st(2) by (intro 1(1)) simp_all
      then show ?thesis
        using g less True st(2) by (subst advance_restart_index.simps) simp
    qed
  qed
qed

lemma drop_value_at:
  assumes "layout_wf ls rs" "n < length ls"
  shows "take (length (value_of ls n)) (drop (offset_of ls (Suc n) - length (value_of ls n)) (block_bytes ls rs)) = value_of ls n"
    "length (value_of ls n) \<le> offset_of ls (Suc n)"
proof -
  let ?k = "key_of ls n" and ?s = "shared_of ls n" and ?v = "value_of ls n"
  obtain pre where pre: "entry_bytes (ls ! n) = pre @ ?v"
    by (auto simp: entry_at [OF assms(2)] entry_bytes_def)
  have "drop (offset_of ls n) (block_bytes ls rs) = pre @ ?v @ drop (offset_of ls (Suc n)) (block_bytes ls rs)"
    using block_split [OF assms(2)] offset_bound [of n ls] offset_bound [of "Suc n" ls] assms(2)
    by (simp add: block_bytes_def pre)
  then have "drop (length pre) (drop (offset_of ls n) (block_bytes ls rs))
      = ?v @ drop (offset_of ls (Suc n)) (block_bytes ls rs)"
    by simp
  moreover have o: "offset_of ls (Suc n) = offset_of ls n + length pre + length ?v"
    by (simp add: offset_of_simps(2) [OF assms(2)] pre)
  ultimately show "take (length ?v) (drop (offset_of ls (Suc n) - length ?v) (block_bytes ls rs)) = ?v"
    by (simp add: add.commute)
  show "length ?v \<le> offset_of ls (Suc n)" using o by simp
qed

text \<open>Parsing the next entry.\<close>

lemma ParseNextKey_entry:
  assumes "iter_before cmp ls rs n i" "n < length ls"
  shows "\<exists>i'. ParseNextKey i = Some (True, i') \<and> iter_at cmp ls rs n i'"
proof -
  let ?k = "key_of ls n" and ?s = "shared_of ls n" and ?v = "value_of ls n"
  define p where "p = drop ?s ?k @ ?v @ drop (offset_of ls (Suc n)) (block_buffer ls)"
  define off where "off = length (block_buffer ls) - length p"
  have st: "block_static cmp ls rs i" and wf: "layout_wf ls rs" and small: "length (block_bytes ls rs) < 2 ^ 32"
    using assms(1) by (simp_all add: iter_before_def block_static_def)
  note sizes = static_sizes [OF st]
  have n: "n \<le> length ls" "Suc n \<le> length ls" using assms(2) by simp_all
  define j where "j = i\<lparr>bi_current := word_of_nat (offset_of ls n)\<rparr>"
  have cur: "NextEntryOffset i = Some (word_of_nat (offset_of ls n))"
    using assms(1) by (auto simp: iter_before_def NextEntryOffset_def simp del: of_nat_add)
  have lt: "\<not> word_of_nat (offset_of ls n) \<ge> bi_restarts i"
    using offset_of_less [OF wf assms(2) order_refl] sizes(1) sizes(3) [OF n(1)]
    by (simp add: word_le_nat_alt offset_of_simps(3))
  have s: "?s \<le> length ?k" using wf assms(2) by (simp add: layout_wf_def)
  have b: "offset_of ls (Suc n) \<le> length (block_buffer ls)" by (rule offset_bound [OF n(2)])
  have fits: "length ?k + length ?v < 2 ^ 32" "length (block_buffer ls) < 2 ^ 32"
    using key_length_bound [OF wf assms(2)] b small by (simp_all add: length_block_bytes)
  have lens: "unat (word_of_nat ?s :: u32) = ?s" "unat (word_of_nat (length ?k - ?s) :: u32) = length ?k - ?s"
    "unat (word_of_nat (length ?v) :: u32) = length ?v"
    using fits s by (simp_all add: unat_of_nat_u32 del: of_nat_diff)
  have dec: "DecodeEntry (drop (offset_of ls n) (block_buffer ls))
      = Some (word_of_nat ?s, word_of_nat (length ?k - ?s), word_of_nat (length ?v), p)"
    unfolding p_def by (rule DecodeEntry_at [OF wf assms(2) small])
  have lp: "length p = length ?k - ?s + length ?v + (length (block_buffer ls) - offset_of ls (Suc n))"
    by (simp add: p_def)
  have "length p \<le> length (block_buffer ls)"
    using arg_cong [OF block_split [OF assms(2)], of length] length_entry_bytes [OF s, of ?v]
    by (simp add: lp entry_at [OF assms(2), symmetric])
  then have off: "off + (length ?k - ?s) + length ?v = offset_of ls (Suc n)"
    using lp b by (simp add: off_def)
  obtain pre where "entry_bytes (ls ! n) = pre @ drop ?s ?k @ ?v"
    by (auto simp: entry_at [OF assms(2)] entry_bytes_def)
  then have "drop (offset_of ls n) (block_buffer ls) = pre @ p"
    unfolding block_split [OF assms(2)] by (simp add: p_def)
  then have dp: "drop off (block_buffer ls) = p"
    unfolding off_def by (rule drop_suffix)
  have sl: "slice_of (bi_data i) off (length ?k - ?s) = Some (drop ?s ?k)"
  proof -
    have "off \<le> length (block_buffer ls)" by (simp add: off_def)
    then have "drop off (bi_data i) = p @ drop (length (block_buffer ls)) (block_bytes ls rs)"
      using st dp by (simp add: block_static_def block_bytes_def)
    moreover have "off + (length ?k - ?s) \<le> length (bi_data i)"
      using st off b by (simp add: block_static_def length_block_bytes)
    ultimately show ?thesis by (simp add: slice_of_def p_def)
  qed
  have key: "\<not> length (bi_key i) < ?s" "take ?s (bi_key i) @ drop ?s ?k = ?k"
    using assms by (auto simp: iter_before_def)
  define i1 where "i1 = j\<lparr>bi_key := ?k, bi_value := Some (off + (length ?k - ?s), length ?v)\<rparr>"
  have "ParseNextKey i = map_option (Pair True) (advance_restart_index i1)"
    using key sizes(4) [unfolded sizes(1)]
    by (simp add: ParseNextKey_def Let_def cur lt sizes(1-3) dec lens off_def [symmetric] sl i1_def j_def n del: of_nat_diff)
  moreover obtain r where "advance_restart_index i1 = Some (i1\<lparr>bi_restart_index := r\<rparr>)"
    "unat r < length rs" "rs ! unat r \<le> n"
    using advance_restart_index_ok [of cmp ls rs i1 n] st assms(1) n by (auto simp: i1_def j_def iter_before_def)
  ultimately show ?thesis
    using st off assms(2) by (simp add: iter_at_def i1_def j_def)
qed

lemma ParseNextKey_end:
  assumes "iter_before cmp ls rs (length ls) i"
  shows "\<exists>i'. ParseNextKey i = Some (False, i') \<and> iter_at cmp ls rs (length ls) i'"
proof -
  have st: "block_static cmp ls rs i" using assms by (simp add: iter_before_def)
  have "NextEntryOffset i = Some (word_of_nat (offset_of ls (length ls)))"
    using assms by (auto simp: iter_before_def NextEntryOffset_def simp del: of_nat_add)
  then have "NextEntryOffset i = Some (bi_restarts i)"
    using st by (simp add: block_static_def offset_of_simps(3))
  then show ?thesis using st by (simp add: ParseNextKey_def iter_at_def)
qed

lemma at_before_next:
  assumes "iter_at cmp ls rs n i" "n < length ls"
  shows "iter_before cmp ls rs (Suc n) i"
proof -
  have "layout_wf ls rs" using assms by (simp add: iter_at_def block_static_def)
  then have "Suc n < length ls \<Longrightarrow> shared_of ls (Suc n) \<le> length (key_of ls n)
      \<and> take (shared_of ls (Suc n)) (key_of ls n) = take (shared_of ls (Suc n)) (key_of ls (Suc n))"
    by (cases "shared_of ls (Suc n) = 0") (auto simp: layout_wf_def)
  then show ?thesis using assms by (auto simp: iter_at_def iter_before_def)
qed

subsection \<open>The loops\<close>

lemma at_past_end: "iter_at cmp ls rs (length ls) i \<longleftrightarrow> block_static cmp ls rs i \<and> bi_current i = bi_restarts i"
  by (simp add: iter_at_def)

lemma at_static: "iter_at cmp ls rs n i \<Longrightarrow> block_static cmp ls rs i"
  by (simp add: iter_at_def)

lemma at_next_offset:
  assumes "iter_at cmp ls rs n i" "n < length ls"
  shows "NextEntryOffset i = Some (word_of_nat (offset_of ls (Suc n)))"
  using assms by (auto simp: iter_at_def NextEntryOffset_def simp del: of_nat_add)

lemma at_valid:
  assumes "iter_at cmp ls rs n i"
  shows "BlockIter_Valid i \<longleftrightarrow> n < length ls" "n \<le> length ls"
proof -
  have st: "block_static cmp ls rs i" and wf: "layout_wf ls rs"
    using assms by (simp_all add: iter_at_def block_static_def)
  show "n \<le> length ls" using assms by (auto simp: iter_at_def split: if_splits)
  show "BlockIter_Valid i \<longleftrightarrow> n < length ls"
  proof (cases "n < length ls")
    case True
    then have "offset_of ls n < length (block_buffer ls)"
      using offset_of_less [OF wf True] by (simp add: offset_of_simps(3))
    then show ?thesis
      using assms True static_sizes(1,3) [OF st] by (simp add: iter_at_def BlockIter_Valid_def word_less_nat_alt)
  next
    case False
    then show ?thesis using assms by (simp add: iter_at_def BlockIter_Valid_def)
  qed
qed

lemma parse_until_entry:
  "iter_before cmp ls rs n i \<Longrightarrow> n < m \<Longrightarrow> m \<le> length ls \<Longrightarrow>
   \<exists>i'. parse_until (word_of_nat (offset_of ls m)) i = Some i' \<and> iter_at cmp ls rs (m - 1) i'"
proof (induction "m - n" arbitrary: n i)
  case (Suc d)
  have n: "n < length ls" "Suc n \<le> length ls" using Suc.prems by simp_all
  obtain i1 where i1: "ParseNextKey i = Some (True, i1)" "iter_at cmp ls rs n i1"
    using ParseNextKey_entry [OF Suc.prems(1) n(1)] by blast
  have st: "block_static cmp ls rs i1" and wf: "layout_wf ls rs"
    using i1(2) by (simp_all add: iter_at_def block_static_def)
  have nx: "NextEntryOffset i1 = Some (word_of_nat (offset_of ls (Suc n)))"
    by (rule at_next_offset [OF i1(2) n(1)])
  have less: "word_of_nat (offset_of ls (Suc n)) < (word_of_nat (offset_of ls m) :: u32) \<longleftrightarrow> Suc n < m"
    using offset_of_less_iff [OF wf n(2) Suc.prems(3)] static_sizes(3) [OF st] n Suc.prems(3)
    by (simp add: word_less_nat_alt)
  show ?case
  proof (cases "Suc n < m")
    case True
    then show ?thesis
      using Suc.hyps(1) [OF _ at_before_next [OF i1(2) n(1)] True Suc.prems(3)] Suc.hyps(2) nx less i1(1)
      by (subst parse_until.simps) simp
  next
    case False
    then have "m = Suc n" using Suc.prems by simp
    then show ?thesis using nx less i1 by (subst parse_until.simps) simp
  qed
qed simp

lemma restart_before_entry:
  assumes "block_static cmp ls rs i" "0 < n" "n \<le> length ls" "j < length rs"
  shows "\<exists>k. restart_before i (word_of_nat (offset_of ls n)) j = Some (Some k) \<and> k < length rs \<and> rs ! k < n"
  using assms(4)
proof (induction j)
  case 0
  have wf: "layout_wf ls rs" using assms(1) by (simp add: block_static_def)
  have "offset_of ls 0 < offset_of ls n" by (rule offset_of_less [OF wf assms(2,3)])
  then have "\<not> (word_of_nat (offset_of ls n) :: u32) \<le> word_of_nat (offset_of ls (rs ! 0))"
    using static_sizes(3) [OF assms(1), of n] assms(3) restart_hd [OF wf]
    by (simp add: word_le_nat_alt offset_of_simps(1))
  then show ?case
    using GetRestartPoint_static [OF assms(1), of 0] 0 restart_hd [OF wf] assms(2) by simp
next
  case (Suc j)
  have wf: "layout_wf ls rs" using assms(1) by (simp add: block_static_def)
  have j: "unat (word_of_nat (Suc j) :: u32) = Suc j"
    using Suc.prems static_sizes(2) [OF assms(1)] unat_less_exp [of "bi_num_restarts i"]
    by (simp add: unat_of_nat_u32 del: of_nat_Suc)
  have g: "GetRestartPoint i (word_of_nat (Suc j)) = Some (word_of_nat (offset_of ls (rs ! Suc j)))"
    using GetRestartPoint_static [OF assms(1), of "word_of_nat (Suc j)"] Suc.prems j by (simp del: of_nat_Suc)
  have le: "rs ! Suc j \<le> length ls" by (rule restart_le [OF wf Suc.prems])
  have "word_of_nat (offset_of ls n) \<le> (word_of_nat (offset_of ls (rs ! Suc j)) :: u32) \<longleftrightarrow> n \<le> rs ! Suc j"
    using static_sizes(3) [OF assms(1)] assms(3) le offset_of_less_iff [OF wf le assms(3)]
    by (simp add: word_le_nat_alt flip: not_less)
  then show ?case using g Suc by (simp del: of_nat_Suc)
qed

lemma restart_before_first:
  assumes "block_static cmp ls rs i" "j < length rs" "rs ! j \<le> 0"
  shows "restart_before i (word_of_nat (offset_of ls 0)) j = Some None"
proof -
  have wf: "layout_wf ls rs" using assms(1) by (simp add: block_static_def)
  have "j = 0" using restart_less [OF wf, of 0 j] assms(2,3) by auto
  then show ?thesis
    using GetRestartPoint_static [OF assms(1), of 0] assms(2) restart_hd [OF wf] by simp
qed

subsection \<open>The operations\<close>

lemma ParseNextKey_at:
  assumes "iter_before cmp ls rs n i"
  shows "\<exists>i'. ParseNextKey i = Some (n < length ls, i') \<and> iter_at cmp ls rs n i'"
proof (cases "n < length ls")
  case True
  then show ?thesis using ParseNextKey_entry [OF assms] by simp
next
  case False
  then have "n = length ls" using assms by (simp add: iter_before_def)
  then show ?thesis using ParseNextKey_end [of cmp ls rs i] assms by simp
qed

lemma Next_at:
  assumes "iter_at cmp ls rs n i" "n < length ls"
  shows "\<exists>i'. BlockIter_Next i = Some i' \<and> iter_at cmp ls rs (Suc n) i'"
  using ParseNextKey_at [OF at_before_next [OF assms]] at_valid(1) [OF assms(1)] assms(2)
  by (auto simp: BlockIter_Next_def)

lemma word_index:
  assumes "block_static cmp ls rs i" "j < length rs"
  shows "unat (word_of_nat j :: u32) = j"
  using static_sizes(2) [OF assms(1)] assms(2) unat_less_exp [of "bi_num_restarts i"]
  by (simp add: unat_of_nat_u32)

lemma Prev_at:
  assumes "iter_at cmp ls rs n i" "n < length ls"
  shows "\<exists>i'. BlockIter_Prev i = Some i' \<and> iter_at cmp ls rs (if n = 0 then length ls else n - 1) i'"
proof -
  have st: "block_static cmp ls rs i" using assms(1) by (rule at_static)
  have cur: "bi_current i = word_of_nat (offset_of ls n)" "unat (bi_restart_index i) < length rs"
    "rs ! unat (bi_restart_index i) \<le> n"
    using assms by (simp_all add: iter_at_def)
  have v: "BlockIter_Valid i" using at_valid(1) [OF assms(1)] assms(2) by simp
  show ?thesis
  proof (cases n)
    case 0
    then have "BlockIter_Prev i = Some (i\<lparr>bi_current := bi_restarts i, bi_restart_index := bi_num_restarts i\<rparr>)"
      using restart_before_first [OF st cur(2)] cur v
      by (simp add: BlockIter_Prev_def Let_def del: restart_before.simps)
    then show ?thesis using st 0 by (simp add: at_past_end)
  next
    case (Suc m)
    obtain k where k: "restart_before i (bi_current i) (unat (bi_restart_index i)) = Some (Some k)"
      "k < length rs" "rs ! k < n"
      using restart_before_entry [OF st _ _ cur(2), of n] Suc assms(2) cur(1) by auto
    have w: "unat (word_of_nat k :: u32) = k" by (rule word_index [OF st k(2)])
    obtain i1 where i1: "SeekToRestartPoint (word_of_nat k) i = Some i1" "iter_before cmp ls rs (rs ! k) i1"
      using SeekToRestartPoint_before [OF st, of "word_of_nat k"] k(2) w by auto
    obtain i2 where "parse_until (word_of_nat (offset_of ls n)) i1 = Some i2" "iter_at cmp ls rs (n - 1) i2"
      using parse_until_entry [OF i1(2) k(3)] assms(2) by auto
    then show ?thesis
      using k(1) i1(1) v cur(1) Suc by (simp add: BlockIter_Prev_def Let_def del: restart_before.simps)
  qed
qed

lemma SeekToFirst_at:
  assumes "block_static cmp ls rs i"
  shows "\<exists>i'. BlockIter_SeekToFirst i = Some i' \<and> iter_at cmp ls rs 0 i'"
proof -
  have wf: "layout_wf ls rs" using assms by (simp add: block_static_def)
  obtain i1 where i1: "SeekToRestartPoint 0 i = Some i1" "iter_before cmp ls rs 0 i1"
    using SeekToRestartPoint_before [OF assms, of 0] static_sizes(5) [OF assms] restart_hd [OF wf] by auto
  then show ?thesis using ParseNextKey_at [OF i1(2)] by (auto simp: BlockIter_SeekToFirst_def)
qed

lemma SeekToLast_at:
  assumes "block_static cmp ls rs i"
  shows "\<exists>i'. BlockIter_SeekToLast i = Some i' \<and> iter_at cmp ls rs (length ls - 1) i'"
proof -
  have wf: "layout_wf ls rs" using assms by (simp add: block_static_def)
  let ?j = "bi_num_restarts i - 1"
  have j: "unat ?j < length rs"
  proof -
    have "bi_num_restarts i \<noteq> 0" using static_sizes(2,5) [OF assms] by auto
    then show ?thesis using static_sizes(2,5) [OF assms] by (simp add: unat_minus_one)
  qed
  obtain i1 where i1: "SeekToRestartPoint ?j i = Some i1" "iter_before cmp ls rs (rs ! unat ?j) i1"
    using SeekToRestartPoint_before [OF assms j] by blast
  have r: "bi_restarts i = word_of_nat (offset_of ls (length ls))"
    using assms by (simp add: block_static_def offset_of_simps(3))
  show ?thesis
  proof (cases "ls = []")
    case True
    then have "rs ! unat ?j = length ls" using restart_le [OF wf j] by simp
    then obtain i2 where "ParseNextKey i1 = Some (False, i2)" "iter_at cmp ls rs (length ls) i2"
      using ParseNextKey_at [OF i1(2)] by auto
    then show ?thesis
      using i1(1) True by (simp add: BlockIter_SeekToLast_def) (subst parse_until.simps, simp)
  next
    case False
    then have "rs ! unat ?j < length ls"
      using wf nth_mem [OF j] by (fastforce simp: layout_wf_def)
    then obtain i2 where "parse_until (bi_restarts i) i1 = Some i2" "iter_at cmp ls rs (length ls - 1) i2"
      using parse_until_entry [OF i1(2)] r by auto
    then show ?thesis using i1(1) by (simp add: BlockIter_SeekToLast_def)
  qed
qed

subsection \<open>Searching\<close>

definition entries_of :: "block_layout \<Rightarrow> entries" where
  "entries_of ls = map snd ls"

lemma parse_to_target_at:
  "iter_before cmp ls rs n i \<Longrightarrow>
   \<exists>i'. parse_to_target target i = Some i' \<and>
     iter_at cmp ls rs (n + length (takeWhile (\<lambda>e. Compare cmp (fst e) target < 0) (drop n (entries_of ls)))) i'"
proof (induction "length ls - n" arbitrary: n i rule: less_induct)
  case less
  obtain i1 where i1: "ParseNextKey i = Some (n < length ls, i1)" "iter_at cmp ls rs n i1"
    using ParseNextKey_at [OF less.prems] by blast
  show ?case
  proof (cases "n < length ls")
    case False
    then show ?thesis using i1 by (subst parse_to_target.simps) (simp add: entries_of_def)
  next
    case True
    have d: "drop n (entries_of ls) = (key_of ls n, value_of ls n) # drop (Suc n) (entries_of ls)"
      using True Cons_nth_drop_Suc [of n "entries_of ls"] by (simp add: entries_of_def key_of_def value_of_def)
    have k: "bi_key i1 = key_of ls n" "bi_comparator i1 = cmp"
      using i1(2) True by (simp_all add: iter_at_def block_static_def)
    show ?thesis
    proof (cases "Compare cmp (key_of ls n) target < 0")
      case False
      then show ?thesis using i1 True k by (subst parse_to_target.simps) (simp add: d)
    next
      case less': True
      obtain i2 where "parse_to_target target i1 = Some i2"
        "iter_at cmp ls rs (Suc n + length (takeWhile (\<lambda>e. Compare cmp (fst e) target < 0) (drop (Suc n) (entries_of ls)))) i2"
        using less.hyps [OF diff_less_mono2 [OF lessI True] at_before_next [OF i1(2) True]] by blast
      then show ?thesis using i1(1) True k less' by (subst parse_to_target.simps) (simp add: d)
    qed
  qed
qed

lemma mid_point:
  fixes left right :: u32
  assumes "left < right" "unat right < 2 ^ 31"
  shows "unat ((left + right + 1) div 2) = (unat left + unat right + 1) div 2"
    "left < (left + right + 1) div 2" "(left + right + 1) div 2 \<le> right"
proof -
  have "unat (left + right + 1) = unat left + unat right + 1"
    using assms by (simp add: unat_word_ariths word_less_nat_alt)
  then show m: "unat ((left + right + 1) div 2) = (unat left + unat right + 1) div 2"
    by (simp add: unat_div)
  show "left < (left + right + 1) div 2" "(left + right + 1) div 2 \<le> right"
    using assms m by (simp_all add: word_less_nat_alt word_le_nat_alt)
qed

lemma search_restarts_at:
  "block_static cmp ls rs i \<Longrightarrow> unat right < length rs \<Longrightarrow> left \<le> right \<Longrightarrow>
   left = 0 \<or> Compare cmp (key_of ls (rs ! unat left)) target < 0 \<Longrightarrow>
   \<exists>j. search_restarts target i left right = Some (Inr j) \<and> unat j < length rs
     \<and> (j = 0 \<or> Compare cmp (key_of ls (rs ! unat j)) target < 0)"
proof (induction "unat right - unat left" arbitrary: left right rule: less_induct)
  case less
  note st = less.prems(1)
  have wf: "layout_wf ls rs" and small: "length (block_bytes ls rs) < 2 ^ 32"
    using st by (simp_all add: block_static_def)
  show ?case
  proof (cases "left < right")
    case False
    then show ?thesis
      using less.prems by (subst search_restarts.simps) (auto simp: word_le_nat_alt word_less_nat_alt)
  next
    case True
    let ?mid = "(left + right + 1) div 2"
    have "unat right < 2 ^ 31" using less.prems(2) small by (simp add: length_block_bytes)
    note mid = mid_point [OF True this]
    let ?r = "rs ! unat ?mid"
    have m: "unat ?mid < length rs" "0 < unat ?mid"
      using mid less.prems(2) by (auto simp: word_le_nat_alt word_less_nat_alt)
    have r0: "?r \<noteq> 0" using restart_less [OF wf m(2,1)] by simp
    have r: "?r < length ls" "shared_of ls ?r = 0"
      using wf nth_mem [OF m(1)] r0 by (fastforce simp: layout_wf_def)+
    have le: "?r \<le> length ls" using r(1) by simp
    let ?p = "key_of ls ?r @ value_of ls ?r @ drop (offset_of ls (Suc ?r)) (block_buffer ls)"
    have dec: "DecodeEntry (drop (offset_of ls ?r) (block_buffer ls))
        = Some (0, word_of_nat (length (key_of ls ?r)), word_of_nat (length (value_of ls ?r)), ?p)"
      using DecodeEntry_at [OF wf r(1) small] r(2) by simp
    obtain pre where pre: "drop (offset_of ls ?r) (block_buffer ls) = pre @ ?p"
      unfolding block_split [OF r(1)] by (auto simp: entry_at [OF r(1)] entry_bytes_def r(2))
    have dp: "drop (length (block_buffer ls) - length ?p) (block_buffer ls) = ?p"
      using pre by (rule drop_suffix)
    have lk: "unat (word_of_nat (length (key_of ls ?r)) :: u32) = length (key_of ls ?r)"
      using key_length_bound [OF wf r(1)] offset_bound [of "Suc ?r" ls] r(1) small
      by (simp add: length_block_bytes unat_of_nat_u32)
    have "length ?p \<le> length (block_buffer ls)"
      using arg_cong [OF dp, of length] by simp
    then have sl: "slice_of (bi_data i) (length (block_buffer ls) - length ?p) (length (key_of ls ?r)) = Some (key_of ls ?r)"
      using st dp by (simp add: slice_of_def block_static_def block_bytes_def)
    have step: "search_restarts target i left right =
        (if Compare cmp (key_of ls ?r) target < 0 then search_restarts target i ?mid right
         else search_restarts target i left (?mid - 1))"
    proof -
      have g: "GetRestartPoint i ?mid = Some (word_of_nat (offset_of ls ?r))"
        by (rule GetRestartPoint_static [OF st m(1)])
      have cmp: "bi_comparator i = cmp" using st by (simp add: block_static_def)
      show ?thesis
        by (subst search_restarts.simps)
          (simp only: True if_True Let_def g Option.bind.simps static_sizes(1) [OF st]
            static_sizes(3) [OF st le] static_sizes(4) [OF st, unfolded static_sizes(1) [OF st]]
            dec option.case prod.case simp_thms if_False sl lk cmp)
    qed
    have m1: "unat (?mid - 1) = unat ?mid - 1"
      using m(2) by (intro unat_minus_one) auto
    show ?thesis
    proof (cases "Compare cmp (key_of ls ?r) target < 0")
      case lt: True
      have "unat right - unat ?mid < unat right - unat left"
        using mid True by (simp add: word_less_nat_alt)
      from less.hyps [OF this st less.prems(2) mid(3)] lt show ?thesis unfolding step by simp
    next
      case False
      have a: "unat (?mid - 1) - unat left < unat right - unat left" "unat (?mid - 1) < length rs" "left \<le> ?mid - 1"
        using mid True m m1 less.prems(2) by (auto simp: word_less_nat_alt word_le_nat_alt)
      from less.hyps [OF a(1) st a(2,3) less.prems(4)] False show ?thesis unfolding step by simp
    qed
  qed
qed

text \<open>The position of a target, from a restart point at which everything before is less.\<close>

lemma takeWhile_from:
  "(\<And>m. m < n \<Longrightarrow> P (es ! m)) \<Longrightarrow> n \<le> length es \<Longrightarrow>
   n + length (takeWhile P (drop n es)) = length (takeWhile P es)"
proof -
  assume P: "\<And>m. m < n \<Longrightarrow> P (es ! m)" and n: "n \<le> length es"
  have "\<forall>x \<in> set (take n es). P x" using P n by (auto simp: in_set_conv_nth)
  then have "takeWhile P (take n es @ drop n es) = take n es @ takeWhile P (drop n es)"
    by (intro takeWhile_append2) blast
  then show ?thesis using n by (metis append_take_drop_id length_append length_take min.absorb2)
qed

definition block_at :: "(Slice \<Rightarrow> bool) \<Rightarrow> Comparator \<Rightarrow> BlockIter \<Rightarrow> entries \<Rightarrow> nat \<Rightarrow> bool" where
  "block_at key cmp i es n \<longleftrightarrow>
     (\<exists>ls rs. iter_at cmp ls rs n i \<and> es = entries_of ls) \<and> sorted_entries cmp es \<and> (\<forall>e \<in> set es. key (fst e))"

context comparator
begin

lemma Seek_at:
  assumes st: "block_static cmp ls rs i" and t: "key target"
    and sorted: "sorted_entries cmp (entries_of ls)" and keys: "\<forall>e \<in> set (entries_of ls). key (fst e)"
  shows "\<exists>i'. BlockIter_Seek target i = Some i' \<and> iter_at cmp ls rs (position cmp target (entries_of ls)) i'"
proof -
  have wf: "layout_wf ls rs" using st by (simp add: block_static_def)
  let ?right = "bi_num_restarts i - 1"
  have "bi_num_restarts i \<noteq> 0" using static_sizes(2,5) [OF st] by auto
  then have "unat ?right < length rs" using static_sizes(2,5) [OF st] by (simp add: unat_minus_one)
  from search_restarts_at [OF st this, of 0 target]
  obtain j where j: "search_restarts target i 0 ?right = Some (Inr j)" "unat j < length rs"
    "j = 0 \<or> Compare cmp (key_of ls (rs ! unat j)) target < 0" by auto
  let ?n = "rs ! unat j"
  have n: "?n \<le> length ls" by (rule restart_le [OF wf j(2)])
  have before: "Compare cmp (fst (entries_of ls ! m)) target < 0" if m: "m < ?n" for m
  proof -
    have "j \<noteq> 0" using m restart_hd [OF wf] by auto
    then have l: "Compare cmp (key_of ls ?n) target < 0" using j(3) by simp
    have r: "?n < length ls" using wf nth_mem [OF j(2)] m by (fastforce simp: layout_wf_def)
    have k: "key (fst (entries_of ls ! m))" "key (fst (entries_of ls ! ?n))"
      using keys r m by (simp_all add: entries_of_def)
    have "Compare cmp (fst (entries_of ls ! m)) (fst (entries_of ls ! ?n)) < 0"
      using sorted_wrt_nth_less [OF sorted [unfolded sorted_entries_def] m] r by (simp add: entries_of_def)
    then show ?thesis
      using less_trans [OF k t] l r by (simp add: entries_of_def key_of_def)
  qed
  obtain i1 where i1: "SeekToRestartPoint j i = Some i1" "iter_before cmp ls rs ?n i1"
    using SeekToRestartPoint_before [OF st j(2)] by blast
  have "?n + length (takeWhile (\<lambda>e. Compare cmp (fst e) target < 0) (drop ?n (entries_of ls)))
      = position cmp target (entries_of ls)"
    unfolding position_def using before n by (intro takeWhile_from) (simp_all add: entries_of_def)
  then show ?thesis
    using parse_to_target_at [OF i1(2), of target] i1(1) j(1) by (auto simp: BlockIter_Seek_def)
qed

lemma block_iterator: "iterator BlockIter_ops key cmp (block_at key cmp)"
proof
  fix i es n assume a: "block_at key cmp i es n"
  then obtain ls rs where ls: "iter_at cmp ls rs n i" "es = entries_of ls" by (auto simp: block_at_def)
  have es: "sorted_entries cmp es" "\<forall>e \<in> set es. key (fst e)" using a by (simp_all add: block_at_def)
  have len: "length es = length ls" by (simp add: ls(2) entries_of_def)
  note st = at_static [OF ls(1)]
  have wf: "layout_wf ls rs" using st by (simp add: block_static_def)
  have keep: "iter_at cmp ls rs m i' \<Longrightarrow> block_at key cmp i' es m" for m i'
    using es ls(2) by (auto simp: block_at_def)
  show "n \<le> length es" using at_valid(2) [OF ls(1)] len by simp
  show v: "it_Valid BlockIter_ops i \<longleftrightarrow> n < length es"
    using at_valid(1) [OF ls(1)] len by (simp add: BlockIter_ops_def)
  show "n < length es \<Longrightarrow> it_key BlockIter_ops i = Some (fst (es ! n))"
    using v ls len by (simp add: BlockIter_ops_def BlockIter_key_def iter_at_def entries_of_def key_of_def)
  show "it_value BlockIter_ops i = Some (snd (es ! n))" if n: "n < length es"
  proof -
    have n': "n < length ls" using n len by simp
    obtain p where p: "bi_value i = Some (p, length (value_of ls n))" "p + length (value_of ls n) = offset_of ls (Suc n)"
      using ls(1) n' by (auto simp: iter_at_def)
    have "p = offset_of ls (Suc n) - length (value_of ls n)" using p(2) by simp
    then have "slice_of (bi_data i) p (length (value_of ls n)) = Some (value_of ls n)"
      using drop_value_at(1) [OF wf n'] p(2) offset_bound [of "Suc n" ls] n' st
      by (simp add: slice_of_def block_static_def length_block_bytes)
    then show ?thesis
      using v n p(1) ls(2) n' by (simp add: BlockIter_ops_def BlockIter_value_def entries_of_def value_of_def)
  qed
  show "Status_ok (it_status BlockIter_ops i)"
    using st by (simp add: BlockIter_ops_def block_static_def Status_ok_def Status_OK_def)
  show "\<exists>i'. it_SeekToFirst BlockIter_ops i = Some i' \<and> block_at key cmp i' es 0"
    using SeekToFirst_at [OF st] keep by (auto simp: BlockIter_ops_def)
  show "\<exists>i'. it_SeekToLast BlockIter_ops i = Some i' \<and> block_at key cmp i' es (length es - 1)"
    using SeekToLast_at [OF st] keep len by (auto simp: BlockIter_ops_def)
  show "key target \<Longrightarrow> \<exists>i'. it_Seek BlockIter_ops target i = Some i'
      \<and> block_at key cmp i' es (position cmp target es)" for target
    using Seek_at [OF st] es keep ls(2) by (fastforce simp: BlockIter_ops_def)
  show "n < length es \<Longrightarrow> \<exists>i'. it_Next BlockIter_ops i = Some i' \<and> block_at key cmp i' es (n + 1)"
    using Next_at [OF ls(1)] keep len by (auto simp: BlockIter_ops_def)
  show "n < length es \<Longrightarrow> \<exists>i'. it_Prev BlockIter_ops i = Some i'
      \<and> block_at key cmp i' es (if n = 0 then length es else n - 1)"
    using Prev_at [OF ls(1)] keep len by (auto simp: BlockIter_ops_def)
qed

end

interpretation block: iterator BlockIter_ops "\<lambda>_. True" BytewiseComparator "block_at (\<lambda>_. True) BytewiseComparator"
  by (rule bytewise.block_iterator)

interpretation block_wrapper: iterator "Wrapper_ops BlockIter_ops" "\<lambda>_. True" BytewiseComparator
  "wrapper_at BlockIter_ops (block_at (\<lambda>_. True) BytewiseComparator)"
  by (rule block.wrapper)

subsection \<open>The builder\<close>

lemma shared_prefix_facts:
  "shared_prefix a b \<le> length a" "shared_prefix a b \<le> length b"
  "take (shared_prefix a b) a = take (shared_prefix a b) b"
  by (induction a b rule: shared_prefix.induct) simp_all

definition last_key_of :: "block_layout \<Rightarrow> bytes" where
  "last_key_of ls = (if ls = [] then [] else key_of ls (length ls - 1))"

definition builds :: "Options \<Rightarrow> BlockBuilder \<Rightarrow> block_layout \<Rightarrow> nat list \<Rightarrow> bool" where
  "builds options b ls rs \<longleftrightarrow>
     bb_options b = options \<and> \<not> bb_finished b \<and> bb_buffer b = block_buffer ls
     \<and> bb_restarts b = restart_points ls rs \<and> layout_wf ls rs \<and> bb_last_key b = last_key_of ls
     \<and> 0 \<le> bb_counter b \<and> bb_counter b \<le> opt_block_restart_interval options \<and> 1 \<le> opt_block_restart_interval options
     \<and> (ls = [] \<longrightarrow> bb_counter b = 0)"

lemma builds_new:
  assumes "1 \<le> opt_block_restart_interval options"
  shows "\<exists>b. new_BlockBuilder options = Some b \<and> builds options b [] [0]"
  using assms
  by (simp add: new_BlockBuilder_def builds_def block_buffer_def restart_points_def offset_of_def layout_wf_def last_key_of_def)

lemma layout_snoc:
  "n < length ls \<Longrightarrow> shared_of (ls @ [e]) n = shared_of ls n \<and> key_of (ls @ [e]) n = key_of ls n"
  "shared_of (ls @ [(s, k, v)]) (length ls) = s" "key_of (ls @ [(s, k, v)]) (length ls) = k"
  by (simp_all add: shared_of_def key_of_def nth_append)

lemma layout_wf_add:
  assumes wf: "layout_wf ls rs" and s: "s \<le> length k" "s \<le> length (last_key_of ls)"
    and pre: "take s (last_key_of ls) = take s k"
  shows "layout_wf (ls @ [(s, k, v)]) rs"
    "s = 0 \<Longrightarrow> ls \<noteq> [] \<Longrightarrow> layout_wf (ls @ [(s, k, v)]) (rs @ [length ls])"
proof -
  let ?ls = "ls @ [(s, k, v)]"
  have e: "shared_of ?ls n \<le> length (key_of ?ls n)
        \<and> (shared_of ?ls n \<noteq> 0 \<longrightarrow> 0 < n \<and> shared_of ?ls n \<le> length (key_of ?ls (n - 1))
             \<and> take (shared_of ?ls n) (key_of ?ls (n - 1)) = take (shared_of ?ls n) (key_of ?ls n))"
    if "n < length ?ls" for n
  proof (cases "n < length ls")
    case True
    then show ?thesis using wf by (simp add: layout_wf_def layout_snoc(1))
  next
    case False
    then have n: "n = length ls" using that by simp
    have "s \<noteq> 0 \<Longrightarrow> ls \<noteq> []" using s(2) by (auto simp: last_key_of_def)
    then show ?thesis
      using s pre by (auto simp: n layout_snoc last_key_of_def)
  qed
  have r: "\<forall>r \<in> set rs. r < length ?ls \<and> shared_of ?ls r = 0"
  proof
    fix r assume "r \<in> set rs"
    then have "r < length ls \<and> shared_of ls r = 0 \<or> ls = [] \<and> r = 0" using wf by (simp add: layout_wf_def)
    moreover have "ls = [] \<Longrightarrow> s = 0" using s(2) by (simp add: last_key_of_def)
    ultimately show "r < length ?ls \<and> shared_of ?ls r = 0"
      using layout_snoc by (auto simp: shared_of_def)
  qed
  have rs: "rs \<noteq> []" "hd rs = 0" "sorted_wrt (<) rs" using wf by (simp_all add: layout_wf_def)
  show "layout_wf ?ls rs" unfolding layout_wf_def using e r rs by blast
  assume "s = 0" "ls \<noteq> []"
  moreover from this have "\<forall>r \<in> set rs. r < length ls" using wf by (auto simp: layout_wf_def)
  ultimately show "layout_wf ?ls (rs @ [length ls])"
    unfolding layout_wf_def using e r rs layout_snoc(2) by (auto simp: sorted_wrt_append)
qed

lemma restart_points_add:
  assumes "layout_wf ls rs"
  shows "restart_points (ls @ [e]) rs = restart_points ls rs"
    "restart_points (ls @ [e]) (rs @ [length ls]) = restart_points ls rs @ [word_of_nat (length (block_buffer ls))]"
proof -
  have o: "offset_of (ls @ [e]) r = offset_of ls r" if "r \<le> length ls" for r
    using that by (simp add: offset_of_def)
  have "\<forall>r \<in> set rs. r \<le> length ls" using assms by (auto simp: layout_wf_def)
  then show "restart_points (ls @ [e]) rs = restart_points ls rs"
    using o by (simp add: restart_points_def)
  then show "restart_points (ls @ [e]) (rs @ [length ls])
      = restart_points ls rs @ [word_of_nat (length (block_buffer ls))]"
    using o [of "length ls"] by (simp add: restart_points_def offset_of_simps(3))
qed

lemma builds_Add:
  assumes b: "builds options b ls rs"
    and gr: "ls = [] \<or> Compare (opt_comparator options) k (last_key_of ls) > 0"
  shows "\<exists>b' s rs'. BlockBuilder_Add k v b = Some b' \<and> builds options b' (ls @ [(s, k, v)]) rs'"
proof -
  let ?restart = "\<not> bb_counter b < opt_block_restart_interval options"
  define s where "s = (if ?restart then 0 else shared_prefix (last_key_of ls) k)"
  have wf: "layout_wf ls rs" and ne: "?restart \<Longrightarrow> ls \<noteq> []" using b by (auto simp: builds_def)
  have s: "s \<le> length k" "s \<le> length (last_key_of ls)" "take s (last_key_of ls) = take s k"
    by (simp_all add: s_def shared_prefix_facts)
  let ?ls = "ls @ [(s, k, v)]" and ?rs = "if ?restart then rs @ [length ls] else rs"
  have "?restart \<Longrightarrow> s = 0" by (simp add: s_def)
  then have wf': "layout_wf ?ls ?rs"
    using layout_wf_add [OF wf s, of v] ne by auto
  have buf: "block_buffer ?ls = block_buffer ls @ entry_bytes (s, k, v)" by (simp add: block_buffer_def)
  have last: "last_key_of ?ls = k" by (simp add: last_key_of_def layout_snoc)
  have key: "take s (last_key_of ls) @ drop s k = k" using s(3) by simp
  have rp: "restart_points ?ls ?rs = (if ?restart then restart_points ls rs @ [word_of_nat (length (block_buffer ls))]
      else restart_points ls rs)"
    using restart_points_add [OF wf] by simp
  let ?b = "b\<lparr>bb_restarts := restart_points ?ls ?rs, bb_buffer := block_buffer ?ls, bb_last_key := k,
    bb_counter := (if ?restart then 0 else bb_counter b) + 1\<rparr>"
  have "bb_buffer b = [] \<longleftrightarrow> ls = []"
    using b entry_bytes_not_Nil by (cases ls) (auto simp: builds_def block_buffer_def)
  then have "BlockBuilder_Add k v b = Some ?b"
    using b gr key
    by (simp add: BlockBuilder_Add_def Let_def builds_def s_def [symmetric] rp buf entry_bytes_def PutVarint32_def
        del: of_nat_diff)
  moreover have "builds options ?b ?ls ?rs"
    using b wf' last by (simp add: builds_def)
  ultimately show ?thesis by blast
qed

text \<open>Adding a sorted list of entries, as the builders of tables do.\<close>

fun BlockBuilder_Adds :: "entries \<Rightarrow> BlockBuilder \<Rightarrow> BlockBuilder option" where
  "BlockBuilder_Adds [] b = Some b"
| "BlockBuilder_Adds ((k, v) # es) b = Option.bind (BlockBuilder_Add k v b) (BlockBuilder_Adds es)"

lemma builds_Finish:
  assumes "builds options b ls rs"
  shows "fst (BlockBuilder_Finish b) = block_bytes ls rs"
proof -
  have "length rs = length (bb_restarts b)" using assms by (simp add: builds_def restart_points_def)
  then show ?thesis
    using assms by (simp add: BlockBuilder_Finish_def Let_def PutFixed32_def fold_append builds_def block_bytes_def)
qed

lemma new_Block_bytes:
  assumes "layout_wf ls rs" "length (block_bytes ls rs) < 2 ^ 32"
  shows "\<exists>bl i. new_Block (block_bytes ls rs) owned = Some bl \<and> Block_NewIterator cmp bl = Some (Inr i)
    \<and> iter_at cmp ls rs (length ls) i"
proof -
  let ?n = "length rs" and ?d = "block_bytes ls rs"
  have l: "length ?d = length (block_buffer ls) + 4 * ?n + 4" by (rule length_block_bytes)
  have n: "0 < ?n" using assms(1) by (simp add: layout_wf_def)
  have u: "unat (word_of_nat ?n :: u32) = ?n" "unat (1 + word_of_nat ?n :: u32) = 1 + ?n"
    using assms(2) l unat_of_nat_u32 [of "1 + ?n"] by (simp_all add: unat_of_nat_u32)
  have "\<not> ?n > (length ?d - 4) div 4" "length ?d - (1 + ?n) * 4 = length (block_buffer ls)" "\<not> length ?d < 4"
    using l by simp_all
  then have bl: "new_Block ?d owned = Some \<lparr>bl_data = ?d, bl_size = length ?d,
      bl_restart_offset = word_of_nat (length (block_buffer ls)), bl_owned = owned\<rparr>"
    unfolding new_Block_def Let_def NumRestarts_block Option.bind.simps u by simp
  have "(word_of_nat ?n :: u32) > 0" using u(1) n by (simp add: word_less_nat_alt)
  have "4 \<le> length ?d" using l by simp
  then have "Block_NewIterator cmp \<lparr>bl_data = ?d, bl_size = length ?d,
      bl_restart_offset = word_of_nat (length (block_buffer ls)), bl_owned = owned\<rparr>
    = Some (Inr \<lparr>bi_comparator = cmp, bi_data = ?d, bi_restarts = word_of_nat (length (block_buffer ls)),
        bi_num_restarts = word_of_nat ?n, bi_current = word_of_nat (length (block_buffer ls)),
        bi_restart_index = word_of_nat ?n, bi_key = [], bi_value = None, bi_status = Status_OK\<rparr>)"
    using n u(1) by (auto simp: Block_NewIterator_def NumRestarts_block new_BlockIter_def word_less_nat_alt)
  then show ?thesis
    unfolding bl using assms by (simp add: iter_at_def block_static_def)
qed

context comparator
begin

lemma builds_Adds:
  "builds options b ls rs \<Longrightarrow> opt_comparator options = cmp \<Longrightarrow> sorted_entries cmp (entries_of ls @ es) \<Longrightarrow>
   \<forall>e \<in> set (entries_of ls @ es). key (fst e) \<Longrightarrow>
   \<exists>b' ls' rs'. BlockBuilder_Adds es b = Some b' \<and> builds options b' ls' rs' \<and> entries_of ls' = entries_of ls @ es"
proof (induction es arbitrary: b ls rs)
  case (Cons e es)
  obtain k v where e: "e = (k, v)" by (cases e)
  have "ls = [] \<or> Compare cmp (last_key_of ls) k < 0"
  proof (cases "ls = []")
    case False
    then have "(key_of ls (length ls - 1), value_of ls (length ls - 1)) \<in> set (entries_of ls)"
      by (simp add: entries_of_def key_of_def value_of_def)
    then show ?thesis
      using Cons.prems(3) False by (fastforce simp: sorted_entries_def sorted_wrt_append last_key_of_def e)
  qed simp
  moreover have "ls \<noteq> [] \<Longrightarrow> key (last_key_of ls)" "key k"
    using Cons.prems(4) by (auto simp: e last_key_of_def entries_of_def key_of_def)
  ultimately have "ls = [] \<or> Compare (opt_comparator options) k (last_key_of ls) > 0"
    using swap Cons.prems(2) by blast
  then obtain b1 s rs1 where b1: "BlockBuilder_Add k v b = Some b1" "builds options b1 (ls @ [(s, k, v)]) rs1"
    using builds_Add [OF Cons.prems(1)] by blast
  have "entries_of (ls @ [(s, k, v)]) = entries_of ls @ [e]" by (simp add: entries_of_def e)
  then show ?case
    using Cons.IH [OF b1(2) Cons.prems(2)] Cons.prems(3,4) b1(1) by (simp add: e)
qed auto

text \<open>Building a block from sorted entries and opening it gives an iterator over the entries.\<close>

lemma build_and_open:
  assumes "opt_comparator options = cmp" "1 \<le> opt_block_restart_interval options"
    and "sorted_entries cmp es" "\<forall>e \<in> set es. key (fst e)"
    and "Option.bind (new_BlockBuilder options) (BlockBuilder_Adds es) = Some b" "length (fst (BlockBuilder_Finish b)) < 2 ^ 32"
  shows "\<exists>bl i. new_Block (fst (BlockBuilder_Finish b)) owned = Some bl \<and> Block_NewIterator cmp bl = Some (Inr i)
    \<and> block_at key cmp i es (length es)"
proof -
  obtain b0 where b0: "new_BlockBuilder options = Some b0" "builds options b0 [] [0]"
    using builds_new [OF assms(2)] by blast
  obtain ls rs where ls: "builds options b ls rs" "entries_of ls = es"
    using builds_Adds [OF b0(2) assms(1), of es] assms(3-5) b0(1) by (auto simp: entries_of_def)
  have wf: "layout_wf ls rs" using ls(1) by (simp add: builds_def)
  have "length ls = length es" using ls(2) by (auto simp: entries_of_def)
  then show ?thesis
    using new_Block_bytes [OF wf, of owned cmp] assms(3,4,6) ls(2) unfolding builds_Finish [OF ls(1)]
    by (auto simp: block_at_def)
qed

lemma build_succeeds:
  assumes "opt_comparator options = cmp" "1 \<le> opt_block_restart_interval options"
    and "sorted_entries cmp es" "\<forall>e \<in> set es. key (fst e)"
  shows "\<exists>b. Option.bind (new_BlockBuilder options) (BlockBuilder_Adds es) = Some b"
proof -
  obtain b0 where b0: "new_BlockBuilder options = Some b0" "builds options b0 [] [0]"
    using builds_new [OF assms(2)] by blast
  then show ?thesis
    using builds_Adds [OF b0(2) assms(1), of es] assms(3,4) by (auto simp: entries_of_def)
qed

end

subsection \<open>Properties\<close>

text \<open>C35. A block that is built from sorted entries and read again shows exactly those entries:
  \<open>SeekToFirst\<close> and \<open>Next\<close> give all of them in order, \<open>SeekToLast\<close> and \<open>Prev\<close> in reverse, and no
  assertion fails; for the bytewise comparator, any restart interval and blocks below 4 GB.\<close>

theorem block_roundtrip:
  assumes "opt_comparator options = BytewiseComparator" "1 \<le> opt_block_restart_interval options"
    and "sorted_wrt (\<lambda>a b. fst a < fst b) es" "es \<noteq> []"
  shows "\<exists>b. Option.bind (new_BlockBuilder options) (BlockBuilder_Adds es) = Some b
    \<and> (length (fst (BlockBuilder_Finish b)) < 2 ^ 32 \<longrightarrow>
       (\<exists>bl i i1 i2. new_Block (fst (BlockBuilder_Finish b)) owned = Some bl
        \<and> Block_NewIterator BytewiseComparator bl = Some (Inr i)
        \<and> Option.bind (BlockIter_SeekToFirst i) (read_forward BlockIter_ops (length es)) = Some (es, i1)
        \<and> Option.bind (BlockIter_SeekToLast i) (read_backward BlockIter_ops (length es)) = Some (rev es, i2)
        \<and> \<not> BlockIter_Valid i1 \<and> \<not> BlockIter_Valid i2 \<and> Status_ok (bi_status i1)))"
proof -
  have s: "sorted_entries BytewiseComparator es" using assms(3) by (simp add: sorted_entries_def)
  obtain b where b: "Option.bind (new_BlockBuilder options) (BlockBuilder_Adds es) = Some b"
    using bytewise.build_succeeds [OF assms(1,2) s] by auto
  have "\<exists>bl i i1 i2. new_Block (fst (BlockBuilder_Finish b)) owned = Some bl
        \<and> Block_NewIterator BytewiseComparator bl = Some (Inr i)
        \<and> Option.bind (BlockIter_SeekToFirst i) (read_forward BlockIter_ops (length es)) = Some (es, i1)
        \<and> Option.bind (BlockIter_SeekToLast i) (read_backward BlockIter_ops (length es)) = Some (rev es, i2)
        \<and> \<not> BlockIter_Valid i1 \<and> \<not> BlockIter_Valid i2 \<and> Status_ok (bi_status i1)"
    if small: "length (fst (BlockBuilder_Finish b)) < 2 ^ 32"
  proof -
    obtain bl i where i: "new_Block (fst (BlockBuilder_Finish b)) owned = Some bl"
      "Block_NewIterator BytewiseComparator bl = Some (Inr i)" "block_at (\<lambda>_. True) BytewiseComparator i es (length es)"
      using bytewise.build_and_open [OF assms(1,2) s _ b small, of owned] by auto
    show ?thesis
      using i block.scan [OF i(3)] block.scan_backward [OF i(3) assms(4)] by (fastforce simp: BlockIter_ops_def)
  qed
  then show ?thesis using b by blast
qed

text \<open>C36. \<open>Seek\<close> in a block, by binary search over the restart points and a scan from there, lands on
  the first entry at or past the target, so that reading on gives exactly the entries that are not
  less than it.\<close>

theorem block_seek:
  assumes "opt_comparator options = BytewiseComparator" "1 \<le> opt_block_restart_interval options"
    and "sorted_wrt (\<lambda>a b. fst a < fst b) es"
    and "Option.bind (new_BlockBuilder options) (BlockBuilder_Adds es) = Some b"
    and "length (fst (BlockBuilder_Finish b)) < 2 ^ 32"
  shows "\<exists>bl i i1. new_Block (fst (BlockBuilder_Finish b)) owned = Some bl
    \<and> Block_NewIterator BytewiseComparator bl = Some (Inr i)
    \<and> Option.bind (BlockIter_Seek target i) (read_forward BlockIter_ops (length es))
      = Some (dropWhile (\<lambda>e. fst e < target) es, i1)"
proof -
  have s: "sorted_entries BytewiseComparator es" using assms(3) by (simp add: sorted_entries_def)
  obtain bl i where i: "new_Block (fst (BlockBuilder_Finish b)) owned = Some bl"
    "Block_NewIterator BytewiseComparator bl = Some (Inr i)" "block_at (\<lambda>_. True) BytewiseComparator i es (length es)"
    using bytewise.build_and_open [OF assms(1,2) s _ assms(4,5), of owned] by auto
  show ?thesis
    using i block.seek_scan [OF i(3), of target] by (fastforce simp: BlockIter_ops_def)
qed

definition example_block_options :: Options where
  "example_block_options = (new_Options 0)\<lparr>opt_block_restart_interval := 2\<rparr>"

definition example_entries :: entries where
  "example_entries = [([1], [10]), ([1, 2], [11]), ([2], [])]"

definition example_builder :: BlockBuilder where
  "example_builder = the (Option.bind (new_BlockBuilder example_block_options) (BlockBuilder_Adds example_entries))"

lemma example_sorted: "sorted_wrt (\<lambda>a b. fst a < fst b) example_entries"
  by (simp add: example_entries_def)

lemma example_options:
  "opt_comparator example_block_options = BytewiseComparator" "1 \<le> opt_block_restart_interval example_block_options"
  by (simp_all add: example_block_options_def new_Options_def)

lemma example_build:
  "Option.bind (new_BlockBuilder example_block_options) (BlockBuilder_Adds example_entries) = Some example_builder"
  using bytewise.build_succeeds [OF example_options, of example_entries] example_sorted
  by (auto simp: example_builder_def sorted_entries_def)

lemma example_length: "length (fst (BlockBuilder_Finish example_builder)) = 26"
  by (simp add: example_builder_def example_entries_def example_block_options_def new_Options_def
      new_BlockBuilder_def BlockBuilder_Add_def BlockBuilder_Finish_def PutVarint32_def PutFixed32_def
      EncodeVarint32_def Let_def)

theorem block_roundtrip_witness:
  "\<exists>bl i i1. new_Block (fst (BlockBuilder_Finish example_builder)) True = Some bl
    \<and> Block_NewIterator BytewiseComparator bl = Some (Inr i)
    \<and> Option.bind (BlockIter_SeekToFirst i) (read_forward BlockIter_ops (length example_entries)) = Some (example_entries, i1)"
proof -
  have "example_entries \<noteq> []" by (simp add: example_entries_def)
  from block_roundtrip [OF example_options example_sorted this, of True] show ?thesis
    unfolding example_build using example_length by auto
qed

theorem block_seek_witness:
  "\<exists>bl i i1. new_Block (fst (BlockBuilder_Finish example_builder)) True = Some bl
    \<and> Block_NewIterator BytewiseComparator bl = Some (Inr i)
    \<and> Option.bind (BlockIter_Seek [1, 1] i) (read_forward BlockIter_ops (length example_entries))
      = Some ([([1, 2], [11]), ([2], [])], i1)"
proof -
  have "dropWhile (\<lambda>e. fst e < [1, 1]) example_entries = [([1, 2], [11]), ([2], [])]"
    by (simp add: example_entries_def)
  then show ?thesis
    using block_seek [OF example_options example_sorted example_build, of True "[1, 1]"] example_length by simp
qed

definition overflowing_block :: bytes where
  "overflowing_block = [0, 255, 255, 255, 255, 15, 2, 7] @ EncodeFixed32 0 @ EncodeFixed32 1"

lemma overflowing_parts:
  "length overflowing_block = 16" "take 8 overflowing_block = [0, 255, 255, 255, 255, 15, 2, 7]"
  "DecodeFixed32 (drop 8 overflowing_block) = Some 0" "DecodeFixed32 (drop 12 overflowing_block) = Some 1"
  by (simp_all add: overflowing_block_def)

text \<open>C38. \<open>DecodeEntry\<close> does not check the lengths it reads without overflow: their sum is taken at 32
  bits. For the eight bytes below it accepts a key delta of 4294967295 bytes and a value of two with
  one byte left, and the iterator of a block with this one entry, however it was made, reads outside
  of the block as soon as it is positioned (\<open>None\<close>), instead of reporting corruption.\<close>

theorem decode_entry_overflow:
  "DecodeEntry [0, 255, 255, 255, 255, 15, 2, 7] = Some (0, 4294967295, 2, [7])
   \<and> (\<exists>bl i. new_Block overflowing_block True = Some bl \<and> Block_NewIterator BytewiseComparator bl = Some (Inr i)
        \<and> BlockIter_SeekToFirst i = None)"
proof -
  have d: "DecodeEntry [0, 255, 255, 255, 255, 15, 2, 7] = Some (0, 4294967295, 2, [7])"
    by (simp add: DecodeEntry_slow GetVarint32PtrFallback_def)
  let ?bl = "\<lparr>bl_data = overflowing_block, bl_size = 16, bl_restart_offset = 8, bl_owned = True\<rparr>"
  have bl: "new_Block overflowing_block True = Some ?bl"
    by (simp add: new_Block_def NumRestarts_def Let_def overflowing_parts)
  let ?i = "\<lparr>bi_comparator = BytewiseComparator, bi_data = overflowing_block, bi_restarts = 8, bi_num_restarts = 1,
    bi_current = 8, bi_restart_index = 1, bi_key = [], bi_value = None, bi_status = Status_OK\<rparr>"
  have i: "Block_NewIterator BytewiseComparator ?bl = Some (Inr ?i)"
    by (simp add: Block_NewIterator_def NumRestarts_def new_BlockIter_def overflowing_parts)
  have "BlockIter_SeekToFirst ?i = None"
    by (simp add: BlockIter_SeekToFirst_def SeekToRestartPoint_def GetRestartPoint_def overflowing_parts
        ParseNextKey_def NextEntryOffset_def d slice_of_def Let_def)
  then show ?thesis using d bl i by blast
qed

end
