(* ===== verification/Memtable.thy ===== *)
theory Memtable
  imports Skiplist_Correct Write_Batch Iterators Block_Correct
begin

text \<open>
  The memtable (\<open>db/memtable.h\<close>, \<open>db/memtable.cc\<close>) and the insertion of write batches into it
  (\<open>db/write_batch.cc\<close>).

  An entry of the skip list is the memory that its key, a \<open>const char*\<close>, points to. The arena is kept
  with the skip list. An option is \<open>None\<close> where an assertion fails or the code would read outside of
  an entry.
\<close>

subsection \<open>Entries\<close>

text \<open>A length-prefixed slice at the start of some memory, and the memory after it.\<close>

definition EntrySlice :: "bytes \<Rightarrow> (Slice \<times> bytes) option" where
  "EntrySlice data =
     Option.bind (GetVarint32Ptr (take 5 data)) (\<lambda>(len, rest).
       let p = drop (length (take 5 data) - length rest) data
       in if unat len \<le> length p then Some (take (unat len) p, drop (unat len) p) else None)"

definition KeyComparator :: "Comparator \<Rightarrow> bytes \<Rightarrow> bytes \<Rightarrow> int" where
  "KeyComparator c aptr bptr =
     (case (EntrySlice aptr, EntrySlice bptr) of
        (Some (a, _), Some (b, _)) \<Rightarrow> Compare c a b
      | _ \<Rightarrow> 0)"

definition EncodeKey :: "Slice \<Rightarrow> bytes" where
  "EncodeKey target = PutVarint32 [] (word_of_nat (length target)) @ target"

subsection \<open>The memtable\<close>

text \<open>The comparator of the user keys stands for that of internal keys made from it.\<close>

record MemTable =
  mt_user_comparator :: Comparator
  mt_refs :: int
  mt_table :: "bytes SkipList"

definition new_MemTable :: "Comparator \<Rightarrow> Arena \<Rightarrow> MemTable option" where
  "new_MemTable user_comparator arena =
     map_option (\<lambda>l. \<lparr>mt_user_comparator = user_comparator, mt_refs = 0, mt_table = l\<rparr>)
       (new_SkipList (KeyComparator (InternalKeyComparator user_comparator)) arena)"

definition MemTable_Ref :: "MemTable \<Rightarrow> MemTable" where
  "MemTable_Ref m = m\<lparr>mt_refs := mt_refs m + 1\<rparr>"

text \<open>The memtable that is left, if it is not deleted.\<close>

definition MemTable_Unref :: "MemTable \<Rightarrow> MemTable option option" where
  "MemTable_Unref m =
     (let m = m\<lparr>mt_refs := mt_refs m - 1\<rparr>
      in if \<not> mt_refs m \<ge> 0 then None else if mt_refs m \<le> 0 then Some None else Some (Some m))"

definition ApproximateMemoryUsage :: "MemTable \<Rightarrow> u64" where
  "ApproximateMemoryUsage m = MemoryUsage (sl_arena (mt_table m))"

definition MemTable_Add :: "SequenceNumber \<Rightarrow> ValueType \<Rightarrow> Slice \<Rightarrow> Slice \<Rightarrow> MemTable \<Rightarrow> MemTable option" where
  "MemTable_Add s type key value m =
     (let key_size = length key;
          val_size = length value;
          internal_key_size = key_size + 8;
          encoded_len = VarintLength (word_of_nat internal_key_size) + internal_key_size
                        + VarintLength (word_of_nat val_size) + val_size
      in Option.bind (Allocate (word_of_nat encoded_len) (sl_arena (mt_table m))) (\<lambda>(_, arena).
           let buf = EncodeVarint32 (word_of_nat internal_key_size) @ key
                     @ EncodeFixed64 (push_bit 8 s OR ValueType_value type)
                     @ EncodeVarint32 (word_of_nat val_size) @ value
           in if length buf \<noteq> encoded_len then None
              else map_option (\<lambda>l. m\<lparr>mt_table := l\<rparr>)
                     (SkipList_Insert buf ((mt_table m)\<lparr>sl_arena := arena\<rparr>))))"

text \<open>The result, and the value and status that the arguments point to.\<close>

definition MemTable_Get :: "LookupKey \<Rightarrow> bytes \<Rightarrow> Status \<Rightarrow> MemTable \<Rightarrow> (bool \<times> bytes \<times> Status) option" where
  "MemTable_Get key value s m =
     (let memkey = memtable_key key
      in Option.bind (SkipIter_Seek memkey (new_SkipIter (mt_table m))) (\<lambda>iter.
           if SkipIter_Valid iter then
             Option.bind (SkipIter_key iter) (\<lambda>entry.
             Option.bind (EntrySlice entry) (\<lambda>(ikey, rest).
               if length ikey < 8 then None
               else if Compare (mt_user_comparator m) (take (length ikey - 8) ikey) (user_key key) = 0 then
                 Option.bind (DecodeFixed64 (drop (length ikey - 8) ikey)) (\<lambda>tag.
                   if tag AND 0xff = ValueType_value kTypeValue
                   then map_option (\<lambda>(v, _). (True, v, s)) (EntrySlice rest)
                   else if tag AND 0xff = ValueType_value kTypeDeletion
                   then Some (True, value, Status_NotFound [] [])
                   else Some (False, value, s))
               else Some (False, value, s)))
           else Some (False, value, s)))"

subsection \<open>Iteration\<close>

type_synonym MemTableIterator = "bytes SkipIter"

definition MemTable_NewIterator :: "MemTable \<Rightarrow> MemTableIterator" where
  "MemTable_NewIterator m = new_SkipIter (mt_table m)"

definition MemTableIterator_ops :: "MemTableIterator Iterator" where
  "MemTableIterator_ops =
     \<lparr>it_Valid = SkipIter_Valid, it_SeekToFirst = SkipIter_SeekToFirst, it_SeekToLast = SkipIter_SeekToLast,
      it_Seek = (\<lambda>k. SkipIter_Seek (EncodeKey k)), it_Next = SkipIter_Next, it_Prev = SkipIter_Prev,
      it_key = (\<lambda>i. Option.bind (SkipIter_key i) (\<lambda>e. map_option fst (EntrySlice e))),
      it_value = (\<lambda>i. Option.bind (SkipIter_key i) (\<lambda>e. Option.bind (EntrySlice e) (\<lambda>(_, rest). map_option fst (EntrySlice rest)))),
      it_status = (\<lambda>_. Status_OK)\<rparr>"

subsection \<open>Inserting a batch\<close>

record MemTableInserter =
  mi_sequence :: SequenceNumber
  mi_mem :: MemTable

definition MemTableInserter_ops :: "MemTableInserter Handler" where
  "MemTableInserter_ops =
     \<lparr>hd_Put = (\<lambda>key value i.
        map_option (\<lambda>m. i\<lparr>mi_mem := m, mi_sequence := mi_sequence i + 1\<rparr>)
          (MemTable_Add (mi_sequence i) kTypeValue key value (mi_mem i))),
      hd_Delete = (\<lambda>key i.
        map_option (\<lambda>m. i\<lparr>mi_mem := m, mi_sequence := mi_sequence i + 1\<rparr>)
          (MemTable_Add (mi_sequence i) kTypeDeletion key [] (mi_mem i)))\<rparr>"

definition InsertInto :: "WriteBatch \<Rightarrow> MemTable \<Rightarrow> (Status \<times> MemTable) option" where
  "InsertInto b memtable =
     Option.bind (WriteBatch_Sequence b) (\<lambda>seq.
       map_option (\<lambda>(s, i). (s, mi_mem i))
         (WriteBatch_Iterate MemTableInserter_ops b \<lparr>mi_sequence = seq, mi_mem = memtable\<rparr>))"

subsection \<open>Entries and their order\<close>

text \<open>An entry: user key, sequence number, type and value.\<close>

type_synonym mem_entry = "Slice \<times> SequenceNumber \<times> ValueType \<times> Slice"

definition entry_ikey :: "mem_entry \<Rightarrow> bytes" where
  "entry_ikey e = (case e of (u, s, t, v) \<Rightarrow> InternalKey_make u s t)"

definition entry_encoding :: "mem_entry \<Rightarrow> bytes" where
  "entry_encoding e = (case e of (u, s, t, v) \<Rightarrow>
     EncodeVarint32 (word_of_nat (length u + 8)) @ entry_ikey e @ EncodeVarint32 (word_of_nat (length v)) @ v)"

definition entry_small :: "mem_entry \<Rightarrow> bool" where
  "entry_small e = (case e of (u, s, t, v) \<Rightarrow>
     length u + 8 < 2 ^ 32 \<and> length v < 2 ^ 32 \<and> s \<le> kMaxSequenceNumber)"

lemma EntrySlice_encoded:
  assumes "length v < 2 ^ 32"
  shows "EntrySlice (EncodeVarint32 (word_of_nat (length v)) @ v @ rest) = Some (v, rest)"
proof -
  let ?e = "EncodeVarint32 (word_of_nat (length v))"
  have l: "length ?e \<le> 5" by (rule EncodeVarint32_max)
  then have t: "take 5 (?e @ v @ rest) = ?e @ take (5 - length ?e) (v @ rest)" by simp
  show ?thesis using assms unfolding EntrySlice_def t by (simp add: Let_def unat_of_nat_u32)
qed

lemma entry_ikey_simps [simp]: "entry_ikey (u, s, t, v) = u @ EncodeFixed64 (PackSequenceAndType s t)"
  by (simp add: entry_ikey_def)

lemma EntrySlice_entry:
  assumes "entry_small e"
  shows "\<exists>rest. EntrySlice (entry_encoding e) = Some (entry_ikey e, rest) \<and> EntrySlice rest = Some (snd (snd (snd e)), [])"
proof -
  obtain u s t v where e: "e = (u, s, t, v)" by (cases e)
  have "length (entry_ikey e) = length u + 8" by (simp add: e)
  then have "EntrySlice (entry_encoding e) = Some (entry_ikey e, EncodeVarint32 (word_of_nat (length v)) @ v)"
    using EntrySlice_encoded [of "entry_ikey e" "EncodeVarint32 (word_of_nat (length v)) @ v"] assms
    by (simp add: entry_encoding_def e entry_small_def)
  moreover have "EntrySlice (EncodeVarint32 (word_of_nat (length v)) @ v) = Some (v, [])"
    using EntrySlice_encoded [of v "[]"] assms by (simp add: e entry_small_def)
  ultimately show ?thesis by (simp add: e)
qed

lemma EntrySlice_lookup:
  assumes "length u + 8 < 2 ^ 32"
  shows "EntrySlice (memtable_key (new_LookupKey u s)) = Some (InternalKey_make u s kTypeValue, [])"
  using EntrySlice_encoded [of "InternalKey_make u s kTypeValue" "[]"] assms
  by (simp add: LookupKey_parts kValueTypeForSeek_def)

lemma EntrySlice_EncodeKey: "length k < 2 ^ 32 \<Longrightarrow> EntrySlice (EncodeKey k) = Some (k, [])"
  using EntrySlice_encoded [of k "[]"] by (simp add: EncodeKey_def PutVarint32_def)

text \<open>The memory that holds an internal key.\<close>

definition mem_key :: "(Slice \<Rightarrow> bool) \<Rightarrow> bytes \<Rightarrow> bool" where
  "mem_key key a \<longleftrightarrow> (\<exists>k rest. EntrySlice a = Some (k, rest) \<and> ikey key k)"

context comparator
begin

lemma KeyComparator_eq:
  "EntrySlice a = Some (k, r) \<Longrightarrow> EntrySlice b = Some (j, q) \<Longrightarrow> KeyComparator c a b = Compare c k j"
  by (simp add: KeyComparator_def)

lemma memtable_order: "key_order (mem_key key) (KeyComparator (InternalKeyComparator cmp))"
proof
  fix a b
  assume "mem_key key a" "mem_key key b"
  then obtain k r j q where e: "EntrySlice a = Some (k, r)" "ikey key k" "EntrySlice b = Some (j, q)" "ikey key j"
    unfolding mem_key_def by blast
  show "KeyComparator (InternalKeyComparator cmp) a b < 0 \<longleftrightarrow> 0 < KeyComparator (InternalKeyComparator cmp) b a"
    unfolding KeyComparator_eq [OF e(1,3)] KeyComparator_eq [OF e(3,1)]
    by (rule comparator.swap [OF internal_comparator e(2,4)])
next
  fix a b c
  assume "mem_key key a" "mem_key key b" "mem_key key c" and le: "KeyComparator (InternalKeyComparator cmp) a b \<le> 0"
    "KeyComparator (InternalKeyComparator cmp) b c \<le> 0"
  then obtain k r j q l p where e: "EntrySlice a = Some (k, r)" "ikey key k" "EntrySlice b = Some (j, q)" "ikey key j"
    "EntrySlice c = Some (l, p)" "ikey key l"
    unfolding mem_key_def by blast
  show "KeyComparator (InternalKeyComparator cmp) a c \<le> 0"
    using le unfolding KeyComparator_eq [OF e(1,3)] KeyComparator_eq [OF e(3,5)] KeyComparator_eq [OF e(1,5)]
    by (rule comparator.trans [OF internal_comparator e(2,4,6)])
qed

subsection \<open>The contents of a memtable\<close>

abbreviation mem_cmp :: "bytes \<Rightarrow> bytes \<Rightarrow> int" where
  "mem_cmp \<equiv> KeyComparator (InternalKeyComparator cmp)"

text \<open>The entries of a memtable, in the order they were added. Two entries for a user key have
  different sequence numbers.\<close>

definition holds :: "MemTable \<Rightarrow> mem_entry list \<Rightarrow> bool" where
  "holds m es \<longleftrightarrow>
     mt_user_comparator m = cmp
     \<and> (\<exists>ks. key_order.represents (mem_key key) mem_cmp (mt_table m) ks \<and> set ks = entry_encoding ` set es)
     \<and> (\<forall>e \<in> set es. entry_small e \<and> key (fst e))
     \<and> (\<forall>e \<in> set es. \<forall>e' \<in> set es. fst e = fst e' \<longrightarrow> fst (snd e) = fst (snd e') \<longrightarrow> e = e')"

lemma mem_cmp_entries:
  assumes "entry_small e" "entry_small e'"
  shows "mem_cmp (entry_encoding e) (entry_encoding e') = InternalKey_Compare cmp (entry_ikey e) (entry_ikey e')"
proof -
  obtain r r' where "EntrySlice (entry_encoding e) = Some (entry_ikey e, r)" "EntrySlice (entry_encoding e') = Some (entry_ikey e', r')"
    using EntrySlice_entry assms by blast
  from KeyComparator_eq [OF this] show ?thesis by simp
qed

lemma mem_cmp_lookup:
  assumes "entry_small e" "length u + 8 < 2 ^ 32"
  shows "mem_cmp (entry_encoding e) (memtable_key (new_LookupKey u s))
    = InternalKey_Compare cmp (entry_ikey e) (InternalKey_make u s kTypeValue)"
proof -
  obtain r where "EntrySlice (entry_encoding e) = Some (entry_ikey e, r)" using EntrySlice_entry assms by blast
  from KeyComparator_eq [OF this EntrySlice_lookup [OF assms(2)]] show ?thesis by simp
qed

lemma mem_key_entry: "entry_small e \<Longrightarrow> key (fst e) \<Longrightarrow> mem_key key (entry_encoding e)"
  using EntrySlice_entry [of e] by (cases e) (auto simp: mem_key_def ikey_def)

lemma mem_key_lookup: "length u + 8 < 2 ^ 32 \<Longrightarrow> key u \<Longrightarrow> mem_key key (memtable_key (new_LookupKey u s))"
  using EntrySlice_lookup [of u s] by (auto simp: mem_key_def ikey_def)

text \<open>The order of two internal keys.\<close>

lemma ikey_compare:
  assumes "key u" "key u'" "s \<le> kMaxSequenceNumber" "s' \<le> kMaxSequenceNumber"
  shows "InternalKey_Compare cmp (entry_ikey (u, s, t, v)) (entry_ikey (u', s', t', v')) < 0 \<longleftrightarrow>
    Compare cmp u u' < 0 \<or> u = u' \<and> (s' < s \<or> s = s' \<and> ValueType_value t' < ValueType_value t)"
proof -
  have "ikey key (entry_ikey (u, s, t, v))" "ikey key (entry_ikey (u', s', t', v'))" using assms by (simp_all add: ikey_def)
  from ikc_less_iff [OF this] show ?thesis using Pack_less_iff [OF assms(4,3)] by auto
qed

lemma Allocate_aligned:
  assumes "arena_aligned a" "0 < n"
  shows "\<exists>p a'. Allocate n a = Some (p, a') \<and> arena_aligned a'"
proof -
  have "Allocate n a = Some (p, a') \<Longrightarrow> ar_new a' = ar_new a" for p a'
    by (auto simp: Allocate_def AllocateFallback_def AllocateNewBlock_def Let_def split: if_splits)
  then show ?thesis using assms by (cases "Allocate n a") (auto simp: Allocate_def arena_aligned_def split: if_splits)
qed

lemma represents_arena:
  assumes "key_order.represents ok c l ks" "key_order ok c"
  shows "arena_aligned (sl_arena l)"
    "arena_aligned a \<Longrightarrow> key_order.represents ok c (l\<lparr>sl_arena := a\<rparr>) ks"
proof -
  have eq: "node_key (l\<lparr>sl_arena := a\<rparr>) = node_key l" "tall (l\<lparr>sl_arena := a\<rparr>) = tall l" "node_height (l\<lparr>sl_arena := a\<rparr>) = node_height l"
    "Node_key (l\<lparr>sl_arena := a\<rparr>) = Node_key l" "Node_Next (l\<lparr>sl_arena := a\<rparr>) = Node_Next l" for l :: "'a SkipList" and a
    by (simp_all add: node_key_def tall_def node_height_def Node_key_def Node_Next_def fun_eq_iff)
  have lk: "linked (l\<lparr>sl_arena := a\<rparr>) lv xs = linked l lv xs" for l :: "'a SkipList" and a lv xs
    by (induction l lv xs rule: linked.induct) (simp_all add: eq)
  have inv: "skip_inv ok c l xs \<Longrightarrow> arena_aligned a \<Longrightarrow> skip_inv ok c (l\<lparr>sl_arena := a\<rparr>) xs" for a xs
    unfolding skip_inv_def by (simp add: eq lk chain_def)
  show "arena_aligned (sl_arena l)" using assms(1) by (auto simp: key_order.represents_def [OF assms(2)] skip_inv_def)
  show "arena_aligned a \<Longrightarrow> key_order.represents ok c (l\<lparr>sl_arena := a\<rparr>) ks"
    using assms(1) inv eq(1) by (auto simp: key_order.represents_def [OF assms(2)])
qed

lemma entry_ikey_inject:
  assumes "entry_small (u, s, t, v)" "entry_small (u', s', t', v')" "entry_ikey (u, s, t, v) = entry_ikey (u', s', t', v')"
  shows "u = u' \<and> s = s'"
proof -
  have "u = u'" "EncodeFixed64 (PackSequenceAndType s t) = EncodeFixed64 (PackSequenceAndType s' t')"
    using assms(3) by (simp_all add: append_eq_append_conv)
  then have "PackSequenceAndType s t = PackSequenceAndType s' t'" by (metis DecodeFixed64_EncodeFixed64 append_Nil2 option.inject)
  then show ?thesis using \<open>u = u'\<close> Pack_unpack(1) assms(1,2) unfolding entry_small_def by (metis prod.simps(2))
qed

lemma entry_differs:
  assumes "entry_small e" "entry_small e'" "key (fst e)" "key (fst e')" "fst e \<noteq> fst e' \<or> fst (snd e) \<noteq> fst (snd e')"
  shows "mem_cmp (entry_encoding e) (entry_encoding e') \<noteq> 0"
proof -
  obtain u s t v u' s' t' v' where e: "e = (u, s, t, v)" "e' = (u', s', t', v')" by (metis surj_pair)
  have "ikey key (entry_ikey e)" "ikey key (entry_ikey e')" using assms(3,4) by (simp_all add: e ikey_def)
  from ikc_eq_iff [OF this] show ?thesis
    using mem_cmp_entries [OF assms(1,2)] entry_ikey_inject [of u s t v u' s' t' v'] assms by (auto simp: e)
qed

lemma encoded_length:
  assumes "entry_small (u, s, t, v)"
  shows "length (entry_encoding (u, s, t, v)) = VarintLength (word_of_nat (length u + 8)) + (length u + 8)
      + VarintLength (word_of_nat (length v)) + length v"
    "length (entry_encoding (u, s, t, v)) < 2 ^ 64"
proof -
  have w: "ucast (word_of_nat n :: u32) = (word_of_nat n :: u64)" if "n < 2 ^ 32" for n
    using that by (intro word_unat_eq_iff [THEN iffD2]) (simp add: unsigned_ucast_eq unat_of_nat take_bit_nat_eq_self)
  have l: "length (EncodeVarint32 (word_of_nat n)) = VarintLength (word_of_nat n)" if "n < 2 ^ 32" for n
    unfolding EncodeVarint32_is_loop w [OF that] by (rule length_EncodeVarint64)
  show "length (entry_encoding (u, s, t, v)) = VarintLength (word_of_nat (length u + 8)) + (length u + 8)
      + VarintLength (word_of_nat (length v)) + length v"
    using assms l [of "length u + 8"] l [of "length v"] by (simp add: entry_encoding_def entry_small_def)
  show "length (entry_encoding (u, s, t, v)) < 2 ^ 64"
    using assms EncodeVarint32_max [of "word_of_nat (length u + 8)"] EncodeVarint32_max [of "word_of_nat (length v)"]
    by (simp add: entry_encoding_def entry_small_def)
qed

lemma MemTable_Add_holds:
  assumes m: "holds m es" and e: "entry_small (u, s, t, v)" "key u"
    and new: "\<forall>e \<in> set es. fst e \<noteq> u \<or> fst (snd e) \<noteq> s"
  shows "\<exists>m'. MemTable_Add s t u v m = Some m' \<and> holds m' (es @ [(u, s, t, v)])"
proof -
  note ord = memtable_order
  let ?e = "(u, s, t, v)" and ?ok = "mem_key key"
  obtain ks where ks: "key_order.represents ?ok mem_cmp (mt_table m) ks" "set ks = entry_encoding ` set es"
    using m by (auto simp: holds_def)
  have len: "0 < (word_of_nat (length (entry_encoding ?e)) :: u64)"
  proof -
    have "0 < length (entry_encoding ?e)" by (simp add: entry_encoding_def)
    moreover have "unat (word_of_nat (length (entry_encoding ?e)) :: u64) = length (entry_encoding ?e)"
      by (rule unat_of_nat_u64) (rule encoded_length(2) [OF e(1)])
    ultimately show ?thesis by (simp add: word_less_nat_alt)
  qed
  obtain p a where a: "Allocate (word_of_nat (length (entry_encoding ?e))) (sl_arena (mt_table m)) = Some (p, a)" "arena_aligned a"
    using Allocate_aligned [OF represents_arena(1) [OF ks(1) ord] len] by blast
  have rep: "key_order.represents ?ok mem_cmp ((mt_table m)\<lparr>sl_arena := a\<rparr>) ks"
    by (rule represents_arena(2) [OF ks(1) ord a(2)])
  have ok: "?ok (entry_encoding ?e)" using mem_key_entry [OF e(1)] e(2) by simp
  have "mem_cmp b (entry_encoding ?e) \<noteq> 0" if b: "b \<in> set ks" for b
  proof -
    obtain e' where e': "e' \<in> set es" "b = entry_encoding e'" using b ks(2) by auto
    then have "entry_small e'" "key (fst e')" "fst e' \<noteq> u \<or> fst (snd e') \<noteq> s" using m new by (auto simp: holds_def)
    then show ?thesis using entry_differs [of e' ?e] e e'(2) by simp
  qed
  then obtain l where l: "SkipList_Insert (entry_encoding ?e) ((mt_table m)\<lparr>sl_arena := a\<rparr>) = Some l"
    "key_order.represents ?ok mem_cmp l (key_order.insert_sorted mem_cmp (entry_encoding ?e) ks)"
    using key_order.represents_Insert [OF ord rep ok] by blast
  have buf: "EncodeVarint32 (word_of_nat (length u + 8)) @ u @ EncodeFixed64 (push_bit 8 s OR ValueType_value t)
      @ EncodeVarint32 (word_of_nat (length v)) @ v = entry_encoding ?e"
    by (simp add: entry_encoding_def PackSequenceAndType_def)
  have "MemTable_Add s t u v m = Some (m\<lparr>mt_table := l\<rparr>)"
    unfolding MemTable_Add_def Let_def buf encoded_length(1) [OF e(1), symmetric] using a(1) l(1) by simp
  moreover have "holds (m\<lparr>mt_table := l\<rparr>) (es @ [?e])"
  proof -
    have ks': "set (key_order.insert_sorted mem_cmp (entry_encoding ?e) ks) = entry_encoding ` set (es @ [?e])"
      unfolding key_order.insert_sorted_set(1) [OF ord] ks(2) by simp
    have small: "entry_small x \<and> key (fst x)" if "x \<in> set (es @ [?e])" for x
      using that m e by (auto simp: holds_def)
    have distinct: "x = y" if xy: "x \<in> set (es @ [?e])" "y \<in> set (es @ [?e])" "fst x = fst y" "fst (snd x) = fst (snd y)" for x y
    proof -
      consider "x \<in> set es" "y \<in> set es" | "x \<in> set es" "y = ?e" | "x = ?e" "y \<in> set es" | "x = ?e" "y = ?e"
        using xy(1,2) by auto
      then show ?thesis
      proof cases
        case 1
        then show ?thesis using m xy(3,4) unfolding holds_def by blast
      next
        case 2
        then show ?thesis using new xy(3,4) by simp
      next
        case 3
        then show ?thesis using new xy(3,4) by (metis fst_conv snd_conv)
      qed simp
    qed
    have "mt_user_comparator (m\<lparr>mt_table := l\<rparr>) = cmp" "mt_table (m\<lparr>mt_table := l\<rparr>) = l" using m by (simp_all add: holds_def)
    then show ?thesis unfolding holds_def using l(2) ks' small distinct by (metis (no_types, lifting))
  qed
  ultimately show ?thesis by blast
qed

lemma new_MemTable_holds:
  assumes "arena_aligned arena"
  shows "\<exists>m. new_MemTable cmp arena = Some m \<and> holds m []"
  using key_order.list_represents_new [OF memtable_order assms] by (auto simp: new_MemTable_def holds_def)

end

text \<open>The newest entry for a user key that a snapshot can see.\<close>

fun newest :: "Slice \<Rightarrow> SequenceNumber \<Rightarrow> mem_entry list \<Rightarrow> mem_entry option" where
  "newest u s [] = None"
| "newest u s (e # es) =
     (let rest = newest u s es
      in if fst e = u \<and> fst (snd e) \<le> s
            \<and> (case rest of None \<Rightarrow> True | Some e' \<Rightarrow> fst (snd e') < fst (snd e))
         then Some e else rest)"

lemma newest_None: "newest u s es = None \<longleftrightarrow> (\<forall>e \<in> set es. fst e = u \<longrightarrow> \<not> fst (snd e) \<le> s)"
  by (induction es) (auto simp: Let_def split: option.splits)

lemma newest_Some:
  "newest u s es = Some e \<Longrightarrow> e \<in> set es \<and> fst e = u \<and> fst (snd e) \<le> s
     \<and> (\<forall>e' \<in> set es. fst e' = u \<longrightarrow> fst (snd e') \<le> s \<longrightarrow> fst (snd e') \<le> fst (snd e))"
proof (induction es arbitrary: e)
  case (Cons a es)
  show ?case
  proof (cases "newest u s es")
    case None
    then have "\<forall>e' \<in> set es. fst e' = u \<longrightarrow> \<not> fst (snd e') \<le> s" using newest_None by blast
    then show ?thesis using Cons.prems None by (auto simp: Let_def split: if_splits)
  next
    case (Some b)
    note b = Cons.IH [OF this]
    show ?thesis
    proof (cases "fst a = u \<and> fst (snd a) \<le> s \<and> fst (snd b) < fst (snd a)")
      case True
      then have "e = a" using Cons.prems Some by (simp add: Let_def)
      then show ?thesis using True b by (auto intro: order.trans less_imp_le)
    next
      case False
      then have "e = b" using Cons.prems Some by (auto simp: Let_def)
      then show ?thesis using False b by (auto simp: not_less)
    qed
  qed
qed simp

text \<open>What a lookup answers, given that entry.\<close>

definition answer :: "mem_entry option \<Rightarrow> bytes \<Rightarrow> Status \<Rightarrow> bool \<times> bytes \<times> Status" where
  "answer e value s =
     (case e of
        None \<Rightarrow> (False, value, s)
      | Some (_, _, kTypeValue, v) \<Rightarrow> (True, v, s)
      | Some (_, _, kTypeDeletion, _) \<Rightarrow> (True, value, Status_NotFound [] []))"

lemma first_after:
  assumes "sorted_wrt R ks" "x \<in> set ks" "\<not> P x"
  shows "length (takeWhile P ks) < length ks
    \<and> (x = ks ! length (takeWhile P ks) \<or> R (ks ! length (takeWhile P ks)) x)"
proof -
  obtain i where i: "i < length ks" "x = ks ! i" using assms(2) by (metis in_set_conv_nth)
  have "length (takeWhile P ks) \<le> i" using i assms(3) by (metis not_le nth_mem set_takeWhileD takeWhile_nth)
  then show ?thesis using i sorted_wrt_nth_less [OF assms(1)] by (metis le_neq_implies_less order_le_less_trans)
qed

lemma tag_type:
  assumes "s \<le> kMaxSequenceNumber"
  shows "PackSequenceAndType s t AND 0xff = ValueType_value t"
proof -
  have "w AND 0xff = ucast (ucast w :: byte)" for w :: u64
  proof -
    have "(0xff :: u64) = mask 8" by (simp add: mask_eq_exp_minus_1)
    show ?thesis unfolding \<open>(0xff :: u64) = mask 8\<close> by (intro bit_word_eqI) (auto simp: bit_simps)
  qed
  then have "PackSequenceAndType s t AND 0xff = ucast (ucast (ValueType_value t) :: byte)"
    using Pack_unpack(2) [OF assms] by simp
  then show ?thesis by (cases t) simp_all
qed

context comparator
begin

text \<open>Where a lookup stops.\<close>

lemma before_lookup:
  assumes "entry_small e" "key (fst e)" "length u + 8 < 2 ^ 32" "key u" "s \<le> kMaxSequenceNumber"
  shows "mem_cmp (entry_encoding e) (memtable_key (new_LookupKey u s)) < 0
    \<longleftrightarrow> Compare cmp (fst e) u < 0 \<or> fst e = u \<and> s < fst (snd e)"
proof -
  obtain u' s' t' v' where e: "e = (u', s', t', v')" by (metis surj_pair)
  have "\<not> ValueType_value kTypeValue < ValueType_value t'" by (cases t') simp_all
  then show ?thesis
    using ikey_compare [of u' u s' s t' v' kTypeValue "[]"] mem_cmp_lookup [OF assms(1,3), of s] assms
    by (auto simp: e entry_small_def)
qed

lemma entries_less:
  assumes "entry_small e" "entry_small e'" "key (fst e)" "key (fst e')" "mem_cmp (entry_encoding e) (entry_encoding e') < 0"
  shows "Compare cmp (fst e) (fst e') < 0 \<or> fst e = fst e' \<and> fst (snd e') \<le> fst (snd e)"
proof -
  obtain u s t v u' s' t' v' where e: "e = (u, s, t, v)" "e' = (u', s', t', v')" by (metis surj_pair)
  show ?thesis using ikey_compare [of u u' s s' t v t' v'] mem_cmp_entries [OF assms(1,2)] assms
    by (auto simp: e entry_small_def)
qed

lemma lookup_stops:
  assumes m: "holds m es" and ks: "key_order.represents (mem_key key) mem_cmp (mt_table m) ks" "set ks = entry_encoding ` set es"
    and u: "length u + 8 < 2 ^ 32" "key u" "s \<le> kMaxSequenceNumber"
    and n: "n = length (takeWhile (\<lambda>a. mem_cmp a (memtable_key (new_LookupKey u s)) < 0) ks)"
  shows "if n < length ks
    then \<exists>e \<in> set es. ks ! n = entry_encoding e \<and> newest u s es = (if fst e = u then Some e else None)
    else newest u s es = None"
proof -
  let ?P = "\<lambda>a. mem_cmp a (memtable_key (new_LookupKey u s)) < 0"
  have small: "entry_small e" "key (fst e)" if "e \<in> set es" for e using m that by (auto simp: holds_def)
  have P: "?P (entry_encoding e) \<longleftrightarrow> Compare cmp (fst e) u < 0 \<or> fst e = u \<and> s < fst (snd e)" if "e \<in> set es" for e
    by (rule before_lookup [OF small [OF that] u])
  have sorted: "sorted_wrt (\<lambda>a b. mem_cmp a b < 0) ks"
    using key_order.represents_sorted [OF memtable_order ks(1)] by blast
  have visible: "n < length ks \<and> (entry_encoding e = ks ! n \<or> mem_cmp (ks ! n) (entry_encoding e) < 0)"
    if e: "e \<in> set es" "fst e = u" "fst (snd e) \<le> s" for e
  proof -
    have "\<not> ?P (entry_encoding e)" unfolding P [OF e(1)] using e(2,3) refl u(2) by auto
    moreover have "entry_encoding e \<in> set ks" using ks(2) e(1) by simp
    ultimately show ?thesis unfolding n using first_after [OF sorted, of _ ?P] by blast
  qed
  show ?thesis
  proof (cases "n < length ks")
    case True
    then obtain e where e: "e \<in> set es" "ks ! n = entry_encoding e" using ks(2) nth_mem [OF True] by auto
    have stop: "\<not> ?P (entry_encoding e)" using True e(2) nth_length_takeWhile [of ?P ks] unfolding n by simp
    have later: "e = e' \<or> Compare cmp (fst e) u < 0 \<or> fst e = u \<and> fst (snd e') \<le> fst (snd e)"
      if e': "e' \<in> set es" "fst e' = u" "fst (snd e') \<le> s" for e'
    proof (cases "mem_cmp (entry_encoding e) (entry_encoding e') < 0")
      case True
      from entries_less [OF small(1) [OF e(1)] small(1) [OF e'(1)] small(2) [OF e(1)] small(2) [OF e'(1)] this] e'(2)
      show ?thesis by simp
    next
      case False
      then have "entry_encoding e' = entry_encoding e" using visible [OF e'] e(2) by simp
      then have "mem_cmp (entry_encoding e) (entry_encoding e') = 0" using e(1) memtable_order
        by (metis False antisym_conv3 key_order.swap mem_key_entry small)
      then have "\<not> (fst e \<noteq> fst e' \<or> fst (snd e) \<noteq> fst (snd e'))"
        using entry_differs [OF small(1) [OF e(1)] small(1) [OF e'(1)] small(2) [OF e(1)] small(2) [OF e'(1)]] by blast
      then show ?thesis using m e(1) e'(1) unfolding holds_def by blast
    qed
    have "newest u s es = (if fst e = u then Some e else None)"
    proof (cases "fst e = u")
      case eu: True
      then have s: "fst (snd e) \<le> s" using stop P [OF e(1)] by auto
      then obtain e' where e': "newest u s es = Some e'" using newest_None [of u s es] e(1) eu by (cases "newest u s es") auto
      note w = newest_Some [OF e']
      have "\<not> Compare cmp (fst e) u < 0" using eu refl u(2) by simp
      then have "e = e' \<or> fst (snd e') \<le> fst (snd e)" using later [of e'] w by blast
      moreover have "fst (snd e) \<le> fst (snd e')" using w e(1) eu s by blast
      ultimately have "e = e'" using m e(1) w eu unfolding holds_def by (metis antisym)
      then show ?thesis using e' eu by simp
    next
      case eu: False
      have "\<not> fst (snd e') \<le> s" if "e' \<in> set es" "fst e' = u" for e'
        using later [OF that] stop P [OF e(1)] eu that(2) by blast
      then show ?thesis using newest_None [of u s es] eu by simp
    qed
    then show ?thesis using True e by auto
  next
    case False
    then have "newest u s es = None" using visible unfolding newest_None by blast
    then show ?thesis using False by simp
  qed
qed

lemma MemTable_Get_holds:
  assumes m: "holds m es" and u: "length u + 8 < 2 ^ 32" "key u" "s \<le> kMaxSequenceNumber"
  shows "MemTable_Get (new_LookupKey u s) value st m = Some (answer (newest u s es) value st)"
proof -
  note ord = memtable_order
  let ?K = "memtable_key (new_LookupKey u s)"
  obtain ks where ks: "key_order.represents (mem_key key) mem_cmp (mt_table m) ks" "set ks = entry_encoding ` set es"
    using m by (auto simp: holds_def)
  define n where "n = length (takeWhile (\<lambda>a. mem_cmp a ?K < 0) ks)"
  obtain i where i: "SkipIter_Seek ?K (new_SkipIter (mt_table m)) = Some i" "key_order.skip_at (mem_key key) mem_cmp i ks n"
    using key_order.skip_seek [OF ord key_order.skip_new [OF ord ks(1)] mem_key_lookup [OF u(1,2)], of s] unfolding n_def by blast
  note stops = lookup_stops [OF m ks u n_def]
  have cmp: "mt_user_comparator m = cmp" using m by (simp add: holds_def)
  show ?thesis
  proof (cases "n < length ks")
    case True
    then obtain e where e: "e \<in> set es" "ks ! n = entry_encoding e" "newest u s es = (if fst e = u then Some e else None)"
      using stops by auto
    obtain u' s' t v where eq: "e = (u', s', t, v)" by (metis surj_pair)
    have small: "entry_small e" "key u'" using m e(1) eq by (auto simp: holds_def)
    then have s': "s' \<le> kMaxSequenceNumber" by (simp add: entry_small_def eq)
    have k: "SkipIter_Valid i" "SkipIter_key i = Some (entry_encoding e)"
      using key_order.skip_valid [OF ord i(2)] key_order.skip_key [OF ord i(2) True] True e(2) by simp_all
    obtain rest where r: "EntrySlice (entry_encoding e) = Some (u' @ EncodeFixed64 (PackSequenceAndType s' t), rest)"
      "EntrySlice rest = Some (v, [])"
      using EntrySlice_entry [OF small(1)] by (auto simp: eq)
    have d: "DecodeFixed64 (EncodeFixed64 w) = Some w" for w using DecodeFixed64_EncodeFixed64 [of w "[]"] by simp
    have "MemTable_Get (new_LookupKey u s) value st m =
      (if Compare cmp u' u = 0 then
         if ValueType_value t = ValueType_value kTypeValue then Some (True, v, st)
         else if ValueType_value t = ValueType_value kTypeDeletion then Some (True, value, Status_NotFound [] [])
         else Some (False, value, st)
       else Some (False, value, st))"
      unfolding MemTable_Get_def Let_def i(1) cmp Option.bind.simps if_P [OF k(1)] k(2) r(1) prod.case LookupKey_parts(2)
      by (simp add: r(2) d tag_type [OF s'])
    then have "MemTable_Get (new_LookupKey u s) value st m =
      (if Compare cmp u' u = 0 then Some (answer (Some e) value st) else Some (False, value, st))"
      by (cases t) (simp_all add: answer_def eq)
    then show ?thesis using e(3) eq_iff [OF small(2) u(2)] by (simp add: eq answer_def)
  next
    case False
    then show ?thesis using stops key_order.skip_valid [OF ord i(2)] by (simp add: MemTable_Get_def i(1) answer_def)
  qed
qed

end

interpretation memtable_bytewise: key_order "mem_key (\<lambda>_. True)" "KeyComparator (InternalKeyComparator BytewiseComparator)"
  by (rule bytewise.memtable_order)

subsection \<open>The iterator keeps the contract\<close>

definition mem_pair :: "mem_entry \<Rightarrow> Slice \<times> Slice" where
  "mem_pair e = (entry_ikey e, snd (snd (snd e)))"

definition short_ikey :: "(Slice \<Rightarrow> bool) \<Rightarrow> Slice \<Rightarrow> bool" where
  "short_ikey key k \<longleftrightarrow> ikey key k \<and> length k < 2 ^ 32"

definition mem_at :: "(Slice \<Rightarrow> bool) \<Rightarrow> Comparator \<Rightarrow> MemTableIterator \<Rightarrow> entries \<Rightarrow> nat \<Rightarrow> bool" where
  "mem_at key cmp i es n \<longleftrightarrow>
     (\<exists>xs. key_order.skip_at (mem_key key) (KeyComparator (InternalKeyComparator cmp)) i (map entry_encoding xs) n
        \<and> es = map mem_pair xs \<and> (\<forall>e \<in> set xs. entry_small e \<and> key (fst e)))"

context comparator
begin

lemma mem_iterator: "iterator MemTableIterator_ops (short_ikey key) (InternalKeyComparator cmp) (mem_at key cmp)"
proof
  note ord = memtable_order
  fix i es n
  assume "mem_at key cmp i es n"
  then obtain xs where at: "key_order.skip_at (mem_key key) mem_cmp i (map entry_encoding xs) n"
    and es: "es = map mem_pair xs" and small: "\<forall>e \<in> set xs. entry_small e \<and> key (fst e)"
    by (auto simp: mem_at_def)
  have len: "length es = length xs" by (simp add: es)
  have moved: "\<exists>i'. f = Some i' \<and> mem_at key cmp i' es m"
    if "\<exists>i'. f = Some i' \<and> key_order.skip_at (mem_key key) mem_cmp i' (map entry_encoding xs) m" for f m
    using that es small by (auto simp: mem_at_def)
  have entry: "SkipIter_key i = Some (entry_encoding (xs ! n))" "entry_small (xs ! n)" if "n < length es"
    using key_order.skip_key [OF ord at] that small by (simp_all add: len)
  show "n \<le> length es" using key_order.skip_list [OF ord at] by (simp add: len)
  show "it_Valid MemTableIterator_ops i \<longleftrightarrow> n < length es"
    using key_order.skip_valid [OF ord at] by (simp add: MemTableIterator_ops_def len)
  show "Status_ok (it_status MemTableIterator_ops i)" by (simp add: MemTableIterator_ops_def Status_ok_def Status_OK_def)
  show "it_key MemTableIterator_ops i = Some (fst (es ! n))" if n: "n < length es"
    using entry [OF n] EntrySlice_entry [OF entry(2) [OF n]] n by (auto simp: MemTableIterator_ops_def es mem_pair_def)
  show "it_value MemTableIterator_ops i = Some (snd (es ! n))" if n: "n < length es"
    using entry [OF n] EntrySlice_entry [OF entry(2) [OF n]] n by (auto simp: MemTableIterator_ops_def es mem_pair_def)
  show "\<exists>i'. it_SeekToFirst MemTableIterator_ops i = Some i' \<and> mem_at key cmp i' es 0"
    using moved [OF key_order.skip_first [OF ord at]] by (simp add: MemTableIterator_ops_def)
  show "\<exists>i'. it_SeekToLast MemTableIterator_ops i = Some i' \<and> mem_at key cmp i' es (length es - 1)"
    using moved [OF key_order.skip_last [OF ord at]] by (simp add: MemTableIterator_ops_def len)
  show "\<exists>i'. it_Next MemTableIterator_ops i = Some i' \<and> mem_at key cmp i' es (n + 1)" if "n < length es"
    using moved [OF key_order.skip_next [OF ord at]] that by (simp add: MemTableIterator_ops_def len)
  show "\<exists>i'. it_Prev MemTableIterator_ops i = Some i' \<and> mem_at key cmp i' es (if n = 0 then length es else n - 1)"
    if "n < length es"
    using moved [OF key_order.skip_prev [OF ord at, unfolded length_map, folded len, OF that]]
    unfolding MemTableIterator_ops_def Iterator.select_convs .
  show "\<exists>i'. it_Seek MemTableIterator_ops target i = Some i'
      \<and> mem_at key cmp i' es (position (InternalKeyComparator cmp) target es)" if t: "short_ikey key target" for target
  proof -
    have e: "EntrySlice (EncodeKey target) = Some (target, [])" using EntrySlice_EncodeKey t by (simp add: short_ikey_def)
    have k: "mem_key key (EncodeKey target)" using e t by (simp add: mem_key_def short_ikey_def)
    have "mem_cmp (entry_encoding x) (EncodeKey target) = Compare (InternalKeyComparator cmp) (fst (mem_pair x)) target"
      if x: "x \<in> set xs" for x
    proof -
      have "entry_small x" using small x by blast
      then obtain r where "EntrySlice (entry_encoding x) = Some (entry_ikey x, r)" using EntrySlice_entry by blast
      from KeyComparator_eq [OF this e] show ?thesis by (simp add: mem_pair_def)
    qed
    then have "length (takeWhile (\<lambda>a. mem_cmp a (EncodeKey target) < 0) (map entry_encoding xs))
        = position (InternalKeyComparator cmp) target es"
      unfolding position_def es takeWhile_map comp_def length_map by (metis (mono_tags, lifting) takeWhile_cong)
    then show ?thesis using moved [OF key_order.skip_seek [OF ord at k]] by (simp add: MemTableIterator_ops_def)
  qed
qed

text \<open>A new iterator over a memtable shows its entries in the order of their internal keys.\<close>

lemma holds_scan:
  assumes m: "holds m es"
  shows "\<exists>xs. set xs = set es \<and> sorted_entries (InternalKeyComparator cmp) (map mem_pair xs)
    \<and> mem_at key cmp (MemTable_NewIterator m) (map mem_pair xs) (length xs)"
proof -
  note ord = memtable_order
  obtain ks where ks: "key_order.represents (mem_key key) mem_cmp (mt_table m) ks" "set ks = entry_encoding ` set es"
    using m by (auto simp: holds_def)
  have small: "entry_small e \<and> key (fst e)" if "e \<in> set es" for e using m that by (auto simp: holds_def)
  have inj: "inj_on entry_encoding (set es)"
  proof
    fix e e' assume e: "e \<in> set es" "e' \<in> set es" "entry_encoding e = entry_encoding e'"
    have "mem_key key (entry_encoding e)" using mem_key_entry small e(1) by blast
    then have "mem_cmp (entry_encoding e) (entry_encoding e) = 0" using key_order.swap [OF ord, of "entry_encoding e" "entry_encoding e"] by linarith
    then have "fst e = fst e' \<and> fst (snd e) = fst (snd e')"
      using entry_differs [of e e'] small [OF e(1)] small [OF e(2)] e(3) by auto
    then show "e = e'" using m e(1,2) unfolding holds_def by blast
  qed
  define xs where "xs = map (the_inv_into (set es) entry_encoding) ks"
  have "map entry_encoding xs = map (\<lambda>k. k) ks"
    unfolding xs_def map_map by (rule map_cong) (use ks(2) inj in \<open>auto simp: f_the_inv_into_f\<close>)
  then have map: "map entry_encoding xs = ks" by simp
  have "set xs = the_inv_into (set es) entry_encoding ` entry_encoding ` set es" by (simp add: xs_def ks(2))
  also have "\<dots> = set es" using inj by (force simp: the_inv_into_f_f image_iff)
  finally have set: "set xs = set es" .
  have "sorted_wrt (\<lambda>a b. mem_cmp (entry_encoding a) (entry_encoding b) < 0) xs"
    using key_order.represents_sorted [OF ord ks(1)] unfolding map [symmetric] sorted_wrt_map by blast
  then have "sorted_wrt (\<lambda>a b. Compare (InternalKeyComparator cmp) (entry_ikey a) (entry_ikey b) < 0) xs"
    by (rule sorted_wrt_mono_rel [rotated]) (use small set mem_cmp_entries in auto)
  then have "sorted_entries (InternalKeyComparator cmp) (map mem_pair xs)"
    by (simp add: sorted_entries_def sorted_wrt_map mem_pair_def)
  moreover have "mem_at key cmp (MemTable_NewIterator m) (map mem_pair xs) (length xs)"
    unfolding mem_at_def MemTable_NewIterator_def
    by (rule exI [of _ xs]) (use key_order.skip_new [OF ord ks(1)] map small set in auto)
  ultimately show ?thesis using set by blast
qed

end

interpretation memtable_iterator_bytewise: iterator MemTableIterator_ops "short_ikey (\<lambda>_. True)"
  "InternalKeyComparator BytewiseComparator" "mem_at (\<lambda>_. True) BytewiseComparator"
  by (rule bytewise.mem_iterator)

subsection \<open>Batches of operations\<close>

text \<open>The entry that an operation makes, and the entries of operations with consecutive sequence
  numbers.\<close>

fun op_entry :: "SequenceNumber \<Rightarrow> batch_op \<Rightarrow> mem_entry" where
  "op_entry s (Put_op k v) = (k, s, kTypeValue, v)"
| "op_entry s (Delete_op k) = (k, s, kTypeDeletion, [])"

fun op_key :: "batch_op \<Rightarrow> Slice" where
  "op_key (Put_op k v) = k"
| "op_key (Delete_op k) = k"

fun op_result :: "batch_op \<Rightarrow> Slice option" where
  "op_result (Put_op k v) = Some v"
| "op_result (Delete_op k) = None"

fun op_entries :: "SequenceNumber \<Rightarrow> batch_op list \<Rightarrow> mem_entry list" where
  "op_entries s [] = []"
| "op_entries s (x # xs) = op_entry s x # op_entries (s + 1) xs"

text \<open>A batch is filled, numbered and inserted.\<close>

definition write_batch :: "SequenceNumber \<Rightarrow> batch_op list \<Rightarrow> MemTable \<Rightarrow> MemTable option" where
  "write_batch s xs m =
     Option.bind (apply_ops batch_builder xs new_WriteBatch) (\<lambda>b.
     Option.bind (WriteBatch_SetSequence s b) (\<lambda>b.
     Option.bind (InsertInto b m) (\<lambda>(st, m). if Status_ok st then Some m else None)))"

fun write_batches :: "SequenceNumber \<Rightarrow> batch_op list list \<Rightarrow> MemTable \<Rightarrow> MemTable option" where
  "write_batches s [] m = Some m"
| "write_batches s (b # bs) m = Option.bind (write_batch s b m) (write_batches (s + word_of_nat (length b)) bs)"

text \<open>The map that the operations describe: the last result for each key that was put or deleted.\<close>

definition kv_map :: "batch_op list \<Rightarrow> Slice \<Rightarrow> Slice option option" where
  "kv_map xs = foldl (\<lambda>f x. f(op_key x \<mapsto> op_result x)) Map.empty xs"

definition kv_answer :: "Slice option option \<Rightarrow> bytes \<Rightarrow> Status \<Rightarrow> bool \<times> bytes \<times> Status" where
  "kv_answer r value s =
     (case r of
        None \<Rightarrow> (False, value, s)
      | Some None \<Rightarrow> (True, value, Status_NotFound [] [])
      | Some (Some v) \<Rightarrow> (True, v, s))"

text \<open>An operation on a key of the comparator, of a size that a memtable can hold.\<close>

definition op_fits :: "(Slice \<Rightarrow> bool) \<Rightarrow> batch_op \<Rightarrow> bool" where
  "op_fits key x \<longleftrightarrow> op_small x \<and> length (op_key x) + 8 < 2 ^ 32 \<and> key (op_key x)"

lemma op_entries_append: "op_entries s (xs @ ys) = op_entries s xs @ op_entries (s + word_of_nat (length xs)) ys"
  by (induction xs arbitrary: s) (simp_all add: algebra_simps)

lemma op_entry_fst [simp]: "fst (op_entry s x) = op_key x" "fst (snd (op_entry s x)) = s"
  by (cases x; simp)+

lemma op_entries_mem:
  "e \<in> set (op_entries s xs) \<Longrightarrow> \<exists>i < length xs. e = op_entry (s + word_of_nat i) (xs ! i)"
proof (induction xs arbitrary: s)
  case (Cons x xs)
  then consider "e = op_entry s x" | "e \<in> set (op_entries (s + 1) xs)" by auto
  then show ?case
  proof cases
    case 2
    from Cons.IH [OF this] obtain i where "i < length xs" "e = op_entry (s + 1 + word_of_nat i) (xs ! i)" by blast
    then show ?thesis by (intro exI [of _ "Suc i"]) (simp add: algebra_simps)
  qed (intro exI [of _ 0], simp)
qed simp

lemma seq_plus:
  fixes s :: SequenceNumber
  shows "unat s + n \<le> unat kMaxSequenceNumber \<Longrightarrow> unat (s + word_of_nat n) = unat s + n"
  by (simp add: kMaxSequenceNumber_def unat_word_ariths unat_of_nat)

lemma newest_last:
  assumes "\<forall>e' \<in> set es. fst (snd e') < fst (snd e)"
  shows "newest u s (es @ [e]) = (if fst e = u \<and> fst (snd e) \<le> s then Some e else newest u s es)"
  using assms
proof (induction es)
  case (Cons a es)
  then have "fst (snd a) < fst (snd e)" by simp
  then show ?case using Cons by (auto simp: Let_def)
qed simp

lemma newest_kv_map:
  assumes "unat s0 + length xs \<le> unat kMaxSequenceNumber"
  shows "answer (newest u s (op_entries s0 xs)) value st = kv_answer (kv_map (take (unat s + 1 - unat s0) xs) u) value st"
  using assms
proof (induction xs rule: rev_induct)
  case Nil
  then show ?case by (simp add: answer_def kv_answer_def kv_map_def)
next
  case (snoc x xs)
  let ?n = "unat s + 1 - unat s0" and ?e = "op_entry (s0 + word_of_nat (length xs)) x"
  have pos: "unat (s0 + word_of_nat i) = unat s0 + i" if "i \<le> length xs" for i
    using that snoc.prems by (intro seq_plus) simp
  have "\<forall>e' \<in> set (op_entries s0 xs). fst (snd e') < fst (snd ?e)"
    using op_entries_mem pos by (fastforce simp: word_less_nat_alt)
  note new = newest_last [OF this, of u s]
  have vis: "fst (snd ?e) \<le> s \<longleftrightarrow> length xs < ?n" using pos [OF order_refl] by (auto simp: word_le_nat_alt)
  have IH: "answer (newest u s (op_entries s0 xs)) value st = kv_answer (kv_map (take ?n xs) u) value st"
    using snoc by simp
  show ?case
  proof (cases "length xs < ?n")
    case True
    then have t: "take ?n (xs @ [x]) = take ?n xs @ [x]" "take ?n xs = xs" by (simp_all add: take_Cons')
    have a: "answer (Some (op_entry sq x)) value st = kv_answer (Some (op_result x)) value st" for sq
      by (cases x) (simp_all add: answer_def kv_answer_def)
    show ?thesis using new vis True IH a unfolding t op_entries_append by (auto simp: kv_map_def)
  next
    case False
    then have "take ?n (xs @ [x]) = take ?n xs" by simp
    then show ?thesis using new vis False IH unfolding op_entries_append by simp
  qed
qed

context comparator
begin

lemma op_entry_fits: "op_fits key x \<Longrightarrow> s \<le> kMaxSequenceNumber \<Longrightarrow> entry_small (op_entry s x) \<and> key (op_key x)"
  by (cases x) (simp_all add: op_fits_def entry_small_def)

lemma inserter_op:
  assumes "holds m (op_entries s0 ys)" "op_fits key x" "unat s0 + length ys \<le> unat kMaxSequenceNumber"
  shows "\<exists>m'. apply_op MemTableInserter_ops x \<lparr>mi_sequence = s0 + word_of_nat (length ys), mi_mem = m\<rparr>
      = Some \<lparr>mi_sequence = s0 + word_of_nat (length (ys @ [x])), mi_mem = m'\<rparr> \<and> holds m' (op_entries s0 (ys @ [x]))"
proof -
  let ?s = "s0 + word_of_nat (length ys)"
  have pos: "unat (s0 + word_of_nat i) = unat s0 + i" if "i \<le> length ys" for i
    using that assms(3) by (intro seq_plus) simp
  have "?s \<le> kMaxSequenceNumber" using pos [OF order_refl] assms(3) by (simp add: word_le_nat_alt)
  note fits = op_entry_fits [OF assms(2) this]
  obtain u s t v where e: "op_entry ?s x = (u, s, t, v)" by (metis surj_pair)
  have us: "u = op_key x" "s = ?s" using arg_cong [OF e, of fst] arg_cong [OF e, of "fst o snd"] by simp_all
  have "fst (snd e) \<noteq> ?s" if e: "e \<in> set (op_entries s0 ys)" for e
  proof -
    obtain i where "i < length ys" "e = op_entry (s0 + word_of_nat i) (ys ! i)" using op_entries_mem [OF e] by blast
    then have "unat (fst (snd e)) \<noteq> unat ?s" using pos [of i] pos [OF order_refl] by simp
    then show ?thesis by metis
  qed
  then have "\<forall>e \<in> set (op_entries s0 ys). fst e \<noteq> u \<or> fst (snd e) \<noteq> s" using us by blast
  from MemTable_Add_holds [OF assms(1) _ _ this, of t v] fits
  obtain m' where m': "MemTable_Add s t u v m = Some m'" "holds m' (op_entries s0 ys @ [(u, s, t, v)])"
    unfolding e us(1) by blast
  have "apply_op MemTableInserter_ops x \<lparr>mi_sequence = ?s, mi_mem = m\<rparr> = Some \<lparr>mi_sequence = ?s + 1, mi_mem = m'\<rparr>"
    using m'(1) e us by (cases x) (auto simp: MemTableInserter_ops_def)
  then show ?thesis using m'(2) unfolding op_entries_append by (simp add: e add.assoc add.commute)
qed

lemma inserter_ops:
  "holds m (op_entries s0 ys) \<Longrightarrow> \<forall>x \<in> set xs. op_fits key x \<Longrightarrow> unat s0 + length (ys @ xs) \<le> unat kMaxSequenceNumber \<Longrightarrow>
   \<exists>m'. apply_ops MemTableInserter_ops xs \<lparr>mi_sequence = s0 + word_of_nat (length ys), mi_mem = m\<rparr>
      = Some \<lparr>mi_sequence = s0 + word_of_nat (length (ys @ xs)), mi_mem = m'\<rparr> \<and> holds m' (op_entries s0 (ys @ xs))"
proof (induction xs arbitrary: m ys)
  case (Cons x xs)
  obtain m1 where m1: "apply_op MemTableInserter_ops x \<lparr>mi_sequence = s0 + word_of_nat (length ys), mi_mem = m\<rparr>
      = Some \<lparr>mi_sequence = s0 + word_of_nat (length (ys @ [x])), mi_mem = m1\<rparr>" "holds m1 (op_entries s0 (ys @ [x]))"
    using inserter_op [OF Cons.prems(1), of x] Cons.prems(2,3) by auto
  show ?case using Cons.IH [OF m1(2)] Cons.prems(2,3) m1(1) by simp
qed simp

lemma write_batch_holds:
  assumes "holds m (op_entries s0 ys)" "\<forall>x \<in> set xs. op_fits key x" "length xs < 2 ^ 32"
    "unat s0 + length (ys @ xs) \<le> unat kMaxSequenceNumber"
  shows "\<exists>m'. write_batch (s0 + word_of_nat (length ys)) xs m = Some m' \<and> holds m' (op_entries s0 (ys @ xs))"
proof -
  let ?s = "s0 + word_of_nat (length ys)"
  obtain b where b: "apply_ops batch_builder xs new_WriteBatch = Some b" "wb_rep b = batch_bytes 0 xs"
    using apply_ops_builder [OF new_WriteBatch_bytes, of xs] by auto
  let ?b = "b\<lparr>wb_rep := batch_bytes ?s xs\<rparr>"
  obtain m' where m': "apply_ops MemTableInserter_ops xs \<lparr>mi_sequence = ?s, mi_mem = m\<rparr>
      = Some \<lparr>mi_sequence = s0 + word_of_nat (length (ys @ xs)), mi_mem = m'\<rparr>" "holds m' (op_entries s0 (ys @ xs))"
    using inserter_ops [OF assms(1,2,4)] by blast
  have small: "\<forall>x \<in> set xs. op_small x" using assms(2) by (simp add: op_fits_def)
  have "WriteBatch_Iterate MemTableInserter_ops ?b \<lparr>mi_sequence = ?s, mi_mem = m\<rparr>
      = Some (Status_OK, \<lparr>mi_sequence = s0 + word_of_nat (length (ys @ xs)), mi_mem = m'\<rparr>)"
    using Iterate_bytes [OF _ small assms(3), of ?b ?s MemTableInserter_ops] m'(1) by simp
  then have "InsertInto ?b m = Some (Status_OK, m')"
    using Sequence_bytes [of ?b ?s xs] by (simp add: InsertInto_def)
  then have "write_batch ?s xs m = Some m'"
    unfolding write_batch_def b(1) Option.bind.simps SetSequence_bytes [OF b(2)] by (simp add: Status_ok_def Status_OK_def)
  then show ?thesis using m'(2) by blast
qed

lemma write_batches_holds:
  "holds m (op_entries s0 ys) \<Longrightarrow> \<forall>xs \<in> set bs. length xs < 2 ^ 32 \<and> (\<forall>x \<in> set xs. op_fits key x) \<Longrightarrow>
   unat s0 + length (ys @ concat bs) \<le> unat kMaxSequenceNumber \<Longrightarrow>
   \<exists>m'. write_batches (s0 + word_of_nat (length ys)) bs m = Some m' \<and> holds m' (op_entries s0 (ys @ concat bs))"
proof (induction bs arbitrary: m ys)
  case (Cons b bs)
  obtain m1 where m1: "write_batch (s0 + word_of_nat (length ys)) b m = Some m1" "holds m1 (op_entries s0 (ys @ b))"
    using write_batch_holds [OF Cons.prems(1), of b] Cons.prems(2,3) by auto
  show ?case using Cons.IH [OF m1(2)] Cons.prems(2,3) m1(1) by (simp add: algebra_simps)
qed simp

end

subsection \<open>Properties\<close>

text \<open>C17. Batches are built, numbered and inserted one after another into a new memtable. A lookup with a
  snapshot then answers what the map of the operations with sequence numbers up to the snapshot says:
  the last value that was put, that the key was deleted, or nothing.\<close>

theorem memtable_reads_snapshot:
  assumes "comparator key cmp" "arena_aligned arena"
    and "\<forall>xs \<in> set bs. length xs < 2 ^ 32 \<and> (\<forall>x \<in> set xs. op_fits key x)"
    and "unat s0 + length (concat bs) \<le> unat kMaxSequenceNumber"
    and "key u" "length u + 8 < 2 ^ 32" "s \<le> kMaxSequenceNumber"
  shows "\<exists>m m'. new_MemTable cmp arena = Some m \<and> write_batches s0 bs m = Some m'
    \<and> MemTable_Get (new_LookupKey u s) value st m'
      = Some (kv_answer (kv_map (take (unat s + 1 - unat s0) (concat bs)) u) value st)"
proof -
  obtain m where m: "new_MemTable cmp arena = Some m" "comparator.holds key cmp m (op_entries s0 [])"
    using comparator.new_MemTable_holds [OF assms(1,2)] by auto
  obtain m' where m': "write_batches s0 bs m = Some m'" "comparator.holds key cmp m' (op_entries s0 (concat bs))"
    using comparator.write_batches_holds [OF assms(1) m(2) assms(3)] assms(4) by auto
  have "MemTable_Get (new_LookupKey u s) value st m' = Some (answer (newest u s (op_entries s0 (concat bs))) value st)"
    by (rule comparator.MemTable_Get_holds [OF assms(1) m'(2) assms(6,5,7)])
  then show ?thesis using m(1) m'(1) newest_kv_map [OF assms(4)] by auto
qed

theorem memtable_reads_snapshot_witness:
  "\<exists>m m'. new_MemTable BytewiseComparator (new_Arena (\<lambda>k. 4096 + word_of_nat (k * 4096))) = Some m
    \<and> write_batches 7 [[Put_op [1] [10], Put_op [2] [20]], [Delete_op [1]]] m = Some m'
    \<and> MemTable_Get (new_LookupKey [1] 8) [] Status_OK m' = Some (True, [10], Status_OK)"
proof -
  have "8 dvd k * 4096" for k :: nat by (simp add: dvd_mult)
  moreover have "(8 :: nat) dvd 2 ^ 64" by simp
  ultimately have a: "arena_aligned (new_Arena (\<lambda>k. 4096 + word_of_nat (k * 4096)))"
    by (simp add: arena_aligned_def new_Arena_def unat_word_ariths unat_of_nat mod_add_right_eq dvd_mod)
  show ?thesis
    using memtable_reads_snapshot [OF bytewise.comparator_axioms a,
        of "[[Put_op [1] [10], Put_op [2] [20]], [Delete_op [1]]]" 7 "[1]" 8 "[]" Status_OK]
    by (simp add: op_fits_def kMaxSequenceNumber_def kv_map_def kv_answer_def word_le_nat_alt)
qed

end
