(* ===== verification/Db_Iter_Correct.thy ===== *)
theory Db_Iter_Correct
  imports Db_Iter Memtable
begin

text \<open>
  The iterator of a user refines the internal one: over any iterator that keeps the contract of the
  interface on internal entries, it keeps the same contract on the list of user keys with their latest
  visible values (\<open>user_view\<close>).
\<close>

subsection \<open>The view of a sequence number\<close>

abbreviation entry_user :: "Slice \<times> Slice \<Rightarrow> Slice" where
  "entry_user e \<equiv> ExtractUserKey (fst e)"

definition visible :: "SequenceNumber \<Rightarrow> Slice \<times> Slice \<Rightarrow> bool" where
  "visible s e \<longleftrightarrow> (case ParseInternalKey (fst e) of Some pk \<Rightarrow> pik_sequence pk \<le> s | None \<Rightarrow> False)"

definition is_value :: "Slice \<times> Slice \<Rightarrow> bool" where
  "is_value e \<longleftrightarrow> (case ParseInternalKey (fst e) of Some pk \<Rightarrow> pik_type pk = kTypeValue | None \<Rightarrow> False)"

text \<open>An entry is shown when it is a value and the first visible entry of its user key.\<close>

definition shown :: "SequenceNumber \<Rightarrow> entries \<Rightarrow> nat \<Rightarrow> bool" where
  "shown s es i \<longleftrightarrow> visible s (es ! i) \<and> is_value (es ! i)
     \<and> (\<forall>j < i. entry_user (es ! j) = entry_user (es ! i) \<longrightarrow> \<not> visible s (es ! j))"

definition user_view :: "SequenceNumber \<Rightarrow> entries \<Rightarrow> entries" where
  "user_view s es = map (\<lambda>i. (entry_user (es ! i), snd (es ! i))) (filter (shown s es) [0..<length es])"

text \<open>What it means: the latest value of a user key that was not deleted.\<close>

definition latest :: "SequenceNumber \<Rightarrow> entries \<Rightarrow> Slice \<Rightarrow> Slice \<Rightarrow> bool" where
  "latest s es u v \<longleftrightarrow> (\<exists>q \<le> s. (InternalKey_make u q kTypeValue, v) \<in> set es
     \<and> (\<forall>q' \<le> s. \<forall>t v'. (InternalKey_make u q' t, v') \<in> set es \<longrightarrow> q' \<le> q))"

text \<open>The number of entries shown before an index.\<close>

definition rank :: "SequenceNumber \<Rightarrow> entries \<Rightarrow> nat \<Rightarrow> nat" where
  "rank s es i = length (filter (shown s es) [0..<i])"

lemma rank_simps [simp]: "rank s es 0 = 0" "rank s es (Suc i) = rank s es i + (if shown s es i then 1 else 0)"
  by (simp_all add: rank_def)

lemma rank_length: "rank s es (length es) = length (user_view s es)"
  by (simp add: rank_def user_view_def)

lemma rank_same: "p \<le> r \<Longrightarrow> (\<And>y. p \<le> y \<Longrightarrow> y < r \<Longrightarrow> \<not> shown s es y) \<Longrightarrow> rank s es r = rank s es p"
proof (induction "r - p" arbitrary: r)
  case (Suc n)
  then obtain r' where "r = Suc r'" by (cases r) auto
  then show ?case using Suc.hyps(1) [of r'] Suc.hyps(2) Suc.prems by auto
qed simp

lemma view_split:
  assumes "r \<le> length es"
  shows "user_view s es = map (\<lambda>i. (entry_user (es ! i), snd (es ! i))) (filter (shown s es) [0..<r])
    @ map (\<lambda>i. (entry_user (es ! i), snd (es ! i))) (filter (shown s es) [r..<length es])"
  using assms upt_add_eq_append [of 0 r "length es - r"] by (simp add: user_view_def)

lemma view_nth:
  assumes "r < length es" "shown s es r"
  shows "rank s es r < length (user_view s es)" "user_view s es ! rank s es r = (entry_user (es ! r), snd (es ! r))"
  using view_split [of r es s] assms by (simp_all add: rank_def nth_append upt_conv_Cons)

text \<open>The first index from a start on with a property, or the end.\<close>

definition is_first :: "(nat \<Rightarrow> bool) \<Rightarrow> nat \<Rightarrow> nat \<Rightarrow> nat \<Rightarrow> bool" where
  "is_first P p n r \<longleftrightarrow> p \<le> r \<and> r \<le> n \<and> (\<forall>y. p \<le> y \<longrightarrow> y < r \<longrightarrow> \<not> P y) \<and> (r < n \<longrightarrow> P r)"

lemma is_first_step:
  assumes "is_first Q (Suc p) n r" "\<not> P p" "\<And>y. p < y \<Longrightarrow> y < n \<Longrightarrow> Q y \<longleftrightarrow> P y"
  shows "is_first P p n r"
  unfolding is_first_def
proof (intro conjI allI impI)
  show "p \<le> r" "r \<le> n" using assms(1) by (simp_all add: is_first_def)
  show "\<not> P y" if "p \<le> y" "y < r" for y
    using assms that by (cases "y = p") (auto simp: is_first_def)
  show "P r" if "r < n" using assms that by (auto simp: is_first_def)
qed

subsection \<open>Sampling ends\<close>

lemma period_not_twice_zero:
  assumes "good_seed r" "unat (Random_Next r) mod 2097152 = 0"
  shows "unat (Random_Next (Random_Next r)) mod 2097152 \<noteq> 0"
proof
  let ?a = "unat (Random_Next r)" and ?c = "unat (Random_Next (Random_Next r))"
  assume "?c mod 2097152 = 0"
  then obtain t where t: "?c = t * 2097152" by (metis dvd_div_mult_self mod_0_imp_dvd)
  obtain q where q: "?a = q * 2097152" using assms(2) by (metis dvd_div_mult_self mod_0_imp_dvd)
  note g = Random_Next_exact(2) [OF assms(1)]
  have lt: "0 < ?a" "?a < 2147483647" "?c < 2147483647"
    using g Random_Next_exact(2) [OF g] by (simp_all add: good_seed_def)
  have "?c = ?a * 16807 mod 2147483647" by (rule Random_Next_exact(1) [OF g])
  then have "t * 2097152 * 1024 mod 2147483647 = q * 2097152 * 16807 * 1024 mod 2147483647"
    unfolding t q by (metis mod_mult_left_eq)
  moreover have "t * 2097152 * 1024 = t + t * 2147483647" "q * 2097152 * 16807 * 1024 = q * 16807 + q * 16807 * 2147483647"
    by simp_all
  ultimately have "t mod 2147483647 = q * 16807 mod 2147483647" by (metis mod_mult_self1)
  moreover have "0 < q" "q < 1024" "t < 1024" using lt unfolding q t by simp_all
  ultimately show False by simp
qed

lemma period_value: "RandomCompactionPeriod rnd = (unat (Random_Next rnd) mod 2097152, Random_Next rnd)"
  by (simp add: RandomCompactionPeriod_def Random_Uniform_def Let_def kReadBytesPeriod_def unat_mod)

lemma sample_reads_ends:
  "good_seed rnd \<Longrightarrow> \<exists>db' b' rnd'. sample_reads rs k n db b rnd = Some (db', b', rnd') \<and> n \<le> b' \<and> good_seed rnd'"
proof (induction "2 * (n - b) + (if unat (Random_Next rnd) mod 2097152 = 0 then 1 else 0)" arbitrary: db b rnd rule: less_induct)
  case less
  show ?case
  proof (cases "b < n")
    case True
    let ?p = "unat (Random_Next rnd) mod 2097152" and ?r = "Random_Next rnd"
    have g: "good_seed ?r" by (rule Random_Next_exact(2) [OF less.prems])
    have "2 * (n - (b + ?p)) + (if unat (Random_Next ?r) mod 2097152 = 0 then 1 else 0)
      < 2 * (n - b) + (if ?p = 0 then 1 else 0)"
    proof (cases "?p = 0")
      case z: True
      then show ?thesis using period_not_twice_zero [OF less.prems] by simp
    next
      case nz: False
      then have "n - (b + ?p) < n - b" using True by simp
      then show ?thesis using nz by simp
    qed
    from less.hyps [OF this g, of "rs k db"] show ?thesis
      using True by (subst sample_reads.simps) (simp add: period_value)
  next
    case False
    then show ?thesis using less.prems by (subst sample_reads.simps) simp
  qed
qed

subsection \<open>The entries\<close>

lemma parsed_key:
  assumes "ParseInternalKey k = Some pk"
  shows "pik_user_key pk = ExtractUserKey k" "tag_of k = PackSequenceAndType (pik_sequence pk) (pik_type pk)"
    "pik_sequence pk \<le> kMaxSequenceNumber" "8 \<le> length k"
proof -
  have k: "k = pik_user_key pk @ EncodeFixed64 (PackSequenceAndType (pik_sequence pk) (pik_type pk))"
    "pik_sequence pk \<le> kMaxSequenceNumber"
    using ParseInternalKey_Some [OF assms] by (simp_all add: AppendInternalKey_app)
  then show "pik_user_key pk = ExtractUserKey k" "tag_of k = PackSequenceAndType (pik_sequence pk) (pik_type pk)"
    "pik_sequence pk \<le> kMaxSequenceNumber" "8 \<le> length k"
    by (simp_all add: k(1))
qed

locale db_iterator = comparator key cmp + inner: iterator ops ik "InternalKeyComparator cmp" at
  for key cmp and ops :: "'i Iterator" and ik and at +
  fixes record_sample :: "Slice \<Rightarrow> 'd \<Rightarrow> 'd" and s :: SequenceNumber
  assumes s_max: "s \<le> kMaxSequenceNumber"
begin

definition entries_ok :: "entries \<Rightarrow> bool" where
  "entries_ok es \<longleftrightarrow> sorted_entries (InternalKeyComparator cmp) es
     \<and> (\<forall>e \<in> set es. ParseInternalKey (fst e) \<noteq> None \<and> key (entry_user e))"

definition settled :: "('i, 'd) DBIter \<Rightarrow> bool" where
  "settled d \<longleftrightarrow> di_user_comparator d = cmp \<and> di_sequence d = s \<and> Status_ok (di_status d) \<and> good_seed (di_rnd d)"

definition same_view :: "('i, 'd) DBIter \<Rightarrow> ('i, 'd) DBIter \<Rightarrow> bool" where
  "same_view d d' \<longleftrightarrow> di_iter d' = di_iter d \<and> di_saved_key d' = di_saved_key d \<and> di_saved_value d' = di_saved_value d
     \<and> di_direction d' = di_direction d \<and> di_valid d' = di_valid d"

abbreviation user :: "entries \<Rightarrow> nat \<Rightarrow> Slice" where
  "user es i \<equiv> entry_user (es ! i)"

lemma entry_key: "entries_ok es \<Longrightarrow> i < length es \<Longrightarrow> key (user es i)"
  by (simp add: entries_ok_def)

lemma entry_parses:
  assumes "entries_ok es" "i < length es"
  obtains pk where "ParseInternalKey (fst (es ! i)) = Some pk" "pik_user_key pk = user es i"
    "visible s (es ! i) \<longleftrightarrow> pik_sequence pk \<le> s" "is_value (es ! i) \<longleftrightarrow> pik_type pk = kTypeValue"
proof -
  obtain pk where p: "ParseInternalKey (fst (es ! i)) = Some pk"
    using assms nth_mem [OF assms(2)] unfolding entries_ok_def by blast
  show thesis by (rule that [OF p parsed_key(1) [OF p]]) (simp_all add: visible_def is_value_def p)
qed

lemma entry_ikey: "entries_ok es \<Longrightarrow> i < length es \<Longrightarrow> ikey key (fst (es ! i))"
  using entry_key [of es i] entry_parses [of es i] parsed_key(4) unfolding ikey_def by metis

lemma user_sorted:
  assumes "entries_ok es" "i \<le> j" "j < length es"
  shows "Compare cmp (user es i) (user es j) \<le> 0"
proof (cases "i = j")
  case True
  then show ?thesis using refl entry_key [OF assms(1,3)] by simp
next
  case False
  then have "InternalKey_Compare cmp (fst (es ! i)) (fst (es ! j)) < 0"
    using assms unfolding entries_ok_def sorted_entries_def sorted_wrt_iff_nth_less by auto
  then show ?thesis
    using ikc_less_iff [OF entry_ikey [OF assms(1), of i] entry_ikey [OF assms(1,3)]] assms(2,3) refl entry_key [OF assms(1,3)]
    by auto
qed

lemma user_eqI:
  assumes "entries_ok es" "i \<le> j" "j < length es" "Compare cmp (user es j) (user es i) \<le> 0"
  shows "user es i = user es j"
proof -
  have k: "key (user es i)" "key (user es j)" using entry_key assms(1-3) by auto
  have "Compare cmp (user es i) (user es j) = 0"
    using user_sorted [OF assms(1-3)] assms(4) le_iff [OF k(2,1)] by simp
  then show ?thesis using equal k by blast
qed

lemma shown_once:
  assumes "i < j" "visible s (es ! i)" "user es i = user es j"
  shows "\<not> shown s es j"
  using assms by (auto simp: shown_def)

lemma ParseKey_ok:
  assumes "entries_ok es" "at (di_iter d) es i" "i < length es" "settled d"
  obtains pk d' where "ParseKey ops record_sample d = Some (Some pk, d')" "settled d'" "same_view d d'"
    "pik_user_key pk = user es i" "visible s (es ! i) \<longleftrightarrow> pik_sequence pk \<le> s" "is_value (es ! i) \<longleftrightarrow> pik_type pk = kTypeValue"
proof -
  obtain pk where pk: "ParseInternalKey (fst (es ! i)) = Some pk" "pik_user_key pk = user es i"
    "visible s (es ! i) \<longleftrightarrow> pik_sequence pk \<le> s" "is_value (es ! i) \<longleftrightarrow> pik_type pk = kTypeValue"
    using entry_parses [OF assms(1,3)] by blast
  have "good_seed (di_rnd d)" using assms(4) by (simp add: settled_def)
  from sample_reads_ends [where rs = record_sample and k = "fst (es ! i)" and db = "di_db d"
      and n = "length (fst (es ! i)) + length (snd (es ! i))" and b = "di_bytes_until_read_sampling d", OF this]
  obtain db b r where sr: "sample_reads record_sample (fst (es ! i)) (length (fst (es ! i)) + length (snd (es ! i)))
      (di_db d) (di_bytes_until_read_sampling d) (di_rnd d) = Some (db, b, r)" "good_seed r" by blast
  note kv = inner.cur_key [OF assms(2,3)] inner.cur_value [OF assms(2,3)]
  let ?d = "d\<lparr>di_db := db, di_rnd := r, di_bytes_until_read_sampling := b - (length (fst (es ! i)) + length (snd (es ! i)))\<rparr>"
  have "ParseKey ops record_sample d = Some (Some pk, ?d)"
    using sr(1) pk(1) by (simp add: ParseKey_def kv Let_def)
  moreover have "settled ?d" "same_view d ?d" using assms(4) sr(2) by (simp_all add: settled_def same_view_def)
  ultimately show thesis using that pk(2-4) by blast
qed

text \<open>The internal iterator moves, and the rest of the state stays.\<close>

lemma moved:
  assumes "settled d" "\<exists>i'. f (di_iter d) = Some i' \<and> at i' es m"
  obtains d' where "on_iter f d = Some d'" "settled d'" "at (di_iter d') es m" "di_saved_key d' = di_saved_key d"
    "di_saved_value d' = di_saved_value d" "di_direction d' = di_direction d" "di_valid d' = di_valid d"
  using assms by (auto simp: on_iter_def settled_def)

subsection \<open>Forward\<close>

text \<open>The scan from \<open>p\<close>: what it skips, what the entries before \<open>p\<close> hide, and where it ends.\<close>

definition candidate :: "entries \<Rightarrow> bool \<Rightarrow> Slice \<Rightarrow> nat \<Rightarrow> bool" where
  "candidate es skipping sk i \<longleftrightarrow> shown s es i \<and> \<not> (skipping \<and> Compare cmp (user es i) sk \<le> 0)"

definition hides :: "entries \<Rightarrow> bool \<Rightarrow> Slice \<Rightarrow> nat \<Rightarrow> bool" where
  "hides es skipping sk p \<longleftrightarrow>
     (\<forall>x y. y < p \<longrightarrow> p \<le> x \<longrightarrow> x < length es \<longrightarrow> visible s (es ! y) \<longrightarrow> user es y = user es x \<longrightarrow>
        skipping \<and> Compare cmp (user es x) sk \<le> 0)
     \<and> (skipping \<longrightarrow> key sk \<and> (\<forall>x. p \<le> x \<longrightarrow> x < length es \<longrightarrow> visible s (es ! x) \<longrightarrow> Compare cmp sk (user es x) \<le> 0))"

definition found_at :: "entries \<Rightarrow> nat \<Rightarrow> ('i, 'd) DBIter \<Rightarrow> bool" where
  "found_at es r d \<longleftrightarrow> settled d \<and> at (di_iter d) es r \<and> (di_valid d \<longleftrightarrow> r < length es) \<and> di_direction d = iter_kForward"

lemma hides_invisible: "hides es skipping sk p \<Longrightarrow> \<not> visible s (es ! p) \<Longrightarrow> hides es skipping sk (Suc p)"
  unfolding hides_def by (metis Suc_leD less_antisym)

lemma hides_deletion:
  assumes "entries_ok es" "p < length es" "hides es skipping sk p" "visible s (es ! p)"
  shows "hides es True (user es p) (Suc p)"
  unfolding hides_def
proof (intro conjI allI impI)
  fix x y assume xy: "y < Suc p" "Suc p \<le> x" "x < length es" "user es y = user es x"
  show "True" by simp
  have "Compare cmp (user es y) (user es p) \<le> 0" using user_sorted [OF assms(1) _ assms(2), of y] xy(1) by simp
  then show "Compare cmp (user es x) (user es p) \<le> 0" using xy(4) by simp
next
  show "key (user es p)" by (rule entry_key [OF assms(1,2)])
  fix x assume "Suc p \<le> x" "x < length es"
  then show "Compare cmp (user es p) (user es x) \<le> 0" using user_sorted [OF assms(1), of p x] by simp
qed

lemma hides_hidden:
  assumes "entries_ok es" "p < length es" "hides es skipping sk p" "skipping" "Compare cmp (user es p) sk \<le> 0"
  shows "hides es skipping sk (Suc p)"
  using assms(3-5) unfolding hides_def by (metis Suc_leD less_antisym)

lemma FindNext_loop_finds:
  assumes es: "entries_ok es"
  shows "at (di_iter d) es p \<Longrightarrow> p < length es \<Longrightarrow> settled d \<Longrightarrow> di_direction d = iter_kForward \<Longrightarrow>
    hides es skipping (di_saved_key d) p \<Longrightarrow>
    \<exists>d' r. FindNext_loop ops record_sample skipping d = Some d' \<and> found_at es r d'
      \<and> is_first (candidate es skipping (di_saved_key d)) p (length es) r"
proof (induction "length es - p" arbitrary: d p skipping)
  case (Suc n)
  note p = Suc.prems(2)
  have n: "n = length es - Suc p" using Suc.hyps(2) by simp
  obtain pk d1 where d1: "ParseKey ops record_sample d = Some (Some pk, d1)" "settled d1" "same_view d d1"
    "pik_user_key pk = user es p" "visible s (es ! p) \<longleftrightarrow> pik_sequence pk \<le> s" "is_value (es ! p) \<longleftrightarrow> pik_type pk = kTypeValue"
    by (rule ParseKey_ok [OF es Suc.prems(1) p Suc.prems(3)])
  have same: "di_iter d1 = di_iter d" "di_saved_key d1 = di_saved_key d" "di_direction d1 = iter_kForward"
    using d1(3) Suc.prems(4) by (simp_all add: same_view_def)
  have c: "di_user_comparator d1 = cmp" "di_sequence d1 = s" using d1(2) by (simp_all add: settled_def)
  have go_on: "\<exists>d' r. FindNext_loop ops record_sample skipping d = Some d' \<and> found_at es r d'
      \<and> is_first (candidate es skipping (di_saved_key d)) p (length es) r"
    if e: "next_entry skipping (Some pk) d1 = (False, sk', d1\<lparr>di_saved_key := k\<rparr>)" and h: "hides es sk' k (Suc p)"
      and not_p: "\<not> candidate es skipping (di_saved_key d) p"
      and rest: "\<And>y. p < y \<Longrightarrow> y < length es \<Longrightarrow> candidate es sk' k y \<longleftrightarrow> candidate es skipping (di_saved_key d) y" for sk' k
  proof -
    let ?d1 = "d1\<lparr>di_saved_key := k\<rparr>"
    have set1: "settled ?d1" using d1(2) by (simp add: settled_def)
    have "\<exists>i'. it_Next ops (di_iter ?d1) = Some i' \<and> at i' es (Suc p)"
      using inner.step_next [OF Suc.prems(1) p] same by simp
    from moved [where f = "it_Next ops", OF set1 this] obtain d2 where d2: "on_iter (it_Next ops) ?d1 = Some d2" "settled d2" "at (di_iter d2) es (Suc p)"
      "di_saved_key d2 = k" "di_direction d2 = iter_kForward" using same by auto
    have valid: "it_Valid ops (di_iter d2) \<longleftrightarrow> Suc p < length es" by (rule inner.valid [OF d2(3)])
    show ?thesis
    proof (cases "Suc p < length es")
      case True
      obtain d' r where r: "FindNext_loop ops record_sample sk' d2 = Some d'" "found_at es r d'"
        "is_first (candidate es sk' k) (Suc p) (length es) r"
        using Suc.hyps(1) [OF _ d2(3) True d2(2,5), of sk'] n h unfolding d2(4) by blast
      have "FindNext_loop ops record_sample skipping d = Some d'"
        using d1(1) e d2(1) valid True r(1) by (subst FindNext_loop.simps) simp
      moreover have "is_first (candidate es skipping (di_saved_key d)) p (length es) r"
        by (rule is_first_step [OF r(3) not_p rest])
      ultimately show ?thesis using r(2) by blast
    next
      case False
      let ?d = "d2\<lparr>di_saved_key := [], di_valid := False\<rparr>"
      have "FindNext_loop ops record_sample skipping d = Some ?d"
        using d1(1) e d2(1) valid False by (subst FindNext_loop.simps) simp
      moreover have "length es = Suc p" using False p by simp
      then have "at (di_iter d2) es (length es)" using d2(3) by metis
      then have "found_at es (length es) ?d" using d2(2,5) by (simp add: found_at_def settled_def)
      moreover have "is_first (candidate es skipping (di_saved_key d)) p (length es) (length es)"
        using False p not_p unfolding is_first_def by (metis Suc_lessI le_neq_implies_less less_irrefl order_refl not_less less_Suc_eq)
      ultimately show ?thesis by blast
    qed
  qed
  have keep: "d1\<lparr>di_saved_key := di_saved_key d\<rparr> = d1" using same(2) by (cases d1) simp
  consider (invisible) "\<not> visible s (es ! p)" | (deletion) "visible s (es ! p)" "pik_type pk = kTypeDeletion"
    | (hidden) "visible s (es ! p)" "pik_type pk = kTypeValue" "skipping" "Compare cmp (user es p) (di_saved_key d) \<le> 0"
    | (found) "visible s (es ! p)" "pik_type pk = kTypeValue" "\<not> (skipping \<and> Compare cmp (user es p) (di_saved_key d) \<le> 0)"
    by (cases "pik_type pk") blast+
  then show ?case
  proof cases
    case invisible
    then have e: "next_entry skipping (Some pk) d1 = (False, skipping, d1\<lparr>di_saved_key := di_saved_key d\<rparr>)"
      using d1(5) c unfolding keep by (simp add: next_entry_def)
    show ?thesis
      by (rule go_on [OF e hides_invisible [OF Suc.prems(5) invisible]]) (use invisible in \<open>auto simp: candidate_def shown_def\<close>)
  next
    case deletion
    then have e: "next_entry skipping (Some pk) d1 = (False, True, d1\<lparr>di_saved_key := user es p\<rparr>)"
      using d1(4,5) c by (simp add: next_entry_def)
    have not_p: "\<not> candidate es skipping (di_saved_key d) p" using deletion(2) d1(6) by (simp add: candidate_def shown_def)
    have rest: "candidate es True (user es p) y \<longleftrightarrow> candidate es skipping (di_saved_key d) y" if y: "p < y" "y < length es" for y
    proof -
      have "\<not> Compare cmp (user es y) (user es p) \<le> 0" if "shown s es y"
        using user_eqI [OF es _ y(2), of p] y(1) shown_once [of p y es] deletion(1) that by auto
      moreover have "Compare cmp (user es y) (user es p) \<le> 0" if sk: "skipping" "Compare cmp (user es y) (di_saved_key d) \<le> 0"
      proof (rule trans [OF entry_key [OF es y(2)] _ entry_key [OF es p] sk(2)])
        show "key (di_saved_key d)" "Compare cmp (di_saved_key d) (user es p) \<le> 0"
          using Suc.prems(5) sk(1) deletion(1) p unfolding hides_def by blast+
      qed
      ultimately show ?thesis unfolding candidate_def by blast
    qed
    show ?thesis by (rule go_on [OF e hides_deletion [OF es p Suc.prems(5) deletion(1)] not_p rest])
  next
    case hidden
    then have e: "next_entry skipping (Some pk) d1 = (False, skipping, d1\<lparr>di_saved_key := di_saved_key d\<rparr>)"
      using d1(4,5) c same(2) unfolding keep by (simp add: next_entry_def)
    show ?thesis
      by (rule go_on [OF e hides_hidden [OF es p Suc.prems(5) hidden(3,4)]]) (use hidden in \<open>auto simp: candidate_def\<close>)
  next
    case found
    let ?d = "d1\<lparr>di_valid := True, di_saved_key := []\<rparr>"
    have "next_entry skipping (Some pk) d1 = (True, skipping, ?d)"
      using found d1(4,5) c same(2) by (simp add: next_entry_def)
    then have "FindNext_loop ops record_sample skipping d = Some ?d"
      using d1(1) by (subst FindNext_loop.simps) simp
    moreover have "found_at es p ?d" using Suc.prems(1) p same d1(2) by (simp add: found_at_def settled_def)
    moreover have "shown s es p"
      using found d1(6) Suc.prems(5) p unfolding shown_def hides_def by blast
    then have "is_first (candidate es skipping (di_saved_key d)) p (length es) p"
      using found(3) p by (simp add: is_first_def candidate_def)
    ultimately show ?thesis by blast
  qed
qed simp

subsection \<open>Backward\<close>

text \<open>What the scan back from \<open>m\<close> knows when the entries from \<open>q\<close> on are done.\<close>

definition scanned :: "entries \<Rightarrow> nat \<Rightarrow> ValueType \<Rightarrow> ('i, 'd) DBIter \<Rightarrow> nat \<Rightarrow> bool" where
  "scanned es m vt d q \<longleftrightarrow>
     (if vt = kTypeDeletion then \<forall>x. q \<le> x \<longrightarrow> x \<le> m \<longrightarrow> \<not> shown s es x
      else \<exists>j. q \<le> j \<and> j \<le> m \<and> visible s (es ! j) \<and> is_value (es ! j)
        \<and> di_saved_key d = user es j \<and> di_saved_value d = snd (es ! j)
        \<and> (\<forall>x. q \<le> x \<longrightarrow> x < j \<longrightarrow> \<not> visible s (es ! x)) \<and> (\<forall>x. j < x \<longrightarrow> x \<le> m \<longrightarrow> \<not> shown s es x))"

text \<open>The position in the reverse direction: at an entry before \<open>j\<close> with no visible one in between.\<close>

definition rests_before :: "entries \<Rightarrow> ('i, 'd) DBIter \<Rightarrow> nat \<Rightarrow> bool" where
  "rests_before es d j \<longleftrightarrow> di_saved_key d = user es j \<and> di_saved_value d = snd (es ! j)
     \<and> (at (di_iter d) es (length es) \<and> (\<forall>y < j. \<not> visible s (es ! y))
        \<or> (\<exists>q < j. at (di_iter d) es q \<and> (\<forall>y. q < y \<longrightarrow> y < j \<longrightarrow> \<not> visible s (es ! y))))"

definition scan_result :: "entries \<Rightarrow> nat \<Rightarrow> ValueType \<Rightarrow> ('i, 'd) DBIter \<Rightarrow> bool" where
  "scan_result es m vt d \<longleftrightarrow>
     (if vt = kTypeDeletion then (\<forall>x \<le> m. \<not> shown s es x) \<and> (\<exists>q. at (di_iter d) es q)
      else \<exists>j \<le> m. shown s es j \<and> (\<forall>x. j < x \<longrightarrow> x \<le> m \<longrightarrow> \<not> shown s es x) \<and> rests_before es d j)"

lemma scanned_hidden:
  assumes es: "entries_ok es" "p < length es" "m < length es" and sc: "scanned es m vt d (Suc p)" and v: "visible s (es ! p)"
    and n: "\<not> (vt \<noteq> kTypeDeletion \<and> Compare cmp (user es p) (di_saved_key d) < 0)"
    and x: "p < x" "x \<le> m"
  shows "\<not> shown s es x"
proof (cases "vt = kTypeDeletion")
  case True
  then show ?thesis using sc x by (simp add: scanned_def)
next
  case False
  obtain j where "Suc p \<le> j" and j2: "j \<le> m" "di_saved_key d = user es j"
    "\<forall>x. Suc p \<le> x \<longrightarrow> x < j \<longrightarrow> \<not> visible s (es ! x)" "\<forall>x. j < x \<longrightarrow> x \<le> m \<longrightarrow> \<not> shown s es x"
    using sc unfolding scanned_def if_not_P [OF False] by blast
  then have "p < j" by simp
  note j = this j2
  have jl: "j < length es" using j(2) es(3) by simp
  have "Compare cmp (user es j) (user es p) \<le> 0"
    using n False j(3) le_iff [OF entry_key [OF es(1) jl] entry_key [OF es(1,2)]] by simp
  then have "user es p = user es j" using user_eqI [OF es(1) _ jl] j(1) by simp
  then have "\<not> shown s es j" by (rule shown_once [OF j(1) v])
  moreover have "\<not> shown s es x" if "x < j" using j(4) x(1) that by (simp add: shown_def)
  moreover have "\<not> shown s es x" if "j < x" using j(5) x(2) that by simp
  ultimately show ?thesis by (metis linorder_less_linear)
qed

lemma scanned_invisible:
  assumes sc: "scanned es m vt d (Suc p)" and p: "\<not> visible s (es ! p)"
  shows "scanned es m vt d p"
proof (cases "vt = kTypeDeletion")
  case True
  have "\<not> shown s es x" if "p \<le> x" "x \<le> m" for x
    using that sc p True by (cases "x = p") (simp_all add: scanned_def shown_def)
  then show ?thesis using True by (simp add: scanned_def)
next
  case False
  obtain j where j: "Suc p \<le> j" "j \<le> m" "visible s (es ! j)" "is_value (es ! j)" "di_saved_key d = user es j"
    "di_saved_value d = snd (es ! j)" "\<forall>x. Suc p \<le> x \<longrightarrow> x < j \<longrightarrow> \<not> visible s (es ! x)" "\<forall>x. j < x \<longrightarrow> x \<le> m \<longrightarrow> \<not> shown s es x"
    using sc unfolding scanned_def if_not_P [OF False] by blast
  have "\<not> visible s (es ! x)" if "p \<le> x" "x < j" for x
    using that j(7) p by (cases "x = p") simp_all
  then show ?thesis
    unfolding scanned_def if_not_P [OF False] using j by (intro exI [of _ j]) simp
qed

lemma FindPrev_loop_finds:
  assumes es: "entries_ok es" "m < length es"
  shows "at (di_iter d) es p \<Longrightarrow> p \<le> m \<Longrightarrow> settled d \<Longrightarrow> scanned es m vt d (Suc p) \<Longrightarrow>
    \<exists>vt' d'. FindPrev_loop ops record_sample vt d = Some (vt', d') \<and> settled d' \<and> di_direction d' = di_direction d
      \<and> scan_result es m vt' d'"
proof (induction p arbitrary: d vt rule: less_induct)
  case (less p)
  have p: "p < length es" using less.prems(2) es(2) by simp
  obtain pk d1 where d1: "ParseKey ops record_sample d = Some (Some pk, d1)" "settled d1" "same_view d d1"
    "pik_user_key pk = user es p" "visible s (es ! p) \<longleftrightarrow> pik_sequence pk \<le> s" "is_value (es ! p) \<longleftrightarrow> pik_type pk = kTypeValue"
    by (rule ParseKey_ok [OF es(1) less.prems(1) p less.prems(3)])
  have same: "di_iter d1 = di_iter d" "di_saved_key d1 = di_saved_key d" "di_saved_value d1 = di_saved_value d"
    "di_direction d1 = di_direction d" using d1(3) by (simp_all add: same_view_def)
  have c: "di_user_comparator d1 = cmp" "di_sequence d1 = s" using d1(2) by (simp_all add: settled_def)
  have sc1: "scanned es m vt d1 (Suc p)" using less.prems(4) same by (simp add: scanned_def)
  have at1: "at (di_iter d1) es p" using less.prems(1) same by simp
  have go_on: "\<exists>vt' d'. FindPrev_loop ops record_sample vt d = Some (vt', d') \<and> settled d' \<and> di_direction d' = di_direction d
      \<and> scan_result es m vt' d'"
    if e: "prev_entry ops vt (Some pk) d1 = Some (False, vt2, d2)"
      and d2: "settled d2" "di_iter d2 = di_iter d" "di_direction d2 = di_direction d" and sc: "scanned es m vt2 d2 p" for vt2 d2
  proof -
    have "\<exists>i'. it_Prev ops (di_iter d2) = Some i' \<and> at i' es (if p = 0 then length es else p - 1)"
      using inner.step_prev [OF less.prems(1) p] d2(2) by simp
    from moved [where f = "it_Prev ops", OF d2(1) this]
    obtain d3 where d3: "on_iter (it_Prev ops) d2 = Some d3" "settled d3" "at (di_iter d3) es (if p = 0 then length es else p - 1)"
      "di_saved_key d3 = di_saved_key d2" "di_saved_value d3 = di_saved_value d2" "di_direction d3 = di_direction d" using d2(3) by auto
    have sc3: "scanned es m vt2 d3 p" using sc d3(4,5) by (simp add: scanned_def)
    show ?thesis
    proof (cases "p = 0")
      case True
      then have a: "at (di_iter d3) es (length es)" using d3(3) by simp
      have "\<not> it_Valid ops (di_iter d3)" using inner.valid [OF a] by simp
      then have "FindPrev_loop ops record_sample vt d = Some (vt2, d3)"
        using d1(1) e d3(1) by (subst FindPrev_loop.simps) simp
      moreover have "scan_result es m vt2 d3"
      proof (cases "vt2 = kTypeDeletion")
        case True
        then show ?thesis using sc3 a \<open>p = 0\<close> unfolding scanned_def scan_result_def by auto
      next
        case False
        obtain j where j: "j \<le> m" "visible s (es ! j)" "is_value (es ! j)" "di_saved_key d3 = user es j" "di_saved_value d3 = snd (es ! j)"
          "\<forall>x. 0 \<le> x \<longrightarrow> x < j \<longrightarrow> \<not> visible s (es ! x)" "\<forall>x. j < x \<longrightarrow> x \<le> m \<longrightarrow> \<not> shown s es x"
          using sc3 unfolding scanned_def if_not_P [OF False] \<open>p = 0\<close> by blast
        then have "shown s es j" "rests_before es d3 j" using a by (simp_all add: shown_def rests_before_def)
        then show ?thesis using j(1,7) unfolding scan_result_def if_not_P [OF False] by blast
      qed
      ultimately show ?thesis using d3(2,6) by blast
    next
      case False
      then have a: "at (di_iter d3) es (p - 1)" "p - 1 < p" "p - 1 \<le> m" "Suc (p - 1) = p" using d3(3) less.prems(2) by simp_all
      have "it_Valid ops (di_iter d3)" using inner.valid [OF a(1)] p by simp
      then have "FindPrev_loop ops record_sample vt d = FindPrev_loop ops record_sample vt2 d3"
        using d1(1) e d3(1) by (subst FindPrev_loop.simps) simp
      then show ?thesis using less.IH [OF a(2,1,3) d3(2), of vt2] sc3 d3(6) unfolding a(4) by simp
    qed
  qed
  consider (invisible) "\<not> visible s (es ! p)"
    | (stop) "visible s (es ! p)" "vt \<noteq> kTypeDeletion \<and> Compare cmp (user es p) (di_saved_key d) < 0"
    | (go) "visible s (es ! p)" "\<not> (vt \<noteq> kTypeDeletion \<and> Compare cmp (user es p) (di_saved_key d) < 0)" by blast
  then show ?case
  proof cases
    case invisible
    have "prev_entry ops vt (Some pk) d1 = Some (False, vt, d1)" using invisible d1(5) c by (simp add: prev_entry_def)
    moreover have "scanned es m vt d1 p"
      by (rule scanned_invisible [OF sc1 invisible])
    ultimately show ?thesis using go_on d1(2) same by blast
  next
    case stop
    have "prev_entry ops vt (Some pk) d1 = Some (True, vt, d1)" using stop d1(4,5) c same by (simp add: prev_entry_def)
    then have r: "FindPrev_loop ops record_sample vt d = Some (vt, d1)"
      using d1(1) by (subst FindPrev_loop.simps) simp
    obtain j where j: "p < j" "j \<le> m" "visible s (es ! j)" "is_value (es ! j)" "di_saved_key d1 = user es j"
      "di_saved_value d1 = snd (es ! j)" "\<And>x. p < x \<Longrightarrow> x < j \<Longrightarrow> \<not> visible s (es ! x)" "\<And>x. j < x \<Longrightarrow> x \<le> m \<Longrightarrow> \<not> shown s es x"
      using sc1 stop(2) by (auto simp: scanned_def Suc_le_eq)
    have "shown s es j"
      unfolding shown_def
    proof (intro conjI allI impI j(3,4))
      fix y assume y: "y < j" "user es y = user es j"
      have "\<not> y \<le> p"
      proof
        assume "y \<le> p"
        then have "Compare cmp (user es y) (user es p) \<le> 0" by (rule user_sorted [OF es(1) _ p])
        then have "Compare cmp (user es y) (user es j) < 0"
          using le_less_trans [of "user es y" "user es p" "user es j"] stop(2) j(2,5) same es entry_key p y(1) by simp
        then show False using y(2) refl [OF entry_key [OF es(1), of j]] j(2) es(2) by simp
      qed
      then show "\<not> visible s (es ! y)" using j(7) y(1) by simp
    qed
    then have "scan_result es m vt d1" using stop(2) j at1 unfolding scan_result_def rests_before_def by auto
    then show ?thesis using r d1(2) same(4) by blast
  next
    case go
    note hid = scanned_hidden [OF es(1) p es(2) less.prems(4) go]
    show ?thesis
    proof (cases "pik_type pk = kTypeDeletion")
      case True
      have "prev_entry ops vt (Some pk) d1 = Some (False, kTypeDeletion, ClearSavedValue (d1\<lparr>di_saved_key := []\<rparr>))"
        using go True d1(4,5) c same unfolding prev_entry_def by simp
      moreover have "\<not> shown s es p" using True d1(6) by (simp add: shown_def)
      then have "scanned es m kTypeDeletion (ClearSavedValue (d1\<lparr>di_saved_key := []\<rparr>)) p"
        using hid unfolding scanned_def by (metis le_neq_implies_less)
      ultimately show ?thesis
        using go_on d1(2) same by (simp add: ClearSavedValue_def settled_def)
    next
      case False
      then have v: "pik_type pk = kTypeValue" by (cases "pik_type pk") simp_all
      let ?d = "d1\<lparr>di_saved_key := user es p, di_saved_value := snd (es ! p)\<rparr>"
      have "prev_entry ops vt (Some pk) d1 = Some (False, kTypeValue, ?d)"
        using go v d1(4,5) c same inner.cur_key [OF at1 p] inner.cur_value [OF at1 p] unfolding prev_entry_def by simp
      moreover have "scanned es m kTypeValue ?d p"
        using hid go(1) v d1(6) less.prems(2) unfolding scanned_def by auto
      ultimately show ?thesis using go_on d1(2) same by (simp add: settled_def)
    qed
  qed
qed

lemma leave_key_finds:
  "at (di_iter d) es x \<Longrightarrow> x < length es \<Longrightarrow> entries_ok es \<Longrightarrow> settled d \<Longrightarrow> x \<le> z \<Longrightarrow> z < length es \<Longrightarrow>
   di_saved_key d = user es z \<Longrightarrow> (\<And>y. x \<le> y \<Longrightarrow> y \<le> z \<Longrightarrow> user es y = user es z) \<Longrightarrow>
   \<exists>more d' q. leave_key ops d = Some (more, d') \<and> settled d' \<and> at (di_iter d') es q \<and> di_direction d' = di_direction d
     \<and> (if more then q < x \<and> (\<forall>y. q < y \<longrightarrow> y \<le> z \<longrightarrow> user es y = user es z)
         else \<not> di_valid d' \<and> (\<forall>y \<le> z. user es y = user es z))"
proof (induction x arbitrary: d rule: less_induct)
  case (less x)
  note es = less.prems(3) and d = less.prems(1,4)
  have step: "\<exists>i'. it_Prev ops (di_iter d) = Some i' \<and> at i' es (if x = 0 then length es else x - 1)"
    by (rule inner.step_prev [OF less.prems(1,2)])
  from moved [where f = "it_Prev ops", OF d(2) step]
  obtain d1 where d1: "on_iter (it_Prev ops) d = Some d1" "settled d1" "at (di_iter d1) es (if x = 0 then length es else x - 1)"
    "di_saved_key d1 = user es z" "di_direction d1 = di_direction d" using less.prems(7) by auto
  show ?case
  proof (cases "x = 0")
    case True
    then have a: "at (di_iter d1) es (length es)" using d1(3) by simp
    let ?d = "ClearSavedValue (d1\<lparr>di_valid := False, di_saved_key := []\<rparr>)"
    have "leave_key ops d = Some (False, ?d)"
      using d1(1) inner.valid [OF a] by (subst leave_key.simps) simp
    moreover have "settled ?d" "at (di_iter ?d) es (length es)" "di_direction ?d = di_direction d" "\<not> di_valid ?d"
      using d1(2,5) a by (simp_all add: ClearSavedValue_def settled_def)
    ultimately show ?thesis using less.prems(8) True by (metis le0)
  next
    case False
    then have a: "at (di_iter d1) es (x - 1)" "x - 1 < x" "x - 1 < length es" using d1(3) less.prems(2) by simp_all
    have valid: "it_Valid ops (di_iter d1)" using inner.valid [OF a(1)] a(3) by simp
    note k = inner.cur_key [OF a(1,3)]
    have c: "di_user_comparator d1 = cmp" using d1(2) by (simp add: settled_def)
    show ?thesis
    proof (cases "Compare cmp (user es (x - 1)) (user es z) < 0")
      case True
      then have r: "leave_key ops d = Some (True, d1)"
        using d1(1,4) valid k c by (subst leave_key.simps) simp
      have "\<forall>y. x - 1 < y \<longrightarrow> y \<le> z \<longrightarrow> user es y = user es z"
        using less.prems(8) by (metis Suc_diff_1 Suc_leI False not_gr_zero)
      then have "if True then x - 1 < x \<and> (\<forall>y. x - 1 < y \<longrightarrow> y \<le> z \<longrightarrow> user es y = user es z)
        else \<not> di_valid d1 \<and> (\<forall>y \<le> z. user es y = user es z)" unfolding if_True using a(2) by blast
      then show ?thesis using r d1(2,5) a(1) by blast
    next
      case ge: False
      have "user es (x - 1) = user es z"
        using user_eqI [OF es _ less.prems(6), of "x - 1"] ge less.prems(5) le_iff entry_key [OF es] a(3) less.prems(6) by simp
      then have same: "user es y = user es z" if "x - 1 \<le> y" "y \<le> z" for y
        using less.prems(8) [of y] that by (cases "y = x - 1") auto
      have e: "leave_key ops d = leave_key ops d1"
        using d1(1,4) valid k c ge by (subst leave_key.simps) simp
      have "x - 1 \<le> z" using less.prems(5) by simp
      from less.IH [OF a(2,1,3) es d1(2) this less.prems(6) d1(4) same]
      obtain more d' q where r: "leave_key ops d1 = Some (more, d')" "settled d'" "at (di_iter d') es q" "di_direction d' = di_direction d"
        "if more then q < x - 1 \<and> (\<forall>y. q < y \<longrightarrow> y \<le> z \<longrightarrow> user es y = user es z) else \<not> di_valid d' \<and> (\<forall>y \<le> z. user es y = user es z)"
        using d1(5) by auto
      have "if more then q < x \<and> (\<forall>y. q < y \<longrightarrow> y \<le> z \<longrightarrow> user es y = user es z) else \<not> di_valid d' \<and> (\<forall>y \<le> z. user es y = user es z)"
      proof (cases more)
        case True
        then show ?thesis using r(5) order.strict_trans [OF _ a(2), of q] unfolding if_P [OF True] by blast
      next
        case False
        show ?thesis using r(5) unfolding if_not_P [OF False] .
      qed
      then show ?thesis unfolding e using r(1-4) by blast
    qed
  qed
qed

subsection \<open>The iterator keeps the contract\<close>

definition db_at :: "('i, 'd) DBIter \<Rightarrow> entries \<Rightarrow> nat \<Rightarrow> bool" where
  "db_at d ues n \<longleftrightarrow>
     (\<exists>es q. entries_ok es \<and> ues = user_view s es \<and> settled d \<and> at (di_iter d) es q \<and> n \<le> length ues \<and> (di_valid d \<longleftrightarrow> n < length ues)
        \<and> (n < length ues \<longrightarrow> (\<exists>x < length es. shown s es x \<and> rank s es x = n
             \<and> (if di_direction d = iter_kForward then at (di_iter d) es x else rests_before es d x))))"

lemma db_at_valid:
  assumes "entries_ok es" "settled d" "di_valid d" "at (di_iter d) es q" "x < length es" "shown s es x"
    and "if di_direction d = iter_kForward then at (di_iter d) es x else rests_before es d x"
  shows "db_at d (user_view s es) (rank s es x)"
  unfolding db_at_def
proof (rule exI [of _ es], rule exI [of _ q], intro conjI impI)
  show "\<exists>z < length es. shown s es z \<and> rank s es z = rank s es x
      \<and> (if di_direction d = iter_kForward then at (di_iter d) es z else rests_before es d z)"
    using assms(5-7) by blast
qed (use assms view_nth(1) [OF assms(5,6)] in simp_all)

lemma db_at_end:
  assumes "entries_ok es" "settled d" "\<not> di_valid d" "at (di_iter d) es q"
  shows "db_at d (user_view s es) (length (user_view s es))"
  using assms unfolding db_at_def by auto

lemma found_db_at:
  assumes "entries_ok es" "found_at es r d" "r < length es \<Longrightarrow> shown s es r" "r \<le> length es"
  shows "db_at d (user_view s es) (rank s es r)"
proof (cases "r < length es")
  case True
  then show ?thesis using assms db_at_valid [OF assms(1), of d r r] by (simp add: found_at_def)
next
  case False
  then have r: "r = length es" using assms(4) by simp
  have "settled d" "\<not> di_valid d" "at (di_iter d) es r" using assms(2) r by (simp_all add: found_at_def)
  from db_at_end [OF assms(1) this] show ?thesis unfolding r rank_length .
qed

lemma FindNextUserEntry_ok:
  assumes es: "entries_ok es" "at (di_iter d) es p" "p < length es" "settled d" "di_direction d = iter_kForward"
    and h: "hides es skipping (di_saved_key d) p"
  shows "\<exists>d' r. FindNextUserEntry ops record_sample skipping d = Some d' \<and> db_at d' (user_view s es) (rank s es r)
    \<and> is_first (candidate es skipping (di_saved_key d)) p (length es) r"
proof -
  obtain d' r where r: "FindNext_loop ops record_sample skipping d = Some d'" "found_at es r d'"
    "is_first (candidate es skipping (di_saved_key d)) p (length es) r"
    using FindNext_loop_finds [OF es h] by blast
  have "db_at d' (user_view s es) (rank s es r)"
    by (rule found_db_at [OF es(1) r(2)]) (use r(3) in \<open>auto simp: is_first_def candidate_def\<close>)
  moreover have "it_Valid ops (di_iter d)" using inner.valid [OF es(2)] es(3) by simp
  ultimately show ?thesis using r(1,3) es(5) by (auto simp: FindNextUserEntry_def)
qed

text \<open>The next shown entry after \<open>x\<close>, from any position that is not past it.\<close>

lemma next_after:
  assumes es: "entries_ok es" "x < length es" "shown s es x" and p: "p \<le> x"
    and f: "is_first (candidate es True (user es x)) p (length es) r"
    and before: "\<And>y. p \<le> y \<Longrightarrow> y < x \<Longrightarrow> \<not> visible s (es ! y)"
  shows "rank s es r = rank s es x + 1"
proof -
  have "\<not> candidate es True (user es x) y" if "y \<le> x" for y
    using user_sorted [OF es(1) that es(2)] by (simp add: candidate_def)
  then have "x < r" using f p es(2) unfolding is_first_def by (metis le_neq_implies_less linorder_not_le)
  moreover have "\<not> shown s es y" if y: "x < y" "y < r" for y
  proof
    assume sh: "shown s es y"
    have l: "y < length es" using y(2) f by (simp add: is_first_def)
    have "\<not> candidate es True (user es x) y" using f y p by (simp add: is_first_def)
    then have "user es x = user es y" using user_eqI [OF es(1) _ l, of x] y(1) sh by (simp add: candidate_def)
    then show False using shown_once [OF y(1) _ _] es(3) sh unfolding shown_def by blast
  qed
  ultimately have "rank s es r = rank s es (Suc x)" by (intro rank_same) auto
  then show ?thesis using es(3) by simp
qed

lemma hides_from:
  assumes es: "entries_ok es" "x < length es" "shown s es x" and p: "p \<le> x"
    and before: "\<And>y. p \<le> y \<Longrightarrow> y < x \<Longrightarrow> \<not> visible s (es ! y)"
  shows "hides es True (user es x) p"
  unfolding hides_def
proof (intro conjI allI impI)
  fix z y assume y: "y < p" "p \<le> z" "z < length es" "user es y = user es z"
  show True by simp
  have "Compare cmp (user es y) (user es x) \<le> 0" using user_sorted [OF es(1) _ es(2), of y] y(1) p by simp
  then show "Compare cmp (user es z) (user es x) \<le> 0" using y(4) by simp
next
  show "key (user es x)" by (rule entry_key [OF es(1,2)])
  fix z assume z: "p \<le> z" "z < length es" "visible s (es ! z)"
  then have "x \<le> z" using before by (metis not_le)
  then show "Compare cmp (user es x) (user es z) \<le> 0" by (rule user_sorted [OF es(1) _ z(2)])
qed

lemma FindPrevUserEntry_ok:
  assumes es: "entries_ok es" "at (di_iter d) es q" and d: "settled d" "di_direction d = iter_kReverse"
  shows "\<exists>d'. FindPrevUserEntry ops record_sample d = Some d'
    \<and> ((\<exists>j \<le> q. q < length es \<and> shown s es j \<and> (\<forall>x. j < x \<longrightarrow> x \<le> q \<longrightarrow> \<not> shown s es x) \<and> db_at d' (user_view s es) (rank s es j))
       \<or> (q < length es \<longrightarrow> (\<forall>x \<le> q. \<not> shown s es x)) \<and> db_at d' (user_view s es) (length (user_view s es)))"
proof -
  have none: "db_at ((ClearSavedValue (d1\<lparr>di_valid := False, di_saved_key := []\<rparr>))\<lparr>di_direction := iter_kForward\<rparr>)
      (user_view s es) (length (user_view s es))" if "settled d1" "at (di_iter d1) es q1" for d1 q1
    by (rule db_at_end [OF es(1), of _ q1]) (use that in \<open>simp_all add: settled_def ClearSavedValue_def\<close>)
  show ?thesis
  proof (cases "q < length es")
    case False
    then have "FindPrevUserEntry ops record_sample d
      = Some ((ClearSavedValue (d\<lparr>di_valid := False, di_saved_key := []\<rparr>))\<lparr>di_direction := iter_kForward\<rparr>)"
      using inner.valid [OF es(2)] d(2) by (simp add: FindPrevUserEntry_def)
    then show ?thesis using none [OF d(1) es(2)] False by blast
  next
    case True
    have "scanned es q kTypeDeletion d (Suc q)" by (simp add: scanned_def)
    from FindPrev_loop_finds [OF es(1) True es(2) order_refl d(1) this]
    obtain vt d1 where r: "FindPrev_loop ops record_sample kTypeDeletion d = Some (vt, d1)" "settled d1" "di_direction d1 = iter_kReverse"
      "scan_result es q vt d1" using d(2) by auto
    have valid: "it_Valid ops (di_iter d)" using inner.valid [OF es(2)] True by simp
    show ?thesis
    proof (cases "vt = kTypeDeletion")
      case del: True
      obtain q1 where "at (di_iter d1) es q1" "\<forall>x \<le> q. \<not> shown s es x" using r(4) del by (auto simp: scan_result_def)
      moreover have "FindPrevUserEntry ops record_sample d
        = Some ((ClearSavedValue (d1\<lparr>di_valid := False, di_saved_key := []\<rparr>))\<lparr>di_direction := iter_kForward\<rparr>)"
        using r(1) valid d(2) del by (simp add: FindPrevUserEntry_def)
      ultimately show ?thesis using none [OF r(2)] by blast
    next
      case val: False
      obtain j where j: "j \<le> q" "shown s es j" "\<forall>x. j < x \<longrightarrow> x \<le> q \<longrightarrow> \<not> shown s es x" "rests_before es d1 j"
        using r(4) val unfolding scan_result_def by auto
      let ?d = "d1\<lparr>di_valid := True\<rparr>"
      have s: "settled ?d" "rests_before es ?d j" "\<exists>q. at (di_iter ?d) es q"
        using r(2) j(4) by (auto simp: settled_def rests_before_def)
      have "db_at ?d (user_view s es) (rank s es j)"
        using db_at_valid [OF es(1) s(1), of _ j] s(2,3) j(1,2) True r(3) by auto
      moreover have "FindPrevUserEntry ops record_sample d = Some ?d"
        using r(1) valid d(2) val by (simp add: FindPrevUserEntry_def)
      ultimately show ?thesis using j(1-3) True by blast
    qed
  qed
qed

text \<open>A seek in the internal entries parts the visible ones by their user keys.\<close>

definition seek_key :: "Slice \<Rightarrow> Slice" where
  "seek_key target = InternalKey_make target s kValueTypeForSeek"

lemma position_nth:
  assumes "sorted_entries c es" "i < length es" "\<And>a b d. a \<in> set es \<Longrightarrow> b \<in> set es \<Longrightarrow> Compare c (fst a) (fst b) < 0 \<Longrightarrow>
    Compare c (fst b) k < 0 \<Longrightarrow> Compare c (fst a) k < 0"
  shows "i < position c k es \<longleftrightarrow> Compare c (fst (es ! i)) k < 0"
proof
  let ?P = "\<lambda>e. Compare c (fst e) k < 0"
  assume "i < position c k es"
  then show "?P (es ! i)" unfolding position_def using nth_mem set_takeWhileD takeWhile_nth by metis
next
  let ?P = "\<lambda>e. Compare c (fst e) k < 0"
  assume P: "?P (es ! i)"
  show "i < position c k es"
  proof (rule ccontr)
    assume "\<not> i < position c k es"
    then have p: "position c k es \<le> i" by simp
    then have "\<not> ?P (es ! position c k es)"
      using nth_length_takeWhile [of ?P es] assms(2) unfolding position_def by simp
    moreover have "?P (es ! position c k es)"
    proof (cases "position c k es = i")
      case False
      then have "Compare c (fst (es ! position c k es)) (fst (es ! i)) < 0"
        using assms(1,2) p unfolding sorted_entries_def sorted_wrt_iff_nth_less by simp
      then show ?thesis using assms(3) [OF _ _ _ P] assms(2) p by simp
    qed (use P in simp)
    ultimately show False by blast
  qed
qed

lemma seek_parts:
  assumes es: "entries_ok es" "i < length es" and t: "key target"
  defines "p \<equiv> position (InternalKeyComparator cmp) (seek_key target) es"
  shows "i < p \<Longrightarrow> visible s (es ! i) \<Longrightarrow> Compare cmp (user es i) target < 0"
    and "p \<le> i \<Longrightarrow> \<not> Compare cmp (user es i) target < 0"
proof -
  have k: "ikey key (seek_key target)" "ExtractUserKey (seek_key target) = target"
    "tag_of (seek_key target) = PackSequenceAndType s kValueTypeForSeek"
    using t by (simp_all add: seek_key_def ikey_def)
  have lt: "i < p \<longleftrightarrow> InternalKey_Compare cmp (fst (es ! i)) (seek_key target) < 0"
  proof -
    have "i < p \<longleftrightarrow> Compare (InternalKeyComparator cmp) (fst (es ! i)) (seek_key target) < 0"
      unfolding p_def
    proof (rule position_nth)
      show "sorted_entries (InternalKeyComparator cmp) es" using es(1) by (simp add: entries_ok_def)
      fix a b assume ab: "a \<in> set es" "b \<in> set es" "Compare (InternalKeyComparator cmp) (fst a) (fst b) < 0"
        "Compare (InternalKeyComparator cmp) (fst b) (seek_key target) < 0"
      have "ikey key (fst e)" if "e \<in> set es" for e using that entry_ikey [OF es(1)] by (metis in_set_conv_nth)
      then show "Compare (InternalKeyComparator cmp) (fst a) (seek_key target) < 0"
        using ikc_less_trans [OF _ _ k(1)] ab unfolding InternalKeyComparator_simps by blast
    qed (rule es(2))
    then show ?thesis by simp
  qed
  note iff = ikc_less_iff [OF entry_ikey [OF es] k(1), unfolded k(2,3)]
  show "\<not> Compare cmp (user es i) target < 0" if "p \<le> i" using that lt iff by simp
  show "Compare cmp (user es i) target < 0" if "i < p" "visible s (es ! i)"
  proof -
    obtain pk where pk: "ParseInternalKey (fst (es ! i)) = Some pk" "visible s (es ! i) \<longleftrightarrow> pik_sequence pk \<le> s"
      using entry_parses [OF es] by blast
    have tag: "tag_of (fst (es ! i)) = PackSequenceAndType (pik_sequence pk) (pik_type pk)" "pik_sequence pk \<le> kMaxSequenceNumber"
      using parsed_key [OF pk(1)] by blast+
    have "unat (pik_sequence pk) \<le> unat s" using pk(2) that(2) by (simp add: word_le_nat_alt)
    moreover have "unat (ValueType_value (pik_type pk)) \<le> 1" by (cases "pik_type pk") simp_all
    ultimately have "unat (tag_of (fst (es ! i))) \<le> unat (PackSequenceAndType s kValueTypeForSeek)"
      unfolding tag(1) Pack_value [OF tag(2)] Pack_value [OF s_max] kValueTypeForSeek_def by simp
    then have "\<not> PackSequenceAndType s kValueTypeForSeek < tag_of (fst (es ! i))" by (simp add: word_less_nat_alt)
    then show ?thesis using that(1) lt iff by blast
  qed
qed

lemma seek_position:
  assumes es: "entries_ok es" and t: "key target"
  shows "position cmp target (user_view s es) = rank s es (position (InternalKeyComparator cmp) (seek_key target) es)"
proof -
  let ?p = "position (InternalKeyComparator cmp) (seek_key target) es"
  let ?P = "\<lambda>e. Compare cmp (fst e) target < 0" and ?f = "\<lambda>i. (user es i, snd (es ! i))"
  have p: "?p \<le> length es" by (simp add: position_def length_takeWhile_le)
  have below: "?P e" if "e \<in> set (map ?f (filter (shown s es) [0..<?p]))" for e
    using that seek_parts(1) [OF es _ t] p by (auto simp: shown_def)
  have above: "\<not> ?P e" if "e \<in> set (map ?f (filter (shown s es) [?p..<length es]))" for e
    using that seek_parts(2) [OF es _ t] by auto
  have "takeWhile ?P (map ?f (filter (shown s es) [?p..<length es])) = []"
    using above by (cases "map ?f (filter (shown s es) [?p..<length es])") auto
  then have "takeWhile ?P (user_view s es) = map ?f (filter (shown s es) [0..<?p])"
    unfolding view_split [OF p] using below by (subst takeWhile_append2) auto
  then show ?thesis by (simp add: position_def rank_def)
qed

lemma first_rank:
  assumes "is_first (candidate es False k) p n r"
  shows "rank s es r = rank s es p"
  using assms by (intro rank_same) (auto simp: is_first_def candidate_def)

text \<open>After a seek of the internal iterator to \<open>p\<close>.\<close>

lemma find_from:
  assumes es: "entries_ok es" and d: "settled d" "di_direction d = iter_kForward" "at (di_iter d) es p"
    and h: "hides es False (di_saved_key d) p"
  shows "\<exists>d'. (if it_Valid ops (di_iter d) then FindNextUserEntry ops record_sample False d else Some (not_valid d)) = Some d'
    \<and> db_at d' (user_view s es) (rank s es p)"
proof (cases "p < length es")
  case True
  then show ?thesis
    using FindNextUserEntry_ok [OF es d(3) True d(1,2) h] inner.valid [OF d(3)] first_rank by fastforce
next
  case False
  then have p: "p = length es" using inner.in_range [OF d(3)] by simp
  have "db_at (not_valid d) (user_view s es) (rank s es p)"
    unfolding p rank_length
    by (rule db_at_end [OF es, of _ p]) (use d in \<open>simp_all add: not_valid_def settled_def\<close>)
  then show ?thesis using inner.valid [OF d(3)] False by simp
qed

lemma start_forward:
  "settled d \<Longrightarrow> settled (ClearSavedValue (d\<lparr>di_direction := w\<rparr>)) \<and> di_iter (ClearSavedValue (d\<lparr>di_direction := w\<rparr>)) = di_iter d
   \<and> di_direction (ClearSavedValue (d\<lparr>di_direction := w\<rparr>)) = w"
  by (simp add: ClearSavedValue_def settled_def)

lemma SeekToFirst_ok:
  assumes "entries_ok es" "settled d" "at (di_iter d) es q"
  shows "\<exists>d'. DBIter_SeekToFirst ops record_sample d = Some d' \<and> db_at d' (user_view s es) 0"
proof -
  let ?d = "ClearSavedValue (d\<lparr>di_direction := iter_kForward\<rparr>)"
  note st = start_forward [OF assms(2), of iter_kForward]
  have "\<exists>i'. it_SeekToFirst ops (di_iter ?d) = Some i' \<and> at i' es 0" using inner.seek_to_first [OF assms(3)] st by simp
  from moved [where f = "it_SeekToFirst ops", OF conjunct1 [OF st] this]
  obtain d1 where d1: "on_iter (it_SeekToFirst ops) ?d = Some d1" "settled d1" "at (di_iter d1) es 0" "di_direction d1 = iter_kForward"
    using st by auto
  have "hides es False (di_saved_key d1) 0" by (simp add: hides_def)
  from find_from [OF assms(1) d1(2,4,3) this] show ?thesis using d1(1) by (simp add: DBIter_SeekToFirst_def)
qed

lemma Seek_ok:
  assumes "entries_ok es" "settled d" "at (di_iter d) es q" "key target" "ik (seek_key target)"
  shows "\<exists>d'. DBIter_Seek ops record_sample target d = Some d' \<and> db_at d' (user_view s es) (position cmp target (user_view s es))"
proof -
  let ?p = "position (InternalKeyComparator cmp) (seek_key target) es"
  let ?d = "(ClearSavedValue (d\<lparr>di_direction := iter_kForward\<rparr>))\<lparr>di_saved_key := seek_key target\<rparr>"
  have st: "settled ?d" "di_iter ?d = di_iter d" "di_direction ?d = iter_kForward" "di_saved_key ?d = seek_key target"
    using assms(2) by (simp_all add: ClearSavedValue_def settled_def)
  have sk: "AppendInternalKey [] \<lparr>pik_user_key = target, pik_sequence = di_sequence d, pik_type = kValueTypeForSeek\<rparr> = seek_key target"
    using assms(2) by (simp add: settled_def seek_key_def AppendInternalKey_app)
  have "\<exists>i'. it_Seek ops (seek_key target) (di_iter ?d) = Some i' \<and> at i' es ?p" using inner.seek [OF assms(3,5)] st by simp
  from moved [where f = "it_Seek ops (seek_key target)", OF st(1) this]
  obtain d1 where d1: "on_iter (it_Seek ops (seek_key target)) ?d = Some d1" "settled d1" "at (di_iter d1) es ?p" "di_direction d1 = iter_kForward"
    using st by auto
  have "user es y \<noteq> user es x" if "y < ?p" "?p \<le> x" "x < length es" "visible s (es ! y)" for x y
    using seek_parts(1) [OF assms(1) _ assms(4), of y] seek_parts(2) [OF assms(1) _ assms(4), of x] that by auto
  then have "hides es False (di_saved_key d1) ?p" unfolding hides_def by blast
  from find_from [OF assms(1) d1(2,4,3) this] show ?thesis
    using d1(1) sk unfolding DBIter_Seek_def Let_def seek_position [OF assms(1,4)] by (simp add: ClearSavedValue_def)
qed

lemma SeekToLast_ok:
  assumes "entries_ok es" "settled d" "at (di_iter d) es q"
  shows "\<exists>d'. DBIter_SeekToLast ops record_sample d = Some d' \<and> db_at d' (user_view s es) (length (user_view s es) - 1)"
proof -
  let ?d = "ClearSavedValue (d\<lparr>di_direction := iter_kReverse\<rparr>)" and ?m = "length es - 1"
  note st = start_forward [OF assms(2), of iter_kReverse]
  have "\<exists>i'. it_SeekToLast ops (di_iter ?d) = Some i' \<and> at i' es ?m" using inner.seek_to_last [OF assms(3)] st by simp
  from moved [where f = "it_SeekToLast ops", OF conjunct1 [OF st] this]
  obtain d1 where d1: "on_iter (it_SeekToLast ops) ?d = Some d1" "settled d1" "at (di_iter d1) es ?m" "di_direction d1 = iter_kReverse"
    using st by auto
  obtain d' where d': "FindPrevUserEntry ops record_sample d1 = Some d'"
    "(\<exists>j \<le> ?m. ?m < length es \<and> shown s es j \<and> (\<forall>x. j < x \<longrightarrow> x \<le> ?m \<longrightarrow> \<not> shown s es x) \<and> db_at d' (user_view s es) (rank s es j))
       \<or> (?m < length es \<longrightarrow> (\<forall>x \<le> ?m. \<not> shown s es x)) \<and> db_at d' (user_view s es) (length (user_view s es))"
    using FindPrevUserEntry_ok [OF assms(1) d1(3,2,4)] by blast
  have "db_at d' (user_view s es) (length (user_view s es) - 1)"
    using d'(2)
  proof
    assume "\<exists>j \<le> ?m. ?m < length es \<and> shown s es j \<and> (\<forall>x. j < x \<longrightarrow> x \<le> ?m \<longrightarrow> \<not> shown s es x) \<and> db_at d' (user_view s es) (rank s es j)"
    then obtain j where j: "j \<le> ?m" "?m < length es" "shown s es j" "\<And>x. j < x \<Longrightarrow> x \<le> ?m \<Longrightarrow> \<not> shown s es x"
      "db_at d' (user_view s es) (rank s es j)" by blast
    have "rank s es (length es) = rank s es (Suc j)" by (rule rank_same) (use j(1,2,4) in auto)
    then show ?thesis using j(3,5) unfolding rank_length by simp
  next
    assume n: "(?m < length es \<longrightarrow> (\<forall>x \<le> ?m. \<not> shown s es x)) \<and> db_at d' (user_view s es) (length (user_view s es))"
    have "rank s es (length es) = rank s es 0" by (rule rank_same) (use n in auto)
    then show ?thesis using n unfolding rank_length by simp
  qed
  then show ?thesis using d1(1) d'(1) by (simp add: DBIter_SeekToLast_def)
qed

text \<open>\<open>Next\<close> and \<open>Prev\<close> from the shown entry \<open>x\<close>.\<close>

lemma next_from:
  assumes es: "entries_ok es" "x < length es" "shown s es x" and p: "p \<le> x" "\<And>y. p \<le> y \<Longrightarrow> y < x \<Longrightarrow> \<not> visible s (es ! y)"
    and d: "settled d" "di_direction d = iter_kForward" "at (di_iter d) es p" "di_saved_key d = user es x"
  shows "\<exists>d'. FindNextUserEntry ops record_sample True d = Some d' \<and> db_at d' (user_view s es) (rank s es x + 1)"
proof -
  have "p < length es" using p(1) es(2) by simp
  from FindNextUserEntry_ok [OF es(1) d(3) this d(1,2)] hides_from [OF es p]
  obtain d' r where r: "FindNextUserEntry ops record_sample True d = Some d'" "db_at d' (user_view s es) (rank s es r)"
    "is_first (candidate es True (user es x)) p (length es) r" unfolding d(4) by blast
  have "rank s es r = rank s es x + 1" by (rule next_after [OF es p(1) r(3) p(2)])
  then show ?thesis using r(1,2) by metis
qed

lemma Next_ok:
  assumes es: "entries_ok es" "x < length es" "shown s es x" and d: "settled d" "di_valid d"
    and x: "if di_direction d = iter_kForward then at (di_iter d) es x else rests_before es d x"
  shows "\<exists>d'. DBIter_Next ops record_sample d = Some d' \<and> db_at d' (user_view s es) (rank s es x + 1)"
proof (cases "di_direction d")
  case iter_kForward
  then have a: "at (di_iter d) es x" using x by simp
  let ?d = "d\<lparr>di_saved_key := user es x\<rparr>"
  have "settled ?d" "di_direction ?d = iter_kForward" "at (di_iter ?d) es x" "di_saved_key ?d = user es x"
    using d(1) a iter_kForward by (simp_all add: settled_def)
  from next_from [OF es order_refl _ this] show ?thesis
    using d(2) iter_kForward inner.cur_key [OF a es(2)] by (simp add: DBIter_Next_def)
next
  case iter_kReverse
  then have rb: "rests_before es d x" using x by simp
  let ?d = "d\<lparr>di_direction := iter_kForward\<rparr>"
  have s1: "settled ?d" using d(1) by (simp add: settled_def)
  have "\<exists>p d1. (if \<not> it_Valid ops (di_iter ?d) then on_iter (it_SeekToFirst ops) ?d else on_iter (it_Next ops) ?d) = Some d1
    \<and> settled d1 \<and> di_direction d1 = iter_kForward \<and> at (di_iter d1) es p \<and> di_saved_key d1 = user es x
    \<and> p \<le> x \<and> (\<forall>y. p \<le> y \<longrightarrow> y < x \<longrightarrow> \<not> visible s (es ! y))"
  proof (cases "at (di_iter d) es (length es) \<and> (\<forall>y < x. \<not> visible s (es ! y))")
    case True
    have "\<exists>i'. it_SeekToFirst ops (di_iter ?d) = Some i' \<and> at i' es 0" using inner.seek_to_first [OF conjunct1 [OF True]] by simp
    from moved [where f = "it_SeekToFirst ops", OF s1 this]
    obtain d1 where "on_iter (it_SeekToFirst ops) ?d = Some d1" "settled d1" "at (di_iter d1) es 0" "di_direction d1 = iter_kForward"
      "di_saved_key d1 = user es x" using rb by (auto simp: rests_before_def)
    moreover have "\<not> it_Valid ops (di_iter ?d)" using inner.valid [OF conjunct1 [OF True]] by simp
    ultimately show ?thesis using True by (intro exI [of _ 0] exI [of _ d1]) simp
  next
    case False
    then obtain q where q: "q < x" "at (di_iter d) es q" "\<And>y. q < y \<Longrightarrow> y < x \<Longrightarrow> \<not> visible s (es ! y)"
      using rb unfolding rests_before_def by blast
    have ql: "q < length es" using q(1) es(2) by simp
    have "\<exists>i'. it_Next ops (di_iter ?d) = Some i' \<and> at i' es (q + 1)" using inner.step_next [OF q(2) ql] by simp
    from moved [where f = "it_Next ops", OF s1 this]
    obtain d1 where "on_iter (it_Next ops) ?d = Some d1" "settled d1" "at (di_iter d1) es (q + 1)" "di_direction d1 = iter_kForward"
      "di_saved_key d1 = user es x" using rb by (auto simp: rests_before_def)
    moreover have "it_Valid ops (di_iter ?d)" using inner.valid [OF q(2)] ql by simp
    ultimately show ?thesis using q(1,3) by (intro exI [of _ "q + 1"] exI [of _ d1]) simp
  qed
  then obtain p d1 where d1: "(if \<not> it_Valid ops (di_iter ?d) then on_iter (it_SeekToFirst ops) ?d else on_iter (it_Next ops) ?d) = Some d1"
    "settled d1" "di_direction d1 = iter_kForward" "at (di_iter d1) es p" "di_saved_key d1 = user es x"
    "p \<le> x" "\<And>y. p \<le> y \<Longrightarrow> y < x \<Longrightarrow> \<not> visible s (es ! y)" by blast
  have "it_Valid ops (di_iter d1)" using inner.valid [OF d1(4)] d1(6) es(2) by simp
  then show ?thesis
    using next_from [OF es d1(6,7,2-5)] d1(1) d(2) iter_kReverse unfolding DBIter_Next_def Let_def by simp
qed

lemma prev_from:
  assumes es: "entries_ok es" "x < length es" and q: "q < x \<or> q = length es \<and> rank s es x = 0" "\<And>y. q < y \<Longrightarrow> y < x \<Longrightarrow> \<not> shown s es y"
    and d: "settled d" "di_direction d = iter_kReverse" "at (di_iter d) es q"
  shows "\<exists>d'. FindPrevUserEntry ops record_sample d = Some d'
    \<and> db_at d' (user_view s es) (if rank s es x = 0 then length (user_view s es) else rank s es x - 1)"
proof -
  obtain d' where d': "FindPrevUserEntry ops record_sample d = Some d'"
    "(\<exists>j \<le> q. q < length es \<and> shown s es j \<and> (\<forall>x. j < x \<longrightarrow> x \<le> q \<longrightarrow> \<not> shown s es x) \<and> db_at d' (user_view s es) (rank s es j))
       \<or> (q < length es \<longrightarrow> (\<forall>x \<le> q. \<not> shown s es x)) \<and> db_at d' (user_view s es) (length (user_view s es))"
    using FindPrevUserEntry_ok [OF es(1) d(3,1,2)] by blast
  show ?thesis
    using d'(2)
  proof
    assume "\<exists>j \<le> q. q < length es \<and> shown s es j \<and> (\<forall>x. j < x \<longrightarrow> x \<le> q \<longrightarrow> \<not> shown s es x) \<and> db_at d' (user_view s es) (rank s es j)"
    then obtain j where j: "j \<le> q" "q < length es" "shown s es j" "\<And>x. j < x \<Longrightarrow> x \<le> q \<Longrightarrow> \<not> shown s es x"
      "db_at d' (user_view s es) (rank s es j)" by blast
    have "rank s es x = rank s es (Suc j)"
    proof (rule rank_same)
      show "Suc j \<le> x" using j(1,2) q(1) by simp
      show "\<not> shown s es y" if "Suc j \<le> y" "y < x" for y using that j(4) [of y] q(2) [of y] by (cases "y \<le> q") simp_all
    qed
    then have "rank s es x = rank s es j + 1" using j(3) by simp
    then show ?thesis using d'(1) j(5) by simp
  next
    assume n: "(q < length es \<longrightarrow> (\<forall>x \<le> q. \<not> shown s es x)) \<and> db_at d' (user_view s es) (length (user_view s es))"
    have "rank s es x = 0"
    proof (cases "q < x")
      case True
      then have "\<not> shown s es y" if "y < x" for y using that n q(2) [of y] es(2) by (cases "y \<le> q") simp_all
      then show ?thesis using rank_same [of 0 x s es] by simp
    qed (use q(1) in simp)
    then show ?thesis using d'(1) n by simp
  qed
qed

lemma Prev_ok:
  assumes es: "entries_ok es" "x < length es" "shown s es x" and d: "settled d" "di_valid d"
    and x: "if di_direction d = iter_kForward then at (di_iter d) es x else rests_before es d x"
  shows "\<exists>d'. DBIter_Prev ops record_sample d = Some d'
    \<and> db_at d' (user_view s es) (if rank s es x = 0 then length (user_view s es) else rank s es x - 1)"
proof (cases "di_direction d")
  case iter_kForward
  then have a: "at (di_iter d) es x" using x by simp
  let ?d = "d\<lparr>di_saved_key := user es x\<rparr>"
  have d0: "settled ?d" "at (di_iter ?d) es x" "di_saved_key ?d = user es x" using d(1) a by (simp_all add: settled_def)
  have hid: "\<not> shown s es y" if "y < x" "user es y = user es x" for y using that es(3) by (auto simp: shown_def)
  have "user es y = user es x" if "x \<le> y" "y \<le> x" for y using that by simp
  from leave_key_finds [OF d0(2) es(2,1) d0(1) order_refl es(2) d0(3) this]
  obtain more d1 q where l: "leave_key ops ?d = Some (more, d1)" "settled d1" "at (di_iter d1) es q"
    "if more then q < x \<and> (\<forall>y. q < y \<longrightarrow> y \<le> x \<longrightarrow> user es y = user es x) else \<not> di_valid d1 \<and> (\<forall>y \<le> x. user es y = user es x)"
    by blast
  have e: "DBIter_Prev ops record_sample d
    = (if more then FindPrevUserEntry ops record_sample (d1\<lparr>di_direction := iter_kReverse\<rparr>) else Some d1)"
    using d(2) iter_kForward inner.cur_key [OF a es(2)] inner.valid [OF a] es(2) l(1) by (simp add: DBIter_Prev_def)
  show ?thesis
  proof (cases more)
    case True
    then have q: "q < x" "\<And>y. q < y \<Longrightarrow> y \<le> x \<Longrightarrow> user es y = user es x"
      using l(4) unfolding if_P [OF True] by blast+
    let ?d1 = "d1\<lparr>di_direction := iter_kReverse\<rparr>"
    have "settled ?d1" "di_direction ?d1 = iter_kReverse" "at (di_iter ?d1) es q" using l(2,3) by (simp_all add: settled_def)
    moreover have "\<not> shown s es y" if "q < y" "y < x" for y by (rule hid [OF that(2) q(2)]) (use that in linarith)+
    ultimately show ?thesis using prev_from [OF es(1,2)] q(1) unfolding e if_P [OF True] by blast
  next
    case False
    have "\<not> di_valid d1" "\<forall>y \<le> x. user es y = user es x" using l(4) unfolding if_not_P [OF False] by blast+
    then have "\<not> shown s es y" if "y < x" for y using hid [OF that] that by (meson order.strict_implies_order)
    then have "rank s es x = 0" using rank_same [of 0 x s es] by simp
    moreover have "db_at d1 (user_view s es) (length (user_view s es))"
      by (rule db_at_end [OF es(1) l(2) \<open>\<not> di_valid d1\<close> l(3)])
    ultimately show ?thesis unfolding e if_not_P [OF False] by simp
  qed
next
  case iter_kReverse
  then have rb: "rests_before es d x" using x by simp
  have hid: "\<not> shown s es y" if "\<not> visible s (es ! y)" for y using that by (simp add: shown_def)
  have "DBIter_Prev ops record_sample d = FindPrevUserEntry ops record_sample d"
    using d(2) iter_kReverse by (simp add: DBIter_Prev_def)
  moreover have "\<exists>q. (q < x \<or> q = length es \<and> rank s es x = 0) \<and> (\<forall>y. q < y \<longrightarrow> y < x \<longrightarrow> \<not> shown s es y) \<and> at (di_iter d) es q"
  proof (cases "at (di_iter d) es (length es) \<and> (\<forall>y < x. \<not> visible s (es ! y))")
    case True
    then have "rank s es x = 0" using rank_same [of 0 x s es] hid by simp
    then show ?thesis using True es(2) by (intro exI [of _ "length es"]) simp
  next
    case False
    then show ?thesis using rb hid unfolding rests_before_def by blast
  qed
  then obtain q where q: "q < x \<or> q = length es \<and> rank s es x = 0" "\<And>y. q < y \<Longrightarrow> y < x \<Longrightarrow> \<not> shown s es y" "at (di_iter d) es q"
    by blast
  ultimately show ?thesis using prev_from [OF es(1,2) q(1,2) d(1) iter_kReverse q(3)] by simp
qed

definition target_key :: "Slice \<Rightarrow> bool" where
  "target_key target \<longleftrightarrow> key target \<and> ik (seek_key target)"

theorem db_iterator: "iterator (DBIter_ops ops record_sample) target_key cmp db_at"
proof
  fix d :: "('i, 'd) DBIter" and ues n
  assume "db_at d ues n"
  then obtain es q where d: "entries_ok es" "ues = user_view s es" "settled d" "at (di_iter d) es q" "n \<le> length ues" "di_valid d \<longleftrightarrow> n < length ues"
    and x: "n < length ues \<Longrightarrow> \<exists>x < length es. shown s es x \<and> rank s es x = n
      \<and> (if di_direction d = iter_kForward then at (di_iter d) es x else rests_before es d x)"
    unfolding db_at_def by blast
  show "n \<le> length ues" by (rule d(5))
  show "it_Valid (DBIter_ops ops record_sample) d \<longleftrightarrow> n < length ues" using d(6) by (simp add: DBIter_ops_def DBIter_Valid_def)
  show "Status_ok (it_status (DBIter_ops ops record_sample) d)"
    using inner.status [OF d(4)] d(3) by (simp add: DBIter_ops_def DBIter_status_def settled_def)
  show "\<exists>d'. it_SeekToFirst (DBIter_ops ops record_sample) d = Some d' \<and> db_at d' ues 0"
    using SeekToFirst_ok [OF d(1,3,4)] d(2) by (simp add: DBIter_ops_def)
  show "\<exists>d'. it_SeekToLast (DBIter_ops ops record_sample) d = Some d' \<and> db_at d' ues (length ues - 1)"
    using SeekToLast_ok [OF d(1,3,4)] d(2) by (simp add: DBIter_ops_def)
  show "\<exists>d'. it_Seek (DBIter_ops ops record_sample) target d = Some d' \<and> db_at d' ues (position cmp target ues)"
    if "target_key target" for target
    using Seek_ok [OF d(1,3,4)] that d(2) by (simp add: DBIter_ops_def target_key_def)
  {
    assume n: "n < length ues"
    then obtain x where x: "x < length es" "shown s es x" "rank s es x = n"
      "if di_direction d = iter_kForward then at (di_iter d) es x else rests_before es d x" using x by blast
    have v: "di_valid d" "ues ! n = (user es x, snd (es ! x))" using n d(2,6) view_nth(2) [OF x(1,2)] x(3) by auto
    show "it_key (DBIter_ops ops record_sample) d = Some (fst (ues ! n))"
      using v x(4) inner.cur_key [OF _ x(1)] by (auto simp: DBIter_ops_def DBIter_key_def rests_before_def)
    show "it_value (DBIter_ops ops record_sample) d = Some (snd (ues ! n))"
      using v x(4) inner.cur_value [OF _ x(1)] by (auto simp: DBIter_ops_def DBIter_value_def rests_before_def)
    show "\<exists>d'. it_Next (DBIter_ops ops record_sample) d = Some d' \<and> db_at d' ues (n + 1)"
      using Next_ok [OF d(1) x(1,2) d(3) v(1) x(4)] x(3) d(2) by (simp add: DBIter_ops_def)
    show "\<exists>d'. it_Prev (DBIter_ops ops record_sample) d = Some d' \<and> db_at d' ues (if n = 0 then length ues else n - 1)"
      using Prev_ok [OF d(1) x(1,2) d(3) v(1) x(4)] unfolding x(3) d(2) DBIter_ops_def Iterator.select_convs .
  }
qed

text \<open>A new iterator is before its first seek: not valid.\<close>

lemma new_at:
  assumes "entries_ok es" "at i es q"
  shows "db_at (new_DBIter db cmp i s seed) (user_view s es) (length (user_view s es))"
proof (rule db_at_end [OF assms(1), of _ q])
  have "good_seed (Random_Next (new_Random seed))" by (rule Random_Next_exact(2) [OF new_Random_good])
  then show "settled (new_DBIter db cmp i s seed)"
    by (simp add: new_DBIter_def settled_def period_value Status_ok_def Status_OK_def)
  show "\<not> di_valid (new_DBIter db cmp i s seed)" "at (di_iter (new_DBIter db cmp i s seed)) es q"
    using assms(2) by (simp_all add: new_DBIter_def period_value)
qed

lemma view_sorted:
  assumes "entries_ok es"
  shows "sorted_entries cmp (user_view s es)"
proof -
  have lt: "Compare cmp (user es i) (user es j) < 0" if "i < j" "j < length es" "shown s es i" "shown s es j" for i j
  proof -
    have "\<not> Compare cmp (user es j) (user es i) \<le> 0"
    proof
      assume "Compare cmp (user es j) (user es i) \<le> 0"
      then have "user es i = user es j" using user_eqI [OF assms _ that(2)] that(1) by simp
      then show False using shown_once [OF that(1)] that(3,4) unfolding shown_def by blast
    qed
    then show ?thesis using le_iff entry_key [OF assms] that(1,2) by simp
  qed
  have "sorted_wrt (\<lambda>i j. Compare cmp (user es i) (user es j) < 0) (filter (shown s es) [0..<length es])"
    by (rule sorted_wrt_mono_rel [OF _ sorted_wrt_filter [OF sorted_wrt_upt]]) (use lt in auto)
  then show ?thesis by (simp add: sorted_entries_def user_view_def sorted_wrt_map)
qed

lemma latest_iff:
  assumes "entries_ok es"
  shows "(u, v) \<in> set (user_view s es) \<longleftrightarrow> latest s es u v"
proof -
  have entry: "\<exists>pk :: ParsedInternalKey. fst (es ! i) = InternalKey_make (user es i) (pik_sequence pk) (pik_type pk) \<and> pik_sequence pk \<le> kMaxSequenceNumber
      \<and> (visible s (es ! i) \<longleftrightarrow> pik_sequence pk \<le> s) \<and> (is_value (es ! i) \<longleftrightarrow> pik_type pk = kTypeValue)
      \<and> unat (tag_of (fst (es ! i))) = unat (pik_sequence pk) * 256 + unat (ValueType_value (pik_type pk))" if i: "i < length es" for i
  proof -
    obtain pk where pk: "ParseInternalKey (fst (es ! i)) = Some pk" "pik_user_key pk = user es i"
      "visible s (es ! i) \<longleftrightarrow> pik_sequence pk \<le> s" "is_value (es ! i) \<longleftrightarrow> pik_type pk = kTypeValue"
      using entry_parses [OF assms i] by blast
    note p = parsed_key [OF pk(1)] ParseInternalKey_Some [OF pk(1), THEN conjunct1]
    have "fst (es ! i) = InternalKey_make (user es i) (pik_sequence pk) (pik_type pk)"
      using p(5) unfolding pk(2) [symmetric] InternalKey_make_app AppendInternalKey_app by simp
    then show ?thesis using pk(3,4) p(3) Pack_value [OF p(3)] p(2) by (intro exI [of _ pk]) simp
  qed
  have key_of: "user es i = u' \<and> (visible s (es ! i) \<longleftrightarrow> q \<le> s) \<and> (is_value (es ! i) \<longleftrightarrow> t = kTypeValue)
      \<and> unat (tag_of (fst (es ! i))) = unat q * 256 + unat (ValueType_value t)"
    if i: "i < length es" "fst (es ! i) = InternalKey_make u' q t" "q \<le> kMaxSequenceNumber" for i u' q t
  proof -
    have "ParseInternalKey (fst (es ! i)) = Some \<lparr>pik_user_key = u', pik_sequence = q, pik_type = t\<rparr>"
      unfolding i(2) InternalKey_make_def by (rule ParseInternalKey_Append) (simp add: i(3))
    then show ?thesis using parsed_key [of "fst (es ! i)"] Pack_value [OF i(3)] by (auto simp: visible_def is_value_def)
  qed
  have tags: "unat (tag_of (fst (es ! j))) < unat (tag_of (fst (es ! i)))" if ij: "i < j" "j < length es" "user es i = user es j" for i j
  proof -
    have "InternalKey_Compare cmp (fst (es ! i)) (fst (es ! j)) < 0"
      using ij assms unfolding entries_ok_def sorted_entries_def sorted_wrt_iff_nth_less by auto
    then have "tag_of (fst (es ! j)) < tag_of (fst (es ! i))"
      using ikc_less_iff [OF entry_ikey [OF assms, of i] entry_ikey [OF assms ij(2)]] ij refl entry_key [OF assms ij(2)] by auto
    then show ?thesis by (simp add: word_less_nat_alt)
  qed
  show ?thesis
  proof
    assume "(u, v) \<in> set (user_view s es)"
    then obtain i where i: "i < length es" "shown s es i" "user es i = u" "snd (es ! i) = v" by (auto simp: user_view_def)
    obtain pk :: ParsedInternalKey where pk: "fst (es ! i) = InternalKey_make u (pik_sequence pk) (pik_type pk)" "pik_sequence pk \<le> s" "pik_type pk = kTypeValue"
      "unat (tag_of (fst (es ! i))) = unat (pik_sequence pk) * 256 + unat (ValueType_value (pik_type pk))"
      using entry [OF i(1)] i(2,3) unfolding shown_def by blast
    have e: "es ! i = (InternalKey_make u (pik_sequence pk) kTypeValue, v)" using pk(1,3) i(4) by (metis prod.collapse)
    have "q' \<le> pik_sequence pk" if q: "q' \<le> s" "(InternalKey_make u q' t, v') \<in> set es" for q' t v'
    proof -
      obtain j where j: "j < length es" "es ! j = (InternalKey_make u q' t, v')" using q(2) by (metis in_set_conv_nth)
      note k = key_of [OF j(1), of u q' t]
      have kj: "user es j = u" "visible s (es ! j)" "unat (tag_of (fst (es ! j))) = unat q' * 256 + unat (ValueType_value t)"
        using k j(2) q(1) order.trans [OF q(1) s_max] by auto
      have "\<not> j < i" using i(2,3) kj(1,2) unfolding shown_def by blast
      then have "unat (tag_of (fst (es ! j))) \<le> unat (tag_of (fst (es ! i)))"
        using tags [of i j] j(1) kj(1) i(3) by (cases "i = j") auto
      then have "unat q' * 256 \<le> unat (pik_sequence pk) * 256 + 1" unfolding kj(3) pk(4) pk(3) by simp
      then show ?thesis by (simp add: word_le_nat_alt)
    qed
    then show "latest s es u v"
      unfolding latest_def using e nth_mem [OF i(1)] pk(2) by metis
  next
    assume "latest s es u v"
    then obtain q where q: "q \<le> s" "(InternalKey_make u q kTypeValue, v) \<in> set es"
      "\<And>q' t v'. q' \<le> s \<Longrightarrow> (InternalKey_make u q' t, v') \<in> set es \<Longrightarrow> q' \<le> q" unfolding latest_def by blast
    obtain i where i: "i < length es" "es ! i = (InternalKey_make u q kTypeValue, v)" using q(2) by (metis in_set_conv_nth)
    have ki: "user es i = u" "visible s (es ! i)" "is_value (es ! i)" "unat (tag_of (fst (es ! i))) = unat q * 256 + 1"
      using key_of [OF i(1), of u q kTypeValue] i(2) q(1) order.trans [OF q(1) s_max] by auto
    have "\<not> visible s (es ! j)" if j: "j < i" "user es j = user es i" for j
    proof
      assume v: "visible s (es ! j)"
      have jl: "j < length es" using j(1) i(1) by simp
      obtain pk :: ParsedInternalKey where pk: "fst (es ! j) = InternalKey_make u (pik_sequence pk) (pik_type pk)" "pik_sequence pk \<le> s"
        "unat (tag_of (fst (es ! j))) = unat (pik_sequence pk) * 256 + unat (ValueType_value (pik_type pk))"
        using entry [OF jl] v j(2) ki(1) by metis
      have "(InternalKey_make u (pik_sequence pk) (pik_type pk), snd (es ! j)) \<in> set es"
        using nth_mem [OF jl] pk(1) by (metis prod.collapse)
      then have "pik_sequence pk \<le> q" using q(3) pk(2) by blast
      then have "unat (pik_sequence pk) \<le> unat q" by (simp add: word_le_nat_alt)
      moreover have "unat (ValueType_value (pik_type pk)) \<le> 1" by (cases "pik_type pk") simp_all
      ultimately show False using tags [OF j(1) i(1) j(2)] unfolding pk(3) ki(4) by simp
    qed
    then have "shown s es i" using ki(2,3) by (auto simp: shown_def)
    then show "(u, v) \<in> set (user_view s es)" using view_nth(1,2) [OF i(1)] ki(1) i(2) by (metis nth_mem snd_conv)
  qed
qed

end

subsection \<open>Memtables\<close>

interpretation memtable_view: db_iterator "\<lambda>_. True" BytewiseComparator MemTableIterator_ops "short_ikey (\<lambda>_. True)"
  "mem_at (\<lambda>_. True) BytewiseComparator" "\<lambda>_ db. db" kMaxSequenceNumber
  by unfold_locales simp

subsection \<open>Properties\<close>

text \<open>C6. The iterator of a user, over any internal iterator that keeps the contract of the interface and
  whose entries are well-formed internal keys, shows under every sequence of calls the sorted list of
  the user keys that the sequence number can see, each once, with its latest value; deleted keys are
  hidden. No call fails an assertion, and every scan over hidden entries ends, whatever the seed of the
  read sampling.\<close>

theorem user_iterator_moves:
  assumes "comparator key cmp" "iterator ops ik (InternalKeyComparator cmp) at" "s \<le> kMaxSequenceNumber"
    and "at i es n" "sorted_entries (InternalKeyComparator cmp) es"
    and "\<forall>e \<in> set es. ParseInternalKey (fst e) \<noteq> None \<and> key (entry_user e)"
    and "\<forall>target. To_target target \<in> set mvs \<longrightarrow> key target \<and> ik (InternalKey_make target s kValueTypeForSeek)"
    and "moves_position cmp (user_view s es) mvs (length (user_view s es)) = Some m"
  shows "(\<exists>d. make_moves (DBIter_ops ops record_sample) mvs (new_DBIter db cmp i s seed) = Some d
        \<and> shows_entry (DBIter_ops ops record_sample) (user_view s es) m d)
    \<and> sorted_entries cmp (user_view s es) \<and> (\<forall>u v. (u, v) \<in> set (user_view s es) \<longleftrightarrow> latest s es u v)"
proof -
  have loc: "db_iterator key cmp ops ik at s"
    using assms(1-3) by (simp add: db_iterator_def db_iterator_axioms_def)
  have ok: "db_iterator.entries_ok key cmp es" using assms(5,6) by (simp add: db_iterator.entries_ok_def [OF loc])
  note it = db_iterator.db_iterator [OF loc, of record_sample]
  note new = db_iterator.new_at [OF loc ok assms(4), of db seed]
  have "targets_ok (db_iterator.target_key key ik s) mvs"
    using assms(7) by (simp add: targets_ok_def db_iterator.target_key_def [OF loc] db_iterator.seek_key_def [OF loc])
  from iterator.moves_show [OF it new this assms(8)]
  show ?thesis
    using db_iterator.view_sorted [OF loc ok] db_iterator.latest_iff [OF loc ok] by blast
qed

definition example_batch :: "batch_op list" where
  "example_batch = [Put_op [1] [10], Put_op [2] [20], Delete_op [1]]"

lemma sorted_singleton:
  assumes "set ues = {e}" "sorted_entries BytewiseComparator ues"
  shows "ues = [e]"
proof (cases ues)
  case (Cons x xs)
  have "x = e" using assms(1) Cons by simp
  moreover have "y = e" if "y \<in> set xs" for y using assms(1) Cons that by auto
  moreover have "Compare BytewiseComparator (fst x) (fst y) < 0" if "y \<in> set xs" for y
    using assms(2) Cons that by (simp add: sorted_entries_def)
  ultimately have "y \<notin> set xs" for y using bytewise.refl [of "fst e"] by fastforce
  then show ?thesis using Cons \<open>x = e\<close> by (cases xs) auto
qed (use assms(1) in simp)

theorem user_iterator_moves_witness:
  "\<exists>m m' d. new_MemTable BytewiseComparator (new_Arena (\<lambda>k. 4096 + word_of_nat (k * 4096))) = Some m
     \<and> write_batches 7 [example_batch] m = Some m'
     \<and> make_moves (DBIter_ops MemTableIterator_ops (\<lambda>_ db. db)) [To_first]
         (new_DBIter () BytewiseComparator (MemTable_NewIterator m') 9 301) = Some d
     \<and> it_key (DBIter_ops MemTableIterator_ops (\<lambda>_ db. db)) d = Some [2]
     \<and> it_value (DBIter_ops MemTableIterator_ops (\<lambda>_ db. db)) d = Some [20]"
proof -
  let ?holds = "comparator.holds (\<lambda>_. True) BytewiseComparator" and ?s = "9 :: SequenceNumber"
  let ?ops = "DBIter_ops MemTableIterator_ops (\<lambda>_ db. db) :: (MemTableIterator, unit) DBIter Iterator"
  have "8 dvd k * 4096" for k :: nat by (simp add: dvd_mult)
  moreover have "(8 :: nat) dvd 2 ^ 64" by simp
  ultimately have a: "arena_aligned (new_Arena (\<lambda>k. 4096 + word_of_nat (k * 4096)))"
    by (simp add: arena_aligned_def new_Arena_def unat_word_ariths unat_of_nat mod_add_right_eq dvd_mod)
  obtain m where m: "new_MemTable BytewiseComparator (new_Arena (\<lambda>k. 4096 + word_of_nat (k * 4096))) = Some m"
    "?holds m (op_entries 7 [])"
    using bytewise.new_MemTable_holds [OF a] by auto
  obtain m' where m': "write_batches 7 [example_batch] m = Some m'" "?holds m' (op_entries 7 example_batch)"
    using bytewise.write_batches_holds [OF m(2), of "[example_batch]"]
    by (auto simp: example_batch_def op_fits_def kMaxSequenceNumber_def)
  obtain xs where xs: "set xs = set (op_entries 7 example_batch)"
    "sorted_entries (InternalKeyComparator BytewiseComparator) (map mem_pair xs)"
    "mem_at (\<lambda>_. True) BytewiseComparator (MemTable_NewIterator m') (map mem_pair xs) (length xs)"
    using bytewise.holds_scan [OF m'(2)] by blast
  let ?es = "map mem_pair xs"
  have es: "set ?es = {(InternalKey_make [1] 7 kTypeValue, [10]), (InternalKey_make [2] 8 kTypeValue, [20]),
      (InternalKey_make [1] 9 kTypeDeletion, [])}"
    by (auto simp: xs(1) example_batch_def mem_pair_def entry_ikey_def)
  have parses: "ParseInternalKey (InternalKey_make u q t) \<noteq> None" if "q \<le> 9" for u q t
  proof -
    have "q \<le> kMaxSequenceNumber" using that by (rule order.trans) (simp add: kMaxSequenceNumber_def)
    then show ?thesis unfolding InternalKey_make_def by (subst ParseInternalKey_Append) simp_all
  qed
  have ok: "\<forall>e \<in> set ?es. ParseInternalKey (fst e) \<noteq> None \<and> True"
    unfolding es using parses [of 7] parses [of 8] parses [of 9] by (simp del: InternalKey_make_app)
  have smax: "?s \<le> kMaxSequenceNumber" by (simp add: kMaxSequenceNumber_def)
  note moves = user_iterator_moves [OF bytewise.comparator_axioms bytewise.mem_iterator smax xs(3,2) ok,
      where mvs = "[To_first]" and m = 0 and record_sample = "\<lambda>_ db. db" and db = "()" and seed = 301]
  have inj: "(InternalKey_make u q t = InternalKey_make u' q' t') \<longleftrightarrow> u = u' \<and> q = q' \<and> t = t'"
    if "q \<le> 9" "q' \<le> 9" for u u' q q' t t'
  proof
    have le: "q \<le> kMaxSequenceNumber" "q' \<le> kMaxSequenceNumber"
      using that by (auto intro: order.trans simp: kMaxSequenceNumber_def)
    assume "InternalKey_make u q t = InternalKey_make u' q' t'"
    then have "ParseInternalKey (InternalKey_make u q t) = ParseInternalKey (InternalKey_make u' q' t')" by (rule arg_cong)
    then show "u = u' \<and> q = q' \<and> t = t'"
      unfolding InternalKey_make_def using le by (simp add: ParseInternalKey_Append)
  qed simp
  have move: "moves_position BytewiseComparator es' [To_first] n = Some 0" for es' n by simp
  obtain d where d: "make_moves ?ops [To_first] (new_DBIter () BytewiseComparator (MemTable_NewIterator m') ?s 301) = Some d"
    "shows_entry ?ops (user_view ?s ?es) 0 d"
    and sorted: "sorted_entries BytewiseComparator (user_view ?s ?es)"
    and latest: "\<And>u v. (u, v) \<in> set (user_view ?s ?es) \<longleftrightarrow> latest ?s ?es u v"
    using moves [OF _ move] by auto
  have "latest ?s ?es [2] [20]"
    unfolding latest_def es by (rule exI [of _ 8]) (auto simp del: InternalKey_make_app simp add: inj)
  moreover have "u = [2] \<and> v = [20]" if l: "latest ?s ?es u v" for u v
  proof -
    obtain q where q: "q \<le> ?s" "(InternalKey_make u q kTypeValue, v) \<in> set ?es"
      "\<And>q' t v'. q' \<le> ?s \<Longrightarrow> (InternalKey_make u q' t, v') \<in> set ?es \<Longrightarrow> q' \<le> q"
      using l unfolding latest_def by blast
    have "\<not> (u = [1] \<and> q = 7)"
    proof
      assume "u = [1] \<and> q = 7"
      then have "9 \<le> (7 :: SequenceNumber)" using q(3) [of 9 kTypeDeletion "[]"] es by blast
      then show False by simp
    qed
    moreover have "u = [1] \<and> q = 7 \<and> v = [10] \<or> u = [2] \<and> q = 8 \<and> v = [20]"
      using q(2) [unfolded es]
    proof (elim insertE emptyE)
      assume "(InternalKey_make u q kTypeValue, v) = (InternalKey_make [1] 7 kTypeValue, [10])"
      then show ?thesis using inj [OF q(1), of 7 u kTypeValue "[1]" kTypeValue] by (simp only: prod.inject) simp
    next
      assume "(InternalKey_make u q kTypeValue, v) = (InternalKey_make [2] 8 kTypeValue, [20])"
      then show ?thesis using inj [OF q(1), of 8 u kTypeValue "[2]" kTypeValue] by (simp only: prod.inject) simp
    next
      assume "(InternalKey_make u q kTypeValue, v) = (InternalKey_make [1] 9 kTypeDeletion, [])"
      then show ?thesis using inj [OF q(1), of 9 u kTypeValue "[1]" kTypeDeletion] by (simp only: prod.inject) simp
    qed
    ultimately show ?thesis by blast
  qed
  ultimately have "(u, v) \<in> set (user_view ?s ?es) \<longleftrightarrow> u = [2] \<and> v = [20]" for u v
    unfolding latest by blast
  then have "set (user_view ?s ?es) = {([2], [20])}" by (intro set_eqI) (simp only: split_paired_all insert_iff empty_iff prod.inject simp_thms)
  then have "user_view ?s ?es = [([2], [20])]" using sorted by (rule sorted_singleton)
  then have "it_key ?ops d = Some [2]" "it_value ?ops d = Some [20]"
    using d(2) by (simp_all add: shows_entry_def)
  then show ?thesis using m(1) m'(1) d(1) by blast
qed

end
