(* ===== verification/Two_Level.thy ===== *)
theory Two_Level
  imports Iterators Options "HOL-Library.Multiset"
begin

text \<open>
  The two-level iterator of \<open>table/two_level_iterator.cc\<close>: an index iterator whose values are turned
  into iterators over blocks by a function. If index and blocks meet the iterator contract and the
  index keys divide the blocks, it meets the contract for the concatenation of the blocks.
\<close>

subsection \<open>The iterator\<close>

text \<open>The block function gets the argument \<open>arg\<close>, whose state it may change; \<open>None\<close> is a failed
  assertion in it. Deleting a data iterator, by \<open>del\<close>, changes that state too: its cleanup functions
  run. The loops over empty blocks return \<open>None\<close> if they do not end.\<close>

type_synonym ('a, 'd) BlockFunction = "'a \<Rightarrow> ReadOptions \<Rightarrow> Slice \<Rightarrow> ('d \<times> 'a) option"

record ('a, 'i, 'd) TwoLevelIterator =
  tl_arg :: 'a
  tl_options :: ReadOptions
  tl_status :: Status
  tl_index :: "'i IteratorWrapper"
  tl_data :: "'d IteratorWrapper"
  tl_handle :: bytes

definition new_TwoLevelIterator :: "'i Iterator \<Rightarrow> 'i \<Rightarrow> 'a \<Rightarrow> ReadOptions \<Rightarrow> ('a, 'i, 'd) TwoLevelIterator option" where
  "new_TwoLevelIterator iops index_iter arg options =
     map_option (\<lambda>w. \<lparr>tl_arg = arg, tl_options = options, tl_status = Status_OK, tl_index = w,
        tl_data = new_IteratorWrapper, tl_handle = []\<rparr>)
       (Wrapper_Set iops (Some index_iter) new_IteratorWrapper)"

definition SaveError :: "Status \<Rightarrow> ('a, 'i, 'd) TwoLevelIterator \<Rightarrow> ('a, 'i, 'd) TwoLevelIterator" where
  "SaveError s t = (if Status_ok (tl_status t) \<and> \<not> Status_ok s then t\<lparr>tl_status := s\<rparr> else t)"

definition SetDataIterator :: "'d Iterator \<Rightarrow> ('d \<Rightarrow> 'a \<Rightarrow> 'a option) \<Rightarrow> 'd option \<Rightarrow> ('a, 'i, 'd) TwoLevelIterator
    \<Rightarrow> ('a, 'i, 'd) TwoLevelIterator option" where
  "SetDataIterator dops del data_iter t =
     (let t = (if iw_iter (tl_data t) \<noteq> None then SaveError (it_status (Wrapper_ops dops) (tl_data t)) t else t)
      in Option.bind (case iw_iter (tl_data t) of None \<Rightarrow> Some (tl_arg t) | Some old \<Rightarrow> del old (tl_arg t)) (\<lambda>arg.
           map_option (\<lambda>w. t\<lparr>tl_arg := arg, tl_data := w\<rparr>) (Wrapper_Set dops data_iter (tl_data t))))"

definition InitDataBlock :: "'i Iterator \<Rightarrow> 'd Iterator \<Rightarrow> ('d \<Rightarrow> 'a \<Rightarrow> 'a option) \<Rightarrow> ('a, 'd) BlockFunction \<Rightarrow> ('a, 'i, 'd) TwoLevelIterator
    \<Rightarrow> ('a, 'i, 'd) TwoLevelIterator option" where
  "InitDataBlock iops dops del block_function t =
     (if \<not> Wrapper_Valid (tl_index t) then SetDataIterator dops del None t
      else
        Option.bind (Wrapper_value iops (tl_index t)) (\<lambda>handle.
          if iw_iter (tl_data t) \<noteq> None \<and> Slice_compare handle (tl_handle t) = 0 then Some t
          else
            Option.bind (block_function (tl_arg t) (tl_options t) handle) (\<lambda>(iter, arg).
              SetDataIterator dops del (Some iter) (t\<lparr>tl_arg := arg, tl_handle := handle\<rparr>))))"

text \<open>A call on the index iterator, and one on the data iterator if there is one.\<close>

definition on_index :: "('i IteratorWrapper \<Rightarrow> 'i IteratorWrapper option) \<Rightarrow> ('a, 'i, 'd) TwoLevelIterator
    \<Rightarrow> ('a, 'i, 'd) TwoLevelIterator option" where
  "on_index f t = map_option (\<lambda>w. t\<lparr>tl_index := w\<rparr>) (f (tl_index t))"

definition on_data :: "('d IteratorWrapper \<Rightarrow> 'd IteratorWrapper option) \<Rightarrow> ('a, 'i, 'd) TwoLevelIterator
    \<Rightarrow> ('a, 'i, 'd) TwoLevelIterator option" where
  "on_data f t = (if iw_iter (tl_data t) \<noteq> None then map_option (\<lambda>w. t\<lparr>tl_data := w\<rparr>) (f (tl_data t)) else Some t)"

partial_function (option) SkipEmptyDataBlocksForward :: "'i Iterator \<Rightarrow> 'd Iterator \<Rightarrow> ('d \<Rightarrow> 'a \<Rightarrow> 'a option) \<Rightarrow> ('a, 'd) BlockFunction
    \<Rightarrow> ('a, 'i, 'd) TwoLevelIterator \<Rightarrow> ('a, 'i, 'd) TwoLevelIterator option" where
  "SkipEmptyDataBlocksForward iops dops del bf t =
     (if iw_iter (tl_data t) = None \<or> \<not> Wrapper_Valid (tl_data t) then
        if \<not> Wrapper_Valid (tl_index t) then SetDataIterator dops del None t
        else
          Option.bind (on_index (it_Next (Wrapper_ops iops)) t) (\<lambda>t.
          Option.bind (InitDataBlock iops dops del bf t) (\<lambda>t.
          Option.bind (on_data (it_SeekToFirst (Wrapper_ops dops)) t) (\<lambda>t.
          SkipEmptyDataBlocksForward iops dops del bf t)))
      else Some t)"

partial_function (option) SkipEmptyDataBlocksBackward :: "'i Iterator \<Rightarrow> 'd Iterator \<Rightarrow> ('d \<Rightarrow> 'a \<Rightarrow> 'a option) \<Rightarrow> ('a, 'd) BlockFunction
    \<Rightarrow> ('a, 'i, 'd) TwoLevelIterator \<Rightarrow> ('a, 'i, 'd) TwoLevelIterator option" where
  "SkipEmptyDataBlocksBackward iops dops del bf t =
     (if iw_iter (tl_data t) = None \<or> \<not> Wrapper_Valid (tl_data t) then
        if \<not> Wrapper_Valid (tl_index t) then SetDataIterator dops del None t
        else
          Option.bind (on_index (it_Prev (Wrapper_ops iops)) t) (\<lambda>t.
          Option.bind (InitDataBlock iops dops del bf t) (\<lambda>t.
          Option.bind (on_data (it_SeekToLast (Wrapper_ops dops)) t) (\<lambda>t.
          SkipEmptyDataBlocksBackward iops dops del bf t)))
      else Some t)"

definition TwoLevel_Seek :: "'i Iterator \<Rightarrow> 'd Iterator \<Rightarrow> ('d \<Rightarrow> 'a \<Rightarrow> 'a option) \<Rightarrow> ('a, 'd) BlockFunction \<Rightarrow> Slice
    \<Rightarrow> ('a, 'i, 'd) TwoLevelIterator \<Rightarrow> ('a, 'i, 'd) TwoLevelIterator option" where
  "TwoLevel_Seek iops dops del bf target t =
     Option.bind (on_index (it_Seek (Wrapper_ops iops) target) t) (\<lambda>t.
     Option.bind (InitDataBlock iops dops del bf t) (\<lambda>t.
     Option.bind (on_data (it_Seek (Wrapper_ops dops) target) t) (\<lambda>t.
     SkipEmptyDataBlocksForward iops dops del bf t)))"

definition TwoLevel_SeekToFirst :: "'i Iterator \<Rightarrow> 'd Iterator \<Rightarrow> ('d \<Rightarrow> 'a \<Rightarrow> 'a option) \<Rightarrow> ('a, 'd) BlockFunction
    \<Rightarrow> ('a, 'i, 'd) TwoLevelIterator \<Rightarrow> ('a, 'i, 'd) TwoLevelIterator option" where
  "TwoLevel_SeekToFirst iops dops del bf t =
     Option.bind (on_index (it_SeekToFirst (Wrapper_ops iops)) t) (\<lambda>t.
     Option.bind (InitDataBlock iops dops del bf t) (\<lambda>t.
     Option.bind (on_data (it_SeekToFirst (Wrapper_ops dops)) t) (\<lambda>t.
     SkipEmptyDataBlocksForward iops dops del bf t)))"

definition TwoLevel_SeekToLast :: "'i Iterator \<Rightarrow> 'd Iterator \<Rightarrow> ('d \<Rightarrow> 'a \<Rightarrow> 'a option) \<Rightarrow> ('a, 'd) BlockFunction
    \<Rightarrow> ('a, 'i, 'd) TwoLevelIterator \<Rightarrow> ('a, 'i, 'd) TwoLevelIterator option" where
  "TwoLevel_SeekToLast iops dops del bf t =
     Option.bind (on_index (it_SeekToLast (Wrapper_ops iops)) t) (\<lambda>t.
     Option.bind (InitDataBlock iops dops del bf t) (\<lambda>t.
     Option.bind (on_data (it_SeekToLast (Wrapper_ops dops)) t) (\<lambda>t.
     SkipEmptyDataBlocksBackward iops dops del bf t)))"

definition TwoLevel_Valid :: "('a, 'i, 'd) TwoLevelIterator \<Rightarrow> bool" where
  "TwoLevel_Valid t = Wrapper_Valid (tl_data t)"

definition TwoLevel_Next :: "'i Iterator \<Rightarrow> 'd Iterator \<Rightarrow> ('d \<Rightarrow> 'a \<Rightarrow> 'a option) \<Rightarrow> ('a, 'd) BlockFunction
    \<Rightarrow> ('a, 'i, 'd) TwoLevelIterator \<Rightarrow> ('a, 'i, 'd) TwoLevelIterator option" where
  "TwoLevel_Next iops dops del bf t =
     (if \<not> TwoLevel_Valid t then None
      else Option.bind (on_data (it_Next (Wrapper_ops dops)) t) (SkipEmptyDataBlocksForward iops dops del bf))"

definition TwoLevel_Prev :: "'i Iterator \<Rightarrow> 'd Iterator \<Rightarrow> ('d \<Rightarrow> 'a \<Rightarrow> 'a option) \<Rightarrow> ('a, 'd) BlockFunction
    \<Rightarrow> ('a, 'i, 'd) TwoLevelIterator \<Rightarrow> ('a, 'i, 'd) TwoLevelIterator option" where
  "TwoLevel_Prev iops dops del bf t =
     (if \<not> TwoLevel_Valid t then None
      else Option.bind (on_data (it_Prev (Wrapper_ops dops)) t) (SkipEmptyDataBlocksBackward iops dops del bf))"

definition TwoLevel_key :: "('a, 'i, 'd) TwoLevelIterator \<Rightarrow> Slice option" where
  "TwoLevel_key t = Wrapper_key (tl_data t)"

definition TwoLevel_value :: "'d Iterator \<Rightarrow> ('a, 'i, 'd) TwoLevelIterator \<Rightarrow> Slice option" where
  "TwoLevel_value dops t = Wrapper_value dops (tl_data t)"

definition TwoLevel_status :: "'i Iterator \<Rightarrow> 'd Iterator \<Rightarrow> ('a, 'i, 'd) TwoLevelIterator \<Rightarrow> Status" where
  "TwoLevel_status iops dops t =
     (if \<not> Status_ok (it_status (Wrapper_ops iops) (tl_index t)) then it_status (Wrapper_ops iops) (tl_index t)
      else if iw_iter (tl_data t) \<noteq> None \<and> \<not> Status_ok (it_status (Wrapper_ops dops) (tl_data t))
      then it_status (Wrapper_ops dops) (tl_data t)
      else tl_status t)"

definition TwoLevel_ops :: "'i Iterator \<Rightarrow> 'd Iterator \<Rightarrow> ('d \<Rightarrow> 'a \<Rightarrow> 'a option) \<Rightarrow> ('a, 'd) BlockFunction
    \<Rightarrow> ('a, 'i, 'd) TwoLevelIterator Iterator" where
  "TwoLevel_ops iops dops del bf =
     \<lparr>it_Valid = TwoLevel_Valid, it_SeekToFirst = TwoLevel_SeekToFirst iops dops del bf,
      it_SeekToLast = TwoLevel_SeekToLast iops dops del bf, it_Seek = TwoLevel_Seek iops dops del bf,
      it_Next = TwoLevel_Next iops dops del bf, it_Prev = TwoLevel_Prev iops dops del bf, it_key = TwoLevel_key,
      it_value = TwoLevel_value dops, it_status = TwoLevel_status iops dops\<rparr>"

definition NewTwoLevelIterator :: "'i Iterator \<Rightarrow> 'i \<Rightarrow> 'a \<Rightarrow> ReadOptions \<Rightarrow> ('a, 'i, 'd) TwoLevelIterator option" where
  "NewTwoLevelIterator iops index_iter arg options = new_TwoLevelIterator iops index_iter arg options"

subsection \<open>The invariant\<close>

text \<open>What the iterator works on: the two kinds of iterators with their contracts, the block function
  and the entries of the index and of the block of each index value. A data iterator may own a resource
  of the argument of the block function, its token, until it is deleted: \<open>su_P arg toks\<close> holds of the states
  in which the block function works, while the iterators that exist own the tokens \<open>toks\<close>.\<close>

record ('a, 'i, 'd, 'k) two_level_setup =
  su_iops :: "'i Iterator"
  su_iat :: "'i \<Rightarrow> entries \<Rightarrow> nat \<Rightarrow> bool"
  su_dops :: "'d Iterator"
  su_dat :: "'d \<Rightarrow> entries \<Rightarrow> nat \<Rightarrow> bool"
  su_bf :: "('a, 'd) BlockFunction"
  su_del :: "'d \<Rightarrow> 'a \<Rightarrow> 'a option"
  su_tok :: "'d \<Rightarrow> 'k"
  su_P :: "'a \<Rightarrow> 'k multiset \<Rightarrow> bool"
  su_options :: ReadOptions
  su_ix :: entries
  su_blk :: "Slice \<Rightarrow> entries"

definition blocks :: "('a, 'i, 'd, 'k) two_level_setup \<Rightarrow> entries list" where
  "blocks su = map (\<lambda>e. su_blk su (snd e)) (su_ix su)"

definition index_ok :: "(Slice \<Rightarrow> bool) \<Rightarrow> Comparator \<Rightarrow> entries \<Rightarrow> entries list \<Rightarrow> bool" where
  "index_ok key cmp ix bs \<longleftrightarrow>
     sorted_entries cmp ix \<and> (\<forall>e \<in> set ix. key (fst e)) \<and> length bs = length ix
     \<and> (\<forall>k < length ix. \<forall>e \<in> set (bs ! k). key (fst e) \<and> Compare cmp (fst e) (fst (ix ! k)) \<le> 0
          \<and> (\<forall>j < k. Compare cmp (fst (ix ! j)) (fst e) < 0))"

text \<open>The contract of the block function and of deleting its iterators.\<close>

definition block_function_ok :: "('a, 'i, 'd, 'k) two_level_setup \<Rightarrow> bool" where
  "block_function_ok su \<longleftrightarrow>
     (\<forall>arg toks. \<forall>e \<in> set (su_ix su). su_P su arg toks \<and> size toks \<le> 1 \<longrightarrow>
        (\<exists>d arg' n. su_bf su arg (su_options su) (snd e) = Some (d, arg') \<and> su_P su arg' (add_mset (su_tok su d) toks)
           \<and> su_dat su d (su_blk su (snd e)) n))
     \<and> (\<forall>d es n arg toks. su_P su arg (add_mset (su_tok su d) toks) \<and> su_dat su d es n \<longrightarrow>
          (\<exists>arg'. su_del su d arg = Some arg' \<and> su_P su arg' toks))"

definition su_dat_tok :: "('a, 'i, 'd, 'k) two_level_setup \<Rightarrow> 'k \<Rightarrow> 'd \<Rightarrow> entries \<Rightarrow> nat \<Rightarrow> bool" where
  "su_dat_tok su tok d es n \<longleftrightarrow> su_dat su d es n \<and> su_tok su d = tok"

definition setup_ok :: "(Slice \<Rightarrow> bool) \<Rightarrow> Comparator \<Rightarrow> ('a, 'i, 'd, 'k) two_level_setup \<Rightarrow> bool" where
  "setup_ok key cmp su \<longleftrightarrow>
     iterator (su_iops su) key cmp (su_iat su) \<and> iterator (su_dops su) key cmp (su_dat su)
     \<and> (\<forall>tok. iterator (su_dops su) key cmp (su_dat_tok su tok)) \<and> index_ok key cmp (su_ix su) (blocks su) \<and> block_function_ok su"

abbreviation index_at where "index_at su \<equiv> wrapper_at (su_iops su) (su_iat su)"
abbreviation data_at where "data_at su \<equiv> wrapper_at (su_dops su) (su_dat su)"

abbreviation data_tok where "data_tok su tok \<equiv> wrapper_at (su_dops su) (su_dat_tok su tok)"

definition live :: "('a, 'i, 'd, 'k) two_level_setup \<Rightarrow> 'd IteratorWrapper \<Rightarrow> 'k multiset" where
  "live su w = (case iw_iter w of None \<Rightarrow> {#} | Some d \<Rightarrow> {#su_tok su d#})"

text \<open>The index is at \<open>k\<close>; the data iterator, if there is one, is over the block of the handle that is
  kept with it.\<close>

definition two_level_ok :: "('a, 'i, 'd, 'k) two_level_setup \<Rightarrow> ('a, 'i, 'd) TwoLevelIterator \<Rightarrow> nat \<Rightarrow> bool" where
  "two_level_ok su t k \<longleftrightarrow>
     su_P su (tl_arg t) (live su (tl_data t)) \<and> tl_options t = su_options su \<and> Status_ok (tl_status t) \<and> index_at su (tl_index t) (su_ix su) k
     \<and> (if iw_iter (tl_data t) = None then \<not> iw_valid (tl_data t)
        else (\<exists>n. data_at su (tl_data t) (su_blk su (tl_handle t)) n))"

text \<open>At entry \<open>p\<close> of block \<open>k\<close>, and after the last entry or before the first.\<close>

definition in_block :: "('a, 'i, 'd, 'k) two_level_setup \<Rightarrow> ('a, 'i, 'd) TwoLevelIterator \<Rightarrow> nat \<Rightarrow> nat \<Rightarrow> bool" where
  "in_block su t k p \<longleftrightarrow>
     two_level_ok su t k \<and> k < length (su_ix su) \<and> tl_handle t = snd (su_ix su ! k)
     \<and> data_at su (tl_data t) (blocks su ! k) p"

definition at_end :: "('a, 'i, 'd, 'k) two_level_setup \<Rightarrow> ('a, 'i, 'd) TwoLevelIterator \<Rightarrow> bool" where
  "at_end su t \<longleftrightarrow> (\<exists>k. two_level_ok su t k) \<and> iw_iter (tl_data t) = None"

definition block_offset :: "('a, 'i, 'd, 'k) two_level_setup \<Rightarrow> nat \<Rightarrow> nat" where
  "block_offset su k = length (concat (take k (blocks su)))"

definition two_level_at :: "('a, 'i, 'd, 'k) two_level_setup \<Rightarrow> ('a, 'i, 'd) TwoLevelIterator \<Rightarrow> entries \<Rightarrow> nat \<Rightarrow> bool" where
  "two_level_at su t es n \<longleftrightarrow>
     es = concat (blocks su)
     \<and> (if n < length es
        then (\<exists>k p. in_block su t k p \<and> p < length (blocks su ! k) \<and> n = block_offset su k + p)
        else n = length es \<and> at_end su t)"

subsection \<open>The blocks of a table\<close>

lemma length_blocks [simp]: "length (blocks su) = length (su_ix su)"
  by (simp add: blocks_def)

lemma blocks_nth: "k < length (su_ix su) \<Longrightarrow> blocks su ! k = su_blk su (snd (su_ix su ! k))"
  by (simp add: blocks_def)

lemma block_offset_simps [simp]:
  "block_offset su 0 = 0" "length (su_ix su) \<le> k \<Longrightarrow> block_offset su k = length (concat (blocks su))"
  "k < length (su_ix su) \<Longrightarrow> block_offset su (Suc k) = block_offset su k + length (blocks su ! k)"
  by (simp_all add: block_offset_def take_Suc_conv_app_nth)

lemma concat_split:
  assumes "k < length (su_ix su)"
  shows "concat (blocks su) = concat (take k (blocks su)) @ blocks su ! k @ concat (drop (Suc k) (blocks su))"
  using assms by (metis concat.simps(2) concat_append id_take_nth_drop length_blocks)

lemma in_concat:
  assumes "k < length (su_ix su)" "p < length (blocks su ! k)"
  shows "block_offset su k + p < length (concat (blocks su))"
    "concat (blocks su) ! (block_offset su k + p) = blocks su ! k ! p"
  unfolding concat_split [OF assms(1)] using assms(2) by (simp_all add: block_offset_def nth_append)

subsection \<open>Moving between blocks\<close>

context comparator
begin

lemma SetDataIterator_eq:
  assumes "iw_iter (tl_data t) \<noteq> None \<Longrightarrow> Status_ok (it_status (Wrapper_ops dops) (tl_data t))"
    and "Wrapper_Set dops d (tl_data t) = Some w"
    and "(case iw_iter (tl_data t) of None \<Rightarrow> Some (tl_arg t) | Some old \<Rightarrow> del old (tl_arg t)) = Some arg"
  shows "SetDataIterator dops del d t = Some (t\<lparr>tl_arg := arg, tl_data := w\<rparr>)"
  using assms by (auto simp: SetDataIterator_def SaveError_def Let_def split: option.splits)

lemma data_status:
  assumes "setup_ok key cmp su" "two_level_ok su t k" "iw_iter (tl_data t) \<noteq> None"
  shows "Status_ok (it_status (Wrapper_ops (su_dops su)) (tl_data t))"
  using assms iterator.status [OF iterator.wrapper] by (fastforce simp: setup_ok_def two_level_ok_def)

lemma data_tok_iff: "data_tok su tok w es n \<longleftrightarrow> data_at su w es n \<and> live su w = {#tok#}"
  by (auto simp: wrapper_at_def su_dat_tok_def live_def split: option.splits)

lemma live_size: "size (live su w) \<le> 1"
  by (simp add: live_def split: option.splits)

lemma delete_ok:
  assumes su: "setup_ok key cmp su" and t: "two_level_ok su t k" and arg: "su_P su arg (live su (tl_data t) + toks)"
  shows "\<exists>arg'. (case iw_iter (tl_data t) of None \<Rightarrow> Some arg | Some old \<Rightarrow> su_del su old arg) = Some arg' \<and> su_P su arg' toks"
proof (cases "iw_iter (tl_data t)")
  case (Some old)
  then have "\<exists>n. data_at su (tl_data t) (su_blk su (tl_handle t)) n" using t by (simp add: two_level_ok_def)
  then obtain n where "su_dat su old (su_blk su (tl_handle t)) n" using Some by (auto simp: wrapper_at_def)
  moreover have "su_P su arg (add_mset (su_tok su old) toks)" using arg by (simp add: live_def Some)
  ultimately have "\<exists>arg'. su_del su old arg = Some arg' \<and> su_P su arg' toks"
    using su unfolding setup_ok_def block_function_ok_def by blast
  then show ?thesis by (simp add: Some)
qed (use arg in \<open>simp add: live_def\<close>)

lemma SetDataIterator_None:
  assumes "setup_ok key cmp su" "two_level_ok su t k"
  shows "\<exists>t'. SetDataIterator (su_dops su) (su_del su) None t = Some t' \<and> two_level_ok su t' k \<and> iw_iter (tl_data t') = None"
proof -
  have w: "Wrapper_Set (su_dops su) None (tl_data t) = Some ((tl_data t)\<lparr>iw_iter := None, iw_valid := False\<rparr>)"
    by (simp add: Wrapper_Set_def Let_def)
  have "su_P su (tl_arg t) (live su (tl_data t) + {#})" using assms(2) by (simp add: two_level_ok_def)
  from delete_ok [OF assms this] obtain arg'
    where arg': "(case iw_iter (tl_data t) of None \<Rightarrow> Some (tl_arg t) | Some old \<Rightarrow> su_del su old (tl_arg t)) = Some arg'"
      "su_P su arg' {#}" by blast
  from SetDataIterator_eq [where del = "su_del su", OF data_status [OF assms] w arg'(1)] show ?thesis
    using assms(2) arg'(2) by (simp add: two_level_ok_def live_def)
qed

lemma InitDataBlock_end:
  assumes "setup_ok key cmp su" "two_level_ok su t (length (su_ix su))"
  shows "\<exists>t'. InitDataBlock (su_iops su) (su_dops su) (su_del su) (su_bf su) t = Some t' \<and> two_level_ok su t' (length (su_ix su))
    \<and> iw_iter (tl_data t') = None"
proof -
  have "\<not> Wrapper_Valid (tl_index t)"
    using assms iterator.valid [OF iterator.wrapper] by (fastforce simp: setup_ok_def two_level_ok_def Wrapper_ops_def)
  then show ?thesis using SetDataIterator_None [OF assms] by (simp add: InitDataBlock_def)
qed

lemma InitDataBlock_at:
  assumes su: "setup_ok key cmp su" and t: "two_level_ok su t k" and k: "k < length (su_ix su)"
  shows "\<exists>t' p. InitDataBlock (su_iops su) (su_dops su) (su_del su) (su_bf su) t = Some t' \<and> in_block su t' k p"
proof -
  have it: "iterator (su_iops su) key cmp (su_iat su)" and dt: "iterator (su_dops su) key cmp (su_dat su)"
    and dtk: "\<And>tok. iterator (su_dops su) key cmp (su_dat_tok su tok)"
    and bf: "block_function_ok su" using su by (simp_all add: setup_ok_def)
  let ?h = "snd (su_ix su ! k)"
  have ix: "index_at su (tl_index t) (su_ix su) k" using t by (simp add: two_level_ok_def)
  have v: "Wrapper_Valid (tl_index t)" "Wrapper_value (su_iops su) (tl_index t) = Some ?h"
    using iterator.valid [OF iterator.wrapper [OF it] ix] iterator.cur_value [OF iterator.wrapper [OF it] ix k] k
    by (simp_all add: Wrapper_ops_def)
  show ?thesis
  proof (cases "iw_iter (tl_data t) \<noteq> None \<and> Slice_compare ?h (tl_handle t) = 0")
    case True
    then obtain p where "data_at su (tl_data t) (su_blk su (tl_handle t)) p" using t by (auto simp: two_level_ok_def)
    then have "in_block su t k p" using True t k by (simp add: in_block_def blocks_nth)
    then show ?thesis using True v by (auto simp: InitDataBlock_def)
  next
    case False
    have "su_P su (tl_arg t) (live su (tl_data t))" "su_ix su ! k \<in> set (su_ix su)" using t k by (simp_all add: two_level_ok_def)
    then obtain d arg' n where d: "su_bf su (tl_arg t) (su_options su) ?h = Some (d, arg')"
      "su_P su arg' (add_mset (su_tok su d) (live su (tl_data t)))" "su_dat su d (su_blk su ?h) n"
      using bf live_size [of su "tl_data t"] unfolding block_function_ok_def by blast
    let ?t = "t\<lparr>tl_arg := arg', tl_handle := ?h\<rparr>"
    obtain w where w: "Wrapper_Update (su_dops su) ((tl_data t)\<lparr>iw_iter := Some d\<rparr>) = Some w" "data_tok su (su_tok su d) w (su_blk su ?h) n"
      using iterator.wrapper_update [OF dtk, of "su_tok su d" d "su_blk su ?h" n] d(3) by (auto simp: su_dat_tok_def)
    then have w': "data_at su w (su_blk su ?h) n" "live su w = {#su_tok su d#}" by (simp_all add: data_tok_iff)
    obtain arg'' where arg'': "(case iw_iter (tl_data t) of None \<Rightarrow> Some arg' | Some old \<Rightarrow> su_del su old arg') = Some arg''"
      "su_P su arg'' {#su_tok su d#}" using delete_ok [OF su t, of arg' "{#su_tok su d#}"] d(2) by auto
    let ?t' = "?t\<lparr>tl_arg := arg'', tl_data := w\<rparr>"
    have "SetDataIterator (su_dops su) (su_del su) (Some d) ?t = Some ?t'"
      using SetDataIterator_eq [of ?t "su_dops su" "Some d" w "su_del su" arg''] data_status [OF su t] w(1) arg''(1)
      by (simp add: Wrapper_Set_def Let_def cong: option.case_cong)
    moreover have "in_block su ?t' k n"
      using t arg''(2) w' k by (auto simp: in_block_def two_level_ok_def blocks_nth wrapper_at_def)
    ultimately show ?thesis using False v d(1) t by (auto simp: InitDataBlock_def two_level_ok_def)
  qed
qed

text \<open>A call on the data iterator that moves it to \<open>q\<close>.\<close>

lemma on_data_at:
  assumes t: "in_block su t k p"
    and f: "\<And>tok. data_tok su tok (tl_data t) (blocks su ! k) p \<Longrightarrow>
      \<exists>w. f (tl_data t) = Some w \<and> data_tok su tok w (blocks su ! k) q"
  shows "\<exists>t'. on_data f t = Some t' \<and> in_block su t' k q"
proof -
  have d: "data_at su (tl_data t) (blocks su ! k) p" using t by (simp add: in_block_def)
  then obtain i where i: "iw_iter (tl_data t) = Some i" by (auto simp: wrapper_at_def)
  then have l: "live su (tl_data t) = {#su_tok su i#}" by (simp add: live_def)
  obtain w where w: "f (tl_data t) = Some w" "data_tok su (su_tok su i) w (blocks su ! k) q"
    using f [of "su_tok su i"] d l by (auto simp: data_tok_iff)
  then have w': "data_at su w (blocks su ! k) q" "live su w = live su (tl_data t)" by (simp_all add: data_tok_iff l)
  then obtain i' where i': "iw_iter w = Some i'" by (auto simp: wrapper_at_def)
  have "in_block su (t\<lparr>tl_data := w\<rparr>) k q"
    using t w' i' by (auto simp: in_block_def two_level_ok_def blocks_nth)
  then show ?thesis using i w(1) by (auto simp: on_data_def)
qed

lemma on_index_at:
  assumes "two_level_ok su t k"
    and "index_at su (tl_index t) (su_ix su) k \<Longrightarrow> \<exists>w. f (tl_index t) = Some w \<and> index_at su w (su_ix su) m"
  shows "\<exists>t'. on_index f t = Some t' \<and> two_level_ok su t' m"
  using assms by (auto simp: on_index_def two_level_ok_def)

lemma in_block_valid:
  assumes "setup_ok key cmp su" "in_block su t k p"
  shows "Wrapper_Valid (tl_data t) \<longleftrightarrow> p < length (blocks su ! k)" "iw_iter (tl_data t) \<noteq> None"
    "Wrapper_Valid (tl_index t)" "p \<le> length (blocks su ! k)"
proof -
  have it: "iterator (su_iops su) key cmp (su_iat su)" and dt: "iterator (su_dops su) key cmp (su_dat su)"
    and dtk: "\<And>tok. iterator (su_dops su) key cmp (su_dat_tok su tok)"
    using assms(1) by (simp_all add: setup_ok_def)
  have a: "index_at su (tl_index t) (su_ix su) k" "k < length (su_ix su)" "data_at su (tl_data t) (blocks su ! k) p"
    using assms(2) by (simp_all add: in_block_def two_level_ok_def)
  show "Wrapper_Valid (tl_data t) \<longleftrightarrow> p < length (blocks su ! k)" "Wrapper_Valid (tl_index t)"
    "p \<le> length (blocks su ! k)"
    using iterator.valid [OF iterator.wrapper [OF dt] a(3)] iterator.valid [OF iterator.wrapper [OF it] a(1)]
      iterator.in_range [OF iterator.wrapper [OF dt] a(3)] a(2)
    by (simp_all add: Wrapper_ops_def)
  show "iw_iter (tl_data t) \<noteq> None" using a(3) by (auto simp: wrapper_at_def)
qed

lemma in_block_ok: "in_block su t k p \<Longrightarrow> two_level_ok su t k \<and> k < length (su_ix su)"
  by (simp add: in_block_def)

text \<open>The loops end, at the entry that the position stands for.\<close>

lemma at_end_forward:
  assumes su: "setup_ok key cmp su" and t: "two_level_ok su t (length (su_ix su))" "iw_iter (tl_data t) = None"
  shows "\<exists>t'. SkipEmptyDataBlocksForward (su_iops su) (su_dops su) (su_del su) (su_bf su) t = Some t'
      \<and> two_level_at su t' (concat (blocks su)) (length (concat (blocks su)))"
    "\<exists>t'. SkipEmptyDataBlocksBackward (su_iops su) (su_dops su) (su_del su) (su_bf su) t = Some t'
      \<and> two_level_at su t' (concat (blocks su)) (length (concat (blocks su)))"
proof -
  have "\<not> Wrapper_Valid (tl_index t)"
    using su t(1) iterator.valid [OF iterator.wrapper] by (fastforce simp: setup_ok_def two_level_ok_def Wrapper_ops_def)
  then show "\<exists>t'. SkipEmptyDataBlocksForward (su_iops su) (su_dops su) (su_del su) (su_bf su) t = Some t'
      \<and> two_level_at su t' (concat (blocks su)) (length (concat (blocks su)))"
    "\<exists>t'. SkipEmptyDataBlocksBackward (su_iops su) (su_dops su) (su_del su) (su_bf su) t = Some t'
      \<and> two_level_at su t' (concat (blocks su)) (length (concat (blocks su)))"
    using SetDataIterator_None [OF su t(1)] t(2)
    by (subst SkipEmptyDataBlocksForward.simps SkipEmptyDataBlocksBackward.simps,
        auto simp: two_level_at_def at_end_def)+
qed

lemma valid_stays:
  assumes su: "setup_ok key cmp su" and t: "in_block su t k p" "p < length (blocks su ! k)"
  shows "SkipEmptyDataBlocksForward (su_iops su) (su_dops su) (su_del su) (su_bf su) t = Some t"
    "SkipEmptyDataBlocksBackward (su_iops su) (su_dops su) (su_del su) (su_bf su) t = Some t"
    "two_level_at su t (concat (blocks su)) (block_offset su k + p)"
proof -
  note v = in_block_valid [OF su t(1)]
  show "SkipEmptyDataBlocksForward (su_iops su) (su_dops su) (su_del su) (su_bf su) t = Some t"
    "SkipEmptyDataBlocksBackward (su_iops su) (su_dops su) (su_del su) (su_bf su) t = Some t"
    using v t(2) by (subst SkipEmptyDataBlocksForward.simps SkipEmptyDataBlocksBackward.simps, auto)+
  have "k < length (su_ix su)" using t(1) by (simp add: in_block_def)
  from in_concat [OF this t(2)] show "two_level_at su t (concat (blocks su)) (block_offset su k + p)"
    using t by (auto simp: two_level_at_def)
qed

lemma skip_forward:
  assumes su: "setup_ok key cmp su"
  shows "in_block su t k p \<Longrightarrow>
    \<exists>t'. SkipEmptyDataBlocksForward (su_iops su) (su_dops su) (su_del su) (su_bf su) t = Some t'
      \<and> two_level_at su t' (concat (blocks su)) (block_offset su k + p)"
proof (induction "length (su_ix su) - k" arbitrary: t k p rule: less_induct)
  case less
  have it: "iterator (su_iops su) key cmp (su_iat su)" and dt: "iterator (su_dops su) key cmp (su_dat su)"
    and dtk: "\<And>tok. iterator (su_dops su) key cmp (su_dat_tok su tok)"
    using su by (simp_all add: setup_ok_def)
  note v = in_block_valid [OF su less.prems] and ok = in_block_ok [OF less.prems]
  show ?case
  proof (cases "p < length (blocks su ! k)")
    case True
    then show ?thesis using valid_stays [OF su less.prems] by blast
  next
    case False
    then have p: "p = length (blocks su ! k)" using v(4) by simp
    obtain t1 where t1: "on_index (it_Next (Wrapper_ops (su_iops su))) t = Some t1" "two_level_ok su t1 (Suc k)"
      using on_index_at [of su t k "it_Next (Wrapper_ops (su_iops su))" "Suc k"]
        iterator.step_next [OF iterator.wrapper [OF it]] ok by fastforce
    show ?thesis
    proof (cases "Suc k < length (su_ix su)")
      case True
      obtain t2 q where t2: "InitDataBlock (su_iops su) (su_dops su) (su_del su) (su_bf su) t1 = Some t2" "in_block su t2 (Suc k) q"
        using InitDataBlock_at [OF su t1(2) True] by blast
      obtain t3 where t3: "on_data (it_SeekToFirst (Wrapper_ops (su_dops su))) t2 = Some t3" "in_block su t3 (Suc k) 0"
        using on_data_at [OF t2(2)] iterator.seek_to_first [OF iterator.wrapper [OF dtk]] by blast
      show ?thesis
        using less.hyps [OF _ t3(2)] True p False v t1 t2 t3 ok
        by (subst SkipEmptyDataBlocksForward.simps) simp
    next
      case False
      then have e: "Suc k = length (su_ix su)" using ok by simp
      obtain t2 where t2: "InitDataBlock (su_iops su) (su_dops su) (su_del su) (su_bf su) t1 = Some t2"
        "two_level_ok su t2 (length (su_ix su))" "iw_iter (tl_data t2) = None"
        using InitDataBlock_end [OF su] t1(2) e by metis
      have "block_offset su k + p = length (concat (blocks su))"
        using block_offset_simps(2) [of su "Suc k"] block_offset_simps(3) [of k su] e p ok by linarith
      then show ?thesis
        using at_end_forward(1) [OF su t2(2,3)] v p t1 t2
        by (subst SkipEmptyDataBlocksForward.simps) (simp add: on_data_def)
    qed
  qed
qed

text \<open>Backward, an iterator past the end of its block stands for the last entry before the block.\<close>

lemma skip_backward:
  assumes su: "setup_ok key cmp su"
  shows "in_block su t k p \<Longrightarrow>
    \<exists>t'. SkipEmptyDataBlocksBackward (su_iops su) (su_dops su) (su_del su) (su_bf su) t = Some t'
      \<and> two_level_at su t' (concat (blocks su))
          (if p < length (blocks su ! k) then block_offset su k + p
           else if block_offset su k = 0 then length (concat (blocks su)) else block_offset su k - 1)"
proof (induction k arbitrary: t p)
  case 0
  have it: "iterator (su_iops su) key cmp (su_iat su)" using su by (simp add: setup_ok_def)
  note v = in_block_valid [OF su 0] and ok = in_block_ok [OF 0]
  show ?case
  proof (cases "p < length (blocks su ! 0)")
    case True
    then show ?thesis using valid_stays [OF su 0 True] by auto
  next
    case False
    obtain t1 where t1: "on_index (it_Prev (Wrapper_ops (su_iops su))) t = Some t1" "two_level_ok su t1 (length (su_ix su))"
      using on_index_at [of su t 0 "it_Prev (Wrapper_ops (su_iops su))" "length (su_ix su)"]
        iterator.step_prev [OF iterator.wrapper [OF it]] ok by fastforce
    obtain t2 where t2: "InitDataBlock (su_iops su) (su_dops su) (su_del su) (su_bf su) t1 = Some t2"
      "two_level_ok su t2 (length (su_ix su))" "iw_iter (tl_data t2) = None"
      using InitDataBlock_end [OF su t1(2)] by blast
    then show ?thesis
      using at_end_forward(2) [OF su t2(2,3)] v t1 t2 False
      by (subst SkipEmptyDataBlocksBackward.simps) (simp add: on_data_def)
  qed
next
  case (Suc k)
  have it: "iterator (su_iops su) key cmp (su_iat su)" and dt: "iterator (su_dops su) key cmp (su_dat su)"
    and dtk: "\<And>tok. iterator (su_dops su) key cmp (su_dat_tok su tok)"
    using su by (simp_all add: setup_ok_def)
  note v = in_block_valid [OF su Suc.prems] and ok = in_block_ok [OF Suc.prems]
  show ?case
  proof (cases "p < length (blocks su ! Suc k)")
    case True
    then show ?thesis using valid_stays [OF su Suc.prems True] by auto
  next
    case False
    obtain t1 where t1: "on_index (it_Prev (Wrapper_ops (su_iops su))) t = Some t1" "two_level_ok su t1 k"
      using on_index_at [of su t "Suc k" "it_Prev (Wrapper_ops (su_iops su))" k]
        iterator.step_prev [OF iterator.wrapper [OF it]] ok by fastforce
    obtain t2 q where t2: "InitDataBlock (su_iops su) (su_dops su) (su_del su) (su_bf su) t1 = Some t2" "in_block su t2 k q"
      using InitDataBlock_at [OF su t1(2)] ok by auto
    obtain t3 where t3: "on_data (it_SeekToLast (Wrapper_ops (su_dops su))) t2 = Some t3"
      "in_block su t3 k (length (blocks su ! k) - 1)"
      using on_data_at [OF t2(2)] iterator.seek_to_last [OF iterator.wrapper [OF dtk]] by blast
    have n: "(if length (blocks su ! k) - 1 < length (blocks su ! k) then block_offset su k + (length (blocks su ! k) - 1)
           else if block_offset su k = 0 then length (concat (blocks su)) else block_offset su k - 1)
        = (if block_offset su (Suc k) = 0 then length (concat (blocks su)) else block_offset su (Suc k) - 1)"
      using ok by (cases "blocks su ! k") auto
    from Suc.IH [OF t3(2)] have "\<exists>t'. SkipEmptyDataBlocksBackward (su_iops su) (su_dops su) (su_del su) (su_bf su) t3 = Some t'
      \<and> two_level_at su t' (concat (blocks su))
          (if block_offset su (Suc k) = 0 then length (concat (blocks su)) else block_offset su (Suc k) - 1)"
      unfolding n .
    then show ?thesis
      using False v t1 t2 t3
      by (subst SkipEmptyDataBlocksBackward.simps) (simp del: block_offset_simps)
  qed
qed

subsection \<open>The contract\<close>

text \<open>Where a target is in the concatenation.\<close>

lemma takeWhile_none: "(\<And>x. x \<in> set xs \<Longrightarrow> \<not> P x) \<Longrightarrow> takeWhile P xs = []"
  by (cases xs) simp_all

lemma position_blocks:
  assumes ix: "index_ok key cmp (su_ix su) (blocks su)" and target: "key target"
    and k: "k = position cmp target (su_ix su)"
  shows "k < length (su_ix su) \<Longrightarrow>
      position cmp target (concat (blocks su)) = block_offset su k + position cmp target (blocks su ! k)"
    "k = length (su_ix su) \<Longrightarrow> position cmp target (concat (blocks su)) = length (concat (blocks su))"
proof -
  let ?P = "\<lambda>e :: Slice \<times> Slice. Compare cmp (fst e) target < 0"
  have b: "key (fst e)" "Compare cmp (fst e) (fst (su_ix su ! j)) \<le> 0" "i < j \<Longrightarrow> Compare cmp (fst (su_ix su ! i)) (fst e) < 0"
    if "j < length (su_ix su)" "e \<in> set (blocks su ! j)" for e i j
    using ix that unfolding index_ok_def by blast+
  have ik: "key (fst (su_ix su ! j))" if "j < length (su_ix su)" for j
    using ix that by (simp add: index_ok_def)
  have kl: "k \<le> length (su_ix su)" by (simp add: k position_def length_takeWhile_le)
  have lt: "?P (su_ix su ! j)" if "j < k" for j
    using that unfolding k position_def by (metis nth_mem set_takeWhileD takeWhile_nth)
  have front: "?P e" if e: "e \<in> set (concat (take k (blocks su)))" for e
  proof -
    obtain j where j: "j < k" "j < length (su_ix su)" "e \<in> set (blocks su ! j)"
      using e kl by (auto simp: in_set_conv_nth [of _ "take k (blocks su)"])
    then show ?thesis using le_less_trans [OF _ ik target b(2) lt] b(1) by blast
  qed
  show "position cmp target (concat (blocks su)) = length (concat (blocks su))" if "k = length (su_ix su)"
    using front that by (simp add: position_def takeWhile_eq_all_conv [THEN iffD2])
  show "position cmp target (concat (blocks su)) = block_offset su k + position cmp target (blocks su ! k)"
    if kk: "k < length (su_ix su)"
  proof -
    have ge: "\<not> ?P (su_ix su ! k)"
      using nth_length_takeWhile [of ?P "su_ix su"] kk unfolding k position_def by blast
    have "\<not> ?P e" if e: "e \<in> set (concat (drop (Suc k) (blocks su)))" for e
    proof -
      obtain l where "l \<in> set (drop (Suc k) (blocks su))" "e \<in> set l" using e by auto
      then obtain i where "i < length (drop (Suc k) (blocks su))" "e \<in> set (drop (Suc k) (blocks su) ! i)"
        by (metis in_set_conv_nth)
      then have "i < length (su_ix su) - Suc k" "e \<in> set (blocks su ! (Suc k + i))" using kk by simp_all
      then have "key (fst e)" "Compare cmp (fst (su_ix su ! k)) (fst e) < 0"
        using b [of "Suc k + i" e] by simp_all
      then show ?thesis using ge less_trans [OF ik [OF kk] _ target] by blast
    qed
    then have "takeWhile ?P (concat (drop (Suc k) (blocks su))) = []" by (rule takeWhile_none)
    then have "takeWhile ?P (blocks su ! k @ concat (drop (Suc k) (blocks su))) = takeWhile ?P (blocks su ! k)"
      unfolding takeWhile_append using takeWhile_eq_all_conv [of ?P "blocks su ! k"] by (auto simp del: takeWhile_eq_all_conv)
    moreover have "takeWhile ?P (concat (take k (blocks su)) @ ys) = concat (take k (blocks su)) @ takeWhile ?P ys" for ys
      using front by (rule takeWhile_append2)
    ultimately show ?thesis
      unfolding concat_split [OF kk] position_def by (simp add: block_offset_def)
  qed
qed

lemma TwoLevel_Seek_at:
  assumes su: "setup_ok key cmp su" and t: "two_level_ok su t k" and target: "key target"
  shows "\<exists>t'. TwoLevel_Seek (su_iops su) (su_dops su) (su_del su) (su_bf su) target t = Some t'
    \<and> two_level_at su t' (concat (blocks su)) (position cmp target (concat (blocks su)))"
proof -
  have it: "iterator (su_iops su) key cmp (su_iat su)" and dt: "iterator (su_dops su) key cmp (su_dat su)"
    and dtk: "\<And>tok. iterator (su_dops su) key cmp (su_dat_tok su tok)"
    and ix: "index_ok key cmp (su_ix su) (blocks su)" using su by (simp_all add: setup_ok_def)
  define k' where "k' = position cmp target (su_ix su)"
  obtain t1 where t1: "on_index (it_Seek (Wrapper_ops (su_iops su)) target) t = Some t1" "two_level_ok su t1 k'"
    using on_index_at [OF t] iterator.seek [OF iterator.wrapper [OF it] _ target] k'_def by blast
  have "k' \<le> length (su_ix su)" by (simp add: k'_def position_def length_takeWhile_le)
  then consider "k' < length (su_ix su)" | "k' = length (su_ix su)" by linarith
  then show ?thesis
  proof cases
    case 1
    obtain t2 q where t2: "InitDataBlock (su_iops su) (su_dops su) (su_del su) (su_bf su) t1 = Some t2" "in_block su t2 k' q"
      using InitDataBlock_at [OF su t1(2) 1] by blast
    obtain t3 where t3: "on_data (it_Seek (Wrapper_ops (su_dops su)) target) t2 = Some t3"
      "in_block su t3 k' (position cmp target (blocks su ! k'))"
      using on_data_at [OF t2(2)] iterator.seek [OF iterator.wrapper [OF dtk] _ target] by blast
    then show ?thesis
      using skip_forward [OF su t3(2)] position_blocks(1) [OF ix target k'_def 1] t1 t2 by (simp add: TwoLevel_Seek_def)
  next
    case 2
    obtain t2 where t2: "InitDataBlock (su_iops su) (su_dops su) (su_del su) (su_bf su) t1 = Some t2"
      "two_level_ok su t2 (length (su_ix su))" "iw_iter (tl_data t2) = None"
      using InitDataBlock_end [OF su] t1(2) 2 by metis
    then show ?thesis
      using at_end_forward(1) [OF su t2(2,3)] position_blocks(2) [OF ix target k'_def 2] t1
      by (simp add: TwoLevel_Seek_def on_data_def)
  qed
qed

lemma TwoLevel_SeekToFirst_at:
  assumes su: "setup_ok key cmp su" and t: "two_level_ok su t k"
  shows "\<exists>t'. TwoLevel_SeekToFirst (su_iops su) (su_dops su) (su_del su) (su_bf su) t = Some t'
    \<and> two_level_at su t' (concat (blocks su)) 0"
proof -
  have it: "iterator (su_iops su) key cmp (su_iat su)" and dt: "iterator (su_dops su) key cmp (su_dat su)"
    and dtk: "\<And>tok. iterator (su_dops su) key cmp (su_dat_tok su tok)"
    using su by (simp_all add: setup_ok_def)
  obtain t1 where t1: "on_index (it_SeekToFirst (Wrapper_ops (su_iops su))) t = Some t1" "two_level_ok su t1 0"
    using on_index_at [OF t] iterator.seek_to_first [OF iterator.wrapper [OF it]] by blast
  show ?thesis
  proof (cases "0 < length (su_ix su)")
    case True
    obtain t2 q where t2: "InitDataBlock (su_iops su) (su_dops su) (su_del su) (su_bf su) t1 = Some t2" "in_block su t2 0 q"
      using InitDataBlock_at [OF su t1(2) True] by blast
    obtain t3 where t3: "on_data (it_SeekToFirst (Wrapper_ops (su_dops su))) t2 = Some t3" "in_block su t3 0 0"
      using on_data_at [OF t2(2)] iterator.seek_to_first [OF iterator.wrapper [OF dtk]] by blast
    then show ?thesis using skip_forward [OF su t3(2)] t1 t2 by (simp add: TwoLevel_SeekToFirst_def)
  next
    case False
    then have e: "two_level_ok su t1 (length (su_ix su))" "concat (blocks su) = []" using t1(2) by (simp_all add: blocks_def)
    obtain t2 where t2: "InitDataBlock (su_iops su) (su_dops su) (su_del su) (su_bf su) t1 = Some t2"
      "two_level_ok su t2 (length (su_ix su))" "iw_iter (tl_data t2) = None"
      using InitDataBlock_end [OF su e(1)] by blast
    then show ?thesis
      using at_end_forward(1) [OF su t2(2,3)] t1 unfolding e(2) by (simp add: TwoLevel_SeekToFirst_def on_data_def)
  qed
qed

lemma last_entry:
  "a + b = (n :: nat) \<Longrightarrow>
   (if b - 1 < b then a + (b - 1) else if a = 0 then n else a - 1) = n - 1"
  by auto

lemma TwoLevel_SeekToLast_at:
  assumes su: "setup_ok key cmp su" and t: "two_level_ok su t k"
  shows "\<exists>t'. TwoLevel_SeekToLast (su_iops su) (su_dops su) (su_del su) (su_bf su) t = Some t'
    \<and> two_level_at su t' (concat (blocks su)) (length (concat (blocks su)) - 1)"
proof -
  have it: "iterator (su_iops su) key cmp (su_iat su)" and dt: "iterator (su_dops su) key cmp (su_dat su)"
    and dtk: "\<And>tok. iterator (su_dops su) key cmp (su_dat_tok su tok)"
    using su by (simp_all add: setup_ok_def)
  let ?k = "length (su_ix su) - 1"
  obtain t1 where t1: "on_index (it_SeekToLast (Wrapper_ops (su_iops su))) t = Some t1" "two_level_ok su t1 ?k"
    using on_index_at [OF t] iterator.seek_to_last [OF iterator.wrapper [OF it]] by blast
  show ?thesis
  proof (cases "0 < length (su_ix su)")
    case True
    then have k: "?k < length (su_ix su)" by simp
    obtain t2 q where t2: "InitDataBlock (su_iops su) (su_dops su) (su_del su) (su_bf su) t1 = Some t2" "in_block su t2 ?k q"
      using InitDataBlock_at [OF su t1(2) k] by blast
    obtain t3 where t3: "on_data (it_SeekToLast (Wrapper_ops (su_dops su))) t2 = Some t3"
      "in_block su t3 ?k (length (blocks su ! ?k) - 1)"
      using on_data_at [OF t2(2)] iterator.seek_to_last [OF iterator.wrapper [OF dtk]] by blast
    have "block_offset su ?k + length (blocks su ! ?k) = length (concat (blocks su))"
      using block_offset_simps(2) [of su "Suc ?k"] block_offset_simps(3) [OF k] True by simp
    then have "(if length (blocks su ! ?k) - 1 < length (blocks su ! ?k) then block_offset su ?k + (length (blocks su ! ?k) - 1)
           else if block_offset su ?k = 0 then length (concat (blocks su)) else block_offset su ?k - 1)
        = length (concat (blocks su)) - 1"
      by (rule last_entry)
    then show ?thesis
      using skip_backward [OF su t3(2)] t1 t2 t3(1) by (simp add: TwoLevel_SeekToLast_def del: block_offset_simps)
  next
    case False
    then have e: "two_level_ok su t1 (length (su_ix su))" "concat (blocks su) = []" using t1(2) by (simp_all add: blocks_def)
    obtain t2 where t2: "InitDataBlock (su_iops su) (su_dops su) (su_del su) (su_bf su) t1 = Some t2"
      "two_level_ok su t2 (length (su_ix su))" "iw_iter (tl_data t2) = None"
      using InitDataBlock_end [OF su e(1)] by blast
    then show ?thesis
      using at_end_forward(2) [OF su t2(2,3)] t1 unfolding e(2) by (simp add: TwoLevel_SeekToLast_def on_data_def)
  qed
qed

lemma two_level_entry:
  assumes su: "setup_ok key cmp su" and t: "two_level_at su t es n" and n: "n < length es"
  obtains k p where "in_block su t k p" "p < length (blocks su ! k)" "n = block_offset su k + p" "es = concat (blocks su)"
    "blocks su ! k ! p = es ! n" "TwoLevel_Valid t"
proof -
  obtain k p where a: "in_block su t k p" "p < length (blocks su ! k)" "n = block_offset su k + p" "es = concat (blocks su)"
    using t n by (auto simp: two_level_at_def)
  then have "k < length (su_ix su)" by (simp add: in_block_def)
  then show ?thesis
    using that [OF a] in_concat(2) [of k su p] a in_block_valid(1) [OF su a(1)] by (simp add: TwoLevel_Valid_def)
qed

lemma two_level_ok_at: "two_level_at su t es n \<Longrightarrow> \<exists>k. two_level_ok su t k"
  by (auto simp: two_level_at_def in_block_def at_end_def split: if_splits)

lemma two_level_iterator:
  assumes su: "setup_ok key cmp su"
  shows "iterator (TwoLevel_ops (su_iops su) (su_dops su) (su_del su) (su_bf su)) key cmp (two_level_at su)"
proof
  let ?ops = "TwoLevel_ops (su_iops su) (su_dops su) (su_del su) (su_bf su)"
  have it: "iterator (su_iops su) key cmp (su_iat su)" and dt: "iterator (su_dops su) key cmp (su_dat su)"
    and dtk: "\<And>tok. iterator (su_dops su) key cmp (su_dat_tok su tok)"
    using su by (simp_all add: setup_ok_def)
  note w = iterator.wrapper [OF dt]
  fix t es n assume t: "two_level_at su t es n"
  obtain k where ok: "two_level_ok su t k" using two_level_ok_at [OF t] by blast
  have es: "es = concat (blocks su)" using t by (simp add: two_level_at_def)
  show "n \<le> length es" using t by (auto simp: two_level_at_def split: if_splits)
  have "\<not> n < length es \<Longrightarrow> \<not> TwoLevel_Valid t"
    using t by (auto simp: two_level_at_def at_end_def two_level_ok_def TwoLevel_Valid_def Wrapper_Valid_def)
  then show "it_Valid ?ops t \<longleftrightarrow> n < length es"
    using two_level_entry [OF su t] by (auto simp: TwoLevel_ops_def)
  show "it_key ?ops t = Some (fst (es ! n))" "it_value ?ops t = Some (snd (es ! n))"
    "\<exists>t'. it_Next ?ops t = Some t' \<and> two_level_at su t' es (n + 1)"
    "\<exists>t'. it_Prev ?ops t = Some t' \<and> two_level_at su t' es (if n = 0 then length es else n - 1)" if n: "n < length es"
  proof -
    obtain k p where a: "in_block su t k p" "p < length (blocks su ! k)" "n = block_offset su k + p" "es = concat (blocks su)"
      "blocks su ! k ! p = es ! n" "TwoLevel_Valid t" by (rule two_level_entry [OF su t n])
    have d: "data_at su (tl_data t) (blocks su ! k) p" using a(1) by (simp add: in_block_def)
    show "it_key ?ops t = Some (fst (es ! n))" "it_value ?ops t = Some (snd (es ! n))"
      using iterator.cur_key [OF w d a(2)] iterator.cur_value [OF w d a(2)] a(5)
      by (simp_all add: TwoLevel_ops_def TwoLevel_key_def TwoLevel_value_def Wrapper_ops_def)
    obtain t1 where "on_data (it_Next (Wrapper_ops (su_dops su))) t = Some t1" "in_block su t1 k (p + 1)"
      using on_data_at [OF a(1)] iterator.step_next [OF iterator.wrapper [OF dtk] _ a(2)] by blast
    then show "\<exists>t'. it_Next ?ops t = Some t' \<and> two_level_at su t' es (n + 1)"
      using skip_forward [OF su] a by (fastforce simp: TwoLevel_ops_def TwoLevel_Next_def)
    obtain t2 where t2: "on_data (it_Prev (Wrapper_ops (su_dops su))) t = Some t2"
      "in_block su t2 k (if p = 0 then length (blocks su ! k) else p - 1)"
      using on_data_at [OF a(1)] iterator.step_prev [OF iterator.wrapper [OF dtk] _ a(2)] by blast
    have q: "(if (if p = 0 then length (blocks su ! k) else p - 1) < length (blocks su ! k)
           then block_offset su k + (if p = 0 then length (blocks su ! k) else p - 1)
           else if block_offset su k = 0 then length (concat (blocks su)) else block_offset su k - 1)
        = (if n = 0 then length es else n - 1)"
      using a(2-4) by auto
    show "\<exists>t'. it_Prev ?ops t = Some t' \<and> two_level_at su t' es (if n = 0 then length es else n - 1)"
      using skip_backward [OF su t2(2)] t2(1) a(4,6) unfolding q by (simp add: TwoLevel_ops_def TwoLevel_Prev_def)
  qed
  have "Status_ok (it_status (Wrapper_ops (su_iops su)) (tl_index t))"
    using iterator.status [OF iterator.wrapper [OF it]] ok by (auto simp: two_level_ok_def)
  moreover have "Status_ok (it_status (Wrapper_ops (su_dops su)) (tl_data t))" if "iw_iter (tl_data t) \<noteq> None"
    using iterator.status [OF w] ok that by (auto simp: two_level_ok_def)
  ultimately show "Status_ok (it_status ?ops t)"
    using ok by (cases "iw_iter (tl_data t) = None") (auto simp: TwoLevel_ops_def TwoLevel_status_def two_level_ok_def)
  show "\<exists>t'. it_SeekToFirst ?ops t = Some t' \<and> two_level_at su t' es 0"
    "\<exists>t'. it_SeekToLast ?ops t = Some t' \<and> two_level_at su t' es (length es - 1)"
    "key target \<Longrightarrow> \<exists>t'. it_Seek ?ops target t = Some t' \<and> two_level_at su t' es (position cmp target es)" for target
    using TwoLevel_SeekToFirst_at [OF su ok] TwoLevel_SeekToLast_at [OF su ok] TwoLevel_Seek_at [OF su ok]
    unfolding es by (simp_all add: TwoLevel_ops_def)
qed

lemma new_TwoLevelIterator_at:
  assumes su: "setup_ok key cmp su" and i: "su_iat su i (su_ix su) k" and arg: "su_P su arg {#}"
  shows "\<exists>t. NewTwoLevelIterator (su_iops su) i arg (su_options su) = Some t
    \<and> two_level_at su t (concat (blocks su)) (length (concat (blocks su)))"
proof -
  have "iterator (su_iops su) key cmp (su_iat su)" using su by (simp add: setup_ok_def)
  from iterator.wrapper_update [OF this i, of new_IteratorWrapper]
  obtain w where "Wrapper_Update (su_iops su) (new_IteratorWrapper\<lparr>iw_iter := Some i\<rparr>) = Some w"
    "index_at su w (su_ix su) k" by blast
  then show ?thesis using arg
    by (auto simp: NewTwoLevelIterator_def new_TwoLevelIterator_def Wrapper_Set_def two_level_at_def at_end_def
        two_level_ok_def live_def new_IteratorWrapper_def Status_ok_def Status_OK_def)
qed

end

end
