(* ===== verification/Cache.thy ===== *)
theory Cache
  imports Slices Bloom
begin

text \<open>
  The block cache of \<open>util/cache.cc\<close> behind the interface of \<open>include/leveldb/cache.h\<close>: a hash table of
  reference-counted entries, on one of two doubly linked lists while they are in the cache.

  Entries live in an explicit store. The link fields are maps, so that the list operations work on
  pointers as in the code; they are read and written through \<open>get_next\<close>, \<open>set_next\<close>, \<open>get_prev\<close> and \<open>set_prev\<close>,
  which fail on a null pointer and on an entry that is not in the store. A chain of the hash table is
  the list of the addresses in it. The calls of the deleters are recorded in order. An option is \<open>None\<close>
  where an assertion fails, a null or freed pointer is followed, or a loop does not end. The mutexes are not modelled: every operation holds the
  mutex of its shard from its beginning to its end.
\<close>

subsection \<open>Entries\<close>

text \<open>\<open>Null\<close>, the two list heads, and the entry at an address.\<close>

datatype LRUNode = Null | Lru_head | In_use_head | Entry nat

record ('v, 'd) LRUHandle =
  lh_value :: 'v
  lh_deleter :: 'd
  lh_charge :: u64
  lh_in_cache :: bool
  lh_refs :: u32
  lh_hash :: u32
  lh_key :: bytes

type_synonym ('v, 'd) lru_heap = "nat \<Rightarrow> ('v, 'd) LRUHandle option"

text \<open>The hash table, as it is before the constructor has called \<open>Resize\<close> too.\<close>

record HandleTable =
  ht_length :: u32
  ht_elems :: u32
  ht_list :: "nat list list"

record ('v, 'd) LRUCache =
  lc_capacity :: u64
  lc_usage :: u64
  lc_next :: "LRUNode \<Rightarrow> LRUNode"
  lc_prev :: "LRUNode \<Rightarrow> LRUNode"
  lc_heap :: "('v, 'd) lru_heap"
  lc_fresh :: nat
  lc_table :: HandleTable
  lc_deleted :: "('d \<times> Slice \<times> 'v) list"

text \<open>The heads of the lists are members of the cache; an entry can be accessed while it is in the store.\<close>

definition node_live :: "('v, 'd) LRUCache \<Rightarrow> LRUNode \<Rightarrow> bool" where
  "node_live c e \<longleftrightarrow> (case e of Null \<Rightarrow> False | Entry a \<Rightarrow> lc_heap c a \<noteq> None | _ \<Rightarrow> True)"

definition get_next :: "LRUNode \<Rightarrow> ('v, 'd) LRUCache \<Rightarrow> LRUNode option" where
  "get_next e c = (if node_live c e then Some (lc_next c e) else None)"

definition get_prev :: "LRUNode \<Rightarrow> ('v, 'd) LRUCache \<Rightarrow> LRUNode option" where
  "get_prev e c = (if node_live c e then Some (lc_prev c e) else None)"

definition set_next :: "LRUNode \<Rightarrow> LRUNode \<Rightarrow> ('v, 'd) LRUCache \<Rightarrow> ('v, 'd) LRUCache option" where
  "set_next e n c = (if node_live c e then Some (c\<lparr>lc_next := (lc_next c)(e := n)\<rparr>) else None)"

definition set_prev :: "LRUNode \<Rightarrow> LRUNode \<Rightarrow> ('v, 'd) LRUCache \<Rightarrow> ('v, 'd) LRUCache option" where
  "set_prev e n c = (if node_live c e then Some (c\<lparr>lc_prev := (lc_prev c)(e := n)\<rparr>) else None)"

definition Handle_key :: "('v, 'd) LRUCache \<Rightarrow> nat \<Rightarrow> Slice option" where
  "Handle_key c a = Option.bind (lc_heap c a) (\<lambda>h. if lc_next c (Entry a) = Entry a then None else Some (lh_key h))"

subsection \<open>The hash table\<close>

text \<open>\<open>FindPointer\<close>: the bucket, and the position in its chain of the entry found or of its end.\<close>

fun find_in_chain :: "('v, 'd) LRUCache \<Rightarrow> Slice \<Rightarrow> u32 \<Rightarrow> nat list \<Rightarrow> nat option" where
  "find_in_chain c key hash [] = Some 0"
| "find_in_chain c key hash (a # chain) =
     Option.bind (lc_heap c a) (\<lambda>h.
       if lh_hash h \<noteq> hash then map_option Suc (find_in_chain c key hash chain)
       else Option.bind (Handle_key c a) (\<lambda>k.
         if Slice_neq key k then map_option Suc (find_in_chain c key hash chain) else Some 0))"

definition bucket_of :: "u32 \<Rightarrow> u32 \<Rightarrow> nat" where
  "bucket_of hash len = unat (hash AND (len - 1))"

definition FindPointer :: "('v, 'd) LRUCache \<Rightarrow> Slice \<Rightarrow> u32 \<Rightarrow> (nat \<times> nat) option" where
  "FindPointer c key hash =
     (let i = bucket_of hash (ht_length (lc_table c))
      in map_option (Pair i) (find_in_chain c key hash (ht_list (lc_table c) ! i)))"

definition pointed :: "nat list list \<Rightarrow> nat \<times> nat \<Rightarrow> nat option" where
  "pointed buckets = (\<lambda>(i, p). if p < length (buckets ! i) then Some (buckets ! i ! p) else None)"

definition HandleTable_Lookup :: "('v, 'd) LRUCache \<Rightarrow> Slice \<Rightarrow> u32 \<Rightarrow> nat option option" where
  "HandleTable_Lookup c key hash = map_option (pointed (ht_list (lc_table c))) (FindPointer c key hash)"

text \<open>\<open>Resize\<close>: the length, the moving of the entries to the front of their new chains.\<close>

partial_function (option) resize_length :: "u32 \<Rightarrow> u32 \<Rightarrow> u32 option" where
  "resize_length new_length elems =
     (if new_length < elems then resize_length (new_length * 2) elems else Some new_length)"

fun rehash :: "('v, 'd) lru_heap \<Rightarrow> u32 \<Rightarrow> nat list \<Rightarrow> nat list list \<Rightarrow> u32 \<Rightarrow> (nat list list \<times> u32) option" where
  "rehash heap new_length [] new_list count = Some (new_list, count)"
| "rehash heap new_length (a # as) new_list count =
     Option.bind (heap a) (\<lambda>h.
       let i = bucket_of (lh_hash h) new_length
       in rehash heap new_length as (new_list[i := a # new_list ! i]) (count + 1))"

definition HandleTable_Resize :: "('v, 'd) lru_heap \<Rightarrow> HandleTable \<Rightarrow> HandleTable option" where
  "HandleTable_Resize heap t =
     Option.bind (resize_length 4 (ht_elems t)) (\<lambda>new_length.
     Option.bind (rehash heap new_length (concat (take (unat (ht_length t)) (ht_list t)))
                    (replicate (unat new_length) []) 0) (\<lambda>(new_list, count).
       if ht_elems t = count then Some (t\<lparr>ht_list := new_list, ht_length := new_length\<rparr>) else None))"

definition new_HandleTable :: "HandleTable option" where
  "new_HandleTable = HandleTable_Resize (\<lambda>_. None :: (unit, unit) LRUHandle option) \<lparr>ht_length = 0, ht_elems = 0, ht_list = []\<rparr>"

text \<open>\<open>Insert\<close> puts the entry in the place of an old one with its key, which it returns.\<close>

definition HandleTable_Insert :: "nat \<Rightarrow> ('v, 'd) LRUCache \<Rightarrow> (nat option \<times> ('v, 'd) LRUCache) option" where
  "HandleTable_Insert a c =
     Option.bind (lc_heap c a) (\<lambda>h.
     Option.bind (Handle_key c a) (\<lambda>k.
     Option.bind (FindPointer c k (lh_hash h)) (\<lambda>(i, p).
       let t = lc_table c; chain = ht_list t ! i; old = pointed (ht_list t) (i, p);
           t = t\<lparr>ht_list := (ht_list t)[i := take p chain @ a # drop (Suc p) chain]\<rparr>
       in if old = None then
            let t = t\<lparr>ht_elems := ht_elems t + 1\<rparr>
            in if ht_elems t > ht_length t
               then map_option (\<lambda>t. (None, c\<lparr>lc_table := t\<rparr>)) (HandleTable_Resize (lc_heap c) t)
               else Some (None, c\<lparr>lc_table := t\<rparr>)
          else Some (old, c\<lparr>lc_table := t\<rparr>))))"

definition HandleTable_Remove :: "Slice \<Rightarrow> u32 \<Rightarrow> ('v, 'd) LRUCache \<Rightarrow> (nat option \<times> ('v, 'd) LRUCache) option" where
  "HandleTable_Remove key hash c =
     Option.bind (FindPointer c key hash) (\<lambda>(i, p).
       let t = lc_table c; chain = ht_list t ! i; result = pointed (ht_list t) (i, p)
       in if result = None then Some (None, c)
          else Some (result, c\<lparr>lc_table := t
                 \<lparr>ht_list := (ht_list t)[i := take p chain @ drop (Suc p) chain], ht_elems := ht_elems t - 1\<rparr>\<rparr>))"

subsection \<open>The lists\<close>

text \<open>\<open>e->next->prev = e->prev; e->prev->next = e->next\<close>\<close>

definition LRU_Remove :: "nat \<Rightarrow> ('v, 'd) LRUCache \<Rightarrow> ('v, 'd) LRUCache option" where
  "LRU_Remove a c =
     (let e = Entry a
      in Option.bind (get_next e c) (\<lambda>n. Option.bind (get_prev e c) (\<lambda>p.
         Option.bind (set_prev n p c) (\<lambda>c.
         Option.bind (get_prev e c) (\<lambda>p. Option.bind (get_next e c) (\<lambda>n.
         set_next p n c))))))"

text \<open>\<open>e->next = list; e->prev = list->prev; e->prev->next = e; e->next->prev = e\<close>\<close>

definition LRU_Append :: "LRUNode \<Rightarrow> nat \<Rightarrow> ('v, 'd) LRUCache \<Rightarrow> ('v, 'd) LRUCache option" where
  "LRU_Append list a c =
     (let e = Entry a
      in Option.bind (set_next e list c) (\<lambda>c.
         Option.bind (get_prev list c) (\<lambda>p. Option.bind (set_prev e p c) (\<lambda>c.
         Option.bind (get_prev e c) (\<lambda>p. Option.bind (set_next p e c) (\<lambda>c.
         Option.bind (get_next e c) (\<lambda>n. set_prev n e c)))))))"

definition put_entry :: "nat \<Rightarrow> ('v, 'd) LRUHandle \<Rightarrow> ('v, 'd) LRUCache \<Rightarrow> ('v, 'd) LRUCache" where
  "put_entry a h c = c\<lparr>lc_heap := (lc_heap c)(a \<mapsto> h)\<rparr>"

definition new_LRUCache :: "('v, 'd) LRUCache option" where
  "new_LRUCache =
     map_option (\<lambda>t. \<lparr>lc_capacity = 0, lc_usage = 0,
       lc_next = (\<lambda>_. Null)(Lru_head := Lru_head, In_use_head := In_use_head),
       lc_prev = (\<lambda>_. Null)(Lru_head := Lru_head, In_use_head := In_use_head),
       lc_heap = (\<lambda>_. None), lc_fresh = 0, lc_table = t, lc_deleted = []\<rparr>) new_HandleTable"

definition SetCapacity :: "u64 \<Rightarrow> ('v, 'd) LRUCache \<Rightarrow> ('v, 'd) LRUCache" where
  "SetCapacity capacity c = c\<lparr>lc_capacity := capacity\<rparr>"

definition LRU_Ref :: "nat \<Rightarrow> ('v, 'd) LRUCache \<Rightarrow> ('v, 'd) LRUCache option" where
  "LRU_Ref a c =
     Option.bind (lc_heap c a) (\<lambda>h.
     Option.bind
       (if lh_refs h = 1 \<and> lh_in_cache h then Option.bind (LRU_Remove a c) (LRU_Append In_use_head a) else Some c)
       (\<lambda>c. Some (put_entry a (h\<lparr>lh_refs := lh_refs h + 1\<rparr>) c)))"

definition LRU_Unref :: "nat \<Rightarrow> ('v, 'd) LRUCache \<Rightarrow> ('v, 'd) LRUCache option" where
  "LRU_Unref a c =
     Option.bind (lc_heap c a) (\<lambda>h.
       if \<not> lh_refs h > 0 then None
       else
         let h = h\<lparr>lh_refs := lh_refs h - 1\<rparr>; c = put_entry a h c
         in if lh_refs h = 0 then
              if lh_in_cache h then None
              else Option.bind (Handle_key c a) (\<lambda>k.
                Some (c\<lparr>lc_deleted := lc_deleted c @ [(lh_deleter h, k, lh_value h)], lc_heap := (lc_heap c)(a := None)\<rparr>))
            else if lh_in_cache h \<and> lh_refs h = 1
            then Option.bind (LRU_Remove a c) (LRU_Append Lru_head a)
            else Some c)"

text \<open>\<open>FinishErase\<close>: whether there was an entry, and the cache.\<close>

definition FinishErase :: "nat option \<Rightarrow> ('v, 'd) LRUCache \<Rightarrow> (bool \<times> ('v, 'd) LRUCache) option" where
  "FinishErase e c =
     (case e of
        None \<Rightarrow> Some (False, c)
      | Some a \<Rightarrow>
          Option.bind (lc_heap c a) (\<lambda>h.
            if \<not> lh_in_cache h then None
            else Option.bind (LRU_Remove a c) (\<lambda>c.
              let c = put_entry a (h\<lparr>lh_in_cache := False\<rparr>) c;
                  c = c\<lparr>lc_usage := lc_usage c - lh_charge h\<rparr>
              in map_option (Pair True) (LRU_Unref a c))))"

definition LRU_Lookup :: "Slice \<Rightarrow> u32 \<Rightarrow> ('v, 'd) LRUCache \<Rightarrow> (nat option \<times> ('v, 'd) LRUCache) option" where
  "LRU_Lookup key hash c =
     Option.bind (HandleTable_Lookup c key hash) (\<lambda>e.
       case e of None \<Rightarrow> Some (None, c) | Some a \<Rightarrow> map_option (Pair (Some a)) (LRU_Ref a c))"

definition LRU_Release :: "nat \<Rightarrow> ('v, 'd) LRUCache \<Rightarrow> ('v, 'd) LRUCache option" where
  "LRU_Release handle c = LRU_Unref handle c"

text \<open>The removal of the oldest entry that no client uses.\<close>

definition evict_oldest :: "('v, 'd) LRUCache \<Rightarrow> ('v, 'd) LRUCache option" where
  "evict_oldest c =
     (case lc_next c Lru_head of
        Entry old \<Rightarrow>
          Option.bind (lc_heap c old) (\<lambda>h.
            if lh_refs h \<noteq> 1 then None
            else Option.bind (Handle_key c old) (\<lambda>k.
              Option.bind (HandleTable_Remove k (lh_hash h) c) (\<lambda>(e, c).
              Option.bind (FinishErase e c) (\<lambda>(erased, c). if erased then Some c else None))))
      | _ \<Rightarrow> None)"

partial_function (option) evict_loop :: "('v, 'd) LRUCache \<Rightarrow> ('v, 'd) LRUCache option" where
  "evict_loop c =
     (if lc_usage c > lc_capacity c \<and> lc_next c Lru_head \<noteq> Lru_head
      then Option.bind (evict_oldest c) evict_loop else Some c)"

text \<open>The store gives \<open>malloc\<close> an address it has not given before.\<close>

definition LRU_Insert :: "Slice \<Rightarrow> u32 \<Rightarrow> 'v \<Rightarrow> u64 \<Rightarrow> 'd \<Rightarrow> ('v, 'd) LRUCache \<Rightarrow> (nat \<times> ('v, 'd) LRUCache) option" where
  "LRU_Insert key hash value charge deleter c =
     (let a = lc_fresh c;
          h = \<lparr>lh_value = value, lh_deleter = deleter, lh_charge = charge, lh_in_cache = False, lh_refs = 1,
               lh_hash = hash, lh_key = key\<rparr>;
          c = c\<lparr>lc_fresh := a + 1\<rparr>
      in Option.bind
           (if lc_capacity c > 0 then
              Option.bind (LRU_Append In_use_head a (put_entry a (h\<lparr>lh_refs := lh_refs h + 1, lh_in_cache := True\<rparr>) c)) (\<lambda>c.
                let c = c\<lparr>lc_usage := lc_usage c + charge\<rparr>
                in Option.bind (HandleTable_Insert a c) (\<lambda>(old, c). map_option snd (FinishErase old c)))
            else set_next (Entry a) Null (put_entry a h c))
           (\<lambda>c. map_option (Pair a) (evict_loop c)))"

definition LRU_Erase :: "Slice \<Rightarrow> u32 \<Rightarrow> ('v, 'd) LRUCache \<Rightarrow> ('v, 'd) LRUCache option" where
  "LRU_Erase key hash c =
     Option.bind (HandleTable_Remove key hash c) (\<lambda>(e, c). map_option snd (FinishErase e c))"

partial_function (option) LRU_Prune :: "('v, 'd) LRUCache \<Rightarrow> ('v, 'd) LRUCache option" where
  "LRU_Prune c =
     (if lc_next c Lru_head \<noteq> Lru_head then Option.bind (evict_oldest c) LRU_Prune else Some c)"

definition LRU_TotalCharge :: "('v, 'd) LRUCache \<Rightarrow> u64" where
  "LRU_TotalCharge c = lc_usage c"

text \<open>The destructor: the next pointer is read before the entry may be freed.\<close>

partial_function (option) delete_loop :: "LRUNode \<Rightarrow> ('v, 'd) LRUCache \<Rightarrow> ('v, 'd) LRUCache option" where
  "delete_loop e c =
     (case e of
        Lru_head \<Rightarrow> Some c
      | Entry a \<Rightarrow>
          Option.bind (get_next e c) (\<lambda>following.
          Option.bind (lc_heap c a) (\<lambda>h.
            if \<not> lh_in_cache h then None
            else
              let h = h\<lparr>lh_in_cache := False\<rparr>; c = put_entry a h c
              in if lh_refs h \<noteq> 1 then None
                 else Option.bind (LRU_Unref a c) (delete_loop following)))
      | _ \<Rightarrow> None)"

definition delete_LRUCache :: "('v, 'd) LRUCache \<Rightarrow> ('v, 'd) LRUCache option" where
  "delete_LRUCache c =
     (if lc_next c In_use_head \<noteq> In_use_head then None else delete_loop (lc_next c Lru_head) c)"

subsection \<open>The shards\<close>

definition kNumShardBits :: nat where "kNumShardBits = 4"
definition kNumShards :: nat where "kNumShards = 2 ^ kNumShardBits"

record ('v, 'd) ShardedLRUCache =
  sc_shard :: "('v, 'd) LRUCache list"
  sc_last_id :: u64

text \<open>A handle is the address of an entry in its shard, with the hash that the code reads from there.\<close>

type_synonym CacheHandle = "u32 \<times> nat"

definition HashSlice :: "Slice \<Rightarrow> u32" where "HashSlice s = Hash s 0"

definition Shard :: "u32 \<Rightarrow> nat" where "Shard hash = unat (drop_bit (32 - kNumShardBits) hash)"

definition new_ShardedLRUCache :: "u64 \<Rightarrow> ('v, 'd) ShardedLRUCache option" where
  "new_ShardedLRUCache capacity =
     (let per_shard = (capacity + (word_of_nat kNumShards - 1)) div word_of_nat kNumShards
      in map_option (\<lambda>c. \<lparr>sc_shard = replicate kNumShards (SetCapacity per_shard c), sc_last_id = 0\<rparr>) new_LRUCache)"

definition on_shard :: "u32 \<Rightarrow> (('v, 'd) LRUCache \<Rightarrow> ('r \<times> ('v, 'd) LRUCache) option) \<Rightarrow> ('v, 'd) ShardedLRUCache
    \<Rightarrow> ('r \<times> ('v, 'd) ShardedLRUCache) option" where
  "on_shard hash f c =
     map_option (\<lambda>(r, s). (r, c\<lparr>sc_shard := (sc_shard c)[Shard hash := s]\<rparr>)) (f (sc_shard c ! Shard hash))"

definition Sharded_Insert :: "Slice \<Rightarrow> 'v \<Rightarrow> u64 \<Rightarrow> 'd \<Rightarrow> ('v, 'd) ShardedLRUCache
    \<Rightarrow> (CacheHandle \<times> ('v, 'd) ShardedLRUCache) option" where
  "Sharded_Insert key value charge deleter c =
     (let hash = HashSlice key
      in map_option (\<lambda>(a, c). ((hash, a), c)) (on_shard hash (LRU_Insert key hash value charge deleter) c))"

definition Sharded_Lookup :: "Slice \<Rightarrow> ('v, 'd) ShardedLRUCache
    \<Rightarrow> (CacheHandle option \<times> ('v, 'd) ShardedLRUCache) option" where
  "Sharded_Lookup key c =
     (let hash = HashSlice key
      in map_option (\<lambda>(e, c). (map_option (Pair hash) e, c)) (on_shard hash (LRU_Lookup key hash) c))"

definition Sharded_Release :: "CacheHandle \<Rightarrow> ('v, 'd) ShardedLRUCache \<Rightarrow> ('v, 'd) ShardedLRUCache option" where
  "Sharded_Release handle c =
     map_option snd (on_shard (fst handle) (\<lambda>s. map_option (Pair ()) (LRU_Release (snd handle) s)) c)"

definition Sharded_Erase :: "Slice \<Rightarrow> ('v, 'd) ShardedLRUCache \<Rightarrow> ('v, 'd) ShardedLRUCache option" where
  "Sharded_Erase key c =
     (let hash = HashSlice key
      in map_option snd (on_shard hash (\<lambda>s. map_option (Pair ()) (LRU_Erase key hash s)) c))"

definition Sharded_Value :: "CacheHandle \<Rightarrow> ('v, 'd) ShardedLRUCache \<Rightarrow> 'v option" where
  "Sharded_Value handle c = map_option lh_value (lc_heap (sc_shard c ! Shard (fst handle)) (snd handle))"

definition Sharded_NewId :: "('v, 'd) ShardedLRUCache \<Rightarrow> u64 \<times> ('v, 'd) ShardedLRUCache" where
  "Sharded_NewId c = (sc_last_id c + 1, c\<lparr>sc_last_id := sc_last_id c + 1\<rparr>)"

fun all_shards :: "(('v, 'd) LRUCache \<Rightarrow> ('v, 'd) LRUCache option) \<Rightarrow> ('v, 'd) LRUCache list \<Rightarrow> ('v, 'd) LRUCache list option" where
  "all_shards f [] = Some []"
| "all_shards f (s # ss) = Option.bind (f s) (\<lambda>s. map_option ((#) s) (all_shards f ss))"

definition Sharded_Prune :: "('v, 'd) ShardedLRUCache \<Rightarrow> ('v, 'd) ShardedLRUCache option" where
  "Sharded_Prune c = map_option (\<lambda>ss. c\<lparr>sc_shard := ss\<rparr>) (all_shards LRU_Prune (sc_shard c))"

definition Sharded_TotalCharge :: "('v, 'd) ShardedLRUCache \<Rightarrow> u64" where
  "Sharded_TotalCharge c = sum_list (map LRU_TotalCharge (sc_shard c))"

definition NewLRUCache :: "u64 \<Rightarrow> ('v, 'd) ShardedLRUCache option" where
  "NewLRUCache capacity = new_ShardedLRUCache capacity"

end
