(* ===== verification/Cache_Correct.thy ===== *)
theory Cache_Correct
  imports Cache "HOL-Library.Multiset" "HOL-Library.Sublist"
begin

text \<open>
  The cache keeps its invariant under every call that respects the handles a client holds: no entry
  is used after it was freed, none is freed while it is held, the lists and the hash table agree on
  what is in the cache, and the usage is the sum of the charges.
\<close>

subsection \<open>Doubly linked lists\<close>

fun seg :: "(LRUNode \<Rightarrow> LRUNode) \<Rightarrow> (LRUNode \<Rightarrow> LRUNode) \<Rightarrow> LRUNode \<Rightarrow> LRUNode list \<Rightarrow> LRUNode \<Rightarrow> bool" where
  "seg nx pv a [] b \<longleftrightarrow> nx a = b \<and> pv b = a"
| "seg nx pv a (x # xs) b \<longleftrightarrow> nx a = x \<and> pv x = a \<and> seg nx pv x xs b"

lemma seg_append: "seg nx pv a (xs @ x # ys) b \<longleftrightarrow> seg nx pv a xs x \<and> seg nx pv x ys b"
  by (induction xs arbitrary: a) auto

lemma seg_cong:
  "seg nx pv a xs b \<Longrightarrow> (\<And>u. u \<in> set (a # xs) \<Longrightarrow> nx' u = nx u) \<Longrightarrow> (\<And>u. u \<in> set (b # xs) \<Longrightarrow> pv' u = pv u) \<Longrightarrow>
   seg nx' pv' a xs b"
  by (induction xs arbitrary: a) auto

lemma seg_ends:
  "seg nx pv a xs b \<Longrightarrow> pv b = last (a # xs) \<and> nx a = hd (xs @ [b])"
  by (induction xs arbitrary: a) auto

lemma seg_prev: "seg nx pv a xs b \<Longrightarrow> pv b \<in> set (a # xs)"
  by (induction xs arbitrary: a) auto

lemma seg_retarget:
  "seg nx pv a xs b \<Longrightarrow> distinct (a # xs) \<Longrightarrow>
   (\<And>u. u \<in> set (a # xs) \<Longrightarrow> u \<noteq> last (a # xs) \<Longrightarrow> nx' u = nx u) \<Longrightarrow> nx' (last (a # xs)) = c \<Longrightarrow>
   (\<And>u. u \<in> set xs \<Longrightarrow> pv' u = pv u) \<Longrightarrow> pv' c = last (a # xs) \<Longrightarrow> seg nx' pv' a xs c"
proof (induction xs arbitrary: a)
  case (Cons x xs)
  have "a \<noteq> last (x # xs)" using Cons.prems(2) last_in_set [of "x # xs"] by auto
  then have "nx' a = x" using Cons.prems(1,3) by simp
  moreover have "seg nx' pv' x xs c"
    using Cons.prems by (intro Cons.IH) auto
  ultimately show ?case using Cons.prems(1,5) by simp
qed simp

lemma seg_remove:
  assumes s: "seg nx pv h (ys @ x # zs) h" and d: "distinct (h # ys @ x # zs)"
  shows "seg (nx(pv x := nx x)) (pv(nx x := pv x)) h (ys @ zs) h"
proof -
  have 1: "seg nx pv h ys x" and 2: "seg nx pv x zs h" using s by (simp_all add: seg_append)
  have p: "pv x = last (h # ys)" and n: "nx x = hd (zs @ [h])" using seg_ends [OF 1] seg_ends [OF 2] by auto
  have lin: "last (h # ys) \<in> set (h # ys)" by (rule last_in_set) simp
  show ?thesis
  proof (cases zs)
    case Nil
    have "seg (nx(pv x := nx x)) (pv(nx x := pv x)) h ys h"
      using d p n Nil by (intro seg_retarget [OF 1]) auto
    then show ?thesis using Nil by simp
  next
    case (Cons z zs')
    have "seg (nx(pv x := nx x)) (pv(nx x := pv x)) h ys z"
      using d p n Cons by (intro seg_retarget [OF 1]) auto
    moreover have "seg (nx(pv x := nx x)) (pv(nx x := pv x)) z zs' h"
    proof (rule seg_cong)
      show "seg nx pv z zs' h" using 2 Cons by simp
      show "(nx(pv x := nx x)) u = nx u" if "u \<in> set (z # zs')" for u
        using that d p Cons lin by auto
      show "(pv(nx x := pv x)) u = pv u" if "u \<in> set (h # zs')" for u
        using that d n Cons by auto
    qed
    ultimately show ?thesis using Cons by (simp add: seg_append)
  qed
qed

lemma seg_insert:
  assumes s: "seg nx pv h xs h" and d: "distinct (h # xs)" and e: "e \<notin> set (h # xs)"
  shows "seg (nx(e := h, pv h := e)) (pv(e := pv h, h := e)) h (xs @ [e]) h"
proof -
  have p: "pv h = last (h # xs)" using seg_ends [OF s] by simp
  have lin: "last (h # xs) \<in> set (h # xs)" by (rule last_in_set) simp
  have "seg (nx(e := h, pv h := e)) (pv(e := pv h, h := e)) h xs e"
    using d e p lin by (intro seg_retarget [OF s]) auto
  moreover have "pv h \<noteq> e" using p lin e by auto
  ultimately show ?thesis using e by (auto simp: seg_append)
qed

lemmas node_access = get_next_def get_prev_def set_next_def set_prev_def

lemma node_live_update [simp]:
  "node_live (c\<lparr>lc_next := nx\<rparr>) e = node_live c e" "node_live (c\<lparr>lc_prev := pv\<rparr>) e = node_live c e"
  by (cases e; simp add: node_live_def)+

lemma node_live_simps [simp]:
  "node_live c (Entry a) \<longleftrightarrow> lc_heap c a \<noteq> None" "node_live c Lru_head" "node_live c In_use_head" "\<not> node_live c Null"
  by (simp_all add: node_live_def)

lemma LRU_Append_eq:
  assumes "list \<noteq> Entry a" "node_live c list" "lc_prev c list \<noteq> Entry a" "lc_heap c a \<noteq> None" "node_live c (lc_prev c list)"
  shows "LRU_Append list a c = Some (c\<lparr>lc_next := (lc_next c)(Entry a := list, lc_prev c list := Entry a),
    lc_prev := (lc_prev c)(Entry a := lc_prev c list, list := Entry a)\<rparr>)"
  using assms by (simp add: LRU_Append_def node_access Let_def)

lemma LRU_Remove_eq:
  assumes "lc_heap c a \<noteq> None" "node_live c (lc_next c (Entry a))" "node_live c (lc_prev c (Entry a))" "lc_next c (Entry a) \<noteq> Entry a"
  shows "LRU_Remove a c = Some (c\<lparr>lc_next := (lc_next c)(lc_prev c (Entry a) := lc_next c (Entry a)),
    lc_prev := (lc_prev c)(lc_next c (Entry a) := lc_prev c (Entry a))\<rparr>)"
  using assms by (simp add: LRU_Remove_def node_access Let_def)

text \<open>The two lists of a cache.\<close>

definition rings :: "('v, 'd) LRUCache \<Rightarrow> nat list \<Rightarrow> nat list \<Rightarrow> bool" where
  "rings c L U \<longleftrightarrow>
     seg (lc_next c) (lc_prev c) Lru_head (map Entry L) Lru_head
     \<and> seg (lc_next c) (lc_prev c) In_use_head (map Entry U) In_use_head \<and> distinct (L @ U)"

lemma rings_frame: "rings c L U \<Longrightarrow> lc_next c' = lc_next c \<Longrightarrow> lc_prev c' = lc_prev c \<Longrightarrow> rings c' L U"
  by (simp add: rings_def)

lemma distinct_Entry [simp]: "distinct (map Entry xs) \<longleftrightarrow> distinct xs"
  by (simp add: distinct_map inj_on_def)

lemma seg_member:
  assumes "seg nx pv h (map Entry xs) h" "a \<in> set xs" "h \<noteq> Entry a" "distinct (h # map Entry xs)"
  shows "nx (Entry a) \<in> set (h # map Entry xs)" "pv (Entry a) \<in> set (h # map Entry xs)" "nx (Entry a) \<noteq> Entry a"
proof -
  obtain ys zs where xs: "xs = ys @ a # zs" using assms(2) by (auto simp: in_set_conv_decomp)
  have 1: "seg nx pv h (map Entry ys) (Entry a)" and 2: "seg nx pv (Entry a) (map Entry zs) h"
    using assms(1) by (simp_all add: xs seg_append)
  have "last (h # map Entry ys) \<in> set (h # map Entry ys)" by (rule last_in_set) simp
  then show "pv (Entry a) \<in> set (h # map Entry xs)" using seg_ends [OF 1] by (auto simp: xs)
  have "hd (map Entry zs @ [h]) \<in> set (map Entry zs @ [h])" by (rule hd_in_set) simp
  then show "nx (Entry a) \<in> set (h # map Entry xs)" using seg_ends [OF 2] by (auto simp: xs)
  show "nx (Entry a) \<noteq> Entry a" using seg_ends [OF 2] assms(3,4) by (cases zs) (auto simp: xs)
qed

lemma rings_members:
  assumes "rings c L U" "a \<in> set (L @ U)"
  shows "lc_next c (Entry a) \<in> {Lru_head, In_use_head} \<union> Entry ` set (L @ U)"
    "lc_prev c (Entry a) \<in> {Lru_head, In_use_head} \<union> Entry ` set (L @ U)" "lc_next c (Entry a) \<noteq> Entry a"
  using assms seg_member [of "lc_next c" "lc_prev c" Lru_head L a] seg_member [of "lc_next c" "lc_prev c" In_use_head U a]
  by (auto simp: rings_def)

lemma rings_heads:
  assumes "rings c L U"
  shows "lc_prev c Lru_head \<in> {Lru_head} \<union> Entry ` set L" "lc_prev c In_use_head \<in> {In_use_head} \<union> Entry ` set U"
    "lc_next c Lru_head = (case L of [] \<Rightarrow> Lru_head | a # _ \<Rightarrow> Entry a)"
    "lc_next c In_use_head = (case U of [] \<Rightarrow> In_use_head | a # _ \<Rightarrow> Entry a)"
proof -
  have 1: "seg (lc_next c) (lc_prev c) Lru_head (map Entry L) Lru_head"
    and 2: "seg (lc_next c) (lc_prev c) In_use_head (map Entry U) In_use_head" using assms by (simp_all add: rings_def)
  show "lc_prev c Lru_head \<in> {Lru_head} \<union> Entry ` set L" "lc_prev c In_use_head \<in> {In_use_head} \<union> Entry ` set U"
    using seg_prev [OF 1] seg_prev [OF 2] by simp_all
  show "lc_next c Lru_head = (case L of [] \<Rightarrow> Lru_head | a # _ \<Rightarrow> Entry a)" using 1 by (cases L) simp_all
  show "lc_next c In_use_head = (case U of [] \<Rightarrow> In_use_head | a # _ \<Rightarrow> Entry a)" using 2 by (cases U) simp_all
qed

text \<open>Removing an entry from the list it is on, and appending one that is on none. Links of other
  entries than those on the lists stay.\<close>

lemma rings_remove:
  assumes r: "rings c L U" and a: "a \<in> set (L @ U)" and live: "\<And>b. b \<in> set (L @ U) \<Longrightarrow> lc_heap c b \<noteq> None"
  shows "\<exists>nx pv. LRU_Remove a c = Some (c\<lparr>lc_next := nx, lc_prev := pv\<rparr>)
    \<and> rings (c\<lparr>lc_next := nx, lc_prev := pv\<rparr>) (remove1 a L) (remove1 a U)
    \<and> (\<forall>b. b \<notin> set L - {a} \<union> (set U - {a}) \<longrightarrow> nx (Entry b) = lc_next c (Entry b))"
proof -
  let ?nx = "(lc_next c)(lc_prev c (Entry a) := lc_next c (Entry a))"
  let ?pv = "(lc_prev c)(lc_next c (Entry a) := lc_prev c (Entry a))"
  have d: "distinct (L @ U)" and l: "seg (lc_next c) (lc_prev c) Lru_head (map Entry L) Lru_head"
    and u: "seg (lc_next c) (lc_prev c) In_use_head (map Entry U) In_use_head" using r by (simp_all add: rings_def)
  have eq: "LRU_Remove a c = Some (c\<lparr>lc_next := ?nx, lc_prev := ?pv\<rparr>)"
    using rings_members [OF r a] live a by (intro LRU_Remove_eq) auto
  have goal: "rings (c\<lparr>lc_next := ?nx, lc_prev := ?pv\<rparr>) (remove1 a L) (remove1 a U)
      \<and> lc_prev c (Entry a) \<in> {Lru_head, In_use_head} \<union> Entry ` (set L - {a} \<union> (set U - {a}))"
  proof (cases "a \<in> set L")
    case True
    then obtain ys zs where L: "L = ys @ a # zs" by (auto simp: in_set_conv_decomp)
    have s: "seg (lc_next c) (lc_prev c) Lru_head (map Entry ys @ Entry a # map Entry zs) Lru_head" using l L by simp
    have na: "a \<notin> set ys" "a \<notin> set zs" "a \<notin> set U" using d L by auto
    have "seg ?nx ?pv Lru_head (map Entry ys @ map Entry zs) Lru_head"
      by (rule seg_remove [OF s]) (use d L in auto)
    moreover have m: "lc_prev c (Entry a) \<in> set (Lru_head # map Entry L)" "lc_next c (Entry a) \<in> set (Lru_head # map Entry L)"
      "lc_prev c (Entry a) \<noteq> Entry a"
      using seg_member(1,2) [OF l True] d seg_prev [OF s [unfolded seg_append, THEN conjunct1]] na by auto
    have "seg ?nx ?pv In_use_head (map Entry U) In_use_head"
      by (rule seg_cong [OF u]) (use m d in auto)
    ultimately show ?thesis using na m d L by (auto simp: rings_def remove1_append remove1_idem)
  next
    case False
    then have au: "a \<in> set U" using a by simp
    then obtain ys zs where U: "U = ys @ a # zs" by (auto simp: in_set_conv_decomp)
    have s: "seg (lc_next c) (lc_prev c) In_use_head (map Entry ys @ Entry a # map Entry zs) In_use_head" using u U by simp
    have na: "a \<notin> set ys" "a \<notin> set zs" "a \<notin> set L" using d U by auto
    have "seg ?nx ?pv In_use_head (map Entry ys @ map Entry zs) In_use_head"
      by (rule seg_remove [OF s]) (use d U in auto)
    moreover have m: "lc_prev c (Entry a) \<in> set (In_use_head # map Entry U)" "lc_next c (Entry a) \<in> set (In_use_head # map Entry U)"
      "lc_prev c (Entry a) \<noteq> Entry a"
      using seg_member(1,2) [OF u au] d seg_prev [OF s [unfolded seg_append, THEN conjunct1]] na by auto
    have "seg ?nx ?pv Lru_head (map Entry L) Lru_head"
      by (rule seg_cong [OF l]) (use m d in auto)
    ultimately show ?thesis using na m d U by (auto simp: rings_def remove1_append remove1_idem)
  qed
  then have "\<forall>b. b \<notin> set L - {a} \<union> (set U - {a}) \<longrightarrow> ?nx (Entry b) = lc_next c (Entry b)" by auto
  then show ?thesis using eq goal by blast
qed

lemma rings_append:
  assumes r: "rings c L U" and a: "a \<notin> set (L @ U)" and live: "\<And>b. b \<in> insert a (set (L @ U)) \<Longrightarrow> lc_heap c b \<noteq> None"
  shows "\<exists>nx pv. LRU_Append Lru_head a c = Some (c\<lparr>lc_next := nx, lc_prev := pv\<rparr>)
      \<and> rings (c\<lparr>lc_next := nx, lc_prev := pv\<rparr>) (L @ [a]) U
      \<and> (\<forall>b. b \<notin> set L \<union> set U \<union> {a} \<longrightarrow> nx (Entry b) = lc_next c (Entry b))"
    "\<exists>nx pv. LRU_Append In_use_head a c = Some (c\<lparr>lc_next := nx, lc_prev := pv\<rparr>)
      \<and> rings (c\<lparr>lc_next := nx, lc_prev := pv\<rparr>) L (U @ [a])
      \<and> (\<forall>b. b \<notin> set L \<union> set U \<union> {a} \<longrightarrow> nx (Entry b) = lc_next c (Entry b))"
proof -
  have d: "distinct (L @ U)" and l: "seg (lc_next c) (lc_prev c) Lru_head (map Entry L) Lru_head"
    and u: "seg (lc_next c) (lc_prev c) In_use_head (map Entry U) In_use_head" using r by (simp_all add: rings_def)
  note h = rings_heads [OF r]
  show "\<exists>nx pv. LRU_Append Lru_head a c = Some (c\<lparr>lc_next := nx, lc_prev := pv\<rparr>)
      \<and> rings (c\<lparr>lc_next := nx, lc_prev := pv\<rparr>) (L @ [a]) U
      \<and> (\<forall>b. b \<notin> set L \<union> set U \<union> {a} \<longrightarrow> nx (Entry b) = lc_next c (Entry b))"
  proof (intro exI conjI)
    let ?nx = "(lc_next c)(Entry a := Lru_head, lc_prev c Lru_head := Entry a)"
    let ?pv = "(lc_prev c)(Entry a := lc_prev c Lru_head, Lru_head := Entry a)"
    show "LRU_Append Lru_head a c = Some (c\<lparr>lc_next := ?nx, lc_prev := ?pv\<rparr>)"
      using h(1) a live by (intro LRU_Append_eq) auto
    have "seg ?nx ?pv Lru_head (map Entry L @ [Entry a]) Lru_head" by (rule seg_insert [OF l]) (use d a in auto)
    moreover have "seg ?nx ?pv In_use_head (map Entry U) In_use_head"
      by (rule seg_cong [OF u]) (use d h(1) a in auto)
    ultimately show "rings (c\<lparr>lc_next := ?nx, lc_prev := ?pv\<rparr>) (L @ [a]) U" using d a by (simp add: rings_def)
    show "\<forall>b. b \<notin> set L \<union> set U \<union> {a} \<longrightarrow> ?nx (Entry b) = lc_next c (Entry b)" using h(1) by auto
  qed
  show "\<exists>nx pv. LRU_Append In_use_head a c = Some (c\<lparr>lc_next := nx, lc_prev := pv\<rparr>)
      \<and> rings (c\<lparr>lc_next := nx, lc_prev := pv\<rparr>) L (U @ [a])
      \<and> (\<forall>b. b \<notin> set L \<union> set U \<union> {a} \<longrightarrow> nx (Entry b) = lc_next c (Entry b))"
  proof (intro exI conjI)
    let ?nx = "(lc_next c)(Entry a := In_use_head, lc_prev c In_use_head := Entry a)"
    let ?pv = "(lc_prev c)(Entry a := lc_prev c In_use_head, In_use_head := Entry a)"
    show "LRU_Append In_use_head a c = Some (c\<lparr>lc_next := ?nx, lc_prev := ?pv\<rparr>)"
      using h(2) a live by (intro LRU_Append_eq) auto
    have "seg ?nx ?pv In_use_head (map Entry U @ [Entry a]) In_use_head" by (rule seg_insert [OF u]) (use d a in auto)
    moreover have "seg ?nx ?pv Lru_head (map Entry L) Lru_head"
      by (rule seg_cong [OF l]) (use d h(2) a in auto)
    ultimately show "rings (c\<lparr>lc_next := ?nx, lc_prev := ?pv\<rparr>) L (U @ [a])" using d a by (auto simp: rings_def)
    show "\<forall>b. b \<notin> set L \<union> set U \<union> {a} \<longrightarrow> ?nx (Entry b) = lc_next c (Entry b)" using h(2) by auto
  qed
qed

subsection \<open>The hash table\<close>

lemma bucket_less:
  assumes "0 < len"
  shows "bucket_of hash len < unat len"
proof -
  have "len \<noteq> 0" using assms by auto
  then have "unat (len - 1) < unat len" by (rule measure_unat)
  moreover have "hash AND (len - 1) \<le> len - 1" by (rule word_and_le1)
  ultimately show ?thesis unfolding bucket_of_def word_le_nat_alt by linarith
qed

text \<open>\<open>D\<close> gives the data an address was allocated with. The table holds the addresses \<open>T\<close>, no two
  with the same hash and key.\<close>

definition table_ok :: "HandleTable \<Rightarrow> (nat \<Rightarrow> ('v, 'd) LRUHandle) \<Rightarrow> nat set \<Rightarrow> bool" where
  "table_ok t D T \<longleftrightarrow>
     0 < ht_length t \<and> length (ht_list t) = unat (ht_length t)
     \<and> (\<forall>i < length (ht_list t). \<forall>a \<in> set (ht_list t ! i). bucket_of (lh_hash (D a)) (ht_length t) = i)
     \<and> finite T \<and> mset (concat (ht_list t)) = mset_set T \<and> ht_elems t = word_of_nat (card T)
     \<and> inj_on (\<lambda>a. (lh_hash (D a), lh_key (D a))) T"

definition stored :: "('v, 'd) LRUCache \<Rightarrow> (nat \<Rightarrow> ('v, 'd) LRUHandle) \<Rightarrow> nat set \<Rightarrow> bool" where
  "stored c D T \<longleftrightarrow>
     (\<forall>a \<in> T. lc_next c (Entry a) \<noteq> Entry a \<and> (\<exists>h. lc_heap c a = Some h \<and> lh_hash h = lh_hash (D a) \<and> lh_key h = lh_key (D a)))"

definition matches :: "(nat \<Rightarrow> ('v, 'd) LRUHandle) \<Rightarrow> Slice \<Rightarrow> u32 \<Rightarrow> nat \<Rightarrow> bool" where
  "matches D key hash a \<longleftrightarrow> lh_hash (D a) = hash \<and> lh_key (D a) = key"

lemma storedD: "stored c D T \<Longrightarrow> a \<in> T \<Longrightarrow>
   Handle_key c a = Some (lh_key (D a)) \<and> (\<exists>h. lc_heap c a = Some h \<and> lh_hash h = lh_hash (D a))"
  by (auto simp: stored_def Handle_key_def)

lemma find_in_chain_eq:
  "stored c D (set chain) \<Longrightarrow>
   find_in_chain c key hash chain = Some (length (takeWhile (\<lambda>a. \<not> matches D key hash a) chain))"
proof (induction chain)
  case (Cons a chain)
  have "stored c D (set chain)" using Cons.prems by (simp add: stored_def)
  then show ?case using Cons.IH storedD [OF Cons.prems, of a]
    by (auto simp: matches_def Slice_neq_def)
qed simp

lemma mset_concat_update:
  "i < length xs \<Longrightarrow> mset (concat (xs[i := l])) + mset (xs ! i) = mset (concat xs) + mset l"
proof (induction xs arbitrary: i)
  case (Cons x xs)
  then show ?case by (cases i) (auto simp: algebra_simps)
qed simp

lemma table_chain:
  assumes t: "table_ok t D T" and i: "i < length (ht_list t)"
  shows "set (ht_list t ! i) \<subseteq> T" "distinct (ht_list t ! i)"
proof -
  have m: "mset (concat (ht_list t)) = mset_set T" "finite T" using t by (simp_all add: table_ok_def)
  have "set (concat (ht_list t)) = T" using arg_cong [OF m(1), of set_mset] m(2) by simp
  then show "set (ht_list t ! i) \<subseteq> T" using nth_mem [OF i] by auto
  have "mset (ht_list t ! i) \<subseteq># mset_set T"
    using mset_concat_update [OF i, of "[]"] m(1) by (simp add: mset_subset_eq_exists_conv) (metis add.commute)
  then have "count (mset (ht_list t ! i)) a \<le> 1" for a
    using m(2) mset_subset_eq_count [of "mset (ht_list t ! i)" "mset_set T" a] count_mset_set(1,3)
    by (metis count_mset_set' le_trans zero_le_one order_refl)
  then show "distinct (ht_list t ! i)"
    by (simp add: distinct_count_atmost_1 le_Suc_eq)
qed

lemma table_member:
  assumes t: "table_ok t D T" and a: "a \<in> T"
  shows "a \<in> set (ht_list t ! bucket_of (lh_hash (D a)) (ht_length t))"
proof -
  have m: "mset (concat (ht_list t)) = mset_set T" "finite T" using t by (simp_all add: table_ok_def)
  have "a \<in> set (concat (ht_list t))" using arg_cong [OF m(1), of set_mset] m(2) a by simp
  then obtain i where "i < length (ht_list t)" "a \<in> set (ht_list t ! i)" by (auto simp: in_set_conv_nth [of _ "ht_list t"])
  then show ?thesis using t by (auto simp: table_ok_def)
qed

text \<open>What \<open>FindPointer\<close> finds: the place of the one entry that matches, or the end of the chain.\<close>

lemma FindPointer_eq:
  fixes key hash
  assumes t: "table_ok (lc_table c) D T" and s: "stored c D T"
  defines "i \<equiv> bucket_of hash (ht_length (lc_table c))"
  defines "chain \<equiv> ht_list (lc_table c) ! i"
  shows "(\<exists>a ys zs. FindPointer c key hash = Some (i, length ys) \<and> chain = ys @ a # zs \<and> a \<in> T \<and> matches D key hash a
        \<and> (\<forall>b \<in> T. matches D key hash b \<longrightarrow> b = a))
    \<or> FindPointer c key hash = Some (i, length chain) \<and> (\<forall>b \<in> T. \<not> matches D key hash b)"
proof -
  have il: "i < length (ht_list (lc_table c))" using t bucket_less by (simp add: i_def table_ok_def)
  note sub = table_chain(1) [OF t il]
  have "stored c D (set chain)" using s sub by (auto simp: stored_def chain_def)
  from find_in_chain_eq [OF this]
  have f: "FindPointer c key hash = Some (i, length (takeWhile (\<lambda>a. \<not> matches D key hash a) chain))"
    by (simp add: FindPointer_def Let_def i_def [symmetric] chain_def [symmetric])
  have inj: "a = b" if "a \<in> T" "b \<in> T" "matches D key hash a" "matches D key hash b" for a b
    using t that unfolding table_ok_def inj_on_def matches_def by auto
  show ?thesis
  proof (cases "\<exists>a \<in> set chain. matches D key hash a")
    case True
    let ?ys = "takeWhile (\<lambda>a. \<not> matches D key hash a) chain" and ?r = "dropWhile (\<lambda>a. \<not> matches D key hash a) chain"
    have "?r \<noteq> []" using True by (simp add: dropWhile_eq_Nil_conv)
    then have "matches D key hash (hd ?r)" "?r = hd ?r # tl ?r" using hd_dropWhile [of "\<lambda>a. \<not> matches D key hash a" chain] by auto
    moreover have "chain = ?ys @ ?r" by simp
    ultimately have "chain = ?ys @ hd ?r # tl ?r" "hd ?r \<in> T" using sub unfolding chain_def by (metis, metis in_set_conv_decomp subsetD)
    then show ?thesis using f inj \<open>matches D key hash (hd ?r)\<close> by blast
  next
    case False
    then have "takeWhile (\<lambda>a. \<not> matches D key hash a) chain = chain" by (simp add: takeWhile_eq_all_conv)
    moreover have "\<not> matches D key hash b" if "b \<in> T" for b
      using table_member [OF t that] False unfolding chain_def i_def matches_def by auto
    ultimately show ?thesis using f by metis
  qed
qed

lemma HandleTable_Lookup_eq:
  assumes "table_ok (lc_table c) D T" "stored c D T"
  shows "\<exists>r. HandleTable_Lookup c key hash = Some r
    \<and> (case r of None \<Rightarrow> \<forall>b \<in> T. \<not> matches D key hash b | Some a \<Rightarrow> a \<in> T \<and> matches D key hash a)"
proof -
  let ?i = "bucket_of hash (ht_length (lc_table c))"
  from FindPointer_eq [OF assms, of key hash] consider
    (found) a ys zs where "FindPointer c key hash = Some (?i, length ys)" "ht_list (lc_table c) ! ?i = ys @ a # zs"
      "a \<in> T" "matches D key hash a"
    | (none) "FindPointer c key hash = Some (?i, length (ht_list (lc_table c) ! ?i))" "\<forall>b \<in> T. \<not> matches D key hash b"
    by blast
  then show ?thesis by cases (simp_all add: HandleTable_Lookup_def pointed_def)
qed

text \<open>Replacing one chain.\<close>

lemma table_ok_update:
  assumes t: "table_ok t D T" and i: "i < length (ht_list t)" and T': "finite T'"
    and m: "mset_set T' + mset (ht_list t ! i) = mset_set T + mset l"
    and l: "\<forall>a \<in> set l. bucket_of (lh_hash (D' a)) (ht_length t) = i" and D: "\<forall>a \<in> T. D' a = D a"
    and inj: "inj_on (\<lambda>a. (lh_hash (D' a), lh_key (D' a))) T'"
  shows "table_ok (t\<lparr>ht_list := (ht_list t)[i := l], ht_elems := word_of_nat (card T')\<rparr>) D' T'"
proof -
  have "mset (concat ((ht_list t)[i := l])) + mset (ht_list t ! i) = mset_set T' + mset (ht_list t ! i)"
    using mset_concat_update [OF i, of l] t m by (simp add: table_ok_def)
  then have "mset (concat ((ht_list t)[i := l])) = mset_set T'" by simp
  moreover have "bucket_of (lh_hash (D' a)) (ht_length t) = j"
    if "j < length (ht_list t)" "a \<in> set ((ht_list t)[i := l] ! j)" for j a
  proof (cases "j = i")
    case True
    then show ?thesis using that l i by simp
  next
    case False
    then have a: "a \<in> set (ht_list t ! j)" using that by simp
    then have "a \<in> T" using table_chain(1) [OF t that(1)] by blast
    then show ?thesis using a that(1) t D by (simp add: table_ok_def)
  qed
  ultimately show ?thesis using t T' inj by (simp add: table_ok_def)
qed

lemma HandleTable_Remove_eq:
  assumes t: "table_ok (lc_table c) D T" and s: "stored c D T"
  shows "(\<exists>a t'. HandleTable_Remove key hash c = Some (Some a, c\<lparr>lc_table := t'\<rparr>) \<and> a \<in> T \<and> matches D key hash a
        \<and> table_ok t' D (T - {a}))
    \<or> HandleTable_Remove key hash c = Some (None, c) \<and> (\<forall>b \<in> T. \<not> matches D key hash b)"
proof -
  let ?t = "lc_table c" and ?i = "bucket_of hash (ht_length (lc_table c))"
  have i: "?i < length (ht_list ?t)" using t bucket_less by (simp add: table_ok_def)
  from FindPointer_eq [OF t s, of key hash] consider
    (found) a ys zs where "FindPointer c key hash = Some (?i, length ys)" "ht_list ?t ! ?i = ys @ a # zs" "a \<in> T" "matches D key hash a"
    | (none) "FindPointer c key hash = Some (?i, length (ht_list ?t ! ?i))" "\<forall>b \<in> T. \<not> matches D key hash b"
    by blast
  then show ?thesis
  proof cases
    case found
    have fin: "finite T" using t by (simp add: table_ok_def)
    then have card: "card T = Suc (card (T - {a}))" using card.remove [OF fin found(3)] by simp
    let ?t' = "?t\<lparr>ht_list := (ht_list ?t)[?i := ys @ zs], ht_elems := word_of_nat (card (T - {a}))\<rparr>"
    have "table_ok ?t' D (T - {a})"
    proof (rule table_ok_update [OF t i])
      show "mset_set (T - {a}) + mset (ht_list ?t ! ?i) = mset_set T + mset (ys @ zs)"
        using fin found(2,3) mset_set.remove [OF fin found(3)] by simp
      show "\<forall>b \<in> set (ys @ zs). bucket_of (lh_hash (D b)) (ht_length ?t) = ?i"
        using t i found(2) by (auto simp: table_ok_def)
      show "inj_on (\<lambda>a. (lh_hash (D a), lh_key (D a))) (T - {a})" using t by (auto simp: table_ok_def intro: inj_on_diff)
    qed (use fin in auto)
    moreover have "ht_elems ?t - 1 = word_of_nat (card (T - {a}))" using t card by (simp add: table_ok_def)
    ultimately show ?thesis using found
      by (auto simp: HandleTable_Remove_def pointed_def Let_def)
  next
    case none
    then show ?thesis by (simp add: HandleTable_Remove_def pointed_def Let_def)
  qed
qed

lemma resize_length_eq:
  assumes "unat elems \<le> 2 ^ 31"
  shows "2 \<le> j \<Longrightarrow> j \<le> 31 \<Longrightarrow> \<exists>n. resize_length (2 ^ j) elems = Some n \<and> 0 < n \<and> elems \<le> n"
proof (induction "31 - j" arbitrary: j rule: less_induct)
  case less
  have p: "unat (2 ^ j :: u32) = 2 ^ j" using less.prems unat_of_nat_u32 [of "2 ^ j"] power_strict_increasing [of j 32 "2 :: nat"] by simp
  show ?case
  proof (cases "(2 ^ j :: u32) < elems")
    case True
    then have "j < 31" using assms less.prems p by (cases "j = 31") (auto simp: word_less_nat_alt)
    then show ?thesis using True less.hyps [of "Suc j"] less.prems
      by (subst resize_length.simps) (simp add: mult.commute)
  next
    case False
    moreover have "0 < (2 ^ j :: u32)" using p by (simp add: word_less_nat_alt)
    ultimately show ?thesis by (subst resize_length.simps) auto
  qed
qed

lemma rehash_eq:
  assumes "0 < new_length"
  shows "(\<forall>a \<in> set as. \<exists>h. heap a = Some h \<and> lh_hash h = lh_hash (D a)) \<Longrightarrow> length new_list = unat new_length \<Longrightarrow>
    (\<forall>i < length new_list. \<forall>a \<in> set (new_list ! i). bucket_of (lh_hash (D a)) new_length = i) \<Longrightarrow>
    \<exists>l. rehash heap new_length as new_list m = Some (l, m + word_of_nat (length as)) \<and> length l = unat new_length
      \<and> (\<forall>i < length l. \<forall>a \<in> set (l ! i). bucket_of (lh_hash (D a)) new_length = i)
      \<and> mset (concat l) = mset (concat new_list) + mset as"
proof (induction as arbitrary: new_list m)
  case (Cons a as)
  obtain h where h: "heap a = Some h" "lh_hash h = lh_hash (D a)" using Cons.prems(1) by auto
  let ?i = "bucket_of (lh_hash h) new_length"
  have i: "?i < length new_list" using bucket_less [OF assms] Cons.prems(2) by simp
  let ?l = "new_list[?i := a # new_list ! ?i]"
  have "\<exists>l. rehash heap new_length as ?l (m + 1) = Some (l, (m + 1) + word_of_nat (length as)) \<and> length l = unat new_length
      \<and> (\<forall>i < length l. \<forall>a \<in> set (l ! i). bucket_of (lh_hash (D a)) new_length = i)
      \<and> mset (concat l) = mset (concat ?l) + mset as"
  proof (rule Cons.IH)
    show "\<forall>j < length ?l. \<forall>b \<in> set (?l ! j). bucket_of (lh_hash (D b)) new_length = j"
      using Cons.prems(3) h(2) i by (auto simp: nth_list_update split: if_splits)
  qed (use Cons.prems in auto)
  moreover have "mset (concat ?l) = mset (concat new_list) + {#a#}"
    using mset_concat_update [OF i, of "a # new_list ! ?i"] by simp
  ultimately show ?case using h(1) by (auto simp: Let_def add.assoc)
qed (auto simp: add.commute)

lemma HandleTable_Resize_eq:
  assumes t: "table_ok t D T" and h: "\<forall>a \<in> T. \<exists>h. heap a = Some h \<and> lh_hash h = lh_hash (D a)" and c: "card T \<le> 2 ^ 31"
  shows "\<exists>t'. HandleTable_Resize heap t = Some t' \<and> table_ok t' D T"
proof -
  let ?as = "concat (ht_list t)"
  have tm: "mset ?as = mset_set T" "finite T" "ht_elems t = word_of_nat (card T)" "length (ht_list t) = unat (ht_length t)"
    "inj_on (\<lambda>a. (lh_hash (D a), lh_key (D a))) T" using t by (simp_all add: table_ok_def)
  have as: "set ?as = T" using arg_cong [OF tm(1), of set_mset] tm(2) by simp
  have len: "length ?as = card T" using arg_cong [OF tm(1), of size] by (metis size_mset size_mset_set)
  have "unat (ht_elems t) \<le> 2 ^ 31" using c tm(3) unat_of_nat_u32 [of "card T"] by simp
  from resize_length_eq [OF this, of 2] obtain n where n: "resize_length 4 (ht_elems t) = Some n" "0 < n" by auto
  have "\<exists>l. rehash heap n ?as (replicate (unat n) []) 0 = Some (l, 0 + word_of_nat (length ?as)) \<and> length l = unat n
      \<and> (\<forall>i < length l. \<forall>a \<in> set (l ! i). bucket_of (lh_hash (D a)) n = i)
      \<and> mset (concat l) = mset (concat (replicate (unat n) [])) + mset ?as"
    by (rule rehash_eq [OF n(2)]) (use h as in auto)
  then obtain l where "rehash heap n ?as (replicate (unat n) []) 0 = Some (l, word_of_nat (card T))" "length l = unat n"
    "\<forall>i < length l. \<forall>a \<in> set (l ! i). bucket_of (lh_hash (D a)) n = i" "mset (concat l) = mset_set T"
    using len tm(1) by (auto simp: concat_replicate_trivial)
  moreover have "take (unat (ht_length t)) (ht_list t) = ht_list t" using tm(4) by simp
  ultimately show ?thesis using n tm by (auto simp: HandleTable_Resize_def table_ok_def)
qed

lemma HandleTable_Insert_eq:
  assumes t: "table_ok (lc_table c) D T" and s: "stored c D (insert a T)" and a: "a \<notin> T" and c: "card T < 2 ^ 31"
  shows "(\<exists>t'. HandleTable_Insert a c = Some (None, c\<lparr>lc_table := t'\<rparr>) \<and> table_ok t' D (insert a T)
        \<and> (\<forall>b \<in> T. \<not> matches D (lh_key (D a)) (lh_hash (D a)) b))
    \<or> (\<exists>old t'. HandleTable_Insert a c = Some (Some old, c\<lparr>lc_table := t'\<rparr>) \<and> old \<in> T
        \<and> matches D (lh_key (D a)) (lh_hash (D a)) old \<and> table_ok t' D (insert a (T - {old})))"
proof -
  let ?t = "lc_table c" and ?h = "lh_hash (D a)" and ?k = "lh_key (D a)"
  let ?i = "bucket_of ?h (ht_length ?t)"
  have i: "?i < length (ht_list ?t)" using t bucket_less by (simp add: table_ok_def)
  have fin: "finite T" and inj: "inj_on (\<lambda>a. (lh_hash (D a), lh_key (D a))) T"
    and el: "ht_elems ?t = word_of_nat (card T)" using t by (simp_all add: table_ok_def)
  have sT: "stored c D T" using s by (simp add: stored_def)
  obtain h where h: "lc_heap c a = Some h" "lh_hash h = ?h" "Handle_key c a = Some ?k" using storedD [OF s] by blast
  from FindPointer_eq [OF t sT, of ?k ?h] consider
    (found) b ys zs where "FindPointer c ?k ?h = Some (?i, length ys)" "ht_list ?t ! ?i = ys @ b # zs" "b \<in> T" "matches D ?k ?h b"
      "\<forall>e \<in> T. matches D ?k ?h e \<longrightarrow> e = b"
    | (none) "FindPointer c ?k ?h = Some (?i, length (ht_list ?t ! ?i))" "\<forall>b \<in> T. \<not> matches D ?k ?h b"
    by blast
  then show ?thesis
  proof cases
    case found
    have card: "card (insert a (T - {b})) = card T" using card.remove [OF fin found(3)] a fin by simp
    let ?t' = "?t\<lparr>ht_list := (ht_list ?t)[?i := ys @ a # zs], ht_elems := word_of_nat (card (insert a (T - {b})))\<rparr>"
    have "table_ok ?t' D (insert a (T - {b}))"
    proof (rule table_ok_update [OF t i])
      show "mset_set (insert a (T - {b})) + mset (ht_list ?t ! ?i) = mset_set T + mset (ys @ a # zs)"
        using fin a found(2,3) mset_set.remove [OF fin found(3)] by simp
      show "\<forall>e \<in> set (ys @ a # zs). bucket_of (lh_hash (D e)) (ht_length ?t) = ?i"
        using t i found(2) by (auto simp: table_ok_def)
      show "inj_on (\<lambda>a. (lh_hash (D a), lh_key (D a))) (insert a (T - {b}))"
        using inj_on_diff [OF inj, of "{b}"] found(5) by (auto simp: matches_def)
    qed (use fin in auto)
    moreover have "?t' = ?t\<lparr>ht_list := (ht_list ?t)[?i := ys @ a # zs]\<rparr>"
      unfolding card el [symmetric] by (cases ?t) simp
    ultimately have "table_ok (?t\<lparr>ht_list := (ht_list ?t)[?i := ys @ a # zs]\<rparr>) D (insert a (T - {b}))" by simp
    moreover have "HandleTable_Insert a c = Some (Some b, c\<lparr>lc_table := ?t\<lparr>ht_list := (ht_list ?t)[?i := ys @ a # zs]\<rparr>\<rparr>)"
      using found(1,2) h by (simp add: HandleTable_Insert_def pointed_def Let_def)
    ultimately show ?thesis using found(3,4) by blast
  next
    case none
    let ?chain = "ht_list ?t ! ?i"
    let ?t' = "?t\<lparr>ht_list := (ht_list ?t)[?i := ?chain @ [a]], ht_elems := word_of_nat (card (insert a T))\<rparr>"
    have ok: "table_ok ?t' D (insert a T)"
    proof (rule table_ok_update [OF t i])
      show "mset_set (insert a T) + mset ?chain = mset_set T + mset (?chain @ [a])" using fin a by simp
      show "\<forall>e \<in> set (?chain @ [a]). bucket_of (lh_hash (D e)) (ht_length ?t) = ?i"
        using t i by (auto simp: table_ok_def)
      show "inj_on (\<lambda>a. (lh_hash (D a), lh_key (D a))) (insert a T)"
        using inj none(2) by (auto simp: matches_def)
    qed (use fin in auto)
    have t': "?t\<lparr>ht_list := (ht_list ?t)[?i := ?chain @ [a]], ht_elems := ht_elems ?t + 1\<rparr> = ?t'"
      using fin a by (simp add: el add.commute)
    have st: "\<forall>b \<in> insert a T. \<exists>h. lc_heap c b = Some h \<and> lh_hash h = lh_hash (D b)" using s by (auto simp: stored_def)
    obtain t'' where tt: "HandleTable_Resize (lc_heap c) ?t' = Some t''" "table_ok t'' D (insert a T)"
      using HandleTable_Resize_eq [OF ok st] c fin a by auto
    have ins: "HandleTable_Insert a c = (if ht_elems ?t' > ht_length ?t'
        then map_option (\<lambda>t. (None, c\<lparr>lc_table := t\<rparr>)) (HandleTable_Resize (lc_heap c) ?t')
        else Some (None, c\<lparr>lc_table := ?t'\<rparr>))"
      unfolding t' [symmetric] using none(1) h by (simp add: HandleTable_Insert_def pointed_def Let_def)
    show ?thesis
    proof (cases "ht_elems ?t' > ht_length ?t'")
      case True
      then have "HandleTable_Insert a c = Some (None, c\<lparr>lc_table := t''\<rparr>)" using ins tt(1) by simp
      then show ?thesis using tt(2) none(2) by blast
    next
      case False
      then have "HandleTable_Insert a c = Some (None, c\<lparr>lc_table := ?t'\<rparr>)" using ins by simp
      then show ?thesis using ok none(2) by blast
    qed
  qed
qed

lemma new_HandleTable_ok: "\<exists>t. new_HandleTable = Some t \<and> table_ok t D {}"
proof -
  obtain n :: u32 where n: "resize_length 4 0 = Some n" "0 < n" using resize_length_eq [of 0 2] by auto
  then show ?thesis
    by (auto simp: new_HandleTable_def HandleTable_Resize_def table_ok_def concat_replicate_trivial)
qed

subsection \<open>Entries and their references\<close>

definition data_of :: "('v, 'd) LRUHandle \<Rightarrow> ('v, 'd) LRUHandle" where
  "data_of h = h\<lparr>lh_refs := 0, lh_in_cache := False\<rparr>"

definition deletion :: "('v, 'd) LRUHandle \<Rightarrow> 'd \<times> Slice \<times> 'v" where
  "deletion h = (lh_deleter h, lh_key h, lh_value h)"

lemma data_of_fields [simp]:
  "lh_value (data_of h) = lh_value h" "lh_deleter (data_of h) = lh_deleter h" "lh_charge (data_of h) = lh_charge h"
  "lh_hash (data_of h) = lh_hash h" "lh_key (data_of h) = lh_key h"
  "data_of (h\<lparr>lh_refs := r\<rparr>) = data_of h" "data_of (h\<lparr>lh_in_cache := b\<rparr>) = data_of h"
  by (simp_all add: data_of_def)

text \<open>\<open>H\<close> counts the handles to an address that clients hold, \<open>L\<close> and \<open>U\<close> are the lists. An entry has
  one reference for each handle and one for the cache; the deleter has run once for every entry that
  is gone.\<close>

definition entry_ok :: "(nat \<Rightarrow> nat) \<Rightarrow> nat set \<Rightarrow> nat \<Rightarrow> ('v, 'd) LRUHandle \<Rightarrow> bool" where
  "entry_ok H S a h \<longleftrightarrow> lh_in_cache h = (a \<in> S) \<and> unat (lh_refs h) = H a + (if a \<in> S then 1 else 0) \<and> lh_refs h \<noteq> 0"

definition freed :: "('v, 'd) LRUCache \<Rightarrow> nat set" where
  "freed c = {a. a < lc_fresh c \<and> lc_heap c a = None}"

definition core :: "('v, 'd) LRUCache \<Rightarrow> (nat \<Rightarrow> nat) \<Rightarrow> nat list \<Rightarrow> nat list \<Rightarrow> (nat \<Rightarrow> ('v, 'd) LRUHandle) \<Rightarrow> bool" where
  "core c H L U D \<longleftrightarrow>
     rings c L U
     \<and> (\<forall>a h. lc_heap c a = Some h \<longrightarrow> a < lc_fresh c \<and> lc_next c (Entry a) \<noteq> Entry a \<and> data_of h = D a
          \<and> entry_ok H (set (L @ U)) a h)
     \<and> (\<forall>a. lc_heap c a = None \<longrightarrow> H a = 0 \<and> a \<notin> set (L @ U))
     \<and> (\<forall>a \<in> set L. H a = 0) \<and> (\<forall>a \<in> set U. 0 < H a)
     \<and> mset (lc_deleted c) = image_mset (\<lambda>a. deletion (D a)) (mset_set (freed c))"

lemma coreD:
  assumes "core c H L U D"
  shows "rings c L U" "lc_heap c a = Some h \<Longrightarrow> a < lc_fresh c" "lc_heap c a = Some h \<Longrightarrow> lc_next c (Entry a) \<noteq> Entry a"
    "lc_heap c a = Some h \<Longrightarrow> data_of h = D a" "lc_heap c a = Some h \<Longrightarrow> entry_ok H (set (L @ U)) a h"
    "lc_heap c a = None \<Longrightarrow> H a = 0" "lc_heap c a = None \<Longrightarrow> a \<notin> set (L @ U)"
    "a \<in> set L \<Longrightarrow> H a = 0" "a \<in> set U \<Longrightarrow> 0 < H a"
    "mset (lc_deleted c) = image_mset (\<lambda>a. deletion (D a)) (mset_set (freed c))"
  using assms unfolding core_def by blast+

text \<open>Everything but the lists and one entry stays.\<close>

definition frame :: "('v, 'd) LRUCache \<Rightarrow> ('v, 'd) LRUCache \<Rightarrow> bool" where
  "frame c c' \<longleftrightarrow> lc_capacity c' = lc_capacity c \<and> lc_usage c' = lc_usage c \<and> lc_fresh c' = lc_fresh c \<and> lc_table c' = lc_table c"

lemma core_put:
  assumes c: "core c H L U D" and h: "lc_heap c a = Some h" and d: "data_of h' = D a"
    and n: "lc_heap c' = (lc_heap c)(a \<mapsto> h')" "lc_deleted c' = lc_deleted c" "lc_fresh c' = lc_fresh c"
    and r: "rings c' L' U'" "set (L' @ U') = S" "\<And>b. b \<noteq> a \<Longrightarrow> b \<in> S \<longleftrightarrow> b \<in> set (L @ U)"
    and H: "\<And>b. b \<noteq> a \<Longrightarrow> H' b = H b" and e: "entry_ok H' S a h'"
    and lu: "\<And>b. b \<in> set L' \<Longrightarrow> b \<noteq> a \<Longrightarrow> b \<in> set L" "\<And>b. b \<in> set U' \<Longrightarrow> b \<noteq> a \<Longrightarrow> b \<in> set U"
      "a \<in> set L' \<Longrightarrow> H' a = 0" "a \<in> set U' \<Longrightarrow> 0 < H' a"
    and nx: "\<And>b. b \<notin> S \<Longrightarrow> lc_next c' (Entry b) = lc_next c (Entry b)"
  shows "core c' H' L' U' D"
proof -
  note cd = coreD [OF c]
  have next_ok: "lc_next c' (Entry b) \<noteq> Entry b" if "lc_heap c b \<noteq> None" for b
    using that cd(3) nx [of b] rings_members(3) [OF r(1), of b] r(2) by (cases "b \<in> S") auto
  have entries: "b < lc_fresh c' \<and> lc_next c' (Entry b) \<noteq> Entry b \<and> data_of g = D b \<and> entry_ok H' (set (L' @ U')) b g"
    if g: "lc_heap c' b = Some g" for b g
  proof (cases "b = a")
    case True
    then show ?thesis using g n h d e r(2) cd(2) [OF h] next_ok [of a] by simp
  next
    case False
    then have g': "lc_heap c b = Some g" using g n(1) by simp
    then have "entry_ok H' (set (L' @ U')) b g" using cd(5) [OF g'] r(2) r(3) [of b] H [OF False] False by (simp add: entry_ok_def)
    then show ?thesis using cd(2) [OF g'] cd(4) [OF g'] next_ok [of b] g' n(3) by simp
  qed
  have none: "H' b = 0 \<and> b \<notin> set (L' @ U')" if "lc_heap c' b = None" for b
  proof -
    have "b \<noteq> a" "lc_heap c b = None" using that n(1) by (auto split: if_splits)
    then show ?thesis using cd(6,7) [of b] H [of b] r(2) r(3) [of b] by simp
  qed
  have "freed c' = freed c" using n h by (auto simp: freed_def)
  then have "mset (lc_deleted c') = image_mset (\<lambda>a. deletion (D a)) (mset_set (freed c'))" using cd(10) n(2) by simp
  moreover have "H' b = 0" if "b \<in> set L'" for b using that lu(1,3) cd(8) H by (cases "b = a") auto
  moreover have "0 < H' b" if "b \<in> set U'" for b using that lu(2,4) cd(9) H by (cases "b = a") auto
  ultimately show ?thesis unfolding core_def using entries none r(1) by blast
qed

lemma unat_inc: "Suc (unat (x :: u32)) < 2 ^ 32 \<Longrightarrow> unat (x + 1) = Suc (unat x)"
  by (simp add: unat_word_ariths)

lemma unat_dec: "(x :: u32) \<noteq> 0 \<Longrightarrow> unat (x - 1) = unat x - 1"
  using unat_minus_one [of x] by simp

lemma unat_one_iff: "unat (x :: u32) = 1 \<longleftrightarrow> x = 1"
  using word_unat_eq_iff [of x 1] by simp

lemma LRU_Ref_core:
  assumes c: "core c H L U D" and h: "lc_heap c a = Some h" and b: "H a + 2 < 2 ^ 32"
  shows "\<exists>c' L' U'. LRU_Ref a c = Some c' \<and> core c' (H(a := Suc (H a))) L' U' D \<and> set (L' @ U') = set (L @ U) \<and> frame c c'"
proof -
  note cd = coreD [OF c]
  have e: "entry_ok H (set (L @ U)) a h" by (rule cd(5) [OF h])
  let ?h = "h\<lparr>lh_refs := lh_refs h + 1\<rparr>" and ?H = "H(a := Suc (H a))"
  have "unat (lh_refs h) \<le> Suc (H a)" using e by (auto simp: entry_ok_def)
  then have "unat (lh_refs h + 1) = Suc (unat (lh_refs h))" using b by (intro unat_inc) linarith
  then have e': "entry_ok ?H (set (L @ U)) a ?h" using e by (auto simp: entry_ok_def)
  show ?thesis
  proof (cases "lh_refs h = 1 \<and> lh_in_cache h")
    case True
    then have a: "a \<in> set (L @ U)" "H a = 0" using e by (auto simp: entry_ok_def)
    then have aL: "a \<in> set L" "a \<notin> set U" using cd(9) by fastforce+
    have d: "distinct (L @ U)" using cd(1) by (simp add: rings_def)
    have live: "lc_heap c b \<noteq> None" if "b \<in> set (L @ U)" for b using that cd(7) by blast
    obtain nx pv where 1: "LRU_Remove a c = Some (c\<lparr>lc_next := nx, lc_prev := pv\<rparr>)"
      "rings (c\<lparr>lc_next := nx, lc_prev := pv\<rparr>) (remove1 a L) (remove1 a U)"
      "\<forall>b. b \<notin> set L - {a} \<union> (set U - {a}) \<longrightarrow> nx (Entry b) = lc_next c (Entry b)"
      using rings_remove [OF cd(1) a(1) live] by blast
    have r1: "remove1 a U = U" using aL by (simp add: remove1_idem)
    have na: "a \<notin> set (remove1 a L @ remove1 a U)" using d aL by simp
    have live': "lc_heap (c\<lparr>lc_next := nx, lc_prev := pv\<rparr>) b \<noteq> None" if "b \<in> insert a (set (remove1 a L @ remove1 a U))" for b
      using that live a(1) set_remove1_subset [of a] by fastforce
    obtain nx2 pv2 where 2:
      "LRU_Append In_use_head a (c\<lparr>lc_next := nx, lc_prev := pv\<rparr>) = Some (c\<lparr>lc_next := nx2, lc_prev := pv2\<rparr>)"
      "rings (c\<lparr>lc_next := nx2, lc_prev := pv2\<rparr>) (remove1 a L) (U @ [a])"
      "\<forall>b. b \<notin> set (remove1 a L) \<union> set U \<union> {a} \<longrightarrow> nx2 (Entry b) = nx (Entry b)"
      using rings_append(2) [OF 1(2) na live'] unfolding r1 by auto
    have S: "set (remove1 a L @ U @ [a]) = set (L @ U)" using d aL by auto
    have "LRU_Ref a c = Some (put_entry a ?h (c\<lparr>lc_next := nx2, lc_prev := pv2\<rparr>))"
      using h True 1(1) 2(1) by (simp add: LRU_Ref_def)
    moreover have "core (put_entry a ?h (c\<lparr>lc_next := nx2, lc_prev := pv2\<rparr>)) ?H (remove1 a L) (U @ [a]) D"
    proof (rule core_put [OF c h _ _ _ _ _ S])
      show "rings (put_entry a ?h (c\<lparr>lc_next := nx2, lc_prev := pv2\<rparr>)) (remove1 a L) (U @ [a])"
        by (rule rings_frame [OF 2(2)]) (simp_all add: put_entry_def)
      show "lc_next (put_entry a ?h (c\<lparr>lc_next := nx2, lc_prev := pv2\<rparr>)) (Entry b) = lc_next c (Entry b)"
        if "b \<notin> set (L @ U)" for b
        using that 1(3) 2(3) aL d by (auto simp: put_entry_def)
    qed (use cd(4) [OF h] e' d aL in \<open>auto simp: put_entry_def\<close>)
    moreover have "frame c (put_entry a ?h (c\<lparr>lc_next := nx2, lc_prev := pv2\<rparr>))" by (simp add: frame_def put_entry_def)
    ultimately show ?thesis using S by blast
  next
    case False
    have aL: "a \<notin> set L" using False e cd(8) [of a] unat_one_iff [of "lh_refs h"] by (auto simp: entry_ok_def)
    have "LRU_Ref a c = Some (put_entry a ?h c)" using h False by (auto simp: LRU_Ref_def)
    moreover have "core (put_entry a ?h c) ?H L U D"
    proof (rule core_put [OF c h])
      show "rings (put_entry a ?h c) L U" by (rule rings_frame [OF cd(1)]) (simp_all add: put_entry_def)
    qed (use cd(4) [OF h] e' aL in \<open>auto simp: put_entry_def\<close>)
    moreover have "frame c (put_entry a ?h c)" by (simp add: frame_def put_entry_def)
    ultimately show ?thesis by blast
  qed
qed

lemma LRU_Unref_out:
  assumes c: "core c H L U D" and a: "a \<notin> set (L @ U)" "0 < H a"
  shows "\<exists>c'. LRU_Unref a c = Some c' \<and> core c' (H(a := H a - 1)) L U D \<and> frame c c'"
proof -
  note cd = coreD [OF c]
  obtain h where h: "lc_heap c a = Some h" using cd(6) [of a] a(2) by (cases "lc_heap c a") auto
  have e: "entry_ok H (set (L @ U)) a h" by (rule cd(5) [OF h])
  let ?h = "h\<lparr>lh_refs := lh_refs h - 1\<rparr>" and ?H = "H(a := H a - 1)"
  have u: "unat (lh_refs h - 1) = H a - 1" and nc: "\<not> lh_in_cache h" and pos: "0 < lh_refs h" and ur: "unat (lh_refs h) = H a"
    using e a by (auto simp: entry_ok_def unat_dec word_gt_0)
  show ?thesis
  proof (cases "lh_refs h - 1 = 0")
    case True
    then have H0: "H a - 1 = 0" using u by simp
    let ?c = "put_entry a ?h c"
    let ?c' = "?c\<lparr>lc_deleted := lc_deleted c @ [deletion ?h], lc_heap := (lc_heap ?c)(a := None)\<rparr>"
    have k: "Handle_key ?c a = Some (lh_key h)" using cd(3) [OF h] by (simp add: Handle_key_def put_entry_def)
    have "LRU_Unref a c = Some ?c'"
      using h pos True nc k by (simp add: LRU_Unref_def Let_def deletion_def) (simp add: put_entry_def)
    moreover have "core ?c' ?H L U D"
    proof -
      have hp: "lc_heap ?c' = (lc_heap c)(a := None)" "lc_fresh ?c' = lc_fresh c" "lc_next ?c' = lc_next c"
        by (simp_all add: put_entry_def)
      have fr: "freed ?c' = insert a (freed c)" "a \<notin> freed c" "finite (freed c)"
        using h cd(2) [OF h] by (auto simp: freed_def put_entry_def)
      have "rings ?c' L U" by (rule rings_frame [OF cd(1)]) (simp_all add: put_entry_def)
      moreover have "mset (lc_deleted ?c') = image_mset (\<lambda>a. deletion (D a)) (mset_set (freed ?c'))"
        using cd(10) fr cd(4) [OF h, symmetric] by (simp add: put_entry_def deletion_def)
      moreover have "b < lc_fresh ?c' \<and> lc_next ?c' (Entry b) \<noteq> Entry b \<and> data_of g = D b \<and> entry_ok ?H (set (L @ U)) b g"
        if g: "lc_heap ?c' b = Some g" for b g
      proof -
        have "b \<noteq> a" "lc_heap c b = Some g" using g hp(1) by (auto split: if_splits)
        then show ?thesis using cd(2-5) [of b g] hp(2,3) by (simp add: entry_ok_def)
      qed
      moreover have "?H b = 0 \<and> b \<notin> set (L @ U)" if "lc_heap ?c' b = None" for b
        using that hp(1) H0 a(1) cd(6,7) [of b] by (cases "b = a") auto
      ultimately show ?thesis unfolding core_def using cd(8,9) a(1) by auto
    qed
    moreover have "frame c ?c'" by (simp add: frame_def put_entry_def)
    ultimately show ?thesis by blast
  next
    case False
    have e': "entry_ok ?H (set (L @ U)) a ?h" using e a u nc False by (auto simp: entry_ok_def)
    have "LRU_Unref a c = Some (put_entry a ?h c)" using h pos False nc by (simp add: LRU_Unref_def Let_def)
    moreover have "core (put_entry a ?h c) ?H L U D"
    proof (rule core_put [OF c h])
      show "rings (put_entry a ?h c) L U" by (rule rings_frame [OF cd(1)]) (simp_all add: put_entry_def)
    qed (use cd(4) [OF h] e' a in \<open>auto simp: put_entry_def\<close>)
    moreover have "frame c (put_entry a ?h c)" by (simp add: frame_def put_entry_def)
    ultimately show ?thesis by blast
  qed
qed

lemma LRU_Unref_in:
  assumes c: "core c H L U D" and a: "a \<in> set U"
  shows "\<exists>c' L' U'. LRU_Unref a c = Some c' \<and> core c' (H(a := H a - 1)) L' U' D \<and> set (L' @ U') = set (L @ U) \<and> frame c c'"
proof -
  note cd = coreD [OF c]
  have Ha: "0 < H a" using cd(9) a by blast
  obtain h where h: "lc_heap c a = Some h" using cd(6) [of a] Ha by (cases "lc_heap c a") auto
  have e: "entry_ok H (set (L @ U)) a h" by (rule cd(5) [OF h])
  let ?h = "h\<lparr>lh_refs := lh_refs h - 1\<rparr>" and ?H = "H(a := H a - 1)"
  have u: "unat (lh_refs h - 1) = H a" and ic: "lh_in_cache h" and pos: "0 < lh_refs h"
    using e a by (auto simp: entry_ok_def unat_dec word_gt_0)
  have nz: "lh_refs h - 1 \<noteq> 0" using u Ha by (metis less_numeral_extra(3) unat_0)
  have e': "entry_ok ?H (set (L @ U)) a ?h" using e a u nz Ha by (auto simp: entry_ok_def)
  have d: "distinct (L @ U)" and aL: "a \<notin> set L" using cd(1) a by (auto simp: rings_def)
  show ?thesis
  proof (cases "lh_refs h - 1 = 1")
    case True
    then have H1: "H a = 1" using u by simp
    let ?c = "put_entry a ?h c"
    have "rings ?c L U" by (rule rings_frame [OF cd(1)]) (simp_all add: put_entry_def)
    moreover have live: "lc_heap ?c b \<noteq> None" if "b \<in> set (L @ U)" for b
      using that cd(7) by (auto simp: put_entry_def)
    ultimately obtain nx pv where 1: "LRU_Remove a ?c = Some (?c\<lparr>lc_next := nx, lc_prev := pv\<rparr>)"
      "rings (?c\<lparr>lc_next := nx, lc_prev := pv\<rparr>) L (remove1 a U)"
      "\<forall>b. b \<notin> set L - {a} \<union> (set U - {a}) \<longrightarrow> nx (Entry b) = lc_next ?c (Entry b)"
      using rings_remove [of ?c L U a] a aL by (auto simp: remove1_idem)
    have na: "a \<notin> set (L @ remove1 a U)" using d aL by simp
    have live': "lc_heap (?c\<lparr>lc_next := nx, lc_prev := pv\<rparr>) b \<noteq> None" if "b \<in> insert a (set (L @ remove1 a U))" for b
      using that live a set_remove1_subset [of a] by fastforce
    obtain nx2 pv2 where 2:
      "LRU_Append Lru_head a (?c\<lparr>lc_next := nx, lc_prev := pv\<rparr>) = Some (?c\<lparr>lc_next := nx2, lc_prev := pv2\<rparr>)"
      "rings (?c\<lparr>lc_next := nx2, lc_prev := pv2\<rparr>) (L @ [a]) (remove1 a U)"
      "\<forall>b. b \<notin> set L \<union> set (remove1 a U) \<union> {a} \<longrightarrow> nx2 (Entry b) = nx (Entry b)"
      using rings_append(1) [OF 1(2) na live'] by auto
    have S: "set ((L @ [a]) @ remove1 a U) = set (L @ U)" using d a by auto
    have "LRU_Unref a c = Some (?c\<lparr>lc_next := nx2, lc_prev := pv2\<rparr>)"
      using h pos nz ic True 1(1) 2(1) by (simp add: LRU_Unref_def Let_def)
    moreover have "core (?c\<lparr>lc_next := nx2, lc_prev := pv2\<rparr>) ?H (L @ [a]) (remove1 a U) D"
    proof (rule core_put [OF c h _ _ _ _ 2(2) S])
      show "lc_next (?c\<lparr>lc_next := nx2, lc_prev := pv2\<rparr>) (Entry b) = lc_next c (Entry b)" if "b \<notin> set (L @ U)" for b
        using that 1(3) 2(3) a d by (auto simp: put_entry_def)
    qed (use cd(4) [OF h] e' d aL H1 in \<open>auto simp: put_entry_def\<close>)
    moreover have "frame c (?c\<lparr>lc_next := nx2, lc_prev := pv2\<rparr>)" by (simp add: frame_def put_entry_def)
    ultimately show ?thesis using S by blast
  next
    case False
    have H1: "H a \<noteq> 1" using False u by (metis unat_one_iff)
    have "LRU_Unref a c = Some (put_entry a ?h c)" using h pos nz ic False by (simp add: LRU_Unref_def Let_def)
    moreover have "core (put_entry a ?h c) ?H L U D"
    proof (rule core_put [OF c h])
      show "rings (put_entry a ?h c) L U" by (rule rings_frame [OF cd(1)]) (simp_all add: put_entry_def)
    qed (use cd(4) [OF h] e' aL Ha H1 in \<open>auto simp: put_entry_def\<close>)
    moreover have "frame c (put_entry a ?h c)" by (simp add: frame_def put_entry_def)
    ultimately show ?thesis by blast
  qed
qed

lemma FinishErase_core:
  assumes c: "core c H L U D" and a: "a \<in> set (L @ U)"
  shows "\<exists>c'. FinishErase (Some a) c = Some (True, c') \<and> core c' H (remove1 a L) (remove1 a U) D
    \<and> frame (c\<lparr>lc_usage := lc_usage c - lh_charge (D a)\<rparr>) c'"
proof -
  note cd = coreD [OF c]
  obtain h where h: "lc_heap c a = Some h" using cd(7) [of a] a by (cases "lc_heap c a") auto
  have e: "entry_ok H (set (L @ U)) a h" by (rule cd(5) [OF h])
  have d: "distinct (L @ U)" using cd(1) by (simp add: rings_def)
  let ?h = "h\<lparr>lh_in_cache := False\<rparr>" and ?H = "H(a := Suc (H a))"
  obtain nx pv where 1: "LRU_Remove a c = Some (c\<lparr>lc_next := nx, lc_prev := pv\<rparr>)"
    "rings (c\<lparr>lc_next := nx, lc_prev := pv\<rparr>) (remove1 a L) (remove1 a U)"
    "\<forall>b. b \<notin> set L - {a} \<union> (set U - {a}) \<longrightarrow> nx (Entry b) = lc_next c (Entry b)"
    using rings_remove [OF cd(1) a] cd(7) by blast
  let ?c = "(put_entry a ?h (c\<lparr>lc_next := nx, lc_prev := pv\<rparr>))\<lparr>lc_usage := lc_usage c - lh_charge h\<rparr>"
  have na: "a \<notin> set (remove1 a L @ remove1 a U)" using d by (auto simp: set_remove1_eq)
  have sub: "set (remove1 a L) \<subseteq> set L" "set (remove1 a U) \<subseteq> set U" by (simp_all add: set_remove1_subset)
  have "core ?c ?H (remove1 a L) (remove1 a U) D"
  proof (rule core_put [OF c h])
    show "rings ?c (remove1 a L) (remove1 a U)" by (rule rings_frame [OF 1(2)]) (simp_all add: put_entry_def)
    show "entry_ok ?H (set (remove1 a L @ remove1 a U)) a ?h" using e a na by (auto simp: entry_ok_def)
    show "lc_next ?c (Entry b) = lc_next c (Entry b)" if "b \<notin> set (remove1 a L @ remove1 a U)" for b
      using that 1(3) d by (auto simp: put_entry_def set_remove1_eq)
  qed (use cd(4) [OF h] d na sub in \<open>auto simp: put_entry_def set_remove1_eq\<close>)
  from LRU_Unref_out [OF this na] obtain c' where c': "LRU_Unref a ?c = Some c'"
    "core c' (?H(a := ?H a - 1)) (remove1 a L) (remove1 a U) D" "frame ?c c'" by auto
  have "?H(a := ?H a - 1) = H" by auto
  moreover have "FinishErase (Some a) c = Some (True, c')"
    using h e a 1(1) c'(1) by (simp add: FinishErase_def entry_ok_def Let_def put_entry_def)
  moreover have "lh_charge (D a) = lh_charge h" using cd(4) [OF h, symmetric] by simp
  ultimately show ?thesis using c'(2,3) by (auto simp: frame_def put_entry_def)
qed

subsection \<open>The operations of a shard\<close>

definition lru_inv :: "('v, 'd) LRUCache \<Rightarrow> (nat \<Rightarrow> nat) \<Rightarrow> nat list \<Rightarrow> nat list \<Rightarrow> (nat \<Rightarrow> ('v, 'd) LRUHandle) \<Rightarrow> bool" where
  "lru_inv c H L U D \<longleftrightarrow>
     core c H L U D \<and> table_ok (lc_table c) D (set (L @ U)) \<and> lc_usage c = (\<Sum>a \<in> set (L @ U). lh_charge (D a))"

lemma core_stored: "core c H L U D \<Longrightarrow> S \<subseteq> set (L @ U) \<Longrightarrow> stored c D S"
proof -
  assume c: "core c H L U D" and S: "S \<subseteq> set (L @ U)"
  note cd = coreD [OF c]
  show "stored c D S"
    unfolding stored_def
  proof
    fix a assume "a \<in> S"
    then obtain h where h: "lc_heap c a = Some h" using S cd(7) [of a] by (cases "lc_heap c a") auto
    then show "lc_next c (Entry a) \<noteq> Entry a \<and> (\<exists>h. lc_heap c a = Some h \<and> lh_hash h = lh_hash (D a) \<and> lh_key h = lh_key (D a))"
      using cd(3) [OF h] cd(4) [OF h, symmetric] by simp
  qed
qed

lemma core_set_fields:
  "core c H L U D \<Longrightarrow> lc_heap c' = lc_heap c \<Longrightarrow> lc_next c' = lc_next c \<Longrightarrow> lc_prev c' = lc_prev c \<Longrightarrow>
   lc_fresh c' = lc_fresh c \<Longrightarrow> lc_deleted c' = lc_deleted c \<Longrightarrow> core c' H L U D"
  by (simp add: core_def rings_def freed_def)

lemma LRU_Lookup_inv:
  assumes c: "lru_inv c H L U D" and b: "\<forall>a. H a + 2 < 2 ^ 32"
  shows "(\<exists>a c' L' U'. LRU_Lookup key hash c = Some (Some a, c') \<and> a \<in> set (L @ U) \<and> matches D key hash a
        \<and> lru_inv c' (H(a := Suc (H a))) L' U' D \<and> set (L' @ U') = set (L @ U) \<and> lc_capacity c' = lc_capacity c \<and> lc_fresh c' = lc_fresh c)
    \<or> LRU_Lookup key hash c = Some (None, c) \<and> (\<forall>a \<in> set (L @ U). \<not> matches D key hash a)"
proof -
  have co: "core c H L U D" and t: "table_ok (lc_table c) D (set (L @ U))" using c by (simp_all add: lru_inv_def)
  obtain r where r: "HandleTable_Lookup c key hash = Some r"
    "case r of None \<Rightarrow> \<forall>b \<in> set (L @ U). \<not> matches D key hash b | Some a \<Rightarrow> a \<in> set (L @ U) \<and> matches D key hash a"
    using HandleTable_Lookup_eq [OF t core_stored [OF co order_refl]] by blast
  show ?thesis
  proof (cases r)
    case None
    then show ?thesis using r by (simp add: LRU_Lookup_def)
  next
    case (Some a)
    then have a: "a \<in> set (L @ U)" "matches D key hash a" using r(2) by simp_all
    obtain h where h: "lc_heap c a = Some h" using coreD(7) [OF co, of a] a by (cases "lc_heap c a") auto
    obtain c' L' U' where 1: "LRU_Ref a c = Some c'" "core c' (H(a := Suc (H a))) L' U' D" "set (L' @ U') = set (L @ U)" "frame c c'"
      using LRU_Ref_core [OF co h] b by blast
    have "lru_inv c' (H(a := Suc (H a))) L' U' D" using c 1(2-4) unfolding lru_inv_def frame_def by simp
    then show ?thesis using r(1) Some a 1 by (auto simp: LRU_Lookup_def frame_def)
  qed
qed

lemma LRU_Release_inv:
  assumes c: "lru_inv c H L U D" and a: "0 < H a"
  shows "\<exists>c' L' U'. LRU_Release a c = Some c' \<and> lru_inv c' (H(a := H a - 1)) L' U' D \<and> set (L' @ U') = set (L @ U)
    \<and> lc_capacity c' = lc_capacity c \<and> lc_fresh c' = lc_fresh c"
proof -
  have co: "core c H L U D" using c by (simp add: lru_inv_def)
  have "\<exists>c' L' U'. LRU_Unref a c = Some c' \<and> core c' (H(a := H a - 1)) L' U' D \<and> set (L' @ U') = set (L @ U) \<and> frame c c'"
  proof (cases "a \<in> set (L @ U)")
    case True
    then have "a \<in> set U" using coreD(8) [OF co, of a] a by auto
    then show ?thesis by (rule LRU_Unref_in [OF co])
  next
    case False
    then show ?thesis using LRU_Unref_out [OF co False a] by blast
  qed
  then obtain c' L' U' where 1: "LRU_Unref a c = Some c'" "core c' (H(a := H a - 1)) L' U' D" "set (L' @ U') = set (L @ U)" "frame c c'"
    by blast
  have "lru_inv c' (H(a := H a - 1)) L' U' D" using c 1(2-4) unfolding lru_inv_def frame_def by simp
  then show ?thesis using 1 by (auto simp: LRU_Release_def frame_def)
qed

text \<open>Taking an entry out, with the table brought up to date before.\<close>

lemma erase_entry:
  assumes c: "core c H L U D" and a: "a \<in> set (L @ U)" and t: "table_ok (lc_table c) D (set (L @ U) - {a})"
    and u: "lc_usage c = (\<Sum>a \<in> set (L @ U). lh_charge (D a))"
  shows "\<exists>c'. FinishErase (Some a) c = Some (True, c') \<and> lru_inv c' H (remove1 a L) (remove1 a U) D
    \<and> lc_capacity c' = lc_capacity c \<and> lc_fresh c' = lc_fresh c"
proof -
  obtain c' where 1: "FinishErase (Some a) c = Some (True, c')" "core c' H (remove1 a L) (remove1 a U) D"
    "frame (c\<lparr>lc_usage := lc_usage c - lh_charge (D a)\<rparr>) c'"
    using FinishErase_core [OF c a] by blast
  have "distinct (L @ U)" using coreD(1) [OF c] by (simp add: rings_def)
  then have S: "set (remove1 a L @ remove1 a U) = set (L @ U) - {a}" by (auto simp: set_remove1_eq)
  have "lc_usage c' = (\<Sum>a \<in> set (L @ U) - {a}. lh_charge (D a))"
    using 1(3) u a sum.remove [of "set (L @ U)" a "\<lambda>a. lh_charge (D a)"] by (simp add: frame_def)
  then have "lru_inv c' H (remove1 a L) (remove1 a U) D" using 1(2,3) t unfolding lru_inv_def S frame_def by simp
  then show ?thesis using 1 by (auto simp: frame_def)
qed

lemma evict_oldest_inv:
  assumes c: "lru_inv c H (a # L) U D"
  shows "\<exists>c'. evict_oldest c = Some c' \<and> lru_inv c' H L U D \<and> lc_capacity c' = lc_capacity c \<and> lc_fresh c' = lc_fresh c"
proof -
  have co: "core c H (a # L) U D" and t: "table_ok (lc_table c) D (set ((a # L) @ U))"
    and u: "lc_usage c = (\<Sum>a \<in> set ((a # L) @ U). lh_charge (D a))" using c by (simp_all add: lru_inv_def)
  note cd = coreD [OF co]
  have nx: "lc_next c Lru_head = Entry a" using rings_heads(3) [OF cd(1)] by simp
  obtain h where h: "lc_heap c a = Some h" using cd(7) [of a] by (cases "lc_heap c a") auto
  have e: "entry_ok H (set ((a # L) @ U)) a h" by (rule cd(5) [OF h])
  have r: "lh_refs h = 1" using e cd(8) [of a] unat_one_iff [of "lh_refs h"] by (simp add: entry_ok_def)
  have dh: "lh_hash (D a) = lh_hash h" "lh_key (D a) = lh_key h" using cd(4) [OF h, symmetric] by simp_all
  have k: "Handle_key c a = Some (lh_key h)" using h cd(3) [OF h] by (simp add: Handle_key_def)
  have m: "matches D (lh_key h) (lh_hash h) a" using dh by (simp add: matches_def)
  from HandleTable_Remove_eq [OF t core_stored [OF co order_refl], of "lh_key h" "lh_hash h"] m
  obtain b t' where 1: "HandleTable_Remove (lh_key h) (lh_hash h) c = Some (Some b, c\<lparr>lc_table := t'\<rparr>)" "b \<in> set ((a # L) @ U)"
    "matches D (lh_key h) (lh_hash h) b" "table_ok t' D (set ((a # L) @ U) - {b})" by auto
  have b: "b = a" using t 1(2,3) m unfolding table_ok_def inj_on_def matches_def by auto
  have "core (c\<lparr>lc_table := t'\<rparr>) H (a # L) U D" by (rule core_set_fields [OF co]) simp_all
  from erase_entry [OF this, of a] 1(4) u b obtain c' where 2: "FinishErase (Some a) (c\<lparr>lc_table := t'\<rparr>) = Some (True, c')"
    "lru_inv c' H L (remove1 a U) D" "lc_capacity c' = lc_capacity c" "lc_fresh c' = lc_fresh c" by auto
  have "remove1 a U = U" using cd(1) by (simp add: rings_def remove1_idem)
  then show ?thesis using nx h r k 1(1) b 2 by (auto simp: evict_oldest_def)
qed

lemma evict_loop_inv:
  "lru_inv c H L U D \<Longrightarrow> \<exists>c' L'. evict_loop c = Some c' \<and> lru_inv c' H L' U D \<and> suffix L' L
    \<and> (L' = [] \<or> lc_usage c' \<le> lc_capacity c') \<and> lc_capacity c' = lc_capacity c \<and> lc_fresh c' = lc_fresh c
    \<and> (lc_usage c \<le> lc_capacity c \<longrightarrow> c' = c \<and> L' = L)"
proof (induction L arbitrary: c)
  case Nil
  have "lc_next c Lru_head = Lru_head" using Nil rings_heads(3) [of c "[]" U] by (simp add: lru_inv_def core_def)
  then show ?case using Nil by (subst evict_loop.simps) auto
next
  case (Cons a L)
  have nx: "lc_next c Lru_head \<noteq> Lru_head"
    using Cons.prems rings_heads(3) [of c "a # L" U] by (simp add: lru_inv_def core_def)
  show ?case
  proof (cases "lc_usage c > lc_capacity c")
    case True
    obtain c1 where c1: "evict_oldest c = Some c1" "lru_inv c1 H L U D" "lc_capacity c1 = lc_capacity c" "lc_fresh c1 = lc_fresh c"
      using evict_oldest_inv [OF Cons.prems] by blast
    obtain c' L' where c': "evict_loop c1 = Some c'" "lru_inv c' H L' U D" "suffix L' L" "L' = [] \<or> lc_usage c' \<le> lc_capacity c'"
      "lc_capacity c' = lc_capacity c1" "lc_fresh c' = lc_fresh c1" using Cons.IH [OF c1(2)] by blast
    have "evict_loop c = Some c'" using True nx c1(1) c'(1) by (subst evict_loop.simps) simp
    moreover have "suffix L' (a # L)" using c'(3) by (rule suffix_ConsI)
    ultimately show ?thesis using True c1 c' by (intro exI [of _ c'] exI [of _ L']) auto
  next
    case False
    then show ?thesis using Cons.prems by (subst evict_loop.simps) (auto simp: not_less)
  qed
qed

lemma LRU_Prune_inv:
  "lru_inv c H L U D \<Longrightarrow> \<exists>c'. LRU_Prune c = Some c' \<and> lru_inv c' H [] U D \<and> lc_capacity c' = lc_capacity c \<and> lc_fresh c' = lc_fresh c"
proof (induction L arbitrary: c)
  case Nil
  have "lc_next c Lru_head = Lru_head" using Nil rings_heads(3) [of c "[]" U] by (simp add: lru_inv_def core_def)
  then show ?case using Nil by (subst LRU_Prune.simps) auto
next
  case (Cons a L)
  have nx: "lc_next c Lru_head \<noteq> Lru_head"
    using Cons.prems rings_heads(3) [of c "a # L" U] by (simp add: lru_inv_def core_def)
  obtain c1 where c1: "evict_oldest c = Some c1" "lru_inv c1 H L U D" "lc_capacity c1 = lc_capacity c" "lc_fresh c1 = lc_fresh c"
    using evict_oldest_inv [OF Cons.prems] by blast
  then show ?case using Cons.IH [OF c1(2)] nx by (subst LRU_Prune.simps) simp
qed

lemma LRU_Erase_inv:
  assumes c: "lru_inv c H L U D"
  shows "\<exists>c' L' U'. LRU_Erase key hash c = Some c' \<and> lru_inv c' H L' U' D
    \<and> set (L' @ U') = {a \<in> set (L @ U). \<not> matches D key hash a} \<and> lc_capacity c' = lc_capacity c \<and> lc_fresh c' = lc_fresh c"
proof -
  have co: "core c H L U D" and t: "table_ok (lc_table c) D (set (L @ U))"
    and u: "lc_usage c = (\<Sum>a \<in> set (L @ U). lh_charge (D a))" using c by (simp_all add: lru_inv_def)
  have d: "distinct (L @ U)" using coreD(1) [OF co] by (simp add: rings_def)
  from HandleTable_Remove_eq [OF t core_stored [OF co order_refl], of key hash] consider
    (found) a t' where "HandleTable_Remove key hash c = Some (Some a, c\<lparr>lc_table := t'\<rparr>)" "a \<in> set (L @ U)"
      "matches D key hash a" "table_ok t' D (set (L @ U) - {a})"
    | (none) "HandleTable_Remove key hash c = Some (None, c)" "\<forall>b \<in> set (L @ U). \<not> matches D key hash b" by blast
  then show ?thesis
  proof cases
    case found
    have "core (c\<lparr>lc_table := t'\<rparr>) H L U D" by (rule core_set_fields [OF co]) simp_all
    from erase_entry [OF this found(2)] found(4) u obtain c' where 2: "FinishErase (Some a) (c\<lparr>lc_table := t'\<rparr>) = Some (True, c')"
      "lru_inv c' H (remove1 a L) (remove1 a U) D" "lc_capacity c' = lc_capacity c" "lc_fresh c' = lc_fresh c" by auto
    have "b = a" if "b \<in> set (L @ U)" "matches D key hash b" for b
      using t that found(2,3) unfolding table_ok_def inj_on_def matches_def by auto
    then have "set (remove1 a L @ remove1 a U) = {b \<in> set (L @ U). \<not> matches D key hash b}"
      using d found(3) by (auto simp: set_remove1_eq)
    moreover have "LRU_Erase key hash c = Some c'" using found(1) 2(1) by (simp add: LRU_Erase_def)
    ultimately show ?thesis using 2(2-4) by blast
  next
    case none
    then have "LRU_Erase key hash c = Some c" by (simp add: LRU_Erase_def FinishErase_def)
    moreover have "set (L @ U) = {b \<in> set (L @ U). \<not> matches D key hash b}" using none(2) by blast
    ultimately show ?thesis using c by blast
  qed
qed

subsection \<open>Insertion\<close>

lemma table_ok_cong:
  assumes t: "table_ok t D T" and D: "\<forall>a \<in> T. D' a = D a"
  shows "table_ok t D' T"
proof -
  have "bucket_of (lh_hash (D' a)) (ht_length t) = i" if "i < length (ht_list t)" "a \<in> set (ht_list t ! i)" for i a
    using t D table_chain(1) [OF t that(1)] that by (auto simp: table_ok_def)
  moreover have "inj_on (\<lambda>a. (lh_hash (D' a), lh_key (D' a))) T"
    using t D by (simp add: table_ok_def inj_on_def)
  ultimately show ?thesis using t by (simp add: table_ok_def)
qed

lemma fresh_address:
  assumes "core c H L U D"
  shows "lc_heap c (lc_fresh c) = None" "H (lc_fresh c) = 0" "lc_fresh c \<notin> set (L @ U)"
proof -
  show "lc_heap c (lc_fresh c) = None" using coreD(2) [OF assms, of "lc_fresh c"] by (cases "lc_heap c (lc_fresh c)") auto
  then show "H (lc_fresh c) = 0" "lc_fresh c \<notin> set (L @ U)" using coreD(6,7) [OF assms] by auto
qed

lemma core_alloc:
  assumes c: "core c H L U D" and a: "a = lc_fresh c" and h: "data_of h = D' a" "entry_ok (H(a := 1)) (set (L @ U')) a h"
    and n: "lc_heap c' = (lc_heap c)(a \<mapsto> h)" "lc_deleted c' = lc_deleted c" "lc_fresh c' = a + 1"
    and r: "rings c' L U'" "U' = U \<or> U' = U @ [a]" and D: "\<And>b. b \<noteq> a \<Longrightarrow> D' b = D b"
    and nx: "\<And>b. b \<noteq> a \<Longrightarrow> b \<notin> set (L @ U') \<Longrightarrow> lc_next c' (Entry b) = lc_next c (Entry b)" "lc_next c' (Entry a) \<noteq> Entry a"
  shows "core c' (H(a := 1)) L U' D'"
proof -
  note cd = coreD [OF c] and fa = fresh_address [OF c, folded a]
  have entries: "b < lc_fresh c' \<and> lc_next c' (Entry b) \<noteq> Entry b \<and> data_of g = D' b \<and> entry_ok (H(a := 1)) (set (L @ U')) b g"
    if g: "lc_heap c' b = Some g" for b g
  proof (cases "b = a")
    case True
    then show ?thesis using g n h nx(2) by simp
  next
    case False
    then have g': "lc_heap c b = Some g" using g n(1) by simp
    have "lc_next c' (Entry b) \<noteq> Entry b"
      using rings_members(3) [OF r(1), of b] nx(1) [OF False] cd(3) [OF g'] by (cases "b \<in> set (L @ U')") auto
    moreover have "entry_ok (H(a := 1)) (set (L @ U')) b g" using cd(5) [OF g'] False r(2) by (auto simp: entry_ok_def)
    ultimately show ?thesis using cd(2) [OF g'] cd(4) [OF g'] D [OF False] n(3) a by simp
  qed
  have none: "(H(a := 1)) b = 0 \<and> b \<notin> set (L @ U')" if "lc_heap c' b = None" for b
  proof -
    have "b \<noteq> a" "lc_heap c b = None" using that n(1) by (auto split: if_splits)
    then show ?thesis using cd(6,7) [of b] r(2) by auto
  qed
  have fr: "freed c' = freed c" using n a by (auto simp: freed_def less_Suc_eq)
  have "finite (freed c)" by (simp add: freed_def)
  then have "image_mset (\<lambda>a. deletion (D' a)) (mset_set (freed c)) = image_mset (\<lambda>a. deletion (D a)) (mset_set (freed c))"
    using D a by (intro image_mset_cong) (auto simp: freed_def)
  then have "mset (lc_deleted c') = image_mset (\<lambda>a. deletion (D' a)) (mset_set (freed c'))" using cd(10) n(2) fr by simp
  moreover have "(H(a := 1)) b = 0" if "b \<in> set L" for b using that cd(8) [OF that] fa(3) by auto
  moreover have "0 < (H(a := 1)) b" if "b \<in> set U'" for b using that cd(9) [of b] r(2) by auto
  ultimately show ?thesis unfolding core_def using entries none r(1) by blast
qed

definition allocated :: "Slice \<Rightarrow> u32 \<Rightarrow> 'v \<Rightarrow> u64 \<Rightarrow> 'd \<Rightarrow> ('v, 'd) LRUHandle" where
  "allocated key hash v charge deleter =
     \<lparr>lh_value = v, lh_deleter = deleter, lh_charge = charge, lh_in_cache = False, lh_refs = 0, lh_hash = hash, lh_key = key\<rparr>"

text \<open>The part of \<open>Insert\<close> before the eviction, for a cache that has room for anything at all.\<close>

lemma insert_entry:
  fixes key hash v charge deleter
  assumes c: "lru_inv c H L U D" and few: "card (set (L @ U)) < 2 ^ 31"
  defines "a \<equiv> lc_fresh c"
  defines "D' \<equiv> D(a := allocated key hash v charge deleter)"
  defines "added \<equiv> Option.bind (LRU_Append In_use_head a
      (put_entry a ((allocated key hash v charge deleter)\<lparr>lh_refs := 2, lh_in_cache := True\<rparr>) (c\<lparr>lc_fresh := a + 1\<rparr>)))
    (\<lambda>c. let c = c\<lparr>lc_usage := lc_usage c + charge\<rparr>
         in Option.bind (HandleTable_Insert a c) (\<lambda>(old, c). map_option snd (FinishErase old c)))"
  shows "\<exists>c' L' U'. added = Some c'
    \<and> lru_inv c' (H(a := 1)) L' U' D' \<and> a \<in> set U' \<and> set (L' @ U') = insert a {b \<in> set (L @ U). \<not> matches D key hash b}
    \<and> lc_capacity c' = lc_capacity c \<and> lc_fresh c' = a + 1"
proof -
  have co: "core c H L U D" and t: "table_ok (lc_table c) D (set (L @ U))"
    and u: "lc_usage c = (\<Sum>a \<in> set (L @ U). lh_charge (D a))" using c by (simp_all add: lru_inv_def)
  note fa = fresh_address [OF co, folded a_def]
  let ?h = "(allocated key hash v charge deleter)\<lparr>lh_refs := 2, lh_in_cache := True\<rparr>"
  let ?p = "put_entry a ?h (c\<lparr>lc_fresh := a + 1\<rparr>)" and ?T = "set (L @ U)"
  have "rings ?p L U" by (rule rings_frame [OF coreD(1) [OF co]]) (simp_all add: put_entry_def)
  moreover have "lc_heap ?p b \<noteq> None" if "b \<in> insert a (set (L @ U))" for b
    using that coreD(7) [OF co, of b] by (auto simp: put_entry_def)
  ultimately obtain nx pv where ap: "LRU_Append In_use_head a ?p = Some (?p\<lparr>lc_next := nx, lc_prev := pv\<rparr>)"
    "rings (?p\<lparr>lc_next := nx, lc_prev := pv\<rparr>) L (U @ [a])"
    "\<forall>b. b \<notin> set L \<union> set U \<union> {a} \<longrightarrow> nx (Entry b) = lc_next ?p (Entry b)"
    using rings_append(2) [of ?p L U a] fa(3) by blast
  define c1 where c1: "c1 = ?p\<lparr>lc_next := nx, lc_prev := pv, lc_usage := lc_usage c + charge\<rparr>"
  have added: "added = Option.bind (HandleTable_Insert a c1) (\<lambda>(old, c). map_option snd (FinishErase old c))"
    unfolding added_def ap(1) by (simp add: c1 put_entry_def Let_def)
  have r1: "rings c1 L (U @ [a])" by (rule rings_frame [OF ap(2)]) (simp_all add: c1)
  have core1: "core c1 (H(a := 1)) L (U @ [a]) D'"
  proof (rule core_alloc [OF co a_def [THEN meta_eq_to_obj_eq] _ _ _ _ _ r1])
    show "lc_heap c1 = (lc_heap c)(a \<mapsto> ?h)" by (simp add: c1 put_entry_def)
    show "data_of ?h = D' a" by (simp add: D'_def allocated_def data_of_def)
    show "lc_next c1 (Entry b) = lc_next c (Entry b)" if "b \<noteq> a" "b \<notin> set (L @ U @ [a])" for b
      using that ap(3) by (simp add: c1 put_entry_def)
    show "lc_next c1 (Entry a) \<noteq> Entry a" using rings_members(3) [OF r1, of a] by simp
  qed (auto simp: c1 put_entry_def entry_ok_def D'_def)
  have Da: "lh_hash (D' a) = hash" "lh_key (D' a) = key" "lh_charge (D' a) = charge" "\<And>b. b \<in> ?T \<Longrightarrow> D' b = D b"
    using fa(3) by (auto simp: D'_def allocated_def)
  have t1: "table_ok (lc_table c1) D' ?T" using table_ok_cong [OF t, of D'] Da(4) by (simp add: c1 put_entry_def)
  have S1: "set (L @ U @ [a]) = insert a ?T" by auto
  have st1: "stored c1 D' (insert a ?T)" by (rule core_stored [OF core1]) auto
  have u1: "lc_usage c1 = (\<Sum>a \<in> set (L @ U @ [a]). lh_charge (D' a))"
    unfolding S1 using u fa(3) Da(3,4) by (simp add: c1 add.commute)
  have mt: "matches D' key hash b \<longleftrightarrow> matches D key hash b" if "b \<in> ?T" for b using Da(4) [OF that] by (simp add: matches_def)
  have cap: "lc_capacity c1 = lc_capacity c" "lc_fresh c1 = a + 1" by (simp_all add: c1 put_entry_def)
  from HandleTable_Insert_eq [OF t1 st1 fa(3) few, unfolded Da(1,2)] consider
    (fresh) t' where "HandleTable_Insert a c1 = Some (None, c1\<lparr>lc_table := t'\<rparr>)" "table_ok t' D' (insert a ?T)"
      "\<forall>b \<in> ?T. \<not> matches D' key hash b"
    | (replaced) old t' where "HandleTable_Insert a c1 = Some (Some old, c1\<lparr>lc_table := t'\<rparr>)" "old \<in> ?T"
      "matches D' key hash old" "table_ok t' D' (insert a (?T - {old}))" by blast
  then show ?thesis
  proof cases
    case fresh
    have "core (c1\<lparr>lc_table := t'\<rparr>) (H(a := 1)) L (U @ [a]) D'" by (rule core_set_fields [OF core1]) simp_all
    then have "lru_inv (c1\<lparr>lc_table := t'\<rparr>) (H(a := 1)) L (U @ [a]) D'"
      using fresh(2) u1 unfolding lru_inv_def S1 by simp
    moreover have "insert a ?T = insert a {b \<in> ?T. \<not> matches D key hash b}" using fresh(3) mt by auto
    moreover have "added = Some (c1\<lparr>lc_table := t'\<rparr>)"
      using fresh(1) by (simp add: added FinishErase_def)
    ultimately show ?thesis using cap S1 by (intro exI [of _ "c1\<lparr>lc_table := t'\<rparr>"] exI [of _ L] exI [of _ "U @ [a]"]) simp
  next
    case replaced
    have na: "old \<noteq> a" using replaced(2) fa(3) by auto
    have S2: "insert a (?T - {old}) = set (L @ U @ [a]) - {old}" using na by auto
    have co2: "core (c1\<lparr>lc_table := t'\<rparr>) (H(a := 1)) L (U @ [a]) D'" by (rule core_set_fields [OF core1]) simp_all
    have old: "old \<in> set (L @ U @ [a])" using replaced(2) by simp
    have t2: "table_ok (lc_table (c1\<lparr>lc_table := t'\<rparr>)) D' (set (L @ U @ [a]) - {old})" using replaced(4) S2 by simp
    have u2: "lc_usage (c1\<lparr>lc_table := t'\<rparr>) = (\<Sum>a \<in> set (L @ U @ [a]). lh_charge (D' a))" using u1 by simp
    from erase_entry [OF co2 old t2 u2] obtain c' where c': "FinishErase (Some old) (c1\<lparr>lc_table := t'\<rparr>) = Some (True, c')"
      "lru_inv c' (H(a := 1)) (remove1 old L) (remove1 old (U @ [a])) D'" "lc_capacity c' = lc_capacity c" "lc_fresh c' = a + 1"
      using cap by auto
    have d: "distinct (L @ U @ [a])" using r1 by (simp add: rings_def)
    have mo: "matches D key hash old" using replaced(2,3) mt by blast
    have uniq: "b = old" if "b \<in> ?T" "matches D key hash b" for b
      using t that replaced(2) mo unfolding table_ok_def inj_on_def matches_def by auto
    have dU: "distinct (U @ [a])" and dL: "distinct L" using d by auto
    have no: "old \<notin> set (remove1 old L @ remove1 old (U @ [a]))" using dU dL by (simp add: set_remove1_eq del: distinct_append)
    have sup: "set L - {old} \<subseteq> set (remove1 old L)" "set (U @ [a]) - {old} \<subseteq> set (remove1 old (U @ [a]))"
      using set_remove1_eq [OF dL] set_remove1_eq [OF dU] by blast+
    have sub: "set (remove1 old L) \<subseteq> set L" "set (remove1 old (U @ [a])) \<subseteq> set (U @ [a])" by (rule set_remove1_subset)+
    have "set (remove1 old L @ remove1 old (U @ [a])) = insert a ?T - {old}"
      using no sup sub S1 unfolding set_append by blast
    moreover have "insert a ?T - {old} = insert a {b \<in> ?T. \<not> matches D key hash b}" using na mo uniq by blast
    ultimately have S: "set (remove1 old L @ remove1 old (U @ [a])) = insert a {b \<in> ?T. \<not> matches D key hash b}" by simp
    have "a \<in> set (remove1 old (U @ [a]))" using na by (simp add: in_set_remove1)
    moreover have "added = Some c'"
      using replaced(1) c'(1) by (simp add: added)
    ultimately show ?thesis using c' S by blast
  qed
qed

lemma evict_fits:
  assumes "lru_inv c H L U D"
  shows "\<exists>c' L'. evict_loop c = Some c' \<and> lru_inv c' H L' U D \<and> set L' \<subseteq> set L
    \<and> (L' = [] \<or> lc_usage c' \<le> lc_capacity c') \<and> lc_capacity c' = lc_capacity c \<and> lc_fresh c' = lc_fresh c
    \<and> ((\<Sum>b \<in> set (L @ U). lh_charge (D b)) \<le> lc_capacity c \<longrightarrow> L' = L)"
proof -
  have "lc_usage c = (\<Sum>b \<in> set (L @ U). lh_charge (D b))" using assms by (simp add: lru_inv_def)
  then show ?thesis using evict_loop_inv [OF assms] by (metis set_mono_suffix)
qed

lemma LRU_Insert_inv:
  fixes key hash v charge deleter
  assumes c: "lru_inv c H L U D" and few: "card (set (L @ U)) < 2 ^ 31"
  defines "a \<equiv> lc_fresh c" and "S \<equiv> insert (lc_fresh c) {b \<in> set (L @ U). \<not> matches D key hash b}"
  defines "D' \<equiv> D(lc_fresh c := allocated key hash v charge deleter)"
  shows "\<exists>c' L' U'. LRU_Insert key hash v charge deleter c = Some (a, c') \<and> lru_inv c' (H(a := 1)) L' U' D'
    \<and> lc_capacity c' = lc_capacity c \<and> lc_fresh c' = a + 1 \<and> (lc_capacity c = 0 \<longrightarrow> set (L' @ U') \<subseteq> set (L @ U))
    \<and> (L' = [] \<or> lc_usage c' \<le> lc_capacity c')
    \<and> (0 < lc_capacity c \<longrightarrow> a \<in> set U' \<and> set (L' @ U') \<subseteq> S
        \<and> ((\<Sum>b \<in> S. lh_charge (D' b)) \<le> lc_capacity c \<longrightarrow> set (L' @ U') = S))"
proof -
  let ?h = "(allocated key hash v charge deleter)\<lparr>lh_refs := 1\<rparr>"
  have h: "\<lparr>lh_value = v, lh_deleter = deleter, lh_charge = charge, lh_in_cache = False, lh_refs = 1, lh_hash = hash, lh_key = key\<rparr> = ?h"
    "?h\<lparr>lh_refs := lh_refs ?h + 1, lh_in_cache := True\<rparr> = (allocated key hash v charge deleter)\<lparr>lh_refs := 2, lh_in_cache := True\<rparr>"
    by (simp_all add: allocated_def)
  show ?thesis
  proof (cases "0 < lc_capacity c")
    case True
    obtain c1 L1 U1 where 1: "Option.bind (LRU_Append In_use_head a
          (put_entry a ((allocated key hash v charge deleter)\<lparr>lh_refs := 2, lh_in_cache := True\<rparr>) (c\<lparr>lc_fresh := a + 1\<rparr>)))
        (\<lambda>c. let c = c\<lparr>lc_usage := lc_usage c + charge\<rparr>
             in Option.bind (HandleTable_Insert a c) (\<lambda>(old, c). map_option snd (FinishErase old c))) = Some c1"
      "lru_inv c1 (H(a := 1)) L1 U1 D'" "a \<in> set U1" "set (L1 @ U1) = S" "lc_capacity c1 = lc_capacity c" "lc_fresh c1 = a + 1"
      using insert_entry [where key = key and hash = hash and v = v and charge = charge and deleter = deleter, OF c few] unfolding a_def S_def D'_def by blast
    obtain c' L' where 2: "evict_loop c1 = Some c'" "lru_inv c' (H(a := 1)) L' U1 D'" "set L' \<subseteq> set L1"
      "L' = [] \<or> lc_usage c' \<le> lc_capacity c'" "lc_capacity c' = lc_capacity c1" "lc_fresh c' = lc_fresh c1"
      "(\<Sum>b \<in> set (L1 @ U1). lh_charge (D' b)) \<le> lc_capacity c1 \<longrightarrow> L' = L1"
      using evict_fits [OF 1(2)] by blast
    have "LRU_Insert key hash v charge deleter c = Some (a, c')"
      using True 1(1) 2(1) unfolding LRU_Insert_def Let_def h a_def [symmetric] by (simp del: fun_upd_apply bind_assoc)
    moreover have "set (L' @ U1) \<subseteq> S" using 1(4) 2(3) by auto
    moreover have "(\<Sum>b \<in> S. lh_charge (D' b)) \<le> lc_capacity c \<longrightarrow> set (L' @ U1) = S" using 2(7) 1(4,5) by simp
    ultimately show ?thesis using True 1(3,5,6) 2(2,4,5,6) by (intro exI [of _ c'] exI [of _ L'] exI [of _ U1]) auto
  next
    case False
    have co: "core c H L U D" and t: "table_ok (lc_table c) D (set (L @ U))"
      and u: "lc_usage c = (\<Sum>a \<in> set (L @ U). lh_charge (D a))" using c by (simp_all add: lru_inv_def)
    note fa = fresh_address [OF co, folded a_def]
    let ?c1 = "(put_entry a ?h (c\<lparr>lc_fresh := a + 1\<rparr>))\<lparr>lc_next := (lc_next c)(Entry a := Null)\<rparr>"
    have "rings ?c1 L U"
    proof -
      have "seg (lc_next ?c1) (lc_prev ?c1) hd (map Entry xs) hd" if "seg (lc_next c) (lc_prev c) hd (map Entry xs) hd"
        "a \<notin> set xs" "hd \<noteq> Entry a" for hd xs
        using that by (intro seg_cong [OF that(1)]) (auto simp: put_entry_def)
      then show ?thesis using coreD(1) [OF co] fa(3) by (simp add: rings_def)
    qed
    then have "core ?c1 (H(a := 1)) L U D'"
      by (rule core_alloc [OF co a_def [THEN meta_eq_to_obj_eq], rotated 5])
        (use fa in \<open>auto simp: put_entry_def allocated_def data_of_def entry_ok_def D'_def a_def [symmetric]\<close>)
    moreover have Da: "D' b = D b" if "b \<in> set (L @ U)" for b using that fa(3) by (auto simp: D'_def a_def [symmetric])
    have "table_ok (lc_table ?c1) D' (set (L @ U))" using table_ok_cong [OF t, of D'] Da by (simp add: put_entry_def)
    moreover have "lc_usage ?c1 = (\<Sum>b \<in> set (L @ U). lh_charge (D' b))" using u Da by (simp add: put_entry_def)
    ultimately have inv: "lru_inv ?c1 (H(a := 1)) L U D'" by (simp add: lru_inv_def)
    obtain c' L' where 2: "evict_loop ?c1 = Some c'" "lru_inv c' (H(a := 1)) L' U D'" "set L' \<subseteq> set L"
      "L' = [] \<or> lc_usage c' \<le> lc_capacity c'" "lc_capacity c' = lc_capacity ?c1" "lc_fresh c' = lc_fresh ?c1"
      using evict_fits [OF inv] by blast
    have "set_next (Entry a) Null (put_entry a ?h (c\<lparr>lc_fresh := a + 1\<rparr>)) = Some ?c1"
      by (simp add: set_next_def node_live_def put_entry_def)
    then have "LRU_Insert key hash v charge deleter c = Some (a, c')"
      using False 2(1) unfolding LRU_Insert_def Let_def h a_def [symmetric] by (simp del: fun_upd_apply)
    then show ?thesis using False 2 by (intro exI [of _ c'] exI [of _ L'] exI [of _ U]) (auto simp: put_entry_def)
  qed
qed

lemma new_LRUCache_inv: "\<exists>c. new_LRUCache = Some c \<and> lru_inv (SetCapacity capacity c) (\<lambda>_. 0) [] [] D
  \<and> lc_capacity (SetCapacity capacity c) = capacity \<and> lc_fresh (SetCapacity capacity c) = 0"
proof -
  obtain t where t: "new_HandleTable = Some t" "table_ok t D {}" using new_HandleTable_ok by blast
  let ?c = "\<lparr>lc_capacity = 0, lc_usage = 0,
       lc_next = (\<lambda>_. Null)(Lru_head := Lru_head, In_use_head := In_use_head),
       lc_prev = (\<lambda>_. Null)(Lru_head := Lru_head, In_use_head := In_use_head),
       lc_heap = (\<lambda>_. None), lc_fresh = 0, lc_table = t, lc_deleted = []\<rparr>"
  have "new_LRUCache = Some ?c" using t by (simp add: new_LRUCache_def)
  moreover have "lru_inv (SetCapacity capacity ?c) (\<lambda>_. 0) [] [] D"
    using t by (simp add: SetCapacity_def lru_inv_def core_def rings_def freed_def)
  ultimately show ?thesis by (intro exI [of _ ?c]) (simp add: SetCapacity_def)
qed

subsection \<open>The destructor\<close>

lemma delete_loop_eq:
  "seg (lc_next c) pv x (map Entry L) Lru_head \<Longrightarrow> distinct L \<Longrightarrow>
   (\<forall>a \<in> set L. \<exists>h. lc_heap c a = Some h \<and> data_of h = D a \<and> lh_in_cache h \<and> lh_refs h = 1) \<Longrightarrow>
   (\<forall>a \<in> set L. lc_next c (Entry a) \<noteq> Entry a) \<Longrightarrow>
   \<exists>c'. delete_loop (lc_next c x) c = Some c' \<and> lc_deleted c' = lc_deleted c @ map (\<lambda>a. deletion (D a)) L"
proof (induction L arbitrary: c x)
  case Nil
  then show ?case by (subst delete_loop.simps) simp
next
  case (Cons a L)
  obtain h where h: "lc_heap c a = Some h" "data_of h = D a" "lh_in_cache h" "lh_refs h = 1" using Cons.prems(3) by auto
  have s: "lc_next c x = Entry a" "seg (lc_next c) pv (Entry a) (map Entry L) Lru_head" using Cons.prems(1) by simp_all
  let ?h = "h\<lparr>lh_in_cache := False, lh_refs := 0\<rparr>"
  let ?c = "(put_entry a ?h (put_entry a (h\<lparr>lh_in_cache := False\<rparr>) c))"
  let ?c1 = "?c\<lparr>lc_deleted := lc_deleted c @ [deletion (D a)], lc_heap := (lc_heap ?c)(a := None)\<rparr>"
  have k: "Handle_key ?c a = Some (lh_key h)" using Cons.prems(4) by (simp add: Handle_key_def put_entry_def)
  have "deletion (D a) = (lh_deleter h, lh_key h, lh_value h)" using h(2) [symmetric] by (simp add: deletion_def)
  then have u: "LRU_Unref a (put_entry a (h\<lparr>lh_in_cache := False\<rparr>) c) = Some ?c1"
    using h(4) k by (simp add: LRU_Unref_def Let_def) (simp add: put_entry_def)
  have "\<exists>c'. delete_loop (lc_next ?c1 (Entry a)) ?c1 = Some c' \<and> lc_deleted c' = lc_deleted ?c1 @ map (\<lambda>a. deletion (D a)) L"
    using Cons.prems s(2) by (intro Cons.IH) (auto simp: put_entry_def)
  moreover have "get_next (Entry a) c = Some (lc_next c (Entry a))" using h(1) by (simp add: get_next_def)
  ultimately show ?case
    using h u s(1) by (subst delete_loop.simps) (auto simp: put_entry_def)
qed

lemma delete_LRUCache_eq:
  assumes "core c (\<lambda>_. 0) L U D"
  shows "\<exists>c'. delete_LRUCache c = Some c' \<and> mset (lc_deleted c') = image_mset (\<lambda>a. deletion (D a)) (mset_set {0..<lc_fresh c})"
proof -
  note cd = coreD [OF assms]
  have U: "U = []" using cd(9) by (cases U) auto
  have r: "seg (lc_next c) (lc_prev c) Lru_head (map Entry L) Lru_head" "distinct L" "lc_next c In_use_head = In_use_head"
    using cd(1) U by (simp_all add: rings_def)
  have al: "\<exists>h. lc_heap c a = Some h" if "a \<in> set L" for a using cd(7) [of a] that by (cases "lc_heap c a") auto
  have e: "data_of h = D a \<and> lh_in_cache h \<and> lh_refs h = 1 \<and> lc_next c (Entry a) \<noteq> Entry a"
    if "a \<in> set L" "lc_heap c a = Some h" for a h
    using cd(3) [OF that(2)] cd(4) [OF that(2)] cd(5) [OF that(2)] that unat_one_iff [of "lh_refs h"] by (simp add: entry_ok_def)
  obtain c' where c': "delete_loop (lc_next c Lru_head) c = Some c'" "lc_deleted c' = lc_deleted c @ map (\<lambda>a. deletion (D a)) L"
    using delete_loop_eq [OF r(1,2), of D] al e by blast
  have SL: "set L = {a. a < lc_fresh c \<and> lc_heap c a \<noteq> None}"
  proof (intro equalityI subsetI)
    fix a assume "a \<in> {a. a < lc_fresh c \<and> lc_heap c a \<noteq> None}"
    then obtain h where "lc_heap c a = Some h" by auto
    from cd(5) [OF this] show "a \<in> set L" by (auto simp: entry_ok_def U unat_0_iff split: if_splits)
  next
    fix a assume "a \<in> set L"
    then obtain h where "lc_heap c a = Some h" using al by blast
    then show "a \<in> {a. a < lc_fresh c \<and> lc_heap c a \<noteq> None}" using cd(2) by simp
  qed
  have "{0..<lc_fresh c} = freed c \<union> set L" "freed c \<inter> set L = {}" unfolding SL freed_def by auto
  then have "mset_set {0..<lc_fresh c} = mset_set (freed c) + mset_set (set L)" by (simp add: mset_set_Union freed_def)
  moreover have "mset_set (set L) = mset L" using r(2) by (simp add: mset_set_set)
  ultimately show ?thesis using c' cd(10) r(3) by (simp add: delete_LRUCache_def)
qed

subsection \<open>Properties\<close>

text \<open>A client of a shard: its calls, and the handles it holds.\<close>

datatype ('v, 'd) cache_call =
  Call_Insert Slice u32 'v u64 'd | Call_Lookup Slice u32 | Call_Release nat | Call_Erase Slice u32 | Call_Prune

fun do_call :: "('v, 'd) cache_call \<Rightarrow> ('v, 'd) LRUCache \<times> nat list \<Rightarrow> (('v, 'd) LRUCache \<times> nat list) option" where
  "do_call (Call_Insert key hash v charge deleter) (c, hs) =
     map_option (\<lambda>(a, c). (c, hs @ [a])) (LRU_Insert key hash v charge deleter c)"
| "do_call (Call_Lookup key hash) (c, hs) =
     map_option (\<lambda>(e, c). (c, case e of None \<Rightarrow> hs | Some a \<Rightarrow> hs @ [a])) (LRU_Lookup key hash c)"
| "do_call (Call_Release i) (c, hs) =
     (if i < length hs then map_option (\<lambda>c. (c, take i hs @ drop (Suc i) hs)) (LRU_Release (hs ! i) c)
      else Some (c, hs))"
| "do_call (Call_Erase key hash) (c, hs) = map_option (\<lambda>c. (c, hs)) (LRU_Erase key hash c)"
| "do_call Call_Prune (c, hs) = map_option (\<lambda>c. (c, hs)) (LRU_Prune c)"

fun do_calls :: "('v, 'd) cache_call list \<Rightarrow> ('v, 'd) LRUCache \<times> nat list \<Rightarrow> (('v, 'd) LRUCache \<times> nat list) option" where
  "do_calls [] s = Some s"
| "do_calls (call # calls) s = Option.bind (do_call call s) (do_calls calls)"

text \<open>What was inserted, in order, and the value last inserted for a key that was not erased since.\<close>

fun inserted :: "('v, 'd) cache_call list \<Rightarrow> ('d \<times> Slice \<times> 'v) list" where
  "inserted (Call_Insert key hash v charge deleter # calls) = (deleter, key, v) # inserted calls"
| "inserted (_ # calls) = inserted calls"
| "inserted [] = []"

fun latest :: "('v, 'd) cache_call list \<Rightarrow> Slice \<Rightarrow> u32 \<Rightarrow> 'v option \<Rightarrow> 'v option" where
  "latest (Call_Insert k h v charge deleter # calls) key hash r =
     latest calls key hash (if k = key \<and> h = hash then Some v else r)"
| "latest (Call_Erase k h # calls) key hash r = latest calls key hash (if k = key \<and> h = hash then None else r)"
| "latest (_ # calls) key hash r = latest calls key hash r"
| "latest [] key hash r = r"

definition new_client :: "u64 \<Rightarrow> (('v, 'd) LRUCache \<times> nat list) option" where
  "new_client capacity = map_option (\<lambda>c. (SetCapacity capacity c, [])) new_LRUCache"

definition client_inv :: "('v, 'd) LRUCache \<Rightarrow> nat list \<Rightarrow> ('d \<times> Slice \<times> 'v) list \<Rightarrow> (Slice \<Rightarrow> u32 \<Rightarrow> 'v option) \<Rightarrow> bool" where
  "client_inv c hs ins cur \<longleftrightarrow>
     (\<exists>L U D. lru_inv c (count_list hs) L U D \<and> lc_fresh c = length ins \<and> (\<forall>a < length ins. deletion (D a) = ins ! a)
        \<and> (\<forall>a \<in> set (L @ U). cur (lh_key (D a)) (lh_hash (D a)) = Some (lh_value (D a)))
        \<and> (lc_capacity c = 0 \<longrightarrow> set (L @ U) = {}))"

lemma count_list_snoc: "count_list (hs @ [a]) = (count_list hs)(a := Suc (count_list hs a))"
  by auto

lemma count_list_remove:
  "i < length hs \<Longrightarrow> count_list (take i hs @ drop (Suc i) hs) = (count_list hs)(hs ! i := count_list hs (hs ! i) - 1)"
proof -
  assume i: "i < length hs"
  have "count_list hs = count_list (take i hs @ hs ! i # drop (Suc i) hs)" using i by (simp add: id_take_nth_drop [symmetric])
  then show ?thesis by (auto simp: fun_eq_iff)
qed

lemma count_list_le: "count_list hs a \<le> length hs"
  by (simp add: count_le_length)

lemma lru_allocated: "lru_inv c H L U D \<Longrightarrow> a \<in> set (L @ U) \<Longrightarrow> a < lc_fresh c"
proof -
  assume c: "lru_inv c H L U D" and a: "a \<in> set (L @ U)"
  have co: "core c H L U D" using c by (simp add: lru_inv_def)
  obtain h where "lc_heap c a = Some h" using coreD(7) [OF co, of a] a by (cases "lc_heap c a") auto
  then show "a < lc_fresh c" by (rule coreD(2) [OF co])
qed

lemma lru_few: "lru_inv c H L U D \<Longrightarrow> lc_fresh c < n \<Longrightarrow> card (set (L @ U)) < n"
proof -
  assume c: "lru_inv c H L U D" and n: "lc_fresh c < n"
  have "set (L @ U) \<subseteq> {0..<lc_fresh c}" using lru_allocated [OF c] by auto
  from card_mono [OF _ this] show ?thesis using n by simp
qed

text \<open>The entries in the hash table, and the sum of their charges.\<close>

definition cached :: "('v, 'd) LRUCache \<Rightarrow> nat list" where
  "cached c = concat (ht_list (lc_table c))"

definition cached_charge :: "('v, 'd) LRUCache \<Rightarrow> u64" where
  "cached_charge c = sum_list (map (\<lambda>a. case lc_heap c a of Some h \<Rightarrow> lh_charge h | None \<Rightarrow> 0) (cached c))"

lemma lru_cached:
  assumes "lru_inv c H L U D"
  shows "distinct (cached c)" "\<And>a. a \<in> set (cached c) \<Longrightarrow> lc_heap c a \<noteq> None" "lc_usage c = cached_charge c"
    "L = [] \<Longrightarrow> \<forall>a \<in> set (cached c). 0 < H a"
proof -
  have co: "core c H L U D" and t: "table_ok (lc_table c) D (set (L @ U))"
    and u: "lc_usage c = (\<Sum>a \<in> set (L @ U). lh_charge (D a))" using assms by (simp_all add: lru_inv_def)
  note cd = coreD [OF co]
  have m: "mset (cached c) = mset_set (set (L @ U))" using t by (simp add: table_ok_def cached_def)
  have s: "set (cached c) = set (L @ U)" using arg_cong [OF m, of set_mset] by simp
  show d: "distinct (cached c)"
    using m by (metis distinct_remdups mset_eq_imp_distinct_iff mset_set_set set_remdups finite_set mset_set.infinite s)
  show live: "\<And>a. a \<in> set (cached c) \<Longrightarrow> lc_heap c a \<noteq> None" using s cd(7) by blast
  show "\<forall>a \<in> set (cached c). 0 < H a" if "L = []" using that s cd(9) by simp
  have "(case lc_heap c a of Some h \<Rightarrow> lh_charge h | None \<Rightarrow> 0) = lh_charge (D a)" if a: "a \<in> set (cached c)" for a
  proof -
    obtain h where h: "lc_heap c a = Some h" using live [OF a] by blast
    show ?thesis using h cd(4) [OF h, symmetric] by simp
  qed
  then have "cached_charge c = (\<Sum>a \<leftarrow> cached c. lh_charge (D a))" unfolding cached_charge_def by (metis (no_types, lifting) map_eq_conv)
  then show "lc_usage c = cached_charge c" using u s by (simp add: sum_list_distinct_conv_sum_set [OF d])
qed

lemma client_cached:
  "client_inv c hs ins cur \<Longrightarrow> distinct (cached c) \<and> (\<forall>a \<in> set (cached c). lc_heap c a \<noteq> None) \<and> lc_usage c = cached_charge c"
  using lru_cached(1-3) unfolding client_inv_def by blast

lemma client_Insert:
  assumes c: "client_inv c hs ins cur" and n: "length ins < 2 ^ 31"
  shows "\<exists>c'. LRU_Insert key hash v charge deleter c = Some (length ins, c')
    \<and> client_inv c' (hs @ [length ins]) (ins @ [(deleter, key, v)]) (\<lambda>k h. if key = k \<and> hash = h then Some v else cur k h)
    \<and> lc_capacity c' = lc_capacity c
    \<and> (lc_usage c' \<le> lc_capacity c' \<or> set (cached c') \<subseteq> set (hs @ [length ins]))"
proof -
  obtain L U D where i: "lru_inv c (count_list hs) L U D" "lc_fresh c = length ins" "\<forall>a < length ins. deletion (D a) = ins ! a"
    "\<forall>a \<in> set (L @ U). cur (lh_key (D a)) (lh_hash (D a)) = Some (lh_value (D a))"
    "lc_capacity c = 0 \<longrightarrow> set (L @ U) = {}" using c by (auto simp: client_inv_def)
  let ?a = "length ins" and ?D = "D(length ins := allocated key hash v charge deleter)"
  let ?S = "insert ?a {b \<in> set (L @ U). \<not> matches D key hash b}"
  let ?cur = "\<lambda>k h. if key = k \<and> hash = h then Some v else cur k h"
  have "core c (count_list hs) L U D" using i(1) by (simp add: lru_inv_def)
  note fa = fresh_address [OF this, unfolded i(2)]
  have few: "card (set (L @ U)) < 2 ^ 31" using lru_few [OF i(1)] n i(2) by simp
  obtain c' L' U' where 1: "LRU_Insert key hash v charge deleter c = Some (?a, c')" "lru_inv c' ((count_list hs)(?a := 1)) L' U' ?D"
    "lc_fresh c' = ?a + 1" "lc_capacity c = 0 \<longrightarrow> set (L' @ U') \<subseteq> set (L @ U)" "L' = [] \<or> lc_usage c' \<le> lc_capacity c'"
    "lc_capacity c' = lc_capacity c" "0 < lc_capacity c \<longrightarrow> set (L' @ U') \<subseteq> ?S"
    using LRU_Insert_inv [where key = key and hash = hash and v = v and charge = charge and deleter = deleter, OF i(1) few]
    unfolding i(2) by blast
  have "count_list (hs @ [?a]) = (count_list hs)(?a := 1)" using fa(2) by (simp add: count_list_snoc)
  moreover have "deletion (?D b) = (ins @ [(deleter, key, v)]) ! b" if "b < length (ins @ [(deleter, key, v)])" for b
    using that i(3) by (auto simp: nth_append deletion_def allocated_def)
  moreover have "?cur (lh_key (?D b)) (lh_hash (?D b)) = Some (lh_value (?D b))" if b: "b \<in> set (L' @ U')" for b
  proof (cases "b = ?a")
    case True
    then show ?thesis by (simp add: allocated_def)
  next
    case False
    have "lc_capacity c \<noteq> 0" using b 1(4) i(5) by auto
    then have "b \<in> set (L @ U)" "\<not> matches D key hash b" using b 1(7) False by (auto simp: word_gt_0)
    then show ?thesis using i(4) False by (simp add: matches_def) blast
  qed
  moreover have "lc_capacity c' = 0 \<longrightarrow> set (L' @ U') = {}" using 1(4,6) i(5) by auto
  ultimately have "client_inv c' (hs @ [?a]) (ins @ [(deleter, key, v)]) ?cur"
    using 1(2,3) unfolding client_inv_def by (intro exI [of _ L'] exI [of _ U'] exI [of _ ?D]) simp
  moreover have "lc_usage c' \<le> lc_capacity c' \<or> set (cached c') \<subseteq> set (hs @ [?a])"
    using 1(5)
  proof
    assume "L' = []"
    from lru_cached(4) [OF 1(2) this] have "b \<in> set (hs @ [?a])" if "b \<in> set (cached c')" for b
      using that count_list_0_iff [of hs b] by (cases "b = ?a") auto
    then show ?thesis by blast
  qed simp
  ultimately show ?thesis using 1(1,6) by blast
qed

lemma client_Lookup:
  assumes c: "client_inv c hs ins cur" and n: "length hs < 2 ^ 31"
  shows "(\<exists>a c' h. LRU_Lookup key hash c = Some (Some a, c') \<and> client_inv c' (hs @ [a]) ins cur \<and> lc_heap c' a = Some h
        \<and> lh_key h = key \<and> cur key hash = Some (lh_value h) \<and> lc_capacity c' = lc_capacity c)
    \<or> LRU_Lookup key hash c = Some (None, c)"
proof -
  obtain L U D where i: "lru_inv c (count_list hs) L U D" "lc_fresh c = length ins" "\<forall>a < length ins. deletion (D a) = ins ! a"
    "\<forall>a \<in> set (L @ U). cur (lh_key (D a)) (lh_hash (D a)) = Some (lh_value (D a))"
    "lc_capacity c = 0 \<longrightarrow> set (L @ U) = {}" using c by (auto simp: client_inv_def)
  have b: "\<forall>a. count_list hs a + 2 < 2 ^ 32"
  proof
    fix a show "count_list hs a + 2 < 2 ^ 32" using count_list_le [of hs a] n by simp
  qed
  from LRU_Lookup_inv [OF i(1) b, of key hash] consider
    (hit) a c' L' U' where "LRU_Lookup key hash c = Some (Some a, c')" "a \<in> set (L @ U)" "matches D key hash a"
      "lru_inv c' ((count_list hs)(a := Suc (count_list hs a))) L' U' D" "set (L' @ U') = set (L @ U)"
      "lc_capacity c' = lc_capacity c" "lc_fresh c' = lc_fresh c"
    | (miss) "LRU_Lookup key hash c = Some (None, c)" by blast
  then show ?thesis
  proof cases
    case hit
    have co: "core c' ((count_list hs)(a := Suc (count_list hs a))) L' U' D" using hit(4) by (simp add: lru_inv_def)
    obtain h where h: "lc_heap c' a = Some h" using coreD(7) [OF co, of a] hit(2,5) by (cases "lc_heap c' a") auto
    have "cur (lh_key (D a)) (lh_hash (D a)) = Some (lh_value (D a))" using i(4) hit(2) by blast
    then have "lh_key h = key" "cur key hash = Some (lh_value h)"
      using coreD(4) [OF co h, symmetric] hit(3) by (auto simp: matches_def)
    moreover have "client_inv c' (hs @ [a]) ins cur"
      unfolding client_inv_def count_list_snoc
      by (intro exI [of _ L'] exI [of _ U'] exI [of _ D] conjI) (use hit i in \<open>simp_all only: hit(5)\<close>)
    ultimately show ?thesis using hit(1,6) h by blast
  next
    case miss
    then show ?thesis by blast
  qed
qed

lemma client_Release:
  assumes c: "client_inv c hs ins cur" and j: "j < length hs"
  shows "\<exists>c'. LRU_Release (hs ! j) c = Some c' \<and> client_inv c' (take j hs @ drop (Suc j) hs) ins cur
    \<and> lc_capacity c' = lc_capacity c"
proof -
  obtain L U D where i: "lru_inv c (count_list hs) L U D" "lc_fresh c = length ins" "\<forall>a < length ins. deletion (D a) = ins ! a"
    "\<forall>a \<in> set (L @ U). cur (lh_key (D a)) (lh_hash (D a)) = Some (lh_value (D a))"
    "lc_capacity c = 0 \<longrightarrow> set (L @ U) = {}" using c by (auto simp: client_inv_def)
  have "0 < count_list hs (hs ! j)" using count_list_0_iff [of hs "hs ! j"] nth_mem [OF j] by (intro gr0I) simp
  from LRU_Release_inv [OF i(1) this] obtain c' L' U' where 1: "LRU_Release (hs ! j) c = Some c'"
    "lru_inv c' ((count_list hs)(hs ! j := count_list hs (hs ! j) - 1)) L' U' D" "set (L' @ U') = set (L @ U)"
    "lc_capacity c' = lc_capacity c" "lc_fresh c' = lc_fresh c" by blast
  have "client_inv c' (take j hs @ drop (Suc j) hs) ins cur"
    unfolding client_inv_def count_list_remove [OF j]
    by (intro exI [of _ L'] exI [of _ U'] exI [of _ D] conjI) (use 1 i in \<open>simp_all only: 1(3)\<close>)
  then show ?thesis using 1(1,4) by blast
qed

lemma client_Erase:
  assumes c: "client_inv c hs ins cur"
  shows "\<exists>c'. LRU_Erase key hash c = Some c'
    \<and> client_inv c' hs ins (\<lambda>k h. if key = k \<and> hash = h then None else cur k h)
    \<and> lc_capacity c' = lc_capacity c"
proof -
  obtain L U D where i: "lru_inv c (count_list hs) L U D" "lc_fresh c = length ins" "\<forall>a < length ins. deletion (D a) = ins ! a"
    "\<forall>a \<in> set (L @ U). cur (lh_key (D a)) (lh_hash (D a)) = Some (lh_value (D a))"
    "lc_capacity c = 0 \<longrightarrow> set (L @ U) = {}" using c by (auto simp: client_inv_def)
  from LRU_Erase_inv [OF i(1), of key hash] obtain c' L' U' where 1: "LRU_Erase key hash c = Some c'"
    "lru_inv c' (count_list hs) L' U' D" "set (L' @ U') = {a \<in> set (L @ U). \<not> matches D key hash a}"
    "lc_capacity c' = lc_capacity c" "lc_fresh c' = lc_fresh c" by blast
  have "(if key = lh_key (D a) \<and> hash = lh_hash (D a) then None else cur (lh_key (D a)) (lh_hash (D a))) = Some (lh_value (D a))"
    if "a \<in> set (L' @ U')" for a
    using that i(4) unfolding 1(3) by (auto simp: matches_def)
  moreover have "lc_capacity c' = 0 \<longrightarrow> set (L' @ U') = {}" using 1(4) i(5) unfolding 1(3) by auto
  ultimately have "client_inv c' hs ins (\<lambda>k h. if key = k \<and> hash = h then None else cur k h)"
    unfolding client_inv_def using 1(2,5) i(2,3) by (intro exI [of _ L'] exI [of _ U'] exI [of _ D]) simp
  then show ?thesis using 1(1,4) by blast
qed

lemma client_Prune:
  assumes c: "client_inv c hs ins cur"
  shows "\<exists>c'. LRU_Prune c = Some c' \<and> client_inv c' hs ins cur \<and> lc_capacity c' = lc_capacity c"
proof -
  obtain L U D where i: "lru_inv c (count_list hs) L U D" "lc_fresh c = length ins" "\<forall>a < length ins. deletion (D a) = ins ! a"
    "\<forall>a \<in> set (L @ U). cur (lh_key (D a)) (lh_hash (D a)) = Some (lh_value (D a))"
    "lc_capacity c = 0 \<longrightarrow> set (L @ U) = {}" using c by (auto simp: client_inv_def)
  obtain c' where 1: "LRU_Prune c = Some c'" "lru_inv c' (count_list hs) [] U D" "lc_capacity c' = lc_capacity c" "lc_fresh c' = lc_fresh c"
    using LRU_Prune_inv [OF i(1)] by blast
  have "client_inv c' hs ins cur"
    unfolding client_inv_def using 1(2-4) i(2-5) by (intro exI [of _ "[]"] exI [of _ U] exI [of _ D]) auto
  then show ?thesis using 1(1,3) by blast
qed

lemma count_list_Nil: "count_list [] = (\<lambda>_. 0)"
  by (rule ext) simp

lemma new_client_inv: "\<exists>c :: ('v, 'd) LRUCache. new_client capacity = Some (c, []) \<and> client_inv c [] [] (\<lambda>_ _. None)
  \<and> lc_capacity c = capacity"
proof -
  obtain c :: "('v, 'd) LRUCache" where c: "new_LRUCache = Some c" "lru_inv (SetCapacity capacity c) (\<lambda>_. 0) [] [] undefined"
    "lc_fresh (SetCapacity capacity c) = 0" using new_LRUCache_inv by blast
  have "client_inv (SetCapacity capacity c) [] [] (\<lambda>_ _. None)"
    unfolding client_inv_def count_list_Nil using c(2,3) by (intro exI [of _ "[]"] exI [of _ undefined]) simp
  moreover have "(new_client capacity :: (('v, 'd) LRUCache \<times> nat list) option) = Some (SetCapacity capacity c, [])"
    unfolding new_client_def c(1) by simp
  moreover have "lc_capacity (SetCapacity capacity c) = capacity" by (simp add: SetCapacity_def)
  ultimately show ?thesis by blast
qed

lemma do_calls_inv:
  "client_inv c hs ins cur \<Longrightarrow> length ins + length calls < 2 ^ 31 \<Longrightarrow> length hs + length calls < 2 ^ 31 \<Longrightarrow>
   \<exists>c' hs'. do_calls calls (c, hs) = Some (c', hs')
     \<and> client_inv c' hs' (ins @ inserted calls) (\<lambda>key hash. latest calls key hash (cur key hash))
     \<and> length hs' \<le> length hs + length calls \<and> lc_capacity c' = lc_capacity c"
proof (induction calls arbitrary: c hs ins cur)
  case (Cons call calls)
  have n: "length ins < 2 ^ 31" "length hs < 2 ^ 31" using Cons.prems(2,3) by simp_all
  have step: ?case
    if "do_call call (c, hs) = Some (c1, hs1)" "client_inv c1 hs1 ins1 cur1" "length ins1 \<le> Suc (length ins)" "length hs1 \<le> Suc (length hs)"
      "ins1 @ inserted calls = ins @ inserted (call # calls)"
      "\<And>key hash. latest calls key hash (cur1 key hash) = latest (call # calls) key hash (cur key hash)"
      "lc_capacity c1 = lc_capacity c"
    for c1 hs1 ins1 cur1
  proof -
    have "length ins1 + length calls < 2 ^ 31" "length hs1 + length calls < 2 ^ 31" using that(3,4) Cons.prems(2,3) by simp_all
    from Cons.IH [OF that(2) this] that(1,4,5,6,7) show ?thesis by fastforce
  qed
  show ?case
  proof (cases call)
    case (Call_Insert key hash v charge deleter)
    obtain c1 where "LRU_Insert key hash v charge deleter c = Some (length ins, c1)"
      "client_inv c1 (hs @ [length ins]) (ins @ [(deleter, key, v)]) (\<lambda>k h. if key = k \<and> hash = h then Some v else cur k h)" "lc_capacity c1 = lc_capacity c"
      using client_Insert [OF Cons.prems(1) n(1)] by blast
    then show ?thesis by (intro step [of c1 "hs @ [length ins]"]) (simp_all add: Call_Insert)
  next
    case (Call_Lookup key hash)
    from client_Lookup [OF Cons.prems(1) n(2), of key hash] consider
      (hit) a c1 where "LRU_Lookup key hash c = Some (Some a, c1)" "client_inv c1 (hs @ [a]) ins cur" "lc_capacity c1 = lc_capacity c"
      | (miss) "LRU_Lookup key hash c = Some (None, c)" by blast
    then show ?thesis
    proof cases
      case hit
      then show ?thesis by (intro step [of c1 "hs @ [a]"]) (simp_all add: Call_Lookup)
    next
      case miss
      then show ?thesis using Cons.prems(1) by (intro step [of c hs]) (simp_all add: Call_Lookup)
    qed
  next
    case (Call_Release i)
    show ?thesis
    proof (cases "i < length hs")
      case True
      obtain c1 where "LRU_Release (hs ! i) c = Some c1" "client_inv c1 (take i hs @ drop (Suc i) hs) ins cur" "lc_capacity c1 = lc_capacity c"
        using client_Release [OF Cons.prems(1) True] by blast
      then show ?thesis using True by (intro step [of c1 "take i hs @ drop (Suc i) hs"]) (simp_all add: Call_Release)
    next
      case False
      then show ?thesis using Cons.prems(1) by (intro step [of c hs]) (simp_all add: Call_Release)
    qed
  next
    case (Call_Erase key hash)
    obtain c1 where "LRU_Erase key hash c = Some c1" "client_inv c1 hs ins (\<lambda>k h. if key = k \<and> hash = h then None else cur k h)" "lc_capacity c1 = lc_capacity c"
      using client_Erase [OF Cons.prems(1)] by blast
    then show ?thesis by (intro step [of c1 hs]) (simp_all add: Call_Erase)
  next
    case Call_Prune
    obtain c1 where "LRU_Prune c = Some c1" "client_inv c1 hs ins cur" "lc_capacity c1 = lc_capacity c" using client_Prune [OF Cons.prems(1)] by blast
    then show ?thesis by (intro step [of c1 hs]) (simp_all add: Call_Prune)
  qed
qed simp

lemma inserted_length: "length (inserted calls) \<le> length calls"
  by (induction calls rule: inserted.induct) auto

text \<open>C32. No sequence of calls on a shard of the cache, with handles released once and none kept but those
  the cache gave out, fails an assertion, follows a freed pointer or loops forever, whatever the
  capacity. No deleter runs twice for an entry; and when all handles are released and the cache is
  destroyed, the deleter of every value ever inserted has run exactly once.\<close>

theorem lru_cache_safe:
  fixes calls :: "('v, 'd) cache_call list"
  assumes "length calls < 2 ^ 31"
  shows "\<exists>c hs. Option.bind (new_client capacity) (do_calls calls) = Some (c, hs)
    \<and> mset (lc_deleted c) \<subseteq># mset (inserted calls)
    \<and> (hs = [] \<longrightarrow> (\<exists>c'. delete_LRUCache c = Some c' \<and> mset (lc_deleted c') = mset (inserted calls)))"
proof -
  obtain c0 :: "('v, 'd) LRUCache" where c0: "new_client capacity = Some (c0, [])" "client_inv c0 [] [] (\<lambda>_ _. None)" using new_client_inv by blast
  obtain c hs cur where c: "do_calls calls (c0, []) = Some (c, hs)" "client_inv c hs (inserted calls) cur"
    using do_calls_inv [OF c0(2), of calls] assms by auto
  obtain L U D where i: "core c (count_list hs) L U D" "lc_fresh c = length (inserted calls)"
    "\<forall>a < length (inserted calls). deletion (D a) = inserted calls ! a" using c(2) by (auto simp: client_inv_def lru_inv_def)
  have all: "image_mset (\<lambda>a. deletion (D a)) (mset_set {0..<lc_fresh c}) = mset (inserted calls)"
  proof -
    have "mset (inserted calls) = mset (map (\<lambda>a. inserted calls ! a) [0..<length (inserted calls)])" by (simp add: map_nth)
    also have "\<dots> = image_mset (\<lambda>a. deletion (D a)) (mset_set {0..<lc_fresh c})"
      unfolding mset_map i(2) mset_upt [symmetric] using i(3) by (intro image_mset_cong) simp
    finally show ?thesis by simp
  qed
  have "freed c \<subseteq> {0..<lc_fresh c}" by (auto simp: freed_def)
  then have "mset_set (freed c) \<subseteq># mset_set {0..<lc_fresh c}" by (simp add: subset_imp_msubset_mset_set)
  then have "mset (lc_deleted c) \<subseteq># mset (inserted calls)"
    unfolding coreD(10) [OF i(1)] all [symmetric] by (rule image_mset_subseteq_mono)
  moreover have "\<exists>c'. delete_LRUCache c = Some c' \<and> mset (lc_deleted c') = mset (inserted calls)" if "hs = []"
    using delete_LRUCache_eq [of c L U D] i(1) that all by (simp add: count_list_Nil)
  ultimately show ?thesis using c0(1) c(1) by simp
qed

text \<open>C33. A lookup that hits after any such sequence of calls returns the entry that was inserted last for
  the key, with its value; never one that was replaced or erased.\<close>

theorem lru_cache_lookup_latest:
  fixes calls :: "('v, 'd) cache_call list"
  assumes "length calls < 2 ^ 31" "Option.bind (new_client capacity) (do_calls calls) = Some (c, hs)"
    and "LRU_Lookup key hash c = Some (Some a, c')"
  shows "\<exists>h. lc_heap c' a = Some h \<and> lh_key h = key \<and> latest calls key hash None = Some (lh_value h)"
proof -
  obtain c0 :: "('v, 'd) LRUCache" where c0: "new_client capacity = Some (c0, [])" "client_inv c0 [] [] (\<lambda>_ _. None)" using new_client_inv by blast
  have c: "client_inv c hs (inserted calls) (\<lambda>key hash. latest calls key hash None)" "length hs \<le> length calls"
    using do_calls_inv [OF c0(2), of calls] assms(1,2) c0(1) by auto
  from client_Lookup [OF c(1), of key hash] assms(1,3) c(2) show ?thesis by auto
qed

text \<open>C34. The cache knows what it holds, and evicts. After any sequence of calls and a further insertion, the
  usage is the sum of the charges of the entries in the hash table, each of which is there once and not
  freed; and it exceeds the capacity only if clients hold a handle to every one of these entries.\<close>

theorem lru_cache_capacity:
  fixes calls :: "('v, 'd) cache_call list"
  assumes "length calls < 2 ^ 31" "Option.bind (new_client capacity) (do_calls calls) = Some (c, hs)"
    and "LRU_Insert key hash v charge deleter c = Some (a, c')"
  shows "LRU_TotalCharge c = cached_charge c \<and> LRU_TotalCharge c' = cached_charge c'
    \<and> distinct (cached c') \<and> (\<forall>b \<in> set (cached c'). lc_heap c' b \<noteq> None)
    \<and> (LRU_TotalCharge c' \<le> capacity \<or> set (cached c') \<subseteq> set (hs @ [a]))"
proof -
  obtain c0 :: "('v, 'd) LRUCache" where c0: "new_client capacity = Some (c0, [])" "client_inv c0 [] [] (\<lambda>_ _. None)"
    "lc_capacity c0 = capacity" using new_client_inv by blast
  have c: "client_inv c hs (inserted calls) (\<lambda>key hash. latest calls key hash None)" and cap: "lc_capacity c = capacity"
    using do_calls_inv [OF c0(2), of calls] assms(1,2) c0(1,3) by auto
  have n: "length (inserted calls) < 2 ^ 31" using inserted_length [of calls] assms(1) by simp
  obtain hs' cur where c': "client_inv c' hs' (inserted calls @ [(deleter, key, v)]) cur"
    "lc_usage c' \<le> capacity \<or> set (cached c') \<subseteq> set (hs @ [a])"
    using client_Insert [OF c n, of key hash v charge deleter] assms(3) cap by auto
  show ?thesis
    using client_cached [OF c] client_cached [OF c'(1)] c'(2) by (simp add: LRU_TotalCharge_def)
qed

text \<open>A concrete run.\<close>

lemma example_table: "new_HandleTable = Some \<lparr>ht_length = 4, ht_elems = 0, ht_list = [[], [], [], []]\<rparr>"
proof -
  have "resize_length 4 0 = Some 4" by (simp add: resize_length.simps)
  moreover have "replicate 4 ([] :: nat list) = [[], [], [], []]" by (simp add: numeral_eq_Suc)
  ultimately show ?thesis by (simp add: new_HandleTable_def HandleTable_Resize_def)
qed

definition example_cache :: "((nat, unit) LRUCache \<times> nat list) option" where
  "example_cache = Option.bind (new_client 5) (do_calls [Call_Insert [1] 7 2 1 ()])"

lemmas cache_eval = example_cache_def new_client_def new_LRUCache_def example_table SetCapacity_def LRU_Insert_def Let_def
  put_entry_def LRU_Append_def HandleTable_Insert_def Handle_key_def FindPointer_def bucket_of_def pointed_def
  FinishErase_def evict_loop.simps HandleTable_Lookup_def LRU_Lookup_def LRU_Ref_def LRU_Remove_def Slice_neq_def
  node_access

lemma example_lookup: "\<exists>c hs a c'. example_cache = Some (c, hs) \<and> LRU_Lookup [1] 7 c = Some (Some a, c')"
  by (simp add: cache_eval)

lemma example_insert: "\<exists>c hs a c'. example_cache = Some (c, hs) \<and> LRU_Insert [2] 7 3 1 () c = Some (a, c')"
  by (simp add: cache_eval)

theorem lru_cache_safe_witness:
  "\<exists>c hs. Option.bind (new_client 1) (do_calls [Call_Insert [1] 7 (2 :: nat) 1 (), Call_Lookup [1] 7, Call_Release 0,
      Call_Insert [2] 7 3 1 (), Call_Release 1, Call_Release 0]) = Some (c, hs)
    \<and> mset (lc_deleted c) \<subseteq># {#((), [1], 2), ((), [2], 3)#}"
  using lru_cache_safe [of "[Call_Insert [1] 7 (2 :: nat) 1 (), Call_Lookup [1] 7, Call_Release 0,
      Call_Insert [2] 7 3 1 (), Call_Release 1, Call_Release 0]" 1]
  by auto

theorem lru_cache_lookup_latest_witness:
  "\<exists>c hs a c' h. example_cache = Some (c, hs) \<and> LRU_Lookup [1] 7 c = Some (Some a, c') \<and> lc_heap c' a = Some h
    \<and> lh_key h = [1] \<and> lh_value h = 2"
proof -
  obtain c hs a c' where e: "example_cache = Some (c, hs)" "LRU_Lookup [1] 7 c = Some (Some a, c')" using example_lookup by blast
  from lru_cache_lookup_latest [OF _ e(1) [unfolded example_cache_def] e(2)] e show ?thesis by auto
qed

theorem lru_cache_capacity_witness:
  "\<exists>c hs a c'. example_cache = Some (c, hs) \<and> LRU_Insert [2] 7 3 1 () c = Some (a, c')
    \<and> LRU_TotalCharge c' = cached_charge c' \<and> (LRU_TotalCharge c' \<le> 5 \<or> set (cached c') \<subseteq> set (hs @ [a]))"
proof -
  obtain c hs a c' where e: "example_cache = Some (c, hs)" "LRU_Insert [2] 7 3 1 () c = Some (a, c')" using example_insert by blast
  from lru_cache_capacity [OF _ e(1) [unfolded example_cache_def] e(2)] e show ?thesis by fastforce
qed

end
