(* ===== verification/Block_Cache.thy ===== *)
theory Block_Cache
  imports Cache_Correct
begin

text \<open>
  The interface of \<open>include/leveldb/cache.h\<close> as a record of its methods, with the contract its clients
  (tables and the table cache) rely on as the locale \<open>block_cache\<close>, and the proof that the sharded
  cache of \<open>util/cache.cc\<close> meets it.
\<close>

subsection \<open>The interface\<close>

record ('c, 'h, 'v, 'd) Cache =
  ch_Insert :: "Slice \<Rightarrow> 'v \<Rightarrow> u64 \<Rightarrow> 'd \<Rightarrow> 'c \<Rightarrow> ('h \<times> 'c) option"
  ch_Lookup :: "Slice \<Rightarrow> 'c \<Rightarrow> ('h option \<times> 'c) option"
  ch_Release :: "'h \<Rightarrow> 'c \<Rightarrow> 'c option"
  ch_Value :: "'h \<Rightarrow> 'c \<Rightarrow> 'v option"
  ch_Erase :: "Slice \<Rightarrow> 'c \<Rightarrow> 'c option"
  ch_NewId :: "'c \<Rightarrow> u64 \<times> 'c"
  ch_Prune :: "'c \<Rightarrow> 'c option"
  ch_TotalCharge :: "'c \<Rightarrow> u64"

definition ShardedLRUCache_ops :: "(('v, 'd) ShardedLRUCache, CacheHandle, 'v, 'd) Cache" where
  "ShardedLRUCache_ops =
     \<lparr>ch_Insert = Sharded_Insert, ch_Lookup = Sharded_Lookup, ch_Release = Sharded_Release, ch_Value = Sharded_Value,
      ch_Erase = Sharded_Erase, ch_NewId = Sharded_NewId, ch_Prune = Sharded_Prune, ch_TotalCharge = Sharded_TotalCharge\<rparr>"

text \<open>\<open>ok c Q hs\<close>: the cache \<open>c\<close> was only filled with pairs in \<open>Q\<close>, and clients hold the handles \<open>hs\<close>. A
  client holds fewer than \<open>2 ^ 31\<close> handles at a time, so that no reference count overflows, and charges
  at least 1 for an entry, so that the capacity bounds the number of entries.\<close>

locale block_cache =
  fixes ops :: "('c, 'h, 'v, 'd) Cache" and ok :: "'c \<Rightarrow> (Slice \<Rightarrow> 'v \<Rightarrow> bool) \<Rightarrow> 'h multiset \<Rightarrow> bool"
  assumes lookup: "ok c Q hs \<Longrightarrow> size hs + 1 < 2 ^ 31 \<Longrightarrow>
      (\<exists>c'. ch_Lookup ops key c = Some (None, c') \<and> ok c' Q hs)
      \<or> (\<exists>h v c'. ch_Lookup ops key c = Some (Some h, c') \<and> ch_Value ops h c' = Some v \<and> Q key v \<and> ok c' Q (add_mset h hs))"
    and insert: "ok c Q hs \<Longrightarrow> size hs + 1 < 2 ^ 31 \<Longrightarrow> Q key v \<Longrightarrow> 0 < charge \<Longrightarrow> unat charge < 2 ^ 32 \<Longrightarrow>
      \<exists>h c'. ch_Insert ops key v charge deleter c = Some (h, c') \<and> ch_Value ops h c' = Some v \<and> ok c' Q (add_mset h hs)"
    and release: "ok c Q (add_mset h hs) \<Longrightarrow> \<exists>c'. ch_Release ops h c = Some c' \<and> ok c' Q hs"
    and erase: "ok c Q hs \<Longrightarrow> \<exists>c'. ch_Erase ops key c = Some c' \<and> ok c' Q hs"
    and new_id: "ok c Q hs \<Longrightarrow> ok (snd (ch_NewId ops c)) Q hs"
    and weaken: "ok c Q hs \<Longrightarrow> (\<And>key v. Q key v \<Longrightarrow> Q' key v) \<Longrightarrow> ok c Q' hs"

subsection \<open>The sharded cache\<close>

definition shard_count :: "CacheHandle multiset \<Rightarrow> nat \<Rightarrow> nat \<Rightarrow> nat" where
  "shard_count hs i a = size {# (h, b) \<in># hs. Shard h = i \<and> b = a #}"

definition charges_ok :: "(nat \<Rightarrow> ('v, 'd) LRUHandle) \<Rightarrow> nat set \<Rightarrow> bool" where
  "charges_ok D T \<longleftrightarrow> (\<forall>a \<in> T. 0 < lh_charge (D a) \<and> unat (lh_charge (D a)) < 2 ^ 32)"

definition shard_ok :: "('v, 'd) LRUCache \<Rightarrow> (Slice \<Rightarrow> 'v \<Rightarrow> bool) \<Rightarrow> (nat \<Rightarrow> nat) \<Rightarrow> bool" where
  "shard_ok c Q H \<longleftrightarrow>
     unat (lc_capacity c) < 2 ^ 31
     \<and> (\<exists>L U D. lru_inv c H L U D \<and> card (set (L @ U)) < 2 ^ 31 \<and> charges_ok D (set (L @ U))
          \<and> (\<forall>a < lc_fresh c. Q (lh_key (D a)) (lh_value (D a))))"

definition sharded_ok :: "('v, 'd) ShardedLRUCache \<Rightarrow> (Slice \<Rightarrow> 'v \<Rightarrow> bool) \<Rightarrow> CacheHandle multiset \<Rightarrow> bool" where
  "sharded_ok c Q hs \<longleftrightarrow>
     length (sc_shard c) = kNumShards \<and> size hs < 2 ^ 31
     \<and> (\<forall>i < kNumShards. shard_ok (sc_shard c ! i) Q (shard_count hs i))"

lemma Shard_less: "Shard hash < kNumShards"
proof -
  have "unat (drop_bit 28 hash) = unat hash div 2 ^ 28" by (simp add: drop_bit_eq_div unat_div)
  moreover have "unat hash < 2 ^ 32" using unat_less_exp [of hash] by simp
  ultimately show ?thesis by (simp add: Shard_def kNumShards_def kNumShardBits_def less_mult_imp_div_less)
qed

lemma shard_count_add: "shard_count (add_mset (hash, a) hs) i
  = (shard_count hs i)(a := shard_count hs i a + (if Shard hash = i then 1 else 0))"
  by (auto simp: shard_count_def)

text \<open>The charges of few entries do not overflow, so their number is at most the usage.\<close>

lemma unat_charges:
  "finite T \<Longrightarrow> charges_ok D T \<Longrightarrow> card T \<le> 2 ^ 31 \<Longrightarrow>
   unat (\<Sum>a \<in> T. lh_charge (D a)) = (\<Sum>a \<in> T. unat (lh_charge (D a))) \<and> (\<Sum>a \<in> T. unat (lh_charge (D a))) \<le> card T * 2 ^ 32"
proof (induction T rule: finite_induct)
  case (insert a T)
  have c: "charges_ok D T" "unat (lh_charge (D a)) < 2 ^ 32" using insert.prems(1) by (simp_all add: charges_ok_def)
  have n: "card T + 1 \<le> 2 ^ 31" using insert by simp
  note IH = insert.IH [OF c(1)]
  have le: "unat (lh_charge (D a)) + (\<Sum>a \<in> T. unat (lh_charge (D a))) \<le> (card T + 1) * 2 ^ 32"
    using IH n c(2) by simp
  also have "\<dots> \<le> 2 ^ 31 * 2 ^ 32" using n by (rule mult_le_mono1)
  finally have "unat (lh_charge (D a)) + unat (\<Sum>a \<in> T. lh_charge (D a)) < 2 ^ 64" using IH n by simp
  then have "unat (lh_charge (D a) + (\<Sum>a \<in> T. lh_charge (D a))) = unat (lh_charge (D a)) + unat (\<Sum>a \<in> T. lh_charge (D a))"
    by (intro unat_add_lem [THEN iffD1]) simp
  then show ?case using insert.hyps IH n le by simp
qed simp

lemma card_le_charges:
  assumes "finite T" "charges_ok D T" "card T \<le> 2 ^ 31"
  shows "card T \<le> unat (\<Sum>a \<in> T. lh_charge (D a))"
proof -
  have "card T = (\<Sum>a \<in> T. 1)" by simp
  also have "\<dots> \<le> (\<Sum>a \<in> T. unat (lh_charge (D a)))"
    using assms(2) by (intro sum_mono) (simp add: charges_ok_def unat_gt_0 Suc_le_eq word_gt_0)
  finally show ?thesis using unat_charges [OF assms] by simp
qed

text \<open>As many entries of a shard are held as there are handles, at most.\<close>

lemma card_held: "finite {a. 0 < shard_count hs i a} \<and> card {a. 0 < shard_count hs i a} \<le> size hs"
proof -
  have sub: "{a. 0 < shard_count hs i a} \<subseteq> set_mset (image_mset snd hs)"
  proof
    fix a assume "a \<in> {a. 0 < shard_count hs i a}"
    then have "{# (h, b) \<in># hs. Shard h = i \<and> b = a #} \<noteq> {#}" unfolding shard_count_def mem_Collect_eq by (metis size_empty less_irrefl)
    then obtain x where "x \<in># {# (h, b) \<in># hs. Shard h = i \<and> b = a #}" by (rule multiset_nonemptyE)
    then show "a \<in> set_mset (image_mset snd hs)" by (cases x) (force simp: image_iff)
  qed
  have "mset_set (set_mset (image_mset snd hs)) \<subseteq># image_mset snd hs" by (rule mset_set_set_mset_msubset)
  from size_mset_mono [OF this] have "card (set_mset (image_mset snd hs)) \<le> size hs" by simp
  then show ?thesis using card_mono [OF finite_set_mset sub] finite_subset [OF sub finite_set_mset] by linarith
qed

text \<open>One shard changes, the others stay.\<close>

lemma sharded_ok_update:
  assumes c: "sharded_ok c Q hs" and s: "shard_ok s Q (shard_count hs' (Shard hash))" and m: "size hs' < 2 ^ 31"
    and o: "\<And>i. i \<noteq> Shard hash \<Longrightarrow> shard_count hs' i = shard_count hs i"
  shows "sharded_ok (c\<lparr>sc_shard := (sc_shard c)[Shard hash := s]\<rparr>) Q hs'"
proof -
  have "shard_ok ((sc_shard c)[Shard hash := s] ! i) Q (shard_count hs' i)" if i: "i < kNumShards" for i
    using c s i o [of i] by (cases "i = Shard hash") (simp_all add: sharded_ok_def)
  then show ?thesis using c m by (simp add: sharded_ok_def)
qed

lemma shard_count_le: "shard_count hs i a \<le> size hs"
  by (simp add: shard_count_def size_filter_mset_lesseq)

lemma shard_nth: "sharded_ok c Q hs \<Longrightarrow> shard_ok (sc_shard c ! Shard hash) Q (shard_count hs (Shard hash))"
  using Shard_less by (simp add: sharded_ok_def)

lemma shard_length: "sharded_ok c Q hs \<Longrightarrow> Shard hash < length (sc_shard c)"
  using Shard_less by (simp add: sharded_ok_def)

lemma shard_okE:
  assumes "shard_ok c Q H"
  obtains L U D where "unat (lc_capacity c) < 2 ^ 31" "lru_inv c H L U D" "card (set (L @ U)) < 2 ^ 31" "charges_ok D (set (L @ U))"
    "\<forall>a < lc_fresh c. Q (lh_key (D a)) (lh_value (D a))"
  using assms unfolding shard_ok_def by blast

lemma shard_okI:
  "unat (lc_capacity c) < 2 ^ 31 \<Longrightarrow> lru_inv c H L U D \<Longrightarrow> card (set (L @ U)) < 2 ^ 31 \<Longrightarrow> charges_ok D (set (L @ U)) \<Longrightarrow>
   \<forall>a < lc_fresh c. Q (lh_key (D a)) (lh_value (D a)) \<Longrightarrow> shard_ok c Q H"
  unfolding shard_ok_def by blast

lemma charges_ok_subset: "charges_ok D T \<Longrightarrow> S \<subseteq> T \<Longrightarrow> charges_ok D S"
  by (auto simp: charges_ok_def)

text \<open>After an eviction the number of entries is bounded by the capacity, or by the handles.\<close>

lemma evicted_few:
  assumes inv: "lru_inv c (shard_count hs i) L U D" and ev: "L = [] \<or> lc_usage c \<le> lc_capacity c"
    and ch: "charges_ok D (set (L @ U))" "card (set (L @ U)) \<le> 2 ^ 31" and b: "unat (lc_capacity c) < 2 ^ 31" "size hs < 2 ^ 31"
  shows "card (set (L @ U)) < 2 ^ 31"
proof (cases "L = []")
  case True
  have co: "core c (shard_count hs i) L U D" using inv by (simp add: lru_inv_def)
  have "set (L @ U) \<subseteq> {a. 0 < shard_count hs i a}" using coreD(9) [OF co] True by auto
  then have "card (set (L @ U)) \<le> size hs" using card_held [of hs i] by (meson card_mono order_trans)
  then show ?thesis using b(2) by simp
next
  case False
  have "lc_usage c = (\<Sum>a \<in> set (L @ U). lh_charge (D a))" using inv by (simp add: lru_inv_def)
  then have "card (set (L @ U)) \<le> unat (lc_usage c)" using card_le_charges [OF _ ch] by simp
  also have "\<dots> \<le> unat (lc_capacity c)" using ev False by (simp add: word_le_nat_alt)
  finally show ?thesis using b(1) by simp
qed

lemma Sharded_Insert_ok:
  assumes c: "sharded_ok c Q hs" and n: "size hs + 1 < 2 ^ 31" and q: "Q key v" and ch: "0 < charge" "unat charge < 2 ^ 32"
  shows "\<exists>h c'. Sharded_Insert key v charge deleter c = Some (h, c') \<and> Sharded_Value h c' = Some v \<and> sharded_ok c' Q (add_mset h hs)"
proof -
  let ?hash = "HashSlice key"
  let ?s = "sc_shard c ! Shard ?hash" and ?H = "shard_count hs (Shard ?hash)"
  obtain L U D where i: "unat (lc_capacity ?s) < 2 ^ 31" "lru_inv ?s ?H L U D" "card (set (L @ U)) < 2 ^ 31"
    "charges_ok D (set (L @ U))" "\<forall>a < lc_fresh ?s. Q (lh_key (D a)) (lh_value (D a))"
    using shard_nth [OF c, of ?hash] by (elim shard_okE)
  let ?a = "lc_fresh ?s" and ?D = "D(lc_fresh ?s := allocated key ?hash v charge deleter)"
  let ?S = "insert ?a {b \<in> set (L @ U). \<not> matches D key ?hash b}"
  obtain s' L' U' where s': "LRU_Insert key ?hash v charge deleter ?s = Some (?a, s')" "lru_inv s' (?H(?a := 1)) L' U' ?D"
    "lc_capacity s' = lc_capacity ?s" "lc_fresh s' = ?a + 1" "lc_capacity ?s = 0 \<longrightarrow> set (L' @ U') \<subseteq> set (L @ U)"
    "L' = [] \<or> lc_usage s' \<le> lc_capacity s'" "0 < lc_capacity ?s \<longrightarrow> set (L' @ U') \<subseteq> ?S"
    using LRU_Insert_inv [where key = key and hash = ?hash and v = v and charge = charge and deleter = deleter, OF i(2,3)] by blast
  have co: "core s' (?H(?a := 1)) L' U' ?D" using s'(2) by (simp add: lru_inv_def)
  have Ha: "?H ?a = 0" using fresh_address(2) i(2) unfolding lru_inv_def by blast
  then have cnt: "shard_count (add_mset (?hash, ?a) hs) (Shard ?hash) = ?H(?a := 1)" by (simp add: shard_count_add)
  have sub: "set (L' @ U') \<subseteq> insert ?a (set (L @ U))" using s'(5,7) by (cases "lc_capacity ?s = 0") (auto simp: word_gt_0)
  have "card (set (L' @ U')) \<le> card (insert ?a (set (L @ U)))" by (rule card_mono [OF _ sub]) simp
  also have "\<dots> \<le> card (set (L @ U)) + 1" by (simp add: card_insert_if)
  finally have few: "card (set (L' @ U')) \<le> 2 ^ 31" using i(3) by simp
  have "charges_ok ?D (insert ?a (set (L @ U)))" using i(4) ch by (auto simp: charges_ok_def allocated_def)
  then have charges: "charges_ok ?D (set (L' @ U'))" using sub by (rule charges_ok_subset)
  have "card (set (L' @ U')) < 2 ^ 31"
    by (rule evicted_few [OF s'(2) [folded cnt] s'(6) charges few]) (use s'(3) i(1) n in simp_all)
  moreover have "\<forall>a < lc_fresh s'. Q (lh_key (?D a)) (lh_value (?D a))" using i(5) q s'(4) by (auto simp: allocated_def less_Suc_eq)
  ultimately have sok: "shard_ok s' Q (shard_count (add_mset (?hash, ?a) hs) (Shard ?hash))"
    unfolding cnt using s'(2,3) i(1) charges by (intro shard_okI [of s' _ L' U' ?D]) simp_all
  obtain h where h: "lc_heap s' ?a = Some h" using coreD(6) [OF co, of ?a] by (cases "lc_heap s' ?a") auto
  have "lh_value h = v" using arg_cong [OF coreD(4) [OF co h], of lh_value] by (simp add: allocated_def)
  then have "Sharded_Value (?hash, ?a) (c\<lparr>sc_shard := (sc_shard c)[Shard ?hash := s']\<rparr>) = Some v"
    using h shard_length [OF c] by (simp add: Sharded_Value_def)
  moreover have "Sharded_Insert key v charge deleter c = Some ((?hash, ?a), c\<lparr>sc_shard := (sc_shard c)[Shard ?hash := s']\<rparr>)"
    using s'(1) by (simp add: Sharded_Insert_def on_shard_def Let_def)
  moreover have "sharded_ok (c\<lparr>sc_shard := (sc_shard c)[Shard ?hash := s']\<rparr>) Q (add_mset (?hash, ?a) hs)"
    by (rule sharded_ok_update [OF c sok]) (use n in \<open>auto simp: shard_count_add\<close>)
  ultimately show ?thesis by blast
qed

lemma Sharded_Lookup_ok:
  assumes c: "sharded_ok c Q hs" and n: "size hs + 1 < 2 ^ 31"
  shows "(\<exists>c'. Sharded_Lookup key c = Some (None, c') \<and> sharded_ok c' Q hs)
    \<or> (\<exists>h v c'. Sharded_Lookup key c = Some (Some h, c') \<and> Sharded_Value h c' = Some v \<and> Q key v \<and> sharded_ok c' Q (add_mset h hs))"
proof -
  let ?hash = "HashSlice key"
  let ?s = "sc_shard c ! Shard ?hash" and ?H = "shard_count hs (Shard ?hash)"
  obtain L U D where i: "unat (lc_capacity ?s) < 2 ^ 31" "lru_inv ?s ?H L U D" "card (set (L @ U)) < 2 ^ 31"
    "charges_ok D (set (L @ U))" "\<forall>a < lc_fresh ?s. Q (lh_key (D a)) (lh_value (D a))"
    using shard_nth [OF c, of ?hash] by (elim shard_okE)
  have b: "\<forall>a. ?H a + 2 < 2 ^ 32"
  proof
    fix a show "?H a + 2 < 2 ^ 32" using shard_count_le [of hs "Shard ?hash" a] n by simp
  qed
  from LRU_Lookup_inv [OF i(2) b, of key ?hash] consider
    (hit) a s' L' U' where "LRU_Lookup key ?hash ?s = Some (Some a, s')" "a \<in> set (L @ U)" "matches D key ?hash a"
      "lru_inv s' (?H(a := Suc (?H a))) L' U' D" "set (L' @ U') = set (L @ U)" "lc_capacity s' = lc_capacity ?s"
      "lc_fresh s' = lc_fresh ?s"
    | (miss) "LRU_Lookup key ?hash ?s = Some (None, ?s)" by blast
  then show ?thesis
  proof cases
    case hit
    have co: "core s' (?H(a := Suc (?H a))) L' U' D" using hit(4) by (simp add: lru_inv_def)
    obtain h where h: "lc_heap s' a = Some h" using coreD(7) [OF co, of a] hit(2,5) by (cases "lc_heap s' a") auto
    have Dh: "D a = data_of h" using coreD(4) [OF co h] by simp
    have "a < lc_fresh ?s" using lru_allocated [OF i(2) hit(2)] .
    then have "Q key (lh_value h)" using i(5) hit(3) Dh by (auto simp: matches_def)
    have cnt: "shard_count (add_mset (?hash, a) hs) (Shard ?hash) = ?H(a := Suc (?H a))" by (simp add: shard_count_add)
    have sok: "shard_ok s' Q (shard_count (add_mset (?hash, a) hs) (Shard ?hash))"
      unfolding cnt by (rule shard_okI [OF _ hit(4)]) (use hit(5-7) i in \<open>simp_all only:\<close>)
    have "Sharded_Lookup key c = Some (Some (?hash, a), c\<lparr>sc_shard := (sc_shard c)[Shard ?hash := s']\<rparr>)"
      using hit(1) by (simp add: Sharded_Lookup_def on_shard_def Let_def)
    moreover have "Sharded_Value (?hash, a) (c\<lparr>sc_shard := (sc_shard c)[Shard ?hash := s']\<rparr>) = Some (lh_value h)"
      using h shard_length [OF c] by (simp add: Sharded_Value_def)
    moreover have "sharded_ok (c\<lparr>sc_shard := (sc_shard c)[Shard ?hash := s']\<rparr>) Q (add_mset (?hash, a) hs)"
      by (rule sharded_ok_update [OF c sok]) (use n in \<open>auto simp: shard_count_add\<close>)
    ultimately show ?thesis using \<open>Q key (lh_value h)\<close> by blast
  next
    case miss
    have "sharded_ok (c\<lparr>sc_shard := (sc_shard c)[Shard ?hash := ?s]\<rparr>) Q hs"
      by (rule sharded_ok_update [OF c shard_nth [OF c]]) (use n in simp_all)
    moreover have "Sharded_Lookup key c = Some (None, c\<lparr>sc_shard := (sc_shard c)[Shard ?hash := ?s]\<rparr>)"
      using miss by (simp add: Sharded_Lookup_def on_shard_def Let_def)
    ultimately show ?thesis by blast
  qed
qed

lemma Sharded_Release_ok:
  assumes c: "sharded_ok c Q (add_mset h hs)"
  shows "\<exists>c'. Sharded_Release h c = Some c' \<and> sharded_ok c' Q hs"
proof -
  obtain hash a where h: "h = (hash, a)" by (cases h)
  let ?s = "sc_shard c ! Shard hash" and ?H = "shard_count (add_mset h hs) (Shard hash)"
  obtain L U D where i: "unat (lc_capacity ?s) < 2 ^ 31" "lru_inv ?s ?H L U D" "card (set (L @ U)) < 2 ^ 31"
    "charges_ok D (set (L @ U))" "\<forall>a < lc_fresh ?s. Q (lh_key (D a)) (lh_value (D a))"
    using shard_nth [OF c, of hash] by (elim shard_okE)
  have "0 < ?H a" by (simp add: shard_count_def h)
  from LRU_Release_inv [OF i(2) this] obtain s' L' U' where s': "LRU_Release a ?s = Some s'" "lru_inv s' (?H(a := ?H a - 1)) L' U' D"
    "set (L' @ U') = set (L @ U)" "lc_capacity s' = lc_capacity ?s" "lc_fresh s' = lc_fresh ?s" by blast
  have cnt: "shard_count hs (Shard hash) = ?H(a := ?H a - 1)" by (auto simp: h shard_count_add)
  have "shard_ok s' Q (shard_count hs (Shard hash))"
    unfolding cnt by (rule shard_okI [OF _ s'(2)]) (use s'(3-5) i in \<open>simp_all only:\<close>)
  then have "sharded_ok (c\<lparr>sc_shard := (sc_shard c)[Shard hash := s']\<rparr>) Q hs"
    by (rule sharded_ok_update [OF c]) (use c in \<open>auto simp: sharded_ok_def shard_count_add h\<close>)
  moreover have "Sharded_Release h c = Some (c\<lparr>sc_shard := (sc_shard c)[Shard hash := s']\<rparr>)"
    using s'(1) by (simp add: Sharded_Release_def on_shard_def h)
  ultimately show ?thesis by blast
qed

lemma Sharded_Erase_ok:
  assumes c: "sharded_ok c Q hs"
  shows "\<exists>c'. Sharded_Erase key c = Some c' \<and> sharded_ok c' Q hs"
proof -
  let ?hash = "HashSlice key"
  let ?s = "sc_shard c ! Shard ?hash" and ?H = "shard_count hs (Shard ?hash)"
  obtain L U D where i: "unat (lc_capacity ?s) < 2 ^ 31" "lru_inv ?s ?H L U D" "card (set (L @ U)) < 2 ^ 31"
    "charges_ok D (set (L @ U))" "\<forall>a < lc_fresh ?s. Q (lh_key (D a)) (lh_value (D a))"
    using shard_nth [OF c, of ?hash] by (elim shard_okE)
  from LRU_Erase_inv [OF i(2), of key ?hash] obtain s' L' U' where s': "LRU_Erase key ?hash ?s = Some s'"
    "lru_inv s' ?H L' U' D" "set (L' @ U') = {a \<in> set (L @ U). \<not> matches D key ?hash a}"
    "lc_capacity s' = lc_capacity ?s" "lc_fresh s' = lc_fresh ?s" by blast
  have sub: "set (L' @ U') \<subseteq> set (L @ U)" unfolding s'(3) by blast
  have "card (set (L' @ U')) \<le> card (set (L @ U))" by (rule card_mono [OF _ sub]) simp
  then have "shard_ok s' Q ?H"
    by (intro shard_okI [OF _ s'(2)] charges_ok_subset [OF i(4) sub]) (use s'(4,5) i(1,3,5) in simp_all)
  then have "sharded_ok (c\<lparr>sc_shard := (sc_shard c)[Shard ?hash := s']\<rparr>) Q hs"
    by (rule sharded_ok_update [OF c]) (use c in \<open>auto simp: sharded_ok_def\<close>)
  moreover have "Sharded_Erase key c = Some (c\<lparr>sc_shard := (sc_shard c)[Shard ?hash := s']\<rparr>)"
    using s'(1) by (simp add: Sharded_Erase_def on_shard_def Let_def)
  ultimately show ?thesis by blast
qed

lemma sharded_weaken: "sharded_ok c Q hs \<Longrightarrow> (\<And>key v. Q key v \<Longrightarrow> Q' key v) \<Longrightarrow> sharded_ok c Q' hs"
  unfolding sharded_ok_def shard_ok_def by meson

interpretation sharded: block_cache ShardedLRUCache_ops sharded_ok
proof
  fix c :: "('v, 'd) ShardedLRUCache" and Q hs key
  assume c: "sharded_ok c Q hs"
  show "(\<exists>c'. ch_Lookup ShardedLRUCache_ops key c = Some (None, c') \<and> sharded_ok c' Q hs)
      \<or> (\<exists>h v c'. ch_Lookup ShardedLRUCache_ops key c = Some (Some h, c') \<and> ch_Value ShardedLRUCache_ops h c' = Some v
           \<and> Q key v \<and> sharded_ok c' Q (add_mset h hs))" if "size hs + 1 < 2 ^ 31"
    using Sharded_Lookup_ok [OF c that] by (simp add: ShardedLRUCache_ops_def)
  show "\<exists>h c'. ch_Insert ShardedLRUCache_ops key v charge deleter c = Some (h, c')
      \<and> ch_Value ShardedLRUCache_ops h c' = Some v \<and> sharded_ok c' Q (add_mset h hs)"
    if "size hs + 1 < 2 ^ 31" "Q key v" "0 < charge" "unat charge < 2 ^ 32" for v charge deleter
    using Sharded_Insert_ok [where Q = Q, OF c that] by (simp add: ShardedLRUCache_ops_def)
  show "\<exists>c'. ch_Erase ShardedLRUCache_ops key c = Some c' \<and> sharded_ok c' Q hs"
    using Sharded_Erase_ok [OF c] by (simp add: ShardedLRUCache_ops_def)
  show "sharded_ok (snd (ch_NewId ShardedLRUCache_ops c)) Q hs"
    using c by (simp add: ShardedLRUCache_ops_def Sharded_NewId_def sharded_ok_def)
  show "sharded_ok c Q' hs" if "\<And>key v. Q key v \<Longrightarrow> Q' key v" for Q' by (rule sharded_weaken [OF c that])
next
  fix c :: "('v, 'd) ShardedLRUCache" and Q h hs
  assume c: "sharded_ok c Q (add_mset h hs)"
  show "\<exists>c'. ch_Release ShardedLRUCache_ops h c = Some c' \<and> sharded_ok c' Q hs"
    using Sharded_Release_ok [OF c] by (simp add: ShardedLRUCache_ops_def)
qed

lemma NewLRUCache_ok:
  fixes Q :: "Slice \<Rightarrow> 'v \<Rightarrow> bool"
  assumes n: "unat capacity < 2 ^ 34"
  shows "\<exists>c :: ('v, 'd) ShardedLRUCache. NewLRUCache capacity = Some c \<and> sharded_ok c Q {#}"
proof -
  let ?per_shard = "(capacity + (word_of_nat kNumShards - 1)) div word_of_nat kNumShards"
  obtain c :: "('v, 'd) LRUCache" where c: "new_LRUCache = Some c" "lru_inv (SetCapacity ?per_shard c) (\<lambda>_. 0) [] [] undefined"
    "lc_capacity (SetCapacity ?per_shard c) = ?per_shard" "lc_fresh (SetCapacity ?per_shard c) = 0" using new_LRUCache_inv by blast
  have "unat (capacity + 15) = unat capacity + 15" using n by (intro unat_add_lem [THEN iffD1, of capacity 15, simplified]) simp
  then have "unat ?per_shard = (unat capacity + 15) div 16" by (simp add: kNumShards_def kNumShardBits_def unat_div)
  then have cap: "unat ?per_shard < 2 ^ 31" using n by simp
  have "shard_count {#} i = (\<lambda>_. 0)" for i by (simp add: shard_count_def fun_eq_iff)
  moreover have "shard_ok (SetCapacity ?per_shard c) Q (\<lambda>_. 0)"
    by (rule shard_okI [OF _ c(2)]) (use c(3,4) cap in \<open>simp_all add: charges_ok_def\<close>)
  ultimately have "sharded_ok \<lparr>sc_shard = replicate kNumShards (SetCapacity ?per_shard c), sc_last_id = 0\<rparr> Q {#}"
    by (simp add: sharded_ok_def)
  moreover have "NewLRUCache capacity = Some \<lparr>sc_shard = replicate kNumShards (SetCapacity ?per_shard c), sc_last_id = 0\<rparr>"
    unfolding NewLRUCache_def new_ShardedLRUCache_def Let_def c(1) by simp
  ultimately show ?thesis by blast
qed

end
