(* ===== verification/Filter_Block.thy ===== *)
theory Filter_Block
  imports Bloom
begin

text \<open>
  \<open>table/filter_block.h\<close> and \<open>table/filter_block.cc\<close>: one filter for every 2KB of table data.
  The builder's abstract view is the list of key groups its filters summarise and the group
  under construction; the reader is shown to find the filter of the group a key was added to.
\<close>

subsection \<open>The builder\<close>

definition kFilterBaseLg :: nat where "kFilterBaseLg = 11"

definition kFilterBase :: u64 where "kFilterBase = push_bit kFilterBaseLg 1"

record FilterBlockBuilder =
  fb_policy :: FilterPolicy
  fb_keys :: bytes
  fb_start :: "nat list"
  fb_result :: bytes
  fb_tmp_keys :: "Slice list"
  fb_filter_offsets :: "u32 list"

definition new_FilterBlockBuilder :: "FilterPolicy \<Rightarrow> FilterBlockBuilder" where
  "new_FilterBlockBuilder policy =
     \<lparr>fb_policy = policy, fb_keys = [], fb_start = [], fb_result = [], fb_tmp_keys = [],
      fb_filter_offsets = []\<rparr>"

definition GenerateFilter :: "FilterBlockBuilder \<Rightarrow> FilterBlockBuilder" where
  "GenerateFilter b =
     (let num_keys = length (fb_start b);
          offset = word_of_nat (length (fb_result b))
      in if num_keys = 0
         then b\<lparr>fb_filter_offsets := fb_filter_offsets b @ [offset]\<rparr>
         else let start = fb_start b @ [length (fb_keys b)];
                  tmp_keys = map (\<lambda>i. take (start ! (i + 1) - start ! i) (drop (start ! i) (fb_keys b)))
                               [0..<num_keys]
              in b\<lparr>fb_filter_offsets := fb_filter_offsets b @ [offset],
                   fb_result := CreateFilter (fb_policy b) tmp_keys (fb_result b),
                   fb_tmp_keys := [], fb_keys := [], fb_start := []\<rparr>)"

lemma length_GenerateFilter_offsets [simp]:
  "length (fb_filter_offsets (GenerateFilter b)) = Suc (length (fb_filter_offsets b))"
  by (simp add: GenerateFilter_def Let_def)

function StartBlock_loop :: "nat \<Rightarrow> FilterBlockBuilder \<Rightarrow> FilterBlockBuilder" where
  "StartBlock_loop filter_index b =
     (if filter_index > length (fb_filter_offsets b)
      then StartBlock_loop filter_index (GenerateFilter b) else b)"
  by auto
termination
  by (relation "measure (\<lambda>(i, b). i - length (fb_filter_offsets b))") auto

declare StartBlock_loop.simps [simp del]

text \<open>The assertion on the order of the offsets is the option.\<close>

definition StartBlock :: "u64 \<Rightarrow> FilterBlockBuilder \<Rightarrow> FilterBlockBuilder option" where
  "StartBlock block_offset b =
     (let filter_index = unat (block_offset div kFilterBase)
      in if filter_index \<ge> length (fb_filter_offsets b) then Some (StartBlock_loop filter_index b)
         else None)"

definition FilterBlock_AddKey :: "Slice \<Rightarrow> FilterBlockBuilder \<Rightarrow> FilterBlockBuilder" where
  "FilterBlock_AddKey key b =
     b\<lparr>fb_start := fb_start b @ [length (fb_keys b)], fb_keys := fb_keys b @ key\<rparr>"

definition FilterBlock_Finish :: "FilterBlockBuilder \<Rightarrow> FilterBlockBuilder \<times> Slice" where
  "FilterBlock_Finish b =
     (let b = (if fb_start b \<noteq> [] then GenerateFilter b else b);
          array_offset = (word_of_nat (length (fb_result b)) :: u32);
          result = fold (\<lambda>off dst. PutFixed32 dst off) (fb_filter_offsets b) (fb_result b);
          result = PutFixed32 result array_offset;
          result = result @ [word_of_nat kFilterBaseLg]
      in (b\<lparr>fb_result := result\<rparr>, result))"

subsection \<open>The reader\<close>

text \<open>\<open>data_\<close> and \<open>offset_\<close> are null when the contents are malformed; \<open>offset_\<close> is kept as its
  distance from \<open>data_\<close>. The last byte is a \<open>char\<close>, so it is sign-extended to \<open>size_t\<close>; a
  shift by 64 or more, which C leaves undefined, gives 0 here.\<close>

record FilterBlockReader =
  fr_policy :: FilterPolicy
  fr_data :: "bytes option"
  fr_offset :: nat
  fr_num :: nat
  fr_base_lg :: nat

definition new_FilterBlockReader :: "FilterPolicy \<Rightarrow> Slice \<Rightarrow> FilterBlockReader" where
  "new_FilterBlockReader policy contents =
     (let n = length contents;
          r = \<lparr>fr_policy = policy, fr_data = None, fr_offset = 0, fr_num = 0, fr_base_lg = 0\<rparr>
      in if n < 5 then r
         else let r = r\<lparr>fr_base_lg := unat (scast (contents ! (n - 1)) :: u64)\<rparr>
              in (case DecodeFixed32 (drop (n - 5) contents) of
                    None \<Rightarrow> r
                  | Some last_word \<Rightarrow>
                      if unat last_word > n - 5 then r
                      else r\<lparr>fr_data := Some contents, fr_offset := unat last_word,
                             fr_num := (n - 5 - unat last_word) div 4\<rparr>))"

text \<open>\<^term>\<open>None\<close> is a read outside the contents.\<close>

definition FilterBlock_KeyMayMatch :: "FilterBlockReader \<Rightarrow> u64 \<Rightarrow> Slice \<Rightarrow> bool option" where
  "FilterBlock_KeyMayMatch r block_offset key =
     (let index = unat (drop_bit (fr_base_lg r) block_offset)
      in if index < fr_num r then
           (case fr_data r of
              None \<Rightarrow> None
            | Some data \<Rightarrow>
                (case (DecodeFixed32 (drop (fr_offset r + index * 4) data),
                       DecodeFixed32 (drop (fr_offset r + index * 4 + 4) data)) of
                   (Some start, Some limit) \<Rightarrow>
                     if start \<le> limit \<and> unat limit \<le> fr_offset r
                     then Some (KeyMayMatch (fr_policy r) key
                                  (take (unat (limit - start)) (drop (unat start) data)))
                     else if start = limit then Some False
                     else Some True
                 | _ \<Rightarrow> None))
         else Some True)"

subsection \<open>Reads stay inside the contents\<close>

lemma new_FilterBlockReader_wf:
  fixes policy contents
  defines "r \<equiv> new_FilterBlockReader policy contents"
  shows "fr_num r = 0 \<or>
    (fr_data r = Some contents \<and> fr_offset r + 4 * fr_num r + 5 \<le> length contents)"
  by (auto simp: r_def new_FilterBlockReader_def Let_def split: option.splits)

lemma FilterBlock_KeyMayMatch_in_bounds:
  "FilterBlock_KeyMayMatch (new_FilterBlockReader policy contents) off key \<noteq> None"
proof -
  let ?r = "new_FilterBlockReader policy contents"
  let ?i = "unat (drop_bit (fr_base_lg ?r) off)"
  show ?thesis
  proof (cases "?i < fr_num ?r")
    case True
    then have d: "fr_data ?r = Some contents" and b: "fr_offset ?r + 4 * ?i + 8 \<le> length contents"
      using new_FilterBlockReader_wf [of policy contents] by auto
    have "DecodeFixed32 (drop (fr_offset ?r + ?i * 4) contents) \<noteq> None"
      "DecodeFixed32 (drop (fr_offset ?r + ?i * 4 + 4) contents) \<noteq> None"
      using b by (simp_all add: DecodeFixed32_None_iff)
    then show ?thesis
      using True d by (auto simp: FilterBlock_KeyMayMatch_def Let_def)
  qed (simp add: FilterBlock_KeyMayMatch_def Let_def)
qed

subsection \<open>The groups of keys behind a builder\<close>

fun build_blocks :: "(u64 \<times> Slice list) list \<Rightarrow> FilterBlockBuilder \<Rightarrow> FilterBlockBuilder option" where
  "build_blocks [] b = Some b"
| "build_blocks ((off, keys) # blocks) b =
     (case StartBlock off b of
        None \<Rightarrow> None
      | Some b \<Rightarrow> build_blocks blocks (fold FilterBlock_AddKey keys b))"

definition chunk :: "FilterPolicy \<Rightarrow> Slice list \<Rightarrow> bytes" where
  "chunk policy keys = (if keys = [] then [] else CreateFilter policy keys [])"

definition offsets_of :: "FilterPolicy \<Rightarrow> Slice list list \<Rightarrow> u32 list" where
  "offsets_of policy groups =
     map (\<lambda>i. word_of_nat (length (concat (map (chunk policy) (take i groups))))) [0..<length groups]"

definition starts_of :: "Slice list \<Rightarrow> nat list" where
  "starts_of cur = map (\<lambda>i. length (concat (take i cur))) [0..<length cur]"

definition represents :: "FilterBlockBuilder \<Rightarrow> Slice list list \<Rightarrow> Slice list \<Rightarrow> bool" where
  "represents b groups cur \<longleftrightarrow>
     fb_keys b = concat cur \<and> fb_start b = starts_of cur
     \<and> fb_result b = concat (map (chunk (fb_policy b)) groups)
     \<and> fb_filter_offsets b = offsets_of (fb_policy b) groups"

lemma represents_new: "represents (new_FilterBlockBuilder policy) [] []"
  by (simp add: represents_def new_FilterBlockBuilder_def offsets_of_def starts_of_def)

lemma starts_of_snoc: "starts_of (cur @ [k]) = starts_of cur @ [length (concat cur)]"
  by (simp add: starts_of_def)

lemma offsets_of_snoc:
  "offsets_of p (gs @ [g]) = offsets_of p gs @ [word_of_nat (length (concat (map (chunk p) gs)))]"
  by (simp add: offsets_of_def)

lemma represents_AddKey:
  "represents b groups cur \<Longrightarrow> represents (FilterBlock_AddKey k b) groups (cur @ [k])"
  by (simp add: represents_def FilterBlock_AddKey_def starts_of_snoc)

lemma represents_AddKeys:
  "represents b groups cur \<Longrightarrow> represents (fold FilterBlock_AddKey ks b) groups (cur @ ks)"
proof (induction ks arbitrary: b cur)
  case (Cons k ks)
  then show ?case
    using Cons.IH [OF represents_AddKey, of b cur k] by simp
qed simp

lemma length_starts_of [simp]: "length (starts_of cur) = length cur"
  by (simp add: starts_of_def)

lemma nth_starts_of: "i \<le> length cur \<Longrightarrow>
   (starts_of cur @ [length (concat cur)]) ! i = length (concat (take i cur))"
  by (auto simp: starts_of_def nth_append)

lemma concat_take_Suc: "i < length xs \<Longrightarrow> concat (take (Suc i) xs) = concat (take i xs) @ xs ! i"
  by (simp add: take_Suc_conv_app_nth)

lemma concat_at: "i < length xs \<Longrightarrow>
   concat xs = concat (take i xs) @ xs ! i @ concat (drop (Suc i) xs)"
  by (metis append_take_drop_id concat.simps(2) concat_append Cons_nth_drop_Suc)

lemma drop_concat_take: "i < length xs \<Longrightarrow>
   drop (length (concat (take i xs))) (concat xs @ ys) = xs ! i @ concat (drop (Suc i) xs) @ ys"
proof -
  assume "i < length xs"
  then have "concat xs @ ys = concat (take i xs) @ xs ! i @ concat (drop (Suc i) xs) @ ys"
    using concat_at [of i xs] by simp
  then show ?thesis by (simp del: drop_append)
qed

lemma unflatten:
  fixes cur :: "Slice list"
  defines "start \<equiv> starts_of cur @ [length (concat cur)]"
  shows "map (\<lambda>i. take (start ! (i + 1) - start ! i) (drop (start ! i) (concat cur))) [0..<length cur]
    = cur"
proof (rule nth_equalityI)
  fix i assume "i < length (map (\<lambda>i. take (start ! (i + 1) - start ! i)
    (drop (start ! i) (concat cur))) [0..<length cur])"
  then show "map (\<lambda>i. take (start ! (i + 1) - start ! i) (drop (start ! i) (concat cur)))
    [0..<length cur] ! i = cur ! i"
    using drop_concat_take [of i cur "[]"]
    by (simp add: start_def nth_starts_of concat_take_Suc)
qed simp

context filter_policy
begin

lemma represents_GenerateFilter:
  assumes "represents b groups cur" "fb_policy b = policy"
  shows "represents (GenerateFilter b) (groups @ [cur]) [] \<and> fb_policy (GenerateFilter b) = policy"
proof -
  have "CreateFilter policy cur (fb_result b) = fb_result b @ CreateFilter policy cur []"
    by (rule appends)
  then show ?thesis
    using assms unflatten [of cur]
    by (cases cur) (simp_all add: represents_def GenerateFilter_def Let_def offsets_of_snoc chunk_def
        starts_of_def [of "[]"])
qed

end

definition located :: "Slice list list \<Rightarrow> Slice list \<Rightarrow> nat \<Rightarrow> Slice \<Rightarrow> bool" where
  "located groups cur g k \<longleftrightarrow>
     (g < length groups \<and> k \<in> set (groups ! g)) \<or> (g = length groups \<and> k \<in> set cur)"

lemma located_flush: "located groups cur g k \<Longrightarrow> located (groups @ [cur]) [] g k"
  by (auto simp: located_def nth_append)

lemma located_add: "located groups cur g k \<Longrightarrow> located groups (cur @ ks) g k"
  by (auto simp: located_def)

lemma length_offsets: "represents b groups cur \<Longrightarrow> length (fb_filter_offsets b) = length groups"
  by (simp add: represents_def offsets_of_def)

context filter_policy
begin

lemma StartBlock_loop_represents:
  assumes "represents b groups cur" "fb_policy b = policy" "length groups \<le> i"
  shows "\<exists>groups' cur'. represents (StartBlock_loop i b) groups' cur' \<and> length groups' = i
    \<and> fb_policy (StartBlock_loop i b) = policy
    \<and> (\<forall>g k. located groups cur g k \<longrightarrow> located groups' cur' g k)"
  using assms
proof (induction i b arbitrary: groups cur rule: StartBlock_loop.induct)
  case (1 i b)
  show ?case
  proof (cases "length groups < i")
    case True
    have "\<exists>groups' cur'. represents (StartBlock_loop i (GenerateFilter b)) groups' cur'
      \<and> length groups' = i \<and> fb_policy (StartBlock_loop i (GenerateFilter b)) = policy
      \<and> (\<forall>g k. located (groups @ [cur]) [] g k \<longrightarrow> located groups' cur' g k)"
      using True 1 represents_GenerateFilter [of b groups cur] length_offsets [of b groups cur]
      by (intro "1.IH") auto
    moreover have "StartBlock_loop i b = StartBlock_loop i (GenerateFilter b)"
      using True 1 length_offsets [of b groups cur] by (subst StartBlock_loop.simps) simp
    ultimately show ?thesis
      using located_flush by fastforce
  next
    case False
    then show ?thesis
      using 1 length_offsets [of b groups cur]
      by (subst (1 2) StartBlock_loop.simps) (auto intro!: exI [of _ groups] exI [of _ cur])
  qed
qed

lemma build_blocks_represents:
  assumes "build_blocks blocks b = Some b'" "represents b groups cur" "fb_policy b = policy"
  shows "\<exists>groups' cur'. represents b' groups' cur' \<and> fb_policy b' = policy
    \<and> (\<forall>g k. located groups cur g k \<longrightarrow> located groups' cur' g k)
    \<and> (\<forall>(off, keys) \<in> set blocks. \<forall>k \<in> set keys. located groups' cur' (unat (off div kFilterBase)) k)"
  using assms
proof (induction blocks b arbitrary: groups cur rule: build_blocks.induct)
  case (2 off keys blocks b)
  let ?i = "unat (off div kFilterBase)"
  from 2(2) obtain b1 where b1: "StartBlock off b = Some b1"
    and rest: "build_blocks blocks (fold FilterBlock_AddKey keys b1) = Some b'"
    by (auto split: option.splits)
  then have i: "length groups \<le> ?i" and "b1 = StartBlock_loop ?i b"
    using length_offsets [OF 2(3)] by (auto simp: StartBlock_def Let_def split: if_splits)
  then obtain g1 c1 where g1: "represents b1 g1 c1" "length g1 = ?i" "fb_policy b1 = policy"
    "\<And>g k. located groups cur g k \<Longrightarrow> located g1 c1 g k"
    using StartBlock_loop_represents [OF 2(3,4) i] by blast
  have pol: "fb_policy (fold FilterBlock_AddKey ks x) = fb_policy x" for ks x
    by (induction ks arbitrary: x) (auto simp: FilterBlock_AddKey_def)
  obtain g2 c2 where g2: "represents b' g2 c2" "fb_policy b' = policy"
    "\<And>g k. located g1 (c1 @ keys) g k \<Longrightarrow> located g2 c2 g k"
    "\<forall>(off, keys) \<in> set blocks. \<forall>k \<in> set keys. located g2 c2 (unat (off div kFilterBase)) k"
    using 2(1) [OF b1 rest represents_AddKeys [OF g1(1)]] pol g1(3) by auto
  have "located g2 c2 ?i k" if "k \<in> set keys" for k
    using that g1(2) by (intro g2(3)) (simp add: located_def)
  then show ?case
    using g1(4) g2 located_add by (intro exI [of _ g2] exI [of _ c2]) auto
qed auto

end

text \<open>Offsets that do not decrease satisfy the assertion of \<open>StartBlock\<close>.\<close>

lemma StartBlock_loop_length: "length (fb_filter_offsets b) \<le> i \<Longrightarrow>
   length (fb_filter_offsets (StartBlock_loop i b)) = i"
proof (induction i b rule: StartBlock_loop.induct)
  case (1 i b)
  then show ?case
    by (subst StartBlock_loop.simps) auto
qed

lemma AddKeys_offsets [simp]:
  "fb_filter_offsets (fold FilterBlock_AddKey ks b) = fb_filter_offsets b"
  by (induction ks arbitrary: b) (auto simp: FilterBlock_AddKey_def)

lemma build_blocks_defined:
  assumes "sorted (map fst blocks)"
    and "\<And>off. off \<in> fst ` set blocks \<Longrightarrow> length (fb_filter_offsets b) \<le> unat (off div kFilterBase)"
  shows "build_blocks blocks b \<noteq> None"
  using assms
proof (induction blocks b rule: build_blocks.induct)
  case (2 off keys blocks b)
  let ?b1 = "StartBlock_loop (unat (off div kFilterBase)) b"
  have st: "StartBlock off b = Some ?b1"
    using 2(3) by (simp add: StartBlock_def Let_def)
  have "length (fb_filter_offsets ?b1) = unat (off div kFilterBase)"
    using 2(3) by (intro StartBlock_loop_length) simp
  moreover have "unat (off div kFilterBase) \<le> unat (off' div kFilterBase)" if "off' \<in> fst ` set blocks" for off'
    using that 2(2) by (force simp: unat_div word_le_nat_alt intro: div_le_mono)
  ultimately have "build_blocks blocks (fold FilterBlock_AddKey keys ?b1) \<noteq> None"
    using 2(2) by (intro 2(1) [OF st]) auto
  then show ?case by (simp add: st)
qed simp

subsection \<open>Reading what was built\<close>

definition filter_contents :: "FilterPolicy \<Rightarrow> Slice list list \<Rightarrow> bytes" where
  "filter_contents policy groups =
     concat (map (chunk policy) groups)
     @ concat (map EncodeFixed32
         (offsets_of policy groups @ [word_of_nat (length (concat (map (chunk policy) groups)))]))
     @ [word_of_nat kFilterBaseLg]"

lemma Finish_contents:
  "fb_start b = [] \<or> groups \<noteq> [] \<Longrightarrow> represents b groups [] \<Longrightarrow>
   snd (FilterBlock_Finish b) = filter_contents (fb_policy b) groups"
  by (simp add: FilterBlock_Finish_def Let_def filter_contents_def represents_def
      starts_of_def PutFixed32_def fold_append)

lemma offsets_array_nth:
  "i \<le> length groups \<Longrightarrow>
   (offsets_of p groups @ [word_of_nat (length (concat (map (chunk p) groups)))]) ! i
   = word_of_nat (length (concat (map (chunk p) (take i groups))))"
  by (auto simp: offsets_of_def nth_append)

lemma kFilterBase_div: "unat (off div kFilterBase) = unat (drop_bit 11 off)"
  by (simp add: kFilterBase_def kFilterBaseLg_def unat_div unat_drop_bit)

lemma length_offsets_of [simp]: "length (offsets_of p groups) = length groups"
  by (simp add: offsets_of_def)

context filter_policy
begin

lemma Finish_represents:
  assumes "represents b groups cur" "fb_policy b = policy"
  shows "\<exists>groups'. snd (FilterBlock_Finish b) = filter_contents policy groups'
    \<and> (\<forall>g k. located groups cur g k \<longrightarrow> g < length groups' \<and> k \<in> set (groups' ! g))"
proof (cases "cur = []")
  case True
  then have "fb_start b = []"
    using assms by (simp add: represents_def starts_of_def)
  then show ?thesis
    using True assms Finish_contents [of b groups] by (auto simp: located_def)
next
  case False
  have gen: "represents (GenerateFilter b) (groups @ [cur]) []" "fb_policy (GenerateFilter b) = policy"
    using represents_GenerateFilter [OF assms] by auto
  have "fb_start b \<noteq> []" "fb_start (GenerateFilter b) = []"
    using False assms gen by (auto simp: represents_def starts_of_def)
  then have "snd (FilterBlock_Finish b) = snd (FilterBlock_Finish (GenerateFilter b))"
    by (simp add: FilterBlock_Finish_def Let_def)
  also have "\<dots> = filter_contents policy (groups @ [cur])"
    using Finish_contents [OF _ gen(1)] gen(2) by simp
  finally show ?thesis
    by (intro exI [of _ "groups @ [cur]"]) (auto simp: located_def nth_append)
qed

text \<open>The reader finds group \<open>g\<close> of the contents for every offset that falls in its range.\<close>

lemma reader_finds_group:
  assumes g: "g < length groups" "k \<in> set (groups ! g)" "g = unat (off div kFilterBase)"
    and size: "length (filter_contents policy groups) < 2 ^ 32"
  shows "FilterBlock_KeyMayMatch (new_FilterBlockReader policy (filter_contents policy groups)) off k
    = Some True"
proof -
  let ?c = "filter_contents policy groups"
  let ?res = "concat (map (chunk policy) groups)"
  let ?offs = "offsets_of policy groups @ [word_of_nat (length ?res)] :: u32 list"
  let ?pre = "\<lambda>i. length (concat (map (chunk policy) (take i groups)))"
  have c: "?c = ?res @ concat (map EncodeFixed32 ?offs) @ [word_of_nat kFilterBaseLg]"
    by (simp add: filter_contents_def)
  have len: "length ?c = length ?res + 4 * length groups + 5"
    by (simp only: c) simp
  have small: "length ?res < 2 ^ 32"
    using size len by simp
  have lw: "DecodeFixed32 (drop (length ?c - 5) ?c) = Some (word_of_nat (length ?res))"
    by (simp add: len) (simp add: c)
  have lg: "unat (scast (?c ! (length ?c - 1)) :: u64) = 11"
    by (simp only: len) (simp add: c nth_append kFilterBaseLg_def)
  have r: "new_FilterBlockReader policy ?c =
     \<lparr>fr_policy = policy, fr_data = Some ?c, fr_offset = length ?res, fr_num = length groups,
      fr_base_lg = 11\<rparr>"
    using lw lg len small by (simp add: new_FilterBlockReader_def Let_def unat_of_nat_u32)
  have d: "DecodeFixed32 (drop (length ?res + 4 * i) ?c) = Some (word_of_nat (?pre i))"
    if "i \<le> length groups" for i
  proof -
    have "DecodeFixed32 (drop (4 * i) (concat (map EncodeFixed32 ?offs) @ [word_of_nat kFilterBaseLg]))
        = Some (?offs ! i)"
      using that by (intro DecodeFixed32_array) simp
    then show ?thesis
      using offsets_array_nth [OF that, of policy] by (simp add: c add.commute)
  qed
  have le: "?pre i \<le> length ?res" for i
    by (metis append_take_drop_id concat_append length_append map_append le_add1)
  have u: "unat (word_of_nat (?pre i) :: u32) = ?pre i" for i
    using le [of i] small by (intro unat_of_nat_u32) simp
  have step: "concat (map (chunk policy) (take (Suc g) groups))
      = concat (map (chunk policy) (take g groups)) @ chunk policy (groups ! g)"
    using g(1) by (simp add: take_Suc_conv_app_nth)
  have lim: "unat (word_of_nat (?pre (Suc g)) - word_of_nat (?pre g) :: u32) = length (chunk policy (groups ! g))"
  proof -
    have "(word_of_nat (?pre (Suc g)) - word_of_nat (?pre g) :: u32)
        = word_of_nat (length (chunk policy (groups ! g)))"
      by (simp only: step) simp
    moreover have "length (chunk policy (groups ! g)) < 2 ^ 32"
      using le [of "Suc g"] small step by simp
    ultimately show ?thesis by (simp only: unat_of_nat_u32)
  qed
  have cat: "?res = concat (map (chunk policy) (take g groups)) @ chunk policy (groups ! g)
      @ concat (map (chunk policy) (drop (Suc g) groups))"
    using g(1) concat_at [of g "map (chunk policy) groups"] by (simp add: take_map drop_map)
  have f: "take (length (chunk policy (groups ! g))) (drop (?pre g) ?c) = chunk policy (groups ! g)"
    by (subst c, subst cat) simp
  have "chunk policy (groups ! g) = CreateFilter policy (groups ! g) []"
    using g(2) by (auto simp: chunk_def)
  then have m: "KeyMayMatch policy k (chunk policy (groups ! g))"
    using may_match [OF g(2)] by simp
  have idx: "unat (drop_bit 11 off) = g"
    using g(3) by (simp add: kFilterBase_div)
  have "word_of_nat (?pre g) \<le> (word_of_nat (?pre (Suc g)) :: u32)"
    by (simp add: word_le_nat_alt u) (simp add: step)
  then show ?thesis
    using d [of g] d [of "Suc g"] g(1) le [of "Suc g"] m f lim
    by (simp add: FilterBlock_KeyMayMatch_def Let_def r idx u algebra_simps)
qed

text \<open>A key added to a block is a potential match in that block's filter.\<close>

lemma built_filter_matches:
  assumes "build_blocks blocks (new_FilterBlockBuilder policy) = Some b"
    and "(off, keys) \<in> set blocks" "k \<in> set keys"
    and "length (snd (FilterBlock_Finish b)) < 2 ^ 32"
  shows "FilterBlock_KeyMayMatch (new_FilterBlockReader policy (snd (FilterBlock_Finish b))) off k
    = Some True"
proof -
  have "fb_policy (new_FilterBlockBuilder policy) = policy"
    by (simp add: new_FilterBlockBuilder_def)
  from build_blocks_represents [OF assms(1) represents_new this] obtain groups cur where
    rep: "represents b groups cur" "fb_policy b = policy"
    and loc: "\<forall>(off, keys) \<in> set blocks. \<forall>k \<in> set keys. located groups cur (unat (off div kFilterBase)) k"
    by blast
  obtain groups' where "snd (FilterBlock_Finish b) = filter_contents policy groups'"
    "\<forall>g k. located groups cur g k \<longrightarrow> g < length groups' \<and> k \<in> set (groups' ! g)"
    using Finish_represents [OF rep] by blast
  moreover have "located groups cur (unat (off div kFilterBase)) k"
    using assms(2,3) loc by auto
  ultimately show ?thesis
    using assms(4) by (auto intro!: reader_finds_group)
qed

end

subsection \<open>The property\<close>

text \<open>C7. Build a filter block with the Bloom policy from table blocks whose offsets do not
  decrease: every \<open>StartBlock\<close> succeeds, and, if the result is shorter than 4GB, the reader
  reports every key that was added to a block as a potential match for that block's offset.\<close>

theorem filter_block_no_false_negative:
  assumes "sorted (map fst blocks)"
  shows "\<exists>b. build_blocks blocks (new_FilterBlockBuilder (NewBloomFilterPolicy n)) = Some b
    \<and> (length (snd (FilterBlock_Finish b)) < 2 ^ 32 \<longrightarrow>
        (\<forall>(off, keys) \<in> set blocks. \<forall>k \<in> set keys.
           FilterBlock_KeyMayMatch (new_FilterBlockReader (NewBloomFilterPolicy n)
             (snd (FilterBlock_Finish b))) off k = Some True))"
proof -
  have "build_blocks blocks (new_FilterBlockBuilder (NewBloomFilterPolicy n)) \<noteq> None"
    using assms by (rule build_blocks_defined) (simp add: new_FilterBlockBuilder_def)
  then show ?thesis
    using bloom.built_filter_matches by fast
qed

lemma filter_block_no_false_negative_witness:
  "FilterBlock_KeyMayMatch (new_FilterBlockReader (NewBloomFilterPolicy 10)
     (snd (FilterBlock_Finish (the (build_blocks [(0, [lit ''a'']), (3000, [lit ''b'', lit ''c''])]
        (new_FilterBlockBuilder (NewBloomFilterPolicy 10)))))))
     3000 (lit ''c'') = Some True"
proof -
  have "length (snd (FilterBlock_Finish
     (the (build_blocks [(0, [lit ''a'']), (3000, [lit ''b'', lit ''c''])]
        (new_FilterBlockBuilder (NewBloomFilterPolicy 10)))))) < 2 ^ 32"
    by (simp add: StartBlock_def StartBlock_loop.simps new_FilterBlockBuilder_def kFilterBase_def
        kFilterBaseLg_def FilterBlock_AddKey_def GenerateFilter_def FilterBlock_Finish_def Let_def
        NewBloomFilterPolicy_def Bloom_CreateFilter_def new_BloomFilterPolicy_def PutFixed32_def)
  then show ?thesis
    using filter_block_no_false_negative
      [of "[(0, [lit ''a'']), (3000, [lit ''b'', lit ''c''])]" 10] by auto
qed

end
