(* ===== verification/Table_Format.thy ===== *)
theory Table_Format
  imports Coding Crc32c Env_Files Options
begin

text \<open>
  \<open>table/format.h\<close> and \<open>table/format.cc\<close>: handles of blocks, the footer of a table file, and the
  reading of a stored block with its type and checksum. The Snappy library that \<open>port/port_stdcxx.h\<close>
  calls, where it was there at build time, is a parameter. An option is \<open>None\<close> where an assertion
  fails or the code would read outside of its input.
\<close>

subsection \<open>The compression library\<close>

record SnappyLib =
  sn_RawCompress :: "bytes \<Rightarrow> bytes"
  sn_GetUncompressedLength :: "bytes \<Rightarrow> nat option"
  sn_RawUncompress :: "bytes \<Rightarrow> bytes option"

text \<open>The port functions; \<open>None\<close> for a build without the library. The result and the output.\<close>

definition Snappy_Compress :: "SnappyLib option \<Rightarrow> bytes \<Rightarrow> bytes option" where
  "Snappy_Compress lib input = map_option (\<lambda>l. sn_RawCompress l input) lib"

definition Snappy_GetUncompressedLength :: "SnappyLib option \<Rightarrow> bytes \<Rightarrow> nat option" where
  "Snappy_GetUncompressedLength lib input = Option.bind lib (\<lambda>l. sn_GetUncompressedLength l input)"

definition Snappy_Uncompress :: "SnappyLib option \<Rightarrow> bytes \<Rightarrow> bytes option" where
  "Snappy_Uncompress lib input = Option.bind lib (\<lambda>l. sn_RawUncompress l input)"

text \<open>What the library documents: it uncompresses what it compressed.\<close>

definition snappy_ok :: "SnappyLib option \<Rightarrow> bool" where
  "snappy_ok lib \<longleftrightarrow>
     (\<forall>l. lib = Some l \<longrightarrow> (\<forall>x. sn_GetUncompressedLength l (sn_RawCompress l x) = Some (length x)
        \<and> sn_RawUncompress l (sn_RawCompress l x) = Some x))"

subsection \<open>Handles and the footer\<close>

record BlockHandle =
  bh_offset :: u64
  bh_size :: u64

definition new_BlockHandle :: BlockHandle where
  "new_BlockHandle = \<lparr>bh_offset = NOT 0, bh_size = NOT 0\<rparr>"

definition kMaxEncodedLength :: nat where "kMaxEncodedLength = 10 + 10"

definition BlockHandle_EncodeTo :: "BlockHandle \<Rightarrow> bytes \<Rightarrow> bytes option" where
  "BlockHandle_EncodeTo h dst =
     (if bh_offset h \<noteq> NOT 0 \<and> bh_size h \<noteq> NOT 0
      then Some (PutVarint64 (PutVarint64 dst (bh_offset h)) (bh_size h)) else None)"

text \<open>The status, the handle and the rest of the input.\<close>

definition BlockHandle_DecodeFrom :: "Slice \<Rightarrow> BlockHandle \<Rightarrow> Status \<times> BlockHandle \<times> Slice" where
  "BlockHandle_DecodeFrom input h =
     (case GetVarint64 input of
        (input, None) \<Rightarrow> (Status_Corruption (lit ''bad block handle'') [], h, input)
      | (input, Some off) \<Rightarrow>
          (case GetVarint64 input of
             (input, None) \<Rightarrow> (Status_Corruption (lit ''bad block handle'') [], h\<lparr>bh_offset := off\<rparr>, input)
           | (input, Some sz) \<Rightarrow> (Status_OK, h\<lparr>bh_offset := off, bh_size := sz\<rparr>, input)))"

definition kEncodedLength :: nat where "kEncodedLength = 2 * kMaxEncodedLength + 8"

definition kTableMagicNumber :: u64 where "kTableMagicNumber = 0xdb4775248b80fb57"

definition kBlockTrailerSize :: nat where "kBlockTrailerSize = 5"

record Footer =
  ft_metaindex_handle :: BlockHandle
  ft_index_handle :: BlockHandle

text \<open>\<open>resize\<close> of a string: cut off or filled with zero bytes.\<close>

definition resize :: "nat \<Rightarrow> bytes \<Rightarrow> bytes" where
  "resize n s = take n s @ replicate (n - length s) 0"

definition Footer_EncodeTo :: "Footer \<Rightarrow> bytes \<Rightarrow> bytes option" where
  "Footer_EncodeTo f dst =
     (let original_size = length dst
      in Option.bind (BlockHandle_EncodeTo (ft_metaindex_handle f) dst) (\<lambda>dst.
         Option.bind (BlockHandle_EncodeTo (ft_index_handle f) dst) (\<lambda>dst.
           let dst = resize (2 * kMaxEncodedLength) dst;
               dst = PutFixed32 dst (ucast (kTableMagicNumber AND 0xffffffff));
               dst = PutFixed32 dst (ucast (drop_bit 32 kTableMagicNumber))
           in if length dst = original_size + kEncodedLength then Some dst else None)))"

definition Footer_DecodeFrom :: "Slice \<Rightarrow> Footer \<Rightarrow> (Status \<times> Footer \<times> Slice) option" where
  "Footer_DecodeFrom input f =
     (let magic_ptr = drop (kEncodedLength - 8) input
      in Option.bind (DecodeFixed32 magic_ptr) (\<lambda>magic_lo.
         Option.bind (DecodeFixed32 (drop 4 magic_ptr)) (\<lambda>magic_hi.
           let magic = push_bit 32 (ucast magic_hi) OR ucast magic_lo
           in if magic \<noteq> kTableMagicNumber
              then Some (Status_Corruption (lit ''not an sstable (bad magic number)'') [], f, input)
              else
                (case BlockHandle_DecodeFrom input (ft_metaindex_handle f) of
                   (result, h, rest) \<Rightarrow>
                     let f = f\<lparr>ft_metaindex_handle := h\<rparr>
                     in if \<not> Status_ok result then Some (result, f, rest)
                        else
                          (case BlockHandle_DecodeFrom rest (ft_index_handle f) of
                             (result, h, rest) \<Rightarrow>
                               let f = f\<lparr>ft_index_handle := h\<rparr>
                               in if Status_ok result then Some (result, f, drop 8 magic_ptr)
                                  else Some (result, f, rest))))))"

subsection \<open>Reading a block\<close>

record BlockContents =
  bc_data :: Slice
  bc_cachable :: bool
  bc_heap_allocated :: bool

text \<open>The checksum does not depend on where the data lies. \<open>in_buf\<close>: whether \<open>Read\<close> put the data into the buffer it was given or returned a pointer to
  other memory. The new state of the file is returned too. Sizes are 64-bit words, and \<open>n + kBlockTrailerSize\<close> may
  wrap around; the result is \<open>None\<close> where the code then reads outside of what it got.\<close>

definition ReadBlock ::
  "SnappyLib option \<Rightarrow> 'f RandomAccessFile \<Rightarrow> ReadOptions \<Rightarrow> BlockHandle \<Rightarrow> bool \<Rightarrow> 'f
   \<Rightarrow> (Status \<times> BlockContents \<times> 'f) option" where
  "ReadBlock lib ops options handle in_buf file =
     (let result = \<lparr>bc_data = [], bc_cachable = False, bc_heap_allocated = False\<rparr>;
          n = bh_size handle;
          (s, contents, file) = rf_Read ops (bh_offset handle) (unat (n + word_of_nat kBlockTrailerSize)) file
      in if \<not> Status_ok s then Some (s, result, file)
         else if length contents \<noteq> unat (n + word_of_nat kBlockTrailerSize)
         then Some (Status_Corruption (lit ''truncated block read'') [], result, file)
         else
           Option.bind
             (if ro_verify_checksums options
              then Option.bind (DecodeFixed32 (drop (unat (n + 1)) contents)) (\<lambda>stored.
                     if unat (n + 1) \<le> length contents
                     then Some (crc_Value 0 (take (unat (n + 1)) contents) = crc_Unmask stored) else None)
              else Some True) (\<lambda>good.
           if \<not> good then Some (Status_Corruption (lit ''block checksum mismatch'') [], result, file)
           else if \<not> unat n < length contents then None
           else if contents ! unat n = CompressionType_value kNoCompression then
             Some (Status_OK,
               (if \<not> in_buf
                then result\<lparr>bc_data := take (unat n) contents, bc_heap_allocated := False, bc_cachable := False\<rparr>
                else result\<lparr>bc_data := take (unat n) contents, bc_heap_allocated := True, bc_cachable := True\<rparr>), file)
           else if contents ! unat n = CompressionType_value kSnappyCompression then
             (case Snappy_GetUncompressedLength lib (take (unat n) contents) of
                None \<Rightarrow> Some (Status_Corruption (lit ''corrupted compressed block contents'') [], result, file)
              | Some ulength \<Rightarrow>
                  (case Snappy_Uncompress lib (take (unat n) contents) of
                     None \<Rightarrow> Some (Status_Corruption (lit ''corrupted compressed block contents'') [], result, file)
                   | Some ubuf \<Rightarrow>
                       Some (Status_OK,
                         result\<lparr>bc_data := ubuf, bc_heap_allocated := True, bc_cachable := True\<rparr>, file)))
           else Some (Status_Corruption (lit ''bad block type'') [], result, file)))"

subsection \<open>Round trips\<close>

definition handle_ok :: "BlockHandle \<Rightarrow> bool" where
  "handle_ok h \<longleftrightarrow> bh_offset h \<noteq> NOT 0 \<and> bh_size h \<noteq> NOT 0"

definition handle_bytes :: "BlockHandle \<Rightarrow> bytes" where
  "handle_bytes h = EncodeVarint64 (bh_offset h) @ EncodeVarint64 (bh_size h)"

lemma BlockHandle_EncodeTo_ok: "handle_ok h \<Longrightarrow> BlockHandle_EncodeTo h dst = Some (dst @ handle_bytes h)"
  by (simp add: BlockHandle_EncodeTo_def handle_ok_def handle_bytes_def PutVarint64_def)

lemma BlockHandle_DecodeFrom_bytes [roundtrip]:
  "BlockHandle_DecodeFrom (handle_bytes h @ rest) h0 = (Status_OK, h, rest)"
  by (simp add: BlockHandle_DecodeFrom_def handle_bytes_def)

lemma length_handle_bytes: "length (handle_bytes h) \<le> kMaxEncodedLength"
  using EncodeVarint64_max [of "bh_offset h"] EncodeVarint64_max [of "bh_size h"]
  by (simp add: handle_bytes_def kMaxEncodedLength_def)

definition footer_bytes :: "Footer \<Rightarrow> bytes" where
  "footer_bytes f = resize 40 (handle_bytes (ft_metaindex_handle f) @ handle_bytes (ft_index_handle f))
     @ EncodeFixed32 0x8b80fb57 @ EncodeFixed32 0xdb477524"

lemma length_resize [simp]: "length (resize n s) = n"
  by (simp add: resize_def)

lemma length_footer_bytes: "length (footer_bytes f) = 48"
  by (simp add: footer_bytes_def)

lemma Footer_EncodeTo_ok:
  assumes "handle_ok (ft_metaindex_handle f)" "handle_ok (ft_index_handle f)"
  shows "Footer_EncodeTo f [] = Some (footer_bytes f)"
proof -
  have "ucast (kTableMagicNumber AND 0xffffffff) = (0x8b80fb57 :: u32)"
    "ucast (drop_bit 32 kTableMagicNumber) = (0xdb477524 :: u32)"
    by (simp_all add: kTableMagicNumber_def)
  then show ?thesis
    using assms by (simp add: Footer_EncodeTo_def Let_def BlockHandle_EncodeTo_ok PutFixed32_def
        kMaxEncodedLength_def kEncodedLength_def footer_bytes_def)
qed

lemma Footer_DecodeFrom_bytes:
  "Footer_DecodeFrom (footer_bytes f @ rest) f0 = Some (Status_OK, f, rest)"
proof -
  let ?hs = "handle_bytes (ft_metaindex_handle f) @ handle_bytes (ft_index_handle f)"
  have "length ?hs \<le> 40"
    using length_handle_bytes [of "ft_metaindex_handle f"] length_handle_bytes [of "ft_index_handle f"]
    by (simp add: kMaxEncodedLength_def)
  then obtain pad where pad: "resize 40 ?hs = handle_bytes (ft_metaindex_handle f) @ handle_bytes (ft_index_handle f) @ pad"
    by (simp add: resize_def)
  define B where "B = footer_bytes f @ rest"
  have d: "drop 40 B = EncodeFixed32 0x8b80fb57 @ EncodeFixed32 0xdb477524 @ rest"
    "drop 44 B = EncodeFixed32 0xdb477524 @ rest" "drop 48 B = rest"
    by (simp_all add: B_def footer_bytes_def)
  have "BlockHandle_DecodeFrom B h = (Status_OK, ft_metaindex_handle f,
      handle_bytes (ft_index_handle f) @ pad @ EncodeFixed32 0x8b80fb57 @ EncodeFixed32 0xdb477524 @ rest)" for h
    unfolding B_def footer_bytes_def pad append.assoc by (rule BlockHandle_DecodeFrom_bytes)
  then have "Footer_DecodeFrom B f0 = Some (Status_OK, f, rest)"
    by (simp add: Footer_DecodeFrom_def Let_def kEncodedLength_def kMaxEncodedLength_def d kTableMagicNumber_def
        BlockHandle_DecodeFrom_bytes Status_ok_OK)
  then show ?thesis by (simp add: B_def)
qed

text \<open>C39. The footer of a table, encoded into an empty string, takes 48 bytes and is decoded back with
  both handles, whatever follows it; the handles have to be set.\<close>

theorem footer_roundtrip:
  assumes "handle_ok (ft_metaindex_handle f)" "handle_ok (ft_index_handle f)"
  shows "\<exists>bytes. Footer_EncodeTo f [] = Some bytes \<and> length bytes = kEncodedLength
    \<and> Footer_DecodeFrom (bytes @ rest) f0 = Some (Status_OK, f, rest)"
  by (simp add: Footer_EncodeTo_ok assms length_footer_bytes Footer_DecodeFrom_bytes
      kEncodedLength_def kMaxEncodedLength_def)

theorem footer_roundtrip_witness:
  "\<exists>bytes. Footer_EncodeTo \<lparr>ft_metaindex_handle = \<lparr>bh_offset = 300, bh_size = 8\<rparr>,
      ft_index_handle = \<lparr>bh_offset = 313, bh_size = 50\<rparr>\<rparr> [] = Some bytes \<and> length bytes = kEncodedLength"
  using footer_roundtrip [of "\<lparr>ft_metaindex_handle = \<lparr>bh_offset = 300, bh_size = 8\<rparr>,
      ft_index_handle = \<lparr>bh_offset = 313, bh_size = 50\<rparr>\<rparr>"]
  by (auto simp: handle_ok_def)

end
