(* ===== verification/Table.thy ===== *)
theory Table
  imports Two_Level Block_Cache Filter_Block Block Table_Format
begin

text \<open>
  The reader of table files (\<open>table/table.cc\<close>): opening by the footer and the index block, the filter
  block, iteration through the two-level iterator, point lookups and the block cache.

  What a table shares with the rest of the database, the file and the block cache, is threaded
  through the calls. A result of \<open>None\<close> is a failed assertion or a read outside of the memory given.
\<close>

subsection \<open>Iterators over blocks\<close>

text \<open>The dynamic dispatch of an \<open>Iterator*\<close> that is one of two classes.\<close>

definition Either_ops :: "'a Iterator \<Rightarrow> 'b Iterator \<Rightarrow> ('a + 'b) Iterator" where
  "Either_ops a b =
     \<lparr>it_Valid = case_sum (it_Valid a) (it_Valid b),
      it_SeekToFirst = case_sum (map_option Inl \<circ> it_SeekToFirst a) (map_option Inr \<circ> it_SeekToFirst b),
      it_SeekToLast = case_sum (map_option Inl \<circ> it_SeekToLast a) (map_option Inr \<circ> it_SeekToLast b),
      it_Seek = (\<lambda>target. case_sum (map_option Inl \<circ> it_Seek a target) (map_option Inr \<circ> it_Seek b target)),
      it_Next = case_sum (map_option Inl \<circ> it_Next a) (map_option Inr \<circ> it_Next b),
      it_Prev = case_sum (map_option Inl \<circ> it_Prev a) (map_option Inr \<circ> it_Prev b),
      it_key = case_sum (it_key a) (it_key b), it_value = case_sum (it_value a) (it_value b),
      it_status = case_sum (it_status a) (it_status b)\<rparr>"

definition Block_Iterator_ops :: "(EmptyIterator + BlockIter) Iterator" where
  "Block_Iterator_ops = Either_ops EmptyIterator_ops BlockIter_ops"

text \<open>The cleanup functions that a table registers, with their arguments, and the deleter of the
  entries it puts into the block cache.\<close>

datatype 'h BlockCleanup = DeleteBlock Block | ReleaseBlock 'h

datatype BlockDeleter = DeleteCachedBlock

text \<open>An iterator over a block with the cleanup functions it was given.\<close>

record 'h BlockIterator =
  bk_iter :: "EmptyIterator + BlockIter"
  bk_cleanup :: "'h BlockCleanup CleanupNode"

definition bk_step :: "((EmptyIterator + BlockIter) \<Rightarrow> (EmptyIterator + BlockIter) option) \<Rightarrow> 'h BlockIterator \<Rightarrow> 'h BlockIterator option" where
  "bk_step f i = map_option (\<lambda>j. i\<lparr>bk_iter := j\<rparr>) (f (bk_iter i))"

definition BlockIterator_ops :: "'h BlockIterator Iterator" where
  "BlockIterator_ops =
     \<lparr>it_Valid = it_Valid Block_Iterator_ops \<circ> bk_iter,
      it_SeekToFirst = bk_step (it_SeekToFirst Block_Iterator_ops), it_SeekToLast = bk_step (it_SeekToLast Block_Iterator_ops),
      it_Seek = (\<lambda>target. bk_step (it_Seek Block_Iterator_ops target)),
      it_Next = bk_step (it_Next Block_Iterator_ops), it_Prev = bk_step (it_Prev Block_Iterator_ops),
      it_key = it_key Block_Iterator_ops \<circ> bk_iter, it_value = it_value Block_Iterator_ops \<circ> bk_iter,
      it_status = it_status Block_Iterator_ops \<circ> bk_iter\<rparr>"

subsection \<open>Tables\<close>

text \<open>What a table calls: the compression library, the file class, whether its \<open>Read\<close> fills the buffer
  it is given, and the class of the block cache.\<close>

record ('f, 'h, 'c) TableEnv =
  te_lib :: "SnappyLib option"
  te_file :: "'f RandomAccessFile"
  te_in_buf :: bool
  te_cache :: "('c, 'h, Block, BlockDeleter) Cache"

text \<open>\<open>rep_filter_data\<close> is the allocated data of the filter, if it is to be deleted with the table.\<close>

record Table_Rep =
  rep_options :: Options
  rep_status :: Status
  rep_cache_id :: u64
  rep_filter :: "FilterBlockReader option"
  rep_filter_data :: "bytes option"
  rep_metaindex_handle :: BlockHandle
  rep_index_block :: Block

record ('f, 'c) Table =
  tab_rep :: Table_Rep
  tab_file :: 'f
  tab_cache :: 'c

definition block_options :: "Options \<Rightarrow> ReadOptions" where
  "block_options options =
     (if opt_paranoid_checks options then new_ReadOptions\<lparr>ro_verify_checksums := True\<rparr> else new_ReadOptions)"

definition ReadFilter :: "('f, 'h, 'c) TableEnv \<Rightarrow> FilterPolicy \<Rightarrow> Slice \<Rightarrow> Table_Rep \<Rightarrow> 'f \<Rightarrow> (Table_Rep \<times> 'f) option" where
  "ReadFilter env policy filter_handle_value rep file =
     (case BlockHandle_DecodeFrom filter_handle_value new_BlockHandle of
        (s, filter_handle, v) \<Rightarrow>
          if \<not> Status_ok s then Some (rep, file)
          else
            Option.bind (ReadBlock (te_lib env) (te_file env) (block_options (rep_options rep)) filter_handle (te_in_buf env) file)
              (\<lambda>(s, block, file).
                if \<not> Status_ok s then Some (rep, file)
                else
                  let rep = (if bc_heap_allocated block then rep\<lparr>rep_filter_data := Some (bc_data block)\<rparr> else rep)
                  in Some (rep\<lparr>rep_filter := Some (new_FilterBlockReader policy (bc_data block))\<rparr>, file)))"

definition ReadMeta :: "('f, 'h, 'c) TableEnv \<Rightarrow> Footer \<Rightarrow> Table_Rep \<Rightarrow> 'f \<Rightarrow> (Table_Rep \<times> 'f) option" where
  "ReadMeta env footer rep file =
     (case opt_filter_policy (rep_options rep) of
        None \<Rightarrow> Some (rep, file)
      | Some policy \<Rightarrow>
          Option.bind (ReadBlock (te_lib env) (te_file env) (block_options (rep_options rep)) (ft_metaindex_handle footer)
              (te_in_buf env) file)
            (\<lambda>(s, contents, file).
              if \<not> Status_ok s then Some (rep, file)
              else
                Option.bind (new_Block (bc_data contents) (bc_heap_allocated contents)) (\<lambda>meta.
                Option.bind (Block_NewIterator BytewiseComparator meta) (\<lambda>iter.
                  let key = lit ''filter.'' @ Policy_Name policy
                  in Option.bind (it_Seek Block_Iterator_ops key iter) (\<lambda>iter.
                       if it_Valid Block_Iterator_ops iter then
                         Option.bind (it_key Block_Iterator_ops iter) (\<lambda>k.
                           if k = key
                           then Option.bind (it_value Block_Iterator_ops iter) (\<lambda>v. ReadFilter env policy v rep file)
                           else Some (rep, file))
                       else Some (rep, file))))))"

definition Table_Open :: "('f, 'h, 'c) TableEnv \<Rightarrow> Options \<Rightarrow> u64 \<Rightarrow> 'f \<Rightarrow> 'c
    \<Rightarrow> (Status \<times> Table_Rep option \<times> 'f \<times> 'c) option" where
  "Table_Open env options sz file cache =
     (if unat sz < kEncodedLength
      then Some (Status_Corruption (lit ''file is too short to be an sstable'') [], None, file, cache)
      else
        (case rf_Read (te_file env) (sz - word_of_nat kEncodedLength) kEncodedLength file of
           (s, footer_input, file) \<Rightarrow>
             if \<not> Status_ok s then Some (s, None, file, cache)
             else
               Option.bind (Footer_DecodeFrom footer_input \<lparr>ft_metaindex_handle = new_BlockHandle, ft_index_handle = new_BlockHandle\<rparr>)
                 (\<lambda>(s, footer, _).
                   if \<not> Status_ok s then Some (s, None, file, cache)
                   else
                     Option.bind (ReadBlock (te_lib env) (te_file env) (block_options options) (ft_index_handle footer)
                         (te_in_buf env) file)
                       (\<lambda>(s, contents, file).
                         if \<not> Status_ok s then Some (s, None, file, cache)
                         else
                           Option.bind (new_Block (bc_data contents) (bc_heap_allocated contents)) (\<lambda>index_block.
                             let (cid, cache) = (if opt_block_cache options \<noteq> None then ch_NewId (te_cache env) cache else (0, cache));
                                 rep = \<lparr>rep_options = options, rep_status = Status_OK, rep_cache_id = cid, rep_filter = None,
                                        rep_filter_data = None, rep_metaindex_handle = ft_metaindex_handle footer,
                                        rep_index_block = index_block\<rparr>
                             in map_option (\<lambda>(rep, file). (s, Some rep, file, cache)) (ReadMeta env footer rep file))))))"

subsection \<open>Reading a block\<close>

definition cache_key :: "u64 \<Rightarrow> BlockHandle \<Rightarrow> bytes" where
  "cache_key cid handle = EncodeFixed64 cid @ EncodeFixed64 (bh_offset handle)"

text \<open>The status, the block if there is one, the handle that keeps it in the cache, and the table.\<close>

definition read_uncached :: "('f, 'h, 'c) TableEnv \<Rightarrow> ReadOptions \<Rightarrow> BlockHandle \<Rightarrow> ('f, 'c) Table
    \<Rightarrow> (Status \<times> Block option \<times> bool \<times> ('f, 'c) Table) option" where
  "read_uncached env options handle t =
     Option.bind (ReadBlock (te_lib env) (te_file env) options handle (te_in_buf env) (tab_file t)) (\<lambda>(s, contents, file).
       let t = t\<lparr>tab_file := file\<rparr>
       in if \<not> Status_ok s then Some (s, None, False, t)
          else map_option (\<lambda>block. (s, Some block, bc_cachable contents, t))
                 (new_Block (bc_data contents) (bc_heap_allocated contents)))"

definition read_cached :: "('f, 'h, 'c) TableEnv \<Rightarrow> ReadOptions \<Rightarrow> BlockHandle \<Rightarrow> ('f, 'c) Table
    \<Rightarrow> (Status \<times> Block option \<times> 'h option \<times> ('f, 'c) Table) option" where
  "read_cached env options handle t =
     (let key = cache_key (rep_cache_id (tab_rep t)) handle
      in Option.bind (ch_Lookup (te_cache env) key (tab_cache t)) (\<lambda>(cache_handle, cache).
           let t = t\<lparr>tab_cache := cache\<rparr>
           in case cache_handle of
                Some h \<Rightarrow> map_option (\<lambda>block. (Status_OK, Some block, Some h, t)) (ch_Value (te_cache env) h cache)
              | None \<Rightarrow>
                  Option.bind (read_uncached env options handle t) (\<lambda>(s, block, cachable, t).
                    case block of
                      None \<Rightarrow> Some (s, None, None, t)
                    | Some b \<Rightarrow>
                        if cachable \<and> ro_fill_cache options
                        then map_option (\<lambda>(h, cache). (s, Some b, Some h, t\<lparr>tab_cache := cache\<rparr>))
                               (ch_Insert (te_cache env) key b (word_of_nat (bl_size b)) DeleteCachedBlock (tab_cache t))
                        else Some (s, Some b, None, t))))"

definition BlockReader :: "('f, 'h, 'c) TableEnv \<Rightarrow> ('f, 'c) Table \<Rightarrow> ReadOptions \<Rightarrow> Slice
    \<Rightarrow> ('h BlockIterator \<times> ('f, 'c) Table) option" where
  "BlockReader env t options index_value =
     (case BlockHandle_DecodeFrom index_value new_BlockHandle of
        (s, handle, input) \<Rightarrow>
          Option.bind
            (if \<not> Status_ok s then Some (s, None, None, t)
             else if opt_block_cache (rep_options (tab_rep t)) \<noteq> None then read_cached env options handle t
             else map_option (\<lambda>(s, block, _, t). (s, block, None, t)) (read_uncached env options handle t))
            (\<lambda>(s, block, cache_handle, t).
              case block of
                None \<Rightarrow> Some (\<lparr>bk_iter = Inl (NewErrorIterator s), bk_cleanup = new_Iterator\<rparr>, t)
              | Some b \<Rightarrow>
                  map_option
                    (\<lambda>iter. (\<lparr>bk_iter = iter,
                       bk_cleanup = RegisterCleanup (case cache_handle of None \<Rightarrow> DeleteBlock b | Some h \<Rightarrow> ReleaseBlock h) new_Iterator\<rparr>, t))
                    (Block_NewIterator (opt_comparator (rep_options (tab_rep t))) b)))"

text \<open>Deleting an iterator over a block runs its cleanup functions.\<close>

fun run_cleanups :: "('f, 'h, 'c) TableEnv \<Rightarrow> 'h BlockCleanup list \<Rightarrow> ('f, 'c) Table \<Rightarrow> ('f, 'c) Table option" where
  "run_cleanups env [] t = Some t"
| "run_cleanups env (DeleteBlock b # calls) t = run_cleanups env calls t"
| "run_cleanups env (ReleaseBlock h # calls) t =
     Option.bind (ch_Release (te_cache env) h (tab_cache t)) (\<lambda>cache. run_cleanups env calls (t\<lparr>tab_cache := cache\<rparr>))"

definition delete_BlockIterator :: "('f, 'h, 'c) TableEnv \<Rightarrow> 'h BlockIterator \<Rightarrow> ('f, 'c) Table \<Rightarrow> ('f, 'c) Table option" where
  "delete_BlockIterator env i t = run_cleanups env (delete_Iterator (bk_cleanup i)) t"

subsection \<open>Iteration and lookups\<close>

type_synonym ('f, 'h, 'c) TableIterator = "(('f, 'c) Table, EmptyIterator + BlockIter, 'h BlockIterator) TwoLevelIterator"

definition TableIterator_ops :: "('f, 'h, 'c) TableEnv \<Rightarrow> ('f, 'h, 'c) TableIterator Iterator" where
  "TableIterator_ops env = TwoLevel_ops Block_Iterator_ops BlockIterator_ops (delete_BlockIterator env) (BlockReader env)"

definition new_index_iterator :: "Table_Rep \<Rightarrow> (EmptyIterator + BlockIter) option" where
  "new_index_iterator rep = Block_NewIterator (opt_comparator (rep_options rep)) (rep_index_block rep)"

definition Table_NewIterator :: "ReadOptions \<Rightarrow> ('f, 'c) Table \<Rightarrow> ('f, 'h, 'c) TableIterator option" where
  "Table_NewIterator options t =
     Option.bind (new_index_iterator (tab_rep t)) (\<lambda>index_iter. NewTwoLevelIterator Block_Iterator_ops index_iter t options)"

text \<open>\<open>handle_result\<close> changes the state of its argument; it may fail too.\<close>

definition InternalGet :: "('f, 'h, 'c) TableEnv \<Rightarrow> ReadOptions \<Rightarrow> Slice \<Rightarrow> (Slice \<Rightarrow> Slice \<Rightarrow> 'r \<Rightarrow> 'r option) \<Rightarrow> 'r
    \<Rightarrow> ('f, 'c) Table \<Rightarrow> (Status \<times> 'r \<times> ('f, 'c) Table) option" where
  "InternalGet env options k handle_result arg t =
     Option.bind (new_index_iterator (tab_rep t)) (\<lambda>iiter.
     Option.bind (it_Seek Block_Iterator_ops k iiter) (\<lambda>iiter.
     Option.bind
       (if it_Valid Block_Iterator_ops iiter then
          Option.bind (it_value Block_Iterator_ops iiter) (\<lambda>handle_value.
          Option.bind
            (case rep_filter (tab_rep t) of
               None \<Rightarrow> Some True
             | Some fr \<Rightarrow>
                 (case BlockHandle_DecodeFrom handle_value new_BlockHandle of
                    (s, handle, _) \<Rightarrow>
                      if Status_ok s then FilterBlock_KeyMayMatch fr (bh_offset handle) k else Some True))
            (\<lambda>may_match.
              if \<not> may_match then Some (Status_OK, arg, t)
              else
                Option.bind (BlockReader env t options handle_value) (\<lambda>(block_iter, t).
                Option.bind (it_Seek BlockIterator_ops k block_iter) (\<lambda>block_iter.
                Option.bind
                  (if it_Valid BlockIterator_ops block_iter then
                     Option.bind (it_key BlockIterator_ops block_iter) (\<lambda>bk.
                     Option.bind (it_value BlockIterator_ops block_iter) (\<lambda>bv. handle_result bk bv arg))
                   else Some arg)
                  (\<lambda>arg. map_option (\<lambda>t. (it_status BlockIterator_ops block_iter, arg, t))
                           (delete_BlockIterator env block_iter t))))))
        else Some (Status_OK, arg, t))
       (\<lambda>(s, arg, t). Some (if Status_ok s then it_status Block_Iterator_ops iiter else s, arg, t))))"

definition ApproximateOffsetOf :: "Slice \<Rightarrow> ('f, 'c) Table \<Rightarrow> u64 option" where
  "ApproximateOffsetOf key t =
     Option.bind (new_index_iterator (tab_rep t)) (\<lambda>index_iter.
     Option.bind (it_Seek Block_Iterator_ops key index_iter) (\<lambda>index_iter.
       if it_Valid Block_Iterator_ops index_iter then
         map_option
           (\<lambda>input. (case BlockHandle_DecodeFrom input new_BlockHandle of
              (s, handle, _) \<Rightarrow> if Status_ok s then bh_offset handle else bh_offset (rep_metaindex_handle (tab_rep t))))
           (it_value Block_Iterator_ops index_iter)
       else Some (bh_offset (rep_metaindex_handle (tab_rep t)))))"

end
