(* ===== verification/Table_Builder.thy ===== *)
theory Table_Builder
  imports Table_Format Block Filter_Block
begin

text \<open>
  The builder of table files (\<open>table/table_builder.cc\<close>): data blocks, the filter block, the metaindex
  block, the index block and the footer, appended to a writable file.

  An option is \<open>None\<close> where an assertion fails. The block builders of the code point to the options of
  the table builder; the copies here are changed with them. \<open>lib\<close> is the compression library.
\<close>

record 'w TableBuilder =
  tb_options :: Options
  tb_index_block_options :: Options
  tb_file :: 'w
  tb_offset :: u64
  tb_status :: Status
  tb_data_block :: BlockBuilder
  tb_index_block :: BlockBuilder
  tb_last_key :: bytes
  tb_num_entries :: int
  tb_closed :: bool
  tb_filter_block :: "FilterBlockBuilder option"
  tb_pending_index_entry :: bool
  tb_pending_handle :: BlockHandle
  tb_compressed_output :: bytes

definition new_TableBuilder :: "Options \<Rightarrow> 'w \<Rightarrow> 'w TableBuilder option" where
  "new_TableBuilder options file =
     Option.bind (new_BlockBuilder options) (\<lambda>data_block.
     Option.bind (new_BlockBuilder options) (\<lambda>index_block.
       let index_block_options = options\<lparr>opt_block_restart_interval := 1\<rparr>;
           r = \<lparr>tb_options = options, tb_index_block_options = index_block_options, tb_file = file, tb_offset = 0,
                tb_status = Status_OK, tb_data_block = data_block,
                tb_index_block = index_block\<lparr>bb_options := index_block_options\<rparr>, tb_last_key = [],
                tb_num_entries = 0, tb_closed = False,
                tb_filter_block = map_option new_FilterBlockBuilder (opt_filter_policy options),
                tb_pending_index_entry = False, tb_pending_handle = new_BlockHandle, tb_compressed_output = []\<rparr>
       in (case tb_filter_block r of
             None \<Rightarrow> Some r
           | Some f \<Rightarrow> map_option (\<lambda>f. r\<lparr>tb_filter_block := Some f\<rparr>) (StartBlock 0 f))))"

text \<open>Whether the comparator is another object is the argument \<open>same_comparator\<close>.\<close>

definition ChangeOptions :: "bool \<Rightarrow> Options \<Rightarrow> 'w TableBuilder \<Rightarrow> Status \<times> 'w TableBuilder" where
  "ChangeOptions same_comparator options r =
     (if \<not> same_comparator
      then (Status_InvalidArgument (lit ''changing comparator while building table'') [], r)
      else
        let index_block_options = options\<lparr>opt_block_restart_interval := 1\<rparr>
        in (Status_OK, r\<lparr>tb_options := options, tb_index_block_options := index_block_options,
              tb_data_block := (tb_data_block r)\<lparr>bb_options := options\<rparr>,
              tb_index_block := (tb_index_block r)\<lparr>bb_options := index_block_options\<rparr>\<rparr>))"

definition TableBuilder_status :: "'w TableBuilder \<Rightarrow> Status" where
  "TableBuilder_status r = tb_status r"

definition TableBuilder_ok :: "'w TableBuilder \<Rightarrow> bool" where
  "TableBuilder_ok r \<longleftrightarrow> Status_ok (TableBuilder_status r)"

text \<open>A block with its type and checksum: the handle of the block and the builder.\<close>

definition WriteRawBlock :: "'w WritableFile \<Rightarrow> Slice \<Rightarrow> CompressionType \<Rightarrow> 'w TableBuilder \<Rightarrow> BlockHandle \<times> 'w TableBuilder" where
  "WriteRawBlock ops block_contents type r =
     (let handle = \<lparr>bh_offset = tb_offset r, bh_size = word_of_nat (length block_contents)\<rparr>;
          (s, file) = wf_Append ops block_contents (tb_file r);
          r = r\<lparr>tb_file := file, tb_status := s\<rparr>
      in if \<not> Status_ok s then (handle, r)
         else
           let trailer = [CompressionType_value type];
               crc = crc_Value 0 block_contents;
               crc = crc_Extend 0 crc trailer;
               trailer = trailer @ EncodeFixed32 (crc_Mask crc);
               (s, file) = wf_Append ops trailer (tb_file r);
               r = r\<lparr>tb_file := file, tb_status := s\<rparr>
           in if \<not> Status_ok s then (handle, r)
              else (handle, r\<lparr>tb_offset := tb_offset r + word_of_nat (length block_contents + kBlockTrailerSize)\<rparr>))"

text \<open>The contents to store and their type: compressed only if that saves an eighth.\<close>

definition choose_contents :: "SnappyLib option \<Rightarrow> CompressionType \<Rightarrow> Slice \<Rightarrow> Slice \<times> CompressionType" where
  "choose_contents lib type raw =
     (case type of
        kNoCompression \<Rightarrow> (raw, kNoCompression)
      | kSnappyCompression \<Rightarrow>
          (case Snappy_Compress lib raw of
             Some compressed \<Rightarrow>
               if length compressed < length raw - length raw div 8 then (compressed, kSnappyCompression)
               else (raw, kNoCompression)
           | None \<Rightarrow> (raw, kNoCompression)))"

definition WriteBlock :: "'w WritableFile \<Rightarrow> SnappyLib option \<Rightarrow> BlockBuilder \<Rightarrow> 'w TableBuilder
    \<Rightarrow> (BlockHandle \<times> BlockBuilder \<times> 'w TableBuilder) option" where
  "WriteBlock ops lib block r =
     (if \<not> TableBuilder_ok r then None
      else
        (case BlockBuilder_Finish block of
           (raw, block) \<Rightarrow>
             (case choose_contents lib (opt_compression (tb_options r)) raw of
                (block_contents, type) \<Rightarrow>
                  (case WriteRawBlock ops block_contents type r of
                     (handle, r) \<Rightarrow> Some (handle, BlockBuilder_Reset block, r\<lparr>tb_compressed_output := []\<rparr>)))))"

definition TableBuilder_Flush :: "'w WritableFile \<Rightarrow> SnappyLib option \<Rightarrow> 'w TableBuilder \<Rightarrow> 'w TableBuilder option" where
  "TableBuilder_Flush ops lib r =
     (if tb_closed r then None
      else if \<not> TableBuilder_ok r then Some r
      else if BlockBuilder_empty (tb_data_block r) then Some r
      else if tb_pending_index_entry r then None
      else
        Option.bind (WriteBlock ops lib (tb_data_block r) r) (\<lambda>(handle, block, r).
          let r = r\<lparr>tb_pending_handle := handle, tb_data_block := block\<rparr>;
              r = (if TableBuilder_ok r
                   then (case wf_Flush ops (tb_file r) of
                           (s, file) \<Rightarrow> r\<lparr>tb_pending_index_entry := True, tb_file := file, tb_status := s\<rparr>)
                   else r)
          in (case tb_filter_block r of
                None \<Rightarrow> Some r
              | Some f \<Rightarrow> map_option (\<lambda>f. r\<lparr>tb_filter_block := Some f\<rparr>) (StartBlock (tb_offset r) f))))"

text \<open>The index entry of the pending block under the given key.\<close>

definition add_index_entry :: "bytes \<Rightarrow> 'w TableBuilder \<Rightarrow> 'w TableBuilder option" where
  "add_index_entry last_key r =
     Option.bind (BlockHandle_EncodeTo (tb_pending_handle r) []) (\<lambda>handle_encoding.
       map_option (\<lambda>b. r\<lparr>tb_last_key := last_key, tb_index_block := b, tb_pending_index_entry := False\<rparr>)
         (BlockBuilder_Add last_key handle_encoding (tb_index_block r)))"

definition TableBuilder_Add :: "'w WritableFile \<Rightarrow> SnappyLib option \<Rightarrow> Slice \<Rightarrow> Slice \<Rightarrow> 'w TableBuilder \<Rightarrow> 'w TableBuilder option" where
  "TableBuilder_Add ops lib key value r =
     (if tb_closed r then None
      else if \<not> TableBuilder_ok r then Some r
      else if tb_num_entries r > 0 \<and> \<not> Compare (opt_comparator (tb_options r)) key (tb_last_key r) > 0 then None
      else
        Option.bind
          (if tb_pending_index_entry r then
             if \<not> BlockBuilder_empty (tb_data_block r) then None
             else add_index_entry (FindShortestSeparator (opt_comparator (tb_options r)) (tb_last_key r) key) r
           else Some r)
          (\<lambda>r.
            let r = r\<lparr>tb_filter_block := map_option (FilterBlock_AddKey key) (tb_filter_block r),
                     tb_last_key := key, tb_num_entries := tb_num_entries r + 1\<rparr>
            in Option.bind (BlockBuilder_Add key value (tb_data_block r)) (\<lambda>b.
                 let r = r\<lparr>tb_data_block := b\<rparr>
                 in if CurrentSizeEstimate (tb_data_block r) \<ge> opt_block_size (tb_options r)
                    then TableBuilder_Flush ops lib r else Some r)))"

text \<open>The parts of \<open>Finish\<close>, each of which does nothing after an error: the filter block, the metaindex
  block, the index block and the footer. A handle that was not written is uninitialized.\<close>

definition finish_filter :: "'w WritableFile \<Rightarrow> 'w TableBuilder \<Rightarrow> BlockHandle \<times> 'w TableBuilder" where
  "finish_filter ops r =
     (case tb_filter_block r of
        Some f \<Rightarrow>
          if TableBuilder_ok r then
            (case FilterBlock_Finish f of
               (f, contents) \<Rightarrow> WriteRawBlock ops contents kNoCompression (r\<lparr>tb_filter_block := Some f\<rparr>))
          else (new_BlockHandle, r)
      | None \<Rightarrow> (new_BlockHandle, r))"

definition filter_key :: "FilterPolicy \<Rightarrow> bytes" where
  "filter_key policy = lit ''filter.'' @ Policy_Name policy"

definition finish_metaindex :: "'w WritableFile \<Rightarrow> SnappyLib option \<Rightarrow> BlockHandle \<Rightarrow> 'w TableBuilder
    \<Rightarrow> (BlockHandle \<times> 'w TableBuilder) option" where
  "finish_metaindex ops lib filter_block_handle r =
     (if \<not> TableBuilder_ok r then Some (new_BlockHandle, r)
      else
        Option.bind (new_BlockBuilder (tb_options r)) (\<lambda>meta_index_block.
        Option.bind
          (case (tb_filter_block r, opt_filter_policy (tb_options r)) of
             (Some _, Some policy) \<Rightarrow>
               Option.bind (BlockHandle_EncodeTo filter_block_handle []) (\<lambda>handle_encoding.
                 BlockBuilder_Add (filter_key policy) handle_encoding meta_index_block)
           | (Some _, None) \<Rightarrow> None
           | (None, _) \<Rightarrow> Some meta_index_block)
          (\<lambda>meta_index_block.
             map_option (\<lambda>(handle, _, r). (handle, r)) (WriteBlock ops lib meta_index_block r))))"

definition finish_index :: "'w WritableFile \<Rightarrow> SnappyLib option \<Rightarrow> 'w TableBuilder \<Rightarrow> (BlockHandle \<times> 'w TableBuilder) option" where
  "finish_index ops lib r =
     (if \<not> TableBuilder_ok r then Some (new_BlockHandle, r)
      else
        Option.bind
          (if tb_pending_index_entry r
           then add_index_entry (FindShortSuccessor (opt_comparator (tb_options r)) (tb_last_key r)) r
           else Some r)
          (\<lambda>r. map_option (\<lambda>(handle, b, r). (handle, r\<lparr>tb_index_block := b\<rparr>)) (WriteBlock ops lib (tb_index_block r) r)))"

definition finish_footer :: "'w WritableFile \<Rightarrow> BlockHandle \<Rightarrow> BlockHandle \<Rightarrow> 'w TableBuilder \<Rightarrow> 'w TableBuilder option" where
  "finish_footer ops metaindex_block_handle index_block_handle r =
     (if \<not> TableBuilder_ok r then Some r
      else
        Option.bind (Footer_EncodeTo \<lparr>ft_metaindex_handle = metaindex_block_handle, ft_index_handle = index_block_handle\<rparr> [])
          (\<lambda>footer_encoding.
             (case wf_Append ops footer_encoding (tb_file r) of
                (s, file) \<Rightarrow>
                  let r = r\<lparr>tb_file := file, tb_status := s\<rparr>
                  in Some (if Status_ok s then r\<lparr>tb_offset := tb_offset r + word_of_nat (length footer_encoding)\<rparr> else r))))"

definition TableBuilder_Finish :: "'w WritableFile \<Rightarrow> SnappyLib option \<Rightarrow> 'w TableBuilder \<Rightarrow> (Status \<times> 'w TableBuilder) option" where
  "TableBuilder_Finish ops lib r =
     Option.bind (TableBuilder_Flush ops lib r) (\<lambda>r.
       if tb_closed r then None
       else
         (case finish_filter ops (r\<lparr>tb_closed := True\<rparr>) of
            (filter_block_handle, r) \<Rightarrow>
              Option.bind (finish_metaindex ops lib filter_block_handle r) (\<lambda>(metaindex_block_handle, r).
              Option.bind (finish_index ops lib r) (\<lambda>(index_block_handle, r).
              Option.bind (finish_footer ops metaindex_block_handle index_block_handle r) (\<lambda>r.
              Some (tb_status r, r))))))"

definition TableBuilder_Abandon :: "'w TableBuilder \<Rightarrow> 'w TableBuilder option" where
  "TableBuilder_Abandon r = (if tb_closed r then None else Some (r\<lparr>tb_closed := True\<rparr>))"

definition TableBuilder_NumEntries :: "'w TableBuilder \<Rightarrow> u64" where
  "TableBuilder_NumEntries r = word_of_int (tb_num_entries r)"

definition TableBuilder_FileSize :: "'w TableBuilder \<Rightarrow> u64" where
  "TableBuilder_FileSize r = tb_offset r"

end
