(* ===== verification/Stored_Blocks.thy ===== *)
theory Stored_Blocks
  imports Block_Correct Table_Format Table_Builder
begin

text \<open>
  Blocks as they are stored in a table file: what \<open>WriteRawBlock\<close> appends, \<open>ReadBlock\<close> reads back.

  The reader uses a file whose reads succeed inside of the file, the writer one whose size stays in the
  range of its 64-bit offsets, as the largest size of a POSIX file guarantees.
\<close>

subsection \<open>The files\<close>

locale reliable_random_access_file = random_access_file +
  fixes reliable :: "'f \<Rightarrow> bool"
  assumes reliable_pread: "reliable f \<Longrightarrow> unat off + n \<le> length (contents f) \<Longrightarrow> rf_Read ops off n f = (s, data, f')
      \<Longrightarrow> Status_ok s \<and> reliable f'"

definition ra_reliable :: "PosixRandomAccessFile \<Rightarrow> bool" where
  "ra_reliable f \<longleftrightarrow> os_script (ra_os f) = [] \<and> length (os_data (ra_os f)) \<le> off_max"

interpretation posix_random_reliable: reliable_random_access_file PosixRandomAccessFile_ops "\<lambda>f. os_data (ra_os f)" ra_reliable
proof unfold_locales
  fix f off n s data f'
  assume f: "ra_reliable f" "unat off + n \<le> length (os_data (ra_os f))"
    and r: "rf_Read PosixRandomAccessFile_ops off n f = (s, data, f')"
  have "sint off = int (unat off)" using f by (intro sint_of_small) (simp add: ra_reliable_def off_max_def)
  then show "Status_ok s \<and> ra_reliable f'"
    using r f(1) by (auto simp: PosixRandomAccessFile_ops_def PosixRandomAccessFile_Read_def ra_reliable_def sys_call_def
        take_script_def split: if_splits)
qed

definition mm_reliable :: "PosixMmapReadableFile \<Rightarrow> bool" where
  "mm_reliable f \<longleftrightarrow> length (mm_region f) < 2 ^ 64"

interpretation posix_mmap_reliable: reliable_random_access_file PosixMmapReadableFile_ops mm_region mm_reliable
proof unfold_locales
  fix f off n s data f'
  assume f: "mm_reliable f" "unat off + n \<le> length (mm_region f)"
    and r: "rf_Read PosixMmapReadableFile_ops off n f = (s, data, f')"
  have w: "unat (word_of_nat m :: u64) = m" if "m \<le> length (mm_region f)" for m
    using f(1) that by (intro unat_of_nat_u64) (simp add: mm_reliable_def)
  have "off + word_of_nat n = word_of_nat (unat off + n)" by simp
  then have "unat (off + word_of_nat n) = unat off + n" using w [OF f(2)] by simp
  then have "\<not> off + word_of_nat n > word_of_nat (length (mm_region f))"
    using f(2) w [OF order_refl] by (simp add: word_less_nat_alt)
  then show "Status_ok s \<and> mm_reliable f'"
    using r f(1) by (auto simp: PosixMmapReadableFile_ops_def PosixMmapReadableFile_Read_def)
qed

text \<open>\<open>valid\<close> holds for the files that can occur; their sizes are values of type \<open>size_t\<close>.\<close>

locale table_file =
  fixes ops :: "'w WritableFile" and contents :: "'w \<Rightarrow> bytes" and valid :: "'w \<Rightarrow> bool"
  assumes append_whole: "valid f \<Longrightarrow> wf_Append ops data f = (s, f') \<Longrightarrow> Status_ok s \<Longrightarrow>
      contents f' = contents f @ data \<and> valid f'"
    and flush_whole: "valid f \<Longrightarrow> wf_Flush ops f = (s, f') \<Longrightarrow> Status_ok s \<Longrightarrow> contents f' = contents f \<and> valid f'"
    and valid_length: "valid f \<Longrightarrow> length (contents f) < 2 ^ 64 - 1"

interpretation posix_table: table_file PosixWritableFile_ops pw_contents pw_bounded
proof unfold_locales
  fix f data s f'
  assume f: "pw_bounded f" and s: "Status_ok s"
  show "pw_contents f' = pw_contents f @ data \<and> pw_bounded f'" if "wf_Append PosixWritableFile_ops data f = (s, f')"
    using that f s Append_spec [of data f s f'] Append_bounded [of data f s f'] by (simp add: PosixWritableFile_ops_def)
  show "pw_contents f' = pw_contents f \<and> pw_bounded f'" if "wf_Flush PosixWritableFile_ops f = (s, f')"
  proof -
    have "FlushBuffer f = (s, f')" using that by (simp add: PosixWritableFile_ops_def PosixWritableFile_Flush_def)
    then show ?thesis using f s FlushBuffer_spec FlushBuffer_bounded by blast
  qed
next
  fix f assume "pw_bounded f"
  then show "length (pw_contents f) < 2 ^ 64 - 1"
    by (simp add: pw_bounded_def pw_contents_def off_max_def kWritableFileBufferSize_def)
qed

subsection \<open>Writing\<close>

definition raw_block :: "Slice \<Rightarrow> bytes" where
  "raw_block data = data @ [0] @ EncodeFixed32 (crc_Mask (crc32c (data @ [0])))"

lemma length_raw_block [simp]: "length (raw_block data) = length data + 5"
  by (simp add: raw_block_def)

text \<open>A block in the contents of a file, at the place that the handle names.\<close>

definition stored :: "bytes \<Rightarrow> BlockHandle \<Rightarrow> Slice \<Rightarrow> bool" where
  "stored F h data \<longleftrightarrow> unat (bh_size h) = length data
     \<and> (\<exists>pre post. F = pre @ raw_block data @ post \<and> length pre = unat (bh_offset h))"

lemma stored_append: "stored F h data \<Longrightarrow> stored (F @ G) h data"
  unfolding stored_def by (metis append.assoc)

lemma stored_bound: "stored F h data \<Longrightarrow> unat (bh_offset h) + length data + 5 \<le> length F"
  by (auto simp: stored_def)

lemma stored_handle_ok:
  assumes "stored F h data" "length F < 2 ^ 64 - 1"
  shows "handle_ok h"
proof -
  have "unat (bh_offset h) < 2 ^ 64 - 1" "unat (bh_size h) < 2 ^ 64 - 1"
    using stored_bound [OF assms(1)] assms by (simp_all add: stored_def)
  moreover have "unat (- 1 :: u64) = 18446744073709551615" by (simp add: unsigned_minus_1_eq_mask mask_eq_exp_minus_1)
  ultimately show ?thesis by (auto simp: handle_ok_def)
qed

context table_file
begin

text \<open>The builder knows the size of the file.\<close>

definition offset_ok :: "'w TableBuilder \<Rightarrow> bool" where
  "offset_ok r \<longleftrightarrow> valid (tb_file r) \<and> tb_offset r = word_of_nat (length (contents (tb_file r)))"

lemma WriteRawBlock_stored:
  assumes "offset_ok r" "WriteRawBlock ops data kNoCompression r = (h, r')"
  shows "\<exists>f s off. r' = r\<lparr>tb_file := f, tb_status := s, tb_offset := off\<rparr>
    \<and> (if Status_ok s then contents f = contents (tb_file r) @ raw_block data \<and> offset_ok r' \<and> stored (contents f) h data
         \<and> bh_offset h = tb_offset r
       else off = tb_offset r)"
proof -
  obtain s1 f1 where a1: "wf_Append ops data (tb_file r) = (s1, f1)" by (cases "wf_Append ops data (tb_file r)")
  let ?h = "\<lparr>bh_offset = tb_offset r, bh_size = word_of_nat (length data)\<rparr>"
  show ?thesis
  proof (cases "Status_ok s1")
    case False
    then have "r' = r\<lparr>tb_file := f1, tb_status := s1\<rparr>" using assms(2) a1 by (simp add: WriteRawBlock_def Let_def)
    then show ?thesis using False by (intro exI [of _ f1] exI [of _ s1] exI [of _ "tb_offset r"]) simp
  next
    case True
    have v: "valid (tb_file r)" using assms(1) by (simp add: offset_ok_def)
    note w1 = append_whole [OF v a1 True]
    let ?t = "[0] @ EncodeFixed32 (crc_Mask (crc32c (data @ [0])))"
    obtain s2 f2 where a2: "wf_Append ops ?t f1 = (s2, f2)" by (cases "wf_Append ops ?t f1")
    have r': "h = ?h" "r' = (if \<not> Status_ok s2 then r\<lparr>tb_file := f2, tb_status := s2\<rparr>
        else r\<lparr>tb_file := f2, tb_status := s2, tb_offset := tb_offset r + word_of_nat (length data + kBlockTrailerSize)\<rparr>)"
      using assms(2) True a2 unfolding WriteRawBlock_def Let_def a1 prod.case
      by (auto simp: crc_Value_spec crc_Extend_spec CompressionType_value_def split: if_splits)
    show ?thesis
    proof (cases "Status_ok s2")
      case False
      then show ?thesis using r'(2) by (intro exI [of _ f2] exI [of _ s2] exI [of _ "tb_offset r"]) simp
    next
      case s2: True
      let ?off = "tb_offset r + word_of_nat (length data + kBlockTrailerSize)"
      note w2 = append_whole [OF conjunct2 [OF w1] a2 s2]
      have c: "contents f2 = contents (tb_file r) @ raw_block data" using w1 w2 by (simp add: raw_block_def)
      have eq: "r' = r\<lparr>tb_file := f2, tb_status := s2, tb_offset := ?off\<rparr>" using r'(2) s2 by simp
      have small: "length (contents (tb_file r)) + length data + 5 < 2 ^ 64 - 1"
        using valid_length [OF conjunct2 [OF w2]] c by simp
      have "?off = word_of_nat (length (contents f2))" using assms(1) c by (simp add: offset_ok_def kBlockTrailerSize_def)
      moreover have "valid f2" using w2 by blast
      moreover have "tb_file r' = f2" "tb_offset r' = ?off" by (simp_all add: eq)
      ultimately have off: "offset_ok r'" unfolding offset_ok_def by metis
      have "unat (word_of_nat (length data) :: u64) = length data"
        "unat (tb_offset r) = length (contents (tb_file r))"
        using small assms(1) by (simp_all add: offset_ok_def unat_of_nat_u64)
      then have "stored (contents f2) h data"
        unfolding stored_def r'(1) c by (intro conjI exI [of _ "contents (tb_file r)"] exI [of _ "[]"]) simp_all
      then show ?thesis
        using c eq off s2 r'(1) by (intro exI [of _ f2] exI [of _ s2] exI [of _ ?off]) simp
    qed
  qed
qed

end

subsection \<open>Reading\<close>

context reliable_random_access_file
begin

lemma ReadBlock_stored:
  assumes "stored (contents f) h data" "reliable f" "length (contents f) < 2 ^ 64"
  shows "\<exists>f'. ReadBlock lib ops options h in_buf f
      = Some (Status_OK, \<lparr>bc_data = data, bc_cachable = in_buf, bc_heap_allocated = in_buf\<rparr>, f')
    \<and> contents f' = contents f \<and> reliable f'"
proof -
  let ?n = "unat (bh_size h)" and ?m = "unat (bh_size h + word_of_nat kBlockTrailerSize)"
  have n: "?n = length data" using assms(1) by (simp add: stored_def)
  note b = stored_bound [OF assms(1)]
  obtain pre post where F: "contents f = pre @ raw_block data @ post" "length pre = unat (bh_offset h)"
    using assms(1) by (auto simp: stored_def)
  have w: "unat (word_of_nat k :: u64) = k" if "k \<le> length (contents f)" for k
    using that assms(3) by (intro unat_of_nat_u64) simp
  have plus: "unat (bh_size h + word_of_nat k) = ?n + k" if "k \<le> 5" for k
  proof -
    have "bh_size h + word_of_nat k = word_of_nat (?n + k)" by simp
    moreover have "?n + k \<le> length (contents f)" using b n that by linarith
    ultimately show ?thesis using w by presburger
  qed
  then have m: "?m = ?n + 5" "unat (bh_size h + 1) = ?n + 1"
    using plus [of 5] plus [of 1] unfolding kBlockTrailerSize_def by simp_all
  obtain s d f' where r: "rf_Read ops (bh_offset h) ?m f = (s, d, f')"
    by (cases "rf_Read ops (bh_offset h) ?m f") auto
  have in_file: "unat (bh_offset h) + ?m \<le> length (contents f)" using b n m(1) by simp
  from reliable_pread [OF assms(2) this r] have ok: "Status_ok s" "reliable f'" by simp_all
  have d: "d = raw_block data" "contents f' = contents f"
    using pread_ok [OF r ok(1)] in_file assms(3) F n m(1) by simp_all
  have parts: "length d = ?m" "take (?n + 1) d = data @ [0]" "take ?n d = data" "d ! ?n = 0"
    "DecodeFixed32 (drop (?n + 1) d) = Some (crc_Mask (crc32c (data @ [0])))"
    using n by (simp_all add: d(1) raw_block_def m(1) nth_append
        DecodeFixed32_EncodeFixed32 [where rest = "[]", simplified])
  show ?thesis
    unfolding ReadBlock_def Let_def r prod.case m(2) parts(2,3,4,5) Option.bind.simps
    using ok d(2) by (simp add: parts(1) m(1) crc_Value_spec CompressionType_value_def)
qed

end

end
