(* ===== verification/Table_Build_Correct.thy ===== *)
theory Table_Build_Correct
  imports Stored_Blocks
begin

text \<open>
  What the table builder writes. While it is working, the file holds the blocks flushed so far, the
  index block their handles under separating keys, and the filter block the keys of each block. At the
  end the file is the image of a table for the entries that were added. No assertion fails on the way,
  and once the file reports an error the builder stops writing.
\<close>

subsection \<open>The contents of a table\<close>

text \<open>The flushed blocks: handles and entries.\<close>

type_synonym table_blocks = "(BlockHandle \<times> entries) list"

definition all_entries :: "table_blocks \<Rightarrow> entries \<Rightarrow> entries" where
  "all_entries bs cur = concat (map snd bs) @ cur"

definition block_stored :: "bytes \<Rightarrow> BlockHandle \<times> entries \<Rightarrow> bool" where
  "block_stored F b \<longleftrightarrow>
     snd b \<noteq> [] \<and> (\<exists>ls rs. layout_wf ls rs \<and> entries_of ls = snd b \<and> stored F (fst b) (block_bytes ls rs))"

definition index_entries :: "Slice list \<Rightarrow> table_blocks \<Rightarrow> entries" where
  "index_entries ks bs = zip ks (map (handle_bytes \<circ> fst) bs)"

text \<open>The keys of the index separate the blocks.\<close>

definition separated :: "(Slice \<Rightarrow> bool) \<Rightarrow> Comparator \<Rightarrow> Slice list \<Rightarrow> table_blocks \<Rightarrow> entries \<Rightarrow> bool" where
  "separated key cmp ks bs cur \<longleftrightarrow>
     (\<forall>j < length ks. key (ks ! j) \<and> (\<forall>e \<in> set (snd (bs ! j)). Compare cmp (fst e) (ks ! j) \<le> 0)
        \<and> (\<forall>e \<in> set (all_entries (drop (Suc j) bs) cur). Compare cmp (ks ! j) (fst e) < 0))"

definition filter_groups :: "table_blocks \<Rightarrow> u64 \<Rightarrow> entries \<Rightarrow> (u64 \<times> Slice list) list" where
  "filter_groups bs off cur = map (\<lambda>(h, es). (bh_offset h, map fst es)) bs @ [(off, map fst cur)]"

lemma all_entries_snoc:
  "all_entries (bs @ [(h, cur)]) [] = all_entries bs cur" "all_entries bs (cur @ es) = all_entries bs cur @ es"
  by (simp_all add: all_entries_def)

lemma filter_groups_snoc: "filter_groups (bs @ [(h, cur)]) off' [] = filter_groups bs (bh_offset h) cur @ [(off', [])]"
  by (simp add: filter_groups_def)

lemma block_stored_append: "block_stored F b \<Longrightarrow> block_stored (F @ G) b"
  unfolding block_stored_def using stored_append by blast

lemma last_entry_of_blocks:
  "bs \<noteq> [] \<Longrightarrow> snd (last bs) \<noteq> [] \<Longrightarrow> last (all_entries bs []) = last (snd (last bs)) \<and> all_entries bs [] \<noteq> []"
  by (cases bs rule: rev_cases) (auto simp: all_entries_def)

lemma sorted_last_entry:
  "sorted_entries cmp es \<Longrightarrow> e \<in> set es \<Longrightarrow> e = last es \<or> Compare cmp (fst e) (fst (last es)) < 0"
  by (cases es rule: rev_cases) (auto simp: sorted_entries_def sorted_wrt_append)

lemma sorted_block: "sorted_entries cmp (all_entries bs cur) \<Longrightarrow> b \<in> set bs \<Longrightarrow> sorted_entries cmp (snd b)"
  by (auto simp: all_entries_def sorted_entries_def sorted_wrt_append dest!: split_list)

text \<open>A whole table file.\<close>

definition table_image :: "(Slice \<Rightarrow> bool) \<Rightarrow> Comparator \<Rightarrow> FilterPolicy option \<Rightarrow> bytes \<Rightarrow> table_blocks \<Rightarrow> Slice list \<Rightarrow> bool" where
  "table_image key cmp policy F bs ks \<longleftrightarrow>
     length F < 2 ^ 64 - 1 \<and> (\<forall>b \<in> set bs. block_stored F b) \<and> distinct (map (bh_offset \<circ> fst) bs)
     \<and> length ks = length bs \<and> separated key cmp ks bs []
     \<and> (\<exists>mh ih body ils irs mls mrs.
          F = body @ footer_bytes \<lparr>ft_metaindex_handle = mh, ft_index_handle = ih\<rparr>
          \<and> layout_wf ils irs \<and> stored F ih (block_bytes ils irs) \<and> entries_of ils = index_entries ks bs
          \<and> layout_wf mls mrs \<and> stored F mh (block_bytes mls mrs)
          \<and> (case policy of
               None \<Rightarrow> True
             | Some p \<Rightarrow> \<exists>fh off b. entries_of mls = [(filter_key p, handle_bytes fh)]
                 \<and> stored F fh (snd (FilterBlock_Finish b))
                 \<and> build_blocks (filter_groups bs off []) (new_FilterBlockBuilder p) = Some b))"

subsection \<open>Filter groups\<close>

lemma build_blocks_append: "build_blocks (gs @ hs) f = Option.bind (build_blocks gs f) (build_blocks hs)"
  by (induction gs f rule: build_blocks.induct) (auto split: option.splits)

lemma build_blocks_AddKey:
  "build_blocks (gs @ [(off, ks)]) f = Some b \<Longrightarrow> build_blocks (gs @ [(off, ks @ [k])]) f = Some (FilterBlock_AddKey k b)"
  by (auto simp: build_blocks_append bind_eq_Some_conv split: option.splits)

lemma build_blocks_Start:
  assumes "build_blocks gs (new_FilterBlockBuilder p) = Some b" "sorted (map fst gs @ [off])"
  shows "\<exists>b'. StartBlock off b = Some b' \<and> build_blocks (gs @ [(off, [])]) (new_FilterBlockBuilder p) = Some b'"
proof -
  have "build_blocks (gs @ [(off, [])]) (new_FilterBlockBuilder p) \<noteq> None"
    by (rule build_blocks_defined) (use assms(2) in \<open>simp_all add: new_FilterBlockBuilder_def\<close>)
  then show ?thesis using assms(1) by (auto simp: build_blocks_append split: option.splits)
qed

subsection \<open>What a client does\<close>

text \<open>Entries are added to a new builder, which is finished then.\<close>

fun add_all :: "'w WritableFile \<Rightarrow> SnappyLib option \<Rightarrow> entries \<Rightarrow> 'w TableBuilder \<Rightarrow> 'w TableBuilder option" where
  "add_all ops lib [] r = Some r"
| "add_all ops lib ((k, v) # es) r = Option.bind (TableBuilder_Add ops lib k v r) (add_all ops lib es)"

definition build_table :: "'w WritableFile \<Rightarrow> SnappyLib option \<Rightarrow> Options \<Rightarrow> entries \<Rightarrow> 'w \<Rightarrow> (Status \<times> 'w TableBuilder) option" where
  "build_table ops lib options es file =
     Option.bind (new_TableBuilder options file) (\<lambda>r.
     Option.bind (add_all ops lib es r) (TableBuilder_Finish ops lib))"

subsection \<open>The invariant of the builder\<close>

locale table_building = comparator key cmp + table_file ops contents valid
  for key :: "Slice \<Rightarrow> bool" and cmp :: Comparator and ops :: "'w WritableFile" and contents :: "'w \<Rightarrow> bytes"
    and valid :: "'w \<Rightarrow> bool" +
  fixes options :: Options and lib :: "SnappyLib option"
  assumes same_comparator: "opt_comparator options = cmp"
    and interval: "1 \<le> opt_block_restart_interval options"
    and uncompressed: "opt_compression options = kNoCompression \<or> lib = None"
begin

abbreviation index_options :: Options where
  "index_options \<equiv> options\<lparr>opt_block_restart_interval := 1\<rparr>"

definition filter_inv :: "'w TableBuilder \<Rightarrow> table_blocks \<Rightarrow> entries \<Rightarrow> bool" where
  "filter_inv r bs cur \<longleftrightarrow>
     sorted (map fst (filter_groups bs (tb_offset r) cur))
     \<and> (case opt_filter_policy options of
          None \<Rightarrow> tb_filter_block r = None
        | Some p \<Rightarrow> build_blocks (filter_groups bs (tb_offset r) cur) (new_FilterBlockBuilder p) = tb_filter_block r
                    \<and> tb_filter_block r \<noteq> None)"

text \<open>\<open>pending\<close>: a block whose index entry is still to be added.\<close>

definition index_inv :: "'w TableBuilder \<Rightarrow> table_blocks \<Rightarrow> Slice list \<Rightarrow> entries \<Rightarrow> bool" where
  "index_inv r bs ks cur \<longleftrightarrow>
     length bs = length ks + (if tb_pending_index_entry r then 1 else 0)
     \<and> (if tb_pending_index_entry r then cur = [] \<and> tb_pending_handle r = fst (last bs) else bs = [] \<or> cur \<noteq> [])
     \<and> separated key cmp ks bs cur
     \<and> (\<exists>ls rs. builds index_options (tb_index_block r) ls rs \<and> entries_of ls = index_entries ks bs)"

definition building :: "'w TableBuilder \<Rightarrow> table_blocks \<Rightarrow> Slice list \<Rightarrow> entries \<Rightarrow> bool" where
  "building r bs ks cur \<longleftrightarrow>
     tb_options r = options \<and> \<not> tb_closed r \<and> Status_ok (tb_status r) \<and> offset_ok r
     \<and> (\<forall>b \<in> set bs. block_stored (contents (tb_file r)) b)
     \<and> distinct (map (bh_offset \<circ> fst) bs)
     \<and> index_inv r bs ks cur
     \<and> (\<exists>ls rs. builds options (tb_data_block r) ls rs \<and> entries_of ls = cur)
     \<and> filter_inv r bs cur
     \<and> sorted_entries cmp (all_entries bs cur) \<and> (\<forall>e \<in> set (all_entries bs cur). key (fst e))
     \<and> tb_num_entries r = int (length (all_entries bs cur))
     \<and> (all_entries bs cur \<noteq> [] \<longrightarrow> tb_last_key r = fst (last (all_entries bs cur)))"

definition failed :: "'w TableBuilder \<Rightarrow> bool" where
  "failed r \<longleftrightarrow> \<not> Status_ok (tb_status r) \<and> \<not> tb_closed r"

lemma buildingD:
  assumes "building r bs ks cur"
  shows "tb_options r = options" "\<not> tb_closed r" "Status_ok (tb_status r)" "offset_ok r"
    "\<forall>b \<in> set bs. block_stored (contents (tb_file r)) b" "index_inv r bs ks cur"
    "\<exists>ls rs. builds options (tb_data_block r) ls rs \<and> entries_of ls = cur" "filter_inv r bs cur"
    "sorted_entries cmp (all_entries bs cur)" "\<forall>e \<in> set (all_entries bs cur). key (fst e)"
    "tb_num_entries r = int (length (all_entries bs cur))"
    "all_entries bs cur \<noteq> [] \<Longrightarrow> tb_last_key r = fst (last (all_entries bs cur))" "distinct (map (bh_offset \<circ> fst) bs)"
  using assms unfolding building_def by blast+

lemma block_keys:
  assumes "building r bs ks cur" "b \<in> set bs" "e \<in> set (snd b)"
  shows "key (fst e)"
  using buildingD(10) [OF assms(1)] assms(2,3) unfolding all_entries_def by auto

lemma builds_snoc:
  assumes b: "builds opts b ls rs" "opt_comparator opts = cmp"
    and new: "\<forall>e \<in> set (entries_of ls). Compare cmp (fst e) k < 0 \<and> key (fst e)" "key k"
  shows "\<exists>b' ls' rs'. BlockBuilder_Add k v b = Some b' \<and> builds opts b' ls' rs' \<and> entries_of ls' = entries_of ls @ [(k, v)]"
proof -
  have "ls = [] \<or> Compare (opt_comparator opts) k (last_key_of ls) > 0"
  proof (cases "ls = []")
    case False
    then have "(last_key_of ls, value_of ls (length ls - 1)) \<in> set (entries_of ls)"
      by (simp add: entries_of_def key_of_def value_of_def last_key_of_def)
    then have "Compare cmp (last_key_of ls) k < 0" "key (last_key_of ls)" using new(1) by fastforce+
    then show ?thesis using swap new(2) b(2) by blast
  qed simp
  from builds_Add [OF b(1) this, of v] obtain b' s rs'
    where "BlockBuilder_Add k v b = Some b'" "builds opts b' (ls @ [(s, k, v)]) rs'" by blast
  then show ?thesis by (intro exI conjI) (assumption, assumption, simp add: entries_of_def)
qed

lemma empty_iff:
  assumes "builds opts b ls rs"
  shows "BlockBuilder_empty b \<longleftrightarrow> entries_of ls = []"
  using assms entry_bytes_not_Nil by (cases ls) (auto simp: BlockBuilder_empty_def builds_def block_buffer_def entries_of_def)

lemma new_building:
  assumes "contents file = []" "valid file"
  shows "\<exists>r. new_TableBuilder options file = Some r \<and> building r [] [] []"
proof -
  obtain d where d: "new_BlockBuilder options = Some d" "builds options d [] [0]" using builds_new [OF interval] by blast
  have i: "builds index_options (d\<lparr>bb_options := index_options\<rparr>) [] [0]" using d(2) by (simp add: builds_def)
  let ?r = "\<lparr>tb_options = options, tb_index_block_options = index_options, tb_file = file, tb_offset = 0,
      tb_status = Status_OK, tb_data_block = d, tb_index_block = d\<lparr>bb_options := index_options\<rparr>, tb_last_key = [],
      tb_num_entries = 0, tb_closed = False, tb_filter_block = map_option new_FilterBlockBuilder (opt_filter_policy options),
      tb_pending_index_entry = False, tb_pending_handle = new_BlockHandle, tb_compressed_output = []\<rparr>"
  have b: "building (?r\<lparr>tb_filter_block := f\<rparr>) [] [] []"
    if "case opt_filter_policy options of None \<Rightarrow> f = None
        | Some p \<Rightarrow> build_blocks [(0, [])] (new_FilterBlockBuilder p) = f \<and> f \<noteq> None" for f
    using that assms i d(2) unfolding building_def index_inv_def filter_inv_def
    by (auto simp: all_entries_def separated_def index_entries_def entries_of_def filter_groups_def offset_ok_def
        sorted_entries_def Status_ok_OK split: option.splits)
  show ?thesis
  proof (cases "opt_filter_policy options")
    case None
    then show ?thesis using d(1) b [of None] by (simp add: new_TableBuilder_def Let_def)
  next
    case (Some p)
    obtain f where f: "StartBlock 0 (new_FilterBlockBuilder p) = Some f" "build_blocks [(0, [])] (new_FilterBlockBuilder p) = Some f"
      using build_blocks_Start [of "[]" p _ 0] by auto
    then show ?thesis using d(1) b [of "Some f"] Some by (simp add: new_TableBuilder_def Let_def)
  qed
qed

subsection \<open>Adding entries\<close>

lemma index_keys_less:
  assumes ks: "separated key cmp ks bs cur" "length ks < length bs" "\<forall>b \<in> set bs. snd b \<noteq> []"
    and k: "key k" "\<forall>e \<in> set (snd (last bs)). key (fst e) \<and> Compare cmp (fst e) k \<le> 0"
    and one: "length bs = length ks + 1"
  shows "\<forall>e \<in> set (index_entries ks bs). Compare cmp (fst e) k < 0 \<and> key (fst e)"
proof
  fix e assume "e \<in> set (index_entries ks bs)"
  then obtain j where j: "j < length ks" "fst e = ks ! j" by (auto simp: index_entries_def set_zip)
  have "bs \<noteq> []" using one by auto
  then have bs: "bs \<noteq> []" "last bs \<in> set bs" by simp_all
  then obtain x where x: "x \<in> set (snd (last bs))" using ks(3) by (metis last_in_set)
  have "last bs \<in> set (drop (Suc j) bs)" using j(1) one by (metis Suc_eq_plus1 Suc_less_eq last_drop last_in_set length_drop
      length_greater_0_conv zero_less_diff)
  then have "x \<in> set (all_entries (drop (Suc j) bs) cur)" using x by (auto simp: all_entries_def)
  then have "Compare cmp (ks ! j) (fst x) < 0" "key (ks ! j)" using ks(1) j(1) by (simp_all add: separated_def)
  then show "Compare cmp (fst e) k < 0 \<and> key (fst e)" using less_le_trans k x j(2) by metis
qed

lemma handle_of_stored: "block_stored F b \<Longrightarrow> length F < 2 ^ 64 - 1 \<Longrightarrow> handle_ok (fst b)"
  using stored_handle_ok unfolding block_stored_def by blast

lemma index_entries_snoc:
  "length bs = length ks + 1 \<Longrightarrow> index_entries (ks @ [k]) bs = index_entries ks bs @ [(k, handle_bytes (fst (last bs)))]"
  unfolding index_entries_def
  by (cases bs rule: rev_cases) (simp_all add: zip_append2 comp_def)

text \<open>The index entry of the pending block.\<close>

lemma add_index_entry_ok:
  assumes r: "offset_ok r" "\<forall>b \<in> set bs. block_stored (contents (tb_file r)) b" "index_inv r bs ks cur"
      "\<forall>e \<in> set (all_entries bs cur). key (fst e)"
    and p: "tb_pending_index_entry r"
    and k: "key k" "\<forall>e \<in> set (snd (last bs)). Compare cmp (fst e) k \<le> 0"
  shows "\<exists>b ls rs. add_index_entry k r = Some (r\<lparr>tb_last_key := k, tb_index_block := b, tb_pending_index_entry := False\<rparr>)
    \<and> builds index_options b ls rs \<and> entries_of ls = index_entries (ks @ [k]) bs"
proof -
  have ix: "length bs = length ks + 1" "tb_pending_handle r = fst (last bs)" "separated key cmp ks bs cur"
    using r(3) p by (auto simp: index_inv_def)
  obtain ls rs where b: "builds index_options (tb_index_block r) ls rs" "entries_of ls = index_entries ks bs"
    using r(3) unfolding index_inv_def by blast
  have "bs \<noteq> []" using ix(1) by auto
  then have bs: "bs \<noteq> []" "last bs \<in> set bs" by simp_all
  have st: "\<forall>b \<in> set bs. block_stored (contents (tb_file r)) b" "length (contents (tb_file r)) < 2 ^ 64 - 1"
    using r(1,2) valid_length by (simp_all add: offset_ok_def)
  have "block_stored (contents (tb_file r)) (last bs)" using st(1) bs(2) by blast
  then have h: "BlockHandle_EncodeTo (tb_pending_handle r) [] = Some (handle_bytes (fst (last bs)))"
    unfolding ix(2) using BlockHandle_EncodeTo_ok [OF handle_of_stored [OF _ st(2)], of _ "[]"] by simp
  have "\<forall>e \<in> set (snd (last bs)). key (fst e) \<and> Compare cmp (fst e) k \<le> 0"
    using k(2) r(4) bs(2) by (auto simp: all_entries_def)
  moreover have "\<forall>b \<in> set bs. snd b \<noteq> []" using st(1) by (simp add: block_stored_def)
  ultimately have "\<forall>e \<in> set (entries_of ls). Compare cmp (fst e) k < 0 \<and> key (fst e)"
    unfolding b(2) using index_keys_less [OF ix(3) _ _ k(1) _ ix(1)] ix(1) by simp
  from builds_snoc [OF b(1) _ this k(1), of "handle_bytes (fst (last bs))"] same_comparator
  obtain b' ls' rs' where b': "BlockBuilder_Add k (handle_bytes (fst (last bs))) (tb_index_block r) = Some b'"
    "builds index_options b' ls' rs'" "entries_of ls' = entries_of ls @ [(k, handle_bytes (fst (last bs)))]" by auto
  have "add_index_entry k r = Some (r\<lparr>tb_last_key := k, tb_index_block := b', tb_pending_index_entry := False\<rparr>)"
    unfolding add_index_entry_def h Option.bind.simps using b'(1) by simp
  moreover have "entries_of ls' = index_entries (ks @ [k]) bs" using b'(3) b(2) index_entries_snoc [OF ix(1)] by simp
  ultimately show ?thesis using b'(2) by blast
qed

lemma separated_snoc:
  assumes "separated key cmp ks bs cur" "sorted_entries cmp (all_entries bs cur @ [(k, v)])"
    and "\<forall>e \<in> set (all_entries bs cur). key (fst e)" "key k"
    and later: "\<forall>j < length ks. all_entries (drop (Suc j) bs) cur \<noteq> []"
  shows "separated key cmp ks bs (cur @ [(k, v)])"
proof -
  have "Compare cmp (ks ! j) k < 0" if j: "j < length ks" for j
  proof -
    obtain e where e: "e \<in> set (all_entries (drop (Suc j) bs) cur)" using later j by (meson last_in_set)
    then have in_all: "e \<in> set (all_entries bs cur)" by (auto simp: all_entries_def dest: in_set_dropD)
    then have "Compare cmp (fst e) k < 0" using assms(2) by (simp add: sorted_entries_def sorted_wrt_append)
    moreover have "Compare cmp (ks ! j) (fst e) < 0" "key (ks ! j)" using assms(1) j e by (simp_all add: separated_def)
    ultimately show ?thesis using less_trans assms(3,4) in_all by blast
  qed
  then show ?thesis using assms(1) by (auto simp: separated_def all_entries_def)
qed

lemma later_entries:
  assumes "building r bs ks cur" "j < length ks"
  shows "all_entries (drop (Suc j) bs) cur \<noteq> []"
proof (cases "tb_pending_index_entry r")
  case True
  then have "length bs = length ks + 1" using buildingD(6) [OF assms(1)] by (auto simp: index_inv_def)
  then have "drop (Suc j) bs \<noteq> []" using assms(2) by simp
  then obtain b where b: "b \<in> set (drop (Suc j) bs)" by (meson last_in_set)
  then have "snd b \<noteq> []" using buildingD(5) [OF assms(1)] by (metis block_stored_def in_set_dropD)
  then show ?thesis using b by (auto simp: all_entries_def)
next
  case False
  then have "bs = [] \<or> cur \<noteq> []" "length bs = length ks" using buildingD(6) [OF assms(1)] by (auto simp: index_inv_def)
  then show ?thesis using assms(2) by (auto simp: all_entries_def)
qed

lemma index_inv_same:
  assumes "index_inv r bs ks cur"
    and eq: "tb_pending_index_entry r' = tb_pending_index_entry r" "tb_pending_handle r' = tb_pending_handle r"
      "tb_index_block r' = tb_index_block r"
  shows "index_inv r' bs ks cur"
  using assms(1) unfolding index_inv_def eq .

lemma filter_inv_same:
  "filter_inv r bs cur \<Longrightarrow> tb_offset r' = tb_offset r \<Longrightarrow> tb_filter_block r' = tb_filter_block r \<Longrightarrow> filter_inv r' bs cur"
  by (auto simp: filter_inv_def split: option.splits)

lemma filter_inv_add:
  assumes "filter_inv r bs cur" "tb_offset r' = tb_offset r"
    "tb_filter_block r' = map_option (FilterBlock_AddKey k) (tb_filter_block r)"
  shows "filter_inv r' bs (cur @ [(k, v)])"
proof -
  have g: "filter_groups bs (tb_offset r) (cur @ [(k, v)]) = map (\<lambda>(h, es). (bh_offset h, map fst es)) bs @ [(tb_offset r, map fst cur @ [k])]"
    by (simp add: filter_groups_def)
  show ?thesis
    using assms build_blocks_AddKey [of "map (\<lambda>(h, es). (bh_offset h, map fst es)) bs" "tb_offset r" "map fst cur" _ _ k]
    unfolding filter_inv_def g by (auto simp: filter_groups_def split: option.splits)
qed

text \<open>An entry that sorts after all others, before the size of the block is looked at.\<close>

definition add_entry :: "Slice \<Rightarrow> Slice \<Rightarrow> 'w TableBuilder \<Rightarrow> 'w TableBuilder option" where
  "add_entry k v r =
     map_option (\<lambda>b. r\<lparr>tb_filter_block := map_option (FilterBlock_AddKey k) (tb_filter_block r), tb_last_key := k,
         tb_num_entries := tb_num_entries r + 1, tb_data_block := b\<rparr>)
       (BlockBuilder_Add k v (tb_data_block r))"

lemma add_entry_ok:
  assumes r: "tb_options r = options" "\<not> tb_closed r" "Status_ok (tb_status r)" "offset_ok r"
      "\<forall>b \<in> set bs. block_stored (contents (tb_file r)) b"
      "\<exists>ls rs. builds options (tb_data_block r) ls rs \<and> entries_of ls = cur" "filter_inv r bs cur"
      "\<forall>e \<in> set (all_entries bs cur). key (fst e)"
      "tb_num_entries r = int (length (all_entries bs cur))" "distinct (map (bh_offset \<circ> fst) bs)"
    and ix: "\<not> tb_pending_index_entry r" "length bs = length ks" "separated key cmp ks bs (cur @ [(k, v)])"
      "\<exists>ls rs. builds index_options (tb_index_block r) ls rs \<and> entries_of ls = index_entries ks bs"
    and new: "sorted_entries cmp (all_entries bs cur @ [(k, v)])" "key k"
  shows "\<exists>r'. add_entry k v r = Some r' \<and> building r' bs ks (cur @ [(k, v)])"
proof -
  obtain ls rs where d: "builds options (tb_data_block r) ls rs" "entries_of ls = cur" using r(6) by blast
  have "\<forall>e \<in> set (entries_of ls). Compare cmp (fst e) k < 0 \<and> key (fst e)"
    using new(1) r(8) unfolding d(2) by (simp add: sorted_entries_def sorted_wrt_append all_entries_def)
  from builds_snoc [OF d(1) same_comparator this new(2), of v]
  obtain b ls' rs' where b: "BlockBuilder_Add k v (tb_data_block r) = Some b" "builds options b ls' rs'"
    "entries_of ls' = cur @ [(k, v)]" unfolding d(2) by blast
  let ?r = "r\<lparr>tb_filter_block := map_option (FilterBlock_AddKey k) (tb_filter_block r), tb_last_key := k,
         tb_num_entries := tb_num_entries r + 1, tb_data_block := b\<rparr>"
  have "filter_inv ?r bs (cur @ [(k, v)])" by (rule filter_inv_add [OF r(7)]) simp_all
  moreover have "index_inv ?r bs ks (cur @ [(k, v)])" using ix by (simp add: index_inv_def)
  moreover have "\<exists>ls rs. builds options (tb_data_block ?r) ls rs \<and> entries_of ls = cur @ [(k, v)]" using b(2,3) by auto
  moreover have "offset_ok ?r" using r(4) by (simp add: offset_ok_def)
  ultimately have "building ?r bs ks (cur @ [(k, v)])"
    unfolding building_def all_entries_snoc(2) using r new by simp
  then show ?thesis using b(1) by (simp add: add_entry_def)
qed

lemma before_flush_ok:
  assumes r: "building r bs ks cur" and new: "sorted_entries cmp (all_entries bs cur @ [(k, v)])" "key k"
  shows "\<exists>r' ks'. Option.bind
      (if tb_pending_index_entry r then
         if \<not> BlockBuilder_empty (tb_data_block r) then None
         else add_index_entry (FindShortestSeparator (opt_comparator (tb_options r)) (tb_last_key r) k) r
       else Some r) (add_entry k v) = Some r' \<and> building r' bs ks' (cur @ [(k, v)])"
proof (cases "tb_pending_index_entry r")
  case False
  have ix: "length bs = length ks" "separated key cmp ks bs cur"
    "\<exists>ls rs. builds index_options (tb_index_block r) ls rs \<and> entries_of ls = index_entries ks bs"
    using buildingD(6) [OF r] False by (simp_all add: index_inv_def)
  have "separated key cmp ks bs (cur @ [(k, v)])"
    using separated_snoc [OF ix(2) new(1) buildingD(10) [OF r] new(2)] later_entries [OF r] by blast
  from add_entry_ok [OF buildingD(1-5,7,8,10,11,13) [OF r] False ix(1) this ix(3) new] False show ?thesis by auto
next
  case True
  have ix: "length bs = length ks + 1" "cur = []" "separated key cmp ks bs cur"
    using buildingD(6) [OF r] True by (auto simp: index_inv_def)
  have empty: "BlockBuilder_empty (tb_data_block r)"
    using buildingD(7) [OF r] empty_iff ix(2) by blast
  have "bs \<noteq> []" using ix(1) by auto
  then have bs: "last bs \<in> set bs" by simp_all
  have "snd (last bs) \<noteq> []" using buildingD(5) [OF r] bs by (simp add: block_stored_def)
  then have all: "all_entries bs cur \<noteq> []" "last (all_entries bs cur) = last (snd (last bs))" "last (snd (last bs)) \<in> set (snd (last bs))"
    using last_entry_of_blocks [OF \<open>bs \<noteq> []\<close>] ix(2) by simp_all
  let ?last = "tb_last_key r"
  have last: "?last = fst (last (snd (last bs)))" using buildingD(12) [OF r all(1)] all(2) by simp
  have klast: "key ?last" using block_keys [OF r bs all(3)] last by simp
  have "last (snd (last bs)) \<in> set (all_entries bs cur)" using all by (metis last_in_set)
  then have less: "Compare cmp ?last k < 0" using new(1) last by (simp add: sorted_entries_def sorted_wrt_append)
  let ?sep = "FindShortestSeparator (opt_comparator (tb_options r)) ?last k"
  have sep: "key ?sep" "Compare cmp ?last ?sep \<le> 0" "Compare cmp ?sep k < 0"
    using separator [OF klast new(2) less] buildingD(1) [OF r] same_comparator by simp_all
  have le_last: "Compare cmp (fst e) ?last \<le> 0" if e: "e \<in> set (snd (last bs))" for e
  proof -
    have "e = last (snd (last bs)) \<or> Compare cmp (fst e) ?last < 0"
      using sorted_last_entry [OF sorted_block [OF buildingD(9) [OF r] bs] e] unfolding last .
    then show ?thesis using refl klast last by auto
  qed
  have le: "\<forall>e \<in> set (snd (last bs)). Compare cmp (fst e) ?sep \<le> 0"
    using trans [OF block_keys [OF r bs] klast sep(1) le_last sep(2)] by blast
  obtain b ls rs where b: "add_index_entry ?sep r = Some (r\<lparr>tb_last_key := ?sep, tb_index_block := b, tb_pending_index_entry := False\<rparr>)"
    "builds index_options b ls rs" "entries_of ls = index_entries (ks @ [?sep]) bs"
    using add_index_entry_ok [OF buildingD(4,5,6,10) [OF r] True sep(1) le] by blast
  let ?r = "r\<lparr>tb_last_key := ?sep, tb_index_block := b, tb_pending_index_entry := False\<rparr>"
  have "separated key cmp ks bs (cur @ [(k, v)])"
    using separated_snoc [OF ix(3) new(1) buildingD(10) [OF r] new(2)] later_entries [OF r] by blast
  then have "separated key cmp (ks @ [?sep]) bs (cur @ [(k, v)])"
    using sep le ix(1,2) \<open>bs \<noteq> []\<close> by (auto simp: separated_def nth_append less_Suc_eq last_conv_nth all_entries_def)
  moreover have "filter_inv ?r bs cur" by (rule filter_inv_same [OF buildingD(8) [OF r]]) simp_all
  moreover have "offset_ok ?r" using buildingD(4) [OF r] by (simp add: offset_ok_def)
  ultimately have "\<exists>r'. add_entry k v ?r = Some r' \<and> building r' bs (ks @ [?sep]) (cur @ [(k, v)])"
    using buildingD(1-5,7,10,11,13) [OF r] b(2,3) ix(1) by (intro add_entry_ok new) auto
  then show ?thesis using b(1) True empty by auto
qed

subsection \<open>Flushing a block\<close>

lemma choose_raw: "choose_contents lib (opt_compression options) raw = (raw, kNoCompression)"
  using uncompressed by (auto simp: choose_contents_def Snappy_Compress_def split: CompressionType.splits)

lemma Finish_Reset_builds:
  assumes "builds opts b ls rs"
  shows "builds opts (BlockBuilder_Reset (snd (BlockBuilder_Finish b))) [] [0]"
  using assms by (simp add: builds_def BlockBuilder_Reset_def BlockBuilder_Finish_def Let_def block_buffer_def restart_points_def
      offset_of_def layout_wf_def last_key_of_def)

text \<open>A block that is finished and written.\<close>

lemma WriteBlock_stored:
  assumes b: "builds opts b ls rs" and r: "tb_options r = options" "Status_ok (tb_status r)" "offset_ok r"
  shows "\<exists>h b' f s off. WriteBlock ops lib b r = Some (h, b', r\<lparr>tb_file := f, tb_status := s, tb_offset := off, tb_compressed_output := []\<rparr>)
    \<and> builds opts b' [] [0]
    \<and> (if Status_ok s then (\<exists>tail. contents f = contents (tb_file r) @ tail) \<and> valid f
          \<and> off = word_of_nat (length (contents f)) \<and> stored (contents f) h (block_bytes ls rs) \<and> bh_offset h = tb_offset r
       else off = tb_offset r)"
proof -
  obtain raw b1 where fin: "BlockBuilder_Finish b = (raw, b1)" by (cases "BlockBuilder_Finish b")
  have raw: "raw = block_bytes ls rs" using builds_Finish [OF b] fin by simp
  obtain h r1 where w: "WriteRawBlock ops raw kNoCompression r = (h, r1)" by (cases "WriteRawBlock ops raw kNoCompression r")
  obtain f s off where f: "r1 = r\<lparr>tb_file := f, tb_status := s, tb_offset := off\<rparr>"
    "if Status_ok s then contents f = contents (tb_file r) @ raw_block raw \<and> offset_ok r1 \<and> stored (contents f) h raw
         \<and> bh_offset h = tb_offset r else off = tb_offset r"
    using WriteRawBlock_stored [OF r(3) w] by blast
  have "WriteBlock ops lib b r = Some (h, BlockBuilder_Reset b1, r\<lparr>tb_file := f, tb_status := s, tb_offset := off, tb_compressed_output := []\<rparr>)"
    using r(1,2) by (simp add: WriteBlock_def TableBuilder_ok_def TableBuilder_status_def fin choose_raw w f(1))
  moreover have "builds opts (BlockBuilder_Reset b1) [] [0]" using Finish_Reset_builds [OF b] fin by simp
  moreover have "if Status_ok s then (\<exists>tail. contents f = contents (tb_file r) @ tail) \<and> valid f
          \<and> off = word_of_nat (length (contents f)) \<and> stored (contents f) h (block_bytes ls rs) \<and> bh_offset h = tb_offset r
       else off = tb_offset r"
  proof -
    have "offset_ok r1 \<longleftrightarrow> valid f \<and> off = word_of_nat (length (contents f))"
      unfolding f(1) by (simp add: offset_ok_def)
    then show ?thesis using f(2) unfolding raw by (cases "Status_ok s") auto
  qed
  ultimately show ?thesis by blast
qed

definition start_filter :: "'w TableBuilder \<Rightarrow> 'w TableBuilder option" where
  "start_filter r =
     (case tb_filter_block r of
        None \<Rightarrow> Some r
      | Some f \<Rightarrow> map_option (\<lambda>f. r\<lparr>tb_filter_block := Some f\<rparr>) (StartBlock (tb_offset r) f))"

lemma start_filter_ok:
  assumes f: "filter_inv r0 bs cur" "tb_filter_block r = tb_filter_block r0" "bh_offset h = tb_offset r0"
    and off: "tb_offset r0 \<le> tb_offset r"
  shows "\<exists>fb. start_filter r = Some (r\<lparr>tb_filter_block := fb\<rparr>) \<and> filter_inv (r\<lparr>tb_filter_block := fb\<rparr>) (bs @ [(h, cur)]) []"
proof -
  let ?gs = "filter_groups bs (tb_offset r0) cur"
  have g: "filter_groups (bs @ [(h, cur)]) (tb_offset r) [] = ?gs @ [(tb_offset r, [])]"
    using filter_groups_snoc f(3) by metis
  have "sorted (map fst ?gs)" using f(1) by (simp add: filter_inv_def)
  then have sorted: "sorted (map fst ?gs @ [tb_offset r])" using off by (auto simp: filter_groups_def sorted_append intro: order_trans)
  show ?thesis
  proof (cases "opt_filter_policy options")
    case None
    then have "tb_filter_block r = None" using f(1,2) by (simp add: filter_inv_def)
    then show ?thesis using sorted None
      by (intro exI [of _ None]) (simp add: start_filter_def filter_inv_def g)
  next
    case (Some p)
    then obtain b where b: "tb_filter_block r = Some b" "build_blocks ?gs (new_FilterBlockBuilder p) = Some b"
      using f(1,2) by (auto simp: filter_inv_def)
    obtain b' where "StartBlock (tb_offset r) b = Some b'" "build_blocks (?gs @ [(tb_offset r, [])]) (new_FilterBlockBuilder p) = Some b'"
      using build_blocks_Start [OF b(2) sorted] by blast
    then show ?thesis using sorted Some b(1)
      by (intro exI [of _ "Some b'"]) (simp add: start_filter_def filter_inv_def g)
  qed
qed

lemma offset_mono:
  assumes "offset_ok r" "length (contents (tb_file r)) \<le> n" "n < 2 ^ 64 - 1"
  shows "tb_offset r \<le> word_of_nat n"
  using assms by (simp add: offset_ok_def word_le_nat_alt unat_of_nat_u64)

text \<open>The next block is behind all others.\<close>

lemma new_offset:
  assumes "offset_ok r" "\<forall>b \<in> set bs. block_stored (contents (tb_file r)) b"
  shows "tb_offset r \<notin> set (map (bh_offset \<circ> fst) bs)"
proof
  let ?F = "contents (tb_file r)"
  have F: "length ?F < 2 ^ 64 - 1" using assms(1) valid_length by (simp add: offset_ok_def)
  then have "length ?F < 2 ^ 64" by simp
  then have "unat (word_of_nat (length ?F) :: u64) = length ?F" by (rule unat_of_nat_u64)
  then have off: "unat (tb_offset r) = length ?F" using assms(1) by (simp add: offset_ok_def)
  assume "tb_offset r \<in> set (map (bh_offset \<circ> fst) bs)"
  then obtain b where b: "b \<in> set bs" "tb_offset r = bh_offset (fst b)" by auto
  then obtain data where "stored ?F (fst b) data" using assms(2) unfolding block_stored_def by blast
  from stored_bound [OF this] off b(2) show False by simp
qed

lemma Flush_empty:
  assumes "building r bs ks []"
  shows "TableBuilder_Flush ops lib r = Some r"
  using buildingD(2,3,7) [OF assms] empty_iff by (auto simp: TableBuilder_Flush_def TableBuilder_ok_def TableBuilder_status_def)

lemma Flush_unfold:
  assumes "building r bs ks cur" "cur \<noteq> []" "WriteBlock ops lib (tb_data_block r) r = Some (h, b, r1)"
  shows "TableBuilder_Flush ops lib r =
    (let r2 = r1\<lparr>tb_pending_handle := h, tb_data_block := b\<rparr>;
         (s, file) = wf_Flush ops (tb_file r2)
     in start_filter (if Status_ok (tb_status r2)
          then r2\<lparr>tb_pending_index_entry := True, tb_file := file, tb_status := s\<rparr> else r2))"
proof -
  have "\<not> tb_pending_index_entry r" using buildingD(6) [OF assms(1)] assms(2) by (auto simp: index_inv_def)
  moreover have "\<not> BlockBuilder_empty (tb_data_block r)" using buildingD(7) [OF assms(1)] empty_iff assms(2) by blast
  ultimately show ?thesis
    using buildingD(2,3) [OF assms(1)] assms(3)
    by (cases "wf_Flush ops (tb_file r1)"; cases "tb_filter_block r1")
      (simp_all add: TableBuilder_Flush_def TableBuilder_ok_def TableBuilder_status_def Let_def start_filter_def)
qed

lemma Flush_block:
  assumes r: "building r bs ks cur" and cur: "cur \<noteq> []"
  shows "\<exists>r'. TableBuilder_Flush ops lib r = Some r'
    \<and> (failed r' \<or> (\<exists>h. building r' (bs @ [(h, cur)]) ks [] \<and> tb_pending_index_entry r'))"
proof -
  note D = buildingD [OF r]
  obtain ls rs where d: "builds options (tb_data_block r) ls rs" "entries_of ls = cur" using D(7) by blast
  have wf: "layout_wf ls rs" using d(1) by (simp add: builds_def)
  obtain h b f s off where w: "WriteBlock ops lib (tb_data_block r) r
      = Some (h, b, r\<lparr>tb_file := f, tb_status := s, tb_offset := off, tb_compressed_output := []\<rparr>)"
    and b: "builds options b [] [0]"
    and st: "if Status_ok s then (\<exists>tail. contents f = contents (tb_file r) @ tail) \<and> valid f
          \<and> off = word_of_nat (length (contents f)) \<and> stored (contents f) h (block_bytes ls rs) \<and> bh_offset h = tb_offset r
       else off = tb_offset r"
    using WriteBlock_stored [OF d(1) D(1,3,4)] by blast
  obtain s1 f1 where fl: "wf_Flush ops f = (s1, f1)" by (cases "wf_Flush ops f")
  let ?r2 = "r\<lparr>tb_file := f, tb_status := s, tb_offset := off, tb_compressed_output := [], tb_pending_handle := h, tb_data_block := b\<rparr>"
  let ?r3 = "if Status_ok s then ?r2\<lparr>tb_pending_index_entry := True, tb_file := f1, tb_status := s1\<rparr> else ?r2"
  have flush: "TableBuilder_Flush ops lib r = start_filter ?r3"
    unfolding Flush_unfold [OF r cur w] by (simp add: fl)
  have ix: "length bs = length ks" "separated key cmp ks bs cur" "\<not> tb_pending_index_entry r"
    "\<exists>ls rs. builds index_options (tb_index_block r) ls rs \<and> entries_of ls = index_entries ks bs"
    using D(6) cur by (auto simp: index_inv_def split: if_splits)
  have mono: "tb_offset r \<le> off"
  proof (cases "Status_ok s")
    case True
    then obtain tail where "contents f = contents (tb_file r) @ tail" "valid f" "off = word_of_nat (length (contents f))"
      using st by auto
    then show ?thesis using offset_mono [OF D(4), of "length (contents f)"] valid_length by (metis length_append le_add1)
  qed (use st in simp)
  show ?thesis
  proof (cases "Status_ok s \<and> Status_ok s1")
    case False
    define r3 where "r3 = ?r3"
    have r3: "tb_filter_block r3 = tb_filter_block r" "tb_offset r3 = off" "\<not> Status_ok (tb_status r3)" "\<not> tb_closed r3"
      using False D(2) by (simp_all add: r3_def)
    obtain fb where "start_filter r3 = Some (r3\<lparr>tb_filter_block := fb\<rparr>)"
      using start_filter_ok [OF D(8) r3(1), of "\<lparr>bh_offset = tb_offset r, bh_size = 0\<rparr>"] mono r3(2) by auto
    moreover have "failed (r3\<lparr>tb_filter_block := fb\<rparr>)" using r3(3,4) by (simp add: failed_def)
    ultimately show ?thesis unfolding flush r3_def [symmetric] by blast
  next
    case True
    then have s: "Status_ok s" "Status_ok s1" by simp_all
    let ?r = "?r2\<lparr>tb_pending_index_entry := True, tb_file := f1, tb_status := s1\<rparr>"
    have h: "stored (contents f) h (block_bytes ls rs)" "bh_offset h = tb_offset r" "valid f"
      "off = word_of_nat (length (contents f))" using st s(1) by auto
    obtain tail where tail: "contents f = contents (tb_file r) @ tail" using st s(1) by auto
    have c: "contents f1 = contents f" "valid f1" using flush_whole [OF h(3) fl s(2)] by simp_all
    obtain fb where fb: "start_filter ?r = Some (?r\<lparr>tb_filter_block := fb\<rparr>)"
      "filter_inv (?r\<lparr>tb_filter_block := fb\<rparr>) (bs @ [(h, cur)]) []"
      using start_filter_ok [OF D(8) _ h(2), of ?r] mono by auto
    have "block_stored (contents f1) (h, cur)"
      unfolding block_stored_def c(1) using cur wf d(2) h(1) by auto
    moreover have "\<forall>b \<in> set bs. block_stored (contents f1) b"
      using D(5) block_stored_append unfolding c(1) tail by blast
    ultimately have blocks: "\<forall>b \<in> set (bs @ [(h, cur)]). block_stored (contents f1) b" by auto
    have distinct: "distinct (map (bh_offset \<circ> fst) (bs @ [(h, cur)]))"
      using D(13) new_offset [OF D(4,5)] h(2) by auto
    have "separated key cmp ks (bs @ [(h, cur)]) []"
      using ix(1,2) by (simp add: separated_def nth_append all_entries_def)
    moreover have "index_entries ks (bs @ [(h, cur)]) = index_entries ks bs" using ix(1) by (simp add: index_entries_def zip_append2)
    ultimately have index: "index_inv (?r\<lparr>tb_filter_block := fb\<rparr>) (bs @ [(h, cur)]) ks []"
      using ix(1,4) by (simp add: index_inv_def)
    have off: "offset_ok (?r\<lparr>tb_filter_block := fb\<rparr>)" using h(3,4) c by (simp add: offset_ok_def)
    have data: "\<exists>ls rs. builds options b ls rs \<and> entries_of ls = []" using b by (auto simp: entries_of_def)
    have "building (?r\<lparr>tb_filter_block := fb\<rparr>) (bs @ [(h, cur)]) ks []"
      unfolding building_def all_entries_snoc(1)
      using D(1,2,9-12) s(2) blocks distinct index off data fb(2) by simp
    then show ?thesis unfolding flush using s(1) fb(1) by auto
  qed
qed

subsection \<open>All entries\<close>

lemma Add_ok:
  assumes r: "building r bs ks cur" and new: "sorted_entries cmp (all_entries bs cur @ [(k, v)])" "key k"
  shows "\<exists>r'. TableBuilder_Add ops lib k v r = Some r'
    \<and> (failed r' \<or> (\<exists>bs' ks' cur'. building r' bs' ks' cur' \<and> all_entries bs' cur' = all_entries bs cur @ [(k, v)]))"
proof -
  note D = buildingD [OF r]
  let ?pre = "if tb_pending_index_entry r then
         if \<not> BlockBuilder_empty (tb_data_block r) then None
         else add_index_entry (FindShortestSeparator (opt_comparator (tb_options r)) (tb_last_key r) k) r
       else Some r"
  obtain r1 ks1 where r1: "Option.bind ?pre (add_entry k v) = Some r1" "building r1 bs ks1 (cur @ [(k, v)])"
    using before_flush_ok [OF r new] by blast
  have "\<not> (tb_num_entries r > 0 \<and> \<not> Compare (opt_comparator (tb_options r)) k (tb_last_key r) > 0)"
  proof (cases "all_entries bs cur = []")
    case False
    then have e: "last (all_entries bs cur) \<in> set (all_entries bs cur)" "tb_last_key r = fst (last (all_entries bs cur))"
      using D(12) by simp_all
    then have "Compare cmp (tb_last_key r) k < 0" "key (tb_last_key r)"
      using new(1) D(10) by (simp_all add: sorted_entries_def sorted_wrt_append)
    then show ?thesis using swap [of "tb_last_key r" k] new(2) D(1) same_comparator by simp
  qed (use D(11) in simp)
  then have "TableBuilder_Add ops lib k v r =
      (if CurrentSizeEstimate (tb_data_block r1) \<ge> opt_block_size (tb_options r1) then TableBuilder_Flush ops lib r1 else Some r1)"
    using D(2,3) r1(1) unfolding TableBuilder_Add_def TableBuilder_ok_def TableBuilder_status_def
    by (auto simp: Let_def add_entry_def bind_eq_Some_conv simp del: not_less)
  then consider "TableBuilder_Add ops lib k v r = TableBuilder_Flush ops lib r1" | "TableBuilder_Add ops lib k v r = Some r1"
    by (metis (full_types))
  then show ?thesis
  proof cases
    case 1
    obtain r' where r': "TableBuilder_Flush ops lib r1 = Some r'"
      "failed r' \<or> (\<exists>h. building r' (bs @ [(h, cur @ [(k, v)])]) ks1 [])"
      using Flush_block [OF r1(2)] by auto
    then show ?thesis using 1 all_entries_snoc by metis
  next
    case 2
    then show ?thesis using r1(2) all_entries_snoc(2) by metis
  qed
qed

subsection \<open>Finishing\<close>

text \<open>What a stage of \<open>Finish\<close> does to the file and the offset.\<close>

definition wrote :: "'w TableBuilder \<Rightarrow> 'w \<Rightarrow> u64 \<Rightarrow> bool" where
  "wrote r f off \<longleftrightarrow> (\<exists>tail. contents f = contents (tb_file r) @ tail) \<and> valid f
     \<and> off = word_of_nat (length (contents f))"

lemma finish_filter_ok:
  assumes r: "Status_ok (tb_status r)" "offset_ok r" "filter_inv r bs []"
  shows "\<exists>fh fb f s off. finish_filter ops r = (fh, r\<lparr>tb_filter_block := fb, tb_file := f, tb_status := s, tb_offset := off\<rparr>)
    \<and> (fb = None \<longleftrightarrow> opt_filter_policy options = None)
    \<and> (Status_ok s \<longrightarrow> wrote r f off
         \<and> (case opt_filter_policy options of
              None \<Rightarrow> True
            | Some p \<Rightarrow> \<exists>off b. stored (contents f) fh (snd (FilterBlock_Finish b))
                \<and> build_blocks (filter_groups bs off []) (new_FilterBlockBuilder p) = Some b))"
proof (cases "opt_filter_policy options")
  case None
  then have n: "tb_filter_block r = None" using r(3) by (simp add: filter_inv_def)
  have "wrote r (tb_file r) (tb_offset r)" using r(2) by (simp add: wrote_def offset_ok_def)
  then show ?thesis using n None r(1)
    by (intro exI [of _ new_BlockHandle] exI [of _ None] exI [of _ "tb_file r"] exI [of _ "tb_status r"] exI [of _ "tb_offset r"])
      (simp add: finish_filter_def)
next
  case (Some p)
  then obtain b where b: "tb_filter_block r = Some b"
    "build_blocks (filter_groups bs (tb_offset r) []) (new_FilterBlockBuilder p) = Some b"
    using r(3) by (auto simp: filter_inv_def)
  obtain b1 c where fin: "FilterBlock_Finish b = (b1, c)" by (cases "FilterBlock_Finish b")
  let ?r = "r\<lparr>tb_filter_block := Some b1\<rparr>"
  have o: "offset_ok ?r" using r(2) by (simp add: offset_ok_def)
  obtain h r1 where w: "WriteRawBlock ops c kNoCompression ?r = (h, r1)" by (cases "WriteRawBlock ops c kNoCompression ?r")
  obtain f s off where f: "r1 = ?r\<lparr>tb_file := f, tb_status := s, tb_offset := off\<rparr>"
    "if Status_ok s then contents f = contents (tb_file ?r) @ raw_block c \<and> offset_ok r1 \<and> stored (contents f) h c
         \<and> bh_offset h = tb_offset ?r else off = tb_offset ?r"
    using WriteRawBlock_stored [OF o w] by blast
  have "finish_filter ops r = (h, ?r\<lparr>tb_file := f, tb_status := s, tb_offset := off\<rparr>)"
    using r(1) b(1) w f(1) by (simp add: finish_filter_def TableBuilder_ok_def TableBuilder_status_def fin)
  moreover have "wrote r f off \<and> stored (contents f) h (snd (FilterBlock_Finish b))" if "Status_ok s"
  proof -
    have o: "offset_ok r1 \<longleftrightarrow> valid f \<and> off = word_of_nat (length (contents f))"
      unfolding f(1) by (simp add: offset_ok_def)
    have "contents f = contents (tb_file r) @ raw_block c" "offset_ok r1" "stored (contents f) h c" using f(2) that by auto
    then show ?thesis unfolding wrote_def fin snd_conv using o by blast
  qed
  ultimately show ?thesis using Some b(2)
    by (intro exI [of _ h] exI [of _ "Some b1"] exI [of _ f] exI [of _ s] exI [of _ off]) auto
qed

lemma WriteBlock_wrote:
  assumes "builds opts b ls rs" "tb_options r = options" "Status_ok (tb_status r)" "offset_ok r"
  shows "\<exists>h b' f s off. WriteBlock ops lib b r = Some (h, b', r\<lparr>tb_file := f, tb_status := s, tb_offset := off, tb_compressed_output := []\<rparr>)
    \<and> (Status_ok s \<longrightarrow> wrote r f off \<and> stored (contents f) h (block_bytes ls rs))"
  using WriteBlock_stored [OF assms] unfolding wrote_def by metis

lemma finish_metaindex_ok:
  assumes r: "tb_options r = options" "Status_ok (tb_status r)" "offset_ok r"
    and f: "tb_filter_block r = None \<longleftrightarrow> opt_filter_policy options = None"
    and h: "opt_filter_policy options \<noteq> None \<Longrightarrow> handle_ok fh"
  shows "\<exists>mh f s off ls rs. finish_metaindex ops lib fh r
      = Some (mh, r\<lparr>tb_file := f, tb_status := s, tb_offset := off, tb_compressed_output := []\<rparr>)
    \<and> layout_wf ls rs \<and> (\<forall>p. opt_filter_policy options = Some p \<longrightarrow> entries_of ls = [(filter_key p, handle_bytes fh)])
    \<and> (Status_ok s \<longrightarrow> wrote r f off \<and> stored (contents f) mh (block_bytes ls rs))"
proof -
  obtain m where m: "new_BlockBuilder options = Some m" "builds options m [] [0]" using builds_new [OF interval] by blast
  have "\<exists>b ls rs. (case (tb_filter_block r, opt_filter_policy (tb_options r)) of
             (Some _, Some policy) \<Rightarrow>
               Option.bind (BlockHandle_EncodeTo fh []) (\<lambda>handle_encoding. BlockBuilder_Add (filter_key policy) handle_encoding m)
           | (Some _, None) \<Rightarrow> None
           | (None, _) \<Rightarrow> Some m) = Some b
      \<and> builds options b ls rs \<and> (\<forall>p. opt_filter_policy options = Some p \<longrightarrow> entries_of ls = [(filter_key p, handle_bytes fh)])"
  proof (cases "opt_filter_policy options")
    case None
    then show ?thesis using f m(2) by (intro exI [of _ m] exI [of _ "[]"] exI [of _ "[0]"]) simp
  next
    case (Some p)
    have "BlockHandle_EncodeTo fh [] = Some (handle_bytes fh)" using BlockHandle_EncodeTo_ok h Some by simp
    moreover obtain b s rs where "BlockBuilder_Add (filter_key p) (handle_bytes fh) m = Some b"
      "builds options b ([] @ [(s, filter_key p, handle_bytes fh)]) rs"
      using builds_Add [OF m(2), of "filter_key p" "handle_bytes fh"] by blast
    moreover obtain x where "tb_filter_block r = Some x" using f Some by auto
    ultimately show ?thesis using Some r(1)
      by (intro exI [of _ b] exI [of _ "[(s, filter_key p, handle_bytes fh)]"] exI [of _ rs]) (simp add: entries_of_def)
  qed
  then obtain b ls rs where b: "(case (tb_filter_block r, opt_filter_policy (tb_options r)) of
             (Some _, Some policy) \<Rightarrow>
               Option.bind (BlockHandle_EncodeTo fh []) (\<lambda>handle_encoding. BlockBuilder_Add (filter_key policy) handle_encoding m)
           | (Some _, None) \<Rightarrow> None
           | (None, _) \<Rightarrow> Some m) = Some b" "builds options b ls rs"
      "\<forall>p. opt_filter_policy options = Some p \<longrightarrow> entries_of ls = [(filter_key p, handle_bytes fh)]" by blast
  obtain mh b' f s off where w: "WriteBlock ops lib b r = Some (mh, b', r\<lparr>tb_file := f, tb_status := s, tb_offset := off, tb_compressed_output := []\<rparr>)"
    "Status_ok s \<longrightarrow> wrote r f off \<and> stored (contents f) mh (block_bytes ls rs)"
    using WriteBlock_wrote [OF b(2) r] by blast
  have "finish_metaindex ops lib fh r = Some (mh, r\<lparr>tb_file := f, tb_status := s, tb_offset := off, tb_compressed_output := []\<rparr>)"
    using r(2) m(1) b(1) w(1) r(1) by (simp add: finish_metaindex_def TableBuilder_ok_def TableBuilder_status_def)
  then show ?thesis using w(2) b(2,3) unfolding builds_def by blast
qed

lemma finish_index_ok:
  assumes r: "tb_options r = options" "Status_ok (tb_status r)" "offset_ok r"
      "\<forall>b \<in> set bs. block_stored (contents (tb_file r)) b" "index_inv r bs ks []"
      "\<forall>e \<in> set (all_entries bs []). key (fst e)" "sorted_entries cmp (all_entries bs [])"
      "bs \<noteq> [] \<Longrightarrow> tb_last_key r = fst (last (snd (last bs)))"
  shows "\<exists>ih r' f s off ks' ls rs. finish_index ops lib r = Some (ih, r')
    \<and> (tb_file r' = f \<and> tb_status r' = s \<and> tb_offset r' = off)
    \<and> length ks' = length bs \<and> separated key cmp ks' bs [] \<and> layout_wf ls rs \<and> entries_of ls = index_entries ks' bs
    \<and> (Status_ok s \<longrightarrow> wrote r f off \<and> stored (contents f) ih (block_bytes ls rs))"
proof -
  have "\<exists>r1 ks' ls rs. (if tb_pending_index_entry r
           then add_index_entry (FindShortSuccessor (opt_comparator (tb_options r)) (tb_last_key r)) r
           else Some r) = Some r1
      \<and> tb_options r1 = options \<and> Status_ok (tb_status r1) \<and> tb_file r1 = tb_file r \<and> tb_offset r1 = tb_offset r
      \<and> builds index_options (tb_index_block r1) ls rs \<and> entries_of ls = index_entries ks' bs
      \<and> length ks' = length bs \<and> separated key cmp ks' bs []"
  proof (cases "tb_pending_index_entry r")
    case False
    then show ?thesis using r(1,2,5) unfolding index_inv_def by auto
  next
    case True
    have ix: "length bs = length ks + 1" "separated key cmp ks bs []" using r(5) True by (simp_all add: index_inv_def)
    then have "bs \<noteq> []" by auto
    then have bs: "bs \<noteq> []" "last bs \<in> set bs" by simp_all
    let ?last = "tb_last_key r" and ?k = "FindShortSuccessor (opt_comparator (tb_options r)) (tb_last_key r)"
    have last: "?last = fst (last (snd (last bs)))" by (rule r(8) [OF bs(1)])
    have keys: "key (fst e)" if "e \<in> set (snd (last bs))" for e using r(6) bs(2) that by (auto simp: all_entries_def)
    have "snd (last bs) \<noteq> []" using r(4) bs(2) by (simp add: block_stored_def)
    then have klast: "key ?last" unfolding last by (intro keys) simp
    have suc: "key ?k" "Compare cmp ?last ?k \<le> 0" using successor [OF klast] r(1) same_comparator by simp_all
    have le: "Compare cmp (fst e) ?k \<le> 0" if e: "e \<in> set (snd (last bs))" for e
    proof -
      have "e = last (snd (last bs)) \<or> Compare cmp (fst e) ?last < 0"
        using sorted_last_entry [OF sorted_block [OF r(7) bs(2)] e] unfolding last .
      then have "Compare cmp (fst e) ?last \<le> 0" using refl [OF klast] last by auto
      then show ?thesis using trans [OF keys [OF e] klast suc(1)] suc(2) by blast
    qed
    obtain b ls rs where b: "add_index_entry ?k r = Some (r\<lparr>tb_last_key := ?k, tb_index_block := b, tb_pending_index_entry := False\<rparr>)"
      "builds index_options b ls rs" "entries_of ls = index_entries (ks @ [?k]) bs"
      using add_index_entry_ok [OF r(3-6) True suc(1)] le by blast
    have "separated key cmp (ks @ [?k]) bs []"
      using ix suc(1) le bs(1) by (auto simp: separated_def nth_append less_Suc_eq last_conv_nth all_entries_def)
    then show ?thesis using b True ix(1) r(1,2)
      by (intro exI [of _ "r\<lparr>tb_last_key := ?k, tb_index_block := b, tb_pending_index_entry := False\<rparr>"]
          exI [of _ "ks @ [?k]"] exI [of _ ls] exI [of _ rs]) simp
  qed
  then obtain r1 ks' ls rs where r1: "(if tb_pending_index_entry r
           then add_index_entry (FindShortSuccessor (opt_comparator (tb_options r)) (tb_last_key r)) r
           else Some r) = Some r1"
      "tb_options r1 = options" "Status_ok (tb_status r1)" "tb_file r1 = tb_file r" "tb_offset r1 = tb_offset r"
      "builds index_options (tb_index_block r1) ls rs" "entries_of ls = index_entries ks' bs"
      "length ks' = length bs" "separated key cmp ks' bs []" by blast
  have o: "offset_ok r1" using r(3) r1(4,5) by (simp add: offset_ok_def)
  obtain ih b' f s off where w: "WriteBlock ops lib (tb_index_block r1) r1
      = Some (ih, b', r1\<lparr>tb_file := f, tb_status := s, tb_offset := off, tb_compressed_output := []\<rparr>)"
    "Status_ok s \<longrightarrow> wrote r1 f off \<and> stored (contents f) ih (block_bytes ls rs)"
    using WriteBlock_wrote [OF r1(6,2,3) o] by blast
  have "finish_index ops lib r = Some (ih, r1\<lparr>tb_file := f, tb_status := s, tb_offset := off, tb_compressed_output := [], tb_index_block := b'\<rparr>)"
    using r(2) r1(1) w(1) by (simp add: finish_index_def TableBuilder_ok_def TableBuilder_status_def)
  moreover have "Status_ok s \<longrightarrow> wrote r f off \<and> stored (contents f) ih (block_bytes ls rs)"
    using w(2) r1(4) by (simp add: wrote_def)
  ultimately show ?thesis using r1(6-9) unfolding builds_def
    by (intro exI [of _ ih] exI [of _ "r1\<lparr>tb_file := f, tb_status := s, tb_offset := off, tb_compressed_output := [], tb_index_block := b'\<rparr>"]
        exI [of _ f] exI [of _ s] exI [of _ off] exI [of _ ks'] exI [of _ ls] exI [of _ rs]) simp
qed

lemma stages_failed:
  assumes "\<not> Status_ok (tb_status r)"
  shows "finish_filter ops r = (new_BlockHandle, r)" "finish_metaindex ops lib fh r = Some (new_BlockHandle, r)"
    "finish_index ops lib r = Some (new_BlockHandle, r)" "finish_footer ops mh ih r = Some r"
  using assms by (simp_all add: finish_filter_def finish_metaindex_def finish_index_def finish_footer_def
      TableBuilder_ok_def TableBuilder_status_def split: option.splits)

lemma finish_footer_ok:
  assumes r: "Status_ok (tb_status r)" "offset_ok r" and h: "handle_ok mh" "handle_ok ih"
  shows "\<exists>r'. finish_footer ops mh ih r = Some r'
    \<and> (Status_ok (tb_status r') \<longrightarrow> contents (tb_file r') = contents (tb_file r)
          @ footer_bytes \<lparr>ft_metaindex_handle = mh, ft_index_handle = ih\<rparr> \<and> offset_ok r')"
proof -
  let ?b = "footer_bytes \<lparr>ft_metaindex_handle = mh, ft_index_handle = ih\<rparr>"
  have e: "Footer_EncodeTo \<lparr>ft_metaindex_handle = mh, ft_index_handle = ih\<rparr> [] = Some ?b"
    using h by (intro Footer_EncodeTo_ok) simp_all
  obtain s f where w: "wf_Append ops ?b (tb_file r) = (s, f)" by (cases "wf_Append ops ?b (tb_file r)")
  have "finish_footer ops mh ih r = Some (if Status_ok s
      then r\<lparr>tb_file := f, tb_status := s, tb_offset := tb_offset r + word_of_nat (length ?b)\<rparr>
      else r\<lparr>tb_file := f, tb_status := s\<rparr>)"
    using r(1) by (simp add: finish_footer_def TableBuilder_ok_def TableBuilder_status_def e w Let_def)
  moreover have "valid (tb_file r)" using r(2) by (simp add: offset_ok_def)
  then have "contents f = contents (tb_file r) @ ?b \<and> valid f" if "Status_ok s"
    using append_whole w that by blast
  ultimately show ?thesis using r(2) by (auto simp: offset_ok_def)
qed

text \<open>The stages after the last flush.\<close>

definition finish_stages :: "'w TableBuilder \<Rightarrow> (Status \<times> 'w TableBuilder) option" where
  "finish_stages r =
     (case finish_filter ops r of
        (fh, r) \<Rightarrow>
          Option.bind (finish_metaindex ops lib fh r) (\<lambda>(mh, r).
          Option.bind (finish_index ops lib r) (\<lambda>(ih, r).
          Option.bind (finish_footer ops mh ih r) (\<lambda>r. Some (tb_status r, r)))))"

lemma finish_stages_ok:
  assumes r: "tb_options r = options" "Status_ok (tb_status r)" "offset_ok r"
      "\<forall>b \<in> set bs. block_stored (contents (tb_file r)) b" "index_inv r bs ks []" "filter_inv r bs []"
    and d: "distinct (map (bh_offset \<circ> fst) bs)"
    and e: "\<forall>e \<in> set (all_entries bs []). key (fst e)" "sorted_entries cmp (all_entries bs [])"
      "bs \<noteq> [] \<Longrightarrow> tb_last_key r = fst (last (snd (last bs)))"
  shows "\<exists>r'. finish_stages r = Some (tb_status r', r')
    \<and> (Status_ok (tb_status r') \<longrightarrow> offset_ok r'
         \<and> (\<exists>ks'. table_image key cmp (opt_filter_policy options) (contents (tb_file r')) bs ks'))"
proof -
  obtain fh fb f1 s1 off1 where st1: "finish_filter ops r = (fh, r\<lparr>tb_filter_block := fb, tb_file := f1, tb_status := s1, tb_offset := off1\<rparr>)"
    and fb: "fb = None \<longleftrightarrow> opt_filter_policy options = None"
    and w1: "Status_ok s1 \<longrightarrow> wrote r f1 off1 \<and> (case opt_filter_policy options of
              None \<Rightarrow> True
            | Some p \<Rightarrow> \<exists>off b. stored (contents f1) fh (snd (FilterBlock_Finish b))
                \<and> build_blocks (filter_groups bs off []) (new_FilterBlockBuilder p) = Some b)"
    using finish_filter_ok [OF r(2,3,6)] by (elim exE conjE) (rule that)
  let ?r1 = "r\<lparr>tb_filter_block := fb, tb_file := f1, tb_status := s1, tb_offset := off1\<rparr>"
  show ?thesis
  proof (cases "Status_ok s1")
    case False
    then have "\<not> Status_ok (tb_status ?r1)" by simp
    from stages_failed [OF this] this show ?thesis
      unfolding finish_stages_def st1 by (intro exI [of _ ?r1]) simp
  next
    case s1: True
    have o1: "offset_ok ?r1" using w1 s1 by (simp add: wrote_def offset_ok_def)
    have c1: "\<exists>t. contents f1 = contents (tb_file r) @ t" "length (contents f1) < 2 ^ 64 - 1"
      using w1 s1 valid_length by (simp_all add: wrote_def)
    have h1: "handle_ok fh" if "opt_filter_policy options \<noteq> None"
      using w1 s1 that stored_handle_ok [OF _ c1(2)] by auto
    obtain mh f2 s2 off2 mls mrs where st2: "finish_metaindex ops lib fh ?r1
        = Some (mh, ?r1\<lparr>tb_file := f2, tb_status := s2, tb_offset := off2, tb_compressed_output := []\<rparr>)"
      and m: "layout_wf mls mrs" "\<forall>p. opt_filter_policy options = Some p \<longrightarrow> entries_of mls = [(filter_key p, handle_bytes fh)]"
      and w2: "Status_ok s2 \<longrightarrow> wrote ?r1 f2 off2 \<and> stored (contents f2) mh (block_bytes mls mrs)"
      using finish_metaindex_ok [OF _ _ o1, of fh] r(1) s1 fb h1 by auto
    let ?r2 = "?r1\<lparr>tb_file := f2, tb_status := s2, tb_offset := off2, tb_compressed_output := []\<rparr>"
    show ?thesis
    proof (cases "Status_ok s2")
      case False
      then have "\<not> Status_ok (tb_status ?r2)" by simp
      from stages_failed [OF this] this show ?thesis
        unfolding finish_stages_def st1 prod.case st2 Option.bind.simps by (intro exI [of _ ?r2]) simp
    next
      case s2: True
      have o2: "offset_ok ?r2" using w2 s2 by (simp add: wrote_def offset_ok_def)
      have c2: "\<exists>t. contents f2 = contents f1 @ t" using w2 s2 by (simp add: wrote_def)
      have b2: "\<forall>b \<in> set bs. block_stored (contents (tb_file ?r2)) b"
        using r(4) c1(1) c2 block_stored_append by fastforce
      have i2: "index_inv ?r2 bs ks []" by (rule index_inv_same [OF r(5)]) simp_all
      obtain ih r3 f3 s3 off3 ks' ils irs where st3: "finish_index ops lib ?r2 = Some (ih, r3)"
        and r3: "tb_file r3 = f3 \<and> tb_status r3 = s3 \<and> tb_offset r3 = off3"
        and ix: "length ks' = length bs" "separated key cmp ks' bs []" "layout_wf ils irs" "entries_of ils = index_entries ks' bs"
        and w3: "Status_ok s3 \<longrightarrow> wrote ?r2 f3 off3 \<and> stored (contents f3) ih (block_bytes ils irs)"
        using finish_index_ok [OF _ _ o2 b2 i2 e(1,2)] r(1) e(3) s2 by auto
      have r3': "tb_file r3 = f3" "tb_status r3 = s3" "tb_offset r3 = off3"
        using r3 by blast+
      show ?thesis
      proof (cases "Status_ok s3")
        case False
        then have "\<not> Status_ok (tb_status r3)" using r3' by simp
        from stages_failed [OF this] this show ?thesis
          unfolding finish_stages_def st1 prod.case st2 st3 Option.bind.simps by (intro exI [of _ r3]) simp
      next
        case s3: True
        have o3: "offset_ok r3" using w3 s3 r3' by (simp add: wrote_def offset_ok_def)
        have c3: "\<exists>t. contents f3 = contents f2 @ t" "length (contents f3) < 2 ^ 64 - 1"
          using w3 s3 valid_length by (simp_all add: wrote_def)
        have stm: "stored (contents f3) mh (block_bytes mls mrs)" using w2 s2 c3(1) stored_append by fastforce
        have sti: "stored (contents f3) ih (block_bytes ils irs)" using w3 s3 by blast
        obtain r4 where r4: "finish_footer ops mh ih r3 = Some r4"
          "Status_ok (tb_status r4) \<longrightarrow> contents (tb_file r4) = contents (tb_file r3)
            @ footer_bytes \<lparr>ft_metaindex_handle = mh, ft_index_handle = ih\<rparr> \<and> offset_ok r4"
          using finish_footer_ok [OF _ o3 stored_handle_ok [OF stm c3(2)] stored_handle_ok [OF sti c3(2)]] s3 r3' by blast
        have "table_image key cmp (opt_filter_policy options) (contents (tb_file r4)) bs ks'" if ok: "Status_ok (tb_status r4)"
        proof -
          let ?F = "contents (tb_file r4)"
          have F: "?F = contents f3 @ footer_bytes \<lparr>ft_metaindex_handle = mh, ft_index_handle = ih\<rparr>" "length ?F < 2 ^ 64 - 1"
            using r4(2) ok r3'(1) valid_length [of "tb_file r4"] by (simp_all add: offset_ok_def)
          obtain t1 where t1: "?F = contents f1 @ t1" using F(1) c2 c3(1) by auto
          have blocks: "\<forall>b \<in> set bs. block_stored ?F b"
            using b2 c3(1) block_stored_append unfolding F(1) by fastforce
          have flt: "case opt_filter_policy options of None \<Rightarrow> True
             | Some p \<Rightarrow> \<exists>fh off b. entries_of mls = [(filter_key p, handle_bytes fh)]
                 \<and> stored ?F fh (snd (FilterBlock_Finish b))
                 \<and> build_blocks (filter_groups bs off []) (new_FilterBlockBuilder p) = Some b"
          proof (cases "opt_filter_policy options")
            case (Some p)
            then obtain off b where "stored (contents f1) fh (snd (FilterBlock_Finish b))"
              "build_blocks (filter_groups bs off []) (new_FilterBlockBuilder p) = Some b"
              using w1 s1 by auto
            then show ?thesis using Some m(2) stored_append unfolding t1 by fastforce
          qed simp
          show ?thesis
            unfolding table_image_def
            using F(2) blocks ix(1,2) d
            by (intro conjI exI [of _ mh] exI [of _ ih] exI [of _ "contents f3"] exI [of _ ils] exI [of _ irs] exI [of _ mls] exI [of _ mrs]
                F(1) ix(3,4) m(1) flt stored_append [OF stm, folded F(1)] stored_append [OF sti, folded F(1)])
              (simp_all add: F(1) stored_append [OF stm] stored_append [OF sti])
        qed
        then show ?thesis
          unfolding finish_stages_def st1 prod.case st2 st3 Option.bind.simps r4(1) using r4(2) by blast
      qed
    qed
  qed
qed

lemma Finish_stages:
  assumes "TableBuilder_Flush ops lib r = Some r0" "\<not> tb_closed r0"
  shows "TableBuilder_Finish ops lib r = finish_stages (r0\<lparr>tb_closed := True\<rparr>)"
  using assms by (simp add: TableBuilder_Finish_def finish_stages_def)

lemma finish_stages_failed:
  assumes "\<not> Status_ok (tb_status r)"
  shows "finish_stages r = Some (tb_status r, r)"
  using stages_failed [OF assms] by (simp add: finish_stages_def)

lemma Flush_failed: "failed r \<Longrightarrow> TableBuilder_Flush ops lib r = Some r"
  by (simp add: failed_def TableBuilder_Flush_def TableBuilder_ok_def TableBuilder_status_def)

lemma Finish_failed:
  assumes "failed r"
  shows "\<exists>r'. TableBuilder_Finish ops lib r = Some (tb_status r', r') \<and> \<not> Status_ok (tb_status r')"
proof -
  have "\<not> tb_closed r" "\<not> Status_ok (tb_status (r\<lparr>tb_closed := True\<rparr>))" using assms by (simp_all add: failed_def)
  then show ?thesis using Finish_stages [OF Flush_failed [OF assms]] finish_stages_failed by metis
qed

lemma Finish_flushed:
  assumes r: "building r bs ks []" and fl: "TableBuilder_Flush ops lib r0 = Some r"
  shows "\<exists>r'. TableBuilder_Finish ops lib r0 = Some (tb_status r', r')
    \<and> (Status_ok (tb_status r') \<longrightarrow> offset_ok r'
         \<and> (\<exists>ks'. table_image key cmp (opt_filter_policy options) (contents (tb_file r')) bs ks'))"
proof -
  note D = buildingD [OF r]
  let ?r = "r\<lparr>tb_closed := True\<rparr>"
  have o: "offset_ok ?r" using D(4) by (simp add: offset_ok_def)
  have i: "index_inv ?r bs ks []" by (rule index_inv_same [OF D(6)]) simp_all
  have f: "filter_inv ?r bs []" by (rule filter_inv_same [OF D(8)]) simp_all
  have l: "tb_last_key ?r = fst (last (snd (last bs)))" if bs: "bs \<noteq> []"
  proof -
    have "last bs \<in> set bs" using bs by simp
    then have "snd (last bs) \<noteq> []" using D(5) by (simp add: block_stored_def)
    then show ?thesis using last_entry_of_blocks [OF bs] D(12) by simp
  qed
  from finish_stages_ok [OF _ _ o _ i f D(13,10,9) l] D(1,3,5) Finish_stages [OF fl D(2)] show ?thesis by simp
qed

lemma Finish_ok:
  assumes r: "building r bs ks cur"
  shows "\<exists>r'. TableBuilder_Finish ops lib r = Some (tb_status r', r')
    \<and> (Status_ok (tb_status r') \<longrightarrow> offset_ok r'
         \<and> (\<exists>bs' ks'. table_image key cmp (opt_filter_policy options) (contents (tb_file r')) bs' ks'
              \<and> all_entries bs' [] = all_entries bs cur))"
proof (cases "cur = []")
  case True
  then show ?thesis using Finish_flushed [OF r [unfolded True] Flush_empty [OF r [unfolded True]]] by blast
next
  case False
  obtain r0 where r0: "TableBuilder_Flush ops lib r = Some r0" "failed r0 \<or> (\<exists>h. building r0 (bs @ [(h, cur)]) ks [])"
    using Flush_block [OF r False] by blast
  show ?thesis
  proof (cases "failed r0")
    case True
    have "TableBuilder_Finish ops lib r = TableBuilder_Finish ops lib r0"
      using Finish_stages [OF r0(1)] Finish_stages [OF Flush_failed [OF True]] True by (simp add: failed_def)
    then show ?thesis using Finish_failed [OF True] by auto
  next
    case False
    then obtain h where "building r0 (bs @ [(h, cur)]) ks []" using r0(2) by blast
    from Finish_flushed [OF this r0(1)] all_entries_snoc(1) [of bs h cur] show ?thesis by metis
  qed
qed

lemma add_all_failed: "failed r \<Longrightarrow> add_all ops lib es r = Some r"
proof (induction es arbitrary: r)
  case (Cons e es)
  then have "TableBuilder_Add ops lib (fst e) (snd e) r = Some r"
    by (simp add: failed_def TableBuilder_Add_def TableBuilder_ok_def TableBuilder_status_def)
  then show ?case using Cons by (cases e) simp
qed simp

lemma add_all_ok:
  "building r bs ks cur \<Longrightarrow> sorted_entries cmp (all_entries bs cur @ es) \<Longrightarrow> \<forall>e \<in> set es. key (fst e) \<Longrightarrow>
   \<exists>r'. add_all ops lib es r = Some r'
     \<and> (failed r' \<or> (\<exists>bs' ks' cur'. building r' bs' ks' cur' \<and> all_entries bs' cur' = all_entries bs cur @ es))"
proof (induction es arbitrary: r bs ks cur)
  case (Cons e es)
  obtain k v where e: "e = (k, v)" by (cases e)
  have s: "sorted_entries cmp (all_entries bs cur @ [(k, v)])" "key k"
    using Cons.prems(2,3) by (auto simp: e sorted_entries_def sorted_wrt_append)
  obtain r1 where r1: "TableBuilder_Add ops lib k v r = Some r1"
    "failed r1 \<or> (\<exists>bs' ks' cur'. building r1 bs' ks' cur' \<and> all_entries bs' cur' = all_entries bs cur @ [(k, v)])"
    using Add_ok [OF Cons.prems(1) s] by blast
  show ?case
  proof (cases "failed r1")
    case True
    then show ?thesis using add_all_failed r1(1) by (simp add: e)
  next
    case False
    then obtain bs' ks' cur' where b: "building r1 bs' ks' cur'" "all_entries bs' cur' = all_entries bs cur @ [(k, v)]"
      using r1(2) by blast
    from Cons.IH [OF b(1)] b(2) Cons.prems(2,3) r1(1) show ?thesis by (simp add: e)
  qed
qed auto

theorem build_table_image:
  assumes "contents file = []" "valid file" "sorted_entries cmp es" "\<forall>e \<in> set es. key (fst e)"
  shows "\<exists>r. build_table ops lib options es file = Some (tb_status r, r)
    \<and> (Status_ok (tb_status r) \<longrightarrow> offset_ok r
         \<and> (\<exists>bs ks. table_image key cmp (opt_filter_policy options) (contents (tb_file r)) bs ks \<and> concat (map snd bs) = es))"
proof -
  obtain r where r: "new_TableBuilder options file = Some r" "building r [] [] []" using new_building [OF assms(1,2)] by blast
  obtain r1 where r1: "add_all ops lib es r = Some r1"
    "failed r1 \<or> (\<exists>bs ks cur. building r1 bs ks cur \<and> all_entries bs cur = es)"
    using add_all_ok [OF r(2), of es] assms(3,4) by (auto simp: all_entries_def)
  have b: "build_table ops lib options es file = TableBuilder_Finish ops lib r1" by (simp add: build_table_def r(1) r1(1))
  show ?thesis
  proof (cases "failed r1")
    case True
    then show ?thesis unfolding b using Finish_failed by blast
  next
    case False
    then obtain bs ks cur where "building r1 bs ks cur" "all_entries bs cur = es" using r1(2) by blast
    from Finish_ok [OF this(1)] this(2) show ?thesis unfolding b by (auto simp: all_entries_def)
  qed
qed

end

text \<open>A file of the operating system, and the default comparator and block layout.\<close>

interpretation posix_building: table_building "\<lambda>_. True" BytewiseComparator PosixWritableFile_ops
  pw_contents pw_bounded "new_Options 0" None
  by unfold_locales (simp_all add: new_Options_def)

end
