(* ===== verification/Table_Read_Correct.thy ===== *)
theory Table_Read_Correct
  imports Table Table_Build_Correct
begin

text \<open>
  Reading a table that was built: the reader opens the image of a table, its iterator shows all
  entries of all blocks as one sorted list, and a lookup finds the entry for a key.
\<close>

subsection \<open>Iterators over blocks\<close>

definition right_at :: "('b \<Rightarrow> entries \<Rightarrow> nat \<Rightarrow> bool) \<Rightarrow> 'a + 'b \<Rightarrow> entries \<Rightarrow> nat \<Rightarrow> bool" where
  "right_at at i es n \<longleftrightarrow> (\<exists>j. i = Inr j \<and> at j es n)"

text \<open>\<open>C\<close>: what is known of the cleanup functions. The calls of the iterator do not change them.\<close>

definition owned_at :: "(EmptyIterator + BlockIter \<Rightarrow> entries \<Rightarrow> nat \<Rightarrow> bool) \<Rightarrow> ('h BlockCleanup CleanupNode \<Rightarrow> bool)
    \<Rightarrow> 'h BlockIterator \<Rightarrow> entries \<Rightarrow> nat \<Rightarrow> bool" where
  "owned_at at C d es n \<longleftrightarrow> at (bk_iter d) es n \<and> C (bk_cleanup d)"

definition one_cleanup :: "'h BlockCleanup CleanupNode \<Rightarrow> bool" where
  "one_cleanup c \<longleftrightarrow> (\<exists>f. delete_Iterator c = [f])"

text \<open>The handles of the block cache that cleanup functions release.\<close>

fun cleanup_handles :: "'h BlockCleanup list \<Rightarrow> 'h multiset" where
  "cleanup_handles [] = {#}"
| "cleanup_handles (DeleteBlock b # calls) = cleanup_handles calls"
| "cleanup_handles (ReleaseBlock h # calls) = add_mset h (cleanup_handles calls)"

definition held_handles :: "'h BlockIterator \<Rightarrow> 'h multiset" where
  "held_handles d = cleanup_handles (delete_Iterator (bk_cleanup d))"

context iterator
begin

lemma right_step:
  assumes "right_at at i es n" "\<And>j. at j es n \<Longrightarrow> \<exists>j'. f j = Some j' \<and> at j' es m"
  shows "\<exists>i'. case_sum g (map_option Inr \<circ> f) i = Some i' \<and> right_at at i' es m"
  using assms by (fastforce simp: right_at_def)

lemma either_right: "iterator (Either_ops (a :: 'x Iterator) ops) key cmp (right_at at)"
proof
  fix i :: "'x + 'i" and es n assume i: "right_at at i es n"
  then obtain j where j: "i = Inr j" "at j es n" by (auto simp: right_at_def)
  note step = right_step [OF i]
  show "n \<le> length es" by (rule in_range [OF j(2)])
  show "it_Valid (Either_ops a ops) i \<longleftrightarrow> n < length es" using valid [OF j(2)] j(1) by (simp add: Either_ops_def)
  show "n < length es \<Longrightarrow> it_key (Either_ops a ops) i = Some (fst (es ! n))" using cur_key [OF j(2)] j(1) by (simp add: Either_ops_def)
  show "n < length es \<Longrightarrow> it_value (Either_ops a ops) i = Some (snd (es ! n))" using cur_value [OF j(2)] j(1) by (simp add: Either_ops_def)
  show "Status_ok (it_status (Either_ops a ops) i)" using status [OF j(2)] j(1) by (simp add: Either_ops_def)
  show "\<exists>i'. it_SeekToFirst (Either_ops a ops) i = Some i' \<and> right_at at i' es 0"
    unfolding Either_ops_def Iterator.select_convs by (rule step [OF seek_to_first])
  show "\<exists>i'. it_SeekToLast (Either_ops a ops) i = Some i' \<and> right_at at i' es (length es - 1)"
    unfolding Either_ops_def Iterator.select_convs by (rule step [OF seek_to_last])
  show "key target \<Longrightarrow> \<exists>i'. it_Seek (Either_ops a ops) target i = Some i' \<and> right_at at i' es (position cmp target es)" for target
    unfolding Either_ops_def Iterator.select_convs by (rule step [OF seek])
  show "n < length es \<Longrightarrow> \<exists>i'. it_Next (Either_ops a ops) i = Some i' \<and> right_at at i' es (n + 1)"
    unfolding Either_ops_def Iterator.select_convs by (rule step [OF step_next])
  show "n < length es \<Longrightarrow> \<exists>i'. it_Prev (Either_ops a ops) i = Some i' \<and> right_at at i' es (if n = 0 then length es else n - 1)"
    unfolding Either_ops_def Iterator.select_convs by (rule step [OF step_prev])
qed

end

lemma owned_step:
  assumes "owned_at at C d es n" "at (bk_iter d) es n \<Longrightarrow> \<exists>j. f (bk_iter d) = Some j \<and> at j es m"
  shows "\<exists>d'. bk_step f d = Some d' \<and> owned_at at C d' es m"
  using assms by (auto simp: owned_at_def bk_step_def)

lemma owned_iterator:
  assumes it: "iterator Block_Iterator_ops key cmp at"
  shows "iterator (BlockIterator_ops :: 'h BlockIterator Iterator) key cmp (owned_at at C)"
proof
  fix d :: "'h BlockIterator" and es n assume d: "owned_at at C d es n"
  then have a: "at (bk_iter d) es n" by (simp add: owned_at_def)
  note step = owned_step [OF d]
  show "n \<le> length es" by (rule iterator.in_range [OF it a])
  show "it_Valid BlockIterator_ops d \<longleftrightarrow> n < length es" using iterator.valid [OF it a] by (simp add: BlockIterator_ops_def)
  show "n < length es \<Longrightarrow> it_key BlockIterator_ops d = Some (fst (es ! n))"
    using iterator.cur_key [OF it a] by (simp add: BlockIterator_ops_def)
  show "n < length es \<Longrightarrow> it_value BlockIterator_ops d = Some (snd (es ! n))"
    using iterator.cur_value [OF it a] by (simp add: BlockIterator_ops_def)
  show "Status_ok (it_status BlockIterator_ops d)" using iterator.status [OF it a] by (simp add: BlockIterator_ops_def)
  show "\<exists>d'. it_SeekToFirst BlockIterator_ops d = Some d' \<and> owned_at at C d' es 0"
    unfolding BlockIterator_ops_def Iterator.select_convs by (rule step [OF iterator.seek_to_first [OF it]])
  show "\<exists>d'. it_SeekToLast BlockIterator_ops d = Some d' \<and> owned_at at C d' es (length es - 1)"
    unfolding BlockIterator_ops_def Iterator.select_convs by (rule step [OF iterator.seek_to_last [OF it]])
  show "key target \<Longrightarrow> \<exists>d'. it_Seek BlockIterator_ops target d = Some d' \<and> owned_at at C d' es (position cmp target es)" for target
    unfolding BlockIterator_ops_def Iterator.select_convs by (rule step [OF iterator.seek [OF it]])
  show "n < length es \<Longrightarrow> \<exists>d'. it_Next BlockIterator_ops d = Some d' \<and> owned_at at C d' es (n + 1)"
    unfolding BlockIterator_ops_def Iterator.select_convs by (rule step [OF iterator.step_next [OF it]])
  show "n < length es \<Longrightarrow> \<exists>d'. it_Prev BlockIterator_ops d = Some d' \<and> owned_at at C d' es (if n = 0 then length es else n - 1)"
    unfolding BlockIterator_ops_def Iterator.select_convs by (rule step [OF iterator.step_prev [OF it]])
qed

subsection \<open>The bytes of a block determine its entries\<close>

context iterator
begin

lemma same_scan:
  assumes "at i es n" "at i es' m"
  shows "es = es'"
proof -
  obtain i0 where i0: "it_SeekToFirst ops i = Some i0" "at i0 es 0" using seek_to_first [OF assms(1)] by blast
  moreover have "at i0 es' 0" using seek_to_first [OF assms(2)] i0(1) by auto
  ultimately have "take (length es + length es') es = take (length es + length es') es'"
    using read_forward_from [of i0 es 0 "length es + length es'"] read_forward_from [of i0 es' 0 "length es + length es'"] by auto
  then show ?thesis by simp
qed

end

context comparator
begin

lemma opened_block:
  assumes "layout_wf ls rs" "length (block_bytes ls rs) < 2 ^ 32" "sorted_entries cmp (entries_of ls)" "\<forall>e \<in> set (entries_of ls). key (fst e)"
  shows "\<exists>bl i. new_Block (block_bytes ls rs) owned = Some bl \<and> Block_NewIterator cmp bl = Some (Inr i)
    \<and> block_at key cmp i (entries_of ls) (length (entries_of ls))"
proof -
  obtain bl i where "new_Block (block_bytes ls rs) owned = Some bl" "Block_NewIterator cmp bl = Some (Inr i)"
    "iter_at cmp ls rs (length ls) i"
    using new_Block_bytes [OF assms(1,2)] by blast
  moreover have "length (entries_of ls) = length ls" by (simp add: entries_of_def)
  ultimately show ?thesis using assms(3,4) by (auto simp: block_at_def)
qed

lemma block_bytes_inject:
  assumes "layout_wf ls rs" "sorted_entries cmp (entries_of ls)" "\<forall>e \<in> set (entries_of ls). key (fst e)"
    and "layout_wf ls' rs'" "sorted_entries cmp (entries_of ls')" "\<forall>e \<in> set (entries_of ls'). key (fst e)"
    and "block_bytes ls rs = block_bytes ls' rs'" "length (block_bytes ls rs) < 2 ^ 32"
  shows "entries_of ls = entries_of ls'"
proof -
  obtain bl i where i: "new_Block (block_bytes ls rs) True = Some bl" "Block_NewIterator cmp bl = Some (Inr i)"
    "block_at key cmp i (entries_of ls) (length (entries_of ls))"
    using opened_block [OF assms(1,8,2,3)] by blast
  then have "block_at key cmp i (entries_of ls') (length (entries_of ls'))"
    using opened_block [OF assms(4) _ assms(5,6), of True] assms(7,8) by auto
  then show ?thesis by (rule iterator.same_scan [OF block_iterator i(3)])
qed

lemma index_sorted:
  assumes ks: "separated key cmp ks bs []" "length ks = length bs" and blocks: "\<forall>b \<in> set bs. snd b \<noteq> []"
    and keys: "\<forall>e \<in> set (concat (map snd bs)). key (fst e)"
  shows "sorted_entries cmp (index_entries ks bs)" "\<forall>e \<in> set (index_entries ks bs). key (fst e)"
proof -
  have "Compare cmp (ks ! j) (ks ! k) < 0" if "j < k" "k < length ks" for j k
  proof -
    have k: "bs ! k \<in> set bs" using that ks(2) by simp
    then obtain e where e: "e \<in> set (snd (bs ! k))" using blocks by (meson last_in_set)
    have "k - Suc j < length (drop (Suc j) bs)" "drop (Suc j) bs ! (k - Suc j) = bs ! k" using that ks(2) by simp_all
    then have "bs ! k \<in> set (drop (Suc j) bs)" using nth_mem by metis
    then have "e \<in> set (all_entries (drop (Suc j) bs) [])" using e by (auto simp: all_entries_def)
    then have "Compare cmp (ks ! j) (fst e) < 0" "key (ks ! j)" "Compare cmp (fst e) (ks ! k) \<le> 0" "key (ks ! k)"
      using ks(1) e that by (simp_all add: separated_def)
    moreover have "key (fst e)" using keys e k by auto
    ultimately show ?thesis using less_le_trans by blast
  qed
  then show "sorted_entries cmp (index_entries ks bs)"
    using ks(2) by (auto simp: sorted_entries_def index_entries_def sorted_wrt_iff_nth_less)
  show "\<forall>e \<in> set (index_entries ks bs). key (fst e)"
    using ks by (auto simp: index_entries_def set_zip separated_def)
qed

end

subsection \<open>Opening a table\<close>

text \<open>Lookups for several keys, each with its own result.\<close>

fun run_gets :: "('f, 'h, 'c) TableEnv \<Rightarrow> ReadOptions \<Rightarrow> (Slice \<Rightarrow> Slice \<Rightarrow> 'r \<Rightarrow> 'r option) \<Rightarrow> 'r \<Rightarrow> Slice list
    \<Rightarrow> ('f, 'c) Table \<Rightarrow> ((Status \<times> 'r) list \<times> ('f, 'c) Table) option" where
  "run_gets env ro handle_result arg [] t = Some ([], t)"
| "run_gets env ro handle_result arg (k # ks) t =
     Option.bind (InternalGet env ro k handle_result arg t) (\<lambda>(s, r, t).
     map_option (\<lambda>(answers, t). ((s, r) # answers, t)) (run_gets env ro handle_result arg ks t))"

text \<open>The callback was called with the entry for the key, if there is one, and with no other entry than the
  first that is not before the key.\<close>

definition get_answer :: "Comparator \<Rightarrow> entries \<Rightarrow> (Slice \<Rightarrow> Slice \<Rightarrow> 'r \<Rightarrow> 'r option) \<Rightarrow> 'r \<Rightarrow> Slice \<Rightarrow> Status \<times> 'r \<Rightarrow> bool" where
  "get_answer cmp es handle_result arg k = (\<lambda>(s, r).
     Status_ok s \<and> (\<forall>v. (k, v) \<in> set es \<longrightarrow> handle_result k v arg = Some r)
     \<and> (r = arg \<or> (\<exists>x v rest. dropWhile (\<lambda>e. Compare cmp (fst e) k < 0) es = (x, v) # rest \<and> handle_result x v arg = Some r)))"

text \<open>The bytes of the footer, at the end of the file.\<close>

lemma footer_at_end:
  assumes "F = body @ footer_bytes ft"
  shows "length F = length body + 48" "drop (length F - 48) F = footer_bytes ft"
  using assms by (simp_all add: length_footer_bytes)

locale table_reading = comparator key cmp + reliable_random_access_file "te_file env" contents reliable
    + block_cache "te_cache env" cache_ok
  for key :: "Slice \<Rightarrow> bool" and cmp :: Comparator and env :: "('f, 'h, 'c) TableEnv"
    and contents :: "'f \<Rightarrow> bytes" and reliable :: "'f \<Rightarrow> bool"
    and cache_ok :: "'c \<Rightarrow> (Slice \<Rightarrow> Block \<Rightarrow> bool) \<Rightarrow> 'h multiset \<Rightarrow> bool" +
  fixes options :: Options
  assumes reader_comparator: "opt_comparator options = cmp"
begin

text \<open>What the reader knows once the table is open.\<close>

definition opened :: "bytes \<Rightarrow> table_blocks \<Rightarrow> Slice list \<Rightarrow> Table_Rep \<Rightarrow> bool" where
  "opened F bs ks rep \<longleftrightarrow>
     rep_options rep = options
     \<and> (\<exists>i. new_index_iterator rep = Some (Inr i) \<and> block_at key cmp i (index_entries ks bs) (length ks))
     \<and> (case opt_filter_policy options of
          None \<Rightarrow> rep_filter rep = None
        | Some p \<Rightarrow> \<exists>off b. rep_filter rep = Some (new_FilterBlockReader p (snd (FilterBlock_Finish b)))
            \<and> length (snd (FilterBlock_Finish b)) < 2 ^ 32
            \<and> build_blocks (filter_groups bs off []) (new_FilterBlockBuilder p) = Some b)"

lemma ReadFilter_stored:
  assumes "stored (contents f) fh data" "reliable f" "length (contents f) < 2 ^ 64"
  shows "\<exists>rep' f'. ReadFilter env p (handle_bytes fh) rep f = Some (rep', f') \<and> contents f' = contents f \<and> reliable f'
    \<and> rep_filter rep' = Some (new_FilterBlockReader p data) \<and> rep_options rep' = rep_options rep
    \<and> rep_index_block rep' = rep_index_block rep \<and> rep_cache_id rep' = rep_cache_id rep"
proof -
  have d: "BlockHandle_DecodeFrom (handle_bytes fh) new_BlockHandle = (Status_OK, fh, [])"
    using BlockHandle_DecodeFrom_bytes [of fh "[]"] by simp
  obtain f' where "ReadBlock (te_lib env) (te_file env) (block_options (rep_options rep)) fh (te_in_buf env) f
      = Some (Status_OK, \<lparr>bc_data = data, bc_cachable = te_in_buf env, bc_heap_allocated = te_in_buf env\<rparr>, f')"
    "contents f' = contents f" "reliable f'"
    using ReadBlock_stored [OF assms] by blast
  then show ?thesis by (simp add: ReadFilter_def d Status_ok_OK Let_def)
qed

lemma ReadMeta_image:
  assumes f: "contents f = F" "reliable f" "length F < 2 ^ 32"
    and m: "layout_wf mls mrs" "stored F (ft_metaindex_handle ft) (block_bytes mls mrs)"
    and p: "case opt_filter_policy options of
               None \<Rightarrow> True
             | Some p \<Rightarrow> \<exists>fh off b. entries_of mls = [(filter_key p, handle_bytes fh)]
                 \<and> stored F fh (snd (FilterBlock_Finish b))
                 \<and> build_blocks (filter_groups bs off []) (new_FilterBlockBuilder p) = Some b"
    and rep: "rep_options rep = options" "rep_filter rep = None"
  shows "\<exists>rep' f'. ReadMeta env ft rep f = Some (rep', f') \<and> contents f' = F \<and> reliable f'
    \<and> rep_options rep' = options \<and> rep_index_block rep' = rep_index_block rep \<and> rep_cache_id rep' = rep_cache_id rep
    \<and> (case opt_filter_policy options of
          None \<Rightarrow> rep_filter rep' = None
        | Some p \<Rightarrow> \<exists>off b. rep_filter rep' = Some (new_FilterBlockReader p (snd (FilterBlock_Finish b)))
            \<and> length (snd (FilterBlock_Finish b)) < 2 ^ 32
            \<and> build_blocks (filter_groups bs off []) (new_FilterBlockBuilder p) = Some b)"
proof (cases "opt_filter_policy options")
  case None
  then show ?thesis using f rep by (simp add: ReadMeta_def)
next
  case (Some p)
  obtain fh off b where e: "entries_of mls = [(filter_key p, handle_bytes fh)]" and st: "stored F fh (snd (FilterBlock_Finish b))"
    and b: "build_blocks (filter_groups bs off []) (new_FilterBlockBuilder p) = Some b"
    using assms(6) Some by auto
  have lm: "length (block_bytes mls mrs) < 2 ^ 32" "length (snd (FilterBlock_Finish b)) < 2 ^ 32"
    using stored_bound [OF m(2)] stored_bound [OF st] f(3) by simp_all
  obtain f1 where r1: "ReadBlock (te_lib env) (te_file env) (block_options (rep_options rep)) (ft_metaindex_handle ft) (te_in_buf env) f
      = Some (Status_OK, \<lparr>bc_data = block_bytes mls mrs, bc_cachable = te_in_buf env, bc_heap_allocated = te_in_buf env\<rparr>, f1)"
    "contents f1 = F" "reliable f1"
    using ReadBlock_stored [of f "ft_metaindex_handle ft" "block_bytes mls mrs", OF _ f(2)] m(2) f(1,3) by force
  have "sorted_entries BytewiseComparator (entries_of mls)" "\<forall>x \<in> set (entries_of mls). True"
    by (simp_all add: e sorted_entries_def)
  from bytewise.opened_block [OF m(1) lm(1) this]
  obtain bl i where i: "new_Block (block_bytes mls mrs) (te_in_buf env) = Some bl"
    "Block_NewIterator BytewiseComparator bl = Some (Inr i)"
    "block_at (\<lambda>_. True) BytewiseComparator i (entries_of mls) (length (entries_of mls))" by blast
  have it: "iterator Block_Iterator_ops (\<lambda>_. True) BytewiseComparator (right_at (block_at (\<lambda>_. True) BytewiseComparator))"
    unfolding Block_Iterator_ops_def by (rule iterator.either_right [OF bytewise.block_iterator])
  have a: "right_at (block_at (\<lambda>_. True) BytewiseComparator) (Inr i :: EmptyIterator + BlockIter) (entries_of mls) (length (entries_of mls))"
    using i(3) by (simp add: right_at_def)
  have pos: "position BytewiseComparator (filter_key p) (entries_of mls) = 0"
    using bytewise.refl by (simp add: position_def e)
  obtain j where j: "it_Seek Block_Iterator_ops (filter_key p) (Inr i) = Some j"
    "right_at (block_at (\<lambda>_. True) BytewiseComparator) j (entries_of mls) 0"
    using iterator.seek [OF it a, of "filter_key p"] unfolding pos by auto
  have n: "0 < length (entries_of mls)" by (simp add: e)
  have v: "it_Valid Block_Iterator_ops j" "it_key Block_Iterator_ops j = Some (filter_key p)"
    "it_value Block_Iterator_ops j = Some (handle_bytes fh)"
    using iterator.valid [OF it j(2)] iterator.cur_key [OF it j(2) n] iterator.cur_value [OF it j(2) n] n by (simp_all add: e)
  obtain rep' f' where r: "ReadFilter env p (handle_bytes fh) rep f1 = Some (rep', f')" "contents f' = F" "reliable f'"
    "rep_filter rep' = Some (new_FilterBlockReader p (snd (FilterBlock_Finish b)))" "rep_options rep' = options"
    "rep_index_block rep' = rep_index_block rep" "rep_cache_id rep' = rep_cache_id rep"
    using ReadFilter_stored [of f1 fh "snd (FilterBlock_Finish b)" p rep] st r1(2,3) f(3) rep(1) by auto
  have "ReadMeta env ft rep f = Some (rep', f')"
    using Some rep(1) r1(1) i(1,2) j(1) v r(1) by (simp add: ReadMeta_def Status_ok_OK filter_key_def Let_def)
  then show ?thesis using r(2-7) lm(2) b Some by auto
qed

lemma Table_Open_image:
  assumes F: "table_image key cmp (opt_filter_policy options) F bs ks" and f: "contents f = F" "reliable f" "length F < 2 ^ 32"
    and es: "sorted_entries cmp (concat (map snd bs))" "\<forall>e \<in> set (concat (map snd bs)). key (fst e)"
  shows "\<exists>rep f'. Table_Open env options (word_of_nat (length F)) f cache
      = Some (Status_OK, Some rep, f', if opt_block_cache options = None then cache else snd (ch_NewId (te_cache env) cache))
    \<and> contents f' = F \<and> reliable f' \<and> opened F bs ks rep
    \<and> (opt_block_cache options \<noteq> None \<longrightarrow> rep_cache_id rep = fst (ch_NewId (te_cache env) cache))"
proof -
  have len: "length F < 2 ^ 32" "\<forall>b \<in> set bs. block_stored F b" "length ks = length bs" "separated key cmp ks bs []"
    using F f(3) by (simp_all add: table_image_def)
  obtain mh ih body ils irs mls mrs where im: "F = body @ footer_bytes \<lparr>ft_metaindex_handle = mh, ft_index_handle = ih\<rparr>"
    "layout_wf ils irs" "stored F ih (block_bytes ils irs)" "entries_of ils = index_entries ks bs"
    "layout_wf mls mrs" "stored F mh (block_bytes mls mrs)"
    "case opt_filter_policy options of
               None \<Rightarrow> True
             | Some p \<Rightarrow> \<exists>fh off b. entries_of mls = [(filter_key p, handle_bytes fh)]
                 \<and> stored F fh (snd (FilterBlock_Finish b))
                 \<and> build_blocks (filter_groups bs off []) (new_FilterBlockBuilder p) = Some b"
    using F unfolding table_image_def by blast
  let ?ft = "\<lparr>ft_metaindex_handle = mh, ft_index_handle = ih\<rparr>"
  have u: "unat (word_of_nat (length F) :: u64) = length F" using len(1) by (simp add: unat_of_nat_u64)
  note ft = footer_at_end [OF im(1)]
  let ?off = "word_of_nat (length F) - word_of_nat kEncodedLength :: u64"
  have k: "kEncodedLength = 48" by (simp add: kEncodedLength_def kMaxEncodedLength_def)
  have off: "unat ?off = length F - 48"
    unfolding k using u ft(1) by (subst unat_sub) (simp_all add: word_le_nat_alt)
  obtain s d f1 where rd: "rf_Read (te_file env) ?off kEncodedLength f = (s, d, f1)"
    by (cases "rf_Read (te_file env) ?off kEncodedLength f") auto
  have "unat ?off + kEncodedLength \<le> length (contents f)" using off ft(1) by (simp add: f(1) k)
  from reliable_pread [OF f(2) this rd] have s: "Status_ok s" "reliable f1" by simp_all
  have d: "d = footer_bytes ?ft" "contents f1 = F"
    using pread_ok [OF rd s(1)] f(3) ft(1) unfolding off f(1) ft(2) by (simp_all add: k length_footer_bytes)
  have dec: "Footer_DecodeFrom d f0 = Some (Status_OK, ?ft, [])" for f0
    using Footer_DecodeFrom_bytes [of ?ft "[]"] d(1) by simp
  obtain f2 where r2: "ReadBlock (te_lib env) (te_file env) (block_options options) ih (te_in_buf env) f1
      = Some (Status_OK, \<lparr>bc_data = block_bytes ils irs, bc_cachable = te_in_buf env, bc_heap_allocated = te_in_buf env\<rparr>, f2)"
    "contents f2 = F" "reliable f2"
    using ReadBlock_stored [of f1 ih "block_bytes ils irs", OF _ s(2)] im(3) d(2) f(3) by force
  have blocks: "\<forall>b \<in> set bs. snd b \<noteq> []" using len(2) by (simp add: block_stored_def)
  note ix = index_sorted [OF len(4,3) blocks es(2)]
  have "length (block_bytes ils irs) < 2 ^ 32" using stored_bound [OF im(3)] len(1) by simp
  from opened_block [OF im(2) this] ix im(4)
  obtain bl i where bl: "new_Block (block_bytes ils irs) (te_in_buf env) = Some bl" "Block_NewIterator cmp bl = Some (Inr i)"
    "block_at key cmp i (index_entries ks bs) (length (index_entries ks bs))" by metis
  have l: "length (index_entries ks bs) = length ks" using len(3) by (simp add: index_entries_def)
  let ?cid = "if opt_block_cache options = None then 0 else fst (ch_NewId (te_cache env) cache)"
  let ?rep = "\<lparr>rep_options = options, rep_status = Status_OK, rep_cache_id = ?cid, rep_filter = None,
      rep_filter_data = None, rep_metaindex_handle = mh, rep_index_block = bl\<rparr>"
  obtain rep f3 where m: "ReadMeta env ?ft ?rep f2 = Some (rep, f3)" "contents f3 = F" "reliable f3"
    "rep_options rep = options" "rep_index_block rep = bl" "rep_cache_id rep = ?cid"
    "case opt_filter_policy options of
          None \<Rightarrow> rep_filter rep = None
        | Some p \<Rightarrow> \<exists>off b. rep_filter rep = Some (new_FilterBlockReader p (snd (FilterBlock_Finish b)))
            \<and> length (snd (FilterBlock_Finish b)) < 2 ^ 32
            \<and> build_blocks (filter_groups bs off []) (new_FilterBlockBuilder p) = Some b"
    using ReadMeta_image [OF r2(2,3) len(1) im(5), of ?ft bs ?rep] im(6,7) by auto
  have "\<not> unat (word_of_nat (length F) :: u64) < kEncodedLength" unfolding u k using ft(1) by simp
  then have "Table_Open env options (word_of_nat (length F)) f cache
      = Some (Status_OK, Some rep, f3, if opt_block_cache options = None then cache else snd (ch_NewId (te_cache env) cache))"
    unfolding Table_Open_def rd prod.case dec using s(1) r2(1) bl(1) m(1)
    by (cases "opt_block_cache options"; cases "ch_NewId (te_cache env) cache") (simp_all add: Status_ok_OK Let_def)
  moreover have "opened F bs ks rep"
    unfolding opened_def using m(4,5,7) bl(2,3) l reader_comparator by (auto simp: new_index_iterator_def)
  ultimately show ?thesis using m(2,3,6) by auto
qed

subsection \<open>Blocks of an open table\<close>

text \<open>The pairs that the block cache may hold: those from before the table was opened, \<open>Q\<close>, and the blocks of the
  table under their keys. The state of a table while it is read, when clients hold the handles \<open>hs\<close>.\<close>

definition block_is :: "Block \<Rightarrow> entries \<Rightarrow> bool" where
  "block_is bl es \<longleftrightarrow> (\<exists>i. Block_NewIterator cmp bl = Some (Inr i) \<and> block_at key cmp i es (length es))"

definition cached_pairs :: "(Slice \<Rightarrow> Block \<Rightarrow> bool) \<Rightarrow> u64 \<Rightarrow> table_blocks \<Rightarrow> Slice \<Rightarrow> Block \<Rightarrow> bool" where
  "cached_pairs Q cid bs k bl \<longleftrightarrow> Q k bl \<or> (\<exists>h x. (h, x) \<in> set bs \<and> k = cache_key cid h \<and> block_is bl x)"

definition reading :: "bytes \<Rightarrow> Table_Rep \<Rightarrow> table_blocks \<Rightarrow> (Slice \<Rightarrow> Block \<Rightarrow> bool) \<Rightarrow> 'h multiset \<Rightarrow> ('f, 'c) Table \<Rightarrow> bool" where
  "reading F rep bs Q hs t \<longleftrightarrow> tab_rep t = rep \<and> contents (tab_file t) = F \<and> reliable (tab_file t)
     \<and> (if opt_block_cache options = None then hs = {#} else cache_ok (tab_cache t) (cached_pairs Q (rep_cache_id rep) bs) hs)"

text \<open>The clients hold few handles, and the identifier of the table is in no older key.\<close>

definition cache_client :: "Table_Rep \<Rightarrow> (Slice \<Rightarrow> Block \<Rightarrow> bool) \<Rightarrow> 'h multiset \<Rightarrow> bool" where
  "cache_client rep Q hs \<longleftrightarrow> size hs + 2 < 2 ^ 31
     \<and> (opt_block_cache options \<noteq> None \<longrightarrow> (\<forall>k bl. Q k bl \<longrightarrow> take 8 k \<noteq> EncodeFixed64 (rep_cache_id rep)))"

text \<open>The entries that the value of an index entry stands for.\<close>

definition entries_at :: "table_blocks \<Rightarrow> Slice \<Rightarrow> entries" where
  "entries_at bs v = (case map_of (map (\<lambda>(h, es). (handle_bytes h, es)) bs) v of None \<Rightarrow> [] | Some es \<Rightarrow> es)"

abbreviation data_iterator :: "'h BlockIterator \<Rightarrow> entries \<Rightarrow> nat \<Rightarrow> bool" where
  "data_iterator \<equiv> owned_at (right_at (block_at key cmp)) one_cleanup"

lemma block_iterators:
  "iterator Block_Iterator_ops key cmp (right_at (block_at key cmp))"
  "iterator BlockIterator_ops key cmp (owned_at (right_at (block_at key cmp)) C)"
  using iterator.either_right [OF block_iterator] owned_iterator unfolding Block_Iterator_ops_def by blast+

lemma handle_bytes_inject: "handle_bytes h = handle_bytes h' \<Longrightarrow> h = h'"
  using BlockHandle_DecodeFrom_bytes [of h "[]" h] BlockHandle_DecodeFrom_bytes [of h' "[]" h] by simp

lemma stored_unique:
  assumes "stored F h data" "stored F h data'"
  shows "data = data'"
proof -
  obtain pre post pre' post' where "F = pre @ raw_block data @ post" "length pre = unat (bh_offset h)"
    "F = pre' @ raw_block data' @ post'" "length pre' = unat (bh_offset h)" "length data = length data'"
    using assms by (auto simp: stored_def)
  then have "raw_block data = raw_block data'" by (metis append_eq_append_conv length_raw_block)
  then show ?thesis using \<open>length data = length data'\<close> by (simp add: raw_block_def)
qed

lemma entries_at_block:
  assumes st: "\<forall>b \<in> set bs. block_stored F b" "length F < 2 ^ 32"
    and es: "sorted_entries cmp (concat (map snd bs))" "\<forall>e \<in> set (concat (map snd bs)). key (fst e)"
    and b: "(h, es) \<in> set bs"
  shows "entries_at bs (handle_bytes h) = es"
proof -
  have sorted: "sorted_entries cmp x \<and> (\<forall>e \<in> set x. key (fst e))" if "(h', x) \<in> set bs" for h' x
    using sorted_block [of cmp bs "[]" "(h', x)"] es that by (auto simp: all_entries_def)
  have same: "x = es" if x: "(h, x) \<in> set bs" for x
  proof -
    obtain ls rs where l: "layout_wf ls rs" "entries_of ls = x" "stored F h (block_bytes ls rs)"
      using st(1) x by (fastforce simp: block_stored_def)
    obtain ls' rs' where l': "layout_wf ls' rs'" "entries_of ls' = es" "stored F h (block_bytes ls' rs')"
      using st(1) b by (fastforce simp: block_stored_def)
    have "length (block_bytes ls rs) < 2 ^ 32" using stored_bound [OF l(3)] st(2) by simp
    then show ?thesis
      using block_bytes_inject [OF l(1) _ _ l'(1) _ _ stored_unique [OF l(3) l'(3)]] sorted [OF x] sorted [OF b] l(2) l'(2) by blast
  qed
  let ?m = "map (\<lambda>(h, es). (handle_bytes h, es)) bs"
  have "handle_bytes h \<in> fst ` set ?m" using b by force
  then obtain x where x: "map_of ?m (handle_bytes h) = Some x" by (metis map_of_eq_None_iff not_None_eq)
  then have "(handle_bytes h, x) \<in> set ?m" by (rule map_of_SomeD)
  then have "(h, x) \<in> set bs" using handle_bytes_inject by auto
  then show ?thesis using same x by (simp add: entries_at_def)
qed

text \<open>An image with the entries it was built from.\<close>

definition image_of :: "bytes \<Rightarrow> table_blocks \<Rightarrow> Slice list \<Rightarrow> entries \<Rightarrow> bool" where
  "image_of F bs ks es \<longleftrightarrow>
     table_image key cmp (opt_filter_policy options) F bs ks \<and> length F < 2 ^ 32 \<and> concat (map snd bs) = es
     \<and> sorted_entries cmp es \<and> (\<forall>e \<in> set es. key (fst e))"

lemma image_ofD:
  assumes "image_of F bs ks es"
  shows "length F < 2 ^ 32" "\<forall>b \<in> set bs. block_stored F b" "length ks = length bs" "separated key cmp ks bs []"
    "concat (map snd bs) = es" "sorted_entries cmp es" "\<forall>e \<in> set es. key (fst e)" "\<forall>b \<in> set bs. snd b \<noteq> []"
    "distinct (map (bh_offset \<circ> fst) bs)"
  using assms by (auto simp: image_of_def table_image_def block_stored_def)

lemma image_block:
  assumes im: "image_of F bs ks es" and b: "(h, x) \<in> set bs"
  shows "sorted_entries cmp x" "\<forall>e \<in> set x. key (fst e)" "entries_at bs (handle_bytes h) = x" "block_stored F (h, x)"
proof -
  note D = image_ofD [OF im]
  show "sorted_entries cmp x" using sorted_block [of cmp bs "[]" "(h, x)"] D(5,6) b by (simp add: all_entries_def)
  show "\<forall>e \<in> set x. key (fst e)" using D(7) b unfolding D(5) [symmetric] by force
  show "entries_at bs (handle_bytes h) = x" using entries_at_block [OF D(2,1) _ _ b] D(5-7) by simp
  show "block_stored F (h, x)" using D(2) b by blast
qed

text \<open>The key of a block in the cache determines the block.\<close>

lemma cache_key_block:
  assumes im: "image_of F bs ks es" and b: "(h, x) \<in> set bs" "(h', x') \<in> set bs" and k: "cache_key cid h = cache_key cid h'"
  shows "x' = x"
proof -
  have "EncodeFixed64 (bh_offset h) = EncodeFixed64 (bh_offset h')" using k by (simp add: cache_key_def)
  then have "bh_offset h = bh_offset h'"
    using DecodeFixed64_EncodeFixed64 [of "bh_offset h" "[]"] DecodeFixed64_EncodeFixed64 [of "bh_offset h'" "[]"]
    by (metis option.inject)
  then have "(bh_offset \<circ> fst) (h, x) = (bh_offset \<circ> fst) (h', x')" by simp
  moreover have "inj_on (bh_offset \<circ> fst) (set bs)" using image_ofD(9) [OF im] unfolding distinct_map by blast
  ultimately have "(h, x) = (h', x')" using inj_onD [OF _ _ b] by blast
  then show ?thesis by simp
qed

lemma cached_pairs_hit:
  assumes im: "image_of F bs ks es" and b: "(h, x) \<in> set bs" and Q: "cache_client rep Q hs" "opt_block_cache options \<noteq> None"
    and hit: "cached_pairs Q (rep_cache_id rep) bs (cache_key (rep_cache_id rep) h) bl"
  shows "block_is bl x"
  using hit unfolding cached_pairs_def
proof
  assume "Q (cache_key (rep_cache_id rep) h) bl"
  moreover have "take 8 (cache_key (rep_cache_id rep) h) = EncodeFixed64 (rep_cache_id rep)" by (simp add: cache_key_def)
  ultimately show ?thesis using Q unfolding cache_client_def by blast
next
  assume "\<exists>h' x'. (h', x') \<in> set bs \<and> cache_key (rep_cache_id rep) h = cache_key (rep_cache_id rep) h' \<and> block_is bl x'"
  then show ?thesis using cache_key_block [OF im b] by blast
qed

lemma block_sizes:
  assumes "new_Block data owned = Some bl" "Block_NewIterator cmp bl = Some (Inr i)"
  shows "4 \<le> bl_size bl" "bl_size bl \<le> length data"
  using assms by (auto simp: new_Block_def Block_NewIterator_def Let_def bind_eq_Some_conv split: if_splits)

text \<open>The two ways in which a block is read.\<close>

lemma read_uncached_ok:
  assumes im: "image_of F bs ks es" and b: "(h, x) \<in> set bs" and t: "contents (tab_file t) = F" "reliable (tab_file t)"
  shows "\<exists>bl f'. read_uncached env ro h t = Some (Status_OK, Some bl, te_in_buf env, t\<lparr>tab_file := f'\<rparr>)
    \<and> contents f' = F \<and> reliable f' \<and> block_is bl x \<and> 4 \<le> bl_size bl \<and> bl_size bl < 2 ^ 32"
proof -
  note B = image_block [OF im b]
  obtain ls rs where l: "layout_wf ls rs" "entries_of ls = x" "stored F h (block_bytes ls rs)"
    using B(4) by (auto simp: block_stored_def)
  have len: "length (block_bytes ls rs) < 2 ^ 32" using stored_bound [OF l(3)] image_ofD(1) [OF im] by simp
  obtain f' where r: "ReadBlock (te_lib env) (te_file env) ro h (te_in_buf env) (tab_file t)
      = Some (Status_OK, \<lparr>bc_data = block_bytes ls rs, bc_cachable = te_in_buf env, bc_heap_allocated = te_in_buf env\<rparr>, f')"
    "contents f' = F" "reliable f'"
    using ReadBlock_stored [of "tab_file t" h "block_bytes ls rs", OF _ t(2)] l(3) t(1) image_ofD(1) [OF im] by force
  obtain bl i where i: "new_Block (block_bytes ls rs) (te_in_buf env) = Some bl" "Block_NewIterator cmp bl = Some (Inr i)"
    "block_at key cmp i x (length x)"
    using opened_block [OF l(1) len, of "te_in_buf env"] B(1,2) unfolding l(2) by blast
  have "read_uncached env ro h t = Some (Status_OK, Some bl, te_in_buf env, t\<lparr>tab_file := f'\<rparr>)"
    using r(1) i(1) by (simp add: read_uncached_def Status_ok_OK Let_def)
  then show ?thesis using r(2,3) i(2,3) block_sizes [OF i(1,2)] len by (auto simp: block_is_def)
qed

definition handle_token :: "'h option \<Rightarrow> 'h multiset" where
  "handle_token h = (case h of None \<Rightarrow> {#} | Some h \<Rightarrow> {#h#})"

lemma read_cached_ok:
  assumes im: "image_of F bs ks es" and b: "(h, x) \<in> set bs" and c: "opt_block_cache options \<noteq> None"
    and t: "reading F rep bs Q hs t" "size hs + 1 < 2 ^ 31" and Q: "cache_client rep Q hs0"
  shows "\<exists>bl ch t'. read_cached env ro h t = Some (Status_OK, Some bl, ch, t') \<and> block_is bl x
    \<and> reading F rep bs Q (hs + handle_token ch) t'"
proof -
  let ?Q = "cached_pairs Q (rep_cache_id rep) bs" and ?k = "cache_key (rep_cache_id rep) h"
  have tf: "contents (tab_file t) = F" "reliable (tab_file t)" "tab_rep t = rep" and ok: "cache_ok (tab_cache t) ?Q hs"
    using t(1) c by (simp_all add: reading_def)
  from lookup [OF ok t(2), of ?k] consider
    (miss) c' where "ch_Lookup (te_cache env) ?k (tab_cache t) = Some (None, c')" "cache_ok c' ?Q hs"
    | (hit) ch bl c' where "ch_Lookup (te_cache env) ?k (tab_cache t) = Some (Some ch, c')" "ch_Value (te_cache env) ch c' = Some bl"
      "?Q ?k bl" "cache_ok c' ?Q (add_mset ch hs)" by blast
  then show ?thesis
  proof cases
    case hit
    have "read_cached env ro h t = Some (Status_OK, Some bl, Some ch, t\<lparr>tab_cache := c'\<rparr>)"
      using hit(1,2) tf(3) by (simp add: read_cached_def)
    moreover have "reading F rep bs Q (hs + handle_token (Some ch)) (t\<lparr>tab_cache := c'\<rparr>)"
      using tf hit(4) c by (simp add: reading_def handle_token_def)
    ultimately show ?thesis using cached_pairs_hit [OF im b Q c hit(3)] by blast
  next
    case miss
    let ?t = "t\<lparr>tab_cache := c'\<rparr>"
    have "contents (tab_file ?t) = F" "reliable (tab_file ?t)" using tf by simp_all
    from read_uncached_ok [OF im b this, of ro] obtain bl f' where u: "read_uncached env ro h ?t
        = Some (Status_OK, Some bl, te_in_buf env, ?t\<lparr>tab_file := f'\<rparr>)"
      "contents f' = F" "reliable f'" "block_is bl x" "4 \<le> bl_size bl" "bl_size bl < 2 ^ 32" by blast
    show ?thesis
    proof (cases "te_in_buf env \<and> ro_fill_cache ro")
      case True
      have "unat (word_of_nat (bl_size bl) :: u64) = bl_size bl" using u(6) by (intro unat_of_nat_u64) simp
      then have ch: "0 < (word_of_nat (bl_size bl) :: u64)" "unat (word_of_nat (bl_size bl) :: u64) < 2 ^ 32"
        using u(5,6) by (simp_all add: word_less_nat_alt)
      have "?Q ?k bl" using b u(4) by (auto simp: cached_pairs_def)
      from insert [OF miss(2) t(2) this ch, of DeleteCachedBlock] obtain ch c'' where
        i: "ch_Insert (te_cache env) ?k bl (word_of_nat (bl_size bl)) DeleteCachedBlock c' = Some (ch, c'')"
          "cache_ok c'' ?Q (add_mset ch hs)" by blast
      have "read_cached env ro h t = Some (Status_OK, Some bl, Some ch, t\<lparr>tab_cache := c'', tab_file := f'\<rparr>)"
        using miss(1) u(1) i(1) True tf(3) by (simp add: read_cached_def)
      moreover have "reading F rep bs Q (hs + handle_token (Some ch)) (t\<lparr>tab_cache := c'', tab_file := f'\<rparr>)"
        using tf u(2,3) i(2) c by (simp add: reading_def handle_token_def)
      ultimately show ?thesis using u(4) by blast
    next
      case False
      then have "read_cached env ro h t = Some (Status_OK, Some bl, None, ?t\<lparr>tab_file := f'\<rparr>)"
        using miss(1) u(1) tf(3) by (auto simp: read_cached_def)
      moreover have "reading F rep bs Q (hs + handle_token None) (?t\<lparr>tab_file := f'\<rparr>)"
        using tf u(2,3) miss(2) c by (auto simp: reading_def handle_token_def)
      ultimately show ?thesis using u(4) by blast
    qed
  qed
qed

lemma BlockReader_stored:
  assumes im: "image_of F bs ks es" and b: "(h, x) \<in> set bs" and rep: "rep_options rep = options"
    and t: "reading F rep bs Q hs t" "size hs + 1 < 2 ^ 31" and Q: "cache_client rep Q hs0"
  shows "\<exists>d t'. BlockReader env t ro (handle_bytes h) = Some (d, t') \<and> reading F rep bs Q (hs + held_handles d) t'
    \<and> size (held_handles d) \<le> 1 \<and> data_iterator d x (length x)"
proof -
  have d: "BlockHandle_DecodeFrom (handle_bytes h) new_BlockHandle = (Status_OK, h, [])"
    using BlockHandle_DecodeFrom_bytes [of h "[]"] by simp
  have tr: "tab_rep t = rep" "contents (tab_file t) = F" "reliable (tab_file t)" using t(1) by (simp_all add: reading_def)
  have "\<exists>bl ch t'. (if opt_block_cache options \<noteq> None then read_cached env ro h t
      else map_option (\<lambda>(s, block, _, t). (s, block, None, t)) (read_uncached env ro h t)) = Some (Status_OK, Some bl, ch, t')
    \<and> block_is bl x \<and> reading F rep bs Q (hs + handle_token ch) t'"
  proof (cases "opt_block_cache options = None")
    case True
    obtain bl f' where "read_uncached env ro h t = Some (Status_OK, Some bl, te_in_buf env, t\<lparr>tab_file := f'\<rparr>)"
      "contents f' = F" "reliable f'" "block_is bl x"
      using read_uncached_ok [OF im b tr(2,3)] by blast
    then show ?thesis using True t(1) by (auto simp: reading_def handle_token_def)
  next
    case False
    then show ?thesis using read_cached_ok [OF im b False t Q, of ro] by simp
  qed
  then obtain bl ch t' where r: "(if opt_block_cache options \<noteq> None then read_cached env ro h t
      else map_option (\<lambda>(s, block, _, t). (s, block, None, t)) (read_uncached env ro h t)) = Some (Status_OK, Some bl, ch, t')"
    "block_is bl x" "reading F rep bs Q (hs + handle_token ch) t'" by blast
  obtain i where i: "Block_NewIterator cmp bl = Some (Inr i)" "block_at key cmp i x (length x)"
    using r(2) by (auto simp: block_is_def)
  let ?c = "case ch of None \<Rightarrow> DeleteBlock bl | Some h \<Rightarrow> ReleaseBlock h"
  let ?d = "\<lparr>bk_iter = Inr i, bk_cleanup = RegisterCleanup ?c new_Iterator\<rparr>"
  have tr': "tab_rep t' = rep" using r(3) by (simp add: reading_def)
  have "BlockReader env t ro (handle_bytes h) = Some (?d, t')"
    unfolding BlockReader_def d prod.case tr(1) rep using r(1) i(1) tr' rep reader_comparator by (simp add: Status_ok_OK)
  moreover have "held_handles ?d = handle_token ch"
    by (cases ch) (simp_all add: held_handles_def handle_token_def RegisterCleanup_def new_Iterator_def delete_Iterator_def)
  moreover have "size (handle_token ch) \<le> 1" by (simp add: handle_token_def split: option.splits)
  moreover have "data_iterator ?d x (length x)"
    using i(2) by (simp add: owned_at_def one_cleanup_def right_at_def RegisterCleanup_def new_Iterator_def delete_Iterator_def)
  ultimately show ?thesis using r(3) by metis
qed

lemma delete_data_iterator:
  assumes "data_iterator d es n" "reading F rep bs Q (hs + held_handles d) t"
  shows "\<exists>t'. delete_BlockIterator env d t = Some t' \<and> reading F rep bs Q hs t'"
proof -
  obtain f where f: "delete_Iterator (bk_cleanup d) = [f]" using assms(1) by (auto simp: owned_at_def one_cleanup_def)
  show ?thesis
  proof (cases f)
    case (DeleteBlock b)
    then show ?thesis using assms(2) f by (simp add: delete_BlockIterator_def held_handles_def)
  next
    case (ReleaseBlock h)
    have hs: "hs + held_handles d = add_mset h hs" using f ReleaseBlock by (simp add: held_handles_def)
    have c: "opt_block_cache options \<noteq> None" using assms(2) unfolding hs reading_def by (simp split: if_splits)
    then have "cache_ok (tab_cache t) (cached_pairs Q (rep_cache_id rep) bs) (add_mset h hs)"
      using assms(2) unfolding hs reading_def by simp
    from release [OF this] obtain c' where "ch_Release (te_cache env) h (tab_cache t) = Some c'"
      "cache_ok c' (cached_pairs Q (rep_cache_id rep) bs) hs" by blast
    then show ?thesis using assms(2) c f ReleaseBlock by (auto simp: delete_BlockIterator_def reading_def)
  qed
qed

subsection \<open>The iterator of a table\<close>

definition table_setup :: "bytes \<Rightarrow> Table_Rep \<Rightarrow> table_blocks \<Rightarrow> Slice list \<Rightarrow> (Slice \<Rightarrow> Block \<Rightarrow> bool) \<Rightarrow> 'h multiset \<Rightarrow> ReadOptions
    \<Rightarrow> (('f, 'c) Table, EmptyIterator + BlockIter, 'h BlockIterator, 'h multiset) two_level_setup" where
  "table_setup F rep bs ks Q hs ro =
     \<lparr>su_iops = Block_Iterator_ops, su_iat = right_at (block_at key cmp), su_dops = BlockIterator_ops,
      su_dat = data_iterator, su_bf = BlockReader env, su_del = delete_BlockIterator env, su_tok = held_handles,
      su_P = (\<lambda>t toks. reading F rep bs Q (hs + \<Sum>\<^sub># toks) t \<and> (\<forall>tok \<in># toks. size tok \<le> 1)),
      su_options = ro, su_ix = index_entries ks bs, su_blk = entries_at bs\<rparr>"

lemma size_tokens: "\<forall>tok :: 'h multiset \<in># toks. size tok \<le> 1 \<Longrightarrow> size (\<Sum>\<^sub># toks) \<le> size toks"
  by (induction toks) auto

lemma setup_blocks:
  assumes im: "image_of F bs ks es"
  shows "blocks (table_setup F rep bs ks Q hs ro) = map snd bs"
proof -
  have "map (\<lambda>e. entries_at bs (snd e)) (zip ks (map (handle_bytes \<circ> fst) bs)) = map (\<lambda>b. entries_at bs (handle_bytes (fst b))) bs"
    using image_ofD(3) [OF im] by (intro nth_equalityI) simp_all
  also have "\<dots> = map snd bs" using image_block(3) [OF im] by (intro map_cong) (auto simp: prod_eq_iff)
  finally show ?thesis by (simp add: blocks_def table_setup_def index_entries_def)
qed

lemma table_index_ok:
  assumes im: "image_of F bs ks es"
  shows "index_ok key cmp (index_entries ks bs) (map snd bs)"
proof -
  note D = image_ofD [OF im]
  note ix = index_sorted [OF D(4,3,8)] 
  have len: "length (index_entries ks bs) = length bs" using D(3) by (simp add: index_entries_def)
  have k: "fst (index_entries ks bs ! j) = ks ! j" if "j < length bs" for j using that D(3) by (simp add: index_entries_def)
  have "key (fst e) \<and> Compare cmp (fst e) (ks ! k) \<le> 0 \<and> (\<forall>j < k. Compare cmp (ks ! j) (fst e) < 0)"
    if k: "k < length bs" and e: "e \<in> set (snd (bs ! k))" for k e
  proof (intro conjI allI impI)
    show "key (fst e)" using image_block(2) [OF im, of "fst (bs ! k)" "snd (bs ! k)"] k e by simp
    show "Compare cmp (fst e) (ks ! k) \<le> 0" using D(3,4) k e by (simp add: separated_def)
    fix j assume j: "j < k"
    have "k - Suc j < length (drop (Suc j) bs)" "drop (Suc j) bs ! (k - Suc j) = bs ! k" using j k by simp_all
    then have "bs ! k \<in> set (drop (Suc j) bs)" using nth_mem by metis
    then have "e \<in> set (all_entries (drop (Suc j) bs) [])" using e by (auto simp: all_entries_def)
    then show "Compare cmp (ks ! j) (fst e) < 0" using D(3,4) j k by (simp add: separated_def)
  qed
  then show ?thesis using ix D(5,7) len k unfolding index_ok_def by simp
qed

lemma table_setup_ok:
  assumes im: "image_of F bs ks es" and rep: "rep_options rep = options" and Q: "cache_client rep Q hs"
  shows "setup_ok key cmp (table_setup F rep bs ks Q hs ro)"
proof -
  let ?su = "table_setup F rep bs ks Q hs ro"
  have "block_function_ok ?su"
    unfolding block_function_ok_def
  proof (intro conjI allI ballI impI; elim conjE)
    fix t toks e assume e: "e \<in> set (su_ix ?su)" and t: "su_P ?su t toks" and n: "size toks \<le> 1"
    obtain h x where b: "(h, x) \<in> set bs" "snd e = handle_bytes h"
      using e by (auto simp: table_setup_def index_entries_def set_zip) (metis nth_mem prod.collapse)
    have r: "reading F rep bs Q (hs + \<Sum>\<^sub># toks) t" "\<forall>tok \<in># toks. size tok \<le> 1" using t by (simp_all add: table_setup_def)
    have "size (hs + \<Sum>\<^sub># toks) + 1 < 2 ^ 31" using size_tokens [OF r(2)] n Q by (simp add: cache_client_def)
    from BlockReader_stored [OF im b(1) rep r(1) this Q, of ro] r(2)
    show "\<exists>d t' n. su_bf ?su t (su_options ?su) (snd e) = Some (d, t') \<and> su_P ?su t' (add_mset (su_tok ?su d) toks)
        \<and> su_dat ?su d (su_blk ?su (snd e)) n"
      unfolding b(2) by (fastforce simp: table_setup_def image_block(3) [OF im b(1)] ac_simps)
  next
    fix d es n t toks assume t: "su_P ?su t (add_mset (su_tok ?su d) toks)" and d: "su_dat ?su d es n"
    have "reading F rep bs Q ((hs + \<Sum>\<^sub># toks) + held_handles d) t" using t by (simp add: table_setup_def ac_simps)
    moreover have "data_iterator d es n" using d by (simp add: table_setup_def)
    ultimately show "\<exists>t'. su_del ?su d t = Some t' \<and> su_P ?su t' toks"
      using delete_data_iterator t by (fastforce simp: table_setup_def)
  qed
  moreover have "index_ok key cmp (su_ix ?su) (blocks ?su)"
    unfolding setup_blocks [OF im] using table_index_ok [OF im] by (simp add: table_setup_def)
  moreover have "su_dat_tok ?su tok = owned_at (right_at (block_at key cmp))
      (\<lambda>c. one_cleanup c \<and> cleanup_handles (delete_Iterator c) = tok)" for tok
    by (auto simp: fun_eq_iff su_dat_tok_def table_setup_def owned_at_def held_handles_def)
  ultimately show ?thesis unfolding setup_ok_def by (simp add: table_setup_def block_iterators)
qed

lemma table_iterator:
  assumes im: "image_of F bs ks es" and o: "opened F bs ks rep" and t: "reading F rep bs Q hs t" and Q: "cache_client rep Q hs"
  shows "iterator (TableIterator_ops env) key cmp (two_level_at (table_setup F rep bs ks Q hs ro))"
    "\<exists>i. Table_NewIterator ro t = Some i \<and> two_level_at (table_setup F rep bs ks Q hs ro) i es (length es)"
proof -
  let ?su = "table_setup F rep bs ks Q hs ro"
  have rep: "rep_options rep = options" using o by (simp add: opened_def)
  note su = table_setup_ok [OF im rep Q, of ro]
  show "iterator (TableIterator_ops env) key cmp (two_level_at ?su)"
    using two_level_iterator [OF su] by (simp add: table_setup_def TableIterator_ops_def)
  obtain j where j: "new_index_iterator rep = Some (Inr j)" "block_at key cmp j (index_entries ks bs) (length ks)"
    using o by (auto simp: opened_def)
  have "su_iat ?su (Inr j) (su_ix ?su) (length ks)" "su_P ?su t {#}" using j(2) t by (simp_all add: table_setup_def right_at_def)
  from new_TwoLevelIterator_at [OF su this]
  obtain i where "NewTwoLevelIterator Block_Iterator_ops (Inr j) t ro = Some i"
    "two_level_at ?su i (concat (map snd bs)) (length (concat (map snd bs)))"
    unfolding setup_blocks [OF im] by (auto simp: table_setup_def)
  then show "\<exists>i. Table_NewIterator ro t = Some i \<and> two_level_at ?su i es (length es)"
    using j(1) t image_ofD(5) [OF im] by (auto simp: Table_NewIterator_def reading_def)
qed

subsection \<open>Lookups\<close>

lemma sorted_position:
  assumes "sorted_entries cmp es" "\<forall>e \<in> set es. key (fst e)" "(k, v) \<in> set es"
  shows "position cmp k es < length es \<and> es ! position cmp k es = (k, v)"
proof -
  obtain us ws where es: "es = us @ (k, v) # ws" using assms(3) by (auto dest: split_list)
  have "\<forall>e \<in> set us. Compare cmp (fst e) k < 0" "\<not> Compare cmp k k < 0"
    using assms(1,2) refl by (auto simp: es sorted_entries_def sorted_wrt_append)
  then have "position cmp k es = length us" by (simp add: position_def es)
  then show ?thesis by (simp add: es)
qed

text \<open>The block that a key is in, by the index.\<close>

lemma key_in_block:
  assumes im: "image_of F bs ks es" and k: "(k, v) \<in> set es"
    and j: "j = position cmp k (index_entries ks bs)"
  shows "j < length bs \<and> (k, v) \<in> set (snd (bs ! j))"
proof -
  note D = image_ofD [OF im]
  let ?ix = "index_entries ks bs"
  have len: "length ?ix = length bs" and ix: "fst (?ix ! i) = ks ! i" if "i < length bs" for i
    using that D(3) by (simp_all add: index_entries_def)
  have len': "length ?ix = length bs" using D(3) by (simp add: index_entries_def)
  have kk: "key k" using D(7) k by auto
  obtain b where b: "b \<in> set bs" "(k, v) \<in> set (snd b)" using k D(5) by auto
  obtain i where i: "i < length bs" "b = bs ! i" using b(1) by (metis in_set_conv_nth)
  have ki: "key (ks ! i)" "Compare cmp k (ks ! i) \<le> 0" using D(3,4) i b(2) by (force simp: separated_def)+
  have "\<not> i < j"
  proof
    assume "i < j"
    then have "Compare cmp (fst (?ix ! i)) k < 0"
      unfolding j position_def using nth_mem [of i "takeWhile (\<lambda>e. Compare cmp (fst e) k < 0) ?ix"] set_takeWhileD
      by (metis (no_types, lifting) takeWhile_nth)
    then show False using ki kk swap [of "ks ! i" k] ix [OF i(1)] by simp
  qed
  moreover have "\<not> j < i"
  proof
    assume ji: "j < i"
    then have jl: "j < length bs" using i(1) by simp
    have "i - Suc j < length (drop (Suc j) bs)" "drop (Suc j) bs ! (i - Suc j) = bs ! i" using ji i(1) by simp_all
    then have "bs ! i \<in> set (drop (Suc j) bs)" using nth_mem by metis
    then have "(k, v) \<in> set (all_entries (drop (Suc j) bs) [])" using b(2) i(2) by (auto simp: all_entries_def)
    then have "Compare cmp (ks ! j) k < 0" using D(3,4) jl by (force simp: separated_def)
    moreover have "\<not> Compare cmp (fst (?ix ! j)) k < 0"
      using nth_length_takeWhile [of "\<lambda>e. Compare cmp (fst e) k < 0" ?ix] jl len' unfolding j position_def by simp
    ultimately show False using ix [OF jl] by simp
  qed
  ultimately show ?thesis using i b(2) by auto
qed

lemma filter_keeps:
  assumes im: "image_of F bs ks es" and o: "opened F bs ks rep" and b: "(h, x) \<in> set bs" "(k, v) \<in> set x"
    and policy: "\<forall>p. opt_filter_policy options = Some p \<longrightarrow> filter_policy p" and fr: "rep_filter rep = Some fr"
  shows "FilterBlock_KeyMayMatch fr (bh_offset h) k = Some True"
proof -
  obtain p off f where p: "opt_filter_policy options = Some p" "fr = new_FilterBlockReader p (snd (FilterBlock_Finish f))"
    "length (snd (FilterBlock_Finish f)) < 2 ^ 32" "build_blocks (filter_groups bs off []) (new_FilterBlockBuilder p) = Some f"
    using o fr by (auto simp: opened_def split: option.splits)
  have g: "(bh_offset h, map fst x) \<in> set (filter_groups bs off [])" using b(1) by (force simp: filter_groups_def)
  have "k \<in> set (map fst x)" using b(2) by force
  from filter_policy.built_filter_matches [OF _ p(4) g this p(3)] policy p(1,2) show ?thesis by simp
qed

lemma filter_answers:
  "rep_filter rep = Some fr \<Longrightarrow> opened F bs ks rep \<Longrightarrow> FilterBlock_KeyMayMatch fr off k \<noteq> None"
  using FilterBlock_KeyMayMatch_in_bounds by (auto simp: opened_def split: option.splits)

text \<open>The part of a lookup that reads a block.\<close>

definition block_get :: "ReadOptions \<Rightarrow> Slice \<Rightarrow> Slice \<Rightarrow> (Slice \<Rightarrow> Slice \<Rightarrow> 'r \<Rightarrow> 'r option) \<Rightarrow> 'r \<Rightarrow> ('f, 'c) Table
    \<Rightarrow> (Status \<times> 'r \<times> ('f, 'c) Table) option" where
  "block_get ro handle_value k handle_result arg t =
     Option.bind (BlockReader env t ro handle_value) (\<lambda>(block_iter, t).
     Option.bind (it_Seek BlockIterator_ops k block_iter) (\<lambda>block_iter.
     Option.bind
       (if it_Valid BlockIterator_ops block_iter then
          Option.bind (it_key BlockIterator_ops block_iter) (\<lambda>bk.
          Option.bind (it_value BlockIterator_ops block_iter) (\<lambda>bv. handle_result bk bv arg))
        else Some arg)
       (\<lambda>arg. map_option (\<lambda>t. (it_status BlockIterator_ops block_iter, arg, t))
                (delete_BlockIterator env block_iter t))))"

lemma block_get_ok:
  assumes im: "image_of F bs ks es" and rep: "rep_options rep = options" and t: "reading F rep bs Q hs t" and Q: "cache_client rep Q hs" and k: "key k"
    and b: "(h, x) \<in> set bs" and total: "\<And>a b c. hr a b c \<noteq> None"
  shows "\<exists>s arg' t'. block_get ro (handle_bytes h) k hr arg t = Some (s, arg', t') \<and> Status_ok s \<and> reading F rep bs Q hs t'
    \<and> (if position cmp k x < length x then hr (fst (x ! position cmp k x)) (snd (x ! position cmp k x)) arg = Some arg'
       else arg' = arg)"
proof -
  note B = image_block [OF im b] and it = block_iterators(2)
  have "size hs + 1 < 2 ^ 31" using Q by (simp add: cache_client_def)
  from BlockReader_stored [OF im b rep t this Q, of ro]
  obtain d t' where d: "BlockReader env t ro (handle_bytes h) = Some (d, t')" "reading F rep bs Q (hs + held_handles d) t'"
    "data_iterator d x (length x)" by blast
  obtain d' where d': "it_Seek BlockIterator_ops k d = Some d'" "data_iterator d' x (position cmp k x)"
    using iterator.seek [OF it d(3) k] by blast
  have same: "held_handles d' = held_handles d"
    using d'(1) by (auto simp: BlockIterator_ops_def bk_step_def held_handles_def)
  obtain t'' where del: "delete_BlockIterator env d' t' = Some t''" "reading F rep bs Q hs t''"
    using delete_data_iterator [OF d'(2), of F rep bs Q hs t'] d(2) unfolding same by blast
  have s: "Status_ok (it_status BlockIterator_ops d')" by (rule iterator.status [OF it d'(2)])
  note v = iterator.valid [OF it d'(2)]
  show ?thesis
  proof (cases "position cmp k x < length x")
    case True
    obtain arg' where a: "hr (fst (x ! position cmp k x)) (snd (x ! position cmp k x)) arg = Some arg'" using total by blast
    have "block_get ro (handle_bytes h) k hr arg t = Some (it_status BlockIterator_ops d', arg', t'')"
      using d(1) d'(1) v True iterator.cur_key [OF it d'(2) True] iterator.cur_value [OF it d'(2) True] a
        del(1) by (simp add: block_get_def)
    then show ?thesis using s del(2) a True by simp
  next
    case False
    have "block_get ro (handle_bytes h) k hr arg t = Some (it_status BlockIterator_ops d', arg, t'')"
      using d(1) d'(1) v False del(1) by (simp add: block_get_def)
    then show ?thesis using s del(2) False by simp
  qed
qed

lemma InternalGet_unfold:
  fixes arg :: 'r
  assumes "new_index_iterator (tab_rep t) = Some i0" "it_Seek Block_Iterator_ops k i0 = Some i"
  shows "InternalGet env ro k hr arg t = map_option (\<lambda>(s, arg, t). (if Status_ok s then it_status Block_Iterator_ops i else s, arg, t))
    (if it_Valid Block_Iterator_ops i then
       Option.bind (it_value Block_Iterator_ops i) (\<lambda>handle_value.
       Option.bind
         (case rep_filter (tab_rep t) of
            None \<Rightarrow> Some True
          | Some fr \<Rightarrow>
              (case BlockHandle_DecodeFrom handle_value new_BlockHandle of
                 (s, handle, _) \<Rightarrow>
                   if Status_ok s then FilterBlock_KeyMayMatch fr (bh_offset handle) k else Some True))
         (\<lambda>may_match. if \<not> may_match then Some (Status_OK, arg, t) else block_get ro handle_value k hr arg t))
     else Some (Status_OK, arg, t))"
proof -
  have m: "Option.bind A (\<lambda>(s, arg, t). Some (g s, arg, t)) = map_option (\<lambda>(s, arg, t). (g s, arg, t)) A"
    for A :: "(Status \<times> 'r \<times> ('f, 'c) Table) option" and g :: "Status \<Rightarrow> Status"
    by (cases A) auto
  show ?thesis unfolding InternalGet_def assms Option.bind.simps block_get_def by (rule m)
qed

lemma InternalGet_ok:
  assumes im: "image_of F bs ks es" and o: "opened F bs ks rep" and t: "reading F rep bs Q hs t" and Q: "cache_client rep Q hs" and k: "key k"
    and policy: "\<forall>p. opt_filter_policy options = Some p \<longrightarrow> filter_policy p" and total: "\<And>a b c. hr a b c \<noteq> None"
  shows "\<exists>s arg' t'. InternalGet env ro k hr arg t = Some (s, arg', t') \<and> Status_ok s \<and> reading F rep bs Q hs t'
    \<and> (arg' = arg \<or> (\<exists>x v rest. dropWhile (\<lambda>e. Compare cmp (fst e) k < 0) es = (x, v) # rest \<and> hr x v arg = Some arg'))
    \<and> (\<forall>v. (k, v) \<in> set es \<longrightarrow> hr k v arg = Some arg')"
proof -
  note D = image_ofD [OF im]
  let ?ix = "index_entries ks bs"
  define j where "j = position cmp k ?ix"
  have len: "length ?ix = length bs" using D(3) by (simp add: index_entries_def)
  have rep: "rep_options rep = options" "tab_rep t = rep" using o t by (simp_all add: opened_def reading_def)
  obtain i0 where i0: "new_index_iterator rep = Some (Inr i0)" "block_at key cmp i0 ?ix (length ks)" using o by (auto simp: opened_def)
  note it = block_iterators(1)
  have "right_at (block_at key cmp) (Inr i0 :: EmptyIterator + BlockIter) ?ix (length ks)" using i0(2) by (simp add: right_at_def)
  from iterator.seek [OF it this k]
  obtain i where i: "it_Seek Block_Iterator_ops k (Inr i0) = Some i" "right_at (block_at key cmp) i ?ix j" unfolding j_def by blast
  have s: "Status_ok (it_status Block_Iterator_ops i)" by (rule iterator.status [OF it i(2)])
  note unf = InternalGet_unfold [OF i0(1) [folded rep(2)] i(1), of ro hr arg]
  show ?thesis
  proof (cases "j < length ?ix")
    case False
    have "InternalGet env ro k hr arg t = Some (it_status Block_Iterator_ops i, arg, t)"
      unfolding unf using iterator.valid [OF it i(2)] False by (simp add: Status_ok_OK)
    moreover have "(k, v) \<notin> set es" for v using key_in_block [OF im _ j_def] False len by auto
    ultimately show ?thesis using s t by blast
  next
    case True
    obtain h x where hx: "bs ! j = (h, x)" by (cases "bs ! j")
    have b: "(h, x) \<in> set bs" using True len hx nth_mem by metis
    have v: "it_Valid Block_Iterator_ops i" "it_value Block_Iterator_ops i = Some (handle_bytes h)"
      using iterator.valid [OF it i(2)] iterator.cur_value [OF it i(2) True] True D(3) len hx by (simp_all add: index_entries_def)
    have dec: "BlockHandle_DecodeFrom (handle_bytes h) new_BlockHandle = (Status_OK, h, [])"
      using BlockHandle_DecodeFrom_bytes [of h "[]"] by simp
    let ?may = "case rep_filter (tab_rep t) of None \<Rightarrow> Some True | Some fr \<Rightarrow> FilterBlock_KeyMayMatch fr (bh_offset h) k"
    have unf2: "InternalGet env ro k hr arg t = map_option (\<lambda>(s, arg, t). (if Status_ok s then it_status Block_Iterator_ops i else s, arg, t))
      (Option.bind ?may (\<lambda>may_match. if \<not> may_match then Some (Status_OK, arg, t) else block_get ro (handle_bytes h) k hr arg t))"
      unfolding unf v(2) Option.bind.simps using v(1) by (cases "rep_filter (tab_rep t)") (simp_all add: dec Status_ok_OK)
    have in_block: "(k, v) \<in> set x" if "(k, v) \<in> set es" for v using key_in_block [OF im that j_def] hx by simp
    have "?may \<noteq> None" using filter_answers [OF _ o] rep(2) by (cases "rep_filter (tab_rep t)") simp_all
    then obtain may where may: "?may = Some may" by blast
    have keeps: "may" if "(k, v) \<in> set x" for v
      using may filter_keeps [OF im o b that policy] rep(2) by (cases "rep_filter (tab_rep t)") simp_all
    show ?thesis
    proof (cases may)
      case False
      have "InternalGet env ro k hr arg t = Some (it_status Block_Iterator_ops i, arg, t)"
        unfolding unf2 may using False by (simp add: Status_ok_OK)
      then show ?thesis using s t in_block keeps False by blast
    next
      case m: True
      obtain s' arg' t' where g: "block_get ro (handle_bytes h) k hr arg t = Some (s', arg', t')" "Status_ok s'" "reading F rep bs Q hs t'"
        "if position cmp k x < length x then hr (fst (x ! position cmp k x)) (snd (x ! position cmp k x)) arg = Some arg'
         else arg' = arg"
        using block_get_ok [where hr = hr and ro = ro and arg = arg, OF im rep(1) t Q k b total] by blast
      have get: "InternalGet env ro k hr arg t = Some (it_status Block_Iterator_ops i, arg', t')"
        unfolding unf2 may using m g(1,2) by simp
      have found: "hr k v arg = Some arg'" if "(k, v) \<in> set es" for v
        using sorted_position [OF image_block(1,2) [OF im b] in_block [OF that]] g(4) by simp
      have first: "\<exists>y v rest. dropWhile (\<lambda>e. Compare cmp (fst e) k < 0) es = (y, v) # rest \<and> hr y v arg = Some arg'"
        if p: "position cmp k x < length x"
      proof -
        let ?su = "table_setup F rep bs ks Q hs ro"
        have ok: "index_ok key cmp (su_ix ?su) (blocks ?su)" using table_setup_ok [OF im rep(1) Q] unfolding setup_ok_def by blast
        have sx: "su_ix ?su = ?ix" "blocks ?su = map snd bs" using setup_blocks [OF im] by (simp_all add: table_setup_def)
        have "position cmp k (concat (blocks ?su)) = block_offset ?su j + position cmp k (blocks ?su ! j)"
          using position_blocks(1) [OF ok k, unfolded sx(1), OF j_def True] by simp
        moreover have "blocks ?su ! j = x" using hx True len unfolding sx(2) by simp
        moreover have "block_offset ?su j + position cmp k x < length (concat (blocks ?su))"
          "concat (blocks ?su) ! (block_offset ?su j + position cmp k x) = x ! position cmp k x"
          using in_concat [of j ?su "position cmp k x"] True p \<open>blocks ?su ! j = x\<close> unfolding sx(1) by simp_all
        ultimately have "position cmp k es < length es" "es ! position cmp k es = x ! position cmp k x"
          unfolding sx(2) D(5) by simp_all
        then have "dropWhile (\<lambda>e. Compare cmp (fst e) k < 0) es = x ! position cmp k x # drop (Suc (position cmp k es)) es"
          unfolding dropWhile_eq_drop position_def by (simp add: Cons_nth_drop_Suc [symmetric])
        then show ?thesis using g(4) p by (cases "x ! position cmp k x") simp
      qed
      have "arg' = arg \<or> (\<exists>y v rest. dropWhile (\<lambda>e. Compare cmp (fst e) k < 0) es = (y, v) # rest \<and> hr y v arg = Some arg')"
        using first g(4) by (cases "position cmp k x < length x") simp_all
      then show ?thesis using get s g(3) found by blast
    qed
  qed
qed

text \<open>Lookups one after the other.\<close>

lemma run_gets_ok:
  assumes im: "image_of F bs ks es" and o: "opened F bs ks rep" and Q: "cache_client rep Q hs"
    and policy: "\<forall>p. opt_filter_policy options = Some p \<longrightarrow> filter_policy p" and total: "\<And>a b c. hr a b c \<noteq> None"
  shows "reading F rep bs Q hs t \<Longrightarrow> \<forall>k \<in> set targets. key k \<Longrightarrow>
    \<exists>answers t'. run_gets env ro hr arg targets t = Some (answers, t') \<and> reading F rep bs Q hs t'
      \<and> list_all2 (get_answer cmp es hr arg) targets answers"
proof (induction targets arbitrary: t)
  case (Cons k targets)
  obtain s r t1 where g: "InternalGet env ro k hr arg t = Some (s, r, t1)" "reading F rep bs Q hs t1" "get_answer cmp es hr arg k (s, r)"
    using InternalGet_ok [where hr = hr and arg = arg and ro = ro, OF im o Cons.prems(1) Q _ policy total, of k] Cons.prems(2)
    by (auto simp: get_answer_def)
  from Cons.IH [OF g(2)] Cons.prems(2) g(1,3) show ?case by auto
qed simp

end

interpretation posix_reading: table_reading "\<lambda>_. True" BytewiseComparator
  "\<lparr>te_lib = None, te_file = PosixMmapReadableFile_ops, te_in_buf = False, te_cache = ShardedLRUCache_ops\<rparr>"
  mm_region mm_reliable sharded_ok "new_Options 0"
  by (intro table_reading.intro table_reading_axioms.intro bytewise.comparator_axioms)
    (use posix_mmap_reliable.reliable_random_access_file_axioms sharded.block_cache_axioms in \<open>simp_all add: new_Options_def\<close>)

text \<open>If the database has a block cache: clients hold some handles \<open>hs\<close>, not too many, and what is in the cache, some
  of \<open>Q\<close>, has keys with other identifiers than the one that the next table gets.\<close>

definition cache_ready :: "('c \<Rightarrow> (Slice \<Rightarrow> Block \<Rightarrow> bool) \<Rightarrow> 'h multiset \<Rightarrow> bool) \<Rightarrow> ('f, 'h, 'c) TableEnv \<Rightarrow> Options \<Rightarrow> 'c
    \<Rightarrow> (Slice \<Rightarrow> Block \<Rightarrow> bool) \<Rightarrow> 'h multiset \<Rightarrow> bool" where
  "cache_ready cache_ok env options cache Q hs \<longleftrightarrow>
     (opt_block_cache options \<noteq> None \<longrightarrow>
        cache_ok cache Q hs \<and> size hs + 2 < 2 ^ 31
        \<and> (\<forall>k bl. Q k bl \<longrightarrow> take 8 k \<noteq> EncodeFixed64 (fst (ch_NewId (te_cache env) cache))))"

text \<open>A table that was built, opened.\<close>

definition built_and_opened where
  "built_and_opened key cmp env contents reliable cache_ok options es r f cache \<longleftrightarrow>
     (\<exists>F bs ks rep f' cache' Q hs. Table_Open env options (TableBuilder_FileSize r) f cache = Some (Status_OK, Some rep, f', cache')
        \<and> table_reading.image_of key cmp options F bs ks es \<and> table_reading.opened key cmp options F bs ks rep
        \<and> table_reading.cache_client options rep Q hs
        \<and> table_reading.reading key cmp contents reliable cache_ok options F rep bs Q hs
            \<lparr>tab_rep = rep, tab_file = f', tab_cache = cache'\<rparr>)"

lemma open_built:
  assumes "comparator key cmp" "table_file wops wcontents valid" "reliable_random_access_file (te_file env) contents reliable"
    and bc: "block_cache (te_cache env) cache_ok"
    and o: "opt_comparator options = cmp" "1 \<le> opt_block_restart_interval options"
      "opt_compression options = kNoCompression \<or> lib = None"
    and es: "wcontents file = []" "valid file" "sorted_entries cmp es" "\<forall>e \<in> set es. key (fst e)"
  shows "table_reading key cmp env contents reliable cache_ok options"
    "\<exists>r. build_table wops lib options es file = Some (tb_status r, r) \<and>
    (Status_ok (tb_status r) \<longrightarrow> length (wcontents (tb_file r)) < 2 ^ 32 \<longrightarrow>
      (\<forall>f cache Q hs. contents f = wcontents (tb_file r) \<longrightarrow> reliable f \<longrightarrow> cache_ready cache_ok env options cache Q hs \<longrightarrow>
         built_and_opened key cmp env contents reliable cache_ok options es r f cache))"
proof -
  have tb: "table_building key cmp wops wcontents valid options lib"
    using assms(1,2) o by (simp add: table_building_def table_building_axioms_def)
  show tr: "table_reading key cmp env contents reliable cache_ok options"
    using assms(1,3) bc o by (simp add: table_reading_def table_reading_axioms_def)
  obtain r where r: "build_table wops lib options es file = Some (tb_status r, r)"
    "Status_ok (tb_status r) \<longrightarrow> table_file.offset_ok wcontents valid r
         \<and> (\<exists>bs ks. table_image key cmp (opt_filter_policy options) (wcontents (tb_file r)) bs ks \<and> concat (map snd bs) = es)"
    using table_building.build_table_image [OF tb es] by blast
  have "built_and_opened key cmp env contents reliable cache_ok options es r f cache"
    if s: "Status_ok (tb_status r)" and small: "length (wcontents (tb_file r)) < 2 ^ 32"
      and f: "contents f = wcontents (tb_file r)" "reliable f" and ready: "cache_ready cache_ok env options cache Q hs"
    for f cache Q hs
  proof -
    let ?F = "wcontents (tb_file r)"
    obtain bs ks where im: "table_image key cmp (opt_filter_policy options) ?F bs ks" "concat (map snd bs) = es"
      and off: "table_file.offset_ok wcontents valid r" using r(2) s by blast
    have size: "TableBuilder_FileSize r = word_of_nat (length ?F)"
      using off by (simp add: table_file.offset_ok_def [OF assms(2)] TableBuilder_FileSize_def)
    have i: "table_reading.image_of key cmp options ?F bs ks es"
      using im es(3,4) small by (simp add: table_reading.image_of_def [OF tr])
    let ?cache = "if opt_block_cache options = None then cache else snd (ch_NewId (te_cache env) cache)"
    let ?hs = "if opt_block_cache options = None then {#} else hs"
    obtain rep f' where o: "Table_Open env options (TableBuilder_FileSize r) f cache = Some (Status_OK, Some rep, f', ?cache)"
      "contents f' = ?F" "reliable f'" "table_reading.opened key cmp options ?F bs ks rep"
      "opt_block_cache options \<noteq> None \<longrightarrow> rep_cache_id rep = fst (ch_NewId (te_cache env) cache)"
      using table_reading.Table_Open_image [OF tr im(1) f small, of cache] es(3,4) unfolding size im(2) by blast
    have c: "table_reading.cache_client options rep Q ?hs"
      using ready o(5) by (simp add: table_reading.cache_client_def [OF tr] cache_ready_def)
    have "cache_ok (snd (ch_NewId (te_cache env) cache)) Q hs" if "opt_block_cache options \<noteq> None"
      using block_cache.new_id [OF bc] ready that by (simp add: cache_ready_def)
    then have "cache_ok (snd (ch_NewId (te_cache env) cache)) (table_reading.cached_pairs key cmp Q (rep_cache_id rep) bs) hs"
      if "opt_block_cache options \<noteq> None"
      using block_cache.weaken [OF bc] that by (simp add: table_reading.cached_pairs_def [OF tr])
    then have "table_reading.reading key cmp contents reliable cache_ok options ?F rep bs Q ?hs
        \<lparr>tab_rep = rep, tab_file = f', tab_cache = ?cache\<rparr>"
      using o(2,3) by (simp add: table_reading.reading_def [OF tr])
    with o(1) i o(4) c show ?thesis unfolding built_and_opened_def by blast
  qed
  with r(1) show "\<exists>r. build_table wops lib options es file = Some (tb_status r, r) \<and>
    (Status_ok (tb_status r) \<longrightarrow> length (wcontents (tb_file r)) < 2 ^ 32 \<longrightarrow>
      (\<forall>f cache Q hs. contents f = wcontents (tb_file r) \<longrightarrow> reliable f \<longrightarrow> cache_ready cache_ok env options cache Q hs \<longrightarrow>
         built_and_opened key cmp env contents reliable cache_ok options es r f cache))" by blast
qed

subsection \<open>Properties\<close>

text \<open>C2. A table that is built from sorted entries and opened again shows exactly those entries: under
  every sequence of calls, its iterator behaves like a position that moves in their list. The builder
  never fails an assertion; if the file reported an error, so does \<open>Finish\<close>. With a filter policy or
  without, for blocks of any size, for every comparator that keeps its contract, with a block cache or
  without, whatever else is in the cache. The file must be smaller than 4 GB, since a block has 32-bit
  offsets, and blocks are stored uncompressed: Snappy is not chosen, or not compiled in.\<close>

theorem table_roundtrip:
  assumes "comparator key cmp" "table_file wops wcontents valid" "reliable_random_access_file (te_file env) contents reliable"
    and "block_cache (te_cache env) cache_ok"
    and "opt_comparator options = cmp" "1 \<le> opt_block_restart_interval options"
      "opt_compression options = kNoCompression \<or> lib = None"
    and "wcontents file = []" "valid file" "sorted_entries cmp es" "\<forall>e \<in> set es. key (fst e)"
  shows "\<exists>r. build_table wops lib options es file = Some (tb_status r, r) \<and>
    (Status_ok (tb_status r) \<longrightarrow> length (wcontents (tb_file r)) < 2 ^ 32 \<longrightarrow>
      (\<forall>f cache Q hs. contents f = wcontents (tb_file r) \<longrightarrow> reliable f \<longrightarrow> cache_ready cache_ok env options cache Q hs \<longrightarrow>
        (\<exists>rep f' cache' i. Table_Open env options (TableBuilder_FileSize r) f cache = Some (Status_OK, Some rep, f', cache')
          \<and> Table_NewIterator ro \<lparr>tab_rep = rep, tab_file = f', tab_cache = cache'\<rparr> = Some i
          \<and> (\<forall>mvs n. targets_ok key mvs \<longrightarrow> moves_position cmp es mvs (length es) = Some n \<longrightarrow>
               (\<exists>i'. make_moves (TableIterator_ops env) mvs i = Some i' \<and> shows_entry (TableIterator_ops env) es n i')))))"
proof -
  note tr = open_built(1) [OF assms]
  obtain r where r: "build_table wops lib options es file = Some (tb_status r, r)"
    and op: "Status_ok (tb_status r) \<longrightarrow> length (wcontents (tb_file r)) < 2 ^ 32 \<longrightarrow>
      (\<forall>f cache Q hs. contents f = wcontents (tb_file r) \<longrightarrow> reliable f \<longrightarrow> cache_ready cache_ok env options cache Q hs \<longrightarrow>
         built_and_opened key cmp env contents reliable cache_ok options es r f cache)"
    using open_built(2) [OF assms] by blast
  show ?thesis
  proof (intro exI [of _ r] conjI r impI allI)
    fix f cache Q hs assume "Status_ok (tb_status r)" "length (wcontents (tb_file r)) < 2 ^ 32"
      "contents f = wcontents (tb_file r)" "reliable f" "cache_ready cache_ok env options cache Q hs"
    then have "built_and_opened key cmp env contents reliable cache_ok options es r f cache" using op by blast
    then obtain F bs ks rep f' cache' Q hs where
      o: "Table_Open env options (TableBuilder_FileSize r) f cache = Some (Status_OK, Some rep, f', cache')"
      "table_reading.image_of key cmp options F bs ks es" "table_reading.opened key cmp options F bs ks rep"
      "table_reading.reading key cmp contents reliable cache_ok options F rep bs Q hs \<lparr>tab_rep = rep, tab_file = f', tab_cache = cache'\<rparr>"
      "table_reading.cache_client options rep Q hs"
      unfolding built_and_opened_def by blast
    note it = table_reading.table_iterator [OF tr o(2-5), of ro]
    from it(2) iterator.moves_show [OF it(1)] o(1)
    show "\<exists>rep f' cache' i. Table_Open env options (TableBuilder_FileSize r) f cache = Some (Status_OK, Some rep, f', cache')
        \<and> Table_NewIterator ro \<lparr>tab_rep = rep, tab_file = f', tab_cache = cache'\<rparr> = Some i
        \<and> (\<forall>mvs n. targets_ok key mvs \<longrightarrow> moves_position cmp es mvs (length es) = Some n \<longrightarrow>
             (\<exists>i'. make_moves (TableIterator_ops env) mvs i = Some i' \<and> shows_entry (TableIterator_ops env) es n i'))" by blast
  qed
qed

text \<open>C3. Lookups one after the other in a table that was built and opened: each calls the handler for a key of
  the table with the value of the key, filter or not; for any key it calls the handler at most once, and
  then with the first entry at or past the key. With a block cache or without, whatever else is in the
  cache; later lookups may find the blocks of earlier ones there. The file must be smaller than 4 GB and
  blocks are stored uncompressed.\<close>

theorem table_get:
  assumes "comparator key cmp" "table_file wops wcontents valid" "reliable_random_access_file (te_file env) contents reliable"
    and "block_cache (te_cache env) cache_ok"
    and "opt_comparator options = cmp" "1 \<le> opt_block_restart_interval options"
      "opt_compression options = kNoCompression \<or> lib = None"
    and "wcontents file = []" "valid file" "sorted_entries cmp es" "\<forall>e \<in> set es. key (fst e)"
    and "\<forall>p. opt_filter_policy options = Some p \<longrightarrow> filter_policy p" "\<forall>k \<in> set targets. key k"
      "\<And>a b c. handle_result a b c \<noteq> None"
  shows "\<exists>r. build_table wops lib options es file = Some (tb_status r, r) \<and>
    (Status_ok (tb_status r) \<longrightarrow> length (wcontents (tb_file r)) < 2 ^ 32 \<longrightarrow>
      (\<forall>f cache Q hs. contents f = wcontents (tb_file r) \<longrightarrow> reliable f \<longrightarrow> cache_ready cache_ok env options cache Q hs \<longrightarrow>
        (\<exists>rep f' cache' answers t. Table_Open env options (TableBuilder_FileSize r) f cache = Some (Status_OK, Some rep, f', cache')
          \<and> run_gets env ro handle_result arg targets \<lparr>tab_rep = rep, tab_file = f', tab_cache = cache'\<rparr> = Some (answers, t)
          \<and> list_all2 (\<lambda>k (s, result).
               Status_ok s \<and> (\<forall>v. (k, v) \<in> set es \<longrightarrow> handle_result k v arg = Some result)
               \<and> (result = arg \<or> (\<exists>x v rest. dropWhile (\<lambda>e. Compare cmp (fst e) k < 0) es = (x, v) # rest
                                              \<and> handle_result x v arg = Some result))) targets answers)))"
proof -
  note tr = open_built(1) [OF assms(1-11)]
  obtain r where r: "build_table wops lib options es file = Some (tb_status r, r)"
    and op: "Status_ok (tb_status r) \<longrightarrow> length (wcontents (tb_file r)) < 2 ^ 32 \<longrightarrow>
      (\<forall>f cache Q hs. contents f = wcontents (tb_file r) \<longrightarrow> reliable f \<longrightarrow> cache_ready cache_ok env options cache Q hs \<longrightarrow>
         built_and_opened key cmp env contents reliable cache_ok options es r f cache)"
    using open_built(2) [OF assms(1-11)] by blast
  show ?thesis
  proof (intro exI [of _ r] conjI r impI allI)
    fix f cache Q hs assume "Status_ok (tb_status r)" "length (wcontents (tb_file r)) < 2 ^ 32"
      "contents f = wcontents (tb_file r)" "reliable f" "cache_ready cache_ok env options cache Q hs"
    then have "built_and_opened key cmp env contents reliable cache_ok options es r f cache" using op by blast
    then obtain F bs ks rep f' cache' Q hs where
      o: "Table_Open env options (TableBuilder_FileSize r) f cache = Some (Status_OK, Some rep, f', cache')"
      "table_reading.image_of key cmp options F bs ks es" "table_reading.opened key cmp options F bs ks rep"
      "table_reading.cache_client options rep Q hs"
      "table_reading.reading key cmp contents reliable cache_ok options F rep bs Q hs \<lparr>tab_rep = rep, tab_file = f', tab_cache = cache'\<rparr>"
      unfolding built_and_opened_def by blast
    from o(1) table_reading.run_gets_ok [where hr = handle_result and ro = ro and arg = arg, OF tr o(2-4) assms(12,14) o(5) assms(13)]
    show "\<exists>rep f' cache' answers t. Table_Open env options (TableBuilder_FileSize r) f cache = Some (Status_OK, Some rep, f', cache')
        \<and> run_gets env ro handle_result arg targets \<lparr>tab_rep = rep, tab_file = f', tab_cache = cache'\<rparr> = Some (answers, t)
        \<and> list_all2 (\<lambda>k (s, result).
             Status_ok s \<and> (\<forall>v. (k, v) \<in> set es \<longrightarrow> handle_result k v arg = Some result)
             \<and> (result = arg \<or> (\<exists>x v rest. dropWhile (\<lambda>e. Compare cmp (fst e) k < 0) es = (x, v) # rest
                                            \<and> handle_result x v arg = Some result))) targets answers"
      unfolding get_answer_def by blast
  qed
qed

text \<open>A small file of the operating system.\<close>

definition sample_file :: PosixWritableFile where
  "sample_file = new_PosixWritableFile (lit ''000005.ldb'') 3 \<lparr>os_data = [], os_pos = 0, os_script = [], os_strerror = (\<lambda>_. [])\<rparr>"

definition small_file :: "PosixWritableFile \<Rightarrow> nat \<Rightarrow> bool" where
  "small_file f n \<longleftrightarrow> os_script (pw_os f) = [] \<and> length (pw_contents f) = n"

lemma small_sample: "small_file sample_file 0" "pw_bounded sample_file" "pw_contents sample_file = []"
  by (simp_all add: sample_file_def new_PosixWritableFile_def small_file_def pw_contents_def pw_bounded_def)

lemma small_Append:
  assumes "small_file f n" "n + length data \<le> 60000"
  shows "\<exists>f'. wf_Append PosixWritableFile_ops data f = (Status_OK, f') \<and> small_file f' (n + length data)"
proof -
  have "min (length data) (kWritableFileBufferSize - length (pw_buf f)) = length data"
  proof -
    have "length (pw_buf f) \<le> n" using assms(1) by (auto simp: small_file_def pw_contents_def)
    then show ?thesis using assms(2) unfolding kWritableFileBufferSize_def by linarith
  qed
  then have "PosixWritableFile_Append data f = (Status_OK, f\<lparr>pw_buf := pw_buf f @ data\<rparr>)"
    by (simp add: PosixWritableFile_Append_def)
  then show ?thesis using assms(1) by (simp add: PosixWritableFile_ops_def small_file_def pw_contents_def)
qed

lemma small_Flush:
  assumes "small_file f n" "n \<le> 60000"
  shows "\<exists>f'. wf_Flush PosixWritableFile_ops f = (Status_OK, f') \<and> small_file f' n"
proof -
  have "length (os_data (pw_os f)) + length (pw_buf f) \<le> off_max"
    using assms by (simp add: small_file_def pw_contents_def off_max_def)
  note w = WriteUnbuffered_loop_end [OF this, of "pw_filename f"]
  have "FlushBuffer f = (Status_OK, f\<lparr>pw_os := (pw_os f)\<lparr>os_data := os_data (pw_os f) @ pw_buf f, os_script := []\<rparr>, pw_buf := []\<rparr>)"
    using assms(1) w by (simp add: FlushBuffer_def WriteUnbuffered_def small_file_def)
  then show ?thesis using assms(1)
    by (simp add: PosixWritableFile_ops_def PosixWritableFile_Flush_def small_file_def pw_contents_def)
qed

definition sample_options :: Options where "sample_options = (new_Options 0)\<lparr>opt_block_cache := Some 0\<rparr>"

lemma sample_options_simps:
  "opt_comparator sample_options = BytewiseComparator" "opt_block_restart_interval sample_options = 16"
  "opt_compression sample_options = kSnappyCompression" "opt_block_cache sample_options = Some 0"
  "opt_filter_policy sample_options = None" "opt_block_size sample_options = 4096"
  by (simp_all add: sample_options_def new_Options_def)

lemma sample_add:
  "\<exists>b. Option.bind (new_TableBuilder sample_options sample_file) (add_all PosixWritableFile_ops None [([1], [10]), ([2], [20])])
    = Some \<lparr>tb_options = sample_options, tb_index_block_options = sample_options\<lparr>opt_block_restart_interval := 1\<rparr>,
        tb_file = sample_file, tb_offset = 0, tb_status = Status_OK, tb_data_block = b, tb_index_block = \<lparr>bb_options = sample_options\<lparr>opt_block_restart_interval := 1\<rparr>,
          bb_buffer = [], bb_restarts = [0], bb_counter = 0, bb_finished = False, bb_last_key = []\<rparr>, tb_last_key = [2], tb_num_entries = 2,
        tb_closed = False, tb_filter_block = None, tb_pending_index_entry = False, tb_pending_handle = new_BlockHandle, tb_compressed_output = []\<rparr>
     \<and> length (bb_buffer b) = 10 \<and> bb_restarts b = [0]"
  by (simp add: new_TableBuilder_def new_BlockBuilder_def TableBuilder_Add_def Let_def sample_options_simps
    TableBuilder_ok_def TableBuilder_status_def Status_ok_OK BlockBuilder_Add_def PutVarint32_def EncodeVarint32_def CurrentSizeEstimate_def)

lemma small_WriteRawBlock:
  assumes "small_file (tb_file r) k" "k + length data + 5 \<le> 60000"
  shows "\<exists>f. WriteRawBlock PosixWritableFile_ops data kNoCompression r
    = (\<lparr>bh_offset = tb_offset r, bh_size = word_of_nat (length data)\<rparr>,
       r\<lparr>tb_file := f, tb_status := Status_OK, tb_offset := tb_offset r + word_of_nat (length data + 5)\<rparr>)
    \<and> small_file f (k + length data + 5)"
proof -
  let ?t = "CompressionType_value kNoCompression # EncodeFixed32 (crc_Mask (crc_Extend 0 (crc_Value 0 data) [CompressionType_value kNoCompression]))"
  obtain f1 where f1: "wf_Append PosixWritableFile_ops data (tb_file r) = (Status_OK, f1)" "small_file f1 (k + length data)"
    using small_Append [OF assms(1), of data] assms(2) by auto
  have "length ?t = 5" by simp
  then obtain f2 where f2: "wf_Append PosixWritableFile_ops ?t f1 = (Status_OK, f2)" "small_file f2 (k + length data + 5)"
    using small_Append [OF f1(2), of ?t] assms(2) by auto
  show ?thesis
    by (rule exI [of _ f2]) (use f1 f2 in \<open>simp add: WriteRawBlock_def Let_def Status_ok_OK kBlockTrailerSize_def\<close>)
qed

lemma small_WriteBlock:
  assumes "small_file (tb_file r) k" "k + n + 5 \<le> 60000" "tb_options r = sample_options" "tb_status r = Status_OK"
    and n: "n = length (bb_buffer b) + 4 * length (bb_restarts b) + 4"
  shows "\<exists>f. WriteBlock PosixWritableFile_ops None b r
    = Some (\<lparr>bh_offset = tb_offset r, bh_size = word_of_nat n\<rparr>, BlockBuilder_Reset (snd (BlockBuilder_Finish b)),
        r\<lparr>tb_file := f, tb_status := Status_OK, tb_offset := tb_offset r + word_of_nat (n + 5), tb_compressed_output := []\<rparr>)
    \<and> small_file f (k + n + 5)"
proof -
  obtain data b' where fin: "BlockBuilder_Finish b = (data, b')" by (cases "BlockBuilder_Finish b")
  have l: "length data = n"
    using arg_cong [OF fin, of "length \<circ> fst"] unfolding n
    by (simp add: BlockBuilder_Finish_def Let_def PutFixed32_def fold_append length_concat comp_def sum_list_triv)
  obtain f where f: "WriteRawBlock PosixWritableFile_ops data kNoCompression r
    = (\<lparr>bh_offset = tb_offset r, bh_size = word_of_nat n\<rparr>,
       r\<lparr>tb_file := f, tb_status := Status_OK, tb_offset := tb_offset r + word_of_nat (n + 5)\<rparr>)"
    "small_file f (k + n + 5)"
    using small_WriteRawBlock [of r k data] assms(1,2) unfolding l by blast
  show ?thesis
    by (intro exI [of _ f] conjI f(2))
      (simp add: WriteBlock_def TableBuilder_ok_def TableBuilder_status_def Status_ok_OK sample_options_simps choose_contents_def
        Snappy_Compress_def assms(3,4) fin f(1))
qed

text \<open>The parts of a builder on which its status depends.\<close>

definition sample_state :: "PosixWritableFile TableBuilder \<Rightarrow> nat \<Rightarrow> bool" where
  "sample_state r n \<longleftrightarrow> tb_options r = sample_options \<and> tb_status r = Status_OK \<and> tb_filter_block r = None
     \<and> small_file (tb_file r) n \<and> tb_offset r = word_of_nat n"

lemma sample_write:
  assumes "sample_state r n" "length (bb_buffer b) \<le> 1000" "bb_restarts b = [0]" "n \<le> 10000"
  shows "\<exists>f m off. WriteBlock PosixWritableFile_ops None b r
    = Some (\<lparr>bh_offset = word_of_nat n, bh_size = word_of_nat m\<rparr>, BlockBuilder_Reset (snd (BlockBuilder_Finish b)),
        r\<lparr>tb_file := f, tb_status := Status_OK, tb_offset := off, tb_compressed_output := []\<rparr>)
    \<and> small_file f (n + m + 5) \<and> m \<le> 1008 \<and> off = word_of_nat (n + m + 5)"
proof -
  let ?m = "length (bb_buffer b) + 4 * length (bb_restarts b) + 4"
  have r: "small_file (tb_file r) n" "tb_options r = sample_options" "tb_status r = Status_OK" "tb_offset r = word_of_nat n"
    using assms(1) by (simp_all add: sample_state_def)
  have "n + ?m + 5 \<le> 60000" using assms(2-4) by simp
  from small_WriteBlock [OF r(1) this r(2,3) refl] obtain f
    where f: "WriteBlock PosixWritableFile_ops None b r
    = Some (\<lparr>bh_offset = tb_offset r, bh_size = word_of_nat ?m\<rparr>, BlockBuilder_Reset (snd (BlockBuilder_Finish b)),
        r\<lparr>tb_file := f, tb_status := Status_OK, tb_offset := tb_offset r + word_of_nat (?m + 5), tb_compressed_output := []\<rparr>)"
    "small_file f (n + ?m + 5)" by blast
  have off: "tb_offset r + word_of_nat (?m + 5) = word_of_nat (n + ?m + 5)" unfolding r(4) by (simp add: add.assoc)
  show ?thesis
    by (rule exI [of _ f], rule exI [of _ ?m], rule exI [of _ "tb_offset r + word_of_nat (?m + 5)"])
      (use f off r assms(2,3) in simp)
qed

lemma small_handle:
  assumes "x < 2 ^ 32" "y < 2 ^ 32"
  shows "handle_ok \<lparr>bh_offset = word_of_nat x, bh_size = word_of_nat y\<rparr>"
proof -
  have "unat (word_of_nat x :: u64) < 2 ^ 32" "unat (word_of_nat y :: u64) < 2 ^ 32" using assms by (simp_all add: unat_of_nat_u64)
  moreover have "unat (- 1 :: u64) = 18446744073709551615" by (simp add: unsigned_minus_1_eq_mask mask_eq_exp_minus_1)
  ultimately show ?thesis by (auto simp: handle_ok_def)
qed

lemma sample_status:
  "\<exists>r. build_table PosixWritableFile_ops None sample_options [([1], [10]), ([2], [20])] sample_file = Some (Status_OK, r)
    \<and> (\<exists>n \<le> 10000. small_file (tb_file r) n)"
proof -
  let ?ops = "PosixWritableFile_ops"
  let ?ib = "\<lparr>bb_options = sample_options\<lparr>opt_block_restart_interval := 1\<rparr>,
          bb_buffer = [], bb_restarts = [0], bb_counter = 0, bb_finished = False, bb_last_key = []\<rparr>"
  obtain b r where add: "Option.bind (new_TableBuilder sample_options sample_file) (add_all ?ops None [([1], [10]), ([2], [20])]) = Some r"
    and r: "sample_state r 0" "tb_data_block r = b" "tb_index_block r = ?ib" "tb_last_key r = [2]" "\<not> tb_closed r" "\<not> tb_pending_index_entry r"
    and b: "length (bb_buffer b) = 10" "bb_restarts b = [0]"
  proof -
    from sample_add show ?thesis by (elim exE conjE) (rule that, assumption, simp_all add: sample_state_def small_sample)
  qed
  obtain f1 m1 off1 where w1: "WriteBlock ?ops None b r
    = Some (\<lparr>bh_offset = 0, bh_size = word_of_nat m1\<rparr>, BlockBuilder_Reset (snd (BlockBuilder_Finish b)),
        r\<lparr>tb_file := f1, tb_status := Status_OK, tb_offset := off1, tb_compressed_output := []\<rparr>)"
    "small_file f1 (m1 + 5)" "m1 \<le> 1008" "off1 = word_of_nat (m1 + 5)"
    using sample_write [OF r(1), of b] b by auto
  obtain f2 where fl2: "wf_Flush ?ops f1 = (Status_OK, f2)" "small_file f2 (m1 + 5)"
    using small_Flush [OF w1(2)] w1(3) by auto
  define r1 where "r1 = r\<lparr>tb_file := f2, tb_status := Status_OK, tb_offset := off1, tb_compressed_output := [],
      tb_pending_handle := \<lparr>bh_offset = 0, bh_size = word_of_nat m1\<rparr>,
      tb_data_block := BlockBuilder_Reset (snd (BlockBuilder_Finish b)), tb_pending_index_entry := True\<rparr>"
  have "bb_buffer b \<noteq> []" using b(1) by auto
  then have fl: "TableBuilder_Flush ?ops None r = Some r1"
    using r w1(1) by (simp add: TableBuilder_Flush_def BlockBuilder_empty_def TableBuilder_ok_def TableBuilder_status_def Status_ok_OK
        Let_def fl2(1) sample_state_def r1_def)
  define r2 where "r2 = r1\<lparr>tb_closed := True\<rparr>"
  have r2: "sample_state r2 (m1 + 5)" using r(1) w1(4) fl2(2) by (simp add: sample_state_def r2_def r1_def)
  have meta: "new_BlockBuilder sample_options = Some (\<lparr>bb_options = sample_options,
          bb_buffer = [], bb_restarts = [0], bb_counter = 0, bb_finished = False, bb_last_key = []\<rparr>)" (is "_ = Some ?mb")
    by (simp add: new_BlockBuilder_def sample_options_simps)
  obtain f3 m3 off3 where w3: "WriteBlock ?ops None ?mb r2
    = Some (\<lparr>bh_offset = word_of_nat (m1 + 5), bh_size = word_of_nat m3\<rparr>, BlockBuilder_Reset (snd (BlockBuilder_Finish ?mb)),
        r2\<lparr>tb_file := f3, tb_status := Status_OK, tb_offset := off3, tb_compressed_output := []\<rparr>)"
    "small_file f3 (m1 + 5 + m3 + 5)" "m3 \<le> 1008" "off3 = word_of_nat (m1 + 5 + m3 + 5)"
    using sample_write [OF r2, of ?mb] w1(3) by auto
  define r3 where "r3 = r2\<lparr>tb_file := f3, tb_status := Status_OK, tb_offset := off3, tb_compressed_output := []\<rparr>"
  have r3: "sample_state r3 (m1 + 5 + m3 + 5)" using r2 w3(2,4) by (simp add: sample_state_def r3_def)
  have st: "tb_status r2 = Status_OK" "tb_filter_block r2 = None" "tb_options r2 = sample_options" "tb_status r3 = Status_OK"
    "tb_options r3 = sample_options"
    using r2 r3 by (simp_all add: sample_state_def)
  have fm: "finish_metaindex ?ops None new_BlockHandle r2 = Some (\<lparr>bh_offset = word_of_nat (m1 + 5), bh_size = word_of_nat m3\<rparr>, r3)"
    using w3(1) by (simp add: finish_metaindex_def TableBuilder_ok_def TableBuilder_status_def st Status_ok_OK meta r3_def)
  define h where "h = handle_bytes \<lparr>bh_offset = 0, bh_size = word_of_nat m1\<rparr>"
  have "\<exists>ib. BlockBuilder_Add (FindShortSuccessor BytewiseComparator [2]) h ?ib = Some ib \<and> length (bb_buffer ib) \<le> 1000 \<and> bb_restarts ib = [0]"
  proof -
    have "FindShortSuccessor BytewiseComparator [2] = [3]" by (simp add: BytewiseComparator_def Bytewise_FindShortSuccessor_def Bytewise_FindShortSuccessor_loop.simps [of "[2]" 0])
    moreover have "length h \<le> 20" using length_handle_bytes by (simp add: h_def kMaxEncodedLength_def)
    moreover have "length (EncodeVarint32 (word_of_nat (length h))) \<le> 5" by (rule EncodeVarint32_max)
    ultimately show ?thesis by (simp add: BlockBuilder_Add_def Let_def PutVarint32_def EncodeVarint32_def)
  qed
  then obtain ib where ib: "BlockBuilder_Add (FindShortSuccessor BytewiseComparator [2]) h ?ib = Some ib" "length (bb_buffer ib) \<le> 1000"
    "bb_restarts ib = [0]" by blast
  define r4 where "r4 = r3\<lparr>tb_last_key := FindShortSuccessor BytewiseComparator [2], tb_index_block := ib, tb_pending_index_entry := False\<rparr>"
  have "BlockHandle_EncodeTo \<lparr>bh_offset = 0, bh_size = word_of_nat m1\<rparr> [] = Some h"
    using BlockHandle_EncodeTo_ok [OF small_handle [of 0 m1], of "[]"] w1(3) by (simp add: h_def)
  then have ae: "add_index_entry (FindShortSuccessor BytewiseComparator [2]) r3 = Some r4"
    using ib(1) r(3) by (simp add: add_index_entry_def r3_def r2_def r1_def r4_def)
  have r4: "sample_state r4 (m1 + 5 + m3 + 5)" using r3 by (simp add: sample_state_def r4_def)
  obtain f5 m5 off5 where w5: "WriteBlock ?ops None ib r4
    = Some (\<lparr>bh_offset = word_of_nat (m1 + 5 + m3 + 5), bh_size = word_of_nat m5\<rparr>, BlockBuilder_Reset (snd (BlockBuilder_Finish ib)),
        r4\<lparr>tb_file := f5, tb_status := Status_OK, tb_offset := off5, tb_compressed_output := []\<rparr>)"
    "small_file f5 (m1 + 5 + m3 + 5 + m5 + 5)" "m5 \<le> 1008"
    using sample_write [OF r4 ib(2,3)] w1(3) w3(3) by auto
  define r5 where "r5 = r4\<lparr>tb_file := f5, tb_status := Status_OK, tb_offset := off5, tb_compressed_output := [],
      tb_index_block := BlockBuilder_Reset (snd (BlockBuilder_Finish ib))\<rparr>"
  have ix4: "tb_index_block r4 = ib" by (simp add: r4_def)
  have p3: "tb_pending_index_entry r3" "tb_last_key r3 = [2]" using r(4) by (simp_all add: r3_def r2_def r1_def)
  have fi: "finish_index ?ops None r3 = Some (\<lparr>bh_offset = word_of_nat (m1 + 5 + m3 + 5), bh_size = word_of_nat m5\<rparr>, r5)"
    using w5(1) ae p3 ix4
    by (simp add: finish_index_def TableBuilder_ok_def TableBuilder_status_def st Status_ok_OK sample_options_simps r5_def)
  have ft: "Footer_EncodeTo \<lparr>ft_metaindex_handle = \<lparr>bh_offset = word_of_nat (m1 + 5), bh_size = word_of_nat m3\<rparr>,
      ft_index_handle = \<lparr>bh_offset = word_of_nat (m1 + 5 + m3 + 5), bh_size = word_of_nat m5\<rparr>\<rparr> []
    = Some (footer_bytes \<lparr>ft_metaindex_handle = \<lparr>bh_offset = word_of_nat (m1 + 5), bh_size = word_of_nat m3\<rparr>,
      ft_index_handle = \<lparr>bh_offset = word_of_nat (m1 + 5 + m3 + 5), bh_size = word_of_nat m5\<rparr>\<rparr>)" (is "_ = Some ?ft")
    by (intro Footer_EncodeTo_ok; unfold Footer.select_convs; intro small_handle) (use w1(3) w3(3) w5(3) in simp_all)
  obtain f6 where f6: "wf_Append ?ops ?ft f5 = (Status_OK, f6)" "small_file f6 (m1 + 5 + m3 + 5 + m5 + 5 + 48)"
    using small_Append [OF w5(2), of ?ft] w5(3) w1(3) w3(3) by (auto simp: length_footer_bytes)
  have "\<exists>r6. finish_footer ?ops \<lparr>bh_offset = word_of_nat (m1 + 5), bh_size = word_of_nat m3\<rparr>
      \<lparr>bh_offset = word_of_nat (m1 + 5 + m3 + 5), bh_size = word_of_nat m5\<rparr> r5 = Some r6 \<and> tb_status r6 = Status_OK \<and> tb_file r6 = f6"
    unfolding finish_footer_def ft using f6(1) by (simp add: r5_def TableBuilder_ok_def TableBuilder_status_def Status_ok_OK Let_def)
  then obtain r6 where r6: "finish_footer ?ops \<lparr>bh_offset = word_of_nat (m1 + 5), bh_size = word_of_nat m3\<rparr>
      \<lparr>bh_offset = word_of_nat (m1 + 5 + m3 + 5), bh_size = word_of_nat m5\<rparr> r5 = Some r6" "tb_status r6 = Status_OK" "tb_file r6 = f6" by blast
  have "finish_filter ?ops r2 = (new_BlockHandle, r2)" by (simp add: finish_filter_def st(2))
  moreover have "\<not> tb_closed r1" using r(5) by (simp add: r1_def)
  ultimately have "TableBuilder_Finish ?ops None r = Some (Status_OK, r6)"
    unfolding TableBuilder_Finish_def fl Option.bind.simps r2_def [symmetric] using fm fi r6 by simp
  moreover have "\<exists>n \<le> 10000. small_file (tb_file r6) n" using f6(2) r6(3) w5(3) w1(3) w3(3)
    by (intro exI [of _ "m1 + 5 + m3 + 5 + m5 + 5 + 48"]) simp
  ultimately show ?thesis using add by (auto simp: build_table_def bind_eq_Some_conv)
qed

definition sample_env :: "(PosixRandomAccessFile, CacheHandle, (Block, BlockDeleter) ShardedLRUCache) TableEnv" where
  "sample_env = \<lparr>te_lib = None, te_file = PosixRandomAccessFile_ops, te_in_buf = True, te_cache = ShardedLRUCache_ops\<rparr>"

definition sample_cache :: "(Block, BlockDeleter) ShardedLRUCache" where
  "sample_cache = the (NewLRUCache 100)"

definition sample_input :: "bytes \<Rightarrow> PosixRandomAccessFile" where
  "sample_input data = \<lparr>ra_has_permanent_fd = True,
     ra_os = \<lparr>os_data = data, os_pos = 0, os_script = [], os_strerror = (\<lambda>_. [])\<rparr>, ra_filename = lit ''000005.ldb''\<rparr>"

lemma sample_reader:
  "reliable_random_access_file (te_file sample_env) (\<lambda>f. os_data (ra_os f)) ra_reliable"
  using posix_random_reliable.reliable_random_access_file_axioms by (simp add: sample_env_def)

lemma sample_block_cache: "block_cache (te_cache sample_env) sharded_ok"
  using sharded.block_cache_axioms by (simp add: sample_env_def)

lemma sample_ready: "cache_ready sharded_ok sample_env sample_options sample_cache (\<lambda>_ _. False) {#}"
proof -
  obtain c :: "(Block, BlockDeleter) ShardedLRUCache" where "NewLRUCache 100 = Some c" "sharded_ok c (\<lambda>_ _. False) {#}"
    using NewLRUCache_ok [of 100 "\<lambda>_ _. False"] by auto
  then show ?thesis by (simp add: cache_ready_def sample_cache_def)
qed

lemma sample_entries:
  "sorted_entries BytewiseComparator [([1], [10]), ([2], [20])]" "\<forall>e \<in> set [([1], [10]), ([2], [20])]. True"
  by (simp_all add: sorted_entries_def)

lemmas sample_premises = bytewise.comparator_axioms posix_table.table_file_axioms sample_reader sample_block_cache
  sample_options_simps(1)

lemma sample_layout: "1 \<le> opt_block_restart_interval sample_options"
  "opt_compression sample_options = kNoCompression \<or> None = None"
  by (simp_all add: sample_options_simps)

text \<open>What the sample gives the properties.\<close>

lemma sample_built:
  assumes "build_table PosixWritableFile_ops None sample_options [([1], [10]), ([2], [20])] sample_file = Some (tb_status r, r)"
  shows "tb_status r = Status_OK" "length (pw_contents (tb_file r)) < 2 ^ 32"
    "os_data (ra_os (sample_input (pw_contents (tb_file r)))) = pw_contents (tb_file r)"
    "ra_reliable (sample_input (pw_contents (tb_file r)))"
  using assms sample_status by (auto simp: small_file_def sample_input_def ra_reliable_def off_max_def)

theorem table_roundtrip_witness:
  "\<exists>r. build_table PosixWritableFile_ops None sample_options [([1], [10]), ([2], [20])] sample_file = Some (Status_OK, r)
    \<and> (\<exists>rep f' cache i i'. Table_Open sample_env sample_options (TableBuilder_FileSize r) (sample_input (pw_contents (tb_file r))) sample_cache
          = Some (Status_OK, Some rep, f', cache)
        \<and> Table_NewIterator new_ReadOptions \<lparr>tab_rep = rep, tab_file = f', tab_cache = cache\<rparr> = Some i
        \<and> make_moves (TableIterator_ops sample_env) [To_target [2], Backward] i = Some i'
        \<and> it_key (TableIterator_ops sample_env) i' = Some [1] \<and> it_value (TableIterator_ops sample_env) i' = Some [10])"
proof -
  let ?es = "[([1], [10]), ([2], [20])] :: entries"
  let ?P = "\<lambda>r f cache. \<exists>rep f' cache' i. Table_Open sample_env sample_options (TableBuilder_FileSize r) f cache = Some (Status_OK, Some rep, f', cache')
        \<and> Table_NewIterator new_ReadOptions \<lparr>tab_rep = rep, tab_file = f', tab_cache = cache'\<rparr> = Some i
        \<and> (\<forall>mvs n. targets_ok (\<lambda>_. True) mvs \<longrightarrow> moves_position BytewiseComparator ?es mvs (length ?es) = Some n \<longrightarrow>
             (\<exists>i'. make_moves (TableIterator_ops sample_env) mvs i = Some i' \<and> shows_entry (TableIterator_ops sample_env) ?es n i'))"
  obtain r where r: "build_table PosixWritableFile_ops None sample_options ?es sample_file = Some (tb_status r, r)"
    and imp: "Status_ok (tb_status r) \<longrightarrow> length (pw_contents (tb_file r)) < 2 ^ 32 \<longrightarrow>
      (\<forall>f cache Q hs. os_data (ra_os f) = pw_contents (tb_file r) \<longrightarrow> ra_reliable f \<longrightarrow>
         cache_ready sharded_ok sample_env sample_options cache Q hs \<longrightarrow> ?P r f cache)"
    using table_roundtrip [OF sample_premises sample_layout small_sample(3,2) sample_entries, of new_ReadOptions] by blast
  note b = sample_built [OF r]
  have "?P r (sample_input (pw_contents (tb_file r))) sample_cache"
    by (rule imp [rule_format, OF _ b(2-4) sample_ready]) (simp add: b(1) Status_ok_OK)
  then obtain rep f' cache' i where i: "Table_Open sample_env sample_options (TableBuilder_FileSize r)
      (sample_input (pw_contents (tb_file r))) sample_cache = Some (Status_OK, Some rep, f', cache')"
    "Table_NewIterator new_ReadOptions \<lparr>tab_rep = rep, tab_file = f', tab_cache = cache'\<rparr> = Some i"
    "\<forall>mvs n. targets_ok (\<lambda>_. True) mvs \<longrightarrow> moves_position BytewiseComparator ?es mvs (length ?es) = Some n \<longrightarrow>
             (\<exists>i'. make_moves (TableIterator_ops sample_env) mvs i = Some i' \<and> shows_entry (TableIterator_ops sample_env) ?es n i')" by blast
  have "moves_position BytewiseComparator ?es [To_target [2], Backward] (length ?es) = Some 0" by (simp add: position_def)
  moreover have "targets_ok (\<lambda>_. True) [To_target [2], Backward]" by (simp add: targets_ok_def)
  ultimately obtain i' where m: "make_moves (TableIterator_ops sample_env) [To_target [2], Backward] i = Some i'"
    "shows_entry (TableIterator_ops sample_env) ?es 0 i'" using i(3) by blast
  have "it_key (TableIterator_ops sample_env) i' = Some [1]" "it_value (TableIterator_ops sample_env) i' = Some [10]"
    using m(2) by (simp_all add: shows_entry_def)
  with r [unfolded b(1)] i(1,2) m(1) show ?thesis by blast
qed

theorem table_get_witness:
  "\<exists>r. build_table PosixWritableFile_ops None sample_options [([1], [10]), ([2], [20])] sample_file = Some (Status_OK, r)
    \<and> (\<exists>rep f' cache answers t. Table_Open sample_env sample_options (TableBuilder_FileSize r) (sample_input (pw_contents (tb_file r))) sample_cache
          = Some (Status_OK, Some rep, f', cache)
        \<and> run_gets sample_env new_ReadOptions (\<lambda>k v found. Some (found @ [v])) [] [[2], [1]]
            \<lparr>tab_rep = rep, tab_file = f', tab_cache = cache\<rparr> = Some (answers, t)
        \<and> map snd answers = [[[20]], [[10]]])"
proof -
  let ?es = "[([1], [10]), ([2], [20])] :: entries" and ?hr = "\<lambda>(k :: Slice) v found. Some (found @ [v])"
  let ?A = "\<lambda>k (s, result). Status_ok s \<and> (\<forall>v. (k, v) \<in> set ?es \<longrightarrow> ?hr k v [] = Some result)
       \<and> (result = [] \<or> (\<exists>x v rest. dropWhile (\<lambda>e. Compare BytewiseComparator (fst e) k < 0) ?es = (x, v) # rest \<and> ?hr x v [] = Some result))"
  let ?P = "\<lambda>r f cache. \<exists>rep f' cache' answers t. Table_Open sample_env sample_options (TableBuilder_FileSize r) f cache = Some (Status_OK, Some rep, f', cache')
        \<and> run_gets sample_env new_ReadOptions ?hr [] [[2], [1]] \<lparr>tab_rep = rep, tab_file = f', tab_cache = cache'\<rparr> = Some (answers, t)
        \<and> list_all2 ?A [[2], [1]] answers"
  have f: "\<forall>p. opt_filter_policy sample_options = Some p \<longrightarrow> filter_policy p" by (simp add: sample_options_simps)
  have h: "?hr a b c \<noteq> None" for a b and c :: "Slice list" by simp
  obtain r where r: "build_table PosixWritableFile_ops None sample_options ?es sample_file = Some (tb_status r, r)"
    and imp: "Status_ok (tb_status r) \<longrightarrow> length (pw_contents (tb_file r)) < 2 ^ 32 \<longrightarrow>
      (\<forall>f cache Q hs. os_data (ra_os f) = pw_contents (tb_file r) \<longrightarrow> ra_reliable f \<longrightarrow>
         cache_ready sharded_ok sample_env sample_options cache Q hs \<longrightarrow> ?P r f cache)"
    using table_get [where handle_result = ?hr and arg = "[]" and targets = "[[2], [1]]" and ro = new_ReadOptions,
        OF sample_premises sample_layout small_sample(3,2) sample_entries f _ h] by auto
  note b = sample_built [OF r]
  have "?P r (sample_input (pw_contents (tb_file r))) sample_cache"
    by (rule imp [rule_format, OF _ b(2-4) sample_ready]) (simp add: b(1) Status_ok_OK)
  then obtain rep f' cache' answers t where g: "Table_Open sample_env sample_options (TableBuilder_FileSize r)
      (sample_input (pw_contents (tb_file r))) sample_cache = Some (Status_OK, Some rep, f', cache')"
    "run_gets sample_env new_ReadOptions ?hr [] [[2], [1]] \<lparr>tab_rep = rep, tab_file = f', tab_cache = cache'\<rparr> = Some (answers, t)"
    "list_all2 ?A [[2], [1]] answers"
    by blast
  have a: "map snd answers = [[[20]], [[10]]]" using g(3) by (auto simp: list_all2_Cons1)
  show ?thesis
    by (rule exI [of _ r], rule conjI [OF r [unfolded b(1)]], rule exI [of _ rep], rule exI [of _ f'], rule exI [of _ cache'],
        rule exI [of _ answers], rule exI [of _ t], intro conjI g(1,2) a)
qed

end
