(* ===== verification/Base64.thy ===== *)
theory Base64
  imports Prelude
begin

text \<open>
  The base64 encoder \<open>f_b64_ntop\<close> and decoder \<open>f_b64_pton\<close> of the web socket client
  (\<open>third_party/SocketRocket/fbase64.c\<close>). The target is a buffer that is updated in place, so a
  call that fails leaves behind what it has written. A C string is the list of its characters up to
  the terminating zero.
\<close>

definition Base64_alphabet :: bytes where
  "Base64_alphabet = lit ''ABCDEFGHIJKLMNOPQRSTUVWXYZabcdefghijklmnopqrstuvwxyz0123456789+/''"

definition Pad64 :: byte where "Pad64 = 61"

text \<open>\<open>isspace\<close> of the C locale, and \<open>strchr\<close> as the index of the character.\<close>

definition isspace :: "byte \<Rightarrow> bool" where
  "isspace ch \<longleftrightarrow> ch = 32 \<or> 9 \<le> ch \<and> ch \<le> 13"

definition strchr :: "bytes \<Rightarrow> byte \<Rightarrow> byte option" where
  "strchr s ch = (if ch \<in> set s then Some (word_of_nat (length (takeWhile (\<lambda>x. x \<noteq> ch) s))) else None)"

text \<open>The conversion of an unsigned count to the \<open>int\<close> that is returned.\<close>

definition to_int :: "nat \<Rightarrow> int" where
  "to_int n = sint (word_of_nat n :: u32)"

subsection \<open>Encoding\<close>

text \<open>The loop over groups of three bytes: \<open>Inl\<close> is the early return of -1 with the target so far,
  \<open>Inr\<close> the rest of the source, the data length and the target.\<close>

fun ntop_loop :: "bytes \<Rightarrow> nat \<Rightarrow> bytes \<Rightarrow> nat \<Rightarrow> bytes + bytes \<times> bytes \<times> nat" where
  "ntop_loop (i0 # i1 # i2 # src) datalength target targsize =
     (let o0 = drop_bit 2 i0;
          o1 = push_bit 4 (i0 AND 0x03) + drop_bit 4 i1;
          o2 = push_bit 2 (i1 AND 0x0f) + drop_bit 6 i2;
          o3 = i2 AND 0x3f
      in if datalength + 4 > targsize then Inl target
         else ntop_loop src (datalength + 4)
           (target[datalength := Base64_alphabet ! unat o0,
                   datalength + 1 := Base64_alphabet ! unat o1,
                   datalength + 2 := Base64_alphabet ! unat o2,
                   datalength + 3 := Base64_alphabet ! unat o3]) targsize)"
| "ntop_loop src datalength target targsize = Inr (src, target, datalength)"

definition ntop_padding :: "bytes \<Rightarrow> nat \<Rightarrow> bytes \<Rightarrow> nat \<Rightarrow> bytes + bytes \<times> nat" where
  "ntop_padding src datalength target targsize =
     (if length src \<noteq> 0 then
        let i0 = src ! 0;
            i1 = (if length src = 1 then 0 else src ! 1);
            i2 = 0;
            o0 = drop_bit 2 i0;
            o1 = push_bit 4 (i0 AND 0x03) + drop_bit 4 i1;
            o2 = push_bit 2 (i1 AND 0x0f) + drop_bit 6 i2
        in if datalength + 4 > targsize then Inl target
           else Inr (target[datalength := Base64_alphabet ! unat o0,
                            datalength + 1 := Base64_alphabet ! unat o1,
                            datalength + 2 := (if length src = 1 then Pad64 else Base64_alphabet ! unat o2),
                            datalength + 3 := Pad64], datalength + 4)
      else Inr (target, datalength))"

definition f_b64_ntop :: "bytes \<Rightarrow> bytes \<Rightarrow> nat \<Rightarrow> int \<times> bytes" where
  "f_b64_ntop src target targsize =
     (case ntop_loop src 0 target targsize of
        Inl target \<Rightarrow> (-1, target)
      | Inr (src, target, datalength) \<Rightarrow>
          (case ntop_padding src datalength target targsize of
             Inl target \<Rightarrow> (-1, target)
           | Inr (target, datalength) \<Rightarrow>
               if datalength \<ge> targsize then (-1, target)
               else (to_int datalength, target[datalength := 0])))"

subsection \<open>Decoding\<close>

text \<open>The \<open>switch\<close> over the state, for a digit of the given value; \<open>None\<close> is the return of -1. No
  target, a null pointer, is \<open>None\<close>: then nothing is written and the bytes are only counted.\<close>

definition pton_digit :: "nat \<Rightarrow> byte \<Rightarrow> u32 \<Rightarrow> bytes option \<Rightarrow> nat \<Rightarrow> (nat \<times> u32 \<times> bytes option) option" where
  "pton_digit state pos tarindex target targsize =
     (if state = 0 then
        (case target of
           None \<Rightarrow> Some (1, tarindex, None)
         | Some a \<Rightarrow>
             if unat tarindex \<ge> targsize then None
             else Some (1, tarindex, Some (a[unat tarindex := push_bit 2 pos])))
      else if state = 1 then
        (case target of
           None \<Rightarrow> Some (2, tarindex + 1, None)
         | Some a \<Rightarrow>
             if unat (tarindex + 1) \<ge> targsize then None
             else Some (2, tarindex + 1,
               Some (a[unat tarindex := a ! unat tarindex OR drop_bit 4 pos,
                       unat (tarindex + 1) := push_bit 4 (pos AND 0x0f)])))
      else if state = 2 then
        (case target of
           None \<Rightarrow> Some (3, tarindex + 1, None)
         | Some a \<Rightarrow>
             if unat (tarindex + 1) \<ge> targsize then None
             else Some (3, tarindex + 1,
               Some (a[unat tarindex := a ! unat tarindex OR drop_bit 2 pos,
                       unat (tarindex + 1) := push_bit 6 (pos AND 0x03)])))
      else
        (case target of
           None \<Rightarrow> Some (0, tarindex + 1, None)
         | Some a \<Rightarrow>
             if unat tarindex \<ge> targsize then None
             else Some (0, tarindex + 1, Some (a[unat tarindex := a ! unat tarindex OR pos]))))"

text \<open>The first loop: \<open>Inl\<close> is the return of -1, \<open>Inr\<close> the state, the index, the target and the
  string from the character \<open>ch\<close> on that ended the loop, a pad character or the end.\<close>

fun pton_loop :: "bytes \<Rightarrow> nat \<Rightarrow> u32 \<Rightarrow> bytes option \<Rightarrow> nat
    \<Rightarrow> bytes option + nat \<times> u32 \<times> bytes option \<times> bytes" where
  "pton_loop [] state tarindex target targsize = Inr (state, tarindex, target, [])"
| "pton_loop (ch # src) state tarindex target targsize =
     (if isspace ch then pton_loop src state tarindex target targsize
      else if ch = Pad64 then Inr (state, tarindex, target, ch # src)
      else (case strchr Base64_alphabet ch of
              None \<Rightarrow> Inl target
            | Some pos \<Rightarrow>
                (case pton_digit state pos tarindex target targsize of
                   None \<Rightarrow> Inl target
                 | Some (state, tarindex, target) \<Rightarrow> pton_loop src state tarindex target targsize)))"

text \<open>The code for a single trailing pad, entered with the string from \<open>ch\<close> on.\<close>

definition pton_single_pad :: "bytes \<Rightarrow> u32 \<Rightarrow> bytes option \<Rightarrow> int" where
  "pton_single_pad src tarindex target =
     (if list_ex (\<lambda>ch. \<not> isspace ch) src then -1
      else case target of
             Some a \<Rightarrow> if a ! unat tarindex \<noteq> 0 then -1 else to_int (unat tarindex)
           | None \<Rightarrow> to_int (unat tarindex))"

definition pton_end :: "nat \<Rightarrow> u32 \<Rightarrow> bytes option \<Rightarrow> bytes \<Rightarrow> int" where
  "pton_end state tarindex target src =
     (if src \<noteq> [] \<and> hd src = Pad64 then
        let src = tl src
        in if state = 0 \<or> state = 1 then -1
           else if state = 2 then
             (case dropWhile isspace src of
                [] \<Rightarrow> -1
              | ch # src \<Rightarrow> if ch \<noteq> Pad64 then -1 else pton_single_pad src tarindex target)
           else pton_single_pad src tarindex target
      else if state \<noteq> 0 then -1 else to_int (unat tarindex))"

definition f_b64_pton :: "bytes \<Rightarrow> bytes option \<Rightarrow> nat \<Rightarrow> int \<times> bytes option" where
  "f_b64_pton src target targsize =
     (case pton_loop (takeWhile (\<lambda>ch. ch \<noteq> 0) src) 0 0 target targsize of
        Inl target \<Rightarrow> (-1, target)
      | Inr (state, tarindex, target, src) \<Rightarrow> (pton_end state tarindex target src, target))"

subsection \<open>The alphabet\<close>

abbreviation digit64 :: "byte \<Rightarrow> byte" where
  "digit64 v \<equiv> Base64_alphabet ! unat v"

lemma length_Base64_alphabet [simp]: "length Base64_alphabet = 64"
  by (simp add: Base64_alphabet_def)

lemma alphabet_numerals:
  "Base64_alphabet =
    [65, 66, 67, 68, 69, 70, 71, 72, 73, 74, 75, 76, 77, 78, 79, 80, 81, 82, 83, 84, 85, 86,
     87, 88, 89, 90, 97, 98, 99, 100, 101, 102, 103, 104, 105, 106, 107, 108, 109, 110, 111,
     112, 113, 114, 115, 116, 117, 118, 119, 120, 121, 122, 48, 49, 50, 51, 52, 53, 54, 55,
     56, 57, 43, 47]"
  by (simp add: Base64_alphabet_def)

lemma alphabet_distinct: "distinct Base64_alphabet"
proof -
  have "distinct (map unat Base64_alphabet)"
    by (simp add: alphabet_numerals)
  then show ?thesis by (simp add: distinct_map)
qed

lemma alphabet_chars: "list_all (\<lambda>ch. \<not> isspace ch \<and> ch \<noteq> Pad64 \<and> ch \<noteq> 0) Base64_alphabet"
  by (simp add: alphabet_numerals isspace_def Pad64_def)

lemma takeWhile_distinct: "distinct xs \<Longrightarrow> n < length xs \<Longrightarrow> takeWhile (\<lambda>x. x \<noteq> xs ! n) xs = take n xs"
  by (rule takeWhile_eq_take_P_nth) (auto simp: nth_eq_iff_index_eq)

lemma digit64_facts:
  assumes "v < 64"
  shows "\<not> isspace (digit64 v)" "digit64 v \<noteq> Pad64" "digit64 v \<noteq> 0"
    "strchr Base64_alphabet (digit64 v) = Some v"
proof -
  have v: "unat v < length Base64_alphabet" using assms by (simp add: word_less_nat_alt)
  then show "\<not> isspace (digit64 v)" "digit64 v \<noteq> Pad64" "digit64 v \<noteq> 0"
    using alphabet_chars unfolding list_all_length by blast+
  have "takeWhile (\<lambda>x. x \<noteq> digit64 v) Base64_alphabet = take (unat v) Base64_alphabet"
    by (rule takeWhile_distinct [OF alphabet_distinct v])
  moreover have "digit64 v \<in> set Base64_alphabet" using v by (rule nth_mem)
  moreover have "length (take (unat v) Base64_alphabet) = unat v" using v by simp
  ultimately show "strchr Base64_alphabet (digit64 v) = Some v"
    by (simp only: strchr_def if_True word_of_nat_unat)
qed

lemma strchr_Some:
  assumes "strchr Base64_alphabet ch = Some v"
  shows "v < 64 \<and> digit64 v = ch"
proof -
  let ?n = "length (takeWhile (\<lambda>x. x \<noteq> ch) Base64_alphabet)"
  have m: "ch \<in> set Base64_alphabet" and v: "v = word_of_nat ?n"
    using assms by (auto simp: strchr_def split: if_splits)
  have n: "?n < length Base64_alphabet"
    using m takeWhile_eq_all_conv [of "\<lambda>x. x \<noteq> ch" Base64_alphabet]
      length_takeWhile_le [of "\<lambda>x. x \<noteq> ch" Base64_alphabet]
    by (metis le_neq_implies_less takeWhile_eq_take take_all_iff)
  have "Base64_alphabet ! ?n = ch"
    using nth_length_takeWhile [OF n] by simp
  moreover have "unat v = ?n"
    unfolding v using n by (simp add: unat_of_nat take_bit_nat_eq_self)
  ultimately show ?thesis
    using n by (simp only: word_less_nat_alt) simp
qed

lemma isspace_Pad64 [simp]: "\<not> isspace Pad64" by (simp add: isspace_def Pad64_def)

text \<open>The four digits of a group, and the bytes they stand for.\<close>

lemma below_64_iff: "v < 64 \<longleftrightarrow> \<not> bit v 6 \<and> \<not> bit v 7" for v :: byte
proof -
  have "take_bit 6 v = v \<longleftrightarrow> unat (take_bit 6 v) = unat v" by (simp add: word_eq_nat_iff)
  then have "v < 64 \<longleftrightarrow> take_bit 6 v = v"
    by (simp add: unsigned_take_bit_eq take_bit_nat_eq_self_iff word_less_nat_alt)
  also have "\<dots> \<longleftrightarrow> (\<forall>n < 8. 6 \<le> n \<longrightarrow> \<not> bit v n)"
    by (auto simp: bit_eq_iff [where 'a = "8 word"] bit_take_bit_iff not_less dest: bit_imp_le_length)
  also have "\<dots> \<longleftrightarrow> \<not> bit v 6 \<and> \<not> bit v 7"
    by (auto simp: numeral_eq_Suc less_Suc_eq)
  finally show ?thesis .
qed

lemma bit_int_3: "bit (3 :: int) n \<longleftrightarrow> n < 2"
proof -
  have "(3 :: int) = mask 2" by (simp add: mask_eq_exp_minus_1)
  then show ?thesis by (simp only: bit_mask_iff) simp
qed

lemma group_digits:
  fixes a b c :: byte
  shows "push_bit 4 (a AND 3) + drop_bit 4 b = push_bit 4 (a AND 3) OR drop_bit 4 b"
    "push_bit 2 (b AND 15) + drop_bit 6 c = push_bit 2 (b AND 15) OR drop_bit 6 c"
  by (rule disjunctive_add, auto simp: bit_simps dest: bit_imp_le_length)+

lemma group_below:
  fixes a b c :: byte
  shows "drop_bit 2 a < 64" "push_bit 4 (a AND 3) OR drop_bit 4 b < 64"
    "push_bit 2 (b AND 15) OR drop_bit 6 c < 64" "c AND 63 < 64"
  unfolding below_64_iff by (auto simp: bit_simps dest: bit_imp_le_length)

lemma byte_eqI: "(\<And>n. n \<in> {0, 1, 2, 3, 4, 5, 6, 7} \<Longrightarrow> bit v n = bit w n) \<Longrightarrow> v = w" for v w :: byte
proof (rule bit_word_eqI)
  fix n assume e: "\<And>n. n \<in> {0, 1, 2, 3, 4, 5, 6, 7} \<Longrightarrow> bit v n = bit w n" and "n < LENGTH(8)"
  from \<open>n < LENGTH(8)\<close> have "n < 8" by simp
  then have "n = 0 \<or> n = 1 \<or> n = 2 \<or> n = 3 \<or> n = 4 \<or> n = 5 \<or> n = 6 \<or> n = 7" by presburger
  then have "n \<in> {0, 1, 2, 3, 4, 5, 6, 7}" by simp
  then show "bit v n = bit w n" by (rule e)
qed

definition bytes_of :: "byte \<Rightarrow> byte \<Rightarrow> byte \<Rightarrow> byte \<Rightarrow> bytes" where
  "bytes_of v w x y = [push_bit 2 v OR drop_bit 4 w, push_bit 4 (w AND 15) OR drop_bit 2 x,
     push_bit 6 (x AND 3) OR y]"

lemma bytes_of_digits:
  fixes a b c :: byte
  shows "push_bit 2 (drop_bit 2 a) OR drop_bit 4 (push_bit 4 (a AND 3) OR drop_bit 4 b) = a"
    "push_bit 4 ((push_bit 4 (a AND 3) OR drop_bit 4 b) AND 15) OR drop_bit 2 (push_bit 2 (b AND 15) OR drop_bit 6 c) = b"
    "push_bit 6 ((push_bit 2 (b AND 15) OR drop_bit 6 c) AND 3) OR (c AND 63) = c"
  by (rule byte_eqI; auto simp: bit_simps numeral_2_eq_2 [symmetric])+

lemma digits_of_bytes:
  fixes v w x y :: byte
  assumes "v < 64" "w < 64" "x < 64" "y < 64"
  shows "drop_bit 2 (push_bit 2 v OR drop_bit 4 w) = v"
    "push_bit 4 ((push_bit 2 v OR drop_bit 4 w) AND 3) OR drop_bit 4 (push_bit 4 (w AND 15) OR drop_bit 2 x) = w"
    "push_bit 2 ((push_bit 4 (w AND 15) OR drop_bit 2 x) AND 15) OR drop_bit 6 (push_bit 6 (x AND 3) OR y) = x"
    "(push_bit 6 (x AND 3) OR y) AND 63 = y"
  using assms unfolding below_64_iff
  by - (rule byte_eqI; auto simp: bit_simps numeral_2_eq_2 [symmetric] dest: bit_imp_le_length)+

subsection \<open>The encoder\<close>

text \<open>What the encoder writes, as a list.\<close>

fun encode :: "bytes \<Rightarrow> bytes" where
  "encode (a # b # c # src) =
     digit64 (drop_bit 2 a) # digit64 (push_bit 4 (a AND 3) OR drop_bit 4 b)
     # digit64 (push_bit 2 (b AND 15) OR drop_bit 6 c) # digit64 (c AND 63) # encode src"
| "encode [a, b] =
     [digit64 (drop_bit 2 a), digit64 (push_bit 4 (a AND 3) OR drop_bit 4 b),
      digit64 (push_bit 2 (b AND 15)), Pad64]"
| "encode [a] = [digit64 (drop_bit 2 a), digit64 (push_bit 4 (a AND 3)), Pad64, Pad64]"
| "encode [] = []"

lemma length_encode [layout]: "length (encode src) = 4 * ((length src + 2) div 3)"
  by (induction src rule: encode.induct) (simp_all, arith?)

lemma update_group:
  "d + 4 \<le> length t \<Longrightarrow> t[d := w, d + 1 := x, d + 2 := y, d + 3 := z] = take d t @ [w, x, y, z] @ drop (d + 4) t"
  by (rule nth_equalityI) (auto simp: nth_list_update nth_append nth_Cons' min_def)

definition ntop_all :: "bytes \<Rightarrow> nat \<Rightarrow> bytes \<Rightarrow> nat \<Rightarrow> bytes + bytes \<times> nat" where
  "ntop_all src d target targsize =
     (case ntop_loop src d target targsize of
        Inl target \<Rightarrow> Inl target
      | Inr (src, target, d) \<Rightarrow> ntop_padding src d target targsize)"

lemma ntop_all_simps:
  "ntop_all (a # b # c # src) d t ts =
    (if d + 4 \<le> ts
     then ntop_all src (d + 4) (t[d := digit64 (drop_bit 2 a), d + 1 := digit64 (push_bit 4 (a AND 3) OR drop_bit 4 b),
       d + 2 := digit64 (push_bit 2 (b AND 15) OR drop_bit 6 c), d + 3 := digit64 (c AND 63)]) ts
     else Inl t)"
  "ntop_all [a, b] d t ts =
    (if d + 4 \<le> ts
     then Inr (t[d := digit64 (drop_bit 2 a), d + 1 := digit64 (push_bit 4 (a AND 3) OR drop_bit 4 b),
       d + 2 := digit64 (push_bit 2 (b AND 15)), d + 3 := Pad64], d + 4)
     else Inl t)"
  "ntop_all [a] d t ts =
    (if d + 4 \<le> ts
     then Inr (t[d := digit64 (drop_bit 2 a), d + 1 := digit64 (push_bit 4 (a AND 3)), d + 2 := Pad64, d + 3 := Pad64], d + 4)
     else Inl t)"
  "ntop_all [] d t ts = Inr (t, d)"
  by (simp_all add: ntop_all_def ntop_padding_def Let_def group_digits group_digits [simplified])

lemma take_drop_group:
  assumes "length g = k" "d + k \<le> length t"
  shows "take (d + k) (take d t @ g @ drop (d + k) t) = take d t @ g"
    "drop (d + k + n) (take d t @ g @ drop (d + k) t) = drop (d + k + n) t"
    "length (take d t @ g @ drop (d + k) t) = length t"
  using assms by (auto simp: add.commute)

lemma ntop_all_group:
  assumes "d + 4 \<le> ts" "ts \<le> length t"
  shows "ntop_all (a # b # c # src) d t ts = ntop_all src (d + 4) (take d t
      @ [digit64 (drop_bit 2 a), digit64 (push_bit 4 (a AND 3) OR drop_bit 4 b),
         digit64 (push_bit 2 (b AND 15) OR drop_bit 6 c), digit64 (c AND 63)] @ drop (d + 4) t) ts"
    "ntop_all [a, b] d t ts = Inr (take d t @ encode [a, b] @ drop (d + 4) t, d + 4)"
    "ntop_all [a] d t ts = Inr (take d t @ encode [a] @ drop (d + 4) t, d + 4)"
proof -
  have "d + 4 \<le> length t" using assms by simp
  note u = update_group [OF this]
  show "ntop_all (a # b # c # src) d t ts = ntop_all src (d + 4) (take d t
      @ [digit64 (drop_bit 2 a), digit64 (push_bit 4 (a AND 3) OR drop_bit 4 b),
         digit64 (push_bit 2 (b AND 15) OR drop_bit 6 c), digit64 (c AND 63)] @ drop (d + 4) t) ts"
    unfolding ntop_all_simps(1) u using assms by simp
  show "ntop_all [a, b] d t ts = Inr (take d t @ encode [a, b] @ drop (d + 4) t, d + 4)"
    unfolding ntop_all_simps(2) u encode.simps using assms by (simp only: if_True)
  show "ntop_all [a] d t ts = Inr (take d t @ encode [a] @ drop (d + 4) t, d + 4)"
    unfolding ntop_all_simps(3) u encode.simps using assms by (simp only: if_True)
qed

lemma ntop_all_fits:
  "d + length (encode src) \<le> ts \<Longrightarrow> ts \<le> length t \<Longrightarrow>
   ntop_all src d t ts = Inr (take d t @ encode src @ drop (d + length (encode src)) t, d + length (encode src))"
proof (induction src arbitrary: d t rule: encode.induct)
  case (1 a b c src)
  define g where "g = [digit64 (drop_bit 2 a), digit64 (push_bit 4 (a AND 3) OR drop_bit 4 b),
    digit64 (push_bit 2 (b AND 15) OR drop_bit 6 c), digit64 (c AND 63)]"
  have g: "length g = 4" "encode (a # b # c # src) = g @ encode src" by (simp_all add: g_def)
  have le: "d + 4 \<le> ts" "d + 4 \<le> length t" "d + 4 + length (encode src) \<le> ts"
    using "1.prems" by (auto simp: g)
  note td = take_drop_group [OF g(1) le(2)]
  have "ntop_all (a # b # c # src) d t ts = ntop_all src (d + 4) (take d t @ g @ drop (d + 4) t) ts"
    unfolding g_def by (rule ntop_all_group(1) [OF le(1) "1.prems"(2)])
  also have "\<dots> = Inr ((take d t @ g) @ encode src @ drop (d + 4 + length (encode src)) t,
      d + 4 + length (encode src))"
    using "1.IH" [OF le(3), of "take d t @ g @ drop (d + 4) t"] "1.prems"(2) by (simp only: td)
  finally show ?case by (simp add: g add.assoc del: encode.simps)
qed (simp_all add: ntop_all_group ntop_all_simps(4) numeral_eq_Suc)

lemma ntop_all_full:
  "ts < d + length (encode src) \<Longrightarrow> d \<le> ts \<Longrightarrow> ts \<le> length t \<Longrightarrow> \<exists>t'. ntop_all src d t ts = Inl t'"
  by (induction src arbitrary: d t rule: encode.induct) (auto simp: ntop_all_simps)

lemma f_b64_ntop_all:
  "f_b64_ntop src t ts =
     (case ntop_all src 0 t ts of
        Inl t \<Rightarrow> (-1, t)
      | Inr (t, d) \<Rightarrow> if d \<ge> ts then (-1, t) else (to_int d, t[d := 0]))"
  by (simp add: f_b64_ntop_def ntop_all_def split: sum.split)

lemma f_b64_ntop_spec:
  assumes "ts \<le> length t"
  shows "if length (encode src) < ts
    then f_b64_ntop src t ts = (to_int (length (encode src)), encode src @ [0] @ drop (length (encode src) + 1) t)
    else fst (f_b64_ntop src t ts) = -1"
proof (cases "length (encode src) \<le> ts")
  case True
  have "(encode src @ drop n t)[n := 0] = encode src @ [0] @ drop (n + 1) t"
    if "n = length (encode src)" "n < ts" for n
    using that assms by (simp add: list_update_append Cons_nth_drop_Suc [symmetric])
  then show ?thesis
    using ntop_all_fits [of 0 src ts t] True assms by (simp add: f_b64_ntop_all)
next
  case False
  then show ?thesis
    using ntop_all_full [of ts 0 src t] assms by (auto simp: f_b64_ntop_all)
qed

subsection \<open>The decoder\<close>

text \<open>The two halves of the decoder run together, from any state of the loop.\<close>

definition pton_from :: "bytes \<Rightarrow> nat \<Rightarrow> u32 \<Rightarrow> bytes option \<Rightarrow> nat \<Rightarrow> int \<times> bytes option" where
  "pton_from src state tarindex target targsize =
     (case pton_loop src state tarindex target targsize of
        Inl target \<Rightarrow> (-1, target)
      | Inr (state, tarindex, target, src) \<Rightarrow> (pton_end state tarindex target src, target))"

lemma pton_from_simps:
  "pton_from [] state i a ts = (if state \<noteq> 0 then -1 else to_int (unat i), a)"
  "isspace ch \<Longrightarrow> pton_from (ch # src) state i a ts = pton_from src state i a ts"
  "pton_from (Pad64 # src) state i a ts = (pton_end state i a (Pad64 # src), a)"
  "\<not> isspace ch \<Longrightarrow> ch \<noteq> Pad64 \<Longrightarrow> strchr Base64_alphabet ch = None \<Longrightarrow>
     pton_from (ch # src) state i a ts = (-1, a)"
  "v < 64 \<Longrightarrow> pton_from (digit64 v # src) state i a ts =
     (case pton_digit state v i a ts of None \<Rightarrow> (-1, a) | Some (st', i', a') \<Rightarrow> pton_from src st' i' a' ts)"
  by (simp_all add: pton_from_def pton_end_def digit64_facts split: option.split)

lemma char_cases:
  assumes "\<not> isspace ch"
  obtains "ch = Pad64" | "ch \<noteq> Pad64" "strchr Base64_alphabet ch = None" | v where "v < 64" "ch = digit64 v"
proof (cases "strchr Base64_alphabet ch")
  case None
  then show ?thesis using that(1, 2) by blast
next
  case (Some v)
  then show ?thesis using strchr_Some [OF Some] that(3) [of v] by simp
qed

text \<open>White space is skipped anywhere.\<close>

lemma pton_single_pad_skips:
  "pton_single_pad (filter (\<lambda>ch. \<not> isspace ch) src) i a = pton_single_pad src i a"
  by (auto simp: pton_single_pad_def list_ex_iff)

lemma dropWhile_filter_space:
  "dropWhile isspace (filter (\<lambda>ch. \<not> isspace ch) src) = filter (\<lambda>ch. \<not> isspace ch) src"
  by (induction src) auto

lemma filter_dropWhile_space:
  "filter (\<lambda>ch. \<not> isspace ch) src = filter (\<lambda>ch. \<not> isspace ch) (dropWhile isspace src)"
  by (induction src) auto

lemma pton_end_skips:
  "pton_end state i a (Pad64 # filter (\<lambda>ch. \<not> isspace ch) src) = pton_end state i a (Pad64 # src)"
proof (cases "dropWhile isspace src")
  case Nil
  then have "filter (\<lambda>ch. \<not> isspace ch) src = []" by (simp add: filter_empty_conv)
  with pton_single_pad_skips [of src i a] show ?thesis by (simp add: pton_end_def Let_def Nil)
next
  case (Cons ch s)
  then have "\<not> isspace ch" by (simp add: dropWhile_eq_Cons_conv)
  then have "filter (\<lambda>ch. \<not> isspace ch) src = ch # filter (\<lambda>ch. \<not> isspace ch) s"
    by (simp add: filter_dropWhile_space [of src] Cons)
  moreover have "dropWhile isspace (filter (\<lambda>ch. \<not> isspace ch) src) = filter (\<lambda>ch. \<not> isspace ch) src"
    by (rule dropWhile_filter_space)
  ultimately show ?thesis
    using pton_single_pad_skips [of src i a]
    by (auto simp: pton_end_def Let_def pton_single_pad_skips Cons)
qed

lemma pton_from_skips:
  "pton_from (filter (\<lambda>ch. \<not> isspace ch) src) state i a ts = pton_from src state i a ts"
proof (induction src arbitrary: state i a)
  case (Cons ch src)
  show ?case
  proof (cases "isspace ch")
    case True
    then show ?thesis by (simp add: pton_from_simps Cons.IH)
  next
    case False
    then show ?thesis
      by (cases rule: char_cases)
        (simp_all add: pton_from_simps Cons.IH pton_end_skips digit64_facts split: option.split)
  qed
qed simp

text \<open>A group of four digits, and the two ways to end with one that is padded, all with the
  bounds checks of the loop.\<close>

lemma u32_add:
  assumes "unat i + k < 2 ^ 32"
  shows "unat (i + word_of_nat k :: u32) = unat i + k"
proof -
  have "unat (word_of_nat k :: u32) = k" using assms by (simp add: unat_of_nat_u32)
  then show ?thesis using assms by (simp add: unat_word_ariths)
qed

lemma u32_add_small:
  assumes "unat i + 3 < 2 ^ 32"
  shows "unat (i + 1 :: u32) = unat i + 1" "unat (i + 2 :: u32) = unat i + 2" "unat (i + 3 :: u32) = unat i + 3"
    "i + 1 + 1 = i + 2" "i + 1 + 1 + 1 = i + 3" "i + 2 + 1 = i + 3"
  using assms u32_add [of i 1] u32_add [of i 2] u32_add [of i 3] by (simp_all add: add.commute)

lemma update_bytes:
  assumes "n + 2 < length a"
  shows "(((a[n := b0])[n := b1, n + 1 := b2])[n + 1 := b3, n + 2 := b4])[n + 2 := b5]
      = take n a @ [b1, b3, b5] @ drop (n + 3) a"
  using assms by (intro nth_equalityI) (auto simp: nth_list_update nth_append nth_Cons' min_def)

lemma pton_group:
  assumes "v < 64" "w < 64" "x < 64" "y < 64"
    and "unat i + 3 < 2 ^ 32" "ts \<le> length a"
  shows "unat i + 2 < ts \<Longrightarrow>
      pton_from (digit64 v # digit64 w # digit64 x # digit64 y # src) 0 i (Some a) ts
      = pton_from src 0 (i + 3) (Some (take (unat i) a @ bytes_of v w x y @ drop (unat i + 3) a)) ts"
    "\<not> unat i + 2 < ts \<Longrightarrow>
      fst (pton_from (digit64 v # digit64 w # digit64 x # digit64 y # src) 0 i (Some a) ts) = -1"
proof -
  let ?n = "unat i"
  note u = u32_add_small [OF assms(5)]
  { assume n: "?n + 2 < ts"
    then have le: "?n + 2 < length a" using assms by simp
    have at: "a[?n := p] ! ?n = p" "a[?n := p, Suc ?n := q] ! Suc ?n = q"
      "(take ?n a @ p # q # r # d) ! Suc (Suc ?n) = r"
      "(take ?n a @ p # q # r # d)[Suc (Suc ?n) := z] = take ?n a @ p # q # z # d" for p q r z d
      using le by (simp_all add: nth_append list_update_append)
    show "pton_from (digit64 v # digit64 w # digit64 x # digit64 y # src) 0 i (Some a) ts
      = pton_from src 0 (i + 3) (Some (take ?n a @ bytes_of v w x y @ drop (?n + 3) a)) ts"
      using n assms(1-4) update_bytes [OF le]
      by (simp add: pton_from_simps pton_digit_def u at bytes_of_def) }
  { assume "\<not> ?n + 2 < ts"
    then show "fst (pton_from (digit64 v # digit64 w # digit64 x # digit64 y # src) 0 i (Some a) ts) = -1"
      using assms(1-4) by (simp add: pton_from_simps pton_digit_def u) }
qed

lemma update_two: "n + 1 < length a \<Longrightarrow> a[n := p, Suc n := q] = take n a @ [p, q] @ drop (n + 2) a"
proof (induction n arbitrary: a)
  case 0
  then show ?case by (cases a; cases "tl a") auto
next
  case (Suc n)
  then show ?case by (cases a) auto
qed

lemma pton_two:
  assumes "v < 64" "w < 64" "unat i + 3 < 2 ^ 32" "ts \<le> length a"
  shows "unat i + 1 < ts \<Longrightarrow> pton_from (digit64 v # digit64 w # src) 0 i (Some a) ts
      = pton_from src 2 (i + 1) (Some (take (unat i) a @ [push_bit 2 v OR drop_bit 4 w, push_bit 4 (w AND 15)]
          @ drop (unat i + 2) a)) ts"
    "\<not> unat i + 1 < ts \<Longrightarrow> fst (pton_from (digit64 v # digit64 w # src) 0 i (Some a) ts) = -1"
proof -
  let ?n = "unat i"
  note u = u32_add_small [OF assms(3)]
  { assume n: "?n + 1 < ts"
    then have le: "?n + 1 < length a" using assms by simp
    have "a[?n := p] ! ?n = p" "a[?n := p, Suc ?n := q] = take ?n a @ [p, q] @ drop (?n + 2) a" for p q
      using le by (simp_all add: update_two)
    then show "pton_from (digit64 v # digit64 w # src) 0 i (Some a) ts
      = pton_from src 2 (i + 1) (Some (take ?n a @ [push_bit 2 v OR drop_bit 4 w, push_bit 4 (w AND 15)]
          @ drop (?n + 2) a)) ts"
      using n assms(1, 2) by (simp add: pton_from_simps pton_digit_def u) }
  { assume "\<not> ?n + 1 < ts"
    then show "fst (pton_from (digit64 v # digit64 w # src) 0 i (Some a) ts) = -1"
      using assms(1, 2) by (simp add: pton_from_simps pton_digit_def u) }
qed

lemma pton_three:
  assumes "v < 64" "w < 64" "x < 64" "unat i + 3 < 2 ^ 32" "ts \<le> length a"
  shows "unat i + 2 < ts \<Longrightarrow> pton_from (digit64 v # digit64 w # digit64 x # src) 0 i (Some a) ts
      = pton_from src 3 (i + 2) (Some (take (unat i) a @ [push_bit 2 v OR drop_bit 4 w,
          push_bit 4 (w AND 15) OR drop_bit 2 x, push_bit 6 (x AND 3)] @ drop (unat i + 3) a)) ts"
    "\<not> unat i + 2 < ts \<Longrightarrow> fst (pton_from (digit64 v # digit64 w # digit64 x # src) 0 i (Some a) ts) = -1"
proof -
  let ?n = "unat i"
  note u = u32_add_small [OF assms(4)]
  note two = pton_two [OF assms(1, 2, 4, 5)]
  { assume n: "?n + 2 < ts"
    then have le: "?n + 2 < length a" using assms by simp
    have at: "(take ?n a @ p # q # drop (?n + 2) a) ! Suc ?n = q"
      "(take ?n a @ p # q # drop (?n + 2) a)[Suc ?n := r, Suc (Suc ?n) := z] = take ?n a @ [p, r, z] @ drop (?n + 3) a"
      for p q r z
    proof -
      have "drop (?n + 2) a = a ! (?n + 2) # drop (?n + 3) a"
        using le Cons_nth_drop_Suc [of "?n + 2" a] by (simp add: numeral_3_eq_3)
      then show "(take ?n a @ p # q # drop (?n + 2) a) ! Suc ?n = q"
        "(take ?n a @ p # q # drop (?n + 2) a)[Suc ?n := r, Suc (Suc ?n) := z] = take ?n a @ [p, r, z] @ drop (?n + 3) a"
        using le by (simp_all add: nth_append list_update_append)
    qed
    show "pton_from (digit64 v # digit64 w # digit64 x # src) 0 i (Some a) ts
      = pton_from src 3 (i + 2) (Some (take ?n a @ [push_bit 2 v OR drop_bit 4 w,
          push_bit 4 (w AND 15) OR drop_bit 2 x, push_bit 6 (x AND 3)] @ drop (?n + 3) a)) ts"
      using n assms(3) two(1) at by (simp add: pton_from_simps pton_digit_def u) }
  { assume "\<not> ?n + 2 < ts"
    then show "fst (pton_from (digit64 v # digit64 w # digit64 x # src) 0 i (Some a) ts) = -1"
      using assms(3) two by (cases "?n + 1 < ts") (auto simp: pton_from_simps pton_digit_def u) }
qed

lemma pton_pad:
  assumes "list_all (\<lambda>ch. \<not> isspace ch) src"
  shows "fst (pton_from (Pad64 # src) state i (Some a) ts) =
    (if (state = 2 \<and> src = [Pad64] \<or> 2 < state \<and> src = []) \<and> a ! unat i = 0 then to_int (unat i) else -1)"
proof -
  have "dropWhile isspace src = src" using assms by (cases src) auto
  moreover have "list_ex (\<lambda>ch. \<not> isspace ch) src \<longleftrightarrow> src \<noteq> []" using assms by (cases src) auto
  moreover have "list_ex (\<lambda>ch. \<not> isspace ch) (tl src) \<longleftrightarrow> tl src \<noteq> []" using assms
    by (cases src; cases "tl src") auto
  ultimately show ?thesis
    by (cases src) (auto simp: pton_from_simps pton_end_def pton_single_pad_def Let_def)
qed

text \<open>The digits of a final group whose unused bits are zero.\<close>

lemma last_digits:
  fixes v w x :: byte
  assumes "v < 64" "w < 64" "x < 64"
  shows "push_bit 4 (w AND 15) = 0 \<Longrightarrow> push_bit 4 ((push_bit 2 v OR drop_bit 4 w) AND 3) = w"
    "push_bit 6 (x AND 3) = 0 \<Longrightarrow> push_bit 2 ((push_bit 4 (w AND 15) OR drop_bit 2 x) AND 15) = x"
proof -
  assume "push_bit 4 (w AND 15) = 0"
  then have "bit (push_bit 4 (w AND 15)) n = bit (0 :: byte) n" for n by simp
  from this [of 4] this [of 5] this [of 6] this [of 7]
  have "\<not> bit w 0" "\<not> bit w 1" "\<not> bit w 2" "\<not> bit w 3" by (simp_all add: bit_simps)
  then show "push_bit 4 ((push_bit 2 v OR drop_bit 4 w) AND 3) = w"
    using assms unfolding below_64_iff
    by - (rule byte_eqI; auto simp: bit_simps numeral_2_eq_2 [symmetric] dest: bit_imp_le_length)
next
  assume "push_bit 6 (x AND 3) = 0"
  then have "bit (push_bit 6 (x AND 3)) n = bit (0 :: byte) n" for n by simp
  from this [of 6] this [of 7]
  have "\<not> bit x 0" "\<not> bit x 1" by (simp_all add: bit_simps)
  then show "push_bit 2 ((push_bit 4 (w AND 15) OR drop_bit 2 x) AND 15) = x"
    using assms unfolding below_64_iff
    by - (rule byte_eqI; auto simp: bit_simps numeral_2_eq_2 [symmetric] dest: bit_imp_le_length)
qed

text \<open>The shape of a string without white space that is accepted.\<close>

lemma accepted_char:
  assumes "list_all (\<lambda>ch. \<not> isspace ch) (c # s)" "fst (pton_from (c # s) st i (Some a) ts) \<noteq> -1"
  obtains v where "v < 64" "c = digit64 v"
  | "c = Pad64" "2 \<le> st" "st = 2 \<Longrightarrow> s = [Pad64]" "2 < st \<Longrightarrow> s = []" "a ! unat i = 0"
proof -
  have c: "\<not> isspace c" and s: "list_all (\<lambda>ch. \<not> isspace ch) s" using assms by auto
  from c show ?thesis
  proof (cases rule: char_cases)
    case 1
    then show ?thesis using that(2) assms(2) pton_pad [OF s, of st i a ts] by (auto split: if_splits)
  next
    case 2
    then show ?thesis using assms(2) c by (simp add: pton_from_simps)
  qed (rule that(1))
qed

lemma accepted_shape:
  assumes ns: "list_all (\<lambda>ch. \<not> isspace ch) src" and ts: "ts \<le> length a" "unat i + 3 < 2 ^ 32"
    and ok: "fst (pton_from src 0 i (Some a) ts) \<noteq> -1"
  shows "src = [] \<or> (\<exists>d. length d \<in> {1, 2} \<and> src = encode d)
    \<or> (\<exists>v w x y s. v < 64 \<and> w < 64 \<and> x < 64 \<and> y < 64 \<and> src = digit64 v # digit64 w # digit64 x # digit64 y # s)"
proof (cases src)
  case (Cons c s1)
  note ns = ns [unfolded Cons] and ok = ok [unfolded Cons]
  obtain v where v: "v < 64" "c = digit64 v" by (rule accepted_char [OF ns ok]) auto
  have ok1: "fst (pton_from s1 1 i (Some (a[unat i := push_bit 2 v])) ts) \<noteq> -1"
    using ok by (auto simp: v pton_from_simps pton_digit_def split: if_splits)
  obtain c' s2 where s1: "s1 = c' # s2"
    using ok1 by (cases s1) (auto simp: pton_from_simps)
  have ns1: "list_all (\<lambda>ch. \<not> isspace ch) (c' # s2)" using ns s1 by simp
  obtain w where w: "w < 64" "c' = digit64 w"
    by (rule accepted_char [OF ns1 ok1 [unfolded s1]]) auto
  note two = pton_two [OF v(1) w(1) ts(2, 1)]
  have room: "unat i + 1 < ts" using two(2) ok by (auto simp: v w s1)
  define a2 where "a2 = take (unat i) a @ [push_bit 2 v OR drop_bit 4 w, push_bit 4 (w AND 15)] @ drop (unat i + 2) a"
  have ok2: "fst (pton_from s2 2 (i + 1) (Some a2) ts) \<noteq> -1"
    using two(1) [OF room, of s2] ok by (simp add: v w s1 a2_def)
  show ?thesis
  proof (cases s2)
    case Nil
    then show ?thesis using ok2 by (simp add: pton_from_simps)
  next
    case (Cons c'' s3)
    have ns2: "list_all (\<lambda>ch. \<not> isspace ch) (c'' # s3)" using ns s1 Cons by simp
    show ?thesis
    proof (rule accepted_char [OF ns2 ok2 [unfolded Cons]])
      assume "c'' = Pad64" and s3: "2 = 2 \<Longrightarrow> s3 = [Pad64]" "a2 ! unat (i + 1) = 0"
      moreover have "a2 ! unat (i + 1) = push_bit 4 (w AND 15)"
        using room ts u32_add_small(1) [OF ts(2)] by (simp add: a2_def nth_append)
      ultimately have "push_bit 4 (w AND 15) = 0" "src = [digit64 v, digit64 w, Pad64, Pad64]"
        by (simp_all add: \<open>src = c # s1\<close> s1 Cons v w)
      then have "src = encode [push_bit 2 v OR drop_bit 4 w]"
        unfolding encode.simps digits_of_bytes(1) [OF v(1) w(1) v(1) v(1)]
        by (simp only: last_digits(1) [OF v(1) w(1) v(1)])
      then show ?thesis by (intro disjI2 disjI1 exI [of _ "[push_bit 2 v OR drop_bit 4 w]"]) simp
    next
      fix x assume x: "x < 64" "c'' = digit64 x"
      note three = pton_three [OF v(1) w(1) x(1) ts(2, 1)]
      have room: "unat i + 2 < ts" using three(2) ok by (auto simp: v w x s1 Cons)
      define b where "b = [push_bit 2 v OR drop_bit 4 w, push_bit 4 (w AND 15) OR drop_bit 2 x]"
      define a3 where "a3 = take (unat i) a @ b @ [push_bit 6 (x AND 3)] @ drop (unat i + 3) a"
      have ok3: "fst (pton_from s3 3 (i + 2) (Some a3) ts) \<noteq> -1"
        using three(1) [OF room, of s3] ok by (simp add: v w x s1 Cons a3_def b_def)
      obtain c3 s4 where s3: "s3 = c3 # s4" using ok3 by (cases s3) (auto simp: pton_from_simps)
      have ns3: "list_all (\<lambda>ch. \<not> isspace ch) (c3 # s4)" using ns2 s3 by simp
      show ?thesis
      proof (rule accepted_char [OF ns3 ok3 [unfolded s3]])
        assume "c3 = Pad64" "2 < (3 :: nat) \<Longrightarrow> s4 = []" "a3 ! unat (i + 2) = 0"
        moreover have "a3 ! unat (i + 2) = push_bit 6 (x AND 3)"
          using room ts u32_add_small(2) [OF ts(2)] by (simp add: a3_def b_def nth_append)
        ultimately have "push_bit 6 (x AND 3) = 0" "src = [digit64 v, digit64 w, digit64 x, Pad64]"
          by (simp_all add: \<open>src = c # s1\<close> s1 Cons v w x s3)
        then have "src = encode b"
          unfolding b_def encode.simps digits_of_bytes(1, 2) [OF v(1) w(1) x(1) v(1)]
          by (simp only: last_digits(2) [OF v(1) w(1) x(1)])
        then show ?thesis by (intro disjI2 disjI1 exI [of _ b]) (simp add: b_def)
      next
        fix y assume "y < 64" "c3 = digit64 y"
        then show ?thesis
          using v w x by (intro disjI2) (auto simp: \<open>src = c # s1\<close> s1 Cons s3)
      qed
    qed
  qed
qed simp

lemma to_int_small: "n < 2 ^ 31 \<Longrightarrow> to_int n = int n"
proof -
  assume "n < 2 ^ 31"
  then have "int n < 2 ^ 31" by simp
  then show ?thesis
    by (simp add: to_int_def signed_of_nat signed_take_bit_int_eq_self)
qed

lemma tail_digits:
  fixes a b :: byte
  shows "push_bit 4 ((push_bit 4 (a AND 3) OR drop_bit 4 b) AND 15) OR drop_bit 2 (push_bit 2 (b AND 15)) = b"
    "push_bit 6 (push_bit 2 (b AND 15) AND 3) = 0"
    "push_bit 2 (drop_bit 2 a) OR drop_bit 4 (push_bit 4 (a AND 3)) = a"
    "push_bit 4 (push_bit 4 (a AND 3) AND 15) = 0"
    "push_bit 4 (a AND 3) < 64" "push_bit 2 (b AND 15) < 64"
  unfolding below_64_iff
  by (rule byte_eqI; auto simp: bit_simps numeral_2_eq_2 [symmetric])+
    (simp_all add: bit_simps)

text \<open>The decoder needs room for one byte more than it stores, unless the last group is full.\<close>

definition room :: "bytes \<Rightarrow> nat" where
  "room d = length d + (if 3 dvd length d then 0 else 1)"

lemma room_simps: "room [] = 0" "room [a] = 2" "room [a, b] = 3" "room (a # b # c # d) = room d + 3"
proof -
  have "3 dvd Suc (Suc (Suc n)) \<longleftrightarrow> 3 dvd n" for n
    using dvd_add_left_iff [of 3 3 n] by (simp add: add.commute numeral_3_eq_3)
  then show "room [] = 0" "room [a] = 2" "room [a, b] = 3" "room (a # b # c # d) = room d + 3"
    by (simp_all add: room_def, presburger)
qed

lemma pton_encode:
  "ts \<le> length a \<Longrightarrow> ts < 2 ^ 31 \<Longrightarrow> unat i \<le> ts \<Longrightarrow>
   (if unat i + room d \<le> ts
    then \<exists>z. pton_from (encode d) 0 i (Some a) ts = (int (unat i + length d), Some (take (unat i) a @ d @ z))
    else fst (pton_from (encode d) 0 i (Some a) ts) = -1)"
proof (induction d arbitrary: i a rule: encode.induct)
  case (1 b0 b1 b2 d)
  have i: "unat i + 3 < 2 ^ 32" using 1 by simp
  have enc: "encode (b0 # b1 # b2 # d) = digit64 (drop_bit 2 b0) # digit64 (push_bit 4 (b0 AND 3) OR drop_bit 4 b1)
      # digit64 (push_bit 2 (b1 AND 15) OR drop_bit 6 b2) # digit64 (b2 AND 63) # encode d"
    by (rule encode.simps)
  have bytes: "bytes_of (drop_bit 2 b0) (push_bit 4 (b0 AND 3) OR drop_bit 4 b1)
      (push_bit 2 (b1 AND 15) OR drop_bit 6 b2) (b2 AND 63) = [b0, b1, b2]"
    unfolding bytes_of_def bytes_of_digits ..
  note group = pton_group [OF group_below(1, 2, 3, 4) i "1.prems"(1), of b0 b0 b1 b1 b2 b2 "encode d",
      folded enc, unfolded bytes]
  show ?case
  proof (cases "unat i + 2 < ts")
    case True
    let ?a = "take (unat i) a @ [b0, b1, b2] @ drop (unat i + 3) a"
    have i3: "unat (i + 3) = unat i + 3" by (rule u32_add_small [OF i])
    have "ts \<le> length ?a" "unat (i + 3) \<le> ts" "take (unat i + 3) ?a = take (unat i) a @ [b0, b1, b2]"
      using True 1 by (simp_all add: i3)
    moreover have "unat i + room (b0 # b1 # b2 # d) \<le> ts \<longleftrightarrow> unat (i + 3) + room d \<le> ts"
      "unat i + length (b0 # b1 # b2 # d) = unat (i + 3) + length d" by (auto simp: i3 room_simps)
    ultimately show ?thesis
      using "1.IH" [of ?a "i + 3"] "1.prems"(2) group(1) [OF True]
      by (simp only: i3) (auto simp del: encode.simps split: if_splits)
  next
    case False
    then show ?thesis using group(2) by (simp add: room_simps del: encode.simps)
  qed
next
  case (2 b0 b1)
  have i: "unat i + 3 < 2 ^ 32" using 2 by simp
  have enc: "encode [b0, b1] = [digit64 (drop_bit 2 b0), digit64 (push_bit 4 (b0 AND 3) OR drop_bit 4 b1),
      digit64 (push_bit 2 (b1 AND 15)), Pad64]"
    by (rule encode.simps)
  note three = pton_three [OF group_below(1, 2) tail_digits(6) i "2.prems"(1), of b0 b0 b1 b1 "[Pad64]",
      folded enc, unfolded bytes_of_digits(1) tail_digits(1, 2)]
  show ?case
  proof (cases "unat i + 2 < ts")
    case True
    let ?a = "take (unat i) a @ [b0, b1, 0] @ drop (unat i + 3) a"
    have "unat (i + 2) = unat i + 2" by (rule u32_add_small [OF i])
    moreover from this have "?a ! unat (i + 2) = 0" using True 2 by (simp add: nth_append)
    ultimately have "pton_end 3 (i + 2) (Some ?a) [Pad64] = int (unat i + 2)"
      using True 2 by (simp add: pton_end_def pton_single_pad_def to_int_small)
    then show ?thesis
      using three(1) [OF True] True by (simp add: pton_from_simps(3) room_simps del: encode.simps)
  next
    case False
    then show ?thesis using three(2) by (simp add: room_simps del: encode.simps)
  qed
next
  case (3 b0)
  have i: "unat i + 3 < 2 ^ 32" using 3 by simp
  have enc: "encode [b0] = [digit64 (drop_bit 2 b0), digit64 (push_bit 4 (b0 AND 3)), Pad64, Pad64]"
    by (rule encode.simps)
  note two = pton_two [OF group_below(1) tail_digits(5) i "3.prems"(1), of b0 b0 "[Pad64, Pad64]",
      folded enc, unfolded tail_digits(3, 4)]
  show ?case
  proof (cases "unat i + 1 < ts")
    case True
    let ?a = "take (unat i) a @ [b0, 0] @ drop (unat i + 2) a"
    have "unat (i + 1) = unat i + 1" by (rule u32_add_small [OF i])
    moreover from this have "?a ! unat (i + 1) = 0" using True 3 by (simp add: nth_append)
    ultimately have "pton_end 2 (i + 1) (Some ?a) [Pad64, Pad64] = int (unat i + 1)"
      using True 3 by (simp add: pton_end_def pton_single_pad_def to_int_small)
    then show ?thesis
      using two(1) [OF True] True by (simp add: pton_from_simps(3) room_simps del: encode.simps)
  next
    case False
    then show ?thesis using two(2) by (simp add: room_simps del: encode.simps)
  qed
next
  case 4
  then show ?case
    by (auto simp: pton_from_simps to_int_small room_simps intro: exI [of _ "drop (unat i) a"])
qed

lemma accepted_is_encoding:
  assumes "list_all (\<lambda>ch. \<not> isspace ch) src" "ts \<le> length a" "ts < 2 ^ 31" "unat i \<le> ts"
    and "fst (pton_from src 0 i (Some a) ts) \<noteq> -1"
  shows "\<exists>d. src = encode d"
  using assms
proof (induction "length src" arbitrary: src i a rule: less_induct)
  case less
  have i: "unat i + 3 < 2 ^ 32" using less.prems by simp
  consider "src = []" | d where "src = encode d"
    | v w x y s where "v < 64" "w < 64" "x < 64" "y < 64" "src = digit64 v # digit64 w # digit64 x # digit64 y # s"
    using accepted_shape [OF less.prems(1, 2) i less.prems(5)] by blast
  then show ?case
  proof cases
    case 1
    then show ?thesis by (intro exI [of _ "[]"]) simp
  next
    case (3 v w x y s)
    note group = pton_group [OF 3(1-4) i less.prems(2), of s, folded 3(5)]
    have n: "unat i + 2 < ts" using group(2) less.prems(5) by auto
    let ?a = "take (unat i) a @ bytes_of v w x y @ drop (unat i + 3) a"
    have "unat (i + 3) \<le> ts" "ts \<le> length ?a"
      using n less.prems(2) u32_add_small(3) [OF i] by (simp_all add: bytes_of_def)
    moreover have "fst (pton_from s 0 (i + 3) (Some ?a) ts) \<noteq> -1"
      using group(1) [OF n] less.prems(5) by simp
    ultimately obtain d where "s = encode d"
      using less.hyps [of s "?a" "i + 3"] less.prems(1, 3) 3(5) by auto
    then have "src = encode (bytes_of v w x y @ d)"
      unfolding bytes_of_def append_Cons append_Nil encode.simps digits_of_bytes [OF 3(1-4)] using 3(5) by (simp only:)
    then show ?thesis ..
  qed blast
qed

lemma encode_chars: "list_all (\<lambda>ch. \<not> isspace ch \<and> ch \<noteq> 0) (encode d)"
proof (induction d rule: encode.induct)
  case (1 a b c d)
  then show ?case
    using group_below(1) [of a] group_below(2) [of a b] group_below(3) [of b c] group_below(4) [of c]
    unfolding encode.simps by (simp only: list.pred_inject digit64_facts) simp
next
  case (2 a b)
  then show ?case
    using group_below(1) [of a] group_below(2) [of a b] tail_digits(6) [of b]
    unfolding encode.simps by (simp only: list.pred_inject digit64_facts) (simp add: isspace_def Pad64_def)
next
  case (3 a)
  then show ?case
    using group_below(1) [of a] tail_digits(5) [of a]
    unfolding encode.simps by (simp only: list.pred_inject digit64_facts) (simp add: isspace_def Pad64_def)
qed simp

lemma ntop_all_within: "d \<le> ts \<Longrightarrow>
   (case ntop_all src d t ts of Inl t' \<Rightarrow> drop ts t' | Inr (t', d') \<Rightarrow> drop ts t') = drop ts t"
proof (induction src arbitrary: d t rule: encode.induct)
  case (1 a b c src)
  then show ?case by (auto simp: ntop_all_simps(1) simp del: One_nat_def)
qed (auto simp: ntop_all_simps)

lemma f_b64_pton_from:
  "f_b64_pton src target ts = pton_from (takeWhile (\<lambda>ch. ch \<noteq> 0) src) 0 0 target ts"
  by (simp add: f_b64_pton_def pton_from_def)

text \<open>A target that the data fills exactly is too small, unless the last group is full.\<close>

lemma pton_exact_fit_rejected:
  assumes "\<not> 3 dvd length d" "length d < 2 ^ 31"
  shows "fst (f_b64_pton (encode d) (Some (replicate (length d) 0)) (length d)) = -1"
proof -
  have "takeWhile (\<lambda>ch. ch \<noteq> 0) (encode d) = encode d"
    using encode_chars [of d] by (auto simp: list_all_iff takeWhile_eq_all_conv)
  then show ?thesis
    using pton_encode [of "length d" "replicate (length d) 0" 0 d] assms by (simp only: f_b64_pton_from) (simp add: room_def)
qed

lemma f_b64_pton_accepts:
  assumes "targsize \<le> length target" "targsize < 2 ^ 31"
  shows "fst (f_b64_pton src (Some target) targsize) \<noteq> -1 \<longleftrightarrow>
    (\<exists>d. filter (\<lambda>ch. \<not> isspace ch) (takeWhile (\<lambda>ch. ch \<noteq> 0) src) = encode d \<and> room d \<le> targsize)"
proof -
  let ?s = "filter (\<lambda>ch. \<not> isspace ch) (takeWhile (\<lambda>ch. ch \<noteq> 0) src)"
  have ns: "list_all (\<lambda>ch. \<not> isspace ch) ?s" by (simp add: list_all_iff)
  have p: "f_b64_pton src (Some target) targsize = pton_from ?s 0 0 (Some target) targsize"
    by (simp add: f_b64_pton_from pton_from_skips)
  have e: "fst (pton_from (encode d) 0 0 (Some target) targsize) \<noteq> -1 \<longleftrightarrow> room d \<le> targsize" for d
    using pton_encode [OF assms, of 0 d] by (auto split: if_splits)
  show ?thesis
    using accepted_is_encoding [OF ns assms, of 0] e unfolding p by (metis unat_0 zero_le)
qed

subsection \<open>Properties\<close>

text \<open>C29. Decoding what was encoded gives the data back: with room for the digits and the
  terminating zero in the one buffer, and for the data and one byte more in the other, \<open>f_b64_pton\<close>
  applied to the string that \<open>f_b64_ntop\<close> leaves in its target stores the source bytes and returns
  their number.\<close>

theorem base64_roundtrip:
  assumes "4 * ((length src + 2) div 3) < targsize" "targsize \<le> length target" "targsize < 2 ^ 31"
    and "length src < targsize'" "targsize' \<le> length target'" "targsize' < 2 ^ 31"
  shows "fst (f_b64_ntop src target targsize) = int (4 * ((length src + 2) div 3))
    \<and> (\<exists>rest. f_b64_pton (snd (f_b64_ntop src target targsize)) (Some target') targsize'
        = (int (length src), Some (src @ rest)))"
proof -
  have n: "f_b64_ntop src target targsize =
      (to_int (length (encode src)), encode src @ [0] @ drop (length (encode src) + 1) target)"
    using f_b64_ntop_spec [OF assms(2), of src] assms(1) by (simp add: length_encode)
  have "takeWhile (\<lambda>ch. ch \<noteq> 0) (encode src @ [0] @ rest) = encode src" for rest
    using encode_chars [of src] by (simp add: list_all_iff takeWhile_append2)
  moreover have "room src \<le> targsize'" using assms(4) by (simp add: room_def)
  ultimately show ?thesis
    using pton_encode [OF assms(5, 6), of 0 src] assms(1, 3)
    by (auto simp: n f_b64_pton_from length_encode to_int_small)
qed

theorem base64_roundtrip_witness:
  "fst (f_b64_ntop [1, 2] (replicate 5 0) 5) = 4"
  using base64_roundtrip [of "[1, 2]" 5 "replicate 5 0" 3 "replicate 3 0"] by simp

text \<open>C30. The decoder accepts a string exactly if, with its white space left out, it is the canonical
  encoding of some data for which the target is large enough: the pad characters have to be there, and the
  bits that do not belong to a whole byte have to be zero. Large enough means one byte more than the
  data, unless the length of the data is a multiple of three.\<close>

theorem base64_accepts_canonical:
  assumes "targsize \<le> length target" "targsize < 2 ^ 31"
  shows "fst (f_b64_pton src (Some target) targsize) \<noteq> -1 \<longleftrightarrow>
    (\<exists>d. filter (\<lambda>ch. \<not> isspace ch) (takeWhile (\<lambda>ch. ch \<noteq> 0) src) = encode d
       \<and> length d + (if 3 dvd length d then 0 else 1) \<le> targsize)"
  using f_b64_pton_accepts [OF assms] by (simp add: room_def)

theorem base64_accepts_canonical_witness:
  "fst (f_b64_pton (encode [7]) (Some [0, 0]) 2) \<noteq> -1"
proof -
  have "filter (\<lambda>ch. \<not> isspace ch) (takeWhile (\<lambda>ch. ch \<noteq> 0) (encode [7])) = encode [7]"
    using encode_chars [of "[7]"] unfolding list_all_iff
    by (subst takeWhile_eq_all_conv [THEN iffD2]) (auto intro: filter_True simp del: encode.simps)
  then show ?thesis
    using base64_accepts_canonical [of 2 "[0, 0]" "encode [7]"]
    by (auto simp del: encode.simps intro!: exI [of _ "[7]"])
qed

text \<open>C31. The encoder fails exactly if the digits and the terminating zero do not fit in the
  target, and writes nothing beyond the size it was given, whether it fails or not.\<close>

theorem base64_encoder_stays_within_target:
  assumes "targsize \<le> length target" "targsize < 2 ^ 31"
  shows "(fst (f_b64_ntop src target targsize) = -1 \<longleftrightarrow> targsize \<le> 4 * ((length src + 2) div 3))
    \<and> drop targsize (snd (f_b64_ntop src target targsize)) = drop targsize target"
proof
  show "fst (f_b64_ntop src target targsize) = -1 \<longleftrightarrow> targsize \<le> 4 * ((length src + 2) div 3)"
    using f_b64_ntop_spec [OF assms(1), of src] assms(2)
    by (auto simp: length_encode to_int_small split: if_splits)
  show "drop targsize (snd (f_b64_ntop src target targsize)) = drop targsize target"
    using ntop_all_within [of 0 targsize src target]
    by (auto simp: f_b64_ntop_all split: sum.splits)
qed

theorem base64_encoder_stays_within_target_witness:
  "fst (f_b64_ntop [1, 2, 3] [0, 0, 0, 0, 9] 4) = -1 \<and> drop 4 (snd (f_b64_ntop [1, 2, 3] [0, 0, 0, 0, 9] 4)) = [9]"
  using base64_encoder_stays_within_target [of 4 "[0, 0, 0, 0, 9]" "[1, 2, 3]"] by simp

end
