(* ===== verification/Merger.thy ===== *)
theory Merger
  imports Block_Correct
begin

text \<open>
  The merging iterator of \<open>table/merger.cc\<close> over child iterators behind caching wrappers. If the
  children meet the iterator contract and no key occurs twice, the merging iterator meets it, for
  the sorted list of all their entries, in both directions and through every change of direction. The
  header allows the same key in several children and yields it once for each; that case is not covered.
  The internal keys that the database merges differ in their sequence numbers.
\<close>

subsection \<open>The iterator\<close>

datatype Direction = kForward | kReverse

record 'i MergingIterator =
  mi_comparator :: Comparator
  mi_children :: "'i IteratorWrapper list"
  mi_current :: "nat option"
  mi_direction :: Direction

text \<open>The loops over the children that may fail an assertion.\<close>

fun all_children :: "(nat \<Rightarrow> 'w \<Rightarrow> 'w option) \<Rightarrow> nat \<Rightarrow> 'w list \<Rightarrow> 'w list option" where
  "all_children f n [] = Some []"
| "all_children f n (w # ws) =
     Option.bind (f n w) (\<lambda>w. Option.bind (all_children f (Suc n) ws) (\<lambda>ws. Some (w # ws)))"

definition new_MergingIterator :: "'i Iterator \<Rightarrow> Comparator \<Rightarrow> 'i list \<Rightarrow> 'i MergingIterator option" where
  "new_MergingIterator ops cmp children =
     Option.bind (all_children (\<lambda>n. Wrapper_Set ops (Some (children ! n))) 0
        (replicate (length children) new_IteratorWrapper)) (\<lambda>ws.
     Some \<lparr>mi_comparator = cmp, mi_children = ws, mi_current = None, mi_direction = kForward\<rparr>)"

text \<open>The child whose key is better than that of all valid children seen before.\<close>

fun pick_child :: "(Slice \<Rightarrow> Slice \<Rightarrow> bool) \<Rightarrow> (nat \<times> 'i IteratorWrapper) list \<Rightarrow> (nat \<times> Slice) option \<Rightarrow> nat option" where
  "pick_child better [] best = map_option fst best"
| "pick_child better ((n, child) # ws) best =
     (if Wrapper_Valid child then
        (case best of
           None \<Rightarrow> pick_child better ws (Some (n, iw_key child))
         | Some (m, k) \<Rightarrow>
             if better (iw_key child) k then pick_child better ws (Some (n, iw_key child))
             else pick_child better ws best)
      else pick_child better ws best)"

definition FindSmallest :: "'i MergingIterator \<Rightarrow> 'i MergingIterator" where
  "FindSmallest m = m\<lparr>mi_current :=
     pick_child (\<lambda>k best. Compare (mi_comparator m) k best < 0) (enumerate 0 (mi_children m)) None\<rparr>"

definition FindLargest :: "'i MergingIterator \<Rightarrow> 'i MergingIterator" where
  "FindLargest m = m\<lparr>mi_current :=
     pick_child (\<lambda>k best. Compare (mi_comparator m) k best > 0) (rev (enumerate 0 (mi_children m))) None\<rparr>"

definition Merging_Valid :: "'i MergingIterator \<Rightarrow> bool" where
  "Merging_Valid m \<longleftrightarrow> mi_current m \<noteq> None"

definition Merging_key :: "'i MergingIterator \<Rightarrow> Slice option" where
  "Merging_key m = Option.bind (mi_current m) (\<lambda>c. Wrapper_key (mi_children m ! c))"

definition Merging_value :: "'i Iterator \<Rightarrow> 'i MergingIterator \<Rightarrow> Slice option" where
  "Merging_value ops m = Option.bind (mi_current m) (\<lambda>c. Wrapper_value ops (mi_children m ! c))"

definition with_children :: "'i MergingIterator \<Rightarrow> (nat \<Rightarrow> 'i IteratorWrapper \<Rightarrow> 'i IteratorWrapper option)
    \<Rightarrow> 'i MergingIterator option" where
  "with_children m f = map_option (\<lambda>ws. m\<lparr>mi_children := ws\<rparr>) (all_children f 0 (mi_children m))"

definition Merging_SeekToFirst :: "'i Iterator \<Rightarrow> 'i MergingIterator \<Rightarrow> 'i MergingIterator option" where
  "Merging_SeekToFirst ops m =
     map_option (\<lambda>m. (FindSmallest m)\<lparr>mi_direction := kForward\<rparr>)
       (with_children m (\<lambda>_. it_SeekToFirst (Wrapper_ops ops)))"

definition Merging_SeekToLast :: "'i Iterator \<Rightarrow> 'i MergingIterator \<Rightarrow> 'i MergingIterator option" where
  "Merging_SeekToLast ops m =
     map_option (\<lambda>m. (FindLargest m)\<lparr>mi_direction := kReverse\<rparr>)
       (with_children m (\<lambda>_. it_SeekToLast (Wrapper_ops ops)))"

definition Merging_Seek :: "'i Iterator \<Rightarrow> Slice \<Rightarrow> 'i MergingIterator \<Rightarrow> 'i MergingIterator option" where
  "Merging_Seek ops target m =
     map_option (\<lambda>m. (FindSmallest m)\<lparr>mi_direction := kForward\<rparr>)
       (with_children m (\<lambda>_. it_Seek (Wrapper_ops ops) target))"

text \<open>The step of the current child.\<close>

definition step_current :: "('i IteratorWrapper \<Rightarrow> 'i IteratorWrapper option) \<Rightarrow> 'i MergingIterator
    \<Rightarrow> 'i MergingIterator option" where
  "step_current f m =
     Option.bind (mi_current m) (\<lambda>c.
       map_option (\<lambda>w. m\<lparr>mi_children := (mi_children m)[c := w]\<rparr>) (f (mi_children m ! c)))"

text \<open>Positioning the other children after the key, and before it.\<close>

definition seek_after :: "'i Iterator \<Rightarrow> Comparator \<Rightarrow> nat \<Rightarrow> Slice \<Rightarrow> nat \<Rightarrow> 'i IteratorWrapper
    \<Rightarrow> 'i IteratorWrapper option" where
  "seek_after ops cmp c k n child =
     (if n = c then Some child
      else Option.bind (it_Seek (Wrapper_ops ops) k child) (\<lambda>child.
        if Wrapper_Valid child \<and> Compare cmp k (iw_key child) = 0
        then it_Next (Wrapper_ops ops) child else Some child))"

definition seek_before :: "'i Iterator \<Rightarrow> nat \<Rightarrow> Slice \<Rightarrow> nat \<Rightarrow> 'i IteratorWrapper \<Rightarrow> 'i IteratorWrapper option" where
  "seek_before ops c k n child =
     (if n = c then Some child
      else Option.bind (it_Seek (Wrapper_ops ops) k child) (\<lambda>child.
        if Wrapper_Valid child then it_Prev (Wrapper_ops ops) child
        else it_SeekToLast (Wrapper_ops ops) child))"

definition Merging_Next :: "'i Iterator \<Rightarrow> 'i MergingIterator \<Rightarrow> 'i MergingIterator option" where
  "Merging_Next ops m =
     Option.bind (mi_current m) (\<lambda>c. Option.bind (Merging_key m) (\<lambda>k.
     Option.bind
       (if mi_direction m \<noteq> kForward
        then map_option (\<lambda>m. m\<lparr>mi_direction := kForward\<rparr>)
               (with_children m (seek_after ops (mi_comparator m) c k))
        else Some m)
       (\<lambda>m. map_option FindSmallest (step_current (it_Next (Wrapper_ops ops)) m))))"

definition Merging_Prev :: "'i Iterator \<Rightarrow> 'i MergingIterator \<Rightarrow> 'i MergingIterator option" where
  "Merging_Prev ops m =
     Option.bind (mi_current m) (\<lambda>c. Option.bind (Merging_key m) (\<lambda>k.
     Option.bind
       (if mi_direction m \<noteq> kReverse
        then map_option (\<lambda>m. m\<lparr>mi_direction := kReverse\<rparr>) (with_children m (seek_before ops c k))
        else Some m)
       (\<lambda>m. map_option FindLargest (step_current (it_Prev (Wrapper_ops ops)) m))))"

fun first_error :: "Status list \<Rightarrow> Status" where
  "first_error [] = Status_OK"
| "first_error (s # ss) = (if \<not> Status_ok s then s else first_error ss)"

definition Merging_status :: "'i Iterator \<Rightarrow> 'i MergingIterator \<Rightarrow> Status" where
  "Merging_status ops m = first_error (map (it_status (Wrapper_ops ops)) (mi_children m))"

definition Merging_ops :: "'i Iterator \<Rightarrow> 'i MergingIterator Iterator" where
  "Merging_ops ops =
     \<lparr>it_Valid = Merging_Valid, it_SeekToFirst = Merging_SeekToFirst ops,
      it_SeekToLast = Merging_SeekToLast ops, it_Seek = Merging_Seek ops, it_Next = Merging_Next ops,
      it_Prev = Merging_Prev ops, it_key = Merging_key, it_value = Merging_value ops,
      it_status = Merging_status ops\<rparr>"

datatype 'i merged = Merged_empty EmptyIterator | Merged_one 'i | Merged_many "'i MergingIterator"

definition NewMergingIterator :: "'i Iterator \<Rightarrow> Comparator \<Rightarrow> 'i list \<Rightarrow> 'i merged option" where
  "NewMergingIterator ops cmp children =
     (case children of
        [] \<Rightarrow> Some (Merged_empty NewEmptyIterator)
      | [child] \<Rightarrow> Some (Merged_one child)
      | _ \<Rightarrow> map_option Merged_many (new_MergingIterator ops cmp children))"

subsection \<open>Sub-lists of a sorted list\<close>

text \<open>How many of the first \<open>n\<close> entries of \<open>es\<close> are in \<open>l\<close>.\<close>

definition cnt :: "entries \<Rightarrow> nat \<Rightarrow> entries \<Rightarrow> nat" where
  "cnt es n l = length (filter (\<lambda>e. e \<in> set (take n es)) l)"

definition one_back :: "entries \<Rightarrow> nat \<Rightarrow> nat" where
  "one_back l c = (if c = 0 then length l else c - 1)"

context comparator
begin

lemma sorted_distinct:
  assumes "sorted_entries cmp l" "\<forall>e \<in> set l. key (fst e)"
  shows "distinct l"
proof -
  have "sorted_wrt (\<noteq>) l"
    using assms(1) unfolding sorted_entries_def
    by (rule sorted_wrt_mono_rel [rotated]) (use assms(2) refl in auto)
  then show ?thesis by (induction l) auto
qed

text \<open>A sorted part of a sorted list is split by every prefix of the whole.\<close>

lemma sub_split:
  assumes es: "sorted_entries cmp es"
    and l: "sorted_entries cmp l" "set l \<subseteq> set es" and k: "\<forall>e \<in> set es. key (fst e)"
  shows "filter (\<lambda>e. e \<in> set (take n es)) l @ filter (\<lambda>e. e \<notin> set (take n es)) l = l"
proof -
  let ?P = "\<lambda>a b. Compare cmp (fst a) (fst b) < 0"
  have sep: "?P x y" if "x \<in> set (take n es)" "y \<in> set (drop n es)" for x y
  proof -
    have "sorted_wrt ?P (take n es @ drop n es)" using es by (simp add: sorted_entries_def)
    then show ?thesis using that unfolding sorted_wrt_append by blast
  qed
  have dr: "y \<in> set (drop n es)" if "y \<in> set es" "y \<notin> set (take n es)" for y
  proof -
    have "set es = set (take n es) \<union> set (drop n es)" by (metis append_take_drop_id set_append)
    then show ?thesis using that by blast
  qed
  show ?thesis
    using l
  proof (induction l)
    case (Cons e l)
    have prems: "sorted_entries cmp l" "set l \<subseteq> set es" "e \<in> set es" "\<And>x. x \<in> set l \<Longrightarrow> ?P e x"
      using Cons.prems by (simp_all add: sorted_entries_def)
    note IH = Cons.IH [OF prems(1,2)]
    show ?case
    proof (cases "e \<in> set (take n es)")
      case True
      then show ?thesis using IH by simp
    next
      case False
      have x: "x \<notin> set (take n es)" if "x \<in> set l" for x
        using sep [OF _ dr [OF prems(3) False], of x] prems(4) [OF that] less_asym [of "fst e" "fst x"] k prems(2,3) that
        by blast
      have "filter (\<lambda>e. e \<in> set (take n es)) l = []" using x by (simp add: filter_empty_conv)
      moreover have "filter (\<lambda>e. e \<notin> set (take n es)) l = l" using x by (simp add: filter_id_conv)
      ultimately show ?thesis using False by simp
    qed
  qed simp
qed

lemma cnt_facts:
  assumes es: "sorted_entries cmp es"
    and l: "sorted_entries cmp l" "set l \<subseteq> set es" and k: "\<forall>e \<in> set es. key (fst e)"
  shows "cnt es 0 l = 0" "length es \<le> n \<Longrightarrow> cnt es n l = length l" "cnt es n l \<le> length l"
    "n < length es \<Longrightarrow> cnt es (Suc n) l = cnt es n l + (if es ! n \<in> set l then 1 else 0)"
    "i < length l \<Longrightarrow> i < cnt es n l \<longleftrightarrow> l ! i \<in> set (take n es)"
proof -
  show "cnt es 0 l = 0" by (simp add: cnt_def)
  show "length es \<le> n \<Longrightarrow> cnt es n l = length l"
    using l(2) by (simp add: cnt_def filter_id_conv [THEN iffD2] subset_code(1))
  show "cnt es n l \<le> length l" by (simp add: cnt_def)
  show "cnt es (Suc n) l = cnt es n l + (if es ! n \<in> set l then 1 else 0)" if n: "n < length es"
  proof -
    have d: "distinct es" "distinct l" using sorted_distinct es l k by blast+
    have nt: "es ! n \<notin> set (take n es)"
      using d(1) n by (metis distinct_take id_take_nth_drop not_distinct_conv_prefix)
    have "filter (\<lambda>e. e \<in> set (take (Suc n) es)) l = filter (\<lambda>e. e = es ! n \<or> e \<in> set (take n es)) l"
      by (simp add: take_Suc_conv_app_nth [OF n])
    moreover have "length (filter (\<lambda>e. e = x \<or> e \<in> A) l) = length (filter (\<lambda>e. e \<in> A) l) + (if x \<in> set l then 1 else 0)"
      if "x \<notin> A" for x A
      using d(2) that by (induction l) auto
    ultimately show ?thesis using nt by (simp add: cnt_def)
  qed
  show "i < cnt es n l \<longleftrightarrow> l ! i \<in> set (take n es)" if i: "i < length l"
  proof -
    note s = sub_split [OF es l k, of n, symmetric]
    show ?thesis
    proof (cases "i < cnt es n l")
      case True
      then have "l ! i \<in> set (filter (\<lambda>e. e \<in> set (take n es)) l)"
        by (subst s) (simp add: cnt_def nth_append del: set_filter)
      then show ?thesis using True by simp
    next
      case False
      then have "i - cnt es n l < length (filter (\<lambda>e. e \<notin> set (take n es)) l)"
        using i arg_cong [OF s, of length] by (simp add: cnt_def)
      then have "l ! i \<in> set (filter (\<lambda>e. e \<notin> set (take n es)) l)"
        using False by (subst s) (simp add: cnt_def nth_append del: set_filter)
      then show ?thesis using False by simp
    qed
  qed
qed

lemma cnt_current:
  assumes es: "sorted_entries cmp es"
    and l: "sorted_entries cmp l" "set l \<subseteq> set es" and k: "\<forall>e \<in> set es. key (fst e)"
    and n: "n < length es" "es ! n \<in> set l"
  shows "cnt es n l < length l" "l ! cnt es n l = es ! n"
proof -
  have s: "cnt es (Suc n) l = cnt es n l + 1" using cnt_facts(4) [OF es l k n(1)] n(2) by simp
  then show c: "cnt es n l < length l" using cnt_facts(3) [OF es l k, of "Suc n"] by simp
  have "l ! cnt es n l \<in> set (take (Suc n) es)" "l ! cnt es n l \<notin> set (take n es)"
    using cnt_facts(5) [OF es l k c, of "Suc n"] cnt_facts(5) [OF es l k c, of n] unfolding s by simp_all
  then show "l ! cnt es n l = es ! n" by (simp add: take_Suc_conv_app_nth [OF n(1)])
qed

lemma takeWhile_sorted:
  assumes "sorted_entries cmp l" "\<forall>e \<in> set l. key (fst e)" "key target"
  shows "takeWhile (\<lambda>e. Compare cmp (fst e) target < 0) l = filter (\<lambda>e. Compare cmp (fst e) target < 0) l"
  using assms(1,2)
proof (induction l)
  case (Cons e l)
  then have "Compare cmp (fst e) target < 0" if "x \<in> set l" "Compare cmp (fst x) target < 0" for x
    using that assms(3) less_trans [of "fst e" "fst x" target] by (auto simp: sorted_entries_def)
  then have "\<not> Compare cmp (fst e) target < 0 \<Longrightarrow> filter (\<lambda>e. Compare cmp (fst e) target < 0) l = []"
    by (auto simp: filter_empty_conv)
  then show ?case using Cons by (simp add: sorted_entries_def)
qed simp

lemma position_cnt:
  assumes es: "sorted_entries cmp es"
    and l: "sorted_entries cmp l" "set l \<subseteq> set es" and k: "\<forall>e \<in> set es. key (fst e)"
    and target: "key target"
  shows "position cmp target l = cnt es (position cmp target es) l"
proof -
  have t: "take (position cmp target es) es = filter (\<lambda>e. Compare cmp (fst e) target < 0) es"
    unfolding position_def takeWhile_eq_take [symmetric] using takeWhile_sorted [OF es k target] .
  have "filter (\<lambda>e. e \<in> set (filter (\<lambda>e. Compare cmp (fst e) target < 0) es)) l
      = filter (\<lambda>e. Compare cmp (fst e) target < 0) l"
    using l(2) by (intro filter_cong) auto
  moreover have "position cmp target l = length (filter (\<lambda>e. Compare cmp (fst e) target < 0) l)"
    unfolding position_def using l k by (subst takeWhile_sorted [OF _ _ target]) auto
  ultimately show ?thesis by (simp add: cnt_def t)
qed

lemma position_entry:
  assumes es: "sorted_entries cmp es" and k: "\<forall>e \<in> set es. key (fst e)" and n: "n < length es"
  shows "position cmp (fst (es ! n)) es = n"
proof -
  have "takeWhile (\<lambda>e. Compare cmp (fst e) (fst (es ! n)) < 0) (take n es @ es ! n # drop (Suc n) es) = take n es"
  proof (subst takeWhile_append2)
    show "Compare cmp (fst x) (fst (es ! n)) < 0" if "x \<in> set (take n es)" for x
      using that es n unfolding sorted_entries_def sorted_wrt_iff_nth_less by (auto simp: in_set_conv_nth)
    show "take n es @ takeWhile (\<lambda>e. Compare cmp (fst e) (fst (es ! n)) < 0) (es ! n # drop (Suc n) es) = take n es"
      using k n by (simp add: refl)
  qed
  then show ?thesis using n by (simp add: position_def id_take_nth_drop [symmetric])
qed

end

subsection \<open>Choosing the current child\<close>

lemma pick_child_best:
  assumes "(c, w) \<in> set l" "Wrapper_Valid w"
    and "\<And>c' w'. (c', w') \<in> set l \<Longrightarrow> Wrapper_Valid w' \<Longrightarrow> (c', w') = (c, w)
      \<or> better (iw_key w) (iw_key w') \<and> \<not> better (iw_key w') (iw_key w)"
    and "distinct (map fst l)"
    and "case best of None \<Rightarrow> True | Some (m, k) \<Rightarrow> better (iw_key w) k"
  shows "pick_child better l best = Some c"
  using assms
proof (induction l arbitrary: best)
  case (Cons x l)
  have keep: "pick_child better l (Some (c, iw_key w)) = Some c"
    if "\<forall>(c', w') \<in> set l. Wrapper_Valid w' \<longrightarrow> \<not> better (iw_key w') (iw_key w)" for l
    using that by (induction l) auto
  obtain c' w' where x: "x = (c', w')" by (cases x)
  show ?case
  proof (cases "c' = c")
    case True
    then have w: "w' = w" using Cons.prems(1,4) x by (auto simp: image_iff)
    have "\<not> better (iw_key w2) (iw_key w)" if "(c2, w2) \<in> set l" "Wrapper_Valid w2" for c2 w2
      using Cons.prems(3) [of c2 w2] Cons.prems(4) that x True by (auto simp: image_iff)
    then show ?thesis using keep [of l] Cons.prems(2,5) x w True by (auto split: option.splits)
  next
    case False
    then have "(c, w) \<in> set l" using Cons.prems(1) x by auto
    moreover have "Wrapper_Valid w' \<Longrightarrow> better (iw_key w) (iw_key w')"
      using Cons.prems(3) [of c' w'] x False by auto
    moreover note IH = Cons.IH [OF _ Cons.prems(2)]
    ultimately show ?thesis using Cons.prems(3-5) x
      by (auto split: option.splits intro!: IH)
  qed
qed simp

lemma pick_child_none:
  "\<forall>(c, w) \<in> set l. \<not> Wrapper_Valid w \<Longrightarrow> pick_child better l None = None"
  by (induction l) auto

lemma all_children_ok:
  "(\<And>i. i < length ws \<Longrightarrow> \<exists>w'. f (n + i) (ws ! i) = Some w' \<and> Q (n + i) w') \<Longrightarrow>
   \<exists>ws'. all_children f n ws = Some ws' \<and> length ws' = length ws \<and> (\<forall>i < length ws. Q (n + i) (ws' ! i))"
proof (induction ws arbitrary: n)
  case (Cons w ws)
  obtain w' where w': "f n w = Some w'" "Q n w'" using Cons.prems [of 0] by auto
  have "\<exists>w'. f (Suc n + i) (ws ! i) = Some w' \<and> Q (Suc n + i) w'" if "i < length ws" for i
    using Cons.prems [of "Suc i"] that by simp
  then obtain ws' where "all_children f (Suc n) ws = Some ws'" "length ws' = length ws"
    "\<forall>i < length ws. Q (Suc n + i) (ws' ! i)" using Cons.IH [of "Suc n"] by blast
  then show ?case using w' by (auto simp: nth_Cons split: nat.splits)
qed simp

subsection \<open>The invariant\<close>

text \<open>The children show parts of the sorted list that share no entry and give all of it.\<close>

definition parts :: "(Slice \<Rightarrow> bool) \<Rightarrow> Comparator \<Rightarrow> entries list \<Rightarrow> entries \<Rightarrow> bool" where
  "parts key cmp ess es \<longleftrightarrow>
     sorted_entries cmp es \<and> (\<forall>e \<in> set es. key (fst e)) \<and> set es = \<Union> (set ` set ess)
     \<and> (\<forall>l \<in> set ess. sorted_entries cmp l)
     \<and> (\<forall>i < length ess. \<forall>j < length ess. i \<noteq> j \<longrightarrow> set (ess ! i) \<inter> set (ess ! j) = {})"

definition children_at :: "'i Iterator \<Rightarrow> ('i \<Rightarrow> entries \<Rightarrow> nat \<Rightarrow> bool) \<Rightarrow> 'i IteratorWrapper list \<Rightarrow>
    entries list \<Rightarrow> (nat \<Rightarrow> nat) \<Rightarrow> bool" where
  "children_at ops at ws ess p \<longleftrightarrow>
     length ws = length ess \<and> (\<forall>i < length ws. wrapper_at ops at (ws ! i) (ess ! i) (p i))"

text \<open>Forward, every child is at its first entry that has not been passed. In reverse, every child is
  at its last entry that has not been passed.\<close>

definition forward_position :: "entries \<Rightarrow> entries list \<Rightarrow> nat \<Rightarrow> nat \<Rightarrow> nat" where
  "forward_position es ess n i = cnt es n (ess ! i)"

definition reverse_position :: "entries \<Rightarrow> entries list \<Rightarrow> nat \<Rightarrow> nat \<Rightarrow> nat" where
  "reverse_position es ess n i = one_back (ess ! i) (cnt es n (ess ! i))"

definition merge_at :: "(Slice \<Rightarrow> bool) \<Rightarrow> Comparator \<Rightarrow> 'i Iterator \<Rightarrow> ('i \<Rightarrow> entries \<Rightarrow> nat \<Rightarrow> bool) \<Rightarrow>
    'i MergingIterator \<Rightarrow> entries \<Rightarrow> nat \<Rightarrow> bool" where
  "merge_at key cmp ops at m es n \<longleftrightarrow>
     mi_comparator m = cmp \<and> n \<le> length es
     \<and> (\<exists>ess p. parts key cmp ess es \<and> children_at ops at (mi_children m) ess p
        \<and> (if n < length es
           then (\<exists>c < length ess. mi_current m = Some c \<and> es ! n \<in> set (ess ! c))
             \<and> p = (case mi_direction m of kForward \<Rightarrow> forward_position es ess n
                    | kReverse \<Rightarrow> reverse_position es ess (Suc n))
           else mi_current m = None))"

lemma children_atD:
  assumes "iterator ops key cmp at" "children_at ops at ws ess p" "i < length ws"
  shows "wrapper_at ops at (ws ! i) (ess ! i) (p i)" "Wrapper_Valid (ws ! i) \<longleftrightarrow> p i < length (ess ! i)"
    "p i < length (ess ! i) \<Longrightarrow> iw_key (ws ! i) = fst (ess ! i ! p i)"
proof -
  show w: "wrapper_at ops at (ws ! i) (ess ! i) (p i)" using assms(2,3) by (simp add: children_at_def)
  note it = iterator.wrapper [OF assms(1)]
  show v: "Wrapper_Valid (ws ! i) \<longleftrightarrow> p i < length (ess ! i)"
    using iterator.valid [OF it w] by (simp add: Wrapper_ops_def)
  show "iw_key (ws ! i) = fst (ess ! i ! p i)" if "p i < length (ess ! i)"
    using iterator.cur_key [OF it w that] v that by (simp add: Wrapper_ops_def Wrapper_key_def)
qed

lemma children_at_step:
  assumes "children_at ops at ws ess p"
    and "\<And>i. i < length ws \<Longrightarrow> wrapper_at ops at (ws ! i) (ess ! i) (p i) \<Longrightarrow>
      \<exists>w'. f i (ws ! i) = Some w' \<and> wrapper_at ops at w' (ess ! i) (q i)"
  shows "\<exists>ws'. all_children f 0 ws = Some ws' \<and> children_at ops at ws' ess q"
proof -
  have "\<exists>w'. f (0 + i) (ws ! i) = Some w' \<and> wrapper_at ops at w' (ess ! (0 + i)) (q (0 + i))" if "i < length ws" for i
    using assms that by (simp add: children_at_def)
  from all_children_ok [where f = f and n = 0, OF this]
  obtain ws' where "all_children f 0 ws = Some ws'" "length ws' = length ws"
    "\<forall>i < length ws. wrapper_at ops at (ws' ! i) (ess ! i) (q i)" by auto
  then show ?thesis using assms(1) by (auto simp: children_at_def)
qed

lemma partsD:
  assumes "parts key cmp ess es"
  shows "sorted_entries cmp es" "\<forall>e \<in> set es. key (fst e)"
    "i < length ess \<Longrightarrow> sorted_entries cmp (ess ! i)" "i < length ess \<Longrightarrow> set (ess ! i) \<subseteq> set es"
    "e \<in> set es \<Longrightarrow> \<exists>c < length ess. e \<in> set (ess ! c)"
    "i < length ess \<Longrightarrow> j < length ess \<Longrightarrow> e \<in> set (ess ! i) \<Longrightarrow> e \<in> set (ess ! j) \<Longrightarrow> i = j"
proof -
  show "e \<in> set es \<Longrightarrow> \<exists>c < length ess. e \<in> set (ess ! c)"
    using assms by (auto simp: parts_def in_set_conv_nth [of _ ess])
  show "i < length ess \<Longrightarrow> j < length ess \<Longrightarrow> e \<in> set (ess ! i) \<Longrightarrow> e \<in> set (ess ! j) \<Longrightarrow> i = j"
    using assms unfolding parts_def by blast
qed (use assms in \<open>auto simp: parts_def\<close>)

context comparator
begin

lemma entry_order:
  assumes "sorted_entries cmp es" "n < length es" "x \<in> set (take n es)"
  shows "Compare cmp (fst x) (fst (es ! n)) < 0"
proof -
  obtain i where "i < n" "x = es ! i" using assms(2,3) by (auto simp: in_set_conv_nth)
  then show ?thesis using assms(1,2) by (auto simp: sorted_entries_def sorted_wrt_iff_nth_less)
qed

lemma entry_order_after:
  assumes "sorted_entries cmp es" "n < length es" "x \<in> set es" "x \<notin> set (take (Suc n) es)"
  shows "Compare cmp (fst (es ! n)) (fst x) < 0"
proof -
  obtain i where i: "i < length es" "x = es ! i" using assms(3) by (auto simp: in_set_conv_nth)
  have "n < i"
  proof (rule ccontr)
    assume "\<not> n < i"
    then have "x \<in> set (take (Suc n) es)" using i by (auto simp: in_set_conv_nth intro!: exI [of _ i])
    then show False using assms(4) by simp
  qed
  then show ?thesis using assms(1) i by (auto simp: sorted_entries_def sorted_wrt_iff_nth_less)
qed

lemma FindSmallest_at:
  assumes it: "iterator ops key cmp at" and p: "parts key cmp ess es" and m: "mi_comparator m = cmp"
    and ch: "children_at ops at (mi_children m) ess (forward_position es ess n)"
    and n: "n \<le> length es" and d: "mi_direction m = kForward"
  shows "merge_at key cmp ops at (FindSmallest m) es n"
proof -
  let ?ws = "mi_children m"
  let ?better = "\<lambda>k best. Compare cmp k best < 0"
  note l = children_at_def [of ops at ?ws ess] and pd = partsD [OF p] and cd = children_atD [OF it ch]
  have len: "length ?ws = length ess" using ch by (simp add: children_at_def)
  note cf = cnt_facts [OF pd(1) pd(3,4) pd(2)] and cc = cnt_current [OF pd(1) pd(3,4) pd(2)]
  have cur: "\<exists>c < length ess. pick_child ?better (enumerate 0 ?ws) None = Some c \<and> es ! n \<in> set (ess ! c)"
    if n: "n < length es"
  proof -
    obtain c where c: "c < length ess" "es ! n \<in> set (ess ! c)" using pd(5) nth_mem [OF n] by blast
    have key: "forward_position es ess n c < length (ess ! c)" "iw_key (?ws ! c) = fst (es ! n)"
      using cc [OF c(1) c(1) n c(2)] cd(3) [of c] c len by (simp_all add: forward_position_def)
    have others: "?better (iw_key (?ws ! c)) (iw_key (?ws ! i)) \<and> \<not> ?better (iw_key (?ws ! i)) (iw_key (?ws ! c))"
      if i: "i < length ess" "i \<noteq> c" "Wrapper_Valid (?ws ! i)" for i
    proof -
      let ?x = "ess ! i ! cnt es n (ess ! i)"
      have x: "cnt es n (ess ! i) < length (ess ! i)" "iw_key (?ws ! i) = fst ?x"
        using cd(2,3) [of i] i len by (simp_all add: forward_position_def)
      have "?x \<in> set (ess ! i)" using x by simp
      moreover from this have "?x \<noteq> es ! n" using pd(6) [OF i(1) c(1) _ c(2)] i(2) by auto
      ultimately have xe: "?x \<in> set es" "?x \<noteq> es ! n" using pd(4) [OF i(1)] by auto
      have "?x \<notin> set (take n es)" using cf(5) [OF i(1) i(1) x(1), of n] by simp
      then have "Compare cmp (fst (es ! n)) (fst ?x) < 0"
        using xe by (intro entry_order_after [OF pd(1) n]) (auto simp: take_Suc_conv_app_nth [OF n])
      then show ?thesis using key x pd(2) n xe(1) less_asym [of "fst (es ! n)" "fst ?x"] by simp
    qed
    have "pick_child ?better (enumerate 0 ?ws) None = Some c"
    proof (rule pick_child_best)
      show "(c, ?ws ! c) \<in> set (enumerate 0 ?ws)" using c len by (simp add: in_set_enumerate_eq)
      show "Wrapper_Valid (?ws ! c)" using cd(2) [of c] key c len by simp
      show "(i, w) = (c, ?ws ! c) \<or> ?better (iw_key (?ws ! c)) (iw_key w) \<and> \<not> ?better (iw_key w) (iw_key (?ws ! c))"
        if "(i, w) \<in> set (enumerate 0 ?ws)" "Wrapper_Valid w" for i w
      proof -
        have "i < length ess" "w = ?ws ! i" using that(1) len by (simp_all add: in_set_enumerate_eq)
        then show ?thesis using others [of i] that(2) by (cases "i = c") simp_all
      qed
    qed simp_all
    then show ?thesis using c by blast
  qed
  have none: "pick_child ?better (enumerate 0 ?ws) None = None" if n: "n = length es"
  proof (rule pick_child_none)
    show "\<forall>(c, w) \<in> set (enumerate 0 ?ws). \<not> Wrapper_Valid w"
      using cd(2) cf(2) n len by (auto simp: in_set_enumerate_eq forward_position_def)
  qed
  have "mi_current (FindSmallest m) = pick_child ?better (enumerate 0 ?ws) None" "mi_children (FindSmallest m) = ?ws"
    "mi_comparator (FindSmallest m) = cmp" "mi_direction (FindSmallest m) = kForward"
    using m d by (simp_all add: FindSmallest_def)
  note f = this
  show ?thesis
    unfolding merge_at_def f
    by (intro conjI exI [of _ ess] exI [of _ "forward_position es ess n"]) (use cur none p ch n in simp_all)
qed

lemma FindLargest_at:
  assumes it: "iterator ops key cmp at" and p: "parts key cmp ess es" and m: "mi_comparator m = cmp"
    and ch: "children_at ops at (mi_children m) ess (reverse_position es ess N)"
    and N: "N \<le> length es" and d: "mi_direction m = kReverse"
  shows "merge_at key cmp ops at (FindLargest m) es (if N = 0 then length es else N - 1)"
proof -
  let ?ws = "mi_children m"
  let ?better = "\<lambda>k best. Compare cmp k best > 0"
  note pd = partsD [OF p] and cd = children_atD [OF it ch]
  have len: "length ?ws = length ess" using ch by (simp add: children_at_def)
  note cf = cnt_facts [OF pd(1) pd(3,4) pd(2)] and cc = cnt_current [OF pd(1) pd(3,4) pd(2)]
  have valid: "0 < cnt es N (ess ! i)" "reverse_position es ess N i = cnt es N (ess ! i) - 1"
    if "i < length ess" "Wrapper_Valid (?ws ! i)" for i
    using cd(2) [of i] that len by (auto simp: reverse_position_def one_back_def split: if_splits)
  have cur: "\<exists>c < length ess. pick_child ?better (rev (enumerate 0 ?ws)) None = Some c \<and> es ! n \<in> set (ess ! c)"
    if Nn: "N = Suc n" for n
  proof -
    have n: "n < length es" using N Nn by simp
    obtain c where c: "c < length ess" "es ! n \<in> set (ess ! c)" using pd(5) nth_mem [OF n] by blast
    have pc: "reverse_position es ess N c = cnt es n (ess ! c)"
      using cf(4) [OF c(1) c(1) n] c(2) Nn by (simp add: reverse_position_def one_back_def)
    have key: "Wrapper_Valid (?ws ! c)" "iw_key (?ws ! c) = fst (es ! n)"
      using cc [OF c(1) c(1) n c(2)] cd(2,3) [of c] c len pc by simp_all
    have others: "?better (iw_key (?ws ! c)) (iw_key (?ws ! i)) \<and> \<not> ?better (iw_key (?ws ! i)) (iw_key (?ws ! c))"
      if i: "i < length ess" "i \<noteq> c" "Wrapper_Valid (?ws ! i)" for i
    proof -
      let ?q = "cnt es N (ess ! i) - 1"
      let ?x = "ess ! i ! ?q"
      have x: "?q < length (ess ! i)" "iw_key (?ws ! i) = fst ?x"
        using cd(2,3) [of i] i len valid(2) [OF i(1,3)] by simp_all
      have "?x \<in> set (ess ! i)" using x by simp
      moreover from this have "?x \<noteq> es ! n" using pd(6) [OF i(1) c(1) _ c(2)] i(2) by auto
      ultimately have xe: "?x \<in> set es" "?x \<noteq> es ! n" using pd(4) [OF i(1)] by auto
      have "?x \<in> set (take N es)" using cf(5) [OF i(1) i(1) x(1), of N] valid(1) [OF i(1,3)] by simp
      then have "?x \<in> set (take n es)" using xe(2) by (simp add: Nn take_Suc_conv_app_nth [OF n])
      from entry_order [OF pd(1) n this] show ?thesis
        using key(2) x(2) pd(2) n xe(1) swap [of "fst ?x" "fst (es ! n)"] less_asym [of "fst ?x" "fst (es ! n)"]
          swap [of "fst (es ! n)" "fst ?x"] by simp
    qed
    have "pick_child ?better (rev (enumerate 0 ?ws)) None = Some c"
    proof (rule pick_child_best)
      show "(c, ?ws ! c) \<in> set (rev (enumerate 0 ?ws))" using c len by (simp add: in_set_enumerate_eq)
      show "Wrapper_Valid (?ws ! c)" using key by simp
      show "(i, w) = (c, ?ws ! c) \<or> ?better (iw_key (?ws ! c)) (iw_key w) \<and> \<not> ?better (iw_key w) (iw_key (?ws ! c))"
        if "(i, w) \<in> set (rev (enumerate 0 ?ws))" "Wrapper_Valid w" for i w
      proof -
        have "i < length ess" "w = ?ws ! i" using that(1) len by (simp_all add: in_set_enumerate_eq)
        then show ?thesis using others [of i] that(2) by (cases "i = c") simp_all
      qed
    qed (simp_all add: rev_map [symmetric])
    then show ?thesis using c by blast
  qed
  have none: "pick_child ?better (rev (enumerate 0 ?ws)) None = None" if "N = 0"
  proof (rule pick_child_none)
    show "\<forall>(c, w) \<in> set (rev (enumerate 0 ?ws)). \<not> Wrapper_Valid w"
      using valid(1) cf(1) that len by (auto simp: in_set_enumerate_eq)
  qed
  have f: "mi_current (FindLargest m) = pick_child ?better (rev (enumerate 0 ?ws)) None" "mi_children (FindLargest m) = ?ws"
    "mi_comparator (FindLargest m) = cmp" "mi_direction (FindLargest m) = kReverse"
    using m d by (simp_all add: FindLargest_def)
  show ?thesis
  proof (cases N)
    case 0
    then show ?thesis unfolding merge_at_def f using none p ch by auto
  next
    case (Suc n)
    then show ?thesis
      unfolding merge_at_def f
      by (intro conjI exI [of _ ess] exI [of _ "reverse_position es ess N"]) (use cur N p ch in simp_all)
  qed
qed

subsection \<open>The operations\<close>

lemma merge_atE:
  assumes "merge_at key cmp ops at m es n"
  obtains ess p where "mi_comparator m = cmp" "n \<le> length es" "parts key cmp ess es"
    "children_at ops at (mi_children m) ess p"
  using assms unfolding merge_at_def by blast

lemma Merging_seeks:
  assumes it: "iterator ops key cmp at" and m: "merge_at key cmp ops at m es n"
  shows "\<exists>m'. Merging_SeekToFirst ops m = Some m' \<and> merge_at key cmp ops at m' es 0"
    "\<exists>m'. Merging_SeekToLast ops m = Some m' \<and> merge_at key cmp ops at m' es (length es - 1)"
    "key target \<Longrightarrow>
      \<exists>m'. Merging_Seek ops target m = Some m' \<and> merge_at key cmp ops at m' es (position cmp target es)"
proof -
  obtain ess p where c: "mi_comparator m = cmp" and pa: "parts key cmp ess es"
    and ch: "children_at ops at (mi_children m) ess p" using m by (rule merge_atE)
  note pd = partsD [OF pa] and w = iterator.wrapper [OF it]
  note cf = cnt_facts [OF pd(1) pd(3,4) pd(2)]
  have len: "length (mi_children m) = length ess" using ch by (simp add: children_at_def)
  have sm: "(FindSmallest m)\<lparr>mi_direction := d\<rparr> = FindSmallest (m\<lparr>mi_direction := d\<rparr>)"
    and la: "(FindLargest m)\<lparr>mi_direction := d\<rparr> = FindLargest (m\<lparr>mi_direction := d\<rparr>)"
    for m :: "'a MergingIterator" and d
    by (simp_all add: FindSmallest_def FindLargest_def)
  show "\<exists>m'. Merging_SeekToFirst ops m = Some m' \<and> merge_at key cmp ops at m' es 0"
  proof -
    have "\<exists>ws. all_children (\<lambda>_. it_SeekToFirst (Wrapper_ops ops)) 0 (mi_children m) = Some ws
      \<and> children_at ops at ws ess (forward_position es ess 0)"
      by (rule children_at_step [OF ch])
        (use iterator.seek_to_first [OF w] cf(1) len in \<open>auto simp: forward_position_def\<close>)
    then show ?thesis
      using FindSmallest_at [OF it pa, of "m\<lparr>mi_children := ws, mi_direction := kForward\<rparr>" 0 for ws]
      by (auto simp: Merging_SeekToFirst_def with_children_def sm c)
  qed
  show "\<exists>m'. Merging_SeekToLast ops m = Some m' \<and> merge_at key cmp ops at m' es (length es - 1)"
  proof -
    have q: "reverse_position es ess (length es) i = length (ess ! i) - 1" if "i < length ess" for i
      using cf(2) [OF that that] by (simp add: reverse_position_def one_back_def)
    have "\<exists>ws. all_children (\<lambda>_. it_SeekToLast (Wrapper_ops ops)) 0 (mi_children m) = Some ws
      \<and> children_at ops at ws ess (reverse_position es ess (length es))"
      by (rule children_at_step [OF ch]) (use iterator.seek_to_last [OF w] q len in auto)
    then obtain ws where ws: "all_children (\<lambda>_. it_SeekToLast (Wrapper_ops ops)) 0 (mi_children m) = Some ws"
      "children_at ops at ws ess (reverse_position es ess (length es))" by blast
    have "(if length es = 0 then length es else length es - 1) = length es - 1" by simp
    then show ?thesis
      using FindLargest_at [OF it pa, of "m\<lparr>mi_children := ws, mi_direction := kReverse\<rparr>" "length es"] ws
      by (simp add: Merging_SeekToLast_def with_children_def la c del: diff_is_0_eq' length_0_conv)
  qed
  show "\<exists>m'. Merging_Seek ops target m = Some m' \<and> merge_at key cmp ops at m' es (position cmp target es)"
    if t: "key target"
  proof -
    let ?n = "position cmp target es"
    have q: "forward_position es ess ?n i = position cmp target (ess ! i)" if "i < length ess" for i
      using position_cnt [OF pd(1) pd(3,4) pd(2) t] that by (simp add: forward_position_def)
    have n: "?n \<le> length es" by (simp add: position_def length_takeWhile_le)
    have "\<exists>ws. all_children (\<lambda>_. it_Seek (Wrapper_ops ops) target) 0 (mi_children m) = Some ws
      \<and> children_at ops at ws ess (forward_position es ess ?n)"
      by (rule children_at_step [OF ch]) (use iterator.seek [OF w _ t] q len in auto)
    then show ?thesis
      using FindSmallest_at [OF it pa, of "m\<lparr>mi_children := ws, mi_direction := kForward\<rparr>" ?n for ws] n
      by (auto simp: Merging_Seek_def with_children_def sm c)
  qed
qed

text \<open>The step of the current child, with the others at their positions already.\<close>

lemma step_current_at:
  assumes ch: "children_at ops at (mi_children m) ess p" and c: "mi_current m = Some c" "c < length ess"
    and f: "\<And>w. wrapper_at ops at w (ess ! c) (p c) \<Longrightarrow> \<exists>w'. f w = Some w' \<and> wrapper_at ops at w' (ess ! c) (q c)"
    and q: "\<And>i. i < length ess \<Longrightarrow> i \<noteq> c \<Longrightarrow> q i = p i"
  shows "\<exists>ws. step_current f m = Some (m\<lparr>mi_children := ws\<rparr>) \<and> children_at ops at ws ess q"
proof -
  have len: "length (mi_children m) = length ess" using ch by (simp add: children_at_def)
  obtain w' where w': "f (mi_children m ! c) = Some w'" "wrapper_at ops at w' (ess ! c) (q c)"
    using f [of "mi_children m ! c"] ch c by (auto simp: children_at_def)
  have "children_at ops at ((mi_children m)[c := w']) ess q"
    using ch w' q c len unfolding children_at_def by (auto simp: nth_list_update)
  then show ?thesis using w' c by (intro exI [of _ "(mi_children m)[c := w']"]) (simp add: step_current_def)
qed

lemma current_entry:
  assumes it: "iterator ops key cmp at" and m: "merge_at key cmp ops at m es n" and n: "n < length es"
  obtains ess c p where "mi_comparator m = cmp" "parts key cmp ess es" "c < length ess" "mi_current m = Some c"
    "es ! n \<in> set (ess ! c)" "children_at ops at (mi_children m) ess p" "p c = cnt es n (ess ! c)"
    "cnt es n (ess ! c) < length (ess ! c)" "ess ! c ! cnt es n (ess ! c) = es ! n"
    "Merging_key m = Some (fst (es ! n))" "Merging_value ops m = Some (snd (es ! n))"
    "p = (case mi_direction m of kForward \<Rightarrow> forward_position es ess n | kReverse \<Rightarrow> reverse_position es ess (Suc n))"
proof -
  obtain ess c p where a: "mi_comparator m = cmp" "parts key cmp ess es" "c < length ess" "mi_current m = Some c"
    "es ! n \<in> set (ess ! c)" "children_at ops at (mi_children m) ess p"
    "p = (case mi_direction m of kForward \<Rightarrow> forward_position es ess n | kReverse \<Rightarrow> reverse_position es ess (Suc n))"
    using m n unfolding merge_at_def by auto
  note pd = partsD [OF a(2)]
  have pc: "p c = cnt es n (ess ! c)"
    using cnt_facts(4) [OF pd(1) pd(3,4) pd(2) n] a(3,5)
    by (auto simp: a(7) forward_position_def reverse_position_def one_back_def split: Direction.split)
  note cc = cnt_current [OF pd(1) pd(3,4) pd(2) n, OF a(3) a(3) a(5)]
  have len: "length (mi_children m) = length ess" using a(6) by (simp add: children_at_def)
  note cd = children_atD [OF it a(6), of c]
  have k: "Merging_key m = Some (fst (es ! n))"
    using cd a(3,4) cc pc len by (simp add: Merging_key_def Wrapper_key_def)
  have v: "Merging_value ops m = Some (snd (es ! n))"
    using iterator.cur_value [OF iterator.wrapper [OF it] cd(1)] a(3,4) cc pc len
    by (simp add: Merging_value_def Wrapper_ops_def)
  show ?thesis by (rule that [OF a(1-6) pc cc k v a(7)])
qed

text \<open>A change of direction puts every child where the new direction expects it.\<close>

lemma seek_key_position:
  assumes "parts key cmp ess es" "n < length es" "i < length ess"
  shows "position cmp (fst (es ! n)) (ess ! i) = cnt es n (ess ! i)"
proof -
  note pd = partsD [OF assms(1)]
  show ?thesis
    using position_cnt [OF pd(1) pd(3,4) pd(2), of i] position_entry [OF pd(1,2) assms(2)] pd(2) assms by simp
qed

lemma seek_after_at:
  assumes it: "iterator ops key cmp at" and pa: "parts key cmp ess es" and n: "n < length es"
    and c: "c < length ess" "es ! n \<in> set (ess ! c)" and p: "p c = cnt es n (ess ! c)"
    and i: "i < length ess" and u: "wrapper_at ops at u (ess ! i) (p i)"
  shows "\<exists>w'. seek_after ops cmp c (fst (es ! n)) i u = Some w'
    \<and> wrapper_at ops at w' (ess ! i) (forward_position es ess n i)"
proof (cases "i = c")
  case True
  then show ?thesis using u p by (simp add: seek_after_def forward_position_def)
next
  case False
  let ?q = "cnt es n (ess ! i)"
  note pd = partsD [OF pa] and w = iterator.wrapper [OF it]
  have kn: "key (fst (es ! n))" using pd(2) n by simp
  obtain w' where w': "it_Seek (Wrapper_ops ops) (fst (es ! n)) u = Some w'" "wrapper_at ops at w' (ess ! i) ?q"
    using iterator.seek [OF w u kn] seek_key_position [OF pa n i] by auto
  have "Compare cmp (fst (es ! n)) (iw_key w') \<noteq> 0" if v: "Wrapper_Valid w'"
  proof -
    have q: "?q < length (ess ! i)" using iterator.valid [OF w w'(2)] v by (simp add: Wrapper_ops_def)
    have ik: "iw_key w' = fst (ess ! i ! ?q)"
      using iterator.cur_key [OF w w'(2) q] v by (simp add: Wrapper_ops_def Wrapper_key_def)
    have "ess ! i ! ?q \<in> set (ess ! i)" using q by simp
    moreover from this have "ess ! i ! ?q \<noteq> es ! n" using pd(6) [OF i c(1) _ c(2)] False by auto
    ultimately have x: "ess ! i ! ?q \<in> set es" "ess ! i ! ?q \<noteq> es ! n" using pd(4) [OF i] by auto
    have "ess ! i ! ?q \<notin> set (take n es)" using cnt_facts(5) [OF pd(1) pd(3,4) pd(2) q, of n] i by simp
    then have "ess ! i ! ?q \<notin> set (take (Suc n) es)" using x by (simp add: take_Suc_conv_app_nth [OF n])
    from entry_order_after [OF pd(1) n x(1) this] show ?thesis using ik by simp
  qed
  then have "seek_after ops cmp c (fst (es ! n)) i u = Some w'" using False w' by (auto simp: seek_after_def)
  then show ?thesis using w' by (simp add: forward_position_def)
qed

lemma seek_before_at:
  assumes it: "iterator ops key cmp at" and pa: "parts key cmp ess es" and n: "n < length es"
    and i: "i < length ess" "i \<noteq> c" and u: "wrapper_at ops at u (ess ! i) (p i)"
  shows "\<exists>w'. seek_before ops c (fst (es ! n)) i u = Some w'
    \<and> wrapper_at ops at w' (ess ! i) (reverse_position es ess n i)"
proof -
  let ?q = "cnt es n (ess ! i)"
  note pd = partsD [OF pa] and w = iterator.wrapper [OF it]
  have kn: "key (fst (es ! n))" using pd(2) n by simp
  obtain w' where w': "it_Seek (Wrapper_ops ops) (fst (es ! n)) u = Some w'" "wrapper_at ops at w' (ess ! i) ?q"
    using iterator.seek [OF w u kn] seek_key_position [OF pa n i(1)] by auto
  have v: "Wrapper_Valid w' \<longleftrightarrow> ?q < length (ess ! i)"
    using iterator.valid [OF w w'(2)] by (simp add: Wrapper_ops_def)
  have le: "?q \<le> length (ess ! i)" using cnt_facts(3) [OF pd(1) pd(3,4) pd(2)] i by simp
  show ?thesis
  proof (cases "?q < length (ess ! i)")
    case True
    then show ?thesis using iterator.step_prev [OF w w'(2) True] w'(1) v i(2)
      by (simp add: seek_before_def reverse_position_def one_back_def)
  next
    case False
    then have "reverse_position es ess n i = length (ess ! i) - 1"
      using le by (simp add: reverse_position_def one_back_def)
    then show ?thesis using iterator.seek_to_last [OF w w'(2)] False w'(1) v i(2)
      by (simp add: seek_before_def)
  qed
qed

lemma cnt_step:
  assumes pa: "parts key cmp ess es" and n: "n < length es"
    and c: "c < length ess" "es ! n \<in> set (ess ! c)" and i: "i < length ess"
  shows "cnt es (Suc n) (ess ! i) = cnt es n (ess ! i) + (if i = c then 1 else 0)"
proof -
  note pd = partsD [OF pa]
  have "es ! n \<in> set (ess ! i) \<longleftrightarrow> i = c" using pd(6) [OF i c(1) _ c(2)] c by auto
  then show ?thesis using cnt_facts(4) [OF pd(1) pd(3,4) pd(2) n] i by simp
qed

lemma Merging_Next_at:
  assumes it: "iterator ops key cmp at" and m: "merge_at key cmp ops at m es n" and n: "n < length es"
  shows "\<exists>m'. Merging_Next ops m = Some m' \<and> merge_at key cmp ops at m' es (n + 1)"
proof -
  obtain ess c p where a: "mi_comparator m = cmp" "parts key cmp ess es" "c < length ess" "mi_current m = Some c"
    "es ! n \<in> set (ess ! c)" "children_at ops at (mi_children m) ess p" "p c = cnt es n (ess ! c)"
    "cnt es n (ess ! c) < length (ess ! c)" and k: "Merging_key m = Some (fst (es ! n))"
    and p: "p = (case mi_direction m of kForward \<Rightarrow> forward_position es ess n | kReverse \<Rightarrow> reverse_position es ess (Suc n))"
    using current_entry [OF it m n] by metis
  note w = iterator.wrapper [OF it] and suc = cnt_step [OF a(2) n a(3,5)]
  have len: "length (mi_children m) = length ess" using a(6) by (simp add: children_at_def)
  have "\<exists>ws. (if mi_direction m \<noteq> kForward
        then map_option (\<lambda>m. m\<lparr>mi_direction := kForward\<rparr>)
               (with_children m (seek_after ops (mi_comparator m) c (fst (es ! n))))
        else Some m) = Some (m\<lparr>mi_children := ws, mi_direction := kForward\<rparr>)
      \<and> children_at ops at ws ess (forward_position es ess n)"
  proof (cases "mi_direction m")
    case kForward
    then show ?thesis using a(6) p by (intro exI [of _ "mi_children m"]) simp
  next
    case kReverse
    have "\<exists>ws. all_children (seek_after ops cmp c (fst (es ! n))) 0 (mi_children m) = Some ws
      \<and> children_at ops at ws ess (forward_position es ess n)"
      using seek_after_at [where p = p, OF it a(2) n a(3,5,7)] len by (intro children_at_step [OF a(6)]) simp
    then show ?thesis using kReverse a(1) by (auto simp: with_children_def)
  qed
  then obtain ws where ws: "(if mi_direction m \<noteq> kForward
        then map_option (\<lambda>m. m\<lparr>mi_direction := kForward\<rparr>)
               (with_children m (seek_after ops (mi_comparator m) c (fst (es ! n))))
        else Some m) = Some (m\<lparr>mi_children := ws, mi_direction := kForward\<rparr>)"
      "children_at ops at ws ess (forward_position es ess n)" by blast
  let ?m = "m\<lparr>mi_children := ws, mi_direction := kForward\<rparr>"
  have "\<exists>ws'. step_current (it_Next (Wrapper_ops ops)) ?m = Some (?m\<lparr>mi_children := ws'\<rparr>)
    \<and> children_at ops at ws' ess (forward_position es ess (Suc n))"
  proof (rule step_current_at [where c = c])
    show "\<exists>w'. it_Next (Wrapper_ops ops) u = Some w' \<and> wrapper_at ops at w' (ess ! c) (forward_position es ess (Suc n) c)"
      if u: "wrapper_at ops at u (ess ! c) (forward_position es ess n c)" for u
      using iterator.step_next [OF w u] a(8) suc [OF a(3)] by (simp add: forward_position_def)
    show "children_at ops at (mi_children ?m) ess (forward_position es ess n)" using ws(2) by simp
  qed (use a(3,4) suc in \<open>simp_all add: forward_position_def\<close>)
  then show ?thesis
    using FindSmallest_at [OF it a(2), of "?m\<lparr>mi_children := ws'\<rparr>" "Suc n" for ws'] ws(1) a(1,4) k n
    by (auto simp: Merging_Next_def)
qed

lemma Merging_Prev_at:
  assumes it: "iterator ops key cmp at" and m: "merge_at key cmp ops at m es n" and n: "n < length es"
  shows "\<exists>m'. Merging_Prev ops m = Some m' \<and> merge_at key cmp ops at m' es (if n = 0 then length es else n - 1)"
proof -
  obtain ess c p where a: "mi_comparator m = cmp" "parts key cmp ess es" "c < length ess" "mi_current m = Some c"
    "es ! n \<in> set (ess ! c)" "children_at ops at (mi_children m) ess p" "p c = cnt es n (ess ! c)"
    "cnt es n (ess ! c) < length (ess ! c)" and k: "Merging_key m = Some (fst (es ! n))"
    and p: "p = (case mi_direction m of kForward \<Rightarrow> forward_position es ess n | kReverse \<Rightarrow> reverse_position es ess (Suc n))"
    using current_entry [OF it m n] by metis
  note w = iterator.wrapper [OF it] and suc = cnt_step [OF a(2) n a(3,5)]
  have len: "length (mi_children m) = length ess" using a(6) by (simp add: children_at_def)
  define q where "q = (\<lambda>i. if i = c then cnt es n (ess ! c) else reverse_position es ess n i)"
  have qc: "q c = cnt es n (ess ! c)" by (simp add: q_def)
  have "\<exists>ws. (if mi_direction m \<noteq> kReverse
        then map_option (\<lambda>m. m\<lparr>mi_direction := kReverse\<rparr>) (with_children m (seek_before ops c (fst (es ! n))))
        else Some m) = Some (m\<lparr>mi_children := ws, mi_direction := kReverse\<rparr>)
      \<and> children_at ops at ws ess q"
  proof (cases "mi_direction m")
    case kReverse
    have "p i = q i" if "i < length ess" for i
      using suc [OF that] a(7) p kReverse by (simp add: q_def reverse_position_def one_back_def)
    then have "children_at ops at (mi_children m) ess q" using a(6) len by (simp add: children_at_def)
    then show ?thesis using kReverse by (intro exI [of _ "mi_children m"]) simp
  next
    case kForward
    have "\<exists>w'. seek_before ops c (fst (es ! n)) i (mi_children m ! i) = Some w' \<and> wrapper_at ops at w' (ess ! i) (q i)"
      if "i < length (mi_children m)" "wrapper_at ops at (mi_children m ! i) (ess ! i) (p i)" for i
    proof (cases "i = c")
      case True
      then show ?thesis using that a(7) by (simp add: seek_before_def q_def)
    next
      case False
      then show ?thesis using seek_before_at [where p = p, OF it a(2) n _ False that(2)] that len by (simp add: q_def)
    qed
    then have "\<exists>ws. all_children (seek_before ops c (fst (es ! n))) 0 (mi_children m) = Some ws \<and> children_at ops at ws ess q"
      by (rule children_at_step [OF a(6)])
    then show ?thesis using kForward a(1) by (auto simp: with_children_def)
  qed
  then obtain ws where ws: "(if mi_direction m \<noteq> kReverse
        then map_option (\<lambda>m. m\<lparr>mi_direction := kReverse\<rparr>) (with_children m (seek_before ops c (fst (es ! n))))
        else Some m) = Some (m\<lparr>mi_children := ws, mi_direction := kReverse\<rparr>)"
      "children_at ops at ws ess q" by blast
  let ?m = "m\<lparr>mi_children := ws, mi_direction := kReverse\<rparr>"
  have "\<exists>ws'. step_current (it_Prev (Wrapper_ops ops)) ?m = Some (?m\<lparr>mi_children := ws'\<rparr>)
    \<and> children_at ops at ws' ess (reverse_position es ess n)"
  proof (rule step_current_at [where c = c])
    show "\<exists>w'. it_Prev (Wrapper_ops ops) u = Some w' \<and> wrapper_at ops at w' (ess ! c) (reverse_position es ess n c)"
      if u: "wrapper_at ops at u (ess ! c) (q c)" for u
      using iterator.step_prev [OF w u [unfolded qc]] a(8) by (simp add: reverse_position_def one_back_def)
    show "children_at ops at (mi_children ?m) ess q" using ws(2) by simp
  qed (use a(3,4) in \<open>simp_all add: q_def\<close>)
  then show ?thesis
    using FindLargest_at [OF it a(2), of "?m\<lparr>mi_children := ws'\<rparr>" n for ws'] ws(1) a(1,4) k n
    by (auto simp: Merging_Prev_def)
qed

text \<open>The merging iterator of iterators that meet the contract meets it.\<close>

lemma merging_iterator:
  assumes it: "iterator ops key cmp at"
  shows "iterator (Merging_ops ops) key cmp (merge_at key cmp ops at)"
proof
  fix m es n assume m: "merge_at key cmp ops at m es n"
  note seeks = Merging_seeks [OF it m]
  show "n \<le> length es" using m by (simp add: merge_at_def)
  show "it_Valid (Merging_ops ops) m \<longleftrightarrow> n < length es"
    using m by (auto simp: merge_at_def Merging_ops_def Merging_Valid_def split: if_splits)
  show "it_key (Merging_ops ops) m = Some (fst (es ! n))" if "n < length es"
    using current_entry [OF it m that] by (simp add: Merging_ops_def) metis
  show "it_value (Merging_ops ops) m = Some (snd (es ! n))" if "n < length es"
    using current_entry [OF it m that] by (simp add: Merging_ops_def) metis
  show "Status_ok (it_status (Merging_ops ops) m)"
  proof -
    obtain ess p where ch: "children_at ops at (mi_children m) ess p" using m by (rule merge_atE)
    have "Status_ok (it_status (Wrapper_ops ops) w)" if "w \<in> set (mi_children m)" for w
      using that iterator.status [OF iterator.wrapper [OF it]] children_atD(1) [OF it ch] by (metis in_set_conv_nth)
    moreover have "Status_ok (first_error ss)" if "\<forall>s \<in> set ss. Status_ok s" for ss
      using that by (induction ss) (simp_all add: Status_ok_def Status_OK_def)
    ultimately show ?thesis by (simp add: Merging_ops_def Merging_status_def)
  qed
  show "\<exists>m'. it_SeekToFirst (Merging_ops ops) m = Some m' \<and> merge_at key cmp ops at m' es 0"
    "\<exists>m'. it_SeekToLast (Merging_ops ops) m = Some m' \<and> merge_at key cmp ops at m' es (length es - 1)"
    using seeks by (simp_all add: Merging_ops_def)
  show "key target \<Longrightarrow> \<exists>m'. it_Seek (Merging_ops ops) target m = Some m'
      \<and> merge_at key cmp ops at m' es (position cmp target es)" for target
    using seeks by (simp add: Merging_ops_def)
  show "n < length es \<Longrightarrow> \<exists>m'. it_Next (Merging_ops ops) m = Some m' \<and> merge_at key cmp ops at m' es (n + 1)"
    using Merging_Next_at [OF it m] by (simp add: Merging_ops_def)
  show "n < length es \<Longrightarrow> \<exists>m'. it_Prev (Merging_ops ops) m = Some m'
      \<and> merge_at key cmp ops at m' es (if n = 0 then length es else n - 1)"
    using Merging_Prev_at [OF it m] by (simp add: Merging_ops_def)
qed

lemma new_MergingIterator_at:
  assumes it: "iterator ops key cmp at" and pa: "parts key cmp ess es"
    and ch: "list_all2 (\<lambda>i l. \<exists>n. at i l n) children ess"
  shows "\<exists>m. new_MergingIterator ops cmp children = Some m \<and> merge_at key cmp ops at m es (length es)"
proof -
  let ?ws = "replicate (length children) new_IteratorWrapper :: 'a IteratorWrapper list"
  let ?Q = "\<lambda>i w'. \<exists>n. wrapper_at ops at w' (ess ! i) n"
  have len: "length children = length ess" using ch by (rule list_all2_lengthD)
  have "\<exists>w'. Wrapper_Set ops (Some (children ! (0 + i))) (?ws ! i) = Some w' \<and> ?Q (0 + i) w'" if i: "i < length ?ws" for i
  proof -
    obtain n where "at (children ! i) (ess ! i) n" using ch i by (auto simp: list_all2_conv_all_nth)
    from iterator.wrapper_update [OF it this, of "?ws ! i"] show ?thesis by (auto simp: Wrapper_Set_def Let_def)
  qed
  from all_children_ok [where f = "\<lambda>n. Wrapper_Set ops (Some (children ! n))" and Q = ?Q, OF this]
  obtain ws where ws: "all_children (\<lambda>n. Wrapper_Set ops (Some (children ! n))) 0 ?ws = Some ws"
    "length ws = length children" "\<forall>i < length children. \<exists>n. wrapper_at ops at (ws ! i) (ess ! i) n" by auto
  then obtain p where "\<forall>i < length children. wrapper_at ops at (ws ! i) (ess ! i) (p i)" by metis
  then have "children_at ops at ws ess p" using ws len by (simp add: children_at_def)
  then show ?thesis using ws pa by (auto simp: new_MergingIterator_def merge_at_def)
qed

end

interpretation merged_blocks: iterator "Merging_ops BlockIter_ops" "\<lambda>_. True" BytewiseComparator
  "merge_at (\<lambda>_. True) BytewiseComparator BlockIter_ops (block_at (\<lambda>_. True) BytewiseComparator)"
  by (rule bytewise.merging_iterator [OF block.iterator_axioms])

subsection \<open>Property\<close>

text \<open>C37. Let the children of a merging iterator meet the iterator contract, and let no key occur in two of
  them, as is the case for internal keys with their sequence numbers. The merging iterator then behaves
  under every sequence of calls (\<open>Seek\<close>s, \<open>Next\<close> and \<open>Prev\<close> in any order, so through every change of
  direction) as one position that moves in the sorted list of all entries. Children that share a key,
  which the header allows, are excluded.\<close>

theorem merging_iterator_moves:
  assumes "iterator ops key cmp at" "comparator key cmp"
    and "parts key cmp ess es" "list_all2 (\<lambda>i l. \<exists>n. at i l n) children ess"
    and "targets_ok key mvs" "moves_position cmp es mvs (length es) = Some n"
  shows "\<exists>m m'. new_MergingIterator ops cmp children = Some m
    \<and> make_moves (Merging_ops ops) mvs m = Some m' \<and> shows_entry (Merging_ops ops) es n m'"
proof -
  obtain m where "new_MergingIterator ops cmp children = Some m" "merge_at key cmp ops at m es (length es)"
    using comparator.new_MergingIterator_at [OF assms(2,1,3,4)] by blast
  then show ?thesis
    using iterator.moves_show [OF comparator.merging_iterator [OF assms(2,1)] _ assms(5,6)] by blast
qed

definition example_other_entries :: entries where
  "example_other_entries = [([1, 1], [12]), ([3], [13])]"

definition example_other_builder :: BlockBuilder where
  "example_other_builder =
     the (Option.bind (new_BlockBuilder example_block_options) (BlockBuilder_Adds example_other_entries))"

lemma example_other_build:
  "Option.bind (new_BlockBuilder example_block_options) (BlockBuilder_Adds example_other_entries) = Some example_other_builder"
  "sorted_entries BytewiseComparator example_other_entries"
  using bytewise.build_succeeds [OF example_options, of example_other_entries]
  by (auto simp: example_other_builder_def sorted_entries_def example_other_entries_def)

lemma example_other_length: "length (fst (BlockBuilder_Finish example_other_builder)) < 2 ^ 32"
  by (simp add: example_other_builder_def example_other_entries_def example_block_options_def new_Options_def
      new_BlockBuilder_def BlockBuilder_Add_def BlockBuilder_Finish_def PutVarint32_def PutFixed32_def
      EncodeVarint32_def Let_def)

lemma example_iterators:
  "\<exists>i. block_at (\<lambda>_. True) BytewiseComparator i example_entries (length example_entries)"
  "\<exists>i. block_at (\<lambda>_. True) BytewiseComparator i example_other_entries (length example_other_entries)"
  using bytewise.build_and_open [OF example_options _ _ example_build]
    bytewise.build_and_open [OF example_options _ _ example_other_build(1)]
    example_sorted example_length example_other_build(2) example_other_length
  by (auto simp: sorted_entries_def)

theorem merging_iterator_moves_witness:
  "\<exists>children m m'. new_MergingIterator BlockIter_ops BytewiseComparator children = Some m
    \<and> make_moves (Merging_ops BlockIter_ops) [To_first, Forward, Forward, Backward] m = Some m'
    \<and> shows_entry (Merging_ops BlockIter_ops)
        [([1], [10]), ([1, 1], [12]), ([1, 2], [11]), ([2], []), ([3], [13])] 1 m'"
proof -
  let ?es = "[([1], [10]), ([1, 1], [12]), ([1, 2], [11]), ([2], []), ([3], [13])] :: entries"
  let ?ess = "[example_entries, example_other_entries]"
  obtain i j where c: "list_all2 (\<lambda>i l. \<exists>n. block_at (\<lambda>_. True) BytewiseComparator i l n) [i, j] ?ess"
    using example_iterators by auto
  have p: "parts (\<lambda>_. True) BytewiseComparator ?ess ?es"
    by (auto simp: parts_def sorted_entries_def example_entries_def example_other_entries_def less_Suc_eq)
  have mv: "targets_ok (\<lambda>_. True) [To_first, Forward, Forward, Backward]"
    "moves_position BytewiseComparator ?es [To_first, Forward, Forward, Backward] (length ?es) = Some 1"
    by (simp_all add: targets_ok_def)
  show ?thesis
    using merging_iterator_moves [OF block.iterator_axioms bytewise.comparator_axioms p c mv] by blast
qed

end
