(* ===== verification/Log_Roundtrip.thy ===== *)
theory Log_Roundtrip
  imports Log
begin

text \<open>
  What \<open>Log\<close> guarantees: the bytes that \<open>AddRecord\<close> appends, the records that \<open>ReadRecord\<close>
  gives back, and what it gives back from a log that was cut off at an arbitrary byte.
\<close>

subsection \<open>The image of a record\<close>

text \<open>A physical record, and how a logical record is laid out from block offset \<open>off\<close>: every
  fragment fits its block, and the offset after the last one is \<open>off'\<close>.\<close>

definition phys_raw :: "byte \<Rightarrow> bytes \<Rightarrow> bytes" where
  "phys_raw ty d = EncodeFixed32 (crc_Mask (crc32c (ty # d)))
     @ [ucast ((word_of_nat (length d) :: u64) AND 0xff), ucast (drop_bit 8 (word_of_nat (length d) :: u64)),
        ty] @ d"

definition phys :: "RecordType \<Rightarrow> bytes \<Rightarrow> bytes" where
  "phys t d = phys_raw (word_of_nat (RecordType_value t)) d"

definition pad_at :: "nat \<Rightarrow> bytes" where
  "pad_at off = (if kBlockSize - off < kHeaderSize then replicate (kBlockSize - off) 0 else [])"

definition start_at :: "nat \<Rightarrow> nat" where
  "start_at off = (if kBlockSize - off < kHeaderSize then 0 else off)"

definition room_at :: "nat \<Rightarrow> nat" where
  "room_at off = kBlockSize - start_at off - kHeaderSize"

inductive written :: "bool \<Rightarrow> bytes \<Rightarrow> nat \<Rightarrow> bytes \<Rightarrow> nat \<Rightarrow> bool" where
  last: "length d \<le> room_at off \<Longrightarrow>
    written b d off (pad_at off @ phys (fragment_type b True) d)
      (start_at off + kHeaderSize + length d)"
| more: "room_at off < length d \<Longrightarrow> n = room_at off \<Longrightarrow>
    written False (drop n d) (start_at off + kHeaderSize + n) bs off' \<Longrightarrow>
    written b d off (pad_at off @ phys (fragment_type b False) (take n d) @ bs) off'"

lemma start_room: "start_at off + kHeaderSize + room_at off = kBlockSize"
  by (auto simp: start_at_def room_at_def kBlockSize_def kHeaderSize_def)

lemma written_offset: "written b d off bs off' \<Longrightarrow> off' \<le> kBlockSize"
proof (induction rule: written.induct)
  case (last d off b)
  then show ?case using start_room [of off] by linarith
qed

lemma length_phys [simp]:
  "length (phys_raw ty d) = kHeaderSize + length d" "length (phys t d) = kHeaderSize + length d"
  by (simp_all add: phys_def phys_raw_def kHeaderSize_def)

lemma type_crc: "InitTypeCrc ! RecordType_value t = crc_Value 0 [word_of_nat (RecordType_value t)]"
  by (cases t) (simp_all add: InitTypeCrc_def kMaxRecordType_def nth_append)

lemma crc_of_record: "crc_Extend 0 (InitTypeCrc ! RecordType_value t) d = crc32c (word_of_nat (RecordType_value t) # d)"
  by (simp only: type_crc crc_Value_spec crc_Extend_spec) simp

subsection \<open>The writer\<close>

context writable_file
begin

lemma SwitchBlock_writes:
  assumes "contents (lw_dest w) = durable (lw_dest w)"
  shows "contents (lw_dest (SwitchBlock ops w)) = contents (lw_dest w) @ pad_at (lw_block_offset w)
    \<and> lw_block_offset (SwitchBlock ops w) = start_at (lw_block_offset w)
    \<and> lw_type_crc (SwitchBlock ops w) = lw_type_crc w"
proof -
  let ?z = "replicate (kBlockSize - lw_block_offset w) (0 :: byte)"
  obtain s f where a: "wf_Append ops ?z (lw_dest w) = (s, f)" by fastforce
  have "Status_ok s" if "kBlockSize - lw_block_offset w < kHeaderSize"
    using append_buffered [OF assms, of ?z] a that by (simp add: kHeaderSize_def)
  then show ?thesis
    using append_ok [OF a] a by (auto simp: SwitchBlock_def Let_def pad_at_def start_at_def)
qed

lemma EmitPhysicalRecord_writes:
  assumes "EmitPhysicalRecord ops t d w = (s, w')" "Status_ok s" "lw_type_crc w = InitTypeCrc"
  shows "contents (lw_dest w') = contents (lw_dest w) @ phys t d
    \<and> contents (lw_dest w') = durable (lw_dest w')"
proof -
  define buf where "buf = take kHeaderSize (phys t d)"
  have buf: "buf = EncodeFixed32 (crc_Mask (crc_Extend 0 (lw_type_crc w ! RecordType_value t) d))
    @ [ucast ((word_of_nat (length d) :: u64) AND 0xff), ucast (drop_bit 8 (word_of_nat (length d) :: u64)),
       word_of_nat (RecordType_value t)]" "phys t d = buf @ d"
    by (simp_all add: buf_def phys_def phys_raw_def assms(3) crc_of_record kHeaderSize_def)
  obtain s1 f1 where 1: "wf_Append ops buf (lw_dest w) = (s1, f1)" by fastforce
  obtain s2 f2 where 2: "wf_Append ops d f1 = (s2, f2)" by fastforce
  obtain s3 f3 where 3: "wf_Flush ops f2 = (s3, f3)" by fastforce
  have "Status_ok s1 \<and> Status_ok s2 \<and> s = s3 \<and> lw_dest w' = f3"
    using assms(1,2) 1 2 3 unfolding EmitPhysicalRecord_def Let_def buf(1) [symmetric]
    by (auto split: if_splits)
  then show ?thesis
    using append_ok [OF 1] append_ok [OF 2] flush_ok [OF 3] assms(2) buf(2) by auto
qed

lemma AddRecord_loop_step:
  assumes "AddRecord_loop ops b d w = (s, w')"
  defines "n \<equiv> min (length d) (room_at (lw_block_offset w))"
  assumes "lw_type_crc w = InitTypeCrc" "contents (lw_dest w) = durable (lw_dest w)"
  shows "\<exists>s1 w1. EmitPhysicalRecord ops (fragment_type b (length d = n)) (take n d) (SwitchBlock ops w) = (s1, w1)
    \<and> lw_block_offset w1 = start_at (lw_block_offset w) + kHeaderSize + n
    \<and> lw_type_crc w1 = InitTypeCrc
    \<and> (if Status_ok s1 \<and> drop n d \<noteq> [] then AddRecord_loop ops False (drop n d) w1 = (s, w')
       else s = s1 \<and> w' = w1)"
proof -
  let ?w = "SwitchBlock ops w"
  have sw: "lw_block_offset ?w = start_at (lw_block_offset w)" "lw_type_crc ?w = InitTypeCrc"
    using SwitchBlock_writes [OF assms(4)] assms(3) by auto
  then have "kBlockSize - lw_block_offset ?w - kHeaderSize = room_at (lw_block_offset w)"
    by (simp add: room_at_def)
  then have n: "(if length d < kBlockSize - lw_block_offset ?w - kHeaderSize then length d
      else kBlockSize - lw_block_offset ?w - kHeaderSize) = n"
    by (simp add: n_def)
  obtain s1 w1 where e: "EmitPhysicalRecord ops (fragment_type b (length d = n)) (take n d) ?w = (s1, w1)"
    by fastforce
  have "n \<le> length d" by (simp add: n_def)
  have "AddRecord_loop ops b d w =
    (case EmitPhysicalRecord ops (fragment_type b (length d = n)) (take n d) ?w of
       (s, w) \<Rightarrow> if Status_ok s \<and> length (drop n d) > 0 then AddRecord_loop ops False (drop n d) w else (s, w))"
    by (subst AddRecord_loop.simps) (simp only: Let_def n)
  then show ?thesis
    using e EmitPhysicalRecord_offset [OF e] sw assms(1) \<open>n \<le> length d\<close>
    by (auto split: if_splits)
qed

lemma AddRecord_loop_writes:
  assumes "AddRecord_loop ops b d w = (s, w')" "Status_ok s" "lw_type_crc w = InitTypeCrc"
    and "contents (lw_dest w) = durable (lw_dest w)"
  shows "\<exists>bs. written b d (lw_block_offset w) bs (lw_block_offset w')
    \<and> contents (lw_dest w') = contents (lw_dest w) @ bs
    \<and> contents (lw_dest w') = durable (lw_dest w') \<and> lw_type_crc w' = InitTypeCrc"
  using assms
proof (induction "(length d, if kBlockSize - lw_block_offset w = kHeaderSize then 1 else 0 :: nat)"
    arbitrary: b d w rule: wf_induct_rule [OF wf_lex_prod [OF wf_less_than wf_less_than]])
  case (1 d w b)
  let ?off = "lw_block_offset w"
  define n where "n = min (length d) (room_at ?off)"
  obtain s1 w1 where e: "EmitPhysicalRecord ops (fragment_type b (length d = n)) (take n d) (SwitchBlock ops w) = (s1, w1)"
    and o1: "lw_block_offset w1 = start_at ?off + kHeaderSize + n" "lw_type_crc w1 = InitTypeCrc"
    and rest: "if Status_ok s1 \<and> drop n d \<noteq> [] then AddRecord_loop ops False (drop n d) w1 = (s, w')
       else s = s1 \<and> w' = w1"
    using AddRecord_loop_step [OF 1(2,4,5)] unfolding n_def by blast
  have ok: "Status_ok s1" using rest 1(3) by (auto split: if_splits)
  have w1: "contents (lw_dest w1) = contents (lw_dest w) @ pad_at ?off @ phys (fragment_type b (length d = n)) (take n d)"
    "contents (lw_dest w1) = durable (lw_dest w1)"
    using EmitPhysicalRecord_writes [OF e ok] SwitchBlock_writes [OF 1(5)] 1(4) by auto
  show ?case
  proof (cases "drop n d = []")
    case True
    then have "length d = n" "length d \<le> room_at ?off" by (auto simp: n_def)
    moreover have "w' = w1" using rest True by simp
    ultimately show ?thesis
      using w1 o1 written.last [of d ?off b] by (auto intro!: exI)
  next
    case False
    then have n: "n = room_at ?off" "n < length d" by (auto simp: n_def)
    have loop: "AddRecord_loop ops False (drop n d) w1 = (s, w')"
      using rest False ok by simp
    have "((length (drop n d), if kBlockSize - lw_block_offset w1 = kHeaderSize then 1 else 0 :: nat),
        (length d, if kBlockSize - ?off = kHeaderSize then 1 else 0)) \<in> less_than <*lex*> less_than"
      using n o1(1) start_room [of ?off]
      by (auto simp: kBlockSize_def kHeaderSize_def start_at_def room_at_def split: if_splits)
    then obtain bs where "written False (drop n d) (lw_block_offset w1) bs (lw_block_offset w')"
      "contents (lw_dest w') = contents (lw_dest w1) @ bs"
      "contents (lw_dest w') = durable (lw_dest w') \<and> lw_type_crc w' = InitTypeCrc"
      using 1(1) [OF _ loop 1(3) o1(2) w1(2)] by blast
    then show ?thesis
      using written.more [of ?off d n bs "lw_block_offset w'" b] n w1(1) o1(1) by auto
  qed
qed

end

subsection \<open>Parsing a physical record\<close>

lemma u32_and_ff: "x AND 0xff = take_bit 8 x" for x :: u32
  by (simp add: take_bit_eq_mask mask_eq_exp_minus_1)

lemma low_byte: "(ucast (ucast (v AND 0xff) :: byte) :: u32) AND 0xff = take_bit 8 (ucast v)" for v :: u64
  unfolding ucast_and_0xff u32_and_ff by (rule bit_word_eqI) (auto simp: bit_simps)

lemma high_byte:
  fixes v :: u64
  assumes "unat v < 2 ^ 16"
  shows "(ucast (ucast (drop_bit 8 v) :: byte) :: u32) AND 0xff = take_bit 8 (drop_bit 8 (ucast v))"
proof (rule bit_word_eqI)
  fix n assume "n < LENGTH(32)"
  show "bit ((ucast (ucast (drop_bit 8 v) :: byte) :: u32) AND 0xff) n = bit (take_bit 8 (drop_bit 8 (ucast v) :: u32)) n"
    unfolding u32_and_ff using bit_bound [OF assms, of "8 + n"] by (auto simp: bit_simps)
qed

lemma length_bytes:
  assumes "n < 2 ^ 16"
  shows "unat (((ucast (ucast ((word_of_nat n :: u64) AND 0xff) :: byte) :: u32) AND 0xff)
      OR push_bit 8 ((ucast (ucast (drop_bit 8 (word_of_nat n :: u64)) :: byte) :: u32) AND 0xff)) = n"
proof -
  have v: "unat (word_of_nat n :: u64) = n" using assms by (intro unat_of_nat_u64) simp
  have "unat (take_bit (8 + 8) (ucast (word_of_nat n :: u64) :: u32)) = take_bit 16 (take_bit 32 n)"
    by (simp add: unsigned_take_bit_eq unsigned_ucast_eq v)
  also have "\<dots> = n" using assms by (simp add: take_bit_nat_eq_self)
  finally show ?thesis
    using v assms high_byte [of "word_of_nat n"] by (simp only: low_byte take_or_push_take)
qed

lemma type_byte: "(scast (word_of_nat (RecordType_value t) :: byte) :: u32) = word_of_nat (RecordType_value t)"
  by (cases t) simp_all

lemma RecordType_nonzero: "t \<noteq> kZeroType \<Longrightarrow> (word_of_nat (RecordType_value t) :: u32) \<noteq> 0"
  by (cases t) simp_all

lemma phys_header:
  "phys_raw ty d ! 4 = ucast ((word_of_nat (length d) :: u64) AND 0xff)"
  "phys_raw ty d ! 5 = ucast (drop_bit 8 (word_of_nat (length d) :: u64))"
  "phys_raw ty d ! 6 = ty"
  "drop 6 (phys_raw ty d) = ty # d"
  "drop kHeaderSize (phys_raw ty d) = d"
  "DecodeFixed32 (phys_raw ty d @ rest) = Some (crc_Mask (crc32c (ty # d)))"
  by (simp_all add: phys_raw_def nth_append kHeaderSize_def)

lemma ParsePhysicalRecord_raw:
  assumes "lr_buffer r = phys_raw tb d @ rest" "(scast tb :: u32) \<noteq> 0" "length d < 2 ^ 16"
    and "lr_initial_offset r = 0"
  shows "ParsePhysicalRecord result r = (scast tb, d, r\<lparr>lr_buffer := rest\<rparr>)"
proof -
  let ?h = "phys_raw tb d @ rest"
  have h: "?h ! 4 = phys_raw tb d ! 4" "?h ! 5 = phys_raw tb d ! 5" "?h ! 6 = phys_raw tb d ! 6"
    by (simp_all add: nth_append kHeaderSize_def)
  have len: "unat (((ucast (?h ! 4) :: u32) AND 0xff) OR push_bit 8 ((ucast (?h ! 5) :: u32) AND 0xff)) = length d"
    using length_bytes [OF assms(3)] by (simp only: h phys_header)
  have ty: "?h ! 6 = tb"
    by (simp only: h phys_header)
  have body: "take (1 + length d) (drop 6 ?h) = tb # d"
    by (simp add: phys_header kHeaderSize_def)
  have dh: "drop kHeaderSize ?h = d @ rest" by (simp add: phys_header)
  have drop: "drop (kHeaderSize + length d) ?h = rest" by simp
  show ?thesis
    unfolding ParsePhysicalRecord_def Let_def assms(1) len ty body
    using assms(2,4) by (simp add: phys_header crc_Value_spec dh drop)
qed

lemma ParsePhysicalRecord_phys:
  assumes "lr_buffer r = phys t d @ rest" "t \<noteq> kZeroType" "length d < 2 ^ 16" "lr_initial_offset r = 0"
  shows "ParsePhysicalRecord result r = (word_of_nat (RecordType_value t), d, r\<lparr>lr_buffer := rest\<rparr>)"
  using assms ParsePhysicalRecord_raw [of r "word_of_nat (RecordType_value t)" d rest result]
    RecordType_nonzero [of t] by (simp add: phys_def type_byte)

text \<open>A header whose payload is missing at the end of the file is the end of the file.\<close>

lemma ParsePhysicalRecord_truncated:
  assumes sp: "strict_prefix (lr_buffer r) (phys t d)" and "kHeaderSize \<le> length (lr_buffer r)"
    and "length d < 2 ^ 16" "lr_eof r"
  shows "ParsePhysicalRecord result r = (kEof, result, r\<lparr>lr_buffer := []\<rparr>)"
proof -
  let ?t = "word_of_nat (RecordType_value t) :: byte"
  obtain rest where rest: "phys_raw ?t d = lr_buffer r @ rest" "rest \<noteq> []"
    using sp by (auto simp: strict_prefix_def prefix_def phys_def)
  let ?h = "lr_buffer r"
  have h: "?h ! 4 = phys_raw ?t d ! 4" "?h ! 5 = phys_raw ?t d ! 5"
    using assms(2) by (simp_all add: rest(1) nth_append kHeaderSize_def)
  have len: "unat (((ucast (?h ! 4) :: u32) AND 0xff) OR push_bit 8 ((ucast (?h ! 5) :: u32) AND 0xff)) = length d"
    using length_bytes [OF assms(3)] by (simp only: h phys_header)
  have "kHeaderSize + length d = length ?h + length rest"
    using arg_cong [OF rest(1), of length] by simp
  then have "kHeaderSize + length d > length ?h" using rest(2) by simp
  then show ?thesis
    unfolding ParsePhysicalRecord_def Let_def len using assms(4) by simp
qed

subsection \<open>The reader's position\<close>

text \<open>\<open>B\<close> is what is still to be read, from block offset \<open>off\<close> on: the buffer holds the rest of the
  current block, or, after a short read, all of it.\<close>

definition log_at :: "('g \<Rightarrow> bytes) \<Rightarrow> nat \<Rightarrow> bytes \<Rightarrow> 'g LogReader \<Rightarrow> bool" where
  "log_at remaining off B r \<longleftrightarrow>
     lr_buffer r @ remaining (lr_file r) = B \<and> off \<le> kBlockSize
     \<and> (if lr_eof r then remaining (lr_file r) = [] \<and> length B \<le> (kBlockSize - off) mod kBlockSize
        else length (lr_buffer r) = (kBlockSize - off) mod kBlockSize)
     \<and> lr_initial_offset r = 0 \<and> \<not> lr_resyncing r"

definition same_reports :: "'g LogReader \<Rightarrow> 'g LogReader \<Rightarrow> bool" where
  "same_reports r r' \<longleftrightarrow> lr_drops r' = lr_drops r \<and> lr_checksum r' = lr_checksum r
     \<and> lr_has_reporter r' = lr_has_reporter r"

lemma same_reports_trans: "same_reports a b \<Longrightarrow> same_reports b c \<Longrightarrow> same_reports a c"
  by (simp add: same_reports_def)

lemma same_reports_refl: "same_reports a a"
  by (simp add: same_reports_def)

text \<open>Refilling the buffer at the end of a block.\<close>

definition refill :: "'g SequentialFile \<Rightarrow> 'g LogReader \<Rightarrow> 'g LogReader" where
  "refill ops r = (case sf_Read ops kBlockSize (lr_file r) of
     (status, data, file) \<Rightarrow>
       r\<lparr>lr_buffer := data, lr_file := file,
         lr_end_of_buffer_offset := lr_end_of_buffer_offset r + word_of_nat (length data),
         lr_eof := (length data < kBlockSize)\<rparr>)"

context reliable_sequential_file
begin

lemma ReadPhysicalRecord_refill:
  assumes "length (lr_buffer r) < kHeaderSize" "\<not> lr_eof r" "reliable (lr_file r)"
  shows "ReadPhysicalRecord ops result r = ReadPhysicalRecord ops result (refill ops r)
    \<and> lr_buffer (refill ops r) = take kBlockSize (remaining (lr_file r))
    \<and> remaining (lr_file (refill ops r)) = drop kBlockSize (remaining (lr_file r))
    \<and> reliable (lr_file (refill ops r)) \<and> same_reports r (refill ops r)
    \<and> (lr_eof (refill ops r) \<longleftrightarrow> length (remaining (lr_file r)) < kBlockSize)
    \<and> lr_initial_offset (refill ops r) = lr_initial_offset r \<and> lr_resyncing (refill ops r) = lr_resyncing r"
proof -
  obtain s data f where f: "sf_Read ops kBlockSize (lr_file r) = (s, data, f)"
    by (metis prod_cases3)
  have ok: "Status_ok s" "reliable f"
    using reliable_read [OF assms(3) f] by auto
  have d: "data = take kBlockSize (remaining (lr_file r))" "remaining f = drop kBlockSize (remaining (lr_file r))"
    using read_ok [OF f ok(1)] by auto
  have e: "r\<lparr>lr_buffer := data, lr_file := f, lr_end_of_buffer_offset := x, lr_eof := False\<rparr>
    = r\<lparr>lr_buffer := data, lr_file := f, lr_end_of_buffer_offset := x\<rparr>" for x
    using assms(2) by simp
  have "ReadPhysicalRecord ops result r = ReadPhysicalRecord ops result (refill ops r)"
    using assms f ok(1) by (subst ReadPhysicalRecord.simps) (simp add: refill_def Let_def e)
  then show ?thesis
    using d ok f by (auto simp: refill_def same_reports_def min_def)
qed

text \<open>Reading the next physical record, whether the block has to be switched or not.\<close>

lemma ReadPhysicalRecord_phys:
  assumes "log_at remaining off (pad_at off @ phys t d @ B) r" "reliable (lr_file r)"
    and "t \<noteq> kZeroType" "length d \<le> room_at off"
  shows "\<exists>r'. ReadPhysicalRecord ops result r = (word_of_nat (RecordType_value t), d, r')
    \<and> log_at remaining (start_at off + kHeaderSize + length d) B r' \<and> reliable (lr_file r')
    \<and> same_reports r r'"
proof -
  let ?lo = "(kBlockSize - off) mod kBlockSize"
  have small: "length d < 2 ^ 16"
    using assms(4) by (simp add: room_at_def kBlockSize_def)
  have at: "lr_buffer r @ remaining (lr_file r) = pad_at off @ phys t d @ B" "off \<le> kBlockSize"
    "lr_initial_offset r = 0" "\<not> lr_resyncing r"
    "if lr_eof r then remaining (lr_file r) = [] \<and> length (pad_at off @ phys t d @ B) \<le> ?lo
     else length (lr_buffer r) = ?lo"
    using assms(1) by (auto simp: log_at_def split: if_splits)
  show ?thesis
  proof (cases "off \<noteq> 0 \<and> kHeaderSize \<le> kBlockSize - off")
    case True
    then have lo: "?lo = kBlockSize - off" and pad: "pad_at off = []" "start_at off = off"
      by (auto simp: pad_at_def start_at_def kBlockSize_def kHeaderSize_def)
    have fits: "kHeaderSize + length d \<le> kBlockSize - off"
      using assms(4) True pad(2) start_room [of off] by linarith
    obtain rest where rest: "lr_buffer r = phys t d @ rest" "rest @ remaining (lr_file r) = B"
    proof (cases "lr_eof r")
      case True
      then show ?thesis using that at(1,5) pad by auto
    next
      case False
      then have "length (phys t d) \<le> length (lr_buffer r)" using at(5) lo fits by simp
      moreover have "take (length (phys t d)) (lr_buffer r @ remaining (lr_file r)) = phys t d"
        "drop (length (phys t d)) (lr_buffer r @ remaining (lr_file r)) = B"
        using at(1) pad by simp_all
      ultimately have "lr_buffer r = phys t d @ drop (length (phys t d)) (lr_buffer r)"
        "drop (length (phys t d)) (lr_buffer r) @ remaining (lr_file r) = B"
        by (simp_all del: length_phys) (metis append_take_drop_id)
      then show ?thesis by (rule that)
    qed
    have long: "\<not> length (lr_buffer r) < kHeaderSize" using rest(1) by simp
    let ?r = "r\<lparr>lr_buffer := rest\<rparr>"
    have "ReadPhysicalRecord ops result r = (word_of_nat (RecordType_value t), d, ?r)"
      using long ParsePhysicalRecord_phys [OF rest(1) assms(3) small at(3)]
      by (subst ReadPhysicalRecord.simps) simp
    moreover have "log_at remaining (start_at off + kHeaderSize + length d) B ?r"
      using at rest pad lo fits by (auto simp: log_at_def kBlockSize_def split: if_splits)
    ultimately show ?thesis
      using assms(2) by (auto simp: same_reports_def)
  next
    case False
    have lo: "length (pad_at off) = ?lo" "start_at off = 0" "?lo < kHeaderSize"
      using False by (auto simp: pad_at_def start_at_def kBlockSize_def kHeaderSize_def)
    have ne: "\<not> lr_eof r" using at(5) lo by (auto simp: kHeaderSize_def)
    then have buf: "lr_buffer r = pad_at off" "remaining (lr_file r) = phys t d @ B"
      using at(1,5) lo(1) by (auto simp: append_eq_append_conv)
    have short: "length (lr_buffer r) < kHeaderSize" using buf(1) lo by simp
    note rf = ReadPhysicalRecord_refill [OF short ne assms(2), of result]
    have fits: "kHeaderSize + length d \<le> kBlockSize"
      using assms(4) start_room [of off] by linarith
    define rest where "rest = take (kBlockSize - kHeaderSize - length d) B"
    have b: "lr_buffer (refill ops r) = phys t d @ rest"
      using rf buf(2) fits by (simp add: rest_def)
    have long: "\<not> length (lr_buffer (refill ops r)) < kHeaderSize" by (simp add: b)
    let ?r = "refill ops r\<lparr>lr_buffer := rest\<rparr>"
    have "ReadPhysicalRecord ops result r = (word_of_nat (RecordType_value t), d, ?r)"
      using rf long ParsePhysicalRecord_phys [OF b assms(3) small] at(3)
      by (simp add: ReadPhysicalRecord.simps [of ops result "refill ops r"])
    moreover have "rest @ remaining (lr_file (refill ops r)) = B"
      using rf buf(2) fits by (simp add: rest_def add.commute)
    moreover have "if lr_eof (refill ops r) then remaining (lr_file (refill ops r)) = []
        \<and> length B \<le> (kBlockSize - (kHeaderSize + length d)) mod kBlockSize
      else length rest = (kBlockSize - (kHeaderSize + length d)) mod kBlockSize"
      using rf buf(2) fits by (auto simp: rest_def kBlockSize_def kHeaderSize_def)
    ultimately show ?thesis
      using rf at(3,4) lo(2) fits by (auto simp: log_at_def same_reports_def split: if_splits)
  qed
qed

lemma ReadPhysicalRecord_end:
  assumes "log_at remaining off [] r" "reliable (lr_file r)"
  shows "\<exists>r'. ReadPhysicalRecord ops result r = (kEof, result, r') \<and> same_reports r r'"
proof -
  have b: "lr_buffer r = []" "remaining (lr_file r) = []" using assms by (auto simp: log_at_def)
  show ?thesis
  proof (cases "lr_eof r")
    case True
    then show ?thesis
      using b by (subst ReadPhysicalRecord.simps) (simp add: kHeaderSize_def same_reports_def)
  next
    case False
    then have rf: "ReadPhysicalRecord ops result r = ReadPhysicalRecord ops result (refill ops r)"
      "lr_buffer (refill ops r) = []" "lr_eof (refill ops r)" "same_reports r (refill ops r)"
      using ReadPhysicalRecord_refill [of r result] b assms(2) by (auto simp: kHeaderSize_def kBlockSize_def)
    then show ?thesis
      by (simp add: ReadPhysicalRecord.simps [of ops result "refill ops r"] kHeaderSize_def same_reports_def)
  qed
qed

text \<open>A physical record that was cut off is the end of the file.\<close>

lemma ReadPhysicalRecord_truncated:
  assumes "log_at remaining off B r" "reliable (lr_file r)"
    and "strict_prefix B (pad_at off @ phys t d)" "length d \<le> room_at off"
  shows "\<exists>r'. ReadPhysicalRecord ops result r = (kEof, result, r') \<and> same_reports r r'
    \<and> \<not> lr_resyncing r'"
proof -
  let ?lo = "(kBlockSize - off) mod kBlockSize"
  have small: "length d < 2 ^ 16"
    using assms(4) by (simp add: room_at_def kBlockSize_def)
  have at: "lr_buffer r @ remaining (lr_file r) = B" "off \<le> kBlockSize" "\<not> lr_resyncing r"
    "if lr_eof r then remaining (lr_file r) = [] \<and> length B \<le> ?lo else length (lr_buffer r) = ?lo"
    using assms(1) by (auto simp: log_at_def split: if_splits)
  have shorter: "length B < length (pad_at off) + kHeaderSize + length d"
    using prefix_length_less [OF assms(3)] by simp
  have eof_case: "\<exists>r'. ReadPhysicalRecord ops result q = (kEof, result, r') \<and> same_reports q r' \<and> \<not> lr_resyncing r'"
    if "lr_eof q" "strict_prefix (lr_buffer q) (phys t d) \<or> length (lr_buffer q) < kHeaderSize"
      "\<not> lr_resyncing q" for q
    using that ParsePhysicalRecord_truncated [of q t d result] small
    by (subst ReadPhysicalRecord.simps) (auto simp: same_reports_def)
  show ?thesis
  proof (cases "off \<noteq> 0 \<and> kHeaderSize \<le> kBlockSize - off")
    case True
    then have lo: "?lo = kBlockSize - off" and pad: "pad_at off = []" "start_at off = off"
      by (auto simp: pad_at_def start_at_def kBlockSize_def kHeaderSize_def)
    have "kHeaderSize + length d \<le> kBlockSize - off"
      using assms(4) True pad(2) start_room [of off] by linarith
    then have "lr_eof r"
      using at(1,4) shorter lo pad arg_cong [OF at(1), of length] by (auto split: if_splits)
    then show ?thesis
      using eof_case [of r] at assms(3) pad by simp
  next
    case False
    have lo: "length (pad_at off) = ?lo" "?lo < kHeaderSize"
      using False by (auto simp: pad_at_def kBlockSize_def kHeaderSize_def)
    show ?thesis
    proof (cases "lr_eof r")
      case True
      then have "length (lr_buffer r) < kHeaderSize" using at(1,4) lo by auto
      then show ?thesis using eof_case [of r] True at(3) by simp
    next
      case ne: False
      then have len: "length (lr_buffer r) = length (pad_at off)" using at(4) lo by simp
      then have buf: "lr_buffer r = pad_at off" "strict_prefix (remaining (lr_file r)) (phys t d)"
        using assms(3) at(1) by (auto simp: strict_prefix_def prefix_def append_eq_append_conv)
      have short: "length (lr_buffer r) < kHeaderSize" using buf(1) lo by simp
      note rf = ReadPhysicalRecord_refill [OF short ne assms(2), of result]
      have "kHeaderSize + length d \<le> kBlockSize"
        using assms(4) start_room [of off] by linarith
      then have "length (remaining (lr_file r)) < kBlockSize"
        using prefix_length_less [OF buf(2)] by simp
      then have "lr_eof (refill ops r)" "lr_buffer (refill ops r) = remaining (lr_file r)"
        using rf by simp_all
      then show ?thesis
        using rf eof_case [of "refill ops r"] buf(2) at(3) same_reports_trans by auto
    qed
  qed
qed

end

subsection \<open>Logical records\<close>

lemma fragment_type_simps [simp]:
  "fragment_type True True = kFullType" "fragment_type True False = kFirstType"
  "fragment_type False True = kLastType" "fragment_type False False = kMiddleType"
  by (simp_all add: fragment_type_def)

lemma kEof_value: "kEof = 5" "kBadRecord = 6"
  by (simp_all add: kEof_def kBadRecord_def kMaxRecordType_def)

lemma log_at_not_resyncing: "log_at rem off B r \<Longrightarrow> \<not> lr_resyncing r"
  by (simp add: log_at_def)

lemma log_at_offset_update [simp]:
  "log_at rem off B (r\<lparr>lr_last_record_offset := x\<rparr>) = log_at rem off B r"
  by (simp add: log_at_def)

lemma same_reports_update [simp]:
  "same_reports r (q\<lparr>lr_last_record_offset := x\<rparr>) = same_reports r q"
  by (simp add: same_reports_def)

context reliable_sequential_file
begin

lemma ReadRecord_loop_written:
  assumes "written b d off bs off'" "log_at remaining off (bs @ B) r" "reliable (lr_file r)"
  shows "\<exists>sc r'. ReadRecord_loop ops (\<not> b) pro fragment S r = Some (Some ((if b then [] else S) @ d), sc, r')
    \<and> log_at remaining off' B r' \<and> reliable (lr_file r') \<and> same_reports r r'"
  using assms
proof (induction arbitrary: r pro fragment S rule: written.induct)
  case (last d off b)
  have ty: "fragment_type b True \<noteq> kZeroType" by (cases b) simp_all
  have at: "log_at remaining off (pad_at off @ phys (fragment_type b True) d @ B) r"
    using last(2) by simp
  obtain r' where r': "ReadPhysicalRecord ops fragment r = (word_of_nat (RecordType_value (fragment_type b True)), d, r')"
    "log_at remaining (start_at off + kHeaderSize + length d) B r'" "reliable (lr_file r')" "same_reports r r'"
    using ReadPhysicalRecord_phys [OF at last(3) ty last(1), of fragment] by blast
  show ?case
    using r' log_at_not_resyncing [OF r'(2)]
    by (cases b; subst ReadRecord_loop.simps) (simp_all add: Let_def)
next
  case (more off d n bs off' b)
  have ty: "fragment_type b False \<noteq> kZeroType" by (cases b) simp_all
  have at: "log_at remaining off (pad_at off @ phys (fragment_type b False) (take n d) @ (bs @ B)) r"
    using more.prems(1) by simp
  have "length (take n d) \<le> room_at off" "length (take n d) = n" using more.hyps by auto
  then obtain r' where r': "ReadPhysicalRecord ops fragment r =
      (word_of_nat (RecordType_value (fragment_type b False)), take n d, r')"
    "log_at remaining (start_at off + kHeaderSize + n) (bs @ B) r'" "reliable (lr_file r')" "same_reports r r'"
    using ReadPhysicalRecord_phys [OF at more.prems(2) ty, of fragment] by auto
  define S' where "S' = (if b then [] else S) @ take n d"
  have "\<exists>p'. ReadRecord_loop ops (\<not> b) pro fragment S r = ReadRecord_loop ops True p' (take n d) S' r'"
    using r'(1) log_at_not_resyncing [OF r'(2)]
    by (cases b; subst ReadRecord_loop.simps) (auto simp: Let_def S'_def)
  then obtain p' where step: "ReadRecord_loop ops (\<not> b) pro fragment S r = ReadRecord_loop ops True p' (take n d) S' r'" ..
  obtain sc r2 where "ReadRecord_loop ops True p' (take n d) S' r' = Some (Some (S' @ drop n d), sc, r2)"
    "log_at remaining off' B r2" "reliable (lr_file r2)" "same_reports r' r2"
    using more.IH [OF r'(2,3), of p' "take n d" S'] by auto
  then show ?case
    using step same_reports_trans [OF r'(4)] by (auto simp: S'_def)
qed

lemma ReadRecord_loop_truncated:
  assumes "written b d off bs off'" "log_at remaining off B r" "reliable (lr_file r)" "strict_prefix B bs"
  shows "\<exists>sc r'. ReadRecord_loop ops (\<not> b) pro fragment S r = Some (None, sc, r') \<and> same_reports r r'"
  using assms
proof (induction arbitrary: r pro fragment S B rule: written.induct)
  case (last d off b)
  obtain r' where "ReadPhysicalRecord ops fragment r = (kEof, fragment, r')" "same_reports r r'" "\<not> lr_resyncing r'"
    using ReadPhysicalRecord_truncated [OF last(2,3,4,1)] by blast
  then show ?case
    by (subst ReadRecord_loop.simps) (simp add: Let_def kEof_value)
next
  case (more off d n bs off' b)
  let ?p = "pad_at off @ phys (fragment_type b False) (take n d)"
  have len: "length (take n d) \<le> room_at off" "length (take n d) = n" using more.hyps by auto
  show ?case
  proof (cases "strict_prefix B ?p")
    case True
    then obtain r' where "ReadPhysicalRecord ops fragment r = (kEof, fragment, r')" "same_reports r r'" "\<not> lr_resyncing r'"
      using ReadPhysicalRecord_truncated [OF more.prems(1,2) True len(1)] by blast
    then show ?thesis
      by (subst ReadRecord_loop.simps) (simp add: Let_def kEof_value)
  next
    case False
    have "prefix B (?p @ bs)" using more.prems(3) by (simp add: strict_prefix_def)
    then obtain B2 where B2: "B = ?p @ B2"
      using False by (auto simp: prefix_append strict_prefix_def)
    then have sp: "strict_prefix B2 bs" using more.prems(3) by (auto simp: strict_prefix_def)
    have ty: "fragment_type b False \<noteq> kZeroType" by (cases b) simp_all
    have at: "log_at remaining off (pad_at off @ phys (fragment_type b False) (take n d) @ B2) r"
      using more.prems(1) B2 by simp
    obtain r' where r': "ReadPhysicalRecord ops fragment r =
        (word_of_nat (RecordType_value (fragment_type b False)), take n d, r')"
      "log_at remaining (start_at off + kHeaderSize + n) B2 r'" "reliable (lr_file r')" "same_reports r r'"
      using ReadPhysicalRecord_phys [OF at more.prems(2) ty len(1), of fragment] len(2) by auto
    have "\<exists>p' S'. ReadRecord_loop ops (\<not> b) pro fragment S r = ReadRecord_loop ops True p' (take n d) S' r'"
      using r'(1) log_at_not_resyncing [OF r'(2)]
      by (cases b; subst ReadRecord_loop.simps) (auto simp: Let_def)
    then obtain p' S' where step: "ReadRecord_loop ops (\<not> b) pro fragment S r = ReadRecord_loop ops True p' (take n d) S' r'"
      by blast
    then show ?thesis
      using more.IH [OF r'(2,3) sp, of p' "take n d" S'] same_reports_trans [OF r'(4)] by auto
  qed
qed

lemma ReadRecord_start:
  "log_at remaining off B r \<Longrightarrow> ReadRecord ops r = ReadRecord_loop ops False 0 [] [] r"
  by (simp add: ReadRecord_def log_at_def)

lemma ReadRecord_end:
  assumes "log_at remaining off [] r" "reliable (lr_file r)"
  shows "\<exists>sc r'. ReadRecord ops r = Some (None, sc, r') \<and> same_reports r r'"
proof -
  obtain r' where r': "ReadPhysicalRecord ops [] r = (kEof, [], r')" "same_reports r r'"
    using ReadPhysicalRecord_end [OF assms] by blast
  then have "same_reports r (if lr_resyncing r' \<and> kEof \<noteq> 3 then r'\<lparr>lr_resyncing := False\<rparr> else r')"
    by (simp add: same_reports_def)
  then show ?thesis
    using r'(1) unfolding ReadRecord_start [OF assms(1)]
    by (subst ReadRecord_loop.simps) (simp add: Let_def kEof_value)
qed

end

subsection \<open>Sequences of records\<close>

fun add_records :: "'f WritableFile \<Rightarrow> Slice list \<Rightarrow> 'f LogWriter \<Rightarrow> bool \<times> 'f LogWriter" where
  "add_records ops [] w = (True, w)"
| "add_records ops (d # ds) w =
     (case AddRecord ops d w of (s, w) \<Rightarrow> if Status_ok s then add_records ops ds w else (False, w))"

text \<open>At most \<open>n\<close> calls of \<open>ReadRecord\<close>, up to the one that returns false.\<close>

fun read_records :: "nat \<Rightarrow> 'g SequentialFile \<Rightarrow> 'g LogReader \<Rightarrow> (Slice list \<times> 'g LogReader) option" where
  "read_records 0 ops r = None"
| "read_records (Suc n) ops r =
     (case ReadRecord ops r of
        None \<Rightarrow> None
      | Some (None, sc, r) \<Rightarrow> Some ([], r)
      | Some (Some d, sc, r) \<Rightarrow>
          (case read_records n ops r of None \<Rightarrow> None | Some (ds, r) \<Rightarrow> Some (d # ds, r)))"

fun written_all :: "Slice list \<Rightarrow> nat \<Rightarrow> bytes \<Rightarrow> nat \<Rightarrow> bool" where
  "written_all [] off bs off' \<longleftrightarrow> bs = [] \<and> off' = off"
| "written_all (d # ds) off bs off' \<longleftrightarrow>
     (\<exists>b1 b2 m. bs = b1 @ b2 \<and> written True d off b1 m \<and> written_all ds m b2 off')"

context writable_file
begin

lemma AddRecord_writes:
  assumes "AddRecord ops d w = (s, w')" "Status_ok s" "lw_type_crc w = InitTypeCrc"
    and "contents (lw_dest w) = durable (lw_dest w)"
  shows "\<exists>bs. written True d (lw_block_offset w) bs (lw_block_offset w')
    \<and> contents (lw_dest w') = contents (lw_dest w) @ bs
    \<and> contents (lw_dest w') = durable (lw_dest w') \<and> lw_type_crc w' = InitTypeCrc"
  using assms unfolding AddRecord_def by (rule AddRecord_loop_writes)

lemma add_records_writes:
  assumes "add_records ops ds w = (True, w')" "lw_type_crc w = InitTypeCrc"
    and "contents (lw_dest w) = durable (lw_dest w)"
  shows "\<exists>bs. written_all ds (lw_block_offset w) bs (lw_block_offset w')
    \<and> durable (lw_dest w') = contents (lw_dest w) @ bs"
  using assms
proof (induction ds arbitrary: w)
  case Nil
  then show ?case by simp
next
  case (Cons d ds)
  obtain s w1 where a: "AddRecord ops d w = (s, w1)" by fastforce
  then have ok: "Status_ok s" and rest: "add_records ops ds w1 = (True, w')"
    using Cons.prems(1) by (auto split: if_splits)
  obtain b1 where b1: "written True d (lw_block_offset w) b1 (lw_block_offset w1)"
    "contents (lw_dest w1) = contents (lw_dest w) @ b1"
    "contents (lw_dest w1) = durable (lw_dest w1)" "lw_type_crc w1 = InitTypeCrc"
    using AddRecord_writes [OF a ok Cons.prems(2,3)] by blast
  obtain b2 where "written_all ds (lw_block_offset w1) b2 (lw_block_offset w')"
    "durable (lw_dest w') = contents (lw_dest w1) @ b2"
    using Cons.IH [OF rest b1(4,3)] by blast
  then show ?case
    using b1 by (intro exI [of _ "b1 @ b2"]) auto
qed

end

context reliable_sequential_file
begin

text \<open>From any prefix of the log, the records that are complete in it are read, then the end is
  reported, and nothing is reported as corrupt.\<close>

lemma read_records_prefix:
  assumes "written_all ds off bs off'" "prefix B bs" "log_at remaining off B r" "reliable (lr_file r)"
    and "length ds < n"
  shows "\<exists>k r'. read_records n ops r = Some (take k ds, r') \<and> same_reports r r'
    \<and> (B = bs \<longrightarrow> take k ds = ds)"
  using assms
proof (induction ds arbitrary: off bs B r n)
  case Nil
  then obtain m where "n = Suc m" by (cases n) auto
  then show ?case
    using Nil ReadRecord_end [of off r] by auto
next
  case (Cons d ds)
  from Cons.prems(1) obtain b1 b2 m where b: "bs = b1 @ b2" "written True d off b1 m"
    "written_all ds m b2 off'" by auto
  obtain n' where n': "n = Suc n'" "length ds < n'" using Cons.prems(5) by (cases n) auto
  show ?case
  proof (cases "strict_prefix B b1")
    case True
    obtain sc r' where "ReadRecord_loop ops False 0 [] [] r = Some (None, sc, r')" "same_reports r r'"
      using ReadRecord_loop_truncated [OF b(2) Cons.prems(3,4) True, of 0 "[]" "[]"] by auto
    moreover have "B \<noteq> bs" using True b(1) by (auto simp: strict_prefix_def prefix_def)
    ultimately show ?thesis
      using ReadRecord_start [OF Cons.prems(3)] n' by (intro exI [of _ 0]) auto
  next
    case False
    then obtain B2 where B2: "B = b1 @ B2" "prefix B2 b2"
      using Cons.prems(2) b(1) by (auto simp: prefix_append strict_prefix_def)
    obtain sc r1 where r1: "ReadRecord_loop ops False 0 [] [] r = Some (Some d, sc, r1)"
      "log_at remaining m B2 r1" "reliable (lr_file r1)" "same_reports r r1"
      using ReadRecord_loop_written [OF b(2) Cons.prems(3) [unfolded B2(1)] Cons.prems(4), of 0 "[]" "[]"]
      by auto
    obtain k r' where k: "read_records n' ops r1 = Some (take k ds, r')" "same_reports r1 r'"
      "B2 = b2 \<longrightarrow> take k ds = ds"
      using Cons.IH [OF b(3) B2(2) r1(2,3) n'(2)] by blast
    then show ?thesis
      using r1 n' b(1) B2(1) ReadRecord_start [OF Cons.prems(3)] same_reports_trans [OF r1(4)]
      by (intro exI [of _ "Suc k"]) auto
  qed
qed

end

subsection \<open>Properties\<close>

text \<open>C1. Append records to an empty log file through the POSIX environment, with whatever
  short writes and interrupted calls the kernel makes, each \<open>AddRecord\<close> returning OK; cut the
  file off at any byte, as a crash may do. Then reading it back returns a prefix of the records,
  complete and in order, ends without reporting corruption, and returns all of them when nothing
  was cut off.\<close>

theorem log_crash_safe:
  assumes "add_records PosixWritableFile_ops ds (new_LogWriter (new_PosixWritableFile fname fd os)) = (True, w)"
    and "os_data os = []" "prefix B (pw_durable (lw_dest w))"
    and "sq_remaining file = B" "sq_reliable file"
  shows "\<exists>k r. read_records (length ds + 1) PosixSequentialFile_ops (new_LogReader file reporter checksum 0)
      = Some (take k ds, r)
    \<and> lr_drops r = [] \<and> (B = pw_durable (lw_dest w) \<longrightarrow> take k ds = ds)"
proof -
  let ?w = "new_LogWriter (new_PosixWritableFile fname fd os)"
  let ?r = "new_LogReader file reporter checksum 0"
  have "lw_type_crc ?w = InitTypeCrc" "pw_contents (lw_dest ?w) = []" "pw_durable (lw_dest ?w) = []"
    "lw_block_offset ?w = 0"
    using assms(2) by (simp_all add: new_LogWriter_def new_PosixWritableFile_def pw_contents_def pw_durable_def)
  then obtain bs off where bs: "written_all ds 0 bs off" "pw_durable (lw_dest w) = bs"
    using posix_writable.add_records_writes [OF assms(1)] by auto
  have "log_at sq_remaining 0 B ?r" "sq_reliable (lr_file ?r)"
    using assms(4,5) by (simp_all add: log_at_def new_LogReader_def)
  then obtain k r where "read_records (length ds + 1) PosixSequentialFile_ops ?r = Some (take k ds, r)"
    "same_reports ?r r" "B = bs \<longrightarrow> take k ds = ds"
    using posix_reliable.read_records_prefix [OF bs(1), of B ?r "length ds + 1"] assms(3) bs(2) by auto
  then show ?thesis
    using bs(2) by (auto simp: same_reports_def new_LogReader_def)
qed

definition example_os :: "bytes \<Rightarrow> sys_result list \<Rightarrow> OSFile" where
  "example_os data script = \<lparr>os_data = data, os_pos = 0, os_script = script, os_strerror = (\<lambda>_. [])\<rparr>"

definition example_log :: "bool \<times> PosixWritableFile LogWriter" where
  "example_log = add_records PosixWritableFile_ops [[1], [2, 3]]
     (new_LogWriter (new_PosixWritableFile (lit ''f'') 3 (example_os [] [Sys_err 4, Sys_ok 3])))"

lemma log_crash_safe_witness:
  "\<exists>k r. read_records 3 PosixSequentialFile_ops
      (new_LogReader \<lparr>sq_os = example_os (pw_durable (lw_dest (snd example_log))) [Sys_err 4],
                      sq_filename = lit ''f''\<rparr> True True 0)
    = Some ([[1], [2, 3]], r) \<and> lr_drops r = []"
proof -
  have ok: "fst example_log"
    by (simp add: example_log_def example_os_def AddRecord_def AddRecord_loop.simps SwitchBlock_def
        EmitPhysicalRecord_def new_LogWriter_def new_PosixWritableFile_def PosixWritableFile_ops_def
        PosixWritableFile_Append_def PosixWritableFile_Flush_def FlushBuffer_def WriteUnbuffered_def
        kWritableFileBufferSize_def kBlockSize_def kHeaderSize_def Let_def
        WriteUnbuffered_loop_cases off_max_def)
  show ?thesis
    using log_crash_safe [of "[[1], [2, 3]]" "lit ''f''" 3 "example_os [] [Sys_err 4, Sys_ok 3]"
        "snd example_log" "pw_durable (lw_dest (snd example_log))"
        "\<lparr>sq_os = example_os (pw_durable (lw_dest (snd example_log))) [Sys_err 4], sq_filename = lit ''f''\<rparr>"
        True True] ok
    by (cases example_log)
      (auto simp: example_log_def example_os_def sq_remaining_def sq_reliable_def numeral_eq_Suc)
qed

text \<open>C28. The reader cannot tell a stored record type from its own results: a record with a
  correct checksum and the unknown type 5 ends the log without a report, whatever follows it,
  although the unknown types are meant to be reported as corrupt.\<close>

theorem unknown_type_5_ends_log:
  assumes "lr_buffer r = phys_raw 5 d @ rest" "length d < 2 ^ 16" "lr_initial_offset r = 0" "\<not> lr_resyncing r"
  shows "ReadRecord ops r = Some (None, [], r\<lparr>lr_buffer := rest\<rparr>)"
proof -
  have "ReadPhysicalRecord ops [] r = (5, d, r\<lparr>lr_buffer := rest\<rparr>)"
    using ParsePhysicalRecord_raw [OF assms(1) _ assms(2,3)] assms(1)
    by (subst ReadPhysicalRecord.simps) simp
  then show ?thesis
    using assms(3,4) by (simp add: ReadRecord_def, subst ReadRecord_loop.simps) (simp add: Let_def kEof_value)
qed

lemma unknown_type_5_ends_log_witness:
  "ReadRecord PosixSequentialFile_ops
     (new_LogReader \<lparr>sq_os = example_os [] [], sq_filename = lit ''f''\<rparr> True True 0
        \<lparr>lr_buffer := phys_raw 5 [1] @ phys kFullType [2]\<rparr>)
   = Some (None, [], new_LogReader \<lparr>sq_os = example_os [] [], sq_filename = lit ''f''\<rparr> True True 0
        \<lparr>lr_buffer := phys kFullType [2]\<rparr>)"
  by (subst unknown_type_5_ends_log [where d = "[1]" and rest = "phys kFullType [2]"])
    (simp_all add: new_LogReader_def)

end
