(* ===== verification/Filename.thy ===== *)
theory Filename
  imports Logging
begin

text \<open>
  \<open>db/filename.h\<close> and \<open>db/filename.cc\<close>: the names of the files of a database, and the parser
  that recognises them when the directory is listed. Every generated name is shown to be
  recognised with its number and type. A name is \<^term>\<open>None\<close> where the assertion that the number
  is not zero fails. \<open>SetCurrentFile\<close>, which writes and renames files, is not modelled.
\<close>

datatype FileType = kLogFile | kDBLockFile | kTableFile | kDescriptorFile | kCurrentFile
  | kTempFile | kInfoLogFile

text \<open>\<open>%06llu\<close>.\<close>

definition decimal6 :: "nat \<Rightarrow> bytes" where
  "decimal6 n = (let ds = decimal n in replicate (6 - length ds) 48 @ ds)"

definition MakeFileName :: "bytes \<Rightarrow> u64 \<Rightarrow> bytes \<Rightarrow> bytes" where
  "MakeFileName dbname number suffix =
     dbname @ take 99 (lit ''/'' @ decimal6 (unat number) @ lit ''.'' @ suffix)"

definition LogFileName :: "bytes \<Rightarrow> u64 \<Rightarrow> bytes option" where
  "LogFileName dbname number = (if number > 0 then Some (MakeFileName dbname number (lit ''log'')) else None)"

definition TableFileName :: "bytes \<Rightarrow> u64 \<Rightarrow> bytes option" where
  "TableFileName dbname number = (if number > 0 then Some (MakeFileName dbname number (lit ''ldb'')) else None)"

definition SSTTableFileName :: "bytes \<Rightarrow> u64 \<Rightarrow> bytes option" where
  "SSTTableFileName dbname number = (if number > 0 then Some (MakeFileName dbname number (lit ''sst'')) else None)"

definition DescriptorFileName :: "bytes \<Rightarrow> u64 \<Rightarrow> bytes option" where
  "DescriptorFileName dbname number =
     (if number > 0 then Some (dbname @ take 99 (lit ''/MANIFEST-'' @ decimal6 (unat number))) else None)"

definition CurrentFileName :: "bytes \<Rightarrow> bytes" where
  "CurrentFileName dbname = dbname @ lit ''/CURRENT''"

definition LockFileName :: "bytes \<Rightarrow> bytes" where
  "LockFileName dbname = dbname @ lit ''/LOCK''"

definition TempFileName :: "bytes \<Rightarrow> u64 \<Rightarrow> bytes option" where
  "TempFileName dbname number = (if number > 0 then Some (MakeFileName dbname number (lit ''dbtmp'')) else None)"

definition InfoLogFileName :: "bytes \<Rightarrow> bytes" where
  "InfoLogFileName dbname = dbname @ lit ''/LOG''"

definition OldInfoLogFileName :: "bytes \<Rightarrow> bytes" where
  "OldInfoLogFileName dbname = dbname @ lit ''/LOG.old''"

text \<open>The number and the type, \<^term>\<open>None\<close> for \<open>false\<close>.\<close>

definition ParseFileName :: "bytes \<Rightarrow> (u64 \<times> FileType) option" where
  "ParseFileName filename =
     (let rest = filename
      in if Slice_eq rest (lit ''CURRENT'') then Some (0, kCurrentFile)
         else if Slice_eq rest (lit ''LOCK'') then Some (0, kDBLockFile)
         else if Slice_eq rest (lit ''LOG'') \<or> Slice_eq rest (lit ''LOG.old'')
         then Some (0, kInfoLogFile)
         else if Slice_starts_with rest (lit ''MANIFEST-'') then
           let rest = drop (length (lit ''MANIFEST-'')) rest
           in (case ConsumeDecimalNumber rest of
                 None \<Rightarrow> None
               | Some (rest, num) \<Rightarrow>
                   if rest \<noteq> [] then None else Some (num, kDescriptorFile))
         else
           (case ConsumeDecimalNumber rest of
              None \<Rightarrow> None
            | Some (suffix, num) \<Rightarrow>
                if Slice_eq suffix (lit ''.log'') then Some (num, kLogFile)
                else if Slice_eq suffix (lit ''.sst'') \<or> Slice_eq suffix (lit ''.ldb'')
                then Some (num, kTableFile)
                else if Slice_eq suffix (lit ''.dbtmp'') then Some (num, kTempFile)
                else None))"

subsection \<open>Names are recognised\<close>

lemma digits_from_zeros [simp]: "digits_from 0 (replicate k 48) = 0"
  by (induction k) auto

lemma decimal6_digits:
  "list_all isdigit (decimal6 n)" "decimal6 n \<noteq> []" "digits_from 0 (decimal6 n) = n"
proof -
  have "list_all isdigit (replicate k 48)" for k
    by (induction k) (auto simp: isdigit_def)
  then show "list_all isdigit (decimal6 n)" "decimal6 n \<noteq> []" "digits_from 0 (decimal6 n) = n"
    using decimal_digits [of n] by (simp_all add: decimal6_def Let_def)
qed

lemma ConsumeDecimalNumber_decimal6 [roundtrip]:
  "rest = [] \<or> \<not> isdigit (hd rest) \<Longrightarrow>
   ConsumeDecimalNumber (decimal6 (unat n) @ rest) = Some (rest, n)"
  using decimal6_digits [of "unat n"] unat_less_exp [of n]
  by (simp add: ConsumeDecimalNumber_digits)

lemma decimal_length: "0 < k \<Longrightarrow> n < 10 ^ k \<Longrightarrow> length (decimal n) \<le> k"
proof (induction n arbitrary: k rule: decimal.induct)
  case (1 n)
  show ?case
  proof (cases "n < 10")
    case True
    then show ?thesis using 1 by (simp add: decimal.simps [of n])
  next
    case False
    then obtain m where k: "k = Suc m" "0 < m"
      using 1(2,3) by (cases k; cases "k = 1") auto
    then have "n div 10 < 10 ^ m"
      using 1(3) by (simp add: less_mult_imp_div_less mult.commute)
    then show ?thesis
      using 1(1) False k by (simp add: decimal.simps [of n])
  qed
qed

lemma decimal6_length: "length (decimal6 (unat (n :: u64))) \<le> 20"
  using decimal_length [of 20 "unat n"] unat_less_exp [of n]
  by (simp add: decimal6_def Let_def)

text \<open>The buffer of \<open>MakeFileName\<close> is large enough.\<close>

lemma MakeFileName_fits:
  "length suffix \<le> 10 \<Longrightarrow> MakeFileName dbname n suffix
    = dbname @ lit ''/'' @ decimal6 (unat n) @ lit ''.'' @ suffix"
  using decimal6_length [of n] by (simp add: MakeFileName_def)

lemma DescriptorFileName_fits:
  "DescriptorFileName dbname n = (if n > 0 then Some (dbname @ lit ''/MANIFEST-'' @ decimal6 (unat n)) else None)"
  using decimal6_length [of n] by (simp add: DescriptorFileName_def)

definition base_name :: "bytes \<Rightarrow> bytes \<Rightarrow> bytes" where
  "base_name dbname path = drop (length dbname + 1) path"

lemma digit_start: "isdigit d \<Longrightarrow> ParseFileName (d # ds) =
   (case ConsumeDecimalNumber (d # ds) of
      None \<Rightarrow> None
    | Some (suffix, num) \<Rightarrow>
        if suffix = lit ''.log'' then Some (num, kLogFile)
        else if suffix = lit ''.sst'' \<or> suffix = lit ''.ldb'' then Some (num, kTableFile)
        else if suffix = lit ''.dbtmp'' then Some (num, kTempFile)
        else None)"
proof -
  assume "isdigit d"
  then have "d \<noteq> 67" "d \<noteq> 76" "d \<noteq> 77"
    by (auto simp: isdigit_def)
  then show ?thesis
    unfolding ParseFileName_def Slice_eq_iff by (simp add: Slice_starts_with_iff)
qed

lemma ParseFileName_number:
  assumes "rest = [] \<or> \<not> isdigit (hd rest)"
  shows "ParseFileName (decimal6 (unat n) @ rest) =
     (if rest = lit ''.log'' then Some (n, kLogFile)
      else if rest = lit ''.sst'' \<or> rest = lit ''.ldb'' then Some (n, kTableFile)
      else if rest = lit ''.dbtmp'' then Some (n, kTempFile)
      else None)"
proof -
  obtain d ds where d: "decimal6 (unat n) = d # ds" "isdigit d"
    using decimal6_digits [of "unat n"] by (cases "decimal6 (unat n)") auto
  then show ?thesis
    using ConsumeDecimalNumber_decimal6 [OF assms, of n] digit_start [of d "ds @ rest"] by simp
qed

text \<open>What the parser makes of the base name of a generated path.\<close>

definition parsed_base :: "bytes \<Rightarrow> bytes option \<Rightarrow> (u64 \<times> FileType) option option" where
  "parsed_base db = map_option (\<lambda>path. ParseFileName (base_name db path))"

text \<open>C12. Every name that the database gives to a file, without its directory, is recognised by
  \<open>ParseFileName\<close> with the file's number and type. The numbered names exist for every number but zero,
  for which the assertion of their functions fails.\<close>

theorem ParseFileName_generated:
  "parsed_base db (LogFileName db n) = (if 0 < n then Some (Some (n, kLogFile)) else None)
   \<and> parsed_base db (TableFileName db n) = (if 0 < n then Some (Some (n, kTableFile)) else None)
   \<and> parsed_base db (SSTTableFileName db n) = (if 0 < n then Some (Some (n, kTableFile)) else None)
   \<and> parsed_base db (DescriptorFileName db n) = (if 0 < n then Some (Some (n, kDescriptorFile)) else None)
   \<and> parsed_base db (TempFileName db n) = (if 0 < n then Some (Some (n, kTempFile)) else None)
   \<and> ParseFileName (base_name db (CurrentFileName db)) = Some (0, kCurrentFile)
   \<and> ParseFileName (base_name db (LockFileName db)) = Some (0, kDBLockFile)
   \<and> ParseFileName (base_name db (InfoLogFileName db)) = Some (0, kInfoLogFile)
   \<and> ParseFileName (base_name db (OldInfoLogFileName db)) = Some (0, kInfoLogFile)"
proof -
  have m: "ParseFileName (lit ''MANIFEST-'' @ decimal6 (unat n)) = Some (n, kDescriptorFile)"
    using ConsumeDecimalNumber_decimal6 [of "[]" n]
    by (simp add: ParseFileName_def Slice_starts_with_iff Let_def)
  show ?thesis
    using m ParseFileName_number [of "lit ''.log''" n] ParseFileName_number [of "lit ''.ldb''" n]
      ParseFileName_number [of "lit ''.sst''" n] ParseFileName_number [of "lit ''.dbtmp''" n]
    by (simp add: parsed_base_def base_name_def LogFileName_def TableFileName_def SSTTableFileName_def
        TempFileName_def MakeFileName_fits DescriptorFileName_fits CurrentFileName_def
        LockFileName_def InfoLogFileName_def OldInfoLogFileName_def isdigit_def ParseFileName_def)
qed

end
