(* ===== verification/Spec2Isabelle.thy ===== *)
theory Spec2Isabelle
  imports Compaction_Correct Db_Iter_Correct Table_Read_Correct Memtable Base64 Merger Block_Cache Version_Edit Filter_Block Comparators Log_Roundtrip Filename Dbformat
    Env_Files Logging Coding
begin

text \<open>
  A verification development for LevelDB, the key-value store that the application of this
  repository embeds through the Firebase client (\<open>Terp_Builder/Pods/leveldb-library\<close>), and for the
  base64 code of the web socket client (\<open>fbase64.c\<close>). File names below are relative to the
  LevelDB directory.

  \<^bold>\<open>The program.\<close> A write goes into a batch (\<open>db/write_batch.cc\<close>), the batch as one record into the log
  (\<open>db/log_writer.cc\<close>) and its operations into the memtable (\<open>db/memtable.cc\<close>), a skip list
  (\<open>db/skiplist.h\<close>) of internal keys (\<open>db/dbformat.cc\<close>) over an arena (\<open>util/arena.cc\<close>). A full memtable is
  written to a table file (\<open>table/table_builder.cc\<close>): data blocks (\<open>table/block_builder.cc\<close>), a filter block
  (\<open>table/filter_block.cc\<close>, \<open>util/bloom.cc\<close>), an index block and a footer (\<open>table/format.cc\<close>). Tables are
  read through blocks kept in a cache (\<open>util/cache.cc\<close>), by two-level iterators
  (\<open>table/two_level_iterator.cc\<close>), and merged (\<open>table/merger.cc\<close>). Which tables there are is a version, and
  versions change by version edits (\<open>db/version_edit.cc\<close>) in a log of their own.

  \<^bold>\<open>How code is modelled.\<close> A \<open>Slice\<close>, a \<open>std::string\<close> and a \<open>char\<close> buffer are lists of bytes
  (\<open>Prelude\<close>). Integers keep their width as words. A failed assertion, a read outside of the memory that a
  function was given, or a loop that does not end is the value \<open>None\<close>; errors of the code are \<open>Status\<close>
  values (\<open>Slices\<close>). A few assertions on arguments are hypotheses of the lemmas instead; the theories
  \<open>Slices\<close> and \<open>Dbformat\<close> name them. An abstract class is a record of its methods over the state of an
  implementation, and its documented contract is a locale, interpreted on the implementations of the
  repository: \<open>comparator\<close> (\<open>Comparators\<close>, \<open>Dbformat\<close>), \<open>filter_policy\<close> (\<open>Bloom\<close>, \<open>Dbformat\<close>),
  \<open>iterator\<close> (\<open>Iterators\<close>, with blocks, memtables, mergers, two-level iterators and tables as instances),
  \<open>key_order\<close> (\<open>Skiplist\<close>, \<open>Memtable\<close>), the files (\<open>Env_Files\<close>, \<open>Stored_Blocks\<close>) and the cache
  (\<open>Block_Cache\<close>). Objects that the code shares through pointers, the nodes of skip lists, the entries of
  the cache, the files and the versions, are in explicit stores. The links between the entries of the
  cache are read and written through operations that fail on an entry that has been freed.

  \<^bold>\<open>The theories.\<close>
  \<^item> \<open>Coding\<close>, \<open>Crc32c\<close>, \<open>Logging\<close>, \<open>Base64\<close>, \<open>Random_Numbers\<close>, \<open>Filename\<close>: number and string formats with
    their round trips, the CRC against polynomial division bit by bit, and the exactness of the parsers.
  \<^item> \<open>Comparators\<close>, \<open>Bloom\<close>, \<open>Dbformat\<close>: the orders on user keys and internal keys, separators, the
    Bloom filter, lookup keys.
  \<^item> \<open>Env_Files\<close>, \<open>Log\<close>, \<open>Log_Roundtrip\<close>: files over a script of system call results, and the log. What
    survives a crash is read as a prefix of the records that were written.
  \<^item> \<open>Arena\<close>, \<open>Skiplist\<close>, \<open>Skiplist_Correct\<close>, \<open>Write_Batch\<close>, \<open>Memtable\<close>: the memory side of the database. The
    skip list refines a sorted list, the memtable refines a map from keys to their last results, for every
    snapshot.
  \<^item> \<open>Iterators\<close>, \<open>Block\<close>, \<open>Block_Layout\<close>, \<open>Block_Correct\<close>, \<open>Filter_Block\<close>, \<open>Table_Format\<close>,
    \<open>Table_Builder\<close>, \<open>Two_Level\<close>, \<open>Merger\<close>, \<open>Table\<close>: the table side. Blocks read back what was built,
    filters have no false negatives, two-level and merging iterators keep the contract of their parts.
  \<^item> \<open>Stored_Blocks\<close>, \<open>Table_Build_Correct\<close>, \<open>Table_Read_Correct\<close>: whole tables. The builder leaves the
    image of a table in its file; the reader of that file, over the POSIX files and with or without a
    block cache, shows the entries that were added and finds their values.
  \<^item> \<open>Cache\<close>, \<open>Cache_Correct\<close>, \<open>Block_Cache\<close>: the sharded LRU cache with its reference counts, its safety,
    and the contract that its clients rely on.
  \<^item> \<open>Version_Edit\<close>, \<open>Options\<close>: records of settings and of changes, and their encoding.
  \<^item> \<open>Version_Files\<close>, \<open>Doubles\<close>, \<open>Version_State\<close>, \<open>Version_Builder\<close>, \<open>Version_Apply\<close> (\<open>db/version_set.cc\<close>):
    searches in the files of a level, the scores of the levels with their floating point numbers, versions
    and their reference counts, and the builder. A version has exactly the files that the edits leave,
    and edits that leave overlapping files above level 0 are stopped by an assertion.
  \<^item> \<open>Compaction\<close>, \<open>Compaction_Correct\<close> (\<open>db/version_set.cc\<close>): when a compaction is picked, and how complete
    its inputs are; with the case in which those of the next level are not.
  \<^item> \<open>Db_Iter\<close>, \<open>Db_Iter_Correct\<close> (\<open>db/db_iter.cc\<close>): the iterator of the user, which refines the list of the
    latest visible values.

  \<^bold>\<open>Bounds.\<close> Loops of the code that might not end on arbitrary input are partial functions with an option
  result; where they end is proved. Blocks are smaller than \<open>2\<^sup>3\<^sup>2\<close> bytes, which their 32-bit offsets
  need, so whole tables are shown to be read back if their file is; their blocks are uncompressed. A POSIX
  file does not grow past the largest value of \<open>off_t\<close>, where the kernel fails a write. Keys of a memtable
  are shorter than \<open>2\<^sup>3\<^sup>2 - 8\<close> bytes, and sequence numbers fit in 56 bits. A shard of the cache is shown to be safe for
  fewer than \<open>2\<^sup>3\<^sup>1\<close> calls, and as a block cache for fewer than \<open>2\<^sup>3\<^sup>1\<close> handles held and a capacity under
  \<open>2\<^sup>3\<^sup>4\<close>, the range of its reference counts. The keys of the children of a merging iterator are distinct.

  \<^bold>\<open>Not modelled.\<close> Threads, locks and memory order: each operation is one atomic step. The compression
  library is not in the repository and is a parameter. The database object with its background work, the
  parts of the version set that read and write the manifest, \<open>SetCurrentFile\<close> and the other file system
  operations. The Objective-C and Swift parts of the repository, the test helpers, and the parts of LevelDB
  that the manifest lists as not modelled.
\<close>

end
